(* ===== verification/BB_Prelude.thy ===== *)
theory BB_Prelude
  imports Main "HOL-Library.AList" "HOL-Library.Sublist" "HOL-Library.List_Lexorder"
    "HOL-Library.Char_ord" "HOL-Library.Multiset"
begin

text \<open>
  Shared vocabulary of the development: Python exceptions and results, Python strings and the
  string methods the sources call, insertion-ordered dictionaries, and the generic lemmas and
  fact collections the component theories use.

  A Python \<^verbatim>\<open>str\<close> is a \<^typ>\<open>string\<close>, one \<^typ>\<open>char\<close> per code point, so the model covers the
  code points U+0000 to U+00FF. A Python \<^verbatim>\<open>dict\<close> is an association list in insertion order, because
  several of the modelled loops iterate over dictionaries. An exception is the left value of a sum.
\<close>

named_theorems py_simps \<open>evaluation rules for the Python primitives\<close>

section \<open>Exceptions and results\<close>

datatype py_error =
    KeyError string
  | IndexError
  | ValueError string
  | TypeError
  | AttributeError
  | RuntimeError
  | ReError string
  | ParseError string
  | VersionStringException string
  | NoProvider string
  | NoRProvider string
  | MultipleRProvider string
  | BBHandledException string \<comment> \<open>\<^verbatim>\<open>bb.fatal\<close>, which logs and raises\<close>
  | SyntaxError string
  | RecursionError
  | PyException string \<comment> \<open>a plain \<^verbatim>\<open>Exception\<close>\<close>
  | SkipRecipe string
  | ExpansionError "string option" string py_error \<comment> \<open>the variable, the text that was expanded and the exception raised by it\<close>
  | FatalExit string \<comment> \<open>\<^verbatim>\<open>bb.msg.fatal\<close>, which logs and leaves through \<^verbatim>\<open>sys.exit\<close>\<close>

type_synonym 'a result = "py_error + 'a"

definition rbind :: "'a result \<Rightarrow> ('a \<Rightarrow> 'b result) \<Rightarrow> 'b result" where
  "rbind m f = (case m of Inl e \<Rightarrow> Inl e | Inr a \<Rightarrow> f a)"

lemma rbind_simps [simp]:
  "rbind (Inl e) f = Inl e"
  "rbind (Inr a) f = f a"
  by (simp_all add: rbind_def)

lemma rbind_cong [fundef_cong]:
  "m = m' \<Longrightarrow> (\<And>a. m' = Inr a \<Longrightarrow> f a = g a) \<Longrightarrow> rbind m f = rbind m' g"
  by (cases m') auto

lemma rbind_eq_Inr [simp]: "rbind m f = Inr b \<longleftrightarrow> (\<exists>a. m = Inr a \<and> f a = Inr b)"
  by (cases m) auto

lemma rbind_assoc: "rbind (rbind m f) g = rbind m (\<lambda>a. rbind (f a) g)"
  by (cases m) auto

text \<open>A Python loop or comprehension whose body may raise: the first exception ends it.\<close>

fun rmap :: "('a \<Rightarrow> 'b result) \<Rightarrow> 'a list \<Rightarrow> 'b list result" where
  "rmap f [] = Inr []"
| "rmap f (x # xs) = rbind (f x) (\<lambda>y. rbind (rmap f xs) (\<lambda>ys. Inr (y # ys)))"

fun rfold :: "('a \<Rightarrow> 'b \<Rightarrow> 'b result) \<Rightarrow> 'a list \<Rightarrow> 'b \<Rightarrow> 'b result" where
  "rfold f [] b = Inr b"
| "rfold f (x # xs) b = rbind (f x b) (rfold f xs)"

lemma rmap_cong [fundef_cong]:
  "xs = ys \<Longrightarrow> (\<And>x. x \<in> set ys \<Longrightarrow> f x = g x) \<Longrightarrow> rmap f xs = rmap g ys"
proof (induction ys arbitrary: xs)
  case Nil
  then show ?case by simp
next
  case (Cons y ys)
  then have "rmap f ys = rmap g ys" by simp
  with Cons.prems show ?case by simp
qed

lemma rfold_append: "rfold f (xs @ ys) b = rbind (rfold f xs b) (rfold f ys)"
proof (induction xs arbitrary: b)
  case Nil
  then show ?case by simp
next
  case (Cons x xs)
  then show ?case by (cases "f x b") simp_all
qed

lemma rmap_Inr: "rmap f xs = Inr ys \<Longrightarrow> length ys = length xs \<and> (\<forall>i < length xs. f (xs ! i) = Inr (ys ! i))"
proof (induction xs arbitrary: ys)
  case Nil
  then show ?case by simp
next
  case (Cons x xs)
  then obtain y zs where "f x = Inr y" "rmap f xs = Inr zs" "ys = y # zs" by auto
  with Cons.IH [of zs] show ?case by (auto simp: nth_Cons split: nat.splits)
qed

lemma rmap_all_Inr: "(\<And>x. x \<in> set xs \<Longrightarrow> f x = Inr (g x)) \<Longrightarrow> rmap f xs = Inr (map g xs)"
  by (induction xs) simp_all

text \<open>An invariant of the body is an invariant of the loop.\<close>

lemma rfold_invariant:
  assumes "rfold f xs b = Inr b'" and "I b"
    and "\<And>x c c'. x \<in> set xs \<Longrightarrow> I c \<Longrightarrow> f x c = Inr c' \<Longrightarrow> I c'"
  shows "I b'"
  using assms
proof (induction xs arbitrary: b)
  case Nil
  then show ?case by simp
next
  case (Cons x xs)
  from Cons.prems(1) obtain c where c: "f x b = Inr c" "rfold f xs c = Inr b'" by auto
  moreover have "I c" using Cons.prems c by auto
  ultimately show ?case using Cons.IH Cons.prems(3) by (metis list.set_intros(2))
qed

lemma rfold_total:
  assumes "\<And>x c. x \<in> set xs \<Longrightarrow> \<exists>c'. f x c = Inr c'"
  shows "\<exists>b'. rfold f xs b = Inr b'"
  using assms
proof (induction xs arbitrary: b)
  case Nil
  then show ?case by simp
next
  case (Cons x xs)
  from Cons.prems obtain c where "f x b = Inr c" by (meson list.set_intros(1))
  with Cons show ?case by simp
qed

section \<open>Strings\<close>

abbreviation startswith :: "string \<Rightarrow> string \<Rightarrow> bool" where
  "startswith s p \<equiv> prefix p s"

abbreviation endswith :: "string \<Rightarrow> string \<Rightarrow> bool" where
  "endswith s p \<equiv> suffix p s"

text \<open>Truth value of a \<^verbatim>\<open>str\<close> and of a \<^verbatim>\<open>str\<close> that may be \<^verbatim>\<open>None\<close>.\<close>

abbreviation truthy :: "string \<Rightarrow> bool" where
  "truthy s \<equiv> s \<noteq> []"

fun opt_truthy :: "string option \<Rightarrow> bool" where
  "opt_truthy None = False"
| "opt_truthy (Some s) = truthy s"

lemma opt_truthy_iff: "opt_truthy x \<longleftrightarrow> (\<exists>s. x = Some s \<and> s \<noteq> [])"
  by (cases x) auto

definition is_space :: "char \<Rightarrow> bool" where
  "is_space c = (let n = (of_char c :: nat) in
     (9 \<le> n \<and> n \<le> 13) \<or> (28 \<le> n \<and> n \<le> 32) \<or> n = 133 \<or> n = 160)"

definition is_digit :: "char \<Rightarrow> bool" where
  "is_digit c = (let n = (of_char c :: nat) in 48 \<le> n \<and> n \<le> 57)"

definition is_ascii_letter :: "char \<Rightarrow> bool" where
  "is_ascii_letter c = (let n = (of_char c :: nat) in (65 \<le> n \<and> n \<le> 90) \<or> (97 \<le> n \<and> n \<le> 122))"

definition digit_val :: "char \<Rightarrow> nat" where
  "digit_val c = of_char c - 48"

text \<open>\<^verbatim>\<open>s.split()\<close>: maximal runs of characters that are not white space.\<close>

fun split_ws_from :: "string \<Rightarrow> string \<Rightarrow> string list" where
  "split_ws_from w [] = (if w = [] then [] else [w])"
| "split_ws_from w (c # cs) =
     (if is_space c then (if w = [] then split_ws_from [] cs else w # split_ws_from [] cs)
      else split_ws_from (w @ [c]) cs)"

definition split_ws :: "string \<Rightarrow> string list" where
  "split_ws s = split_ws_from [] s"

text \<open>\<^verbatim>\<open>s.split(c)\<close> for a one-character separator, \<^verbatim>\<open>sep.join(ws)\<close> and \<^verbatim>\<open>s.rsplit(c, 1)\<close>.\<close>

fun split_on :: "char \<Rightarrow> string \<Rightarrow> string list" where
  "split_on c [] = [[]]"
| "split_on c (x # xs) =
     (if x = c then [] # split_on c xs
      else (case split_on c xs of [] \<Rightarrow> [[x]] | w # ws \<Rightarrow> (x # w) # ws))"

fun join :: "string \<Rightarrow> string list \<Rightarrow> string" where
  "join sep [] = []"
| "join sep [w] = w"
| "join sep (w # v # ws) = w @ sep @ join sep (v # ws)"

definition rsplit1 :: "char \<Rightarrow> string \<Rightarrow> string list" where
  "rsplit1 c s =
     (case dropWhile (\<lambda>x. x \<noteq> c) (rev s) of
        [] \<Rightarrow> [s]
      | _ # b \<Rightarrow> [rev b, rev (takeWhile (\<lambda>x. x \<noteq> c) (rev s))])"

text \<open>\<^verbatim>\<open>s.replace(old, new)\<close>\<close>

function str_replace_ne :: "string \<Rightarrow> string \<Rightarrow> string \<Rightarrow> string" where
  "str_replace_ne old new s =
     (if s = [] \<or> old = [] then s
      else if startswith s old then new @ str_replace_ne old new (drop (length old) s)
      else hd s # str_replace_ne old new (tl s))"
  by pat_completeness auto
termination
  by (relation "measure (\<lambda>(_, _, s). length s)") auto

definition str_replace :: "string \<Rightarrow> string \<Rightarrow> string \<Rightarrow> string" where
  "str_replace old new s = (if old = [] then new @ concat (map (\<lambda>c. c # new) s) else str_replace_ne old new s)"

definition strip_chars :: "string \<Rightarrow> string \<Rightarrow> string" where
  "strip_chars cs s = rev (dropWhile (\<lambda>x. x \<in> set cs) (rev (dropWhile (\<lambda>x. x \<in> set cs) s)))"

definition strip_ws :: "string \<Rightarrow> string" where
  "strip_ws s = rev (dropWhile is_space (rev (dropWhile is_space s)))"

text \<open>
  \<^verbatim>\<open>int(s)\<close> in base ten: surrounding white space, an optional sign, digits with single
  underscores between them; anything else is a \<^verbatim>\<open>ValueError\<close>.
\<close>

fun py_digits :: "nat \<Rightarrow> bool \<Rightarrow> string \<Rightarrow> nat option" where
  "py_digits n d [] = (if d then Some n else None)"
| "py_digits n d (c # cs) =
     (if is_digit c then py_digits (10 * n + digit_val c) True cs
      else if c = CHR ''_'' \<and> d then py_digits n False cs
      else None)"

definition py_int :: "string \<Rightarrow> int result" where
  "py_int s =
     (case strip_ws s of
        [] \<Rightarrow> Inl (ValueError s)
      | c # cs \<Rightarrow>
          (case (if c = CHR ''-'' \<or> c = CHR ''+'' then py_digits 0 False cs
                 else py_digits 0 False (c # cs)) of
             None \<Rightarrow> Inl (ValueError s)
           | Some n \<Rightarrow> Inr (if c = CHR ''-'' then - int n else int n)))"

lemma is_digit_simps [simp]: "\<not> is_digit (CHR '':'')" "\<not> is_digit (CHR ''-'')"
  by (simp_all add: is_digit_def)

lemma split_on_not_Nil [simp]: "split_on c s \<noteq> []"
  by (induction s) (auto split: list.splits)

lemma split_on_join: "join [c] (split_on c s) = s"
proof (induction s)
  case Nil
  then show ?case by simp
next
  case (Cons x s)
  obtain w ws where w: "split_on c s = w # ws" by (cases "split_on c s") auto
  with Cons show ?case by (cases ws) auto
qed

lemma split_on_no_sep: "c \<notin> set s \<Longrightarrow> split_on c s = [s]"
  by (induction s) auto

lemma split_on_append_sep: "c \<notin> set w \<Longrightarrow> split_on c (w @ c # s) = w # split_on c s"
  by (induction w) auto

lemma split_on_parts: "w \<in> set (split_on c s) \<Longrightarrow> c \<notin> set w"
proof (induction s arbitrary: w)
  case Nil
  then show ?case by simp
next
  case (Cons x s)
  obtain v vs where v: "split_on c s = v # vs" by (cases "split_on c s") auto
  then show ?case using Cons by (auto split: if_splits)
qed

lemma split_on_of_join:
  assumes "\<forall>w \<in> set ws. c \<notin> set w" and "ws \<noteq> []"
  shows "split_on c (join [c] ws) = ws"
  using assms
proof (induction ws)
  case Nil
  then show ?case by simp
next
  case (Cons w ws)
  then show ?case by (cases ws) (simp_all add: split_on_no_sep split_on_append_sep)
qed

lemma length_split_on: "length (split_on c s) = Suc (count_list s c)"
proof (induction s)
  case Nil
  then show ?case by simp
next
  case (Cons x s)
  obtain w ws where "split_on c s = w # ws" by (cases "split_on c s") auto
  with Cons show ?case by auto
qed

lemma rsplit1_snoc: "c \<notin> set b \<Longrightarrow> rsplit1 c (a @ c # b) = [a, b]"
proof -
  assume "c \<notin> set b"
  then have ne: "\<And>x. x \<in> set (rev b) \<Longrightarrow> x \<noteq> c" by auto
  have "dropWhile (\<lambda>x. x \<noteq> c) (rev b @ c # rev a) = dropWhile (\<lambda>x. x \<noteq> c) (c # rev a)"
    by (rule dropWhile_append2) (use ne in simp)
  moreover have "takeWhile (\<lambda>x. x \<noteq> c) (rev b @ c # rev a) = rev b @ takeWhile (\<lambda>x. x \<noteq> c) (c # rev a)"
    by (rule takeWhile_append2) (use ne in simp)
  ultimately have "dropWhile (\<lambda>x. x \<noteq> c) (rev b @ c # rev a) = c # rev a"
    and "takeWhile (\<lambda>x. x \<noteq> c) (rev b @ c # rev a) = rev b"
    by simp_all
  then show ?thesis by (simp add: rsplit1_def)
qed

lemma rsplit1_none: "c \<notin> set s \<Longrightarrow> rsplit1 c s = [s]"
proof -
  assume "c \<notin> set s"
  then have "dropWhile (\<lambda>x. x \<noteq> c) (rev s) = []" unfolding dropWhile_eq_Nil_conv by auto
  then show ?thesis by (simp only: rsplit1_def list.case)
qed

lemma rsplit1_cases:
  obtains (none) "c \<notin> set s" "rsplit1 c s = [s]"
  | (some) a b where "s = a @ c # b" "c \<notin> set b" "rsplit1 c s = [a, b]"
proof (cases "c \<in> set s")
  case True
  then obtain a b where "s = a @ c # b" "c \<notin> set b" by (meson split_list_last)
  then show ?thesis using some rsplit1_snoc by metis
next
  case False
  then show ?thesis using none rsplit1_none by metis
qed

lemma split_ws_word:
  "\<forall>c \<in> set w. \<not> is_space c \<Longrightarrow> split_ws_from v (w @ s) = split_ws_from (v @ w) s"
  by (induction w arbitrary: v) auto

lemma split_ws_from_parts:
  "x \<in> set (split_ws_from w s) \<Longrightarrow> \<forall>c \<in> set w. \<not> is_space c \<Longrightarrow> x \<noteq> [] \<and> (\<forall>c \<in> set x. \<not> is_space c)"
proof (induction w s rule: split_ws_from.induct)
  case (1 w)
  then show ?case by (auto split: if_splits)
next
  case (2 w c cs)
  show ?case
  proof (cases "is_space c")
    case True
    show ?thesis
    proof (cases "w = []")
      case w: True
      then have "x \<in> set (split_ws_from [] cs)" using "2.prems"(1) True by simp
      then show ?thesis by (rule "2.IH"(1) [OF True w]) simp
    next
      case w: False
      then have "x = w \<or> x \<in> set (split_ws_from [] cs)" using "2.prems"(1) True by simp
      then show ?thesis using "2.IH"(2) [OF True w] w "2.prems"(2) by auto
    qed
  next
    case False
    with "2.prems"(1) have "x \<in> set (split_ws_from (w @ [c]) cs)" by simp
    moreover have "\<forall>c' \<in> set (w @ [c]). \<not> is_space c'" using False "2.prems"(2) by simp
    ultimately show ?thesis by (rule "2.IH"(3) [OF False])
  qed
qed

lemma split_ws_parts: "x \<in> set (split_ws s) \<Longrightarrow> x \<noteq> [] \<and> (\<forall>c \<in> set x. \<not> is_space c)"
  using split_ws_from_parts [of x "[]" s] by (simp add: split_ws_def)

lemma is_space_blank [simp]: "is_space (CHR '' '')"
  by (simp add: is_space_def)

lemma split_ws_Nil [simp]: "split_ws [] = []"
  by (simp add: split_ws_def)

lemma split_ws_cons:
  assumes "\<forall>c \<in> set w. \<not> is_space c" and "w \<noteq> []"
  shows "split_ws (w @ CHR '' '' # s) = w # split_ws s"
  using assms split_ws_word [of w "[]" "CHR '' '' # s"] by (simp add: split_ws_def)

lemma split_ws_single:
  assumes "\<forall>c \<in> set w. \<not> is_space c" and "w \<noteq> []"
  shows "split_ws w = [w]"
  using assms split_ws_word [of w "[]" "[]"] by (simp add: split_ws_def)

lemma split_ws_from_blank:
  "split_ws_from w (a @ CHR '' '' # b) = split_ws_from w a @ split_ws_from [] b"
  by (induction a arbitrary: w) simp_all

lemma split_ws_join_concat: "split_ws (join '' '' items) = concat (map split_ws items)"
proof (induction items)
  case Nil
  then show ?case by simp
next
  case (Cons x xs)
  then show ?case by (cases xs) (simp_all add: split_ws_def split_ws_from_blank)
qed

lemma strip_ws_id: "\<forall>c \<in> set s. \<not> is_space c \<Longrightarrow> strip_ws s = s"
proof -
  have *: "\<forall>c \<in> set t. \<not> is_space c \<Longrightarrow> dropWhile is_space t = t" for t
    by (cases t) auto
  assume "\<forall>c \<in> set s. \<not> is_space c"
  then show ?thesis using * [of s] * [of "rev s"] by (simp add: strip_ws_def)
qed

lemma split_ws_join:
  assumes "\<forall>w \<in> set ws. w \<noteq> [] \<and> (\<forall>c \<in> set w. \<not> is_space c)"
  shows "split_ws (join '' '' ws) = ws"
  using assms
proof (induction ws)
  case Nil
  then show ?case by simp
next
  case (Cons w ws)
  then show ?case by (cases ws) (simp_all add: split_ws_cons split_ws_single)
qed

section \<open>Dictionaries\<close>

type_synonym ('k, 'v) dict = "('k \<times> 'v) list"

abbreviation dict_keys :: "('k, 'v) dict \<Rightarrow> 'k list" where
  "dict_keys d \<equiv> map fst d"

text \<open>\<^verbatim>\<open>d[k] = v\<close>: an existing key keeps its place, a new one goes to the end.\<close>

abbreviation dict_set :: "'k \<Rightarrow> 'v \<Rightarrow> ('k, 'v) dict \<Rightarrow> ('k, 'v) dict" where
  "dict_set \<equiv> AList.update"

definition has_key :: "('k, 'v) dict \<Rightarrow> 'k \<Rightarrow> bool" where
  "has_key d k = (map_of d k \<noteq> None)"

definition dict_lookup :: "(string, 'v) dict \<Rightarrow> string \<Rightarrow> 'v result" where
  "dict_lookup d k = (case map_of d k of None \<Rightarrow> Inl (KeyError k) | Some v \<Rightarrow> Inr v)"

text \<open>Reading a \<^verbatim>\<open>defaultdict(list)\<close> and \<^verbatim>\<open>d[k].append(v)\<close> on it.\<close>

definition dd_get :: "('k, 'v list) dict \<Rightarrow> 'k \<Rightarrow> 'v list" where
  "dd_get d k = (case map_of d k of None \<Rightarrow> [] | Some vs \<Rightarrow> vs)"

definition dd_append :: "'k \<Rightarrow> 'v \<Rightarrow> ('k, 'v list) dict \<Rightarrow> ('k, 'v list) dict" where
  "dd_append k v d = dict_set k (dd_get d k @ [v]) d"

abbreviation dict_wf :: "('k, 'v) dict \<Rightarrow> bool" where
  "dict_wf d \<equiv> distinct (dict_keys d)"

lemma map_of_dict_set [simp]: "map_of (dict_set k v d) = (map_of d)(k \<mapsto> v)"
  by (simp add: update_conv')

lemma dict_keys_set: "dict_keys (dict_set k v d) = (if k \<in> set (dict_keys d) then dict_keys d else dict_keys d @ [k])"
  by (induction d) auto

lemma set_dict_keys_set [simp]: "fst ` set (dict_set k v d) = insert k (fst ` set d)"
proof -
  have "set (dict_keys (dict_set k v d)) = insert k (set (dict_keys d))"
    by (auto simp: dict_keys_set)
  then show ?thesis by simp
qed

lemma dict_wf_set [simp]: "dict_wf d \<Longrightarrow> dict_wf (dict_set k v d)"
  by (simp add: dict_keys_set)

lemma has_key_iff: "has_key d k \<longleftrightarrow> k \<in> set (dict_keys d)"
  by (simp add: has_key_def map_of_eq_None_iff)

lemma has_key_set [simp]: "has_key (dict_set k v d) k' \<longleftrightarrow> k' = k \<or> has_key d k'"
  by (simp add: has_key_def)

lemma has_key_Nil [simp]: "\<not> has_key [] k"
  by (simp add: has_key_def)

lemma dd_get_set [simp]: "dd_get (dict_set k v d) k' = (if k' = k then v else dd_get d k')"
  by (simp add: dd_get_def)

lemma dd_get_Nil [simp]: "dd_get [] k = []"
  by (simp add: dd_get_def)

lemma dd_get_append [simp]:
  "dd_get (dd_append k v d) k' = (if k' = k then dd_get d k @ [v] else dd_get d k')"
  by (simp add: dd_append_def)

lemma has_key_dd_append [simp]: "has_key (dd_append k v d) k' \<longleftrightarrow> k' = k \<or> has_key d k'"
  by (simp add: dd_append_def)

lemma dict_wf_dd_append [simp]: "dict_wf d \<Longrightarrow> dict_wf (dd_append k v d)"
  by (simp add: dd_append_def)

lemma dict_lookup_Inr [simp]: "dict_lookup d k = Inr v \<longleftrightarrow> map_of d k = Some v"
  by (auto simp: dict_lookup_def split: option.splits)

lemma dict_lookup_Inl [simp]: "dict_lookup d k = Inl e \<longleftrightarrow> map_of d k = None \<and> e = KeyError k"
  by (auto simp: dict_lookup_def split: option.splits)

lemma dict_lookup_Some: "map_of d k = Some v \<Longrightarrow> dict_lookup d k = Inr v"
  by simp

lemmas dict_defs = has_key_def dict_lookup_def dd_get_def dd_append_def

declare is_space_def [py_simps] is_digit_def [py_simps] is_ascii_letter_def [py_simps]
  digit_val_def [py_simps] split_ws_def [py_simps] rsplit1_def [py_simps]
  strip_chars_def [py_simps] strip_ws_def [py_simps] py_int_def [py_simps] has_key_def [py_simps]
  dict_lookup_def [py_simps] dd_get_def [py_simps] dd_append_def [py_simps]

section \<open>Lists\<close>

text \<open>\<^verbatim>\<open>if x not in l: l.append(x)\<close>, the idiom of an ordered set.\<close>

definition add_new :: "'a \<Rightarrow> 'a list \<Rightarrow> 'a list" where
  "add_new x xs = (if x \<in> set xs then xs else xs @ [x])"

lemma set_add_new [simp]: "set (add_new x xs) = insert x (set xs)"
  by (auto simp: add_new_def)

lemma distinct_add_new [simp]: "distinct (add_new x xs) \<longleftrightarrow> distinct xs"
  by (auto simp: add_new_def)

lemma set_fold_add_new: "set (fold add_new ys xs) = set xs \<union> set ys"
  by (induction ys arbitrary: xs) auto

lemma distinct_fold_add_new: "distinct (fold add_new ys xs) \<longleftrightarrow> distinct xs"
  by (induction ys arbitrary: xs) auto

text \<open>\<^verbatim>\<open>l.remove(x)\<close>: the first occurrence goes, a missing element raises.\<close>

definition list_remove :: "string \<Rightarrow> string list \<Rightarrow> string list result" where
  "list_remove x xs = (if x \<in> set xs then Inr (remove1 x xs) else Inl (ValueError x))"

lemma list_remove_Inr [simp]: "list_remove x xs = Inr ys \<longleftrightarrow> x \<in> set xs \<and> ys = remove1 x xs"
  by (auto simp: list_remove_def)

text \<open>Collecting the buckets of a key in ascending order is a stable sort by that key.\<close>

definition buckets :: "('a \<Rightarrow> 'k) \<Rightarrow> 'k list \<Rightarrow> 'a list \<Rightarrow> 'a list" where
  "buckets k bs xs = concat (map (\<lambda>b. filter (\<lambda>x. k x = b) xs) bs)"

lemma mset_filter_disj:
  "(\<And>x. \<not> (P x \<and> Q x)) \<Longrightarrow> mset (filter P xs) + mset (filter Q xs) = mset (filter (\<lambda>x. P x \<or> Q x) xs)"
  by (induction xs) auto

lemma mset_buckets: "distinct bs \<Longrightarrow> mset (buckets k bs xs) = mset (filter (\<lambda>x. k x \<in> set bs) xs)"
proof (induction bs)
  case Nil
  then show ?case by (simp add: buckets_def)
next
  case (Cons b bs)
  have "mset (buckets k (b # bs) xs) = mset (filter (\<lambda>x. k x = b) xs) + mset (filter (\<lambda>x. k x \<in> set bs) xs)"
    using Cons by (simp add: buckets_def)
  also have "\<dots> = mset (filter (\<lambda>x. k x = b \<or> k x \<in> set bs) xs)"
    using Cons.prems by (intro mset_filter_disj) auto
  finally show ?case by simp
qed

lemma filter_buckets:
  "distinct bs \<Longrightarrow> filter (\<lambda>x. c = k x) (buckets k bs xs) = (if c \<in> set bs then filter (\<lambda>x. c = k x) xs else [])"
proof (induction bs)
  case Nil
  then show ?case by (simp add: buckets_def)
next
  case (Cons b bs)
  have "filter (\<lambda>x. c = k x \<and> k x = b) xs = (if c = b then filter (\<lambda>x. c = k x) xs else [])"
    by (auto simp: filter_empty_conv intro: filter_cong)
  with Cons show ?case by (auto simp: buckets_def conj_commute)
qed

lemma sorted_buckets: "sorted_wrt (<) bs \<Longrightarrow> sorted (map k (buckets k (bs :: 'k :: linorder list) xs))"
proof (induction bs)
  case Nil
  then show ?case by (simp add: buckets_def)
next
  case (Cons b bs)
  have const: "sorted (map k (filter (\<lambda>x. k x = b) xs))" by (induction xs) auto
  have "sorted (map k (buckets k bs xs))" and "\<forall>c \<in> set bs. b \<le> c" using Cons by auto
  with const show ?case by (auto simp: buckets_def sorted_append)
qed

lemma sort_key_buckets: "sort_key k xs = buckets k (sorted_list_of_set (k ` set xs)) xs"
proof (rule properties_for_sort_key)
  have d: "distinct (sorted_list_of_set (k ` set xs))" by simp
  have all: "filter (\<lambda>x. k x \<in> set (sorted_list_of_set (k ` set xs))) xs = xs" by (simp add: filter_id_conv)
  show "mset (buckets k (sorted_list_of_set (k ` set xs)) xs) = mset xs"
    using mset_buckets [OF d, of k xs] all by simp
  show "sorted (map k (buckets k (sorted_list_of_set (k ` set xs)) xs))"
    by (rule sorted_buckets) (rule strict_sorted_list_of_set)
  fix a
  assume "a \<in> set (buckets k (sorted_list_of_set (k ` set xs)) xs)"
  then have "k a \<in> k ` set xs" by (auto simp: buckets_def)
  then show "filter (\<lambda>x. k a = k x) (buckets k (sorted_list_of_set (k ` set xs)) xs) = filter (\<lambda>x. k a = k x) xs"
    using filter_buckets [OF d, of "k a" k xs] by simp
qed

lemma sort_distinct_set: "distinct xs \<Longrightarrow> sort xs = sorted_list_of_set (set xs)"
  by (simp add: sorted_list_of_set_sort_remdups distinct_remdups_id)

lemma rev_sorted_list_Max:
  assumes "finite P" and "P \<noteq> {}"
  shows "\<exists>bs. rev (sorted_list_of_set P) = Max P # bs"
proof (cases "rev (sorted_list_of_set P)")
  case Nil
  with assms show ?thesis by simp
next
  case (Cons b bs)
  then have L: "sorted_list_of_set P = rev bs @ [b]" by simp
  have P: "set (sorted_list_of_set P) = P" using assms(1) by simp
  have "sorted (rev bs @ [b])" using sorted_sorted_list_of_set [of P] L by simp
  then have "\<forall>x \<in> set (rev bs @ [b]). x \<le> b" by (auto simp: sorted_append)
  then have "Max P = b" using assms(1) P L by (intro Max_eqI) auto
  with Cons show ?thesis by simp
qed

lemma fold_Cons_map: "fold (\<lambda>x acc. g x # acc) xs acc = rev (map g xs) @ acc"
  by (induction xs arbitrary: acc) auto

lemma list_of_length2: "length xs = 2 \<Longrightarrow> xs = [xs ! 0, xs ! 1]"
  by (rule nth_equalityI) (auto simp: less_Suc_eq numeral_2_eq_2)

lemma sort_key_map: "sort_key f (map g xs) = map g (sort_key (\<lambda>x. f (g x)) xs)"
proof (induction xs)
  case Nil
  then show ?case by simp
next
  case (Cons x xs)
  have "insort_key f (g x) (map g ys) = map g (insort_key (\<lambda>x. f (g x)) x ys)" for ys
    by (induction ys) auto
  with Cons show ?case by simp
qed

lemma dict_set_snoc: "k \<notin> fst ` set r \<Longrightarrow> dict_set k v (r @ [(k, u)]) = r @ [(k, v)]"
  by (induction r) auto

lemma dict_set_new: "k \<notin> fst ` set r \<Longrightarrow> dict_set k v r = r @ [(k, v)]"
  by (induction r) auto

lemma map_of_mem: "map_of d k = Some v \<Longrightarrow> k \<in> set (dict_keys d)"
  by (metis domI dom_map_of_conv_image_fst list.set_map)

end
