(* ===== verification/BB_Version.thy ===== *)
theory BB_Version
  imports BB_Prelude
begin

text \<open>
  Version comparison of \<^verbatim>\<open>bb/utils.py\<close>: \<^verbatim>\<open>explode_version\<close>, \<^verbatim>\<open>split_version\<close>, \<^verbatim>\<open>vercmp_part\<close>,
  \<^verbatim>\<open>vercmp\<close>, \<^verbatim>\<open>vercmp_string\<close> and \<^verbatim>\<open>vercmp_string_op\<close>.

  The interface other components rely on is the locale \<open>comparison\<close>: a three-way comparison that
  is a total preorder. It is interpreted on the comparison of exploded versions.
\<close>

section \<open>Three-way comparisons\<close>

locale comparison =
  fixes cmp :: "'a \<Rightarrow> 'a \<Rightarrow> int"
  assumes cmp_swap: "cmp b a < 0 \<longleftrightarrow> 0 < cmp a b"
    and cmp_trans: "cmp a b \<le> 0 \<Longrightarrow> cmp b c \<le> 0 \<Longrightarrow> cmp a c \<le> 0"
begin

lemma cmp_refl: "cmp a a = 0"
  using cmp_swap [of a a] by linarith

lemma cmp_zero_sym: "cmp a b = 0 \<longleftrightarrow> cmp b a = 0"
  using cmp_swap [of a b] cmp_swap [of b a] by linarith

lemma cmp_total: "cmp a b \<le> 0 \<or> cmp b a \<le> 0"
  using cmp_swap [of a b] by linarith

lemma cmp_le_iff: "cmp a b \<le> 0 \<longleftrightarrow> 0 \<le> cmp b a"
  using cmp_swap [of a b] cmp_swap [of b a] by linarith

lemma cmp_less_le_trans: "cmp a b < 0 \<Longrightarrow> cmp b c \<le> 0 \<Longrightarrow> cmp a c < 0"
  using cmp_trans [of b c a] cmp_le_iff [of c a] cmp_le_iff [of b a] by linarith

text \<open>Comparing by a first key and then by a second one is a comparison again.\<close>

lemma cmp_lex_swap:
  assumes "\<And>x y. c2 y x < 0 \<longleftrightarrow> (0::int) < c2 x y"
  shows "(if cmp b a \<noteq> 0 then cmp b a else c2 y x) < 0 \<longleftrightarrow>
    0 < (if cmp a b \<noteq> 0 then cmp a b else c2 x y)"
  using assms [of y x] cmp_swap [of b a] cmp_zero_sym [of a b] by auto

lemma cmp_lex_trans:
  assumes "\<And>x y z. c2 x y \<le> (0::int) \<Longrightarrow> c2 y z \<le> 0 \<Longrightarrow> c2 x z \<le> 0"
    and "(if cmp a b \<noteq> 0 then cmp a b else c2 x y) \<le> 0"
    and "(if cmp b c \<noteq> 0 then cmp b c else c2 y z) \<le> 0"
  shows "(if cmp a c \<noteq> 0 then cmp a c else c2 x z) \<le> 0"
proof -
  have ab: "cmp a b \<le> 0" and bc: "cmp b c \<le> 0" using assms(2,3) by (auto split: if_splits)
  then have ac: "cmp a c \<le> 0" by (rule cmp_trans)
  show ?thesis
  proof (cases "cmp a c = 0")
    case True
    then have "0 \<le> cmp c a" using cmp_zero_sym [of a c] by simp
    moreover have "cmp b a \<le> 0"
      using cmp_trans [OF bc] True cmp_zero_sym [of a c] by simp
    moreover have "cmp c b \<le> 0"
      using cmp_trans [OF _ ab] True cmp_zero_sym [of a c] by simp
    ultimately have "cmp a b = 0" "cmp b c = 0"
      using ab bc cmp_le_iff [of b a] cmp_le_iff [of c b] by linarith+
    with True assms show ?thesis by auto
  next
    case False
    with ac show ?thesis by simp
  qed
qed

end

section \<open>Tokens of a version\<close>

text \<open>
  A token is the tuple \<^verbatim>\<open>explode_version\<close> appends: \<open>Tilde\<close> is \<^verbatim>\<open>(-1, '~')\<close>, \<open>Num n\<close> is \<^verbatim>\<open>(0, n)\<close>,
  \<open>Alpha s\<close> is \<^verbatim>\<open>(1, s)\<close> and \<open>Other c\<close> is \<^verbatim>\<open>(2, c)\<close>.
\<close>

datatype vtok = Tilde | Num nat | Alpha string | Other char

fun tok_order :: "vtok \<Rightarrow> int" where
  "tok_order Tilde = -1"
| "tok_order (Num n) = 0"
| "tok_order (Alpha s) = 1"
| "tok_order (Other c) = 2"

text \<open>Order of the tokens: first component first, then the values, which then have one type.\<close>

instantiation vtok :: linorder
begin

fun less_vtok :: "vtok \<Rightarrow> vtok \<Rightarrow> bool" where
  "less_vtok (Num m) (Num n) = (m < n)"
| "less_vtok (Alpha s) (Alpha t) = (s < t)"
| "less_vtok (Other c) (Other d) = (c < d)"
| "less_vtok x y = (tok_order x < tok_order y)"

definition less_eq_vtok :: "vtok \<Rightarrow> vtok \<Rightarrow> bool" where
  "less_eq_vtok x y = (x < y \<or> x = y)"

instance
proof
  fix x y z :: vtok
  show "x < y \<longleftrightarrow> x \<le> y \<and> \<not> y \<le> x"
    by (cases x; cases y) (auto simp: less_eq_vtok_def)
  show "x \<le> x" by (simp add: less_eq_vtok_def)
  show "x \<le> y \<Longrightarrow> y \<le> z \<Longrightarrow> x \<le> z"
    by (cases x; cases y; cases z) (auto simp: less_eq_vtok_def)
  show "x \<le> y \<Longrightarrow> y \<le> x \<Longrightarrow> x = y"
    by (cases x; cases y) (auto simp: less_eq_vtok_def)
  show "x \<le> y \<or> y \<le> x"
    by (cases x; cases y) (auto simp: less_eq_vtok_def)
qed

end

lemma less_vtok_order: "tok_order x \<noteq> tok_order y \<Longrightarrow> x < y \<longleftrightarrow> tok_order x < tok_order y"
  by (cases x; cases y) auto

lemma Tilde_least [simp]: "\<not> t < Tilde"
  by (cases t) auto

lemma tok_order_ge [simp]: "\<not> tok_order t < -1" "-1 < tok_order t \<longleftrightarrow> t \<noteq> Tilde"
  by (cases t, auto)+

section \<open>Exploding a version string\<close>

text \<open>
  Group 2 of \<^verbatim>\<open>^(...)(.*)$\<close>: the dot does not match a line feed, and \<^verbatim>\<open>$\<close> accepts only a single
  trailing one. Where the pattern does not match, \<^verbatim>\<open>m.group\<close> raises on \<^verbatim>\<open>None\<close>.
\<close>

definition line_rest :: "string \<Rightarrow> string result" where
  "line_rest s =
     (case dropWhile (\<lambda>c. c \<noteq> CHR 0x0A) s of
        [] \<Rightarrow> Inr s
      | [_] \<Rightarrow> Inr (takeWhile (\<lambda>c. c \<noteq> CHR 0x0A) s)
      | _ \<Rightarrow> Inl AttributeError)"

lemma line_rest_length: "line_rest s = Inr r \<Longrightarrow> length r \<le> length s"
  by (auto simp: line_rest_def length_takeWhile_le split: list.splits)

lemma line_rest_no_newline: "CHR 0x0A \<notin> set s \<Longrightarrow> line_rest s = Inr s"
proof -
  assume "CHR 0x0A \<notin> set s"
  then have "dropWhile (\<lambda>c. c \<noteq> CHR 0x0A) s = []" unfolding dropWhile_eq_Nil_conv by auto
  then show ?thesis by (simp only: line_rest_def list.case)
qed

definition digits_value :: "string \<Rightarrow> nat" where
  "digits_value s = foldl (\<lambda>n c. 10 * n + digit_val c) 0 s"

function explode_version :: "string \<Rightarrow> vtok list result" where
  "explode_version [] = Inr []"
| "explode_version (c # cs) =
     (if is_digit c then
        rbind (line_rest (dropWhile is_digit cs)) (\<lambda>s.
        rbind (explode_version s) (\<lambda>r. Inr (Num (digits_value (c # takeWhile is_digit cs)) # r)))
      else if is_ascii_letter c then
        rbind (line_rest (dropWhile is_ascii_letter cs)) (\<lambda>s.
        rbind (explode_version s) (\<lambda>r. Inr (Alpha (c # takeWhile is_ascii_letter cs) # r)))
      else
        rbind (explode_version cs) (\<lambda>r. Inr ((if c = CHR ''~'' then Tilde else Other c) # r)))"
  by pat_completeness auto
termination
proof (relation "measure length")
  fix c :: char and cs s :: string
  assume "line_rest (dropWhile is_digit cs) = Inr s"
  then have "length s \<le> length (dropWhile is_digit cs)" by (rule line_rest_length)
  also have "\<dots> \<le> length cs" by (rule length_dropWhile_le)
  finally show "(s, c # cs) \<in> measure length" by simp
next
  fix c :: char and cs s :: string
  assume "line_rest (dropWhile is_ascii_letter cs) = Inr s"
  then have "length s \<le> length (dropWhile is_ascii_letter cs)" by (rule line_rest_length)
  also have "\<dots> \<le> length cs" by (rule length_dropWhile_le)
  finally show "(s, c # cs) \<in> measure length" by simp
qed simp_all

text \<open>\<^verbatim>\<open>split_version\<close>: epoch, version and revision of a string.\<close>

definition split_version :: "string \<Rightarrow> (int \<times> string \<times> string) result" where
  "split_version s0 =
     (let s = strip_chars '' <>='' s0 in
      rbind (if CHR '':'' \<in> set s
             then rbind (py_int (split_on (CHR '':'') s ! 0)) (\<lambda>e. Inr (e, split_on (CHR '':'') s ! 1))
             else Inr (0, s))
        (\<lambda>(e, s). if CHR ''-'' \<in> set s
                  then Inr (e, rsplit1 (CHR ''-'') s ! 0, rsplit1 (CHR ''-'') s ! 1)
                  else Inr (e, s, [])))"

section \<open>Comparison\<close>

text \<open>
  The loop of \<^verbatim>\<open>vercmp_part\<close> over the two token lists. \<open>(0, None)\<close> stands for an exhausted list.
\<close>

definition tok_head :: "vtok list \<Rightarrow> int \<times> vtok option" where
  "tok_head ts = (case ts of [] \<Rightarrow> (0, None) | t # _ \<Rightarrow> (tok_order t, Some t))"

function vercmp_loop :: "vtok list \<Rightarrow> vtok list \<Rightarrow> int" where
  "vercmp_loop va vb =
     (let (oa, ca) = tok_head va; (ob, cb) = tok_head vb in
      if (oa, ca) = (0, None) \<and> (ob, cb) = (0, None) then 0
      else if oa < ob then -1
      else if oa > ob then 1
      else (case (ca, cb) of
              (None, _) \<Rightarrow> -1
            | (Some _, None) \<Rightarrow> 1
            | (Some a, Some b) \<Rightarrow>
                if a < b then -1 else if a > b then 1 else vercmp_loop (tl va) (tl vb)))"
  by pat_completeness auto
termination
  by (relation "measure (\<lambda>(va, vb). length va + length vb)")
    (auto simp: tok_head_def split: list.splits)

declare vercmp_loop.simps [simp del]

definition vercmp_part :: "string \<Rightarrow> string \<Rightarrow> int result" where
  "vercmp_part a b =
     rbind (explode_version a) (\<lambda>va. rbind (explode_version b) (\<lambda>vb. Inr (vercmp_loop va vb)))"

text \<open>The epoch of a version triple: an int (from \<^verbatim>\<open>split_version\<close>) or the string \<^verbatim>\<open>PE\<close>.\<close>

datatype epoch = EpInt int | EpStr string

fun epoch_int :: "epoch \<Rightarrow> int result" where
  "epoch_int (EpInt i) = Inr i"
| "epoch_int (EpStr s) = (if s = [] then Inr 0 else py_int s)"

type_synonym version = "epoch \<times> string \<times> string"

definition vercmp :: "version \<Rightarrow> version \<Rightarrow> int result" where
  "vercmp ta tb =
     (case (ta, tb) of ((ea, va, ra), (eb, vb, rb)) \<Rightarrow>
        rbind (epoch_int ea) (\<lambda>x.
        rbind (epoch_int eb) (\<lambda>y.
        rbind (if x - y = 0 then vercmp_part va vb else Inr (x - y)) (\<lambda>r.
        if r = 0 then vercmp_part ra rb else Inr r))))"

definition vercmp_string :: "string \<Rightarrow> string \<Rightarrow> int result" where
  "vercmp_string a b =
     rbind (split_version a) (\<lambda>(ea, va, ra).
     rbind (split_version b) (\<lambda>(eb, vb, rb).
     vercmp (EpInt ea, va, ra) (EpInt eb, vb, rb)))"

definition vercmp_string_op :: "string \<Rightarrow> string \<Rightarrow> string \<Rightarrow> bool result" where
  "vercmp_string_op a b op =
     rbind (vercmp_string a b) (\<lambda>res.
     if op = ''='' \<or> op = ''=='' then Inr (res = 0)
     else if op = ''<='' then Inr (res \<le> 0)
     else if op = ''>='' then Inr (res \<ge> 0)
     else if op = ''>'' \<or> op = ''>>'' then Inr (res > 0)
     else if op = ''<'' \<or> op = ''<<'' then Inr (res < 0)
     else if op = ''!='' then Inr (res \<noteq> 0)
     else Inl (VersionStringException op))"

section \<open>The comparison is a total preorder\<close>

lemma vercmp_loop_Nil: "vercmp_loop [] [] = 0"
  by (simp add: vercmp_loop.simps tok_head_def)

lemma vercmp_loop_end: "vercmp_loop [] (t # ts) = (if t = Tilde then 1 else -1)"
  by (cases t) (simp_all add: vercmp_loop.simps tok_head_def)

lemma vercmp_loop_end': "vercmp_loop (t # ts) [] = (if t = Tilde then -1 else 1)"
  by (cases t) (simp_all add: vercmp_loop.simps tok_head_def)

lemma vercmp_loop_Cons:
  "vercmp_loop (a # as) (b # bs) = (if a < b then -1 else if b < a then 1 else vercmp_loop as bs)"
proof (cases "tok_order a = tok_order b")
  case True
  then show ?thesis by (subst vercmp_loop.simps) (simp add: tok_head_def)
next
  case False
  then show ?thesis
    using less_vtok_order [of a b] less_vtok_order [of b a]
    by (subst vercmp_loop.simps) (auto simp: tok_head_def)
qed

lemmas vercmp_loop_eqs [simp] = vercmp_loop_Nil vercmp_loop_end vercmp_loop_end' vercmp_loop_Cons

lemma vercmp_loop_neg: "vercmp_loop bs as = - vercmp_loop as bs"
proof (induction as arbitrary: bs)
  case Nil
  then show ?case by (cases bs) auto
next
  case (Cons a as)
  then show ?case by (cases bs) auto
qed

lemma vercmp_loop_zero_iff: "vercmp_loop as bs = 0 \<longleftrightarrow> as = bs"
proof (induction as arbitrary: bs)
  case Nil
  then show ?case by (cases bs) auto
next
  case (Cons a as)
  then show ?case by (cases bs) auto
qed

lemma vercmp_loop_trans:
  "vercmp_loop as bs \<le> 0 \<Longrightarrow> vercmp_loop bs cs \<le> 0 \<Longrightarrow> vercmp_loop as cs \<le> 0"
proof (induction as arbitrary: bs cs)
  case Nil
  then show ?case
    by (cases bs; cases cs) (auto split: if_splits elim: less_vtok.elims)
next
  case (Cons a as)
  note IH = Cons.IH and prems = Cons.prems
  show ?case
  proof (cases bs)
    case Nil
    then show ?thesis using prems by (cases cs; cases a) (auto split: if_splits elim: less_vtok.elims)
  next
    case bs: (Cons b bs')
    show ?thesis
    proof (cases cs)
      case Nil
      then show ?thesis using prems bs by (cases a; cases b) (auto split: if_splits)
    next
      case cs: (Cons c cs')
      show ?thesis using prems IH [of bs' cs'] bs cs
        by (auto split: if_splits)
    qed
  qed
qed

interpretation toks: comparison vercmp_loop
proof
  fix a b c :: "vtok list"
  show "vercmp_loop b a < 0 \<longleftrightarrow> 0 < vercmp_loop a b"
    using vercmp_loop_neg [of a b] by linarith
  show "vercmp_loop a b \<le> 0 \<Longrightarrow> vercmp_loop b c \<le> 0 \<Longrightarrow> vercmp_loop a c \<le> 0"
    by (rule vercmp_loop_trans)
qed

text \<open>The key a version triple is compared by, where it parses.\<close>

type_synonym vkey = "int \<times> vtok list \<times> vtok list"

definition version_key :: "version \<Rightarrow> vkey result" where
  "version_key t = (case t of (e, v, r) \<Rightarrow>
     rbind (epoch_int e) (\<lambda>i. rbind (explode_version v) (\<lambda>vs. rbind (explode_version r) (\<lambda>rs. Inr (i, vs, rs)))))"

definition valid_version :: "version \<Rightarrow> bool" where
  "valid_version t = (case version_key t of Inl _ \<Rightarrow> False | Inr _ \<Rightarrow> True)"

lemma valid_version_iff: "valid_version t \<longleftrightarrow> (\<exists>k. version_key t = Inr k)"
  by (auto simp: valid_version_def split: sum.splits)

definition vr_cmp :: "vtok list \<times> vtok list \<Rightarrow> vtok list \<times> vtok list \<Rightarrow> int" where
  "vr_cmp a b = (if vercmp_loop (fst a) (fst b) \<noteq> 0 then vercmp_loop (fst a) (fst b)
                 else vercmp_loop (snd a) (snd b))"

definition key_cmp :: "vkey \<Rightarrow> vkey \<Rightarrow> int" where
  "key_cmp a b = (if fst a - fst b \<noteq> 0 then fst a - fst b else vr_cmp (snd a) (snd b))"

interpretation epochs: comparison "\<lambda>(x::int) y. x - y"
  by unfold_locales auto

interpretation vr: comparison vr_cmp
proof
  fix a b c :: "vtok list \<times> vtok list"
  show "vr_cmp b a < 0 \<longleftrightarrow> 0 < vr_cmp a b"
    unfolding vr_cmp_def by (rule toks.cmp_lex_swap) (rule toks.cmp_swap)
  show "vr_cmp a b \<le> 0 \<Longrightarrow> vr_cmp b c \<le> 0 \<Longrightarrow> vr_cmp a c \<le> 0"
    unfolding vr_cmp_def by (rule toks.cmp_lex_trans [where b = "fst b" and y = "snd b"]) (auto intro: vercmp_loop_trans)
qed

interpretation vkeys: comparison key_cmp
proof
  fix a b c :: vkey
  show "key_cmp b a < 0 \<longleftrightarrow> 0 < key_cmp a b"
    unfolding key_cmp_def by (rule epochs.cmp_lex_swap) (rule vr.cmp_swap)
  show "key_cmp a b \<le> 0 \<Longrightarrow> key_cmp b c \<le> 0 \<Longrightarrow> key_cmp a c \<le> 0"
    unfolding key_cmp_def
    by (rule epochs.cmp_lex_trans [where b = "fst b" and y = "snd b"]) (auto intro: vr.cmp_trans)
qed

lemma key_cmp_neg: "key_cmp b a = - key_cmp a b"
  by (auto simp: key_cmp_def vr_cmp_def vercmp_loop_neg [of "fst (snd a)"] vercmp_loop_neg [of "snd (snd a)"])

lemma key_cmp_zero_iff: "key_cmp a b = 0 \<longleftrightarrow> a = b"
  by (cases a; cases b) (auto simp: key_cmp_def vr_cmp_def vercmp_loop_zero_iff)

lemma vercmp_key:
  assumes "version_key ta = Inr ka" and "version_key tb = Inr kb"
  shows "vercmp ta tb = Inr (key_cmp ka kb)"
  using assms
  by (cases ta; cases tb) (auto simp: version_key_def vercmp_def vercmp_part_def key_cmp_def vr_cmp_def)

section \<open>Explosion of well-formed strings\<close>

lemma dropWhile_sep: "\<not> P c \<Longrightarrow> dropWhile P (v @ c # s) = dropWhile P v @ c # s"
  by (induction v) auto

lemma takeWhile_sep: "\<not> P c \<Longrightarrow> takeWhile P (v @ c # s) = takeWhile P v"
  by (induction v) auto

lemma newline_dropWhile: "CHR 0x0A \<notin> set s \<Longrightarrow> CHR 0x0A \<notin> set (dropWhile P s)"
  using set_dropWhileD by fastforce

lemma explode_version_total: "CHR 0x0A \<notin> set s \<Longrightarrow> \<exists>ts. explode_version s = Inr ts"
proof (induction s rule: explode_version.induct)
  case 1
  then show ?case by simp
next
  case (2 c cs)
  have nl: "line_rest (dropWhile P cs) = Inr (dropWhile P cs)" for P
    by (rule line_rest_no_newline) (use "2.prems" newline_dropWhile in simp)
  consider (d) "is_digit c" | (l) "\<not> is_digit c" "is_ascii_letter c"
    | (o) "\<not> is_digit c" "\<not> is_ascii_letter c" by blast
  then show ?case
  proof cases
    case d
    then show ?thesis using "2.IH"(1) [OF d nl] "2.prems" nl newline_dropWhile [of cs is_digit] by auto
  next
    case l
    then show ?thesis using "2.IH"(2) [OF l nl] "2.prems" nl newline_dropWhile [of cs is_ascii_letter] by auto
  next
    case o
    then show ?thesis using "2.IH"(3) [OF o] "2.prems" by auto
  qed
qed

definition sep_tok :: "char \<Rightarrow> vtok" where
  "sep_tok c = (if c = CHR ''~'' then Tilde else Other c)"

lemma explode_version_sep:
  assumes "\<not> is_digit c" and "\<not> is_ascii_letter c" and "CHR 0x0A \<notin> set (v @ c # s)"
    and "explode_version v = Inr vs" and "explode_version s = Inr ss"
  shows "explode_version (v @ c # s) = Inr (vs @ sep_tok c # ss)"
  using assms
proof (induction v arbitrary: vs rule: explode_version.induct)
  case 1
  then show ?case by (simp add: sep_tok_def)
next
  case (2 x cs)
  have nl: "line_rest (dropWhile P cs) = Inr (dropWhile P cs)" for P
    by (rule line_rest_no_newline) (use "2.prems" newline_dropWhile in simp)
  have nl': "line_rest (dropWhile P cs @ c # s) = Inr (dropWhile P cs @ c # s)" for P
    by (rule line_rest_no_newline) (use "2.prems" newline_dropWhile [of cs P] in simp)
  have dw: "CHR 0x0A \<notin> set (dropWhile P cs @ c # s)" for P
    using "2.prems" newline_dropWhile [of cs P] by simp
  consider (d) "is_digit x" | (l) "\<not> is_digit x" "is_ascii_letter x"
    | (o) "\<not> is_digit x" "\<not> is_ascii_letter x" by blast
  then show ?case
  proof cases
    case d
    then show ?thesis
      using "2.IH"(1) [OF d nl _ _ dw] "2.prems" nl nl' by (auto simp: dropWhile_sep takeWhile_sep)
  next
    case l
    then show ?thesis
      using "2.IH"(2) [OF l nl _ _ dw] "2.prems" nl nl' by (auto simp: dropWhile_sep takeWhile_sep)
  next
    case o
    then show ?thesis using "2.IH"(3) [OF o] "2.prems" by (auto split: if_splits)
  qed
qed

lemma vercmp_loop_suffix: "vercmp_loop (vs @ t # ts) vs = (if t = Tilde then -1 else 1)"
  by (induction vs) auto

section \<open>Properties\<close>

text \<open>C28. On every three version triples whose parts parse, \<^verbatim>\<open>vercmp\<close> returns a value, swapping its
  arguments negates the result, and "not greater" is transitive, also in its strict form: the
  comparison the provider selection relies on is a total preorder.\<close>

theorem vercmp_total_preorder:
  assumes "valid_version a" and "valid_version b" and "valid_version c"
  shows "\<exists>ab ba bc ac. vercmp a b = Inr ab \<and> vercmp b a = Inr ba \<and> vercmp b c = Inr bc \<and>
    vercmp a c = Inr ac \<and> ba = - ab \<and> (ab \<le> 0 \<and> bc \<le> 0 \<longrightarrow> ac \<le> 0) \<and>
    (ab < 0 \<and> bc \<le> 0 \<longrightarrow> ac < 0)"
proof -
  obtain ka kb kc where k: "version_key a = Inr ka" "version_key b = Inr kb" "version_key c = Inr kc"
    using assms by (auto simp: valid_version_iff)
  show ?thesis
    using vercmp_key [OF k(1,2)] vercmp_key [OF k(2,1)] vercmp_key [OF k(2,3)] vercmp_key [OF k(1,3)]
      key_cmp_neg [of kb ka] vkeys.cmp_trans [of ka kb kc] vkeys.cmp_less_le_trans [of ka kb kc]
    by auto
qed

theorem vercmp_total_preorder_witness:
  "valid_version (EpStr ''1'', ''2.0~rc1'', ''r0'') \<and>
   (\<exists>ab ba. vercmp (EpStr ''1'', ''2.0~rc1'', ''r0'') (EpStr ''1'', ''2.0'', ''r0'') = Inr ab \<and>
     vercmp (EpStr ''1'', ''2.0'', ''r0'') (EpStr ''1'', ''2.0~rc1'', ''r0'') = Inr ba \<and> ba = - ab)"
proof -
  have v: "valid_version (EpStr ''1'', ''2.0~rc1'', ''r0'')" "valid_version (EpStr ''1'', ''2.0'', ''r0'')"
    by code_simp+
  show ?thesis using vercmp_total_preorder [OF v(1) v(2) v(1)] v(1) by blast
qed

text \<open>Two version triples that parse compare equal exactly when their epochs are the same
  number and their versions and revisions explode to the same tokens.\<close>

theorem vercmp_equal_iff:
  assumes "valid_version (ea, va, ra)" and "valid_version (eb, vb, rb)"
  shows "vercmp (ea, va, ra) (eb, vb, rb) = Inr 0 \<longleftrightarrow>
    epoch_int ea = epoch_int eb \<and> explode_version va = explode_version vb \<and>
    explode_version ra = explode_version rb"
proof -
  obtain ka kb where k: "version_key (ea, va, ra) = Inr ka" "version_key (eb, vb, rb) = Inr kb"
    using assms by (auto simp: valid_version_iff)
  have "vercmp (ea, va, ra) (eb, vb, rb) = Inr 0 \<longleftrightarrow> ka = kb"
    by (simp add: vercmp_key [OF k] key_cmp_zero_iff)
  also have "\<dots> \<longleftrightarrow> epoch_int ea = epoch_int eb \<and> explode_version va = explode_version vb \<and>
    explode_version ra = explode_version rb"
    using k by (auto simp: version_key_def)
  finally show ?thesis .
qed

theorem vercmp_equal_iff_witness:
  "vercmp (EpStr ''1'', ''1.02'', ''r1'') (EpInt 1, ''1.2'', ''r01'') = Inr 0"
proof -
  have v: "valid_version (EpStr ''1'', ''1.02'', ''r1'')" "valid_version (EpInt 1, ''1.2'', ''r01'')"
    by code_simp+
  have e: "epoch_int (EpStr ''1'') = epoch_int (EpInt 1)" by code_simp
  have x: "explode_version ''1.02'' = explode_version ''1.2''" by code_simp
  have r: "explode_version ''r1'' = explode_version ''r01''" by code_simp
  show ?thesis using vercmp_equal_iff [OF v] e x r by blast
qed

text \<open>A tilde sorts before the end of a version and any other separator after it: appending
  \<^verbatim>\<open>~...\<close> to a version makes it older (pre-releases), appending another separator and anything
  makes it newer.\<close>

theorem vercmp_part_extension:
  assumes "\<not> is_digit c" and "\<not> is_ascii_letter c" and "CHR 0x0A \<notin> set (v @ c # s)"
  shows "vercmp_part (v @ c # s) v = Inr (if c = CHR ''~'' then -1 else 1)"
proof -
  have "CHR 0x0A \<notin> set v" "CHR 0x0A \<notin> set s" using assms(3) by auto
  then obtain vs ss where x: "explode_version v = Inr vs" "explode_version s = Inr ss"
    using explode_version_total by blast
  have "explode_version (v @ c # s) = Inr (vs @ sep_tok c # ss)"
    by (rule explode_version_sep [OF assms x])
  then show ?thesis using x by (simp add: vercmp_part_def vercmp_loop_suffix sep_tok_def)
qed

theorem vercmp_part_extension_witness:
  "vercmp_part (''1.0'' @ CHR ''~'' # ''rc1'') ''1.0'' = Inr (-1)"
proof -
  have h: "\<not> is_digit (CHR ''~'')" "\<not> is_ascii_letter (CHR ''~'')"
    "CHR 0x0A \<notin> set (''1.0'' @ CHR ''~'' # ''rc1'')" by code_simp+
  show ?thesis using vercmp_part_extension [OF h] by simp
qed

text \<open>\<^verbatim>\<open>vercmp_string_op\<close> is coherent on strings that \<^verbatim>\<open>split_version\<close> and \<^verbatim>\<open>explode_version\<close>
  accept: each operator answers the same as its mirror image with the operands exchanged, \<^verbatim>\<open><\<close> is the
  negation of \<^verbatim>\<open>>=\<close>, \<^verbatim>\<open>=\<close> holds exactly when both \<^verbatim>\<open><=\<close> and \<^verbatim>\<open>>=\<close> hold, and \<^verbatim>\<open>!=\<close> negates \<^verbatim>\<open>=\<close>.\<close>

theorem vercmp_string_op_coherent:
  assumes "split_version a = Inr (ea, va, ra)" and "valid_version (EpInt ea, va, ra)"
    and "split_version b = Inr (eb, vb, rb)" and "valid_version (EpInt eb, vb, rb)"
  shows "\<exists>lt le eq ge gt.
      vercmp_string_op a b ''<'' = Inr lt \<and> vercmp_string_op b a ''>'' = Inr lt \<and>
      vercmp_string_op a b ''<='' = Inr le \<and> vercmp_string_op b a ''>='' = Inr le \<and>
      vercmp_string_op a b ''='' = Inr eq \<and> vercmp_string_op b a ''=='' = Inr eq \<and>
      vercmp_string_op a b ''>='' = Inr ge \<and> vercmp_string_op a b ''>>'' = Inr gt \<and>
      vercmp_string_op a b ''!='' = Inr (\<not> eq) \<and>
      lt = (\<not> ge) \<and> gt = (\<not> le) \<and> eq = (le \<and> ge)"
proof -
  obtain ka kb where k: "version_key (EpInt ea, va, ra) = Inr ka" "version_key (EpInt eb, vb, rb) = Inr kb"
    using assms by (auto simp: valid_version_iff)
  have "vercmp_string a b = Inr (key_cmp ka kb)" "vercmp_string b a = Inr (- key_cmp ka kb)"
    using assms(1,3) vercmp_key [OF k] vercmp_key [OF k(2,1)] key_cmp_neg [of kb ka]
    by (simp_all add: vercmp_string_def)
  then show ?thesis by (auto simp: vercmp_string_op_def)
qed

theorem vercmp_string_op_coherent_witness:
  "\<exists>lt ge. vercmp_string_op ''>=1:1.0-r1'' ''1:1.0-r2'' ''<'' = Inr lt \<and>
     vercmp_string_op ''>=1:1.0-r1'' ''1:1.0-r2'' ''>='' = Inr ge \<and> lt = (\<not> ge)"
proof -
  have a: "split_version ''>=1:1.0-r1'' = Inr (1, ''1.0'', ''r1'')"
    and b: "split_version ''1:1.0-r2'' = Inr (1, ''1.0'', ''r2'')" by code_simp+
  have v: "valid_version (EpInt 1, ''1.0'', ''r1'')" "valid_version (EpInt 1, ''1.0'', ''r2'')" by code_simp+
  show ?thesis using vercmp_string_op_coherent [OF a v(1) b v(2)] by blast
qed

end
