(* ===== verification/BB_Deps.thy ===== *)
theory BB_Deps
  imports BB_Prelude
begin

text \<open>
  Dependency strings of \<^verbatim>\<open>bb/utils.py\<close>: \<^verbatim>\<open>explode_deps\<close>, \<^verbatim>\<open>explode_dep_versions2\<close>,
  \<^verbatim>\<open>explode_dep_versions\<close> and \<^verbatim>\<open>join_deps\<close>. The parsing loops are step functions over their local
  variables; the printing function is shown to be inverted by both parsers.
\<close>

section \<open>Names only\<close>

fun explode_deps_loop :: "bool \<Rightarrow> string list \<Rightarrow> string list" where
  "explode_deps_loop flag [] = []"
| "explode_deps_loop flag (i # l) =
     (let flag1 = (if startswith i ''('' then True else flag);
          flag2 = (if flag1 \<and> endswith i '')'' then False else flag1)
      in (if \<not> flag1 then i # explode_deps_loop flag2 l else explode_deps_loop flag2 l))"

definition explode_deps :: "string \<Rightarrow> string list" where
  "explode_deps s = explode_deps_loop False (split_ws s)"

section \<open>Names and versions\<close>

text \<open>The local variables of the loop; a key is \<open>None\<close> when a version precedes every name.\<close>

type_synonym depdict = "(string option, string list) dict"

record dv_state =
  dv_r :: depdict
  lastdep :: "string option"
  lastcmp :: string
  lastver :: string
  incmp :: bool
  inversion :: bool

definition dv_init :: dv_state where
  "dv_init = \<lparr>dv_r = [], lastdep = None, lastcmp = [], lastver = [], incmp = False, inversion = False\<rparr>"

definition cmp_ops2 :: "string list" where
  "cmp_ops2 = [''<='', ''=<'', ''<<'', ''=='', ''!='', ''>='', ''=>'', ''>>'']"

definition cmp_ops1 :: "string list" where
  "cmp_ops1 = [''<'', ''>'', ''='']"

text \<open>The operator at the head of a version, and what follows it.\<close>

definition take_cmp :: "string \<Rightarrow> (string \<times> string) result" where
  "take_cmp i =
     (if \<exists>p \<in> set cmp_ops2. startswith i p then Inr (take 2 i, drop 2 i)
      else if \<exists>p \<in> set cmp_ops1. startswith i p then Inr (take 1 i, drop 1 i)
      else Inl (VersionStringException i))"

text \<open>The part of the body reached with \<^verbatim>\<open>inversion\<close> set: the text of a version.\<close>

definition dv_version :: "string \<Rightarrow> dv_state \<Rightarrow> dv_state" where
  "dv_version i0 st0 =
     (let closing = endswith i0 '')'';
          i = (if closing then butlast i0 else i0);
          st = (if closing then st0\<lparr>inversion := False,
                  lastver := (if lastver st0 \<noteq> [] \<and> i \<noteq> [] then lastver st0 @ '' '' else lastver st0)\<rparr>
                else st0)
      in if i \<noteq> [] then
           let ver = lastver st @ i;
               r = (if has_key (dv_r st) (lastdep st) then dv_r st else dict_set (lastdep st) [] (dv_r st))
           in st\<lparr>lastver := ver, dv_r := dd_append (lastdep st) (lastcmp st @ '' '' @ ver) r\<rparr>
         else st)"

text \<open>The part reached with \<^verbatim>\<open>inversion\<close> clear: a dependency name.\<close>

definition dv_name :: "string \<Rightarrow> dv_state \<Rightarrow> dv_state" where
  "dv_name i st =
     st\<lparr>lastdep := Some i, lastver := [], lastcmp := [],
        dv_r := (if has_key (dv_r st) (Some i) \<and> dd_get (dv_r st) (Some i) \<noteq> [] then dv_r st
                 else dict_set (Some i) [] (dv_r st))\<rparr>"

definition dv_body :: "string \<Rightarrow> dv_state \<Rightarrow> dv_state result" where
  "dv_body i st =
     (if incmp st then
        rbind (take_cmp i) (\<lambda>(c, rest).
          let st1 = st\<lparr>incmp := False, inversion := True, lastcmp := c\<rparr>
          in Inr (if rest = [] then st1 else dv_version rest st1))
      else Inr (if inversion st then dv_version i st else dv_name i st))"

definition dv_step :: "string \<Rightarrow> dv_state \<Rightarrow> dv_state result" where
  "dv_step i st =
     (if startswith i ''('' then
        let st1 = st\<lparr>incmp := True\<rparr>; i1 = strip_ws (drop 1 i)
        in if i1 = [] then Inr st1 else dv_body i1 st1
      else dv_body i st)"

definition sort_deps :: "depdict \<Rightarrow> depdict result" where
  "sort_deps r =
     (if None \<in> set (dict_keys r) \<and> length r > 1 then Inl TypeError
      else Inr (sort_key (\<lambda>x. the (fst x)) r))"

definition explode_dep_versions2 :: "string \<Rightarrow> bool \<Rightarrow> depdict result" where
  "explode_dep_versions2 s srt =
     rbind (rfold dv_step (split_ws (filter (\<lambda>c. c \<noteq> CHR '','') s)) dv_init) (\<lambda>st.
     if srt then sort_deps (dv_r st) else Inr (dv_r st))"

definition explode_dep_versions :: "string \<Rightarrow> (string option, string option) dict result" where
  "explode_dep_versions s =
     rbind (explode_dep_versions2 s True) (\<lambda>r.
     Inr (map (\<lambda>(d, vs). (d, case vs of [] \<Rightarrow> None | v # _ \<Rightarrow> Some v)) r))"

section \<open>Printing\<close>

datatype depval = DNone | DStr string | DList "string list"

fun join_dep :: "string \<Rightarrow> depval \<Rightarrow> string list" where
  "join_dep dep DNone = [dep]"
| "join_dep dep (DStr v) = (if v \<noteq> [] then [dep @ '' ('' @ v @ '')''] else [dep])"
| "join_dep dep (DList vs) = (if vs \<noteq> [] then map (\<lambda>v. dep @ '' ('' @ v @ '')'') vs else [dep])"

definition join_deps :: "(string, depval) dict \<Rightarrow> bool \<Rightarrow> string" where
  "join_deps deps commasep =
     (let result = concat (map (\<lambda>(dep, v). join_dep dep v) deps)
      in if commasep then join '', '' result else join '' '' result)"

section \<open>Well-formed dependency dictionaries\<close>

definition dep_word :: "string \<Rightarrow> bool" where
  "dep_word w = (w \<noteq> [] \<and> (\<forall>c \<in> set w. \<not> is_space c \<and> c \<noteq> CHR '',''))"

definition dep_name :: "string \<Rightarrow> bool" where
  "dep_name w = (dep_word w \<and> \<not> startswith w ''('')"

text \<open>A constraint as the parser stores it: an operator, a blank and one word.\<close>

definition wf_constraint :: "string \<Rightarrow> bool" where
  "wf_constraint v =
     (let p = split_on (CHR '' '') v
      in length p = 2 \<and> p ! 0 \<in> set (cmp_ops1 @ cmp_ops2) \<and> dep_name (p ! 1))"

definition wf_deps :: "(string, string list) dict \<Rightarrow> bool" where
  "wf_deps d = (dict_wf d \<and> (\<forall>(k, vs) \<in> set d. dep_name k \<and> (\<forall>v \<in> set vs. wf_constraint v)))"

definition as_depvals :: "(string, string list) dict \<Rightarrow> (string, depval) dict" where
  "as_depvals d = map (\<lambda>(k, vs). (k, DList vs)) d"

definition as_depdict :: "(string, string list) dict \<Rightarrow> depdict" where
  "as_depdict d = map (\<lambda>(k, vs). (Some k, vs)) d"

lemma wf_constraintE:
  assumes "wf_constraint v"
  obtains c w where "v = c @ '' '' @ w" "c \<in> set (cmp_ops1 @ cmp_ops2)" "dep_name w"
proof -
  from assms have p: "length (split_on (CHR '' '') v) = 2"
      "split_on (CHR '' '') v ! 0 \<in> set (cmp_ops1 @ cmp_ops2)" "dep_name (split_on (CHR '' '') v ! 1)"
    unfolding wf_constraint_def Let_def by blast+
  define c w where "c = split_on (CHR '' '') v ! 0" and "w = split_on (CHR '' '') v ! 1"
  have s: "split_on (CHR '' '') v = [c, w]"
    unfolding c_def w_def using p(1) by (rule list_of_length2)
  have cw: "c \<in> set (cmp_ops1 @ cmp_ops2)" "dep_name w" unfolding c_def w_def by (rule p)+
  have "v = c @ '' '' @ w" using split_on_join [of "CHR '' ''" v] s by simp
  with cw that show ?thesis by blast
qed

lemma wf_constraintI:
  assumes "c \<in> set (cmp_ops1 @ cmp_ops2)" and "dep_name w"
  shows "wf_constraint (c @ '' '' @ w)"
proof -
  have "CHR '' '' \<notin> set c" using assms(1) by (auto simp: cmp_ops1_def cmp_ops2_def)
  moreover have "CHR '' '' \<notin> set w" using assms(2) is_space_blank unfolding dep_name_def dep_word_def by blast
  ultimately show ?thesis
    using assms by (simp add: wf_constraint_def split_on_append_sep split_on_no_sep del: set_append)
qed

section \<open>The printed words\<close>

text \<open>The words of one printed dependency: its name, then the operator and the version.\<close>

definition dep_words :: "string \<Rightarrow> string \<Rightarrow> string list" where
  "dep_words k v = [k, CHR ''('' # takeWhile (\<lambda>c. c \<noteq> CHR '' '') v,
                    tl (dropWhile (\<lambda>c. c \<noteq> CHR '' '') v) @ '')'']"

definition item_words :: "string \<Rightarrow> string list \<Rightarrow> string list" where
  "item_words k vs = (if vs = [] then [k] else concat (map (dep_words k) vs))"

lemma op_chars:
  "c \<in> set (cmp_ops1 @ cmp_ops2) \<Longrightarrow> c \<noteq> [] \<and> (\<forall>x \<in> set c. \<not> is_space x \<and> x \<noteq> CHR '','' \<and> x \<noteq> CHR '' '')"
  by (auto simp: cmp_ops1_def cmp_ops2_def is_space_def)

lemma dep_words_eq:
  assumes "c \<in> set (cmp_ops1 @ cmp_ops2)"
  shows "dep_words k (c @ '' '' @ w) = [k, CHR ''('' # c, w @ '')'']"
proof -
  have n: "\<And>x. x \<in> set c \<Longrightarrow> x \<noteq> CHR '' ''" using op_chars [OF assms] by auto
  have "takeWhile (\<lambda>x. x \<noteq> CHR '' '') (c @ '' '' @ w) = c"
    using takeWhile_append2 [of c "\<lambda>x. x \<noteq> CHR '' ''" "'' '' @ w"] n by simp
  moreover have "dropWhile (\<lambda>x. x \<noteq> CHR '' '') (c @ '' '' @ w) = '' '' @ w"
    using dropWhile_append2 [of c "\<lambda>x. x \<noteq> CHR '' ''" "'' '' @ w"] n by simp
  ultimately show ?thesis by (simp add: dep_words_def)
qed

lemma filter_join_comma:
  "filter (\<lambda>c. c \<noteq> CHR '','') (join '', '' xs) = join '' '' (map (filter (\<lambda>c. c \<noteq> CHR '','')) xs)"
  by (induction "'', ''" xs rule: join.induct) simp_all

lemma filter_join_blank:
  "filter (\<lambda>c. c \<noteq> CHR '','') (join '' '' xs) = join '' '' (map (filter (\<lambda>c. c \<noteq> CHR '','')) xs)"
  by (induction "'' ''" xs rule: join.induct) simp_all

lemma no_comma_filter: "CHR '','' \<notin> set s \<Longrightarrow> filter (\<lambda>c. c \<noteq> CHR '','') s = s"
  by (induction s) auto

lemma dep_wordD:
  assumes "dep_word w"
  shows "w \<noteq> []" and "\<forall>c \<in> set w. \<not> is_space c" and "CHR '','' \<notin> set w"
  using assms unfolding dep_word_def by blast+

lemma close_paren_char: "\<not> is_space (CHR '')'')" "\<not> is_space (CHR ''('')"
  by (simp_all add: is_space_def)

lemma printed_constraint:
  assumes "dep_name k" and "wf_constraint v"
  shows "split_ws (k @ '' ('' @ v @ '')'') = dep_words k v"
    and "CHR '','' \<notin> set (k @ '' ('' @ v @ '')'')"
proof -
  from assms(2) obtain c w where v: "v = c @ '' '' @ w"
    and c: "c \<in> set (cmp_ops1 @ cmp_ops2)" and w: "dep_name w" by (rule wf_constraintE)
  have k: "dep_word k" and w': "dep_word w" using assms(1) w by (simp_all add: dep_name_def)
  have c': "\<forall>x \<in> set c. \<not> is_space x" "CHR '','' \<notin> set c" using op_chars [OF c] by auto
  have "k @ '' ('' @ v @ '')'' = k @ CHR '' '' # (CHR ''('' # c) @ CHR '' '' # (w @ '')'')"
    by (simp add: v)
  moreover have "split_ws (w @ '')'') = [w @ '')'']"
    by (rule split_ws_single) (use dep_wordD [OF w'] close_paren_char in auto)
  moreover have "split_ws ((CHR ''('' # c) @ CHR '' '' # (w @ '')'')) = (CHR ''('' # c) # split_ws (w @ '')'')"
    by (rule split_ws_cons) (use c' close_paren_char in auto)
  moreover have "split_ws (k @ CHR '' '' # s) = k # split_ws s" for s
    by (rule split_ws_cons) (use dep_wordD [OF k] in auto)
  ultimately show "split_ws (k @ '' ('' @ v @ '')'') = dep_words k v"
    by (simp only: v dep_words_eq [OF c])
  show "CHR '','' \<notin> set (k @ '' ('' @ v @ '')'')"
    using dep_wordD(3) [OF k] dep_wordD(3) [OF w'] c' by (simp add: v)
qed

lemma printed_item:
  assumes "dep_name k" and "\<forall>v \<in> set vs. wf_constraint v"
  shows "concat (map split_ws (join_dep k (DList vs))) = item_words k vs"
    and "x \<in> set (join_dep k (DList vs)) \<Longrightarrow> CHR '','' \<notin> set x"
proof -
  have k: "dep_word k" using assms(1) by (simp add: dep_name_def)
  have m: "map split_ws (map (\<lambda>v. k @ '' ('' @ v @ '')'') vs) = map (dep_words k) vs"
    unfolding map_map comp_def using printed_constraint(1) [OF assms(1)] assms(2)
    by (intro map_cong refl) blast
  show "concat (map split_ws (join_dep k (DList vs))) = item_words k vs"
  proof (cases "vs = []")
    case True
    then show ?thesis using split_ws_single [of k] dep_wordD [OF k] by (simp add: item_words_def)
  next
    case False
    then show ?thesis by (simp only: item_words_def join_dep.simps if_False if_True simp_thms m)
  qed
  show "x \<in> set (join_dep k (DList vs)) \<Longrightarrow> CHR '','' \<notin> set x"
    using printed_constraint(2) [OF assms(1)] assms(2) dep_wordD(3) [OF k]
    by (cases "vs = []") fastforce+
qed

definition printed :: "(string, string list) dict \<Rightarrow> string list" where
  "printed d = concat (map (\<lambda>(k, vs). join_dep k (DList vs)) d)"

definition all_words :: "(string, string list) dict \<Rightarrow> string list" where
  "all_words d = concat (map (\<lambda>(k, vs). item_words k vs) d)"

lemma printed_words:
  assumes "\<forall>(k, vs) \<in> set d. dep_name k \<and> (\<forall>v \<in> set vs. wf_constraint v)"
  shows "concat (map split_ws (printed d)) = all_words d"
    and "map (filter (\<lambda>c. c \<noteq> CHR '','')) (printed d) = printed d"
  using assms
proof (induction d)
  case (Cons x d)
  obtain k vs where x: "x = (k, vs)" by (cases x)
  {
    case 1
    with Cons.IH(1) x printed_item(1) [of k vs] show ?case
      by (simp add: printed_def all_words_def)
  next
    case 2
    have "map (filter (\<lambda>c. c \<noteq> CHR '','')) (join_dep k (DList vs)) = join_dep k (DList vs)"
      by (rule map_idI) (use 2 x printed_item(2) [of k vs] no_comma_filter in auto)
    moreover have "map (filter (\<lambda>c. c \<noteq> CHR '','')) (printed d) = printed d"
      using Cons.IH(2) 2 by simp
    ultimately show ?case by (simp only: printed_def x list.map concat.simps map_append prod.case)
  }
qed (simp_all add: printed_def all_words_def)

lemma join_deps_printed:
  "join_deps (as_depvals d) cs = (if cs then join '', '' (printed d) else join '' '' (printed d))"
proof -
  have "concat (map (\<lambda>(dep, v). join_dep dep v) (as_depvals d)) = printed d"
    by (induction d) (auto simp: as_depvals_def printed_def)
  then show ?thesis by (simp add: join_deps_def)
qed

lemma join_deps_words:
  assumes "wf_deps d"
  shows "split_ws (filter (\<lambda>c. c \<noteq> CHR '','') (join_deps (as_depvals d) cs)) = all_words d"
    and "split_ws (join_deps (as_depvals d) False) = all_words d"
proof -
  have wf: "\<forall>(k, vs) \<in> set d. dep_name k \<and> (\<forall>v \<in> set vs. wf_constraint v)"
    using assms unfolding wf_deps_def by blast
  show "split_ws (filter (\<lambda>c. c \<noteq> CHR '','') (join_deps (as_depvals d) cs)) = all_words d"
    using printed_words [OF wf]
    by (cases cs) (simp_all only: join_deps_printed if_True if_False filter_join_comma filter_join_blank
      split_ws_join_concat)
  show "split_ws (join_deps (as_depvals d) False) = all_words d"
    using printed_words(1) [OF wf] by (simp only: join_deps_printed if_False split_ws_join_concat)
qed

section \<open>Parsing the printed words\<close>

lemma take_cmp_op: "c \<in> set (cmp_ops1 @ cmp_ops2) \<Longrightarrow> take_cmp c = Inr (c, [])"
  by (auto simp: cmp_ops1_def cmp_ops2_def take_cmp_def)

lemma dv_step_name:
  assumes "\<not> incmp st" "\<not> inversion st" "dep_name k"
  shows "dv_step k st = Inr (dv_name k st)"
  using assms by (simp add: dv_step_def dv_body_def dep_name_def)

lemma dv_step_open:
  assumes "c \<in> set (cmp_ops1 @ cmp_ops2)"
  shows "dv_step (CHR ''('' # c) st = Inr (st\<lparr>incmp := False, inversion := True, lastcmp := c\<rparr>)"
proof -
  have "strip_ws c = c" using op_chars [OF assms] strip_ws_id by blast
  then show ?thesis
    using take_cmp_op [OF assms] op_chars [OF assms] by (simp add: dv_step_def dv_body_def)
qed

lemma dv_step_close:
  assumes "\<not> incmp st" "inversion st" "lastver st = []" "dep_name w"
    and "has_key (dv_r st) (lastdep st)"
  shows "dv_step (w @ '')'') st = Inr (st\<lparr>inversion := False, lastver := w,
    dv_r := dd_append (lastdep st) (lastcmp st @ '' '' @ w) (dv_r st)\<rparr>)"
proof -
  have "w \<noteq> []" and "\<not> startswith w ''(''" using assms(4) by (auto simp: dep_name_def dep_word_def)
  then have "\<not> startswith (w @ '')'') ''(''" by (cases w) auto
  with assms \<open>w \<noteq> []\<close> show ?thesis by (simp add: dv_step_def dv_body_def dv_version_def)
qed

definition dv_ready :: "dv_state \<Rightarrow> bool" where
  "dv_ready st = (\<not> incmp st \<and> \<not> inversion st)"

lemma dv_dep_words:
  assumes "dv_ready st" "dep_name k" "wf_constraint v"
  shows "\<exists>st'. rfold dv_step (dep_words k v) st = Inr st' \<and> dv_ready st' \<and>
    dv_r st' = dd_append (Some k) v (dv_r (dv_name k st))"
proof -
  from assms(3) obtain c w where v: "v = c @ '' '' @ w"
    and c: "c \<in> set (cmp_ops1 @ cmp_ops2)" and w: "dep_name w" by (rule wf_constraintE)
  let ?st = "(dv_name k st)\<lparr>incmp := False, inversion := True, lastcmp := c\<rparr>"
  have "has_key (dv_r ?st) (lastdep ?st)" by (simp add: dv_name_def)
  then have close: "dv_step (w @ '')'') ?st = Inr (?st\<lparr>inversion := False, lastver := w,
      dv_r := dd_append (lastdep ?st) (lastcmp ?st @ '' '' @ w) (dv_r ?st)\<rparr>)"
    by (intro dv_step_close w) (simp_all add: dv_name_def)
  show ?thesis
    using assms(1,2) close
    by (simp add: v dep_words_eq [OF c, simplified] dv_step_name dv_step_open [OF c] dv_ready_def)
      (simp add: dv_name_def)
qed

lemma dv_more_words:
  assumes "dv_ready st" "dep_name k" "\<forall>v \<in> set vs. wf_constraint v"
    and "dv_r st = r @ [(Some k, us)]" "us \<noteq> []" "Some k \<notin> fst ` set r"
  shows "\<exists>st'. rfold dv_step (concat (map (dep_words k) vs)) st = Inr st' \<and> dv_ready st' \<and>
    dv_r st' = r @ [(Some k, us @ vs)]"
  using assms
proof (induction vs arbitrary: st us)
  case Nil
  then show ?case by simp
next
  case (Cons v vs)
  have "map_of r (Some k) = None" using Cons.prems(6) by (simp add: map_of_eq_None_iff)
  then have nm: "dv_r (dv_name k st) = r @ [(Some k, us)]" and g: "dd_get (r @ [(Some k, us)]) (Some k) = us"
    using Cons.prems(4,5) by (simp_all add: dv_name_def dict_defs map_add_def)
  obtain st1 where st1: "rfold dv_step (dep_words k v) st = Inr st1" "dv_ready st1"
      "dv_r st1 = dd_append (Some k) v (dv_r (dv_name k st))"
    using dv_dep_words [of st k v] Cons.prems by auto
  then have "dv_r st1 = r @ [(Some k, us @ [v])]"
    using Cons.prems(6) by (simp add: nm dd_append_def g dict_set_snoc)
  then obtain st2 where "rfold dv_step (concat (map (dep_words k) vs)) st1 = Inr st2" "dv_ready st2"
      "dv_r st2 = r @ [(Some k, (us @ [v]) @ vs)]"
    using Cons.IH [of st1 "us @ [v]"] Cons.prems st1(2) by auto
  with st1 show ?case by (simp add: rfold_append)
qed

lemma dv_item:
  assumes "dv_ready st" "dep_name k" "\<forall>v \<in> set vs. wf_constraint v" "Some k \<notin> fst ` set (dv_r st)"
  shows "\<exists>st'. rfold dv_step (item_words k vs) st = Inr st' \<and> dv_ready st' \<and>
    dv_r st' = dv_r st @ [(Some k, vs)]"
proof -
  have nokey: "\<not> has_key (dv_r st) (Some k)" using assms(4) by (simp add: has_key_iff)
  then have nm: "dv_r (dv_name k st) = dv_r st @ [(Some k, [])]"
    using assms(4) by (simp add: dv_name_def dict_set_new)
  show ?thesis
  proof (cases vs)
    case Nil
    then show ?thesis
      using assms nm by (simp add: item_words_def dv_step_name dv_ready_def) (simp add: dv_name_def)
  next
    case (Cons v vs')
    obtain st1 where st1: "rfold dv_step (dep_words k v) st = Inr st1" "dv_ready st1"
        "dv_r st1 = dd_append (Some k) v (dv_r (dv_name k st))"
      using dv_dep_words [of st k v] assms Cons by auto
    have "map_of (dv_r st) (Some k) = None" using nokey by (simp add: has_key_def)
    then have "dd_get (dv_r st @ [(Some k, [])]) (Some k) = []" by (simp add: dd_get_def map_add_def)
    then have "dv_r st1 = dv_r st @ [(Some k, [v])]"
      using st1(3) assms(4) by (simp add: nm dd_append_def dict_set_snoc)
    then obtain st2 where "rfold dv_step (concat (map (dep_words k) vs')) st1 = Inr st2" "dv_ready st2"
        "dv_r st2 = dv_r st @ [(Some k, [v] @ vs')]"
      using dv_more_words [of st1 k vs' "dv_r st" "[v]"] assms st1(2) Cons by auto
    with st1 Cons show ?thesis by (simp add: item_words_def rfold_append)
  qed
qed

lemma dv_all:
  assumes "dv_ready st" "\<forall>(k, vs) \<in> set d. dep_name k \<and> (\<forall>v \<in> set vs. wf_constraint v)" "dict_wf d"
    and "\<forall>k \<in> fst ` set d. Some k \<notin> fst ` set (dv_r st)"
  shows "\<exists>st'. rfold dv_step (all_words d) st = Inr st' \<and> dv_r st' = dv_r st @ as_depdict d"
  using assms
proof (induction d arbitrary: st)
  case Nil
  then show ?case by (simp add: all_words_def as_depdict_def)
next
  case (Cons x d)
  obtain k vs where x: "x = (k, vs)" by (cases x)
  obtain st1 where st1: "rfold dv_step (item_words k vs) st = Inr st1" "dv_ready st1"
      "dv_r st1 = dv_r st @ [(Some k, vs)]"
    using dv_item [of st k vs] Cons.prems x by auto
  have "\<forall>k' \<in> fst ` set d. Some k' \<notin> fst ` set (dv_r st1)"
    using Cons.prems(3,4) x st1(3) by auto
  then obtain st2 where "rfold dv_step (all_words d) st1 = Inr st2" "dv_r st2 = dv_r st1 @ as_depdict d"
    using Cons.IH [of st1] Cons.prems st1(2) by auto
  with st1 x show ?case by (simp add: all_words_def as_depdict_def rfold_append)
qed

lemma explode_deps_loop_item:
  assumes "dep_name k" "\<forall>v \<in> set vs. wf_constraint v"
  shows "explode_deps_loop False (item_words k vs @ ws) =
    replicate (max 1 (length vs)) k @ explode_deps_loop False ws"
proof -
  have k: "\<not> startswith k ''(''" using assms(1) by (simp add: dep_name_def)
  have one: "explode_deps_loop False (dep_words k v @ us) = k # explode_deps_loop False us"
    if "wf_constraint v" for v us
  proof -
    from that obtain c w where v: "v = c @ '' '' @ w"
      and c: "c \<in> set (cmp_ops1 @ cmp_ops2)" and w: "dep_name w" by (rule wf_constraintE)
    have "\<not> suffix '')'' (CHR ''('' # c)" using c by (auto simp: cmp_ops1_def cmp_ops2_def suffix_to_prefix)
    with k show ?thesis by (simp add: v dep_words_eq [OF c, simplified] Let_def)
  qed
  have "explode_deps_loop False (concat (map (dep_words k) vs) @ ws) =
      replicate (length vs) k @ explode_deps_loop False ws"
    using assms(2) by (induction vs) (simp_all add: one)
  then show ?thesis using k by (cases vs) (simp_all add: item_words_def max_def)
qed

section \<open>What the parser may store\<close>

definition parsed_constraint :: "string \<Rightarrow> bool" where
  "parsed_constraint v \<longleftrightarrow> (\<exists>c w. v = c @ '' '' @ w \<and> c \<in> set (cmp_ops1 @ cmp_ops2) \<and> w \<noteq> [])"

definition dv_inv :: "dv_state \<Rightarrow> bool" where
  "dv_inv st \<longleftrightarrow> (inversion st \<longrightarrow> lastcmp st \<in> set (cmp_ops1 @ cmp_ops2)) \<and> dict_wf (dv_r st) \<and>
     (\<forall>k. \<forall>v \<in> set (dd_get (dv_r st) k). parsed_constraint v)"

lemma take_cmp_in: "take_cmp i = Inr (c, rest) \<Longrightarrow> c \<in> set (cmp_ops1 @ cmp_ops2)"
proof -
  assume a: "take_cmp i = Inr (c, rest)"
  show ?thesis
  proof (cases "\<exists>p \<in> set cmp_ops2. startswith i p")
    case True
    then obtain p where p: "p \<in> set cmp_ops2" "startswith i p" by blast
    have "length p = 2" using p(1) by (auto simp: cmp_ops2_def)
    have "c = take 2 i" using a True by (simp add: take_cmp_def)
    then have "c = p" using p(2) \<open>length p = 2\<close> by (auto simp: prefix_def)
    with p show ?thesis by simp
  next
    case False
    then obtain p where p: "p \<in> set cmp_ops1" "startswith i p"
      using a by (auto simp: take_cmp_def split: if_splits)
    have "length p = 1" using p(1) by (auto simp: cmp_ops1_def)
    have "c = take 1 i" using a False by (simp add: take_cmp_def split: if_splits)
    then have "c = p" using p(2) \<open>length p = 1\<close> by (auto simp: prefix_def)
    with p show ?thesis by simp
  qed
qed

lemma dv_version_inv: "dv_inv st \<Longrightarrow> inversion st \<Longrightarrow> dv_inv (dv_version i st)"
proof -
  assume a: "dv_inv st" "inversion st"
  then have c: "lastcmp st \<in> set (cmp_ops1 @ cmp_ops2)" by (simp add: dv_inv_def)
  have ok: "parsed_constraint (lastcmp st @ CHR '' '' # w)" if "w \<noteq> []" for w
    unfolding parsed_constraint_def using c that by (intro exI [of _ "lastcmp st"] exI [of _ w]) simp
  show ?thesis
    using a ok by (auto simp: dv_inv_def dv_version_def Let_def)
qed

lemma dv_name_inv: "dv_inv st \<Longrightarrow> \<not> inversion st \<Longrightarrow> dv_inv (dv_name i st)"
  by (auto simp: dv_inv_def dv_name_def)

lemma dv_body_inv: "dv_inv st \<Longrightarrow> dv_body i st = Inr st' \<Longrightarrow> dv_inv st'"
proof (cases "incmp st")
  case True
  assume inv: "dv_inv st" and "dv_body i st = Inr st'"
  with True obtain c rest where tc: "take_cmp i = Inr (c, rest)"
    and st': "st' = (let st1 = st\<lparr>incmp := False, inversion := True, lastcmp := c\<rparr>
      in if rest = [] then st1 else dv_version rest st1)"
    by (auto simp: dv_body_def Let_def)
  have "dv_inv (st\<lparr>incmp := False, inversion := True, lastcmp := c\<rparr>)"
    using inv take_cmp_in [OF tc] by (simp add: dv_inv_def)
  then show ?thesis by (simp add: st' Let_def dv_version_inv)
next
  case False
  assume "dv_inv st" and "dv_body i st = Inr st'"
  with False show ?thesis
    by (cases "inversion st") (auto simp: dv_body_def dv_version_inv dv_name_inv)
qed

lemma dv_step_inv: "dv_inv st \<Longrightarrow> dv_step i st = Inr st' \<Longrightarrow> dv_inv st'"
proof -
  assume inv: "dv_inv st" and st': "dv_step i st = Inr st'"
  have "dv_inv (st\<lparr>incmp := True\<rparr>)" using inv by (simp add: dv_inv_def)
  with inv st' show ?thesis
    by (auto simp: dv_step_def Let_def split: if_splits dest: dv_body_inv)
qed

section \<open>Properties\<close>

text \<open>C40. Printing and parsing are inverse: for every dictionary from dependency names to lists of
  version constraints, \<^verbatim>\<open>explode_dep_versions2(join_deps(d))\<close> is \<open>d\<close> again, ordered by name when
  sorting is asked for, whether the printed form uses commas or blanks.\<close>

theorem join_explode_roundtrip:
  assumes "wf_deps d"
  shows "explode_dep_versions2 (join_deps (as_depvals d) commasep) srt =
    Inr (as_depdict (if srt then sort_key fst d else d))"
proof -
  have wf: "\<forall>(k, vs) \<in> set d. dep_name k \<and> (\<forall>v \<in> set vs. wf_constraint v)" "dict_wf d"
    using assms unfolding wf_deps_def by blast+
  obtain st where st: "rfold dv_step (all_words d) dv_init = Inr st" "dv_r st = as_depdict d"
    using dv_all [of dv_init d] wf by (auto simp: dv_init_def dv_ready_def)
  have sorted: "sort_deps (as_depdict d) = Inr (as_depdict (sort_key fst d))"
  proof -
    have "None \<notin> set (dict_keys (as_depdict d))" by (auto simp: as_depdict_def)
    then show ?thesis by (simp add: sort_deps_def as_depdict_def sort_key_map case_prod_beta)
  qed
  show ?thesis
    using st sorted by (simp add: explode_dep_versions2_def join_deps_words(1) [OF assms])
qed

theorem join_explode_roundtrip_witness:
  "explode_dep_versions2 (join_deps (as_depvals
     [(''libfoo'', [''>= 1.2'', ''<< 2'']), (''bar'', [])]) True) True =
   Inr [(Some ''bar'', []), (Some ''libfoo'', [''>= 1.2'', ''<< 2''])]"
proof -
  have wf: "wf_deps [(''libfoo'', [''>= 1.2'', ''<< 2'']), (''bar'', [])]" by code_simp
  have "as_depdict (sort_key fst [(''libfoo'', [''>= 1.2'', ''<< 2'']), (''bar'', [])]) =
    [(Some ''bar'', []), (Some ''libfoo'', [''>= 1.2'', ''<< 2''])]" by code_simp
  with join_explode_roundtrip [OF wf, of True True] show ?thesis by simp
qed

text \<open>\<^verbatim>\<open>explode_deps\<close> reads the blank-separated printed form back as the dependency names in
  order, each as often as it is printed, and drops every version constraint.\<close>

theorem explode_deps_names:
  assumes "wf_deps d"
  shows "explode_deps (join_deps (as_depvals d) False) =
    concat (map (\<lambda>(k, vs). replicate (max 1 (length vs)) k) d)"
proof -
  have wf: "\<forall>(k, vs) \<in> set d. dep_name k \<and> (\<forall>v \<in> set vs. wf_constraint v)"
    using assms unfolding wf_deps_def by blast
  then have "explode_deps_loop False (all_words d) =
      concat (map (\<lambda>(k, vs). replicate (max 1 (length vs)) k) d)"
    by (induction d) (auto simp: all_words_def explode_deps_loop_item)
  then show ?thesis by (simp add: explode_deps_def join_deps_words(2) [OF assms])
qed

theorem explode_deps_names_witness:
  "explode_deps (join_deps (as_depvals [(''a'', [''>= 1'']), (''b'', [])]) False) = [''a'', ''b'']"
proof -
  have wf: "wf_deps [(''a'', [''>= 1'']), (''b'', [])]" by code_simp
  show ?thesis using explode_deps_names [OF wf] by simp
qed

text \<open>Whatever string is parsed, a dictionary \<^verbatim>\<open>explode_dep_versions2\<close> returns has each
  dependency once, is ordered by name when sorting is asked for, and every stored constraint is one
  of the eleven comparison operators, a blank and a non-empty version.\<close>

theorem explode_dep_versions2_wellformed:
  assumes "explode_dep_versions2 s srt = Inr r"
  shows "dict_wf r \<and> (srt \<longrightarrow> sorted (map (\<lambda>x. the (fst x)) r)) \<and>
    (\<forall>(k, vs) \<in> set r. \<forall>v \<in> set vs. \<exists>c w. v = c @ '' '' @ w \<and> c \<in> set (cmp_ops1 @ cmp_ops2) \<and> w \<noteq> [])"
proof -
  from assms obtain st where st: "rfold dv_step (split_ws (filter (\<lambda>c. c \<noteq> CHR '','') s)) dv_init = Inr st"
    and r: "(if srt then sort_deps (dv_r st) else Inr (dv_r st)) = Inr r"
    by (auto simp: explode_dep_versions2_def)
  have "dv_inv dv_init" by (simp add: dv_inv_def dv_init_def)
  then have inv: "dv_inv st" using rfold_invariant [OF st] dv_step_inv by blast
  have set_r: "set r = set (dv_r st)" and keys: "distinct (dict_keys r) \<longleftrightarrow> dict_wf (dv_r st)"
    and srt: "srt \<longrightarrow> sorted (map (\<lambda>x. the (fst x)) r)"
    using r by (auto simp: sort_deps_def distinct_map split: if_splits)
  have "parsed_constraint v" if "(k, vs) \<in> set r" "v \<in> set vs" for k vs v
  proof -
    have "dd_get (dv_r st) k = vs"
      using inv that(1) set_r by (simp add: dv_inv_def dd_get_def)
    with inv that(2) show ?thesis by (auto simp: dv_inv_def)
  qed
  with inv keys srt show ?thesis unfolding parsed_constraint_def dv_inv_def by blast
qed

theorem explode_dep_versions2_wellformed_witness:
  "explode_dep_versions2 ''b (>=1.0) a, c ( < 3 )'' True =
     Inr [(Some ''a'', []), (Some ''b'', [''>= 1.0'']), (Some ''c'', [''< 3''])] \<and>
   dict_wf [(Some ''a'', []), (Some ''b'', [''>= 1.0'']), (Some ''c'', [''< 3''])]"
proof -
  have e: "explode_dep_versions2 ''b (>=1.0) a, c ( < 3 )'' True =
     Inr [(Some ''a'', []), (Some ''b'', [''>= 1.0'']), (Some ''c'', [''< 3''])]" by code_simp
  show ?thesis using explode_dep_versions2_wellformed [OF e] e by blast
qed

text \<open>A version of several words is stored once per word read so far instead of once.\<close>

lemma explode_dep_versions2_multiword:
  "explode_dep_versions2 ''foo (>= 1 beta)'' True = Inr [(Some ''foo'', [''>= 1'', ''>= 1 beta''])]"
  by code_simp

end
