(* ===== verification/BB_Cache.thy ===== *)
theory BB_Cache
  imports BB_Deps
begin

text \<open>
  The recipe cache of \<^verbatim>\<open>bb/cache.py\<close>: what \<^verbatim>\<open>CoreRecipeInfo\<close> extracts from the metadata of one recipe,
  the \<^verbatim>\<open>CacheData\<close> indexes that all later stages read, the operation \<^verbatim>\<open>add_cacheData\<close> that enters a
  recipe into them, and the virtual file names of recipe variants.

  The metadata object is the interface to the data store: the values \<^verbatim>\<open>getVar\<close> and \<^verbatim>\<open>getVarFlag\<close>
  return for it. A \<^verbatim>\<open>defaultdict\<close> is a dictionary read with \<^const>\<open>dd_get\<close>.
\<close>

section \<open>State\<close>

text \<open>The \<^verbatim>\<open>_task_deps\<close> dictionary of a recipe: \<^verbatim>\<open>'tasks'\<close>, \<^verbatim>\<open>'parents'\<close> and the per-flag dictionaries.\<close>

record taskdeps =
  tk_tasks :: "string list"
  tk_parents :: "(string, string list) dict"
  tk_flags :: "(string, (string, string) dict) dict"

record metadata =
  md_var :: "string \<Rightarrow> string option"
  md_raw :: "string \<Rightarrow> string option"
  md_flag :: "string \<Rightarrow> string \<Rightarrow> string option"
  md_bbtasks :: "string list option"
  md_task_deps :: "taskdeps option"
  md_depends :: "(string \<times> int) list option"

record recipe_head =
  ri_file_depends :: "(string \<times> int) list option"
  ri_timestamp :: int
  ri_variants :: "string list"
  ri_appends :: "string list"
  ri_nocache :: string
  ri_provides :: "string list"
  ri_rprovides :: "string list"
  ri_pn :: string
  ri_packages :: "string list"
  ri_packages_dynamic :: "string list"
  ri_rprovides_pkg :: "(string, string list) dict"
  ri_skipreason :: string

record recipeinfo = recipe_head +
  ri_tasks :: "string list"
  ri_basetaskhashes :: "(string, string) dict"
  ri_hashfilename :: string
  ri_task_deps :: taskdeps
  ri_pe :: string
  ri_pv :: string
  ri_pr :: string
  ri_defaultpref :: int
  ri_not_world :: string
  ri_stamp :: string
  ri_stampclean :: string
  ri_stamp_extrainfo :: "(string, string option) dict"
  ri_file_checksums :: "(string, string option) dict"
  ri_depends :: "string list"
  ri_rdepends :: "string list"
  ri_rrecommends :: "string list"
  ri_rdepends_pkg :: "(string, string list) dict"
  ri_rrecommends_pkg :: "(string, string list) dict"
  ri_inherits :: string
  ri_fakerootenv :: string
  ri_fakerootdirs :: string
  ri_fakerootnoenv :: string
  ri_extradepsfunc :: string

text \<open>A skipped recipe has only the fields set before the early return of the constructor.\<close>

datatype core_info = Skipped recipe_head | Parsed recipeinfo

record cachedata =
  dc_task_deps :: "(string, taskdeps) dict"
  dc_pkg_fn :: "(string, string) dict"
  dc_pkg_pn :: "(string, string list) dict"
  dc_pkg_pepvpr :: "(string, string \<times> string \<times> string) dict"
  dc_pkg_dp :: "(string, int) dict"
  dc_stamp :: "(string, string) dict"
  dc_stampclean :: "(string, string) dict"
  dc_stamp_extrainfo :: "(string, (string, string option) dict) dict"
  dc_file_checksums :: "(string, (string, string option) dict) dict"
  dc_fn_provides :: "(string, string list) dict"
  dc_pn_provides :: "(string, string list) dict"
  dc_all_depends :: "string list"
  dc_deps :: "(string, string list) dict"
  dc_packages :: "(string, string list) dict"
  dc_providers :: "(string, string list) dict"
  dc_rproviders :: "(string, string list) dict"
  dc_packages_dynamic :: "(string, string list) dict"
  dc_rundeps :: "(string, (string, string list) dict) dict"
  dc_runrecs :: "(string, (string, string list) dict) dict"
  dc_possible_world :: "string list"
  dc_universe_target :: "string list"
  dc_hashfn :: "(string, string) dict"
  dc_basetaskhash :: "(string, string) dict"
  dc_inherits :: "(string, string) dict"
  dc_fakerootenv :: "(string, string) dict"
  dc_fakerootnoenv :: "(string, string) dict"
  dc_fakerootdirs :: "(string, string) dict"
  dc_extradepsfunc :: "(string, string) dict"
  dc_preferred :: "(string, string) dict"
  dc_ignored_dependencies :: "string list"
  dc_world_target :: "string list"
  dc_bbfile_priority :: "(string, int) dict"

section \<open>Reading the metadata\<close>

text \<open>\<^verbatim>\<open>dict(pairs)\<close>: a later pair with the same key replaces the value of the earlier one.\<close>

definition dict_of :: "('k \<times> 'v) list \<Rightarrow> ('k, 'v) dict" where
  "dict_of ps = fold (\<lambda>(k, v). dict_set k v) ps []"

definition getvar :: "string \<Rightarrow> metadata \<Rightarrow> string" where
  "getvar var md = (case md_var md var of None \<Rightarrow> [] | Some v \<Rightarrow> v)"

definition listvar :: "string \<Rightarrow> metadata \<Rightarrow> string list" where
  "listvar var md = split_ws (getvar var md)"

definition intvar :: "string \<Rightarrow> metadata \<Rightarrow> int result" where
  "intvar var md = (if getvar var md = [] then Inr 0 else py_int (getvar var md))"

definition depvar :: "string \<Rightarrow> metadata \<Rightarrow> string list" where
  "depvar var md = explode_deps (getvar var md)"

definition pkgvar :: "string \<Rightarrow> string list \<Rightarrow> metadata \<Rightarrow> (string, string list) dict" where
  "pkgvar var pkgs md = dict_of (map (\<lambda>pkg. (pkg, depvar (var @ ''_'' @ pkg) md)) pkgs)"

definition taskvar :: "string \<Rightarrow> string list \<Rightarrow> metadata \<Rightarrow> (string, string) dict" where
  "taskvar var tasks md = dict_of (map (\<lambda>task. (task, getvar (var @ ''_task-'' @ task) md)) tasks)"

definition flaglist :: "string \<Rightarrow> string list \<Rightarrow> metadata \<Rightarrow> bool \<Rightarrow> (string, string option) dict" where
  "flaglist flag varlist md squash =
     (let out = dict_of (map (\<lambda>var. (var, md_flag md var flag)) varlist)
      in if squash then dict_of (filter (\<lambda>(k, v). opt_truthy v) out) else out)"

text \<open>
  \<^verbatim>\<open>bb.parse.vars_from_file(mypkg, d)[0]\<close>, the recipe name a file name gives, on the first call for
  the file (the function memoises). \<^verbatim>\<open>os.path.basename\<close> and \<^verbatim>\<open>os.path.splitext\<close> are written out.
\<close>

definition basename :: "string \<Rightarrow> string" where
  "basename p = last (split_on (CHR ''/'') p)"

definition splitext_root :: "string \<Rightarrow> string" where
  "splitext_root b =
     (case rsplit1 (CHR ''.'') b of
        [r, e] \<Rightarrow> if \<forall>c \<in> set r. c = CHR ''.'' then b else r
      | _ \<Rightarrow> b)"

definition vars_from_file :: "string \<Rightarrow> string option list result" where
  "vars_from_file mypkg =
     (if mypkg = [] \<or> \<not> (endswith mypkg ''.bb'' \<or> endswith mypkg ''.bbappend'') then Inr [None, None, None]
      else let parts = split_on (CHR ''_'') (splitext_root (basename mypkg))
           in if length parts > 3 then Inl (ParseError mypkg)
              else Inr (map Some parts @ replicate (3 - length parts) None))"

text \<open>
  \<^verbatim>\<open>CoreRecipeInfo.__init__\<close>. The name of a recipe that sets no \<^verbatim>\<open>PN\<close> comes from its file name, which
  ends in \<^verbatim>\<open>.bb\<close>; for any other file the name would be \<^verbatim>\<open>None\<close>, which is an error here.
\<close>

definition recipe_head_of :: "string \<Rightarrow> metadata \<Rightarrow> int \<Rightarrow> recipe_head result" where
  "recipe_head_of filename md mtime =
     rbind (if getvar ''PN'' md \<noteq> [] then Inr (getvar ''PN'' md)
            else rbind (vars_from_file filename) (\<lambda>parts.
                 case parts ! 0 of None \<Rightarrow> Inl TypeError | Some pn \<Rightarrow> Inr pn)) (\<lambda>pn.
     let pkgs0 = listvar ''PACKAGES'' md;
         pkgs = (if pkgs0 = [] then [pn] else pkgs0)
     in Inr \<lparr>ri_file_depends = md_depends md,
             ri_timestamp = mtime,
             ri_variants = listvar ''__VARIANTS'' md @ [[]],
             ri_appends = listvar ''__BBAPPEND'' md,
             ri_nocache = getvar ''BB_DONT_CACHE'' md,
             ri_provides = depvar ''PROVIDES'' md,
             ri_rprovides = depvar ''RPROVIDES'' md,
             ri_pn = pn,
             ri_packages = pkgs,
             ri_packages_dynamic = listvar ''PACKAGES_DYNAMIC'' md,
             ri_rprovides_pkg = pkgvar ''RPROVIDES'' pkgs md,
             ri_skipreason = getvar ''__SKIPPED'' md\<rparr>)"

definition CoreRecipeInfo :: "string \<Rightarrow> metadata \<Rightarrow> int \<Rightarrow> core_info result" where
  "CoreRecipeInfo filename md mtime =
     rbind (recipe_head_of filename md mtime) (\<lambda>h.
     if ri_skipreason h \<noteq> [] then Inr (Skipped h)
     else case md_bbtasks md of
            None \<Rightarrow> Inl TypeError
          | Some tasks \<Rightarrow>
              rbind (intvar ''DEFAULT_PREFERENCE'' md) (\<lambda>defaultpref.
              Inr (Parsed (recipe_head.extend h (recipeinfo.fields
                tasks
                (taskvar ''BB_BASEHASH'' tasks md)
                (getvar ''BB_HASHFILENAME'' md)
                (case md_task_deps md of None \<Rightarrow> \<lparr>tk_tasks = [], tk_parents = [], tk_flags = []\<rparr> | Some t \<Rightarrow> t)
                (getvar ''PE'' md)
                (getvar ''PV'' md)
                (getvar ''PR'' md)
                defaultpref
                (getvar ''EXCLUDE_FROM_WORLD'' md)
                (getvar ''STAMP'' md)
                (getvar ''STAMPCLEAN'' md)
                (flaglist ''stamp-extra-info'' tasks md False)
                (flaglist ''file-checksums'' tasks md True)
                (depvar ''DEPENDS'' md)
                (depvar ''RDEPENDS'' md)
                (depvar ''RRECOMMENDS'' md)
                (pkgvar ''RDEPENDS'' (ri_packages h) md)
                (pkgvar ''RRECOMMENDS'' (ri_packages h) md)
                (case md_raw md ''__inherit_cache'' of None \<Rightarrow> [] | Some v \<Rightarrow> v)
                (getvar ''FAKEROOTENV'' md)
                (getvar ''FAKEROOTDIRS'' md)
                (getvar ''FAKEROOTNOENV'' md)
                (getvar ''calculate_extra_depends'' md))))))"

section \<open>The indexes\<close>

text \<open>\<^verbatim>\<open>CacheData.__init__\<close> with \<^verbatim>\<open>CoreRecipeInfo.init_cacheData\<close>.\<close>

definition CacheData :: cachedata where
  "CacheData =
     \<lparr>dc_task_deps = [], dc_pkg_fn = [], dc_pkg_pn = [], dc_pkg_pepvpr = [], dc_pkg_dp = [],
      dc_stamp = [], dc_stampclean = [], dc_stamp_extrainfo = [], dc_file_checksums = [],
      dc_fn_provides = [], dc_pn_provides = [], dc_all_depends = [], dc_deps = [], dc_packages = [],
      dc_providers = [], dc_rproviders = [], dc_packages_dynamic = [], dc_rundeps = [],
      dc_runrecs = [], dc_possible_world = [], dc_universe_target = [], dc_hashfn = [],
      dc_basetaskhash = [], dc_inherits = [], dc_fakerootenv = [], dc_fakerootnoenv = [],
      dc_fakerootdirs = [], dc_extradepsfunc = [], dc_preferred = [], dc_ignored_dependencies = [],
      dc_world_target = [], dc_bbfile_priority = []\<rparr>"

text \<open>The loops of \<^verbatim>\<open>add_cacheData\<close>, in the order of the source.\<close>

definition own_provides :: "recipeinfo \<Rightarrow> string list" where
  "own_provides info = fold add_new (ri_provides info) [ri_pn info]"

definition add_provide :: "string \<Rightarrow> string \<Rightarrow> string \<Rightarrow> cachedata \<Rightarrow> cachedata" where
  "add_provide fn pn provide dc =
     dc\<lparr>dc_providers := dd_append provide fn (dc_providers dc),
        dc_pn_provides := (if provide \<in> set (dd_get (dc_pn_provides dc) pn) then dc_pn_provides dc
                           else dd_append pn provide (dc_pn_provides dc))\<rparr>"

definition add_dep :: "string \<Rightarrow> string \<Rightarrow> cachedata \<Rightarrow> cachedata" where
  "add_dep fn dep dc =
     dc\<lparr>dc_deps := (if dep \<in> set (dd_get (dc_deps dc) fn) then dc_deps dc else dd_append fn dep (dc_deps dc)),
        dc_all_depends := add_new dep (dc_all_depends dc)\<rparr>"

text \<open>\<^verbatim>\<open>rprovides += self.rprovides_pkg[package]\<close> extends the list of the recipe itself.\<close>

definition add_package :: "string \<Rightarrow> string \<Rightarrow> recipeinfo \<times> cachedata \<Rightarrow> (recipeinfo \<times> cachedata) result" where
  "add_package fn package s =
     (case s of (info, dc) \<Rightarrow>
        rbind (dict_lookup (ri_rprovides_pkg info) package) (\<lambda>rp.
        Inr (info\<lparr>ri_rprovides := ri_rprovides info @ rp\<rparr>,
             dc\<lparr>dc_packages := dd_append package fn (dc_packages dc)\<rparr>)))"

definition add_rprovide :: "string \<Rightarrow> string \<Rightarrow> cachedata \<Rightarrow> cachedata" where
  "add_rprovide fn rprovide dc =
     (if fn \<in> set (dd_get (dc_rproviders dc) rprovide) then dc
      else dc\<lparr>dc_rproviders := dd_append rprovide fn (dc_rproviders dc)\<rparr>)"

definition add_dynamic :: "string \<Rightarrow> string \<Rightarrow> cachedata \<Rightarrow> cachedata" where
  "add_dynamic fn package dc = dc\<lparr>dc_packages_dynamic := dd_append package fn (dc_packages_dynamic dc)\<rparr>"

definition add_rundeps :: "string \<Rightarrow> recipeinfo \<Rightarrow> string \<Rightarrow> cachedata \<Rightarrow> cachedata result" where
  "add_rundeps fn info package dc =
     rbind (dict_lookup (ri_rdepends_pkg info) package) (\<lambda>rd.
     rbind (dict_lookup (ri_rrecommends_pkg info) package) (\<lambda>rr.
     Inr (dc\<lparr>dc_rundeps := dict_set fn (dict_set package (ri_rdepends info @ rd) (dd_get (dc_rundeps dc) fn)) (dc_rundeps dc),
             dc_runrecs := dict_set fn (dict_set package (ri_rrecommends info @ rr) (dd_get (dc_runrecs dc) fn)) (dc_runrecs dc)\<rparr>)))"

definition add_basehash :: "string \<Rightarrow> string \<times> string \<Rightarrow> cachedata \<Rightarrow> cachedata" where
  "add_basehash fn th dc =
     dc\<lparr>dc_basetaskhash := dict_set (fn @ '':'' @ fst th) (snd th) (dc_basetaskhash dc)\<rparr>"

definition add_scalars1 :: "recipeinfo \<Rightarrow> string \<Rightarrow> cachedata \<Rightarrow> cachedata" where
  "add_scalars1 info fn dc =
     dc\<lparr>dc_task_deps := dict_set fn (ri_task_deps info) (dc_task_deps dc),
        dc_pkg_fn := dict_set fn (ri_pn info) (dc_pkg_fn dc),
        dc_pkg_pn := dd_append (ri_pn info) fn (dc_pkg_pn dc),
        dc_pkg_pepvpr := dict_set fn (ri_pe info, ri_pv info, ri_pr info) (dc_pkg_pepvpr dc),
        dc_pkg_dp := dict_set fn (ri_defaultpref info) (dc_pkg_dp dc),
        dc_stamp := dict_set fn (ri_stamp info) (dc_stamp dc),
        dc_stampclean := dict_set fn (ri_stampclean info) (dc_stampclean dc),
        dc_stamp_extrainfo := dict_set fn (ri_stamp_extrainfo info) (dc_stamp_extrainfo dc),
        dc_file_checksums := dict_set fn (ri_file_checksums info) (dc_file_checksums dc),
        dc_fn_provides := dict_set fn (own_provides info) (dc_fn_provides dc)\<rparr>"

definition add_scalars2 :: "recipeinfo \<Rightarrow> string \<Rightarrow> cachedata \<Rightarrow> cachedata" where
  "add_scalars2 info fn dc =
     dc\<lparr>dc_possible_world := (if ri_not_world info = [] then dc_possible_world dc @ [fn] else dc_possible_world dc),
        dc_universe_target := dc_universe_target dc @ [ri_pn info],
        dc_hashfn := dict_set fn (ri_hashfilename info) (dc_hashfn dc)\<rparr>"

definition add_scalars3 :: "recipeinfo \<Rightarrow> string \<Rightarrow> cachedata \<Rightarrow> cachedata" where
  "add_scalars3 info fn dc =
     dc\<lparr>dc_inherits := dict_set fn (ri_inherits info) (dc_inherits dc),
        dc_fakerootenv := dict_set fn (ri_fakerootenv info) (dc_fakerootenv dc),
        dc_fakerootnoenv := dict_set fn (ri_fakerootnoenv info) (dc_fakerootnoenv dc),
        dc_fakerootdirs := dict_set fn (ri_fakerootdirs info) (dc_fakerootdirs dc),
        dc_extradepsfunc := dict_set fn (ri_extradepsfunc info) (dc_extradepsfunc dc)\<rparr>"

definition add_cacheData :: "recipeinfo \<Rightarrow> string \<Rightarrow> cachedata \<Rightarrow> (recipeinfo \<times> cachedata) result" where
  "add_cacheData info fn dc =
     (let dc1 = add_scalars1 info fn dc;
          dc2 = fold (add_provide fn (ri_pn info)) (own_provides info) dc1;
          dc3 = fold (add_dep fn) (ri_depends info) dc2
      in rbind (rfold (add_package fn) (ri_packages info) (info, dc3)) (\<lambda>(info', dc4).
         let dc5 = fold (add_rprovide fn) (ri_rprovides info') dc4;
             dc6 = fold (add_dynamic fn) (ri_packages_dynamic info') dc5
         in rbind (rfold (add_rundeps fn info') (ri_packages info') dc6) (\<lambda>dc7.
            Inr (info', add_scalars3 info' fn (fold (add_basehash fn) (ri_basetaskhashes info')
                          (add_scalars2 info' fn dc7))))))"

text \<open>\<^verbatim>\<open>CacheData.add_from_recipeinfo\<close> over the recipes in the order they are entered.\<close>

fun add_recipes :: "(string \<times> recipeinfo) list \<Rightarrow> cachedata \<Rightarrow> cachedata result" where
  "add_recipes [] dc = Inr dc"
| "add_recipes ((fn, info) # rs) dc = rbind (add_cacheData info fn dc) (\<lambda>(_, dc'). add_recipes rs dc')"

section \<open>Virtual file names\<close>

definition virtualfn2realfn :: "string \<Rightarrow> string \<times> string \<times> string" where
  "virtualfn2realfn virtualfn0 =
     (let (mc, virtualfn) =
            (if startswith virtualfn0 ''mc:''
             then let elems = split_on (CHR '':'') virtualfn0 in (elems ! 1, join '':'' (drop 2 elems))
             else ([], virtualfn0))
      in if startswith virtualfn ''virtual:''
         then let elems = split_on (CHR '':'') virtualfn in (last elems, join '':'' (butlast (drop 1 elems)), mc)
         else (virtualfn, [], mc))"

definition realfn2virtual :: "string \<Rightarrow> string \<Rightarrow> string \<Rightarrow> string" where
  "realfn2virtual realfn cls mc =
     (let realfn1 = (if cls \<noteq> [] then ''virtual:'' @ cls @ '':'' @ realfn else realfn)
      in if mc \<noteq> [] then ''mc:'' @ mc @ '':'' @ realfn1 else realfn1)"

definition variant2virtual :: "string \<Rightarrow> string \<Rightarrow> string result" where
  "variant2virtual realfn variant =
     (if variant = [] then Inr realfn
      else if startswith variant ''mc:'' then
        (let elems = split_on (CHR '':'') variant
         in if length elems \<le> 2 then Inl IndexError
            else if elems ! 2 \<noteq> [] then
              Inr (''mc:'' @ elems ! 1 @ '':virtual:'' @ join '':'' (drop 2 elems) @ '':'' @ realfn)
            else Inr (''mc:'' @ elems ! 1 @ '':'' @ realfn))
      else Inr (''virtual:'' @ variant @ '':'' @ realfn))"

section \<open>Frame lemmas\<close>

lemma fold_frame: "(\<And>x d. g (f x d) = g d) \<Longrightarrow> g (fold f xs d) = g d"
  by (induction xs arbitrary: d) auto

lemma rfold_frame:
  assumes "rfold f xs d = Inr d'" and "\<And>x d d'. f x d = Inr d' \<Longrightarrow> g d' = g d"
  shows "g d' = g d"
  by (rule rfold_invariant [OF assms(1), where I = "\<lambda>c. g c = g d"]) (use assms(2) in auto)

text \<open>The part of the indexes the provider selection reads, and which steps can change it.\<close>

definition build_view :: "cachedata \<Rightarrow> (string, taskdeps) dict \<times> (string, string) dict \<times>
    (string, string list) dict \<times> (string, string \<times> string \<times> string) dict \<times> (string, int) dict \<times>
    (string, string list) dict" where
  "build_view dc = (dc_task_deps dc, dc_pkg_fn dc, dc_pkg_pn dc, dc_pkg_pepvpr dc, dc_pkg_dp dc,
     dc_fn_provides dc)"

definition prov_view :: "cachedata \<Rightarrow> (string, string list) dict \<times> (string, string list) dict" where
  "prov_view dc = (dc_providers dc, dc_pn_provides dc)"

lemmas add_defs = add_provide_def add_dep_def add_rprovide_def add_dynamic_def add_basehash_def
  add_scalars1_def add_scalars2_def add_scalars3_def

lemma view_frames:
  "build_view (add_provide fn pn p dc) = build_view dc"
  "build_view (add_dep fn p dc) = build_view dc" "prov_view (add_dep fn p dc) = prov_view dc"
  "build_view (add_rprovide fn p dc) = build_view dc" "prov_view (add_rprovide fn p dc) = prov_view dc"
  "build_view (add_dynamic fn p dc) = build_view dc" "prov_view (add_dynamic fn p dc) = prov_view dc"
  "build_view (add_basehash fn th dc) = build_view dc" "prov_view (add_basehash fn th dc) = prov_view dc"
  "build_view (add_scalars2 info fn dc) = build_view dc" "prov_view (add_scalars2 info fn dc) = prov_view dc"
  "build_view (add_scalars3 info fn dc) = build_view dc" "prov_view (add_scalars3 info fn dc) = prov_view dc"
  by (simp_all add: build_view_def prov_view_def add_defs)

lemma add_package_frame:
  assumes "add_package fn p s = Inr s'"
  shows "build_view (snd s') = build_view (snd s)" "prov_view (snd s') = prov_view (snd s)"
    "dc_rproviders (snd s') = dc_rproviders (snd s)"
  using assms by (auto simp: add_package_def build_view_def prov_view_def split: prod.splits)

lemma add_rundeps_frame:
  assumes "add_rundeps fn info p dc = Inr dc'"
  shows "build_view dc' = build_view dc" "prov_view dc' = prov_view dc" "dc_rproviders dc' = dc_rproviders dc"
  using assms by (auto simp: add_rundeps_def build_view_def prov_view_def)

text \<open>The intermediate states of a successful \<^verbatim>\<open>add_cacheData\<close>.\<close>

lemma add_cacheDataE:
  assumes "add_cacheData info fn dc = Inr (info', dc')"
  obtains dc4 dc7 where
    "rfold (add_package fn) (ri_packages info)
       (info, fold (add_dep fn) (ri_depends info)
          (fold (add_provide fn (ri_pn info)) (own_provides info) (add_scalars1 info fn dc))) = Inr (info', dc4)"
    "rfold (add_rundeps fn info') (ri_packages info') (fold (add_dynamic fn) (ri_packages_dynamic info')
       (fold (add_rprovide fn) (ri_rprovides info') dc4)) = Inr dc7"
    "dc' = add_scalars3 info' fn (fold (add_basehash fn) (ri_basetaskhashes info') (add_scalars2 info' fn dc7))"
  using assms by (auto simp: add_cacheData_def Let_def)

lemma add_cacheData_views:
  assumes "add_cacheData info fn dc = Inr (info', dc')"
  shows "build_view dc' = build_view (add_scalars1 info fn dc)"
    and "prov_view dc' = prov_view (fold (add_provide fn (ri_pn info)) (own_provides info) (add_scalars1 info fn dc))"
proof -
  from assms obtain dc4 dc7 where
    a: "rfold (add_package fn) (ri_packages info)
       (info, fold (add_dep fn) (ri_depends info)
          (fold (add_provide fn (ri_pn info)) (own_provides info) (add_scalars1 info fn dc))) = Inr (info', dc4)"
    and b: "rfold (add_rundeps fn info') (ri_packages info') (fold (add_dynamic fn) (ri_packages_dynamic info')
       (fold (add_rprovide fn) (ri_rprovides info') dc4)) = Inr dc7"
    and c: "dc' = add_scalars3 info' fn (fold (add_basehash fn) (ri_basetaskhashes info') (add_scalars2 info' fn dc7))"
    by (rule add_cacheDataE)
  show "build_view dc' = build_view (add_scalars1 info fn dc)"
    using rfold_frame [OF a, of "\<lambda>s. build_view (snd s)"] rfold_frame [OF b, of build_view]
    by (simp add: c add_package_frame add_rundeps_frame view_frames fold_frame [where g = build_view])
  show "prov_view dc' = prov_view (fold (add_provide fn (ri_pn info)) (own_provides info) (add_scalars1 info fn dc))"
    using rfold_frame [OF a, of "\<lambda>s. prov_view (snd s)"] rfold_frame [OF b, of prov_view]
    by (simp add: c add_package_frame add_rundeps_frame view_frames fold_frame [where g = prov_view])
qed

section \<open>The indexes agree with each other\<close>

definition provides_of :: "cachedata \<Rightarrow> string \<Rightarrow> string set" where
  "provides_of dc fn = (case map_of (dc_fn_provides dc) fn of None \<Rightarrow> {} | Some ps \<Rightarrow> set ps)"

definition cache_inv :: "cachedata \<Rightarrow> bool" where
  "cache_inv dc \<longleftrightarrow>
     (\<forall>fn pn. map_of (dc_pkg_fn dc) fn = Some pn \<longleftrightarrow> fn \<in> set (dd_get (dc_pkg_pn dc) pn)) \<and>
     (\<forall>fn p. fn \<in> set (dd_get (dc_providers dc) p) \<longleftrightarrow> p \<in> provides_of dc fn) \<and>
     (\<forall>pn p. p \<in> set (dd_get (dc_pn_provides dc) pn) \<longleftrightarrow>
        (\<exists>fn. map_of (dc_pkg_fn dc) fn = Some pn \<and> p \<in> provides_of dc fn)) \<and>
     (\<forall>fn pn. map_of (dc_pkg_fn dc) fn = Some pn \<longrightarrow> pn \<in> provides_of dc fn) \<and>
     (\<forall>fn. has_key (dc_pkg_fn dc) fn = has_key (dc_fn_provides dc) fn \<and>
           has_key (dc_pkg_fn dc) fn = has_key (dc_pkg_pepvpr dc) fn \<and>
           has_key (dc_pkg_fn dc) fn = has_key (dc_pkg_dp dc) fn \<and>
           has_key (dc_pkg_fn dc) fn = has_key (dc_task_deps dc) fn) \<and>
     (\<forall>p. distinct (dd_get (dc_pkg_pn dc) p) \<and> distinct (dd_get (dc_providers dc) p) \<and>
          distinct (dd_get (dc_pn_provides dc) p))"

lemma cache_inv_pkg_pn:
  "cache_inv dc \<Longrightarrow> fn \<in> set (dd_get (dc_pkg_pn dc) pn) \<longleftrightarrow> map_of (dc_pkg_fn dc) fn = Some pn"
  unfolding cache_inv_def by blast

lemma cache_inv_providers:
  "cache_inv dc \<Longrightarrow> fn \<in> set (dd_get (dc_providers dc) p) \<longleftrightarrow> p \<in> provides_of dc fn"
  unfolding cache_inv_def by blast

lemma cache_inv_keys:
  assumes "cache_inv dc"
  shows "has_key (dc_fn_provides dc) fn = has_key (dc_pkg_fn dc) fn"
    "has_key (dc_pkg_pepvpr dc) fn = has_key (dc_pkg_fn dc) fn"
    "has_key (dc_pkg_dp dc) fn = has_key (dc_pkg_fn dc) fn"
    "has_key (dc_task_deps dc) fn = has_key (dc_pkg_fn dc) fn"
  using assms unfolding cache_inv_def by blast+

lemma own_provides_props: "distinct (own_provides info)" "ri_pn info \<in> set (own_provides info)"
  "set (own_provides info) = insert (ri_pn info) (set (ri_provides info))"
  by (simp_all add: own_provides_def distinct_fold_add_new set_fold_add_new)

lemma fold_add_provide_providers:
  "distinct ps \<Longrightarrow> dd_get (dc_providers (fold (add_provide fn pn) ps dc)) q =
     dd_get (dc_providers dc) q @ (if q \<in> set ps then [fn] else [])"
  by (induction ps arbitrary: dc) (auto simp: add_provide_def)

lemma add_provide_pn_distinct:
  "distinct (dd_get (dc_pn_provides dc) q) \<Longrightarrow> distinct (dd_get (dc_pn_provides (add_provide fn pn p dc)) q)"
  by (cases "q = pn") (auto simp: add_provide_def)

lemma fold_add_provide_pn_provides:
  "set (dd_get (dc_pn_provides (fold (add_provide fn pn) ps dc)) q) =
     set (dd_get (dc_pn_provides dc) q) \<union> (if q = pn then set ps else {})"
  "distinct (dd_get (dc_pn_provides dc) q) \<Longrightarrow>
     distinct (dd_get (dc_pn_provides (fold (add_provide fn pn) ps dc)) q)"
proof (induction ps arbitrary: dc)
  case (Cons p ps)
  {
    case 1
    show ?case by (simp add: Cons.IH(1)) (auto simp: add_provide_def)
  next
    case 2
    then show ?case by (simp add: Cons.IH(2) add_provide_pn_distinct)
  }
qed simp_all

lemma add_cacheData_inv:
  assumes "add_cacheData info fn dc = Inr (info', dc')" and inv: "cache_inv dc"
    and new: "\<not> has_key (dc_pkg_fn dc) fn"
  shows "cache_inv dc'"
proof -
  note v = add_cacheData_views [OF assms(1)]
  have f: "dc_pkg_fn dc' = dict_set fn (ri_pn info) (dc_pkg_fn dc)"
    "dc_pkg_pn dc' = dd_append (ri_pn info) fn (dc_pkg_pn dc)"
    "dc_fn_provides dc' = dict_set fn (own_provides info) (dc_fn_provides dc)"
    "has_key (dc_pkg_pepvpr dc') k \<longleftrightarrow> k = fn \<or> has_key (dc_pkg_pepvpr dc) k"
    "has_key (dc_pkg_dp dc') k \<longleftrightarrow> k = fn \<or> has_key (dc_pkg_dp dc) k"
    "has_key (dc_task_deps dc') k \<longleftrightarrow> k = fn \<or> has_key (dc_task_deps dc) k" for k
    using v(1) by (simp_all add: build_view_def add_scalars1_def)
  have "\<not> has_key (dc_fn_provides dc) fn" using inv new unfolding cache_inv_def by blast
  then have nofn: "provides_of dc fn = {}" "map_of (dc_pkg_fn dc) fn = None"
    using new by (simp_all add: provides_of_def has_key_def)
  have po: "provides_of dc' k = (if k = fn then set (own_provides info) else provides_of dc k)" for k
    by (simp add: provides_of_def f)
  have pr: "dd_get (dc_providers dc') q = dd_get (dc_providers dc) q @ (if q \<in> set (own_provides info) then [fn] else [])" for q
    using v(2) fold_add_provide_providers [OF own_provides_props(1) [of info], of fn "ri_pn info" "add_scalars1 info fn dc" q]
    by (simp add: prov_view_def add_scalars1_def)
  have pp: "set (dd_get (dc_pn_provides dc') q) = set (dd_get (dc_pn_provides dc) q) \<union>
      (if q = ri_pn info then set (own_provides info) else {})" for q
    using v(2) fold_add_provide_pn_provides(1) [of fn "ri_pn info" "own_provides info" "add_scalars1 info fn dc" q]
    by (simp add: prov_view_def add_scalars1_def)
  have pd: "distinct (dd_get (dc_pn_provides dc') q)" for q
    using v(2) inv fold_add_provide_pn_provides(2) [of "add_scalars1 info fn dc" q fn "ri_pn info" "own_provides info"]
    by (simp add: prov_view_def add_scalars1_def cache_inv_def)
  have old: "fn \<notin> set (dd_get (dc_providers dc) q)" "fn \<notin> set (dd_get (dc_pkg_pn dc) q)" for q
    using nofn by (simp_all add: cache_inv_pkg_pn [OF inv] cache_inv_providers [OF inv])
  show ?thesis
    unfolding cache_inv_def
  proof (intro conjI allI)
    fix k q
    show "map_of (dc_pkg_fn dc') k = Some q \<longleftrightarrow> k \<in> set (dd_get (dc_pkg_pn dc') q)"
      using inv old by (auto simp: f cache_inv_def)
    show "k \<in> set (dd_get (dc_providers dc') q) \<longleftrightarrow> q \<in> provides_of dc' k"
      using inv old nofn by (auto simp: pr po cache_inv_def)
    have "(\<exists>g. map_of (dc_pkg_fn dc') g = Some k \<and> q \<in> provides_of dc' g) \<longleftrightarrow>
        (k = ri_pn info \<and> q \<in> set (own_provides info)) \<or>
        (\<exists>g. g \<noteq> fn \<and> map_of (dc_pkg_fn dc) g = Some k \<and> q \<in> provides_of dc g)"
      by (auto simp: f po)
    also have "(\<exists>g. g \<noteq> fn \<and> map_of (dc_pkg_fn dc) g = Some k \<and> q \<in> provides_of dc g) \<longleftrightarrow>
        q \<in> set (dd_get (dc_pn_provides dc) k)"
      using inv nofn unfolding cache_inv_def by auto
    finally show "q \<in> set (dd_get (dc_pn_provides dc') k) \<longleftrightarrow>
        (\<exists>g. map_of (dc_pkg_fn dc') g = Some k \<and> q \<in> provides_of dc' g)"
      by (auto simp: pp)
    show "map_of (dc_pkg_fn dc') k = Some q \<longrightarrow> q \<in> provides_of dc' k"
      using inv own_provides_props(2) [of info] by (auto simp: f po cache_inv_def)
    show "has_key (dc_pkg_fn dc') k = has_key (dc_fn_provides dc') k"
      "has_key (dc_pkg_fn dc') k = has_key (dc_pkg_pepvpr dc') k"
      "has_key (dc_pkg_fn dc') k = has_key (dc_pkg_dp dc') k"
      "has_key (dc_pkg_fn dc') k = has_key (dc_task_deps dc') k"
      by (simp_all add: f cache_inv_keys [OF inv])
    show "distinct (dd_get (dc_pkg_pn dc') q)" "distinct (dd_get (dc_providers dc') q)"
      "distinct (dd_get (dc_pn_provides dc') q)"
      using inv old pd by (auto simp: f pr cache_inv_def)
  qed
qed

lemma add_cacheData_pkg_fn:
  "add_cacheData info fn dc = Inr (info', dc') \<Longrightarrow> dc_pkg_fn dc' = dict_set fn (ri_pn info) (dc_pkg_fn dc)"
  using add_cacheData_views(1) [of info fn dc info' dc'] by (simp add: build_view_def add_scalars1_def)

lemma add_recipes_inv:
  assumes "add_recipes rs dc = Inr dc'" "cache_inv dc" "distinct (map fst rs)"
    and "\<forall>fn \<in> fst ` set rs. \<not> has_key (dc_pkg_fn dc) fn"
  shows "cache_inv dc' \<and> (\<forall>fn. has_key (dc_pkg_fn dc') fn \<longleftrightarrow> has_key (dc_pkg_fn dc) fn \<or> fn \<in> fst ` set rs)"
  using assms
proof (induction rs arbitrary: dc)
  case Nil
  then show ?case by simp
next
  case (Cons r rs)
  obtain fn info where r: "r = (fn, info)" by (cases r)
  from Cons.prems(1) r obtain info1 dc1 where
    dc1: "add_cacheData info fn dc = Inr (info1, dc1)" "add_recipes rs dc1 = Inr dc'" by auto
  have "cache_inv dc1" using add_cacheData_inv [OF dc1(1)] Cons.prems r by simp
  moreover have "\<forall>g \<in> fst ` set rs. \<not> has_key (dc_pkg_fn dc1) g"
    using Cons.prems(3,4) r add_cacheData_pkg_fn [OF dc1(1)] by auto
  ultimately have "cache_inv dc' \<and>
      (\<forall>fn. has_key (dc_pkg_fn dc') fn \<longleftrightarrow> has_key (dc_pkg_fn dc1) fn \<or> fn \<in> fst ` set rs)"
    using Cons.IH [OF dc1(2)] Cons.prems(3) r by simp
  then show ?case using r add_cacheData_pkg_fn [OF dc1(1)] by auto
qed

section \<open>Runtime providers\<close>

lemma fold_add_rprovide:
  "set (dd_get (dc_rproviders (fold (add_rprovide fn) rs dc)) q) =
     set (dd_get (dc_rproviders dc) q) \<union> (if q \<in> set rs then {fn} else {})"
  by (induction rs arbitrary: dc) (auto simp: add_rprovide_def)

lemma add_package_Inr: "add_package fn p (info, dc) = Inr s' \<longleftrightarrow>
    (\<exists>rp. map_of (ri_rprovides_pkg info) p = Some rp \<and>
       s' = (info\<lparr>ri_rprovides := ri_rprovides info @ rp\<rparr>, dc\<lparr>dc_packages := dd_append p fn (dc_packages dc)\<rparr>))"
  by (auto simp: add_package_def)

lemma rfold_add_package:
  assumes "rfold (add_package fn) ps (info, dc) = Inr (info', dc')"
  shows "set (ri_rprovides info') = set (ri_rprovides info) \<union> (\<Union>p \<in> set ps. set (dd_get (ri_rprovides_pkg info) p))"
  using assms
proof (induction ps arbitrary: info dc)
  case Nil
  then show ?case by simp
next
  case (Cons p ps)
  then obtain rp where "map_of (ri_rprovides_pkg info) p = Some rp"
    "rfold (add_package fn) ps (info\<lparr>ri_rprovides := ri_rprovides info @ rp\<rparr>,
       dc\<lparr>dc_packages := dd_append p fn (dc_packages dc)\<rparr>) = Inr (info', dc')"
    by (auto simp: add_package_Inr)
  with Cons.IH show ?case by (fastforce simp: dd_get_def)
qed

lemma rproviders_frames:
  "dc_rproviders (add_scalars1 info fn dc) = dc_rproviders dc"
  "dc_rproviders (add_scalars2 info fn dc) = dc_rproviders dc"
  "dc_rproviders (add_scalars3 info fn dc) = dc_rproviders dc"
  "dc_rproviders (add_provide fn pn p dc) = dc_rproviders dc"
  "dc_rproviders (add_dep fn p dc) = dc_rproviders dc"
  "dc_rproviders (add_dynamic fn p dc) = dc_rproviders dc"
  "dc_rproviders (add_basehash fn th dc) = dc_rproviders dc"
  by (simp_all add: add_defs)

section \<open>Colon-separated names\<close>

lemma split_mc_prefix:
  assumes "CHR '':'' \<notin> set mc"
  shows "split_on (CHR '':'') (''mc:'' @ mc @ '':'' @ s) = ''mc'' # mc # split_on (CHR '':'') s"
  using split_on_append_sep [of "CHR '':''" "''mc''" "mc @ '':'' @ s"]
    split_on_append_sep [OF assms, of s] by simp

lemma split_virtual_prefix:
  "split_on (CHR '':'') (''virtual:'' @ s) = ''virtual'' # split_on (CHR '':'') s"
  using split_on_append_sep [of "CHR '':''" "''virtual''" s] by simp

lemma split_on_snoc: "c \<notin> set b \<Longrightarrow> split_on c (a @ c # b) = split_on c a @ [b]"
proof (induction a)
  case Nil
  then show ?case by (simp add: split_on_no_sep)
next
  case (Cons x a)
  then show ?case by (auto split: list.splits)
qed

lemma realfn2virtual_decode:
  assumes "CHR '':'' \<notin> set fn" and "CHR '':'' \<notin> set mc"
  shows "virtualfn2realfn (realfn2virtual fn cls mc) = (fn, cls, mc)"
proof -
  have no: "\<not> startswith fn ''mc:''" "\<not> startswith fn ''virtual:''"
    using assms(1) by (auto simp: prefix_def)
  let ?v = "''virtual:'' @ cls @ '':'' @ fn"
  have sp: "split_on (CHR '':'') ?v = ''virtual'' # split_on (CHR '':'') cls @ [fn]"
    using split_virtual_prefix split_on_snoc [OF assms(1), of cls] by simp
  have v: "virtualfn2realfn ?v = (fn, cls, [])"
    unfolding virtualfn2realfn_def using sp split_on_join [of "CHR '':''" cls] by (simp add: Let_def)
  have w: "virtualfn2realfn (''mc:'' @ mc @ '':'' @ s) =
      (case virtualfn2realfn s of (f, c, _) \<Rightarrow> (f, c, mc))" if "\<not> startswith s ''mc:''" for s
    unfolding virtualfn2realfn_def split_mc_prefix [OF assms(2)]
    using that split_on_join [of "CHR '':''" s] by (simp add: Let_def)
  have f: "virtualfn2realfn fn = (fn, [], [])"
    using no by (simp add: virtualfn2realfn_def)
  show ?thesis
    using v w [of ?v] w [OF no(1)] f
    by (cases "cls = []"; cases "mc = []") (simp_all add: realfn2virtual_def)
qed

section \<open>Properties\<close>

text \<open>C29. Entering any sequence of recipes with distinct file names keeps the \<^verbatim>\<open>CacheData\<close> indexes
  consistent: \<^verbatim>\<open>pkg_pn\<close> is the inverse of \<^verbatim>\<open>pkg_fn\<close>, \<^verbatim>\<open>providers\<close> the inverse of \<^verbatim>\<open>fn_provides\<close>,
  \<^verbatim>\<open>pn_provides\<close> collects what the files of a recipe name provide, every recipe provides its own
  name, all per-file indexes have the same files, exactly the entered ones, and no list has duplicates.\<close>

theorem recipe_indexes_consistent:
  assumes "add_recipes rs CacheData = Inr dc" and "distinct (map fst rs)"
  shows "cache_inv dc \<and> (\<forall>fn. has_key (dc_pkg_fn dc) fn \<longleftrightarrow> fn \<in> fst ` set rs)"
proof -
  have "cache_inv CacheData"
    by (simp add: cache_inv_def CacheData_def provides_of_def)
  moreover have "\<not> has_key (dc_pkg_fn CacheData) fn" for fn by (simp add: CacheData_def)
  ultimately show ?thesis using add_recipes_inv [OF assms(1)] assms(2) by auto
qed

text \<open>A recipe whose metadata sets only what is given, used at concrete inputs below.\<close>

definition sample_recipe :: "string \<Rightarrow> string \<Rightarrow> string list \<Rightarrow> recipeinfo" where
  "sample_recipe pn pv provides =
     \<lparr>ri_file_depends = None, ri_timestamp = 0, ri_variants = [[]], ri_appends = [], ri_nocache = [],
      ri_provides = provides, ri_rprovides = [], ri_pn = pn, ri_packages = [pn],
      ri_packages_dynamic = [], ri_rprovides_pkg = [(pn, [pn @ ''-rt''])], ri_skipreason = [], ri_tasks = [],
      ri_basetaskhashes = [], ri_hashfilename = [], ri_task_deps = \<lparr>tk_tasks = [], tk_parents = [], tk_flags = []\<rparr>,
      ri_pe = [], ri_pv = pv, ri_pr = ''r0'', ri_defaultpref = 0, ri_not_world = [], ri_stamp = [],
      ri_stampclean = [], ri_stamp_extrainfo = [], ri_file_checksums = [], ri_depends = [], ri_rdepends = [],
      ri_rrecommends = [], ri_rdepends_pkg = [(pn, [])], ri_rrecommends_pkg = [(pn, [])], ri_inherits = [],
      ri_fakerootenv = [], ri_fakerootdirs = [], ri_fakerootnoenv = [], ri_extradepsfunc = []\<rparr>"

theorem recipe_indexes_consistent_witness:
  "\<exists>dc. add_recipes [(''a_1.bb'', sample_recipe ''a'' ''1'' [''virtual/x'']),
      (''b_2.bb'', sample_recipe ''b'' ''2'' [''virtual/x''])] CacheData = Inr dc \<and> cache_inv dc"
proof -
  let ?rs = "[(''a_1.bb'', sample_recipe ''a'' ''1'' [''virtual/x'']),
      (''b_2.bb'', sample_recipe ''b'' ''2'' [''virtual/x''])]"
  have "\<exists>dc. add_recipes ?rs CacheData = Inr dc"
    by (simp add: add_cacheData_def Let_def add_package_def add_rundeps_def sample_recipe_def
      dict_lookup_def)
  then obtain dc where dc: "add_recipes ?rs CacheData = Inr dc" by blast
  have d: "distinct (map fst ?rs)" by simp
  show ?thesis using recipe_indexes_consistent [OF dc d] dc by blast
qed

text \<open>Entering a recipe makes its file a runtime provider of exactly the names in its \<^verbatim>\<open>RPROVIDES\<close>
  and in the \<^verbatim>\<open>RPROVIDES\<close> of its packages, and leaves the other runtime providers alone.\<close>

theorem runtime_providers_extended:
  assumes "add_cacheData info fn dc = Inr (info', dc')"
  shows "set (dd_get (dc_rproviders dc') q) = set (dd_get (dc_rproviders dc) q) \<union>
    (if q \<in> set (ri_rprovides info) \<or> (\<exists>p \<in> set (ri_packages info). q \<in> set (dd_get (ri_rprovides_pkg info) p))
     then {fn} else {})"
proof -
  from assms obtain dc4 dc7 where
    a: "rfold (add_package fn) (ri_packages info)
       (info, fold (add_dep fn) (ri_depends info)
          (fold (add_provide fn (ri_pn info)) (own_provides info) (add_scalars1 info fn dc))) = Inr (info', dc4)"
    and b: "rfold (add_rundeps fn info') (ri_packages info') (fold (add_dynamic fn) (ri_packages_dynamic info')
       (fold (add_rprovide fn) (ri_rprovides info') dc4)) = Inr dc7"
    and c: "dc' = add_scalars3 info' fn (fold (add_basehash fn) (ri_basetaskhashes info') (add_scalars2 info' fn dc7))"
    by (rule add_cacheDataE)
  have 4: "dc_rproviders dc4 = dc_rproviders dc"
    using rfold_frame [OF a, of "\<lambda>s. dc_rproviders (snd s)"]
    by (simp add: add_package_frame rproviders_frames fold_frame [where g = dc_rproviders])
  have "dc_rproviders dc' = dc_rproviders (fold (add_rprovide fn) (ri_rprovides info') dc4)"
    using rfold_frame [OF b, of dc_rproviders]
    by (simp add: c add_rundeps_frame rproviders_frames fold_frame [where g = dc_rproviders])
  then show ?thesis
    using rfold_add_package [OF a] by (simp add: fold_add_rprovide 4)
qed

theorem runtime_providers_extended_witness:
  "\<exists>info' dc'. add_cacheData (sample_recipe ''a'' ''1'' []) ''a_1.bb'' CacheData = Inr (info', dc') \<and>
     set (dd_get (dc_rproviders dc') ''a-rt'') = {''a_1.bb''}"
proof -
  have "\<exists>info' dc'. add_cacheData (sample_recipe ''a'' ''1'' []) ''a_1.bb'' CacheData = Inr (info', dc')"
    by (simp add: add_cacheData_def Let_def add_package_def add_rundeps_def sample_recipe_def dict_lookup_def)
  then obtain info' dc' where e: "add_cacheData (sample_recipe ''a'' ''1'' []) ''a_1.bb'' CacheData = Inr (info', dc')"
    by blast
  have "set (dd_get (dc_rproviders dc') ''a-rt'') = {''a_1.bb''}"
    using runtime_providers_extended [OF e, of "''a-rt''"]
    by (simp add: sample_recipe_def CacheData_def dd_get_def)
  with e show ?thesis by blast
qed

text \<open>\<^verbatim>\<open>virtualfn2realfn\<close> inverts \<^verbatim>\<open>realfn2virtual\<close>: the file, the class extension (which may itself
  have colons) and the multiconfig are recovered, for file and multiconfig names without colons.\<close>

theorem virtualfn_roundtrip:
  assumes "CHR '':'' \<notin> set fn" and "CHR '':'' \<notin> set mc"
  shows "virtualfn2realfn (realfn2virtual fn cls mc) = (fn, cls, mc)"
  by (rule realfn2virtual_decode [OF assms])

theorem virtualfn_roundtrip_witness:
  "virtualfn2realfn ''mc:arm:virtual:native:x:/l/a_1.bb'' = (''/l/a_1.bb'', ''native:x'', ''arm'')"
proof -
  have h: "CHR '':'' \<notin> set ''/l/a_1.bb''" "CHR '':'' \<notin> set ''arm''" by simp_all
  show ?thesis using virtualfn_roundtrip [OF h, of "''native:x''"] by (simp add: realfn2virtual_def)
qed

text \<open>The file name \<^verbatim>\<open>variant2virtual\<close> gives a variant decodes to that variant: a plain class
  extension, or a multiconfig with an optional class extension.\<close>

theorem variant_roundtrip:
  assumes "CHR '':'' \<notin> set fn" and "CHR '':'' \<notin> set mc" and "mc \<noteq> []" and "\<not> startswith cls '':''"
  shows "rbind (variant2virtual fn (''mc:'' @ mc @ '':'' @ cls)) (\<lambda>v. Inr (virtualfn2realfn v)) = Inr (fn, cls, mc)"
proof -
  let ?var = "''mc:'' @ mc @ '':'' @ cls"
  obtain w ws where w: "split_on (CHR '':'') cls = w # ws" by (cases "split_on (CHR '':'') cls") auto
  have jw: "join '':'' (w # ws) = cls" using split_on_join [of "CHR '':''" cls] w by simp
  have empty: "w = [] \<longleftrightarrow> cls = []"
    using w assms(4) by (cases cls) (auto split: if_splits list.splits)
  have el: "split_on (CHR '':'') ?var = ''mc'' # mc # w # ws" using split_mc_prefix [OF assms(2), of cls] w by simp
  have "variant2virtual fn ?var = Inr (realfn2virtual fn cls mc)"
    using el jw empty assms(3) by (simp add: variant2virtual_def realfn2virtual_def Let_def)
  then show ?thesis using realfn2virtual_decode [OF assms(1,2), of cls] by simp
qed

theorem variant_roundtrip_witness:
  "rbind (variant2virtual ''a.bb'' ''mc:arm:native'') (\<lambda>v. Inr (virtualfn2realfn v)) = Inr (''a.bb'', ''native'', ''arm'')"
proof -
  have h: "CHR '':'' \<notin> set ''a.bb''" "CHR '':'' \<notin> set ''arm''" "''arm'' \<noteq> []" "\<not> startswith ''native'' '':''"
    by simp_all
  show ?thesis using variant_roundtrip [OF h] by simp
qed

end
