(* ===== verification/BB_Providers.thy ===== *)
theory BB_Providers
  imports BB_Version BB_Cache
begin

text \<open>
  Provider selection of \<^verbatim>\<open>bb/providers.py\<close>: which recipe file satisfies a build or runtime target,
  by priority, preference, \<^verbatim>\<open>PREFERRED_VERSION\<close>, version and \<^verbatim>\<open>PREFERRED_PROVIDER\<close>.

  \<open>cfg\<close> is \<^verbatim>\<open>cfgData.getVar\<close>. \<open>re_match\<close> is \<^verbatim>\<open>re.compile(pattern).match(s)\<close> for patterns that come
  from recipes, with the exception it may raise. Log messages are not modelled.
\<close>

type_synonym cfg = "string \<Rightarrow> string option"
type_synonym re_matcher = "string \<Rightarrow> string \<Rightarrow> bool result"
type_synonym pepvpr = "string \<times> string \<times> string"

definition as_version :: "pepvpr \<Rightarrow> version" where
  "as_version v = (case v of (pe, pv, pr) \<Rightarrow> (EpStr pe, pv, pr))"

section \<open>Priorities\<close>

type_synonym prios = "(int, (int, string list) dict) dict"

definition prio_get :: "prios \<Rightarrow> int \<Rightarrow> (int, string list) dict" where
  "prio_get ps pri = (case map_of ps pri of None \<Rightarrow> [] | Some m \<Rightarrow> m)"

definition add_priority :: "cachedata \<Rightarrow> string \<Rightarrow> prios \<Rightarrow> prios result" where
  "add_priority dc f priorities =
     rbind (dict_lookup (dc_bbfile_priority dc) f) (\<lambda>priority.
     rbind (dict_lookup (dc_pkg_dp dc) f) (\<lambda>preference.
     Inr (dict_set priority (dd_append preference f (prio_get priorities priority)) priorities)))"

definition order_priorities :: "prios \<Rightarrow> string list list" where
  "order_priorities ps =
     fold (\<lambda>pri tmp_pn. concat (map (dd_get (prio_get ps pri)) (sort (dict_keys (prio_get ps pri)))) # tmp_pn)
       (sort (dict_keys ps)) []"

text \<open>\<open>pkg_pn = []\<close> stands for \<^verbatim>\<open>None\<close> and for an empty dictionary: both select the cache's own,
  which is a \<^verbatim>\<open>defaultdict\<close>.\<close>

definition sortPriorities :: "string \<Rightarrow> cachedata \<Rightarrow> (string, string list) dict \<Rightarrow> string list list result" where
  "sortPriorities pn dc pkg_pn =
     rbind (if pkg_pn = [] then Inr (dd_get (dc_pkg_pn dc) pn) else dict_lookup pkg_pn pn) (\<lambda>files.
     rbind (rfold (add_priority dc) files []) (\<lambda>priorities.
     Inr (order_priorities priorities)))"

section \<open>Preferred and latest versions\<close>

definition preferredVersionMatch ::
    "string \<Rightarrow> string \<Rightarrow> string \<Rightarrow> string option \<Rightarrow> string option \<Rightarrow> string option \<Rightarrow> bool" where
  "preferredVersionMatch pe pv pr preferred_e preferred_v preferred_r =
     ((preferred_r = Some pr \<or> preferred_r = None) \<and> (preferred_e = Some pe \<or> preferred_e = None) \<and>
      (preferred_v = Some pv \<or>
       (case preferred_v of None \<Rightarrow> False
        | Some v \<Rightarrow> endswith v ''%'' \<and> startswith pv (butlast v))))"

definition preferred_setting :: "string \<Rightarrow> cfg \<Rightarrow> string option" where
  "preferred_setting pn cfg =
     (let v1 = cfg (''PREFERRED_VERSION_pn-'' @ pn);
          v2 = (if opt_truthy v1 then v1 else cfg (''PREFERRED_VERSION_'' @ pn));
          v3 = (if opt_truthy v2 then v2 else cfg ''PREFERRED_VERSION'')
      in v3)"

text \<open>
  The match of \<^verbatim>\<open>(\d+:)*(.*)(_.*)*\<close>: group 1 is the last of the leading \<^verbatim>\<open>digits:\<close> groups, group 2
  takes the rest of the line, so group 3 is always empty.
\<close>

function strip_epochs :: "string option \<Rightarrow> string \<Rightarrow> string option \<times> string" where
  "strip_epochs e s =
     (let ds = takeWhile is_digit s; rest = dropWhile is_digit s
      in if ds \<noteq> [] \<and> rest \<noteq> [] \<and> hd rest = CHR '':'' then strip_epochs (Some ds) (tl rest)
         else (e, s))"
  by pat_completeness auto
termination
proof (relation "measure (\<lambda>(e, s). length s)")
  fix e :: "string option" and s ds rest :: string
  assume "rest = dropWhile is_digit s" and "ds \<noteq> [] \<and> rest \<noteq> [] \<and> hd rest = CHR '':''"
  then have "rest \<noteq> []" and "length rest \<le> length s"
    using length_dropWhile_le [of is_digit s] by blast+
  then have "length (tl rest) < length s" by (cases rest) simp_all
  then show "((Some ds, tl rest), (e, s)) \<in> measure (\<lambda>(e, s). length s)" by simp
qed simp

declare strip_epochs.simps [simp del]

definition parse_preferred :: "string \<Rightarrow> string option \<times> string option \<times> string option" where
  "parse_preferred v =
     (let (preferred_e, rest) = strip_epochs None v
      in (preferred_e, Some (takeWhile (\<lambda>c. c \<noteq> CHR 0x0A) rest), None))"

text \<open>The two nested search loops; the state is \<open>(preferred_ver, preferred_file)\<close>.\<close>

type_synonym chosen = "pepvpr option \<times> string option"

fun search_set :: "cachedata \<Rightarrow> string option \<times> string option \<times> string option \<Rightarrow> string list \<Rightarrow> chosen \<Rightarrow> chosen result" where
  "search_set dc evr [] st = Inr st"
| "search_set dc evr (f # fs) st =
     rbind (dict_lookup (dc_pkg_pepvpr dc) f) (\<lambda>(pe, pv, pr).
     if preferredVersionMatch pe pv pr (fst evr) (fst (snd evr)) (snd (snd evr))
     then Inr (Some (pe, pv, pr), Some f)
     else search_set dc evr fs st)"

fun search_sets :: "cachedata \<Rightarrow> string option \<times> string option \<times> string option \<Rightarrow> string list list \<Rightarrow> chosen \<Rightarrow> chosen result" where
  "search_sets dc evr [] st = Inr st"
| "search_sets dc evr (file_set # sets) st =
     rbind (search_set dc evr file_set st) (\<lambda>st'.
     if opt_truthy (snd st') then Inr st' else search_sets dc evr sets st')"

definition findPreferredProvider :: "string \<Rightarrow> cfg \<Rightarrow> cachedata \<Rightarrow> string list list \<Rightarrow> chosen result" where
  "findPreferredProvider pn cfg dc pkg_pn =
     (case preferred_setting pn cfg of
        Some v \<Rightarrow> if truthy v then search_sets dc (parse_preferred v) pkg_pn (None, None) else Inr (None, None)
      | None \<Rightarrow> Inr (None, None))"

fun latest_loop :: "cachedata \<Rightarrow> string list \<Rightarrow> pepvpr option \<times> int \<times> string option \<Rightarrow> chosen result" where
  "latest_loop dc [] (latest, latest_p, latest_f) = Inr (latest, latest_f)"
| "latest_loop dc (file_name # fs) (latest, latest_p, latest_f) =
     rbind (dict_lookup (dc_pkg_pepvpr dc) file_name) (\<lambda>v.
     rbind (dict_lookup (dc_pkg_dp dc) file_name) (\<lambda>dp.
     rbind (case latest of
              None \<Rightarrow> Inr True
            | Some l \<Rightarrow>
                rbind (if latest_p = dp then rbind (vercmp (as_version l) (as_version v)) (\<lambda>r. Inr (r < 0))
                       else Inr False) (\<lambda>newer. Inr (newer \<or> dp > latest_p)))
       (\<lambda>replace. if replace then latest_loop dc fs (Some v, dp, Some file_name)
                  else latest_loop dc fs (latest, latest_p, latest_f))))"

definition findLatestProvider :: "cachedata \<Rightarrow> string list \<Rightarrow> chosen result" where
  "findLatestProvider dc file_set = latest_loop dc file_set (None, 0, None)"

definition first_set :: "string list list \<Rightarrow> string list result" where
  "first_set sets = (case sets of [] \<Rightarrow> Inl IndexError | s # _ \<Rightarrow> Inr s)"

definition findBestProvider ::
    "string \<Rightarrow> cfg \<Rightarrow> cachedata \<Rightarrow> (string, string list) dict \<Rightarrow> (chosen \<times> chosen) result" where
  "findBestProvider pn cfg dc pkg_pn =
     rbind (sortPriorities pn dc pkg_pn) (\<lambda>sortpkg_pn.
     rbind (findPreferredProvider pn cfg dc sortpkg_pn) (\<lambda>preferred.
     rbind (first_set sortpkg_pn) (\<lambda>top.
     rbind (findLatestProvider dc top) (\<lambda>latest.
     Inr (latest, if snd preferred = None then latest else preferred)))))"

text \<open>\<^verbatim>\<open>findProviders\<close> on the data store with expanded keys.\<close>

definition findProviders ::
    "cfg \<Rightarrow> cachedata \<Rightarrow> (string, string list) dict \<Rightarrow> ((string, chosen) dict \<times> (string, chosen) dict) result" where
  "findProviders localdata dc pkg_pn0 =
     (let pkg_pn = (if pkg_pn0 = [] then dc_pkg_pn dc else pkg_pn0)
      in rfold (\<lambda>pn (latest_versions, preferred_versions).
           rbind (findBestProvider pn localdata dc pkg_pn) (\<lambda>(latest, preferred).
           Inr (dict_set pn latest latest_versions, dict_set pn preferred preferred_versions)))
         (dict_keys pkg_pn) ([], []))"

definition allProviders :: "cachedata \<Rightarrow> (string, (pepvpr \<times> string) list) dict result" where
  "allProviders dc =
     rfold (\<lambda>(fn, pn) all_providers.
       rbind (dict_lookup (dc_pkg_pepvpr dc) fn) (\<lambda>ver. Inr (dd_append pn (ver, fn) all_providers)))
       (dc_pkg_fn dc) []"

section \<open>Filtering the providers of a target\<close>

definition collate_pn :: "cachedata \<Rightarrow> string list \<Rightarrow> (string, string list) dict result" where
  "collate_pn dc providers =
     rfold (\<lambda>p pkg_pn. rbind (dict_lookup (dc_pkg_fn dc) p) (\<lambda>pn. Inr (dd_append pn p pkg_pn))) providers []"

record fp_state =
  fp_eligible :: "string list"
  fp_preferred_versions :: "(string, chosen) dict"
  fp_sortpkg_pn :: "(string, string list list) dict"

definition add_preferred ::
    "cfg \<Rightarrow> cachedata \<Rightarrow> (string, string list) dict \<Rightarrow> string \<Rightarrow> fp_state \<Rightarrow> fp_state result" where
  "add_preferred cfg dc pkg_pn pn st =
     rbind (sortPriorities pn dc pkg_pn) (\<lambda>sets.
     rbind (findPreferredProvider pn cfg dc sets) (\<lambda>ch.
     Inr \<lparr>fp_eligible = fp_eligible st @ (if opt_truthy (snd ch) then [the (snd ch)] else []),
          fp_preferred_versions = dict_set pn ch (fp_preferred_versions st),
          fp_sortpkg_pn = dict_set pn sets (fp_sortpkg_pn st)\<rparr>))"

text \<open>\<^verbatim>\<open>eligible.append(preferred_versions[pn][1])\<close>: a set of a priority is never empty, so there is a file.\<close>

definition add_latest :: "cachedata \<Rightarrow> string \<Rightarrow> fp_state \<Rightarrow> fp_state result" where
  "add_latest dc pn st =
     (if has_key (fp_preferred_versions st) pn \<and>
         opt_truthy (snd (the (map_of (fp_preferred_versions st) pn))) then Inr st
      else rbind (dict_lookup (fp_sortpkg_pn st) pn) (\<lambda>sets.
           rbind (first_set sets) (\<lambda>top.
           rbind (findLatestProvider dc top) (\<lambda>ch.
           case snd ch of
             None \<Rightarrow> Inl TypeError
           | Some f \<Rightarrow> Inr (st\<lparr>fp_preferred_versions := dict_set pn ch (fp_preferred_versions st),
                               fp_eligible := fp_eligible st @ [f]\<rparr>)))))"

definition prefer_item ::
    "cachedata \<Rightarrow> string \<Rightarrow> (string, chosen) dict \<Rightarrow> string \<Rightarrow> string list \<Rightarrow> string list result" where
  "prefer_item dc item preferred_versions p eligible =
     rbind (dict_lookup (dc_pkg_fn dc) p) (\<lambda>pn.
     if pn \<noteq> item then Inr eligible
     else rbind (dict_lookup preferred_versions pn) (\<lambda>(newvers, fn).
          case fn of
            None \<Rightarrow> Inr eligible
          | Some f \<Rightarrow> if f \<notin> set eligible then Inr eligible
                      else rbind (list_remove f eligible) (\<lambda>rest. Inr (f # rest))))"

text \<open>\<^verbatim>\<open>_filterProviders\<close>. \<open>None\<close> is its result \<^verbatim>\<open>0\<close> for "no eligible providers".\<close>

definition filterProviders_common ::
    "string list \<Rightarrow> string \<Rightarrow> cfg \<Rightarrow> cachedata \<Rightarrow> string list option result" where
  "filterProviders_common providers0 item cfg dc =
     (let providers = sort providers0 in
      rbind (collate_pn dc providers) (\<lambda>pkg_pn.
      rbind (rfold (add_preferred cfg dc pkg_pn) (sort (dict_keys pkg_pn))
               \<lparr>fp_eligible = [], fp_preferred_versions = [], fp_sortpkg_pn = []\<rparr>) (\<lambda>st1.
      rbind (rfold (add_latest dc) (sort (dict_keys (fp_sortpkg_pn st1))) st1) (\<lambda>st2.
      if fp_eligible st2 = [] then Inr None
      else rbind (rfold (prefer_item dc item (fp_preferred_versions st2)) providers (fp_eligible st2))
             (\<lambda>eligible. Inr (Some eligible))))))"

text \<open>
  The search of \<^verbatim>\<open>filterProviders\<close> for the preferred name: the first match moves to the front and ends
  the loop.
\<close>

fun select_pn :: "cachedata \<Rightarrow> string \<Rightarrow> string list \<Rightarrow> string list \<Rightarrow> (string list \<times> bool) result" where
  "select_pn dc pref [] eligible = Inr (eligible, False)"
| "select_pn dc pref (p # ps) eligible =
     rbind (dict_lookup (dc_pkg_fn dc) p) (\<lambda>pn.
     if pref = pn then rbind (list_remove p eligible) (\<lambda>rest. Inr (p # rest, True))
     else select_pn dc pref ps eligible)"

definition pp_var :: "string \<Rightarrow> string" where
  "pp_var item = ''PREFERRED_PROVIDER_'' @ item"

definition rp_var :: "string \<Rightarrow> string" where
  "rp_var item = ''PREFERRED_RPROVIDER_'' @ item"

definition record_preference :: "string \<Rightarrow> cfg \<Rightarrow> cachedata \<Rightarrow> cachedata" where
  "record_preference item cfg dc =
     (let prefervar = cfg (pp_var item)
      in if opt_truthy prefervar then dc\<lparr>dc_preferred := dict_set item (the prefervar) (dc_preferred dc)\<rparr> else dc)"

text \<open>
  \<^verbatim>\<open>filterProviders\<close>: the eligible files and whether the choice is unique. The call sorts the list it
  is given in place and may record a preference in the cache.
\<close>

definition filterProviders ::
    "string list \<Rightarrow> string \<Rightarrow> cfg \<Rightarrow> cachedata \<Rightarrow> (string list option \<times> bool \<times> string list \<times> cachedata) result" where
  "filterProviders providers item cfg dc =
     rbind (filterProviders_common providers item cfg dc) (\<lambda>elig.
     let dc' = record_preference item cfg dc
     in case map_of (dc_preferred dc') item of
          None \<Rightarrow> Inr (elig, False, sort providers, dc')
        | Some pref \<Rightarrow>
            (case elig of
               None \<Rightarrow> Inl TypeError
             | Some eligible \<Rightarrow>
                 rbind (select_pn dc' pref eligible eligible) (\<lambda>(eligible', unique).
                 Inr (Some eligible', unique, sort providers, dc'))))"

text \<open>
  The inference loop of \<^verbatim>\<open>filterProvidersRunTime\<close>. It iterates by position over the list object \<open>l\<close>;
  until the first selection \<^verbatim>\<open>eligible\<close> is that same object (\<open>same\<close>), so the first
  \<^verbatim>\<open>eligible.remove\<close> also shortens the list being iterated. Later selections work on a new list.
\<close>

record rt_state =
  rt_l :: "string list"
  rt_eligible :: "string list"
  rt_same :: bool
  rt_preferred :: "string list"

fun pick_provide :: "cfg \<Rightarrow> (string, string) dict \<Rightarrow> string list \<Rightarrow> string list \<Rightarrow> string option" where
  "pick_provide cfg pns preferred [] = None"
| "pick_provide cfg pns preferred (provide # ps) =
     (case cfg (pp_var provide) of
        None \<Rightarrow> pick_provide cfg pns preferred ps
      | Some v \<Rightarrow> (case map_of pns v of
                     Some pref \<Rightarrow> if pref \<notin> set preferred then Some pref else pick_provide cfg pns preferred ps
                   | None \<Rightarrow> pick_provide cfg pns preferred ps))"

definition rt_select :: "string \<Rightarrow> rt_state \<Rightarrow> rt_state result" where
  "rt_select pref st =
     rbind (list_remove pref (rt_eligible st)) (\<lambda>rest.
     Inr \<lparr>rt_l = (if rt_same st then rest else rt_l st), rt_eligible = pref # rest, rt_same = False,
          rt_preferred = rt_preferred st @ [pref]\<rparr>)"

definition rt_step :: "cfg \<Rightarrow> cachedata \<Rightarrow> (string, string) dict \<Rightarrow> string \<Rightarrow> rt_state \<Rightarrow> rt_state result" where
  "rt_step cfg dc pns p st =
     rbind (dict_lookup (dc_pkg_fn dc) p) (\<lambda>pn.
     case pick_provide cfg pns (rt_preferred st) (dd_get (dc_pn_provides dc) pn) of
       None \<Rightarrow> Inr st
     | Some pref \<Rightarrow> rt_select pref st)"

lemma rt_step_length: "rt_step cfg dc pns p st = Inr st' \<Longrightarrow> rt_same st \<longrightarrow> rt_l st = rt_eligible st \<Longrightarrow>
    length (rt_l st') \<le> length (rt_l st)"
  by (auto simp: rt_step_def rt_select_def length_remove1 split: option.splits)

fun rt_loop :: "nat \<Rightarrow> cfg \<Rightarrow> cachedata \<Rightarrow> (string, string) dict \<Rightarrow> nat \<Rightarrow> rt_state \<Rightarrow> rt_state result" where
  "rt_loop 0 cfg dc pns i st = Inr st"
| "rt_loop (Suc n) cfg dc pns i st =
     (if i < length (rt_l st)
      then rbind (rt_step cfg dc pns (rt_l st ! i) st) (rt_loop n cfg dc pns (Suc i))
      else Inr st)"

definition pns_of :: "cachedata \<Rightarrow> string list \<Rightarrow> (string, string) dict result" where
  "pns_of dc eligible =
     rfold (\<lambda>p pns. rbind (dict_lookup (dc_pkg_fn dc) p) (\<lambda>pn. Inr (dict_set pn p pns))) eligible []"

definition infer_preferred :: "cfg \<Rightarrow> cachedata \<Rightarrow> string list \<Rightarrow> (string list \<times> nat) result" where
  "infer_preferred cfg dc eligible =
     rbind (pns_of dc eligible) (\<lambda>pns.
     rbind (rt_loop (length eligible) cfg dc pns 0
              \<lparr>rt_l = eligible, rt_eligible = eligible, rt_same = True, rt_preferred = []\<rparr>) (\<lambda>st.
     Inr (rt_eligible st, length (rt_preferred st))))"

definition filterProvidersRunTime ::
    "string list \<Rightarrow> string \<Rightarrow> cfg \<Rightarrow> cachedata \<Rightarrow> (string list \<times> nat) result" where
  "filterProvidersRunTime providers item cfg dc =
     rbind (filterProviders_common providers item cfg dc) (\<lambda>elig.
     case elig of
       None \<Rightarrow> Inl TypeError
     | Some eligible \<Rightarrow>
         let prefervar = cfg (rp_var item)
         in rbind (if opt_truthy prefervar then select_pn dc (the prefervar) eligible eligible
                   else Inr (eligible, False)) (\<lambda>(eligible', unique).
            if unique then Inr (eligible', 1) else infer_preferred cfg dc eligible'))"

section \<open>Runtime providers and the world target\<close>

definition escape_plus :: "string \<Rightarrow> string" where
  "escape_plus s = concat (map (\<lambda>c. if c = CHR ''+'' then [CHR 0x5C, CHR ''+''] else [c]) s)"

text \<open>
  The loop over \<^verbatim>\<open>packages_dynamic\<close>. The result is read under the escaped pattern; where that is not a
  key, reading the \<^verbatim>\<open>defaultdict\<close> inserts it, and the iteration over the dictionary raises at its next step.
\<close>

fun dynamic_loop :: "re_matcher \<Rightarrow> cachedata \<Rightarrow> string \<Rightarrow> string list \<Rightarrow> string list \<Rightarrow> string list result" where
  "dynamic_loop re_match dc rdepend [] rproviders = Inr rproviders"
| "dynamic_loop re_match dc rdepend (pat # pats) rproviders =
     (let pattern = escape_plus pat in
      rbind (re_match pattern rdepend) (\<lambda>m.
      if m then (if has_key (dc_packages_dynamic dc) pattern
                 then dynamic_loop re_match dc rdepend pats (rproviders @ dd_get (dc_packages_dynamic dc) pattern)
                 else Inl RuntimeError)
      else dynamic_loop re_match dc rdepend pats rproviders))"

definition getRuntimeProviders :: "re_matcher \<Rightarrow> cachedata \<Rightarrow> string \<Rightarrow> string list result" where
  "getRuntimeProviders re_match dc rdepend =
     (let rproviders = dd_get (dc_rproviders dc) rdepend @ dd_get (dc_packages dc) rdepend
      in if rproviders \<noteq> [] then Inr rproviders
         else dynamic_loop re_match dc rdepend (dict_keys (dc_packages_dynamic dc)) [])"

text \<open>\<^verbatim>\<open>buildWorldTargetList\<close>: the two inner loops decide whether some provide rules the recipe out.\<close>

fun foreign_provider :: "cachedata \<Rightarrow> string \<Rightarrow> string list \<Rightarrow> bool result" where
  "foreign_provider dc pn [] = Inr False"
| "foreign_provider dc pn (pf # pfs) =
     rbind (dict_lookup (dc_pkg_fn dc) pf) (\<lambda>pn'. if pn' \<noteq> pn then Inr True else foreign_provider dc pn pfs)"

fun world_provides :: "cachedata \<Rightarrow> string \<Rightarrow> string list \<Rightarrow> bool \<Rightarrow> bool result" where
  "world_provides dc pn [] terminal = Inr terminal"
| "world_provides dc pn (p # ps) terminal =
     (if startswith p ''virtual/'' then Inr False
      else rbind (foreign_provider dc pn (dd_get (dc_providers dc) p)) (\<lambda>foreign.
           world_provides dc pn ps (terminal \<and> \<not> foreign)))"

definition world_step :: "string option \<Rightarrow> string \<Rightarrow> cachedata \<Rightarrow> cachedata result" where
  "world_step task f dc =
     rbind (dict_lookup (dc_pkg_fn dc) f) (\<lambda>pn.
     rbind (if opt_truthy task
            then rbind (dict_lookup (dc_task_deps dc) f) (\<lambda>td. Inr (the task \<in> set (tk_tasks td)))
            else Inr True) (\<lambda>terminal.
     rbind (world_provides dc pn (dd_get (dc_pn_provides dc) pn) terminal) (\<lambda>terminal'.
     Inr (if terminal' then dc\<lparr>dc_world_target := add_new pn (dc_world_target dc)\<rparr> else dc))))"

definition buildWorldTargetList :: "string option \<Rightarrow> cachedata \<Rightarrow> cachedata result" where
  "buildWorldTargetList task dc =
     (if dc_world_target dc \<noteq> [] then Inr dc else rfold (world_step task) (dc_possible_world dc) dc)"

section \<open>The priority order\<close>

definition prio_of :: "cachedata \<Rightarrow> string \<Rightarrow> int" where
  "prio_of dc f = the (map_of (dc_bbfile_priority dc) f)"

definition pref_of :: "cachedata \<Rightarrow> string \<Rightarrow> int" where
  "pref_of dc f = the (map_of (dc_pkg_dp dc) f)"

definition ver_of :: "cachedata \<Rightarrow> string \<Rightarrow> pepvpr" where
  "ver_of dc f = the (map_of (dc_pkg_pepvpr dc) f)"

text \<open>A file whose priority, preference and version are known and whose version parses.\<close>

definition file_ok :: "cachedata \<Rightarrow> string \<Rightarrow> bool" where
  "file_ok dc f = (f \<noteq> [] \<and> has_key (dc_bbfile_priority dc) f \<and> has_key (dc_pkg_dp dc) f \<and>
     has_key (dc_pkg_pepvpr dc) f \<and> valid_version (as_version (ver_of dc f)))"

lemma file_okD:
  assumes "file_ok dc f"
  shows "f \<noteq> []" "map_of (dc_bbfile_priority dc) f = Some (prio_of dc f)"
    "map_of (dc_pkg_dp dc) f = Some (pref_of dc f)" "map_of (dc_pkg_pepvpr dc) f = Some (ver_of dc f)"
    "valid_version (as_version (ver_of dc f))"
  using assms by (auto simp: file_ok_def has_key_def prio_of_def pref_of_def ver_of_def)

text \<open>What \<^verbatim>\<open>sortPriorities\<close> computes: one set per priority, highest first, each sorted by preference.\<close>

definition priority_sets :: "cachedata \<Rightarrow> string list \<Rightarrow> string list list" where
  "priority_sets dc files =
     map (\<lambda>pri. sort_key (pref_of dc) (filter (\<lambda>f. prio_of dc f = pri) files))
       (rev (sorted_list_of_set (prio_of dc ` set files)))"

definition prios_inv :: "cachedata \<Rightarrow> string list \<Rightarrow> prios \<Rightarrow> bool" where
  "prios_inv dc files ps \<longleftrightarrow> dict_wf ps \<and> set (dict_keys ps) = prio_of dc ` set files \<and>
     (\<forall>pri. dict_wf (prio_get ps pri) \<and>
        set (dict_keys (prio_get ps pri)) = pref_of dc ` {f \<in> set files. prio_of dc f = pri} \<and>
        (\<forall>pref. dd_get (prio_get ps pri) pref = filter (\<lambda>f. prio_of dc f = pri \<and> pref_of dc f = pref) files))"

lemma prio_get_set [simp]: "prio_get (dict_set k v ps) pri = (if pri = k then v else prio_get ps pri)"
  by (simp add: prio_get_def)

lemma dd_append_keys [simp]: "fst ` set (dd_append k v d) = insert k (fst ` set d)"
  by (simp add: dd_append_def)

lemma add_priority_inv:
  assumes "prios_inv dc fs ps" and "file_ok dc f"
  shows "\<exists>ps'. add_priority dc f ps = Inr ps' \<and> prios_inv dc (fs @ [f]) ps'"
proof -
  let ?p = "prio_of dc f" and ?ps' = "dict_set (prio_of dc f) (dd_append (pref_of dc f) f (prio_get ps (prio_of dc f))) ps"
  have "add_priority dc f ps = Inr ?ps'"
    using file_okD [OF assms(2)] by (simp add: add_priority_def dict_lookup_Some)
  moreover have "prios_inv dc (fs @ [f]) ?ps'"
    using assms(1) unfolding prios_inv_def by auto
  ultimately show ?thesis by blast
qed

lemma rfold_add_priority:
  assumes "\<forall>f \<in> set fs. file_ok dc f"
  shows "\<exists>ps. rfold (add_priority dc) fs [] = Inr ps \<and> prios_inv dc fs ps"
  using assms
proof (induction fs rule: rev_induct)
  case Nil
  then show ?case by (simp add: prios_inv_def prio_get_def)
next
  case (snoc f fs)
  then obtain ps where "rfold (add_priority dc) fs [] = Inr ps" "prios_inv dc fs ps" by auto
  with add_priority_inv [of dc fs ps f] snoc.prems show ?case by (auto simp: rfold_append)
qed

lemma order_priorities_sets:
  assumes "prios_inv dc files ps"
  shows "order_priorities ps = priority_sets dc files"
proof -
  have set1: "concat (map (dd_get (prio_get ps pri)) (sort (dict_keys (prio_get ps pri)))) =
      sort_key (pref_of dc) (filter (\<lambda>f. prio_of dc f = pri) files)" for pri
  proof -
    have k: "sort (dict_keys (prio_get ps pri)) =
        sorted_list_of_set (pref_of dc ` set (filter (\<lambda>f. prio_of dc f = pri) files))"
      using assms sort_distinct_set [of "dict_keys (prio_get ps pri)"] unfolding prios_inv_def by simp
    have g: "dd_get (prio_get ps pri) = (\<lambda>pref. filter (\<lambda>f. pref_of dc f = pref) (filter (\<lambda>f. prio_of dc f = pri) files))"
      using assms unfolding prios_inv_def by (auto simp: conj_commute)
    show ?thesis by (simp only: k g sort_key_buckets [of "pref_of dc"] buckets_def)
  qed
  have "sort (dict_keys ps) = sorted_list_of_set (prio_of dc ` set files)"
    using assms sort_distinct_set [of "dict_keys ps"] unfolding prios_inv_def by simp
  then show ?thesis
    by (simp add: order_priorities_def set1 fold_Cons_map priority_sets_def rev_map)
qed

definition pn_files :: "cachedata \<Rightarrow> (string, string list) dict \<Rightarrow> string \<Rightarrow> string list option" where
  "pn_files dc pkg_pn pn = (if pkg_pn = [] then Some (dd_get (dc_pkg_pn dc) pn) else map_of pkg_pn pn)"

lemma sortPriorities_sets:
  assumes "pn_files dc pkg_pn pn = Some files" and "\<forall>f \<in> set files. file_ok dc f"
  shows "sortPriorities pn dc pkg_pn = Inr (priority_sets dc files)"
proof -
  obtain ps where "rfold (add_priority dc) files [] = Inr ps" "prios_inv dc files ps"
    using rfold_add_priority [OF assms(2)] by blast
  then show ?thesis
    using assms(1) order_priorities_sets
    by (auto simp: sortPriorities_def pn_files_def dict_lookup_Some split: if_splits)
qed

lemma set_priority_sets: "set (concat (priority_sets dc files)) = set files"
  by (auto simp: priority_sets_def)

lemma mset_priority_sets: "mset (concat (priority_sets dc files)) = mset files"
proof -
  let ?bs = "rev (sorted_list_of_set (prio_of dc ` set files))"
  have "mset (concat (map (\<lambda>pri. sort_key (pref_of dc) (filter (\<lambda>f. prio_of dc f = pri) files)) bs)) =
      mset (buckets (prio_of dc) bs files)" for bs
    by (induction bs) (simp_all add: buckets_def)
  then have "mset (concat (priority_sets dc files)) = mset (buckets (prio_of dc) ?bs files)"
    by (simp add: priority_sets_def)
  also have "\<dots> = mset (filter (\<lambda>x. prio_of dc x \<in> set ?bs) files)" by (rule mset_buckets) simp
  finally show ?thesis by (simp add: filter_id_conv)
qed

lemma priority_sets_descending:
  "sorted_wrt (\<lambda>f g. prio_of dc g \<le> prio_of dc f) (concat (priority_sets dc files))"
proof -
  have "sorted_wrt (\<lambda>f g. prio_of dc g \<le> prio_of dc f)
      (concat (map (\<lambda>pri. sort_key (pref_of dc) (filter (\<lambda>f. prio_of dc f = pri) files)) bs))"
    if "sorted_wrt (>) bs" for bs
    using that
  proof (induction bs)
    case (Cons b bs)
    have "sorted_wrt (\<lambda>f g. prio_of dc g \<le> prio_of dc f) xs" if "\<forall>x \<in> set xs. prio_of dc x = b" for xs
      using that by (induction xs) auto
    then have "sorted_wrt (\<lambda>f g. prio_of dc g \<le> prio_of dc f)
        (sort_key (pref_of dc) (filter (\<lambda>f. prio_of dc f = b) files))" by simp
    with Cons show ?case by (auto simp: sorted_wrt_append less_imp_le)
  qed simp
  moreover have "sorted_wrt (>) (rev (sorted_list_of_set (prio_of dc ` set files)))"
    by (simp add: sorted_wrt_rev)
  ultimately show ?thesis by (simp add: priority_sets_def)
qed

lemma priority_sets_top:
  assumes "files \<noteq> []"
  shows "\<exists>top rest. priority_sets dc files = top # rest \<and> top \<noteq> [] \<and>
    set top = {f \<in> set files. \<forall>g \<in> set files. prio_of dc g \<le> prio_of dc f}"
proof -
  let ?P = "prio_of dc ` set files"
  have fin: "finite ?P" "?P \<noteq> {}" using assms by auto
  then obtain bs where bs: "rev (sorted_list_of_set ?P) = Max ?P # bs"
    using rev_sorted_list_Max by blast
  let ?top = "sort_key (pref_of dc) (filter (\<lambda>f. prio_of dc f = Max ?P) files)"
  have "set ?top = {f \<in> set files. \<forall>g \<in> set files. prio_of dc g \<le> prio_of dc f}"
    using fin by (auto intro: Max_eqI [symmetric])
  moreover have "set ?top \<noteq> {}" using Max_in [OF fin] by auto
  then have "?top \<noteq> []" by (metis list.set(1))
  ultimately show ?thesis using bs by (simp add: priority_sets_def)
qed

section \<open>The latest version\<close>

text \<open>Scanning for the best element by a number first and a comparison second, first one wins.\<close>

fun scan_best :: "('k \<Rightarrow> 'k \<Rightarrow> int) \<Rightarrow> ('f \<Rightarrow> int) \<Rightarrow> ('f \<Rightarrow> 'k) \<Rightarrow> 'f \<Rightarrow> 'f list \<Rightarrow> 'f" where
  "scan_best cmp n k b [] = b"
| "scan_best cmp n k b (f # fs) =
     (if (n b = n f \<and> cmp (k b) (k f) < 0) \<or> n f > n b then scan_best cmp n k f fs else scan_best cmp n k b fs)"

context comparison
begin

lemma scan_best_in: "scan_best cmp n k b fs \<in> insert b (set fs)"
  by (induction fs arbitrary: b) auto

lemma scan_best_max:
  assumes "g \<in> insert b (set fs)"
  shows "n g < n (scan_best cmp n k b fs) \<or>
    (n g = n (scan_best cmp n k b fs) \<and> cmp (k g) (k (scan_best cmp n k b fs)) \<le> 0)"
  using assms
proof (induction fs arbitrary: b g)
  case Nil
  then show ?case by (simp add: cmp_refl)
next
  case (Cons f fs)
  let ?c = "(n b = n f \<and> cmp (k b) (k f) < 0) \<or> n f > n b"
  let ?b = "if ?c then f else b" and ?o = "if ?c then b else f"
  let ?r = "scan_best cmp n k ?b fs"
  have r: "scan_best cmp n k b (f # fs) = ?r" by simp
  have b: "n ?b < n ?r \<or> (n ?b = n ?r \<and> cmp (k ?b) (k ?r) \<le> 0)" by (rule Cons.IH) simp
  have o: "n ?o < n ?b \<or> (n ?o = n ?b \<and> cmp (k ?o) (k ?b) \<le> 0)"
    using cmp_le_iff [of "k f" "k b"] by auto
  have "n ?o < n ?r \<or> (n ?o = n ?r \<and> cmp (k ?o) (k ?r) \<le> 0)"
    using b o cmp_trans [of "k ?o" "k ?b" "k ?r"] by linarith
  moreover have "n h < n ?r \<or> (n h = n ?r \<and> cmp (k h) (k ?r) \<le> 0)" if "h \<in> set fs" for h
    by (rule Cons.IH) (use that in simp)
  moreover have "g = ?o \<or> g = ?b \<or> g \<in> set fs" using Cons.prems by (auto split: if_splits)
  ultimately show ?case unfolding r using b by blast
qed

end

definition vkey_of :: "cachedata \<Rightarrow> string \<Rightarrow> vkey" where
  "vkey_of dc f = projr (version_key (as_version (ver_of dc f)))"

lemma vkey_of_eq: "file_ok dc f \<Longrightarrow> version_key (as_version (ver_of dc f)) = Inr (vkey_of dc f)"
  using file_okD(5) [of dc f] by (auto simp: valid_version_iff vkey_of_def)

lemma vercmp_files:
  "file_ok dc f \<Longrightarrow> file_ok dc g \<Longrightarrow>
   vercmp (as_version (ver_of dc f)) (as_version (ver_of dc g)) = Inr (key_cmp (vkey_of dc f) (vkey_of dc g))"
  by (intro vercmp_key vkey_of_eq)

lemma latest_loop_scan:
  assumes "file_ok dc b" and "\<forall>f \<in> set fs. file_ok dc f"
  shows "latest_loop dc fs (Some (ver_of dc b), pref_of dc b, Some b) =
    (let r = scan_best key_cmp (pref_of dc) (vkey_of dc) b fs in Inr (Some (ver_of dc r), Some r))"
  using assms
proof (induction fs arbitrary: b)
  case Nil
  then show ?case by simp
next
  case (Cons f fs)
  have "file_ok dc f" using Cons.prems by simp
  note f = dict_lookup_Some [OF file_okD(3) [OF this]] dict_lookup_Some [OF file_okD(4) [OF this]]
    and c = vercmp_files [OF Cons.prems(1) this]
  show ?case
  proof (cases "(pref_of dc b = pref_of dc f \<and> key_cmp (vkey_of dc b) (vkey_of dc f) < 0) \<or> pref_of dc f > pref_of dc b")
    case True
    then show ?thesis using Cons.IH [of f] Cons.prems by (auto simp: f c)
  next
    case False
    then show ?thesis using Cons.IH [of b] Cons.prems by (auto simp: f c)
  qed
qed

definition latest_of :: "cachedata \<Rightarrow> string list \<Rightarrow> string" where
  "latest_of dc fs = scan_best key_cmp (pref_of dc) (vkey_of dc) (hd fs) (tl fs)"

lemma findLatestProvider_scan:
  assumes "fs \<noteq> []" and "\<forall>f \<in> set fs. file_ok dc f"
  shows "findLatestProvider dc fs = Inr (Some (ver_of dc (latest_of dc fs)), Some (latest_of dc fs))"
proof -
  obtain f fs' where fs: "fs = f # fs'" using assms(1) by (cases fs) auto
  then show ?thesis
    using assms(2) latest_loop_scan [of dc f fs'] file_okD [of dc f]
    by (simp add: findLatestProvider_def latest_of_def Let_def dict_lookup_Some)
qed

lemma latest_of_in: "fs \<noteq> [] \<Longrightarrow> latest_of dc fs \<in> set fs"
  using vkeys.scan_best_in [of "pref_of dc" "vkey_of dc" "hd fs" "tl fs"]
  by (cases fs) (auto simp: latest_of_def)

text \<open>\<open>g\<close> is not better than \<open>f\<close>: a lower preference, or the same one and a version that is not newer.\<close>

definition not_better :: "cachedata \<Rightarrow> string \<Rightarrow> string \<Rightarrow> bool" where
  "not_better dc g f \<longleftrightarrow> pref_of dc g < pref_of dc f \<or>
     (pref_of dc g = pref_of dc f \<and>
      (\<exists>c \<le> 0. vercmp (as_version (ver_of dc g)) (as_version (ver_of dc f)) = Inr c))"

lemma latest_of_max:
  assumes "\<forall>f \<in> set fs. file_ok dc f" and "g \<in> set fs"
  shows "not_better dc g (latest_of dc fs)"
proof -
  have "fs \<noteq> []" using assms(2) by auto
  then have ok: "file_ok dc g" "file_ok dc (latest_of dc fs)" using assms latest_of_in by blast+
  have "g \<in> insert (hd fs) (set (tl fs))" using assms(2) by (cases fs) auto
  then show ?thesis
    using vkeys.scan_best_max [of g "hd fs" "tl fs" "pref_of dc" "vkey_of dc"] vercmp_files [OF ok]
    by (auto simp: not_better_def latest_of_def)
qed

section \<open>The preferred version\<close>

definition matches :: "cachedata \<Rightarrow> string option \<times> string option \<times> string option \<Rightarrow> string \<Rightarrow> bool" where
  "matches dc evr f = (case ver_of dc f of (pe, pv, pr) \<Rightarrow>
     preferredVersionMatch pe pv pr (fst evr) (fst (snd evr)) (snd (snd evr)))"

definition chosen_by :: "cachedata \<Rightarrow> string option \<Rightarrow> chosen" where
  "chosen_by dc x = (case x of None \<Rightarrow> (None, None) | Some f \<Rightarrow> (Some (ver_of dc f), Some f))"

lemma search_set_find:
  assumes "\<forall>f \<in> set fs. file_ok dc f"
  shows "search_set dc evr fs (None, None) = Inr (chosen_by dc (find (matches dc evr) fs))"
  using assms
proof (induction fs)
  case Nil
  then show ?case by (simp add: chosen_by_def)
next
  case (Cons f fs)
  obtain pe pv pr where v: "ver_of dc f = (pe, pv, pr)" by (cases "ver_of dc f")
  have "file_ok dc f" using Cons.prems by simp
  with file_okD(4) [OF this] Cons v show ?case
    by (auto simp: dict_lookup_Some matches_def chosen_by_def)
qed

lemma find_append: "find P (xs @ ys) = (case find P xs of None \<Rightarrow> find P ys | Some x \<Rightarrow> Some x)"
  by (induction xs) auto

lemma search_sets_find:
  assumes "\<forall>f \<in> set (concat sets). file_ok dc f"
  shows "search_sets dc evr sets (None, None) = Inr (chosen_by dc (find (matches dc evr) (concat sets)))"
  using assms
proof (induction sets)
  case Nil
  then show ?case by (simp add: chosen_by_def)
next
  case (Cons s sets)
  have s: "search_set dc evr s (None, None) = Inr (chosen_by dc (find (matches dc evr) s))"
    by (rule search_set_find) (use Cons.prems in simp)
  show ?case
  proof (cases "find (matches dc evr) s")
    case None
    with s Cons show ?thesis by (simp add: find_append chosen_by_def)
  next
    case (Some f)
    then have "f \<in> set s" by (auto simp: find_Some_iff)
    then have "file_ok dc f" using Cons.prems by simp
    then have "f \<noteq> []" by (rule file_okD)
    with s Some show ?thesis by (simp add: find_append chosen_by_def)
  qed
qed

definition preferred_pick :: "string \<Rightarrow> cfg \<Rightarrow> cachedata \<Rightarrow> string list \<Rightarrow> string option" where
  "preferred_pick pn cfg dc files =
     (case preferred_setting pn cfg of
        None \<Rightarrow> None
      | Some v \<Rightarrow> if v = [] then None
                  else find (matches dc (parse_preferred v)) (concat (priority_sets dc files)))"

lemma findPreferredProvider_pick:
  assumes "\<forall>f \<in> set files. file_ok dc f"
  shows "findPreferredProvider pn cfg dc (priority_sets dc files) = Inr (chosen_by dc (preferred_pick pn cfg dc files))"
proof -
  have "\<forall>f \<in> set (concat (priority_sets dc files)). file_ok dc f"
    using assms set_priority_sets by metis
  then have "search_sets dc evr (priority_sets dc files) (None, None) =
      Inr (chosen_by dc (find (matches dc evr) (concat (priority_sets dc files))))" for evr
    by (rule search_sets_find)
  then show ?thesis
    by (cases "preferred_setting pn cfg")
      (simp_all add: findPreferredProvider_def preferred_pick_def chosen_by_def)
qed

lemma preferred_pick_in: "preferred_pick pn cfg dc files = Some f \<Longrightarrow> f \<in> set files"
proof -
  assume "preferred_pick pn cfg dc files = Some f"
  then obtain v where "find (matches dc (parse_preferred v)) (concat (priority_sets dc files)) = Some f"
    by (auto simp: preferred_pick_def split: option.splits if_splits)
  then have "f \<in> set (concat (priority_sets dc files))" by (auto simp: find_Some_iff simp del: set_concat)
  then show ?thesis using set_priority_sets by metis
qed

lemma preferred_pick_highest:
  assumes "preferred_setting pn cfg = Some v" "v \<noteq> []"
  shows "preferred_pick pn cfg dc files = None \<longleftrightarrow> (\<forall>f \<in> set files. \<not> matches dc (parse_preferred v) f)"
    and "preferred_pick pn cfg dc files = Some f \<Longrightarrow> matches dc (parse_preferred v) f \<and>
      (\<forall>g \<in> set files. matches dc (parse_preferred v) g \<longrightarrow> prio_of dc g \<le> prio_of dc f)"
proof -
  let ?fs = "concat (priority_sets dc files)"
  show "preferred_pick pn cfg dc files = None \<longleftrightarrow> (\<forall>f \<in> set files. \<not> matches dc (parse_preferred v) f)"
    using assms set_priority_sets [of dc files] by (auto simp: preferred_pick_def find_None_iff)
  assume "preferred_pick pn cfg dc files = Some f"
  then have "find (matches dc (parse_preferred v)) ?fs = Some f" using assms by (simp add: preferred_pick_def)
  then obtain i where i: "i < length ?fs" "f = ?fs ! i" "matches dc (parse_preferred v) f"
    "\<forall>j < i. \<not> matches dc (parse_preferred v) (?fs ! j)" by (auto simp: find_Some_iff)
  have "prio_of dc g \<le> prio_of dc f" if g: "g \<in> set files" "matches dc (parse_preferred v) g" for g
  proof -
    obtain j where j: "j < length ?fs" "g = ?fs ! j" using g(1) set_priority_sets [of dc files] by (metis in_set_conv_nth)
    then have "i \<le> j" using i(4) g(2) by (metis not_le)
    show ?thesis
    proof (cases "i = j")
      case False
      then show ?thesis using \<open>i \<le> j\<close> i j sorted_wrt_nth_less [OF priority_sets_descending, of i j dc files] by simp
    qed (use i j in simp)
  qed
  with i(3) show "matches dc (parse_preferred v) f \<and>
      (\<forall>g \<in> set files. matches dc (parse_preferred v) g \<longrightarrow> prio_of dc g \<le> prio_of dc f)" by blast
qed

section \<open>Eligible providers of a target\<close>

text \<open>The file \<^verbatim>\<open>_filterProviders\<close> picks for one recipe name among its files.\<close>

definition best_file :: "cfg \<Rightarrow> cachedata \<Rightarrow> string \<Rightarrow> string list \<Rightarrow> string" where
  "best_file cfg dc pn files =
     (case preferred_pick pn cfg dc files of
        Some f \<Rightarrow> f
      | None \<Rightarrow> latest_of dc (hd (priority_sets dc files)))"

lemma top_set:
  assumes "files \<noteq> []"
  shows "first_set (priority_sets dc files) = Inr (hd (priority_sets dc files))"
    and "hd (priority_sets dc files) \<noteq> []"
    and "set (hd (priority_sets dc files)) = {f \<in> set files. \<forall>g \<in> set files. prio_of dc g \<le> prio_of dc f}"
  using priority_sets_top [OF assms, of dc] by (auto simp: first_set_def)

lemma best_file_in: "files \<noteq> [] \<Longrightarrow> best_file cfg dc pn files \<in> set files"
  using preferred_pick_in [of pn cfg dc files] latest_of_in [OF top_set(2), of files dc dc] top_set(3) [of files dc]
  by (auto simp: best_file_def split: option.splits)

text \<open>Files of the given names, every one known and with a version that parses.\<close>

definition providers_ok :: "cachedata \<Rightarrow> string list \<Rightarrow> bool" where
  "providers_ok dc providers = (\<forall>p \<in> set providers. has_key (dc_pkg_fn dc) p \<and> file_ok dc p)"

definition pn_of :: "cachedata \<Rightarrow> string \<Rightarrow> string" where
  "pn_of dc p = the (map_of (dc_pkg_fn dc) p)"

lemma providers_okD:
  assumes "providers_ok dc providers" and "p \<in> set providers"
  shows "map_of (dc_pkg_fn dc) p = Some (pn_of dc p)" and "file_ok dc p"
  using assms by (auto simp: providers_ok_def has_key_def pn_of_def)

definition pn_group :: "cachedata \<Rightarrow> string list \<Rightarrow> string \<Rightarrow> string list" where
  "pn_group dc providers pn = filter (\<lambda>p. pn_of dc p = pn) providers"

lemma collate_pn_groups:
  assumes "providers_ok dc providers"
  shows "\<exists>pkg_pn. collate_pn dc providers = Inr pkg_pn \<and> dict_wf pkg_pn \<and>
    set (dict_keys pkg_pn) = pn_of dc ` set providers \<and> (\<forall>pn. dd_get pkg_pn pn = pn_group dc providers pn)"
  using assms
proof (induction providers rule: rev_induct)
  case Nil
  then show ?case by (simp add: collate_pn_def pn_group_def)
next
  case (snoc p ps)
  then have "providers_ok dc ps" and p: "map_of (dc_pkg_fn dc) p = Some (pn_of dc p)"
    by (auto simp: providers_ok_def has_key_def pn_of_def)
  with snoc.IH obtain m where m: "collate_pn dc ps = Inr m" "dict_wf m"
    "set (dict_keys m) = pn_of dc ` set ps" "\<forall>pn. dd_get m pn = pn_group dc ps pn" by blast
  have "collate_pn dc (ps @ [p]) = Inr (dd_append (pn_of dc p) p m)"
    using m(1) p unfolding collate_pn_def by (simp add: rfold_append dict_lookup_Some)
  moreover have "set (dict_keys (dd_append (pn_of dc p) p m)) = pn_of dc ` set (ps @ [p])"
    using m(3) by simp
  ultimately show ?case using m(2,4) by (simp add: pn_group_def)
qed

lemma collate_pn_lookup:
  assumes "set (dict_keys m) = pn_of dc ` set providers" "\<forall>pn. dd_get m pn = pn_group dc providers pn"
    and "pn \<in> pn_of dc ` set providers"
  shows "pn_files dc m pn = Some (pn_group dc providers pn)" and "pn_group dc providers pn \<noteq> []"
proof -
  have k: "has_key m pn" using assms(1,3) by (simp add: has_key_iff)
  then have "m \<noteq> []" by auto
  with k assms(2) [rule_format, of pn] show "pn_files dc m pn = Some (pn_group dc providers pn)"
    by (auto simp: pn_files_def has_key_def dd_get_def)
  show "pn_group dc providers pn \<noteq> []" using assms(3) by (auto simp: pn_group_def filter_empty_conv)
qed

text \<open>The first loop adds the preferred files, the second the latest ones of the remaining names.\<close>

definition has_pref :: "cfg \<Rightarrow> cachedata \<Rightarrow> string list \<Rightarrow> string \<Rightarrow> bool" where
  "has_pref cfg dc providers pn = (preferred_pick pn cfg dc (pn_group dc providers pn) \<noteq> None)"

lemma preferred_pick_truthy:
  assumes "providers_ok dc providers"
  shows "opt_truthy (snd (chosen_by dc (preferred_pick pn cfg dc (pn_group dc providers pn)))) \<longleftrightarrow>
    has_pref cfg dc providers pn"
proof (cases "preferred_pick pn cfg dc (pn_group dc providers pn)")
  case (Some f)
  then have "f \<in> set providers" using preferred_pick_in [OF Some] by (simp add: pn_group_def)
  then have "f \<noteq> []" using providers_okD(2) [OF assms] file_okD(1) by blast
  with Some show ?thesis by (simp add: has_pref_def chosen_by_def)
qed (simp add: has_pref_def chosen_by_def)

lemma add_preferred_step:
  assumes ok: "providers_ok dc providers" and m: "set (dict_keys m) = pn_of dc ` set providers"
    "\<forall>pn. dd_get m pn = pn_group dc providers pn" and pn: "pn \<in> pn_of dc ` set providers"
  shows "add_preferred cfg dc m pn st =
    Inr \<lparr>fp_eligible = fp_eligible st @ (if has_pref cfg dc providers pn
           then [best_file cfg dc pn (pn_group dc providers pn)] else []),
         fp_preferred_versions = dict_set pn (chosen_by dc (preferred_pick pn cfg dc (pn_group dc providers pn))) (fp_preferred_versions st),
         fp_sortpkg_pn = dict_set pn (priority_sets dc (pn_group dc providers pn)) (fp_sortpkg_pn st)\<rparr>"
proof -
  let ?g = "pn_group dc providers pn"
  have okg: "\<forall>f \<in> set ?g. file_ok dc f" using ok by (simp add: pn_group_def providers_ok_def)
  note s = sortPriorities_sets [OF collate_pn_lookup(1) [OF m pn] okg]
    and p = findPreferredProvider_pick [OF okg, of pn cfg]
  have "the (snd (chosen_by dc (preferred_pick pn cfg dc ?g))) = best_file cfg dc pn ?g" if "has_pref cfg dc providers pn"
    using that by (auto simp: has_pref_def best_file_def chosen_by_def)
  then show ?thesis
    by (simp add: add_preferred_def s p preferred_pick_truthy [OF ok])
qed

text \<open>What the two loops leave behind after the names \<open>pns\<close>.\<close>

definition fp_inv1 :: "cfg \<Rightarrow> cachedata \<Rightarrow> string list \<Rightarrow> string list \<Rightarrow> fp_state \<Rightarrow> bool" where
  "fp_inv1 cfg dc providers pns st \<longleftrightarrow>
     fp_eligible st = map (\<lambda>pn. best_file cfg dc pn (pn_group dc providers pn)) (filter (has_pref cfg dc providers) pns) \<and>
     dict_wf (fp_sortpkg_pn st) \<and> set (dict_keys (fp_sortpkg_pn st)) = set pns \<and>
     (\<forall>pn \<in> set pns. map_of (fp_preferred_versions st) pn =
        Some (chosen_by dc (preferred_pick pn cfg dc (pn_group dc providers pn))) \<and>
        map_of (fp_sortpkg_pn st) pn = Some (priority_sets dc (pn_group dc providers pn)))"

lemma add_preferred_loop:
  assumes ok: "providers_ok dc providers" and m: "set (dict_keys m) = pn_of dc ` set providers"
    "\<forall>pn. dd_get m pn = pn_group dc providers pn" and "set pns \<subseteq> pn_of dc ` set providers"
  shows "\<exists>st. rfold (add_preferred cfg dc m) pns \<lparr>fp_eligible = [], fp_preferred_versions = [], fp_sortpkg_pn = []\<rparr> = Inr st \<and>
    fp_inv1 cfg dc providers pns st"
  using assms(4)
proof (induction pns rule: rev_induct)
  case Nil
  then show ?case by (simp add: fp_inv1_def)
next
  case (snoc pn pns)
  then obtain st where st: "rfold (add_preferred cfg dc m) pns
      \<lparr>fp_eligible = [], fp_preferred_versions = [], fp_sortpkg_pn = []\<rparr> = Inr st"
    and inv: "fp_inv1 cfg dc providers pns st" by auto
  have pn: "pn \<in> pn_of dc ` set providers" using snoc.prems by simp
  show ?case using st inv unfolding fp_inv1_def
    by (simp add: rfold_append add_preferred_step [OF ok m pn])
qed

definition fp_inv2 :: "cfg \<Rightarrow> cachedata \<Rightarrow> string list \<Rightarrow> string list \<Rightarrow> fp_state \<Rightarrow> fp_state \<Rightarrow> bool" where
  "fp_inv2 cfg dc providers pns st1 st \<longleftrightarrow>
     fp_eligible st = fp_eligible st1 @
       map (\<lambda>pn. best_file cfg dc pn (pn_group dc providers pn)) (filter (\<lambda>pn. \<not> has_pref cfg dc providers pn) pns) \<and>
     fp_sortpkg_pn st = fp_sortpkg_pn st1 \<and>
     (\<forall>pn. map_of (fp_preferred_versions st) pn =
        (if pn \<in> set pns then Some (chosen_by dc (Some (best_file cfg dc pn (pn_group dc providers pn))))
         else map_of (fp_preferred_versions st1) pn))"

lemma add_latest_step:
  assumes ok: "providers_ok dc providers" and pn: "pn \<in> pn_of dc ` set providers"
    and v: "map_of (fp_preferred_versions st) pn = Some (chosen_by dc (preferred_pick pn cfg dc (pn_group dc providers pn)))"
    and s: "map_of (fp_sortpkg_pn st) pn = Some (priority_sets dc (pn_group dc providers pn))"
  shows "add_latest dc pn st = Inr (if has_pref cfg dc providers pn then st
    else st\<lparr>fp_preferred_versions := dict_set pn (chosen_by dc (Some (best_file cfg dc pn (pn_group dc providers pn)))) (fp_preferred_versions st),
            fp_eligible := fp_eligible st @ [best_file cfg dc pn (pn_group dc providers pn)]\<rparr>)"
proof (cases "has_pref cfg dc providers pn")
  case True
  then show ?thesis using v preferred_pick_truthy [OF ok] by (simp add: add_latest_def has_key_def)
next
  case False
  let ?g = "pn_group dc providers pn"
  have ne: "?g \<noteq> []" using pn by (auto simp: pn_group_def filter_empty_conv)
  have "\<forall>f \<in> set (hd (priority_sets dc ?g)). file_ok dc f"
    using top_set(3) [OF ne] ok by (simp add: pn_group_def providers_ok_def)
  then have "findLatestProvider dc (hd (priority_sets dc ?g)) =
      Inr (chosen_by dc (Some (best_file cfg dc pn ?g)))"
    using findLatestProvider_scan [OF top_set(2) [OF ne], of dc dc] False
    by (simp add: best_file_def has_pref_def chosen_by_def)
  then show ?thesis
    using False v preferred_pick_truthy [OF ok] top_set(1) [OF ne]
    by (simp add: add_latest_def has_key_def dict_lookup_Some [OF s] chosen_by_def)
qed

lemma add_latest_loop:
  assumes ok: "providers_ok dc providers" and inv1: "fp_inv1 cfg dc providers all st1"
    and "set pns \<subseteq> set all" "set all \<subseteq> pn_of dc ` set providers" "distinct pns"
  shows "\<exists>st. rfold (add_latest dc) pns st1 = Inr st \<and> fp_inv2 cfg dc providers pns st1 st"
  using assms(3,5)
proof (induction pns rule: rev_induct)
  case Nil
  then show ?case by (simp add: fp_inv2_def)
next
  case (snoc pn pns)
  then obtain st where st: "rfold (add_latest dc) pns st1 = Inr st"
    and inv: "fp_inv2 cfg dc providers pns st1 st" by auto
  have pn: "pn \<in> pn_of dc ` set providers" "pn \<in> set all" "pn \<notin> set pns" using snoc.prems assms(4) by auto
  have v: "map_of (fp_preferred_versions st) pn = Some (chosen_by dc (preferred_pick pn cfg dc (pn_group dc providers pn)))"
    using inv inv1 pn by (simp add: fp_inv2_def fp_inv1_def)
  have s: "map_of (fp_sortpkg_pn st) pn = Some (priority_sets dc (pn_group dc providers pn))"
    using inv inv1 pn by (simp add: fp_inv2_def fp_inv1_def)
  have b: "has_pref cfg dc providers pn \<Longrightarrow> preferred_pick pn cfg dc (pn_group dc providers pn) =
      Some (best_file cfg dc pn (pn_group dc providers pn))"
    by (auto simp: has_pref_def best_file_def)
  show ?case
  proof (cases "has_pref cfg dc providers pn")
    case True
    then show ?thesis using st inv v b
      by (simp add: rfold_append add_latest_step [OF ok pn(1) v s] fp_inv2_def)
  next
    case False
    then show ?thesis using st inv
      by (simp add: rfold_append add_latest_step [OF ok pn(1) v s] fp_inv2_def)
  qed
qed

text \<open>Moving a chosen file to the front keeps the files.\<close>

lemma mset_move_front: "f \<in> set xs \<Longrightarrow> mset (f # remove1 f xs) = mset xs"
  by simp

lemma prefer_item_mset: "prefer_item dc item pv p el = Inr el' \<Longrightarrow> mset el' = mset el"
  by (auto simp: prefer_item_def split: if_splits option.splits)

lemma prefer_item_loop:
  assumes "providers_ok dc providers" and "\<forall>pn \<in> pn_of dc ` set providers. \<exists>ch. map_of pv pn = Some ch"
    and "set ps \<subseteq> set providers"
  shows "\<exists>el'. rfold (prefer_item dc item pv) ps el = Inr el' \<and> mset el' = mset el"
  using assms(3)
proof (induction ps arbitrary: el)
  case Nil
  then show ?case by simp
next
  case (Cons p ps)
  have p: "map_of (dc_pkg_fn dc) p = Some (pn_of dc p)" using providers_okD(1) [OF assms(1)] Cons.prems by simp
  obtain ch where ch: "map_of pv (pn_of dc p) = Some ch" using assms(2) Cons.prems by auto
  have "\<exists>el1. prefer_item dc item pv p el = Inr el1"
  proof (cases "item = pn_of dc p")
    case True
    show ?thesis unfolding True
      by (cases ch; cases "snd ch")
        (simp_all add: prefer_item_def dict_lookup_def p ch list_remove_def del: rbind_eq_Inr)
  next
    case False
    then show ?thesis by (simp add: prefer_item_def p)
  qed
  then obtain el1 where e: "prefer_item dc item pv p el = Inr el1" by blast
  obtain el2 where "rfold (prefer_item dc item pv) ps el1 = Inr el2" "mset el2 = mset el1"
    using Cons.IH [of el1] Cons.prems by auto
  with e prefer_item_mset [OF e] show ?case by simp
qed

definition eligible_files :: "cfg \<Rightarrow> cachedata \<Rightarrow> string list \<Rightarrow> string set" where
  "eligible_files cfg dc providers =
     (\<lambda>pn. best_file cfg dc pn (pn_group dc providers pn)) ` (pn_of dc ` set providers)"

lemma best_file_group:
  assumes "pn \<in> pn_of dc ` set providers"
  shows "best_file cfg dc pn (pn_group dc providers pn) \<in> set providers"
    and "pn_of dc (best_file cfg dc pn (pn_group dc providers pn)) = pn"
proof -
  have "pn_group dc providers pn \<noteq> []" using assms by (auto simp: pn_group_def filter_empty_conv)
  then have "best_file cfg dc pn (pn_group dc providers pn) \<in> set (pn_group dc providers pn)" by (rule best_file_in)
  then show "best_file cfg dc pn (pn_group dc providers pn) \<in> set providers"
    and "pn_of dc (best_file cfg dc pn (pn_group dc providers pn)) = pn" by (simp_all add: pn_group_def)
qed

lemma filterProviders_common_eligible:
  assumes ok: "providers_ok dc providers" and ne: "providers \<noteq> []"
  shows "\<exists>el. filterProviders_common providers item cfg dc = Inr (Some el) \<and> distinct el \<and>
    set el = eligible_files cfg dc (sort providers)"
proof -
  let ?ps = "sort providers"
  have ok': "providers_ok dc ?ps" using ok by (simp add: providers_ok_def)
  obtain m where m: "collate_pn dc ?ps = Inr m" "dict_wf m"
      "set (dict_keys m) = pn_of dc ` set ?ps" "\<forall>pn. dd_get m pn = pn_group dc ?ps pn"
    using collate_pn_groups [OF ok'] by blast
  let ?pns = "sort (dict_keys m)"
  have pns: "set ?pns = pn_of dc ` set ?ps" "distinct ?pns" using m by simp_all
  obtain st1 where st1: "rfold (add_preferred cfg dc m) ?pns
      \<lparr>fp_eligible = [], fp_preferred_versions = [], fp_sortpkg_pn = []\<rparr> = Inr st1"
    and inv1: "fp_inv1 cfg dc ?ps ?pns st1"
    using add_preferred_loop [OF ok' m(3,4), where pns = ?pns and cfg = cfg] pns(1) by blast
  let ?pns2 = "sort (dict_keys (fp_sortpkg_pn st1))"
  have keys2: "set ?pns2 = set ?pns" "distinct ?pns2" using inv1 by (simp_all add: fp_inv1_def)
  obtain st2 where st2: "rfold (add_latest dc) ?pns2 st1 = Inr st2"
    and inv2: "fp_inv2 cfg dc ?ps ?pns2 st1 st2"
    using add_latest_loop [OF ok' inv1, where pns = ?pns2] keys2 pns(1) by blast
  let ?b = "\<lambda>pn. best_file cfg dc pn (pn_group dc ?ps pn)"
  have el: "fp_eligible st2 = map ?b (filter (has_pref cfg dc ?ps) ?pns @ filter (\<lambda>pn. \<not> has_pref cfg dc ?ps pn) ?pns2)"
    using inv1 inv2 by (simp add: fp_inv1_def fp_inv2_def)
  have "inj_on ?b (set ?pns)"
    by (rule inj_on_inverseI [where g = "pn_of dc"]) (use best_file_group(2) pns in blast)
  then have dist: "distinct (fp_eligible st2)"
    unfolding el distinct_map using pns keys2 by (auto intro: inj_on_subset)
  have "set (fp_eligible st2) = ?b ` set ?pns" unfolding el using keys2 by auto
  then have set: "set (fp_eligible st2) = eligible_files cfg dc ?ps" using pns by (simp add: eligible_files_def)
  have ne2: "fp_eligible st2 \<noteq> []"
  proof -
    have "eligible_files cfg dc ?ps \<noteq> {}" using ne by (auto simp: eligible_files_def)
    with set show ?thesis by auto
  qed
  have "\<forall>pn \<in> pn_of dc ` set ?ps. \<exists>ch. map_of (fp_preferred_versions st2) pn = Some ch"
    using inv2 keys2 pns by (simp add: fp_inv2_def)
  then obtain el' where el': "rfold (prefer_item dc item (fp_preferred_versions st2)) ?ps (fp_eligible st2) = Inr el'"
      "mset el' = mset (fp_eligible st2)"
    using prefer_item_loop [OF ok', of "fp_preferred_versions st2" ?ps item "fp_eligible st2"] by auto
  have "filterProviders_common providers item cfg dc = Inr (Some el')"
    using m(1) st1 st2 ne2 el'(1) by (simp add: filterProviders_common_def Let_def)
  moreover have "distinct el'" using el'(2) dist by (metis mset_eq_imp_distinct_iff)
  moreover have "set el' = eligible_files cfg dc ?ps" using el'(2) set by (metis set_mset_mset)
  ultimately show ?thesis by blast
qed

lemma select_pn_spec:
  assumes "\<forall>p \<in> set ps. map_of (dc_pkg_fn dc) p = Some (pn_of dc p)" and "set ps \<subseteq> set el"
  shows "select_pn dc pref ps el = Inr (case find (\<lambda>p. pn_of dc p = pref) ps of
     None \<Rightarrow> (el, False) | Some p \<Rightarrow> (p # remove1 p el, True))"
  using assms
proof (induction ps)
  case Nil
  then show ?case by simp
next
  case (Cons p ps)
  then show ?case by (auto simp: dict_lookup_def list_remove_def)
qed

section \<open>Properties\<close>

text \<open>C31. For a recipe of the index all of whose files have a name, a priority, a preference and a comparable version in the cache, \<^verbatim>\<open>sortPriorities\<close> groups the files by layer priority, highest priority first, each
  group stably sorted by ascending default preference; no file is lost or duplicated, and along the whole order priorities never increase.\<close>

theorem sortPriorities_correct:
  assumes "pn_files dc pkg_pn pn = Some files" and "\<forall>f \<in> set files. file_ok dc f"
  shows "sortPriorities pn dc pkg_pn = Inr (map (\<lambda>pri. sort_key (pref_of dc) (filter (\<lambda>f. prio_of dc f = pri) files))
      (rev (sorted_list_of_set (prio_of dc ` set files)))) \<and>
    (\<exists>sets. sortPriorities pn dc pkg_pn = Inr sets \<and> mset (concat sets) = mset files \<and>
       sorted_wrt (\<lambda>f g. prio_of dc g \<le> prio_of dc f) (concat sets))"
  using sortPriorities_sets [OF assms] mset_priority_sets priority_sets_descending
  by (auto simp: priority_sets_def)

text \<open>A cache with the given files, used at concrete inputs below: name, priority, preference, version.\<close>

definition sample_cache :: "(string \<times> string \<times> int \<times> int \<times> pepvpr) list \<Rightarrow> cachedata" where
  "sample_cache rows = CacheData\<lparr>
     dc_pkg_fn := map (\<lambda>(f, pn, _, _, _). (f, pn)) rows,
     dc_bbfile_priority := map (\<lambda>(f, _, pri, _, _). (f, pri)) rows,
     dc_pkg_dp := map (\<lambda>(f, _, _, dp, _). (f, dp)) rows,
     dc_pkg_pepvpr := map (\<lambda>(f, _, _, _, v). (f, v)) rows,
     dc_pkg_pn := fold (\<lambda>(f, pn, _, _, _). dd_append pn f) rows [],
     dc_pn_provides := fold (\<lambda>(f, pn, _, _, _). dict_set pn [pn, ''virtual/'' @ pn]) rows []\<rparr>"

definition sample_rows :: "(string \<times> string \<times> int \<times> int \<times> pepvpr) list" where
  "sample_rows = [(''a_1.bb'', ''a'', 5, 0, ([], ''1.0'', ''r0'')), (''a_2.bb'', ''a'', 5, 0, ([], ''2.0'', ''r0'')),
     (''a_3.bb'', ''a'', 6, -1, ([], ''3.0'', ''r0'')), (''b_1.bb'', ''b'', 5, 0, ([], ''1.0'', ''r0''))]"

theorem sortPriorities_correct_witness:
  "\<exists>sets. sortPriorities ''a'' (sample_cache sample_rows) [(''a'', [''a_1.bb'', ''a_3.bb'', ''a_2.bb''])] = Inr sets \<and>
     mset (concat sets) = mset [''a_1.bb'', ''a_3.bb'', ''a_2.bb'']"
proof -
  let ?dc = "sample_cache sample_rows" and ?m = "[(''a'', [''a_1.bb'', ''a_3.bb'', ''a_2.bb''])]"
  have f: "pn_files ?dc ?m ''a'' = Some [''a_1.bb'', ''a_3.bb'', ''a_2.bb'']" by code_simp
  have ok: "\<forall>f \<in> set [''a_1.bb'', ''a_3.bb'', ''a_2.bb'']. file_ok ?dc f" by code_simp
  show ?thesis using sortPriorities_correct [OF f ok] by blast
qed

text \<open>C27. \<^verbatim>\<open>findLatestProvider\<close> returns a file of the set together with its version, and no other file of
  the set is better: each has a lower default preference, or the same one and a version that is not newer.\<close>

theorem findLatestProvider_maximal:
  assumes "fs \<noteq> []" and "\<forall>f \<in> set fs. file_ok dc f"
  shows "\<exists>f. findLatestProvider dc fs = Inr (Some (ver_of dc f), Some f) \<and> f \<in> set fs \<and>
    (\<forall>g \<in> set fs. not_better dc g f)"
  using findLatestProvider_scan [OF assms] latest_of_in [OF assms(1)] latest_of_max [OF assms(2)] by blast

theorem findLatestProvider_maximal_witness:
  "\<exists>f. findLatestProvider (sample_cache sample_rows) [''a_1.bb'', ''a_2.bb''] =
     Inr (Some (ver_of (sample_cache sample_rows) f), Some f) \<and>
     (\<forall>g \<in> set [''a_1.bb'', ''a_2.bb'']. not_better (sample_cache sample_rows) g f)"
proof -
  have ok: "\<forall>f \<in> set [''a_1.bb'', ''a_2.bb'']. file_ok (sample_cache sample_rows) f" by code_simp
  show ?thesis using findLatestProvider_maximal [OF _ ok] by blast
qed

text \<open>C26. \<^verbatim>\<open>findBestProvider\<close>: the latest provider is a best file among those of the highest priority. If
  some file matches the configured \<^verbatim>\<open>PREFERRED_VERSION\<close>, the preferred provider is such a file of the highest
  priority any matching file has, otherwise it is the latest provider.\<close>

theorem findBestProvider_correct:
  assumes "pn_files dc pkg_pn pn = Some files" and "files \<noteq> []" and "\<forall>f \<in> set files. file_ok dc f"
  shows "\<exists>l p. findBestProvider pn cfg dc pkg_pn = Inr ((Some (ver_of dc l), Some l), (Some (ver_of dc p), Some p)) \<and>
    l \<in> set files \<and> (\<forall>g \<in> set files. prio_of dc g \<le> prio_of dc l) \<and>
    (\<forall>g \<in> set files. prio_of dc g = prio_of dc l \<longrightarrow> not_better dc g l) \<and>
    (case preferred_setting pn cfg of
       Some v \<Rightarrow>
         if v \<noteq> [] \<and> (\<exists>g \<in> set files. matches dc (parse_preferred v) g)
         then p \<in> set files \<and> matches dc (parse_preferred v) p \<and>
              (\<forall>g \<in> set files. matches dc (parse_preferred v) g \<longrightarrow> prio_of dc g \<le> prio_of dc p)
         else p = l
     | None \<Rightarrow> p = l)"
proof -
  let ?top = "hd (priority_sets dc files)" and ?l = "latest_of dc (hd (priority_sets dc files))"
  note top = top_set [OF assms(2), of dc]
  have okt: "\<forall>f \<in> set ?top. file_ok dc f" using top(3) assms(3) by simp
  have l: "?l \<in> set ?top" by (rule latest_of_in [OF top(2)])
  have lmax: "not_better dc g ?l" if "g \<in> set files" "prio_of dc g = prio_of dc ?l" for g
    by (rule latest_of_max [OF okt]) (use that l top(3) in auto)
  let ?p = "case preferred_pick pn cfg dc files of Some f \<Rightarrow> f | None \<Rightarrow> ?l"
  have "findBestProvider pn cfg dc pkg_pn = Inr ((Some (ver_of dc ?l), Some ?l), (Some (ver_of dc ?p), Some ?p))"
    using findLatestProvider_scan [OF top(2) okt] top(1)
    by (simp add: findBestProvider_def sortPriorities_sets [OF assms(1,3)] findPreferredProvider_pick [OF assms(3)]
      chosen_by_def split: option.splits)
  moreover have "case preferred_setting pn cfg of
       Some v \<Rightarrow>
         if v \<noteq> [] \<and> (\<exists>g \<in> set files. matches dc (parse_preferred v) g)
         then ?p \<in> set files \<and> matches dc (parse_preferred v) ?p \<and>
              (\<forall>g \<in> set files. matches dc (parse_preferred v) g \<longrightarrow> prio_of dc g \<le> prio_of dc ?p)
         else ?p = ?l
     | None \<Rightarrow> ?p = ?l"
  proof (cases "preferred_setting pn cfg")
    case None
    then show ?thesis by (simp add: preferred_pick_def)
  next
    case (Some v)
    show ?thesis
    proof (cases "v = [] \<or> preferred_pick pn cfg dc files = None")
      case True
      then show ?thesis using Some preferred_pick_highest(1) [OF Some, of dc files] by (auto simp: preferred_pick_def)
    next
      case False
      then obtain f where f: "preferred_pick pn cfg dc files = Some f" and v: "v \<noteq> []" by auto
      show ?thesis using Some v f preferred_pick_highest(2) [OF Some v f] preferred_pick_in [OF f] by auto
    qed
  qed
  ultimately show ?thesis
    using l lmax top(3) by (intro exI [of _ ?l] exI [of _ ?p]) auto
qed

theorem findBestProvider_correct_witness:
  "\<exists>l p. findBestProvider ''a'' (\<lambda>v. if v = ''PREFERRED_VERSION_a'' then Some ''2.%'' else None)
      (sample_cache sample_rows) [] =
    Inr ((Some (ver_of (sample_cache sample_rows) l), Some l), (Some (ver_of (sample_cache sample_rows) p), Some p))"
proof -
  let ?dc = "sample_cache sample_rows"
  have f: "pn_files ?dc [] ''a'' = Some [''a_1.bb'', ''a_2.bb'', ''a_3.bb'']" by code_simp
  have ok: "\<forall>f \<in> set [''a_1.bb'', ''a_2.bb'', ''a_3.bb'']. file_ok ?dc f" by code_simp
  show ?thesis
    using findBestProvider_correct [OF f _ ok, of "\<lambda>v. if v = ''PREFERRED_VERSION_a'' then Some ''2.%'' else None"] by blast
qed

lemma eligible_bij:
  assumes "set el = eligible_files cfg dc (sort providers)"
  shows "set el \<subseteq> set providers" and "bij_betw (pn_of dc) (set el) (pn_of dc ` set providers)"
proof -
  let ?b = "\<lambda>pn. best_file cfg dc pn (pn_group dc (sort providers) pn)"
  have b: "?b pn \<in> set providers" "pn_of dc (?b pn) = pn" if "pn \<in> pn_of dc ` set providers" for pn
    using best_file_group [of pn dc "sort providers" cfg] that by simp_all
  show "set el \<subseteq> set providers" using assms b(1) by (auto simp: eligible_files_def)
  show "bij_betw (pn_of dc) (set el) (pn_of dc ` set providers)"
  proof (rule bij_betw_byWitness [where f' = ?b])
    show "\<forall>f \<in> set el. ?b (pn_of dc f) = f" "pn_of dc ` set el \<subseteq> pn_of dc ` set providers"
      using assms b by (auto simp: eligible_files_def)
    show "\<forall>pn \<in> pn_of dc ` set providers. pn_of dc (?b pn) = pn" using b(2) by blast
    show "?b ` pn_of dc ` set providers \<subseteq> set el" by (simp add: assms eligible_files_def)
  qed
qed

text \<open>Selecting by name in a list that has one file per name.\<close>

lemma select_pn_result:
  assumes "distinct el" and "\<forall>p \<in> set el. map_of (dc_pkg_fn dc) p = Some (pn_of dc p)"
  shows "\<exists>el'. select_pn dc pref el el = Inr (el', pref \<in> pn_of dc ` set el) \<and> mset el' = mset el \<and>
    (pref \<in> pn_of dc ` set el \<longrightarrow> el' \<noteq> [] \<and> pn_of dc (hd el') = pref)"
proof (cases "find (\<lambda>p. pn_of dc p = pref) el")
  case None
  then have "pref \<notin> pn_of dc ` set el" by (auto simp: find_None_iff)
  with None select_pn_spec [of el dc el pref] assms show ?thesis by simp
next
  case (Some p)
  then have "p \<in> set el" "pn_of dc p = pref" by (auto simp: find_Some_iff)
  with Some select_pn_spec [of el dc el pref] assms show ?thesis by auto
qed

text \<open>\<^verbatim>\<open>filterProviders\<close> on known providers of a target returns exactly one file for each recipe name
  among them, without duplicates. The choice is reported as unique exactly when the preference recorded for
  the target (after \<^verbatim>\<open>PREFERRED_PROVIDER\<close>) names one of these recipes, and then its file comes first.\<close>

theorem filterProviders_correct:
  assumes "providers_ok dc providers" and "providers \<noteq> []"
  shows "\<exists>el unique dc'. filterProviders providers item cfg dc = Inr (Some el, unique, sort providers, dc') \<and>
    distinct el \<and> set el \<subseteq> set providers \<and> bij_betw (pn_of dc) (set el) (pn_of dc ` set providers) \<and>
    map_of (dc_preferred dc') item =
      (if opt_truthy (cfg (pp_var item)) then cfg (pp_var item)
       else map_of (dc_preferred dc) item) \<and>
    (unique \<longleftrightarrow> (\<exists>pn \<in> pn_of dc ` set providers. map_of (dc_preferred dc') item = Some pn)) \<and>
    (unique \<longrightarrow> map_of (dc_preferred dc') item = Some (pn_of dc (hd el)))"
proof -
  obtain el where el: "filterProviders_common providers item cfg dc = Inr (Some el)" "distinct el"
      "set el = eligible_files cfg dc (sort providers)"
    using filterProviders_common_eligible [OF assms] by blast
  note sub = eligible_bij [OF el(3)]
  let ?dc' = "record_preference item cfg dc"
  have pref: "map_of (dc_preferred ?dc') item =
      (if opt_truthy (cfg (pp_var item)) then cfg (pp_var item)
       else map_of (dc_preferred dc) item)"
    by (cases "cfg (pp_var item)") (simp_all add: record_preference_def Let_def)
  have same: "dc_pkg_fn ?dc' = dc_pkg_fn dc" "pn_of ?dc' = pn_of dc"
    by (auto simp: pn_of_def record_preference_def Let_def)
  have img: "pn_of dc ` set el = pn_of dc ` set providers" using sub(2) by (simp add: bij_betw_def)
  have known: "\<forall>p \<in> set el. map_of (dc_pkg_fn ?dc') p = Some (pn_of ?dc' p)"
    unfolding same using providers_okD(1) [OF assms(1)] sub(1) by blast
  show ?thesis
  proof (cases "map_of (dc_preferred ?dc') item")
    case None
    then have "filterProviders providers item cfg dc = Inr (Some el, False, sort providers, ?dc')"
      using el(1) by (simp add: filterProviders_def Let_def)
    then show ?thesis using el sub pref None by (intro exI [of _ el] exI [of _ False] exI [of _ ?dc']) simp
  next
    case (Some pn)
    obtain el' where el': "select_pn ?dc' pn el el = Inr (el', pn \<in> pn_of dc ` set el)" "mset el' = mset el"
        "pn \<in> pn_of dc ` set el \<longrightarrow> el' \<noteq> [] \<and> pn_of dc (hd el') = pn"
      using select_pn_result [OF el(2) known, of pn] unfolding same by blast
    have s: "set el' = set el" "distinct el'" using el'(2) el(2) mset_eq_setD mset_eq_imp_distinct_iff by blast+
    have "filterProviders providers item cfg dc = Inr (Some el', pn \<in> pn_of dc ` set el, sort providers, ?dc')"
      using el(1) Some el'(1) by (simp add: filterProviders_def Let_def)
    moreover have "pn \<in> pn_of dc ` set el \<longleftrightarrow> (\<exists>pn' \<in> pn_of dc ` set providers. map_of (dc_preferred ?dc') item = Some pn')"
      using Some img by auto
    moreover have "pn \<in> pn_of dc ` set el \<longrightarrow> map_of (dc_preferred ?dc') item = Some (pn_of dc (hd el'))"
      using Some el'(3) by auto
    moreover have "set el' \<subseteq> set providers" "bij_betw (pn_of dc) (set el') (pn_of dc ` set providers)"
      unfolding s(1) by (rule sub)+
    ultimately show ?thesis using s(2) pref by blast
  qed
qed

theorem filterProviders_correct_witness:
  "\<exists>el unique dc'. filterProviders [''b_1.bb'', ''a_2.bb'', ''a_1.bb''] ''virtual/k''
      (\<lambda>v. if v = ''PREFERRED_PROVIDER_virtual/k'' then Some ''b'' else None) (sample_cache sample_rows) =
    Inr (Some el, unique, sort [''b_1.bb'', ''a_2.bb'', ''a_1.bb''], dc') \<and> distinct el"
proof -
  have ok: "providers_ok (sample_cache sample_rows) [''b_1.bb'', ''a_2.bb'', ''a_1.bb'']" by code_simp
  show ?thesis using filterProviders_correct [OF ok] by blast
qed

section \<open>Runtime selection\<close>

lemma rt_loop_done: "length (rt_l st) \<le> i \<Longrightarrow> rt_loop n cfg dc pns i st = Inr st"
  by (cases n) simp_all

text \<open>Each selection keeps the files and needs its file among them.\<close>

definition rt_inv :: "string list \<Rightarrow> rt_state \<Rightarrow> bool" where
  "rt_inv el st \<longleftrightarrow> mset (rt_eligible st) = mset el \<and> set (rt_l st) \<subseteq> set el \<and>
     (rt_same st \<longrightarrow> rt_l st = rt_eligible st)"

lemma pick_provide_in: "pick_provide cfg pns pr ps = Some f \<Longrightarrow> f \<in> ran (map_of pns) \<and> f \<notin> set pr"
  by (induction ps) (auto split: option.splits if_splits intro: ranI)

lemma rt_step_inv:
  assumes "rt_inv el st" "ran (map_of pns) \<subseteq> set el" "p \<in> set el"
    and "\<forall>p \<in> set el. has_key (dc_pkg_fn dc) p"
  shows "\<exists>st'. rt_step cfg dc pns p st = Inr st' \<and> rt_inv el st' \<and> length (rt_l st') \<le> length (rt_l st)"
proof -
  obtain pn where pn: "map_of (dc_pkg_fn dc) p = Some pn" using assms(3,4) by (auto simp: has_key_def)
  show ?thesis
  proof (cases "pick_provide cfg pns (rt_preferred st) (dd_get (dc_pn_provides dc) pn)")
    case None
    then show ?thesis using assms(1) by (simp add: rt_step_def dict_lookup_Some [OF pn])
  next
    case (Some f)
    have f: "f \<in> set el" using pick_provide_in [OF Some] assms(2) by blast
    have eq: "set (rt_eligible st) = set el" using assms(1) mset_eq_setD by (auto simp: rt_inv_def)
    let ?st = "\<lparr>rt_l = (if rt_same st then remove1 f (rt_eligible st) else rt_l st),
      rt_eligible = f # remove1 f (rt_eligible st), rt_same = False, rt_preferred = rt_preferred st @ [f]\<rparr>"
    have "rt_step cfg dc pns p st = Inr ?st"
      using Some f eq by (simp add: rt_step_def dict_lookup_Some [OF pn] rt_select_def list_remove_def)
    moreover have "rt_inv el ?st"
      using assms(1) f eq set_remove1_subset [of f "rt_eligible st"]
      by (auto simp: rt_inv_def)
    moreover have "length (rt_l ?st) \<le> length (rt_l st)"
      using assms(1) f eq by (auto simp: rt_inv_def length_remove1)
    ultimately show ?thesis by blast
  qed
qed

lemma rt_loop_inv:
  assumes "rt_inv el st" "ran (map_of pns) \<subseteq> set el" "\<forall>p \<in> set el. has_key (dc_pkg_fn dc) p"
  shows "\<exists>st'. rt_loop n cfg dc pns i st = Inr st' \<and> rt_inv el st'"
  using assms(1)
proof (induction n arbitrary: i st)
  case 0
  then show ?case by simp
next
  case (Suc n)
  show ?case
  proof (cases "i < length (rt_l st)")
    case True
    then have "rt_l st ! i \<in> set el" using Suc.prems nth_mem by (auto simp: rt_inv_def)
    then obtain st1 where "rt_step cfg dc pns (rt_l st ! i) st = Inr st1" "rt_inv el st1"
      using rt_step_inv [OF Suc.prems assms(2) _ assms(3)] by blast
    with True Suc.IH [of st1 "Suc i"] show ?thesis by simp
  qed (use Suc.prems in simp)
qed

lemma pns_of_spec:
  assumes "\<forall>p \<in> set el. has_key (dc_pkg_fn dc) p"
  shows "\<exists>pns. pns_of dc el = Inr pns \<and> ran (map_of pns) \<subseteq> set el"
  using assms
proof (induction el rule: rev_induct)
  case Nil
  then show ?case by (simp add: pns_of_def)
next
  case (snoc p el)
  then obtain pns where "pns_of dc el = Inr pns" "ran (map_of pns) \<subseteq> set el" by auto
  moreover obtain pn where "map_of (dc_pkg_fn dc) p = Some pn" using snoc.prems by (auto simp: has_key_def)
  moreover have "ran (map_of (dict_set pn p pns)) \<subseteq> insert p (ran (map_of pns))"
    by (auto simp: ran_def split: if_splits)
  ultimately show ?case by (auto simp: pns_of_def rfold_append)
qed

text \<open>The fuel of the loop is enough: the list never grows, so more of it changes nothing.\<close>

lemma rt_loop_fuel:
  assumes "rt_inv el st" "ran (map_of pns) \<subseteq> set el" "\<forall>p \<in> set el. has_key (dc_pkg_fn dc) p"
    and "length (rt_l st) \<le> i + n"
  shows "rt_loop (n + m) cfg dc pns i st = rt_loop n cfg dc pns i st"
  using assms(1,4)
proof (induction n arbitrary: i st)
  case 0
  then show ?case by (simp add: rt_loop_done)
next
  case (Suc n)
  show ?case
  proof (cases "i < length (rt_l st)")
    case True
    then have "rt_l st ! i \<in> set el" using Suc.prems nth_mem by (auto simp: rt_inv_def)
    then obtain st1 where "rt_step cfg dc pns (rt_l st ! i) st = Inr st1" "rt_inv el st1"
        "length (rt_l st1) \<le> length (rt_l st)"
      using rt_step_inv [OF Suc.prems(1) assms(2) _ assms(3)] by blast
    with True Suc.IH [of st1 "Suc i"] Suc.prems(2) show ?thesis by simp
  qed simp
qed

lemma infer_preferred_mset:
  assumes "\<forall>p \<in> set el. has_key (dc_pkg_fn dc) p"
  shows "\<exists>el' n. infer_preferred cfg dc el = Inr (el', n) \<and> mset el' = mset el"
proof -
  obtain pns where pns: "pns_of dc el = Inr pns" "ran (map_of pns) \<subseteq> set el"
    using pns_of_spec [OF assms] by blast
  let ?st = "\<lparr>rt_l = el, rt_eligible = el, rt_same = True, rt_preferred = []\<rparr>"
  have "rt_inv el ?st" by (simp add: rt_inv_def)
  then obtain st where "rt_loop (length el) cfg dc pns 0 ?st = Inr st" "rt_inv el st"
    using rt_loop_inv [OF _ pns(2) assms] by blast
  with pns(1) show ?thesis by (simp add: infer_preferred_def rt_inv_def)
qed

text \<open>\<^verbatim>\<open>filterProvidersRunTime\<close> on known providers returns one file for each recipe name among them; if
  \<^verbatim>\<open>PREFERRED_RPROVIDER\<close> names one of these recipes, its file comes first and counts as one preference.\<close>

theorem filterProvidersRunTime_correct:
  assumes "providers_ok dc providers" and "providers \<noteq> []"
  shows "\<exists>el n. filterProvidersRunTime providers item cfg dc = Inr (el, n) \<and> distinct el \<and>
    set el \<subseteq> set providers \<and> bij_betw (pn_of dc) (set el) (pn_of dc ` set providers) \<and>
    (\<forall>pn. cfg (rp_var item) = Some pn \<and> pn \<noteq> [] \<and> pn \<in> pn_of dc ` set providers \<longrightarrow>
       n = 1 \<and> pn_of dc (hd el) = pn)"
proof -
  obtain el where el: "filterProviders_common providers item cfg dc = Inr (Some el)" "distinct el"
      "set el = eligible_files cfg dc (sort providers)"
    using filterProviders_common_eligible [OF assms] by blast
  note sub = eligible_bij [OF el(3)]
  have img: "pn_of dc ` set el = pn_of dc ` set providers" using sub(2) by (simp add: bij_betw_def)
  have known: "\<forall>p \<in> set el. map_of (dc_pkg_fn dc) p = Some (pn_of dc p)"
    using providers_okD(1) [OF assms(1)] sub(1) by blast
  let ?v = "cfg (rp_var item)"
  obtain el1 u where el1: "(if opt_truthy ?v then select_pn dc (the ?v) el el else Inr (el, False)) = Inr (el1, u)"
      "mset el1 = mset el" "u \<longleftrightarrow> opt_truthy ?v \<and> the ?v \<in> pn_of dc ` set el"
      "u \<longrightarrow> pn_of dc (hd el1) = the ?v"
    using select_pn_result [OF el(2) known, of "the ?v"] by (cases "opt_truthy ?v") auto
  have known1: "\<forall>p \<in> set el1. has_key (dc_pkg_fn dc) p"
    using known mset_eq_setD [OF el1(2)] by (simp add: has_key_def)
  obtain el2 n where el2: "(if u then Inr (el1, 1) else infer_preferred cfg dc el1) = Inr (el2, n)"
      "mset el2 = mset el1" "u \<longrightarrow> el2 = el1 \<and> n = 1"
    using infer_preferred_mset [OF known1, of cfg] by (cases u) auto
  have "filterProvidersRunTime providers item cfg dc = Inr (el2, n)"
    using el(1) el1(1) el2(1) by (simp add: filterProvidersRunTime_def Let_def del: rbind_eq_Inr)
  moreover have "set el2 = set el" "distinct el2"
    using el1(2) el2(2) el(2) mset_eq_setD mset_eq_imp_distinct_iff by metis+
  ultimately show ?thesis
    using sub img el1(3,4) el2(3) by (intro exI [of _ el2] exI [of _ n]) auto
qed

theorem filterProvidersRunTime_correct_witness:
  "\<exists>el n. filterProvidersRunTime [''b_1.bb'', ''a_2.bb'', ''a_1.bb''] ''rt''
      (\<lambda>v. if v = ''PREFERRED_RPROVIDER_rt'' then Some ''b'' else None) (sample_cache sample_rows) = Inr (el, n) \<and>
    n = 1 \<and> pn_of (sample_cache sample_rows) (hd el) = ''b''"
proof -
  let ?cfg = "\<lambda>v. if v = ''PREFERRED_RPROVIDER_rt'' then Some ''b'' else None"
  have ok: "providers_ok (sample_cache sample_rows) [''b_1.bb'', ''a_2.bb'', ''a_1.bb'']" by code_simp
  have b: "?cfg (rp_var ''rt'') = Some ''b''"
    "''b'' \<in> pn_of (sample_cache sample_rows) ` set [''b_1.bb'', ''a_2.bb'', ''a_1.bb'']"
    by (simp add: rp_var_def, code_simp)
  show ?thesis using filterProvidersRunTime_correct [OF ok, of "''rt''" ?cfg] b by blast
qed

lemma rt_step_cases:
  assumes "rt_step cfg dc pns p s = Inr s'"
  obtains "s' = s"
    | f where "f \<in> set (rt_eligible s)" and
        "s' = \<lparr>rt_l = (if rt_same s then remove1 f (rt_eligible s) else rt_l s),
           rt_eligible = f # remove1 f (rt_eligible s), rt_same = False, rt_preferred = rt_preferred s @ [f]\<rparr>"
proof -
  obtain pn where pn: "(case pick_provide cfg pns (rt_preferred s) (dd_get (dc_pn_provides dc) pn) of
      None \<Rightarrow> Inr s | Some pref \<Rightarrow> rt_select pref s) = Inr s'"
    using assms unfolding rt_step_def rbind_eq_Inr by blast
  show thesis
  proof (cases "pick_provide cfg pns (rt_preferred s) (dd_get (dc_pn_provides dc) pn)")
    case None
    with pn that(1) show thesis by simp
  next
    case (Some f)
    with pn have "rt_select f s = Inr s'" by simp
    with that(2) show thesis by (cases "f \<in> set (rt_eligible s)") (simp_all add: rt_select_def list_remove_def)
  qed
qed

lemma rt_step_shortens:
  assumes "rt_step cfg dc pns p s = Inr s'"
  shows "length (rt_preferred s') \<le> Suc (length (rt_preferred s)) \<and>
      (s' = s \<or> (rt_same s \<longrightarrow> rt_l s = rt_eligible s \<longrightarrow> Suc (length (rt_l s')) = length (rt_l s)))"
  using assms
proof (cases rule: rt_step_cases)
  case (2 f)
  then have "0 < length (rt_eligible s)" by (auto simp: length_greater_0_conv)
  with 2 show ?thesis by (simp add: length_remove1)
qed simp

text \<open>Conflicting \<^verbatim>\<open>PREFERRED_PROVIDER\<close> settings are not noticed between two candidates: with at most
  two eligible files the inference of a runtime provider never counts more than one preference, because
  the first selection shortens the list the loop iterates over.\<close>

theorem two_candidates_never_conflict:
  assumes "length el \<le> 2" and "infer_preferred cfg dc el = Inr (el', n)"
  shows "n \<le> 1"
proof -
  let ?st = "\<lparr>rt_l = el, rt_eligible = el, rt_same = True, rt_preferred = []\<rparr>"
  obtain pns st where st: "rt_loop (length el) cfg dc pns 0 ?st = Inr st" and n: "n = length (rt_preferred st)"
    using assms(2) by (auto simp: infer_preferred_def)
  consider "el = []" | a where "el = [a]" | a b where "el = [a, b]"
    using assms(1) by (cases el rule: remdups_adj.cases) simp_all
  then show ?thesis
  proof cases
    case 1
    then show ?thesis using st n by auto
  next
    case (2 a)
    then obtain s1 where "rt_step cfg dc pns a ?st = Inr s1" "st = s1" using st by auto
    then show ?thesis using rt_step_shortens [of cfg dc pns a ?st s1] n by simp
  next
    case (3 a b)
    then have "rbind (rt_step cfg dc pns a ?st) (rt_loop (Suc 0) cfg dc pns (Suc 0)) = Inr st"
      using st by simp
    then obtain s1 where s1: "rt_step cfg dc pns a ?st = Inr s1"
      and rest: "rt_loop (Suc 0) cfg dc pns (Suc 0) s1 = Inr st" unfolding rbind_eq_Inr by blast
    from rt_step_shortens [OF s1] consider "s1 = ?st" | "length (rt_l s1) = 1" "length (rt_preferred s1) \<le> 1"
      using 3 by auto
    then show ?thesis
    proof cases
      case 1
      then obtain s2 where "rt_step cfg dc pns b s1 = Inr s2" "st = s2" using rest 3 by auto
      then show ?thesis using rt_step_shortens [of cfg dc pns b s1 s2] 1 n by simp
    next
      case 2
      then show ?thesis using rest n by simp
    qed
  qed
qed

theorem two_candidates_never_conflict_witness:
  "\<exists>el'. infer_preferred (\<lambda>v. if v = ''PREFERRED_PROVIDER_virtual/a'' then Some ''a''
       else if v = ''PREFERRED_PROVIDER_virtual/b'' then Some ''b'' else None)
     (sample_cache sample_rows) [''a_1.bb'', ''b_1.bb''] = Inr (el', 1) \<and> (1::nat) \<le> 1"
proof -
  let ?cfg = "\<lambda>v. if v = ''PREFERRED_PROVIDER_virtual/a'' then Some ''a''
       else if v = ''PREFERRED_PROVIDER_virtual/b'' then Some ''b'' else None"
  have e: "infer_preferred ?cfg (sample_cache sample_rows) [''a_1.bb'', ''b_1.bb''] = Inr ([''a_1.bb'', ''b_1.bb''], 1)"
    by code_simp
  have "(1::nat) \<le> 1" by (rule two_candidates_never_conflict [OF _ e]) simp
  with e show ?thesis by blast
qed

end
