(* ===== verification/BB_World.thy ===== *)
theory BB_World
  imports BB_Providers
begin

text \<open>
  Properties of \<^verbatim>\<open>getRuntimeProviders\<close> and \<^verbatim>\<open>buildWorldTargetList\<close> of \<^verbatim>\<open>lib/bb/providers.py\<close>:
  which files provide a runtime name, and which recipes a world build names.
\<close>

section \<open>Runtime providers of a name\<close>

lemma escape_plus_Cons: "escape_plus (c # s) = (if c = CHR ''+'' then [CHR 0x5C, CHR ''+''] else [c]) @ escape_plus s"
  by (simp add: escape_plus_def)

lemma escape_plus_id: "CHR ''+'' \<notin> set s \<Longrightarrow> escape_plus s = s"
  unfolding escape_plus_def by (induction s) auto

lemma escape_plus_backslash: "CHR ''+'' \<in> set s \<Longrightarrow> CHR 0x5C \<in> set (escape_plus s)"
  by (induction s) (auto simp: escape_plus_Cons)

lemma escaped_is_key:
  assumes "\<forall>p \<in> set (dict_keys d). CHR 0x5C \<notin> set p" and "p \<in> set (dict_keys d)"
  shows "has_key d (escape_plus p) \<longleftrightarrow> CHR ''+'' \<notin> set p"
proof
  assume "has_key d (escape_plus p)"
  then have "escape_plus p \<in> set (dict_keys d)"
    by (simp add: has_key_iff)
  then show "CHR ''+'' \<notin> set p" using assms(1) escape_plus_backslash by blast
next
  assume "CHR ''+'' \<notin> set p"
  with assms(2) show "has_key d (escape_plus p)"
    by (simp add: escape_plus_id has_key_iff)
qed

definition dyn_matches :: "re_matcher \<Rightarrow> string \<Rightarrow> string \<Rightarrow> bool" where
  "dyn_matches re_match rdepend p \<longleftrightarrow> re_match (escape_plus p) rdepend = Inr True"

lemma dynamic_loop_spec:
  assumes "\<forall>p \<in> set pats. \<exists>b. re_match (escape_plus p) rdepend = Inr b"
    and "\<forall>p \<in> set pats. has_key (dc_packages_dynamic dc) (escape_plus p) \<longleftrightarrow> CHR ''+'' \<notin> set p"
  shows "dynamic_loop re_match dc rdepend pats acc =
    (if \<exists>p \<in> set pats. dyn_matches re_match rdepend p \<and> CHR ''+'' \<in> set p then Inl RuntimeError
     else Inr (acc @ concat (map (dd_get (dc_packages_dynamic dc)) (filter (dyn_matches re_match rdepend) pats))))"
  using assms
proof (induction pats arbitrary: acc)
  case (Cons p pats)
  then obtain b where b: "re_match (escape_plus p) rdepend = Inr b" by auto
  then have "dyn_matches re_match rdepend p = b" by (simp add: dyn_matches_def)
  with Cons b show ?case by (auto simp: Let_def escape_plus_id)
qed simp

text \<open>\<^verbatim>\<open>getRuntimeProviders\<close> returns the declared providers and packages of the name; only if there are
  none it returns the files of all matching dynamic patterns, in the order of the patterns. A matching
  pattern with a plus sign does not deliver its files: the lookup under the escaped pattern raises.\<close>

theorem getRuntimeProviders_exact:
  assumes re_total: "\<forall>p \<in> set (dict_keys (dc_packages_dynamic dc)). \<exists>b. re_match (escape_plus p) rdepend = Inr b"
    and no_backslash: "\<forall>p \<in> set (dict_keys (dc_packages_dynamic dc)). CHR 0x5C \<notin> set p"
  shows "getRuntimeProviders re_match dc rdepend =
    (let static = dd_get (dc_rproviders dc) rdepend @ dd_get (dc_packages dc) rdepend;
         matching = filter (dyn_matches re_match rdepend) (dict_keys (dc_packages_dynamic dc))
     in if static \<noteq> [] then Inr static
        else if \<exists>p \<in> set matching. CHR ''+'' \<in> set p then Inl RuntimeError
        else Inr (concat (map (dd_get (dc_packages_dynamic dc)) matching)))"
proof -
  have keys: "\<forall>p \<in> set (dict_keys (dc_packages_dynamic dc)).
      has_key (dc_packages_dynamic dc) (escape_plus p) \<longleftrightarrow> CHR ''+'' \<notin> set p"
    using escaped_is_key [OF no_backslash] by blast
  note loop = dynamic_loop_spec [where acc = "[]" and dc = dc and re_match = re_match and rdepend = rdepend, OF re_total keys]
  show ?thesis
    unfolding getRuntimeProviders_def Let_def loop by auto
qed

definition prefix_matcher :: re_matcher where
  "prefix_matcher pat s = Inr (startswith s (filter (\<lambda>c. c \<noteq> CHR 0x5C) pat))"

theorem getRuntimeProviders_exact_witness:
  "getRuntimeProviders prefix_matcher (CacheData\<lparr>dc_packages_dynamic := [(''lib'', [''l.bb'']), (''g++'', [''g.bb''])]\<rparr>)
     ''libx'' = Inr [''l.bb''] \<and>
   getRuntimeProviders prefix_matcher (CacheData\<lparr>dc_packages_dynamic := [(''lib'', [''l.bb'']), (''g++'', [''g.bb''])]\<rparr>)
     ''g++-dev'' = Inl RuntimeError"
proof -
  let ?dc = "CacheData\<lparr>dc_packages_dynamic := [(''lib'', [''l.bb'']), (''g++'', [''g.bb''])]\<rparr>"
  have t: "\<forall>p \<in> set (dict_keys (dc_packages_dynamic ?dc)). \<exists>b. prefix_matcher (escape_plus p) r = Inr b" for r
    by (simp add: prefix_matcher_def)
  have nb: "\<forall>p \<in> set (dict_keys (dc_packages_dynamic ?dc)). CHR 0x5C \<notin> set p" by code_simp
  have "(let static = dd_get (dc_rproviders ?dc) ''libx'' @ dd_get (dc_packages ?dc) ''libx'';
         matching = filter (dyn_matches prefix_matcher ''libx'') (dict_keys (dc_packages_dynamic ?dc))
     in if static \<noteq> [] then Inr static
        else if \<exists>p \<in> set matching. CHR ''+'' \<in> set p then Inl RuntimeError
        else Inr (concat (map (dd_get (dc_packages_dynamic ?dc)) matching))) = Inr [''l.bb'']" by code_simp
  moreover have "(let static = dd_get (dc_rproviders ?dc) ''g++-dev'' @ dd_get (dc_packages ?dc) ''g++-dev'';
         matching = filter (dyn_matches prefix_matcher ''g++-dev'') (dict_keys (dc_packages_dynamic ?dc))
     in if static \<noteq> [] then Inr static
        else if \<exists>p \<in> set matching. CHR ''+'' \<in> set p then Inl RuntimeError
        else Inr (concat (map (dd_get (dc_packages_dynamic ?dc)) matching))) = Inl RuntimeError" by code_simp
  ultimately show ?thesis
    using getRuntimeProviders_exact [OF t nb, where rdepend = "''libx''"] getRuntimeProviders_exact [OF t nb, where rdepend = "''g++-dev''"]
    by (simp only: simp_thms)
qed

section \<open>The world target\<close>

text \<open>A recipe belongs to the world: it has the task asked for and nothing it provides is virtual or
  provided by another recipe.\<close>

definition own_provide :: "cachedata \<Rightarrow> string \<Rightarrow> string \<Rightarrow> bool" where
  "own_provide dc pn p \<longleftrightarrow> \<not> startswith p ''virtual/'' \<and>
     (\<forall>pf \<in> set (dd_get (dc_providers dc) p). map_of (dc_pkg_fn dc) pf = Some pn)"

definition has_task :: "cachedata \<Rightarrow> string option \<Rightarrow> string \<Rightarrow> bool" where
  "has_task dc task f \<longleftrightarrow>
     (opt_truthy task \<longrightarrow> (\<exists>td. map_of (dc_task_deps dc) f = Some td \<and> the task \<in> set (tk_tasks td)))"

definition in_world :: "cachedata \<Rightarrow> string option \<Rightarrow> string \<Rightarrow> bool" where
  "in_world dc task f \<longleftrightarrow> has_task dc task f \<and>
     (\<forall>p \<in> set (dd_get (dc_pn_provides dc) (pn_of dc f)). own_provide dc (pn_of dc f) p)"

definition world_known :: "cachedata \<Rightarrow> bool" where
  "world_known dc \<longleftrightarrow> (\<forall>f \<in> set (dc_possible_world dc). has_key (dc_pkg_fn dc) f \<and> has_key (dc_task_deps dc) f) \<and>
     (\<forall>kv \<in> set (dc_providers dc). \<forall>pf \<in> set (snd kv). has_key (dc_pkg_fn dc) pf)"

lemma foreign_provider_spec:
  "\<forall>pf \<in> set pfs. has_key (dc_pkg_fn dc) pf \<Longrightarrow>
    foreign_provider dc pn pfs = Inr (\<not> (\<forall>pf \<in> set pfs. map_of (dc_pkg_fn dc) pf = Some pn))"
  by (induction pfs) (auto simp: has_key_def dict_lookup_Some)

lemma world_provides_spec:
  assumes "\<forall>p. \<forall>pf \<in> set (dd_get (dc_providers dc) p). has_key (dc_pkg_fn dc) pf"
  shows "world_provides dc pn ps t = Inr (t \<and> (\<forall>p \<in> set ps. own_provide dc pn p))"
proof (induction ps arbitrary: t)
  case (Cons p ps)
  show ?case
  proof (cases "startswith p ''virtual/''")
    case False
    have "foreign_provider dc pn (dd_get (dc_providers dc) p) = Inr (\<not> own_provide dc pn p)"
      using assms False by (simp add: foreign_provider_spec own_provide_def)
    with False Cons show ?thesis by auto
  qed (auto simp: own_provide_def)
qed simp

lemma world_step_spec:
  assumes "\<forall>p. \<forall>pf \<in> set (dd_get (dc_providers dc) p). has_key (dc_pkg_fn dc) pf"
    and "has_key (dc_pkg_fn dc) f" "has_key (dc_task_deps dc) f"
  shows "world_step task f (dc\<lparr>dc_world_target := w\<rparr>) =
    Inr (dc\<lparr>dc_world_target := if in_world dc task f then add_new (pn_of dc f) w else w\<rparr>)"
proof -
  let ?dc = "dc\<lparr>dc_world_target := w\<rparr>"
  have pn: "map_of (dc_pkg_fn dc) f = Some (pn_of dc f)" using assms(2) by (auto simp: has_key_def pn_of_def)
  obtain td where td: "map_of (dc_task_deps dc) f = Some td" using assms(3) by (auto simp: has_key_def)
  have wp: "world_provides ?dc q ps t = Inr (t \<and> (\<forall>p \<in> set ps. own_provide ?dc q p))" for q ps t
    by (rule world_provides_spec) (use assms(1) in simp)
  have own: "own_provide ?dc = own_provide dc" by (simp add: own_provide_def fun_eq_iff)
  have task: "(if opt_truthy task then rbind (dict_lookup (dc_task_deps ?dc) f) (\<lambda>td. Inr (the task \<in> set (tk_tasks td)))
      else Inr True) = Inr (has_task dc task f)"
    using td by (simp add: has_task_def dict_lookup_def)
  have pnl: "dict_lookup (dc_pkg_fn ?dc) f = Inr (pn_of dc f)" using pn by (simp add: dict_lookup_def)
  show ?thesis
    unfolding world_step_def pnl task wp rbind_simps own in_world_def by simp
qed

lemma world_fold_spec:
  assumes "\<forall>p. \<forall>pf \<in> set (dd_get (dc_providers dc) p). has_key (dc_pkg_fn dc) pf"
    and "\<forall>f \<in> set fs. has_key (dc_pkg_fn dc) f \<and> has_key (dc_task_deps dc) f"
  shows "rfold (world_step task) fs (dc\<lparr>dc_world_target := w\<rparr>) =
    Inr (dc\<lparr>dc_world_target := fold (\<lambda>f w. if in_world dc task f then add_new (pn_of dc f) w else w) fs w\<rparr>)"
  using assms(2)
  by (induction fs arbitrary: w) (simp_all add: world_step_spec [OF assms(1)] del: rbind_eq_Inr)

lemma world_target_set:
  "set (fold (\<lambda>f w. if P f then add_new (g f) w else w) fs w) = set w \<union> g ` {f \<in> set fs. P f}"
  by (induction fs arbitrary: w) (auto simp: add_new_def)

text \<open>On a consistent cache \<^verbatim>\<open>buildWorldTargetList\<close> raises nothing, changes only the world target and
  puts into it the names of exactly the recipes that belong to the world; a target already collected stays.\<close>

theorem buildWorldTargetList_exact:
  assumes "world_known dc"
  shows "\<exists>w. buildWorldTargetList task dc = Inr (dc\<lparr>dc_world_target := w\<rparr>) \<and>
    (if dc_world_target dc \<noteq> [] then w = dc_world_target dc
     else set w = pn_of dc ` {f \<in> set (dc_possible_world dc). in_world dc task f})"
proof (cases "dc_world_target dc = []")
  case True
  have prov: "\<forall>p. \<forall>pf \<in> set (dd_get (dc_providers dc) p). has_key (dc_pkg_fn dc) pf"
  proof (intro allI ballI)
    fix p pf assume "pf \<in> set (dd_get (dc_providers dc) p)"
    then obtain vs where "map_of (dc_providers dc) p = Some vs" "pf \<in> set vs"
      by (cases "map_of (dc_providers dc) p") (simp_all add: dd_get_def)
    then have "(p, vs) \<in> set (dc_providers dc)" "pf \<in> set (snd (p, vs))" by (simp_all add: map_of_SomeD)
    then show "has_key (dc_pkg_fn dc) pf" using assms(1) unfolding world_known_def by blast
  qed
  have known: "\<forall>f \<in> set (dc_possible_world dc). has_key (dc_pkg_fn dc) f \<and> has_key (dc_task_deps dc) f"
    using assms(1) by (simp add: world_known_def)
  have self: "dc = dc\<lparr>dc_world_target := []\<rparr>" using True by simp
  have "buildWorldTargetList task dc = rfold (world_step task) (dc_possible_world dc) dc"
    using True by (simp add: buildWorldTargetList_def)
  also have "\<dots> = rfold (world_step task) (dc_possible_world dc) (dc\<lparr>dc_world_target := []\<rparr>)"
    by (rule arg_cong [OF self])
  finally show ?thesis using True
    unfolding world_fold_spec [OF prov known] by (auto simp: world_target_set)
qed (auto simp: buildWorldTargetList_def)

theorem buildWorldTargetList_exact_witness:
  "\<exists>w. buildWorldTargetList None (sample_cache sample_rows) = Inr ((sample_cache sample_rows)\<lparr>dc_world_target := w\<rparr>)"
proof -
  have k: "world_known (sample_cache sample_rows)"
    by code_simp+
  show ?thesis using buildWorldTargetList_exact [OF k, of None] by blast
qed

end
