(* ===== verification/BB_Outcome.thy ===== *)
theory BB_Outcome
  imports BB_Prelude
begin

text \<open>
  Stateful methods that may raise. An exception keeps the state it was raised in, because callers catch
  some exceptions and go on with that state. \<open>Stuck\<close> is an exhausted bound on a recursion; that it does not
  occur is a theorem about each bounded operation. Loops over the elements of a list are \<open>for_each\<close>.
\<close>

datatype 's outcome = Done 's | Raise py_error 's | Stuck

fun obind :: "'s outcome \<Rightarrow> ('s \<Rightarrow> 't outcome) \<Rightarrow> (py_error \<Rightarrow> 's \<Rightarrow> 't outcome) \<Rightarrow> 't outcome" where
  "obind (Done s) f h = f s"
| "obind (Raise e s) f h = h e s"
| "obind Stuck f h = Stuck"

abbreviation oseq :: "'s outcome \<Rightarrow> ('s \<Rightarrow> 's outcome) \<Rightarrow> 's outcome" where
  "oseq m f \<equiv> obind m f Raise"

fun for_each :: "('a \<Rightarrow> 's \<Rightarrow> 's outcome) \<Rightarrow> 'a list \<Rightarrow> 's \<Rightarrow> 's outcome" where
  "for_each f [] s = Done s"
| "for_each f (x # xs) s = oseq (f x s) (for_each f xs)"

text \<open>A pure computation inside a method, and a method on a part of the state.\<close>

fun with_result :: "'a result \<Rightarrow> 's \<Rightarrow> ('a \<Rightarrow> 's outcome) \<Rightarrow> 's outcome" where
  "with_result (Inl e) s f = Raise e s"
| "with_result (Inr a) s f = f a"

fun omap :: "('s \<Rightarrow> 't) \<Rightarrow> 's outcome \<Rightarrow> 't outcome" where
  "omap g (Done s) = Done (g s)"
| "omap g (Raise e s) = Raise e (g s)"
| "omap g Stuck = Stuck"

text \<open>The outcome satisfies a postcondition, with a second one for the exceptions; it is not \<open>Stuck\<close>.\<close>

fun ensures :: "('s \<Rightarrow> bool) \<Rightarrow> (py_error \<Rightarrow> 's \<Rightarrow> bool) \<Rightarrow> 's outcome \<Rightarrow> bool" where
  "ensures P Q (Done s) = P s"
| "ensures P Q (Raise e s) = Q e s"
| "ensures P Q Stuck = False"

lemma ensures_obind:
  "ensures P Q m \<Longrightarrow> (\<And>s. P s \<Longrightarrow> ensures P' Q' (f s)) \<Longrightarrow> (\<And>e s. Q e s \<Longrightarrow> ensures P' Q' (h e s)) \<Longrightarrow>
    ensures P' Q' (obind m f h)"
  by (cases m) simp_all

lemma ensures_mono:
  "ensures P Q m \<Longrightarrow> (\<And>s. P s \<Longrightarrow> P' s) \<Longrightarrow> (\<And>e s. Q e s \<Longrightarrow> Q' e s) \<Longrightarrow> ensures P' Q' m"
  by (cases m) simp_all

lemma ensures_omap [simp]: "ensures P Q (omap g m) = ensures (\<lambda>s. P (g s)) (\<lambda>e s. Q e (g s)) m"
  by (cases m) simp_all

lemma ensures_with_result:
  "(\<And>e. r = Inl e \<Longrightarrow> Q e s) \<Longrightarrow> (\<And>a. r = Inr a \<Longrightarrow> ensures P Q (f a)) \<Longrightarrow> ensures P Q (with_result r s f)"
  by (cases r) simp_all

lemma obind_Done: "obind m f h = Done t \<longleftrightarrow> (\<exists>s. m = Done s \<and> f s = Done t) \<or> (\<exists>e s. m = Raise e s \<and> h e s = Done t)"
  by (cases m) simp_all

lemma oseq_Done: "oseq m f = Done t \<longleftrightarrow> (\<exists>s. m = Done s \<and> f s = Done t)"
  by (cases m) simp_all

lemma with_result_Done: "with_result r s f = Done t \<longleftrightarrow> (\<exists>a. r = Inr a \<and> f a = Done t)"
  by (cases r) simp_all

lemma for_each_append: "for_each f (xs @ ys) s = oseq (for_each f xs s) (for_each f ys)"
  by (induction xs arbitrary: s) (simp_all split: outcome.splits, metis obind.simps outcome.exhaust)

lemma for_each_ensures:
  assumes "I s" and "\<And>x s. x \<in> set xs \<Longrightarrow> I s \<Longrightarrow> ensures I Q (f x s)"
  shows "ensures I Q (for_each f xs s)"
  using assms
proof (induction xs arbitrary: s)
  case (Cons x xs)
  have "ensures I Q (f x s)" using Cons.prems by simp
  then show ?case
  proof (cases "f x s")
    case (Done t)
    with \<open>ensures I Q (f x s)\<close> have "I t" by simp
    with Cons Done show ?thesis by simp
  qed simp_all
qed simp

text \<open>
  A family of relations between states, graded by sets of causes: the empty set relates a state to itself
  and causes accumulate along a sequence of steps. A loop then relates its first state to its last one by
  the causes of all its rounds.
\<close>

locale graded_evolution =
  fixes R :: "'i set \<Rightarrow> 's \<Rightarrow> 's \<Rightarrow> bool"
  assumes evolves_refl: "R {} s s"
    and evolves_trans: "R I s t \<Longrightarrow> R J t u \<Longrightarrow> R (I \<union> J) s u"
begin

lemma for_each_marks:
  assumes "\<And>x t. x \<in> set xs \<Longrightarrow> P t \<Longrightarrow> ensures (\<lambda>u. R (c x) t u \<and> P u \<and> M x u) Q (f x t)"
    and "P s" and mono: "\<And>x I t u. M x t \<Longrightarrow> R I t u \<Longrightarrow> M x u"
  shows "ensures (\<lambda>u. R (\<Union>x \<in> set xs. c x) s u \<and> P u \<and> (\<forall>x \<in> set xs. M x u)) Q (for_each f xs s)"
  using assms(1,2)
proof (induction xs arbitrary: s)
  case Nil
  then show ?case using evolves_refl by simp
next
  case (Cons x xs)
  have ens: "ensures (\<lambda>t. R (c x) s t \<and> P t \<and> M x t) Q (f x s)" using Cons.prems by simp
  show ?case
  proof (cases "f x s")
    case (Done t)
    with ens have t: "R (c x) s t" "P t" "M x t" by simp_all
    have "ensures (\<lambda>u. R (\<Union>x \<in> set xs. c x) t u \<and> P u \<and> (\<forall>x \<in> set xs. M x u)) Q (for_each f xs t)"
      by (rule Cons.IH) (use Cons.prems t in auto)
    then have "ensures (\<lambda>u. R (c x \<union> (\<Union>x \<in> set xs. c x)) s u \<and> P u \<and> (\<forall>x \<in> set (x # xs). M x u)) Q (for_each f xs t)"
      by (rule ensures_mono) (use evolves_trans [OF t(1)] mono [OF t(3)] in auto)
    with Done show ?thesis by simp
  qed (use ens in simp_all)
qed

lemma for_each_evolves:
  assumes "\<And>x t. x \<in> set xs \<Longrightarrow> P t \<Longrightarrow> ensures (\<lambda>u. R (c x) t u \<and> P u) Q (f x t)" and "P s"
  shows "ensures (\<lambda>u. R (\<Union>x \<in> set xs. c x) s u \<and> P u) Q (for_each f xs s)"
  using for_each_marks [where M = "\<lambda>_ _. True" and P = P and s = s and xs = xs and c = c and f = f and Q = Q] assms by simp

end

end
