(* ===== verification/BB_TaskData.thy ===== *)
theory BB_TaskData
  imports BB_Outcome BB_Providers
begin

text \<open>
  The task database (\<^verbatim>\<open>lib/bb/taskdata.py\<close>): which files provide which build and runtime targets, the tasks
  of the chosen files with their dependencies, the resolution of open targets, and the propagation of
  failures. Log messages are left out, and with them the \<^verbatim>\<open>missing_list\<close> arguments, which only they use.

  What the methods take from outside is gathered in \<open>td_env\<close>: the configuration, the regular-expression
  engine, \<^verbatim>\<open>difflib\<close>, the iteration order of a Python set, and the recipe function
  \<^verbatim>\<open>calculate_extra_depends\<close>, which may change the dependencies of its recipe, the world target and the index
  of recipe names.
\<close>

section \<open>State\<close>

record taskentry =
  te_tdepends :: "string list"
  te_idepends :: "(string \<times> string) list"
  te_irdepends :: "(string \<times> string) list"

definition TaskEntry :: taskentry where
  "TaskEntry = \<lparr>te_tdepends = [], te_idepends = [], te_irdepends = []\<rparr>"

text \<open>\<^verbatim>\<open>cooker.SkippedPackage\<close> of a skipped recipe.\<close>

record skipped_package =
  sk_pn :: string
  sk_skipreason :: string
  sk_provides :: "string list"
  sk_rprovides :: "string list"

definition SkippedPackage :: "recipe_head \<Rightarrow> skipped_package result" where
  "SkippedPackage info =
     rbind (rfold (\<lambda>package rp. rbind (dict_lookup (ri_rprovides_pkg info) package) (\<lambda>more. Inr (rp @ more)))
              (ri_packages info) (ri_packages info @ ri_rprovides info)) (\<lambda>rprovides.
     Inr \<lparr>sk_pn = ri_pn info, sk_skipreason = ri_skipreason info, sk_provides = ri_provides info, sk_rprovides = rprovides\<rparr>)"

record taskdata =
  td_build_targets :: "(string, string list) dict"
  td_run_targets :: "(string, string list) dict"
  td_external_targets :: "string list"
  td_seenfns :: "string list"
  td_taskentries :: "(string, taskentry) dict"
  td_depids :: "(string, string list) dict"
  td_rdepids :: "(string, string list) dict"
  td_consider_msgs_cache :: "string list"
  td_failed_deps :: "string list"
  td_failed_rdeps :: "string list"
  td_failed_fns :: "string list"
  td_abort :: bool
  td_allowincomplete :: bool
  td_skiplist :: "(string, skipped_package) dict"
  td_mcdepends :: "string list"

definition TaskData :: "bool \<Rightarrow> (string, skipped_package) dict \<Rightarrow> bool \<Rightarrow> taskdata" where
  "TaskData abort skiplist allowincomplete =
     \<lparr>td_build_targets = [], td_run_targets = [], td_external_targets = [], td_seenfns = [], td_taskentries = [],
      td_depids = [], td_rdepids = [], td_consider_msgs_cache = [], td_failed_deps = [], td_failed_rdeps = [],
      td_failed_fns = [], td_abort = abort, td_allowincomplete = allowincomplete, td_skiplist = skiplist,
      td_mcdepends = []\<rparr>"

text \<open>The events the methods fire: item, runtime, dependees, reasons, close matches; item, candidates, runtime.\<close>

datatype td_event =
    NoProviderEvent string bool "string list" "string list" "string list option"
  | MultipleProvidersEvent string "string list" bool

record td_env =
  env_cfg :: cfg
  env_re :: re_matcher
  env_close :: "string \<Rightarrow> string list \<Rightarrow> string list"
  env_set :: "string list \<Rightarrow> string list"
  env_extra :: "string \<Rightarrow> string \<Rightarrow> string list \<Rightarrow> string list \<Rightarrow> (string, string list) dict \<Rightarrow>
                (string list \<times> string list \<times> (string, string list) dict) result"

record tstate =
  ts_td :: taskdata
  ts_dc :: cachedata
  ts_events :: "td_event list"

definition upd_td :: "(taskdata \<Rightarrow> taskdata) \<Rightarrow> tstate \<Rightarrow> tstate" where
  "upd_td f s = s\<lparr>ts_td := f (ts_td s)\<rparr>"

definition on_td :: "(taskdata \<Rightarrow> taskdata outcome) \<Rightarrow> tstate \<Rightarrow> tstate outcome" where
  "on_td f s = omap (\<lambda>td. s\<lparr>ts_td := td\<rparr>) (f (ts_td s))"

definition fire :: "td_event \<Rightarrow> tstate \<Rightarrow> tstate" where
  "fire ev s = s\<lparr>ts_events := ts_events s @ [ev]\<rparr>"

section \<open>Targets and their providers\<close>

fun re_match_strings :: "re_matcher \<Rightarrow> string \<Rightarrow> string list \<Rightarrow> bool result" where
  "re_match_strings re_match target [] = Inr False"
| "re_match_strings re_match target (name # names) =
     (if startswith name ''^'' \<or> endswith name ''$''
      then rbind (re_match name target) (\<lambda>m. if m then Inr True else re_match_strings re_match target names)
      else if name = target then Inr True
      else re_match_strings re_match target names)"

definition have_build_target :: "string \<Rightarrow> taskdata \<Rightarrow> bool" where
  "have_build_target target td = (dd_get (td_build_targets td) target \<noteq> [])"

definition have_runtime_target :: "string \<Rightarrow> taskdata \<Rightarrow> bool" where
  "have_runtime_target target td = (dd_get (td_run_targets td) target \<noteq> [])"

definition seen_target :: "string \<Rightarrow> (string, string list) dict \<Rightarrow> (string, string list) dict" where
  "seen_target name d = (if has_key d name then d else dict_set name [] d)"

definition add_target :: "string \<Rightarrow> string \<Rightarrow> (string, string list) dict \<Rightarrow> (string, string list) dict" where
  "add_target fn item d =
     (if has_key d item then (if fn \<in> set (dd_get d item) then d else dd_append item fn d)
      else dict_set item [fn] d)"

definition seen_build_target :: "string \<Rightarrow> taskdata \<Rightarrow> taskdata" where
  "seen_build_target name td = td\<lparr>td_build_targets := seen_target name (td_build_targets td)\<rparr>"

definition add_build_target :: "string \<Rightarrow> string \<Rightarrow> taskdata \<Rightarrow> taskdata" where
  "add_build_target fn item td = td\<lparr>td_build_targets := add_target fn item (td_build_targets td)\<rparr>"

definition seen_run_target :: "string \<Rightarrow> taskdata \<Rightarrow> taskdata" where
  "seen_run_target name td = td\<lparr>td_run_targets := seen_target name (td_run_targets td)\<rparr>"

definition add_runtime_target :: "string \<Rightarrow> string \<Rightarrow> taskdata \<Rightarrow> taskdata" where
  "add_runtime_target fn item td = td\<lparr>td_run_targets := add_target fn item (td_run_targets td)\<rparr>"

definition mark_external_target :: "string \<Rightarrow> taskdata \<Rightarrow> taskdata" where
  "mark_external_target target td = td\<lparr>td_external_targets := add_new target (td_external_targets td)\<rparr>"

text \<open>The loop that \<^verbatim>\<open>get_unresolved_build_targets\<close> and \<^verbatim>\<open>get_unresolved_run_targets\<close> share.\<close>

definition unresolved_targets ::
    "re_matcher \<Rightarrow> cachedata \<Rightarrow> (string, string list) dict \<Rightarrow> string list \<Rightarrow> string list result" where
  "unresolved_targets re_match dc targets failed =
     rfold (\<lambda>target unresolved.
              rbind (re_match_strings re_match target (dc_ignored_dependencies dc)) (\<lambda>ignored.
              Inr (if ignored \<or> target \<in> set failed \<or> dd_get targets target \<noteq> [] then unresolved
                   else unresolved @ [target])))
       (dict_keys targets) []"

definition get_unresolved_build_targets :: "re_matcher \<Rightarrow> cachedata \<Rightarrow> taskdata \<Rightarrow> string list result" where
  "get_unresolved_build_targets re_match dc td =
     unresolved_targets re_match dc (td_build_targets td) (td_failed_deps td)"

definition get_unresolved_run_targets :: "re_matcher \<Rightarrow> cachedata \<Rightarrow> taskdata \<Rightarrow> string list result" where
  "get_unresolved_run_targets re_match dc td =
     unresolved_targets re_match dc (td_run_targets td) (td_failed_rdeps td)"

definition get_provider :: "string \<Rightarrow> taskdata \<Rightarrow> string list result" where
  "get_provider item td = dict_lookup (td_build_targets td) item"

definition get_dependees :: "string \<Rightarrow> taskdata \<Rightarrow> string list" where
  "get_dependees item td = filter (\<lambda>fn. item \<in> set (dd_get (td_depids td) fn)) (dict_keys (td_depids td))"

definition get_rdependees :: "string \<Rightarrow> taskdata \<Rightarrow> string list" where
  "get_rdependees item td = filter (\<lambda>fn. item \<in> set (dd_get (td_rdepids td) fn)) (dict_keys (td_rdepids td))"

definition get_reasons :: "string \<Rightarrow> bool \<Rightarrow> taskdata \<Rightarrow> string list" where
  "get_reasons item runtime td =
     concat (map (\<lambda>(fn, sk).
        if sk_pn sk = item then [sk_pn sk @ '' was skipped: '' @ sk_skipreason sk]
        else if runtime \<and> item \<in> set (sk_rprovides sk)
        then [sk_pn sk @ '' RPROVIDES '' @ item @ '' but was skipped: '' @ sk_skipreason sk]
        else if \<not> runtime \<and> item \<in> set (sk_provides sk)
        then [sk_pn sk @ '' PROVIDES '' @ item @ '' but was skipped: '' @ sk_skipreason sk]
        else []) (td_skiplist td))"

definition get_close_matches :: "td_env \<Rightarrow> string \<Rightarrow> string list \<Rightarrow> taskdata \<Rightarrow> string list" where
  "get_close_matches env item provider_list td =
     env_close env item (provider_list @ map (\<lambda>(fn, sk). sk_pn sk) (td_skiplist td))"

section \<open>Propagation of failures\<close>

text \<open>
  \<^verbatim>\<open>fail_fn\<close>, \<^verbatim>\<open>remove_buildtarget\<close> and \<^verbatim>\<open>remove_runtarget\<close> call each other. The two removals take the failing
  function as an argument; \<open>fail_fn_n\<close> closes the recursion with a bound on its depth. Each nested call fails a
  further file, so one more than the number of known files is enough.
\<close>

definition tid_fn :: "string \<Rightarrow> string" where
  "tid_fn tid = hd (rsplit1 (CHR '':'') tid)"

definition fail_requirers ::
    "(string \<Rightarrow> taskdata \<Rightarrow> taskdata outcome) \<Rightarrow> (taskentry \<Rightarrow> (string \<times> string) list) \<Rightarrow> string \<Rightarrow> taskdata \<Rightarrow> taskdata outcome" where
  "fail_requirers fail deps target td =
     for_each (\<lambda>(tid, entry). for_each (\<lambda>(dep, task). if dep = target then fail (tid_fn tid) else Done) (deps entry))
       (td_taskentries td) td"

definition remove_buildtarget_with ::
    "(string \<Rightarrow> taskdata \<Rightarrow> taskdata outcome) \<Rightarrow> string \<Rightarrow> taskdata \<Rightarrow> taskdata outcome" where
  "remove_buildtarget_with fail target td =
     (let td1 = td\<lparr>td_failed_deps := td_failed_deps td @ [target]\<rparr>
      in oseq (for_each fail (get_dependees target td1) td1) (\<lambda>td2.
         oseq (fail_requirers fail te_idepends target td2) (\<lambda>td3.
         if td_abort td3 \<and> target \<in> set (td_external_targets td3) then Raise (NoProvider target) td3
         else Done td3)))"

definition remove_runtarget_with ::
    "(string \<Rightarrow> taskdata \<Rightarrow> taskdata outcome) \<Rightarrow> string \<Rightarrow> taskdata \<Rightarrow> taskdata outcome" where
  "remove_runtarget_with fail target td =
     (let td1 = td\<lparr>td_failed_rdeps := td_failed_rdeps td @ [target]\<rparr>
      in oseq (for_each fail (get_rdependees target td1) td1) (fail_requirers fail te_irdepends target))"

text \<open>The bodies of the two loops of \<^verbatim>\<open>fail_fn\<close> over the targets.\<close>

definition drop_build_provider ::
    "(string \<Rightarrow> taskdata \<Rightarrow> taskdata outcome) \<Rightarrow> string \<Rightarrow> string \<Rightarrow> taskdata \<Rightarrow> taskdata outcome" where
  "drop_build_provider fail fn target td =
     (let providers = dd_get (td_build_targets td) target
      in if fn \<in> set providers
         then let rest = remove1 fn providers;
                  td' = td\<lparr>td_build_targets := dict_set target rest (td_build_targets td)\<rparr>
              in if rest = [] then remove_buildtarget_with fail target td' else Done td'
         else Done td)"

definition drop_run_provider ::
    "(string \<Rightarrow> taskdata \<Rightarrow> taskdata outcome) \<Rightarrow> string \<Rightarrow> string \<Rightarrow> taskdata \<Rightarrow> taskdata outcome" where
  "drop_run_provider fail fn target td =
     (let providers = dd_get (td_run_targets td) target
      in if fn \<in> set providers
         then let rest = remove1 fn providers;
                  td' = td\<lparr>td_run_targets := dict_set target rest (td_run_targets td)\<rparr>
              in if rest = [] then remove_runtarget_with fail target td' else Done td'
         else Done td)"

fun fail_fn_n :: "nat \<Rightarrow> string \<Rightarrow> taskdata \<Rightarrow> taskdata outcome" where
  "fail_fn_n 0 fn td = Stuck"
| "fail_fn_n (Suc n) fn td =
     (if fn \<in> set (td_failed_fns td) then Done td
      else let td1 = td\<lparr>td_failed_fns := td_failed_fns td @ [fn]\<rparr>
           in oseq (for_each (drop_build_provider (fail_fn_n n) fn) (dict_keys (td_build_targets td1)) td1) (\<lambda>td2.
              for_each (drop_run_provider (fail_fn_n n) fn) (dict_keys (td_run_targets td2)) td2))"

definition fail_bound :: "taskdata \<Rightarrow> nat" where
  "fail_bound td = Suc (Suc (length (td_depids td) + length (td_rdepids td) + length (td_taskentries td)))"

definition fail_fn :: "string \<Rightarrow> taskdata \<Rightarrow> taskdata outcome" where
  "fail_fn fn td = fail_fn_n (fail_bound td) fn td"

definition remove_buildtarget :: "string \<Rightarrow> taskdata \<Rightarrow> taskdata outcome" where
  "remove_buildtarget target td = remove_buildtarget_with (fail_fn_n (fail_bound td)) target td"

definition remove_runtarget :: "string \<Rightarrow> taskdata \<Rightarrow> taskdata outcome" where
  "remove_runtarget target td = remove_runtarget_with (fail_fn_n (fail_bound td)) target td"

section \<open>Adding the tasks of a file\<close>

definition add_extra_deps :: "td_env \<Rightarrow> string \<Rightarrow> tstate \<Rightarrow> tstate outcome" where
  "add_extra_deps env fn s =
     (case map_of (dc_extradepsfunc (ts_dc s)) fn of
        None \<Rightarrow> Done s
      | Some func \<Rightarrow>
          if func = [] then Done s
          else with_result (buildWorldTargetList None (ts_dc s)) s (\<lambda>dc.
               with_result (dict_lookup (dc_pkg_fn dc) fn) (s\<lparr>ts_dc := dc\<rparr>) (\<lambda>pn.
               with_result (env_extra env func pn (dd_get (dc_deps dc) fn) (dc_world_target dc) (dc_pkg_pn dc)) (s\<lparr>ts_dc := dc\<rparr>)
                 (\<lambda>(deps, world, pkg_pn).
                    Done (s\<lparr>ts_dc := dc\<lparr>dc_deps := dict_set fn deps (dc_deps dc), dc_world_target := world,
                                          dc_pkg_pn := pkg_pn\<rparr>\<rparr>)))))"

definition add_mcdepends :: "string \<Rightarrow> taskdata \<Rightarrow> taskdata outcome" where
  "add_mcdepends deps td =
     for_each (\<lambda>dep td. if length (split_on (CHR '':'') dep) \<noteq> 5 then Raise (FatalExit dep) td
                        else Done (td\<lparr>td_mcdepends := add_new dep (td_mcdepends td)\<rparr>))
       (split_ws deps) td"

text \<open>
  The inner loop of \<^verbatim>\<open>handle_deps\<close>: every word must have the form \<^verbatim>\<open>name:task\<close>; the names are noted as
  targets and the pairs collected.
\<close>

fun collect_deps ::
    "(string \<Rightarrow> taskdata \<Rightarrow> taskdata) \<Rightarrow> string list \<Rightarrow> (string \<times> string) list \<times> taskdata \<Rightarrow> ((string \<times> string) list \<times> taskdata) outcome" where
  "collect_deps seen [] (ids, td) = Done (ids, td)"
| "collect_deps seen (dep # deps) (ids, td) =
     (let parts = split_on (CHR '':'') dep
      in if length parts \<noteq> 2 then Raise (FatalExit dep) (ids, td)
         else collect_deps seen deps (ids @ [(parts ! 0, parts ! 1)], seen (parts ! 0) td))"

definition handle_deps ::
    "taskdeps \<Rightarrow> string \<Rightarrow> string \<Rightarrow> (string \<Rightarrow> taskdata \<Rightarrow> taskdata) \<Rightarrow>
     ((string \<times> string) list \<Rightarrow> taskdata \<Rightarrow> taskdata) \<Rightarrow> taskdata \<Rightarrow> taskdata outcome" where
  "handle_deps task_deps flag task seen ext td =
     (case map_of (tk_flags task_deps) flag of
        None \<Rightarrow> Done td
      | Some flags \<Rightarrow>
          (case map_of flags task of
             None \<Rightarrow> Done td
           | Some deps \<Rightarrow> obind (collect_deps seen (split_ws deps) ([], td))
                            (\<lambda>(ids, td'). Done (ext ids td')) (\<lambda>e (ids, td'). Raise e td')))"

definition upd_entry :: "string \<Rightarrow> (taskentry \<Rightarrow> taskentry) \<Rightarrow> taskdata \<Rightarrow> taskdata" where
  "upd_entry tid f td =
     (case map_of (td_taskentries td) tid of
        None \<Rightarrow> td
      | Some e \<Rightarrow> td\<lparr>td_taskentries := dict_set tid (f e) (td_taskentries td)\<rparr>)"

definition task_tid :: "string \<Rightarrow> string \<Rightarrow> string" where
  "task_tid fn task = fn @ '':'' @ task"

definition add_task :: "string \<Rightarrow> taskdeps \<Rightarrow> string \<Rightarrow> taskdata \<Rightarrow> taskdata outcome" where
  "add_task fn task_deps task td =
     (let tid = task_tid fn task;
          td1 = td\<lparr>td_taskentries := dict_set tid TaskEntry (td_taskentries td)\<rparr>
      in with_result (dict_lookup (tk_parents task_deps) task) td1 (\<lambda>parents.
         let parentids = map (task_tid fn) (filter (\<lambda>dep. dep \<in> set (tk_tasks task_deps)) parents);
             td2 = upd_entry tid (\<lambda>e. e\<lparr>te_tdepends := te_tdepends e @ parentids\<rparr>) td1
         in oseq (handle_deps task_deps ''depends'' task seen_build_target
                    (\<lambda>ids. upd_entry tid (\<lambda>e. e\<lparr>te_idepends := te_idepends e @ ids\<rparr>)) td2) (\<lambda>td3.
            oseq (handle_deps task_deps ''rdepends'' task seen_run_target
                    (\<lambda>ids. upd_entry tid (\<lambda>e. e\<lparr>te_irdepends := te_irdepends e @ ids\<rparr>)) td3) (\<lambda>td4.
            case map_of (tk_flags task_deps) ''mcdepends'' of
              None \<Rightarrow> Done td4
            | Some flags \<Rightarrow> (case map_of flags task of None \<Rightarrow> Done td4 | Some deps \<Rightarrow> add_mcdepends deps td4)))))"

text \<open>The dependencies of the file itself, from \<^verbatim>\<open>DEPENDS\<close>, \<^verbatim>\<open>RDEPENDS\<close> and \<^verbatim>\<open>RRECOMMENDS\<close>.\<close>

definition record_depids :: "td_env \<Rightarrow> string \<Rightarrow> cachedata \<Rightarrow> taskdata \<Rightarrow> taskdata" where
  "record_depids env fn dc td =
     (if has_key (td_depids td) fn then td
      else td\<lparr>td_depids := dict_set fn (env_set env (dd_get (dc_deps dc) fn)) (td_depids td)\<rparr>)"

definition runtime_names :: "string \<Rightarrow> cachedata \<Rightarrow> string list" where
  "runtime_names fn dc = concat (map snd (dd_get (dc_rundeps dc) fn)) @ concat (map snd (dd_get (dc_runrecs dc) fn))"

definition record_rdepids :: "td_env \<Rightarrow> string \<Rightarrow> cachedata \<Rightarrow> taskdata \<Rightarrow> taskdata" where
  "record_rdepids env fn dc td =
     (if has_key (td_rdepids td) fn then td
      else td\<lparr>td_rdepids := dict_set fn (env_set env (runtime_names fn dc)) (td_rdepids td)\<rparr>)"

fun check_rdepids :: "string \<Rightarrow> string list \<Rightarrow> taskdata \<Rightarrow> taskdata outcome" where
  "check_rdepids fn [] td = Done td"
| "check_rdepids fn (dep # deps) td =
     (let td1 = seen_run_target dep td
      in if dep \<in> set (td_failed_rdeps td1) then fail_fn fn td1 else check_rdepids fn deps td1)"

fun check_depids :: "string \<Rightarrow> string list \<Rightarrow> taskdata \<Rightarrow> taskdata outcome" where
  "check_depids fn [] td = check_rdepids fn (dd_get (td_rdepids td) fn) td"
| "check_depids fn (dep # deps) td =
     (let td1 = seen_build_target dep td
      in if dep \<in> set (td_failed_deps td1) then fail_fn fn td1 else check_depids fn deps td1)"

definition add_tasks :: "td_env \<Rightarrow> string \<Rightarrow> tstate \<Rightarrow> tstate outcome" where
  "add_tasks env fn s =
     with_result (dict_lookup (dc_task_deps (ts_dc s)) fn) s (\<lambda>task_deps.
     if fn \<in> set (td_failed_fns (ts_td s)) then Raise (FatalExit fn) s
     else if fn \<in> set (td_seenfns (ts_td s)) then Done s
     else oseq (add_extra_deps env fn (upd_td (\<lambda>td. td\<lparr>td_seenfns := td_seenfns td @ [fn]\<rparr>) s)) (\<lambda>s1.
          oseq (on_td (for_each (add_task fn task_deps) (tk_tasks task_deps)) s1) (\<lambda>s2.
          on_td (\<lambda>td. let td' = record_rdepids env fn (ts_dc s2) (record_depids env fn (ts_dc s2) td)
                      in check_depids fn (dd_get (td_depids td') fn) td') s2)))"

section \<open>Choosing providers\<close>

text \<open>The names of the recipes of the eligible files, for the event about several candidates.\<close>

definition note_candidates :: "string \<Rightarrow> bool \<Rightarrow> string list \<Rightarrow> tstate \<Rightarrow> tstate outcome" where
  "note_candidates item runtime eligible s =
     oseq (if item \<in> set (td_consider_msgs_cache (ts_td s)) then Done s
           else with_result (rfold (\<lambda>fn l. rbind (dict_lookup (dc_pkg_fn (ts_dc s)) fn) (\<lambda>pn. Inr (l @ [pn]))) eligible []) s
                  (\<lambda>providers_list. Done (fire (MultipleProvidersEvent item providers_list runtime) s)))
       (\<lambda>s1. Done (upd_td (\<lambda>td. td\<lparr>td_consider_msgs_cache := td_consider_msgs_cache td @ [item]\<rparr>) s1))"

definition add_eligible ::
    "td_env \<Rightarrow> (string \<Rightarrow> string \<Rightarrow> taskdata \<Rightarrow> taskdata) \<Rightarrow> string \<Rightarrow> string list \<Rightarrow> tstate \<Rightarrow> tstate outcome" where
  "add_eligible env add item =
     for_each (\<lambda>fn s. if fn \<in> set (td_failed_fns (ts_td s)) then Done s
                       else add_tasks env fn (upd_td (add fn item) s))"

text \<open>\<^verbatim>\<open>add_provider_internal\<close> when nothing is known to provide the item.\<close>

definition no_provider :: "td_env \<Rightarrow> string \<Rightarrow> tstate \<Rightarrow> tstate outcome" where
  "no_provider env item s =
     with_result (getRuntimeProviders (env_re env) (ts_dc s) item) s (\<lambda>all_p.
     with_result (rfold (\<lambda>fn close. rbind (dict_lookup (dc_pkg_fn (ts_dc s)) fn) (\<lambda>pn.
                            Inr (add_new (pn @ '' RPROVIDES '' @ item) close)))
                    all_p (get_close_matches env item (dict_keys (dc_providers (ts_dc s))) (ts_td s))) s (\<lambda>close.
     Raise (NoProvider item)
       (fire (NoProviderEvent item False (get_dependees item (ts_td s)) (get_reasons item False (ts_td s)) (Some close)) s)))"

definition no_eligible :: "string \<Rightarrow> string" where
  "no_eligible item = ''No eligible PROVIDERs exist for '' @ [CHR 0x27] @ item @ [CHR 0x27]"

definition no_eligible_r :: "string \<Rightarrow> string" where
  "no_eligible_r item = ''No eligible RPROVIDERs exist for '' @ [CHR 0x27] @ item @ [CHR 0x27]"

text \<open>The second half of \<^verbatim>\<open>add_provider_internal\<close>, on the result of \<^verbatim>\<open>filterProviders\<close>, which has sorted the
  list of the cache in place.\<close>

definition use_providers ::
    "td_env \<Rightarrow> string \<Rightarrow> tstate \<Rightarrow> string list option \<times> bool \<times> string list \<times> cachedata \<Rightarrow> tstate outcome" where
  "use_providers env item s r =
     (case r of (elig, foundUnique, providers, dc) \<Rightarrow>
        let s1 = s\<lparr>ts_dc := dc\<lparr>dc_providers := dict_set item providers (dc_providers dc)\<rparr>\<rparr>
        in case elig of
             None \<Rightarrow> Raise TypeError s1
           | Some elig0 \<Rightarrow>
               (let eligible = filter (\<lambda>p. p \<notin> set (td_failed_fns (ts_td s1))) elig0
                in if eligible = [] then
                     Raise (NoProvider item)
                       (fire (NoProviderEvent item False (get_dependees item (ts_td s1)) [no_eligible item] None) s1)
                   else oseq (if length eligible > 1 \<and> \<not> foundUnique then note_candidates item False eligible s1
                              else Done s1)
                          (add_eligible env add_build_target item eligible)))"

definition add_provider_internal :: "td_env \<Rightarrow> string \<Rightarrow> tstate \<Rightarrow> tstate outcome" where
  "add_provider_internal env item s =
     with_result (re_match_strings (env_re env) item (dc_ignored_dependencies (ts_dc s))) s (\<lambda>ignored.
     if ignored then Done s
     else if \<not> has_key (dc_providers (ts_dc s)) item then no_provider env item s
     else if have_build_target item (ts_td s) then Done s
     else with_result (filterProviders (dd_get (dc_providers (ts_dc s)) item) item (env_cfg env) (ts_dc s)) s
            (use_providers env item s))"

definition add_provider :: "td_env \<Rightarrow> string \<Rightarrow> tstate \<Rightarrow> tstate outcome" where
  "add_provider env item s =
     oseq (obind (add_provider_internal env item s) Done
             (\<lambda>e s1. case e of
                        NoProvider _ \<Rightarrow> if td_abort (ts_td s1) then Raise e s1 else on_td (remove_buildtarget item) s1
                      | _ \<Rightarrow> Raise e s1))
       (\<lambda>s2. Done (upd_td (mark_external_target item) s2))"

definition use_rproviders :: "td_env \<Rightarrow> string \<Rightarrow> tstate \<Rightarrow> string list \<times> nat \<Rightarrow> tstate outcome" where
  "use_rproviders env item s r =
     (case r of (elig0, numberPreferred) \<Rightarrow>
        let eligible = filter (\<lambda>p. p \<notin> set (td_failed_fns (ts_td s))) elig0
        in if eligible = [] then
             Raise (NoRProvider item)
               (fire (NoProviderEvent item True (get_rdependees item (ts_td s)) [no_eligible_r item] None) s)
           else oseq (if length eligible > 1 \<and> numberPreferred = 0 then note_candidates item True eligible s
                      else Done s) (\<lambda>s1.
                if numberPreferred > 1
                then oseq (note_candidates item True eligible s1) (\<lambda>s2. Raise (MultipleRProvider item) s2)
                else add_eligible env add_runtime_target item eligible s1))"

definition add_rprovider :: "td_env \<Rightarrow> string \<Rightarrow> tstate \<Rightarrow> tstate outcome" where
  "add_rprovider env item s =
     with_result (re_match_strings (env_re env) item (dc_ignored_dependencies (ts_dc s))) s (\<lambda>ignored.
     if ignored \<or> have_runtime_target item (ts_td s) then Done s
     else with_result (getRuntimeProviders (env_re env) (ts_dc s) item) s (\<lambda>all_p.
          if all_p = [] then
            Raise (NoRProvider item)
              (fire (NoProviderEvent item True (get_rdependees item (ts_td s)) (get_reasons item True (ts_td s)) None) s)
          else with_result (filterProvidersRunTime all_p item (env_cfg env) (ts_dc s)) s (use_rproviders env item s)))"

section \<open>Resolving open targets\<close>

text \<open>The bodies of the two loops of \<^verbatim>\<open>add_unresolved\<close>; the number counts the successful calls.\<close>

definition resolve_build :: "td_env \<Rightarrow> string \<Rightarrow> nat \<times> tstate \<Rightarrow> (nat \<times> tstate) outcome" where
  "resolve_build env target p =
     (case p of (added, s) \<Rightarrow>
        obind (add_provider_internal env target s) (\<lambda>s1. Done (Suc added, s1))
          (\<lambda>e s1. case e of
             NoProvider _ \<Rightarrow>
               if td_abort (ts_td s1) \<and> target \<in> set (td_external_targets (ts_td s1)) \<and> \<not> td_allowincomplete (ts_td s1)
               then Raise e (added, s1)
               else if td_allowincomplete (ts_td s1) then Done (added, s1)
               else omap (Pair added) (on_td (remove_buildtarget target) s1)
           | _ \<Rightarrow> Raise e (added, s1)))"

definition resolve_run :: "td_env \<Rightarrow> string \<Rightarrow> nat \<times> tstate \<Rightarrow> (nat \<times> tstate) outcome" where
  "resolve_run env target p =
     (case p of (added, s) \<Rightarrow>
        obind (add_rprovider env target s) (\<lambda>s1. Done (Suc added, s1))
          (\<lambda>e s1. case e of
             NoRProvider _ \<Rightarrow> omap (Pair added) (on_td (remove_runtarget target) s1)
           | MultipleRProvider _ \<Rightarrow> omap (Pair added) (on_td (remove_runtarget target) s1)
           | _ \<Rightarrow> Raise e (added, s1)))"

definition resolve_pass :: "td_env \<Rightarrow> tstate \<Rightarrow> (nat \<times> tstate) outcome" where
  "resolve_pass env s =
     with_result (get_unresolved_build_targets (env_re env) (ts_dc s) (ts_td s)) (0, s) (\<lambda>build.
     oseq (for_each (resolve_build env) build (0, s)) (\<lambda>(added, s1).
     with_result (get_unresolved_run_targets (env_re env) (ts_dc s1) (ts_td s1)) (added, s1) (\<lambda>run.
     for_each (resolve_run env) run (added, s1))))"

text \<open>The bound of \<open>add_unresolved\<close> counts its passes.\<close>

fun add_unresolved :: "nat \<Rightarrow> td_env \<Rightarrow> tstate \<Rightarrow> tstate outcome" where
  "add_unresolved 0 env s = Stuck"
| "add_unresolved (Suc n) env s =
     obind (resolve_pass env s) (\<lambda>(added, s1). if added = 0 then Done s1 else add_unresolved n env s1)
       (\<lambda>e p. Raise e (snd p))"

definition get_providermap :: "string \<Rightarrow> taskdata \<Rightarrow> (string, string) dict" where
  "get_providermap pfx td =
     fold (\<lambda>name provmap.
             if pfx \<noteq> [] \<and> \<not> startswith name pfx then provmap
             else case dd_get (td_build_targets td) name of
                    [] \<Rightarrow> provmap
                  | provider # _ \<Rightarrow> dict_set name provider provmap)
       (dict_keys (td_build_targets td)) []"

definition get_mcdepends :: "taskdata \<Rightarrow> string list" where
  "get_mcdepends td = td_mcdepends td"

end
