(* ===== verification/BB_Failure.thy ===== *)
theory BB_Failure
  imports BB_TaskData
begin

text \<open>
  Failure propagation of \<^verbatim>\<open>lib/bb/taskdata.py\<close>: \<^verbatim>\<open>fail_fn\<close>, \<^verbatim>\<open>remove_buildtarget\<close> and \<^verbatim>\<open>remove_runtarget\<close>
  terminate and compute a closure. The relation \<open>evolve\<close> says how the database changes, relative to a set of
  causes; it is a \<open>graded_evolution\<close>, so that loops and nested calls compose.
\<close>

section \<open>Evolution of the database\<close>

definition requires_build :: "taskdata \<Rightarrow> string \<Rightarrow> string \<Rightarrow> bool" where
  "requires_build td f t \<longleftrightarrow> f \<in> set (get_dependees t td) \<or>
     (\<exists>te \<in> set (td_taskentries td). tid_fn (fst te) = f \<and> t \<in> fst ` set (te_idepends (snd te)))"

definition requires_run :: "taskdata \<Rightarrow> string \<Rightarrow> string \<Rightarrow> bool" where
  "requires_run td f t \<longleftrightarrow> f \<in> set (get_rdependees t td) \<or>
     (\<exists>te \<in> set (td_taskentries td). tid_fn (fst te) = f \<and> t \<in> fst ` set (te_irdepends (snd te)))"

abbreviation bprov :: "taskdata \<Rightarrow> string \<Rightarrow> string list" where
  "bprov td \<equiv> dd_get (td_build_targets td)"

abbreviation rprov :: "taskdata \<Rightarrow> string \<Rightarrow> string list" where
  "rprov td \<equiv> dd_get (td_run_targets td)"

text \<open>The part of the database that failure propagation leaves alone.\<close>

definition static ::
    "taskdata \<Rightarrow> (string list \<times> string list \<times> (string, taskentry) dict \<times> (string, string list) dict \<times> (string, string list) dict) \<times>
       string list \<times> bool \<times> bool \<times> (string, skipped_package) dict \<times> string list \<times> string list \<times> string list" where
  "static td = ((td_external_targets td, td_seenfns td, td_taskentries td, td_depids td, td_rdepids td),
     td_consider_msgs_cache td, td_abort td, td_allowincomplete td, td_skiplist td, td_mcdepends td,
     dict_keys (td_build_targets td), dict_keys (td_run_targets td))"

definition emptied :: "(string \<Rightarrow> string list) \<Rightarrow> (string \<Rightarrow> string list) \<Rightarrow> string set" where
  "emptied p p' = {t. p t \<noteq> [] \<and> p' t = []}"

definition shrinks :: "(string \<Rightarrow> string list) \<Rightarrow> (string \<Rightarrow> string list) \<Rightarrow> bool" where
  "shrinks p p' \<longleftrightarrow> (\<forall>t. p' t = filter (\<lambda>f. f \<in> set (p' t)) (p t))"

datatype cause = Root string | BT string | RT string

definition gone_b :: "cause set \<Rightarrow> taskdata \<Rightarrow> taskdata \<Rightarrow> string set" where
  "gone_b I td td' = {t. BT t \<in> I} \<union> emptied (bprov td) (bprov td')"

definition gone_r :: "cause set \<Rightarrow> taskdata \<Rightarrow> taskdata \<Rightarrow> string set" where
  "gone_r I td td' = {t. RT t \<in> I} \<union> emptied (rprov td) (rprov td')"

definition newly_failed :: "taskdata \<Rightarrow> taskdata \<Rightarrow> string set" where
  "newly_failed td td' = set (td_failed_fns td') - set (td_failed_fns td)"

definition caused :: "cause set \<Rightarrow> taskdata \<Rightarrow> taskdata \<Rightarrow> string \<Rightarrow> bool" where
  "caused I td td' f \<longleftrightarrow> Root f \<in> I \<or> (\<exists>t \<in> gone_b I td td'. requires_build td f t) \<or>
     (\<exists>t \<in> gone_r I td td'. requires_run td f t)"

text \<open>A set of files that, with those failed before, contains what the causes and the resulting removals fail.\<close>

definition closed_under :: "cause set \<Rightarrow> taskdata \<Rightarrow> string set \<Rightarrow> bool" where
  "closed_under I td D \<longleftrightarrow> (\<forall>f. Root f \<in> I \<longrightarrow> f \<in> D \<union> set (td_failed_fns td)) \<and>
     (\<forall>f t. requires_build td f t \<and> (BT t \<in> I \<or> bprov td t \<noteq> [] \<and> set (bprov td t) \<subseteq> D \<union> set (td_failed_fns td)) \<longrightarrow>
        f \<in> D \<union> set (td_failed_fns td)) \<and>
     (\<forall>f t. requires_run td f t \<and> (RT t \<in> I \<or> rprov td t \<noteq> [] \<and> set (rprov td t) \<subseteq> D \<union> set (td_failed_fns td)) \<longrightarrow>
        f \<in> D \<union> set (td_failed_fns td))"

definition evolve :: "cause set \<Rightarrow> taskdata \<Rightarrow> taskdata \<Rightarrow> bool" where
  "evolve I td td' \<longleftrightarrow> static td' = static td \<and>
     shrinks (bprov td) (bprov td') \<and> shrinks (rprov td) (rprov td') \<and>
     set (td_failed_fns td) \<subseteq> set (td_failed_fns td') \<and>
     set (td_failed_deps td') = set (td_failed_deps td) \<union> gone_b I td td' \<and>
     set (td_failed_rdeps td') = set (td_failed_rdeps td) \<union> gone_r I td td' \<and>
     (\<forall>f. caused I td td' f \<longrightarrow> f \<in> set (td_failed_fns td')) \<and>
     (\<forall>D. closed_under I td D \<longrightarrow> newly_failed td td' \<subseteq> D) \<and>
     (\<forall>f \<in> newly_failed td td'. \<forall>t. f \<notin> set (bprov td' t) \<and> f \<notin> set (rprov td' t)) \<and>
     (\<forall>t. set (bprov td t) \<subseteq> set (bprov td' t) \<union> set (td_failed_fns td')) \<and>
     (\<forall>t. set (rprov td t) \<subseteq> set (rprov td' t) \<union> set (td_failed_fns td'))"

lemma shrinks_refl: "shrinks p p"
  by (simp add: shrinks_def)

lemma shrinks_sub: "shrinks p p' \<Longrightarrow> set (p' t) \<subseteq> set (p t)"
  unfolding shrinks_def by (metis filter_is_subset)

lemma shrinks_Nil: "shrinks p p' \<Longrightarrow> p t = [] \<Longrightarrow> p' t = []"
  using shrinks_sub [of p p' t] by simp

lemma shrinks_trans:
  assumes "shrinks p q" "shrinks q r"
  shows "shrinks p r"
  unfolding shrinks_def
proof
  fix t
  have "r t = filter (\<lambda>f. f \<in> set (r t)) (q t)" using assms(2) by (simp add: shrinks_def)
  also have "\<dots> = filter (\<lambda>f. f \<in> set (r t)) (filter (\<lambda>f. f \<in> set (q t)) (p t))"
    using assms(1) by (metis shrinks_def)
  also have "\<dots> = filter (\<lambda>f. f \<in> set (r t)) (p t)"
    using shrinks_sub [OF assms(2), of t] by (auto intro: filter_cong)
  finally show "r t = filter (\<lambda>f. f \<in> set (r t)) (p t)" .
qed

lemma shrinks_distinct: "shrinks p q \<Longrightarrow> distinct (p t) \<Longrightarrow> distinct (q t)"
  unfolding shrinks_def by (metis distinct_filter)

lemma emptied_trans: "shrinks p q \<Longrightarrow> shrinks q r \<Longrightarrow> emptied p r = emptied p q \<union> emptied q r"
proof -
  assume "shrinks p q" "shrinks q r"
  then have "q t = [] \<Longrightarrow> r t = []" "p t = [] \<Longrightarrow> q t = []" for t by (metis shrinks_Nil)+
  then show ?thesis by (auto simp: emptied_def)
qed

lemma emptied_same [simp]: "emptied p p = {}"
  by (auto simp: emptied_def)

lemma static_requires:
  assumes "static td' = static td"
  shows "requires_build td' = requires_build td" "requires_run td' = requires_run td"
  using assms by (simp_all add: fun_eq_iff requires_build_def requires_run_def get_dependees_def get_rdependees_def static_def)

lemma evolveD:
  assumes "evolve I td td'"
  shows "static td' = static td" "shrinks (bprov td) (bprov td')" "shrinks (rprov td) (rprov td')"
    "set (td_failed_fns td) \<subseteq> set (td_failed_fns td')"
    "set (td_failed_deps td') = set (td_failed_deps td) \<union> gone_b I td td'"
    "set (td_failed_rdeps td') = set (td_failed_rdeps td) \<union> gone_r I td td'"
    "caused I td td' f \<Longrightarrow> f \<in> set (td_failed_fns td')"
    "closed_under I td D \<Longrightarrow> newly_failed td td' \<subseteq> D"
    "g \<in> newly_failed td td' \<Longrightarrow> g \<notin> set (bprov td' x)" "g \<in> newly_failed td td' \<Longrightarrow> g \<notin> set (rprov td' x)"
    "set (bprov td t) \<subseteq> set (bprov td' t) \<union> set (td_failed_fns td')"
    "set (rprov td t) \<subseteq> set (rprov td' t) \<union> set (td_failed_fns td')"
  using assms unfolding evolve_def by simp_all

lemma evolveI:
  assumes "static td' = static td" "shrinks (bprov td) (bprov td')" "shrinks (rprov td) (rprov td')"
    and "set (td_failed_fns td) \<subseteq> set (td_failed_fns td')"
    and "set (td_failed_deps td') = set (td_failed_deps td) \<union> gone_b I td td'"
    and "set (td_failed_rdeps td') = set (td_failed_rdeps td) \<union> gone_r I td td'"
    and "\<And>f. caused I td td' f \<Longrightarrow> f \<in> set (td_failed_fns td')"
    and "\<And>D. closed_under I td D \<Longrightarrow> newly_failed td td' \<subseteq> D"
    and "\<And>g x. g \<in> newly_failed td td' \<Longrightarrow> g \<notin> set (bprov td' x)"
    and "\<And>g x. g \<in> newly_failed td td' \<Longrightarrow> g \<notin> set (rprov td' x)"
    and "\<And>t. set (bprov td t) \<subseteq> set (bprov td' t) \<union> set (td_failed_fns td')"
    and "\<And>t. set (rprov td t) \<subseteq> set (rprov td' t) \<union> set (td_failed_fns td')"
  shows "evolve I td td'"
  unfolding evolve_def by (intro conjI ballI allI impI assms)

lemma evolve_refl: "evolve {} td td"
  by (rule evolveI) (auto simp: shrinks_refl gone_b_def gone_r_def caused_def newly_failed_def)

lemma closed_under_mono: "closed_under I td D \<Longrightarrow> J \<subseteq> I \<Longrightarrow> closed_under J td D"
  unfolding closed_under_def by blast

lemma closed_underD:
  assumes "closed_under I td D"
  shows "Root f \<in> I \<Longrightarrow> f \<in> D \<union> set (td_failed_fns td)"
    and "requires_build td f t \<Longrightarrow> BT t \<in> I \<Longrightarrow> f \<in> D \<union> set (td_failed_fns td)"
    and "requires_run td f t \<Longrightarrow> RT t \<in> I \<Longrightarrow> f \<in> D \<union> set (td_failed_fns td)"
    and "requires_build td f t \<Longrightarrow> bprov td t \<noteq> [] \<Longrightarrow> set (bprov td t) \<subseteq> D \<union> set (td_failed_fns td) \<Longrightarrow> f \<in> D \<union> set (td_failed_fns td)"
    and "requires_run td f t \<Longrightarrow> rprov td t \<noteq> [] \<Longrightarrow> set (rprov td t) \<subseteq> D \<union> set (td_failed_fns td) \<Longrightarrow> f \<in> D \<union> set (td_failed_fns td)"
  using assms unfolding closed_under_def by blast+

lemma closed_underI:
  assumes "\<And>f. Root f \<in> I \<Longrightarrow> f \<in> D \<union> set (td_failed_fns td)"
    and "\<And>f t. requires_build td f t \<Longrightarrow> BT t \<in> I \<Longrightarrow> f \<in> D \<union> set (td_failed_fns td)"
    and "\<And>f t. requires_run td f t \<Longrightarrow> RT t \<in> I \<Longrightarrow> f \<in> D \<union> set (td_failed_fns td)"
    and "\<And>f t. requires_build td f t \<Longrightarrow> bprov td t \<noteq> [] \<Longrightarrow> set (bprov td t) \<subseteq> D \<union> set (td_failed_fns td) \<Longrightarrow> f \<in> D \<union> set (td_failed_fns td)"
    and "\<And>f t. requires_run td f t \<Longrightarrow> rprov td t \<noteq> [] \<Longrightarrow> set (rprov td t) \<subseteq> D \<union> set (td_failed_fns td) \<Longrightarrow> f \<in> D \<union> set (td_failed_fns td)"
  shows "closed_under I td D"
  unfolding closed_under_def by (intro conjI allI impI) (use assms in blast)+

text \<open>What is closed before the first of two steps is closed before the second.\<close>

lemma closed_under_step:
  assumes D: "closed_under (I \<union> J) s D" and ev: "evolve I s t"
  shows "closed_under J t D"
proof -
  note a = evolveD [OF ev]
  have "newly_failed s t \<subseteq> D" by (rule a(8)) (rule closed_under_mono [OF D], simp)
  then have F: "D \<union> set (td_failed_fns t) = D \<union> set (td_failed_fns s)"
    using a(4) by (auto simp: newly_failed_def)
  have b: "bprov s x \<noteq> []" "set (bprov s x) \<subseteq> D \<union> set (td_failed_fns s)"
    if "bprov t x \<noteq> []" "set (bprov t x) \<subseteq> D \<union> set (td_failed_fns s)" for x
    using that a(11) [of x] F shrinks_Nil [OF a(2), of x] by blast+
  have r: "rprov s x \<noteq> []" "set (rprov s x) \<subseteq> D \<union> set (td_failed_fns s)"
    if "rprov t x \<noteq> []" "set (rprov t x) \<subseteq> D \<union> set (td_failed_fns s)" for x
    using that a(12) [of x] F shrinks_Nil [OF a(3), of x] by blast+
  show ?thesis
  proof (rule closed_underI, unfold F static_requires [OF a(1)])
    fix f x assume "requires_build s f x" "bprov t x \<noteq> []" "set (bprov t x) \<subseteq> D \<union> set (td_failed_fns s)"
    then show "f \<in> D \<union> set (td_failed_fns s)" using closed_underD(4) [OF D] b by blast
  next
    fix f x assume "requires_run s f x" "rprov t x \<noteq> []" "set (rprov t x) \<subseteq> D \<union> set (td_failed_fns s)"
    then show "f \<in> D \<union> set (td_failed_fns s)" using closed_underD(5) [OF D] r by blast
  qed (use closed_underD(1-3) [OF D] in blast)+
qed

lemma evolve_trans:
  assumes "evolve I s t" "evolve J t u"
  shows "evolve (I \<union> J) s u"
proof -
  note a = evolveD [OF assms(1)] and b = evolveD [OF assms(2)]
  have gb: "gone_b (I \<union> J) s u = gone_b I s t \<union> gone_b J t u"
    using emptied_trans [OF a(2) b(2)] by (auto simp: gone_b_def)
  have gr: "gone_r (I \<union> J) s u = gone_r I s t \<union> gone_r J t u"
    using emptied_trans [OF a(3) b(3)] by (auto simp: gone_r_def)
  have c: "caused (I \<union> J) s u f \<longleftrightarrow> caused I s t f \<or> caused J t u f" for f
    unfolding caused_def gb gr static_requires [OF a(1)] by blast
  have nf: "newly_failed s u = newly_failed s t \<union> newly_failed t u"
    using a(4) b(4) by (auto simp: newly_failed_def)
  show ?thesis
  proof (rule evolveI)
    fix g x assume "g \<in> newly_failed s u"
    then consider "g \<in> newly_failed s t" | "g \<in> newly_failed t u" unfolding nf by blast
    then show "g \<notin> set (bprov u x)" "g \<notin> set (rprov u x)"
      using a(9,10) [of g x] b(9,10) [of g x] shrinks_sub [OF b(2), of x] shrinks_sub [OF b(3), of x] by (cases; blast)+
  next
    fix D assume D: "closed_under (I \<union> J) s D"
    have "closed_under I s D" by (rule closed_under_mono [OF D]) simp
    then show "newly_failed s u \<subseteq> D" unfolding nf using a(8) b(8) closed_under_step [OF D assms(1)] by simp
  next
    fix f assume "caused (I \<union> J) s u f"
    then show "f \<in> set (td_failed_fns u)" unfolding c using a(7) b(7) b(4) by blast
  next
    fix x show "set (bprov s x) \<subseteq> set (bprov u x) \<union> set (td_failed_fns u)" using a(11) [of x] b(11) [of x] b(4) by blast
    show "set (rprov s x) \<subseteq> set (rprov u x) \<union> set (td_failed_fns u)" using a(12) [of x] b(12) [of x] b(4) by blast
  next
    show "static u = static s" using a(1) b(1) by simp
    show "shrinks (bprov s) (bprov u)" "shrinks (rprov s) (rprov u)"
      using shrinks_trans [OF a(2) b(2)] shrinks_trans [OF a(3) b(3)] by simp_all
    show "set (td_failed_fns s) \<subseteq> set (td_failed_fns u)" using a(4) b(4) by blast
    show "set (td_failed_deps u) = set (td_failed_deps s) \<union> gone_b (I \<union> J) s u" using a(5) b(5) gb by auto
    show "set (td_failed_rdeps u) = set (td_failed_rdeps s) \<union> gone_r (I \<union> J) s u" using a(6) b(6) gr by auto
  qed
qed

interpretation ev: graded_evolution evolve
  by unfold_locales (rule evolve_refl, rule evolve_trans)

section \<open>The contract of the failing function\<close>

text \<open>
  \<open>ready U n td\<close>: provider lists have no duplicates, the files that require something are among the finite set
  \<open>U\<close>, and fewer than \<open>n\<close> files of \<open>U\<close> have not failed.
\<close>

definition ready :: "string set \<Rightarrow> nat \<Rightarrow> taskdata \<Rightarrow> bool" where
  "ready U n td \<longleftrightarrow> finite U \<and> (\<forall>t. distinct (bprov td t) \<and> distinct (rprov td t)) \<and>
     (\<forall>f t. requires_build td f t \<or> requires_run td f t \<longrightarrow> f \<in> U) \<and> card (U - set (td_failed_fns td)) < n"

definition may_raise :: "taskdata \<Rightarrow> string set" where
  "may_raise td = (if td_abort td then set (td_external_targets td) else {})"

abbreviation target_raised :: "string set \<Rightarrow> py_error \<Rightarrow> taskdata \<Rightarrow> bool" where
  "target_raised A e td \<equiv> \<exists>t \<in> A. e = NoProvider t"

lemma evolve_ready:
  assumes "evolve I td td'" "ready U n td"
  shows "ready U n td'"
proof -
  note a = assms(1)[unfolded evolve_def] and r = assms(2)[unfolded ready_def]
  have "card (U - set (td_failed_fns td')) \<le> card (U - set (td_failed_fns td))"
    using a r by (intro card_mono) auto
  moreover have "distinct (bprov td' t)" "distinct (rprov td' t)" for t
    using a r by (simp_all add: shrinks_distinct [of "bprov td"] shrinks_distinct [of "rprov td"])
  moreover have "requires_build td' = requires_build td" "requires_run td' = requires_run td"
    using a static_requires by blast+
  ultimately show ?thesis using r unfolding ready_def by auto
qed

lemma evolve_may_raise: "evolve I td td' \<Longrightarrow> may_raise td' = may_raise td"
  unfolding evolve_def may_raise_def static_def by (elim conjE) simp

lemma evolve_ready':
  "evolve I td td' \<Longrightarrow> ready U n td \<and> may_raise td = A \<Longrightarrow> ready U n td' \<and> may_raise td' = A"
  using evolve_ready evolve_may_raise by blast

definition requirers :: "(taskentry \<Rightarrow> (string \<times> string) list) \<Rightarrow> string \<Rightarrow> taskdata \<Rightarrow> string set" where
  "requirers deps target td = {tid_fn (fst te) |te. te \<in> set (td_taskentries td) \<and> target \<in> fst ` set (deps (snd te))}"

lemma evolve_requirers:
  "evolve I td td' \<Longrightarrow> requirers deps target td' = requirers deps target td"
  unfolding evolve_def static_def requirers_def by (elim conjE) simp

lemma requirers_upd [simp]:
  "requirers deps target (td\<lparr>td_failed_deps := x\<rparr>) = requirers deps target td"
  "requirers deps target (td\<lparr>td_failed_rdeps := x\<rparr>) = requirers deps target td"
  by (simp_all add: requirers_def)

lemma requires_upd [simp]:
  "requires_build (td\<lparr>td_failed_deps := x\<rparr>) = requires_build td" "requires_run (td\<lparr>td_failed_deps := x\<rparr>) = requires_run td"
  "requires_build (td\<lparr>td_failed_rdeps := x\<rparr>) = requires_build td" "requires_run (td\<lparr>td_failed_rdeps := x\<rparr>) = requires_run td"
  "requires_build (td\<lparr>td_failed_fns := y\<rparr>) = requires_build td" "requires_run (td\<lparr>td_failed_fns := y\<rparr>) = requires_run td"
  "requires_build (td\<lparr>td_build_targets := z\<rparr>) = requires_build td" "requires_run (td\<lparr>td_build_targets := z\<rparr>) = requires_run td"
  "requires_build (td\<lparr>td_run_targets := z\<rparr>) = requires_build td" "requires_run (td\<lparr>td_run_targets := z\<rparr>) = requires_run td"
  by (simp_all add: fun_eq_iff requires_build_def requires_run_def get_dependees_def get_rdependees_def)

lemma dependees_upd [simp]:
  "get_dependees t (td\<lparr>td_failed_deps := x\<rparr>) = get_dependees t td"
  "get_rdependees t (td\<lparr>td_failed_rdeps := x\<rparr>) = get_rdependees t td"
  by (simp_all add: get_dependees_def get_rdependees_def)

lemma ready_deps:
  "ready U n (td\<lparr>td_failed_deps := x\<rparr>) = ready U n td" "ready U n (td\<lparr>td_failed_rdeps := x\<rparr>) = ready U n td"
  "may_raise (td\<lparr>td_failed_deps := x\<rparr>) = may_raise td" "may_raise (td\<lparr>td_failed_rdeps := x\<rparr>) = may_raise td"
  by (simp_all add: ready_def may_raise_def)

lemma ready_requires:
  assumes "ready U n td"
  shows "f \<in> set (get_dependees t td) \<Longrightarrow> f \<in> U" "f \<in> set (get_rdependees t td) \<Longrightarrow> f \<in> U"
    "f \<in> requirers te_idepends t td \<Longrightarrow> f \<in> U" "f \<in> requirers te_irdepends t td \<Longrightarrow> f \<in> U"
  using assms unfolding ready_def requires_build_def requires_run_def requirers_def by blast+

lemma requires_build_set: "{f. requires_build td f t} = set (get_dependees t td) \<union> requirers te_idepends t td"
  unfolding requires_build_def requirers_def by blast

lemma requires_run_set: "{f. requires_run td f t} = set (get_rdependees t td) \<union> requirers te_irdepends t td"
  unfolding requires_run_def requirers_def by blast

text \<open>Recording a target as failed and failing exactly the files that require it.\<close>

lemma absorb_build:
  assumes "evolve J (td\<lparr>td_failed_deps := td_failed_deps td @ [t]\<rparr>) v"
    and "J = Root ` {f. requires_build td f t}"
  shows "evolve {BT t} td v"
proof -
  let ?s = "td\<lparr>td_failed_deps := td_failed_deps td @ [t]\<rparr>"
  note a = evolveD [OF assms(1)]
  have g: "gone_b {BT t} td v = insert t (gone_b J ?s v)" "gone_r {BT t} td v = gone_r J ?s v"
    using assms(2) by (auto simp: gone_b_def gone_r_def)
  have c: "caused {BT t} td v f \<longleftrightarrow> caused J ?s v f" for f
    unfolding caused_def g using assms(2) by auto
  have n: "newly_failed td v = newly_failed ?s v" by (simp add: newly_failed_def)
  have D: "closed_under J ?s D" if "closed_under {BT t} td D" for D
    by (rule closed_underI) (use closed_underD [OF that] assms(2) in auto)
  have st: "static ?s = static td" by (simp add: static_def)
  show ?thesis
    by (rule evolveI, unfold c g n) (use a D in \<open>simp_all add: st\<close>)
qed

lemma absorb_run:
  assumes "evolve J (td\<lparr>td_failed_rdeps := td_failed_rdeps td @ [t]\<rparr>) v"
    and "J = Root ` {f. requires_run td f t}"
  shows "evolve {RT t} td v"
proof -
  let ?s = "td\<lparr>td_failed_rdeps := td_failed_rdeps td @ [t]\<rparr>"
  note a = evolveD [OF assms(1)]
  have g: "gone_r {RT t} td v = insert t (gone_r J ?s v)" "gone_b {RT t} td v = gone_b J ?s v"
    using assms(2) by (auto simp: gone_b_def gone_r_def)
  have c: "caused {RT t} td v f \<longleftrightarrow> caused J ?s v f" for f
    unfolding caused_def g using assms(2) by auto
  have n: "newly_failed td v = newly_failed ?s v" by (simp add: newly_failed_def)
  have D: "closed_under J ?s D" if "closed_under {RT t} td D" for D
    by (rule closed_underI) (use closed_underD [OF that] assms(2) in auto)
  have st: "static ?s = static td" by (simp add: static_def)
  show ?thesis
    by (rule evolveI, unfold c g n) (use a D in \<open>simp_all add: st\<close>)
qed

text \<open>Dropping a failed file from one provider list.\<close>

lemma evolve_bprov: "evolve I td td' \<Longrightarrow> set (bprov td' t) \<subseteq> set (bprov td t)"
  unfolding evolve_def using shrinks_sub by blast

lemma evolve_rprov: "evolve I td td' \<Longrightarrow> set (rprov td' t) \<subseteq> set (rprov td t)"
  unfolding evolve_def using shrinks_sub by blast

lemma evolve_failed: "evolve I td td' \<Longrightarrow> f \<in> set (td_failed_fns td) \<Longrightarrow> f \<in> set (td_failed_fns td')"
  unfolding evolve_def by blast

lemma member_key: "f \<in> set (dd_get d t) \<Longrightarrow> t \<in> set (dict_keys d)"
  by (cases "map_of d t") (use map_of_mem [of d t] in \<open>simp_all add: dd_get_def\<close>)

lemma shrinks_remove1:
  assumes "\<And>t. distinct (dd_get d t)"
  shows "shrinks (dd_get d) (dd_get (dict_set target (remove1 f (dd_get d target)) d))"
  using assms by (auto simp: shrinks_def distinct_remove1_removeAll removeAll_filter_not_eq intro: filter_cong)

lemma static_drop:
  "f \<in> set (bprov td t) \<Longrightarrow> static (td\<lparr>td_build_targets := dict_set t l (td_build_targets td)\<rparr>) = static td"
  "f \<in> set (rprov td t) \<Longrightarrow> static (td\<lparr>td_run_targets := dict_set t l (td_run_targets td)\<rparr>) = static td"
  using member_key [of f "td_build_targets td" t] member_key [of f "td_run_targets td" t]
  by (simp_all add: static_def dict_keys_set)

lemma evolve_drop_one:
  assumes "f \<in> set (bprov td t)" "\<And>t. distinct (bprov td t)" "f \<in> set (td_failed_fns td)" "remove1 f (bprov td t) \<noteq> []"
  shows "evolve {} td (td\<lparr>td_build_targets := dict_set t (remove1 f (bprov td t)) (td_build_targets td)\<rparr>)"
  using assms(2-4)
  by (auto simp: evolve_def static_drop(1) [OF assms(1)] shrinks_remove1 shrinks_refl gone_b_def gone_r_def emptied_def caused_def newly_failed_def)

lemma evolve_drop_one_run:
  assumes "f \<in> set (rprov td t)" "\<And>t. distinct (rprov td t)" "f \<in> set (td_failed_fns td)" "remove1 f (rprov td t) \<noteq> []"
  shows "evolve {} td (td\<lparr>td_run_targets := dict_set t (remove1 f (rprov td t)) (td_run_targets td)\<rparr>)"
  using assms(2-4)
  by (auto simp: evolve_def static_drop(2) [OF assms(1)] shrinks_remove1 shrinks_refl gone_b_def gone_r_def emptied_def caused_def newly_failed_def)

lemma evolve_drop_build:
  assumes "f \<in> set (bprov td t)" "\<And>t. distinct (bprov td t)" "f \<in> set (td_failed_fns td)"
    and empty: "remove1 f (bprov td t) = []"
    and ev: "evolve {BT t} (td\<lparr>td_build_targets := dict_set t [] (td_build_targets td)\<rparr>) u"
  shows "evolve {} td u"
proof -
  let ?s = "td\<lparr>td_build_targets := dict_set t [] (td_build_targets td)\<rparr>"
  note a = evolveD [OF ev]
  have single: "set (bprov td t) = {f}" using assms(1) empty by (cases "bprov td t") (auto split: if_splits)
  have sh: "shrinks (bprov td) (bprov ?s)"
    using shrinks_remove1 [OF assms(2), where target = t and f = f] empty by simp
  have "emptied (bprov td) (bprov u) = emptied (bprov td) (bprov ?s) \<union> emptied (bprov ?s) (bprov u)"
    using emptied_trans [OF sh a(2)] .
  moreover have "emptied (bprov td) (bprov ?s) = {t}" using assms(1) by (auto simp: emptied_def)
  ultimately have g: "gone_b {} td u = gone_b {BT t} ?s u" "gone_r {} td u = gone_r {BT t} ?s u"
    by (auto simp: gone_b_def gone_r_def)
  have c: "caused {} td u = caused {BT t} ?s u" unfolding fun_eq_iff caused_def g by simp
  have n: "newly_failed td u = newly_failed ?s u" by (simp add: newly_failed_def)
  have D: "closed_under {BT t} ?s D" if "closed_under {} td D" for D
  proof -
    have ne: "bprov td t \<noteq> []" using assms(1) by (cases "bprov td t") simp_all
    have sub: "set (bprov td t) \<subseteq> D \<union> set (td_failed_fns td)" using single assms(3) by simp
    have req: "requires_build td g t \<Longrightarrow> g \<in> D \<union> set (td_failed_fns td)" for g
      by (rule closed_underD(4) [OF that _ ne sub])
    show ?thesis
    proof (rule closed_underI)
      fix g x assume "requires_build ?s g x" "bprov ?s x \<noteq> []" "set (bprov ?s x) \<subseteq> D \<union> set (td_failed_fns ?s)"
      then show "g \<in> D \<union> set (td_failed_fns ?s)"
        using closed_underD(4) [OF that, of g x] by (cases "x = t") simp_all
    next
      fix g x assume "requires_run ?s g x" "rprov ?s x \<noteq> []" "set (rprov ?s x) \<subseteq> D \<union> set (td_failed_fns ?s)"
      then show "g \<in> D \<union> set (td_failed_fns ?s)" using closed_underD(5) [OF that, of g x] by simp
    qed (use req in simp_all)
  qed
  have keep: "set (bprov td x) \<subseteq> set (bprov u x) \<union> set (td_failed_fns u)" for x
  proof (cases "x = t")
    case True
    then show ?thesis using single a(4) assms(3) by auto
  next
    case False
    then have "bprov ?s x = bprov td x" by simp
    then show ?thesis using a(11) [of x] by simp
  qed
  show ?thesis
    by (rule evolveI, unfold c g n)
      (use a(1-10) a(12) D keep shrinks_trans [OF sh a(2)] in \<open>simp_all add: static_drop(1) [OF assms(1)]\<close>)
qed

lemma evolve_drop_run:
  assumes "f \<in> set (rprov td t)" "\<And>t. distinct (rprov td t)" "f \<in> set (td_failed_fns td)"
    and empty: "remove1 f (rprov td t) = []"
    and ev: "evolve {RT t} (td\<lparr>td_run_targets := dict_set t [] (td_run_targets td)\<rparr>) u"
  shows "evolve {} td u"
proof -
  let ?s = "td\<lparr>td_run_targets := dict_set t [] (td_run_targets td)\<rparr>"
  note a = evolveD [OF ev]
  have single: "set (rprov td t) = {f}" using assms(1) empty by (cases "rprov td t") (auto split: if_splits)
  have sh: "shrinks (rprov td) (rprov ?s)"
    using shrinks_remove1 [OF assms(2), where target = t and f = f] empty by simp
  have "emptied (rprov td) (rprov u) = emptied (rprov td) (rprov ?s) \<union> emptied (rprov ?s) (rprov u)"
    using emptied_trans [OF sh a(3)] .
  moreover have "emptied (rprov td) (rprov ?s) = {t}" using assms(1) by (auto simp: emptied_def)
  ultimately have g: "gone_r {} td u = gone_r {RT t} ?s u" "gone_b {} td u = gone_b {RT t} ?s u"
    by (auto simp: gone_b_def gone_r_def)
  have c: "caused {} td u = caused {RT t} ?s u" unfolding fun_eq_iff caused_def g by simp
  have n: "newly_failed td u = newly_failed ?s u" by (simp add: newly_failed_def)
  have D: "closed_under {RT t} ?s D" if "closed_under {} td D" for D
  proof -
    have ne: "rprov td t \<noteq> []" using assms(1) by (cases "rprov td t") simp_all
    have sub: "set (rprov td t) \<subseteq> D \<union> set (td_failed_fns td)" using single assms(3) by simp
    have req: "requires_run td g t \<Longrightarrow> g \<in> D \<union> set (td_failed_fns td)" for g
      by (rule closed_underD(5) [OF that _ ne sub])
    show ?thesis
    proof (rule closed_underI)
      fix g x assume "requires_run ?s g x" "rprov ?s x \<noteq> []" "set (rprov ?s x) \<subseteq> D \<union> set (td_failed_fns ?s)"
      then show "g \<in> D \<union> set (td_failed_fns ?s)"
        using closed_underD(5) [OF that, of g x] by (cases "x = t") simp_all
    next
      fix g x assume "requires_build ?s g x" "bprov ?s x \<noteq> []" "set (bprov ?s x) \<subseteq> D \<union> set (td_failed_fns ?s)"
      then show "g \<in> D \<union> set (td_failed_fns ?s)" using closed_underD(4) [OF that, of g x] by simp
    qed (use req in simp_all)
  qed
  have keep: "set (rprov td x) \<subseteq> set (rprov u x) \<union> set (td_failed_fns u)" for x
  proof (cases "x = t")
    case True
    then show ?thesis using single a(4) assms(3) by auto
  next
    case False
    then have "rprov ?s x = rprov td x" by simp
    then show ?thesis using a(12) [of x] by simp
  qed
  show ?thesis
    by (rule evolveI, unfold c g n)
      (use a(1-10) a(11) D keep shrinks_trans [OF sh a(3)] in \<open>simp_all add: static_drop(2) [OF assms(1)]\<close>)
qed

lemma ready_fail:
  assumes "ready U (Suc n) td" "f \<in> U" "f \<notin> set (td_failed_fns td)"
  shows "ready U n (td\<lparr>td_failed_fns := td_failed_fns td @ [f]\<rparr>)"
proof -
  have "U - set (td_failed_fns td @ [f]) = (U - set (td_failed_fns td)) - {f}" by auto
  moreover have "f \<in> U - set (td_failed_fns td)" "finite (U - set (td_failed_fns td))"
    using assms by (auto simp: ready_def)
  ultimately have "Suc (card (U - set (td_failed_fns td @ [f]))) = card (U - set (td_failed_fns td))"
    by (metis card_Suc_Diff1)
  then show ?thesis using assms(1) by (simp add: ready_def)
qed

text \<open>A function that fails a file: it changes the database by the cause \<open>Root f\<close> or raises for a target in \<open>A\<close>.\<close>

locale failing =
  fixes fail :: "string \<Rightarrow> taskdata \<Rightarrow> taskdata outcome" and U :: "string set" and n :: nat and A :: "string set"
  assumes fail_evolves: "ready U n td \<Longrightarrow> may_raise td = A \<Longrightarrow> f \<in> U \<Longrightarrow>
    ensures (evolve {Root f} td) (target_raised A) (fail f td)"
begin

definition ok :: "taskdata \<Rightarrow> bool" where
  "ok td \<longleftrightarrow> ready U n td \<and> may_raise td = A"

lemma ok_evolve: "ok td \<Longrightarrow> evolve I td td' \<Longrightarrow> ok td'"
  unfolding ok_def using evolve_ready' by blast

lemma fail_ok: "ok td \<Longrightarrow> f \<in> U \<Longrightarrow> ensures (\<lambda>u. evolve {Root f} td u \<and> ok u) (target_raised A) (fail f td)"
  by (rule ensures_mono [OF fail_evolves]) (auto simp: ok_def dest: evolve_ready')

lemma fail_all:
  "ok td \<Longrightarrow> set fs \<subseteq> U \<Longrightarrow>
    ensures (\<lambda>u. evolve (\<Union>f \<in> set fs. {Root f}) td u \<and> ok u) (target_raised A) (for_each fail fs td)"
  by (rule ev.for_each_evolves) (auto intro: fail_ok)

lemma fail_entry:
  assumes "ok td" "\<forall>d \<in> set ds. fst d = target \<longrightarrow> f \<in> U"
  shows "ensures (\<lambda>u. evolve (\<Union>d \<in> set ds. if fst d = target then {Root f} else {}) td u \<and> ok u) (target_raised A)
    (for_each (\<lambda>(dep, task). if dep = target then fail f else Done) ds td)"
proof (rule ev.for_each_evolves)
  fix d t assume "d \<in> set ds" "ok t"
  then show "ensures (\<lambda>u. evolve (if fst d = target then {Root f} else {}) t u \<and> ok u) (target_raised A)
      ((case d of (dep, task) \<Rightarrow> if dep = target then fail f else Done) t)"
    using assms(2) fail_ok [of t f] evolve_refl [of t] by (cases "fst d = target") (auto simp: case_prod_beta)
qed (rule assms(1))

lemma fail_requirers_ok:
  assumes "ok td" "requirers deps target td \<subseteq> U"
  shows "ensures (\<lambda>u. evolve (Root ` requirers deps target td) td u \<and> ok u) (target_raised A)
    (fail_requirers fail deps target td)"
proof -
  let ?c = "\<lambda>te. \<Union>d \<in> set (deps (snd te)). if fst d = target then {Root (tid_fn (fst te))} else {}"
  have "(\<Union>te \<in> set (td_taskentries td). ?c te) = Root ` requirers deps target td"
    by (force simp: requirers_def)
  moreover have "ensures (\<lambda>u. evolve (\<Union>te \<in> set (td_taskentries td). ?c te) td u \<and> ok u) (target_raised A)
      (fail_requirers fail deps target td)"
    unfolding fail_requirers_def
  proof (rule ev.for_each_evolves)
    fix te t assume te: "te \<in> set (td_taskentries td)" "ok t"
    obtain tid e where te_eq: "te = (tid, e)" by (rule prod.exhaust)
    have req: "\<forall>d \<in> set (deps (snd te)). fst d = target \<longrightarrow> tid_fn (fst te) \<in> U"
    proof (intro ballI impI)
      fix d assume "d \<in> set (deps (snd te))" "fst d = target"
      with te(1) have "tid_fn (fst te) \<in> requirers deps target td" unfolding requirers_def by blast
      with assms(2) show "tid_fn (fst te) \<in> U" by blast
    qed
    from fail_entry [OF te(2) req]
    show "ensures (\<lambda>u. evolve (?c te) t u \<and> ok u) (target_raised A)
      ((case te of (tid, entry) \<Rightarrow> for_each (\<lambda>(dep, task). if dep = target then fail (tid_fn tid) else Done) (deps entry)) t)"
      by (simp only: te_eq prod.case fst_conv snd_conv)
  qed (rule assms(1))
  ultimately show ?thesis by simp
qed

lemma remove_buildtarget_ok:
  assumes "ok td"
  shows "ensures (\<lambda>u. evolve {BT target} td u \<and> ok u) (target_raised A) (remove_buildtarget_with fail target td)"
proof -
  let ?td1 = "td\<lparr>td_failed_deps := td_failed_deps td @ [target]\<rparr>"
  let ?D = "set (get_dependees target td)" and ?E = "requirers te_idepends target td"
  have ok1: "ok ?td1" using assms by (simp add: ok_def ready_deps)
  have U: "?D \<subseteq> U" "?E \<subseteq> U" using assms unfolding ok_def by (auto dest: ready_requires)
  have "ensures (\<lambda>u. evolve (\<Union>f \<in> ?D. {Root f}) ?td1 u \<and> ok u) (target_raised A)
      (for_each fail (get_dependees target ?td1) ?td1)"
    using fail_all [OF ok1, of "get_dependees target td"] U by simp
  then show ?thesis
    unfolding remove_buildtarget_with_def Let_def
  proof (rule ensures_obind)
    fix u assume u: "evolve (\<Union>f \<in> ?D. {Root f}) ?td1 u \<and> ok u"
    then have req: "requirers te_idepends target u = ?E" using evolve_requirers by fastforce
    then have "ensures (\<lambda>v. evolve (Root ` ?E) u v \<and> ok v) (target_raised A) (fail_requirers fail te_idepends target u)"
      using fail_requirers_ok [of u te_idepends target] u U by simp
    then show "ensures (\<lambda>u. evolve {BT target} td u \<and> ok u) (target_raised A)
      (oseq (fail_requirers fail te_idepends target u) (\<lambda>td3.
         if td_abort td3 \<and> target \<in> set (td_external_targets td3) then Raise (NoProvider target) td3 else Done td3))"
    proof (rule ensures_obind)
      fix v assume v: "evolve (Root ` ?E) u v \<and> ok v"
      with u have "evolve ((\<Union>f \<in> ?D. {Root f}) \<union> Root ` ?E) ?td1 v" using evolve_trans by blast
      then have "evolve {BT target} td v"
        by (rule absorb_build) (unfold requires_build_set, blast)
      moreover have "target \<in> A" if "td_abort v" "target \<in> set (td_external_targets v)"
        using v that by (auto simp: ok_def may_raise_def)
      ultimately show "ensures (\<lambda>u. evolve {BT target} td u \<and> ok u) (target_raised A)
          (if td_abort v \<and> target \<in> set (td_external_targets v) then Raise (NoProvider target) v else Done v)"
        using v by simp
    qed simp
  qed simp
qed

lemma remove_runtarget_ok:
  assumes "ok td"
  shows "ensures (\<lambda>u. evolve {RT target} td u \<and> ok u) (target_raised A) (remove_runtarget_with fail target td)"
proof -
  let ?td1 = "td\<lparr>td_failed_rdeps := td_failed_rdeps td @ [target]\<rparr>"
  let ?D = "set (get_rdependees target td)" and ?E = "requirers te_irdepends target td"
  have ok1: "ok ?td1" using assms by (simp add: ok_def ready_deps)
  have U: "?D \<subseteq> U" "?E \<subseteq> U" using assms unfolding ok_def by (auto dest: ready_requires)
  have "ensures (\<lambda>u. evolve (\<Union>f \<in> ?D. {Root f}) ?td1 u \<and> ok u) (target_raised A)
      (for_each fail (get_rdependees target ?td1) ?td1)"
    using fail_all [OF ok1, of "get_rdependees target td"] U by simp
  then show ?thesis
    unfolding remove_runtarget_with_def Let_def
  proof (rule ensures_obind)
    fix u assume u: "evolve (\<Union>f \<in> ?D. {Root f}) ?td1 u \<and> ok u"
    then have req: "requirers te_irdepends target u = ?E" using evolve_requirers by fastforce
    then have "ensures (\<lambda>v. evolve (Root ` ?E) u v \<and> ok v) (target_raised A) (fail_requirers fail te_irdepends target u)"
      using fail_requirers_ok [of u te_irdepends target] u U by simp
    then show "ensures (\<lambda>u. evolve {RT target} td u \<and> ok u) (target_raised A) (fail_requirers fail te_irdepends target u)"
    proof (rule ensures_mono)
      fix v assume v: "evolve (Root ` ?E) u v \<and> ok v"
      with u have "evolve ((\<Union>f \<in> ?D. {Root f}) \<union> Root ` ?E) ?td1 v" using evolve_trans by blast
      then have "evolve {RT target} td v"
        by (rule absorb_run) (unfold requires_run_set, blast)
      with v show "evolve {RT target} td v \<and> ok v" by blast
    qed
  qed simp
qed

lemma drop_build_ok:
  assumes "ok td" "f \<in> set (td_failed_fns td)"
  shows "ensures (\<lambda>u. evolve {} td u \<and> (ok u \<and> f \<in> set (td_failed_fns u)) \<and> f \<notin> set (bprov u target)) (target_raised A)
    (drop_build_provider fail f target td)"
proof (cases "f \<in> set (bprov td target)")
  case True
  let ?rest = "remove1 f (bprov td target)"
  let ?td' = "td\<lparr>td_build_targets := dict_set target ?rest (td_build_targets td)\<rparr>"
  have dist: "distinct (bprov td t)" for t using assms(1) by (simp add: ok_def ready_def)
  have notin: "f \<notin> set ?rest" using dist by simp
  have ok': "ok ?td'"
    using assms(1) dist by (auto simp: ok_def ready_def may_raise_def)
  show ?thesis
  proof (cases "?rest = []")
    case empty: True
    have "ensures (\<lambda>u. evolve {BT target} ?td' u \<and> ok u) (target_raised A) (remove_buildtarget_with fail target ?td')"
      by (rule remove_buildtarget_ok [OF ok'])
    then have "ensures (\<lambda>u. evolve {} td u \<and> (ok u \<and> f \<in> set (td_failed_fns u)) \<and> f \<notin> set (bprov u target))
        (target_raised A) (remove_buildtarget_with fail target ?td')"
    proof (rule ensures_mono)
      fix u assume u: "evolve {BT target} ?td' u \<and> ok u"
      with evolve_drop_build [OF True dist assms(2)] empty have "evolve {} td u" by simp
      moreover have "f \<notin> set (bprov u target)"
        using u empty evolve_bprov [of "{BT target}" ?td' u target] by simp
      ultimately show "evolve {} td u \<and> (ok u \<and> f \<in> set (td_failed_fns u)) \<and> f \<notin> set (bprov u target)"
        using u assms(2) evolve_failed by blast
    qed
    with True empty show ?thesis by (simp add: drop_build_provider_def)
  next
    case False
    with True dist assms(2) have "evolve {} td ?td'" by (intro evolve_drop_one)
    with False True ok' notin assms(2) show ?thesis by (simp add: drop_build_provider_def)
  qed
qed (use assms evolve_refl in \<open>simp add: drop_build_provider_def\<close>)

lemma drop_run_ok:
  assumes "ok td" "f \<in> set (td_failed_fns td)"
  shows "ensures (\<lambda>u. evolve {} td u \<and> (ok u \<and> f \<in> set (td_failed_fns u)) \<and> f \<notin> set (rprov u target)) (target_raised A)
    (drop_run_provider fail f target td)"
proof (cases "f \<in> set (rprov td target)")
  case True
  let ?rest = "remove1 f (rprov td target)"
  let ?td' = "td\<lparr>td_run_targets := dict_set target ?rest (td_run_targets td)\<rparr>"
  have dist: "distinct (rprov td t)" for t using assms(1) by (simp add: ok_def ready_def)
  have notin: "f \<notin> set ?rest" using dist by simp
  have ok': "ok ?td'"
    using assms(1) dist by (auto simp: ok_def ready_def may_raise_def)
  show ?thesis
  proof (cases "?rest = []")
    case empty: True
    have "ensures (\<lambda>u. evolve {RT target} ?td' u \<and> ok u) (target_raised A) (remove_runtarget_with fail target ?td')"
      by (rule remove_runtarget_ok [OF ok'])
    then have "ensures (\<lambda>u. evolve {} td u \<and> (ok u \<and> f \<in> set (td_failed_fns u)) \<and> f \<notin> set (rprov u target))
        (target_raised A) (remove_runtarget_with fail target ?td')"
    proof (rule ensures_mono)
      fix u assume u: "evolve {RT target} ?td' u \<and> ok u"
      with evolve_drop_run [OF True dist assms(2)] empty have "evolve {} td u" by simp
      moreover have "f \<notin> set (rprov u target)"
        using u empty evolve_rprov [of "{RT target}" ?td' u target] by simp
      ultimately show "evolve {} td u \<and> (ok u \<and> f \<in> set (td_failed_fns u)) \<and> f \<notin> set (rprov u target)"
        using u assms(2) evolve_failed by blast
    qed
    with True empty show ?thesis by (simp add: drop_run_provider_def)
  next
    case False
    with True dist assms(2) have "evolve {} td ?td'" by (intro evolve_drop_one_run)
    with False True ok' notin assms(2) show ?thesis by (simp add: drop_run_provider_def)
  qed
qed (use assms evolve_refl in \<open>simp add: drop_run_provider_def\<close>)

lemma fail_body:
  assumes "ok td" "f \<in> set (td_failed_fns td)"
  shows "ensures (\<lambda>u. evolve {} td u \<and> (\<forall>t. f \<notin> set (bprov u t) \<and> f \<notin> set (rprov u t))) (target_raised A)
    (oseq (for_each (drop_build_provider fail f) (dict_keys (td_build_targets td)) td) (\<lambda>td2.
     for_each (drop_run_provider fail f) (dict_keys (td_run_targets td2)) td2))"
proof -
  have "ensures (\<lambda>u. evolve (\<Union>t \<in> set (dict_keys (td_build_targets td)). {}) td u \<and> (ok u \<and> f \<in> set (td_failed_fns u)) \<and>
      (\<forall>t \<in> set (dict_keys (td_build_targets td)). f \<notin> set (bprov u t))) (target_raised A)
      (for_each (drop_build_provider fail f) (dict_keys (td_build_targets td)) td)"
    by (rule ev.for_each_marks) (use assms drop_build_ok evolve_bprov in blast)+
  then show ?thesis
  proof (rule ensures_obind)
    fix u assume u: "evolve (\<Union>t \<in> set (dict_keys (td_build_targets td)). {}) td u \<and> (ok u \<and> f \<in> set (td_failed_fns u)) \<and>
      (\<forall>t \<in> set (dict_keys (td_build_targets td)). f \<notin> set (bprov u t))"
    then have tu: "evolve {} td u" by simp
    have nb: "f \<notin> set (bprov u t)" for t
      using u tu evolve_bprov [OF tu, of t] member_key [of f "td_build_targets td" t] by blast
    have "ensures (\<lambda>v. evolve (\<Union>t \<in> set (dict_keys (td_run_targets u)). {}) u v \<and> (ok v \<and> f \<in> set (td_failed_fns v)) \<and>
        (\<forall>t \<in> set (dict_keys (td_run_targets u)). f \<notin> set (rprov v t))) (target_raised A)
        (for_each (drop_run_provider fail f) (dict_keys (td_run_targets u)) u)"
      by (rule ev.for_each_marks) (use u drop_run_ok evolve_rprov in blast)+
    then show "ensures (\<lambda>u. evolve {} td u \<and> (\<forall>t. f \<notin> set (bprov u t) \<and> f \<notin> set (rprov u t))) (target_raised A)
        (for_each (drop_run_provider fail f) (dict_keys (td_run_targets u)) u)"
    proof (rule ensures_mono)
      fix v assume v: "evolve (\<Union>t \<in> set (dict_keys (td_run_targets u)). {}) u v \<and> (ok v \<and> f \<in> set (td_failed_fns v)) \<and>
        (\<forall>t \<in> set (dict_keys (td_run_targets u)). f \<notin> set (rprov v t))"
      then have uv: "evolve {} u v" by simp
      have "f \<notin> set (bprov v t)" "f \<notin> set (rprov v t)" for t
        using v nb evolve_bprov [OF uv, of t] evolve_rprov [OF uv, of t] member_key [of f "td_run_targets u" t] by blast+
      then show "evolve {} td v \<and> (\<forall>t. f \<notin> set (bprov v t) \<and> f \<notin> set (rprov v t))"
        using evolve_trans [OF tu uv] by simp
    qed
  qed simp
qed

end

section \<open>Closing the recursion\<close>

lemma evolve_already: "f \<in> set (td_failed_fns td) \<Longrightarrow> evolve {Root f} td td"
  by (auto simp: evolve_def shrinks_refl gone_b_def gone_r_def caused_def newly_failed_def)

lemma evolve_fail:
  assumes ev: "evolve {} (td\<lparr>td_failed_fns := td_failed_fns td @ [f]\<rparr>) u"
    and "f \<notin> set (td_failed_fns td)" and absent: "\<And>t. f \<notin> set (bprov u t) \<and> f \<notin> set (rprov u t)"
  shows "evolve {Root f} td u"
proof -
  let ?s = "td\<lparr>td_failed_fns := td_failed_fns td @ [f]\<rparr>"
  note a = evolveD [OF ev]
  have g: "gone_b {Root f} td u = gone_b {} ?s u" "gone_r {Root f} td u = gone_r {} ?s u"
    by (auto simp: gone_b_def gone_r_def)
  have c: "caused {Root f} td u h \<longleftrightarrow> h = f \<or> caused {} ?s u h" for h
    unfolding caused_def g by auto
  have fu: "f \<in> set (td_failed_fns u)" using a(4) by auto
  then have n: "newly_failed td u = insert f (newly_failed ?s u)"
    using assms(2) by (auto simp: newly_failed_def)
  have st: "static ?s = static td" by (simp add: static_def)
  have D: "insert f (newly_failed ?s u) \<subseteq> D" if D: "closed_under {Root f} td D" for D
  proof -
    have fD: "f \<in> D" using closed_underD(1) [OF D, of f] assms(2) by simp
    have "closed_under {} ?s D"
      by (rule closed_underI) (use closed_underD(4,5) [OF D] fD in \<open>auto simp: insert_absorb\<close>)
    then show ?thesis using a(8) fD by simp
  qed
  show ?thesis
  proof (rule evolveI, unfold c g n)
    fix D assume "closed_under {Root f} td D"
    then show "insert f (newly_failed ?s u) \<subseteq> D" by (rule D)
  next
    fix h x assume "h \<in> insert f (newly_failed ?s u)"
    then show "h \<notin> set (bprov u x)" "h \<notin> set (rprov u x)" using absent a(9,10) by blast+
  next
    fix h assume "h = f \<or> caused {} ?s u h"
    then show "h \<in> set (td_failed_fns u)" using a(7) fu by blast
  qed (use a(1-6) a(11,12) st in simp_all)
qed

lemma fail_fn_n_failing: "failing (fail_fn_n n) U n A"
proof (induction n)
  case 0
  show ?case by unfold_locales (simp add: ready_def)
next
  case (Suc n)
  show ?case
  proof
    fix td f assume r: "ready U (Suc n) td" "may_raise td = A" "f \<in> U"
    show "ensures (evolve {Root f} td) (target_raised A) (fail_fn_n (Suc n) f td)"
    proof (cases "f \<in> set (td_failed_fns td)")
      case True
      then show ?thesis by (simp add: evolve_already)
    next
      case False
      let ?s = "td\<lparr>td_failed_fns := td_failed_fns td @ [f]\<rparr>"
      have "ready U n ?s" using ready_fail [OF r(1,3) False] .
      moreover have "may_raise ?s = A" using r(2) by (auto simp: may_raise_def)
      ultimately have "ensures (\<lambda>u. evolve {} ?s u \<and> (\<forall>t. f \<notin> set (bprov u t) \<and> f \<notin> set (rprov u t))) (target_raised A)
          (oseq (for_each (drop_build_provider (fail_fn_n n) f) (dict_keys (td_build_targets ?s)) ?s) (\<lambda>td2.
           for_each (drop_run_provider (fail_fn_n n) f) (dict_keys (td_run_targets td2)) td2))"
        by (intro failing.fail_body [OF Suc]) (simp_all add: failing.ok_def [OF Suc])
      then have "ensures (evolve {Root f} td) (target_raised A)
          (oseq (for_each (drop_build_provider (fail_fn_n n) f) (dict_keys (td_build_targets ?s)) ?s) (\<lambda>td2.
           for_each (drop_run_provider (fail_fn_n n) f) (dict_keys (td_run_targets td2)) td2))"
        by (rule ensures_mono) (use evolve_fail [OF _ False] in blast)+
      with False show ?thesis by (simp add: Let_def)
    qed
  qed
qed

interpretation ff: failing "fail_fn_n n" U n A for n U A
  by (rule fail_fn_n_failing)

section \<open>What failing a file does\<close>

definition td_clean :: "taskdata \<Rightarrow> bool" where
  "td_clean td \<longleftrightarrow> dict_wf (td_build_targets td) \<and> dict_wf (td_run_targets td) \<and>
     (\<forall>(t, fns) \<in> set (td_build_targets td) \<union> set (td_run_targets td).
        distinct fns \<and> (\<forall>f \<in> set fns. f \<notin> set (td_failed_fns td)))"

lemma td_cleanD:
  assumes "td_clean td"
  shows "distinct (bprov td t)" "distinct (rprov td t)"
    "f \<in> set (bprov td t) \<Longrightarrow> f \<notin> set (td_failed_fns td)" "f \<in> set (rprov td t) \<Longrightarrow> f \<notin> set (td_failed_fns td)"
proof -
  have "(t, bprov td t) \<in> set (td_build_targets td) \<or> bprov td t = []"
    "(t, rprov td t) \<in> set (td_run_targets td) \<or> rprov td t = []"
    by (simp_all add: dd_get_def map_of_SomeD split: option.splits)
  then show "distinct (bprov td t)" "distinct (rprov td t)"
    "f \<in> set (bprov td t) \<Longrightarrow> f \<notin> set (td_failed_fns td)" "f \<in> set (rprov td t) \<Longrightarrow> f \<notin> set (td_failed_fns td)"
    using assms unfolding td_clean_def by fastforce+
qed

definition known_files :: "taskdata \<Rightarrow> string list" where
  "known_files td = dict_keys (td_depids td) @ dict_keys (td_rdepids td) @ map (tid_fn \<circ> fst) (td_taskentries td)"

lemma requires_known: "requires_build td f t \<or> requires_run td f t \<Longrightarrow> f \<in> set (known_files td)"
  unfolding requires_build_def requires_run_def known_files_def get_dependees_def get_rdependees_def
  by (elim disjE) force+

lemma ready_bound:
  assumes "td_clean td"
  shows "ready (insert fn (set (known_files td))) (fail_bound td) td"
proof -
  let ?U = "insert fn (set (known_files td))"
  have "card (?U - set (td_failed_fns td)) \<le> card ?U" by (intro card_mono) auto
  also have "\<dots> \<le> Suc (card (set (known_files td)))" by (simp add: card_insert_if)
  also have "\<dots> \<le> Suc (length (known_files td))" by (simp add: card_length)
  also have "\<dots> < fail_bound td" by (simp add: known_files_def fail_bound_def)
  finally show ?thesis using td_cleanD(1,2) [OF assms] requires_known unfolding ready_def by blast
qed

text \<open>
  The abstract specification: the files that become unbuildable with \<open>fn\<close>. A target is lost when all its
  providers are; then every file that requires the target is lost.
\<close>

inductive doomed :: "taskdata \<Rightarrow> string \<Rightarrow> string \<Rightarrow> bool" for td :: taskdata and fn :: string where
  doomed_root: "fn \<notin> set (td_failed_fns td) \<Longrightarrow> doomed td fn fn"
| doomed_build: "requires_build td g t \<Longrightarrow> bprov td t \<noteq> [] \<Longrightarrow> (\<forall>f \<in> set (bprov td t). doomed td fn f) \<Longrightarrow>
    g \<notin> set (td_failed_fns td) \<Longrightarrow> doomed td fn g"
| doomed_run: "requires_run td g t \<Longrightarrow> rprov td t \<noteq> [] \<Longrightarrow> (\<forall>f \<in> set (rprov td t). doomed td fn f) \<Longrightarrow>
    g \<notin> set (td_failed_fns td) \<Longrightarrow> doomed td fn g"

lemma emptied_iff:
  assumes "shrinks p p'" "\<And>f x. f \<in> N \<Longrightarrow> f \<notin> set (p' x)" "set (p t) \<subseteq> set (p' t) \<union> F" "set (p t) \<inter> F \<subseteq> N"
  shows "p' t = filter (\<lambda>f. f \<notin> N) (p t)"
proof -
  have "p' t = filter (\<lambda>f. f \<in> set (p' t)) (p t)" using assms(1) by (simp add: shrinks_def)
  also have "\<dots> = filter (\<lambda>f. f \<notin> N) (p t)"
    by (rule filter_cong) (use assms(2-4) in auto)
  finally show ?thesis .
qed

lemma evolve_doomed:
  assumes "evolve {Root fn} td td'" "td_clean td"
  shows "newly_failed td td' = {g. doomed td fn g}"
proof
  note a = evolveD [OF assms(1)] and cl = td_cleanD [OF assms(2)]
  have "closed_under {Root fn} td {g. doomed td fn g}"
  proof (rule closed_underI)
    fix f t assume f: "requires_build td f t" "bprov td t \<noteq> []" "set (bprov td t) \<subseteq> {g. doomed td fn g} \<union> set (td_failed_fns td)"
    then have "\<forall>g \<in> set (bprov td t). doomed td fn g" using cl(3) by blast
    with f show "f \<in> {g. doomed td fn g} \<union> set (td_failed_fns td)" using doomed_build by blast
  next
    fix f t assume f: "requires_run td f t" "rprov td t \<noteq> []" "set (rprov td t) \<subseteq> {g. doomed td fn g} \<union> set (td_failed_fns td)"
    then have "\<forall>g \<in> set (rprov td t). doomed td fn g" using cl(4) by blast
    with f show "f \<in> {g. doomed td fn g} \<union> set (td_failed_fns td)" using doomed_run by blast
  qed (use doomed_root in auto)
  then show "newly_failed td td' \<subseteq> {g. doomed td fn g}" by (rule a(8))
  show "{g. doomed td fn g} \<subseteq> newly_failed td td'"
  proof
    fix g assume "g \<in> {g. doomed td fn g}"
    then have "doomed td fn g" by simp
    then show "g \<in> newly_failed td td'"
    proof induction
      case doomed_root
      then show ?case using a(7) [of fn] by (simp add: caused_def newly_failed_def)
    next
      case (doomed_build g t)
      then have "\<forall>f \<in> set (bprov td t). f \<notin> set (bprov td' t)" using a(9) by blast
      then have "bprov td' t = []" using shrinks_sub [OF a(2), of t] by (cases "bprov td' t") auto
      then have "t \<in> gone_b {Root fn} td td'" using doomed_build by (simp add: gone_b_def emptied_def)
      then show ?case using doomed_build a(7) [of g] unfolding caused_def newly_failed_def by blast
    next
      case (doomed_run g t)
      then have "\<forall>f \<in> set (rprov td t). f \<notin> set (rprov td' t)" using a(10) by blast
      then have "rprov td' t = []" using shrinks_sub [OF a(3), of t] by (cases "rprov td' t") auto
      then have "t \<in> gone_r {Root fn} td td'" using doomed_run by (simp add: gone_r_def emptied_def)
      then show ?case using doomed_run a(7) [of g] unfolding caused_def newly_failed_def by blast
    qed
  qed
qed

lemma evolve_prune:
  assumes "evolve I td td'" "td_clean td"
  shows "bprov td' t = filter (\<lambda>f. f \<notin> newly_failed td td') (bprov td t)"
    and "rprov td' t = filter (\<lambda>f. f \<notin> newly_failed td td') (rprov td t)"
proof -
  note a = evolveD [OF assms(1)] and cl = td_cleanD [OF assms(2)]
  show "bprov td' t = filter (\<lambda>f. f \<notin> newly_failed td td') (bprov td t)"
    by (rule emptied_iff [OF a(2) a(9) a(11)]) (use cl(3) in \<open>auto simp: newly_failed_def\<close>)
  show "rprov td' t = filter (\<lambda>f. f \<notin> newly_failed td td') (rprov td t)"
    by (rule emptied_iff [OF a(3) a(10) a(12)]) (use cl(4) in \<open>auto simp: newly_failed_def\<close>)
qed

lemma td_cleanI:
  assumes "dict_wf (td_build_targets td)" "dict_wf (td_run_targets td)"
    and "\<And>t. distinct (bprov td t)" "\<And>t. distinct (rprov td t)"
    and "\<And>t f. f \<in> set (bprov td t) \<Longrightarrow> f \<notin> set (td_failed_fns td)"
    and "\<And>t f. f \<in> set (rprov td t) \<Longrightarrow> f \<notin> set (td_failed_fns td)"
  shows "td_clean td"
proof -
  have b: "bprov td t = fns" if "(t, fns) \<in> set (td_build_targets td)" for t fns
    using that assms(1) by (simp add: dd_get_def)
  have r: "rprov td t = fns" if "(t, fns) \<in> set (td_run_targets td)" for t fns
    using that assms(2) by (simp add: dd_get_def)
  have "distinct fns \<and> (\<forall>f \<in> set fns. f \<notin> set (td_failed_fns td))"
    if "(t, fns) \<in> set (td_build_targets td) \<union> set (td_run_targets td)" for t fns
    using that b [of t fns] r [of t fns] assms(3-6) by blast
  with assms(1,2) show ?thesis unfolding td_clean_def by blast
qed

lemma evolve_clean:
  assumes "evolve I td td'" "td_clean td"
  shows "td_clean td'"
proof (rule td_cleanI)
  note a = evolveD [OF assms(1)] and p = evolve_prune [OF assms]
  show "dict_wf (td_build_targets td')" "dict_wf (td_run_targets td')"
    using a(1) assms(2) by (simp_all add: static_def td_clean_def)
  show "distinct (bprov td' t)" "distinct (rprov td' t)" for t
    unfolding p using td_cleanD(1,2) [OF assms(2)] by simp_all
  show "f \<notin> set (td_failed_fns td')" if "f \<in> set (bprov td' t)" for t f
    using that td_cleanD(3) [OF assms(2), of f t] unfolding p by (auto simp: newly_failed_def)
  show "f \<notin> set (td_failed_fns td')" if "f \<in> set (rprov td' t)" for t f
    using that td_cleanD(4) [OF assms(2), of f t] unfolding p by (auto simp: newly_failed_def)
qed

lemma fail_fn_evolves:
  "td_clean td \<Longrightarrow> ensures (evolve {Root fn} td) (target_raised (may_raise td)) (fail_fn fn td)"
  unfolding fail_fn_def by (rule ff.fail_evolves [OF ready_bound [where fn = fn] refl]) simp_all

lemma remove_buildtarget_evolves:
  "td_clean td \<Longrightarrow> ensures (evolve {BT t} td) (target_raised (may_raise td)) (remove_buildtarget t td)"
  unfolding remove_buildtarget_def
  by (rule ensures_mono [OF ff.remove_buildtarget_ok]) (auto simp: ff.ok_def intro: ready_bound)

lemma remove_runtarget_evolves:
  "td_clean td \<Longrightarrow> ensures (evolve {RT t} td) (target_raised (may_raise td)) (remove_runtarget t td)"
  unfolding remove_runtarget_def
  by (rule ensures_mono [OF ff.remove_runtarget_ok]) (auto simp: ff.ok_def intro: ready_bound)

text \<open>C10. \<^verbatim>\<open>fail_fn\<close> always ends. Unless it raises \<^verbatim>\<open>NoProvider\<close> for an externally requested target (only when
  \<^verbatim>\<open>abort\<close> is set), it marks exactly the doomed files as failed, removes exactly these from all provider
  lists, records exactly the targets that lost their last provider, and changes nothing else.\<close>

theorem fail_fn_closure:
  assumes "td_clean td"
  shows "ensures
    (\<lambda>td'. set (td_failed_fns td') = set (td_failed_fns td) \<union> {g. doomed td fn g} \<and>
       (\<forall>t. bprov td' t = filter (\<lambda>f. \<not> doomed td fn f) (bprov td t) \<and>
             rprov td' t = filter (\<lambda>f. \<not> doomed td fn f) (rprov td t)) \<and>
       set (td_failed_deps td') = set (td_failed_deps td) \<union> {t. bprov td t \<noteq> [] \<and> bprov td' t = []} \<and>
       set (td_failed_rdeps td') = set (td_failed_rdeps td) \<union> {t. rprov td t \<noteq> [] \<and> rprov td' t = []} \<and>
       td_clean td' \<and> static td' = static td)
    (\<lambda>e td'. td_abort td \<and> (\<exists>t \<in> set (td_external_targets td). e = NoProvider t)) (fail_fn fn td)"
proof (rule ensures_mono [OF fail_fn_evolves [OF assms]])
  fix td' assume ev: "evolve {Root fn} td td'"
  note a = evolveD [OF ev] and d = evolve_doomed [OF ev assms]
  have "set (td_failed_fns td') = set (td_failed_fns td) \<union> newly_failed td td'"
    using a(4) by (auto simp: newly_failed_def)
  with d evolve_prune [OF ev assms] a(1,5,6) evolve_clean [OF ev assms]
  show "set (td_failed_fns td') = set (td_failed_fns td) \<union> {g. doomed td fn g} \<and>
       (\<forall>t. bprov td' t = filter (\<lambda>f. \<not> doomed td fn f) (bprov td t) \<and>
             rprov td' t = filter (\<lambda>f. \<not> doomed td fn f) (rprov td t)) \<and>
       set (td_failed_deps td') = set (td_failed_deps td) \<union> {t. bprov td t \<noteq> [] \<and> bprov td' t = []} \<and>
       set (td_failed_rdeps td') = set (td_failed_rdeps td) \<union> {t. rprov td t \<noteq> [] \<and> rprov td' t = []} \<and>
       td_clean td' \<and> static td' = static td"
    by (simp add: gone_b_def gone_r_def emptied_def)
qed (simp add: may_raise_def split: if_splits)

definition sample_td :: taskdata where
  "sample_td = (TaskData False [] False)\<lparr>
     td_build_targets := [(''va'', [''a.bb'']), (''b'', [''b.bb'']), (''c'', [''c1.bb'', ''c2.bb''])],
     td_depids := [(''b.bb'', [''va'']), (''c1.bb'', [''b'']), (''c2.bb'', [])],
     td_taskentries := [(''c1.bb:do_build'', TaskEntry)]\<rparr>"

theorem fail_fn_closure_witness:
  "\<exists>td'. fail_fn ''a.bb'' sample_td = Done td' \<and> bprov td' ''c'' = [''c2.bb''] \<and>
     {g. doomed sample_td ''a.bb'' g} = {''a.bb'', ''b.bb'', ''c1.bb''}"
proof -
  have clean: "td_clean sample_td" by code_simp
  obtain td' where td': "fail_fn ''a.bb'' sample_td = Done td'" "td_failed_fns td' = [''a.bb'', ''b.bb'', ''c1.bb'']"
      "bprov td' ''c'' = [''c2.bb'']"
  proof -
    have "(case fail_fn ''a.bb'' sample_td of Done td' \<Rightarrow>
        td_failed_fns td' = [''a.bb'', ''b.bb'', ''c1.bb''] \<and> bprov td' ''c'' = [''c2.bb''] | _ \<Rightarrow> False)" by code_simp
    with that show thesis by (simp split: outcome.splits)
  qed
  have "td_failed_fns sample_td = []" by (simp add: sample_td_def TaskData_def)
  then have "{g. doomed sample_td ''a.bb'' g} = set (td_failed_fns td')"
    using fail_fn_closure [OF clean, of "''a.bb''"] td'(1) by simp
  with td' show ?thesis by simp
qed

end
