(* ===== verification/BB_Resolve.thy ===== *)
theory BB_Resolve
  imports BB_Failure
begin

text \<open>
  Resolution of dependencies in \<^verbatim>\<open>lib/bb/taskdata.py\<close>: an invariant of the task database that all methods keep,
  and what \<^verbatim>\<open>add_unresolved\<close> guarantees when it returns.
\<close>

section \<open>The invariant\<close>

text \<open>
  Apart from the files in \<open>X\<close>: a file that depends on a failed target has failed, and every dependency of a
  file that has not failed is a known target. Every provider is in \<open>seenfns\<close> or in \<open>P\<close>, and dependencies are
  recorded for exactly the seen files, apart from those in \<open>Y\<close>.
\<close>

definition live_deps :: "string set \<Rightarrow> taskdata \<Rightarrow> bool" where
  "live_deps X td \<longleftrightarrow> (\<forall>f \<in> set (dict_keys (td_depids td)) - set (td_failed_fns td) - X.
     \<forall>d \<in> set (dd_get (td_depids td) f). d \<in> set (dict_keys (td_build_targets td)) \<and> d \<notin> set (td_failed_deps td))"

definition live_rdeps :: "string set \<Rightarrow> taskdata \<Rightarrow> bool" where
  "live_rdeps X td \<longleftrightarrow> (\<forall>f \<in> set (dict_keys (td_rdepids td)) - set (td_failed_fns td) - X.
     \<forall>d \<in> set (dd_get (td_rdepids td) f). d \<in> set (dict_keys (td_run_targets td)) \<and> d \<notin> set (td_failed_rdeps td))"

definition providers_seen :: "string set \<Rightarrow> taskdata \<Rightarrow> bool" where
  "providers_seen P td \<longleftrightarrow> (\<forall>t. set (bprov td t) \<union> set (rprov td t) \<subseteq> set (td_seenfns td) \<union> P)"

definition seen_recorded :: "string set \<Rightarrow> taskdata \<Rightarrow> bool" where
  "seen_recorded X td \<longleftrightarrow>
     set (dict_keys (td_depids td)) = set (td_seenfns td) - X \<and> set (dict_keys (td_rdepids td)) = set (td_seenfns td) - X"

definition td_inv_but :: "string set \<Rightarrow> string set \<Rightarrow> string set \<Rightarrow> taskdata \<Rightarrow> bool" where
  "td_inv_but X P Y td \<longleftrightarrow> td_clean td \<and> live_deps X td \<and> live_rdeps X td \<and> providers_seen P td \<and> seen_recorded Y td"

definition td_inv :: "taskdata \<Rightarrow> bool" where
  "td_inv = td_inv_but {} {} {}"

lemmas inv_defs = td_inv_but_def live_deps_def live_rdeps_def providers_seen_def seen_recorded_def

lemma td_inv_butD:
  assumes "td_inv_but X P Y td"
  shows "td_clean td" "live_deps X td" "live_rdeps X td" "providers_seen P td" "seen_recorded Y td"
  using assms by (simp_all add: td_inv_but_def)

text \<open>Failing the exempt file, or removing a target, re-establishes the invariant.\<close>

lemma static_fields:
  assumes "static td' = static td"
  shows "td_depids td' = td_depids td" "td_rdepids td' = td_rdepids td" "td_seenfns td' = td_seenfns td"
    "dict_keys (td_build_targets td') = dict_keys (td_build_targets td)"
    "dict_keys (td_run_targets td') = dict_keys (td_run_targets td)"
    "td_abort td' = td_abort td" "td_external_targets td' = td_external_targets td"
    "td_allowincomplete td' = td_allowincomplete td" "td_taskentries td' = td_taskentries td"
  using assms by (simp_all add: static_def)

lemma dependee_requires:
  "f \<in> set (dict_keys (td_depids td)) \<Longrightarrow> d \<in> set (dd_get (td_depids td) f) \<Longrightarrow> requires_build td f d"
  "f \<in> set (dict_keys (td_rdepids td)) \<Longrightarrow> d \<in> set (dd_get (td_rdepids td) f) \<Longrightarrow> requires_run td f d"
  unfolding requires_build_def requires_run_def get_dependees_def get_rdependees_def by simp_all

lemma evolve_inv:
  assumes ev: "evolve I td td'" and inv: "td_inv_but X P Y td" and X: "\<forall>f \<in> X. Root f \<in> I"
  shows "td_inv_but {} P Y td'"
proof -
  note a = evolveD [OF ev] and i = td_inv_butD [OF inv]
  note st = static_fields [OF a(1)]
  have Xf: "f \<in> set (td_failed_fns td')" if "f \<in> X" for f
    using that X a(7) unfolding caused_def by blast
  have "live_deps {} td'"
    unfolding live_deps_def st
  proof (intro ballI)
    fix f d assume f: "f \<in> set (dict_keys (td_depids td)) - set (td_failed_fns td') - {}" and d: "d \<in> set (dd_get (td_depids td) f)"
    then have "f \<in> set (dict_keys (td_depids td)) - set (td_failed_fns td) - X" using a(4) Xf by blast
    then have "d \<in> set (dict_keys (td_build_targets td))" "d \<notin> set (td_failed_deps td)"
      using i(2) d unfolding live_deps_def by blast+
    moreover have "d \<notin> gone_b I td td'"
      using f d dependee_requires(1) a(7) unfolding caused_def by blast
    ultimately show "d \<in> set (dict_keys (td_build_targets td)) \<and> d \<notin> set (td_failed_deps td')" using a(5) by simp
  qed
  moreover have "live_rdeps {} td'"
    unfolding live_rdeps_def st
  proof (intro ballI)
    fix f d assume f: "f \<in> set (dict_keys (td_rdepids td)) - set (td_failed_fns td') - {}" and d: "d \<in> set (dd_get (td_rdepids td) f)"
    then have "f \<in> set (dict_keys (td_rdepids td)) - set (td_failed_fns td) - X" using a(4) Xf by blast
    then have "d \<in> set (dict_keys (td_run_targets td))" "d \<notin> set (td_failed_rdeps td)"
      using i(3) d unfolding live_rdeps_def by blast+
    moreover have "d \<notin> gone_r I td td'"
      using f d dependee_requires(2) a(7) unfolding caused_def by blast
    ultimately show "d \<in> set (dict_keys (td_run_targets td)) \<and> d \<notin> set (td_failed_rdeps td')" using a(6) by simp
  qed
  moreover have "providers_seen P td'"
    using i(4) shrinks_sub [OF a(2)] shrinks_sub [OF a(3)] unfolding providers_seen_def st by blast
  moreover have "seen_recorded Y td'" using i(5) unfolding seen_recorded_def st .
  ultimately show ?thesis using evolve_clean [OF ev i(1)] unfolding td_inv_but_def by blast
qed

section \<open>The elementary changes\<close>

lemma dd_get_seen [simp]: "dd_get (seen_target n d) t = dd_get d t"
  by (simp add: seen_target_def has_key_def dd_get_def)

lemma keys_seen: "set (dict_keys (seen_target n d)) = insert n (set (dict_keys d))"
  by (auto simp: seen_target_def has_key_iff dict_keys_set)

lemma wf_seen: "dict_wf d \<Longrightarrow> dict_wf (seen_target n d)"
  by (simp add: seen_target_def distinct_update)

lemma dd_get_add: "dd_get (add_target f n d) t = (if t = n \<and> f \<notin> set (dd_get d n) then dd_get d n @ [f] else dd_get d t)"
  by (auto simp: add_target_def has_key_def dd_get_def dd_append_def)

lemma keys_add: "set (dict_keys (add_target f n d)) = insert n (set (dict_keys d))"
  by (auto simp: add_target_def has_key_iff dict_keys_set dd_append_def)

lemma wf_add: "dict_wf d \<Longrightarrow> dict_wf (add_target f n d)"
  by (simp add: add_target_def distinct_update dd_append_def)

lemma td_clean_wf: "td_clean td \<Longrightarrow> dict_wf (td_build_targets td)" "td_clean td \<Longrightarrow> dict_wf (td_run_targets td)"
  by (simp_all add: td_clean_def)

lemma clean_seen:
  assumes "td_clean td"
  shows "td_clean (seen_build_target n td)" "td_clean (seen_run_target n td)"
  by (rule td_cleanI; use td_cleanD [OF assms] td_clean_wf [OF assms] wf_seen in \<open>simp add: seen_build_target_def seen_run_target_def\<close>)+

lemma inv_seen:
  assumes "td_inv_but X P Y td"
  shows "td_inv_but X P Y (seen_build_target n td)" "td_inv_but X P Y (seen_run_target n td)"
  using assms clean_seen [of td n]
  by (simp_all add: inv_defs seen_build_target_def seen_run_target_def keys_seen del: set_map)

lemma inv_add:
  assumes "td_inv_but X P Y td" "f \<notin> set (td_failed_fns td)"
  shows "td_inv_but X (insert f P) Y (add_build_target f n td)" "td_inv_but X (insert f P) Y (add_runtime_target f n td)"
proof -
  note i = td_inv_butD [OF assms(1)]
  have "td_clean (add_build_target f n td)" "td_clean (add_runtime_target f n td)"
    by (rule td_cleanI; use td_cleanD [OF i(1)] td_clean_wf [OF i(1)] wf_add assms(2) in
        \<open>auto simp: add_build_target_def add_runtime_target_def dd_get_add split: if_splits\<close>)+
  moreover have "providers_seen (insert f P) (add_build_target f n td)" "providers_seen (insert f P) (add_runtime_target f n td)"
    using i(4) unfolding providers_seen_def add_build_target_def add_runtime_target_def by (auto simp: dd_get_add)
  ultimately show "td_inv_but X (insert f P) Y (add_build_target f n td)" "td_inv_but X (insert f P) Y (add_runtime_target f n td)"
    using i(2,3,5) unfolding td_inv_but_def live_deps_def live_rdeps_def seen_recorded_def add_build_target_def add_runtime_target_def
    by (simp_all add: keys_add del: set_map)
qed

section \<open>Progress\<close>

text \<open>A target is settled when it has a provider or is marked as failed; settled targets stay settled.\<close>

definition settled_b :: "taskdata \<Rightarrow> string \<Rightarrow> bool" where
  "settled_b td t \<longleftrightarrow> bprov td t \<noteq> [] \<or> t \<in> set (td_failed_deps td)"

definition settled_r :: "taskdata \<Rightarrow> string \<Rightarrow> bool" where
  "settled_r td t \<longleftrightarrow> rprov td t \<noteq> [] \<or> t \<in> set (td_failed_rdeps td)"

definition conf :: "taskdata \<Rightarrow> bool \<times> string list \<times> bool" where
  "conf td = (td_abort td, td_external_targets td, td_allowincomplete td)"

definition progress :: "taskdata \<Rightarrow> taskdata \<Rightarrow> bool" where
  "progress td td' \<longleftrightarrow> conf td' = conf td \<and> set (td_seenfns td) \<subseteq> set (td_seenfns td') \<and> (\<forall>t. settled_b td t \<longrightarrow> settled_b td' t) \<and> (\<forall>t. settled_r td t \<longrightarrow> settled_r td' t)"

definition within :: "string set \<Rightarrow> taskdata \<Rightarrow> bool" where
  "within W td \<longleftrightarrow> set (dict_keys (td_build_targets td)) \<union> set (dict_keys (td_run_targets td)) \<subseteq> W"

lemma progress_refl [simp]: "progress td td"
  by (simp add: progress_def)

lemma progress_trans: "progress s t \<Longrightarrow> progress t u \<Longrightarrow> progress s u"
  by (auto simp: progress_def)

lemma evolve_progress:
  assumes "evolve I td td'"
  shows "progress td td'"
proof -
  note a = evolveD [OF assms]
  have "settled_b td' t" if "settled_b td t" for t
    using that a(5) by (auto simp: settled_b_def gone_b_def emptied_def)
  moreover have "settled_r td' t" if "settled_r td t" for t
    using that a(6) by (auto simp: settled_r_def gone_r_def emptied_def)
  ultimately show ?thesis using static_fields(3,6-8) [OF a(1)] by (simp add: progress_def conf_def)
qed

lemma evolve_within: "evolve I td td' \<Longrightarrow> within W td \<Longrightarrow> within W td'"
  using static_fields(4,5) [OF evolveD(1)] by (simp add: within_def del: set_map)

text \<open>The three statements the methods keep, relative to a first state.\<close>

definition tinv :: "string set \<Rightarrow> string set \<Rightarrow> string set \<Rightarrow> string set \<Rightarrow> taskdata \<Rightarrow> taskdata \<Rightarrow> bool" where
  "tinv X P Y W td0 td \<longleftrightarrow> td_inv_but X P Y td \<and> progress td0 td \<and> within W td"

definition core ::
    "taskdata \<Rightarrow> ((string, string list) dict \<times> (string, string list) dict \<times> string list \<times> string list \<times> string list) \<times>
       (string, string list) dict \<times> (string, string list) dict \<times> string list \<times> bool \<times> string list \<times> bool" where
  "core td = ((td_build_targets td, td_run_targets td, td_failed_deps td, td_failed_rdeps td, td_failed_fns td),
     td_depids td, td_rdepids td, td_seenfns td, conf td)"

lemma core_tinv: "core td' = core td \<Longrightarrow> tinv X P Y W td0 td' = tinv X P Y W td0 td"
  by (simp add: core_def tinv_def inv_defs td_clean_def within_def progress_def settled_b_def settled_r_def)

lemma tinv_trans: "tinv X P Y W s t \<Longrightarrow> progress r s \<Longrightarrow> tinv X P Y W r t"
  unfolding tinv_def using progress_trans by blast

lemma tinv_seen:
  assumes "tinv X P Y W td0 td" "n \<in> W"
  shows "tinv X P Y W td0 (seen_build_target n td)" "tinv X P Y W td0 (seen_run_target n td)"
proof -
  have "progress td (seen_build_target n td)" "progress td (seen_run_target n td)"
    by (simp_all add: progress_def conf_def settled_b_def settled_r_def seen_build_target_def seen_run_target_def)
  moreover have "within W (seen_build_target n td)" "within W (seen_run_target n td)"
    using assms by (simp_all add: tinv_def within_def seen_build_target_def seen_run_target_def keys_seen del: set_map)
  ultimately show "tinv X P Y W td0 (seen_build_target n td)" "tinv X P Y W td0 (seen_run_target n td)"
    using assms(1) inv_seen progress_trans unfolding tinv_def by blast+
qed

lemma tinv_add:
  assumes "tinv X P Y W td0 td" "n \<in> W" "f \<notin> set (td_failed_fns td)"
  shows "tinv X (insert f P) Y W td0 (add_build_target f n td)" "tinv X (insert f P) Y W td0 (add_runtime_target f n td)"
proof -
  have "progress td (add_build_target f n td)" "progress td (add_runtime_target f n td)"
    by (auto simp: progress_def conf_def settled_b_def settled_r_def add_build_target_def add_runtime_target_def dd_get_add)
  moreover have "within W (add_build_target f n td)" "within W (add_runtime_target f n td)"
    using assms by (simp_all add: tinv_def within_def add_build_target_def add_runtime_target_def keys_add del: set_map)
  ultimately show "tinv X (insert f P) Y W td0 (add_build_target f n td)" "tinv X (insert f P) Y W td0 (add_runtime_target f n td)"
    using assms(1) inv_add [OF _ assms(3)] progress_trans unfolding tinv_def by blast+
qed

lemma tinv_evolve:
  assumes "tinv X P Y W td0 td" "evolve I td td'" "\<forall>f \<in> X. Root f \<in> I"
  shows "tinv {} P Y W td0 td'"
  using assms evolve_inv [OF assms(2)] evolve_progress [OF assms(2)] evolve_within [OF assms(2)] progress_trans
  unfolding tinv_def by blast

section \<open>The tasks of a file\<close>

text \<open>The exceptions that the methods catch.\<close>

fun caught :: "py_error \<Rightarrow> bool" where
  "caught (NoProvider _) = True"
| "caught (NoRProvider _) = True"
| "caught (MultipleRProvider _) = True"
| "caught _ = False"

definition flag_names :: "string \<Rightarrow> taskdeps \<Rightarrow> string set" where
  "flag_names flag task_deps = {split_on (CHR '':'') w ! 0 |w task flags deps.
     map_of (tk_flags task_deps) flag = Some flags \<and> map_of flags task = Some deps \<and> w \<in> set (split_ws deps)}"

lemma collect_deps_tinv:
  assumes "tinv X P Y W td0 td" "\<forall>w \<in> set ws. split_on (CHR '':'') w ! 0 \<in> W"
    and seen: "\<And>n td. tinv X P Y W td0 td \<Longrightarrow> n \<in> W \<Longrightarrow> tinv X P Y W td0 (seen n td)"
  shows "ensures (\<lambda>p. tinv X P Y W td0 (snd p)) (\<lambda>e p. \<not> caught e) (collect_deps seen ws (ids, td))"
  using assms(1,2)
proof (induction ws arbitrary: ids td)
  case (Cons w ws)
  then show ?case using seen [of td "split_on (CHR '':'') w ! 0"] by (simp add: Let_def)
qed simp

lemma handle_deps_tinv:
  assumes "tinv X P Y W td0 td" "flag_names flag task_deps \<subseteq> W"
    and seen: "\<And>n td. tinv X P Y W td0 td \<Longrightarrow> n \<in> W \<Longrightarrow> tinv X P Y W td0 (seen n td)"
    and ext: "\<And>ids td. core (ext ids td) = core td"
  shows "ensures (tinv X P Y W td0) (\<lambda>e p. \<not> caught e) (handle_deps task_deps flag task seen ext td)"
proof (cases "map_of (tk_flags task_deps) flag")
  case (Some flags)
  show ?thesis
  proof (cases "map_of flags task")
    case (Some deps)
    have "\<forall>w \<in> set (split_ws deps). split_on (CHR '':'') w ! 0 \<in> W"
      using assms(2) \<open>map_of (tk_flags task_deps) flag = Some flags\<close> Some unfolding flag_names_def by blast
    from collect_deps_tinv [OF assms(1) this seen, where ids = "[]"]
    have "ensures (tinv X P Y W td0) (\<lambda>e p. \<not> caught e) (obind (collect_deps seen (split_ws deps) ([], td))
        (\<lambda>(ids, td'). Done (ext ids td')) (\<lambda>e (ids, td'). Raise e td'))"
      by (rule ensures_obind) (simp_all add: case_prod_beta core_tinv [OF ext])
    then show ?thesis using \<open>map_of (tk_flags task_deps) flag = Some flags\<close> Some by (simp add: handle_deps_def)
  qed (use assms(1) \<open>map_of (tk_flags task_deps) flag = Some flags\<close> in \<open>simp add: handle_deps_def\<close>)
qed (use assms(1) in \<open>simp add: handle_deps_def\<close>)

lemma core_upd_entry [simp]: "core (upd_entry tid f td) = core td"
  by (simp add: upd_entry_def core_def conf_def split: option.splits)

lemma core_upds [simp]:
  "core (td\<lparr>td_taskentries := x\<rparr>) = core td" "core (td\<lparr>td_mcdepends := y\<rparr>) = core td"
  "core (td\<lparr>td_consider_msgs_cache := z\<rparr>) = core td"
  by (simp_all add: core_def conf_def)

lemma add_mcdepends_tinv:
  "tinv X P Y W td0 td \<Longrightarrow> ensures (tinv X P Y W td0) (\<lambda>e p. \<not> caught e) (add_mcdepends deps td)"
  unfolding add_mcdepends_def by (rule for_each_ensures) (simp_all add: core_tinv [OF core_upds(2)])

lemma dict_lookup_error: "dict_lookup d k = Inl e \<Longrightarrow> \<not> caught e"
  by (auto simp: dict_lookup_def split: option.splits)

lemma add_task_tinv:
  assumes "tinv X P Y W td0 td" "flag_names ''depends'' task_deps \<subseteq> W" "flag_names ''rdepends'' task_deps \<subseteq> W"
  shows "ensures (tinv X P Y W td0) (\<lambda>e p. \<not> caught e) (add_task fn task_deps task td)"
  unfolding add_task_def Let_def
proof (rule ensures_with_result)
  fix parents
  let ?tid = "task_tid fn task"
  let ?td1 = "td\<lparr>td_taskentries := dict_set ?tid TaskEntry (td_taskentries td)\<rparr>"
  let ?td2 = "upd_entry ?tid (\<lambda>e. e\<lparr>te_tdepends := te_tdepends e @ map (task_tid fn) (filter (\<lambda>dep. dep \<in> set (tk_tasks task_deps)) parents)\<rparr>) ?td1"
  have "tinv X P Y W td0 ?td2" using assms(1) core_tinv [of ?td2 td] by simp
  then show "ensures (tinv X P Y W td0) (\<lambda>e p. \<not> caught e)
    (oseq (handle_deps task_deps ''depends'' task seen_build_target
             (\<lambda>ids. upd_entry ?tid (\<lambda>e. e\<lparr>te_idepends := te_idepends e @ ids\<rparr>)) ?td2) (\<lambda>td3.
     oseq (handle_deps task_deps ''rdepends'' task seen_run_target
             (\<lambda>ids. upd_entry ?tid (\<lambda>e. e\<lparr>te_irdepends := te_irdepends e @ ids\<rparr>)) td3) (\<lambda>td4.
     case map_of (tk_flags task_deps) ''mcdepends'' of
       None \<Rightarrow> Done td4
     | Some flags \<Rightarrow> (case map_of flags task of None \<Rightarrow> Done td4 | Some deps \<Rightarrow> add_mcdepends deps td4))))"
    by (intro ensures_obind [OF handle_deps_tinv] assms(2,3) tinv_seen core_upd_entry)
       (auto split: option.splits intro: add_mcdepends_tinv dest: subsetD [OF assms(2)] subsetD [OF assms(3)])
qed (use dict_lookup_error in blast)

text \<open>The cache mentions only names in \<open>W\<close>; the environment keeps to them.\<close>

definition dc_within :: "string set \<Rightarrow> cachedata \<Rightarrow> bool" where
  "dc_within W dc \<longleftrightarrow> (\<forall>fn. set (dd_get (dc_deps dc) fn) \<subseteq> W \<and> set (runtime_names fn dc) \<subseteq> W \<and>
     (\<forall>td. map_of (dc_task_deps dc) fn = Some td \<longrightarrow> flag_names ''depends'' td \<subseteq> W \<and> flag_names ''rdepends'' td \<subseteq> W))"

definition dinv :: "string set \<Rightarrow> string list \<Rightarrow> cachedata \<Rightarrow> bool" where
  "dinv W ign dc \<longleftrightarrow> dc_within W dc \<and> dc_ignored_dependencies dc = ign"

definition env_ok :: "string set \<Rightarrow> td_env \<Rightarrow> bool" where
  "env_ok W env \<longleftrightarrow> (\<forall>xs. set (env_set env xs) = set xs) \<and>
     (\<forall>func pn deps world pkg_pn.
        (\<forall>e. env_extra env func pn deps world pkg_pn = Inl e \<longrightarrow> \<not> caught e) \<and>
        (\<forall>r. env_extra env func pn deps world pkg_pn = Inr r \<and> set deps \<subseteq> W \<longrightarrow> set (fst r) \<subseteq> W))"

lemma plain_rbind: "(\<And>e. r = Inl e \<Longrightarrow> \<not> caught e) \<Longrightarrow> (\<And>a e. f a = Inl e \<Longrightarrow> \<not> caught e) \<Longrightarrow> rbind r f = Inl e \<Longrightarrow> \<not> caught e"
  by (cases r) auto

lemma foreign_provider_error: "foreign_provider dc pn pfs = Inl e \<Longrightarrow> \<not> caught e"
proof (induction pfs)
  case (Cons pf pfs)
  then show ?case
    by (cases "dict_lookup (dc_pkg_fn dc) pf") (auto dest: dict_lookup_error split: if_splits)
qed simp

lemma world_provides_error: "world_provides dc pn ps t = Inl e \<Longrightarrow> \<not> caught e"
proof (induction ps arbitrary: t)
  case (Cons p ps)
  show ?case
  proof (cases "startswith p ''virtual/''")
    case True
    then show ?thesis using Cons.prems by simp
  next
    case False
    with Cons show ?thesis
      by (cases "foreign_provider dc pn (dd_get (dc_providers dc) p)") (auto dest: foreign_provider_error)
  qed
qed simp

lemma has_task_error:
  "(if opt_truthy task then rbind (dict_lookup d f) (\<lambda>td. Inr (the task \<in> set (tk_tasks td))) else Inr True) = Inl e \<Longrightarrow> \<not> caught e"
  by (cases "map_of d f") (auto simp: dict_lookup_def split: if_splits)

lemma world_step_error: "world_step task f dc = Inl e \<Longrightarrow> \<not> caught e"
  unfolding world_step_def
  by (elim plain_rbind [rotated 2]) (auto dest: dict_lookup_error world_provides_error has_task_error)

lemma rfold_error: "(\<And>x b e. f x b = Inl e \<Longrightarrow> \<not> caught e) \<Longrightarrow> rfold f xs b = Inl e \<Longrightarrow> \<not> caught e"
proof (induction xs arbitrary: b)
  case (Cons x xs)
  then show ?case by (cases "f x b") auto
qed simp

lemma world_error: "buildWorldTargetList task dc = Inl e \<Longrightarrow> \<not> caught e"
  unfolding buildWorldTargetList_def using rfold_error world_step_error by (metis Inr_Inl_False)

lemma world_step_frame: "world_step task f dc = Inr dc' \<Longrightarrow> dc'\<lparr>dc_world_target := []\<rparr> = dc\<lparr>dc_world_target := []\<rparr>"
  unfolding world_step_def rbind_eq_Inr by (elim exE conjE) (auto split: if_splits)

lemma world_frame:
  assumes "buildWorldTargetList task dc = Inr dc'"
  shows "dc'\<lparr>dc_world_target := []\<rparr> = dc\<lparr>dc_world_target := []\<rparr>"
proof (cases "dc_world_target dc = []")
  case True
  then have "rfold (world_step task) (dc_possible_world dc) dc = Inr dc'"
    using assms by (simp add: buildWorldTargetList_def)
  then show ?thesis
    by (rule rfold_invariant [where I = "\<lambda>d. d\<lparr>dc_world_target := []\<rparr> = dc\<lparr>dc_world_target := []\<rparr>"])
       (auto dest: world_step_frame)
qed (use assms in \<open>simp add: buildWorldTargetList_def\<close>)

lemma frame_fields:
  assumes "dc'\<lparr>dc_world_target := []\<rparr> = dc\<lparr>dc_world_target := []\<rparr>"
  shows "dc_deps dc' = dc_deps dc" "dc_rundeps dc' = dc_rundeps dc" "dc_runrecs dc' = dc_runrecs dc"
    "dc_task_deps dc' = dc_task_deps dc" "dc_ignored_dependencies dc' = dc_ignored_dependencies dc"
  using assms by (metis cachedata.select_convs cachedata.surjective cachedata.update_convs(31))+

definition sinv :: "string set \<Rightarrow> string set \<Rightarrow> string set \<Rightarrow> string set \<Rightarrow> string list \<Rightarrow> taskdata \<Rightarrow> tstate \<Rightarrow> bool" where
  "sinv X P Y W ign td0 s \<longleftrightarrow> tinv X P Y W td0 (ts_td s) \<and> dinv W ign (ts_dc s)"

lemma add_extra_deps_sinv:
  assumes "env_ok W env" "sinv X P Y W ign td0 s"
  shows "ensures (\<lambda>u. sinv X P Y W ign td0 u \<and> ts_td u = ts_td s \<and> dc_task_deps (ts_dc u) = dc_task_deps (ts_dc s))
    (\<lambda>e u. \<not> caught e) (add_extra_deps env fn s)"
proof (cases "map_of (dc_extradepsfunc (ts_dc s)) fn")
  case (Some func)
  have extra: "set (fst r) \<subseteq> W" if "env_extra env func pn deps world pkg_pn = Inr r" "set deps \<subseteq> W" for pn deps world pkg_pn r
    using assms(1) that unfolding env_ok_def by blast
  have "ensures (\<lambda>u. sinv X P Y W ign td0 u \<and> ts_td u = ts_td s \<and> dc_task_deps (ts_dc u) = dc_task_deps (ts_dc s))
    (\<lambda>e u. \<not> caught e)
    (with_result (buildWorldTargetList None (ts_dc s)) s (\<lambda>dc.
     with_result (dict_lookup (dc_pkg_fn dc) fn) (s\<lparr>ts_dc := dc\<rparr>) (\<lambda>pn.
     with_result (env_extra env func pn (dd_get (dc_deps dc) fn) (dc_world_target dc) (dc_pkg_pn dc)) (s\<lparr>ts_dc := dc\<rparr>)
       (\<lambda>(deps, world, pkg_pn).
          Done (s\<lparr>ts_dc := dc\<lparr>dc_deps := dict_set fn deps (dc_deps dc), dc_world_target := world, dc_pkg_pn := pkg_pn\<rparr>\<rparr>)))))"
  proof (intro ensures_with_result)
    fix dc pn r
    assume "buildWorldTargetList None (ts_dc s) = Inr dc"
      and r: "env_extra env func pn (dd_get (dc_deps dc) fn) (dc_world_target dc) (dc_pkg_pn dc) = Inr r"
    then have fr: "dc_deps dc = dc_deps (ts_dc s)" "dc_rundeps dc = dc_rundeps (ts_dc s)" "dc_runrecs dc = dc_runrecs (ts_dc s)"
      "dc_task_deps dc = dc_task_deps (ts_dc s)" "dc_ignored_dependencies dc = dc_ignored_dependencies (ts_dc s)"
      using frame_fields [OF world_frame] by blast+
    have w: "dc_within W (ts_dc s)" "dc_ignored_dependencies (ts_dc s) = ign" "tinv X P Y W td0 (ts_td s)"
      using assms(2) by (simp_all add: sinv_def dinv_def)
    have "set (fst r) \<subseteq> W" using extra [OF r] w(1) fr(1) by (simp add: dc_within_def)
    then have "dc_within W (dc\<lparr>dc_deps := dict_set fn (fst r) (dc_deps dc), dc_world_target := x, dc_pkg_pn := y\<rparr>)" for x y
      using w(1) by (simp add: dc_within_def fr runtime_names_def)
    then show "ensures (\<lambda>u. sinv X P Y W ign td0 u \<and> ts_td u = ts_td s \<and> dc_task_deps (ts_dc u) = dc_task_deps (ts_dc s))
      (\<lambda>e u. \<not> caught e) (case r of (deps, world, pkg_pn) \<Rightarrow>
          Done (s\<lparr>ts_dc := dc\<lparr>dc_deps := dict_set fn deps (dc_deps dc), dc_world_target := world, dc_pkg_pn := pkg_pn\<rparr>\<rparr>))"
      using w(2,3) by (simp add: case_prod_beta sinv_def dinv_def fr)
  next
    fix e dc pn assume "env_extra env func pn (dd_get (dc_deps dc) fn) (dc_world_target dc) (dc_pkg_pn dc) = Inl e"
    then show "\<not> caught e" using assms(1) unfolding env_ok_def by blast
  qed (use world_error dict_lookup_error in blast)+
  with Some show ?thesis using assms(2) by (simp add: add_extra_deps_def)
qed (use assms(2) in \<open>simp add: add_extra_deps_def\<close>)

section \<open>Recording and checking the dependencies of a file\<close>

text \<open>The loops that note the dependencies and fail the file when one of them has failed.\<close>

lemma fail_fn_tinv:
  assumes "tinv {fn} P Y W td0 td" "may_raise td = {}"
  shows "ensures (tinv {} P Y W td0) (\<lambda>e u. \<not> caught e) (fail_fn fn td)"
proof -
  have "td_clean td" using assms(1) by (simp add: tinv_def td_inv_but_def)
  from fail_fn_evolves [OF this, of fn] show ?thesis
    by (rule ensures_mono) (use assms tinv_evolve [OF assms(1)] in auto)
qed

lemma progress_may_raise: "progress td td' \<Longrightarrow> may_raise td' = may_raise td"
  by (simp add: progress_def conf_def may_raise_def)

definition bdone :: "string \<Rightarrow> string list \<Rightarrow> taskdata \<Rightarrow> bool" where
  "bdone fn ds td \<longleftrightarrow> (\<forall>d \<in> set (dd_get (td_depids td) fn) - set ds.
     d \<in> set (dict_keys (td_build_targets td)) \<and> d \<notin> set (td_failed_deps td))"

definition rdone :: "string \<Rightarrow> string list \<Rightarrow> taskdata \<Rightarrow> bool" where
  "rdone fn ds td \<longleftrightarrow> (\<forall>d \<in> set (dd_get (td_rdepids td) fn) - set ds.
     d \<in> set (dict_keys (td_run_targets td)) \<and> d \<notin> set (td_failed_rdeps td))"

lemma check_rdepids_tinv:
  assumes "tinv {fn} P Y W td0 td" "may_raise td0 = {}" "set ds \<subseteq> W" "bdone fn [] td" "rdone fn ds td"
  shows "ensures (tinv {} P Y W td0) (\<lambda>e u. \<not> caught e) (check_rdepids fn ds td)"
  using assms
proof (induction ds arbitrary: td)
  case Nil
  then have "live_deps {} td" "live_rdeps {} td"
    by (auto simp: tinv_def td_inv_but_def live_deps_def live_rdeps_def bdone_def rdone_def)
  with Nil show ?case by (simp add: tinv_def td_inv_but_def)
next
  case (Cons d ds)
  let ?td1 = "seen_run_target d td"
  have t1: "tinv {fn} P Y W td0 ?td1" using Cons.prems tinv_seen(2) by simp
  have mr: "may_raise ?td1 = {}" using t1 Cons.prems(2) progress_may_raise unfolding tinv_def by metis
  show ?case
  proof (cases "d \<in> set (td_failed_rdeps ?td1)")
    case True
    then show ?thesis using fail_fn_tinv [OF t1 mr] by simp
  next
    case False
    have "rdone fn ds ?td1" "bdone fn [] ?td1"
      using Cons.prems(4,5) False by (auto simp: rdone_def bdone_def seen_run_target_def keys_seen simp del: set_map)
    with False t1 Cons show ?thesis by (simp add: Let_def)
  qed
qed

lemma check_depids_tinv:
  assumes "tinv {fn} P Y W td0 td" "may_raise td0 = {}" "set ds \<subseteq> W" "set (dd_get (td_rdepids td) fn) \<subseteq> W" "bdone fn ds td"
  shows "ensures (tinv {} P Y W td0) (\<lambda>e u. \<not> caught e) (check_depids fn ds td)"
  using assms
proof (induction ds arbitrary: td)
  case Nil
  then show ?case using check_rdepids_tinv [of fn P Y W td0 td] by (simp add: rdone_def)
next
  case (Cons d ds)
  let ?td1 = "seen_build_target d td"
  have t1: "tinv {fn} P Y W td0 ?td1" using Cons.prems tinv_seen(1) by simp
  have mr: "may_raise ?td1 = {}" using t1 Cons.prems(2) progress_may_raise unfolding tinv_def by metis
  show ?case
  proof (cases "d \<in> set (td_failed_deps ?td1)")
    case True
    then show ?thesis using fail_fn_tinv [OF t1 mr] by simp
  next
    case False
    have "bdone fn ds ?td1"
      using Cons.prems(5) False by (auto simp: bdone_def seen_build_target_def keys_seen simp del: set_map)
    moreover have "set (dd_get (td_rdepids ?td1) fn) \<subseteq> W" using Cons.prems(4) by (simp add: seen_build_target_def)
    ultimately show ?thesis using False t1 Cons by (simp add: Let_def)
  qed
qed

lemma record_tinv:
  assumes "tinv {} {} {fn} W td0 td" "fn \<in> set (td_seenfns td)" "dc_within W dc" "env_ok W env"
  defines "td' \<equiv> record_rdepids env fn dc (record_depids env fn dc td)"
  shows "tinv {fn} {} {} W td0 td' \<and> set (dd_get (td_depids td') fn) \<subseteq> W \<and> set (dd_get (td_rdepids td') fn) \<subseteq> W"
proof -
  let ?b = "env_set env (dd_get (dc_deps dc) fn)" and ?r = "env_set env (runtime_names fn dc)"
  have i: "td_inv_but {} {} {fn} td" using assms(1) by (simp add: tinv_def)
  then have rec: "fn \<notin> set (dict_keys (td_depids td))" "fn \<notin> set (dict_keys (td_rdepids td))"
    by (auto simp: td_inv_but_def seen_recorded_def)
  then have td': "td' = td\<lparr>td_depids := dict_set fn ?b (td_depids td), td_rdepids := dict_set fn ?r (td_rdepids td)\<rparr>"
    by (simp add: td'_def record_rdepids_def record_depids_def has_key_iff del: set_map)
  have W: "set ?b \<subseteq> W" "set ?r \<subseteq> W" using assms(3,4) by (simp_all add: env_ok_def dc_within_def)
  have "td_clean td'" using i by (simp add: td_inv_but_def td_clean_def td')
  moreover have "live_deps {fn} td'" "live_rdeps {fn} td'"
    using i rec unfolding td_inv_but_def live_deps_def live_rdeps_def td' by (auto simp: dict_keys_set simp del: set_map)
  moreover have "providers_seen {} td'" using i by (simp add: td_inv_but_def providers_seen_def td')
  moreover have "seen_recorded {} td'"
    using i rec assms(2) unfolding td_inv_but_def seen_recorded_def td' by (auto simp: dict_keys_set simp del: set_map)
  ultimately have "td_inv_but {fn} {} {} td'" by (simp add: td_inv_but_def)
  moreover have "progress td td'" "within W td'"
    using assms(1) by (simp_all add: td' progress_def conf_def settled_b_def settled_r_def tinv_def within_def del: set_map)
  ultimately have "tinv {fn} {} {} W td0 td'" using assms(1) progress_trans unfolding tinv_def by blast
  then show ?thesis using W by (simp add: td')
qed

lemma add_tasks_sinv:
  assumes "env_ok W env" "sinv {} {fn} {} W ign td0 s" "may_raise td0 = {}"
  shows "ensures (sinv {} {} {} W ign td0) (\<lambda>e u. \<not> caught e) (add_tasks env fn s)"
  unfolding add_tasks_def
proof (rule ensures_with_result)
  fix task_deps assume td: "dict_lookup (dc_task_deps (ts_dc s)) fn = Inr task_deps"
  let ?s0 = "upd_td (\<lambda>td. td\<lparr>td_seenfns := td_seenfns td @ [fn]\<rparr>) s"
  have inv: "tinv {} {fn} {} W td0 (ts_td s)" "dinv W ign (ts_dc s)" using assms(2) by (simp_all add: sinv_def)
  have seen: "sinv {} {} {} W ign td0 s" if "fn \<in> set (td_seenfns (ts_td s))"
  proof -
    have "providers_seen {} (ts_td s)" using inv(1) that unfolding tinv_def td_inv_but_def providers_seen_def by blast
    then show ?thesis using inv by (simp add: sinv_def tinv_def td_inv_but_def)
  qed
  have tasks: "ensures (sinv {} {} {} W ign td0) (\<lambda>e u. \<not> caught e)
    (oseq (add_extra_deps env fn ?s0) (\<lambda>s1.
     oseq (on_td (for_each (add_task fn task_deps) (tk_tasks task_deps)) s1) (\<lambda>s2.
     on_td (\<lambda>td. let td' = record_rdepids env fn (ts_dc s2) (record_depids env fn (ts_dc s2) td)
                  in check_depids fn (dd_get (td_depids td') fn) td') s2)))"
    if ns: "fn \<notin> set (td_seenfns (ts_td s))"
  proof -
    have P: "providers_seen {} (ts_td ?s0)"
      using inv(1) unfolding tinv_def td_inv_but_def providers_seen_def upd_td_def by simp
    have "td_clean (ts_td ?s0)" "live_deps {} (ts_td ?s0)" "live_rdeps {} (ts_td ?s0)"
      using inv(1) unfolding tinv_def td_inv_but_def upd_td_def td_clean_def live_deps_def live_rdeps_def by simp_all
    moreover have "seen_recorded {fn} (ts_td ?s0)"
      using inv(1) ns unfolding tinv_def td_inv_but_def upd_td_def seen_recorded_def by simp
    ultimately have i0: "td_inv_but {} {} {fn} (ts_td ?s0)" using P by (simp add: td_inv_but_def)
    have p0: "progress td0 (ts_td ?s0)" "within W (ts_td ?s0)"
      using inv(1) by (auto simp: tinv_def progress_def conf_def settled_b_def settled_r_def within_def upd_td_def)
    have "sinv {} {} {fn} W ign (ts_td ?s0) ?s0" using i0 p0(2) inv(2) by (simp add: sinv_def tinv_def upd_td_def)
    then show ?thesis
    proof (intro ensures_obind [OF add_extra_deps_sinv [OF assms(1)]])
      fix s1 assume s1: "sinv {} {} {fn} W ign (ts_td ?s0) s1 \<and> ts_td s1 = ts_td ?s0 \<and> dc_task_deps (ts_dc s1) = dc_task_deps (ts_dc ?s0)"
      have flags: "flag_names ''depends'' task_deps \<subseteq> W" "flag_names ''rdepends'' task_deps \<subseteq> W"
        using td inv(2) by (auto simp: dinv_def dc_within_def dict_lookup_def split: option.splits)
      have "ensures (tinv {} {} {fn} W (ts_td ?s0)) (\<lambda>e u. \<not> caught e)
          (for_each (add_task fn task_deps) (tk_tasks task_deps) (ts_td s1))"
        using s1 add_task_tinv [OF _ flags] by (intro for_each_ensures) (auto simp: sinv_def)
      then have "ensures (\<lambda>s2. tinv {} {} {fn} W (ts_td ?s0) (ts_td s2) \<and> ts_dc s2 = ts_dc s1) (\<lambda>e u. \<not> caught e)
          (on_td (for_each (add_task fn task_deps) (tk_tasks task_deps)) s1)"
        by (simp add: on_td_def)
      then show "ensures (sinv {} {} {} W ign td0) (\<lambda>e u. \<not> caught e)
        (oseq (on_td (for_each (add_task fn task_deps) (tk_tasks task_deps)) s1) (\<lambda>s2.
         on_td (\<lambda>td. let td' = record_rdepids env fn (ts_dc s2) (record_depids env fn (ts_dc s2) td)
                      in check_depids fn (dd_get (td_depids td') fn) td') s2))"
      proof (rule ensures_obind)
        fix s2 :: tstate assume s2: "tinv {} {} {fn} W (ts_td ?s0) (ts_td s2) \<and> ts_dc s2 = ts_dc s1"
        let ?td' = "record_rdepids env fn (ts_dc s2) (record_depids env fn (ts_dc s2) (ts_td s2))"
        have t2: "tinv {} {} {fn} W td0 (ts_td s2)" using s2 p0(1) tinv_trans by blast
        have "fn \<in> set (td_seenfns (ts_td s2))"
          using s2 unfolding tinv_def progress_def upd_td_def by auto
        then have rec: "tinv {fn} {} {} W td0 ?td'" "set (dd_get (td_depids ?td') fn) \<subseteq> W" "set (dd_get (td_rdepids ?td') fn) \<subseteq> W"
          using record_tinv [OF t2 _ _ assms(1)] s1 s2 by (simp_all add: sinv_def dinv_def)
        have "ensures (tinv {} {} {} W td0) (\<lambda>e u. \<not> caught e) (check_depids fn (dd_get (td_depids ?td') fn) ?td')"
          by (rule check_depids_tinv [OF rec(1) assms(3) rec(2,3)]) (simp add: bdone_def)
        then show "ensures (sinv {} {} {} W ign td0) (\<lambda>e u. \<not> caught e)
          (on_td (\<lambda>td. let td' = record_rdepids env fn (ts_dc s2) (record_depids env fn (ts_dc s2) td)
                      in check_depids fn (dd_get (td_depids td') fn) td') s2)"
          using s1 s2 by (simp add: on_td_def Let_def sinv_def)
      qed simp
    qed simp_all
  qed
  show "ensures (sinv {} {} {} W ign td0) (\<lambda>e u. \<not> caught e)
    (if fn \<in> set (td_failed_fns (ts_td s)) then Raise (FatalExit fn) s
     else if fn \<in> set (td_seenfns (ts_td s)) then Done s
     else oseq (add_extra_deps env fn ?s0) (\<lambda>s1.
          oseq (on_td (for_each (add_task fn task_deps) (tk_tasks task_deps)) s1) (\<lambda>s2.
          on_td (\<lambda>td. let td' = record_rdepids env fn (ts_dc s2) (record_depids env fn (ts_dc s2) td)
                      in check_depids fn (dd_get (td_depids td') fn) td') s2)))"
    using seen tasks by simp
qed (use dict_lookup_error in blast)

section \<open>Choosing providers\<close>

lemma add_eligible_sinv:
  assumes "env_ok W env" "may_raise td0 = {}" "item \<in> W" "sinv {} {} {} W ign td0 s"
    and add: "\<And>f td. tinv {} {} {} W td0 td \<Longrightarrow> f \<notin> set (td_failed_fns td) \<Longrightarrow> tinv {} {f} {} W td0 (add f item td)"
  shows "ensures (sinv {} {} {} W ign td0) (\<lambda>e u. \<not> caught e) (add_eligible env add item el s)"
  unfolding add_eligible_def using assms(4)
proof (rule for_each_ensures)
  fix f u assume u: "sinv {} {} {} W ign td0 u"
  show "ensures (sinv {} {} {} W ign td0) (\<lambda>e u. \<not> caught e)
    (if f \<in> set (td_failed_fns (ts_td u)) then Done u else add_tasks env f (upd_td (add f item) u))"
  proof (cases "f \<in> set (td_failed_fns (ts_td u))")
    case False
    then have "sinv {} {f} {} W ign td0 (upd_td (add f item) u)"
      using u add [of "ts_td u" f] by (simp add: sinv_def upd_td_def)
    from add_tasks_sinv [OF assms(1) this assms(2)] False show ?thesis by simp
  qed (use u in simp)
qed

text \<open>When the first eligible file has not failed, the target is settled afterwards.\<close>

lemma add_eligible_settles:
  assumes "env_ok W env" "may_raise td0 = {}" "item \<in> W" "sinv {} {} {} W ign td0 s"
    and add: "\<And>f td0 td. tinv {} {} {} W td0 td \<Longrightarrow> f \<notin> set (td_failed_fns td) \<Longrightarrow> tinv {} {f} {} W td0 (add f item td)"
    and settles: "\<And>f td. settled (add f item td)"
    and mono: "\<And>td td'. progress td td' \<Longrightarrow> settled td \<Longrightarrow> settled td'"
    and el: "el = f # fs" "f \<notin> set (td_failed_fns (ts_td s))"
  shows "ensures (\<lambda>u. sinv {} {} {} W ign td0 u \<and> settled (ts_td u)) (\<lambda>e u. \<not> caught e) (add_eligible env add item el s)"
proof -
  let ?s1 = "upd_td (add f item) s" and ?td1 = "add f item (ts_td s)"
  have t: "tinv {} {} {} W td0 (ts_td s)" using assms(4) by (simp add: sinv_def)
  have t1: "tinv {} {f} {} W td0 ?td1" by (rule add [OF t el(2)])
  then have p: "progress td0 ?td1" by (simp add: tinv_def)
  have mr: "may_raise ?td1 = {}" using progress_may_raise [OF p] assms(2) by simp
  have s1: "sinv {} {f} {} W ign ?td1 ?s1"
    using t1 assms(4) by (simp add: sinv_def tinv_def upd_td_def)
  have step: "ensures (sinv {} {} {} W ign ?td1) (\<lambda>e u. \<not> caught e) (add_tasks env f ?s1)"
    by (rule add_tasks_sinv [OF assms(1) s1 mr])
  have "add_eligible env add item el s = oseq (add_tasks env f ?s1) (add_eligible env add item fs)"
    using el by (simp add: add_eligible_def)
  also have "ensures (sinv {} {} {} W ign ?td1) (\<lambda>e u. \<not> caught e) \<dots>"
    using step
  proof (rule ensures_obind)
    fix u assume "sinv {} {} {} W ign ?td1 u"
    then show "ensures (sinv {} {} {} W ign ?td1) (\<lambda>e u. \<not> caught e) (add_eligible env add item fs u)"
      by (rule add_eligible_sinv [OF assms(1) mr assms(3)]) (rule add)
  qed simp
  finally show ?thesis
  proof (rule ensures_mono)
    fix u assume u: "sinv {} {} {} W ign ?td1 u"
    then have "sinv {} {} {} W ign td0 u" using tinv_trans [OF _ p] by (simp add: sinv_def)
    moreover have "settled (ts_td u)" using u mono [OF _ settles] by (auto simp: sinv_def tinv_def)
    ultimately show "sinv {} {} {} W ign td0 u \<and> settled (ts_td u)" ..
  qed
qed

lemma settled_add: "settled_b (add_build_target f n td) n" "settled_r (add_runtime_target f n td) n"
  by (auto simp: settled_b_def settled_r_def add_build_target_def add_runtime_target_def dd_get_add)

lemma settled_mono: "progress td td' \<Longrightarrow> settled_b td t \<Longrightarrow> settled_b td' t" "progress td td' \<Longrightarrow> settled_r td t \<Longrightarrow> settled_r td' t"
  by (simp_all add: progress_def)

definition forget :: "taskdata \<Rightarrow> taskdata" where
  "forget td = td\<lparr>td_consider_msgs_cache := []\<rparr>"

lemma forget_core: "forget td' = forget td \<Longrightarrow> core td' = core td"
  unfolding forget_def using core_upds(3) by metis

text \<open>A caught exception leaves the database as it was, apart from the list of messages already shown.\<close>

definition unchanged :: "string set \<Rightarrow> string list \<Rightarrow> tstate \<Rightarrow> py_error \<Rightarrow> tstate \<Rightarrow> bool" where
  "unchanged W ign s e u \<longleftrightarrow> (caught e \<longrightarrow> forget (ts_td u) = forget (ts_td s) \<and> dinv W ign (ts_dc u))"

lemma pkg_names_error:
  "rfold (\<lambda>fn l. rbind (dict_lookup d fn) (\<lambda>pn. Inr (l @ [pn]))) xs ys = Inl e \<Longrightarrow> \<not> caught e"
proof (rule rfold_error)
  fix x b e assume "rbind (dict_lookup d x) (\<lambda>pn. Inr (b @ [pn])) = Inl e"
  then show "\<not> caught e" by (cases "map_of d x") (auto simp: dict_lookup_def)
qed

lemma note_candidates_ok:
  "ensures (\<lambda>u. forget (ts_td u) = forget (ts_td s) \<and> ts_dc u = ts_dc s) (\<lambda>e u. \<not> caught e) (note_candidates item rt el s)"
proof -
  have "ensures (\<lambda>u. ts_td u = ts_td s \<and> ts_dc u = ts_dc s) (\<lambda>e u. \<not> caught e)
      (if item \<in> set (td_consider_msgs_cache (ts_td s)) then Done s
       else with_result (rfold (\<lambda>fn l. rbind (dict_lookup (dc_pkg_fn (ts_dc s)) fn) (\<lambda>pn. Inr (l @ [pn]))) el []) s
              (\<lambda>providers_list. Done (fire (MultipleProvidersEvent item providers_list rt) s)))"
    by (auto simp: fire_def intro: ensures_with_result dest: pkg_names_error)
  then show ?thesis
    unfolding note_candidates_def by (rule ensures_obind) (simp_all add: upd_td_def forget_def)
qed

lemma filterProviders_dc:
  "filterProviders ps item cfg dc = Inr (el, u, pr, dc') \<Longrightarrow> dc' = record_preference item cfg dc"
  unfolding filterProviders_def Let_def rbind_eq_Inr by (auto split: option.splits)

lemma dinv_preference: "dinv W ign (record_preference item cfg dc) = dinv W ign dc"
  by (simp add: record_preference_def Let_def dinv_def dc_within_def runtime_names_def)

lemma dinv_providers: "dinv W ign (dc\<lparr>dc_providers := x\<rparr>) = dinv W ign dc"
  by (simp add: dinv_def dc_within_def runtime_names_def)

lemma unchanged_self [simp]: "dinv W ign (ts_dc s) \<Longrightarrow> unchanged W ign s e s"
  by (simp add: unchanged_def)

lemma unchanged_fire [simp]: "dinv W ign (ts_dc s) \<Longrightarrow> unchanged W ign s e (fire ev s)"
  by (simp add: unchanged_def fire_def)

lemma no_provider_ok: "dinv W ign (ts_dc s) \<Longrightarrow> ensures P (unchanged W ign s) (no_provider env item s)"
  unfolding no_provider_def by (intro ensures_with_result) simp_all

lemma have_settled: "have_build_target t td \<Longrightarrow> settled_b td t" "have_runtime_target t td \<Longrightarrow> settled_r td t"
  by (simp_all add: have_build_target_def have_runtime_target_def settled_b_def settled_r_def)

lemma filter_hd_not:
  assumes "filter (\<lambda>p. p \<notin> F) xs \<noteq> []"
  obtains f fs where "filter (\<lambda>p. p \<notin> F) xs = f # fs" "f \<notin> F"
proof -
  obtain f fs where "filter (\<lambda>p. p \<notin> F) xs = f # fs" using assms by (cases "filter (\<lambda>p. p \<notin> F) xs") auto
  moreover from this have "f \<in> set (filter (\<lambda>p. p \<notin> F) xs)" unfolding \<open>filter _ xs = _\<close> by simp
  then have "f \<notin> F" unfolding set_filter by blast
  ultimately show thesis using that by blast
qed

lemma sinv_forget:
  assumes "sinv X P Y W ign td0 s" "forget (ts_td u) = forget (ts_td s)" "dinv W ign (ts_dc u)"
  shows "sinv X P Y W ign td0 u"
  using assms core_tinv [OF forget_core [OF assms(2)]] by (simp add: sinv_def)

lemma forget_failed: "forget td' = forget td \<Longrightarrow> td_failed_fns td' = td_failed_fns td"
  using forget_core [of td' td] by (simp add: core_def)

definition resolving :: "string set \<Rightarrow> td_env \<Rightarrow> taskdata \<Rightarrow> string \<Rightarrow> string list \<Rightarrow> bool" where
  "resolving W env td0 item ign \<longleftrightarrow> env_ok W env \<and> may_raise td0 = {} \<and> item \<in> W"

lemma resolvingD:
  assumes "resolving W env td0 item ign"
  shows "env_ok W env" "may_raise td0 = {}" "item \<in> W"
  using assms by (simp_all add: resolving_def)

lemma add_build_ok:
  assumes r: "resolving W env td0 item ign" and "sinv {} {} {} W ign td0 u" "el = f # fs" "f \<notin> set (td_failed_fns (ts_td u))"
  shows "ensures (\<lambda>v. sinv {} {} {} W ign td0 v \<and> settled_b (ts_td v) item) (\<lambda>e v. \<not> caught e)
    (add_eligible env add_build_target item el u)"
  by (rule add_eligible_settles [where settled = "\<lambda>td. settled_b td item", OF resolvingD [OF r] assms(2) _ _ _ assms(3,4)])
     (use tinv_add(1) [OF _ resolvingD(3) [OF r]] settled_add(1) settled_mono(1) in blast)+

lemma add_run_ok:
  assumes r: "resolving W env td0 item ign" and "sinv {} {} {} W ign td0 u" "el = f # fs" "f \<notin> set (td_failed_fns (ts_td u))"
  shows "ensures (\<lambda>v. sinv {} {} {} W ign td0 v \<and> settled_r (ts_td v) item) (\<lambda>e v. \<not> caught e)
    (add_eligible env add_runtime_target item el u)"
  by (rule add_eligible_settles [where settled = "\<lambda>td. settled_r td item", OF resolvingD [OF r] assms(2) _ _ _ assms(3,4)])
     (use tinv_add(2) [OF _ resolvingD(3) [OF r]] settled_add(2) settled_mono(2) in blast)+

lemma noted_ok:
  assumes "forget (ts_td s1) = forget (ts_td s)" "dinv W ign (ts_dc s1)"
  shows "ensures (\<lambda>u. forget (ts_td u) = forget (ts_td s) \<and> dinv W ign (ts_dc u)) (unchanged W ign s)
    (if b then note_candidates item rt el s1 else Done s1)"
proof (cases b)
  case True
  from note_candidates_ok have "ensures (\<lambda>u. forget (ts_td u) = forget (ts_td s) \<and> dinv W ign (ts_dc u)) (unchanged W ign s)
      (note_candidates item rt el s1)"
    by (rule ensures_mono) (use assms in \<open>auto simp: unchanged_def\<close>)
  with True show ?thesis by simp
qed (use assms in simp)

lemma use_providers_ok:
  assumes r: "resolving W env td0 item ign" and inv: "sinv {} {} {} W ign td0 s"
    and fp: "filterProviders ps item cfg (ts_dc s) = Inr res"
  shows "ensures (\<lambda>u. sinv {} {} {} W ign td0 u \<and> settled_b (ts_td u) item) (unchanged W ign s) (use_providers env item s res)"
proof -
  obtain elig uq pr dc where res: "res = (elig, uq, pr, dc)" by (cases res)
  let ?s1 = "s\<lparr>ts_dc := dc\<lparr>dc_providers := dict_set item pr (dc_providers dc)\<rparr>\<rparr>"
  let ?F = "set (td_failed_fns (ts_td s))"
  have d1: "dinv W ign (ts_dc ?s1)"
    using inv filterProviders_dc [OF fp [unfolded res]] by (simp add: sinv_def dinv_providers dinv_preference)
  have raised: "unchanged W ign s e ?s1" "unchanged W ign s e (fire ev ?s1)" for e ev
    using d1 by (simp_all add: unchanged_def fire_def)
  show ?thesis
  proof (cases elig)
    case None
    then show ?thesis using raised(1) res by (simp add: use_providers_def)
  next
    case (Some elig0)
    show ?thesis
    proof (cases "filter (\<lambda>p. p \<notin> ?F) elig0 = []")
      case True
      then show ?thesis using Some raised(2) res by (simp add: use_providers_def Let_def)
    next
      case False
      let ?el = "filter (\<lambda>p. p \<notin> ?F) elig0"
      from False obtain f fs where f: "?el = f # fs" "f \<notin> ?F" by (rule filter_hd_not)
      have "ensures (\<lambda>u. sinv {} {} {} W ign td0 u \<and> settled_b (ts_td u) item) (unchanged W ign s)
        (oseq (if length ?el > 1 \<and> \<not> uq then note_candidates item False ?el ?s1 else Done ?s1) (add_eligible env add_build_target item ?el))"
      proof (rule ensures_obind [OF noted_ok [where s = s, OF _ d1]])
        fix u :: tstate assume u: "forget (ts_td u) = forget (ts_td s) \<and> dinv W ign (ts_dc u)"
    then have su: "sinv {} {} {} W ign td0 u" using sinv_forget [OF inv] by blast
    have fu: "f \<notin> set (td_failed_fns (ts_td u))" using u f(2) forget_failed [of "ts_td u" "ts_td s"] by simp
        have "ensures (\<lambda>v. sinv {} {} {} W ign td0 v \<and> settled_b (ts_td v) item) (\<lambda>e v. \<not> caught e)
            (add_eligible env add_build_target item ?el u)"
          by (rule add_build_ok [OF r su f(1) fu])
        then show "ensures (\<lambda>v. sinv {} {} {} W ign td0 v \<and> settled_b (ts_td v) item) (unchanged W ign s)
            (add_eligible env add_build_target item ?el u)"
          by (rule ensures_mono) (auto simp: unchanged_def)
      qed simp_all
      with False Some show ?thesis unfolding res use_providers_def by (simp add: Let_def)
    qed
  qed
qed

lemma add_provider_internal_ok:
  assumes r: "resolving W env td0 item ign" and inv: "sinv {} {} {} W ign td0 s"
  shows "ensures (\<lambda>u. sinv {} {} {} W ign td0 u \<and> (re_match_strings (env_re env) item ign = Inr True \<or> settled_b (ts_td u) item))
    (unchanged W ign s) (add_provider_internal env item s)"
proof -
  let ?post = "\<lambda>u. sinv {} {} {} W ign td0 u \<and> (re_match_strings (env_re env) item ign = Inr True \<or> settled_b (ts_td u) item)"
  have d: "dinv W ign (ts_dc s)" and ign: "dc_ignored_dependencies (ts_dc s) = ign" using inv by (simp_all add: sinv_def dinv_def)
  have chosen: "ensures ?post (unchanged W ign s)
      (with_result (filterProviders ps item cfg (ts_dc s)) s (use_providers env item s))" for ps cfg
  proof (rule ensures_with_result)
    fix res assume "filterProviders ps item cfg (ts_dc s) = Inr res"
    from use_providers_ok [OF r inv this] show "ensures ?post (unchanged W ign s) (use_providers env item s res)"
      by (rule ensures_mono) auto
  qed (use d in simp)
  show ?thesis
    unfolding add_provider_internal_def ign
    by (rule ensures_with_result) (use chosen d inv have_settled(1) in \<open>auto simp: no_provider_ok\<close>)
qed

lemma use_rproviders_ok:
  assumes r: "resolving W env td0 item ign" and inv: "sinv {} {} {} W ign td0 s"
  shows "ensures (\<lambda>u. sinv {} {} {} W ign td0 u \<and> settled_r (ts_td u) item) (unchanged W ign s) (use_rproviders env item s (elig0, k))"
proof (cases "filter (\<lambda>p. p \<notin> set (td_failed_fns (ts_td s))) elig0 = []")
  case True
  then show ?thesis using inv by (simp add: use_rproviders_def sinv_def)
next
  case False
  let ?el = "filter (\<lambda>p. p \<notin> set (td_failed_fns (ts_td s))) elig0"
  from False obtain f fs where f: "?el = f # fs" "f \<notin> set (td_failed_fns (ts_td s))" by (rule filter_hd_not)
  have d: "dinv W ign (ts_dc s)" using inv by (simp add: sinv_def)
  have "ensures (\<lambda>u. sinv {} {} {} W ign td0 u \<and> settled_r (ts_td u) item) (unchanged W ign s)
    (oseq (if length ?el > 1 \<and> k = 0 then note_candidates item True ?el s else Done s) (\<lambda>s1.
       if k > 1 then oseq (note_candidates item True ?el s1) (\<lambda>s2. Raise (MultipleRProvider item) s2)
       else add_eligible env add_runtime_target item ?el s1))"
  proof (rule ensures_obind [OF noted_ok [where s = s, OF refl d]])
    fix u :: tstate assume u: "forget (ts_td u) = forget (ts_td s) \<and> dinv W ign (ts_dc u)"
    then have su: "sinv {} {} {} W ign td0 u" using sinv_forget [OF inv] by blast
    have fu: "f \<notin> set (td_failed_fns (ts_td u))" using u f(2) forget_failed [of "ts_td u" "ts_td s"] by simp
    have "ensures (\<lambda>v. sinv {} {} {} W ign td0 v \<and> settled_r (ts_td v) item) (\<lambda>e v. \<not> caught e)
        (add_eligible env add_runtime_target item ?el u)"
      by (rule add_run_ok [OF r su f(1) fu])
    then have "ensures (\<lambda>v. sinv {} {} {} W ign td0 v \<and> settled_r (ts_td v) item) (unchanged W ign s)
        (add_eligible env add_runtime_target item ?el u)"
      by (rule ensures_mono) (auto simp: unchanged_def)
    moreover have "ensures (\<lambda>v. sinv {} {} {} W ign td0 v \<and> settled_r (ts_td v) item) (unchanged W ign s)
        (oseq (note_candidates item True ?el u) (\<lambda>s2. Raise (MultipleRProvider item) s2))"
      by (rule ensures_obind [OF note_candidates_ok]) (use u in \<open>auto simp: unchanged_def\<close>)
    ultimately show "ensures (\<lambda>v. sinv {} {} {} W ign td0 v \<and> settled_r (ts_td v) item) (unchanged W ign s)
        (if k > 1 then oseq (note_candidates item True ?el u) (\<lambda>s2. Raise (MultipleRProvider item) s2)
         else add_eligible env add_runtime_target item ?el u)" by simp
  qed simp
  with False show ?thesis unfolding use_rproviders_def by (simp add: Let_def)
qed

lemma add_rprovider_ok:
  assumes r: "resolving W env td0 item ign" and inv: "sinv {} {} {} W ign td0 s"
  shows "ensures (\<lambda>u. sinv {} {} {} W ign td0 u \<and> (re_match_strings (env_re env) item ign = Inr True \<or> settled_r (ts_td u) item))
    (unchanged W ign s) (add_rprovider env item s)"
proof -
  let ?post = "\<lambda>u. sinv {} {} {} W ign td0 u \<and> (re_match_strings (env_re env) item ign = Inr True \<or> settled_r (ts_td u) item)"
  have d: "dinv W ign (ts_dc s)" and ign: "dc_ignored_dependencies (ts_dc s) = ign" using inv by (simp_all add: sinv_def dinv_def)
  have chosen: "ensures ?post (unchanged W ign s)
      (with_result (filterProvidersRunTime ps item cfg (ts_dc s)) s (use_rproviders env item s))" for ps cfg
  proof (rule ensures_with_result)
    fix res :: "string list \<times> nat"
    have "ensures (\<lambda>u. sinv {} {} {} W ign td0 u \<and> settled_r (ts_td u) item) (unchanged W ign s) (use_rproviders env item s res)"
      using use_rproviders_ok [OF r inv, of "fst res" "snd res"] by simp
    then show "ensures ?post (unchanged W ign s) (use_rproviders env item s res)" by (rule ensures_mono) auto
  qed (use d in simp)
  have search: "ensures ?post (unchanged W ign s)
      (with_result (getRuntimeProviders (env_re env) (ts_dc s) item) s (\<lambda>all_p. if all_p = [] then
         Raise (NoRProvider item)
           (fire (NoProviderEvent item True (get_rdependees item (ts_td s)) (get_reasons item True (ts_td s)) None) s)
       else with_result (filterProvidersRunTime all_p item (env_cfg env) (ts_dc s)) s (use_rproviders env item s)))"
    by (rule ensures_with_result) (use d chosen in simp_all)
  show ?thesis
    unfolding add_rprovider_def ign
    by (rule ensures_with_result) (use search d inv have_settled(2) in auto)
qed

end
