(* ===== verification/BB_Unresolved.thy ===== *)
theory BB_Unresolved
  imports BB_Resolve
begin

text \<open>
  \<^verbatim>\<open>TaskData.add_unresolved\<close>: the loop over the open targets ends, and then every dependency of every
  file that can still be built is ignored or has a provider.
\<close>

section \<open>One pass\<close>

text \<open>
  How a pass changes the counter of successful calls and the database: when nothing was added, targets were
  only removed; when something was added, one of the open targets has been settled.
\<close>

definition removed_by :: "bool \<Rightarrow> cause set \<Rightarrow> cause set" where
  "removed_by allowincomplete I = (if allowincomplete then I - range BT else I)"

definition pass_rel :: "cause set \<Rightarrow> nat \<times> tstate \<Rightarrow> nat \<times> tstate \<Rightarrow> bool" where
  "pass_rel I p q \<longleftrightarrow> fst p \<le> fst q \<and> progress (ts_td (snd p)) (ts_td (snd q)) \<and>
     (fst q = fst p \<longrightarrow> evolve (removed_by (td_allowincomplete (ts_td (snd p))) I) (forget (ts_td (snd p))) (forget (ts_td (snd q)))) \<and>
     (fst p < fst q \<longrightarrow> (\<exists>t. BT t \<in> I \<and> settled_b (ts_td (snd q)) t) \<or> (\<exists>t. RT t \<in> I \<and> settled_r (ts_td (snd q)) t))"

lemma pass_rel_trans:
  assumes "pass_rel I p q" "pass_rel J q r"
  shows "pass_rel (I \<union> J) p r"
proof -
  let ?a = "td_allowincomplete (ts_td (snd p))"
  have pq: "fst p \<le> fst q" "progress (ts_td (snd p)) (ts_td (snd q))" and qr: "fst q \<le> fst r" "progress (ts_td (snd q)) (ts_td (snd r))"
    using assms by (simp_all add: pass_rel_def)
  have a: "td_allowincomplete (ts_td (snd q)) = ?a" using pq(2) by (simp add: progress_def conf_def)
  have A: "evolve (removed_by ?a (I \<union> J)) (forget (ts_td (snd p))) (forget (ts_td (snd r)))" if "fst r = fst p"
  proof -
    have eq: "removed_by ?a (I \<union> J) = removed_by ?a I \<union> removed_by ?a J" by (auto simp: removed_by_def)
    show ?thesis unfolding eq
      by (rule evolve_trans [of _ _ "forget (ts_td (snd q))"]) (use assms that pq qr a in \<open>simp_all add: pass_rel_def\<close>)
  qed
  have B: "(\<exists>t. BT t \<in> I \<union> J \<and> settled_b (ts_td (snd r)) t) \<or> (\<exists>t. RT t \<in> I \<union> J \<and> settled_r (ts_td (snd r)) t)"
    if "fst p < fst r"
  proof (cases "fst p < fst q")
    case True
    then show ?thesis using assms(1) settled_mono [OF qr(2)] unfolding pass_rel_def by blast
  next
    case False
    then show ?thesis using assms(2) that unfolding pass_rel_def by auto
  qed
  show ?thesis
    unfolding pass_rel_def by (intro conjI impI A B progress_trans [OF pq(2) qr(2)] order_trans [OF pq(1) qr(1)])
qed

interpretation pr: graded_evolution pass_rel
  by unfold_locales (simp add: pass_rel_def removed_by_def evolve_refl, rule pass_rel_trans)

lemma evolve_forget: "evolve I td td' \<Longrightarrow> evolve I (forget td) (forget td')"
  unfolding evolve_def forget_def static_def gone_b_def gone_r_def caused_def newly_failed_def closed_under_def
    requires_build_def requires_run_def get_dependees_def get_rdependees_def by simp

lemma removal_ok:
  assumes inv: "sinv {} {} {} W ign td0 s" and un: "forget (ts_td s1) = forget (ts_td s)" "dinv W ign (ts_dc s1)"
    and rem: "\<And>td. td_clean td \<Longrightarrow> ensures (evolve {c} td) (target_raised (may_raise td)) (remove td)"
    and quiet: "may_raise td0 = {}"
  shows "ensures (\<lambda>u. sinv {} {} {} W ign td0 u \<and> progress (ts_td s) (ts_td u) \<and> evolve {c} (forget (ts_td s)) (forget (ts_td u)))
    (\<lambda>e u. False) (on_td remove s1)"
proof -
  have s1: "sinv {} {} {} W ign td0 s1" by (rule sinv_forget [OF inv un])
  then have t1: "tinv {} {} {} W td0 (ts_td s1)" by (simp add: sinv_def)
  then have "td_clean (ts_td s1)" "may_raise (ts_td s1) = {}"
    using quiet progress_may_raise by (auto simp: tinv_def td_inv_but_def)
  then have "ensures (evolve {c} (ts_td s1)) (\<lambda>e u. False) (remove (ts_td s1))" using rem [of "ts_td s1"] by simp
  then have "ensures (\<lambda>td. tinv {} {} {} W td0 td \<and> progress (ts_td s1) td \<and> evolve {c} (forget (ts_td s1)) (forget td)) (\<lambda>e u. False)
      (remove (ts_td s1))"
    by (rule ensures_mono) (use tinv_evolve [OF t1] evolve_progress evolve_forget in auto)
  moreover have "progress (ts_td s) td = progress (ts_td s1) td" for td
    using forget_core [OF un(1)] by (simp add: core_def progress_def settled_b_def settled_r_def)
  ultimately show ?thesis using un by (simp add: on_td_def sinv_def)
qed

lemma resolve_build_ok:
  assumes r: "resolving W env td0 t ign" and inv: "sinv {} {} {} W ign td0 (snd p)"
    and open_t: "re_match_strings (env_re env) t ign = Inr False"
  shows "ensures (\<lambda>q. pass_rel {BT t} p q \<and> sinv {} {} {} W ign td0 (snd q)) (\<lambda>e q. True) (resolve_build env t p)"
proof -
  obtain k s where p: "p = (k, s)" by (cases p)
  have inv': "sinv {} {} {} W ign (ts_td s) s" "sinv {} {} {} W ign td0 s" "progress td0 (ts_td s)"
    using inv p by (simp_all add: sinv_def tinv_def)
  have mr: "may_raise (ts_td s) = {}" using progress_may_raise [OF inv'(3)] resolvingD(2) [OF r] by simp
  have r': "resolving W env (ts_td s) t ign" using r mr by (simp add: resolving_def)
  have lift: "sinv {} {} {} W ign (ts_td s) u \<Longrightarrow> sinv {} {} {} W ign td0 u" for u
    using tinv_trans [OF _ inv'(3)] by (simp add: sinv_def)
  have caught: "ensures (\<lambda>q. pass_rel {BT t} (k, s) q \<and> sinv {} {} {} W ign td0 (snd q)) (\<lambda>e q. True)
      (case e of NoProvider _ \<Rightarrow>
               if td_abort (ts_td s1) \<and> t \<in> set (td_external_targets (ts_td s1)) \<and> \<not> td_allowincomplete (ts_td s1)
               then Raise e (k, s1)
               else if td_allowincomplete (ts_td s1) then Done (k, s1)
               else omap (Pair k) (on_td (remove_buildtarget t) s1)
           | _ \<Rightarrow> Raise e (k, s1))" if un: "unchanged W ign s e s1" for e s1
  proof (cases "\<exists>x. e = NoProvider x")
    case True
    then have u: "forget (ts_td s1) = forget (ts_td s)" "dinv W ign (ts_dc s1)" using un by (auto simp: unchanged_def)
    have ai: "td_allowincomplete (ts_td s1) = td_allowincomplete (ts_td s)" "progress (ts_td s) (ts_td s1)"
      using forget_core [OF u(1)] by (simp_all add: core_def conf_def progress_def settled_b_def settled_r_def)
    have skip: "pass_rel {BT t} (k, s) (k, s1)" if "td_allowincomplete (ts_td s)"
      using that ai(2) u(1) evolve_refl by (simp add: pass_rel_def removed_by_def)
    have "ensures (\<lambda>q. pass_rel {BT t} (k, s) q \<and> sinv {} {} {} W ign td0 (snd q)) (\<lambda>e q. True) (omap (Pair k) (on_td (remove_buildtarget t) s1))"
      if "\<not> td_allowincomplete (ts_td s)"
      unfolding ensures_omap
      by (rule ensures_mono [OF removal_ok [OF inv'(1) u remove_buildtarget_evolves mr]])
         (use that lift in \<open>auto simp: pass_rel_def removed_by_def\<close>)
    with True ai(1) skip sinv_forget [OF inv'(2) u] show ?thesis by (auto simp del: ensures_omap)
  qed (auto split: py_error.splits)
  show ?thesis
    unfolding p resolve_build_def prod.case
    by (rule ensures_obind [OF add_provider_internal_ok [OF r' inv'(1)]])
       (use caught open_t lift in \<open>auto simp: pass_rel_def sinv_def tinv_def\<close>)
qed

lemma removed_by_RT: "removed_by a {RT t} = {RT t}"
  by (auto simp: removed_by_def)

lemma resolve_run_ok:
  assumes r: "resolving W env td0 t ign" and inv: "sinv {} {} {} W ign td0 (snd p)"
    and open_t: "re_match_strings (env_re env) t ign = Inr False"
  shows "ensures (\<lambda>q. pass_rel {RT t} p q \<and> sinv {} {} {} W ign td0 (snd q)) (\<lambda>e q. True) (resolve_run env t p)"
proof -
  obtain k s where p: "p = (k, s)" by (cases p)
  have inv': "sinv {} {} {} W ign (ts_td s) s" "sinv {} {} {} W ign td0 s" "progress td0 (ts_td s)"
    using inv p by (simp_all add: sinv_def tinv_def)
  have mr: "may_raise (ts_td s) = {}" using progress_may_raise [OF inv'(3)] resolvingD(2) [OF r] by simp
  have r': "resolving W env (ts_td s) t ign" using r mr by (simp add: resolving_def)
  have lift: "sinv {} {} {} W ign (ts_td s) u \<Longrightarrow> sinv {} {} {} W ign td0 u" for u
    using tinv_trans [OF _ inv'(3)] by (simp add: sinv_def)
  have caught: "ensures (\<lambda>q. pass_rel {RT t} (k, s) q \<and> sinv {} {} {} W ign td0 (snd q)) (\<lambda>e q. True)
      (case e of NoRProvider _ \<Rightarrow> omap (Pair k) (on_td (remove_runtarget t) s1)
           | MultipleRProvider _ \<Rightarrow> omap (Pair k) (on_td (remove_runtarget t) s1)
           | _ \<Rightarrow> Raise e (k, s1))" if un: "unchanged W ign s e s1" for e s1
  proof (cases "\<exists>x. e = NoRProvider x \<or> e = MultipleRProvider x")
    case True
    then have u: "forget (ts_td s1) = forget (ts_td s)" "dinv W ign (ts_dc s1)" using un by (auto simp: unchanged_def)
    have "ensures (\<lambda>q. pass_rel {RT t} (k, s) q \<and> sinv {} {} {} W ign td0 (snd q)) (\<lambda>e q. True) (omap (Pair k) (on_td (remove_runtarget t) s1))"
      unfolding ensures_omap
      by (rule ensures_mono [OF removal_ok [OF inv'(1) u remove_runtarget_evolves mr]])
         (use lift in \<open>auto simp: pass_rel_def removed_by_RT\<close>)
    with True show ?thesis by (auto simp del: ensures_omap)
  qed (auto split: py_error.splits)
  show ?thesis
    unfolding p resolve_run_def prod.case
    by (rule ensures_obind [OF add_rprovider_ok [OF r' inv'(1)]])
       (use caught open_t lift in \<open>auto simp: pass_rel_def sinv_def tinv_def\<close>)
qed

lemma unresolved_spec:
  assumes "unresolved_targets re dc targets failed = Inr xs"
  shows "set xs = {t \<in> set (dict_keys targets). t \<notin> set failed \<and> dd_get targets t = [] \<and>
      re_match_strings re t (dc_ignored_dependencies dc) = Inr False}"
    and "\<forall>t \<in> set (dict_keys targets). \<exists>b. re_match_strings re t (dc_ignored_dependencies dc) = Inr b"
proof -
  let ?f = "\<lambda>target unresolved. rbind (re_match_strings re target (dc_ignored_dependencies dc)) (\<lambda>ignored.
     Inr (if ignored \<or> target \<in> set failed \<or> dd_get targets target \<noteq> [] then unresolved else unresolved @ [target]))"
  have "rfold ?f ks acc = Inr xs \<Longrightarrow> set xs = set acc \<union> {t \<in> set ks. t \<notin> set failed \<and> dd_get targets t = [] \<and>
      re_match_strings re t (dc_ignored_dependencies dc) = Inr False} \<and>
      (\<forall>t \<in> set ks. \<exists>b. re_match_strings re t (dc_ignored_dependencies dc) = Inr b)" for ks acc
  proof (induction ks arbitrary: acc)
    case (Cons k ks)
    then obtain b where b: "re_match_strings re k (dc_ignored_dependencies dc) = Inr b"
      by (cases "re_match_strings re k (dc_ignored_dependencies dc)") simp_all
    show ?case
    proof (cases "b \<or> k \<in> set failed \<or> dd_get targets k \<noteq> []")
      case True
      with Cons.prems b have "rfold ?f ks acc = Inr xs" by (simp del: rbind_eq_Inr)
      with Cons.IH True b show ?thesis by auto
    next
      case False
      with Cons.prems b have "rfold ?f ks (acc @ [k]) = Inr xs" by (simp del: rbind_eq_Inr)
      with Cons.IH [of "acc @ [k]"] False b show ?thesis by auto
    qed
  qed simp
  from this [OF assms [unfolded unresolved_targets_def]]
  show "set xs = {t \<in> set (dict_keys targets). t \<notin> set failed \<and> dd_get targets t = [] \<and>
      re_match_strings re t (dc_ignored_dependencies dc) = Inr False}"
    and "\<forall>t \<in> set (dict_keys targets). \<exists>b. re_match_strings re t (dc_ignored_dependencies dc) = Inr b" by simp_all
qed

text \<open>The open targets of a pass, and their effect on it.\<close>

lemma within_keys:
  assumes "sinv X P Y W ign td0 s"
  shows "t \<in> set (dict_keys (td_build_targets (ts_td s))) \<Longrightarrow> t \<in> W" "t \<in> set (dict_keys (td_run_targets (ts_td s))) \<Longrightarrow> t \<in> W"
  using assms unfolding sinv_def tinv_def within_def by blast+

lemma build_pass_ok:
  assumes "env_ok W env" "may_raise td0 = {}" "sinv {} {} {} W ign td0 s"
    and "get_unresolved_build_targets (env_re env) (ts_dc s) (ts_td s) = Inr build"
  shows "ensures (\<lambda>q. pass_rel (BT ` set build) (k, s) q \<and> sinv {} {} {} W ign td0 (snd q)) (\<lambda>e q. True)
    (for_each (resolve_build env) build (k, s))"
proof -
  have ign: "dc_ignored_dependencies (ts_dc s) = ign" using assms(3) by (simp add: sinv_def dinv_def)
  have op: "re_match_strings (env_re env) t ign = Inr False \<and> t \<in> W" if "t \<in> set build" for t
    using that unresolved_spec(1) [OF assms(4) [unfolded get_unresolved_build_targets_def]] within_keys(1) [OF assms(3)]
    unfolding ign by blast
  have "ensures (\<lambda>q. pass_rel (\<Union>t \<in> set build. {BT t}) (k, s) q \<and> sinv {} {} {} W ign td0 (snd q)) (\<lambda>e q. True)
      (for_each (resolve_build env) build (k, s))"
    by (rule pr.for_each_evolves) (use assms op resolve_build_ok in \<open>auto simp: resolving_def\<close>)
  then show ?thesis by (simp add: UNION_singleton_eq_range)
qed

lemma run_pass_ok:
  assumes "env_ok W env" "may_raise td0 = {}" "sinv {} {} {} W ign td0 s"
    and "get_unresolved_run_targets (env_re env) (ts_dc s) (ts_td s) = Inr run"
  shows "ensures (\<lambda>q. pass_rel (RT ` set run) (k, s) q \<and> sinv {} {} {} W ign td0 (snd q)) (\<lambda>e q. True)
    (for_each (resolve_run env) run (k, s))"
proof -
  have ign: "dc_ignored_dependencies (ts_dc s) = ign" using assms(3) by (simp add: sinv_def dinv_def)
  have op: "re_match_strings (env_re env) t ign = Inr False \<and> t \<in> W" if "t \<in> set run" for t
    using that unresolved_spec(1) [OF assms(4) [unfolded get_unresolved_run_targets_def]] within_keys(2) [OF assms(3)]
    unfolding ign by blast
  have "ensures (\<lambda>q. pass_rel (\<Union>t \<in> set run. {RT t}) (k, s) q \<and> sinv {} {} {} W ign td0 (snd q)) (\<lambda>e q. True)
      (for_each (resolve_run env) run (k, s))"
    by (rule pr.for_each_evolves) (use assms op resolve_run_ok in \<open>auto simp: resolving_def\<close>)
  then show ?thesis by (simp add: UNION_singleton_eq_range)
qed

definition unsettled :: "string set \<Rightarrow> taskdata \<Rightarrow> cause set" where
  "unsettled W td = BT ` {t \<in> W. \<not> settled_b td t} \<union> RT ` {t \<in> W. \<not> settled_r td t}"

text \<open>All targets that are not ignored are settled.\<close>

definition no_open :: "re_matcher \<Rightarrow> string list \<Rightarrow> taskdata \<Rightarrow> bool" where
  "no_open re ign td \<longleftrightarrow>
     (\<forall>t \<in> set (dict_keys (td_build_targets td)). settled_b td t \<or> re_match_strings re t ign = Inr True) \<and>
     (\<forall>t \<in> set (dict_keys (td_run_targets td)). settled_r td t \<or> re_match_strings re t ign = Inr True)"

lemma settled_forget: "settled_b (forget td) = settled_b td" "settled_r (forget td) = settled_r td"
  by (simp_all add: fun_eq_iff settled_b_def settled_r_def forget_def)

lemma forget_keys:
  "td_build_targets (forget td) = td_build_targets td" "td_run_targets (forget td) = td_run_targets td"
  by (simp_all add: forget_def)

lemma evolve_settles:
  assumes "evolve I td td'"
  shows "BT t \<in> I \<Longrightarrow> settled_b td' t" "RT t \<in> I \<Longrightarrow> settled_r td' t"
  using evolveD(5,6) [OF assms] by (auto simp: settled_b_def settled_r_def gone_b_def gone_r_def)

lemma pass_none_added:
  assumes "pass_rel I (k, s) (k, u)" "\<not> td_allowincomplete (ts_td s)"
  shows "dict_keys (td_build_targets (ts_td u)) = dict_keys (td_build_targets (ts_td s))"
    "dict_keys (td_run_targets (ts_td u)) = dict_keys (td_run_targets (ts_td s))"
    "BT t \<in> I \<Longrightarrow> settled_b (ts_td u) t" "RT t \<in> I \<Longrightarrow> settled_r (ts_td u) t"
proof -
  have ev: "evolve I (forget (ts_td s)) (forget (ts_td u))" using assms by (simp add: pass_rel_def removed_by_def)
  show "dict_keys (td_build_targets (ts_td u)) = dict_keys (td_build_targets (ts_td s))"
    "dict_keys (td_run_targets (ts_td u)) = dict_keys (td_run_targets (ts_td s))"
    using static_fields(4,5) [OF evolveD(1) [OF ev]] unfolding forget_keys .
  show "BT t \<in> I \<Longrightarrow> settled_b (ts_td u) t" "RT t \<in> I \<Longrightarrow> settled_r (ts_td u) t"
    using evolve_settles [OF ev] by (simp_all add: settled_forget)
qed

lemma open_targets:
  assumes "get_unresolved_build_targets re dc td = Inr build" "dc_ignored_dependencies dc = ign"
    and "t \<in> set (dict_keys (td_build_targets td))"
  shows "t \<in> set build \<longleftrightarrow> \<not> settled_b td t \<and> re_match_strings re t ign \<noteq> Inr True"
  using assms unresolved_spec [OF assms(1) [unfolded get_unresolved_build_targets_def]]
  by (auto simp: settled_b_def simp del: set_map)

lemma open_run_targets:
  assumes "get_unresolved_run_targets re dc td = Inr run" "dc_ignored_dependencies dc = ign"
    and "t \<in> set (dict_keys (td_run_targets td))"
  shows "t \<in> set run \<longleftrightarrow> \<not> settled_r td t \<and> re_match_strings re t ign \<noteq> Inr True"
  using assms unresolved_spec [OF assms(1) [unfolded get_unresolved_run_targets_def]]
  by (auto simp: settled_r_def simp del: set_map)

lemma unsettled_mono: "progress td td' \<Longrightarrow> unsettled W td' \<subseteq> unsettled W td"
  using settled_mono unfolding unsettled_def by blast

lemma unsettled_iff:
  "BT t \<in> unsettled W td \<longleftrightarrow> t \<in> W \<and> \<not> settled_b td t" "RT t \<in> unsettled W td \<longleftrightarrow> t \<in> W \<and> \<not> settled_r td t"
  by (auto simp: unsettled_def)

definition pass_post :: "string set \<Rightarrow> re_matcher \<Rightarrow> string list \<Rightarrow> taskdata \<Rightarrow> nat \<times> tstate \<Rightarrow> bool" where
  "pass_post W re ign td q \<longleftrightarrow> progress td (ts_td (snd q)) \<and>
     (0 < fst q \<longrightarrow> unsettled W (ts_td (snd q)) \<subset> unsettled W td) \<and>
     (fst q = 0 \<and> \<not> td_allowincomplete td \<longrightarrow> no_open re ign (ts_td (snd q)))"

lemma pass_post_intro:
  assumes s: "sinv {} {} {} W ign td0 s" and s1: "sinv {} {} {} W ign td0 s1"
    and b: "get_unresolved_build_targets re (ts_dc s) (ts_td s) = Inr build" "pass_rel (BT ` set build) (0, s) (k1, s1)"
    and r: "get_unresolved_run_targets re (ts_dc s1) (ts_td s1) = Inr run" "pass_rel (RT ` set run) (k1, s1) (k, u)"
  shows "pass_post W re ign (ts_td s) (k, u)"
proof -
  have ign: "dc_ignored_dependencies (ts_dc s) = ign" "dc_ignored_dependencies (ts_dc s1) = ign"
    using s s1 by (simp_all add: sinv_def dinv_def)
  note spec_b = unresolved_spec(1) [OF b(1) [unfolded get_unresolved_build_targets_def]]
    and spec_r = unresolved_spec(1) [OF r(1) [unfolded get_unresolved_run_targets_def]]
  have p1: "progress (ts_td s) (ts_td s1)" and p2: "progress (ts_td s1) (ts_td u)" using b r by (simp_all add: pass_rel_def)
  note p = progress_trans [OF p1 p2]
  have "unsettled W (ts_td u) \<noteq> unsettled W (ts_td s)" if k: "0 < k"
  proof -
    have "pass_rel (BT ` set build \<union> RT ` set run) (0, s) (k, u)" by (rule pass_rel_trans [OF b(2) r(2)])
    then consider t where "t \<in> set build" "settled_b (ts_td u) t" | t where "t \<in> set run" "settled_r (ts_td u) t"
      using k by (auto simp: pass_rel_def)
    then show ?thesis
    proof cases
      case (1 t)
      then have "t \<in> W" "\<not> settled_b (ts_td s) t"
        using spec_b within_keys(1) [OF s] by (auto simp: settled_b_def simp del: set_map)
      with 1 show ?thesis using unsettled_iff(1) [of t W] by metis
    next
      case (2 t)
      then have "t \<in> W" "\<not> settled_r (ts_td s1) t"
        using spec_r within_keys(2) [OF s1] by (auto simp: settled_r_def simp del: set_map)
      with 2 show ?thesis using unsettled_iff(2) [of t W] settled_mono(2) [OF p1] by metis
    qed
  qed
  moreover have "no_open re ign (ts_td u)" if "k = 0" "\<not> td_allowincomplete (ts_td s)"
  proof -
    have k1: "k1 = 0" using r(2) that by (simp add: pass_rel_def)
    have a: "\<not> td_allowincomplete (ts_td s1)" using p1 that by (simp add: progress_def conf_def)
    note n1 = pass_none_added [OF b(2) [unfolded k1] that(2)] and n2 = pass_none_added [OF r(2) [unfolded k1 that(1)] a]
    show ?thesis
      unfolding no_open_def n2(1,2) n1(1)
    proof (intro conjI ballI)
      fix t assume "t \<in> set (dict_keys (td_build_targets (ts_td s)))"
      from open_targets [OF b(1) ign(1) this] n1(3) [of t]
      show "settled_b (ts_td u) t \<or> re_match_strings re t ign = Inr True"
        using settled_mono(1) [OF p] settled_mono(1) [OF p2] by blast
    next
      fix t assume "t \<in> set (dict_keys (td_run_targets (ts_td s1)))"
      from open_run_targets [OF r(1) ign(2) this] n2(4) [of t]
      show "settled_r (ts_td u) t \<or> re_match_strings re t ign = Inr True"
        using settled_mono(2) [OF p2] by blast
    qed
  qed
  ultimately show ?thesis using p unsettled_mono [OF p, of W] unfolding pass_post_def by auto
qed

lemma resolve_pass_ok:
  assumes "env_ok W env" "may_raise td0 = {}" "sinv {} {} {} W ign td0 s"
  shows "ensures (\<lambda>q. sinv {} {} {} W ign td0 (snd q) \<and> pass_post W (env_re env) ign (ts_td s) q) (\<lambda>e q. True) (resolve_pass env s)"
  unfolding resolve_pass_def
proof (rule ensures_with_result)
  fix build assume b: "get_unresolved_build_targets (env_re env) (ts_dc s) (ts_td s) = Inr build"
  show "ensures (\<lambda>q. sinv {} {} {} W ign td0 (snd q) \<and> pass_post W (env_re env) ign (ts_td s) q) (\<lambda>e q. True)
    (oseq (for_each (resolve_build env) build (0, s)) (\<lambda>(added, s1).
     with_result (get_unresolved_run_targets (env_re env) (ts_dc s1) (ts_td s1)) (added, s1) (\<lambda>run.
     for_each (resolve_run env) run (added, s1))))"
  proof (rule ensures_obind [OF build_pass_ok [OF assms b]])
    fix q1 assume q1: "pass_rel (BT ` set build) (0, s) q1 \<and> sinv {} {} {} W ign td0 (snd q1)"
    obtain k1 s1 where q1_eq: "q1 = (k1, s1)" by (cases q1)
    show "ensures (\<lambda>q. sinv {} {} {} W ign td0 (snd q) \<and> pass_post W (env_re env) ign (ts_td s) q) (\<lambda>e q. True)
      (case q1 of (added, s1) \<Rightarrow> with_result (get_unresolved_run_targets (env_re env) (ts_dc s1) (ts_td s1)) (added, s1) (\<lambda>run.
         for_each (resolve_run env) run (added, s1)))"
      unfolding q1_eq prod.case
    proof (rule ensures_with_result)
      fix run assume r: "get_unresolved_run_targets (env_re env) (ts_dc s1) (ts_td s1) = Inr run"
      have s1: "sinv {} {} {} W ign td0 s1" "pass_rel (BT ` set build) (0, s) (k1, s1)" using q1 q1_eq by simp_all
      from run_pass_ok [OF assms(1,2) s1(1) r, of k1]
      show "ensures (\<lambda>q. sinv {} {} {} W ign td0 (snd q) \<and> pass_post W (env_re env) ign (ts_td s) q) (\<lambda>e q. True)
        (for_each (resolve_run env) run (k1, s1))"
        by (rule ensures_mono) (use pass_post_intro [OF assms(3) s1(1) b s1(2) r] in auto)
    qed simp
  qed simp
qed simp

section \<open>The loop\<close>

lemma add_unresolved_ok:
  assumes "env_ok W env" "may_raise td0 = {}" "finite W"
  shows "sinv {} {} {} W ign td0 s \<Longrightarrow> card (unsettled W (ts_td s)) < n \<Longrightarrow>
    ensures (\<lambda>u. sinv {} {} {} W ign td0 u \<and> (td_allowincomplete td0 \<or> no_open (env_re env) ign (ts_td u))) (\<lambda>e u. True)
      (add_unresolved n env s)"
proof (induction n arbitrary: s)
  case (Suc n)
  have fin: "finite (unsettled W td)" for td using assms(3) by (simp add: unsettled_def)
  have a: "td_allowincomplete (ts_td s) = td_allowincomplete td0"
    using Suc.prems(1) by (simp add: sinv_def tinv_def progress_def conf_def)
  have "ensures (\<lambda>u. sinv {} {} {} W ign td0 u \<and> (td_allowincomplete td0 \<or> no_open (env_re env) ign (ts_td u))) (\<lambda>e u. True)
      (obind (resolve_pass env s) (\<lambda>(added, s1). if added = 0 then Done s1 else add_unresolved n env s1) (\<lambda>e p. Raise e (snd p)))"
  proof (rule ensures_obind [OF resolve_pass_ok [OF assms(1,2) Suc.prems(1)]])
    fix q assume q: "sinv {} {} {} W ign td0 (snd q) \<and> pass_post W (env_re env) ign (ts_td s) q"
    show "ensures (\<lambda>u. sinv {} {} {} W ign td0 u \<and> (td_allowincomplete td0 \<or> no_open (env_re env) ign (ts_td u))) (\<lambda>e u. True)
        (case q of (added, s1) \<Rightarrow> if added = 0 then Done s1 else add_unresolved n env s1)"
    proof (cases "fst q = 0")
      case True
      then show ?thesis using q a by (auto simp: case_prod_beta pass_post_def)
    next
      case False
      then have "unsettled W (ts_td (snd q)) \<subset> unsettled W (ts_td s)" using q by (simp add: pass_post_def)
      then have "card (unsettled W (ts_td (snd q))) < card (unsettled W (ts_td s))" by (rule psubset_card_mono [OF fin])
      with Suc.prems(2) have "card (unsettled W (ts_td (snd q))) < n" by simp
      with Suc.IH q False show ?thesis by (simp add: case_prod_beta)
    qed
  qed simp
  then show ?case by simp
qed simp

text \<open>Every dependency of a file that has not failed is ignored, or it has providers, and these have not
  failed and have their own dependencies recorded.\<close>

definition dep_served :: "re_matcher \<Rightarrow> string list \<Rightarrow> taskdata \<Rightarrow> (string, string list) dict \<Rightarrow> string \<Rightarrow> bool" where
  "dep_served re ign td targets d \<longleftrightarrow> re_match_strings re d ign = Inr True \<or>
     (dd_get targets d \<noteq> [] \<and> (\<forall>p \<in> set (dd_get targets d). p \<notin> set (td_failed_fns td) \<and>
        p \<in> set (dict_keys (td_depids td)) \<and> p \<in> set (dict_keys (td_rdepids td))))"

definition all_resolved :: "re_matcher \<Rightarrow> string list \<Rightarrow> taskdata \<Rightarrow> bool" where
  "all_resolved re ign td \<longleftrightarrow>
     (\<forall>f \<in> set (dict_keys (td_depids td)) - set (td_failed_fns td).
        \<forall>d \<in> set (dd_get (td_depids td) f). dep_served re ign td (td_build_targets td) d) \<and>
     (\<forall>f \<in> set (dict_keys (td_rdepids td)) - set (td_failed_fns td).
        \<forall>d \<in> set (dd_get (td_rdepids td) f). dep_served re ign td (td_run_targets td) d)"

lemma no_open_resolved:
  assumes inv: "td_inv td" and op: "no_open re ign td"
  shows "all_resolved re ign td"
proof -
  have i: "td_clean td" "live_deps {} td" "live_rdeps {} td" "providers_seen {} td" "seen_recorded {} td"
    using inv by (simp_all add: td_inv_def td_inv_but_def)
  have prov: "p \<notin> set (td_failed_fns td) \<and> p \<in> set (dict_keys (td_depids td)) \<and> p \<in> set (dict_keys (td_rdepids td))"
    if "p \<in> set (bprov td d) \<union> set (rprov td d)" for p d
    using that td_cleanD(3,4) [OF i(1)] i(4,5) unfolding providers_seen_def seen_recorded_def by blast
  have "dep_served re ign td (td_build_targets td) d"
    if "f \<in> set (dict_keys (td_depids td)) - set (td_failed_fns td)" "d \<in> set (dd_get (td_depids td) f)" for f d
  proof -
    have "d \<in> set (dict_keys (td_build_targets td))" "d \<notin> set (td_failed_deps td)"
      using i(2) that unfolding live_deps_def by blast+
    with op have "re_match_strings re d ign = Inr True \<or> bprov td d \<noteq> []" unfolding no_open_def settled_b_def by blast
    with prov show ?thesis unfolding dep_served_def by blast
  qed
  moreover have "dep_served re ign td (td_run_targets td) d"
    if "f \<in> set (dict_keys (td_rdepids td)) - set (td_failed_fns td)" "d \<in> set (dd_get (td_rdepids td) f)" for f d
  proof -
    have "d \<in> set (dict_keys (td_run_targets td))" "d \<notin> set (td_failed_rdeps td)"
      using i(3) that unfolding live_rdeps_def by blast+
    with op have "re_match_strings re d ign = Inr True \<or> rprov td d \<noteq> []" unfolding no_open_def settled_r_def by blast
    with prov show ?thesis unfolding dep_served_def by blast
  qed
  ultimately show ?thesis unfolding all_resolved_def by blast
qed

lemma unsettled_card: "finite W \<Longrightarrow> card (unsettled W td) \<le> 2 * card W"
proof -
  assume W: "finite W"
  have "card (unsettled W td) \<le> card (BT ` {t \<in> W. \<not> settled_b td t}) + card (RT ` {t \<in> W. \<not> settled_r td t})"
    unfolding unsettled_def by (rule card_Un_le)
  also have "\<dots> \<le> card {t \<in> W. \<not> settled_b td t} + card {t \<in> W. \<not> settled_r td t}"
    using W by (intro add_mono card_image_le) auto
  also have "\<dots> \<le> card W + card W" using W by (intro add_mono card_mono) auto
  finally show ?thesis by simp
qed


definition quiet_env :: td_env where
  "quiet_env = \<lparr>env_cfg = \<lambda>_. None, env_re = \<lambda>p s. Inr (p = s), env_close = \<lambda>_ _. [], env_set = remdups,
     env_extra = \<lambda>_ _ deps world pkg_pn. Inr (deps, world, pkg_pn)\<rparr>"

lemma quiet_env_ok: "env_ok W quiet_env"
  by (simp add: env_ok_def quiet_env_def)

definition sample_build :: cachedata where
  "sample_build = (sample_cache [(''app.bb'', ''app'', 5, 0, ([], ''1.0'', ''r0'')), (''lib.bb'', ''lib'', 5, 0, ([], ''1.0'', ''r0'')),
       (''bad.bb'', ''bad'', 5, 0, ([], ''1.0'', ''r0''))])\<lparr>
     dc_providers := [(''app'', [''app.bb'']), (''lib'', [''lib.bb'']), (''bad'', [''bad.bb''])],
     dc_deps := [(''app.bb'', [''lib'']), (''bad.bb'', [''lib'', ''missing''])],
     dc_task_deps := [(''app.bb'', \<lparr>tk_tasks = [''do_build''], tk_parents = [(''do_build'', [])], tk_flags = []\<rparr>),
       (''lib.bb'', \<lparr>tk_tasks = [''do_build''], tk_parents = [(''do_build'', [])], tk_flags = []\<rparr>),
       (''bad.bb'', \<lparr>tk_tasks = [''do_build''], tk_parents = [(''do_build'', [])], tk_flags = []\<rparr>)]\<rparr>"

definition sample_state :: tstate where
  "sample_state = \<lparr>ts_td = (TaskData False [] False)\<lparr>td_build_targets := [(''app'', []), (''bad'', [])]\<rparr>,
     ts_dc = sample_build, ts_events = []\<rparr>"


section \<open>Requested targets\<close>

lemma TaskData_inv: "td_inv (TaskData abort skiplist allowincomplete)"
  by (simp add: TaskData_def td_inv_def inv_defs td_clean_def dd_get_def)

lemma mark_external_inv: "td_inv (mark_external_target t td) = td_inv td" "settled_b (mark_external_target t td) = settled_b td"
  by (simp_all add: fun_eq_iff mark_external_target_def td_inv_def inv_defs td_clean_def settled_b_def)

text \<open>Without \<^verbatim>\<open>abort\<close>, \<^verbatim>\<open>add_provider\<close> keeps the invariant; if it returns, the requested item is ignored, or it
  has a provider or is marked as failed, and it is an external target.\<close>

theorem add_provider_settles:
  assumes "td_inv (ts_td s)" and "\<not> td_abort (ts_td s)" and "env_ok UNIV env"
  shows "ensures (\<lambda>u. td_inv (ts_td u) \<and> item \<in> set (td_external_targets (ts_td u)) \<and>
      (re_match_strings (env_re env) item (dc_ignored_dependencies (ts_dc s)) = Inr True \<or> settled_b (ts_td u) item)) (\<lambda>e u. True)
    (add_provider env item s)"
proof -
  let ?ign = "dc_ignored_dependencies (ts_dc s)"
  let ?P = "\<lambda>u. td_inv (ts_td u) \<and> (re_match_strings (env_re env) item ?ign = Inr True \<or> settled_b (ts_td u) item)"
  have mr: "may_raise (ts_td s) = {}" using assms(2) by (simp add: may_raise_def)
  have inv: "sinv {} {} {} UNIV ?ign (ts_td s) s"
    using assms(1) by (simp add: sinv_def tinv_def dinv_def td_inv_def within_def dc_within_def)
  have r: "resolving UNIV env (ts_td s) item ?ign" using assms(3) mr by (simp add: resolving_def)
  have caught: "ensures ?P (\<lambda>e u. True) (case e of
       NoProvider _ \<Rightarrow> if td_abort (ts_td s1) then Raise e s1 else on_td (remove_buildtarget item) s1 | _ \<Rightarrow> Raise e s1)"
    if un: "unchanged UNIV ?ign s e s1" for e s1
  proof (cases "\<exists>x. e = NoProvider x")
    case True
    then have u: "forget (ts_td s1) = forget (ts_td s)" "dinv UNIV ?ign (ts_dc s1)" using un by (auto simp: unchanged_def)
    have es: "settled_b b item" if "evolve {BT item} (forget a) (forget b)" for a b
      using evolve_settles(1) [OF that, of item] by (simp add: settled_forget)
    from removal_ok [OF inv u remove_buildtarget_evolves mr]
    have "ensures ?P (\<lambda>e u. True) (on_td (remove_buildtarget item) s1)"
      by (rule ensures_mono) (use es in \<open>auto simp: sinv_def tinv_def td_inv_def\<close>)
    with True show ?thesis by auto
  qed (auto split: py_error.splits)
  have "ensures ?P (\<lambda>e u. True) (obind (add_provider_internal env item s) Done
      (\<lambda>e s1. case e of NoProvider _ \<Rightarrow> if td_abort (ts_td s1) then Raise e s1 else on_td (remove_buildtarget item) s1
              | _ \<Rightarrow> Raise e s1))"
    by (rule ensures_obind [OF add_provider_internal_ok [OF r inv]]) (use caught in \<open>auto simp: sinv_def tinv_def td_inv_def\<close>)
  then show ?thesis
    unfolding add_provider_def
    by (rule ensures_obind) (auto simp: upd_td_def mark_external_inv, simp_all add: mark_external_target_def add_new_def)
qed

theorem add_provider_settles_witness:
  "\<exists>u. add_provider quiet_env ''none'' sample_state = Done u \<and> td_inv (ts_td u) \<and> settled_b (ts_td u) ''none'' \<and>
     td_failed_deps (ts_td u) = [''none'']"
proof -
  have "(case add_provider quiet_env ''none'' sample_state of Done u \<Rightarrow> td_failed_deps (ts_td u) = [''none''] | _ \<Rightarrow> False)"
    by code_simp
  then obtain u where u: "add_provider quiet_env ''none'' sample_state = Done u" "td_failed_deps (ts_td u) = [''none'']"
    by (simp split: outcome.splits)
  have "td_inv (ts_td sample_state)" "\<not> td_abort (ts_td sample_state)"
    by (simp_all add: sample_state_def TaskData_def td_inv_def inv_defs td_clean_def dd_get_def)
  from add_provider_settles [OF this quiet_env_ok, of "''none''"] u show ?thesis by (simp add: settled_b_def)
qed

text \<open>The cache of a build in which the requested \<^verbatim>\<open>app\<close> needs \<^verbatim>\<open>virt\<close> and, through \<^verbatim>\<open>mid\<close> and \<^verbatim>\<open>lib\<close>, something
  that nothing provides.\<close>

definition plain_tasks :: taskdeps where
  "plain_tasks = \<lparr>tk_tasks = [''do_build''], tk_parents = [(''do_build'', [])], tk_flags = []\<rparr>"

definition abort_cache :: cachedata where
  "abort_cache =
     (let fns = [(''app.bb'', ''app''), (''p1.bb'', ''p1''), (''p2.bb'', ''p2''), (''mid.bb'', ''mid''), (''lib.bb'', ''lib'')]
      in (sample_cache (map (\<lambda>(f, pn). (f, pn, 5, 0, ([], ''1.0'', ''r0''))) fns))\<lparr>
        dc_providers := [(''app'', [''app.bb'']), (''virt'', [''p1.bb'', ''p2.bb'']), (''mid'', [''mid.bb'']), (''lib'', [''lib.bb''])],
        dc_deps := [(''app.bb'', [''virt'', ''mid'']), (''p1.bb'', [''missing'']), (''mid.bb'', [''lib'']), (''lib.bb'', [''missing''])],
        dc_task_deps := map (\<lambda>(f, pn). (f, plain_tasks)) fns\<rparr>)"

text \<open>An example with \<^verbatim>\<open>abort\<close>: the externally requested target \<open>app\<close> becomes unbuildable without an exception. The \<^verbatim>\<open>NoProvider\<close> raised for it while another target
  is being resolved is caught by \<^verbatim>\<open>add_unresolved\<close>, which only looks at the target it was resolving, and the method returns normally.\<close>

theorem abort_exception_swallowed:
  "case add_provider quiet_env ''app'' \<lparr>ts_td = TaskData True [] False, ts_dc = abort_cache, ts_events = []\<rparr> of
     Done s \<Rightarrow> td_abort (ts_td s) \<and> td_external_targets (ts_td s) = [''app''] \<and>
       (case add_unresolved 5 quiet_env s of
          Done u \<Rightarrow> ''app'' \<in> set (td_failed_deps (ts_td u)) \<and> bprov (ts_td u) ''app'' = []
        | _ \<Rightarrow> False)
   | _ \<Rightarrow> False"
  by code_simp

end
