(* ===== verification/BB_Tid.thy ===== *)
theory BB_Tid
  imports BB_Cache
begin

text \<open>
  Task identifiers and statistics of \<^verbatim>\<open>lib/bb/runqueue.py\<close>. An identifier is \<^verbatim>\<open>fn:taskname\<close>, or
  \<^verbatim>\<open>mc:name:fn:taskname\<close> for a task of a multiconfig.
\<close>

section \<open>Task identifiers\<close>

definition fn_from_tid :: "string \<Rightarrow> string" where
  "fn_from_tid tid = hd (rsplit1 (CHR '':'') tid)"

definition taskname_from_tid :: "string \<Rightarrow> string result" where
  "taskname_from_tid tid = (case rsplit1 (CHR '':'') tid of [fn, taskname] \<Rightarrow> Inr taskname | _ \<Rightarrow> Inl IndexError)"

definition mc_from_tid :: "string \<Rightarrow> string" where
  "mc_from_tid tid = (if startswith tid ''mc:'' then split_on (CHR '':'') tid ! 1 else [])"

definition split_tid_mcfn :: "string \<Rightarrow> (string \<times> string \<times> string \<times> string) result" where
  "split_tid_mcfn tid =
     (if startswith tid ''mc:''
      then let elems = split_on (CHR '':'') tid;
               mc = elems ! 1;
               fn = join '':'' (butlast (drop 2 elems))
           in Inr (mc, fn, last elems, ''mc:'' @ mc @ '':'' @ fn)
      else case rsplit1 (CHR '':'') tid of
             [fn, taskname] \<Rightarrow> Inr ([], fn, taskname, fn)
           | _ \<Rightarrow> Inl IndexError)"

definition split_tid :: "string \<Rightarrow> (string \<times> string \<times> string) result" where
  "split_tid tid = rbind (split_tid_mcfn tid) (\<lambda>(mc, fn, taskname, _). Inr (mc, fn, taskname))"

definition split_mc :: "string \<Rightarrow> (string \<times> string) result" where
  "split_mc n =
     (if startswith n ''mc:''
      then let elems = split_on (CHR '':'') n
           in if length elems < 3 then Inl (ValueError n) else Inr (elems ! 1, join '':'' (drop 2 elems))
      else Inr ([], n))"

definition build_tid :: "string \<Rightarrow> string \<Rightarrow> string \<Rightarrow> string" where
  "build_tid mc fn taskname =
     (if mc \<noteq> [] then ''mc:'' @ mc @ '':'' @ fn @ '':'' @ taskname else fn @ '':'' @ taskname)"

text \<open>An entry of the run queue; the two sets are lists without order significance.\<close>

record runtaskentry =
  re_depends :: "string list"
  re_revdeps :: "string list"
  re_hash :: "string option"
  re_unihash :: "string option"
  re_task :: "string option"
  re_weight :: int

definition RunTaskEntry :: runtaskentry where
  "RunTaskEntry = \<lparr>re_depends = [], re_revdeps = [], re_hash = None, re_unihash = None, re_task = None, re_weight = 1\<rparr>"

definition pending_hash_index ::
    "string \<Rightarrow> (string, cachedata) dict \<Rightarrow> (string, runtaskentry) dict \<Rightarrow> string result" where
  "pending_hash_index tid dataCaches runtaskentries =
     rbind (split_tid_mcfn tid) (\<lambda>(mc, fn, taskname, taskfn).
     rbind (dict_lookup dataCaches mc) (\<lambda>dc.
     rbind (dict_lookup (dc_pkg_fn dc) taskfn) (\<lambda>pn.
     rbind (dict_lookup runtaskentries tid) (\<lambda>e.
     case re_unihash e of None \<Rightarrow> Inl TypeError | Some h \<Rightarrow> Inr (pn @ '':'' @ ''taskname'' @ h)))))"

section \<open>Statistics\<close>

record rqstats =
  st_completed :: int
  st_skipped :: int
  st_failed :: int
  st_active :: int
  st_total :: int

definition RunQueueStats :: "int \<Rightarrow> rqstats" where
  "RunQueueStats n = \<lparr>st_completed = 0, st_skipped = 0, st_failed = 0, st_active = 0, st_total = n\<rparr>"

definition taskFailed :: "rqstats \<Rightarrow> rqstats" where
  "taskFailed st = st\<lparr>st_active := st_active st - 1, st_failed := st_failed st + 1\<rparr>"

definition taskCompleted :: "rqstats \<Rightarrow> rqstats" where
  "taskCompleted st = st\<lparr>st_active := st_active st - 1, st_completed := st_completed st + 1\<rparr>"

definition taskSkipped :: "rqstats \<Rightarrow> rqstats" where
  "taskSkipped st = st\<lparr>st_active := st_active st + 1, st_skipped := st_skipped st + 1\<rparr>"

definition taskActive :: "rqstats \<Rightarrow> rqstats" where
  "taskActive st = st\<lparr>st_active := st_active st + 1\<rparr>"

section \<open>Round trips\<close>

lemma mc_prefix_colon: "startswith s ''mc:'' \<Longrightarrow> split_on (CHR '':'') s = ''mc'' # split_on (CHR '':'') (drop 3 s)"
  by (auto simp: prefix_def)

lemma split_on_mc: "CHR '':'' \<notin> set mc \<Longrightarrow> split_on (CHR '':'') (''mc:'' @ mc @ '':'' @ s) = ''mc'' # mc # split_on (CHR '':'') s"
  using split_on_append_sep [of "CHR '':''" mc s] by simp

lemma split_build_tid:
  assumes "CHR '':'' \<notin> set mc" "CHR '':'' \<notin> set task" "mc = [] \<longrightarrow> \<not> startswith (fn @ '':'' @ task) ''mc:''"
  shows "split_tid_mcfn (build_tid mc fn task) = Inr (mc, fn, task, if mc = [] then fn else ''mc:'' @ mc @ '':'' @ fn)"
proof (cases "mc = []")
  case True
  then show ?thesis
    using assms by (simp add: split_tid_mcfn_def build_tid_def rsplit1_snoc)
next
  case False
  let ?tid = "''mc:'' @ mc @ '':'' @ (fn @ CHR '':'' # task)"
  have sp: "split_on (CHR '':'') ?tid = ''mc'' # mc # split_on (CHR '':'') fn @ [task]"
    using split_on_mc [OF assms(1), of "fn @ CHR '':'' # task"] split_on_snoc [OF assms(2), of fn] by simp
  have "startswith ?tid ''mc:''" by simp
  then have "split_tid_mcfn ?tid = Inr (mc, join '':'' (split_on (CHR '':'') fn), task, ''mc:'' @ mc @ '':'' @ join '':'' (split_on (CHR '':'') fn))"
    unfolding split_tid_mcfn_def sp by (simp add: Let_def)
  with False show ?thesis by (simp add: build_tid_def split_on_join)
qed

text \<open>\<^verbatim>\<open>split_tid_mcfn\<close> inverts \<^verbatim>\<open>build_tid\<close>: it gives back the multiconfig, the file and the task, and as
  fourth part the file name as \<^verbatim>\<open>realfn2virtual\<close> writes it. The short forms agree with it.\<close>

theorem tid_roundtrip:
  assumes "CHR '':'' \<notin> set mc" and "CHR '':'' \<notin> set task" and "mc = [] \<longrightarrow> \<not> startswith (fn @ '':'' @ task) ''mc:''"
  shows "split_tid_mcfn (build_tid mc fn task) = Inr (mc, fn, task, realfn2virtual fn [] mc) \<and>
    split_tid (build_tid mc fn task) = Inr (mc, fn, task) \<and>
    taskname_from_tid (build_tid mc fn task) = Inr task \<and>
    fn_from_tid (build_tid mc fn task) = realfn2virtual fn [] mc \<and> mc_from_tid (build_tid mc fn task) = mc"
proof -
  have v: "realfn2virtual fn [] mc = (if mc = [] then fn else ''mc:'' @ mc @ '':'' @ fn)" by (simp add: realfn2virtual_def)
  have eq: "build_tid mc fn task = (if mc = [] then fn else ''mc:'' @ mc @ '':'' @ fn) @ CHR '':'' # task"
    by (simp add: build_tid_def)
  have "rsplit1 (CHR '':'') (build_tid mc fn task) = [realfn2virtual fn [] mc, task]"
    unfolding eq v by (rule rsplit1_snoc [OF assms(2)])
  moreover have "mc_from_tid (build_tid mc fn task) = mc"
  proof (cases "mc = []")
    case True
    then show ?thesis using assms(3) by (simp add: mc_from_tid_def build_tid_def)
  next
    case False
    then have "split_on (CHR '':'') (build_tid mc fn task) ! 1 = mc"
      using split_on_mc [OF assms(1), of "fn @ '':'' @ task"] by (simp add: build_tid_def)
    with False show ?thesis by (simp add: mc_from_tid_def build_tid_def)
  qed
  ultimately show ?thesis
    using split_build_tid [OF assms] v
    by (simp add: split_tid_def taskname_from_tid_def fn_from_tid_def del: rbind_eq_Inr)
qed

theorem tid_roundtrip_witness:
  "split_tid_mcfn ''mc:arm:virtual:native:/l/a_1.bb:do_build'' =
     Inr (''arm'', ''virtual:native:/l/a_1.bb'', ''do_build'', ''mc:arm:virtual:native:/l/a_1.bb'')"
proof -
  have h: "CHR '':'' \<notin> set ''arm''" "CHR '':'' \<notin> set ''do_build''"
    "''arm'' = [] \<longrightarrow> \<not> startswith (''virtual:native:/l/a_1.bb'' @ '':'' @ ''do_build'') ''mc:''" by simp_all
  from tid_roundtrip [OF h] show ?thesis by (simp add: build_tid_def realfn2virtual_def)
qed

text \<open>The index that pairs tasks of different multiconfigs does not depend on the task: two tasks of
  recipes with the same name and with the same unified hash get the same index whatever their task names.\<close>

theorem pending_hash_index_ignores_task:
  assumes "split_tid_mcfn tid = Inr (mc, fn, task, taskfn)" and "split_tid_mcfn tid' = Inr (mc', fn', task', taskfn')"
    and "dict_lookup caches mc = Inr dc" and "dict_lookup (dc_pkg_fn dc) taskfn = Inr pn"
    and "dict_lookup caches mc' = Inr dc'" and "dict_lookup (dc_pkg_fn dc') taskfn' = Inr pn"
    and "dict_lookup entries tid = Inr e" and "dict_lookup entries tid' = Inr e'"
    and "re_unihash e = Some h" and "re_unihash e' = Some h"
  shows "pending_hash_index tid caches entries = pending_hash_index tid' caches entries"
  unfolding pending_hash_index_def assms(1,2) rbind_simps prod.case assms(3,5) assms(4,6) assms(7,8) assms(9,10) ..

theorem pending_hash_index_ignores_task_witness:
  "let dc = CacheData\<lparr>dc_pkg_fn := [(''a.bb'', ''a'')]\<rparr>;
       entries = [(''a.bb:do_x'', RunTaskEntry\<lparr>re_unihash := Some ''0''\<rparr>), (''a.bb:do_y'', RunTaskEntry\<lparr>re_unihash := Some ''0''\<rparr>)]
   in pending_hash_index ''a.bb:do_x'' [([], dc)] entries = pending_hash_index ''a.bb:do_y'' [([], dc)] entries"
  unfolding Let_def
proof (rule pending_hash_index_ignores_task [where pn = "''a''" and h = "''0''" and e = "RunTaskEntry\<lparr>re_unihash := Some ''0''\<rparr>" and
      e' = "RunTaskEntry\<lparr>re_unihash := Some ''0''\<rparr>" and dc = "CacheData\<lparr>dc_pkg_fn := [(''a.bb'', ''a'')]\<rparr>" and
      dc' = "CacheData\<lparr>dc_pkg_fn := [(''a.bb'', ''a'')]\<rparr>"])
  show "split_tid_mcfn ''a.bb:do_x'' = Inr ([], ''a.bb'', ''do_x'', ''a.bb'')" by code_simp
  show "split_tid_mcfn ''a.bb:do_y'' = Inr ([], ''a.bb'', ''do_y'', ''a.bb'')" by code_simp
qed (simp_all add: dict_lookup_def CacheData_def RunTaskEntry_def)

end
