(* ===== verification/BB_Weights.thy ===== *)
theory BB_Weights
  imports BB_Tid
begin

text \<open>
  \<^verbatim>\<open>RunQueueData.calculate_task_weights\<close> and \<^verbatim>\<open>circular_depchains_handler\<close> of \<^verbatim>\<open>lib/bb/runqueue.py\<close>: task
  weights are propagated from the end points of the dependency graph towards the tasks that must run
  first; tasks that are never reached lie on or behind a dependency loop.
\<close>

section \<open>The search for loops\<close>

type_synonym rtentries = "(string, runtaskentry) dict"

definition lowest_index :: "string list \<Rightarrow> nat" where
  "lowest_index chain = fold (\<lambda>entry lowest. if chain ! entry < chain ! lowest then entry else lowest) [0..<length chain] 0"

definition chain_reorder :: "string list \<Rightarrow> string list" where
  "chain_reorder chain = (let lowest = lowest_index chain in drop lowest chain @ take lowest chain)"

definition chain_compare_equal :: "string list \<Rightarrow> string list \<Rightarrow> bool" where
  "chain_compare_equal chain1 chain2 =
     (length chain1 = length chain2 \<and> (\<forall>index \<in> set [0..<length chain1]. chain1 ! index = chain2 ! index))"

definition chain_array_contains :: "string list \<Rightarrow> string list list \<Rightarrow> bool" where
  "chain_array_contains chain chain_array = list_ex (\<lambda>ch. chain_compare_equal ch chain) chain_array"

text \<open>
  The closure variables \<^verbatim>\<open>valid_chains\<close> and \<^verbatim>\<open>explored_deps\<close>; of the messages only the reported chains are
  kept, from which they are made. \<open>TooManyLoops\<close> ends the search through \<open>ch_stop\<close>.
\<close>

record chain_state =
  ch_valid :: "string list list"
  ch_explored :: "(string, string list) dict"
  ch_stop :: bool

definition note_chain :: "string list \<Rightarrow> chain_state \<Rightarrow> chain_state" where
  "note_chain chain st =
     (let new_chain = chain_reorder chain;
          valid = (if chain_array_contains new_chain (ch_valid st) then ch_valid st else ch_valid st @ [new_chain])
      in st\<lparr>ch_valid := valid, ch_stop := ch_stop st \<or> length valid > 10\<rparr>)"

definition must_scan :: "string \<Rightarrow> string list \<Rightarrow> (string, string list) dict \<Rightarrow> bool" where
  "must_scan revdep prev_chain explored =
     (case map_of explored revdep of
        None \<Rightarrow> True
      | Some deps \<Rightarrow> revdep \<in> set deps \<or> (\<exists>dep \<in> set prev_chain. dep \<in> set deps))"

text \<open>
  \<^verbatim>\<open>find_chains\<close> with a bound on the length of the chain, which never repeats a task. \<open>scan_revdeps\<close> is the loop
  over the reverse dependencies.
\<close>

fun scan_revdeps ::
    "(string \<Rightarrow> string list \<Rightarrow> chain_state \<Rightarrow> chain_state result) \<Rightarrow> string list \<Rightarrow> string list \<Rightarrow>
     string list \<times> chain_state \<Rightarrow> (string list \<times> chain_state) result" where
  "scan_revdeps fc prev_chain [] (tot, st) = Inr (tot, st)"
| "scan_revdeps fc prev_chain (revdep # revdeps) (tot, st) =
     (if ch_stop st then Inr (tot, st)
      else if revdep \<in> set prev_chain
      then scan_revdeps fc prev_chain revdeps (tot, note_chain (dropWhile (\<lambda>t. t \<noteq> revdep) prev_chain) st)
      else rbind (if must_scan revdep prev_chain (ch_explored st) then fc revdep prev_chain st else Inr st) (\<lambda>st1.
           if ch_stop st1 then Inr (tot, st1)
           else rbind (dict_lookup (ch_explored st1) revdep) (\<lambda>deps.
                scan_revdeps fc prev_chain revdeps (fold add_new deps tot, st1))))"

fun find_chains :: "nat \<Rightarrow> rtentries \<Rightarrow> string \<Rightarrow> string list \<Rightarrow> chain_state \<Rightarrow> chain_state result" where
  "find_chains 0 entries tid prev_chain st = Inl RuntimeError"
| "find_chains (Suc n) entries tid prev_chain st =
     rbind (dict_lookup entries tid) (\<lambda>e.
     rbind (scan_revdeps (find_chains n entries) (prev_chain @ [tid]) (re_revdeps e) (re_revdeps e, st)) (\<lambda>(tot, st1).
     Inr (if ch_stop st1 then st1 else st1\<lparr>ch_explored := dict_set tid tot (ch_explored st1)\<rparr>)))"

definition circular_depchains_handler :: "rtentries \<Rightarrow> string list \<Rightarrow> string list list result" where
  "circular_depchains_handler entries tasks =
     rbind (rfold (\<lambda>task st. if ch_stop st then Inr st else find_chains (Suc (length entries)) entries task [] st) tasks
              \<lparr>ch_valid = [], ch_explored = [], ch_stop = False\<rparr>) (\<lambda>st.
     Inr (ch_valid st))"

section \<open>Weights\<close>

record weight_state =
  ws_weight :: "(string, int) dict"
  ws_left :: "(string, int) dict"
  ws_done :: "(string, bool) dict"
  ws_next :: "string list"

definition weights_init :: "rtentries \<Rightarrow> string list \<Rightarrow> weight_state" where
  "weights_init entries endpoints =
     \<lparr>ws_weight = fold (\<lambda>tid. dict_set tid 10) endpoints (map (\<lambda>(tid, e). (tid, 1)) entries),
      ws_left = map (\<lambda>(tid, e). (tid, int (length (re_revdeps e)))) entries,
      ws_done = fold (\<lambda>tid. dict_set tid True) endpoints (map (\<lambda>(tid, e). (tid, False)) entries),
      ws_next = []\<rparr>"

definition relax_edge :: "string \<Rightarrow> string \<Rightarrow> weight_state \<Rightarrow> weight_state result" where
  "relax_edge tid revdep st =
     rbind (dict_lookup (ws_weight st) revdep) (\<lambda>wr.
     rbind (dict_lookup (ws_weight st) tid) (\<lambda>wt.
     rbind (dict_lookup (ws_left st) revdep) (\<lambda>left.
     Inr (let st1 = st\<lparr>ws_weight := dict_set revdep (wr + wt) (ws_weight st),
                       ws_left := dict_set revdep (left - 1) (ws_left st)\<rparr>
          in if left - 1 = 0
             then st1\<lparr>ws_next := ws_next st1 @ [revdep], ws_done := dict_set revdep True (ws_done st1)\<rparr>
             else st1))))"

definition relax_tid :: "rtentries \<Rightarrow> string \<Rightarrow> weight_state \<Rightarrow> weight_state result" where
  "relax_tid entries tid st =
     rbind (dict_lookup entries tid) (\<lambda>e. rfold (relax_edge tid) (re_depends e) st)"

definition relax_round :: "rtentries \<Rightarrow> string list \<Rightarrow> weight_state \<Rightarrow> weight_state result" where
  "relax_round entries endpoints st = rfold (relax_tid entries) endpoints (st\<lparr>ws_next := []\<rparr>)"

text \<open>The sum of the open dependency counts falls with every task that becomes an end point, so the loop ends.\<close>

definition open_count :: "weight_state \<Rightarrow> nat" where
  "open_count st = sum_list (map (\<lambda>(k, n). nat n) (ws_left st))"

lemma sum_list_update:
  "map_of d k = Some n \<Longrightarrow> sum_list (map (\<lambda>(k, n). nat n) (dict_set k m d)) + nat n = sum_list (map (\<lambda>(k, n). nat n) d) + nat m"
  by (induction d) auto

lemma relax_edge_count:
  assumes "relax_edge tid r st = Inr st'"
  shows "open_count st' + length (ws_next st') \<le> open_count st + length (ws_next st)"
proof -
  from assms obtain wr wt left where l: "map_of (ws_left st) r = Some left" and
    st': "st' = (let st1 = st\<lparr>ws_weight := dict_set r (wr + wt) (ws_weight st), ws_left := dict_set r (left - 1) (ws_left st)\<rparr>
        in if left - 1 = 0 then st1\<lparr>ws_next := ws_next st1 @ [r], ws_done := dict_set r True (ws_done st1)\<rparr> else st1)"
    by (auto simp: relax_edge_def dict_lookup_def split: option.splits)
  from sum_list_update [OF l, of "left - 1"] show ?thesis
    unfolding st' open_count_def by (auto simp: Let_def)
qed

lemma rfold_count:
  assumes "rfold f xs st = Inr st'" "\<And>x s s'. f x s = Inr s' \<Longrightarrow> open_count s' + length (ws_next s') \<le> open_count s + length (ws_next s)"
  shows "open_count st' + length (ws_next st') \<le> open_count st + length (ws_next st)"
  using assms
proof (induction xs arbitrary: st)
  case (Cons x xs)
  then obtain s where s: "f x st = Inr s" "rfold f xs s = Inr st'" by auto
  have "open_count st' + length (ws_next st') \<le> open_count s + length (ws_next s)"
    by (rule Cons.IH [OF s(2)]) (rule Cons.prems(2))
  with Cons.prems(2) [OF s(1)] show ?case by simp
qed simp

lemma relax_round_count:
  assumes "relax_round entries endpoints st = Inr st'" "ws_next st' \<noteq> []"
  shows "open_count st' < open_count st"
proof -
  have "open_count s' + length (ws_next s') \<le> open_count s + length (ws_next s)" if "relax_tid entries tid s = Inr s'" for tid s s'
    using that unfolding relax_tid_def rbind_eq_Inr by (elim exE conjE) (rule rfold_count, auto intro: relax_edge_count)
  from rfold_count [OF assms(1) [unfolded relax_round_def] this]
  have "open_count st' + length (ws_next st') \<le> open_count st" by (simp add: open_count_def)
  with assms(2) show ?thesis by (cases "ws_next st'") auto
qed

function weights_loop :: "rtentries \<Rightarrow> string list \<Rightarrow> weight_state \<Rightarrow> weight_state result" where
  "weights_loop entries endpoints st =
     rbind (relax_round entries endpoints st) (\<lambda>st'.
     if ws_next st' = [] then Inr st' else weights_loop entries (ws_next st') st')"
  by pat_completeness auto
termination
  by (relation "measure (\<lambda>(entries, endpoints, st). open_count st)") (auto dest: relax_round_count)

declare weights_loop.simps [simp del]

definition problem_tasks :: "rtentries \<Rightarrow> weight_state \<Rightarrow> string list" where
  "problem_tasks entries st =
     filter (\<lambda>tid. map_of (ws_done st) tid \<noteq> Some True \<or> map_of (ws_left st) tid \<noteq> Some 0) (dict_keys entries)"

definition assign_weights :: "weight_state \<Rightarrow> rtentries \<Rightarrow> rtentries" where
  "assign_weights st entries = map (\<lambda>(tid, e). (tid, e\<lparr>re_weight := the (map_of (ws_weight st) tid)\<rparr>)) entries"

definition calculate_task_weights :: "rtentries \<Rightarrow> string list \<Rightarrow> (rtentries \<times> (string, int) dict) result" where
  "calculate_task_weights entries endpoints =
     rbind (weights_loop entries endpoints (weights_init entries endpoints)) (\<lambda>st.
     if problem_tasks entries st \<noteq> []
     then rbind (circular_depchains_handler entries (problem_tasks entries st)) (\<lambda>chains. Inl (FatalExit ''RunQueue''))
     else Inr (assign_weights st entries, ws_weight st))"

section \<open>The dependency graph\<close>

definition deps_of :: "rtentries \<Rightarrow> string \<Rightarrow> string list" where
  "deps_of entries t = (case map_of entries t of None \<Rightarrow> [] | Some e \<Rightarrow> re_depends e)"

definition revs_of :: "rtentries \<Rightarrow> string \<Rightarrow> string list" where
  "revs_of entries t = (case map_of entries t of None \<Rightarrow> [] | Some e \<Rightarrow> re_revdeps e)"

text \<open>Both directions are recorded, without duplicates, between tasks of the queue.\<close>

definition graph_ok :: "rtentries \<Rightarrow> bool" where
  "graph_ok entries \<longleftrightarrow> dict_wf entries \<and>
     (\<forall>t \<in> set (dict_keys entries). distinct (deps_of entries t) \<and> distinct (revs_of entries t) \<and>
        set (deps_of entries t) \<subseteq> set (dict_keys entries) \<and> set (revs_of entries t) \<subseteq> set (dict_keys entries) \<and>
        (\<forall>d \<in> set (dict_keys entries). d \<in> set (deps_of entries t) \<longleftrightarrow> t \<in> set (revs_of entries d)))"

definition endpoints_of :: "rtentries \<Rightarrow> string list" where
  "endpoints_of entries = filter (\<lambda>t. revs_of entries t = []) (dict_keys entries)"

inductive schedulable :: "rtentries \<Rightarrow> string \<Rightarrow> bool" for entries :: rtentries where
  "t \<in> set (dict_keys entries) \<Longrightarrow> (\<forall>r \<in> set (revs_of entries t). schedulable entries r) \<Longrightarrow> schedulable entries t"

definition wt :: "weight_state \<Rightarrow> string \<Rightarrow> int" where
  "wt st k = the (map_of (ws_weight st) k)"

definition lf :: "weight_state \<Rightarrow> string \<Rightarrow> int" where
  "lf st k = the (map_of (ws_left st) k)"

definition dn :: "weight_state \<Rightarrow> string \<Rightarrow> bool" where
  "dn st k \<longleftrightarrow> map_of (ws_done st) k = Some True"

definition ws_full :: "string set \<Rightarrow> weight_state \<Rightarrow> bool" where
  "ws_full K st \<longleftrightarrow> (\<forall>k \<in> K. map_of (ws_weight st) k \<noteq> None \<and> map_of (ws_left st) k \<noteq> None)"

lemma relax_edge_spec:
  assumes "ws_full K st" "tid \<in> K" "d \<in> K"
  shows "\<exists>st'. relax_edge tid d st = Inr st' \<and> ws_full K st' \<and>
    (\<forall>k. wt st' k = (if k = d then wt st d + wt st tid else wt st k)) \<and>
    (\<forall>k. lf st' k = (if k = d then lf st d - 1 else lf st k)) \<and>
    ws_next st' = ws_next st @ (if lf st d = 1 then [d] else []) \<and>
    (\<forall>k. dn st' k \<longleftrightarrow> dn st k \<or> k = d \<and> lf st d = 1)"
proof -
  obtain a b c where "map_of (ws_weight st) d = Some a" "map_of (ws_weight st) tid = Some b" "map_of (ws_left st) d = Some c"
    using assms unfolding ws_full_def by blast
  then show ?thesis
    using assms(1) by (auto simp: relax_edge_def dict_lookup_def Let_def ws_full_def wt_def lf_def dn_def)
qed

lemma relax_edges_spec:
  assumes "ws_full K st" "tid \<in> K" "set ds \<subseteq> K" "distinct ds" "tid \<notin> set ds"
  shows "\<exists>st'. rfold (relax_edge tid) ds st = Inr st' \<and> ws_full K st' \<and>
    (\<forall>k. wt st' k = (if k \<in> set ds then wt st k + wt st tid else wt st k)) \<and>
    (\<forall>k. lf st' k = (if k \<in> set ds then lf st k - 1 else lf st k)) \<and>
    ws_next st' = ws_next st @ filter (\<lambda>d. lf st d = 1) ds \<and>
    (\<forall>k. dn st' k \<longleftrightarrow> dn st k \<or> k \<in> set ds \<and> lf st k = 1)"
  using assms
proof (induction ds arbitrary: st)
  case (Cons d ds)
  obtain st1 where e: "relax_edge tid d st = Inr st1" and s1: "ws_full K st1"
      "\<forall>k. wt st1 k = (if k = d then wt st d + wt st tid else wt st k)" "\<forall>k. lf st1 k = (if k = d then lf st d - 1 else lf st k)"
      "ws_next st1 = ws_next st @ (if lf st d = 1 then [d] else [])" "\<forall>k. dn st1 k \<longleftrightarrow> dn st k \<or> k = d \<and> lf st d = 1"
    using relax_edge_spec [of K st tid d] Cons.prems by auto
  obtain st' where f: "rfold (relax_edge tid) ds st1 = Inr st'" and s': "ws_full K st'"
      "\<forall>k. wt st' k = (if k \<in> set ds then wt st1 k + wt st1 tid else wt st1 k)"
      "\<forall>k. lf st' k = (if k \<in> set ds then lf st1 k - 1 else lf st1 k)"
      "ws_next st' = ws_next st1 @ filter (\<lambda>d. lf st1 d = 1) ds" "\<forall>k. dn st' k \<longleftrightarrow> dn st1 k \<or> k \<in> set ds \<and> lf st1 k = 1"
    using Cons.IH [OF s1(1)] Cons.prems by auto
  have "filter (\<lambda>d. lf st1 d = 1) ds = filter (\<lambda>d. lf st d = 1) ds"
    using s1(3) Cons.prems(4) by (auto intro: filter_cong)
  then have "ws_next st' = ws_next st @ filter (\<lambda>d. lf st d = 1) (d # ds)" using s'(4) s1(4) by simp
  moreover have "wt st' k = (if k \<in> set (d # ds) then wt st k + wt st tid else wt st k)" for k
    using s'(2) s1(2) Cons.prems(4,5) by auto
  moreover have "lf st' k = (if k \<in> set (d # ds) then lf st k - 1 else lf st k)" for k
    using s'(3) s1(3) Cons.prems(4) by auto
  moreover have "dn st' k \<longleftrightarrow> dn st k \<or> k \<in> set (d # ds) \<and> lf st k = 1" for k
    using s'(5) s1(5,3) Cons.prems(4) by auto
  ultimately show ?case using e f s'(1) by (intro exI [of _ st']) simp
qed simp

lemma graph_okD:
  assumes "graph_ok entries" "t \<in> set (dict_keys entries)"
  shows "distinct (deps_of entries t)" "distinct (revs_of entries t)"
    "set (deps_of entries t) \<subseteq> set (dict_keys entries)" "set (revs_of entries t) \<subseteq> set (dict_keys entries)"
    "d \<in> set (dict_keys entries) \<Longrightarrow> d \<in> set (deps_of entries t) \<longleftrightarrow> t \<in> set (revs_of entries d)"
  using assms unfolding graph_ok_def by blast+

lemma deps_revs:
  assumes "graph_ok entries" "t \<in> set (dict_keys entries)" "k \<in> set (dict_keys entries)"
  shows "k \<in> set (deps_of entries t) \<longleftrightarrow> t \<in> set (revs_of entries k)"
  using graph_okD(5) [OF assms(1,2,3)] .

section \<open>The invariant of the propagation\<close>

text \<open>\<open>P\<close> are the tasks whose dependencies have been visited, \<open>E\<close> those still to visit.\<close>

definition base_weight :: "rtentries \<Rightarrow> string \<Rightarrow> int" where
  "base_weight entries k = (if revs_of entries k = [] then 10 else 1)"

definition winv :: "rtentries \<Rightarrow> string set \<Rightarrow> string list \<Rightarrow> weight_state \<Rightarrow> bool" where
  "winv entries P E st \<longleftrightarrow> ws_full (set (dict_keys entries)) st \<and> distinct E \<and> set E \<inter> P = {} \<and>
     P \<union> set E \<subseteq> set (dict_keys entries) \<and> P \<subseteq> Collect (schedulable entries) \<and>
     (\<forall>k \<in> set (dict_keys entries).
        lf st k = int (card (set (revs_of entries k) - P)) \<and>
        (k \<in> P \<union> set E \<longleftrightarrow> set (revs_of entries k) \<subseteq> P) \<and> (dn st k \<longleftrightarrow> k \<in> P \<union> set E) \<and>
        wt st k = base_weight entries k + (\<Sum>r \<in> set (revs_of entries k) \<inter> P. wt st r))"

lemma winvD:
  assumes "winv entries P E st"
  shows "ws_full (set (dict_keys entries)) st" "distinct E" "set E \<inter> P = {}" "P \<union> set E \<subseteq> set (dict_keys entries)"
    "P \<subseteq> Collect (schedulable entries)"
    "k \<in> set (dict_keys entries) \<Longrightarrow> lf st k = int (card (set (revs_of entries k) - P))"
    "k \<in> set (dict_keys entries) \<Longrightarrow> k \<in> P \<union> set E \<longleftrightarrow> set (revs_of entries k) \<subseteq> P"
    "k \<in> set (dict_keys entries) \<Longrightarrow> dn st k \<longleftrightarrow> k \<in> P \<union> set E"
    "k \<in> set (dict_keys entries) \<Longrightarrow> wt st k = base_weight entries k + (\<Sum>r \<in> set (revs_of entries k) \<inter> P. wt st r)"
  using assms unfolding winv_def by blast+

lemma winvI:
  assumes "ws_full (set (dict_keys entries)) st" "distinct E" "set E \<inter> P = {}" "P \<union> set E \<subseteq> set (dict_keys entries)"
    "P \<subseteq> Collect (schedulable entries)"
    "\<And>k. k \<in> set (dict_keys entries) \<Longrightarrow> lf st k = int (card (set (revs_of entries k) - P))"
    "\<And>k. k \<in> set (dict_keys entries) \<Longrightarrow> k \<in> P \<union> set E \<longleftrightarrow> set (revs_of entries k) \<subseteq> P"
    "\<And>k. k \<in> set (dict_keys entries) \<Longrightarrow> dn st k \<longleftrightarrow> k \<in> P \<union> set E"
    "\<And>k. k \<in> set (dict_keys entries) \<Longrightarrow> wt st k = base_weight entries k + (\<Sum>r \<in> set (revs_of entries k) \<inter> P. wt st r)"
  shows "winv entries P E st"
  unfolding winv_def using assms by blast

lemma card_remove_one:
  assumes "finite A" "t \<in> A" "t \<notin> P"
  shows "int (card (A - insert t P)) = int (card (A - P)) - 1"
proof -
  have "A - insert t P = (A - P) - {t}" by blast
  moreover have "Suc (card ((A - P) - {t})) = card (A - P)" using assms by (intro card_Suc_Diff1) auto
  ultimately show ?thesis by simp
qed

lemma card_one_iff:
  assumes "finite A" "t \<in> A" "t \<notin> P"
  shows "card (A - P) = 1 \<longleftrightarrow> A \<subseteq> insert t P"
proof
  assume "card (A - P) = 1"
  then obtain x where x: "A - P = {x}" by (auto simp: card_1_singleton_iff)
  moreover have "t \<in> A - P" using assms by blast
  ultimately have "x = t" by simp
  with x show "A \<subseteq> insert t P" by blast
next
  assume "A \<subseteq> insert t P"
  with assms have "A - P = {t}" by blast
  then show "card (A - P) = 1" by simp
qed

lemma sum_visit:
  fixes f :: "'a \<Rightarrow> int"
  assumes "finite A" "t \<notin> P" "b \<longleftrightarrow> t \<in> A"
  shows "(\<Sum>r \<in> A \<inter> insert t P. f r) = (\<Sum>r \<in> A \<inter> P. f r) + (if b then f t else 0)"
proof (cases "t \<in> A")
  case True
  then have "A \<inter> insert t P = insert t (A \<inter> P)" by blast
  with True assms show ?thesis by simp
next
  case False
  then have "A \<inter> insert t P = A \<inter> P" by blast
  with False assms show ?thesis by simp
qed

lemma winv_step:
  assumes g: "graph_ok entries" and inv: "winv entries P (tid # E) st"
  shows "\<exists>st'. relax_tid entries tid st = Inr st' \<and> ws_next st' = ws_next st @ filter (\<lambda>d. lf st d = 1) (deps_of entries tid) \<and>
    winv entries (insert tid P) (E @ filter (\<lambda>d. lf st d = 1) (deps_of entries tid)) st'"
proof -
  let ?K = "set (dict_keys entries)" and ?ds = "deps_of entries tid"
  let ?new = "filter (\<lambda>d. lf st d = 1) ?ds" and ?P = "insert tid P"
  note i = winvD [OF inv]
  have tid: "tid \<in> ?K" "tid \<notin> P" "set (revs_of entries tid) \<subseteq> P" using i(3,4) i(7) [of tid] by auto
  note gt = graph_okD [OF g tid(1)]
  have edge: "k \<in> set ?ds \<longleftrightarrow> tid \<in> set (revs_of entries k)" if "k \<in> ?K" for k using deps_revs [OF g tid(1) that] .
  have visited: "k \<notin> set ?ds" if "k \<in> P \<union> set (tid # E)" for k
    using that i(4) i(7) [of k] edge [of k] tid(2) by blast
  obtain e where e: "map_of entries tid = Some e"
    using tid(1) has_key_iff [of entries tid] unfolding has_key_def by blast
  obtain st' where st': "rfold (relax_edge tid) ?ds st = Inr st'" "ws_full ?K st'"
      "\<forall>k. wt st' k = (if k \<in> set ?ds then wt st k + wt st tid else wt st k)"
      "\<forall>k. lf st' k = (if k \<in> set ?ds then lf st k - 1 else lf st k)"
      "ws_next st' = ws_next st @ ?new" "\<forall>k. dn st' k \<longleftrightarrow> dn st k \<or> k \<in> set ?ds \<and> lf st k = 1"
    using relax_edges_spec [OF i(1) tid(1) gt(3,1)] visited [of tid] by auto
  have run: "relax_tid entries tid st = Inr st'"
    using st'(1) e by (simp add: relax_tid_def dict_lookup_def deps_of_def)
  have new: "k \<in> set ?new \<longleftrightarrow> tid \<in> set (revs_of entries k) \<and> set (revs_of entries k) \<subseteq> ?P" if k: "k \<in> ?K" for k
    using i(6) [OF k] edge [OF k] card_one_iff [of "set (revs_of entries k)" tid P] tid(2) by auto
  have newK: "set ?new \<subseteq> ?K" using gt(3) by auto
  have mem: "k \<in> ?P \<union> set (E @ ?new) \<longleftrightarrow> set (revs_of entries k) \<subseteq> ?P" if k: "k \<in> ?K" for k
    using i(7) [OF k] new [OF k] by auto
  have "distinct (E @ ?new)" using i(2) gt(1) visited by auto
  moreover have "set (E @ ?new) \<inter> ?P = {}" using i(2,3) visited by auto
  moreover have "?P \<union> set (E @ ?new) \<subseteq> ?K" using i(4) newK by auto
  moreover have "?P \<subseteq> Collect (schedulable entries)" using i(5) tid schedulable.intros [of tid entries] by blast
  moreover have "lf st' k = int (card (set (revs_of entries k) - ?P))" if k: "k \<in> ?K" for k
    using st'(4) i(6) [OF k] edge [OF k] card_remove_one [of "set (revs_of entries k)" tid P] tid(2) by (auto simp: Diff_insert0)
  moreover have "dn st' k \<longleftrightarrow> k \<in> ?P \<union> set (E @ ?new)" if k: "k \<in> ?K" for k
    using st'(6) i(8) [OF k] by auto
  moreover have "wt st' k = base_weight entries k + (\<Sum>r \<in> set (revs_of entries k) \<inter> ?P. wt st' r)" if k: "k \<in> ?K" for k
  proof -
    have same: "wt st' r = wt st r" if "r \<in> ?P" for r using st'(3) visited [of r] that by auto
    have "(\<Sum>r \<in> set (revs_of entries k) \<inter> ?P. wt st' r) = (\<Sum>r \<in> set (revs_of entries k) \<inter> ?P. wt st r)"
      by (rule sum.cong) (use same in auto)
    also have "\<dots> = (\<Sum>r \<in> set (revs_of entries k) \<inter> P. wt st r) + (if k \<in> set ?ds then wt st tid else 0)"
      by (rule sum_visit) (use edge [OF k] tid(2) in auto)
    finally show ?thesis using st'(3) i(9) [OF k] by auto
  qed
  ultimately have "winv entries ?P (E @ ?new) st'" using mem by (intro winvI [OF st'(2)])
  with run st'(5) show ?thesis by blast
qed

lemma winv_round:
  assumes "graph_ok entries"
  shows "winv entries P (E @ ws_next st) st \<Longrightarrow>
    \<exists>st' P'. rfold (relax_tid entries) E st = Inr st' \<and> winv entries P' (ws_next st') st'"
proof (induction E arbitrary: P st)
  case (Cons tid E)
  from winv_step [OF assms] Cons.prems obtain st1 where st1: "relax_tid entries tid st = Inr st1"
      "ws_next st1 = ws_next st @ filter (\<lambda>d. lf st d = 1) (deps_of entries tid)"
      "winv entries (insert tid P) ((E @ ws_next st) @ filter (\<lambda>d. lf st d = 1) (deps_of entries tid)) st1"
    by (metis append_Cons)
  with Cons.IH [of "insert tid P" st1] show ?case by (simp add: append_assoc)
qed auto

lemma winv_next: "winv entries P E (st\<lparr>ws_next := x\<rparr>) = winv entries P E st"
  by (simp add: winv_def ws_full_def wt_def lf_def dn_def)

lemma winv_loop:
  "graph_ok entries \<Longrightarrow> winv entries P endpoints st \<Longrightarrow>
     \<exists>st' P'. weights_loop entries endpoints st = Inr st' \<and> winv entries P' [] st'"
proof (induction entries endpoints st arbitrary: P rule: weights_loop.induct)
  case (1 entries endpoints st)
  have "winv entries P (endpoints @ ws_next (st\<lparr>ws_next := []\<rparr>)) (st\<lparr>ws_next := []\<rparr>)"
    using 1(3) by (simp add: winv_next)
  from winv_round [OF 1(2) this] obtain st1 P1
    where r: "relax_round entries endpoints st = Inr st1" "winv entries P1 (ws_next st1) st1"
    unfolding relax_round_def by blast
  show ?case
  proof (cases "ws_next st1 = []")
    case True
    with r show ?thesis by (subst weights_loop.simps) auto
  next
    case False
    from 1(1) [OF r(1) False 1(2) r(2)] r(1) False show ?thesis by (subst weights_loop.simps) simp
  qed
qed

section \<open>What the propagation computes\<close>

lemma map_of_fold_set: "map_of (fold (\<lambda>t. dict_set t c) ts d) k = (if k \<in> set ts then Some c else map_of d k)"
  by (induction ts arbitrary: d) auto

lemma map_of_values: "map_of (map (\<lambda>(k, v). (k, f v)) d) k = map_option f (map_of d k)"
  by (induction d) auto

lemma winv_init:
  assumes "graph_ok entries"
  shows "winv entries {} (endpoints_of entries) (weights_init entries (endpoints_of entries))"
proof (rule winvI)
  show "ws_full (set (dict_keys entries)) (weights_init entries (endpoints_of entries))"
    using has_key_iff [of entries] unfolding has_key_def ws_full_def
    by (simp add: weights_init_def map_of_fold_set map_of_values del: set_map)
  show "distinct (endpoints_of entries)" using assms by (simp add: endpoints_of_def graph_ok_def)
next
  fix k
  assume k: "k \<in> set (dict_keys entries)"
  then obtain e where e: "map_of entries k = Some e" using has_key_iff [of entries k] unfolding has_key_def by blast
  have "distinct (re_revdeps e)" using graph_okD(2) [OF assms k] e by (simp add: revs_of_def)
  then show "lf (weights_init entries (endpoints_of entries)) k = int (card (set (revs_of entries k) - {}))"
    using e by (simp add: lf_def weights_init_def map_of_values revs_of_def distinct_card)
  show "k \<in> {} \<union> set (endpoints_of entries) \<longleftrightarrow> set (revs_of entries k) \<subseteq> {}" using k by (simp add: endpoints_of_def)
  show "dn (weights_init entries (endpoints_of entries)) k \<longleftrightarrow> k \<in> {} \<union> set (endpoints_of entries)"
    using e by (simp add: dn_def weights_init_def map_of_values map_of_fold_set)
  show "wt (weights_init entries (endpoints_of entries)) k =
      base_weight entries k + (\<Sum>r \<in> set (revs_of entries k) \<inter> {}. wt (weights_init entries (endpoints_of entries)) r)"
    using e k by (simp add: wt_def weights_init_def map_of_values map_of_fold_set base_weight_def endpoints_of_def)
qed (simp_all add: endpoints_of_def subset_iff)

lemma winv_final:
  assumes "graph_ok entries" "winv entries P [] st"
  shows "P = Collect (schedulable entries)"
proof
  show "P \<subseteq> Collect (schedulable entries)" by (rule winvD(5) [OF assms(2)])
  have "t \<in> P" if "schedulable entries t" for t
    using that
  proof (induction rule: schedulable.induct)
    case (1 t)
    then have "set (revs_of entries t) \<subseteq> P" by blast
    with winvD(7) [OF assms(2) 1(1)] show ?case by simp
  qed
  then show "Collect (schedulable entries) \<subseteq> P" by blast
qed

lemma weights_loop_result:
  assumes "graph_ok entries"
  obtains st where "weights_loop entries (endpoints_of entries) (weights_init entries (endpoints_of entries)) = Inr st"
    "winv entries (Collect (schedulable entries)) [] st"
  using winv_loop [OF assms winv_init [OF assms]] winv_final [OF assms] by blast

lemma problem_tasks_unschedulable:
  assumes "graph_ok entries" "winv entries (Collect (schedulable entries)) [] st"
  shows "problem_tasks entries st = filter (\<lambda>t. \<not> schedulable entries t) (dict_keys entries)"
proof (unfold problem_tasks_def, rule filter_cong [OF refl])
  fix k
  assume k: "k \<in> set (dict_keys entries)"
  from winvD(1) [OF assms(2)] k obtain n where n: "map_of (ws_left st) k = Some n" unfolding ws_full_def by blast
  have d: "map_of (ws_done st) k = Some True \<longleftrightarrow> schedulable entries k"
    using winvD(8) [OF assms(2) k] by (simp add: dn_def)
  have "n = 0" if "schedulable entries k"
    using winvD(6) [OF assms(2) k] winvD(7) [OF assms(2) k] that n by (simp add: lf_def Diff_eq_empty_iff [THEN iffD2])
  with d n show "(map_of (ws_done st) k \<noteq> Some True \<or> map_of (ws_left st) k \<noteq> Some 0) \<longleftrightarrow> \<not> schedulable entries k"
    by auto
qed

section \<open>Loops and acyclicity\<close>

definition dep_edges :: "rtentries \<Rightarrow> (string \<times> string) set" where
  "dep_edges entries = {(t, d). t \<in> set (dict_keys entries) \<and> d \<in> set (deps_of entries t)}"

lemma dep_edges_revs:
  assumes "graph_ok entries" "d \<in> set (dict_keys entries)"
  shows "(r, d) \<in> dep_edges entries \<longleftrightarrow> r \<in> set (revs_of entries d)"
  using graph_okD(4) [OF assms] deps_revs [OF assms(1) _ assms(2), of r] unfolding dep_edges_def by blast

lemma dep_edges_keys:
  assumes "graph_ok entries"
  shows "dep_edges entries \<subseteq> set (dict_keys entries) \<times> set (dict_keys entries)"
  using graph_okD(3) [OF assms] unfolding dep_edges_def by blast

lemma finite_dep_edges: "graph_ok entries \<Longrightarrow> finite (dep_edges entries)"
  using finite_subset [OF dep_edges_keys] by blast

lemma schedulable_acc:
  assumes "graph_ok entries"
  shows "schedulable entries t \<Longrightarrow> t \<in> Wellfounded.acc (dep_edges entries)"
proof (induction rule: schedulable.induct)
  case (1 t)
  then show ?case using dep_edges_revs [OF assms 1(1)] by (blast intro: accI)
qed

lemma acyclic_iff_schedulable:
  assumes "graph_ok entries"
  shows "acyclic (dep_edges entries) \<longleftrightarrow> (\<forall>t \<in> set (dict_keys entries). schedulable entries t)"
proof
  assume "acyclic (dep_edges entries)"
  then have "wf (dep_edges entries)" using finite_acyclic_wf [OF finite_dep_edges [OF assms]] by blast
  then have "t \<in> set (dict_keys entries) \<longrightarrow> schedulable entries t" for t
  proof (induction t rule: wf_induct_rule)
    case (less t)
    show ?case
      using less.IH dep_edges_revs [OF assms, of t] graph_okD(4) [OF assms, of t]
      by (blast intro: schedulable.intros)
  qed
  then show "\<forall>t \<in> set (dict_keys entries). schedulable entries t" by blast
next
  assume all: "\<forall>t \<in> set (dict_keys entries). schedulable entries t"
  have "t \<in> Wellfounded.acc (dep_edges entries)" for t
  proof (cases "t \<in> set (dict_keys entries)")
    case True
    then show ?thesis using all schedulable_acc [OF assms] by blast
  next
    case False
    then have "(r, t) \<notin> dep_edges entries" for r using dep_edges_keys [OF assms] by blast
    then show ?thesis by (metis accI)
  qed
  then show "acyclic (dep_edges entries)" by (intro wf_acyclic acc_wfI) blast
qed

section \<open>The reported chains\<close>

lemma chain_compare_equal_iff [simp]: "chain_compare_equal a b \<longleftrightarrow> a = b"
  unfolding chain_compare_equal_def list_eq_iff_nth_eq [of a b] by (simp add: Ball_def)

lemma chain_array_contains_iff [simp]: "chain_array_contains c cs \<longleftrightarrow> c \<in> set cs"
  by (auto simp: chain_array_contains_def list_ex_iff)

lemma lowest_fold:
  fixes chain :: "string list"
  shows "m \<le> length chain \<Longrightarrow> chain \<noteq> [] \<Longrightarrow>
   let l = fold (\<lambda>entry lowest. if chain ! entry < chain ! lowest then entry else lowest) [0..<m] 0
   in l < length chain \<and> (\<forall>j < m. chain ! l \<le> chain ! j)"
proof (induction m)
  case (Suc m)
  let ?l = "fold (\<lambda>entry lowest. if chain ! entry < chain ! lowest then entry else lowest) [0..<m] 0"
  define l where "l = ?l"
  have l: "l < length chain" "\<And>j. j < m \<Longrightarrow> chain ! l \<le> chain ! j" using Suc by (simp_all add: Let_def l_def)
  have eq: "fold (\<lambda>entry lowest. if chain ! entry < chain ! lowest then entry else lowest) [0..<Suc m] 0 =
      (if chain ! m < chain ! l then m else l)" by (simp add: l_def)
  show ?case
  proof (cases "chain ! m < chain ! l")
    case True
    have "chain ! m \<le> chain ! j" if "j < Suc m" for j
      using that True l(2) [of j] by (cases "j = m") (simp_all add: less_Suc_eq)
    with True Suc.prems show ?thesis unfolding eq Let_def by simp
  next
    case False
    have "chain ! l \<le> chain ! j" if "j < Suc m" for j
      using that False l(2) [of j] by (cases "j = m") (simp_all add: less_Suc_eq)
    with False l(1) show ?thesis unfolding eq Let_def by simp
  qed
qed simp

lemma lowest_index:
  assumes "chain \<noteq> []"
  shows "lowest_index chain < length chain" "j < length chain \<Longrightarrow> chain ! lowest_index chain \<le> chain ! j"
  using lowest_fold [OF order_refl assms] by (auto simp: lowest_index_def Let_def)

lemma chain_reorder_rotate: "chain \<noteq> [] \<Longrightarrow> chain_reorder chain = rotate (lowest_index chain) chain"
  using lowest_index(1) [of chain] by (simp add: chain_reorder_def rotate_drop_take Let_def)

text \<open>A loop runs through reverse dependencies back to its first task.\<close>

definition is_loop :: "rtentries \<Rightarrow> string list \<Rightarrow> bool" where
  "is_loop entries c \<longleftrightarrow> c \<noteq> [] \<and> distinct c \<and> set c \<subseteq> set (dict_keys entries) \<and>
     (\<forall>i < length c. c ! (Suc i mod length c) \<in> set (revs_of entries (c ! i)))"

definition is_path :: "rtentries \<Rightarrow> string list \<Rightarrow> bool" where
  "is_path entries p \<longleftrightarrow> distinct p \<and> set p \<subseteq> set (dict_keys entries) \<and>
     (\<forall>i. Suc i < length p \<longrightarrow> p ! Suc i \<in> set (revs_of entries (p ! i)))"

lemma is_loop_rotate: "is_loop entries c \<Longrightarrow> is_loop entries (rotate m c)"
proof -
  assume c: "is_loop entries c"
  have "rotate m c ! (Suc i mod length c) \<in> set (revs_of entries (rotate m c ! i))" if i: "i < length c" for i
  proof -
    have "c ! (Suc ((m + i) mod length c) mod length c) \<in> set (revs_of entries (c ! ((m + i) mod length c)))"
      using c i unfolding is_loop_def by simp
    moreover have "(m + Suc i mod length c) mod length c = Suc ((m + i) mod length c) mod length c"
      by (simp add: mod_simps)
    moreover have "Suc i mod length c < length c" using i by (intro mod_less_divisor) linarith
    ultimately show ?thesis using i by (simp add: nth_rotate)
  qed
  with c show ?thesis by (simp add: is_loop_def)
qed

lemma is_path_snoc:
  assumes "is_path entries p" "p \<noteq> []" "x \<in> set (revs_of entries (last p))" "x \<notin> set p" "x \<in> set (dict_keys entries)"
  shows "is_path entries (p @ [x])"
proof -
  have "(p @ [x]) ! Suc i \<in> set (revs_of entries ((p @ [x]) ! i))" if "Suc i < length (p @ [x])" for i
  proof (cases "Suc i < length p")
    case True
    then show ?thesis using assms(1) by (simp add: is_path_def nth_append)
  next
    case False
    with that have "i = length p - 1" "Suc i = length p" by auto
    then show ?thesis using assms(2,3) by (simp add: nth_append last_conv_nth)
  qed
  with assms show ?thesis by (simp add: is_path_def)
qed

lemma path_closes:
  assumes "is_path entries p" "x \<in> set p" "x \<in> set (revs_of entries (last p))"
  shows "is_loop entries (dropWhile (\<lambda>t. t \<noteq> x) p)"
proof -
  let ?c = "dropWhile (\<lambda>t. t \<noteq> x) p" and ?m = "length (takeWhile (\<lambda>t. t \<noteq> x) p)"
  have c: "?c = drop ?m p" by (rule dropWhile_eq_drop)
  have ne: "?c \<noteq> []" using assms(2) by simp
  then have hd: "?c ! 0 = x" using hd_dropWhile [of "\<lambda>t. t \<noteq> x" p] by (simp add: hd_conv_nth del: dropWhile_eq_Nil_conv)
  have last: "?c ! (length ?c - 1) = last p"
    using ne unfolding c by (metis last_conv_nth last_drop drop_eq_Nil not_le)
  have "?c ! (Suc i mod length ?c) \<in> set (revs_of entries (?c ! i))" if i: "i < length ?c" for i
  proof (cases "Suc i < length ?c")
    case True
    then have "Suc (?m + i) < length p" unfolding c by simp
    then show ?thesis using True assms(1) unfolding c is_path_def by simp
  next
    case False
    with i have "Suc i = length ?c" "i = length ?c - 1" by auto
    then show ?thesis using hd last assms(3) by simp
  qed
  moreover have "distinct ?c" "set ?c \<subseteq> set (dict_keys entries)"
    using assms(1) set_dropWhileD [of _ _ p] unfolding is_path_def by (auto simp: distinct_dropWhile)
  ultimately show ?thesis using ne unfolding is_loop_def by blast
qed

text \<open>
  The invariant of the search: the chains are loops that start with their lowest task, at most eleven of
  them; and as long as none has been found every explored task can be scheduled.
\<close>

definition chains_ok :: "rtentries \<Rightarrow> chain_state \<Rightarrow> bool" where
  "chains_ok entries st \<longleftrightarrow> distinct (ch_valid st) \<and> length (ch_valid st) \<le> (if ch_stop st then 11 else 10) \<and>
     (\<forall>c \<in> set (ch_valid st). is_loop entries c \<and> (\<forall>t \<in> set c. hd c \<le> t)) \<and>
     (ch_stop st \<longrightarrow> ch_valid st \<noteq> []) \<and>
     (ch_valid st = [] \<longrightarrow> (\<forall>t. has_key (ch_explored st) t \<longrightarrow> schedulable entries t))"

lemma chain_reorder_loop:
  assumes "is_loop entries c"
  shows "is_loop entries (chain_reorder c) \<and> (\<forall>t \<in> set (chain_reorder c). hd (chain_reorder c) \<le> t)"
proof -
  have ne: "c \<noteq> []" using assms by (simp add: is_loop_def)
  have "hd (rotate (lowest_index c) c) = c ! lowest_index c"
    using lowest_index(1) [OF ne] ne by (simp add: hd_rotate_conv_nth)
  moreover have "c ! lowest_index c \<le> t" if "t \<in> set c" for t
    using lowest_index(2) [OF ne] that by (auto simp: in_set_conv_nth)
  ultimately show ?thesis using is_loop_rotate [OF assms] by (simp add: chain_reorder_rotate [OF ne])
qed

lemma note_chain_ok:
  assumes "chains_ok entries st" "\<not> ch_stop st" "is_loop entries c"
  shows "chains_ok entries (note_chain c st)" "ch_valid (note_chain c st) \<noteq> []" "ch_explored (note_chain c st) = ch_explored st"
proof -
  have v: "ch_valid (note_chain c st) = (if chain_reorder c \<in> set (ch_valid st) then ch_valid st else ch_valid st @ [chain_reorder c])"
    and s: "ch_stop (note_chain c st) \<longleftrightarrow> length (ch_valid (note_chain c st)) > 10"
    using assms(2) by (simp_all add: note_chain_def Let_def)
  show ne: "ch_valid (note_chain c st) \<noteq> []" using v by (cases "ch_valid st") auto
  have "length (ch_valid (note_chain c st)) \<le> 11" "distinct (ch_valid (note_chain c st))"
    using assms(1,2) unfolding v chains_ok_def by auto
  moreover have "\<forall>x \<in> set (ch_valid (note_chain c st)). is_loop entries x \<and> (\<forall>t \<in> set x. hd x \<le> t)"
    using assms(1) chain_reorder_loop [OF assms(3)] unfolding v chains_ok_def by auto
  ultimately show "chains_ok entries (note_chain c st)" using ne s unfolding chains_ok_def by simp
  show "ch_explored (note_chain c st) = ch_explored st" by (simp add: note_chain_def Let_def)
qed

text \<open>What one call of the search promises, and what the loop over the reverse dependencies makes of it.\<close>

definition searches :: "rtentries \<Rightarrow> (string \<Rightarrow> chain_state \<Rightarrow> chain_state result) \<Rightarrow> string \<Rightarrow> bool" where
  "searches entries f t \<longleftrightarrow> (\<forall>st. chains_ok entries st \<and> \<not> ch_stop st \<longrightarrow>
     (\<exists>st'. f t st = Inr st' \<and> chains_ok entries st' \<and> (ch_valid st \<noteq> [] \<longrightarrow> ch_valid st' \<noteq> []) \<and>
       (ch_stop st' \<or> has_key (ch_explored st') t)))"

lemma scan_revdeps_ok:
  assumes "is_path entries p" "p \<noteq> []" "set rs \<subseteq> set (revs_of entries (last p))"
    "\<And>r. r \<in> set rs \<Longrightarrow> r \<notin> set p \<Longrightarrow> searches entries (\<lambda>t. fc t p) r"
    "chains_ok entries st" "\<not> ch_stop st" 
  shows "\<exists>tot' st'. scan_revdeps fc p rs (tot, st) = Inr (tot', st') \<and> chains_ok entries st' \<and>
    (ch_valid st \<noteq> [] \<longrightarrow> ch_valid st' \<noteq> []) \<and> (ch_valid st' = [] \<longrightarrow> (\<forall>r \<in> set rs. schedulable entries r))"
  using assms(3-)
proof (induction rs arbitrary: tot st)
  case (Cons r rs)
  show ?case
  proof (cases "r \<in> set p")
    case True
    let ?st = "note_chain (dropWhile (\<lambda>t. t \<noteq> r) p) st"
    have "is_loop entries (dropWhile (\<lambda>t. t \<noteq> r) p)" using path_closes [OF assms(1) True] Cons.prems(1) by simp
    note n = note_chain_ok [OF Cons.prems(3,4) this]
    show ?thesis
    proof (cases "ch_stop ?st")
      case stop: True
      then have "scan_revdeps fc p rs (tot, ?st) = Inr (tot, ?st)" by (cases rs) simp_all
      with n True Cons.prems(4) show ?thesis by simp
    next
      case False
      have "\<exists>tot' st'. scan_revdeps fc p rs (tot, ?st) = Inr (tot', st') \<and> chains_ok entries st' \<and>
        (ch_valid ?st \<noteq> [] \<longrightarrow> ch_valid st' \<noteq> []) \<and> (ch_valid st' = [] \<longrightarrow> (\<forall>r \<in> set rs. schedulable entries r))"
        by (rule Cons.IH [OF _ _ n(1) False]) (use Cons.prems in auto)
      with n(2) True Cons.prems(4) show ?thesis by auto
    qed
  next
    case False
    let ?m = "if must_scan r p (ch_explored st) then fc r p st else Inr st"
    have "\<exists>st1. ?m = Inr st1 \<and> chains_ok entries st1 \<and> (ch_valid st \<noteq> [] \<longrightarrow> ch_valid st1 \<noteq> []) \<and>
        (ch_stop st1 \<or> has_key (ch_explored st1) r)"
    proof (cases "must_scan r p (ch_explored st)")
      case True
      then show ?thesis using Cons.prems(2) [of r] False Cons.prems(3,4) unfolding searches_def by simp
    next
      case no: False
      then have "has_key (ch_explored st) r" by (auto simp: must_scan_def has_key_def split: option.splits)
      with no Cons.prems(3) show ?thesis by simp
    qed
    then obtain st1 where st1: "?m = Inr st1" "chains_ok entries st1" "ch_valid st \<noteq> [] \<longrightarrow> ch_valid st1 \<noteq> []"
        "ch_stop st1 \<or> has_key (ch_explored st1) r" by blast
    show ?thesis
    proof (cases "ch_stop st1")
      case True
      with st1 have "ch_valid st1 \<noteq> []" unfolding chains_ok_def by blast
      with True st1 False Cons.prems(4) show ?thesis by simp
    next
      case go: False
      with st1(4) obtain ds where ds: "map_of (ch_explored st1) r = Some ds" by (auto simp: has_key_def)
      have "\<exists>tot' st'. scan_revdeps fc p rs (fold add_new ds tot, st1) = Inr (tot', st') \<and> chains_ok entries st' \<and>
        (ch_valid st1 \<noteq> [] \<longrightarrow> ch_valid st' \<noteq> []) \<and> (ch_valid st' = [] \<longrightarrow> (\<forall>r \<in> set rs. schedulable entries r))"
        by (rule Cons.IH [OF _ _ st1(2) go]) (use Cons.prems in auto)
      then obtain tot' st' where r': "scan_revdeps fc p rs (fold add_new ds tot, st1) = Inr (tot', st')" "chains_ok entries st'"
        "ch_valid st1 \<noteq> [] \<longrightarrow> ch_valid st' \<noteq> []" "ch_valid st' = [] \<longrightarrow> (\<forall>r \<in> set rs. schedulable entries r)" by blast
      have "schedulable entries r" if "ch_valid st' = []"
        using that r'(3) st1(2) ds unfolding chains_ok_def has_key_def by auto
      with r' st1 False go ds Cons.prems(4) show ?thesis by (simp add: dict_lookup_Some)
    qed
  qed
qed simp

lemma chains_ok_explored:
  assumes "chains_ok entries st" "ch_valid st = [] \<longrightarrow> schedulable entries t"
  shows "chains_ok entries (st\<lparr>ch_explored := dict_set t ds (ch_explored st)\<rparr>)"
  using assms unfolding chains_ok_def by simp

lemma find_chains_ok:
  assumes "graph_ok entries"
  shows "is_path entries (prev @ [tid]) \<Longrightarrow> length entries < n + length prev \<Longrightarrow>
    searches entries (\<lambda>t. find_chains n entries t prev) tid"
proof (induction n arbitrary: prev tid)
  case 0
  have "card (set (prev @ [tid])) \<le> card (set (dict_keys entries))"
    using 0(1) unfolding is_path_def by (intro card_mono) auto
  then have "length (prev @ [tid]) \<le> length entries"
    using 0(1) card_length [of "dict_keys entries"] distinct_card [of "prev @ [tid]"] unfolding is_path_def by simp
  with 0(2) show ?case by simp
next
  case (Suc n)
  have tid: "tid \<in> set (dict_keys entries)" using Suc.prems(1) by (simp add: is_path_def)
  then obtain e where e: "map_of entries tid = Some e" using has_key_iff [of entries tid] unfolding has_key_def by blast
  then have revs: "re_revdeps e = revs_of entries tid" by (simp add: revs_of_def)
  have sub: "searches entries (\<lambda>t. find_chains n entries t (prev @ [tid])) r"
    if "r \<in> set (re_revdeps e)" "r \<notin> set (prev @ [tid])" for r
  proof (rule Suc.IH)
    show "is_path entries ((prev @ [tid]) @ [r])"
      using is_path_snoc [OF Suc.prems(1) _ _ that(2)] that(1) graph_okD(4) [OF assms tid] revs by auto
    show "length entries < n + length (prev @ [tid])" using Suc.prems(2) by simp
  qed
  show ?case unfolding searches_def
  proof (intro allI impI)
    fix st
    assume st: "chains_ok entries st \<and> \<not> ch_stop st"
    have "\<exists>tot' st'. scan_revdeps (find_chains n entries) (prev @ [tid]) (re_revdeps e) (re_revdeps e, st) = Inr (tot', st') \<and>
      chains_ok entries st' \<and> (ch_valid st \<noteq> [] \<longrightarrow> ch_valid st' \<noteq> []) \<and>
      (ch_valid st' = [] \<longrightarrow> (\<forall>r \<in> set (re_revdeps e). schedulable entries r))"
      by (rule scan_revdeps_ok [OF Suc.prems(1)]) (use st revs sub in auto)
    then obtain tot' st' where
        r: "scan_revdeps (find_chains n entries) (prev @ [tid]) (re_revdeps e) (re_revdeps e, st) = Inr (tot', st')"
        "chains_ok entries st'" "ch_valid st \<noteq> [] \<longrightarrow> ch_valid st' \<noteq> []"
        "ch_valid st' = [] \<longrightarrow> (\<forall>r \<in> set (re_revdeps e). schedulable entries r)" by blast
    have "ch_valid st' = [] \<longrightarrow> schedulable entries tid" using r(4) revs tid schedulable.intros [of tid entries] by auto
    from chains_ok_explored [OF r(2) this] r e
    show "\<exists>st'. find_chains (Suc n) entries tid prev st = Inr st' \<and> chains_ok entries st' \<and>
      (ch_valid st \<noteq> [] \<longrightarrow> ch_valid st' \<noteq> []) \<and> (ch_stop st' \<or> has_key (ch_explored st') tid)"
      by (simp add: dict_lookup_Some)
  qed
qed

lemma search_tasks_ok:
  assumes "graph_ok entries"
  shows "set tasks \<subseteq> set (dict_keys entries) \<Longrightarrow> chains_ok entries st \<Longrightarrow>
    \<exists>st'. rfold (\<lambda>task st. if ch_stop st then Inr st else find_chains (Suc (length entries)) entries task [] st) tasks st = Inr st' \<and>
      chains_ok entries st' \<and> (ch_valid st \<noteq> [] \<longrightarrow> ch_valid st' \<noteq> []) \<and>
      (ch_valid st' = [] \<longrightarrow> (\<forall>t \<in> set tasks. schedulable entries t))"
proof (induction tasks arbitrary: st)
  case (Cons t ts)
  have "\<exists>st1. (if ch_stop st then Inr st else find_chains (Suc (length entries)) entries t [] st) = Inr st1 \<and> chains_ok entries st1 \<and>
      (ch_valid st \<noteq> [] \<longrightarrow> ch_valid st1 \<noteq> []) \<and> (ch_stop st1 \<or> has_key (ch_explored st1) t)"
  proof (cases "ch_stop st")
    case False
    have "searches entries (\<lambda>t. find_chains (Suc (length entries)) entries t []) t"
      by (rule find_chains_ok [OF assms]) (use Cons.prems(1) in \<open>auto simp: is_path_def\<close>)
    with False Cons.prems(2) show ?thesis unfolding searches_def by (simp del: find_chains.simps)
  qed (use Cons.prems(2) in simp)
  then obtain st1 where st1: "(if ch_stop st then Inr st else find_chains (Suc (length entries)) entries t [] st) = Inr st1"
    "chains_ok entries st1" "ch_valid st \<noteq> [] \<longrightarrow> ch_valid st1 \<noteq> []" "ch_stop st1 \<or> has_key (ch_explored st1) t" by blast
  have "ch_valid st1 = [] \<longrightarrow> schedulable entries t" using st1(2,4) unfolding chains_ok_def by blast
  with Cons.IH [OF _ st1(2)] Cons.prems(1) st1 show ?case by (fastforce simp del: find_chains.simps)
qed simp

text \<open>C16. The search for circular dependencies always ends and reports at most eleven chains, without duplicates: each is a loop of the
  dependency graph, listed from its lowest task, and if some task handed to it cannot be scheduled at
  least one loop is reported.\<close>

theorem circular_depchains_genuine:
  assumes "graph_ok entries" and "set tasks \<subseteq> set (dict_keys entries)"
  shows "\<exists>chains. circular_depchains_handler entries tasks = Inr chains \<and> distinct chains \<and> length chains \<le> 11 \<and>
    (\<forall>c \<in> set chains. c \<noteq> [] \<and> distinct c \<and> (\<forall>t \<in> set c. hd c \<le> t) \<and>
       (\<forall>i < length c. (c ! (Suc i mod length c), c ! i) \<in> dep_edges entries)) \<and>
    ((\<exists>t \<in> set tasks. \<not> schedulable entries t) \<longrightarrow> chains \<noteq> [])"
proof -
  have init: "chains_ok entries \<lparr>ch_valid = [], ch_explored = [], ch_stop = False\<rparr>" by (simp add: chains_ok_def)
  from search_tasks_ok [OF assms init] obtain st' where
    run: "rfold (\<lambda>task st. if ch_stop st then Inr st else find_chains (Suc (length entries)) entries task [] st) tasks
      \<lparr>ch_valid = [], ch_explored = [], ch_stop = False\<rparr> = Inr st'"
    and ok: "chains_ok entries st'" and all: "ch_valid st' = [] \<longrightarrow> (\<forall>t \<in> set tasks. schedulable entries t)" by blast
  have "(c ! (Suc i mod length c), c ! i) \<in> dep_edges entries" if "is_loop entries c" "i < length c" for c i
  proof -
    have "c ! i \<in> set (dict_keys entries)" "c ! (Suc i mod length c) \<in> set (revs_of entries (c ! i))"
      using that nth_mem [of i c] unfolding is_loop_def by blast+
    then show ?thesis using dep_edges_revs [OF assms(1)] by blast
  qed
  moreover have "is_loop entries c \<and> (\<forall>t \<in> set c. hd c \<le> t)" if "c \<in> set (ch_valid st')" for c
    using ok that unfolding chains_ok_def by blast
  moreover have "c \<noteq> [] \<and> distinct c" if "is_loop entries c" for c using that unfolding is_loop_def by blast
  ultimately have "\<forall>c \<in> set (ch_valid st'). c \<noteq> [] \<and> distinct c \<and> (\<forall>t \<in> set c. hd c \<le> t) \<and>
       (\<forall>i < length c. (c ! (Suc i mod length c), c ! i) \<in> dep_edges entries)" by simp
  moreover have "circular_depchains_handler entries tasks = Inr (ch_valid st')"
    unfolding circular_depchains_handler_def run by simp
  moreover have "length (ch_valid st') \<le> 11" "distinct (ch_valid st')" using ok unfolding chains_ok_def by (auto split: if_splits)
  moreover have "(\<exists>t \<in> set tasks. \<not> schedulable entries t) \<longrightarrow> ch_valid st' \<noteq> []" using all by blast
  ultimately show ?thesis by (intro exI [of _ "ch_valid st'"]) simp
qed

text \<open>Two tasks that depend on each other and one that depends on the first.\<close>

definition sample_loop :: rtentries where
  "sample_loop =
     [(''a:x'', RunTaskEntry\<lparr>re_depends := [''b:x''], re_revdeps := [''b:x'', ''c:x'']\<rparr>),
      (''b:x'', RunTaskEntry\<lparr>re_depends := [''a:x''], re_revdeps := [''a:x'']\<rparr>),
      (''c:x'', RunTaskEntry\<lparr>re_depends := [''a:x''], re_revdeps := []\<rparr>)]"

lemma sample_loop_ok: "graph_ok sample_loop"
  by code_simp

theorem circular_depchains_genuine_witness:
  "\<exists>chains. circular_depchains_handler sample_loop [''a:x'', ''b:x''] = Inr chains \<and> length chains \<le> 11 \<and> chains = [[''a:x'', ''b:x'']]"
proof -
  have "set [''a:x'', ''b:x''] \<subseteq> set (dict_keys sample_loop)" by code_simp
  from circular_depchains_genuine [OF sample_loop_ok this] obtain chains
    where "circular_depchains_handler sample_loop [''a:x'', ''b:x''] = Inr chains" "length chains \<le> 11" by blast
  moreover have "circular_depchains_handler sample_loop [''a:x'', ''b:x''] = Inr [[''a:x'', ''b:x'']]" by code_simp
  ultimately show ?thesis by simp
qed

section \<open>Correctness of the weights\<close>

lemma weights_result:
  assumes "graph_ok entries" "\<forall>t \<in> set (dict_keys entries). schedulable entries t"
  obtains st where "calculate_task_weights entries (endpoints_of entries) = Inr (assign_weights st entries, ws_weight st)"
    "winv entries (Collect (schedulable entries)) [] st"
proof -
  from weights_loop_result [OF assms(1)] obtain st where
    st: "weights_loop entries (endpoints_of entries) (weights_init entries (endpoints_of entries)) = Inr st"
    "winv entries (Collect (schedulable entries)) [] st" .
  have "problem_tasks entries st = []"
    using problem_tasks_unschedulable [OF assms(1) st(2)] assms(2) by (simp add: filter_empty_conv)
  with st that show thesis by (simp add: calculate_task_weights_def)
qed

lemma weight_positive:
  assumes "winv entries (Collect (schedulable entries)) [] st"
  shows "schedulable entries t \<Longrightarrow> 1 \<le> wt st t"
proof (induction rule: schedulable.induct)
  case (1 t)
  then have "0 \<le> (\<Sum>r \<in> set (revs_of entries t) \<inter> Collect (schedulable entries). wt st r)"
    by (intro sum_nonneg) force
  with winvD(9) [OF assms 1(1)] show ?case by (simp add: base_weight_def split: if_splits)
qed

lemma weight_of:
  assumes "graph_ok entries" "\<forall>t \<in> set (dict_keys entries). schedulable entries t"
    "winv entries (Collect (schedulable entries)) [] st" "t \<in> set (dict_keys entries)"
  shows "wt st t = base_weight entries t + (\<Sum>r \<in> set (revs_of entries t). wt st r)"
proof -
  have "set (revs_of entries t) \<inter> Collect (schedulable entries) = set (revs_of entries t)"
    using graph_okD(4) [OF assms(1,4)] assms(2) by blast
  with winvD(9) [OF assms(3,4)] show ?thesis by simp
qed

lemma weight_above:
  assumes "graph_ok entries" "\<forall>t \<in> set (dict_keys entries). schedulable entries t"
    "winv entries (Collect (schedulable entries)) [] st" "(t, d) \<in> dep_edges entries"
  shows "wt st t < wt st d"
proof -
  have k: "t \<in> set (dict_keys entries)" "d \<in> set (dict_keys entries)" using dep_edges_keys [OF assms(1)] assms(4) by blast+
  have t: "t \<in> set (revs_of entries d)" using dep_edges_revs [OF assms(1) k(2)] assms(4) by blast
  have "0 \<le> wt st r" if "r \<in> set (revs_of entries d)" for r
    using weight_positive [OF assms(3), of r] graph_okD(4) [OF assms(1) k(2)] assms(2) that by force
  then have "wt st t \<le> (\<Sum>r \<in> set (revs_of entries d). wt st r)" by (intro member_le_sum [OF t]) auto
  moreover have "0 < base_weight entries d" by (simp add: base_weight_def)
  ultimately show ?thesis using weight_of [OF assms(1-3) k(2)] by linarith
qed

lemma unschedulable_fatal:
  assumes "graph_ok entries" "\<not> acyclic (dep_edges entries)"
  shows "calculate_task_weights entries (endpoints_of entries) = Inl (FatalExit ''RunQueue'')"
proof -
  obtain t where t: "t \<in> set (dict_keys entries)" "\<not> schedulable entries t"
    using assms(2) unfolding acyclic_iff_schedulable [OF assms(1)] by blast
  from weights_loop_result [OF assms(1)] obtain st where
    st: "weights_loop entries (endpoints_of entries) (weights_init entries (endpoints_of entries)) = Inr st"
    "winv entries (Collect (schedulable entries)) [] st" .
  have "t \<in> set (problem_tasks entries st)" unfolding problem_tasks_unschedulable [OF assms(1) st(2)] using t by simp
  then have "problem_tasks entries st \<noteq> []" by auto
  moreover have "set (problem_tasks entries st) \<subseteq> set (dict_keys entries)" unfolding problem_tasks_def by auto
  then obtain chains where "circular_depchains_handler entries (problem_tasks entries st) = Inr chains"
    using search_tasks_ok [OF assms(1), of "problem_tasks entries st" "\<lparr>ch_valid = [], ch_explored = [], ch_stop = False\<rparr>"]
    unfolding circular_depchains_handler_def by (auto simp: chains_ok_def)
  ultimately show ?thesis using st(1) by (simp add: calculate_task_weights_def)
qed

text \<open>C14. On a consistent dependency graph \<^verbatim>\<open>calculate_task_weights\<close> always ends; it accepts exactly the graphs
  without circular dependencies, and leaves through \<^verbatim>\<open>bb.msg.fatal\<close> on all others.\<close>

theorem calculate_task_weights_acyclic:
  assumes "graph_ok entries"
  shows "if acyclic (dep_edges entries) then \<exists>r. calculate_task_weights entries (endpoints_of entries) = Inr r
    else calculate_task_weights entries (endpoints_of entries) = Inl (FatalExit ''RunQueue'')"
proof (cases "acyclic (dep_edges entries)")
  case True
  with weights_result [OF assms] show ?thesis unfolding acyclic_iff_schedulable [OF assms] by (metis (no_types))
next
  case False
  with unschedulable_fatal [OF assms False] show ?thesis by simp
qed

theorem calculate_task_weights_acyclic_witness:
  "\<not> acyclic (dep_edges sample_loop) \<and> calculate_task_weights sample_loop (endpoints_of sample_loop) = Inl (FatalExit ''RunQueue'')"
proof -
  have "\<not> (\<exists>r. calculate_task_weights sample_loop (endpoints_of sample_loop) = Inr r)"
  proof -
    have "calculate_task_weights sample_loop (endpoints_of sample_loop) = Inl (FatalExit ''RunQueue'')" by code_simp
    then show ?thesis by simp
  qed
  with calculate_task_weights_acyclic [OF sample_loop_ok] show ?thesis by (auto split: if_splits)
qed

text \<open>C15. The weight of a task is 10 if nothing depends on it and 1 otherwise, plus the weights of all tasks that
  depend on it; hence a task weighs more than every task that depends on it. Each task entry gets its own weight and is
  otherwise unchanged.\<close>

theorem calculate_task_weights_equation:
  assumes "graph_ok entries" and "acyclic (dep_edges entries)"
  shows "\<exists>es w. calculate_task_weights entries (endpoints_of entries) = Inr (es, w) \<and> dict_keys es = dict_keys entries \<and>
    (\<forall>t e. map_of entries t = Some e \<longrightarrow> map_of es t = Some (e\<lparr>re_weight := the (map_of w t)\<rparr>)) \<and>
    (\<forall>t \<in> set (dict_keys entries). the (map_of w t) =
       (if revs_of entries t = [] then 10 else 1) + (\<Sum>r \<in> set (revs_of entries t). the (map_of w r))) \<and>
    (\<forall>(t, d) \<in> dep_edges entries. the (map_of w t) < the (map_of w d))"
proof -
  have all: "\<forall>t \<in> set (dict_keys entries). schedulable entries t"
    using assms(2) acyclic_iff_schedulable [OF assms(1)] by blast
  from weights_result [OF assms(1) all] obtain st where
    st: "calculate_task_weights entries (endpoints_of entries) = Inr (assign_weights st entries, ws_weight st)"
    "winv entries (Collect (schedulable entries)) [] st" .
  have "map_of (assign_weights st entries) t = map_option (\<lambda>e. e\<lparr>re_weight := the (map_of (ws_weight st) t)\<rparr>) (map_of entries t)" for t
    unfolding assign_weights_def by (induction entries) auto
  moreover have "dict_keys (assign_weights st entries) = dict_keys entries" by (simp add: assign_weights_def split_def)
  moreover have "\<forall>t \<in> set (dict_keys entries). the (map_of (ws_weight st) t) =
       (if revs_of entries t = [] then 10 else 1) + (\<Sum>r \<in> set (revs_of entries t). the (map_of (ws_weight st) r))"
    using weight_of [OF assms(1) all st(2)] unfolding wt_def base_weight_def by blast
  moreover have "\<forall>(t, d) \<in> dep_edges entries. the (map_of (ws_weight st) t) < the (map_of (ws_weight st) d)"
    using weight_above [OF assms(1) all st(2)] unfolding wt_def by blast
  ultimately show ?thesis using st(1) by (intro exI [of _ "assign_weights st entries"] exI [of _ "ws_weight st"]) simp
qed

definition sample_chain :: rtentries where
  "sample_chain =
     [(''a:x'', RunTaskEntry\<lparr>re_depends := [], re_revdeps := [''b:x'', ''c:x'']\<rparr>),
      (''b:x'', RunTaskEntry\<lparr>re_depends := [''a:x''], re_revdeps := [''c:x'']\<rparr>),
      (''c:x'', RunTaskEntry\<lparr>re_depends := [''a:x'', ''b:x''], re_revdeps := []\<rparr>)]"

lemma sample_chain_ok: "graph_ok sample_chain" "acyclic (dep_edges sample_chain)"
proof -
  show g: "graph_ok sample_chain" by code_simp
  have e: "dep_edges sample_chain = {(''b:x'', ''a:x''), (''c:x'', ''a:x''), (''c:x'', ''b:x'')}"
    by (auto simp: dep_edges_def deps_of_def sample_chain_def split: if_splits)
  show "acyclic (dep_edges sample_chain)"
    unfolding e by (rule acyclic_subset [OF wf_acyclic [OF wf_measure [of "\<lambda>t. 200 - of_char (t ! 0)"]]]) auto
qed

theorem calculate_task_weights_equation_witness:
  "\<exists>es w. calculate_task_weights sample_chain (endpoints_of sample_chain) = Inr (es, w) \<and>
     w = [(''a:x'', 22), (''b:x'', 11), (''c:x'', 10)] \<and> map fst es = [''a:x'', ''b:x'', ''c:x'']"
proof -
  from calculate_task_weights_equation [OF sample_chain_ok] obtain es w
    where r: "calculate_task_weights sample_chain (endpoints_of sample_chain) = Inr (es, w)" "dict_keys es = dict_keys sample_chain" by blast
  have "case calculate_task_weights sample_chain (endpoints_of sample_chain) of Inl _ \<Rightarrow> False
      | Inr (es, w) \<Rightarrow> w = [(''a:x'', 22), (''b:x'', 11), (''c:x'', 10)]" by code_simp
  with r show ?thesis by (simp add: sample_chain_def)
qed

end
