(* ===== verification/BB_Scheduler.thy ===== *)
theory BB_Scheduler
  imports BB_Weights
begin

text \<open>
  The schedulers of \<^verbatim>\<open>lib/bb/runqueue.py\<close>: which buildable task is started next. A Python set is a list here, in
  whatever order the set is iterated; what is proved of the choice does not depend on that order.
\<close>

section \<open>State\<close>

text \<open>
  An entry of the priority map is a task, except in the map of the basic scheduler, whose only entry is the view of all keys.
\<close>

datatype prio_item = KeysView "string list" | TaskId string

record sched =
  sc_prio_map :: "prio_item list"
  sc_buildable :: "string list"
  sc_skip_maxthread :: "(string, string option) dict"
  sc_stamps :: "(string, string option) dict"
  sc_rev_prio_map :: "(string, nat) dict"

text \<open>What the scheduler reads of the run queue executor.\<close>

record rq_view =
  rq_running :: "string list"
  rq_complete :: "string list"
  rq_holdoff :: "string list"
  rq_covered :: "string list"
  rq_notcovered :: "string list"
  rq_build_stamps :: "(string, string option) dict"
  rq_number_threads :: "string \<Rightarrow> string option"
  rq_can_start :: bool

text \<open>
  \<^verbatim>\<open>bb.build.stampfile\<close> on a recipe cache with \<^verbatim>\<open>noextra\<close>; \<open>stampf\<close> is the \<^verbatim>\<open>stampfile\<close> method of the signature
  generator in use. The stamp directory is created on the way, which is not modelled.
\<close>

definition stampfile_noextra ::
    "(string \<Rightarrow> string \<Rightarrow> string \<Rightarrow> string \<Rightarrow> string) \<Rightarrow> string \<Rightarrow> cachedata \<Rightarrow> string \<Rightarrow> string option result" where
  "stampfile_noextra stampf taskname d file_name =
     rbind (dict_lookup (dc_stamp d) file_name) (\<lambda>stamp.
     rbind (dict_lookup (dc_stamp_extrainfo d) file_name) (\<lambda>_.
     Inr (if stamp = [] then None else Some (stampf stamp file_name taskname []))))"

section \<open>The basic scheduler\<close>

definition stamp_step ::
    "(string \<Rightarrow> string \<Rightarrow> string \<Rightarrow> string \<Rightarrow> string) \<Rightarrow> (string, cachedata) dict \<Rightarrow> string list \<Rightarrow> string \<Rightarrow>
     (string, string option) dict \<Rightarrow> (string, string option) dict result" where
  "stamp_step stampf dataCaches runq_buildable tid stamps =
     rbind (split_tid_mcfn tid) (\<lambda>(mc, fn, taskname, taskfn).
     rbind (dict_lookup dataCaches mc) (\<lambda>dc.
     rbind (stampfile_noextra stampf taskname dc taskfn) (\<lambda>stamp.
     if tid \<in> set runq_buildable then Inl AttributeError \<comment> \<open>a set has no \<^verbatim>\<open>append\<close>\<close>
     else Inr (dict_set tid stamp stamps))))"

definition RunQueueScheduler ::
    "(string \<Rightarrow> string \<Rightarrow> string \<Rightarrow> string \<Rightarrow> string) \<Rightarrow> (string, cachedata) dict \<Rightarrow> string list \<Rightarrow> rtentries \<Rightarrow> sched result" where
  "RunQueueScheduler stampf dataCaches runq_buildable entries =
     rbind (rfold (stamp_step stampf dataCaches runq_buildable) (dict_keys entries) []) (\<lambda>stamps.
     Inr \<lparr>sc_prio_map = [KeysView (dict_keys entries)], sc_buildable = [], sc_skip_maxthread = [], sc_stamps = stamps,
          sc_rev_prio_map = []\<rparr>)"

text \<open>Running tasks per task name, of those with a limit; the limits are cached in the scheduler.\<close>

definition count_running ::
    "rq_view \<Rightarrow> string \<Rightarrow> (string, string option) dict \<times> (string, nat) dict \<Rightarrow>
     ((string, string option) dict \<times> (string, nat) dict) result" where
  "count_running rq running p =
     (case p of (limits, counts) \<Rightarrow>
        rbind (taskname_from_tid running) (\<lambda>rtaskname.
        let limits' = (if has_key limits rtaskname then limits
                       else dict_set rtaskname (rq_number_threads rq rtaskname) limits)
        in if (case map_of limits' rtaskname of Some (Some n) \<Rightarrow> n = [] | _ \<Rightarrow> True) then Inr (limits', counts)
           else Inr (limits', dict_set rtaskname (case map_of counts rtaskname of None \<Rightarrow> 1 | Some c \<Rightarrow> Suc c) counts)))"

definition over_limit ::
    "(string, string option) dict \<Rightarrow> (string, nat) dict \<Rightarrow> string \<Rightarrow> bool result" where
  "over_limit limits counts taskname =
     (case map_of counts taskname of
        None \<Rightarrow> Inr False
      | Some c \<Rightarrow> (case map_of limits taskname of
                     Some (Some n) \<Rightarrow> rbind (py_int n) (\<lambda>i. Inr (int c \<ge> i))
                   | _ \<Rightarrow> Inl TypeError))"

fun index_of :: "'a \<Rightarrow> 'a list \<Rightarrow> nat option" where
  "index_of x [] = None"
| "index_of x (y # ys) = (if x = y then Some 0 else map_option Suc (index_of x ys))"

definition rev_prio :: "prio_item list \<Rightarrow> string \<Rightarrow> (string, nat) dict \<Rightarrow> (string, nat) dict result" where
  "rev_prio prio_map tid m =
     (case index_of (TaskId tid) prio_map of None \<Rightarrow> Inl (ValueError tid) | Some i \<Rightarrow> Inr (dict_set tid i m))"

text \<open>One candidate of the search for the task with the lowest priority number.\<close>

definition better_task ::
    "rq_view \<Rightarrow> sched \<Rightarrow> (string, nat) dict \<Rightarrow> string \<Rightarrow> (string \<times> nat) option \<Rightarrow> (string \<times> nat) option result" where
  "better_task rq sc counts tid best =
     rbind (taskname_from_tid tid) (\<lambda>taskname.
     rbind (over_limit (sc_skip_maxthread sc) counts taskname) (\<lambda>over.
     if over then Inr best
     else rbind (dict_lookup (sc_rev_prio_map sc) tid) (\<lambda>prio.
          if (case best of None \<Rightarrow> True | Some (_, bestprio) \<Rightarrow> bestprio > prio)
          then rbind (dict_lookup (sc_stamps sc) tid) (\<lambda>stamp.
               if stamp \<in> set (map snd (rq_build_stamps rq)) then Inr best else Inr (Some (tid, prio)))
          else Inr best)))"

definition candidates :: "rq_view \<Rightarrow> string list \<Rightarrow> string list" where
  "candidates rq buildable =
     filter (\<lambda>t. t \<notin> set (rq_holdoff rq) \<and> t \<in> set (rq_covered rq) \<union> set (rq_notcovered rq)) buildable"

definition ensure_rev_prio_map :: "rtentries \<Rightarrow> sched \<Rightarrow> sched result" where
  "ensure_rev_prio_map entries sc =
     (if sc_rev_prio_map sc = []
      then rbind (rfold (rev_prio (sc_prio_map sc)) (dict_keys entries) []) (\<lambda>m. Inr (sc\<lparr>sc_rev_prio_map := m\<rparr>))
      else Inr sc)"

definition choose_task ::
    "rtentries \<Rightarrow> rq_view \<Rightarrow> (string, nat) dict \<Rightarrow> string list \<Rightarrow> sched \<Rightarrow> (string option \<times> sched) result" where
  "choose_task entries rq counts buildable sc =
     rbind (ensure_rev_prio_map entries sc) (\<lambda>sc'.
     rbind (rfold (better_task rq sc' counts) buildable None) (\<lambda>best.
     Inr (map_option fst best, sc')))"

definition next_buildable_task :: "rtentries \<Rightarrow> rq_view \<Rightarrow> sched \<Rightarrow> (string option \<times> sched) result" where
  "next_buildable_task entries rq sc =
     (let sc1 = sc\<lparr>sc_buildable := filter (\<lambda>t. t \<notin> set (rq_running rq)) (sc_buildable sc)\<rparr>;
          buildable = candidates rq (sc_buildable sc1)
      in if buildable = [] then Inr (None, sc1)
         else rbind (rfold (count_running rq) (filter (\<lambda>t. t \<notin> set (rq_complete rq)) (rq_running rq)) (sc_skip_maxthread sc1, []))
           (\<lambda>(limits, counts).
           let sc2 = sc1\<lparr>sc_skip_maxthread := limits\<rparr>
           in case buildable of
                [tid] \<Rightarrow>
                  rbind (taskname_from_tid tid) (\<lambda>taskname.
                  rbind (over_limit limits counts taskname) (\<lambda>over.
                  if over then Inr (None, sc2)
                  else rbind (dict_lookup (sc_stamps sc2) tid) (\<lambda>stamp.
                       if stamp \<notin> set (map snd (rq_build_stamps rq)) then Inr (Some tid, sc2)
                       else choose_task entries rq counts [] sc2)))
              | _ \<Rightarrow> choose_task entries rq counts buildable sc2))"

definition sched_next :: "rtentries \<Rightarrow> rq_view \<Rightarrow> sched \<Rightarrow> (string option \<times> sched) result" where
  "sched_next entries rq sc = (if rq_can_start rq then next_buildable_task entries rq sc else Inr (None, sc))"

definition newbuildable :: "string \<Rightarrow> sched \<Rightarrow> sched" where
  "newbuildable task sc = sc\<lparr>sc_buildable := add_new task (sc_buildable sc)\<rparr>"

definition removebuildable :: "string \<Rightarrow> sched \<Rightarrow> sched result" where
  "removebuildable task sc =
     (if task \<in> set (sc_buildable sc) then Inr (sc\<lparr>sc_buildable := removeAll task (sc_buildable sc)\<rparr>) else Inl (KeyError task))"

section \<open>The speed scheduler\<close>

definition speed_prio :: "rtentries \<Rightarrow> string list" where
  "speed_prio entries =
     (let weights = fold (\<lambda>(tid, e). dd_append (re_weight e) tid) entries []
      in rev (concat (map (dd_get weights) (sort (dict_keys weights)))))"

definition RunQueueSchedulerSpeed ::
    "(string \<Rightarrow> string \<Rightarrow> string \<Rightarrow> string \<Rightarrow> string) \<Rightarrow> (string, cachedata) dict \<Rightarrow> string list \<Rightarrow> rtentries \<Rightarrow> sched result" where
  "RunQueueSchedulerSpeed stampf dataCaches runq_buildable entries =
     rbind (RunQueueScheduler stampf dataCaches runq_buildable entries) (\<lambda>sc.
     Inr (sc\<lparr>sc_prio_map := map TaskId (speed_prio entries)\<rparr>))"

section \<open>The completion scheduler\<close>

definition add_task_list :: "string \<Rightarrow> (string, string list) dict \<Rightarrow> (string, string list) dict result" where
  "add_task_list taskid task_lists =
     (case rsplit1 (CHR '':'') taskid of
        [fn, taskname] \<Rightarrow> Inr (dd_append fn taskname task_lists)
      | _ \<Rightarrow> Inl (ValueError taskid))"

definition at_index :: "'a list \<Rightarrow> nat \<Rightarrow> 'a option" where
  "at_index xs i = (if i < length xs then Some (xs ! i) else None)"

definition merge_step :: "string \<Rightarrow> nat \<times> string option \<times> string list \<Rightarrow> nat \<times> string option \<times> string list" where
  "merge_step new_task p =
     (case p of (index, old_task, all_tasks) \<Rightarrow>
        if old_task = Some new_task then (Suc index, at_index all_tasks (Suc index), all_tasks)
        else case index_of new_task all_tasks of
               Some i \<Rightarrow> (Suc i, at_index all_tasks (Suc i), all_tasks)
             | None \<Rightarrow> (Suc index, old_task, take index all_tasks @ [new_task] @ drop index all_tasks))"

definition merge_task_list :: "string list \<Rightarrow> string list \<Rightarrow> string list" where
  "merge_task_list new_tasks all_tasks =
     snd (snd (fold merge_step new_tasks (0, at_index all_tasks 0, all_tasks)))"

definition merged_tasks :: "(string, string list) dict \<Rightarrow> string list" where
  "merged_tasks task_lists = fold (\<lambda>(recipe, new_tasks). merge_task_list new_tasks) task_lists []"

definition move_task :: "string \<Rightarrow> nat \<Rightarrow> nat \<times> string list \<Rightarrow> (nat \<times> string list) result" where
  "move_task task index p =
     (case p of (task_index, prio_map) \<Rightarrow>
        rbind (taskname_from_tid (prio_map ! index)) (\<lambda>taskname.
        Inr (if taskname = task
             then let taskid = prio_map ! index;
                      rest = take index prio_map @ drop (Suc index) prio_map
                  in (Suc task_index, take task_index rest @ [taskid] @ drop task_index rest)
             else (task_index, prio_map))))"

definition group_task :: "nat \<Rightarrow> string \<Rightarrow> nat \<times> string list \<Rightarrow> (nat \<times> string list) result" where
  "group_task numTasks task p = rfold (move_task task) [fst p..<numTasks] p"

definition completion_prio :: "nat \<Rightarrow> string list \<Rightarrow> string list result" where
  "completion_prio numTasks prio_map =
     rbind (rfold add_task_list prio_map []) (\<lambda>task_lists.
     rbind (rfold (group_task numTasks) (rev (merged_tasks task_lists)) (0, prio_map)) (\<lambda>p.
     Inr (snd p)))"

definition RunQueueSchedulerCompletion ::
    "(string \<Rightarrow> string \<Rightarrow> string \<Rightarrow> string \<Rightarrow> string) \<Rightarrow> (string, cachedata) dict \<Rightarrow> string list \<Rightarrow> rtentries \<Rightarrow> sched result" where
  "RunQueueSchedulerCompletion stampf dataCaches runq_buildable entries =
     rbind (RunQueueScheduler stampf dataCaches runq_buildable entries) (\<lambda>sc.
     rbind (completion_prio (length entries) (speed_prio entries)) (\<lambda>prio.
     Inr (sc\<lparr>sc_prio_map := map TaskId prio\<rparr>)))"

section \<open>Thread limits\<close>

definition tid_ok :: "string \<Rightarrow> bool" where
  "tid_ok t \<longleftrightarrow> CHR '':'' \<in> set t"

definition tname :: "string \<Rightarrow> string" where
  "tname t = (case taskname_from_tid t of Inl _ \<Rightarrow> [] | Inr n \<Rightarrow> n)"

lemma taskname_tname: "tid_ok t \<Longrightarrow> taskname_from_tid t = Inr (tname t)"
  by (rule rsplit1_cases [of "CHR '':''" t]) (simp_all add: tid_ok_def tname_def taskname_from_tid_def)

lemma rsplit1_tid: "tid_ok t \<Longrightarrow> \<exists>fn. rsplit1 (CHR '':'') t = [fn, tname t]"
  by (rule rsplit1_cases [of "CHR '':''" t]) (simp_all add: tid_ok_def tname_def taskname_from_tid_def)

text \<open>The limit of a task name, when the \<^verbatim>\<open>number_threads\<close> flag is set to a non-empty string.\<close>

definition limited :: "rq_view \<Rightarrow> string \<Rightarrow> bool" where
  "limited rq n \<longleftrightarrow> (case rq_number_threads rq n of Some s \<Rightarrow> s \<noteq> [] | None \<Rightarrow> False)"

definition thread_limit :: "rq_view \<Rightarrow> string \<Rightarrow> int" where
  "thread_limit rq n = (case rq_number_threads rq n of Some s \<Rightarrow> (case py_int s of Inr i \<Rightarrow> i | Inl _ \<Rightarrow> 0) | None \<Rightarrow> 0)"

definition name_count :: "string \<Rightarrow> string list \<Rightarrow> nat" where
  "name_count n ts = length (filter (\<lambda>t. tname t = n) ts)"

definition in_progress :: "rq_view \<Rightarrow> string list" where
  "in_progress rq = filter (\<lambda>t. t \<notin> set (rq_complete rq)) (rq_running rq)"

definition at_limit :: "rq_view \<Rightarrow> string \<Rightarrow> bool" where
  "at_limit rq n \<longleftrightarrow> limited rq n \<and> 0 < name_count n (in_progress rq) \<and> thread_limit rq n \<le> int (name_count n (in_progress rq))"

definition limits_cached :: "rq_view \<Rightarrow> (string, string option) dict \<Rightarrow> bool" where
  "limits_cached rq limits \<longleftrightarrow> (\<forall>n v. map_of limits n = Some v \<longrightarrow> v = rq_number_threads rq n)"

definition counts_ok :: "rq_view \<Rightarrow> string list \<Rightarrow> (string, string option) dict \<times> (string, nat) dict \<Rightarrow> bool" where
  "counts_ok rq ts p \<longleftrightarrow> limits_cached rq (fst p) \<and>
     (\<forall>n. map_of (snd p) n = (if limited rq n \<and> 0 < name_count n ts then Some (name_count n ts) else None)) \<and>
     (\<forall>t \<in> set ts. has_key (fst p) (tname t))"

lemma count_running_step:
  assumes "counts_ok rq ts p" "tid_ok t"
  shows "\<exists>p'. count_running rq t p = Inr p' \<and> counts_ok rq (ts @ [t]) p'"
proof -
  obtain limits counts where p: "p = (limits, counts)" by (cases p)
  define l where "l = (if has_key limits (tname t) then limits else dict_set (tname t) (rq_number_threads rq (tname t)) limits)"
  have lt: "map_of l (tname t) = Some (rq_number_threads rq (tname t))"
    using assms(1) unfolding l_def p counts_ok_def limits_cached_def has_key_def by auto
  have cached: "limits_cached rq l"
    using assms(1) unfolding l_def p counts_ok_def limits_cached_def by auto
  have keys: "has_key l (tname u)" if "u \<in> set (ts @ [t])" for u
    using that assms(1) lt unfolding l_def p counts_ok_def by (auto simp: has_key_def)
  have cnt: "name_count n (ts @ [t]) = name_count n ts + (if n = tname t then 1 else 0)" for n
    by (simp add: name_count_def)
  have c: "map_of counts n = (if limited rq n \<and> 0 < name_count n ts then Some (name_count n ts) else None)" for n
    using assms(1) unfolding p counts_ok_def by simp
  have none: "(case map_of l (tname t) of Some (Some n) \<Rightarrow> n = [] | _ \<Rightarrow> True) \<longleftrightarrow> \<not> limited rq (tname t)"
    unfolding lt limited_def by (simp split: option.splits)
  let ?counts = "if limited rq (tname t) then dict_set (tname t) (case map_of counts (tname t) of None \<Rightarrow> 1 | Some c \<Rightarrow> Suc c) counts else counts"
  have "count_running rq t p = Inr (l, ?counts)"
    using taskname_tname [OF assms(2)] none unfolding count_running_def p l_def [symmetric] by (simp add: Let_def l_def [symmetric])
  moreover have "map_of ?counts n = (if limited rq n \<and> 0 < name_count n (ts @ [t]) then Some (name_count n (ts @ [t])) else None)" for n
    using c [of n] c [of "tname t"] unfolding cnt by auto
  ultimately show ?thesis using cached keys unfolding counts_ok_def by simp
qed

lemma count_running_all:
  "counts_ok rq us p \<Longrightarrow> \<forall>t \<in> set ts. tid_ok t \<Longrightarrow> \<exists>p'. rfold (count_running rq) ts p = Inr p' \<and> counts_ok rq (us @ ts) p'"
proof (induction ts arbitrary: us p)
  case (Cons t ts)
  from count_running_step [OF Cons.prems(1)] Cons.prems(2) obtain p1
    where "count_running rq t p = Inr p1" "counts_ok rq (us @ [t]) p1" by (meson list.set_intros(1))
  with Cons.IH [of "us @ [t]" p1] Cons.prems(2) show ?case by auto
qed auto

lemma over_limit_at:
  assumes "counts_ok rq (in_progress rq) (limits, counts)" "limited rq n \<longrightarrow> (\<exists>i. py_int (the (rq_number_threads rq n)) = Inr i)"
  shows "over_limit limits counts n = Inr (at_limit rq n)"
proof (cases "limited rq n \<and> 0 < name_count n (in_progress rq)")
  case False
  then have "map_of counts n = None" using assms(1) unfolding counts_ok_def snd_conv by (simp only: if_False)
  moreover have "\<not> at_limit rq n" using False unfolding at_limit_def by blast
  ultimately show ?thesis by (simp add: over_limit_def)
next
  case True
  then have c: "map_of counts n = Some (name_count n (in_progress rq))"
    using assms(1) unfolding counts_ok_def snd_conv by simp
  obtain t where "t \<in> set (in_progress rq)" "tname t = n"
    using True by (auto simp: name_count_def filter_empty_conv)
  then obtain v where "map_of limits n = Some v" using assms(1) unfolding counts_ok_def has_key_def by auto
  moreover obtain s where s: "rq_number_threads rq n = Some s" using True by (auto simp: limited_def split: option.splits)
  ultimately have "map_of limits n = Some (Some s)" using assms(1) unfolding counts_ok_def limits_cached_def by auto
  moreover obtain i where "py_int s = Inr i" using assms(2) True s by auto
  ultimately show ?thesis using c s True by (simp add: over_limit_def at_limit_def thread_limit_def)
qed

section \<open>The choice of the next task\<close>

lemma index_of_nth: "index_of x xs = Some i \<Longrightarrow> i < length xs \<and> xs ! i = x"
  by (induction xs arbitrary: i) (auto split: if_splits)

lemma index_of_mem: "index_of x xs = None \<longleftrightarrow> x \<notin> set xs"
  by (induction xs) auto

lemma index_of_map: "inj f \<Longrightarrow> index_of (f x) (map f xs) = index_of x xs"
  by (induction xs) (auto simp: inj_eq)

definition pos_of :: "string list \<Rightarrow> string \<Rightarrow> nat" where
  "pos_of ps t = (case index_of t ps of None \<Rightarrow> length ps | Some i \<Rightarrow> i)"

lemma pos_of_nth: "t \<in> set ps \<Longrightarrow> pos_of ps t < length ps \<and> ps ! pos_of ps t = t"
  using index_of_mem [of t ps] index_of_nth [of t ps] by (auto simp: pos_of_def split: option.splits)

lemma rev_prio_fold:
  assumes "set ts \<subseteq> set ps"
  shows "\<exists>m'. rfold (rev_prio (map TaskId ps)) ts m = Inr m' \<and>
    (\<forall>t. map_of m' t = (if t \<in> set ts then Some (pos_of ps t) else map_of m t))"
  using assms
proof (induction ts arbitrary: m)
  case (Cons t ts)
  have "inj TaskId" by (simp add: inj_def)
  moreover obtain i where "index_of t ps = Some i" using Cons.prems index_of_mem [of t ps] by auto
  ultimately have "rev_prio (map TaskId ps) t m = Inr (dict_set t (pos_of ps t) m)"
    by (simp add: rev_prio_def index_of_map pos_of_def)
  with Cons.IH [of "dict_set t (pos_of ps t) m"] Cons.prems show ?case by auto
qed simp

text \<open>
  A scheduler in a consistent state: its map lists the tasks of the queue in the order \<open>ps\<close>, everything buildable is a task of the
  queue, the stamps are known and the cached limits are those of the configuration.
\<close>

definition sched_ok :: "rtentries \<Rightarrow> string list \<Rightarrow> rq_view \<Rightarrow> sched \<Rightarrow> bool" where
  "sched_ok entries ps rq sc \<longleftrightarrow> sc_prio_map sc = map TaskId ps \<and> set (dict_keys entries) \<subseteq> set ps \<and>
     set (sc_buildable sc) \<subseteq> set (dict_keys entries) \<and> limits_cached rq (sc_skip_maxthread sc) \<and>
     (\<forall>t \<in> set (dict_keys entries). tid_ok t \<and> map_of (sc_stamps sc) t \<noteq> None) \<and>
     (sc_rev_prio_map sc = [] \<or> (\<forall>t \<in> set (dict_keys entries). map_of (sc_rev_prio_map sc) t = Some (pos_of ps t)))"

definition view_ok :: "rq_view \<Rightarrow> bool" where
  "view_ok rq \<longleftrightarrow> (\<forall>t \<in> set (rq_running rq). tid_ok t) \<and>
     (\<forall>n. limited rq n \<longrightarrow> (\<exists>i. py_int (the (rq_number_threads rq n)) = Inr i))"

definition stamp_free :: "rq_view \<Rightarrow> sched \<Rightarrow> string \<Rightarrow> bool" where
  "stamp_free rq sc t \<longleftrightarrow> the (map_of (sc_stamps sc) t) \<notin> set (map snd (rq_build_stamps rq))"

definition startable :: "rq_view \<Rightarrow> sched \<Rightarrow> string \<Rightarrow> bool" where
  "startable rq sc t \<longleftrightarrow> t \<in> set (sc_buildable sc) \<and> t \<notin> set (rq_running rq) \<and> t \<notin> set (rq_holdoff rq) \<and>
     t \<in> set (rq_covered rq) \<union> set (rq_notcovered rq) \<and> \<not> at_limit rq (tname t) \<and> stamp_free rq sc t"

text \<open>The best of the tasks seen so far.\<close>

definition best_of :: "string list \<Rightarrow> (string \<Rightarrow> bool) \<Rightarrow> string list \<Rightarrow> (string \<times> nat) option \<Rightarrow> bool" where
  "best_of ps E ts best \<longleftrightarrow> (case best of
     None \<Rightarrow> \<forall>t \<in> set ts. \<not> E t
   | Some (b, i) \<Rightarrow> b \<in> set ts \<and> E b \<and> i = pos_of ps b \<and> (\<forall>t \<in> set ts. E t \<longrightarrow> pos_of ps b \<le> pos_of ps t))"

lemma better_task_step:
  assumes "tid_ok t" "over_limit (sc_skip_maxthread sc) counts (tname t) = Inr (at_limit rq (tname t))"
    "map_of (sc_rev_prio_map sc) t = Some (pos_of ps t)" "map_of (sc_stamps sc) t = Some s"
    "best_of ps (\<lambda>t. \<not> at_limit rq (tname t) \<and> stamp_free rq sc t) ts best"
  shows "\<exists>best'. better_task rq sc counts t best = Inr best' \<and>
    best_of ps (\<lambda>t. \<not> at_limit rq (tname t) \<and> stamp_free rq sc t) (ts @ [t]) best'"
proof -
  let ?E = "\<lambda>t. \<not> at_limit rq (tname t) \<and> stamp_free rq sc t"
  let ?better = "case best of None \<Rightarrow> True | Some (_, bestprio) \<Rightarrow> bestprio > pos_of ps t"
  have "better_task rq sc counts t best = Inr (if ?E t \<and> ?better then Some (t, pos_of ps t) else best)"
    using assms(2-4) taskname_tname [OF assms(1)] by (auto simp: better_task_def dict_lookup_Some stamp_free_def)
  moreover have "best_of ps ?E (ts @ [t]) (if ?E t \<and> ?better then Some (t, pos_of ps t) else best)"
    using assms(5) by (cases best) (auto simp: best_of_def)
  ultimately show ?thesis by blast
qed

lemma better_task_all:
  assumes "\<forall>t \<in> set ts. tid_ok t \<and> over_limit (sc_skip_maxthread sc) counts (tname t) = Inr (at_limit rq (tname t)) \<and>
      map_of (sc_rev_prio_map sc) t = Some (pos_of ps t) \<and> map_of (sc_stamps sc) t \<noteq> None"
    "best_of ps (\<lambda>t. \<not> at_limit rq (tname t) \<and> stamp_free rq sc t) us best"
  shows "\<exists>best'. rfold (better_task rq sc counts) ts best = Inr best' \<and>
    best_of ps (\<lambda>t. \<not> at_limit rq (tname t) \<and> stamp_free rq sc t) (us @ ts) best'"
  using assms
proof (induction ts arbitrary: us best)
  case (Cons t ts)
  then obtain s where "map_of (sc_stamps sc) t = Some s" by auto
  from better_task_step [OF _ _ _ this Cons.prems(2)] Cons.prems(1) obtain b where
    "better_task rq sc counts t best = Inr b" "best_of ps (\<lambda>t. \<not> at_limit rq (tname t) \<and> stamp_free rq sc t) (us @ [t]) b" by auto
  with Cons.IH [of "us @ [t]" b] Cons.prems(1) show ?case by auto
qed auto

lemma sched_okD:
  assumes "sched_ok entries ps rq sc"
  shows "sc_prio_map sc = map TaskId ps" "set (dict_keys entries) \<subseteq> set ps" "set (sc_buildable sc) \<subseteq> set (dict_keys entries)"
    "limits_cached rq (sc_skip_maxthread sc)"
    "t \<in> set (dict_keys entries) \<Longrightarrow> tid_ok t" "t \<in> set (dict_keys entries) \<Longrightarrow> map_of (sc_stamps sc) t \<noteq> None"
    "sc_rev_prio_map sc \<noteq> [] \<Longrightarrow> t \<in> set (dict_keys entries) \<Longrightarrow> map_of (sc_rev_prio_map sc) t = Some (pos_of ps t)"
  using assms unfolding sched_ok_def by blast+

lemma ensure_rev_prio_map_ok:
  assumes "sched_ok entries ps rq sc"
  shows "\<exists>m. ensure_rev_prio_map entries sc = Inr (sc\<lparr>sc_rev_prio_map := m\<rparr>) \<and>
    (\<forall>t \<in> set (dict_keys entries). map_of m t = Some (pos_of ps t))"
proof (cases "sc_rev_prio_map sc = []")
  case False
  then show ?thesis
    using sched_okD(7) [OF assms False] by (intro exI [of _ "sc_rev_prio_map sc"]) (simp add: ensure_rev_prio_map_def)
next
  case True
  from rev_prio_fold [OF sched_okD(2) [OF assms], of "[]"] obtain m
    where "rfold (rev_prio (map TaskId ps)) (dict_keys entries) [] = Inr m" "\<forall>t. map_of m t = (if t \<in> set (dict_keys entries) then Some (pos_of ps t) else map_of [] t)"
    by blast
  with True sched_okD(1) [OF assms] show ?thesis
    by (intro exI [of _ m]) (simp add: ensure_rev_prio_map_def del: set_map)
qed

text \<open>The outcome of the choice among the tasks \<open>ts\<close>.\<close>

definition best_task :: "string list \<Rightarrow> (string \<Rightarrow> bool) \<Rightarrow> string option \<Rightarrow> bool" where
  "best_task ps E r \<longleftrightarrow> (case r of None \<Rightarrow> \<forall>t. \<not> E t | Some b \<Rightarrow> E b \<and> (\<forall>t. E t \<longrightarrow> pos_of ps b \<le> pos_of ps t))"

lemma best_of_task: "best_of ps E ts best \<Longrightarrow> best_task ps (\<lambda>t. t \<in> set ts \<and> E t) (map_option fst best)"
  by (auto simp: best_of_def best_task_def split: option.splits)

lemma best_task_cong: "best_task ps E r \<Longrightarrow> (\<And>t. E t = F t) \<Longrightarrow> best_task ps F r"
  by (simp add: best_task_def split: option.splits)

lemma choose_task_best:
  assumes "sched_ok entries ps rq sc" "view_ok rq" "counts_ok rq (in_progress rq) (sc_skip_maxthread sc, counts)"
    "set ts \<subseteq> set (dict_keys entries)"
  shows "\<exists>r m. choose_task entries rq counts ts sc = Inr (r, sc\<lparr>sc_rev_prio_map := m\<rparr>) \<and>
    sched_ok entries ps rq (sc\<lparr>sc_rev_prio_map := m\<rparr>) \<and>
    best_task ps (\<lambda>t. t \<in> set ts \<and> \<not> at_limit rq (tname t) \<and> stamp_free rq sc t) r"
proof -
  from ensure_rev_prio_map_ok [OF assms(1)] obtain m
    where m: "ensure_rev_prio_map entries sc = Inr (sc\<lparr>sc_rev_prio_map := m\<rparr>)"
      "\<forall>t \<in> set (dict_keys entries). map_of m t = Some (pos_of ps t)" by blast
  let ?sc = "sc\<lparr>sc_rev_prio_map := m\<rparr>"
  have ok: "sched_ok entries ps rq ?sc" using assms(1) m(2) unfolding sched_ok_def by simp
  have same: "stamp_free rq ?sc t = stamp_free rq sc t" for t by (simp add: stamp_free_def)
  have "over_limit (sc_skip_maxthread ?sc) counts (tname t) = Inr (at_limit rq (tname t))" for t
    using over_limit_at [OF assms(3)] assms(2) unfolding view_ok_def by simp
  then have "\<forall>t \<in> set ts. tid_ok t \<and> over_limit (sc_skip_maxthread ?sc) counts (tname t) = Inr (at_limit rq (tname t)) \<and>
      map_of (sc_rev_prio_map ?sc) t = Some (pos_of ps t) \<and> map_of (sc_stamps ?sc) t \<noteq> None"
    using sched_okD(5,6) [OF ok] m(2) assms(4) by (simp add: subset_iff del: set_map)
  from better_task_all [OF this, of "[]" None] obtain best where
    best: "rfold (better_task rq ?sc counts) ts None = Inr best"
      "best_of ps (\<lambda>t. \<not> at_limit rq (tname t) \<and> stamp_free rq ?sc t) ts best" by (auto simp: best_of_def)
  have "choose_task entries rq counts ts sc = Inr (map_option fst best, ?sc)" using m(1) best(1) by (simp add: choose_task_def)
  with ok best_of_task [OF best(2)] same show ?thesis by auto
qed

lemma next_buildable_task_best:
  assumes "sched_ok entries ps rq sc" "view_ok rq"
  shows "\<exists>r sc'. next_buildable_task entries rq sc = Inr (r, sc') \<and> sched_ok entries ps rq sc' \<and> best_task ps (startable rq sc) r"
proof -
  let ?sc1 = "sc\<lparr>sc_buildable := filter (\<lambda>t. t \<notin> set (rq_running rq)) (sc_buildable sc)\<rparr>"
  let ?b = "candidates rq (sc_buildable ?sc1)" and ?E = "\<lambda>t. \<not> at_limit rq (tname t) \<and> stamp_free rq sc t"
  have ok1: "sched_ok entries ps rq ?sc1" using assms(1) unfolding sched_ok_def by auto
  have st: "(t \<in> set ?b \<and> ?E t) = startable rq sc t" for t by (auto simp: startable_def candidates_def)
  have keys: "set ?b \<subseteq> set (dict_keys entries)" using sched_okD(3) [OF assms(1)] by (auto simp: candidates_def)
  show ?thesis
  proof (cases "?b = []")
    case True
    then have "best_task ps (startable rq sc) None" using st by (simp add: best_task_def)
    with True ok1 show ?thesis by (auto simp: next_buildable_task_def)
  next
    case False
    have "\<forall>t \<in> set (in_progress rq). tid_ok t" using assms(2) by (simp add: view_ok_def in_progress_def)
    moreover have "counts_ok rq [] (sc_skip_maxthread ?sc1, [])"
      using sched_okD(4) [OF ok1] by (simp add: counts_ok_def name_count_def)
    ultimately obtain limits counts where
      c: "rfold (count_running rq) (in_progress rq) (sc_skip_maxthread ?sc1, []) = Inr (limits, counts)"
         "counts_ok rq (in_progress rq) (limits, counts)"
      using count_running_all [of rq "[]" "(sc_skip_maxthread ?sc1, [])" "in_progress rq"] by auto
    let ?sc2 = "?sc1\<lparr>sc_skip_maxthread := limits\<rparr>"
    have ok2: "sched_ok entries ps rq ?sc2" using ok1 c(2) unfolding sched_ok_def counts_ok_def by simp
    have same: "stamp_free rq ?sc2 t = stamp_free rq sc t" for t by (simp add: stamp_free_def)
    have run: "next_buildable_task entries rq sc = (case ?b of
        [tid] \<Rightarrow> rbind (taskname_from_tid tid) (\<lambda>taskname. rbind (over_limit limits counts taskname) (\<lambda>over.
            if over then Inr (None, ?sc2)
            else rbind (dict_lookup (sc_stamps ?sc2) tid) (\<lambda>stamp.
              if stamp \<notin> set (map snd (rq_build_stamps rq)) then Inr (Some tid, ?sc2) else choose_task entries rq counts [] ?sc2)))
      | _ \<Rightarrow> choose_task entries rq counts ?b ?sc2)"
      using False c(1) unfolding next_buildable_task_def Let_def in_progress_def by (simp del: rbind_eq_Inr)
    have choose: "\<exists>r m. choose_task entries rq counts ts ?sc2 = Inr (r, ?sc2\<lparr>sc_rev_prio_map := m\<rparr>) \<and>
        sched_ok entries ps rq (?sc2\<lparr>sc_rev_prio_map := m\<rparr>) \<and> best_task ps (\<lambda>t. t \<in> set ts \<and> ?E t) r"
      if "set ts \<subseteq> set (dict_keys entries)" for ts
      using choose_task_best [OF ok2 assms(2) _ that] c(2) unfolding same by simp
    show ?thesis
    proof (cases "\<exists>tid. ?b = [tid]")
      case True
      then obtain tid where tid: "?b = [tid]" by blast
      then have k: "tid \<in> set (dict_keys entries)" using keys by simp
      then obtain s where s: "map_of (sc_stamps ?sc2) tid = Some s" using sched_okD(6) [OF ok2] by blast
      have o: "over_limit limits counts (tname tid) = Inr (at_limit rq (tname tid))"
        using over_limit_at [OF c(2)] assms(2) unfolding view_ok_def by simp
      have free: "s \<notin> set (map snd (rq_build_stamps rq)) \<longleftrightarrow> stamp_free rq sc tid" using s by (simp add: stamp_free_def)
      have one: "startable rq sc t \<longleftrightarrow> t = tid \<and> ?E tid" for t using st [of t] unfolding tid by auto
      have run1: "next_buildable_task entries rq sc = (if at_limit rq (tname tid) then Inr (None, ?sc2)
          else if stamp_free rq sc tid then Inr (Some tid, ?sc2) else choose_task entries rq counts [] ?sc2)"
        unfolding run tid using o free taskname_tname [OF sched_okD(5) [OF ok2 k]] s by (simp add: dict_lookup_Some)
      show ?thesis
      proof (cases "?E tid")
        case True
        then show ?thesis using run1 ok2 one by (auto simp: best_task_def)
      next
        case False
        from choose [of "[]"] obtain r m where "choose_task entries rq counts [] ?sc2 = Inr (r, ?sc2\<lparr>sc_rev_prio_map := m\<rparr>)"
          "sched_ok entries ps rq (?sc2\<lparr>sc_rev_prio_map := m\<rparr>)" "best_task ps (\<lambda>t. t \<in> set [] \<and> ?E t) r" by auto
        with False run1 ok2 one show ?thesis
          by (cases "at_limit rq (tname tid)") (auto simp: best_task_def split: option.splits)
      qed
    next
      case many: False
      with False have "next_buildable_task entries rq sc = choose_task entries rq counts ?b ?sc2"
        unfolding run by (cases ?b; cases "tl ?b") auto
      with choose [OF keys] best_task_cong [OF _ st, of ps] show ?thesis by auto
    qed
  qed
qed

section \<open>The priority maps\<close>

lemma dd_get_fold_weights:
  "dd_get (fold (\<lambda>(tid, e). dd_append (w e) tid) es d) k = dd_get d k @ map fst (filter (\<lambda>p. w (snd p) = k) es)"
  by (induction es arbitrary: d) auto

lemma keys_fold_weights:
  "set (dict_keys (fold (\<lambda>(tid, e). dd_append (w e) tid) es d)) = set (dict_keys d) \<union> (\<lambda>p. w (snd p)) ` set es"
proof (induction es arbitrary: d)
  case (Cons p es)
  then show ?case by (cases p) (simp add: dd_append_def)
qed simp

lemma wf_fold_weights: "dict_wf d \<Longrightarrow> dict_wf (fold (\<lambda>(tid, e). dd_append (w e) tid) es d)"
  by (induction es arbitrary: d) auto

lemma speed_prio_sort: "speed_prio entries = rev (map fst (sort_key (\<lambda>p. re_weight (snd p)) entries))"
proof -
  let ?w = "\<lambda>p :: string \<times> runtaskentry. re_weight (snd p)"
  let ?d = "fold (\<lambda>(tid, e). dd_append (re_weight e) tid) entries []"
  have "sort (dict_keys ?d) = sorted_list_of_set (?w ` set entries)"
    using sort_distinct_set [of "dict_keys ?d"] wf_fold_weights [of "[]" re_weight entries] keys_fold_weights [of re_weight entries "[]"]
    by simp
  moreover have "dd_get ?d = (\<lambda>k. map fst (filter (\<lambda>p. ?w p = k) entries))" by (rule ext) (simp add: dd_get_fold_weights)
  ultimately have "concat (map (dd_get ?d) (sort (dict_keys ?d))) =
      concat (map (\<lambda>k. map fst (filter (\<lambda>p. ?w p = k) entries)) (sorted_list_of_set (?w ` set entries)))" by (simp only:)
  also have "\<dots> = map fst (sort_key ?w entries)" unfolding sort_key_buckets [of ?w] by (simp add: buckets_def map_concat comp_def)
  finally show ?thesis by (simp add: speed_prio_def Let_def)
qed

lemma speed_prio_perm: "mset (speed_prio entries) = mset (dict_keys entries)"
  by (simp add: speed_prio_sort)

definition weight_in :: "rtentries \<Rightarrow> string \<Rightarrow> int" where
  "weight_in entries t = (case map_of entries t of None \<Rightarrow> 0 | Some e \<Rightarrow> re_weight e)"

lemma speed_prio_descending:
  assumes "dict_wf entries"
  shows "sorted_wrt (\<lambda>a b. weight_in entries b \<le> weight_in entries a) (speed_prio entries)"
proof -
  have "sorted (map (\<lambda>p. re_weight (snd p)) (sort_key (\<lambda>p. re_weight (snd p)) entries))" by simp
  then have "sorted_wrt (\<lambda>p q. re_weight (snd p) \<le> re_weight (snd q)) (sort_key (\<lambda>p. re_weight (snd p)) entries)"
    by (simp add: sorted_map)
  then have "sorted_wrt (\<lambda>p q. weight_in entries (fst p) \<le> weight_in entries (fst q)) (sort_key (\<lambda>p. re_weight (snd p)) entries)"
    by (rule sorted_wrt_mono_rel [rotated]) (use assms in \<open>auto simp: weight_in_def\<close>)
  then show ?thesis by (simp add: speed_prio_sort sorted_wrt_rev sorted_wrt_map)
qed

lemma move_task_all:
  "\<forall>t \<in> set rest. tid_ok t \<Longrightarrow>
   rfold (move_task task) [length a + length u..<length a + length u + length rest] (length a, a @ u @ rest) =
     Inr (length a + length (filter (\<lambda>t. tname t = task) rest),
          a @ filter (\<lambda>t. tname t = task) rest @ u @ filter (\<lambda>t. tname t \<noteq> task) rest)"
proof (induction rest arbitrary: a u)
  case (Cons t rest)
  have up: "[length a + length u..<length a + length u + length (t # rest)] =
      (length a + length u) # [length (a @ [t]) + length u..<length (a @ [t]) + length u + length rest]"
    by (subst upt_conv_Cons) (simp_all del: upt_Suc)
  have nth: "(a @ u @ t # rest) ! (length a + length u) = t" by (simp add: nth_append)
  have ok: "taskname_from_tid t = Inr (tname t)" using Cons.prems by (simp add: taskname_tname)
  show ?case
  proof (cases "tname t = task")
    case True
    have "move_task task (length a + length u) (length a, a @ u @ t # rest) = Inr (length (a @ [t]), (a @ [t]) @ u @ rest)"
      using True ok nth by (simp add: move_task_def Let_def)
    with Cons.IH [of "a @ [t]" u] Cons.prems True show ?thesis unfolding up by simp
  next
    case False
    have "move_task task (length a + length u) (length a, a @ u @ t # rest) = Inr (length a, a @ (u @ [t]) @ rest)"
      using False ok nth by (simp add: move_task_def)
    with Cons.IH [of a "u @ [t]"] Cons.prems False show ?thesis unfolding up by simp
  qed
qed simp

lemma group_tasks_all:
  assumes "distinct ts" "\<forall>t \<in> set post. tid_ok t"
  shows "\<exists>n. rfold (group_task (length a + length post)) ts (length a, a @ post) =
    Inr (n, a @ buckets tname ts post @ filter (\<lambda>t. tname t \<notin> set ts) post)"
  using assms
proof (induction ts arbitrary: a post)
  case (Cons x ts)
  let ?m = "filter (\<lambda>t. tname t = x) post" and ?r = "filter (\<lambda>t. tname t \<noteq> x) post"
  have len: "length a + length post = length (a @ ?m) + length ?r" using sum_length_filter_compl [of "\<lambda>t. tname t = x" post] by simp
  have "group_task (length a + length post) x (length a, a @ post) = Inr (length (a @ ?m), (a @ ?m) @ ?r)"
    using move_task_all [OF Cons.prems(2), of x a "[]"] by (simp add: group_task_def)
  moreover have "buckets tname ts ?r = buckets tname ts post" unfolding buckets_def
    using Cons.prems(1) by (auto intro!: arg_cong [of _ _ concat] filter_cong)
  moreover have "filter (\<lambda>t. tname t \<notin> set ts) ?r = filter (\<lambda>t. tname t \<notin> set (x # ts)) post" by (auto intro: filter_cong)
  ultimately show ?case using Cons.IH [of ?r "a @ ?m"] Cons.prems unfolding len by (simp add: buckets_def)
qed (simp add: buckets_def)

lemma at_index_mem: "at_index xs i = Some x \<Longrightarrow> x \<in> set xs"
  by (auto simp: at_index_def split: if_splits)

lemma merge_step_ok:
  assumes "distinct all" "\<forall>x. old = Some x \<longrightarrow> x \<in> set all" "merge_step new (i, old, all) = (i', old', all')"
  shows "distinct all'" "\<forall>x. old' = Some x \<longrightarrow> x \<in> set all'" "set all' = insert new (set all)"
proof -
  have split: "set (take i all) \<inter> set (drop i all) = {}" "set (take i all) \<union> set (drop i all) = set all"
    using assms(1) by (simp_all add: set_take_disj_set_drop_if_distinct flip: set_append)
  show "distinct all'" "\<forall>x. old' = Some x \<longrightarrow> x \<in> set all'" "set all' = insert new (set all)"
    using assms split index_of_mem [of new all] index_of_nth [of new all]
    by (auto simp: merge_step_def at_index_mem split: if_splits option.splits)
qed

lemma merge_task_list_ok:
  assumes "distinct all"
  shows "distinct (merge_task_list new all)" "set (merge_task_list new all) = set new \<union> set all"
proof -
  have "distinct (snd (snd (fold merge_step new (i, old, a)))) \<and> set (snd (snd (fold merge_step new (i, old, a)))) = set new \<union> set a"
    if "distinct a" "\<forall>x. old = Some x \<longrightarrow> x \<in> set a" for i old a
    using that
  proof (induction new arbitrary: i old a)
    case (Cons n new)
    obtain i' old' a' where m: "merge_step n (i, old, a) = (i', old', a')" by (cases "merge_step n (i, old, a)")
    from Cons.IH [OF merge_step_ok(1,2) [OF Cons.prems m]] merge_step_ok(3) [OF Cons.prems m] m show ?case by auto
  qed simp
  then show "distinct (merge_task_list new all)" "set (merge_task_list new all) = set new \<union> set all"
    using assms by (simp_all add: merge_task_list_def at_index_mem)
qed

lemma merged_tasks_ok: "distinct (merged_tasks tls) \<and> set (merged_tasks tls) = (\<Union>p \<in> set tls. set (snd p))"
proof -
  have "distinct a \<Longrightarrow> distinct (fold (\<lambda>(recipe, new_tasks). merge_task_list new_tasks) tls a) \<and>
    set (fold (\<lambda>(recipe, new_tasks). merge_task_list new_tasks) tls a) = set a \<union> (\<Union>p \<in> set tls. set (snd p))" for a
  proof (induction tls arbitrary: a)
    case (Cons p tls)
    from Cons.IH [OF merge_task_list_ok(1) [OF Cons.prems, of "snd p"]] merge_task_list_ok(2) [OF Cons.prems, of "snd p"]
    show ?case by (cases p) (simp add: Un_ac)
  qed simp
  then show ?thesis by (simp add: merged_tasks_def)
qed

lemma task_lists_ok:
  assumes "\<forall>t \<in> set ts. tid_ok t"
  shows "\<exists>d'. rfold add_task_list ts d = Inr d' \<and> (\<Union>p \<in> set d'. set (snd p)) = (\<Union>p \<in> set d. set (snd p)) \<union> tname ` set ts"
  using assms
proof (induction ts arbitrary: d)
  case (Cons t ts)
  from rsplit1_tid [of t] Cons.prems obtain fn where "rsplit1 (CHR '':'') t = [fn, tname t]" by auto
  then have "add_task_list t d = Inr (dd_append fn (tname t) d)" by (simp add: add_task_list_def)
  moreover have "(\<Union>p \<in> set (dd_append fn v d). set (snd p)) = (\<Union>p \<in> set d. set (snd p)) \<union> {v}" for v
    unfolding dd_append_def dd_get_def by (induction d) (auto split: option.splits)
  ultimately show ?case using Cons.IH [of "dd_append fn (tname t) d"] Cons.prems by simp
qed simp

lemma completion_prio_buckets:
  assumes "\<forall>t \<in> set prio. tid_ok t"
  shows "\<exists>tasks. distinct tasks \<and> set tasks = tname ` set prio \<and> completion_prio (length prio) prio = Inr (buckets tname tasks prio)"
proof -
  from task_lists_ok [OF assms, of "[]"] obtain d where d: "rfold add_task_list prio [] = Inr d" "(\<Union>p \<in> set d. set (snd p)) = tname ` set prio"
    by auto
  let ?ts = "rev (merged_tasks d)"
  have ts: "distinct ?ts" "set ?ts = tname ` set prio" using merged_tasks_ok [of d] d(2) by simp_all
  from group_tasks_all [OF ts(1) assms, of "[]"] ts(2) obtain n
    where "rfold (group_task (length prio)) ?ts (0, prio) = Inr (n, buckets tname ?ts prio)" by auto
  with d(1) have "completion_prio (length prio) prio = Inr (buckets tname ?ts prio)" by (simp add: completion_prio_def)
  with ts show ?thesis by blast
qed

section \<open>Any order of priorities makes a scheduler\<close>

text \<open>What a scheduler class promises of its priority map: it lists every task of the queue once.\<close>

definition tids_ok :: "rtentries \<Rightarrow> bool" where
  "tids_ok entries \<longleftrightarrow> dict_wf entries \<and> (\<forall>t \<in> set (dict_keys entries). tid_ok t)"

locale priority_order =
  fixes prio :: "rtentries \<Rightarrow> string list result"
  assumes prio_permutes: "tids_ok entries \<Longrightarrow> \<exists>ps. prio entries = Inr ps \<and> mset ps = mset (dict_keys entries)"
begin

lemma prio_lists:
  assumes "tids_ok entries" "prio entries = Inr ps"
  shows "distinct ps" "set ps = set (dict_keys entries)"
proof -
  have m: "mset ps = mset (dict_keys entries)" using prio_permutes [OF assms(1)] assms(2) by auto
  show "set ps = set (dict_keys entries)" using m by (metis set_mset_mset)
  show "distinct ps" using m assms(1) unfolding tids_ok_def by (metis mset_eq_imp_distinct_iff)
qed

lemma starts_sched_ok:
  assumes "tids_ok entries" "prio entries = Inr ps" "RunQueueScheduler stampf caches [] entries = Inr sc"
  shows "sched_ok entries ps rq (sc\<lparr>sc_prio_map := map TaskId ps\<rparr>)"
proof -
  from assms(3) obtain stamps where st: "rfold (stamp_step stampf caches []) (dict_keys entries) [] = Inr stamps"
    and sc: "sc = \<lparr>sc_prio_map = [KeysView (dict_keys entries)], sc_buildable = [], sc_skip_maxthread = [], sc_stamps = stamps, sc_rev_prio_map = []\<rparr>"
    by (auto simp: RunQueueScheduler_def)
  have "(\<forall>t. has_key s t \<longrightarrow> has_key s' t) \<and> (\<forall>t \<in> set ts. has_key s' t)"
    if "rfold (stamp_step stampf caches []) ts s = Inr s'" for ts s s'
    using that
  proof (induction ts arbitrary: s)
    case (Cons t ts)
    then obtain s1 where s1: "stamp_step stampf caches [] t s = Inr s1" "rfold (stamp_step stampf caches []) ts s1 = Inr s'" by auto
    then have "has_key s1 u \<longleftrightarrow> u = t \<or> has_key s u" for u by (auto simp: stamp_step_def)
    with Cons.IH [OF s1(2)] show ?case by auto
  qed simp
  with st have "map_of stamps t \<noteq> None" if "t \<in> set (dict_keys entries)" for t using that by (auto simp: has_key_def simp del: set_map)
  with prio_lists [OF assms(1,2)] assms(1) show ?thesis
    unfolding sched_ok_def sc by (simp add: limits_cached_def tids_ok_def del: set_map)
qed

lemma starts_best:
  assumes "tids_ok entries" "prio entries = Inr ps" "RunQueueScheduler stampf caches [] entries = Inr sc0"
    "set ts \<subseteq> set (dict_keys entries)" "view_ok rq"
    "sc = fold newbuildable ts (sc0\<lparr>sc_prio_map := map TaskId ps\<rparr>)"
  shows "\<exists>r sc'. next_buildable_task entries rq sc = Inr (r, sc') \<and> sched_ok entries ps rq sc' \<and> best_task ps (startable rq sc) r"
proof -
  have "sched_ok entries ps rq (fold newbuildable ts s)" if "sched_ok entries ps rq s" for s
    using that assms(4)
  proof (induction ts arbitrary: s)
    case (Cons t ts)
    have "sched_ok entries ps rq (newbuildable t s)"
      using Cons.prems unfolding sched_ok_def by (simp add: newbuildable_def del: set_map)
    with Cons show ?case by simp
  qed simp
  from next_buildable_task_best [OF this [OF starts_sched_ok [OF assms(1-3)]] assms(5)] show ?thesis using assms(6) by simp
qed

end

interpretation speed: priority_order "\<lambda>entries. Inr (speed_prio entries)"
  by unfold_locales (simp add: speed_prio_perm)

interpretation completion: priority_order "\<lambda>entries. completion_prio (length entries) (speed_prio entries)"
proof unfold_locales
  fix entries :: rtentries
  assume e: "tids_ok entries"
  have m: "mset (speed_prio entries) = mset (dict_keys entries)" by (rule speed_prio_perm)
  then have len: "length (speed_prio entries) = length entries" by (metis length_map size_mset)
  have "set (speed_prio entries) = set (dict_keys entries)" using m by (metis set_mset_mset)
  then have "\<forall>t \<in> set (speed_prio entries). tid_ok t" using e unfolding tids_ok_def by blast
  from completion_prio_buckets [OF this] obtain tasks where t: "distinct tasks" "set tasks = tname ` set (speed_prio entries)"
    "completion_prio (length entries) (speed_prio entries) = Inr (buckets tname tasks (speed_prio entries))" unfolding len by blast
  have "mset (buckets tname tasks (speed_prio entries)) = mset (speed_prio entries)"
    unfolding mset_buckets [OF t(1)] t(2) by (simp add: filter_id_conv)
  with t(3) m show "\<exists>ps. completion_prio (length entries) (speed_prio entries) = Inr ps \<and> mset ps = mset (dict_keys entries)" by auto
qed

text \<open>A position is earlier only if the task is at least as heavy.\<close>

lemma speed_earlier_heavier:
  assumes "tids_ok entries" "t \<in> set (dict_keys entries)" "u \<in> set (dict_keys entries)"
    "pos_of (speed_prio entries) t \<le> pos_of (speed_prio entries) u"
  shows "weight_in entries u \<le> weight_in entries t"
proof -
  let ?ps = "speed_prio entries"
  have s: "set ?ps = set (dict_keys entries)" by (rule speed.prio_lists(2) [OF assms(1) refl])
  have t: "pos_of ?ps t < length ?ps" "?ps ! pos_of ?ps t = t" and u: "pos_of ?ps u < length ?ps" "?ps ! pos_of ?ps u = u"
    using pos_of_nth [of _ ?ps] assms(2,3) s by blast+
  have sorted: "sorted_wrt (\<lambda>a b. weight_in entries b \<le> weight_in entries a) ?ps"
    using speed_prio_descending assms(1) unfolding tids_ok_def by blast
  show ?thesis
  proof (cases "pos_of ?ps t < pos_of ?ps u")
    case True
    from sorted_wrt_nth_less [OF sorted True u(1)] show ?thesis unfolding t(2) u(2) .
  next
    case False
    with assms(4) have "pos_of ?ps t = pos_of ?ps u" by simp
    with t(2) u(2) have "t = u" by metis
    then show ?thesis by simp
  qed
qed

text \<open>C24. The speed scheduler never raises on well-formed tasks and limits. It starts nothing exactly when no task is startable: buildable, not running,
  not held off, with its setscene outcome known, below the thread limit of its name and with a stamp not in use. The
  task it starts is startable, and no startable task is heavier.\<close>

theorem speed_scheduler_heaviest:
  assumes "tids_ok entries" and "RunQueueSchedulerSpeed stampf caches [] entries = Inr sc0"
    and "set ts \<subseteq> set (dict_keys entries)" and "view_ok rq" and "sc = fold newbuildable ts sc0"
  shows "\<exists>r sc'. next_buildable_task entries rq sc = Inr (r, sc') \<and>
    (case r of None \<Rightarrow> \<forall>t. \<not> startable rq sc t
     | Some t \<Rightarrow> startable rq sc t \<and> (\<forall>u. startable rq sc u \<longrightarrow> weight_in entries u \<le> weight_in entries t))"
proof -
  from assms(2) obtain sc1 where sc1: "RunQueueScheduler stampf caches [] entries = Inr sc1"
    "sc0 = sc1\<lparr>sc_prio_map := map TaskId (speed_prio entries)\<rparr>" by (auto simp: RunQueueSchedulerSpeed_def)
  from speed.starts_best [OF assms(1) refl sc1(1) assms(3,4)] assms(5) sc1(2) obtain r sc'
    where r: "next_buildable_task entries rq sc = Inr (r, sc')" "best_task (speed_prio entries) (startable rq sc) r" by auto
  have "sc_buildable sc0 = []" using sc1 by (auto simp: RunQueueScheduler_def)
  moreover have "set (sc_buildable (fold newbuildable us s)) = set us \<union> set (sc_buildable s)" for us s
    by (induction us arbitrary: s) (auto simp: newbuildable_def)
  ultimately have "set (sc_buildable sc) \<subseteq> set (dict_keys entries)" using assms(3,5) by simp
  then have "t \<in> set (dict_keys entries)" if "startable rq sc t" for t using that unfolding startable_def by blast
  with r(2) speed_earlier_heavier [OF assms(1)]
  have "case r of None \<Rightarrow> \<forall>t. \<not> startable rq sc t
     | Some t \<Rightarrow> startable rq sc t \<and> (\<forall>u. startable rq sc u \<longrightarrow> weight_in entries u \<le> weight_in entries t)"
    unfolding best_task_def by (cases r) (simp, simp add: option.case(2))
  with r(1) show ?thesis by blast
qed

text \<open>Two fetches of which one runs, with a limit of one, and a heavier and a lighter task.\<close>

definition sample_entries :: rtentries where
  "sample_entries =
     [(''a:fetch'', RunTaskEntry\<lparr>re_weight := 9\<rparr>), (''b:fetch'', RunTaskEntry\<lparr>re_weight := 8\<rparr>),
      (''a:build'', RunTaskEntry\<lparr>re_weight := 2\<rparr>), (''b:build'', RunTaskEntry\<lparr>re_weight := 3\<rparr>)]"

definition sample_caches :: "(string, cachedata) dict" where
  "sample_caches = [([], CacheData\<lparr>dc_stamp := [(''a'', ''s/a''), (''b'', ''s/b'')], dc_stamp_extrainfo := [(''a'', []), (''b'', [])]\<rparr>)]"

definition sample_view :: rq_view where
  "sample_view = \<lparr>rq_running = [''a:fetch''], rq_complete = [], rq_holdoff = [], rq_covered = [],
     rq_notcovered = dict_keys sample_entries, rq_build_stamps = [(''a:fetch'', Some ''s/a.fetch'')],
     rq_number_threads = (\<lambda>n. if n = ''fetch'' then Some ''1'' else None), rq_can_start = True\<rparr>"

definition sample_stampf :: "string \<Rightarrow> string \<Rightarrow> string \<Rightarrow> string \<Rightarrow> string" where
  "sample_stampf stampbase fn taskname extrainfo = stampbase @ ''.'' @ taskname"

definition sample_sched :: sched where
  "sample_sched = (case RunQueueSchedulerSpeed sample_stampf sample_caches [] sample_entries of Inr sc \<Rightarrow> sc | Inl _ \<Rightarrow> undefined)"

theorem speed_scheduler_heaviest_witness:
  "\<exists>sc'. next_buildable_task sample_entries sample_view (fold newbuildable (dict_keys sample_entries) sample_sched) = Inr (Some ''b:build'', sc')"
proof -
  have t: "tids_ok sample_entries" by code_simp
  have "case RunQueueSchedulerSpeed sample_stampf sample_caches [] sample_entries of Inr sc \<Rightarrow> True | Inl _ \<Rightarrow> False" by code_simp
  then have s: "RunQueueSchedulerSpeed sample_stampf sample_caches [] sample_entries = Inr sample_sched"
    unfolding sample_sched_def by (simp split: sum.splits)
  have v: "view_ok sample_view"
    by (auto simp: view_ok_def sample_view_def tid_ok_def limited_def py_simps split: if_splits)
  from speed_scheduler_heaviest [OF t s order_refl v refl] obtain r sc'
    where r: "next_buildable_task sample_entries sample_view (fold newbuildable (dict_keys sample_entries) sample_sched) = Inr (r, sc')" by blast
  have "(case next_buildable_task sample_entries sample_view (fold newbuildable (dict_keys sample_entries) sample_sched) of
      Inr (r, _) \<Rightarrow> r = Some ''b:build'' | Inl _ \<Rightarrow> False)" by code_simp
  with r show ?thesis by simp
qed

text \<open>C25. The completion scheduler's priority map is the speed map grouped by task name: there is an order of the task names such
  that all tasks of an earlier name come before those of a later one, and within one name the order
  of the speed map is kept. No task is lost.\<close>

theorem completion_groups_by_name:
  assumes "tids_ok entries" and "RunQueueScheduler stampf caches [] entries = Inr sc0"
  shows "\<exists>sc names. RunQueueSchedulerCompletion stampf caches [] entries = Inr sc \<and> distinct names \<and>
    set names = tname ` set (dict_keys entries) \<and>
    sc_prio_map sc = map TaskId (concat (map (\<lambda>n. filter (\<lambda>t. tname t = n) (speed_prio entries)) names)) \<and>
    mset (sc_prio_map sc) = mset (map TaskId (speed_prio entries))"
proof -
  have m: "mset (speed_prio entries) = mset (dict_keys entries)" by (rule speed_prio_perm)
  have len: "length (speed_prio entries) = length entries" using m by (metis length_map size_mset)
  have set: "set (speed_prio entries) = set (dict_keys entries)" by (rule speed.prio_lists(2) [OF assms(1) refl])
  then have "\<forall>t \<in> set (speed_prio entries). tid_ok t" using assms(1) unfolding tids_ok_def by blast
  from completion_prio_buckets [OF this] obtain names where n: "distinct names" "set names = tname ` set (dict_keys entries)"
    "completion_prio (length entries) (speed_prio entries) = Inr (buckets tname names (speed_prio entries))" unfolding len set by blast
  have "mset (buckets tname names (speed_prio entries)) = mset (speed_prio entries)"
    unfolding mset_buckets [OF n(1)] n(2) set [symmetric] by (simp add: filter_id_conv)
  then show ?thesis using n assms(2)
    by (intro exI [of _ "sc0\<lparr>sc_prio_map := map TaskId (buckets tname names (speed_prio entries))\<rparr>"] exI [of _ names])
      (simp add: RunQueueSchedulerCompletion_def buckets_def)
qed

theorem completion_groups_by_name_witness:
  "\<exists>sc. RunQueueSchedulerCompletion sample_stampf sample_caches [] sample_entries = Inr sc \<and>
     sc_prio_map sc = map TaskId [''b:build'', ''a:build'', ''a:fetch'', ''b:fetch'']"
proof -
  have t: "tids_ok sample_entries" by code_simp
  have "case RunQueueScheduler sample_stampf sample_caches [] sample_entries of Inr sc \<Rightarrow> True | Inl _ \<Rightarrow> False" by code_simp
  then obtain sc0 where "RunQueueScheduler sample_stampf sample_caches [] sample_entries = Inr sc0" by (auto split: sum.splits)
  from completion_groups_by_name [OF t this] obtain sc
    where r: "RunQueueSchedulerCompletion sample_stampf sample_caches [] sample_entries = Inr sc" by blast
  have "(case RunQueueSchedulerCompletion sample_stampf sample_caches [] sample_entries of
      Inr sc \<Rightarrow> sc_prio_map sc = map TaskId [''b:build'', ''a:build'', ''a:fetch'', ''b:fetch''] | Inl _ \<Rightarrow> False)" by code_simp
  with r show ?thesis by simp
qed

lemma basic_choice_raises:
  assumes "sc_prio_map sc = [KeysView ks]" "sc_rev_prio_map sc = []"
  shows "choose_task ((tid, e) # entries) rq counts buildable sc = Inl (ValueError tid)"
  using assms by (simp add: choose_task_def ensure_rev_prio_map_def rev_prio_def)

text \<open>The basic scheduler cannot choose among several tasks: its priority map holds the view of all keys as its single entry, so
  looking up the position of a task raises \<^verbatim>\<open>ValueError\<close> as soon as two tasks are candidates.\<close>

theorem basic_scheduler_raises:
  assumes "RunQueueScheduler stampf caches [] ((tid, e) # entries) = Inr sc0" and "view_ok rq" and "sc = fold newbuildable ts sc0"
    and "2 \<le> length (candidates rq (filter (\<lambda>t. t \<notin> set (rq_running rq)) (sc_buildable sc)))"
  shows "next_buildable_task ((tid, e) # entries) rq sc = Inl (ValueError tid)"
proof -
  let ?b = "candidates rq (filter (\<lambda>t. t \<notin> set (rq_running rq)) (sc_buildable sc))"
  obtain a b cs where ab: "?b = a # b # cs"
    using assms(4) by (cases ?b rule: remdups_adj.cases) auto
  have "sc_prio_map (fold newbuildable us s) = sc_prio_map s \<and> sc_rev_prio_map (fold newbuildable us s) = sc_rev_prio_map s \<and>
      sc_skip_maxthread (fold newbuildable us s) = sc_skip_maxthread s" for us s
    by (induction us arbitrary: s) (simp_all add: newbuildable_def)
  with assms(1,3) have sc: "sc_prio_map sc = [KeysView (tid # dict_keys entries)]" "sc_rev_prio_map sc = []" "sc_skip_maxthread sc = []"
    by (auto simp: RunQueueScheduler_def)
  have "\<forall>t \<in> set (in_progress rq). tid_ok t" using assms(2) by (simp add: view_ok_def in_progress_def)
  then obtain p where "rfold (count_running rq) (in_progress rq) ([], []) = Inr p"
    using count_running_all [of rq "[]" "([], [])" "in_progress rq"] by (auto simp: counts_ok_def limits_cached_def name_count_def)
  then show ?thesis using sc ab
    by (cases p) (simp add: next_buildable_task_def in_progress_def Let_def basic_choice_raises)
qed

theorem basic_scheduler_raises_witness:
  "\<exists>sc. RunQueueScheduler sample_stampf sample_caches [] sample_entries = Inr sc \<and>
     next_buildable_task sample_entries sample_view (fold newbuildable [''a:build'', ''b:build''] sc) = Inl (ValueError ''a:fetch'')"
proof -
  have "case RunQueueScheduler sample_stampf sample_caches [] sample_entries of Inr sc \<Rightarrow> True | Inl _ \<Rightarrow> False" by code_simp
  then obtain sc where sc: "RunQueueScheduler sample_stampf sample_caches [] sample_entries = Inr sc" by (auto split: sum.splits)
  have v: "view_ok sample_view"
    by (auto simp: view_ok_def sample_view_def tid_ok_def limited_def py_simps split: if_splits)
  have "sc_buildable sc = []" using sc by (auto simp: RunQueueScheduler_def)
  then have "2 \<le> length (candidates sample_view (filter (\<lambda>t. t \<notin> set (rq_running sample_view)) (sc_buildable (fold newbuildable [''a:build'', ''b:build''] sc))))"
    by (simp add: newbuildable_def add_new_def candidates_def sample_view_def sample_entries_def)
  from basic_scheduler_raises [OF sc [unfolded sample_entries_def] v refl this] sc show ?thesis
    unfolding sample_entries_def by blast
qed

end
