(* ===== verification/BB_Prepare.thy ===== *)
theory BB_Prepare
  imports BB_Weights BB_TaskData
begin

text \<open>
  \<^verbatim>\<open>RunQueueData.prepare\<close> of \<^verbatim>\<open>lib/bb/runqueue.py\<close>: the task databases of all multiconfigs become one run queue. Step A
  turns every kind of dependency into dependencies between tasks, step B marks the tasks the
  targets need, step C prunes the others and applies \<^verbatim>\<open>--runall\<close> and \<^verbatim>\<open>--runonly\<close>, step D adds the reverse
  dependencies, checks for loops and for recipes built twice, and computes the hashes.

  Messages and progress reports are left out. The signature generator is a parameter (\<open>siggen\<close>), as the source dispatches to whichever generator
  class is configured. A Python set is a list without duplicates, in iteration order.
\<close>

section \<open>State and environment\<close>

type_synonym taskdatas = "(string, taskdata) dict"
type_synonym datacaches = "(string, cachedata) dict"

record prep =
  pp_taskData :: taskdatas
  pp_entries :: rtentries
  pp_rec :: "(string, string list) dict"
  pp_reci :: "(string, string list) dict"
  pp_selfref :: "string list"

record prep_env =
  pe_dataCaches :: datacaches
  pe_targets :: "(string \<times> string \<times> string \<times> string) list"
  pe_runall :: "string list"
  pe_runonly :: "string list"
  pe_force :: bool
  pe_invalidate_stamp :: string
  pe_nosetscene :: bool
  pe_stampwhitelist :: string
  pe_multi_whitelist :: "string list"

text \<open>The methods of the signature generator that \<^verbatim>\<open>prepare\<close> calls.\<close>

record 'g siggen =
  sg_invalidate :: "string \<Rightarrow> cachedata \<Rightarrow> string \<Rightarrow> 'g \<Rightarrow> 'g result"
  sg_tasks_resolved :: "(string, string) dict \<Rightarrow> (string, string) dict \<Rightarrow> cachedata \<Rightarrow> 'g \<Rightarrow> 'g result"
  sg_set_setscene_tasks :: "string list \<Rightarrow> 'g \<Rightarrow> 'g"
  sg_prep_taskhash :: "string \<Rightarrow> string list \<Rightarrow> datacaches \<Rightarrow> 'g \<Rightarrow> 'g result"
  sg_get_taskhash :: "string \<Rightarrow> string list \<Rightarrow> datacaches \<Rightarrow> 'g \<Rightarrow> (string \<times> 'g) result"
  sg_get_unihash :: "string \<Rightarrow> 'g \<Rightarrow> (string \<times> 'g) result"

section \<open>Step A: dependencies between tasks\<close>

definition add_dependencies ::
    "(string, string list) dict \<Rightarrow> (string, taskentry) dict \<Rightarrow> string list \<Rightarrow> string list \<Rightarrow> string list \<Rightarrow> string list" where
  "add_dependencies targets entries depids tasknames depends =
     fold (\<lambda>depname ds.
             case dd_get targets depname of
               [] \<Rightarrow> ds
             | depdata # _ \<Rightarrow>
                 fold (\<lambda>taskname ds. let t = depdata @ '':'' @ taskname in if has_key entries t then add_new t ds else ds) tasknames ds)
       depids depends"

definition add_build_dependencies :: "taskdata \<Rightarrow> string list \<Rightarrow> string list \<Rightarrow> string list \<Rightarrow> string list" where
  "add_build_dependencies td depids tasknames depends =
     add_dependencies (td_build_targets td) (td_taskentries td) depids tasknames depends"

definition add_runtime_dependencies :: "taskdata \<Rightarrow> string list \<Rightarrow> string list \<Rightarrow> string list \<Rightarrow> string list" where
  "add_runtime_dependencies td depids tasknames depends =
     add_dependencies (td_run_targets td) (td_taskentries td) depids tasknames depends"

text \<open>\<^verbatim>\<open>l[0]\<close>\<close>

definition first_of :: "'a list \<Rightarrow> 'a result" where
  "first_of l = (case l of [] \<Rightarrow> Inl IndexError | x # _ \<Rightarrow> Inr x)"

definition mc_dependency :: "string \<Rightarrow> string \<Rightarrow> string \<Rightarrow> taskdatas \<Rightarrow> taskdatas result" where
  "mc_dependency mc tid dep tds =
     (let mcdependency = split_on (CHR '':'') dep
      in if length mcdependency < 5 then Inl IndexError
         else if mc \<noteq> mcdependency ! 1 then Inr tds
         else rbind (dict_lookup tds (mcdependency ! 2)) (\<lambda>depdata.
              rbind (dict_lookup (td_build_targets depdata) (mcdependency ! 3)) (\<lambda>providers.
              rbind (first_of providers) (\<lambda>fn.
              rbind (dict_lookup tds mc) (\<lambda>td.
              rbind (dict_lookup (td_taskentries td) tid) (\<lambda>e.
              Inr (dict_set mc (td\<lparr>td_taskentries :=
                     dict_set tid (e\<lparr>te_tdepends := te_tdepends e @ [fn @ '':'' @ mcdependency ! 4]\<rparr>) (td_taskentries td)\<rparr>) tds)))))))"

definition add_mc_dependencies :: "string \<Rightarrow> string \<Rightarrow> taskdatas \<Rightarrow> taskdatas result" where
  "add_mc_dependencies mc tid tds =
     rbind (dict_lookup tds mc) (\<lambda>td. rfold (mc_dependency mc tid) (get_mcdepends td) tds)"

text \<open>\<^verbatim>\<open>flag in task_deps and taskname in task_deps[flag]\<close> with the value.\<close>

definition task_flag :: "taskdeps \<Rightarrow> string \<Rightarrow> string \<Rightarrow> string option" where
  "task_flag task_deps flag taskname =
     (case map_of (tk_flags task_deps) flag of None \<Rightarrow> None | Some d \<Rightarrow> map_of d taskname)"

definition add_tdepend :: "string \<Rightarrow> string list \<Rightarrow> string list result" where
  "add_tdepend t depends =
     rbind (split_tid_mcfn t) (\<lambda>(depmc, depfn, deptaskname, _). Inr (add_new (build_tid depmc depfn deptaskname) depends))"

definition add_idepend :: "taskdata \<Rightarrow> string \<times> string \<Rightarrow> string list \<Rightarrow> string list result" where
  "add_idepend td p depends =
     (case p of (depname, idependtask) \<Rightarrow>
        case dd_get (td_build_targets td) depname of
          [] \<Rightarrow> Inr depends
        | depdata # _ \<Rightarrow>
            if depname \<in> set (td_failed_deps td) then Inr depends
            else let t = depdata @ '':'' @ idependtask
                 in if has_key (td_taskentries td) t then Inr (add_new t depends) else Inl (FatalExit ''RunQueue''))"

definition add_irdepend :: "taskdata \<Rightarrow> string \<times> string \<Rightarrow> string list \<Rightarrow> string list result" where
  "add_irdepend td p depends =
     (case p of (depname, idependtask) \<Rightarrow>
        case dd_get (td_run_targets td) depname of
          [] \<Rightarrow> Inr depends
        | depdata # _ \<Rightarrow>
            let t = depdata @ '':'' @ idependtask
            in if has_key (td_taskentries td) t then Inr (add_new t depends) else Inl (FatalExit ''RunQueue''))"

definition flag_depends ::
    "string option \<Rightarrow> (string list \<Rightarrow> string list \<Rightarrow> string list \<Rightarrow> string list) \<Rightarrow> (string, string list) dict \<Rightarrow> string \<Rightarrow>
     string list \<Rightarrow> string list result" where
  "flag_depends flag add ids taskfn depends =
     (case flag of
        None \<Rightarrow> Inr depends
      | Some v \<Rightarrow> rbind (dict_lookup ids taskfn) (\<lambda>depids. Inr (add depids (split_ws v) depends)))"

text \<open>The dependencies of one task, apart from the recursive ones.\<close>

definition direct_depends ::
    "taskdata \<Rightarrow> taskdeps \<Rightarrow> string \<Rightarrow> string \<Rightarrow> taskentry \<Rightarrow> string list result" where
  "direct_depends td task_deps taskname taskfn e =
     rbind (rfold add_tdepend (te_tdepends e) []) (\<lambda>d1.
     rbind (flag_depends (task_flag task_deps ''deptask'' taskname) (add_build_dependencies td) (td_depids td) taskfn d1) (\<lambda>d2.
     rbind (flag_depends (task_flag task_deps ''rdeptask'' taskname) (add_runtime_dependencies td) (td_rdepids td) taskfn d2) (\<lambda>d3.
     rbind (rfold (add_idepend td) (te_idepends e) d3) (\<lambda>d4.
     rfold (add_irdepend td) (te_irdepends e) d4))))"

definition recursive_depends ::
    "taskdata \<Rightarrow> taskdeps \<Rightarrow> string \<Rightarrow> string \<Rightarrow> string \<Rightarrow> string \<Rightarrow> string \<Rightarrow> string list \<Rightarrow> prep \<Rightarrow> (string list \<times> prep) result" where
  "recursive_depends td task_deps mc fn taskname taskfn tid depends st =
     (case task_flag task_deps ''recrdeptask'' taskname of
        None \<Rightarrow> Inr (depends, st)
      | Some v \<Rightarrow>
          let tasknames = split_ws v
          in rbind (dict_lookup (td_depids td) taskfn) (\<lambda>depids.
             rbind (dict_lookup (td_rdepids td) taskfn) (\<lambda>rdepids.
             Inr (add_runtime_dependencies td rdepids tasknames (add_build_dependencies td depids tasknames depends),
                  st\<lparr>pp_rec := dict_set tid tasknames (pp_rec st),
                     pp_selfref := (if taskname \<in> set tasknames then add_new tid (pp_selfref st) else pp_selfref st),
                     pp_reci := (case task_flag task_deps ''recideptask'' taskname of
                                   None \<Rightarrow> pp_reci st
                                 | Some iv \<Rightarrow> dict_set tid (map (build_tid mc fn) (split_ws iv)) (pp_reci st))\<rparr>))))"

definition prepare_tid :: "datacaches \<Rightarrow> string \<Rightarrow> prep \<Rightarrow> prep result" where
  "prepare_tid dataCaches tid st =
     rbind (split_tid_mcfn tid) (\<lambda>(mc, fn, taskname, taskfn).
     rbind (dict_lookup dataCaches mc) (\<lambda>dc.
     rbind (dict_lookup (dc_task_deps dc) taskfn) (\<lambda>task_deps.
     let st1 = st\<lparr>pp_entries := dict_set tid RunTaskEntry (pp_entries st)\<rparr>
     in rbind (dict_lookup (pp_taskData st1) mc) (\<lambda>td0.
     if fn \<in> set (td_failed_fns td0) then Inr st1
     else rbind (if task_flag task_deps ''mcdepends'' taskname \<noteq> None then add_mc_dependencies mc tid (pp_taskData st1)
                 else Inr (pp_taskData st1)) (\<lambda>tds.
          rbind (dict_lookup tds mc) (\<lambda>td.
          rbind (dict_lookup (td_taskentries td) tid) (\<lambda>e.
          rbind (direct_depends td task_deps taskname taskfn e) (\<lambda>d.
          rbind (recursive_depends td task_deps mc fn taskname taskfn tid d (st1\<lparr>pp_taskData := tds\<rparr>)) (\<lambda>(d', st2).
          Inr (st2\<lparr>pp_entries := dict_set tid (RunTaskEntry\<lparr>re_depends := removeAll tid d'\<rparr>) (pp_entries st2)\<rparr>))))))))))"

definition prepare_mc :: "datacaches \<Rightarrow> string \<Rightarrow> prep \<Rightarrow> prep result" where
  "prepare_mc dataCaches mc st =
     rbind (dict_lookup (pp_taskData st) mc) (\<lambda>td. rfold (prepare_tid dataCaches) (dict_keys (td_taskentries td)) st)"

definition resolve_dependencies :: "datacaches \<Rightarrow> taskdatas \<Rightarrow> prep result" where
  "resolve_dependencies dataCaches tds =
     rfold (prepare_mc dataCaches) (dict_keys tds)
       \<lparr>pp_taskData = tds, pp_entries = [], pp_rec = [], pp_reci = [], pp_selfref = []\<rparr>"

section \<open>Step A: cumulative dependencies\<close>

record cumul =
  cu_deps :: "(string, string list) dict"
  cu_cum :: "(string, string list) dict"
  cu_next :: "string list"

definition add_revdep :: "string \<Rightarrow> string \<Rightarrow> (string, string list) dict \<Rightarrow> (string, string list) dict result" where
  "add_revdep tid dep revdeps =
     rbind (dict_lookup revdeps dep) (\<lambda>r. Inr (dict_set dep (add_new tid r) revdeps))"

definition temp_revdeps :: "rtentries \<Rightarrow> (string, string list) dict result" where
  "temp_revdeps entries =
     rfold (\<lambda>(tid, e). rfold (add_revdep tid) (re_depends e)) entries (map (\<lambda>(tid, e). (tid, [])) entries)"

definition collate_dep :: "string \<Rightarrow> string \<Rightarrow> cumul \<Rightarrow> cumul result" where
  "collate_dep tid dep cu =
     rbind (dict_lookup (cu_cum cu) dep) (\<lambda>c.
     rbind (dict_lookup (cu_cum cu) tid) (\<lambda>ct.
     rbind (dict_lookup (cu_deps cu) dep) (\<lambda>d.
     let c1 = add_new (fn_from_tid tid) c;
         ct1 = (if dep = tid then c1 else ct);
         d' = removeAll tid d
     in Inr (cu\<lparr>cu_cum := dict_set dep (fold add_new ct1 c1) (cu_cum cu),
                cu_deps := dict_set dep d' (cu_deps cu),
                cu_next := (if d' = [] then add_new dep (cu_next cu) else cu_next cu)\<rparr>))))"

definition collate_tid :: "(string, string list) dict \<Rightarrow> string \<Rightarrow> cumul \<Rightarrow> cumul result" where
  "collate_tid revdeps tid cu = rbind (dict_lookup revdeps tid) (\<lambda>rs. rfold (collate_dep tid) rs cu)"

text \<open>The loop over the chain ends; the bound counts its rounds, each of which deals with new tasks.\<close>

fun collate_loop :: "nat \<Rightarrow> (string, string list) dict \<Rightarrow> string list \<Rightarrow> cumul \<Rightarrow> cumul result" where
  "collate_loop 0 revdeps endpoints cu = (if endpoints = [] then Inr cu else Inl RuntimeError)"
| "collate_loop (Suc n) revdeps endpoints cu =
     (if endpoints = [] then Inr cu
      else rbind (rfold (collate_tid revdeps) endpoints (cu\<lparr>cu_next := []\<rparr>)) (\<lambda>cu1. collate_loop n revdeps (cu_next cu1) cu1))"

definition cumulative_deps :: "rtentries \<Rightarrow> (string, string list) dict result" where
  "cumulative_deps entries =
     rbind (temp_revdeps entries) (\<lambda>revdeps.
     rbind (collate_loop (length entries) revdeps (map fst (filter (\<lambda>(tid, e). re_depends e = []) entries))
              \<lparr>cu_deps = map (\<lambda>(tid, e). (tid, re_depends e)) entries, cu_cum = map (\<lambda>(tid, e). (tid, [])) entries, cu_next = []\<rparr>)
       (\<lambda>cu. Inr (cu_cum cu)))"

section \<open>Step A: recursive dependencies\<close>

text \<open>\<open>upd_depends\<close> changes the \<^verbatim>\<open>depends\<close> set of one entry.\<close>

definition upd_depends :: "string \<Rightarrow> (string list \<Rightarrow> string list) \<Rightarrow> rtentries \<Rightarrow> rtentries result" where
  "upd_depends tid f entries =
     rbind (dict_lookup entries tid) (\<lambda>e. Inr (dict_set tid (e\<lparr>re_depends := f (re_depends e)\<rparr>) entries))"

definition total_deps :: "(string, string list) dict \<Rightarrow> string \<Rightarrow> rtentries \<Rightarrow> string list \<Rightarrow> string list" where
  "total_deps reci tid entries depends =
     (case map_of reci tid of
        None \<Rightarrow> depends
      | Some items \<Rightarrow>
          fold (\<lambda>dep ds. case map_of entries dep of None \<Rightarrow> ds | Some e \<Rightarrow> fold add_new (re_depends e) ds) items (fold add_new items depends))"

definition add_recursive :: "string \<Rightarrow> string \<Rightarrow> nat \<times> rtentries \<Rightarrow> (nat \<times> rtentries) result" where
  "add_recursive tid newtid p =
     (case p of (extradeps, entries) \<Rightarrow>
        if newtid = tid then Inr p
        else if \<not> has_key entries newtid then Inr p
        else rbind (dict_lookup entries tid) (\<lambda>e.
             if newtid \<in> set (re_depends e) then Inr p
             else rbind (upd_depends tid (add_new newtid) entries) (\<lambda>entries'. Inr (Suc extradeps, entries'))))"

definition add_rec_of_rec :: "string \<Rightarrow> string list \<Rightarrow> string \<Rightarrow> nat \<times> rtentries \<Rightarrow> (nat \<times> rtentries) result" where
  "add_rec_of_rec tid tasknames newtid p =
     rfold (\<lambda>taskname p.
              if \<not> endswith newtid ('':'' @ taskname) then Inr p
              else if has_key (snd p) newtid
              then rbind (upd_depends tid (add_new newtid) (snd p)) (\<lambda>entries'. Inr (Suc (fst p), entries'))
              else Inr p)
       tasknames p"

definition deps_of_deps :: "rtentries \<Rightarrow> (string, string list) dict \<Rightarrow> string list \<Rightarrow> string list result" where
  "deps_of_deps entries recs depends =
     rfold (\<lambda>dep ds. rbind (dict_lookup entries dep) (\<lambda>e. Inr (fold add_new (filter (\<lambda>d. d \<notin> set depends) (re_depends e)) ds)))
       (filter (has_key recs) depends) []"

definition recursive_tid ::
    "(string, string list) dict \<Rightarrow> (string, string list) dict \<Rightarrow> (string, string list) dict \<Rightarrow> string \<times> string list \<Rightarrow>
     nat \<times> rtentries \<Rightarrow> (nat \<times> rtentries) result" where
  "recursive_tid cum recs reci q p =
     (case q of (tid, tasknames) \<Rightarrow>
        rbind (dict_lookup (snd p) tid) (\<lambda>e.
        let totaldeps = total_deps reci tid (snd p) (re_depends e);
            deps = fold (\<lambda>dep ds. fold add_new (dd_get cum dep) ds) totaldeps []
        in rbind (rfold (\<lambda>t. rfold (\<lambda>taskname. add_recursive tid (t @ '':'' @ taskname)) tasknames) deps p) (\<lambda>p1.
           rbind (dict_lookup (snd p1) tid) (\<lambda>e1.
           rbind (deps_of_deps (snd p1) recs (re_depends e1)) (\<lambda>deps2.
           rfold (add_rec_of_rec tid tasknames) deps2 p1)))))"

definition recursive_pass ::
    "(string, string list) dict \<Rightarrow> (string, string list) dict \<Rightarrow> (string, string list) dict \<Rightarrow> rtentries \<Rightarrow> (nat \<times> rtentries) result" where
  "recursive_pass cum recs reci entries = rfold (recursive_tid cum recs reci) recs (0, entries)"

text \<open>Dependencies the recursive tasks could still get; every pass that adds one lowers their number.\<close>

definition missing :: "rtentries \<Rightarrow> string \<Rightarrow> nat" where
  "missing entries tid = card (set (dict_keys entries) - set (deps_of entries tid))"

definition open_pairs :: "(string, string list) dict \<Rightarrow> rtentries \<Rightarrow> nat" where
  "open_pairs recs entries = (\<Sum>tid \<in> set (dict_keys recs). missing entries tid)"

definition rec_progress :: "(string, string list) dict \<Rightarrow> nat \<times> rtentries \<Rightarrow> nat \<times> rtentries \<Rightarrow> bool" where
  "rec_progress recs p p' \<longleftrightarrow> set (dict_keys (snd p')) = set (dict_keys (snd p)) \<and> fst p \<le> fst p' \<and>
     open_pairs recs (snd p') \<le> open_pairs recs (snd p) \<and> (fst p < fst p' \<longrightarrow> open_pairs recs (snd p') < open_pairs recs (snd p))"

lemma rec_progress_refl: "rec_progress recs p p"
  by (simp add: rec_progress_def)

lemma rec_progress_trans: "rec_progress recs p q \<Longrightarrow> rec_progress recs q r \<Longrightarrow> rec_progress recs p r"
  unfolding rec_progress_def by force

lemma rfold_progress:
  assumes "rfold f xs p = Inr p'" "\<And>x q q'. x \<in> set xs \<Longrightarrow> f x q = Inr q' \<Longrightarrow> rec_progress recs q q'"
  shows "rec_progress recs p p'"
  using rfold_invariant [where I = "rec_progress recs p", OF assms(1) rec_progress_refl] assms(2) rec_progress_trans by blast

lemma upd_depends_Inr:
  assumes "upd_depends tid f entries = Inr entries'"
  shows "set (dict_keys entries') = set (dict_keys entries)" "tid \<in> set (dict_keys entries)"
    "deps_of entries' t = (if t = tid then f (deps_of entries tid) else deps_of entries t)"
proof -
  from assms obtain e where e: "map_of entries tid = Some e" "entries' = dict_set tid (e\<lparr>re_depends := f (re_depends e)\<rparr>) entries"
    by (auto simp: upd_depends_def)
  show k: "tid \<in> set (dict_keys entries)" by (rule map_of_mem [OF e(1)])
  then show "set (dict_keys entries') = set (dict_keys entries)" unfolding e(2) by (simp add: dict_keys_set del: set_map)
  show "deps_of entries' t = (if t = tid then f (deps_of entries tid) else deps_of entries t)"
    using e by (simp add: deps_of_def)
qed

lemma add_dep_progress:
  assumes "upd_depends tid (add_new d) entries = Inr entries'" "has_key entries d" "has_key recs tid" "d \<notin> set (deps_of entries tid)"
  shows "open_pairs recs entries' < open_pairs recs entries"
proof -
  note u = upd_depends_Inr [OF assms(1)]
  have "set (dict_keys entries) - set (deps_of entries' tid) = (set (dict_keys entries) - set (deps_of entries tid)) - {d}"
    unfolding u(3) by auto
  moreover have "d \<in> set (dict_keys entries) - set (deps_of entries tid)" using assms(2,4) by (simp add: has_key_iff del: set_map)
  ultimately have "missing entries' tid < missing entries tid"
    unfolding missing_def u(1) by (simp only: card_Diff1_less finite_Diff finite_set)
  moreover have "missing entries' t = missing entries t" if "t \<noteq> tid" for t using that unfolding missing_def u(1) u(3) by simp
  moreover have "tid \<in> set (dict_keys recs)" using assms(3) by (simp add: has_key_iff del: set_map)
  ultimately show ?thesis unfolding open_pairs_def
    by (intro sum_strict_mono_ex1 ballI bexI [of _ tid]) (simp, metis order_le_less, assumption+)
qed

lemma add_recursive_progress:
  assumes "add_recursive tid newtid p = Inr p'" "has_key recs tid"
  shows "rec_progress recs p p'"
proof -
  obtain x entries where p: "p = (x, entries)" by (cases p)
  from assms(1) consider "p' = p" | e entries' where "map_of entries tid = Some e" "newtid \<notin> set (re_depends e)" "has_key entries newtid"
      "upd_depends tid (add_new newtid) entries = Inr entries'" "p' = (Suc x, entries')"
    unfolding add_recursive_def p by (auto split: if_splits)
  then show ?thesis
  proof cases
    case 2
    with add_dep_progress [OF 2(4,3) assms(2)] upd_depends_Inr(1) [OF 2(4)] show ?thesis
      unfolding rec_progress_def p by (simp add: deps_of_def del: set_map)
  qed (simp add: rec_progress_refl)
qed

text \<open>A dependency of a recursive dependency is new when its turn comes, whatever the number of matching task names.\<close>

lemma add_matching_cases:
  assumes "rfold (\<lambda>n p. if \<not> E n then Inr p
      else if has_key (snd p) newtid then rbind (upd_depends tid (add_new newtid) (snd p)) (\<lambda>entries'. Inr (Suc (fst p), entries')) else Inr p) ns p = Inr p'"
    (is "rfold ?f ns p = _")
  shows "p' = p \<or> (fst p < fst p' \<and> has_key (snd p) newtid \<and>
      set (dict_keys (snd p')) = set (dict_keys (snd p)) \<and> tid \<in> set (dict_keys (snd p)) \<and>
      (\<forall>t. deps_of (snd p') t = (if t = tid then add_new newtid (deps_of (snd p) tid) else deps_of (snd p) t)))"
  using assms
proof (induction ns arbitrary: p)
  case (Cons n ns)
  from Cons.prems obtain p1 where p1: "?f n p = Inr p1" "rfold ?f ns p1 = Inr p'" by auto
  show ?case
  proof (cases "E n \<and> has_key (snd p) newtid")
    case False
    with p1(1) have "p1 = p" by (simp split: if_splits)
    then show ?thesis using Cons.IH [OF p1(2)] by (simp only:)
  next
    case True
    with p1(1) obtain entries' where 2: "has_key (snd p) newtid" "upd_depends tid (add_new newtid) (snd p) = Inr entries'" "p1 = (Suc (fst p), entries')"
      by (cases "upd_depends tid (add_new newtid) (snd p)") simp_all
    note u = upd_depends_Inr [OF 2(2)]
    have "add_new newtid (add_new newtid ds) = add_new newtid ds" for ds by (simp add: add_new_def)
    with Cons.IH [OF p1(2)] 2 u show ?thesis by (elim disjE) (simp_all del: set_map)
  qed
qed simp

lemmas add_rec_of_rec_cases =
  add_matching_cases [where E = "\<lambda>taskname. endswith newtid ('':'' @ taskname)" and newtid = newtid for newtid, folded add_rec_of_rec_def]

lemma add_rec_of_rec_progress:
  assumes "rfold (add_rec_of_rec tid tasknames) ds p = Inr p'" "has_key recs tid" "distinct ds" "set ds \<inter> set (deps_of (snd p) tid) = {}"
  shows "rec_progress recs p p'"
  using assms
proof (induction ds arbitrary: p)
  case (Cons d ds)
  from Cons.prems(1) obtain p1 where p1: "add_rec_of_rec tid tasknames d p = Inr p1" "rfold (add_rec_of_rec tid tasknames) ds p1 = Inr p'" by auto
  have step: "rec_progress recs p p1" and fresh: "set ds \<inter> set (deps_of (snd p1) tid) = {}"
  proof -
    consider "p1 = p" | "fst p < fst p1" "has_key (snd p) d" "set (dict_keys (snd p1)) = set (dict_keys (snd p))" "tid \<in> set (dict_keys (snd p))"
        "\<forall>t. deps_of (snd p1) t = (if t = tid then add_new d (deps_of (snd p) tid) else deps_of (snd p) t)"
      using add_rec_of_rec_cases [OF p1(1)] by blast
    then have "rec_progress recs p p1 \<and> set ds \<inter> set (deps_of (snd p1) tid) = {}"
    proof cases
      case 1
      then show ?thesis using Cons.prems(4) by (auto simp: rec_progress_refl)
    next
      case 2
      obtain e where "map_of (snd p) tid = Some e" using 2(4) has_key_iff [of "snd p" tid] unfolding has_key_def by blast
      then obtain entries' where u: "upd_depends tid (add_new d) (snd p) = Inr entries'" by (simp add: upd_depends_def)
      have "deps_of entries' t = deps_of (snd p1) t" for t using upd_depends_Inr(3) [OF u] 2(5) by simp
      then have "open_pairs recs (snd p1) = open_pairs recs entries'"
        unfolding open_pairs_def missing_def 2(3) upd_depends_Inr(1) [OF u] by simp
      moreover have "open_pairs recs entries' < open_pairs recs (snd p)"
        using add_dep_progress [OF u 2(2) Cons.prems(2)] Cons.prems(4) by auto
      ultimately have "rec_progress recs p p1" using 2(1,3) unfolding rec_progress_def by simp
      moreover have "set ds \<inter> set (deps_of (snd p1) tid) = {}" using 2(5) Cons.prems(3,4) by auto
      ultimately show ?thesis by blast
    qed
    then show "rec_progress recs p p1" "set ds \<inter> set (deps_of (snd p1) tid) = {}" by blast+
  qed
  from Cons.IH [OF p1(2) Cons.prems(2) _ fresh] Cons.prems(3) step show ?case by (auto intro: rec_progress_trans)
qed (simp add: rec_progress_refl)

lemma deps_of_deps_fresh:
  assumes "deps_of_deps entries recs depends = Inr ds"
  shows "distinct ds" "set ds \<inter> set depends = {}"
proof -
  have "distinct ds \<and> set ds \<inter> set depends = {}"
    by (rule rfold_invariant [OF assms [unfolded deps_of_deps_def]])
      (auto simp: set_fold_add_new distinct_fold_add_new)
  then show "distinct ds" "set ds \<inter> set depends = {}" by blast+
qed

lemma recursive_tid_progress:
  assumes "recursive_tid cum recs reci q p = Inr p'" "q \<in> set recs"
  shows "rec_progress recs p p'"
proof -
  obtain tid tasknames where q: "q = (tid, tasknames)" by (cases q)
  have k: "has_key recs tid" using assms(2) unfolding q has_key_iff by force
  from assms(1) obtain e deps p1 e1 ds where
      p1: "rfold (\<lambda>t. rfold (\<lambda>taskname. add_recursive tid (t @ '':'' @ taskname)) tasknames) deps p = Inr p1"
    and e1: "map_of (snd p1) tid = Some e1" and ds: "deps_of_deps (snd p1) recs (re_depends e1) = Inr ds"
    and p': "rfold (add_rec_of_rec tid tasknames) ds p1 = Inr p'"
    unfolding recursive_tid_def q by (auto simp: Let_def)
  have "rec_progress recs p p1"
    by (rule rfold_progress [OF p1], rule rfold_progress, assumption) (auto intro: add_recursive_progress k)
  moreover have "rec_progress recs p1 p'"
    by (rule add_rec_of_rec_progress [OF p' k]) (use deps_of_deps_fresh [OF ds] e1 in \<open>auto simp: deps_of_def\<close>)
  ultimately show ?thesis by (rule rec_progress_trans)
qed

lemma recursive_pass_progress: "recursive_pass cum recs reci entries = Inr p' \<Longrightarrow> rec_progress recs (0, entries) p'"
  unfolding recursive_pass_def by (erule rfold_progress) (rule recursive_tid_progress)

function recursive_loop ::
    "(string, string list) dict \<Rightarrow> (string, string list) dict \<Rightarrow> (string, string list) dict \<Rightarrow> rtentries \<Rightarrow> rtentries result" where
  "recursive_loop cum recs reci entries =
     rbind (recursive_pass cum recs reci entries) (\<lambda>p. if fst p = 0 then Inr (snd p) else recursive_loop cum recs reci (snd p))"
  by pat_completeness auto
termination
  by (relation "measure (\<lambda>(cum, recs, reci, entries). open_pairs recs entries)")
    (auto dest!: recursive_pass_progress simp: rec_progress_def)

declare recursive_loop.simps [simp del]

definition drop_selfrefs :: "string list \<Rightarrow> rtentries \<Rightarrow> rtentries result" where
  "drop_selfrefs selfrefs entries = rfold (\<lambda>tid. upd_depends tid (filter (\<lambda>d. d \<notin> set selfrefs))) selfrefs entries"

text \<open>Step A as a whole.\<close>

definition task_graph :: "datacaches \<Rightarrow> taskdatas \<Rightarrow> prep result" where
  "task_graph dataCaches tds =
     rbind (resolve_dependencies dataCaches tds) (\<lambda>st.
     rbind (cumulative_deps (pp_entries st)) (\<lambda>cum.
     rbind (recursive_loop cum (pp_rec st) (pp_reci st) (pp_entries st)) (\<lambda>entries.
     rbind (drop_selfrefs (pp_selfref st) entries) (\<lambda>entries'.
     Inr (st\<lparr>pp_entries := entries'\<rparr>)))))"

section \<open>Step B: active tasks\<close>

text \<open>\<open>build\<close> is the key set of \<^verbatim>\<open>runq_build\<close>. The bound limits the depth of the recursion, which marks a new task at every level.\<close>

fun mark_active :: "nat \<Rightarrow> rtentries \<Rightarrow> string \<Rightarrow> string list \<Rightarrow> string list result" where
  "mark_active 0 entries tid build = (if tid \<in> set build then Inr build else Inl RuntimeError)"
| "mark_active (Suc n) entries tid build =
     (if tid \<in> set build then Inr build
      else rbind (dict_lookup entries tid) (\<lambda>e. rfold (mark_active n entries) (re_depends e) (build @ [tid])))"

definition mark :: "rtentries \<Rightarrow> string \<Rightarrow> string list \<Rightarrow> string list result" where
  "mark entries = mark_active (Suc (length entries)) entries"

definition invalidate_task ::
    "'g siggen \<Rightarrow> datacaches \<Rightarrow> bool \<Rightarrow> string \<Rightarrow> 'g \<Rightarrow> 'g result" where
  "invalidate_task sg dataCaches error_nostamp tid g =
     rbind (split_tid_mcfn tid) (\<lambda>(mc, fn, taskname, taskfn).
     rbind (dict_lookup dataCaches mc) (\<lambda>dc.
     rbind (dict_lookup (dc_task_deps dc) taskfn) (\<lambda>taskdep.
     if task_flag taskdep ''nostamp'' taskname \<noteq> None
     then (if error_nostamp then Inl (BBHandledException taskname) else Inr g)
     else sg_invalidate sg taskname dc taskfn g)))"

text \<open>One target: the identifiers asked for so far and the marked tasks.\<close>

definition mark_target ::
    "taskdatas \<Rightarrow> rtentries \<Rightarrow> string \<times> string \<times> string \<times> string \<Rightarrow> string list \<times> string list \<Rightarrow> (string list \<times> string list) result" where
  "mark_target tds entries q p =
     (case (q, p) of ((mc, target, task0, fn), (target_tids, build)) \<Rightarrow>
        rbind (dict_lookup tds mc) (\<lambda>td.
        if dd_get (td_build_targets td) target = [] \<or> target \<in> set (td_failed_deps td) then Inr p
        else let parents = endswith task0 ''-'';
                 task = (if parents then butlast task0 else task0)
             in if fn \<in> set (td_failed_fns td) then Inr p
                else let tid = fn @ '':'' @ task;
                         tids = target_tids @ [tid]
                     in if \<not> has_key (td_taskentries td) tid then Inl (FatalExit ''RunQueue'')
                        else if parents
                        then rbind (dict_lookup entries tid) (\<lambda>e. rbind (rfold (mark entries) (re_depends e) build) (\<lambda>build'. Inr (tids, build')))
                        else rbind (mark entries tid build) (\<lambda>build'. Inr (tids, build'))))"

definition mark_targets ::
    "taskdatas \<Rightarrow> (string \<times> string \<times> string \<times> string) list \<Rightarrow> rtentries \<Rightarrow> (string list \<times> string list) result" where
  "mark_targets tds targets entries = rfold (mark_target tds entries) targets ([], [])"

section \<open>Step C: pruning\<close>

definition dict_del :: "'k \<Rightarrow> ('k, 'v) dict \<Rightarrow> ('k, 'v) dict" where
  "dict_del k d = filter (\<lambda>p. fst p \<noteq> k) d"

definition prune_step :: "string list \<Rightarrow> string \<Rightarrow> rtentries \<times> rtentries \<Rightarrow> (rtentries \<times> rtentries) result" where
  "prune_step build tid p =
     (case p of (entries, delcount) \<Rightarrow>
        if tid \<in> set build then Inr p
        else rbind (dict_lookup entries tid) (\<lambda>e. Inr (dict_del tid entries, dict_set tid e delcount)))"

definition prune :: "string list \<Rightarrow> rtentries \<times> rtentries \<Rightarrow> (rtentries \<times> rtentries) result" where
  "prune build p = rfold (prune_step build) (dict_keys (fst p)) p"

definition do_name :: "string \<Rightarrow> string" where
  "do_name task = (if startswith task ''do_'' then task else ''do_'' @ task)"

text \<open>\<^verbatim>\<open>--runall\<close>: for one task name, the tasks of that name of every recipe in the queue, taken back from the pruned ones.\<close>

definition runall_step :: "string \<Rightarrow> rtentries \<Rightarrow> string \<Rightarrow> rtentries \<times> string list \<Rightarrow> rtentries \<times> string list" where
  "runall_step task delcount tid p =
     (case p of (entries, tids) \<Rightarrow>
        let wanttid = fn_from_tid tid @ '':'' @ task;
            entries' = (case map_of delcount wanttid of None \<Rightarrow> entries | Some e \<Rightarrow> dict_set wanttid e entries)
        in (entries', if has_key entries' wanttid then add_new wanttid tids else tids))"

definition mark_and_force ::
    "'g siggen \<Rightarrow> prep_env \<Rightarrow> rtentries \<Rightarrow> string \<Rightarrow> string list \<times> 'g \<Rightarrow> (string list \<times> 'g) result" where
  "mark_and_force sg env entries tid p =
     rbind (mark entries tid (fst p)) (\<lambda>build.
     rbind (if pe_force env then invalidate_task sg (pe_dataCaches env) False tid (snd p) else Inr (snd p)) (\<lambda>g.
     Inr (build, g)))"

definition runall_task ::
    "'g siggen \<Rightarrow> prep_env \<Rightarrow> rtentries \<Rightarrow> string \<Rightarrow> rtentries \<times> string list \<times> 'g \<Rightarrow> (rtentries \<times> string list \<times> 'g) result" where
  "runall_task sg env delcount task p =
     (case p of (entries, q) \<Rightarrow>
        let (entries', tids) = fold (runall_step (do_name task) delcount) (dict_keys entries) (entries, [])
        in rbind (rfold (mark_and_force sg env entries') tids q) (\<lambda>q'. Inr (entries', q')))"

definition handle_runall ::
    "'g siggen \<Rightarrow> prep_env \<Rightarrow> rtentries \<times> rtentries \<Rightarrow> 'g \<Rightarrow> ((rtentries \<times> rtentries) \<times> 'g) result" where
  "handle_runall sg env p g =
     (if pe_runall env = [] then Inr (p, g)
      else rbind (rfold (runall_task sg env (snd p)) (pe_runall env) (fst p, [], g)) (\<lambda>(entries, build, g').
           rbind (prune build (entries, snd p)) (\<lambda>p'.
           if fst p' = [] then Inl (FatalExit ''RunQueue'') else Inr (p', g'))))"

definition has_taskname :: "string \<Rightarrow> string \<Rightarrow> string list \<Rightarrow> string list result" where
  "has_taskname task tid tids = rbind (taskname_from_tid tid) (\<lambda>n. Inr (if n = task then tids @ [tid] else tids))"

definition runonly_task ::
    "'g siggen \<Rightarrow> prep_env \<Rightarrow> rtentries \<Rightarrow> string \<Rightarrow> string list \<times> 'g \<Rightarrow> (string list \<times> 'g) result" where
  "runonly_task sg env entries task q =
     rbind (rfold (has_taskname (do_name task)) (dict_keys entries) []) (\<lambda>tids. rfold (mark_and_force sg env entries) tids q)"

definition handle_runonly ::
    "'g siggen \<Rightarrow> prep_env \<Rightarrow> rtentries \<times> rtentries \<Rightarrow> 'g \<Rightarrow> ((rtentries \<times> rtentries) \<times> 'g) result" where
  "handle_runonly sg env p g =
     (if pe_runonly env = [] then Inr (p, g)
      else rbind (rfold (runonly_task sg env (fst p)) (pe_runonly env) ([], g)) (\<lambda>(build, g').
           rbind (prune build p) (\<lambda>p'.
           if fst p' = [] then Inl (FatalExit ''RunQueue'') else Inr (p', g'))))"

section \<open>Step D: reverse dependencies, end points and weights\<close>

definition add_rev_entry :: "string \<Rightarrow> string \<Rightarrow> rtentries \<Rightarrow> rtentries result" where
  "add_rev_entry tid dep entries =
     rbind (dict_lookup entries dep) (\<lambda>e. Inr (dict_set dep (e\<lparr>re_revdeps := add_new tid (re_revdeps e)\<rparr>) entries))"

definition add_revdeps_of :: "string \<Rightarrow> rtentries \<Rightarrow> rtentries result" where
  "add_revdeps_of tid entries =
     rbind (dict_lookup entries tid) (\<lambda>e. rfold (add_rev_entry tid) (re_depends e) entries)"

definition reverse_deps :: "rtentries \<Rightarrow> rtentries result" where
  "reverse_deps entries = rfold add_revdeps_of (dict_keys entries) entries"

definition find_endpoints :: "rtentries \<Rightarrow> string list result" where
  "find_endpoints entries =
     rfold (\<lambda>(tid, e) endpoints.
              if list_ex (\<lambda>dep. dep \<in> set (re_depends e)) (re_revdeps e) then Inl (FatalExit ''RunQueue'')
              else Inr (if re_revdeps e = [] then endpoints @ [tid] else endpoints))
       entries []"

section \<open>Step D: recipes built twice\<close>

definition note_provides ::
    "string \<Rightarrow> cachedata \<Rightarrow> string \<Rightarrow> string list \<times> (string, string list) dict \<Rightarrow> (string list \<times> (string, string list) dict) result" where
  "note_provides mc dc tid p =
     (case p of (seen_fn, prov_list) \<Rightarrow>
        rbind (split_tid_mcfn tid) (\<lambda>(tidmc, fn, taskname, taskfn).
        if taskfn \<in> set seen_fn \<or> mc \<noteq> tidmc then Inr p
        else rbind (dict_lookup (dc_fn_provides dc) taskfn) (\<lambda>provs.
             Inr (seen_fn @ [taskfn],
                  fold (\<lambda>prov pl. if taskfn \<in> set (dd_get pl prov) then pl else dd_append prov taskfn pl) provs prov_list))))"

definition note_pn :: "cachedata \<Rightarrow> string \<Rightarrow> string list \<Rightarrow> string list result" where
  "note_pn dc fn seen_pn =
     rbind (dict_lookup (dc_pkg_fn dc) fn) (\<lambda>pn. if pn \<in> set seen_pn then Inl (BBHandledException pn) else Inr (seen_pn @ [pn]))"

text \<open>The provides that more than one recipe offers, for which an error message is logged.\<close>

definition check_provide :: "prep_env \<Rightarrow> cachedata \<Rightarrow> string \<times> string list \<Rightarrow> string list \<Rightarrow> string list result" where
  "check_provide env dc q reported =
     (case q of (prov, fns) \<Rightarrow>
        if length fns < 2 \<or> prov \<in> set (pe_multi_whitelist env) then Inr reported
        else rbind (rfold (note_pn dc) fns []) (\<lambda>_. Inr (reported @ [prov])))"

definition check_multi_providers :: "prep_env \<Rightarrow> rtentries \<Rightarrow> string \<times> cachedata \<Rightarrow> string list \<Rightarrow> string list result" where
  "check_multi_providers env entries q reported =
     (case q of (mc, dc) \<Rightarrow>
        rbind (rfold (note_provides mc dc) (dict_keys entries) ([], [])) (\<lambda>(_, prov_list).
        rfold (check_provide env dc) prov_list reported))"

text \<open>An entry of the stamp whitelist that is a build target makes the source read an attribute of the dictionary of databases.\<close>

definition stamp_whitelist :: "prep_env \<Rightarrow> string \<times> taskdata \<Rightarrow> (string, string list) dict \<Rightarrow> (string, string list) dict result" where
  "stamp_whitelist env q wl =
     (case q of (mc, td) \<Rightarrow>
        if list_ex (has_key (td_build_targets td)) (split_ws (pe_stampwhitelist env)) then Inl AttributeError
        else Inr (dict_set mc [] wl))"

section \<open>Step D: setscene tasks, invalidation and hashes\<close>

definition setscene_step :: "taskdatas \<Rightarrow> string \<Rightarrow> string list \<Rightarrow> string list result" where
  "setscene_step tds tid tids =
     rbind (split_tid_mcfn tid) (\<lambda>(mc, fn, taskname, _).
     rbind (dict_lookup tds mc) (\<lambda>td.
     Inr (if has_key (td_taskentries td) (tid @ ''_setscene'') then add_new tid tids else tids)))"

definition invalidate_targets :: "'g siggen \<Rightarrow> prep_env \<Rightarrow> string list \<Rightarrow> 'g \<Rightarrow> 'g result" where
  "invalidate_targets sg env target_tids g =
     rbind (if pe_force env then rfold (invalidate_task sg (pe_dataCaches env) False) target_tids g else Inr g) (\<lambda>g1.
     if pe_invalidate_stamp env = [] then Inr g1
     else rfold (\<lambda>tid. rfold (\<lambda>st. invalidate_task sg (pe_dataCaches env) True (fn_from_tid tid @ '':'' @ do_name st))
                    (split_on (CHR '','') (pe_invalidate_stamp env))) target_tids g1)"

definition resolve_virtuals :: "'g siggen \<Rightarrow> prep_env \<Rightarrow> string \<times> taskdata \<Rightarrow> 'g \<Rightarrow> 'g result" where
  "resolve_virtuals sg env q g =
     (case q of (mc, td) \<Rightarrow>
        rbind (dict_lookup (pe_dataCaches env) mc) (\<lambda>dc.
        let virtmap = get_providermap ''virtual/'' td
        in rbind (rfold (\<lambda>(v, fn) m. rbind (dict_lookup (dc_pkg_fn dc) fn) (\<lambda>pn. Inr (dict_set v pn m))) virtmap []) (\<lambda>virtpnmap.
           sg_tasks_resolved sg virtmap virtpnmap dc g)))"

definition prepare_task_hash :: "'g siggen \<Rightarrow> datacaches \<Rightarrow> string \<Rightarrow> rtentries \<times> 'g \<Rightarrow> (rtentries \<times> 'g) result" where
  "prepare_task_hash sg dataCaches tid p =
     (case p of (entries, g) \<Rightarrow>
        rbind (dict_lookup entries tid) (\<lambda>e.
        rbind (sg_prep_taskhash sg tid (re_depends e) dataCaches g) (\<lambda>g1.
        rbind (sg_get_taskhash sg tid (re_depends e) dataCaches g1) (\<lambda>(h, g2).
        rbind (sg_get_unihash sg tid g2) (\<lambda>(u, g3).
        Inr (dict_set tid (e\<lparr>re_hash := Some h, re_unihash := Some u\<rparr>) entries, g3))))))"

record 'g hash_state =
  hs_dealt :: "string list"
  hs_todeal :: "string list"
  hs_entries :: rtentries
  hs_g :: 'g

definition hash_step :: "'g siggen \<Rightarrow> datacaches \<Rightarrow> string \<Rightarrow> 'g hash_state \<Rightarrow> 'g hash_state result" where
  "hash_step sg dataCaches tid hs =
     rbind (dict_lookup (hs_entries hs) tid) (\<lambda>e.
     if set (re_depends e) \<subseteq> set (hs_dealt hs)
     then rbind (prepare_task_hash sg dataCaches tid (hs_entries hs, hs_g hs)) (\<lambda>(entries, g).
          Inr \<lparr>hs_dealt = hs_dealt hs @ [tid], hs_todeal = removeAll tid (hs_todeal hs), hs_entries = entries, hs_g = g\<rparr>)
     else Inr hs)"

text \<open>\<open>None\<close>: the loop has not ended within the given number of rounds.\<close>

fun hash_loop :: "nat \<Rightarrow> 'g siggen \<Rightarrow> datacaches \<Rightarrow> 'g hash_state \<Rightarrow> 'g hash_state result option" where
  "hash_loop 0 sg dataCaches hs = (if hs_todeal hs = [] then Some (Inr hs) else None)"
| "hash_loop (Suc n) sg dataCaches hs =
     (if hs_todeal hs = [] then Some (Inr hs)
      else case rfold (hash_step sg dataCaches) (hs_todeal hs) hs of
             Inl e \<Rightarrow> Some (Inl e)
           | Inr hs' \<Rightarrow> hash_loop n sg dataCaches hs')"

section \<open>The whole preparation\<close>

record 'g runq =
  q_entries :: rtentries
  q_target_tids :: "string list"
  q_weight :: "(string, int) dict"
  q_setscene_tids :: "string list"
  q_stampfnwhitelist :: "(string, string list) dict"
  q_g :: 'g

text \<open>Steps A to C: the entries that stay in the queue.\<close>

definition active_graph ::
    "'g siggen \<Rightarrow> prep_env \<Rightarrow> taskdatas \<Rightarrow> 'g \<Rightarrow> (taskdatas \<times> string list \<times> rtentries \<times> 'g) result" where
  "active_graph sg env tds g =
     rbind (task_graph (pe_dataCaches env) tds) (\<lambda>st.
     rbind (mark_targets (pp_taskData st) (pe_targets env) (pp_entries st)) (\<lambda>(target_tids, build).
     rbind (prune build (pp_entries st, [])) (\<lambda>p.
     rbind (handle_runall sg env p g) (\<lambda>(p1, g1).
     rbind (handle_runonly sg env p1 g1) (\<lambda>(p2, g2).
     if fst p2 = [] then rbind (dict_lookup (pp_taskData st) []) (\<lambda>td. Inl (FatalExit ''RunQueue''))
     else Inr (pp_taskData st, target_tids, fst p2, g2))))))"

text \<open>Step D up to the hashes.\<close>

definition weighted_graph :: "rtentries \<Rightarrow> (rtentries \<times> (string, int) dict) result" where
  "weighted_graph entries =
     rbind (reverse_deps entries) (\<lambda>entries1.
     rbind (find_endpoints entries1) (\<lambda>endpoints.
     calculate_task_weights entries1 endpoints))"

definition checked_queue :: "'g siggen \<Rightarrow> prep_env \<Rightarrow> taskdatas \<Rightarrow> 'g \<Rightarrow> 'g runq result" where
  "checked_queue sg env tds g =
     rbind (active_graph sg env tds g) (\<lambda>(tds1, target_tids, entries, g1).
     rbind (weighted_graph entries) (\<lambda>(entries1, weight).
     rbind (rfold (check_multi_providers env entries1) (pe_dataCaches env) []) (\<lambda>_.
     rbind (rfold (stamp_whitelist env) tds1 []) (\<lambda>whitelist.
     rbind (if pe_nosetscene env then Inr [] else rfold (setscene_step tds1) (dict_keys entries1) []) (\<lambda>setscene_tids.
     rbind (invalidate_targets sg env target_tids g1) (\<lambda>g2.
     rbind (rfold (resolve_virtuals sg env) tds1 g2) (\<lambda>g3.
     Inr \<lparr>q_entries = entries1, q_target_tids = target_tids, q_weight = weight, q_setscene_tids = setscene_tids,
          q_stampfnwhitelist = whitelist, q_g = sg_set_setscene_tasks sg setscene_tids g3\<rparr>)))))))"

text \<open>
  \<^verbatim>\<open>prepare\<close>: nothing to do (\<open>Inr None\<close>), an exception, or the queue; \<open>None\<close> if the hash loop does not end within \<open>n\<close>
  rounds.
\<close>

definition prepare :: "nat \<Rightarrow> 'g siggen \<Rightarrow> prep_env \<Rightarrow> taskdatas \<Rightarrow> 'g \<Rightarrow> 'g runq option result option" where
  "prepare n sg env tds g =
     (if list_all (\<lambda>(mc, td). td_taskentries td = []) tds then Some (Inr None)
      else case checked_queue sg env tds g of
             Inl e \<Rightarrow> Some (Inl e)
           | Inr q \<Rightarrow>
               map_option (\<lambda>r. rbind r (\<lambda>hs. Inr (Some (q\<lparr>q_entries := hs_entries hs, q_g := hs_g hs\<rparr>))))
                 (hash_loop n sg (pe_dataCaches env)
                    \<lparr>hs_dealt = [], hs_todeal = dict_keys (q_entries q), hs_entries = q_entries q, hs_g = q_g q\<rparr>))"

end
