(* ===== verification/BB_Active.thy ===== *)
theory BB_Active
  imports BB_Prepare
begin

text \<open>
  What steps B to D of the preparation compute: marking reaches exactly the tasks the targets need, pruning keeps exactly the marked
  tasks, and the reverse dependencies make the graph on which the weights are defined.
\<close>

section \<open>Marking\<close>

definition dep_reach :: "rtentries \<Rightarrow> string set \<Rightarrow> string set" where
  "dep_reach entries T = (dep_edges entries)\<^sup>* `` T"

definition deps_closed :: "rtentries \<Rightarrow> bool" where
  "deps_closed entries \<longleftrightarrow> (\<forall>t \<in> set (dict_keys entries). set (deps_of entries t) \<subseteq> set (dict_keys entries))"

lemma deps_of_no_key: "t \<notin> set (dict_keys entries) \<Longrightarrow> deps_of entries t = []"
  using has_key_iff [of entries t] by (auto simp: deps_of_def has_key_def split: option.splits)

lemma dep_edges_iff: "(t, d) \<in> dep_edges entries \<longleftrightarrow> d \<in> set (deps_of entries t)"
  using deps_of_no_key [of t entries] unfolding dep_edges_def by (cases "t \<in> set (dict_keys entries)") (simp_all del: set_map)

lemma dep_reach_mono: "T \<subseteq> U \<Longrightarrow> dep_reach entries T \<subseteq> dep_reach entries U"
  unfolding dep_reach_def by blast

lemma dep_reach_self: "T \<subseteq> dep_reach entries T"
  unfolding dep_reach_def by blast

lemma dep_reach_Un: "dep_reach entries (T \<union> U) = dep_reach entries T \<union> dep_reach entries U"
  unfolding dep_reach_def by blast

lemma dep_reach_deps: "dep_reach entries (set (deps_of entries t)) \<subseteq> dep_reach entries {t}"
  unfolding dep_reach_def using dep_edges_iff [of t _ entries] by (auto intro: converse_rtrancl_into_rtrancl)

lemma dep_reach_least:
  assumes "T \<subseteq> C" "\<And>t. t \<in> C \<Longrightarrow> set (deps_of entries t) \<subseteq> C"
  shows "dep_reach entries T \<subseteq> C"
proof -
  have "u \<in> C" if "(t, u) \<in> (dep_edges entries)\<^sup>*" "t \<in> C" for t u
    using that by (induction rule: rtrancl_induct) (use assms(2) dep_edges_iff in blast)+
  with assms(1) show ?thesis unfolding dep_reach_def by blast
qed

text \<open>What a run of the marking adds: the tasks \<open>T\<close>, only tasks they need, and with a task all it depends on.\<close>

definition marks :: "rtentries \<Rightarrow> string set \<Rightarrow> string list \<Rightarrow> string list \<Rightarrow> bool" where
  "marks entries T build build' \<longleftrightarrow> set build \<subseteq> set build' \<and> T \<subseteq> set build' \<and> set build' \<subseteq> set build \<union> dep_reach entries T \<and>
     (\<forall>u \<in> set build' - set build. u \<in> set (dict_keys entries) \<and> set (deps_of entries u) \<subseteq> set build')"

lemma marks_refl: "T \<subseteq> set build \<Longrightarrow> marks entries T build build"
  unfolding marks_def by blast

lemma marks_trans: "marks entries T b b1 \<Longrightarrow> marks entries U b1 b2 \<Longrightarrow> marks entries (T \<union> U) b b2"
  unfolding marks_def dep_reach_Un by blast

lemma rfold_marks:
  assumes "rfold f ts b = Inr b'" "\<And>t c c'. t \<in> set ts \<Longrightarrow> f t c = Inr c' \<Longrightarrow> marks entries {t} c c'"
  shows "marks entries (set ts) b b'"
  using assms
proof (induction ts arbitrary: b)
  case (Cons t ts)
  from Cons.prems(1) obtain c where c: "f t b = Inr c" "rfold f ts c = Inr b'" by auto
  have "marks entries (set ts) c b'" by (rule Cons.IH [OF c(2)]) (rule Cons.prems(2), auto)
  moreover have "marks entries {t} b c" by (rule Cons.prems(2) [OF _ c(1)]) simp
  ultimately show ?case using marks_trans [of entries "{t}" b c "set ts" b'] by simp
qed (simp add: marks_refl)

lemma mark_active_marks: "mark_active n entries tid b = Inr b' \<Longrightarrow> marks entries {tid} b b'"
proof (induction n arbitrary: tid b b')
  case 0
  then show ?case by (auto split: if_splits intro: marks_refl)
next
  case (Suc n)
  show ?case
  proof (cases "tid \<in> set b")
    case True
    with Suc.prems show ?thesis by (auto intro: marks_refl)
  next
    case False
    with Suc.prems obtain e where e: "map_of entries tid = Some e" "rfold (mark_active n entries) (re_depends e) (b @ [tid]) = Inr b'" by auto
    have m: "marks entries (set (deps_of entries tid)) (b @ [tid]) b'"
      using rfold_marks [OF e(2) Suc.IH] e(1) by (simp add: deps_of_def)
    have k: "tid \<in> set (dict_keys entries)" by (rule map_of_mem [OF e(1)])
    show ?thesis unfolding marks_def
    proof (intro conjI ballI)
      show "set b \<subseteq> set b'" "{tid} \<subseteq> set b'" using m unfolding marks_def by auto
      show "set b' \<subseteq> set b \<union> dep_reach entries {tid}"
        using m dep_reach_deps [of entries tid] dep_reach_self [of "{tid}" entries] unfolding marks_def by auto
      show "u \<in> set (dict_keys entries)" "set (deps_of entries u) \<subseteq> set b'" if "u \<in> set b' - set b" for u
        using m that k unfolding marks_def by (cases "u = tid"; auto)+
    qed
  qed
qed

lemma marks_closed:
  assumes "marks entries T b b'" "\<And>t. t \<in> set b \<Longrightarrow> set (deps_of entries t) \<subseteq> set b"
  shows "set b' = set b \<union> dep_reach entries T"
proof
  show "set b' \<subseteq> set b \<union> dep_reach entries T" using assms(1) unfolding marks_def by blast
  have "set (deps_of entries t) \<subseteq> set b'" if "t \<in> set b'" for t
    using assms that unfolding marks_def by (cases "t \<in> set b") blast+
  then have "dep_reach entries T \<subseteq> set b'" using assms(1) unfolding marks_def by (intro dep_reach_least) auto
  with assms(1) show "set b \<union> dep_reach entries T \<subseteq> set b'" unfolding marks_def by blast
qed

text \<open>On a closed graph the depth bound is never met.\<close>

lemma card_less_marked:
  assumes "t \<in> K" "t \<notin> set b" "finite K"
  shows "card (K - set (b @ [t])) < card (K - set b)"
proof -
  have "K - set (b @ [t]) = (K - set b) - {t}" by auto
  with assms show ?thesis by (simp only: card_Diff1_less Diff_iff finite_Diff not_False_eq_True simp_thms)
qed

lemma mark_active_total:
  assumes "deps_closed entries"
  shows "tid \<in> set (dict_keys entries) \<Longrightarrow> card (set (dict_keys entries) - set b) < n \<Longrightarrow> \<exists>b'. mark_active n entries tid b = Inr b'"
proof (induction n arbitrary: tid b)
  case (Suc n)
  let ?K = "set (dict_keys entries)"
  show ?case
  proof (cases "tid \<in> set b")
    case False
    obtain e where e: "map_of entries tid = Some e" using Suc.prems(1) has_key_iff [of entries tid] unfolding has_key_def by blast
    have ds: "set (re_depends e) \<subseteq> ?K" using assms Suc.prems(1) e unfolding deps_closed_def deps_of_def by fastforce
    have less: "card (?K - set (b @ [tid])) < n" using card_less_marked [OF Suc.prems(1) False] Suc.prems(2) by simp
    have "\<exists>b'. rfold (mark_active n entries) ds c = Inr b'" if "set ds \<subseteq> ?K" "card (?K - set c) < n" for ds c
      using that
    proof (induction ds arbitrary: c)
      case (Cons d ds)
      from Suc.IH [of d c] Cons.prems obtain c1 where c1: "mark_active n entries d c = Inr c1" by auto
      then have "set c \<subseteq> set c1" using mark_active_marks [OF c1] unfolding marks_def by blast
      then have "card (?K - set c1) \<le> card (?K - set c)" by (intro card_mono) auto
      with Cons.IH [of c1] Cons.prems c1 show ?case by auto
    qed simp
    from this [OF ds less] e False show ?thesis by (simp add: dict_lookup_Some)
  qed simp
qed simp

lemma mark_total:
  assumes "deps_closed entries" "tid \<in> set (dict_keys entries)"
  shows "\<exists>b'. mark entries tid b = Inr b'"
proof -
  have "card (set (dict_keys entries) - set b) \<le> card (set (dict_keys entries))" by (intro card_mono) auto
  also have "\<dots> \<le> length entries" using card_length [of "dict_keys entries"] by simp
  finally show ?thesis using mark_active_total [OF assms] by (simp add: mark_def del: mark_active.simps)
qed

lemma mark_marks: "mark entries tid b = Inr b' \<Longrightarrow> marks entries {tid} b b'"
  unfolding mark_def by (rule mark_active_marks)

text \<open>The tasks a target asks for: none if it cannot be built, its dependencies for \<^verbatim>\<open>task-\<close>, otherwise the task itself.\<close>

definition target_roots :: "taskdatas \<Rightarrow> rtentries \<Rightarrow> string \<times> string \<times> string \<times> string \<Rightarrow> string set" where
  "target_roots tds entries q =
     (case q of (mc, target, task, fn) \<Rightarrow>
        case map_of tds mc of
          None \<Rightarrow> {}
        | Some td \<Rightarrow>
            if dd_get (td_build_targets td) target = [] \<or> target \<in> set (td_failed_deps td) \<or> fn \<in> set (td_failed_fns td) then {}
            else if endswith task ''-'' then set (deps_of entries (fn @ '':'' @ butlast task))
            else {fn @ '':'' @ task})"

lemma mark_target_marks:
  assumes "mark_target tds entries q (tids, b) = Inr (tids', b')"
  shows "marks entries (target_roots tds entries q) b b'"
proof -
  obtain mc target task fn where q: "q = (mc, target, task, fn)" by (cases q)
  from assms obtain td where td: "map_of tds mc = Some td" by (auto simp: mark_target_def q split: if_splits)
  show ?thesis
  proof (cases "dd_get (td_build_targets td) target = [] \<or> target \<in> set (td_failed_deps td) \<or> fn \<in> set (td_failed_fns td)")
    case True
    with assms td have "b' = b" by (auto simp: mark_target_def q dict_lookup_Some Let_def split: if_splits)
    with True td show ?thesis by (simp add: target_roots_def q marks_refl)
  next
    case False
    show ?thesis
    proof (cases "endswith task ''-''")
      case True
      with assms td False obtain e where "map_of entries (fn @ '':'' @ butlast task) = Some e" "rfold (mark entries) (re_depends e) b = Inr b'"
        by (auto simp: mark_target_def q dict_lookup_Some Let_def split: if_splits)
      moreover from this have "marks entries (set (re_depends e)) b b'" by (elim rfold_marks) (rule mark_marks)
      ultimately show ?thesis using True td False by (simp add: target_roots_def q deps_of_def)
    next
      case no: False
      with assms td False have "mark entries (fn @ '':'' @ task) b = Inr b'"
        by (auto simp: mark_target_def q dict_lookup_Some Let_def split: if_splits)
      with mark_marks no td False show ?thesis by (simp add: target_roots_def q)
    qed
  qed
qed

lemma mark_targets_from:
  assumes "mark_targets tds targets entries = Inr (tids, b)"
  shows "marks entries (\<Union>q \<in> set targets. target_roots tds entries q) [] b"
proof -
  have "marks entries (\<Union>q \<in> set qs. target_roots tds entries q) c b"
    if "rfold (mark_target tds entries) qs (ids, c) = Inr (tids, b)" for qs ids c
    using that
  proof (induction qs arbitrary: ids c)
    case (Cons q qs)
    then obtain ids1 c1 where c1: "mark_target tds entries q (ids, c) = Inr (ids1, c1)" "rfold (mark_target tds entries) qs (ids1, c1) = Inr (tids, b)"
      by auto
    from marks_trans [OF mark_target_marks [OF c1(1)] Cons.IH [OF c1(2)]] show ?case by simp
  qed (simp add: marks_refl)
  from this [OF assms [unfolded mark_targets_def]] show ?thesis .
qed

lemma mark_targets_marks:
  assumes "mark_targets tds targets entries = Inr (tids, b)"
  shows "set b = dep_reach entries (\<Union>q \<in> set targets. target_roots tds entries q)" "set b \<subseteq> set (dict_keys entries)"
proof -
  note m = mark_targets_from [OF assms]
  from marks_closed [OF m] show "set b = dep_reach entries (\<Union>q \<in> set targets. target_roots tds entries q)" by simp
  from m show "set b \<subseteq> set (dict_keys entries)" unfolding marks_def by auto
qed

section \<open>Pruning\<close>

lemma dict_del_filter: "dict_del k (filter P d) = filter (\<lambda>p. P p \<and> fst p \<noteq> k) d"
  by (simp add: dict_del_def conj_commute)

lemma prune_exact:
  assumes "dict_wf entries" "prune build (entries, del) = Inr p"
  shows "fst p = filter (\<lambda>q. fst q \<in> set build) entries"
proof -
  have "fst p = filter (\<lambda>q. fst q \<in> set build \<or> fst q \<notin> set ts) es"
    if "rfold (prune_step build) ts (es, del) = Inr p" for ts es del
    using that
  proof (induction ts arbitrary: es del)
    case (Cons t ts)
    then obtain es1 del1 where s: "prune_step build t (es, del) = Inr (es1, del1)" "rfold (prune_step build) ts (es1, del1) = Inr p" by auto
    have "es1 = (if t \<in> set build then es else dict_del t es)" using s(1) by (auto simp: prune_step_def split: if_splits)
    with Cons.IH [OF s(2)] show ?case by (auto simp: dict_del_def intro!: filter_cong)
  qed auto
  from this [OF assms(2) [unfolded prune_def]] show ?thesis by (auto intro!: filter_cong)
qed

lemma map_of_filter_keys: "map_of (filter (\<lambda>q. fst q \<in> A) d) k = (if k \<in> A then map_of d k else None)"
  by (induction d) auto

text \<open>The queue before the reverse dependencies are entered.\<close>

definition queue_wf :: "rtentries \<Rightarrow> bool" where
  "queue_wf entries \<longleftrightarrow> dict_wf entries \<and> deps_closed entries \<and>
     (\<forall>t \<in> set (dict_keys entries). distinct (deps_of entries t) \<and> revs_of entries t = [])"

lemma queue_wf_restrict:
  assumes "queue_wf entries" "\<And>t. t \<in> A \<Longrightarrow> set (deps_of entries t) \<subseteq> A" "A \<subseteq> set (dict_keys entries)"
  shows "queue_wf (filter (\<lambda>q. fst q \<in> A) entries)"
proof -
  let ?es = "filter (\<lambda>q. fst q \<in> A) entries"
  have keys: "set (dict_keys ?es) = A" using assms(3) by auto
  have same: "deps_of ?es t = deps_of entries t" "revs_of ?es t = revs_of entries t" if "t \<in> A" for t
    using that by (simp_all add: deps_of_def revs_of_def map_of_filter_keys)
  have "dict_wf ?es" using assms(1) unfolding queue_wf_def by (simp add: distinct_map_filter)
  then show ?thesis
    using assms same unfolding queue_wf_def deps_closed_def keys by auto
qed

section \<open>Reverse dependencies\<close>

text \<open>While the loop runs: the entries of the tasks \<open>D\<close> have been reversed, plus some of the edges \<open>X\<close> of the current one.\<close>

definition revs_inv :: "rtentries \<Rightarrow> (string \<times> string) set \<Rightarrow> rtentries \<Rightarrow> bool" where
  "revs_inv entries E es \<longleftrightarrow> dict_keys es = dict_keys entries \<and>
     (\<forall>t \<in> set (dict_keys entries). deps_of es t = deps_of entries t \<and> distinct (revs_of es t) \<and> set (revs_of es t) = {u. (u, t) \<in> E})"

lemma add_rev_entry_inv:
  assumes "revs_inv entries E es" "d \<in> set (dict_keys entries)"
  shows "\<exists>es'. add_rev_entry tid d es = Inr es' \<and> revs_inv entries (insert (tid, d) E) es'"
proof -
  have k: "dict_keys es = dict_keys entries" using assms(1) unfolding revs_inv_def by blast
  obtain e where e: "map_of es d = Some e" using assms(2) has_key_iff [of es d] k unfolding has_key_def by (metis not_None_eq)
  let ?es = "dict_set d (e\<lparr>re_revdeps := add_new tid (re_revdeps e)\<rparr>) es"
  have r: "revs_of ?es t = (if t = d then add_new tid (revs_of es d) else revs_of es t)" "deps_of ?es t = deps_of es t" for t
    using e by (simp_all add: revs_of_def deps_of_def)
  have "dict_keys ?es = dict_keys entries" using assms(2) k by (simp add: dict_keys_set del: set_map)
  then have "revs_inv entries (insert (tid, d) E) ?es"
    using assms(1) unfolding revs_inv_def r by auto
  with e show ?thesis by (simp add: add_rev_entry_def dict_lookup_Some)
qed

lemma add_rev_entries_inv:
  "revs_inv entries E es \<Longrightarrow> set ds \<subseteq> set (dict_keys entries) \<Longrightarrow>
   \<exists>es'. rfold (add_rev_entry tid) ds es = Inr es' \<and> revs_inv entries (E \<union> {tid} \<times> set ds) es'"
proof (induction ds arbitrary: E es)
  case (Cons d ds)
  from add_rev_entry_inv [OF Cons.prems(1), of d tid] Cons.prems(2) obtain es1
    where es1: "add_rev_entry tid d es = Inr es1" "revs_inv entries (insert (tid, d) E) es1" by auto
  have "insert (tid, d) E \<union> {tid} \<times> set ds = E \<union> {tid} \<times> set (d # ds)" by auto
  with Cons.IH [OF es1(2)] Cons.prems(2) es1(1) show ?case by auto
qed simp

lemma reverse_deps_inv:
  assumes "queue_wf entries" "set ts \<subseteq> set (dict_keys entries)" "revs_inv entries E es"
  shows "\<exists>es'. rfold add_revdeps_of ts es = Inr es' \<and> revs_inv entries (E \<union> {(t, d). t \<in> set ts \<and> d \<in> set (deps_of entries t)}) es'"
  using assms(2,3)
proof (induction ts arbitrary: E es)
  case (Cons t ts)
  have k: "dict_keys es = dict_keys entries" and d: "deps_of es t = deps_of entries t"
    using Cons.prems unfolding revs_inv_def by auto
  obtain e where e: "map_of es t = Some e" using Cons.prems(1) has_key_iff [of es t] k unfolding has_key_def by (metis not_None_eq list.set_intros(1) subsetD)
  have re: "re_depends e = deps_of entries t" using d e by (simp add: deps_of_def)
  have "set (re_depends e) \<subseteq> set (dict_keys entries)"
    using assms(1) Cons.prems(1) unfolding queue_wf_def deps_closed_def re by (simp del: set_map)
  from add_rev_entries_inv [OF Cons.prems(2) this, of t] obtain es1
    where es1: "rfold (add_rev_entry t) (re_depends e) es = Inr es1" "revs_inv entries (E \<union> {t} \<times> set (re_depends e)) es1" by blast
  from re have "E \<union> {t} \<times> set (re_depends e) \<union> {(t, d). t \<in> set ts \<and> d \<in> set (deps_of entries t)} =
      E \<union> {(u, d). u \<in> set (t # ts) \<and> d \<in> set (deps_of entries u)}" by auto
  with Cons.IH [OF _ es1(2)] Cons.prems(1) es1(1) e show ?case by (auto simp: add_revdeps_of_def dict_lookup_Some)
qed simp

lemma reverse_deps_graph_ok:
  assumes "queue_wf entries"
  shows "\<exists>es. reverse_deps entries = Inr es \<and> graph_ok es \<and> dict_keys es = dict_keys entries \<and> dep_edges es = dep_edges entries"
proof -
  have "revs_inv entries {} entries" using assms unfolding queue_wf_def revs_inv_def by auto
  from reverse_deps_inv [OF assms order_refl this] obtain es
    where es: "reverse_deps entries = Inr es" "revs_inv entries (dep_edges entries) es"
    by (auto simp: reverse_deps_def dep_edges_def)
  have k: "dict_keys es = dict_keys entries" using es(2) unfolding revs_inv_def by blast
  have same: "deps_of es t = deps_of entries t" for t
    using es(2) deps_of_no_key [of t es] deps_of_no_key [of t entries] k unfolding revs_inv_def by (cases "t \<in> set (dict_keys entries)") auto
  then have "dep_edges es = dep_edges entries" by (auto simp: dep_edges_iff)
  moreover have "graph_ok es"
    using assms es(2) unfolding graph_ok_def queue_wf_def deps_closed_def revs_inv_def k same
    by (simp add: dep_edges_def subset_iff del: set_map)
  ultimately show ?thesis using es(1) k by blast
qed

section \<open>End points and weights\<close>

lemma find_endpoints_eq:
  "find_endpoints entries =
     (if \<exists>(tid, e) \<in> set entries. set (re_revdeps e) \<inter> set (re_depends e) \<noteq> {} then Inl (FatalExit ''RunQueue'')
      else Inr (map fst (filter (\<lambda>(tid, e). re_revdeps e = []) entries)))"
proof -
  have "rfold (\<lambda>(tid, e) endpoints.
              if list_ex (\<lambda>dep. dep \<in> set (re_depends e)) (re_revdeps e) then Inl x
              else Inr (if re_revdeps e = [] then endpoints @ [tid] else endpoints)) es acc =
      (if \<exists>(tid, e) \<in> set es. set (re_revdeps e) \<inter> set (re_depends e) \<noteq> {} then Inl x
       else Inr (acc @ map fst (filter (\<lambda>(tid, e). re_revdeps e = []) es)))" for es :: rtentries and acc x
  proof (induction es arbitrary: acc)
    case (Cons p es)
    obtain tid e where p: "p = (tid, e)" by (cases p)
    have "list_ex (\<lambda>dep. dep \<in> set (re_depends e)) (re_revdeps e) \<longleftrightarrow> set (re_revdeps e) \<inter> set (re_depends e) \<noteq> {}"
      by (auto simp: list_ex_iff)
    with Cons.IH show ?case by (simp add: p)
  qed simp
  then show ?thesis by (simp add: find_endpoints_def)
qed

lemma endpoints_of_filter: "dict_wf entries \<Longrightarrow> map fst (filter (\<lambda>(tid, e). re_revdeps e = []) entries) = endpoints_of entries"
proof -
  assume wf: "dict_wf entries"
  have "map fst (filter (\<lambda>(tid, e). re_revdeps e = []) es) = filter (\<lambda>t. revs_of entries t = []) (map fst es)" if "set es \<subseteq> set entries" for es
    using that wf by (induction es) (auto simp: revs_of_def)
  then show ?thesis by (simp add: endpoints_of_def)
qed

lemma assign_weights_graph: "deps_of (assign_weights st es) t = deps_of es t" "revs_of (assign_weights st es) t = revs_of es t"
    "dict_keys (assign_weights st es) = dict_keys es"
proof -
  have "map_of (assign_weights st es) t = map_option (\<lambda>e. e\<lparr>re_weight := the (map_of (ws_weight st) t)\<rparr>) (map_of es t)"
    unfolding assign_weights_def by (induction es) auto
  then show "deps_of (assign_weights st es) t = deps_of es t" "revs_of (assign_weights st es) t = revs_of es t"
    by (auto simp: deps_of_def revs_of_def split: option.splits)
  show "dict_keys (assign_weights st es) = dict_keys es" by (simp add: assign_weights_def split_def)
qed

text \<open>What step D makes of a closed queue.\<close>

lemma weighted_graph_acyclic:
  assumes "queue_wf entries"
  shows "if acyclic (dep_edges entries)
    then \<exists>es w. weighted_graph entries = Inr (es, w) \<and> graph_ok es \<and> dict_keys es = dict_keys entries \<and> dep_edges es = dep_edges entries
    else weighted_graph entries = Inl (FatalExit ''RunQueue'')"
proof -
  from reverse_deps_graph_ok [OF assms] obtain es where
    es: "reverse_deps entries = Inr es" "graph_ok es" "dict_keys es = dict_keys entries" "dep_edges es = dep_edges entries" by blast
  have wf: "dict_wf es" using es(2) unfolding graph_ok_def by blast
  have loop2: "\<not> acyclic (dep_edges es)" if "\<exists>(tid, e) \<in> set es. set (re_revdeps e) \<inter> set (re_depends e) \<noteq> {}"
  proof -
    from that obtain t e d where t: "(t, e) \<in> set es" "d \<in> set (re_revdeps e)" "d \<in> set (re_depends e)" by auto
    then have m: "map_of es t = Some e" using wf by simp
    then have "(t, d) \<in> dep_edges es" using t(3) by (simp add: dep_edges_iff deps_of_def)
    moreover have "(d, t) \<in> dep_edges es"
      using dep_edges_revs [OF es(2) map_of_mem [OF m]] t(2) m by (simp add: revs_of_def)
    ultimately show ?thesis unfolding acyclic_def by (meson trancl.r_into_trancl trancl_trans)
  qed
  show ?thesis
  proof (cases "acyclic (dep_edges entries)")
    case True
    then have "\<not> (\<exists>(tid, e) \<in> set es. set (re_revdeps e) \<inter> set (re_depends e) \<noteq> {})" using loop2 unfolding es(4) by (rule contrapos_pn)
    then have "find_endpoints es = Inr (endpoints_of es)" unfolding find_endpoints_eq endpoints_of_filter [OF wf] by (simp only: if_False)
    moreover have "\<forall>t \<in> set (dict_keys es). schedulable es t" using True es(4) acyclic_iff_schedulable [OF es(2)] by simp
    then obtain st where "calculate_task_weights es (endpoints_of es) = Inr (assign_weights st es, ws_weight st)"
      using weights_result [OF es(2)] by metis
    moreover have "graph_ok (assign_weights st es)" for st using es(2) unfolding graph_ok_def assign_weights_graph .
    moreover have "dep_edges (assign_weights st es) = dep_edges entries" for st
      unfolding es(4) [symmetric] by (auto simp: dep_edges_iff assign_weights_graph)
    ultimately show ?thesis using True es(1,3) by (simp add: weighted_graph_def assign_weights_graph)
  next
    case False
    then have "calculate_task_weights es (endpoints_of es) = Inl (FatalExit ''RunQueue'')"
      using unschedulable_fatal [OF es(2)] es(4) by simp
    with False es(1) endpoints_of_filter [OF wf] show ?thesis by (simp add: weighted_graph_def find_endpoints_eq)
  qed
qed

end
