(* ===== verification/BB_Hashes.thy ===== *)
theory BB_Hashes
  imports BB_Active
begin

text \<open>
  The last loop of the preparation hands every task to the signature generator once, after all tasks it depends on.
\<close>

definition hash_inv ::
    "'g siggen \<Rightarrow> datacaches \<Rightarrow> rtentries \<Rightarrow> 'g \<Rightarrow> 'g hash_state \<Rightarrow> bool" where
  "hash_inv sg dcs entries g hs \<longleftrightarrow> dict_keys (hs_entries hs) = dict_keys entries \<and>
     (\<forall>t. deps_of (hs_entries hs) t = deps_of entries t \<and> revs_of (hs_entries hs) t = revs_of entries t) \<and>
     distinct (hs_dealt hs @ hs_todeal hs) \<and> set (hs_dealt hs @ hs_todeal hs) = set (dict_keys entries) \<and>
     (\<forall>i < length (hs_dealt hs). set (deps_of entries (hs_dealt hs ! i)) \<subseteq> set (take i (hs_dealt hs))) \<and>
     rfold (prepare_task_hash sg dcs) (hs_dealt hs) (entries, g) = Inr (hs_entries hs, hs_g hs)"

lemma hash_invD:
  assumes "hash_inv sg dcs entries g hs"
  shows "dict_keys (hs_entries hs) = dict_keys entries" "deps_of (hs_entries hs) t = deps_of entries t"
    "distinct (hs_dealt hs @ hs_todeal hs)" "set (hs_dealt hs @ hs_todeal hs) = set (dict_keys entries)"
    "i < length (hs_dealt hs) \<Longrightarrow> set (deps_of entries (hs_dealt hs ! i)) \<subseteq> set (take i (hs_dealt hs))"
    "rfold (prepare_task_hash sg dcs) (hs_dealt hs) (entries, g) = Inr (hs_entries hs, hs_g hs)"
    "revs_of (hs_entries hs) t = revs_of entries t"
  using assms unfolding hash_inv_def by blast+

lemma prepare_task_hash_same:
  assumes "prepare_task_hash sg dcs tid (es, g) = Inr (es', g')"
  shows "dict_keys es' = dict_keys es" "deps_of es' t = deps_of es t" "revs_of es' t = revs_of es t"
proof -
  from assms obtain e h u where e: "map_of es tid = Some e" "es' = dict_set tid (e\<lparr>re_hash := Some h, re_unihash := Some u\<rparr>) es"
    by (auto simp: prepare_task_hash_def)
  have "tid \<in> set (dict_keys es)" by (rule map_of_mem [OF e(1)])
  then show "dict_keys es' = dict_keys es" unfolding e(2) by (simp add: dict_keys_set del: set_map)
  show "deps_of es' t = deps_of es t" "revs_of es' t = revs_of es t" using e by (simp_all add: deps_of_def revs_of_def)
qed

lemma hash_step_inv:
  assumes "hash_inv sg dcs entries g hs" "tid \<in> set (hs_todeal hs)" "hash_step sg dcs tid hs = Inr hs'"
  shows "hash_inv sg dcs entries g hs' \<and> hs_todeal hs' = (if tid \<in> set (hs_dealt hs') then removeAll tid (hs_todeal hs) else hs_todeal hs) \<and>
    (set (deps_of entries tid) \<subseteq> set (hs_dealt hs) \<longrightarrow> tid \<in> set (hs_dealt hs')) \<and> set (hs_dealt hs) \<subseteq> set (hs_dealt hs')"
proof -
  note i = hash_invD [OF assms(1)]
  have fresh: "tid \<notin> set (hs_dealt hs)" using i(3) assms(2) by auto
  from assms(3) obtain e where e: "map_of (hs_entries hs) tid = Some e" by (auto simp: hash_step_def)
  have d: "re_depends e = deps_of entries tid" using i(2) [of tid] e by (simp add: deps_of_def)
  show ?thesis
  proof (cases "set (deps_of entries tid) \<subseteq> set (hs_dealt hs)")
    case False
    then have "hs' = hs" using assms(3) e d by (simp add: hash_step_def dict_lookup_Some)
    with False fresh assms(1) show ?thesis by simp
  next
    case True
    with assms(3) e d obtain es g' where p: "prepare_task_hash sg dcs tid (hs_entries hs, hs_g hs) = Inr (es, g')"
      and hs': "hs' = \<lparr>hs_dealt = hs_dealt hs @ [tid], hs_todeal = removeAll tid (hs_todeal hs), hs_entries = es, hs_g = g'\<rparr>"
      by (auto simp: hash_step_def dict_lookup_Some)
    have "hash_inv sg dcs entries g hs'"
      unfolding hash_inv_def hs'
    proof (simp only: hash_state.simps, intro conjI allI impI)
      show "dict_keys es = dict_keys entries" "deps_of es t = deps_of entries t" "revs_of es t = revs_of entries t" for t
        using prepare_task_hash_same [OF p] i(1,2,7) by simp_all
      show "distinct ((hs_dealt hs @ [tid]) @ removeAll tid (hs_todeal hs))" using i(3) fresh by (auto simp: distinct_removeAll)
      show "set ((hs_dealt hs @ [tid]) @ removeAll tid (hs_todeal hs)) = set (dict_keys entries)" using i(4) assms(2) by auto
      show "rfold (prepare_task_hash sg dcs) (hs_dealt hs @ [tid]) (entries, g) = Inr (es, g')"
        using i(6) p by (simp add: rfold_append)
      show "set (deps_of entries ((hs_dealt hs @ [tid]) ! j)) \<subseteq> set (take j (hs_dealt hs @ [tid]))" if "j < length (hs_dealt hs @ [tid])" for j
        using that i(5) [of j] True by (cases "j < length (hs_dealt hs)") (auto simp: nth_append)
    qed
    then show ?thesis unfolding hs' by (simp add: subset_insertI)
  qed
qed

lemma hash_round:
  assumes "hash_inv sg dcs entries g hs" "set ts \<subseteq> set (hs_todeal hs)" "distinct ts" "rfold (hash_step sg dcs) ts hs = Inr hs'"
  shows "hash_inv sg dcs entries g hs' \<and> set (hs_dealt hs) \<subseteq> set (hs_dealt hs') \<and>
    (\<forall>t \<in> set ts. set (deps_of entries t) \<subseteq> set (hs_dealt hs) \<longrightarrow> t \<in> set (hs_dealt hs'))"
  using assms
proof (induction ts arbitrary: hs)
  case (Cons t ts)
  from Cons.prems(4) obtain hs1 where hs1: "hash_step sg dcs t hs = Inr hs1" "rfold (hash_step sg dcs) ts hs1 = Inr hs'" by auto
  have s: "hash_inv sg dcs entries g hs1"
      "hs_todeal hs1 = (if t \<in> set (hs_dealt hs1) then removeAll t (hs_todeal hs) else hs_todeal hs)"
      "set (deps_of entries t) \<subseteq> set (hs_dealt hs) \<longrightarrow> t \<in> set (hs_dealt hs1)" "set (hs_dealt hs) \<subseteq> set (hs_dealt hs1)"
    using hash_step_inv [OF Cons.prems(1) _ hs1(1)] Cons.prems(2) by simp_all
  have "set ts \<subseteq> set (hs_todeal hs1)" using s(2) Cons.prems(2,3) by auto
  from Cons.IH [OF s(1) this _ hs1(2)] Cons.prems(3) s(3,4) show ?case by auto
qed simp

text \<open>In an acyclic graph some task of the rest depends on finished tasks only.\<close>

lemma ready_task:
  assumes "hash_inv sg dcs entries g hs" "deps_closed entries" "acyclic (dep_edges entries)" "hs_todeal hs \<noteq> []"
  shows "\<exists>t \<in> set (hs_todeal hs). set (deps_of entries t) \<subseteq> set (hs_dealt hs)"
proof -
  have "finite (dep_edges entries)"
    by (rule finite_subset [of _ "set (dict_keys entries) \<times> set (dict_keys entries)"])
      (use assms(2) in \<open>auto simp: dep_edges_def deps_closed_def simp del: set_map\<close>)
  then have "wf ((dep_edges entries)\<inverse>)" using assms(3) by (rule finite_acyclic_wf_converse)
  then obtain t where t: "t \<in> set (hs_todeal hs)" "\<And>d. (t, d) \<in> dep_edges entries \<Longrightarrow> d \<notin> set (hs_todeal hs)"
    using wfE_min [of "(dep_edges entries)\<inverse>" "hd (hs_todeal hs)" "set (hs_todeal hs)"] assms(4) by (metis converse_iff list.set_sel(1))
  have k: "t \<in> set (dict_keys entries)" using t(1) hash_invD(4) [OF assms(1)] by auto
  then have "set (deps_of entries t) \<subseteq> set (hs_dealt hs @ hs_todeal hs)"
    using assms(2) hash_invD(4) [OF assms(1)] unfolding deps_closed_def by blast
  with t(2) t(1) show ?thesis unfolding dep_edges_iff by auto
qed

lemma hash_loop_ends:
  assumes "deps_closed entries" "acyclic (dep_edges entries)"
  shows "hash_inv sg dcs entries g hs \<Longrightarrow> length (hs_todeal hs) \<le> n \<Longrightarrow>
    \<exists>r. hash_loop n sg dcs hs = Some r \<and> (\<forall>hs'. r = Inr hs' \<longrightarrow> hash_inv sg dcs entries g hs' \<and> hs_todeal hs' = [])"
proof (induction n arbitrary: hs)
  case (Suc n)
  show ?case
  proof (cases "hs_todeal hs = []")
    case True
    then show ?thesis using Suc.prems(1) by simp
  next
    case False
    show ?thesis
    proof (cases "rfold (hash_step sg dcs) (hs_todeal hs) hs")
      case (Inl e)
      with False show ?thesis by simp
    next
      case (Inr hs1)
      have dist: "distinct (hs_dealt hs @ hs_todeal hs)" by (rule hash_invD(3) [OF Suc.prems(1)])
      have r: "hash_inv sg dcs entries g hs1" "set (hs_dealt hs) \<subseteq> set (hs_dealt hs1)"
          "\<forall>t \<in> set (hs_todeal hs). set (deps_of entries t) \<subseteq> set (hs_dealt hs) \<longrightarrow> t \<in> set (hs_dealt hs1)"
        using hash_round [OF Suc.prems(1) order_refl _ Inr] dist by simp_all
      from ready_task [OF Suc.prems(1) assms False] r(3) obtain t where t: "t \<in> set (hs_todeal hs)" "t \<in> set (hs_dealt hs1)" by blast
      have sets: "set (hs_dealt hs1) \<union> set (hs_todeal hs1) = set (hs_dealt hs) \<union> set (hs_todeal hs)"
        using hash_invD(4) [OF r(1)] hash_invD(4) [OF Suc.prems(1)] by simp
      have "set (hs_todeal hs1) \<subseteq> set (hs_todeal hs) - {t}"
        using sets r(2) t hash_invD(3) [OF r(1)] by auto
      then have "card (set (hs_todeal hs1)) \<le> card (set (hs_todeal hs) - {t})" by (intro card_mono) auto
      also have "\<dots> < card (set (hs_todeal hs))" using t(1) by (intro card_Diff1_less) auto
      finally have "length (hs_todeal hs1) < length (hs_todeal hs)"
        using dist hash_invD(3) [OF r(1)] by (simp add: distinct_card)
      with Suc.IH [OF r(1)] Suc.prems(2) False Inr show ?thesis by simp
    qed
  qed
qed simp

lemma hash_inv_start:
  "dict_wf entries \<Longrightarrow> hash_inv sg dcs entries g \<lparr>hs_dealt = [], hs_todeal = dict_keys entries, hs_entries = entries, hs_g = g\<rparr>"
  by (simp add: hash_inv_def)

text \<open>Every task handed to the signature generator has its hashes.\<close>

definition hashed :: "rtentries \<Rightarrow> string \<Rightarrow> bool" where
  "hashed es t \<longleftrightarrow> (case map_of es t of None \<Rightarrow> False | Some e \<Rightarrow> re_hash e \<noteq> None \<and> re_unihash e \<noteq> None)"

lemma prepare_task_hash_hashed:
  assumes "prepare_task_hash sg dcs tid (es, g) = Inr (es', g')"
  shows "hashed es' tid" "hashed es t \<Longrightarrow> hashed es' t"
  using assms by (auto simp: prepare_task_hash_def hashed_def)

lemma rfold_hashed:
  "rfold (prepare_task_hash sg dcs) ts (es, g) = Inr (es', g') \<Longrightarrow> t \<in> set ts \<or> hashed es t \<Longrightarrow> hashed es' t"
proof (induction ts arbitrary: es g)
  case (Cons x ts)
  then obtain es1 g1 where 1: "prepare_task_hash sg dcs x (es, g) = Inr (es1, g1)" "rfold (prepare_task_hash sg dcs) ts (es1, g1) = Inr (es', g')" by auto
  from Cons.IH [OF 1(2)] Cons.prems(2) prepare_task_hash_hashed [OF 1(1)] show ?case by auto
qed auto

end
