(* ===== verification/BB_Recursive.thy ===== *)
theory BB_Recursive
  imports BB_Active
begin

text \<open>
  Step A of the preparation: the dependency sets are closed and without duplicates, the cumulative dependencies are
  the recipes of the transitive dependencies, and the loop over the recursive tasks ends in a fixed point.
\<close>

section \<open>Direct dependencies\<close>

lemma rbind_InrE:
  assumes "rbind m f = Inr b"
  obtains a where "m = Inr a" "f a = Inr b"
  using assms by auto

lemma distinct_add_dependencies: "distinct ds \<Longrightarrow> distinct (add_dependencies targets entries depids names ds)"
proof -
  have inner: "distinct (fold (\<lambda>n ds. let t = f n in if P t then add_new t ds else ds) ns ds)" if "distinct ds" for f P ns and ds :: "string list"
    using that by (induction ns arbitrary: ds) (simp_all add: Let_def)
  have "distinct ds \<Longrightarrow> distinct (fold (\<lambda>depname ds. case g depname of [] \<Rightarrow> ds
      | depdata # _ \<Rightarrow> fold (\<lambda>n ds. let t = f depdata n in if P t then add_new t ds else ds) names ds) depids ds)"
    for f P and g :: "string \<Rightarrow> string list" and ds :: "string list"
    by (induction depids arbitrary: ds) (auto simp: inner split: list.splits)
  then show "distinct ds \<Longrightarrow> distinct (add_dependencies targets entries depids names ds)" unfolding add_dependencies_def .
qed

lemma distinct_rfold:
  assumes "rfold f xs ds = Inr ds'" "distinct ds" "\<And>x c c'. f x c = Inr c' \<Longrightarrow> distinct c \<Longrightarrow> distinct (c' :: string list)"
  shows "distinct ds'"
  using rfold_invariant [where I = distinct, OF assms(1,2)] assms(3) by blast

lemma direct_depends_distinct:
  assumes "direct_depends td task_deps taskname taskfn e = Inr ds"
  shows "distinct ds"
proof -
  from assms obtain d1 d2 d3 d4 where d: "rfold add_tdepend (te_tdepends e) [] = Inr d1"
      "flag_depends (task_flag task_deps ''deptask'' taskname) (add_build_dependencies td) (td_depids td) taskfn d1 = Inr d2"
      "flag_depends (task_flag task_deps ''rdeptask'' taskname) (add_runtime_dependencies td) (td_rdepids td) taskfn d2 = Inr d3"
      "rfold (add_idepend td) (te_idepends e) d3 = Inr d4" "rfold (add_irdepend td) (te_irdepends e) d4 = Inr ds"
    unfolding direct_depends_def by (simp add: rbind_eq_Inr) metis
  have "distinct d1" by (rule distinct_rfold [OF d(1)]) (auto simp: add_tdepend_def)
  then have "distinct d2" using d(2) by (auto simp: flag_depends_def add_build_dependencies_def distinct_add_dependencies split: option.splits)
  then have "distinct d3" using d(3) by (auto simp: flag_depends_def add_runtime_dependencies_def distinct_add_dependencies split: option.splits)
  then have "distinct d4"
    by (rule distinct_rfold [OF d(4)]) (auto simp: add_idepend_def Let_def split: list.splits if_splits)
  then show ?thesis
    by (rule distinct_rfold [OF d(5)]) (auto simp: add_irdepend_def Let_def split: list.splits if_splits)
qed

definition entries_ok :: "rtentries \<Rightarrow> bool" where
  "entries_ok entries \<longleftrightarrow> dict_wf entries \<and> (\<forall>t e. map_of entries t = Some e \<longrightarrow> distinct (re_depends e) \<and> re_revdeps e = [])"

lemma entries_ok_set: "entries_ok es \<Longrightarrow> distinct (re_depends e) \<Longrightarrow> re_revdeps e = [] \<Longrightarrow> entries_ok (dict_set t e es)"
  unfolding entries_ok_def by auto

lemma recursive_depends_ok:
  assumes "recursive_depends td task_deps mc fn taskname taskfn tid d st = Inr (d', st')" "distinct d"
  shows "distinct d'" "pp_entries st' = pp_entries st"
    "set (dict_keys (pp_rec st')) \<subseteq> insert tid (set (dict_keys (pp_rec st)))" "set (pp_selfref st') \<subseteq> insert tid (set (pp_selfref st))"
proof -
  have "distinct d' \<and> pp_entries st' = pp_entries st \<and> fst ` set (pp_rec st') \<subseteq> insert tid (fst ` set (pp_rec st)) \<and>
      set (pp_selfref st') \<subseteq> insert tid (set (pp_selfref st))"
  proof (cases "task_flag task_deps ''recrdeptask'' taskname")
    case None
    with assms show ?thesis by (auto simp: recursive_depends_def)
  next
    case (Some v)
    with assms(1) obtain depids rdepids iv sr where
      "d' = add_runtime_dependencies td rdepids (split_ws v) (add_build_dependencies td depids (split_ws v) d)"
      "st' = st\<lparr>pp_rec := dict_set tid (split_ws v) (pp_rec st), pp_selfref := sr, pp_reci := iv\<rparr>"
      "sr = pp_selfref st \<or> sr = add_new tid (pp_selfref st)"
      by (auto simp: recursive_depends_def Let_def)
    with assms(2) show ?thesis
      by (auto simp: add_build_dependencies_def add_runtime_dependencies_def distinct_add_dependencies simp flip: image_Un
          simp del: image_subset_iff intro!: equalityD1 [OF set_dict_keys_set])
  qed
  then show "distinct d'" "pp_entries st' = pp_entries st"
    "set (dict_keys (pp_rec st')) \<subseteq> insert tid (set (dict_keys (pp_rec st)))" "set (pp_selfref st') \<subseteq> insert tid (set (pp_selfref st))"
    by simp_all
qed

text \<open>The state between two tasks.\<close>

definition prep_ok :: "prep \<Rightarrow> bool" where
  "prep_ok st \<longleftrightarrow> entries_ok (pp_entries st) \<and> set (dict_keys (pp_rec st)) \<subseteq> set (dict_keys (pp_entries st)) \<and>
     set (pp_selfref st) \<subseteq> set (dict_keys (pp_entries st))"

lemma prepare_tid_ok:
  assumes "prepare_tid dcs tid st = Inr st'" "prep_ok st"
  shows "prep_ok st' \<and> set (dict_keys (pp_entries st')) = insert tid (set (dict_keys (pp_entries st)))"
proof -
  let ?st1 = "st\<lparr>pp_entries := dict_set tid RunTaskEntry (pp_entries st)\<rparr>"
  have keys1: "set (dict_keys (dict_set tid e (pp_entries st))) = insert tid (set (dict_keys (pp_entries st)))" for e
    by (simp add: dict_keys_set insert_absorb del: set_map)
  have ok1: "entries_ok (dict_set tid RunTaskEntry (pp_entries st))"
    using assms(2) unfolding prep_ok_def by (simp add: entries_ok_set RunTaskEntry_def)
  consider "st' = ?st1" | td task_deps mc fn taskname taskfn e d d' st2 s1 where
      "direct_depends td task_deps taskname taskfn e = Inr d"
      "recursive_depends td task_deps mc fn taskname taskfn tid d s1 = Inr (d', st2)"
      "pp_entries s1 = dict_set tid RunTaskEntry (pp_entries st)" "pp_rec s1 = pp_rec st" "pp_selfref s1 = pp_selfref st"
      "st' = st2\<lparr>pp_entries := dict_set tid (RunTaskEntry\<lparr>re_depends := removeAll tid d'\<rparr>) (pp_entries st2)\<rparr>"
    using assms(1) unfolding prepare_tid_def Let_def
    by (auto simp del: rbind_eq_Inr elim!: rbind_InrE split: prod.splits if_splits)
  then show ?thesis
  proof cases
    case 1
    then show ?thesis using assms(2) ok1 keys1 unfolding prep_ok_def by (auto simp del: set_map)
  next
    case 2
    note r = recursive_depends_ok [OF 2(2) direct_depends_distinct [OF 2(1)]]
    have en: "entries_ok (pp_entries st')"
      unfolding 2(6) using assms(2) r(1,2) 2(3) unfolding prep_ok_def by (simp add: entries_ok_set RunTaskEntry_def distinct_removeAll)
    have keys: "set (dict_keys (pp_entries st')) = insert tid (set (dict_keys (pp_entries st)))"
      unfolding 2(6) prep.simps r(2) 2(3) using keys1 [of RunTaskEntry] by (simp add: dict_keys_set del: set_map)
    have "set (dict_keys (pp_rec st')) \<subseteq> insert tid (set (dict_keys (pp_rec st)))" "set (pp_selfref st') \<subseteq> insert tid (set (pp_selfref st))"
      using r(3,4) 2(4,5) unfolding 2(6) by (simp_all del: set_map)
    then show ?thesis using en keys assms(2) unfolding prep_ok_def by blast
  qed
qed

lemma resolve_dependencies_ok:
  assumes "resolve_dependencies dcs tds = Inr st"
  shows "prep_ok st"
proof -
  have "prep_ok s'" if "prepare_mc dcs mc s = Inr s'" "prep_ok s" for mc s s'
  proof -
    from that(1) obtain td :: taskdata where "rfold (prepare_tid dcs) (dict_keys (td_taskentries td)) s = Inr s'" by (auto simp: prepare_mc_def)
    from rfold_invariant [where I = prep_ok, OF this that(2)] show ?thesis using prepare_tid_ok by blast
  qed
  moreover have "prep_ok \<lparr>pp_taskData = tds, pp_entries = [], pp_rec = [], pp_reci = [], pp_selfref = []\<rparr>"
    by (simp add: prep_ok_def entries_ok_def)
  ultimately show ?thesis
    using rfold_invariant [where I = prep_ok, OF assms [unfolded resolve_dependencies_def]] by blast
qed

section \<open>Temporary reverse dependencies\<close>

definition rev_inv :: "string set \<Rightarrow> (string \<times> string) set \<Rightarrow> (string, string list) dict \<Rightarrow> bool" where
  "rev_inv K E rv \<longleftrightarrow> set (dict_keys rv) = K \<and> (\<forall>k \<in> K. distinct (dd_get rv k) \<and> set (dd_get rv k) = {t. (t, k) \<in> E})"

lemma add_revdep_inv:
  assumes "rev_inv K E rv"
  shows "add_revdep tid d rv = Inr rv' \<Longrightarrow> d \<in> K \<and> rev_inv K (insert (tid, d) E) rv'"
    "d \<in> K \<Longrightarrow> \<exists>rv'. add_revdep tid d rv = Inr rv'"
proof -
  assume "add_revdep tid d rv = Inr rv'"
  then obtain r where r: "map_of rv d = Some r" "rv' = dict_set d (add_new tid r) rv" by (auto simp: add_revdep_def)
  have d: "d \<in> K" using map_of_mem [OF r(1)] assms unfolding rev_inv_def by blast
  then have "set (dict_keys rv') = K" using assms unfolding rev_inv_def r(2) by (auto simp: dict_keys_set)
  moreover have "dd_get rv d = r" using r(1) by (simp add: dd_get_def)
  ultimately show "d \<in> K \<and> rev_inv K (insert (tid, d) E) rv'" using d assms unfolding rev_inv_def r(2) by auto
next
  assume "d \<in> K"
  then obtain r where "map_of rv d = Some r" using assms has_key_iff [of rv d] unfolding rev_inv_def has_key_def by (metis not_None_eq)
  then show "\<exists>rv'. add_revdep tid d rv = Inr rv'" by (simp add: add_revdep_def dict_lookup_Some)
qed

lemma add_revdeps_inv:
  "rev_inv K E rv \<Longrightarrow> (set ds \<subseteq> K \<longrightarrow> (\<exists>rv'. rfold (add_revdep tid) ds rv = Inr rv')) \<and>
     (\<forall>rv'. rfold (add_revdep tid) ds rv = Inr rv' \<longrightarrow> set ds \<subseteq> K \<and> rev_inv K (E \<union> {tid} \<times> set ds) rv')"
proof (induction ds arbitrary: E rv)
  case (Cons d ds)
  have eq: "insert (tid, d) E \<union> {tid} \<times> set ds = E \<union> {tid} \<times> set (d # ds)" by auto
  show ?case
  proof (cases "add_revdep tid d rv")
    case (Inl e)
    then show ?thesis using add_revdep_inv(2) [OF Cons.prems, of d tid] by auto
  next
    case (Inr rv1)
    from add_revdep_inv(1) [OF Cons.prems Inr] Cons.IH [of "insert (tid, d) E" rv1] Inr show ?thesis unfolding eq by auto
  qed
qed simp

lemma temp_revdeps_inv:
  assumes "dict_wf entries"
  shows "(deps_closed entries \<longrightarrow> (\<exists>rv. temp_revdeps entries = Inr rv)) \<and>
    (\<forall>rv. temp_revdeps entries = Inr rv \<longrightarrow> deps_closed entries \<and> rev_inv (set (dict_keys entries)) (dep_edges entries) rv)"
proof -
  let ?K = "set (dict_keys entries)"
  let ?edges = "\<lambda>es. {(t, d). \<exists>e. (t, e) \<in> set es \<and> d \<in> set (re_depends e)}"
  have main: "((\<forall>(t, e) \<in> set es. set (re_depends e) \<subseteq> ?K) \<longrightarrow> (\<exists>rv'. rfold (\<lambda>(tid, e). rfold (add_revdep tid) (re_depends e)) es rv = Inr rv')) \<and>
    (\<forall>rv'. rfold (\<lambda>(tid, e). rfold (add_revdep tid) (re_depends e)) es rv = Inr rv' \<longrightarrow>
       (\<forall>(t, e) \<in> set es. set (re_depends e) \<subseteq> ?K) \<and> rev_inv ?K (E \<union> ?edges es) rv')" if "rev_inv ?K E rv" for es :: rtentries and E rv
    using that
  proof (induction es arbitrary: E rv)
    case (Cons p es)
    obtain t e where p: "p = (t, e)" by (cases p)
    have eq: "E \<union> {t} \<times> set (re_depends e) \<union> ?edges es = E \<union> ?edges (p # es)" unfolding p by auto
    show ?case
    proof (cases "rfold (add_revdep t) (re_depends e) rv")
      case (Inl x)
      then show ?thesis using add_revdeps_inv [OF Cons.prems, of "re_depends e" t] unfolding p by auto
    next
      case (Inr rv1)
      with add_revdeps_inv [OF Cons.prems, of "re_depends e" t]
      have 1: "set (re_depends e) \<subseteq> ?K" "rev_inv ?K (E \<union> {t} \<times> set (re_depends e)) rv1" by blast+
      from Cons.IH [OF 1(2)] 1(1) Inr show ?thesis unfolding eq p by simp
    qed
  qed simp
  have init: "rev_inv ?K {} (map (\<lambda>(tid, e). (tid, [])) entries)"
    by (auto simp: rev_inv_def dd_get_def map_of_values split: option.splits intro: rev_image_eqI)
  have edges: "?edges entries = dep_edges entries"
    using assms by (auto simp: dep_edges_iff deps_of_def split: option.splits)
  have "deps_closed entries \<longleftrightarrow> (\<forall>(t, d) \<in> dep_edges entries. d \<in> ?K)" unfolding deps_closed_def dep_edges_def by blast
  also have "\<dots> \<longleftrightarrow> (\<forall>(t, e) \<in> set entries. set (re_depends e) \<subseteq> ?K)" unfolding edges [symmetric] by blast
  finally have "deps_closed entries \<longleftrightarrow> (\<forall>(t, e) \<in> set entries. set (re_depends e) \<subseteq> ?K)" .
  with main [OF init, of entries] show ?thesis unfolding temp_revdeps_def edges by simp
qed

section \<open>Cumulative dependencies\<close>

definition cset :: "cumul \<Rightarrow> string \<Rightarrow> string set" where
  "cset cu k = set (dd_get (cu_cum cu) k)"

definition dset :: "cumul \<Rightarrow> string \<Rightarrow> string set" where
  "dset cu k = set (dd_get (cu_deps cu) k)"

definition cu_full :: "string set \<Rightarrow> cumul \<Rightarrow> bool" where
  "cu_full K cu \<longleftrightarrow> (\<forall>k \<in> K. has_key (cu_cum cu) k \<and> has_key (cu_deps cu) k)"

lemma collate_dep_spec:
  assumes "cu_full K cu" "tid \<in> K" "d \<in> K" "tid \<noteq> d"
  shows "\<exists>cu'. collate_dep tid d cu = Inr cu' \<and> cu_full K cu' \<and>
    (\<forall>k. cset cu' k = (if k = d then insert (fn_from_tid tid) (cset cu d \<union> cset cu tid) else cset cu k)) \<and>
    (\<forall>k. dset cu' k = (if k = d then dset cu d - {tid} else dset cu k)) \<and>
    set (cu_next cu') = set (cu_next cu) \<union> (if dset cu d \<subseteq> {tid} then {d} else {}) \<and>
    (distinct (cu_next cu) \<longrightarrow> distinct (cu_next cu'))"
proof -
  obtain c ct ds where m: "map_of (cu_cum cu) d = Some c" "map_of (cu_cum cu) tid = Some ct" "map_of (cu_deps cu) d = Some ds"
    using assms(1-3) unfolding cu_full_def has_key_def by blast
  have "removeAll tid ds = [] \<longleftrightarrow> dset cu d \<subseteq> {tid}" using m(3) by (auto simp: dset_def dd_get_def simp flip: set_empty)
  with m assms(1,4) show ?thesis
    by (auto simp: collate_dep_def dict_lookup_Some Let_def cu_full_def cset_def dset_def set_fold_add_new dd_get_def)
qed

lemma collate_deps_spec:
  assumes "cu_full K cu" "tid \<in> K" "set rs \<subseteq> K" "distinct rs" "tid \<notin> set rs"
  shows "\<exists>cu'. rfold (collate_dep tid) rs cu = Inr cu' \<and> cu_full K cu' \<and>
    (\<forall>k. cset cu' k = (if k \<in> set rs then insert (fn_from_tid tid) (cset cu k \<union> cset cu tid) else cset cu k)) \<and>
    (\<forall>k. dset cu' k = (if k \<in> set rs then dset cu k - {tid} else dset cu k)) \<and>
    set (cu_next cu') = set (cu_next cu) \<union> {k \<in> set rs. dset cu k \<subseteq> {tid}} \<and>
    (distinct (cu_next cu) \<longrightarrow> distinct (cu_next cu'))"
  using assms
proof (induction rs arbitrary: cu)
  case (Cons d rs)
  obtain cu1 where e: "collate_dep tid d cu = Inr cu1" and c1: "cu_full K cu1"
      "\<forall>k. cset cu1 k = (if k = d then insert (fn_from_tid tid) (cset cu d \<union> cset cu tid) else cset cu k)"
      "\<forall>k. dset cu1 k = (if k = d then dset cu d - {tid} else dset cu k)"
      "set (cu_next cu1) = set (cu_next cu) \<union> (if dset cu d \<subseteq> {tid} then {d} else {})" "distinct (cu_next cu) \<longrightarrow> distinct (cu_next cu1)"
    using collate_dep_spec [of K cu tid d] Cons.prems by auto
  obtain cu' where f: "rfold (collate_dep tid) rs cu1 = Inr cu'" and c': "cu_full K cu'"
      "\<forall>k. cset cu' k = (if k \<in> set rs then insert (fn_from_tid tid) (cset cu1 k \<union> cset cu1 tid) else cset cu1 k)"
      "\<forall>k. dset cu' k = (if k \<in> set rs then dset cu1 k - {tid} else dset cu1 k)"
      "set (cu_next cu') = set (cu_next cu1) \<union> {k \<in> set rs. dset cu1 k \<subseteq> {tid}}" "distinct (cu_next cu1) \<longrightarrow> distinct (cu_next cu')"
    using Cons.IH [OF c1(1)] Cons.prems by auto
  have fresh: "k \<noteq> d" if "k \<in> set rs" for k using that Cons.prems(4) by auto
  have ct: "cset cu1 tid = cset cu tid" using c1(2) Cons.prems(5) by auto
  have "cset cu' k = (if k \<in> set (d # rs) then insert (fn_from_tid tid) (cset cu k \<union> cset cu tid) else cset cu k)" for k
    using c'(2) c1(2) ct fresh [of k] by simp
  moreover have "dset cu' k = (if k \<in> set (d # rs) then dset cu k - {tid} else dset cu k)" for k
    using c'(3) c1(3) fresh [of k] by simp
  moreover have "{k \<in> set rs. dset cu1 k \<subseteq> {tid}} = {k \<in> set rs. dset cu k \<subseteq> {tid}}" using c1(3) fresh by auto
  then have "set (cu_next cu') = set (cu_next cu) \<union> {k \<in> set (d # rs). dset cu k \<subseteq> {tid}}" using c'(4) c1(4) by auto
  ultimately show ?case using e f c'(1,5) c1(5) by (intro exI [of _ cu']) simp
qed simp

text \<open>\<open>P\<close> are the tasks whose dependents have been visited, \<open>E\<close> those that wait for their visit.\<close>

definition cinv :: "rtentries \<Rightarrow> string set \<Rightarrow> string set \<Rightarrow> cumul \<Rightarrow> bool" where
  "cinv entries P E cu \<longleftrightarrow> cu_full (set (dict_keys entries)) cu \<and> E \<inter> P = {} \<and> P \<union> E \<subseteq> set (dict_keys entries) \<and>
     (\<forall>k \<in> set (dict_keys entries). dset cu k = set (deps_of entries k) - P \<and> (k \<in> P \<union> E \<longleftrightarrow> set (deps_of entries k) \<subseteq> P) \<and>
        cset cu k = (\<Union>u \<in> set (deps_of entries k) \<inter> P. insert (fn_from_tid u) (cset cu u)))"

lemma cinvD:
  assumes "cinv entries P E cu"
  shows "cu_full (set (dict_keys entries)) cu" "E \<inter> P = {}" "P \<union> E \<subseteq> set (dict_keys entries)"
    "k \<in> set (dict_keys entries) \<Longrightarrow> dset cu k = set (deps_of entries k) - P"
    "k \<in> set (dict_keys entries) \<Longrightarrow> k \<in> P \<union> E \<longleftrightarrow> set (deps_of entries k) \<subseteq> P"
    "k \<in> set (dict_keys entries) \<Longrightarrow> cset cu k = (\<Union>u \<in> set (deps_of entries k) \<inter> P. insert (fn_from_tid u) (cset cu u))"
  using assms unfolding cinv_def by blast+

lemma cinvI:
  assumes "cu_full (set (dict_keys entries)) cu" "E \<inter> P = {}" "P \<union> E \<subseteq> set (dict_keys entries)"
    "\<And>k. k \<in> set (dict_keys entries) \<Longrightarrow> dset cu k = set (deps_of entries k) - P"
    "\<And>k. k \<in> set (dict_keys entries) \<Longrightarrow> k \<in> P \<union> E \<longleftrightarrow> set (deps_of entries k) \<subseteq> P"
    "\<And>k. k \<in> set (dict_keys entries) \<Longrightarrow> cset cu k = (\<Union>u \<in> set (deps_of entries k) \<inter> P. insert (fn_from_tid u) (cset cu u))"
  shows "cinv entries P E cu"
  unfolding cinv_def by (intro conjI ballI assms)

lemma cinv_step:
  assumes inv: "cinv entries P E cu" and rv: "rev_inv (set (dict_keys entries)) (dep_edges entries) rv" and tid: "tid \<in> E"
  shows "\<exists>cu' N. collate_tid rv tid cu = Inr cu' \<and> set (cu_next cu') = set (cu_next cu) \<union> N \<and> N \<inter> (P \<union> E) = {} \<and>
    (distinct (cu_next cu) \<longrightarrow> distinct (cu_next cu')) \<and> cinv entries (insert tid P) (E - {tid} \<union> N) cu'"
proof -
  let ?K = "set (dict_keys entries)" and ?D = "\<lambda>k. set (deps_of entries k)" and ?rs = "dd_get rv tid" and ?P = "insert tid P"
  note i = cinvD [OF inv]
  have t: "tid \<in> ?K" "tid \<notin> P" "?D tid \<subseteq> P" using i(2,3) i(5) [of tid] tid by auto
  have rs: "distinct ?rs" "set ?rs = {k. tid \<in> ?D k}" 
    using rv t(1) unfolding rev_inv_def by (simp_all add: dep_edges_iff del: set_map)
  have rsK: "set ?rs \<subseteq> ?K" using rs(2) deps_of_no_key [of _ entries] by fastforce
  obtain r where r: "map_of rv tid = Some r" using rv t(1) has_key_iff [of rv tid] unfolding rev_inv_def has_key_def by (metis not_None_eq)
  then have req: "r = ?rs" by (simp add: dd_get_def)
  have seen: "tid \<notin> ?D k" if "k \<in> P \<union> E" for k using that i(3) i(5) [of k] t(2) by blast
  obtain cu' where cu': "rfold (collate_dep tid) ?rs cu = Inr cu'" "cu_full ?K cu'"
      "\<forall>k. cset cu' k = (if k \<in> set ?rs then insert (fn_from_tid tid) (cset cu k \<union> cset cu tid) else cset cu k)"
      "\<forall>k. dset cu' k = (if k \<in> set ?rs then dset cu k - {tid} else dset cu k)"
      "set (cu_next cu') = set (cu_next cu) \<union> {k \<in> set ?rs. dset cu k \<subseteq> {tid}}"
      "distinct (cu_next cu) \<longrightarrow> distinct (cu_next cu')"
    using collate_deps_spec [OF i(1) t(1) rsK rs(1)] seen [of tid] tid rs(2) by auto
  let ?N = "{k \<in> set ?rs. dset cu k \<subseteq> {tid}}"
  have N: "k \<in> ?N \<longleftrightarrow> tid \<in> ?D k \<and> ?D k \<subseteq> ?P" if "k \<in> ?K" for k using rs(2) i(4) [OF that] by auto
  have same: "cset cu' u = cset cu u" if "u \<in> P \<union> E" for u using cu'(3) seen [OF that] rs(2) by simp
  have "cinv entries ?P (E - {tid} \<union> ?N) cu'"
  proof (rule cinvI [OF cu'(2)])
    show "(E - {tid} \<union> ?N) \<inter> ?P = {}" using i(2) rs(2) seen tid by auto
    show "?P \<union> (E - {tid} \<union> ?N) \<subseteq> ?K" using i(3) rsK t(1) by auto
  next
    fix k assume k: "k \<in> ?K"
    show "dset cu' k = ?D k - ?P" using cu'(4) i(4) [OF k] rs(2) by auto
    show "k \<in> ?P \<union> (E - {tid} \<union> ?N) \<longleftrightarrow> ?D k \<subseteq> ?P" using N [OF k] i(5) [OF k] tid by blast
    show "cset cu' k = (\<Union>u \<in> ?D k \<inter> ?P. insert (fn_from_tid u) (cset cu' u))"
    proof -
      have "(\<Union>u \<in> ?D k \<inter> ?P. insert (fn_from_tid u) (cset cu' u)) = (\<Union>u \<in> ?D k \<inter> ?P. insert (fn_from_tid u) (cset cu u))"
        using same tid by auto
      also have "\<dots> = (\<Union>u \<in> ?D k \<inter> P. insert (fn_from_tid u) (cset cu u)) \<union> (if tid \<in> ?D k then insert (fn_from_tid tid) (cset cu tid) else {})"
        by auto
      finally show ?thesis using cu'(3) i(6) [OF k] rs(2) by auto
    qed
  qed
  moreover have "collate_tid rv tid cu = Inr cu'" using cu'(1) r req by (simp add: collate_tid_def dict_lookup_Some)
  moreover have "?N \<inter> (P \<union> E) = {}" using rs(2) seen by auto
  ultimately show ?thesis using cu'(5,6) by blast
qed

lemma cinv_round:
  assumes rv: "rev_inv (set (dict_keys entries)) (dep_edges entries) rv"
  shows "cinv entries P (set E \<union> set (cu_next cu)) cu \<Longrightarrow> distinct E \<Longrightarrow> set E \<inter> set (cu_next cu) = {} \<Longrightarrow> distinct (cu_next cu) \<Longrightarrow>
    \<exists>cu'. rfold (collate_tid rv) E cu = Inr cu' \<and> cinv entries (P \<union> set E) (set (cu_next cu')) cu' \<and> distinct (cu_next cu')"
proof (induction E arbitrary: P cu)
  case (Cons t E)
  from cinv_step [OF Cons.prems(1) rv, of t] obtain cu1 N where c1: "collate_tid rv t cu = Inr cu1"
      "set (cu_next cu1) = set (cu_next cu) \<union> N" "N \<inter> (P \<union> (set (t # E) \<union> set (cu_next cu))) = {}" "distinct (cu_next cu1)"
      "cinv entries (insert t P) (set (t # E) \<union> set (cu_next cu) - {t} \<union> N) cu1"
    using Cons.prems(4) by auto
  have "set (t # E) \<union> set (cu_next cu) - {t} \<union> N = set E \<union> set (cu_next cu1)" using c1(2) Cons.prems(2,3) by auto
  with c1(5) have "cinv entries (insert t P) (set E \<union> set (cu_next cu1)) cu1" by simp
  moreover have "set E \<inter> set (cu_next cu1) = {}" using c1(2,3) Cons.prems(3) by auto
  ultimately show ?case using Cons.IH [of "insert t P" cu1] Cons.prems(2) c1(1,4) by auto
qed auto

lemma cinv_next: "cinv entries P E (cu\<lparr>cu_next := x\<rparr>) = cinv entries P E cu"
  by (simp add: cinv_def cu_full_def cset_def dset_def)

lemma cinv_loop:
  assumes rv: "rev_inv (set (dict_keys entries)) (dep_edges entries) rv"
  shows "cinv entries P (set E) cu \<Longrightarrow> distinct E \<Longrightarrow> card (set (dict_keys entries) - P) \<le> n \<Longrightarrow>
    \<exists>cu' P'. collate_loop n rv E cu = Inr cu' \<and> cinv entries P' {} cu'"
proof (induction n arbitrary: P E cu)
  case 0
  then have "set (dict_keys entries) \<subseteq> P" by auto
  then have "set E \<subseteq> P" using cinvD(3) [OF 0(1)] by (meson Un_subset_iff subset_trans)
  then have "set E = {}" using cinvD(2) [OF 0(1)] by (simp add: Int_absorb2)
  then have "E = []" by simp
  with 0(1) show ?case by auto
next
  case (Suc n)
  show ?case
  proof (cases "E = []")
    case True
    with Suc.prems(1) show ?thesis by auto
  next
    case False
    from cinv_round [OF rv, of P E "cu\<lparr>cu_next := []\<rparr>"] Suc.prems(1,2) obtain cu1 where
      c1: "rfold (collate_tid rv) E (cu\<lparr>cu_next := []\<rparr>) = Inr cu1" "cinv entries (P \<union> set E) (set (cu_next cu1)) cu1" "distinct (cu_next cu1)"
      by (auto simp: cinv_next)
    have "set (dict_keys entries) - (P \<union> set E) \<subset> set (dict_keys entries) - P"
      using False cinvD(2,3) [OF Suc.prems(1)] by (cases E) auto
    then have "card (set (dict_keys entries) - (P \<union> set E)) < card (set (dict_keys entries) - P)" by (intro psubset_card_mono) auto
    with Suc.IH [OF c1(2,3)] Suc.prems(3) c1(1) False show ?thesis by auto
  qed
qed

lemma cinv_init:
  assumes "dict_wf entries"
  shows "cinv entries {} (set (map fst (filter (\<lambda>(tid, e). re_depends e = []) entries)))
    \<lparr>cu_deps = map (\<lambda>(tid, e). (tid, re_depends e)) entries, cu_cum = map (\<lambda>(tid, e). (tid, [])) entries, cu_next = []\<rparr>"
proof (rule cinvI)
  fix k
  assume k: "k \<in> set (dict_keys entries)"
  then obtain e where e: "map_of entries k = Some e" using has_key_iff [of entries k] unfolding has_key_def by blast
  show "dset \<lparr>cu_deps = map (\<lambda>(tid, e). (tid, re_depends e)) entries, cu_cum = map (\<lambda>(tid, e). (tid, [])) entries, cu_next = []\<rparr> k =
      set (deps_of entries k) - {}"
    using e by (simp add: dset_def dd_get_def map_of_values deps_of_def)
  show "k \<in> {} \<union> set (map fst (filter (\<lambda>(tid, e). re_depends e = []) entries)) \<longleftrightarrow> set (deps_of entries k) \<subseteq> {}"
  proof -
    have "k \<in> set (map fst (filter (\<lambda>(tid, e). re_depends e = []) entries)) \<longleftrightarrow> (\<exists>e. (k, e) \<in> set entries \<and> re_depends e = [])"
      by (auto intro: rev_image_eqI)
    also have "\<dots> \<longleftrightarrow> re_depends e = []" using assms e by (metis map_of_eq_Some_iff option.inject)
    finally show ?thesis using e by (simp add: deps_of_def)
  qed
  show "cset \<lparr>cu_deps = map (\<lambda>(tid, e). (tid, re_depends e)) entries, cu_cum = map (\<lambda>(tid, e). (tid, [])) entries, cu_next = []\<rparr> k =
      (\<Union>u \<in> set (deps_of entries k) \<inter> {}. insert (fn_from_tid u)
        (cset \<lparr>cu_deps = map (\<lambda>(tid, e). (tid, re_depends e)) entries, cu_cum = map (\<lambda>(tid, e). (tid, [])) entries, cu_next = []\<rparr> u))"
    using e by (simp add: cset_def dd_get_def map_of_values)
qed (auto simp: cu_full_def has_key_def map_of_values map_of_eq_None_iff intro: rev_image_eqI)

lemma cumulative_deps_inv:
  assumes "dict_wf entries" "deps_closed entries"
  shows "\<exists>cu P. cumulative_deps entries = Inr (cu_cum cu) \<and> cinv entries P {} cu"
proof -
  from temp_revdeps_inv [OF assms(1)] assms(2) obtain rv where rv: "temp_revdeps entries = Inr rv"
    "rev_inv (set (dict_keys entries)) (dep_edges entries) rv" by blast
  have "card (set (dict_keys entries) - {}) \<le> length entries" using card_length [of "dict_keys entries"] by simp
  moreover have "distinct (map fst (filter (\<lambda>(tid, e). re_depends e = []) entries))" using assms(1) by (simp add: distinct_map_filter)
  ultimately obtain cu P where "collate_loop (length entries) rv (map fst (filter (\<lambda>(tid, e). re_depends e = []) entries))
      \<lparr>cu_deps = map (\<lambda>(tid, e). (tid, re_depends e)) entries, cu_cum = map (\<lambda>(tid, e). (tid, [])) entries, cu_next = []\<rparr> = Inr cu"
      "cinv entries P {} cu"
    using cinv_loop [OF rv(2) cinv_init [OF assms(1)]] by blast
  then have "cumulative_deps entries = Inr (cu_cum cu)" using rv(1) by (simp add: cumulative_deps_def del: rbind_eq_Inr)
  with \<open>cinv entries P {} cu\<close> show ?thesis by blast
qed

lemma trancl_image_step: "R\<^sup>+ `` {k} = (\<Union>u \<in> R `` {k}. insert u (R\<^sup>+ `` {u}))"
proof -
  have "(k, x) \<in> R\<^sup>+ \<longleftrightarrow> (\<exists>u. (k, u) \<in> R \<and> (x = u \<or> (u, x) \<in> R\<^sup>+))" for x
    by (metis r_into_trancl' rtranclD tranclD trancl_into_trancl2)
  then show ?thesis by auto
qed

lemma dep_edges_wf_converse:
  assumes "deps_closed entries" "acyclic (dep_edges entries)"
  shows "wf ((dep_edges entries)\<inverse>)"
proof -
  have "dep_edges entries \<subseteq> set (dict_keys entries) \<times> set (dict_keys entries)"
    using assms(1) unfolding dep_edges_def deps_closed_def by blast
  then have "finite (dep_edges entries)" by (rule finite_subset) simp
  then show ?thesis using assms(2) by (rule finite_acyclic_wf_converse)
qed

lemma cinv_acyclic_all:
  assumes "cinv entries P {} cu" "deps_closed entries" "acyclic (dep_edges entries)"
  shows "P = set (dict_keys entries)"
proof (rule ccontr)
  let ?K = "set (dict_keys entries)"
  assume "P \<noteq> ?K"
  with cinvD(3) [OF assms(1)] obtain x where "x \<in> ?K - P" by blast
  from wfE_min [OF dep_edges_wf_converse [OF assms(2,3)] this] obtain t
    where t: "t \<in> ?K - P" "\<And>u. (u, t) \<in> (dep_edges entries)\<inverse> \<Longrightarrow> u \<notin> ?K - P" by blast
  have "set (deps_of entries t) \<subseteq> P" using t(2) t(1) assms(2) unfolding deps_closed_def converse_iff dep_edges_iff by blast
  with cinvD(5) [OF assms(1), of t] t(1) show False by simp
qed

text \<open>C30. The cumulative dependencies of an acyclic task graph are computed exactly and within the bound: for every task the recipe files of
  all tasks it depends on, directly or indirectly.\<close>

theorem cumulative_deps_exact:
  assumes "dict_wf entries" and "deps_closed entries" and "acyclic (dep_edges entries)"
  shows "\<exists>cum. cumulative_deps entries = Inr cum \<and>
    (\<forall>t \<in> set (dict_keys entries). set (dd_get cum t) = fn_from_tid ` ((dep_edges entries)\<^sup>+ `` {t}))"
proof -
  from cumulative_deps_inv [OF assms(1,2)] obtain cu P where cu: "cumulative_deps entries = Inr (cu_cum cu)" "cinv entries P {} cu" by blast
  have P: "P = set (dict_keys entries)" by (rule cinv_acyclic_all [OF cu(2) assms(2,3)])
  have "t \<in> set (dict_keys entries) \<longrightarrow> cset cu t = fn_from_tid ` ((dep_edges entries)\<^sup>+ `` {t})" for t
    using dep_edges_wf_converse [OF assms(2,3)]
  proof (induction t rule: wf_induct_rule)
    case (less t)
    show ?case
    proof
      assume t: "t \<in> set (dict_keys entries)"
      have D: "set (deps_of entries t) \<inter> P = dep_edges entries `` {t}" "set (deps_of entries t) \<subseteq> P"
        using t assms(2) dep_edges_iff [of t _ entries] unfolding P deps_closed_def by blast+
      have "cset cu t = (\<Union>u \<in> dep_edges entries `` {t}. insert (fn_from_tid u) (cset cu u))"
        using cinvD(6) [OF cu(2) t] unfolding D(1) .
      also have "\<dots> = (\<Union>u \<in> dep_edges entries `` {t}. insert (fn_from_tid u) (fn_from_tid ` ((dep_edges entries)\<^sup>+ `` {u})))"
        using less D P by (intro arg_cong [of _ _ Union] image_cong refl) (auto simp: dep_edges_iff simp del: set_map)
      also have "\<dots> = fn_from_tid ` ((dep_edges entries)\<^sup>+ `` {t})" by (subst (2) trancl_image_step) blast
      finally show "cset cu t = fn_from_tid ` ((dep_edges entries)\<^sup>+ `` {t})" .
    qed
  qed
  then show ?thesis using cu(1) by (intro exI [of _ "cu_cum cu"]) (simp add: cset_def)
qed

theorem cumulative_deps_exact_witness:
  "\<exists>cum. cumulative_deps sample_chain = Inr cum \<and> set (dd_get cum ''c:x'') = {''a'', ''b''} \<and> dd_get cum ''a:x'' = []"
proof -
  have "deps_closed sample_chain" by code_simp
  moreover have "dict_wf sample_chain" by code_simp
  ultimately obtain cum where "cumulative_deps sample_chain = Inr cum" using cumulative_deps_exact [OF _ _ sample_chain_ok(2)] by blast
  moreover have "(case cumulative_deps sample_chain of Inl _ \<Rightarrow> False
      | Inr cum \<Rightarrow> set (dd_get cum ''c:x'') = {''a'', ''b''} \<and> dd_get cum ''a:x'' = [])" by code_simp
  ultimately show ?thesis by simp
qed

section \<open>The fixed point of the recursive tasks\<close>

text \<open>A loop whose counter has not moved has not changed anything.\<close>

lemma rfold_stable:
  assumes "rfold f xs p = Inr p'" "\<And>x q q'. x \<in> set xs \<Longrightarrow> f x q = Inr q' \<Longrightarrow> q' = q \<or> fst q < (fst q' :: nat)"
  shows "(p' = p \<and> (\<forall>x \<in> set xs. f x p = Inr p)) \<or> fst p < fst p'"
  using assms
proof (induction xs arbitrary: p)
  case (Cons x xs)
  from Cons.prems(1) obtain q where q: "f x p = Inr q" "rfold f xs q = Inr p'" by auto
  have "(p' = q \<and> (\<forall>x \<in> set xs. f x q = Inr q)) \<or> fst q < fst p'"
    by (rule Cons.IH [OF q(2)]) (rule Cons.prems(2), auto)
  moreover have "q = p \<or> fst p < fst q" by (rule Cons.prems(2) [OF _ q(1)]) simp
  ultimately show ?case using q(1) by auto
qed simp

lemma add_recursive_stable: "add_recursive tid n p = Inr p' \<Longrightarrow> p' = p \<or> fst p < fst p'"
  by (auto simp: add_recursive_def split: prod.splits if_splits)

lemma add_names_stable:
  assumes "rfold (\<lambda>n. add_recursive tid (f n)) names q = Inr q'"
  shows "(q' = q \<and> (\<forall>n \<in> set names. add_recursive tid (f n) q = Inr q)) \<or> fst q < fst q'"
  by (rule rfold_stable [OF assms]) (rule add_recursive_stable)

lemma add_rec_of_rec_stable: "rfold (add_rec_of_rec tid names) ds p = Inr p' \<Longrightarrow> p' = p \<or> fst p < fst p'"
  using rfold_stable [of "add_rec_of_rec tid names" ds p p'] add_rec_of_rec_cases by blast

lemma recursive_tid_stable:
  assumes "recursive_tid cum recs reci q p = Inr p'"
  shows "p' = p \<or> fst p < fst p'"
proof -
  obtain tid names where q: "q = (tid, names)" by (cases q)
  from assms obtain deps p1 ds where
      p1: "rfold (\<lambda>t. rfold (\<lambda>taskname. add_recursive tid (t @ '':'' @ taskname)) names) deps p = Inr p1"
    and p': "rfold (add_rec_of_rec tid names) ds p1 = Inr p'"
    unfolding recursive_tid_def q by (auto simp: Let_def)
  have "(p1 = p \<and> (\<forall>t \<in> set deps. rfold (\<lambda>taskname. add_recursive tid (t @ '':'' @ taskname)) names p = Inr p)) \<or> fst p < fst p1"
    by (rule rfold_stable [OF p1]) (drule add_names_stable, blast)
  moreover have "p' = p1 \<or> fst p1 < fst p'" by (rule add_rec_of_rec_stable [OF p'])
  ultimately show ?thesis by auto
qed

lemma recursive_tid_fixed:
  assumes "recursive_tid cum recs reci (tid, names) p = Inr p" "map_of (snd p) tid = Some e"
    "dep \<in> set (total_deps reci tid (snd p) (re_depends e))" "fn \<in> set (dd_get cum dep)" "name \<in> set names"
  shows "add_recursive tid (fn @ '':'' @ name) p = Inr p"
proof -
  let ?deps = "fold (\<lambda>dep ds. fold add_new (dd_get cum dep) ds) (total_deps reci tid (snd p) (re_depends e)) []"
  have "set (fold (\<lambda>dep ds. fold add_new (dd_get cum dep) ds) xs ds) = set ds \<union> (\<Union>d \<in> set xs. set (dd_get cum d))" for xs ds
    by (induction xs arbitrary: ds) (auto simp: set_fold_add_new)
  then have fn: "fn \<in> set ?deps" using assms(3,4) by auto
  from assms(1,2) obtain p1 ds where
      p1: "rfold (\<lambda>t. rfold (\<lambda>taskname. add_recursive tid (t @ '':'' @ taskname)) names) ?deps p = Inr p1"
    and p': "rfold (add_rec_of_rec tid names) ds p1 = Inr p"
    unfolding recursive_tid_def by (auto simp: Let_def dict_lookup_Some)
  have "p = p1 \<or> fst p1 < fst p" by (rule add_rec_of_rec_stable [OF p'])
  moreover have "(p1 = p \<and> (\<forall>t \<in> set ?deps. rfold (\<lambda>taskname. add_recursive tid (t @ '':'' @ taskname)) names p = Inr p)) \<or> fst p < fst p1"
    by (rule rfold_stable [OF p1]) (drule add_names_stable, blast)
  ultimately have "rfold (\<lambda>taskname. add_recursive tid (fn @ '':'' @ taskname)) names p = Inr p" using fn by auto
  from add_names_stable [OF this] assms(5) show ?thesis by auto
qed

lemma recursive_loop_fixed:
  "recursive_loop cum recs reci entries = Inr es \<Longrightarrow> \<forall>q \<in> set recs. recursive_tid cum recs reci q (0, es) = Inr (0, es)"
proof (induction cum recs reci entries rule: recursive_loop.induct)
  case (1 cum recs reci entries)
  from 1(2) obtain p where p: "recursive_pass cum recs reci entries = Inr p" "(if fst p = 0 then Inr (snd p) else recursive_loop cum recs reci (snd p)) = Inr es"
    by (subst (asm) recursive_loop.simps) auto
  show ?case
  proof (cases "fst p = 0")
    case False
    with p(2) 1(1) [OF p(1)] show ?thesis by simp
  next
    case True
    then have es: "p = (0, es)" using p(2) by (cases p) simp
    have "(p = (0, entries) \<and> (\<forall>q \<in> set recs. recursive_tid cum recs reci q (0, entries) = Inr (0, entries))) \<or> fst (0 :: nat, entries) < fst p"
      by (rule rfold_stable [OF p(1) [unfolded recursive_pass_def]]) (rule recursive_tid_stable)
    with True es show ?thesis by auto
  qed
qed

lemma deps_of_deps_set:
  assumes "deps_of_deps es recs depends = Inr ds"
  shows "set ds = (\<Union>dep \<in> {d \<in> set depends. has_key recs d}. set (deps_of es dep)) - set depends"
proof -
  have "set ds' = set acc \<union> ((\<Union>dep \<in> set xs. set (deps_of es dep)) - set depends)"
    if "rfold (\<lambda>dep ds. rbind (dict_lookup es dep) (\<lambda>e. Inr (fold add_new (filter (\<lambda>d. d \<notin> set depends) (re_depends e)) ds))) xs acc = Inr ds'" for xs acc ds'
    using that
  proof (induction xs arbitrary: acc)
    case (Cons x xs)
    then obtain e where e: "map_of es x = Some e" and r: "rfold (\<lambda>dep ds. rbind (dict_lookup es dep) (\<lambda>e. Inr (fold add_new (filter (\<lambda>d. d \<notin> set depends) (re_depends e)) ds)))
        xs (fold add_new (filter (\<lambda>d. d \<notin> set depends) (re_depends e)) acc) = Inr ds'" by auto
    from Cons.IH [OF r] e show ?case by (auto simp: set_fold_add_new deps_of_def)
  qed simp
  from this [OF assms [unfolded deps_of_deps_def]] show ?thesis by auto
qed

lemma add_rec_of_rec_fixed:
  assumes "add_rec_of_rec tid names d p = Inr p" "name \<in> set names" "endswith d ('':'' @ name)"
  shows "\<not> has_key (snd p) d"
proof
  assume d: "has_key (snd p) d"
  let ?f = "\<lambda>n p. if \<not> endswith d ('':'' @ n) then Inr p
      else if has_key (snd p) d then rbind (upd_depends tid (add_new d) (snd p)) (\<lambda>entries'. Inr (Suc (fst p), entries')) else Inr p"
  have step: "q' = q \<or> fst q < fst q'" if "?f n q = Inr q'" for n q q'
    using that add_matching_cases [where E = "\<lambda>n. endswith d ('':'' @ n)" and ns = "[n]" and p = q and p' = q' and newtid = d and tid = tid] by auto
  have "rfold ?f names p = Inr p" using assms(1) unfolding add_rec_of_rec_def .
  from rfold_stable [OF this] step assms(2) have "?f name p = Inr p" by blast
  with assms(3) d show False by (cases "upd_depends tid (add_new d) (snd p)"; cases p) simp_all
qed

lemma recursive_tid_fixed_rec:
  assumes "recursive_tid cum recs reci (tid, names) p = Inr p" "map_of (snd p) tid = Some e"
    "dep \<in> set (re_depends e)" "has_key recs dep" "d \<in> set (deps_of (snd p) dep)" "name \<in> set names" "endswith d ('':'' @ name)" "has_key (snd p) d"
  shows "d \<in> set (re_depends e)"
proof (rule ccontr)
  assume new: "d \<notin> set (re_depends e)"
  let ?deps = "fold (\<lambda>dep ds. fold add_new (dd_get cum dep) ds) (total_deps reci tid (snd p) (re_depends e)) []"
  from assms(1,2) obtain p1 e1 ds where
      p1: "rfold (\<lambda>t. rfold (\<lambda>taskname. add_recursive tid (t @ '':'' @ taskname)) names) ?deps p = Inr p1"
    and e1: "map_of (snd p1) tid = Some e1" and ds: "deps_of_deps (snd p1) recs (re_depends e1) = Inr ds"
    and p': "rfold (add_rec_of_rec tid names) ds p1 = Inr p"
    unfolding recursive_tid_def by (auto simp: Let_def dict_lookup_Some)
  have a: "p = p1 \<or> fst p1 < fst p" by (rule add_rec_of_rec_stable [OF p'])
  have "(p1 = p \<and> (\<forall>t \<in> set ?deps. rfold (\<lambda>taskname. add_recursive tid (t @ '':'' @ taskname)) names p = Inr p)) \<or> fst p < fst p1"
    by (rule rfold_stable [OF p1]) (drule add_names_stable, blast)
  with a have same: "p1 = p" by auto
  then have "d \<in> set ds" using deps_of_deps_set [OF ds] e1 assms(2-5) new by auto
  have "(p = p \<and> (\<forall>x \<in> set ds. add_rec_of_rec tid names x p = Inr p)) \<or> fst p < fst p"
    by (rule rfold_stable [OF p' [unfolded same]]) (use add_rec_of_rec_cases in blast)
  with \<open>d \<in> set ds\<close> have "add_rec_of_rec tid names d p = Inr p" by auto
  from add_rec_of_rec_fixed [OF this assms(6,7)] assms(8) show False by blast
qed

lemma recursive_loop_complete:
  assumes "recursive_loop cum recs reci entries = Inr es" and "(tid, names) \<in> set recs" and "name \<in> set names"
  shows "\<forall>dep \<in> set (total_deps reci tid es (deps_of es tid)). \<forall>fn \<in> set (dd_get cum dep).
      fn @ '':'' @ name \<noteq> tid \<and> has_key es (fn @ '':'' @ name) \<longrightarrow> fn @ '':'' @ name \<in> set (deps_of es tid)"
    and "\<forall>dep \<in> set (deps_of es tid). has_key recs dep \<longrightarrow>
      (\<forall>d \<in> set (deps_of es dep). endswith d ('':'' @ name) \<and> has_key es d \<longrightarrow> d \<in> set (deps_of es tid))"
proof -
  have fixed: "recursive_tid cum recs reci (tid, names) (0, es) = Inr (0, es)" using recursive_loop_fixed [OF assms(1)] assms(2) by blast
  then obtain e where e: "map_of es tid = Some e" by (auto simp: recursive_tid_def)
  then have d: "deps_of es tid = re_depends e" by (simp add: deps_of_def)
  show "\<forall>dep \<in> set (total_deps reci tid es (deps_of es tid)). \<forall>fn \<in> set (dd_get cum dep).
      fn @ '':'' @ name \<noteq> tid \<and> has_key es (fn @ '':'' @ name) \<longrightarrow> fn @ '':'' @ name \<in> set (deps_of es tid)"
  proof (intro ballI impI)
    fix dep fn
    assume h: "dep \<in> set (total_deps reci tid es (deps_of es tid))" "fn \<in> set (dd_get cum dep)"
      "fn @ '':'' @ name \<noteq> tid \<and> has_key es (fn @ '':'' @ name)"
    have "add_recursive tid (fn @ '':'' @ name) (0, es) = Inr (0, es)"
      by (rule recursive_tid_fixed [OF fixed _ _ h(2) assms(3)]) (use e d h(1) in simp_all)
    with h(3) e show "fn @ '':'' @ name \<in> set (deps_of es tid)"
      unfolding d by (cases "fn @ '':'' @ name \<in> set (re_depends e)") (auto simp: add_recursive_def dict_lookup_Some)
  qed
  show "\<forall>dep \<in> set (deps_of es tid). has_key recs dep \<longrightarrow>
      (\<forall>d \<in> set (deps_of es dep). endswith d ('':'' @ name) \<and> has_key es d \<longrightarrow> d \<in> set (deps_of es tid))"
    unfolding d using recursive_tid_fixed_rec [OF fixed _ _ _ _ assms(3)] e by auto
qed

section \<open>The loop only adds dependencies\<close>

definition grows :: "rtentries \<Rightarrow> rtentries \<Rightarrow> bool" where
  "grows es es' \<longleftrightarrow> queue_wf es' \<and> set (dict_keys es') = set (dict_keys es) \<and> (\<forall>t. set (deps_of es t) \<subseteq> set (deps_of es' t))"

lemma grows_refl: "queue_wf es \<Longrightarrow> grows es es"
  by (simp add: grows_def)

lemma grows_trans: "grows a b \<Longrightarrow> grows b c \<Longrightarrow> grows a c"
  unfolding grows_def by blast

text \<open>A body that always succeeds on a well-formed queue and only adds dependencies.\<close>

definition grower :: "string set \<Rightarrow> (nat \<times> rtentries \<Rightarrow> (nat \<times> rtentries) result) \<Rightarrow> bool" where
  "grower K f \<longleftrightarrow> (\<forall>p. queue_wf (snd p) \<and> set (dict_keys (snd p)) = K \<longrightarrow> (\<exists>p'. f p = Inr p' \<and> grows (snd p) (snd p')))"

lemma growerE:
  assumes "grower K f" "queue_wf (snd p)" "set (dict_keys (snd p)) = K"
  obtains p' where "f p = Inr p'" "grows (snd p) (snd p')" "queue_wf (snd p')" "set (dict_keys (snd p')) = K"
  using assms unfolding grower_def grows_def by metis

lemma grower_rfold: "(\<And>x. x \<in> set xs \<Longrightarrow> grower K (f x)) \<Longrightarrow> grower K (rfold f xs)"
proof (induction xs)
  case Nil
  then show ?case by (simp add: grower_def grows_refl)
next
  case (Cons x xs)
  show ?case unfolding grower_def
  proof (intro allI impI, elim conjE)
    fix p :: "nat \<times> rtentries"
    assume p: "queue_wf (snd p)" "set (dict_keys (snd p)) = K"
    from Cons.prems [of x] obtain q where q: "f x p = Inr q" "grows (snd p) (snd q)" "queue_wf (snd q)" "set (dict_keys (snd q)) = K"
      using growerE [OF _ p] by (metis list.set_intros(1))
    have "grower K (rfold f xs)" by (rule Cons.IH) (simp add: Cons.prems)
    then obtain r where "rfold f xs q = Inr r" "grows (snd q) (snd r)" using growerE [OF _ q(3,4)] by metis
    with q show "\<exists>p'. rfold f (x # xs) p = Inr p' \<and> grows (snd p) (snd p')" by (auto intro: grows_trans)
  qed
qed

lemma upd_depends_wf:
  assumes "queue_wf es" "tid \<in> set (dict_keys es)" "\<And>ds. distinct ds \<Longrightarrow> distinct (f ds)"
    "set (f (deps_of es tid)) \<subseteq> set (dict_keys es)"
  shows "\<exists>es'. upd_depends tid f es = Inr es' \<and> queue_wf es' \<and> dict_keys es' = dict_keys es \<and>
    (\<forall>t. deps_of es' t = (if t = tid then f (deps_of es tid) else deps_of es t))"
proof -
  obtain e where e: "map_of es tid = Some e" using assms(2) has_key_iff [of es tid] unfolding has_key_def by blast
  let ?es = "dict_set tid (e\<lparr>re_depends := f (re_depends e)\<rparr>) es"
  have keys: "dict_keys ?es = dict_keys es" using assms(2) by (simp add: dict_keys_set del: set_map)
  have d: "deps_of ?es t = (if t = tid then f (deps_of es tid) else deps_of es t)" "revs_of ?es t = revs_of es t" for t
    using e by (simp_all add: deps_of_def revs_of_def)
  have "queue_wf ?es" using assms unfolding queue_wf_def deps_closed_def keys d by auto
  with e keys d(1) show ?thesis by (simp add: upd_depends_def dict_lookup_Some)
qed

lemma add_new_grows:
  assumes "queue_wf es" "tid \<in> set (dict_keys es)" "has_key es d"
  shows "\<exists>es'. upd_depends tid (add_new d) es = Inr es' \<and> grows es es'"
proof -
  have "set (deps_of es tid) \<subseteq> set (dict_keys es)" using assms(1,2) unfolding queue_wf_def deps_closed_def by blast
  then obtain es' where "upd_depends tid (add_new d) es = Inr es'" "queue_wf es'" "dict_keys es' = dict_keys es"
      "\<forall>t. deps_of es' t = (if t = tid then add_new d (deps_of es tid) else deps_of es t)"
    using upd_depends_wf [OF assms(1,2), of "add_new d"] assms(3) by (auto simp: has_key_iff simp del: set_map)
  then show ?thesis by (intro exI [of _ es']) (auto simp: grows_def)
qed

lemma grower_add_recursive:
  assumes "tid \<in> K"
  shows "grower K (add_recursive tid n)"
  unfolding grower_def
proof (intro allI impI, elim conjE)
  fix p :: "nat \<times> rtentries"
  assume p: "queue_wf (snd p)" "set (dict_keys (snd p)) = K"
  obtain e where e: "map_of (snd p) tid = Some e" using assms p(2) has_key_iff [of "snd p" tid] unfolding has_key_def by blast
  show "\<exists>p'. add_recursive tid n p = Inr p' \<and> grows (snd p) (snd p')"
  proof (cases "n = tid \<or> \<not> has_key (snd p) n \<or> n \<in> set (re_depends e)")
    case True
    then have "add_recursive tid n p = Inr p" using e by (cases p) (auto simp: add_recursive_def dict_lookup_Some)
    then show ?thesis using grows_refl [OF p(1)] by simp
  next
    case False
    with add_new_grows [OF p(1), of tid n] assms p(2) obtain es' where "upd_depends tid (add_new n) (snd p) = Inr es'" "grows (snd p) es'" by auto
    with False e show ?thesis by (cases p) (auto simp: add_recursive_def dict_lookup_Some)
  qed
qed

lemma grower_add_rec_of_rec:
  assumes "tid \<in> K"
  shows "grower K (add_rec_of_rec tid names d)"
  unfolding add_rec_of_rec_def
proof (rule grower_rfold)
  fix n
  show "grower K (\<lambda>p. if \<not> endswith d ('':'' @ n) then Inr p
      else if has_key (snd p) d then rbind (upd_depends tid (add_new d) (snd p)) (\<lambda>entries'. Inr (Suc (fst p), entries')) else Inr p)"
    unfolding grower_def
  proof (intro allI impI, elim conjE)
    fix p :: "nat \<times> rtentries"
    assume p: "queue_wf (snd p)" "set (dict_keys (snd p)) = K"
    show "\<exists>p'. (if \<not> endswith d ('':'' @ n) then Inr p
      else if has_key (snd p) d then rbind (upd_depends tid (add_new d) (snd p)) (\<lambda>entries'. Inr (Suc (fst p), entries')) else Inr p) = Inr p' \<and>
      grows (snd p) (snd p')"
    proof (cases "endswith d ('':'' @ n) \<and> has_key (snd p) d")
      case True
      with add_new_grows [OF p(1), of tid d] assms p(2) obtain es' where "upd_depends tid (add_new d) (snd p) = Inr es'" "grows (snd p) es'" by auto
      with True show ?thesis by (simp only: rbind_simps if_True if_False not_True_eq_False) (intro exI conjI, rule refl, simp)
    next
      case False
      then show ?thesis using grows_refl [OF p(1)] by (cases "endswith d ('':'' @ n)") (simp_all only: simp_thms if_True if_False, blast+)
    qed
  qed
qed

lemma grower_recursive_tid:
  assumes "tid \<in> K"
  shows "grower K (recursive_tid cum recs reci (tid, names))"
  unfolding grower_def
proof (intro allI impI, elim conjE)
  fix p :: "nat \<times> rtentries"
  assume p: "queue_wf (snd p)" "set (dict_keys (snd p)) = K"
  have has: "\<exists>e. map_of (snd q) t = Some e" if "t \<in> K" "set (dict_keys (snd q)) = K" for q :: "nat \<times> rtentries" and t
    using that has_key_iff [of "snd q" t] unfolding has_key_def by blast
  obtain e where e: "map_of (snd p) tid = Some e" using has [OF assms p(2)] by blast
  let ?deps = "fold (\<lambda>dep ds. fold add_new (dd_get cum dep) ds) (total_deps reci tid (snd p) (re_depends e)) []"
  have "grower K (rfold (\<lambda>t. rfold (\<lambda>taskname. add_recursive tid (t @ '':'' @ taskname)) names) ?deps)"
    by (intro grower_rfold grower_add_recursive assms)
  from growerE [OF this p] obtain p1 where p1: "rfold (\<lambda>t. rfold (\<lambda>taskname. add_recursive tid (t @ '':'' @ taskname)) names) ?deps p = Inr p1"
    "grows (snd p) (snd p1)" "queue_wf (snd p1)" "set (dict_keys (snd p1)) = K" .
  obtain e1 where e1: "map_of (snd p1) tid = Some e1" using has [OF assms p1(4)] by blast
  have dK: "set (re_depends e1) \<subseteq> K"
    using p1(3,4) assms e1 unfolding queue_wf_def deps_closed_def by (metis deps_of_def option.case(2))
  have "\<exists>ds. deps_of_deps (snd p1) recs (re_depends e1) = Inr ds" unfolding deps_of_deps_def
  proof (rule rfold_total)
    fix x c
    assume "x \<in> set (filter (has_key recs) (re_depends e1))"
    then obtain f where "map_of (snd p1) x = Some f" using has [OF _ p1(4), of x] dK by auto
    then show "\<exists>c'. rbind (dict_lookup (snd p1) x) (\<lambda>e. Inr (fold add_new (filter (\<lambda>d. d \<notin> set (re_depends e1)) (re_depends e)) c)) = Inr c'"
      by (simp add: dict_lookup_Some)
  qed
  then obtain ds where ds: "deps_of_deps (snd p1) recs (re_depends e1) = Inr ds" by blast
  have "grower K (rfold (add_rec_of_rec tid names) ds)" by (intro grower_rfold grower_add_rec_of_rec assms)
  from growerE [OF this p1(3,4)] obtain p2 where p2: "rfold (add_rec_of_rec tid names) ds p1 = Inr p2" "grows (snd p1) (snd p2)" by metis
  have "recursive_tid cum recs reci (tid, names) p = Inr p2"
    using e e1 p1(1) ds p2(1) by (simp add: recursive_tid_def dict_lookup_Some Let_def)
  with grows_trans [OF p1(2) p2(2)] show "\<exists>p'. recursive_tid cum recs reci (tid, names) p = Inr p' \<and> grows (snd p) (snd p')" by blast
qed

lemma recursive_loop_grows:
  "queue_wf entries \<Longrightarrow> set (dict_keys recs) \<subseteq> set (dict_keys entries) \<Longrightarrow> \<exists>es. recursive_loop cum recs reci entries = Inr es \<and> grows entries es"
proof (induction cum recs reci entries rule: recursive_loop.induct)
  case (1 cum recs reci entries)
  have "grower (set (dict_keys entries)) (rfold (recursive_tid cum recs reci) recs)"
  proof (rule grower_rfold)
    fix q
    assume "q \<in> set recs"
    then have "fst q \<in> set (dict_keys entries)" using 1(3) by auto
    then show "grower (set (dict_keys entries)) (recursive_tid cum recs reci q)" using grower_recursive_tid by (cases q) simp
  qed
  then obtain p where p: "recursive_pass cum recs reci entries = Inr p" "grows entries (snd p)"
    using growerE [of _ _ "(0, entries)"] 1(2) unfolding recursive_pass_def by (metis snd_conv)
  have p2: "queue_wf (snd p)" "set (dict_keys recs) \<subseteq> set (dict_keys (snd p))" using p(2) 1(3) unfolding grows_def by blast+
  show ?case
  proof (cases "fst p = 0")
    case True
    with p show ?thesis by (subst recursive_loop.simps) simp
  next
    case False
    from 1(1) [OF p(1) False p2] obtain es where "recursive_loop cum recs reci (snd p) = Inr es" "grows (snd p) es" by blast
    with False p show ?thesis by (subst recursive_loop.simps) (auto intro: grows_trans)
  qed
qed

text \<open>C11. The loop over the recursive tasks always ends without an exception. It only adds dependencies, between tasks of the queue; and in its
  result every recursive task has the dependencies it asks for: each task with one of the requested names of every recipe among the
  cumulative dependencies of its dependencies, and each dependency with such a name of a recursive task it depends on.\<close>

theorem recursive_deps_complete:
  assumes "queue_wf entries" and "set (dict_keys recs) \<subseteq> set (dict_keys entries)"
  shows "\<exists>es. recursive_loop cum recs reci entries = Inr es \<and> grows entries es \<and>
    (\<forall>tid names name. (tid, names) \<in> set recs \<longrightarrow> name \<in> set names \<longrightarrow>
      (\<forall>dep \<in> set (total_deps reci tid es (deps_of es tid)). \<forall>fn \<in> set (dd_get cum dep).
         fn @ '':'' @ name \<noteq> tid \<and> has_key es (fn @ '':'' @ name) \<longrightarrow> fn @ '':'' @ name \<in> set (deps_of es tid)) \<and>
      (\<forall>dep \<in> set (deps_of es tid). has_key recs dep \<longrightarrow>
         (\<forall>d \<in> set (deps_of es dep). endswith d ('':'' @ name) \<and> has_key es d \<longrightarrow> d \<in> set (deps_of es tid))))"
proof -
  from recursive_loop_grows [OF assms] obtain es where es: "recursive_loop cum recs reci entries = Inr es" "grows entries es" by blast
  show ?thesis
    by (intro exI [of _ es] conjI allI impI es) (rule recursive_loop_complete [OF es(1)], assumption+)+
qed

definition sample_image :: rtentries where
  "sample_image = [(''i:r'', RunTaskEntry\<lparr>re_depends := [''a:x'']\<rparr>), (''a:x'', RunTaskEntry\<lparr>re_depends := [''b:x'']\<rparr>), (''b:x'', RunTaskEntry)]"

theorem recursive_deps_complete_witness:
  "\<exists>es. recursive_loop [(''i:r'', [''a'', ''b'']), (''a:x'', [''b''])] [(''i:r'', [''x''])] [] sample_image = Inr es \<and>
     deps_of es ''i:r'' = [''a:x'', ''b:x'']"
proof -
  have "queue_wf sample_image" by code_simp
  moreover have "set (dict_keys [(''i:r'', [''x''])]) \<subseteq> set (dict_keys sample_image)" by code_simp
  ultimately obtain es where "recursive_loop [(''i:r'', [''a'', ''b'']), (''a:x'', [''b''])] [(''i:r'', [''x''])] [] sample_image = Inr es"
    using recursive_deps_complete by blast
  moreover have "(case recursive_loop [(''i:r'', [''a'', ''b'']), (''a:x'', [''b''])] [(''i:r'', [''x''])] [] sample_image of
      Inl _ \<Rightarrow> False | Inr es \<Rightarrow> deps_of es ''i:r'' = [''a:x'', ''b:x''])" by code_simp
  ultimately show ?thesis by simp
qed

section \<open>Step A as a whole\<close>

lemma queue_wf_entries_ok: "entries_ok entries \<Longrightarrow> deps_closed entries \<Longrightarrow> queue_wf entries"
  unfolding entries_ok_def queue_wf_def by (simp add: deps_of_def revs_of_def split: option.split)

lemma drop_selfrefs_wf:
  "queue_wf es \<Longrightarrow> set ts \<subseteq> set (dict_keys es) \<Longrightarrow> \<exists>es'. rfold (\<lambda>tid. upd_depends tid (filter P)) ts es = Inr es' \<and> queue_wf es' \<and> dict_keys es' = dict_keys es"
proof (induction ts arbitrary: es)
  case (Cons t ts)
  have "set (filter P (deps_of es t)) \<subseteq> set (dict_keys es)" using Cons.prems unfolding queue_wf_def deps_closed_def by (auto simp del: set_map)
  moreover have "t \<in> set (dict_keys es)" using Cons.prems(2) by (simp del: set_map)
  ultimately obtain es1 where e1: "upd_depends t (filter P) es = Inr es1" "queue_wf es1" "dict_keys es1 = dict_keys es"
    using upd_depends_wf [OF Cons.prems(1), of t "filter P"] distinct_filter by blast
  have "set ts \<subseteq> set (dict_keys es1)" using Cons.prems(2) e1(3) by (simp del: set_map)
  from Cons.IH [OF e1(2) this] e1 show ?case by (simp del: set_map)
qed simp

text \<open>What the preparation's first step delivers: whenever it returns, a queue in which every dependency is a task of the queue.\<close>

lemma task_graph_wf:
  assumes "task_graph dcs tds = Inr st"
  shows "queue_wf (pp_entries st)"
proof -
  from assms obtain st0 cum es es' where r: "resolve_dependencies dcs tds = Inr st0" "cumulative_deps (pp_entries st0) = Inr cum"
      "recursive_loop cum (pp_rec st0) (pp_reci st0) (pp_entries st0) = Inr es" "drop_selfrefs (pp_selfref st0) es = Inr es'" "st = st0\<lparr>pp_entries := es'\<rparr>"
    by (auto simp: task_graph_def)
  have ok: "prep_ok st0" by (rule resolve_dependencies_ok [OF r(1)])
  from r(2) obtain rv where "temp_revdeps (pp_entries st0) = Inr rv" by (auto simp: cumulative_deps_def)
  then have q: "queue_wf (pp_entries st0)"
    using temp_revdeps_inv [of "pp_entries st0"] ok unfolding prep_ok_def by (intro queue_wf_entries_ok) (auto simp: entries_ok_def)
  have "set (dict_keys (pp_rec st0)) \<subseteq> set (dict_keys (pp_entries st0))" using ok unfolding prep_ok_def by blast
  from recursive_loop_grows [OF q this, of cum "pp_reci st0"] r(3) have g: "grows (pp_entries st0) es" by simp
  then have "queue_wf es" "set (pp_selfref st0) \<subseteq> set (dict_keys es)" using ok unfolding prep_ok_def grows_def by blast+
  from drop_selfrefs_wf [OF this, of "\<lambda>d. d \<notin> set (pp_selfref st0)"] r(4) have "queue_wf es'" unfolding drop_selfrefs_def by auto
  with r(5) show ?thesis by simp
qed

end
