(* ===== verification/BB_Queue.thy ===== *)
theory BB_Queue
  imports BB_Hashes BB_Recursive
begin

text \<open>
  The preparation of the run queue as a whole: which tasks are in the queue it delivers, that the queue has no circular dependency, and
  that the hashes are computed in dependency order.
\<close>

section \<open>Marked queues\<close>

text \<open>A restart of the marking keeps a closed part of a well-formed queue.\<close>

lemma prune_wf:
  assumes "queue_wf entries" "marks entries T [] b" "prune b (entries, del) = Inr p"
  shows "queue_wf (fst p)" "dict_keys (fst p) = filter (\<lambda>t. t \<in> dep_reach entries T) (dict_keys entries)"
    "deps_of (fst p) t = (if t \<in> dep_reach entries T then deps_of entries t else [])"
proof -
  have b: "set b = dep_reach entries T" using marks_closed [OF assms(2)] by simp
  have p: "fst p = filter (\<lambda>q. fst q \<in> dep_reach entries T) entries"
    using prune_exact [OF _ assms(3)] assms(1) unfolding queue_wf_def b by blast
  have sub: "dep_reach entries T \<subseteq> set (dict_keys entries)" "\<And>t. t \<in> dep_reach entries T \<Longrightarrow> set (deps_of entries t) \<subseteq> dep_reach entries T"
    using assms(2) unfolding marks_def b by auto
  show "queue_wf (fst p)" unfolding p by (rule queue_wf_restrict [OF assms(1) sub(2,1)])
  show "dict_keys (fst p) = filter (\<lambda>t. t \<in> dep_reach entries T) (dict_keys entries)" unfolding p by (simp add: filter_map comp_def)
  show "deps_of (fst p) t = (if t \<in> dep_reach entries T then deps_of entries t else [])"
    unfolding p by (simp add: deps_of_def map_of_filter_keys)
qed

lemma mark_and_force_marks:
  "mark_and_force sg env entries tid (b, g) = Inr (b', g') \<Longrightarrow> marks entries {tid} b b'"
  by (auto simp: mark_and_force_def dest: mark_marks)

lemma mark_and_force_all:
  "rfold (mark_and_force sg env entries) tids (b, g) = Inr (b', g') \<Longrightarrow> marks entries (set tids) b b'"
proof (induction tids arbitrary: b g)
  case (Cons t tids)
  then obtain b1 g1 where 1: "mark_and_force sg env entries t (b, g) = Inr (b1, g1)" "rfold (mark_and_force sg env entries) tids (b1, g1) = Inr (b', g')" by auto
  from marks_trans [OF mark_and_force_marks [OF 1(1)] Cons.IH [OF 1(2)]] show ?case by simp
qed (simp add: marks_refl)

lemma runonly_marks:
  "rfold (runonly_task sg env entries) tasks (b, g) = Inr (b', g') \<Longrightarrow> \<exists>T. marks entries T b b'"
proof (induction tasks arbitrary: b g)
  case Nil
  then show ?case using marks_refl [of "{}" b entries] by auto
next
  case (Cons t tasks)
  then obtain b1 g1 where 1: "runonly_task sg env entries t (b, g) = Inr (b1, g1)" "rfold (runonly_task sg env entries) tasks (b1, g1) = Inr (b', g')" by auto
  from 1(1) obtain tids where "rfold (mark_and_force sg env entries) tids (b, g) = Inr (b1, g1)" by (auto simp: runonly_task_def)
  from marks_trans [OF mark_and_force_all [OF this]] Cons.IH [OF 1(2)] show ?case by blast
qed

lemma handle_runonly_wf:
  assumes "handle_runonly sg env (entries, del) g = Inr (p, g')" "queue_wf entries"
  shows "queue_wf (fst p)" "set (dict_keys (fst p)) \<subseteq> set (dict_keys entries)"
proof -
  have "queue_wf (fst p) \<and> set (dict_keys (fst p)) \<subseteq> set (dict_keys entries)"
  proof (cases "pe_runonly env = []")
    case True
    with assms show ?thesis by (auto simp: handle_runonly_def)
  next
    case False
    with assms(1) obtain b g1 where r: "rfold (runonly_task sg env entries) (pe_runonly env) ([], g) = Inr (b, g1)" "prune b (entries, del) = Inr p"
      by (auto simp: handle_runonly_def split: if_splits)
    from runonly_marks [OF r(1)] obtain T where "marks entries T [] b" by blast
    from prune_wf [OF assms(2) this r(2)] show ?thesis by auto
  qed
  then show "queue_wf (fst p)" "set (dict_keys (fst p)) \<subseteq> set (dict_keys entries)" by blast+
qed

section \<open>Tasks taken back\<close>

text \<open>While \<^verbatim>\<open>--runall\<close> takes tasks back, the entries are a part of the complete table \<open>E\<close>, and what is marked is closed under its dependencies.\<close>

definition taken_part :: "rtentries \<Rightarrow> rtentries \<Rightarrow> bool" where
  "taken_part E es \<longleftrightarrow> dict_wf es \<and> map_of es \<subseteq>\<^sub>m map_of E"

definition closed_marks :: "rtentries \<Rightarrow> string list \<Rightarrow> bool" where
  "closed_marks es b \<longleftrightarrow> set b \<subseteq> set (dict_keys es) \<and> (\<forall>u \<in> set b. set (deps_of es u) \<subseteq> set b)"

lemma key_map_of: "t \<in> set (dict_keys es) \<longleftrightarrow> (\<exists>e. map_of es t = Some e)"
  using has_key_iff [of es t] unfolding has_key_def by auto

lemma map_le_Some: "m \<subseteq>\<^sub>m m' \<Longrightarrow> m k = Some v \<Longrightarrow> m' k = Some v"
  by (metis domI map_le_def)

lemma part_same:
  assumes "map_of es \<subseteq>\<^sub>m map_of E" "t \<in> set (dict_keys es)"
  shows "t \<in> set (dict_keys E)" "deps_of es t = deps_of E t" "revs_of es t = revs_of E t"
proof -
  from assms(2) obtain e where e: "map_of es t = Some e" unfolding key_map_of by blast
  then have E: "map_of E t = Some e" by (rule map_le_Some [OF assms(1)])
  then show "t \<in> set (dict_keys E)" unfolding key_map_of by blast
  show "deps_of es t = deps_of E t" "revs_of es t = revs_of E t" using e E by (simp_all add: deps_of_def revs_of_def)
qed

lemma closed_marks_step: "closed_marks es b \<Longrightarrow> marks es T b b' \<Longrightarrow> closed_marks es b'"
  unfolding closed_marks_def marks_def by blast

lemma closed_marks_grow:
  assumes "closed_marks es b" "map_of es \<subseteq>\<^sub>m map_of es'"
  shows "closed_marks es' b"
proof -
  have same: "u \<in> set (dict_keys es')" "deps_of es' u = deps_of es u" if "u \<in> set b" for u
    using assms(1) part_same(1,2) [OF assms(2), of u] that unfolding closed_marks_def by (auto dest: subsetD simp del: set_map)
  show ?thesis unfolding closed_marks_def
  proof (intro conjI ballI subsetI)
    show "u \<in> set (dict_keys es')" if "u \<in> set b" for u by (rule same(1) [OF that])
    show "d \<in> set b" if "u \<in> set b" "d \<in> set (deps_of es' u)" for u d
      using assms(1) that(2) same(2) [OF that(1)] that(1) unfolding closed_marks_def by auto
  qed
qed

lemma taken_part_set:
  assumes "taken_part E es" "map_of E w = Some e"
  shows "taken_part E (dict_set w e es)" "map_of es \<subseteq>\<^sub>m map_of (dict_set w e es)"
  using assms unfolding taken_part_def by (force simp: map_le_def)+

lemma runall_step_part:
  assumes "taken_part E es" "map_of del \<subseteq>\<^sub>m map_of E"
  shows "taken_part E (fst (runall_step task del tid (es, tids)))" "map_of es \<subseteq>\<^sub>m map_of (fst (runall_step task del tid (es, tids)))"
proof -
  let ?w = "fn_from_tid tid @ '':'' @ task"
  have "taken_part E (fst (runall_step task del tid (es, tids))) \<and> map_of es \<subseteq>\<^sub>m map_of (fst (runall_step task del tid (es, tids)))"
  proof (cases "map_of del ?w")
    case None
    with assms(1) show ?thesis by (simp add: runall_step_def Let_def)
  next
    case (Some e)
    then have "map_of E ?w = Some e" by (rule map_le_Some [OF assms(2)])
    with taken_part_set [OF assms(1) this] Some show ?thesis by (simp add: runall_step_def Let_def)
  qed
  then show "taken_part E (fst (runall_step task del tid (es, tids)))"
    "map_of es \<subseteq>\<^sub>m map_of (fst (runall_step task del tid (es, tids)))" by blast+
qed

lemma runall_fold_part:
  assumes "map_of del \<subseteq>\<^sub>m map_of E" "taken_part E es"
  shows "taken_part E (fst (fold (runall_step task del) ts (es, tids))) \<and> map_of es \<subseteq>\<^sub>m map_of (fst (fold (runall_step task del) ts (es, tids)))"
  using assms(2)
proof (induction ts arbitrary: es tids)
  case (Cons t ts)
  obtain es1 tids1 where s: "runall_step task del t (es, tids) = (es1, tids1)" by fastforce
  with runall_step_part [OF Cons.prems assms(1), of task t tids] have "taken_part E es1" "map_of es \<subseteq>\<^sub>m map_of es1" by simp_all
  with Cons.IH [of es1 tids1] s show ?case by (auto intro: map_le_trans)
qed simp

lemma runall_task_part:
  assumes "runall_task sg env del task (es, b, g) = Inr (es', b', g')" "map_of del \<subseteq>\<^sub>m map_of E" "taken_part E es" "closed_marks es b"
  shows "taken_part E es' \<and> closed_marks es' b'"
proof -
  obtain es1 tids where f: "fold (runall_step (do_name task) del) (dict_keys es) (es, []) = (es1, tids)" by fastforce
  with assms(1) have m: "rfold (mark_and_force sg env es1) tids (b, g) = Inr (b', g')" "es' = es1"
    unfolding runall_task_def by auto
  from runall_fold_part [OF assms(2,3), of "do_name task" "dict_keys es" "[]"] f
  have "taken_part E es1" "map_of es \<subseteq>\<^sub>m map_of es1" by simp_all
  with closed_marks_step [OF closed_marks_grow [OF assms(4)] mark_and_force_all [OF m(1)]] m(2) show ?thesis by simp
qed

lemma runall_tasks_part:
  "rfold (runall_task sg env del) tasks (es, b, g) = Inr (es', b', g') \<Longrightarrow> map_of del \<subseteq>\<^sub>m map_of E \<Longrightarrow> taken_part E es \<Longrightarrow>
   closed_marks es b \<Longrightarrow> taken_part E es' \<and> closed_marks es' b'"
proof (induction tasks arbitrary: es b g)
  case (Cons t tasks)
  then obtain es1 b1 g1 where 1: "runall_task sg env del t (es, b, g) = Inr (es1, b1, g1)"
    "rfold (runall_task sg env del) tasks (es1, b1, g1) = Inr (es', b', g')" by auto
  from runall_task_part [OF 1(1) Cons.prems(2-4)] Cons.IH [OF 1(2) Cons.prems(2)] show ?case by blast
qed simp

lemma prune_taken:
  assumes "prune b (E, []) = Inr p" "dict_wf E"
  shows "taken_part E (fst p)" "map_of (snd p) \<subseteq>\<^sub>m map_of E"
proof -
  have "fst p = filter (\<lambda>q. fst q \<in> set b) E" by (rule prune_exact [OF assms(2,1)])
  then show "taken_part E (fst p)" using assms(2) by (auto simp: taken_part_def map_le_def map_of_filter_keys distinct_map_filter split: if_splits)
  have "map_of (snd p) \<subseteq>\<^sub>m map_of E"
    if "rfold (prune_step b) ts (es, del) = Inr p" "map_of es \<subseteq>\<^sub>m map_of E" "map_of del \<subseteq>\<^sub>m map_of E" for ts es del
    using that
  proof (induction ts arbitrary: es del)
    case (Cons t ts)
    then obtain es1 del1 where s: "prune_step b t (es, del) = Inr (es1, del1)" "rfold (prune_step b) ts (es1, del1) = Inr p" by auto
    show ?case
    proof (cases "t \<in> set b")
      case True
      with s Cons show ?thesis by (auto simp: prune_step_def)
    next
      case False
      with s(1) obtain e where e: "map_of es t = Some e" "es1 = dict_del t es" "del1 = dict_set t e del" by (auto simp: prune_step_def)
      have "map_of es1 \<subseteq>\<^sub>m map_of E" using Cons.prems(2) map_of_filter_keys [of "- {t}" es]
        by (auto simp: e(2) dict_del_def map_le_def)
      moreover have "map_of del1 \<subseteq>\<^sub>m map_of E" using Cons.prems(2,3) e(1,3) by (force simp: map_le_def)
      ultimately show ?thesis by (rule Cons.IH [OF s(2)])
    qed
  qed auto
  from this [OF assms(1) [unfolded prune_def fst_conv]] show "map_of (snd p) \<subseteq>\<^sub>m map_of E" by simp
qed

lemma closed_part_wf:
  assumes "queue_wf E" "taken_part E es" "closed_marks es b"
  shows "queue_wf (filter (\<lambda>q. fst q \<in> set b) es)"
proof -
  let ?es = "filter (\<lambda>q. fst q \<in> set b) es"
  have keys: "set (dict_keys ?es) = set b" using assms(3) unfolding closed_marks_def by auto
  have in_es: "t \<in> set (dict_keys es)" if "t \<in> set b" for t using assms(3) that unfolding closed_marks_def by blast
  have le: "map_of es \<subseteq>\<^sub>m map_of E" using assms(2) unfolding taken_part_def by blast
  have same: "deps_of ?es t = deps_of es t" "revs_of ?es t = revs_of es t" if "t \<in> set b" for t
    using that by (simp_all add: deps_of_def revs_of_def map_of_filter_keys)
  have "deps_closed ?es" unfolding deps_closed_def keys using same(1) assms(3) unfolding closed_marks_def by simp
  moreover have "dict_wf ?es" using assms(2) by (simp add: taken_part_def distinct_map_filter)
  moreover have "distinct (deps_of ?es t) \<and> revs_of ?es t = []" if "t \<in> set b" for t
    unfolding same [OF that] part_same(2,3) [OF le in_es [OF that]]
    using assms(1) part_same(1) [OF le in_es [OF that]] unfolding queue_wf_def by blast
  ultimately show ?thesis unfolding queue_wf_def keys by blast
qed

lemma handle_runall_wf:
  assumes "handle_runall sg env (es, del) g = Inr (p, g')" "queue_wf E" "queue_wf es" "taken_part E es" "map_of del \<subseteq>\<^sub>m map_of E"
  shows "queue_wf (fst p)"
proof (cases "pe_runall env = []")
  case True
  with assms(1,3) show ?thesis by (auto simp: handle_runall_def)
next
  case False
  with assms(1) obtain es1 b g1 where r: "rfold (runall_task sg env del) (pe_runall env) (es, [], g) = Inr (es1, b, g1)" "prune b (es1, del) = Inr p"
    by (auto simp: handle_runall_def split: if_splits)
  have "closed_marks es []" by (simp add: closed_marks_def)
  from runall_tasks_part [OF r(1) assms(5,4) this] have part: "taken_part E es1" "closed_marks es1 b" by blast+
  have "fst p = filter (\<lambda>q. fst q \<in> set b) es1" using prune_exact [OF _ r(2)] part(1) unfolding taken_part_def by blast
  with closed_part_wf [OF assms(2) part] show ?thesis by simp
qed

section \<open>Dependencies that --runall leaves out\<close>

text \<open>What marking can end in: a lookup of a task that is not in the queue. The depth bound is never met, as every level marks a new task of the queue.\<close>

lemma mark_active_error:
  "mark_active n es tid b = Inl x \<Longrightarrow> card (set (dict_keys es) - set b) < n \<Longrightarrow>
   (\<And>t. t \<in> set (dict_keys es) \<Longrightarrow> set (deps_of es t) \<subseteq> K) \<Longrightarrow> tid \<in> K \<Longrightarrow> \<exists>k. x = KeyError k \<and> k \<in> K \<and> k \<notin> set (dict_keys es)"
proof (induction n arbitrary: tid b x)
  case (Suc n)
  let ?K = "set (dict_keys es)"
  show ?case
  proof (cases "has_key es tid")
    case False
    with Suc.prems(1) have "x = KeyError tid" by (auto simp: has_key_def dict_lookup_def split: if_splits)
    with False Suc.prems(4) show ?thesis using has_key_iff [of es tid] by blast
  next
    case True
    then obtain e where e: "map_of es tid = Some e" unfolding has_key_def by blast
    have tid: "tid \<in> ?K" using True has_key_iff [of es tid] by blast
    with Suc.prems(1) e have r: "tid \<notin> set b" "rfold (mark_active n es) (re_depends e) (b @ [tid]) = Inl x"
      by (auto simp: dict_lookup_Some split: if_splits)
    have less: "card (?K - set (b @ [tid])) < n" using card_less_marked [OF tid r(1)] Suc.prems(2) by simp
    have K: "set (re_depends e) \<subseteq> K" using Suc.prems(3) [OF tid] e by (simp add: deps_of_def)
    have "\<exists>k. x = KeyError k \<and> k \<in> K \<and> k \<notin> ?K" if "rfold (mark_active n es) ds c = Inl x" "set ds \<subseteq> K" "card (?K - set c) < n" for ds c
      using that
    proof (induction ds arbitrary: c)
      case (Cons d ds)
      show ?case
      proof (cases "mark_active n es d c")
        case (Inl y)
        with Cons.prems(1) have "y = x" by simp
        with Suc.IH [OF Inl Cons.prems(3) Suc.prems(3)] Cons.prems(2) show ?thesis by simp
      next
        case (Inr c1)
        then have "set c \<subseteq> set c1" using mark_active_marks [OF Inr] unfolding marks_def by blast
        then have "card (?K - set c1) \<le> card (?K - set c)" by (intro card_mono) auto
        with Cons.IH [of c1] Cons.prems Inr show ?thesis by simp
      qed
    qed simp
    from this [OF r(2) K less] show ?thesis .
  qed
qed simp

lemma mark_error:
  assumes "mark es tid b = Inl x" "\<And>t. t \<in> set (dict_keys es) \<Longrightarrow> set (deps_of es t) \<subseteq> K" "tid \<in> set (dict_keys es)" "set (dict_keys es) \<subseteq> K"
  shows "\<exists>k. x = KeyError k \<and> k \<in> K \<and> k \<notin> set (dict_keys es)"
proof -
  have "card (set (dict_keys es) - set b) \<le> card (set (dict_keys es))" by (intro card_mono) auto
  also have "\<dots> \<le> length es" using card_length [of "dict_keys es"] by simp
  finally show ?thesis using mark_active_error [OF assms(1) [unfolded mark_def]] assms(2-4) by (simp add: subset_iff del: set_map)
qed

text \<open>Without \<^verbatim>\<open>--force\<close> the marking of a list of tasks needs all they depend on.\<close>

lemma mark_and_force_list:
  assumes "\<not> pe_force env" "set tids \<subseteq> set (dict_keys es)" "\<And>t. t \<in> set (dict_keys es) \<Longrightarrow> set (deps_of es t) \<subseteq> K" "set (dict_keys es) \<subseteq> K"
    and "want \<in> set tids" "d \<in> set (deps_of es want)" "d \<notin> set (dict_keys es)" "set b \<subseteq> set (dict_keys es)"
    and "\<forall>u \<in> set b. set (deps_of es u) \<subseteq> set b"
  shows "\<exists>k. rfold (mark_and_force sg env es) tids (b, g) = Inl (KeyError k) \<and> k \<in> K \<and> k \<notin> set (dict_keys es)"
  using assms(2,5,8,9)
proof (induction tids arbitrary: b)
  case (Cons t tids)
  show ?case
  proof (cases "mark es t b")
    case (Inl x)
    from mark_error [OF this assms(3)] Cons.prems(1) assms(4) obtain k where "x = KeyError k" "k \<in> K" "k \<notin> set (dict_keys es)" by auto
    with Inl show ?thesis by (auto simp: mark_and_force_def)
  next
    case (Inr b1)
    have c: "closed_marks es b1" using closed_marks_step [OF _ mark_marks [OF Inr]] Cons.prems(3,4) unfolding closed_marks_def by blast
    have "t \<in> set b1" using mark_marks [OF Inr] unfolding marks_def by blast
    with c assms(6,7) have "t \<noteq> want" unfolding closed_marks_def by blast
    then have "want \<in> set tids" using Cons.prems(2) by simp
    with Cons.IH [of b1] Cons.prems(1) c Inr assms(1) show ?thesis unfolding closed_marks_def by (simp add: mark_and_force_def del: set_map)
  qed
qed simp

text \<open>What taking tasks of one name back yields: the pruned tasks of that name of the recipes in the queue.\<close>

lemma runall_fold_keys:
  assumes "fold (runall_step task del) ts (es, tids) = (es', tids')"
  shows "set (dict_keys es') = set (dict_keys es) \<union> ({fn_from_tid t @ '':'' @ task | t. t \<in> set ts} \<inter> set (dict_keys del))"
    "set tids' = set tids \<union> ({fn_from_tid t @ '':'' @ task | t. t \<in> set ts} \<inter> set (dict_keys es'))"
proof -
  have "set (dict_keys es') = set (dict_keys es) \<union> ({fn_from_tid t @ '':'' @ task | t. t \<in> set ts} \<inter> set (dict_keys del)) \<and>
    set tids' = set tids \<union> ({fn_from_tid t @ '':'' @ task | t. t \<in> set ts} \<inter> set (dict_keys es'))"
    using assms
  proof (induction ts arbitrary: es tids)
    case (Cons t ts)
    let ?w = "fn_from_tid t @ '':'' @ task"
    obtain es1 tids1 where s: "runall_step task del t (es, tids) = (es1, tids1)" by fastforce
    have w: "{fn_from_tid u @ '':'' @ task | u. u \<in> set (t # ts)} = insert ?w {fn_from_tid u @ '':'' @ task | u. u \<in> set ts}" by auto
    have e1: "es1 = (case map_of del ?w of None \<Rightarrow> es | Some e \<Rightarrow> dict_set ?w e es)" "tids1 = (if has_key es1 ?w then add_new ?w tids else tids)"
      using s by (auto simp: runall_step_def Let_def split: option.splits)
    have k1: "set (dict_keys es1) = set (dict_keys es) \<union> ({?w} \<inter> set (dict_keys del))"
      using key_map_of [of ?w del] unfolding e1(1) by (auto simp: dict_keys_set simp del: set_map split: option.splits)
    have t1: "set tids1 = set tids \<union> ({?w} \<inter> set (dict_keys es1))"
      unfolding e1(2) using has_key_iff [of es1 ?w] by (auto simp: add_new_def simp del: set_map)
    from Cons.IH [of es1 tids1] Cons.prems s
    have IH: "set (dict_keys es') = set (dict_keys es1) \<union> ({fn_from_tid u @ '':'' @ task | u. u \<in> set ts} \<inter> set (dict_keys del))"
      "set tids' = set tids1 \<union> ({fn_from_tid u @ '':'' @ task | u. u \<in> set ts} \<inter> set (dict_keys es'))" by (simp_all del: set_map)
    have sub: "set (dict_keys es1) \<subseteq> set (dict_keys es')" using IH(1) by blast
    have 1: "?w \<in> set (dict_keys es') \<longleftrightarrow> ?w \<in> set (dict_keys es1) \<or> ?w \<in> {fn_from_tid u @ '':'' @ task | u. u \<in> set ts} \<inter> set (dict_keys es')"
      using IH(1) k1 by blast
    show ?case unfolding w IH(2) t1 using IH(1) k1 sub 1 by blast
  qed (auto simp del: set_map)
  then show "set (dict_keys es') = set (dict_keys es) \<union> ({fn_from_tid t @ '':'' @ task | t. t \<in> set ts} \<inter> set (dict_keys del))"
    "set tids' = set tids \<union> ({fn_from_tid t @ '':'' @ task | t. t \<in> set ts} \<inter> set (dict_keys es'))" by blast+
qed

lemma taken_back_error:
  assumes "queue_wf E" "taken_part E es" "map_of del \<subseteq>\<^sub>m map_of E" "\<not> pe_force env" "pe_runall env = [task]"
    and "tid \<in> set (dict_keys es)" "want = fn_from_tid tid @ '':'' @ do_name task" "want \<in> set (dict_keys del)"
    and "d \<in> set (deps_of del want)" "d \<notin> set (dict_keys es)" "\<forall>t \<in> set (dict_keys es). fn_from_tid t @ '':'' @ do_name task \<noteq> d"
  shows "\<exists>k. handle_runall sg env (es, del) g = Inl (KeyError k) \<and> k \<in> set (dict_keys E) \<and> k \<notin> set (dict_keys es)"
proof -
  obtain es1 tids where f: "fold (runall_step (do_name task) del) (dict_keys es) (es, []) = (es1, tids)" by fastforce
  note k = runall_fold_keys [OF f]
  from runall_fold_part [OF assms(3,2), of "do_name task" "dict_keys es" "[]"] f
  have part: "taken_part E es1" "map_of es \<subseteq>\<^sub>m map_of es1" by simp_all
  then have le: "map_of es1 \<subseteq>\<^sub>m map_of E" unfolding taken_part_def by blast
  have sub: "set (dict_keys es1) \<subseteq> set (dict_keys E)" using part_same(1) [OF le] by blast
  have deps: "set (deps_of es1 t) \<subseteq> set (dict_keys E)" if "t \<in> set (dict_keys es1)" for t
    using part_same(1,2) [OF le that] assms(1) unfolding queue_wf_def deps_closed_def by (metis (no_types))
  have want: "want \<in> set (dict_keys es1)" "want \<in> set tids" using k assms(6,7,8) by blast+
  have "deps_of es1 want = deps_of del want" using part_same(2) [OF le want(1)] part_same(2) [OF assms(3,8)] by simp
  then have d: "d \<in> set (deps_of es1 want)" using assms(9) by simp
  have no_d: "d \<notin> set (dict_keys es1)" using k(1) assms(10,11) by blast
  have "set tids \<subseteq> set (dict_keys es1)" using k(2) by auto
  from mark_and_force_list [OF assms(4) this deps sub want(2) d no_d, of "[]" sg g] obtain x where
    x: "rfold (mark_and_force sg env es1) tids ([], g) = Inl (KeyError x)" "x \<in> set (dict_keys E)" "x \<notin> set (dict_keys es1)" by auto
  have "x \<notin> set (dict_keys es)" using x(3) k(1) by blast
  moreover have "handle_runall sg env (es, del) g = Inl (KeyError x)"
    unfolding handle_runall_def runall_task_def using assms(5) f x(1) by simp
  ultimately show ?thesis using x(2) by blast
qed

section \<open>The result of the preparation\<close>

lemma active_graph_wf:
  assumes "active_graph sg env tds g = Inr (tds', tids, entries, g')"
  shows "queue_wf entries" "entries \<noteq> []"
proof -
  from assms obtain st build p g1 p1 g2 p2 where r: "task_graph (pe_dataCaches env) tds = Inr st"
      "mark_targets (pp_taskData st) (pe_targets env) (pp_entries st) = Inr (tids, build)" "prune build (pp_entries st, []) = Inr p"
      "handle_runall sg env p g = Inr (p1, g1)" "handle_runonly sg env p1 g1 = Inr (p2, g2)" "fst p2 \<noteq> []" "entries = fst p2"
    unfolding active_graph_def by (auto split: if_splits)
  have "marks (pp_entries st) (\<Union>q \<in> set (pe_targets env). target_roots (pp_taskData st) (pp_entries st) q) [] build"
    by (rule mark_targets_from [OF r(2)])
  note wf = task_graph_wf [OF r(1)]
  from prune_wf(1) [OF wf \<open>marks _ _ [] build\<close> r(3)] have "queue_wf (fst p)" .
  moreover have "taken_part (pp_entries st) (fst p)" "map_of (snd p) \<subseteq>\<^sub>m map_of (pp_entries st)"
    using prune_taken [OF r(3)] wf unfolding queue_wf_def by blast+
  ultimately have "queue_wf (fst p1)" using handle_runall_wf [OF _ wf, of sg env "fst p" "snd p" g p1 g1] r(4) by simp
  then show "queue_wf entries" "entries \<noteq> []" using handle_runonly_wf(1) [of sg env "fst p1" "snd p1" g1 p2 g2] r(5-7) by simp_all
qed

text \<open>Without \<^verbatim>\<open>--runall\<close> and \<^verbatim>\<open>--runonly\<close> exactly the needed tasks stay.\<close>

lemma active_graph_exact:
  assumes "active_graph sg env tds g = Inr (tds', tids, entries, g')" "pe_runall env = []" "pe_runonly env = []"
  shows "\<exists>st. task_graph (pe_dataCaches env) tds = Inr st \<and> tds' = pp_taskData st \<and>
    set (dict_keys entries) = dep_reach (pp_entries st) (\<Union>q \<in> set (pe_targets env). target_roots tds' (pp_entries st) q) \<and>
    (\<forall>t \<in> set (dict_keys entries). deps_of entries t = deps_of (pp_entries st) t)"
proof -
  from assms obtain st build p where r: "task_graph (pe_dataCaches env) tds = Inr st" "tds' = pp_taskData st"
      "mark_targets (pp_taskData st) (pe_targets env) (pp_entries st) = Inr (tids, build)" "prune build (pp_entries st, []) = Inr p" "entries = fst p"
    unfolding active_graph_def by (auto simp: handle_runall_def handle_runonly_def split: if_splits)
  note m = mark_targets_from [OF r(3)]
  have b: "set build \<subseteq> set (dict_keys (pp_entries st))" "set build = dep_reach (pp_entries st) (\<Union>q \<in> set (pe_targets env). target_roots tds' (pp_entries st) q)"
    using mark_targets_marks [OF r(3)] r(2) by simp_all
  note w = prune_wf [OF task_graph_wf [OF r(1)] m r(4)]
  have "set (dict_keys entries) = dep_reach (pp_entries st) (\<Union>q \<in> set (pe_targets env). target_roots tds' (pp_entries st) q)"
    unfolding r(5) w(2) using b r(2) by auto
  moreover have "deps_of entries t = deps_of (pp_entries st) t" if "t \<in> set (dict_keys entries)" for t
    using that unfolding r(5) w(2) w(3) by simp
  ultimately show ?thesis using r(1,2) by blast
qed

lemma checked_queueE:
  assumes "checked_queue sg env tds g = Inr q"
  obtains tds' tids entries g1 es w where "active_graph sg env tds g = Inr (tds', tids, entries, g1)" "weighted_graph entries = Inr (es, w)"
    "q_entries q = es" "q_weight q = w" "q_target_tids q = tids"
  using assms unfolding checked_queue_def by auto

lemma checked_queue_graph:
  assumes "checked_queue sg env tds g = Inr q"
  shows "graph_ok (q_entries q)" "acyclic (dep_edges (q_entries q))" "q_entries q \<noteq> []"
proof -
  from assms obtain tds' tids entries g1 es w where r: "active_graph sg env tds g = Inr (tds', tids, entries, g1)" "weighted_graph entries = Inr (es, w)"
    "q_entries q = es" by (rule checked_queueE)
  note wf = active_graph_wf [OF r(1)]
  have ac: "acyclic (dep_edges entries)" using weighted_graph_acyclic [OF wf(1)] r(2) by (auto split: if_splits)
  then have "graph_ok es" "dep_edges es = dep_edges entries" "dict_keys es = dict_keys entries"
    using weighted_graph_acyclic [OF wf(1)] r(2) by auto
  with ac wf(2) r(3) show "graph_ok (q_entries q)" "acyclic (dep_edges (q_entries q))" "q_entries q \<noteq> []" by auto
qed

lemma graph_ok_closed: "graph_ok entries \<Longrightarrow> deps_closed entries \<and> dict_wf entries"
  unfolding graph_ok_def deps_closed_def by blast

lemma hash_loop_queue:
  assumes "checked_queue sg env tds g = Inr q" "length (q_entries q) \<le> n"
  shows "\<exists>r. hash_loop n sg (pe_dataCaches env) \<lparr>hs_dealt = [], hs_todeal = dict_keys (q_entries q), hs_entries = q_entries q, hs_g = q_g q\<rparr> = Some r \<and>
    (\<forall>hs. r = Inr hs \<longrightarrow> hash_inv sg (pe_dataCaches env) (q_entries q) (q_g q) hs \<and> hs_todeal hs = [])"
proof -
  note c = checked_queue_graph [OF assms(1)]
  from graph_ok_closed [OF c(1)] have "deps_closed (q_entries q)" "dict_wf (q_entries q)" by blast+
  from hash_loop_ends [OF this(1) c(2) hash_inv_start [OF this(2)]] assms(2) show ?thesis by simp
qed

lemma prepareE:
  assumes "prepare n sg env tds g = Some (Inr (Some q))"
  obtains q0 hs where "checked_queue sg env tds g = Inr q0"
    "hash_loop n sg (pe_dataCaches env) \<lparr>hs_dealt = [], hs_todeal = dict_keys (q_entries q0), hs_entries = q_entries q0, hs_g = q_g q0\<rparr> = Some (Inr hs)"
    "q = q0\<lparr>q_entries := hs_entries hs, q_g := hs_g hs\<rparr>"
  using assms unfolding prepare_def by (auto split: if_splits sum.splits)

lemma hash_loop_more: "hash_loop n sg dcs hs = Some r \<Longrightarrow> n \<le> m \<Longrightarrow> hash_loop m sg dcs hs = Some r"
proof (induction n arbitrary: hs m)
  case 0
  then show ?case by (cases m) (auto split: if_splits)
next
  case (Suc n)
  then obtain m' where "m = Suc m'" by (cases m) auto
  with Suc show ?case by (auto split: if_splits sum.splits)
qed

text \<open>C1. Whenever \<^verbatim>\<open>prepare\<close> delivers a run queue, with or without \<^verbatim>\<open>--runall\<close> and \<^verbatim>\<open>--runonly\<close>, the queue is not empty, its dependencies and reverse dependencies mirror
  each other within the queue, it has no circular dependency, and every task in it has been given its hashes.\<close>

theorem prepare_sound:
  assumes "prepare n sg env tds g = Some (Inr (Some q))"
  shows "q_entries q \<noteq> [] \<and> graph_ok (q_entries q) \<and> acyclic (dep_edges (q_entries q)) \<and>
    (\<forall>t \<in> set (dict_keys (q_entries q)). hashed (q_entries q) t)"
proof -
  from assms obtain q0 hs where c: "checked_queue sg env tds g = Inr q0" and
    h: "hash_loop n sg (pe_dataCaches env) \<lparr>hs_dealt = [], hs_todeal = dict_keys (q_entries q0), hs_entries = q_entries q0, hs_g = q_g q0\<rparr> = Some (Inr hs)"
    and q: "q = q0\<lparr>q_entries := hs_entries hs, q_g := hs_g hs\<rparr>" by (rule prepareE)
  note g = checked_queue_graph [OF c]
  have "hash_loop (max n (length (q_entries q0))) sg (pe_dataCaches env)
      \<lparr>hs_dealt = [], hs_todeal = dict_keys (q_entries q0), hs_entries = q_entries q0, hs_g = q_g q0\<rparr> = Some (Inr hs)"
    by (rule hash_loop_more [OF h]) simp
  with hash_loop_queue [OF c, of "max n (length (q_entries q0))"]
  have i: "hash_inv sg (pe_dataCaches env) (q_entries q0) (q_g q0) hs" "hs_todeal hs = []" by auto
  have keys: "dict_keys (hs_entries hs) = dict_keys (q_entries q0)" by (rule hash_invD(1) [OF i(1)])
  have same: "deps_of (hs_entries hs) t = deps_of (q_entries q0) t" "revs_of (hs_entries hs) t = revs_of (q_entries q0) t" for t
    using hash_invD(2,7) [OF i(1)] by blast+
  have "graph_ok (hs_entries hs)" using g(1) unfolding graph_ok_def keys same .
  moreover have "dep_edges (hs_entries hs) = dep_edges (q_entries q0)" unfolding dep_edges_def keys same ..
  moreover have "hashed (hs_entries hs) t" if "t \<in> set (dict_keys (hs_entries hs))" for t
    using rfold_hashed [OF hash_invD(6) [OF i(1)]] that hash_invD(4) [OF i(1)] i(2) keys by (auto simp del: set_map)
  moreover have "hs_entries hs \<noteq> []" using keys g(3) by auto
  ultimately show ?thesis using g(2) unfolding q by simp
qed

text \<open>C7. As soon as a queue has passed its checks, with or without \<^verbatim>\<open>--runall\<close> and \<^verbatim>\<open>--runonly\<close>, the preparation ends: as many rounds of the hash loop as there are tasks are
  enough. If it delivers the queue, the signature generator has been called exactly once for every task, in an order in which every task comes after all its dependencies.\<close>

theorem prepare_ends_in_order:
  assumes "checked_queue sg env tds g = Inr q" and "length (q_entries q) \<le> n"
  shows "\<exists>r. prepare n sg env tds g = Some r \<and>
    (\<forall>q'. r = Inr (Some q') \<longrightarrow> (\<exists>order. distinct order \<and> set order = set (dict_keys (q_entries q)) \<and>
       (\<forall>i < length order. set (deps_of (q_entries q) (order ! i)) \<subseteq> set (take i order)) \<and>
       rfold (prepare_task_hash sg (pe_dataCaches env)) order (q_entries q, q_g q) = Inr (q_entries q', q_g q')))"
proof (cases "list_all (\<lambda>(mc, td). td_taskentries td = []) tds")
  case True
  then show ?thesis by (simp add: prepare_def)
next
  case False
  from hash_loop_queue [OF assms] obtain r where
    r: "hash_loop n sg (pe_dataCaches env) \<lparr>hs_dealt = [], hs_todeal = dict_keys (q_entries q), hs_entries = q_entries q, hs_g = q_g q\<rparr> = Some r"
      "\<forall>hs. r = Inr hs \<longrightarrow> hash_inv sg (pe_dataCaches env) (q_entries q) (q_g q) hs \<and> hs_todeal hs = []" by blast
  have p: "prepare n sg env tds g = Some (rbind r (\<lambda>hs. Inr (Some (q\<lparr>q_entries := hs_entries hs, q_g := hs_g hs\<rparr>))))"
    using False assms(1) r(1) by (simp add: prepare_def)
  have "\<exists>order. distinct order \<and> set order = set (dict_keys (q_entries q)) \<and>
       (\<forall>i < length order. set (deps_of (q_entries q) (order ! i)) \<subseteq> set (take i order)) \<and>
       rfold (prepare_task_hash sg (pe_dataCaches env)) order (q_entries q, q_g q) = Inr (q_entries q', q_g q')"
    if q': "rbind r (\<lambda>hs. Inr (Some (q\<lparr>q_entries := hs_entries hs, q_g := hs_g hs\<rparr>))) = Inr (Some q')" for q'
  proof -
    from q' obtain hs where hs: "r = Inr hs" "q' = q\<lparr>q_entries := hs_entries hs, q_g := hs_g hs\<rparr>" by auto
    with r(2) have i: "hash_inv sg (pe_dataCaches env) (q_entries q) (q_g q) hs" "hs_todeal hs = []" by blast+
    from hash_invD(3-6) [OF i(1)] i(2) hs(2) show ?thesis by (intro exI [of _ "hs_dealt hs"]) simp
  qed
  with p show ?thesis by blast
qed

text \<open>C12. Without \<^verbatim>\<open>--runall\<close> and \<^verbatim>\<open>--runonly\<close> the delivered queue holds exactly the tasks that the targets need: the tasks reached from the requested ones
  over the dependencies of the complete task graph, each with its dependencies unchanged.\<close>

theorem prepare_exactly_active:
  assumes "prepare n sg env tds g = Some (Inr (Some q))" and "pe_runall env = []" and "pe_runonly env = []"
  shows "\<exists>st. task_graph (pe_dataCaches env) tds = Inr st \<and>
    set (dict_keys (q_entries q)) = dep_reach (pp_entries st) (\<Union>target \<in> set (pe_targets env). target_roots (pp_taskData st) (pp_entries st) target) \<and>
    (\<forall>t \<in> set (dict_keys (q_entries q)). set (deps_of (q_entries q) t) = set (deps_of (pp_entries st) t))"
proof -
  from assms(1) obtain q0 hs where c: "checked_queue sg env tds g = Inr q0" and
    h: "hash_loop n sg (pe_dataCaches env) \<lparr>hs_dealt = [], hs_todeal = dict_keys (q_entries q0), hs_entries = q_entries q0, hs_g = q_g q0\<rparr> = Some (Inr hs)"
    and q: "q = q0\<lparr>q_entries := hs_entries hs, q_g := hs_g hs\<rparr>" by (rule prepareE)
  from c obtain tds' tids entries g1 es w where r: "active_graph sg env tds g = Inr (tds', tids, entries, g1)" "weighted_graph entries = Inr (es, w)"
    "q_entries q0 = es" by (rule checked_queueE)
  have wf: "queue_wf entries" by (rule active_graph_wf(1) [OF r(1)])
  have e: "dict_keys es = dict_keys entries" "dep_edges es = dep_edges entries"
    using weighted_graph_acyclic [OF wf] r(2) by (auto split: if_splits)
  then have d: "set (deps_of es t) = set (deps_of entries t)" for t using dep_edges_iff [of t] by blast
  have "hash_loop (max n (length (q_entries q0))) sg (pe_dataCaches env)
      \<lparr>hs_dealt = [], hs_todeal = dict_keys (q_entries q0), hs_entries = q_entries q0, hs_g = q_g q0\<rparr> = Some (Inr hs)"
    by (rule hash_loop_more [OF h]) simp
  with hash_loop_queue [OF c, of "max n (length (q_entries q0))"]
  have i: "hash_inv sg (pe_dataCaches env) (q_entries q0) (q_g q0) hs" by auto
  have k: "dict_keys (q_entries q) = dict_keys entries" "set (deps_of (q_entries q) t) = set (deps_of entries t)" for t
    using hash_invD(1,2) [OF i] r(3) e d unfolding q by simp_all
  from active_graph_exact [OF r(1) assms(2,3)] show ?thesis unfolding k by auto
qed

section \<open>A small build\<close>

text \<open>
  Recipe \<open>a\<close> depends on \<open>b\<close>: the task \<open>do_x\<close> of \<open>a\<close> waits for \<open>do_y\<close> of everything \<open>a\<close> depends on. The signature generator records the order in which it
  is called.
\<close>

definition sample_tds :: taskdatas where
  "sample_tds = [([], (TaskData True [] False)\<lparr>
     td_build_targets := [(''a'', [''a'']), (''b'', [''b''])],
     td_taskentries := [(''a:do_build'', TaskEntry\<lparr>te_tdepends := [''a:do_x'']\<rparr>), (''a:do_x'', TaskEntry), (''b:do_y'', TaskEntry),
       (''b:do_z'', TaskEntry\<lparr>te_tdepends := [''b:do_w'']\<rparr>), (''b:do_w'', TaskEntry)],
     td_depids := [(''a'', [''b'']), (''b'', [])], td_rdepids := [(''a'', []), (''b'', [])]\<rparr>)]"

definition sample_dcs :: datacaches where
  "sample_dcs = [([], CacheData\<lparr>
     dc_task_deps := [(''a'', \<lparr>tk_tasks = [], tk_parents = [], tk_flags = [(''deptask'', [(''do_x'', ''do_y'')])]\<rparr>),
       (''b'', \<lparr>tk_tasks = [], tk_parents = [], tk_flags = []\<rparr>)],
     dc_pkg_fn := [(''a'', ''a''), (''b'', ''b'')], dc_fn_provides := [(''a'', [''a'']), (''b'', [''b''])]\<rparr>)]"

definition sample_env :: prep_env where
  "sample_env = \<lparr>pe_dataCaches = sample_dcs, pe_targets = [([], ''a'', ''do_build'', ''a'')], pe_runall = [], pe_runonly = [], pe_force = False,
     pe_invalidate_stamp = [], pe_nosetscene = True, pe_stampwhitelist = [], pe_multi_whitelist = []\<rparr>"

definition sample_sg :: "string list siggen" where
  "sample_sg = \<lparr>sg_invalidate = (\<lambda>t dc f g. Inr g), sg_tasks_resolved = (\<lambda>v p dc g. Inr g), sg_set_setscene_tasks = (\<lambda>ts g. g),
     sg_prep_taskhash = (\<lambda>t ds dcs g. Inr (g @ [t])), sg_get_taskhash = (\<lambda>t ds dcs g. Inr (''h'', g)), sg_get_unihash = (\<lambda>t g. Inr (''u'', g))\<rparr>"

definition sample_runq :: "string list runq" where
  "sample_runq = (case prepare 3 sample_sg sample_env sample_tds [] of Some (Inr (Some q)) \<Rightarrow> q | _ \<Rightarrow> undefined)"

lemma sample_prepare: "prepare 3 sample_sg sample_env sample_tds [] = Some (Inr (Some sample_runq))"
proof -
  have "case prepare 3 sample_sg sample_env sample_tds [] of Some (Inr (Some q)) \<Rightarrow> True | _ \<Rightarrow> False" by code_simp
  then show ?thesis unfolding sample_runq_def by (auto split: option.splits sum.splits)
qed

theorem prepare_sound_witness:
  "acyclic (dep_edges (q_entries sample_runq)) \<and> dict_keys (q_entries sample_runq) = [''a:do_build'', ''a:do_x'', ''b:do_y'']"
proof -
  from prepare_sound [OF sample_prepare] have "acyclic (dep_edges (q_entries sample_runq))" by blast
  moreover have "dict_keys (q_entries sample_runq) = [''a:do_build'', ''a:do_x'', ''b:do_y'']" by code_simp
  ultimately show ?thesis ..
qed

theorem prepare_exactly_active_witness:
  "\<exists>st. task_graph sample_dcs sample_tds = Inr st \<and>
     dep_reach (pp_entries st) {''a:do_build''} = {''a:do_build'', ''a:do_x'', ''b:do_y''}"
proof -
  have "pe_runall sample_env = []" "pe_runonly sample_env = []" by (simp_all add: sample_env_def)
  from prepare_exactly_active [OF sample_prepare this] obtain st where
    st: "task_graph sample_dcs sample_tds = Inr st" "set (dict_keys (q_entries sample_runq)) =
      dep_reach (pp_entries st) (\<Union>target \<in> set (pe_targets sample_env). target_roots (pp_taskData st) (pp_entries st) target)"
    by (auto simp: sample_env_def)
  have "case task_graph sample_dcs sample_tds of Inl _ \<Rightarrow> False
      | Inr st \<Rightarrow> target_roots (pp_taskData st) (pp_entries st) ([], ''a'', ''do_build'', ''a'') = {''a:do_build''}" by code_simp
  then have "(\<Union>target \<in> set (pe_targets sample_env). target_roots (pp_taskData st) (pp_entries st) target) = {''a:do_build''}"
    using st(1) by (simp add: sample_env_def)
  moreover have "set (dict_keys (q_entries sample_runq)) = {''a:do_build'', ''a:do_x'', ''b:do_y''}" by code_simp
  ultimately show ?thesis using st by auto
qed

theorem prepare_ends_in_order_witness:
  "\<exists>r. prepare 3 sample_sg sample_env sample_tds [] = Some r \<and> (case r of Inr (Some q) \<Rightarrow> q_g q = [''b:do_y'', ''a:do_x'', ''a:do_build''] | _ \<Rightarrow> False)"
proof -
  have "case checked_queue sample_sg sample_env sample_tds [] of Inl _ \<Rightarrow> False | Inr q \<Rightarrow> length (q_entries q) \<le> 3" by code_simp
  then obtain q where q: "checked_queue sample_sg sample_env sample_tds [] = Inr q" "length (q_entries q) \<le> 3" by (auto split: sum.splits)
  from prepare_ends_in_order [OF q(1) q(2)] obtain r where r: "prepare 3 sample_sg sample_env sample_tds [] = Some r" by blast
  moreover have "case prepare 3 sample_sg sample_env sample_tds [] of Some (Inr (Some q)) \<Rightarrow> q_g q = [''b:do_y'', ''a:do_x'', ''a:do_build''] | _ \<Rightarrow> False"
    by code_simp
  ultimately show ?thesis by (auto split: sum.splits option.splits)
qed

text \<open>C33. \<^verbatim>\<open>--runall\<close> raises a \<^verbatim>\<open>KeyError\<close> whenever it takes a task back whose dependencies were pruned. Let the targets need the tasks of \<open>entries\<close> and the
  tasks of \<open>pruned\<close> be dropped, let \<open>--runall=task\<close> be the only such option and \<^verbatim>\<open>--force\<close> not be given. If a recipe of the queue has the wanted task \<open>want\<close> among the pruned ones,
  and \<open>want\<close> depends on a task \<open>d\<close> that is neither in the queue nor itself a wanted task of one of its recipes, then \<^verbatim>\<open>prepare\<close> ends in a \<^verbatim>\<open>KeyError\<close>, for a task of the
  complete task graph that was pruned.\<close>

theorem runall_misses_dependencies:
  assumes "task_graph (pe_dataCaches env) tds = Inr st" and "mark_targets (pp_taskData st) (pe_targets env) (pp_entries st) = Inr (tids, build)"
    and "prune build (pp_entries st, []) = Inr (entries, pruned)" and "pe_runall env = [task]" and "\<not> pe_force env"
    and "tid \<in> set (dict_keys entries)" and "want = fn_from_tid tid @ '':'' @ do_name task" and "want \<in> set (dict_keys pruned)"
    and "d \<in> set (deps_of pruned want)" and "d \<notin> set (dict_keys entries)" and "\<forall>t \<in> set (dict_keys entries). fn_from_tid t @ '':'' @ do_name task \<noteq> d"
    and "\<exists>p \<in> set tds. td_taskentries (snd p) \<noteq> []"
  shows "\<exists>k. prepare n sg env tds g = Some (Inl (KeyError k)) \<and> k \<in> set (dict_keys (pp_entries st)) \<and> k \<notin> set (dict_keys entries)"
proof -
  have wf: "queue_wf (pp_entries st)" by (rule task_graph_wf [OF assms(1)])
  then have "taken_part (pp_entries st) entries" "map_of pruned \<subseteq>\<^sub>m map_of (pp_entries st)"
    using prune_taken [OF assms(3)] unfolding queue_wf_def by simp_all
  from taken_back_error [where sg = sg and g = g, OF wf this assms(5,4,6-11)] obtain k where
    k: "handle_runall sg env (entries, pruned) g = Inl (KeyError k)" "k \<in> set (dict_keys (pp_entries st))" "k \<notin> set (dict_keys entries)" by (elim exE conjE)
  have "\<not> list_all (\<lambda>(mc, td). td_taskentries td = []) tds" using assms(12) by (auto simp: list_all_iff)
  moreover have "checked_queue sg env tds g = Inl (KeyError k)"
    unfolding checked_queue_def active_graph_def assms(1) rbind_simps assms(2) prod.case assms(3) k(1) ..
  ultimately show ?thesis using k(2,3) by (simp add: prepare_def del: set_map)
qed

text \<open>In the small build \<^verbatim>\<open>--runall=z\<close> takes back \<open>do_z\<close> of \<open>b\<close>, which depends on \<open>do_w\<close>.\<close>

definition runall_env :: prep_env where
  "runall_env = sample_env\<lparr>pe_runall := [''z'']\<rparr>"

definition runall_case :: "(prep \<times> string list \<times> string list \<times> rtentries \<times> rtentries) result" where
  "runall_case =
     rbind (task_graph (pe_dataCaches runall_env) sample_tds) (\<lambda>st.
     rbind (mark_targets (pp_taskData st) (pe_targets runall_env) (pp_entries st)) (\<lambda>(tids, build).
     rbind (prune build (pp_entries st, [])) (\<lambda>(entries, pruned). Inr (st, tids, build, entries, pruned))))"

theorem runall_misses_dependencies_witness:
  "\<exists>k. prepare 5 sample_sg runall_env sample_tds [] = Some (Inl (KeyError k)) \<and> k = ''b:do_w''"
proof -
  have c: "case runall_case of Inl _ \<Rightarrow> False | Inr (st, tids, build, entries, pruned) \<Rightarrow>
      dict_keys entries = [''a:do_build'', ''a:do_x'', ''b:do_y''] \<and> dict_keys pruned = [''b:do_z'', ''b:do_w''] \<and> deps_of pruned ''b:do_z'' = [''b:do_w''] \<and>
      dict_keys (pp_entries st) = [''a:do_build'', ''a:do_x'', ''b:do_y'', ''b:do_z'', ''b:do_w'']" by code_simp
  then obtain st tids build entries pruned where r: "runall_case = Inr (st, tids, build, entries, pruned)"
    and k: "dict_keys entries = [''a:do_build'', ''a:do_x'', ''b:do_y'']" "dict_keys pruned = [''b:do_z'', ''b:do_w'']" "deps_of pruned ''b:do_z'' = [''b:do_w'']"
    and all: "dict_keys (pp_entries st) = [''a:do_build'', ''a:do_x'', ''b:do_y'', ''b:do_z'', ''b:do_w'']"
    by (auto split: sum.splits prod.splits simp del: list.map)
  from r have q: "task_graph (pe_dataCaches runall_env) sample_tds = Inr st"
    "mark_targets (pp_taskData st) (pe_targets runall_env) (pp_entries st) = Inr (tids, build)" "prune build (pp_entries st, []) = Inr (entries, pruned)"
    unfolding runall_case_def by auto
  have e: "pe_runall runall_env = [''z'']" "\<not> pe_force runall_env" "\<exists>p \<in> set sample_tds. td_taskentries (snd p) \<noteq> []"
    by (simp_all add: runall_env_def sample_env_def sample_tds_def)
  have fn: "''b:do_z'' = fn_from_tid ''b:do_y'' @ '':'' @ do_name ''z''" "\<forall>t \<in> set [''a:do_build'', ''a:do_x'', ''b:do_y'']. fn_from_tid t @ '':'' @ do_name ''z'' \<noteq> ''b:do_w''"
    by code_simp+
  have "''b:do_y'' \<in> set (dict_keys entries)" "''b:do_z'' \<in> set (dict_keys pruned)" "''b:do_w'' \<in> set (deps_of pruned ''b:do_z'')" "''b:do_w'' \<notin> set (dict_keys entries)"
    "\<forall>t \<in> set (dict_keys entries). fn_from_tid t @ '':'' @ do_name ''z'' \<noteq> ''b:do_w''"
    unfolding k using fn(2) by simp_all
  from runall_misses_dependencies [where sg = sample_sg and n = 5 and g = "[]", OF q e(1,2) this(1) fn(1) this(2-5) e(3)] obtain k where
    "prepare 5 sample_sg runall_env sample_tds [] = Some (Inl (KeyError k))" by (elim exE conjE)
  moreover have "case prepare 5 sample_sg runall_env sample_tds [] of Some (Inl (KeyError k)) \<Rightarrow> k = ''b:do_w'' | _ \<Rightarrow> False" by code_simp
  ultimately show ?thesis by simp
qed

end
