(* ===== verification/BB_Vardeps.thy ===== *)
theory BB_Vardeps
  imports BB_Prelude
begin

text \<open>
  \<^verbatim>\<open>generate_dependencies\<close> and \<^verbatim>\<open>generate_dependency_hash\<close> of \<^verbatim>\<open>lib/bb/data.py\<close>: from the variables a task refers to, directly
  and through other variables, to the base hash of the task. The analysis of one variable (\<^verbatim>\<open>build_dependencies\<close>, which runs the
  shell and Python code parsers over the value) is the parameter \<open>bd\<close>: it returns the variables the given variable
  refers to and the value that goes into the hash. SHA-256 is the parameter \<open>sha\<close>.

  Both functions iterate a work list over sets. A set is a list without duplicates; the number of rounds is
  bounded by a fuel argument, and \<open>None\<close> stands for a loop that needs more rounds.
\<close>

section \<open>The variables a task depends on\<close>

type_synonym varinfo = "string list \<times> string option"

record depstate =
  vd_deps :: "(string, string list) dict"
  vd_values :: "(string, string option) dict"

definition analyse_var :: "(string \<Rightarrow> varinfo result) \<Rightarrow> string \<Rightarrow> depstate \<Rightarrow> depstate result" where
  "analyse_var bd key st =
     rbind (bd key) (\<lambda>(ds, v).
     Inr (st\<lparr>vd_deps := dict_set key ds (vd_deps st), vd_values := dict_set key v (vd_values st)\<rparr>))"

definition visit_dep ::
    "(string \<Rightarrow> varinfo result) \<Rightarrow> string \<Rightarrow> depstate \<times> string list \<Rightarrow> (depstate \<times> string list) result" where
  "visit_dep bd dep p =
     (case p of (st, newdeps) \<Rightarrow>
        rbind (if has_key (vd_deps st) dep then Inr st else analyse_var bd dep st) (\<lambda>st1.
        rbind (dict_lookup (vd_deps st1) dep) (\<lambda>ds.
        Inr (st1, fold add_new ds newdeps))))"

definition without :: "string list \<Rightarrow> string list \<Rightarrow> string list" where
  "without xs ys = filter (\<lambda>x. x \<notin> set ys) xs"

fun deps_loop ::
    "nat \<Rightarrow> (string \<Rightarrow> varinfo result) \<Rightarrow> string list \<Rightarrow> string list \<Rightarrow> string list \<Rightarrow> depstate \<Rightarrow> depstate result option" where
  "deps_loop 0 bd whitelist newdeps seen st = (if newdeps = [] then Some (Inr st) else None)"
| "deps_loop (Suc n) bd whitelist newdeps seen st =
     (if newdeps = [] then Some (Inr st)
      else let nextdeps = without newdeps whitelist;
               seen' = fold add_new nextdeps seen
           in case rfold (visit_dep bd) nextdeps (st, []) of
                Inl e \<Rightarrow> Some (Inl e)
              | Inr (st', new') \<Rightarrow> deps_loop n bd whitelist (without new' seen') seen' st')"

fun generate_dependencies_from ::
    "nat \<Rightarrow> (string \<Rightarrow> varinfo result) \<Rightarrow> string list \<Rightarrow> string list \<Rightarrow> depstate \<Rightarrow> depstate result option" where
  "generate_dependencies_from n bd whitelist [] st = Some (Inr st)"
| "generate_dependencies_from n bd whitelist (task # tasks) st =
     (case rbind (analyse_var bd task st) (\<lambda>st1. rbind (dict_lookup (vd_deps st1) task) (\<lambda>ds. Inr (st1, ds))) of
        Inl e \<Rightarrow> Some (Inl e)
      | Inr (st1, ds) \<Rightarrow>
          (case deps_loop n bd whitelist ds [] st1 of
             None \<Rightarrow> None
           | Some (Inl e) \<Rightarrow> Some (Inl e)
           | Some (Inr st2) \<Rightarrow> generate_dependencies_from n bd whitelist tasks st2))"

definition generate_dependencies ::
    "nat \<Rightarrow> (string \<Rightarrow> varinfo result) \<Rightarrow> string list \<Rightarrow> string list \<Rightarrow> depstate result option" where
  "generate_dependencies n bd tasklist whitelist =
     generate_dependencies_from n bd whitelist tasklist \<lparr>vd_deps = [], vd_values = []\<rparr>"

section \<open>The base hashes\<close>

definition hash_visit ::
    "string list \<Rightarrow> string \<Rightarrow> (string, string list) dict \<times> string list \<Rightarrow> ((string, string list) dict \<times> string list) result" where
  "hash_visit whitelist dep p =
     (case p of (gendeps, newdeps) \<Rightarrow>
        if dep \<in> set whitelist then Inr (gendeps, newdeps)
        else rbind (dict_lookup gendeps dep) (\<lambda>ds.
             let ds' = without ds whitelist in Inr (dict_set dep ds' gendeps, fold add_new ds' newdeps)))"

fun closure_loop ::
    "nat \<Rightarrow> string list \<Rightarrow> string list \<Rightarrow> string list \<Rightarrow> (string, string list) dict \<Rightarrow>
     (string list \<times> (string, string list) dict) result option" where
  "closure_loop 0 whitelist newdeps seen gendeps = (if newdeps = [] then Some (Inr (seen, gendeps)) else None)"
| "closure_loop (Suc n) whitelist newdeps seen gendeps =
     (if newdeps = [] then Some (Inr (seen, gendeps))
      else let seen' = fold add_new newdeps seen
           in case rfold (hash_visit whitelist) newdeps (gendeps, []) of
                Inl e \<Rightarrow> Some (Inl e)
              | Inr (gendeps', new') \<Rightarrow> closure_loop n whitelist (without new' seen') seen' gendeps')"

text \<open>The text that is hashed: the value of the task, then every variable it depends on with its value.\<close>

definition or_empty :: "string option \<Rightarrow> string" where
  "or_empty v = (case v of None \<Rightarrow> [] | Some s \<Rightarrow> s)"

definition add_var_data :: "(string, string option) dict \<Rightarrow> string \<Rightarrow> string \<Rightarrow> string result" where
  "add_var_data values dep data = rbind (dict_lookup values dep) (\<lambda>v. Inr (data @ dep @ or_empty v))"

record basehashes =
  bh_taskdeps :: "(string, string list) dict"
  bh_basehash :: "(string, string) dict"
  bh_gendeps :: "(string, string list) dict"

definition task_basehash ::
    "(string \<Rightarrow> string) \<Rightarrow> (string, string option) dict \<Rightarrow> string \<Rightarrow> string \<Rightarrow> string list \<Rightarrow> basehashes \<Rightarrow> basehashes result" where
  "task_basehash sha lookupcache fn task seen st =
     rbind (dict_lookup lookupcache task) (\<lambda>v.
     let alldeps = sort seen
     in rbind (rfold (add_var_data lookupcache) alldeps (or_empty v)) (\<lambda>data.
        Inr (st\<lparr>bh_basehash := dict_set (fn @ '':'' @ task) (sha data) (bh_basehash st),
                bh_taskdeps := dict_set task alldeps (bh_taskdeps st)\<rparr>)))"

fun generate_hashes_from ::
    "nat \<Rightarrow> (string \<Rightarrow> string) \<Rightarrow> string list \<Rightarrow> (string, string option) dict \<Rightarrow> string list \<Rightarrow> string \<Rightarrow> basehashes \<Rightarrow>
     basehashes result option" where
  "generate_hashes_from n sha [] lookupcache whitelist fn st = Some (Inr st)"
| "generate_hashes_from n sha (task # tasks) lookupcache whitelist fn st =
     (case rbind (dict_lookup lookupcache task) (\<lambda>_. dict_lookup (bh_gendeps st) task) of
        Inl e \<Rightarrow> Some (Inl e)
      | Inr ds \<Rightarrow>
          (let ds' = without ds whitelist
           in case closure_loop n whitelist ds' [] (dict_set task ds' (bh_gendeps st)) of
                None \<Rightarrow> None
              | Some r \<Rightarrow>
                  (case rbind r (\<lambda>(seen, gendeps). task_basehash sha lookupcache fn task seen (st\<lparr>bh_gendeps := gendeps\<rparr>)) of
                     Inl e \<Rightarrow> Some (Inl e)
                   | Inr st' \<Rightarrow> generate_hashes_from n sha tasks lookupcache whitelist fn st')))"

definition generate_dependency_hash ::
    "nat \<Rightarrow> (string \<Rightarrow> string) \<Rightarrow> string list \<Rightarrow> (string, string list) dict \<Rightarrow> (string, string option) dict \<Rightarrow> string list \<Rightarrow> string \<Rightarrow>
     basehashes result option" where
  "generate_dependency_hash n sha tasklist gendeps lookupcache whitelist fn =
     generate_hashes_from n sha tasklist lookupcache whitelist fn \<lparr>bh_taskdeps = [], bh_basehash = [], bh_gendeps = gendeps\<rparr>"

section \<open>Work lists compute the transitive closure\<close>

text \<open>
  Both loops keep a set of seen nodes and the set of new ones, in the graph \<open>E\<close> from the start \<open>t\<close>.
\<close>

definition worklist_inv :: "('a \<times> 'a) set \<Rightarrow> 'a \<Rightarrow> 'a set \<Rightarrow> 'a set \<Rightarrow> bool" where
  "worklist_inv E t seen new \<longleftrightarrow> seen \<union> new \<subseteq> E\<^sup>+ `` {t} \<and> E `` insert t seen \<subseteq> seen \<union> new \<and> seen \<inter> new = {}"

lemma worklist_start: "worklist_inv E t {} (E `` {t})"
  by (auto simp: worklist_inv_def)

lemma worklist_step:
  assumes "worklist_inv E t seen new"
  shows "worklist_inv E t (seen \<union> new) (E `` new - (seen \<union> new))"
proof -
  have "E `` new \<subseteq> E\<^sup>+ `` {t}" using assms unfolding worklist_inv_def by (blast intro: trancl.trancl_into_trancl)
  with assms show ?thesis unfolding worklist_inv_def by blast
qed

lemma worklist_end:
  assumes "worklist_inv E t seen {}"
  shows "seen = E\<^sup>+ `` {t}"
proof
  have step: "E `` insert t seen \<subseteq> seen" using assms by (simp add: worklist_inv_def)
  have "x \<in> seen" if "(t, x) \<in> E\<^sup>+" for x
    using that by (induction rule: trancl_induct) (use step in blast)+
  then show "E\<^sup>+ `` {t} \<subseteq> seen" by blast
qed (use assms in \<open>simp add: worklist_inv_def\<close>)

lemma worklist_saturated:
  assumes "worklist_inv E t seen new" "E\<^sup>+ `` {t} \<subseteq> seen"
  shows "new = {}"
proof -
  have "new \<subseteq> E\<^sup>+ `` {t}" "seen \<inter> new = {}" using assms(1) by (simp_all add: worklist_inv_def)
  moreover from this(1) assms(2) have "new \<subseteq> seen" by (rule subset_trans)
  ultimately show ?thesis by (simp add: inf.absorb2)
qed

lemma worklist_progress:
  assumes "worklist_inv E t seen new" "finite (E\<^sup>+ `` {t})" "new \<noteq> {}"
  shows "card (E\<^sup>+ `` {t} - (seen \<union> new)) < card (E\<^sup>+ `` {t} - seen)"
  using assms by (intro psubset_card_mono) (auto simp: worklist_inv_def)

section \<open>The analysis loop\<close>

text \<open>The graph of the variables: an edge for every reference to a variable that is not on the whitelist.\<close>

definition var_edges :: "(string \<Rightarrow> varinfo result) \<Rightarrow> string list \<Rightarrow> (string \<times> string) set" where
  "var_edges bd wl = {(a, b). \<exists>ds v. bd a = Inr (ds, v) \<and> b \<in> set ds \<and> b \<notin> set wl}"

text \<open>The variables in \<open>U\<close> can be analysed and refer to variables in \<open>U\<close> and on the whitelist only.\<close>

definition analysable :: "(string \<Rightarrow> varinfo result) \<Rightarrow> string list \<Rightarrow> string set \<Rightarrow> bool" where
  "analysable bd wl U \<longleftrightarrow> finite U \<and> (\<forall>a \<in> U. \<exists>ds v. bd a = Inr (ds, v) \<and> set ds - set wl \<subseteq> U)"

definition depstate_ok :: "(string \<Rightarrow> varinfo result) \<Rightarrow> depstate \<Rightarrow> bool" where
  "depstate_ok bd st \<longleftrightarrow> dom (map_of (vd_values st)) = dom (map_of (vd_deps st)) \<and>
     (\<forall>k ds. map_of (vd_deps st) k = Some ds \<longrightarrow> (\<exists>v. bd k = Inr (ds, v) \<and> map_of (vd_values st) k = Some v))"

lemma set_without [simp]: "set (without xs ys) = set xs - set ys"
  by (auto simp: without_def)

lemma analysableE:
  assumes "analysable bd wl U" "a \<in> U"
  obtains ds v where "bd a = Inr (ds, v)" "set ds - set wl \<subseteq> U" "var_edges bd wl `` {a} = set ds - set wl"
proof -
  from assms obtain ds v where d: "bd a = Inr (ds, v)" "set ds - set wl \<subseteq> U" unfolding analysable_def by blast
  then have "var_edges bd wl `` {a} = set ds - set wl" by (auto simp: var_edges_def)
  with d that show thesis by blast
qed

lemma var_reach_subset:
  assumes "analysable bd wl U" "t \<in> U"
  shows "(var_edges bd wl)\<^sup>+ `` {t} \<subseteq> U"
proof -
  have step: "b \<in> U" if "a \<in> U" "(a, b) \<in> var_edges bd wl" for a b
    using analysableE [OF assms(1) that(1)] that(2) by blast
  have "x \<in> U" if "(t, x) \<in> (var_edges bd wl)\<^sup>+" for x
    using that by (induction rule: trancl_induct) (use assms(2) step in blast)+
  then show ?thesis by blast
qed

lemma analyse_var_ok:
  assumes "depstate_ok bd st" "bd key = Inr (ds, v)"
  shows "\<exists>st'. analyse_var bd key st = Inr st' \<and> depstate_ok bd st' \<and> map_of (vd_deps st') key = Some ds \<and>
    dom (map_of (vd_deps st')) = insert key (dom (map_of (vd_deps st)))"
  using assms by (auto simp: analyse_var_def depstate_ok_def)

lemma visit_dep_ok:
  assumes "depstate_ok bd st" "bd key = Inr (ds, v)"
  shows "\<exists>st'. visit_dep bd key (st, nd) = Inr (st', fold add_new ds nd) \<and> depstate_ok bd st' \<and>
    dom (map_of (vd_deps st')) = insert key (dom (map_of (vd_deps st)))"
proof (cases "map_of (vd_deps st) key")
  case None
  with analyse_var_ok [OF assms] show ?thesis by (auto simp: visit_dep_def has_key_def dict_lookup_Some)
next
  case (Some ds')
  with assms have "ds' = ds" unfolding depstate_ok_def by fastforce
  with Some assms(1) show ?thesis by (auto simp: visit_dep_def has_key_def dict_lookup_Some)
qed

lemma visit_deps_ok:
  assumes "analysable bd wl U"
  shows "depstate_ok bd st \<Longrightarrow> set xs \<subseteq> U \<Longrightarrow>
    \<exists>st' nd'. rfold (visit_dep bd) xs (st, nd) = Inr (st', nd') \<and> depstate_ok bd st' \<and>
      dom (map_of (vd_deps st')) = set xs \<union> dom (map_of (vd_deps st)) \<and>
      set nd' - set wl = (set nd - set wl) \<union> var_edges bd wl `` set xs"
proof (induction xs arbitrary: st nd)
  case (Cons x xs)
  then obtain ds v where x: "bd x = Inr (ds, v)" "var_edges bd wl `` {x} = set ds - set wl" by (auto elim: analysableE [OF assms])
  from visit_dep_ok [OF Cons.prems(1) x(1), of nd] obtain st1 where
    st1: "visit_dep bd x (st, nd) = Inr (st1, fold add_new ds nd)" "depstate_ok bd st1"
      "dom (map_of (vd_deps st1)) = insert x (dom (map_of (vd_deps st)))" by blast
  from Cons.IH [OF st1(2), of "fold add_new ds nd"] Cons.prems(2) obtain st' nd' where
    r: "rfold (visit_dep bd) xs (st1, fold add_new ds nd) = Inr (st', nd')" "depstate_ok bd st'"
      "dom (map_of (vd_deps st')) = set xs \<union> dom (map_of (vd_deps st1))"
      "set nd' - set wl = (set (fold add_new ds nd) - set wl) \<union> var_edges bd wl `` set xs" by auto
  have "var_edges bd wl `` set (x # xs) = (set ds - set wl) \<union> var_edges bd wl `` set xs" using x(2) by auto
  then have "set nd' - set wl = (set nd - set wl) \<union> var_edges bd wl `` set (x # xs)"
    using r(4) by (auto simp: set_fold_add_new)
  moreover have "dom (map_of (vd_deps st')) = set (x # xs) \<union> dom (map_of (vd_deps st))" using r(3) st1(3) by auto
  moreover have "rfold (visit_dep bd) (x # xs) (st, nd) = Inr (st', nd')" using st1(1) r(1) by simp
  ultimately show ?case using r(2) by blast
qed simp

lemma deps_loop_ok:
  assumes "analysable bd wl U" "t \<in> U"
  shows "worklist_inv (var_edges bd wl) t (set seen) (set newdeps - set wl) \<Longrightarrow> depstate_ok bd st \<Longrightarrow>
    card ((var_edges bd wl)\<^sup>+ `` {t} - set seen) + 1 \<le> n \<Longrightarrow>
    \<exists>st'. deps_loop n bd wl newdeps seen st = Some (Inr st') \<and> depstate_ok bd st' \<and>
      dom (map_of (vd_deps st')) = dom (map_of (vd_deps st)) \<union> ((var_edges bd wl)\<^sup>+ `` {t} - set seen)"
proof (induction n arbitrary: newdeps seen st)
  case (Suc n)
  let ?E = "var_edges bd wl" and ?new = "set newdeps - set wl"
  have sub: "?E\<^sup>+ `` {t} \<subseteq> U" by (rule var_reach_subset [OF assms])
  have fin: "finite (?E\<^sup>+ `` {t})" using sub assms(1) finite_subset unfolding analysable_def by blast
  show ?case
  proof (cases "newdeps = []")
    case True
    then have "set seen = ?E\<^sup>+ `` {t}" using worklist_end [of ?E t "set seen"] Suc.prems(1) by simp
    with True Suc.prems(2) show ?thesis by simp
  next
    case False
    have sub': "set (without newdeps wl) \<subseteq> U" using Suc.prems(1) sub by (auto simp: worklist_inv_def)
    from visit_deps_ok [OF assms(1) Suc.prems(2) this, of "[]"] obtain st1 nd1 where
      v: "rfold (visit_dep bd) (without newdeps wl) (st, []) = Inr (st1, nd1)" "depstate_ok bd st1"
        "dom (map_of (vd_deps st1)) = ?new \<union> dom (map_of (vd_deps st))" "set nd1 - set wl = ?E `` ?new" by auto
    let ?seen = "fold add_new (without newdeps wl) seen"
    have seen: "set ?seen = set seen \<union> ?new" by (simp add: set_fold_add_new)
    have new: "set (without nd1 ?seen) - set wl = ?E `` ?new - (set seen \<union> ?new)" using v(4) seen by auto
    have inv: "worklist_inv ?E t (set ?seen) (set (without nd1 ?seen) - set wl)"
      unfolding new unfolding seen by (rule worklist_step [OF Suc.prems(1)])
    show ?thesis
    proof (cases "?new = {}")
      case True
      have seen_all: "set seen = ?E\<^sup>+ `` {t}" using worklist_end [of ?E t "set seen"] Suc.prems(1) unfolding True by simp
      have e: "without newdeps wl = []" using True by (metis set_empty set_without)
      then have "nd1 = []" "st1 = st" using v(1) by simp_all
      with False e v(1) seen_all Suc.prems(2) show ?thesis by (cases n) (simp_all add: Let_def without_def)
    next
      case nonempty: False
      have card: "card (?E\<^sup>+ `` {t} - set ?seen) + 1 \<le> n"
        using worklist_progress [OF Suc.prems(1) fin nonempty] Suc.prems(3) unfolding seen by simp
      from Suc.IH [OF inv v(2) card] obtain st' where
        r: "deps_loop n bd wl (without nd1 ?seen) ?seen st1 = Some (Inr st')" "depstate_ok bd st'"
          "dom (map_of (vd_deps st')) = dom (map_of (vd_deps st1)) \<union> (?E\<^sup>+ `` {t} - set ?seen)" by blast
      have "?new \<subseteq> ?E\<^sup>+ `` {t}" "?new \<inter> set seen = {}" using Suc.prems(1) by (auto simp: worklist_inv_def)
      then have "dom (map_of (vd_deps st')) = dom (map_of (vd_deps st)) \<union> (?E\<^sup>+ `` {t} - set seen)"
        using r(3) v(3) seen by auto
      with False v(1) r(1,2) show ?thesis by (simp add: Let_def)
    qed
  qed
qed simp

lemma generate_dependencies_ok:
  assumes "analysable bd wl U" "card U < n"
  shows "depstate_ok bd st \<Longrightarrow> set tasks \<subseteq> U \<Longrightarrow>
    \<exists>st'. generate_dependencies_from n bd wl tasks st = Some (Inr st') \<and> depstate_ok bd st' \<and>
      dom (map_of (vd_deps st')) = dom (map_of (vd_deps st)) \<union> (\<Union>t \<in> set tasks. insert t ((var_edges bd wl)\<^sup>+ `` {t}))"
proof (induction tasks arbitrary: st)
  case (Cons t tasks)
  let ?E = "var_edges bd wl"
  have t: "t \<in> U" using Cons.prems(2) by simp
  obtain ds v where d: "bd t = Inr (ds, v)" "?E `` {t} = set ds - set wl" by (rule analysableE [OF assms(1) t])
  from analyse_var_ok [OF Cons.prems(1) d(1)] obtain st1 where
    st1: "analyse_var bd t st = Inr st1" "depstate_ok bd st1" "map_of (vd_deps st1) t = Some ds"
      "dom (map_of (vd_deps st1)) = insert t (dom (map_of (vd_deps st)))" by blast
  have "card (?E\<^sup>+ `` {t} - set []) \<le> card U"
    using var_reach_subset [OF assms(1) t] assms(1) unfolding analysable_def by (intro card_mono) auto
  then have "card (?E\<^sup>+ `` {t} - set []) + 1 \<le> n" using assms(2) by linarith
  moreover have "worklist_inv ?E t (set []) (set ds - set wl)" using worklist_start [of ?E t] d(2) by simp
  ultimately obtain st2 where
    st2: "deps_loop n bd wl ds [] st1 = Some (Inr st2)" "depstate_ok bd st2"
      "dom (map_of (vd_deps st2)) = dom (map_of (vd_deps st1)) \<union> ?E\<^sup>+ `` {t}"
    using deps_loop_ok [OF assms(1) t _ st1(2), of "[]" ds n] by auto
  from Cons.IH [OF st2(2)] Cons.prems(2) obtain st' where
    r: "generate_dependencies_from n bd wl tasks st2 = Some (Inr st')" "depstate_ok bd st'"
      "dom (map_of (vd_deps st')) = dom (map_of (vd_deps st2)) \<union> (\<Union>t \<in> set tasks. insert t (?E\<^sup>+ `` {t}))" by auto
  have "dom (map_of (vd_deps st')) = dom (map_of (vd_deps st)) \<union> (\<Union>t \<in> set (t # tasks). insert t (?E\<^sup>+ `` {t}))"
    using r(3) st2(3) st1(4) by auto
  with r(1,2) st1(1,3) st2(1) show ?case by (simp add: dict_lookup_Some)
qed simp

section \<open>The hash loop\<close>

definition gendeps_ok :: "(string \<Rightarrow> varinfo result) \<Rightarrow> string list \<Rightarrow> (string, string list) dict \<Rightarrow> bool" where
  "gendeps_ok bd wl gd \<longleftrightarrow> (\<forall>k ds. map_of gd k = Some ds \<longrightarrow> set ds - set wl = var_edges bd wl `` {k})"

lemma depstate_gendeps: "depstate_ok bd st \<Longrightarrow> gendeps_ok bd wl (vd_deps st)"
  unfolding depstate_ok_def gendeps_ok_def var_edges_def by fastforce

lemma hash_visits_ok:
  "gendeps_ok bd wl gd \<Longrightarrow> set xs \<subseteq> dom (map_of gd) - set wl \<Longrightarrow>
    \<exists>gd' nd'. rfold (hash_visit wl) xs (gd, nd) = Inr (gd', nd') \<and> gendeps_ok bd wl gd' \<and>
      dom (map_of gd') = dom (map_of gd) \<and> set nd' = set nd \<union> var_edges bd wl `` set xs"
proof (induction xs arbitrary: gd nd)
  case (Cons x xs)
  then obtain ds where ds: "map_of gd x = Some ds" "x \<notin> set wl" by auto
  then have e: "set ds - set wl = var_edges bd wl `` {x}" using Cons.prems(1) by (simp add: gendeps_ok_def)
  let ?gd = "dict_set x (without ds wl) gd" and ?nd = "fold add_new (without ds wl) nd"
  have gd: "gendeps_ok bd wl ?gd" using Cons.prems(1) by (auto simp: gendeps_ok_def e [symmetric])
  have dom: "dom (map_of ?gd) = dom (map_of gd)" using ds by auto
  then have "set xs \<subseteq> dom (map_of ?gd) - set wl" using Cons.prems(2) by simp
  from Cons.IH [OF gd this, of ?nd] dom obtain gd' nd' where r: "rfold (hash_visit wl) xs (?gd, ?nd) = Inr (gd', nd')" "gendeps_ok bd wl gd'"
      "dom (map_of gd') = dom (map_of gd)" "set nd' = set ?nd \<union> var_edges bd wl `` set xs" by metis
  have "var_edges bd wl `` set (x # xs) = (set ds - set wl) \<union> var_edges bd wl `` set xs" using e by auto
  then have "set nd' = set nd \<union> var_edges bd wl `` set (x # xs)" using r(4) by (simp add: set_fold_add_new Un_assoc)
  moreover have "hash_visit wl x (gd, nd) = Inr (?gd, ?nd)" using ds by (simp add: hash_visit_def dict_lookup_Some Let_def)
  ultimately show ?case using r(1-3) by simp
qed simp

lemma closure_loop_ok:
  assumes "(var_edges bd wl)\<^sup>+ `` {t} \<subseteq> D" "finite D"
  shows "worklist_inv (var_edges bd wl) t (set seen) (set newdeps) \<Longrightarrow> gendeps_ok bd wl gd \<Longrightarrow> dom (map_of gd) = D \<Longrightarrow>
    distinct seen \<Longrightarrow> card ((var_edges bd wl)\<^sup>+ `` {t} - set seen) \<le> n \<Longrightarrow>
    \<exists>seen' gd'. closure_loop n wl newdeps seen gd = Some (Inr (seen', gd')) \<and> gendeps_ok bd wl gd' \<and> dom (map_of gd') = D \<and>
      distinct seen' \<and> set seen' = (var_edges bd wl)\<^sup>+ `` {t}"
proof (induction n arbitrary: newdeps seen gd)
  case 0
  have "finite ((var_edges bd wl)\<^sup>+ `` {t})" using assms finite_subset by blast
  with 0(5) have "(var_edges bd wl)\<^sup>+ `` {t} \<subseteq> set seen" by simp
  with worklist_saturated [OF 0(1)] worklist_end 0(1) have "set newdeps = {}" "set seen = (var_edges bd wl)\<^sup>+ `` {t}" by metis+
  with 0 show ?case by simp
next
  case (Suc n)
  let ?E = "var_edges bd wl"
  have fin: "finite (?E\<^sup>+ `` {t})" using assms finite_subset by blast
  show ?case
  proof (cases "newdeps = []")
    case True
    then have "set seen = ?E\<^sup>+ `` {t}" using worklist_end [of ?E t "set seen"] Suc.prems(1) by simp
    with True Suc.prems show ?thesis by simp
  next
    case False
    have "b \<notin> set wl" if "(a, b) \<in> ?E\<^sup>+" for a b using that by (induction rule: trancl_induct) (auto simp: var_edges_def)
    moreover have "set newdeps \<subseteq> ?E\<^sup>+ `` {t}" using Suc.prems(1) by (simp add: worklist_inv_def)
    ultimately have "set newdeps \<subseteq> dom (map_of gd) - set wl" using assms(1) Suc.prems(3) by blast
    from hash_visits_ok [OF Suc.prems(2) this, of "[]"] obtain gd1 nd1 where
      v: "rfold (hash_visit wl) newdeps (gd, []) = Inr (gd1, nd1)" "gendeps_ok bd wl gd1" "dom (map_of gd1) = D" "set nd1 = ?E `` set newdeps"
      using Suc.prems(3) by auto
    let ?seen = "fold add_new newdeps seen"
    have seen: "set ?seen = set seen \<union> set newdeps" "distinct ?seen"
      using Suc.prems(4) by (simp_all add: set_fold_add_new distinct_fold_add_new)
    have inv: "worklist_inv ?E t (set ?seen) (set (without nd1 ?seen))"
      using worklist_step [OF Suc.prems(1)] unfolding set_without v(4) seen .
    have "card (?E\<^sup>+ `` {t} - set ?seen) \<le> n"
      using worklist_progress [OF Suc.prems(1) fin] False Suc.prems(5) unfolding seen by simp
    from Suc.IH [OF inv v(2,3) seen(2) this] False v(1) show ?thesis by (simp add: Let_def)
  qed
qed

text \<open>The text hashed for a task: its value and the sorted variables with their values.\<close>

definition basehash_text :: "(string \<Rightarrow> varinfo result) \<Rightarrow> string \<Rightarrow> string list \<Rightarrow> string" where
  "basehash_text bd task vars =
     or_empty (snd (projr (bd task))) @ concat (map (\<lambda>v. v @ or_empty (snd (projr (bd v)))) vars)"

lemma add_vars_data:
  assumes "\<And>x. x \<in> set xs \<Longrightarrow> map_of vals x = Some (snd (projr (bd x)))"
  shows "rfold (add_var_data vals) xs data = Inr (data @ concat (map (\<lambda>v. v @ or_empty (snd (projr (bd v)))) xs))"
  using assms by (induction xs arbitrary: data) (simp_all add: add_var_data_def dict_lookup_Some)

definition task_vars :: "(string \<Rightarrow> varinfo result) \<Rightarrow> string list \<Rightarrow> string \<Rightarrow> string list" where
  "task_vars bd wl t = sorted_list_of_set ((var_edges bd wl)\<^sup>+ `` {t})"

definition hashes_ok :: "(string \<Rightarrow> string) \<Rightarrow> (string \<Rightarrow> varinfo result) \<Rightarrow> string list \<Rightarrow> string \<Rightarrow> string set \<Rightarrow> basehashes \<Rightarrow> bool" where
  "hashes_ok sha bd wl fn T bh \<longleftrightarrow> (\<forall>t \<in> T. map_of (bh_taskdeps bh) t = Some (task_vars bd wl t) \<and>
     map_of (bh_basehash bh) (fn @ '':'' @ t) = Some (sha (basehash_text bd t (task_vars bd wl t))))"

lemma task_basehash_ok:
  assumes "depstate_ok bd ds" "insert t ((var_edges bd wl)\<^sup>+ `` {t}) \<subseteq> dom (map_of (vd_deps ds))"
    and "distinct seen" "set seen = (var_edges bd wl)\<^sup>+ `` {t}" "hashes_ok sha bd wl fn T st"
  shows "\<exists>st'. task_basehash sha (vd_values ds) fn t seen st = Inr st' \<and> hashes_ok sha bd wl fn (insert t T) st' \<and> bh_gendeps st' = bh_gendeps st"
proof -
  have val: "map_of (vd_values ds) x = Some (snd (projr (bd x)))" if "x \<in> dom (map_of (vd_deps ds))" for x
    using assms(1) that unfolding depstate_ok_def by fastforce
  have sort: "sort seen = task_vars bd wl t" unfolding task_vars_def assms(4) [symmetric] by (rule sort_distinct_set [OF assms(3)])
  have set: "set (task_vars bd wl t) \<subseteq> dom (map_of (vd_deps ds))"
    using assms(2) unfolding sort [symmetric] using assms(4) by auto
  have hashed: "rfold (add_var_data (vd_values ds)) (task_vars bd wl t) (or_empty (snd (projr (bd t)))) = Inr (basehash_text bd t (task_vars bd wl t))"
    unfolding basehash_text_def by (rule add_vars_data) (use set val in blast)
  let ?st = "st\<lparr>bh_basehash := dict_set (fn @ '':'' @ t) (sha (basehash_text bd t (task_vars bd wl t))) (bh_basehash st),
    bh_taskdeps := dict_set t (task_vars bd wl t) (bh_taskdeps st)\<rparr>"
  have "task_basehash sha (vd_values ds) fn t seen st = Inr ?st"
    unfolding task_basehash_def Let_def sort using val [of t] assms(2) hashed by (simp add: dict_lookup_Some)
  moreover have "hashes_ok sha bd wl fn (insert t T) ?st" using assms(5) by (simp add: hashes_ok_def)
  ultimately show ?thesis by simp
qed

lemma generate_hashes_ok:
  assumes "analysable bd wl U" "card U < n" "depstate_ok bd ds"
    "(\<Union>t \<in> set tasks. insert t ((var_edges bd wl)\<^sup>+ `` {t})) \<subseteq> dom (map_of (vd_deps ds))"
  shows "set tasks \<subseteq> U \<Longrightarrow> gendeps_ok bd wl (bh_gendeps st) \<Longrightarrow> dom (map_of (bh_gendeps st)) = dom (map_of (vd_deps ds)) \<Longrightarrow>
    hashes_ok sha bd wl fn T st \<Longrightarrow>
    \<exists>st'. generate_hashes_from n sha tasks (vd_values ds) wl fn st = Some (Inr st') \<and> hashes_ok sha bd wl fn (T \<union> set tasks) st' \<and>
      dom (map_of (bh_gendeps st')) = dom (map_of (vd_deps ds))"
  using assms(4)
proof (induction tasks arbitrary: st T)
  case (Cons t tasks)
  let ?E = "var_edges bd wl"
  have t: "t \<in> U" using Cons.prems(1) by simp
  have dom: "insert t (?E\<^sup>+ `` {t}) \<subseteq> dom (map_of (vd_deps ds))" using Cons.prems(5) by simp
  then obtain gs where gs: "map_of (bh_gendeps st) t = Some gs" using Cons.prems(3) by auto
  obtain v where v: "map_of (vd_values ds) t = Some v" using dom assms(3) unfolding depstate_ok_def by blast
  have e: "set gs - set wl = ?E `` {t}" using gs Cons.prems(2) by (simp add: gendeps_ok_def)
  let ?gd = "dict_set t (without gs wl) (bh_gendeps st)"
  have gd: "gendeps_ok bd wl ?gd" "dom (map_of ?gd) = dom (map_of (vd_deps ds))"
    using Cons.prems(2,3) dom by (auto simp: gendeps_ok_def e [symmetric])
  have "card (?E\<^sup>+ `` {t} - set []) \<le> card U"
    using var_reach_subset [OF assms(1) t] assms(1) unfolding analysable_def by (intro card_mono) auto
  then have card: "card (?E\<^sup>+ `` {t} - set []) \<le> n" using assms(2) by linarith
  have reach: "?E\<^sup>+ `` {t} \<subseteq> dom (map_of (vd_deps ds))" using dom by blast
  have "worklist_inv ?E t (set []) (set (without gs wl))" using worklist_start [of ?E t] e by simp
  from closure_loop_ok [OF reach finite_dom_map_of this gd distinct.simps(1) [THEN iffD2, OF TrueI] card] obtain seen gd' where c: "closure_loop n wl (without gs wl) [] ?gd = Some (Inr (seen, gd'))" "gendeps_ok bd wl gd'"
      "dom (map_of gd') = dom (map_of (vd_deps ds))" "distinct seen" "set seen = ?E\<^sup>+ `` {t}" by blast
  have "hashes_ok sha bd wl fn T (st\<lparr>bh_gendeps := gd'\<rparr>)" using Cons.prems(4) by (simp add: hashes_ok_def)
  from task_basehash_ok [OF assms(3) dom c(4,5) this] obtain st1 where
    st1: "task_basehash sha (vd_values ds) fn t seen (st\<lparr>bh_gendeps := gd'\<rparr>) = Inr st1" "hashes_ok sha bd wl fn (insert t T) st1"
      "bh_gendeps st1 = gd'" by auto
  from Cons.IH [OF _ _ _ st1(2)] Cons.prems(1,5) c(2,3) st1(3) obtain st' where
    "generate_hashes_from n sha tasks (vd_values ds) wl fn st1 = Some (Inr st')" "hashes_ok sha bd wl fn (T \<union> set (t # tasks)) st'"
    "dom (map_of (bh_gendeps st')) = dom (map_of (vd_deps ds))" by auto
  then show ?case using gs v c(1) st1(1) by (simp add: Let_def dict_lookup_Some)
qed simp

lemma vardeps_exact:
  assumes "analysable bd wl U" "set tasks \<subseteq> U" "card U < n"
  shows "\<exists>ds bh. generate_dependencies n bd tasks wl = Some (Inr ds) \<and> depstate_ok bd ds \<and>
    generate_dependency_hash n sha tasks (vd_deps ds) (vd_values ds) wl fn = Some (Inr bh) \<and> hashes_ok sha bd wl fn (set tasks) bh \<and>
    dom (map_of (bh_gendeps bh)) = dom (map_of (vd_deps ds)) \<and>
    (\<forall>t \<in> set tasks. insert t ((var_edges bd wl)\<^sup>+ `` {t}) \<subseteq> dom (map_of (vd_deps ds)))"
proof -
  have "depstate_ok bd \<lparr>vd_deps = [], vd_values = []\<rparr>" by (simp add: depstate_ok_def)
  from generate_dependencies_ok [OF assms(1,3) this assms(2)] obtain ds where
    ds: "generate_dependencies n bd tasks wl = Some (Inr ds)" "depstate_ok bd ds"
      "dom (map_of (vd_deps ds)) = (\<Union>t \<in> set tasks. insert t ((var_edges bd wl)\<^sup>+ `` {t}))"
    unfolding generate_dependencies_def by auto
  let ?start = "\<lparr>bh_taskdeps = [], bh_basehash = [], bh_gendeps = vd_deps ds\<rparr>"
  have start: "gendeps_ok bd wl (bh_gendeps ?start)" "dom (map_of (bh_gendeps ?start)) = dom (map_of (vd_deps ds))" "hashes_ok sha bd wl fn {} ?start"
    using depstate_gendeps [OF ds(2)] by (simp_all add: hashes_ok_def)
  from generate_hashes_ok [OF assms(1,3) ds(2) _ assms(2) start] ds(3) obtain bh where
    "generate_dependency_hash n sha tasks (vd_deps ds) (vd_values ds) wl fn = Some (Inr bh)" "hashes_ok sha bd wl fn (set tasks) bh"
    "dom (map_of (bh_gendeps bh)) = dom (map_of (vd_deps ds))"
    unfolding generate_dependency_hash_def by auto
  moreover have "\<forall>t \<in> set tasks. insert t ((var_edges bd wl)\<^sup>+ `` {t}) \<subseteq> dom (map_of (vd_deps ds))" unfolding ds(3) by blast
  ultimately show ?thesis using ds(1,2) by blast
qed

section \<open>Exactness of the base hash\<close>

text \<open>C18. The base hash covers exactly what the task depends on. When the variables in \<open>U\<close> can be analysed, and refer only to variables in \<open>U\<close> and on the whitelist,
  both loops end after at most \<open>card U + 1\<close> rounds, no lookup raises \<^verbatim>\<open>KeyError\<close>, the dependencies recorded for every task are the sorted
  variables reached from it without passing through the whitelist, and its base hash is the hash of its value followed by
  these variables with their values.\<close>

theorem basehash_exact:
  assumes "analysable bd wl U" and "set tasks \<subseteq> U" and "card U < n"
  shows "\<exists>ds bh. generate_dependencies n bd tasks wl = Some (Inr ds) \<and>
    generate_dependency_hash n sha tasks (vd_deps ds) (vd_values ds) wl fn = Some (Inr bh) \<and>
    (\<forall>t \<in> set tasks. \<exists>vars. map_of (bh_taskdeps bh) t = Some vars \<and> sorted vars \<and> distinct vars \<and>
       set vars = (var_edges bd wl)\<^sup>+ `` {t} \<and>
       map_of (bh_basehash bh) (fn @ '':'' @ t) = Some (sha (basehash_text bd t vars)))"
proof -
  from vardeps_exact [OF assms] obtain ds bh where r: "generate_dependencies n bd tasks wl = Some (Inr ds)"
    "generate_dependency_hash n sha tasks (vd_deps ds) (vd_values ds) wl fn = Some (Inr bh)" "hashes_ok sha bd wl fn (set tasks) bh" by blast
  have "finite ((var_edges bd wl)\<^sup>+ `` {t})" if "t \<in> set tasks" for t
    using that assms(1,2) var_reach_subset [OF assms(1), of t] unfolding analysable_def by (meson finite_subset subsetD)
  then have "\<forall>t \<in> set tasks. set (task_vars bd wl t) = (var_edges bd wl)\<^sup>+ `` {t}" by (simp add: task_vars_def)
  with r(3) have "\<forall>t \<in> set tasks. \<exists>vars. map_of (bh_taskdeps bh) t = Some vars \<and> sorted vars \<and> distinct vars \<and>
       set vars = (var_edges bd wl)\<^sup>+ `` {t} \<and> map_of (bh_basehash bh) (fn @ '':'' @ t) = Some (sha (basehash_text bd t vars))"
    unfolding hashes_ok_def task_vars_def by simp
  with r(1,2) show ?thesis by blast
qed

text \<open>A task that runs \<open>make ${F}\<close>, where \<open>F\<close> refers to \<open>G\<close> and to the whitelisted \<open>DATE\<close>.\<close>

definition sample_bd :: "string \<Rightarrow> varinfo result" where
  "sample_bd v = (if v = ''do_x'' then Inr ([''F''], Some ''make'') else if v = ''F'' then Inr ([''G'', ''DATE''], Some ''f'')
     else if v = ''G'' then Inr ([''F''], None) else Inl (KeyError v))"

theorem basehash_exact_witness:
  "\<exists>ds bh. generate_dependencies 4 sample_bd [''do_x''] [''DATE''] = Some (Inr ds) \<and>
    generate_dependency_hash 4 id [''do_x''] (vd_deps ds) (vd_values ds) [''DATE''] ''r'' = Some (Inr bh) \<and>
    map_of (bh_basehash bh) ''r:do_x'' = Some ''makeFfG''"
proof -
  have "analysable sample_bd [''DATE''] {''do_x'', ''F'', ''G''}" by (auto simp: analysable_def sample_bd_def)
  from basehash_exact [OF this, of "[''do_x'']" 4 id "''r''"] obtain ds bh where
    r: "generate_dependencies 4 sample_bd [''do_x''] [''DATE''] = Some (Inr ds)"
      "generate_dependency_hash 4 id [''do_x''] (vd_deps ds) (vd_values ds) [''DATE''] ''r'' = Some (Inr bh)" by auto
  moreover have "case generate_dependencies 4 sample_bd [''do_x''] [''DATE''] of Some (Inr ds) \<Rightarrow>
      (case generate_dependency_hash 4 id [''do_x''] (vd_deps ds) (vd_values ds) [''DATE''] ''r'' of
         Some (Inr bh) \<Rightarrow> map_of (bh_basehash bh) ''r:do_x'' = Some ''makeFfG'' | _ \<Rightarrow> False) | _ \<Rightarrow> False" by code_simp
  ultimately show ?thesis by (auto split: option.splits sum.splits)
qed

end
