(* ===== verification/BB_Siggen.thy ===== *)
theory BB_Siggen
  imports BB_Prepare BB_Vardeps
begin

text \<open>
  The signature generators of \<^verbatim>\<open>lib/bb/siggen.py\<close>: \<^verbatim>\<open>SignatureGenerator\<close> (name \<open>noop\<close>), \<^verbatim>\<open>SignatureGeneratorBasic\<close>, \<^verbatim>\<open>SignatureGeneratorBasicHash\<close> and
  the mix-in for hash equivalence. The attributes of a generator are one record; a method that an object finds through its class is
  an argument of the methods that call it (\<open>get_unihash\<close>, \<open>get_stampfile_hash\<close>).

  Parameters: SHA-256, the random identifiers of \<^verbatim>\<open>uuid4\<close> (a sequence, the state counts how many were drawn), the search of a regular
  expression, the checksums of source files and the hash equivalence server. Taint files are part of the state. Log messages are
  left out; a mismatch that is only logged is part of the result.
\<close>

section \<open>State\<close>

record sigstate =
  ss_basehash :: "(string, string) dict"
  ss_taskhash :: "(string, string) dict"
  ss_unihash :: "(string, string option) dict"
  ss_taskdeps :: "(string, (string, string list) dict) dict"
  ss_runtaskdeps :: "(string, string list) dict"
  ss_file_checksum_values :: "(string, (string \<times> string option) list) dict"
  ss_taints :: "(string, string) dict"
  ss_gendeps :: "(string, (string, string list) dict) dict"
  ss_lookupcache :: "(string, (string, string option) dict) dict"
  ss_setscenetasks :: "string list"
  ss_basewhitelist :: "string list"
  ss_taskwhitelist :: "string option"
  ss_checksum_cache :: bool
  ss_unitaskhashes :: "(string, string \<times> string) dict"
  ss_localdirsexclude :: "string list"
  ss_tidtopn :: "(string, string) dict"
  ss_extramethod :: "(string, string) dict"
  ss_method :: string
  ss_files :: "(string, string) dict"
  ss_uuids :: nat

record sigenv =
  se_sha256 :: "string \<Rightarrow> string"
  se_uuid4 :: "nat \<Rightarrow> string"
  se_search :: "string \<Rightarrow> string \<Rightarrow> bool"
  se_get_checksums :: "string option \<Rightarrow> string \<Rightarrow> string list \<Rightarrow> (string \<times> string option) list result"
  se_get_file_checksums :: "string option \<Rightarrow> string \<Rightarrow> string list \<Rightarrow> (string \<times> string option) list result"
  se_multiconfig :: bool
  se_get_unihash :: "string \<Rightarrow> string \<Rightarrow> string option option" \<comment> \<open>\<open>None\<close>: \<^verbatim>\<open>HashConnectionError\<close>\<close>
  se_report_equiv :: "string \<Rightarrow> string \<Rightarrow> string \<Rightarrow> string option option"

section \<open>The base class\<close>

definition SignatureGenerator :: sigstate where
  "SignatureGenerator = \<lparr>ss_basehash = [], ss_taskhash = [], ss_unihash = [], ss_taskdeps = [], ss_runtaskdeps = [],
     ss_file_checksum_values = [], ss_taints = [], ss_gendeps = [], ss_lookupcache = [], ss_setscenetasks = [], ss_basewhitelist = [],
     ss_taskwhitelist = None, ss_checksum_cache = False, ss_unitaskhashes = [], ss_localdirsexclude = [], ss_tidtopn = [],
     ss_extramethod = [], ss_method = [], ss_files = [], ss_uuids = 0\<rparr>"

definition noop_get_unihash :: "string \<Rightarrow> sigstate \<Rightarrow> (string \<times> sigstate) result" where
  "noop_get_unihash tid g = rbind (dict_lookup (ss_taskhash g) tid) (\<lambda>h. Inr (h, g))"

definition noop_get_taskhash :: "sigenv \<Rightarrow> string \<Rightarrow> string list \<Rightarrow> datacaches \<Rightarrow> sigstate \<Rightarrow> (string \<times> sigstate) result" where
  "noop_get_taskhash se tid deps dataCaches g =
     (let h = se_sha256 se tid in Inr (h, g\<lparr>ss_taskhash := dict_set tid h (ss_taskhash g)\<rparr>))"

definition rstrip_dots :: "string \<Rightarrow> string" where
  "rstrip_dots s = rev (dropWhile (\<lambda>c. c = CHR ''.'') (rev s))"

definition noop_stampfile :: "string \<Rightarrow> string \<Rightarrow> string \<Rightarrow> string" where
  "noop_stampfile stampbase taskname extrainfo = rstrip_dots (stampbase @ ''.'' @ taskname @ ''.'' @ extrainfo)"

definition noop_stampcleanmask :: "string \<Rightarrow> string \<Rightarrow> string \<Rightarrow> string" where
  "noop_stampcleanmask stampbase taskname extrainfo = rstrip_dots (stampbase @ ''.'' @ taskname @ ''.'' @ extrainfo)"

type_synonym taskdata9 =
  "(string, string list) dict \<times> (string, string) dict \<times> (string, string option) dict \<times> (string, (string \<times> string option) list) dict \<times>
   (string, string) dict \<times> (string, string) dict \<times> (string, string \<times> string) dict \<times> (string, string) dict \<times> string list"

definition get_taskdata :: "sigstate \<Rightarrow> taskdata9" where
  "get_taskdata g = (ss_runtaskdeps g, ss_taskhash g, ss_unihash g, ss_file_checksum_values g, ss_taints g, ss_basehash g,
     ss_unitaskhashes g, ss_tidtopn g, ss_setscenetasks g)"

definition set_taskdata :: "taskdata9 \<Rightarrow> sigstate \<Rightarrow> sigstate" where
  "set_taskdata data g = (case data of (runtaskdeps, taskhash, unihash, checksums, taints, basehash, unitaskhashes, tidtopn, setscenetasks) \<Rightarrow>
     g\<lparr>ss_runtaskdeps := runtaskdeps, ss_taskhash := taskhash, ss_unihash := unihash, ss_file_checksum_values := checksums, ss_taints := taints,
       ss_basehash := basehash, ss_unitaskhashes := unitaskhashes, ss_tidtopn := tidtopn, ss_setscenetasks := setscenetasks\<rparr>)"

definition get_taskhashes ::
    "sigstate \<Rightarrow> (string, string) dict \<times> (string, string option) dict \<times> (string, string \<times> string) dict \<times> (string, string) dict" where
  "get_taskhashes g = (ss_taskhash g, ss_unihash g, ss_unitaskhashes g, ss_tidtopn g)"

definition set_taskhashes ::
    "(string, string) dict \<times> (string, string option) dict \<times> (string, string \<times> string) dict \<times> (string, string) dict \<Rightarrow> sigstate \<Rightarrow> sigstate" where
  "set_taskhashes hashes g = (case hashes of (taskhash, unihash, unitaskhashes, tidtopn) \<Rightarrow>
     g\<lparr>ss_taskhash := taskhash, ss_unihash := unihash, ss_unitaskhashes := unitaskhashes, ss_tidtopn := tidtopn\<rparr>)"

section \<open>SignatureGeneratorBasic\<close>

definition init_rundepcheck :: "metadata \<Rightarrow> sigstate \<Rightarrow> sigstate" where
  "init_rundepcheck d g =
     g\<lparr>ss_taskwhitelist := (if opt_truthy (md_var d ''BB_HASHTASK_WHITELIST'') then md_var d ''BB_HASHTASK_WHITELIST'' else None)\<rparr>"

definition py_set :: "string list \<Rightarrow> string list" where
  "py_set xs = fold add_new xs []"

text \<open>The argument \<open>unihashes\<close> is what the cache of earlier runs holds.\<close>

definition SignatureGeneratorBasic :: "metadata \<Rightarrow> (string, string \<times> string) dict \<Rightarrow> sigstate" where
  "SignatureGeneratorBasic d unihashes =
     init_rundepcheck d (SignatureGenerator\<lparr>
       ss_basewhitelist := py_set (listvar ''BB_HASHBASE_WHITELIST'' d),
       ss_checksum_cache := opt_truthy (md_var d ''BB_HASH_CHECKSUM_CACHE_FILE''),
       ss_unitaskhashes := unihashes,
       ss_localdirsexclude := split_ws (if opt_truthy (md_var d ''BB_SIGNATURE_LOCAL_DIRS_EXCLUDE'')
         then getvar ''BB_SIGNATURE_LOCAL_DIRS_EXCLUDE'' d else ''CVS .bzr .git .hg .osc .p4 .repo .svn'')\<rparr>)"

text \<open>
  \<^verbatim>\<open>_build_data\<close>. The result lists the tasks whose base hash changed on reparsing, for which errors are logged unless
  \<^verbatim>\<open>BB_HASH_IGNORE_MISMATCH\<close> is set.
\<close>

definition set_basehash ::
    "bool \<Rightarrow> string \<Rightarrow> basehashes \<Rightarrow> string \<Rightarrow> string list \<times> sigstate \<Rightarrow> (string list \<times> sigstate) result" where
  "set_basehash ignore_mismatch fn bh task p =
     (case p of (errors, g) \<Rightarrow>
        let tid = fn @ '':'' @ task
        in rbind (dict_lookup (bh_basehash bh) tid) (\<lambda>h.
           let mismatch = (\<not> ignore_mismatch \<and> has_key (ss_basehash g) tid \<and> map_of (ss_basehash g) tid \<noteq> Some h)
           in Inr (if mismatch then errors @ [tid] else errors, g\<lparr>ss_basehash := dict_set tid h (ss_basehash g)\<rparr>)))"

definition build_data ::
    "nat \<Rightarrow> sigenv \<Rightarrow> (string \<Rightarrow> varinfo result) \<Rightarrow> string \<Rightarrow> metadata \<Rightarrow> sigstate \<Rightarrow>
     ((string, string list) dict \<times> string list \<times> sigstate) result option" where
  "build_data n se bd fn d g =
     (let ignore_mismatch = (getvar ''BB_HASH_IGNORE_MISMATCH'' d = ''1'');
          tasklist = (case md_bbtasks d of None \<Rightarrow> [] | Some ts \<Rightarrow> ts)
      in case generate_dependencies n bd tasklist (ss_basewhitelist g) of
           None \<Rightarrow> None
         | Some (Inl e) \<Rightarrow> Some (Inl e)
         | Some (Inr ds) \<Rightarrow>
             map_option (\<lambda>r. rbind r (\<lambda>bh.
               rbind (rfold (set_basehash ignore_mismatch fn bh) tasklist ([], g)) (\<lambda>(errors, g1).
               Inr (bh_taskdeps bh, errors, g1\<lparr>ss_taskdeps := dict_set fn (bh_taskdeps bh) (ss_taskdeps g1),
                      ss_gendeps := dict_set fn (bh_gendeps bh) (ss_gendeps g1),
                      ss_lookupcache := dict_set fn (vd_values ds) (ss_lookupcache g1)\<rparr>))))
               (generate_dependency_hash n (se_sha256 se) tasklist (vd_deps ds) (vd_values ds) (ss_basewhitelist g) fn))"

text \<open>\<^verbatim>\<open>finalise\<close>: the variables it sets in the metadata, the logged mismatches and the new state.\<close>

definition finalise ::
    "nat \<Rightarrow> sigenv \<Rightarrow> (string \<Rightarrow> varinfo result) \<Rightarrow> string \<Rightarrow> metadata \<Rightarrow> string \<Rightarrow> sigstate \<Rightarrow>
     ((string \<times> string) list \<times> string list \<times> sigstate) result option" where
  "finalise n se bd fn d variant g =
     (let mc = or_empty (md_raw d ''__BBMULTICONFIG'');
          vfn = (if variant \<noteq> [] \<or> mc \<noteq> [] then realfn2virtual fn variant mc else fn)
      in map_option (\<lambda>r. rbind r (\<lambda>(taskdeps, errors, g1).
           rbind (rmap (\<lambda>task. rbind (dict_lookup (ss_basehash g1) (vfn @ '':'' @ task)) (\<lambda>h.
                          Inr (''BB_BASEHASH_task-'' @ task, h))) (dict_keys taskdeps)) (\<lambda>vars.
           Inr (vars, errors, g1)))) (build_data n se bd vfn d g))"

definition set_setscene_tasks :: "string list \<Rightarrow> sigstate \<Rightarrow> sigstate" where
  "set_setscene_tasks setscene_tasks g = g\<lparr>ss_setscenetasks := py_set setscene_tasks\<rparr>"

definition postparsing_clean_cache :: "sigstate \<Rightarrow> sigstate" where
  "postparsing_clean_cache g = g\<lparr>ss_gendeps := [], ss_lookupcache := [], ss_taskdeps := []\<rparr>"

definition rundep_check :: "sigenv \<Rightarrow> sigstate \<Rightarrow> string \<Rightarrow> string \<Rightarrow> bool" where
  "rundep_check se g recipename depname =
     (case ss_taskwhitelist g of
        None \<Rightarrow> True
      | Some twl \<Rightarrow> \<not> (\<not> se_search se twl recipename \<and> se_search se twl depname))"

definition read_taint :: "sigstate \<Rightarrow> string \<Rightarrow> string \<Rightarrow> string option" where
  "read_taint g task stampbase = map_of (ss_files g) (stampbase @ ''.'' @ task @ ''.taint'')"

subsection \<open>The sort key of dependencies\<close>

definition rsplit2 :: "char \<Rightarrow> string \<Rightarrow> string list" where
  "rsplit2 c s =
     (case rsplit1 c s of
        [a, b] \<Rightarrow> (case rsplit1 c a of [x, y] \<Rightarrow> [x, y, b] | _ \<Rightarrow> [a, b])
      | l \<Rightarrow> l)"

fun before_colon_slash :: "string \<Rightarrow> string" where
  "before_colon_slash (a # b # s) = (if a = CHR '':'' \<and> b = CHR ''/'' then [] else a # before_colon_slash (b # s))"
| "before_colon_slash s = s"

definition mc_part :: "string \<Rightarrow> (string \<times> string) result" where
  "mc_part basepath =
     (if startswith basepath ''mc:''
      then let rest = drop 3 basepath
           in case dropWhile (\<lambda>c. c \<noteq> CHR '':'') rest of
                [] \<Rightarrow> Inl (ValueError basepath)
              | _ # b \<Rightarrow> Inr (b, '':mc:'' @ takeWhile (\<lambda>c. c \<noteq> CHR '':'') rest)
      else Inr (basepath, []))"

definition clean_basepath :: "string \<Rightarrow> string result" where
  "clean_basepath path =
     (case rsplit2 (CHR ''/'') path of
        [basepath, dir, recipe_task] \<Rightarrow>
          (let cleaned = dir @ ''/'' @ recipe_task
           in if basepath = [] then Inl IndexError
              else if hd basepath = CHR ''/'' then Inr cleaned
              else rbind (mc_part basepath) (\<lambda>(b, mc_suffix).
                   if b = [] then Inl IndexError
                   else Inr ((if hd b \<noteq> CHR ''/'' then cleaned @ '':'' @ before_colon_slash b else cleaned) @ mc_suffix)))
      | _ \<Rightarrow> Inl (ValueError path))"

definition clean_basepaths :: "(string, 'v) dict \<Rightarrow> (string, 'v) dict result" where
  "clean_basepaths a = rfold (\<lambda>(x, v) b. rbind (clean_basepath x) (\<lambda>k. Inr (dict_set k v b))) a []"

definition clean_basepaths_list :: "string list \<Rightarrow> string list result" where
  "clean_basepaths_list a = rmap clean_basepath a"

subsection \<open>Task hashes\<close>

text \<open>\<^verbatim>\<open>sorted(deps, key=clean_basepath)\<close>\<close>

definition sorted_deps :: "string list \<Rightarrow> string list result" where
  "sorted_deps deps =
     rbind (rmap (\<lambda>d. rbind (clean_basepath d) (\<lambda>k. Inr (k, d))) deps) (\<lambda>kds. Inr (map snd (sort_key fst kds)))"

definition add_rundep ::
    "sigenv \<Rightarrow> sigstate \<Rightarrow> datacaches \<Rightarrow> string \<Rightarrow> string \<Rightarrow> string \<Rightarrow> string list \<Rightarrow> string list result" where
  "add_rundep se g dataCaches mc recipename dep rundeps =
     rbind (split_tid_mcfn dep) (\<lambda>(depmc, _, _, depmcfn).
     rbind (dict_lookup dataCaches depmc) (\<lambda>depdc.
     rbind (dict_lookup (dc_pkg_fn depdc) depmcfn) (\<lambda>depname.
     if \<not> se_multiconfig se \<and> mc \<noteq> depmc then Inr rundeps
     else if \<not> rundep_check se g recipename depname then Inr rundeps
     else if \<not> has_key (ss_taskhash g) dep then Inl (BBHandledException dep)
     else Inr (rundeps @ [dep]))))"

definition task_checksums ::
    "sigenv \<Rightarrow> sigstate \<Rightarrow> cachedata \<Rightarrow> string \<Rightarrow> string \<Rightarrow> string \<Rightarrow> (string \<times> string option) list result" where
  "task_checksums se g dc fn task recipename =
     rbind (dict_lookup (dc_file_checksums dc) fn) (\<lambda>fcs.
     case map_of fcs task of
       None \<Rightarrow> Inr []
     | Some files \<Rightarrow>
         (if ss_checksum_cache g then se_get_checksums se files recipename (ss_localdirsexclude g)
          else se_get_file_checksums se files recipename (ss_localdirsexclude g)))"

text \<open>The two ways a task is tainted: an implicit random taint for \<^verbatim>\<open>nostamp\<close>, and a taint file.\<close>

definition nostamp_taint :: "sigenv \<Rightarrow> string \<Rightarrow> sigstate \<Rightarrow> sigstate" where
  "nostamp_taint se tid g =
     (if (case map_of (ss_taints g) tid of None \<Rightarrow> False | Some t \<Rightarrow> startswith t ''nostamp:'') then g
      else g\<lparr>ss_taints := dict_set tid (''nostamp:'' @ se_uuid4 se (ss_uuids g)) (ss_taints g), ss_uuids := ss_uuids g + 1\<rparr>)"

definition file_taint :: "string \<Rightarrow> string option \<Rightarrow> sigstate \<Rightarrow> sigstate" where
  "file_taint tid taint g = (if opt_truthy taint then g\<lparr>ss_taints := dict_set tid (or_empty taint) (ss_taints g)\<rparr> else g)"

definition prep_taskhash :: "sigenv \<Rightarrow> string \<Rightarrow> string list \<Rightarrow> datacaches \<Rightarrow> sigstate \<Rightarrow> sigstate result" where
  "prep_taskhash se tid deps dataCaches g =
     rbind (split_tid_mcfn tid) (\<lambda>(mc, _, task, fn).
     rbind (dict_lookup dataCaches mc) (\<lambda>dc.
     rbind (dict_lookup (dc_basetaskhash dc) tid) (\<lambda>basehash.
     rbind (dict_lookup (dc_pkg_fn dc) fn) (\<lambda>recipename.
     rbind (sorted_deps deps) (\<lambda>ds.
     rbind (rfold (add_rundep se g dataCaches mc recipename) ds []) (\<lambda>rundeps.
     rbind (task_checksums se g dc fn task recipename) (\<lambda>checksums.
     rbind (dict_lookup (dc_task_deps dc) fn) (\<lambda>taskdep.
     let g1 = g\<lparr>ss_basehash := dict_set tid basehash (ss_basehash g), ss_tidtopn := dict_set tid recipename (ss_tidtopn g),
                ss_runtaskdeps := dict_set tid rundeps (ss_runtaskdeps g),
                ss_file_checksum_values := dict_set tid checksums (ss_file_checksum_values g)\<rparr>;
         g2 = (if task_flag taskdep ''nostamp'' task \<noteq> None then nostamp_taint se tid g1 else g1)
     in rbind (dict_lookup (dc_stamp dc) fn) (\<lambda>stampbase.
        Inr (file_taint tid (read_taint g2 task stampbase) g2))))))))))"

type_synonym get_unihash_method = "string \<Rightarrow> sigstate \<Rightarrow> (string \<times> sigstate) result"

definition add_dephash :: "get_unihash_method \<Rightarrow> string \<Rightarrow> string \<times> sigstate \<Rightarrow> (string \<times> sigstate) result" where
  "add_dephash get_unihash dep p =
     (case p of (data, g) \<Rightarrow>
        case map_of (ss_unihash g) dep of
          Some None \<Rightarrow> rbind (dict_lookup (ss_taskhash g) dep) (\<lambda>h. Inr (data @ h, g))
        | Some (Some u) \<Rightarrow> Inr (data @ u, g)
        | None \<Rightarrow> rbind (get_unihash dep g) (\<lambda>(u, g1). Inr (data @ u, g1)))"

definition taint_text :: "string option \<Rightarrow> string" where
  "taint_text taint = (case taint of None \<Rightarrow> [] | Some t \<Rightarrow> if startswith t ''nostamp:'' then drop 8 t else t)"

definition checksum_text :: "(string \<times> string option) list \<Rightarrow> string" where
  "checksum_text css = concat (map (\<lambda>(f, cs). or_empty cs) css)"

definition get_taskhash ::
    "get_unihash_method \<Rightarrow> sigenv \<Rightarrow> string \<Rightarrow> string list \<Rightarrow> datacaches \<Rightarrow> sigstate \<Rightarrow> (string \<times> sigstate) result" where
  "get_taskhash get_unihash se tid deps dataCaches g =
     rbind (dict_lookup (ss_basehash g) tid) (\<lambda>basehash.
     rbind (dict_lookup (ss_runtaskdeps g) tid) (\<lambda>rundeps.
     rbind (rfold (add_dephash get_unihash) rundeps (basehash, g)) (\<lambda>(data, g1).
     rbind (dict_lookup (ss_file_checksum_values g1) tid) (\<lambda>css.
     let h = se_sha256 se (data @ checksum_text css @ taint_text (map_of (ss_taints g1) tid))
     in Inr (h, g1\<lparr>ss_taskhash := dict_set tid h (ss_taskhash g1)\<rparr>)))))"

text \<open>What the methods hand to \<^verbatim>\<open>invalidate_task\<close>: the base class removes stamp files, which are not part of this state.\<close>

definition write_taint :: "sigenv \<Rightarrow> string \<Rightarrow> cachedata \<Rightarrow> string \<Rightarrow> sigstate \<Rightarrow> sigstate result" where
  "write_taint se task dc fn g =
     rbind (dict_lookup (dc_stamp dc) fn) (\<lambda>stampbase.
     Inr (g\<lparr>ss_files := dict_set (stampbase @ ''.'' @ task @ ''.taint'') (se_uuid4 se (ss_uuids g)) (ss_files g), ss_uuids := ss_uuids g + 1\<rparr>))"

section \<open>SignatureGeneratorBasicHash\<close>

definition get_stampfile_hash :: "string \<Rightarrow> sigstate \<Rightarrow> string result" where
  "get_stampfile_hash tid g =
     (case map_of (ss_taskhash g) tid of Some h \<Rightarrow> Inr h | None \<Rightarrow> dict_lookup (ss_basehash g) tid)"

definition stamp_tid :: "string \<Rightarrow> string \<Rightarrow> string" where
  "stamp_tid fn taskname =
     (if taskname \<noteq> ''do_setscene'' \<and> endswith taskname ''_setscene'' then fn @ '':'' @ take (length taskname - 9) taskname
      else fn @ '':'' @ taskname)"

definition stampfile ::
    "(string \<Rightarrow> sigstate \<Rightarrow> string result) \<Rightarrow> string \<Rightarrow> string \<Rightarrow> string \<Rightarrow> string \<Rightarrow> bool \<Rightarrow> sigstate \<Rightarrow> string result" where
  "stampfile stampfile_hash stampbase fn taskname extrainfo clean g =
     rbind (if clean then Inr ''*'' else stampfile_hash (stamp_tid fn taskname) g) (\<lambda>h.
     Inr (rstrip_dots (stampbase @ ''.'' @ taskname @ ''.'' @ h @ ''.'' @ extrainfo)))"

definition stampcleanmask ::
    "(string \<Rightarrow> sigstate \<Rightarrow> string result) \<Rightarrow> string \<Rightarrow> string \<Rightarrow> string \<Rightarrow> string \<Rightarrow> sigstate \<Rightarrow> string result" where
  "stampcleanmask stampfile_hash stampbase fn taskname extrainfo g = stampfile stampfile_hash stampbase fn taskname extrainfo True g"

section \<open>SignatureGeneratorUniHashMixIn\<close>

definition uni_key :: "string \<Rightarrow> sigstate \<Rightarrow> string result" where
  "uni_key tid g =
     rbind (split_tid_mcfn tid) (\<lambda>(mc, fn, taskname, taskfn).
     rbind (dict_lookup (ss_tidtopn g) tid) (\<lambda>pn. Inr (mc @ '':'' @ pn @ '':'' @ taskname)))"

definition set_unihash :: "string \<Rightarrow> string \<Rightarrow> sigstate \<Rightarrow> sigstate result" where
  "set_unihash tid unihash g =
     rbind (uni_key tid g) (\<lambda>key.
     rbind (dict_lookup (ss_taskhash g) tid) (\<lambda>h.
     Inr (g\<lparr>ss_unitaskhashes := dict_set key (h, unihash) (ss_unitaskhashes g), ss_unihash := dict_set tid (Some unihash) (ss_unihash g)\<rparr>)))"

definition get_unihash_cached :: "string \<Rightarrow> string option \<Rightarrow> sigstate \<Rightarrow> string option result" where
  "get_unihash_cached tid checkkey g =
     (if \<not> has_key (ss_tidtopn g) tid then Inr None
      else rbind (uni_key tid g) (\<lambda>key.
           case map_of (ss_unitaskhashes g) key of
             None \<Rightarrow> Inr None
           | Some (k, unihash) \<Rightarrow>
               rbind (if opt_truthy checkkey then Inr (or_empty checkkey) else dict_lookup (ss_taskhash g) tid) (\<lambda>ck.
               Inr (if k \<noteq> ck then None else Some unihash))))"

definition task_method :: "string \<Rightarrow> sigstate \<Rightarrow> string" where
  "task_method tid g = ss_method g @ or_empty (map_of (ss_extramethod g) tid)"

definition uni_get_unihash :: "sigenv \<Rightarrow> string \<Rightarrow> sigstate \<Rightarrow> (string \<times> sigstate) result" where
  "uni_get_unihash se tid g =
     rbind (dict_lookup (ss_taskhash g) tid) (\<lambda>taskhash.
     if ss_setscenetasks g \<noteq> [] \<and> tid \<notin> set (ss_setscenetasks g)
     then Inr (taskhash, g\<lparr>ss_unihash := dict_set tid None (ss_unihash g)\<rparr>)
     else rbind (get_unihash_cached tid None g) (\<lambda>cached.
          case cached of
            Some unihash \<Rightarrow> Inr (unihash, g\<lparr>ss_unihash := dict_set tid (Some unihash) (ss_unihash g)\<rparr>)
          | None \<Rightarrow>
              (let unihash = (case se_get_unihash se (task_method tid g) taskhash of
                                Some (Some data) \<Rightarrow> if data \<noteq> [] then data else taskhash
                              | _ \<Rightarrow> taskhash)
               in rbind (set_unihash tid unihash g) (\<lambda>g1.
                  Inr (unihash, g1\<lparr>ss_unihash := dict_set tid (Some unihash) (ss_unihash g1)\<rparr>)))))"

definition uni_get_stampfile_hash :: "string \<Rightarrow> sigstate \<Rightarrow> string result" where
  "uni_get_stampfile_hash tid g =
     (if has_key (ss_taskhash g) tid
      then rbind (get_unihash_cached tid None g) (\<lambda>u. case u of Some unihash \<Rightarrow> Inr unihash | None \<Rightarrow> get_stampfile_hash tid g)
      else get_stampfile_hash tid g)"

text \<open>\<^verbatim>\<open>report_unihash_equiv\<close>: the answer of the server is taken over only when it is the wanted hash.\<close>

definition report_unihash_equiv :: "sigenv \<Rightarrow> string \<Rightarrow> string \<Rightarrow> string \<Rightarrow> string \<Rightarrow> sigstate \<Rightarrow> (bool \<times> sigstate) result" where
  "report_unihash_equiv se tid taskhash wanted_unihash current_unihash g =
     (case se_report_equiv se taskhash (task_method tid g) wanted_unihash of
        Some (Some finalunihash) \<Rightarrow>
          (if finalunihash = current_unihash then Inr (False, g)
           else if finalunihash = wanted_unihash then rbind (set_unihash tid finalunihash g) (\<lambda>g1. Inr (True, g1))
           else Inr (False, g))
      | _ \<Rightarrow> Inr (False, g))"

section \<open>The generators as the run queue sees them\<close>

definition noop_siggen :: "sigenv \<Rightarrow> sigstate siggen" where
  "noop_siggen se = \<lparr>sg_invalidate = (\<lambda>task dc fn g. Inr g), sg_tasks_resolved = (\<lambda>virtmap virtpnmap dc g. Inr g),
     sg_set_setscene_tasks = (\<lambda>ts g. g), sg_prep_taskhash = (\<lambda>tid deps dcs g. Inr g), sg_get_taskhash = noop_get_taskhash se,
     sg_get_unihash = noop_get_unihash\<rparr>"

definition basic_siggen :: "sigenv \<Rightarrow> sigstate siggen" where
  "basic_siggen se = \<lparr>sg_invalidate = (\<lambda>task dc fn g. Inr g), sg_tasks_resolved = (\<lambda>virtmap virtpnmap dc g. Inr g),
     sg_set_setscene_tasks = set_setscene_tasks, sg_prep_taskhash = prep_taskhash se,
     sg_get_taskhash = get_taskhash noop_get_unihash se, sg_get_unihash = noop_get_unihash\<rparr>"

definition basichash_siggen :: "sigenv \<Rightarrow> sigstate siggen" where
  "basichash_siggen se = (basic_siggen se)\<lparr>sg_invalidate := write_taint se\<rparr>"

definition equivhash_siggen :: "sigenv \<Rightarrow> sigstate siggen" where
  "equivhash_siggen se = (basichash_siggen se)\<lparr>sg_get_taskhash := get_taskhash (uni_get_unihash se) se,
     sg_get_unihash := uni_get_unihash se\<rparr>"

end
