(* ===== verification/BB_Signing.thy ===== *)
theory BB_Signing
  imports BB_Queue BB_Siggen
begin

text \<open>
  The run queue and the signature generator together. The contract of a generator is a locale: handed a task whose dependencies
  have their hashes, it delivers the hashes of the task. The run queue keeps its side (dependency order) for every
  generator, and the generators of BitBake fulfil the contract on caches that know the tasks.
\<close>

section \<open>The contract\<close>

text \<open>
  \<open>ready dcs D K\<close>: the caches know the tasks \<open>K\<close> with the dependencies \<open>D\<close>. \<open>inv dcs D H g\<close>: the state of the generator after the tasks
  \<open>H\<close> were hashed. \<open>hash_of\<close>: the hash a state holds for a task.
\<close>

locale siggen_contract =
  fixes sg :: "'g siggen"
    and ready :: "datacaches \<Rightarrow> (string \<Rightarrow> string list) \<Rightarrow> string set \<Rightarrow> bool"
    and inv :: "datacaches \<Rightarrow> (string \<Rightarrow> string list) \<Rightarrow> string set \<Rightarrow> 'g \<Rightarrow> bool"
    and hash_of :: "'g \<Rightarrow> string \<Rightarrow> string option"
  assumes deliver: "ready dcs D K \<Longrightarrow> inv dcs D H g \<Longrightarrow> tid \<in> K \<Longrightarrow> tid \<notin> H \<Longrightarrow> H \<subseteq> K \<Longrightarrow> set (D tid) \<subseteq> H \<Longrightarrow>
      \<exists>g1 h g2 u g3. sg_prep_taskhash sg tid (D tid) dcs g = Inr g1 \<and> sg_get_taskhash sg tid (D tid) dcs g1 = Inr (h, g2) \<and>
        sg_get_unihash sg tid g2 = Inr (u, g3) \<and> inv dcs D (insert tid H) g3 \<and> hash_of g3 = (hash_of g)(tid \<mapsto> h)"
begin

definition loop_inv :: "datacaches \<Rightarrow> rtentries \<Rightarrow> 'g \<Rightarrow> 'g hash_state \<Rightarrow> bool" where
  "loop_inv dcs entries g hs \<longleftrightarrow> hash_inv sg dcs entries g hs \<and> inv dcs (deps_of entries) (set (hs_dealt hs)) (hs_g hs) \<and>
     (\<forall>t \<in> set (hs_dealt hs). \<exists>e. map_of (hs_entries hs) t = Some e \<and> re_hash e = hash_of (hs_g hs) t \<and> re_hash e \<noteq> None)"

lemma step_delivers:
  assumes "ready dcs (deps_of entries) (set (dict_keys entries))" "loop_inv dcs entries g hs" "tid \<in> set (hs_todeal hs)"
  shows "\<exists>hs'. hash_step sg dcs tid hs = Inr hs' \<and> loop_inv dcs entries g hs'"
proof -
  have hi: "hash_inv sg dcs entries g hs" using assms(2) by (simp add: loop_inv_def)
  note i = hash_invD [OF hi]
  have fresh: "tid \<notin> set (hs_dealt hs)" and tid: "tid \<in> set (dict_keys entries)" using i(3,4) assms(3) by auto
  then obtain e where e: "map_of (hs_entries hs) tid = Some e"
    using i(1) by (metis domIff dom_map_of_conv_image_fst list.set_map option.exhaust)
  have d: "re_depends e = deps_of entries tid" using i(2) [of tid] e by (simp add: deps_of_def)
  show ?thesis
  proof (cases "set (deps_of entries tid) \<subseteq> set (hs_dealt hs)")
    case False
    with e d assms(2) show ?thesis by (simp add: hash_step_def dict_lookup_Some)
  next
    case True
    have "inv dcs (deps_of entries) (set (hs_dealt hs)) (hs_g hs)" using assms(2) by (simp add: loop_inv_def)
    moreover have "set (hs_dealt hs) \<subseteq> set (dict_keys entries)" unfolding i(4) [symmetric] by simp
    ultimately obtain g1 h g2 u g3 where
      s: "sg_prep_taskhash sg tid (re_depends e) dcs (hs_g hs) = Inr g1" "sg_get_taskhash sg tid (re_depends e) dcs g1 = Inr (h, g2)"
        "sg_get_unihash sg tid g2 = Inr (u, g3)" "inv dcs (deps_of entries) (insert tid (set (hs_dealt hs))) g3"
        "hash_of g3 = (hash_of (hs_g hs))(tid \<mapsto> h)"
      using deliver [OF assms(1) _ tid fresh _ True] unfolding d by blast
    let ?es = "dict_set tid (e\<lparr>re_hash := Some h, re_unihash := Some u\<rparr>) (hs_entries hs)"
    let ?hs = "\<lparr>hs_dealt = hs_dealt hs @ [tid], hs_todeal = removeAll tid (hs_todeal hs), hs_entries = ?es, hs_g = g3\<rparr>"
    have step: "hash_step sg dcs tid hs = Inr ?hs"
      using True d e s(1-3) by (simp add: hash_step_def prepare_task_hash_def dict_lookup_Some)
    have "hash_inv sg dcs entries g ?hs" using hash_step_inv [OF hi assms(3) step] by blast
    moreover have "inv dcs (deps_of entries) (set (hs_dealt ?hs)) (hs_g ?hs)" using s(4) by simp
    moreover have "\<forall>t \<in> set (hs_dealt ?hs). \<exists>e. map_of (hs_entries ?hs) t = Some e \<and> re_hash e = hash_of (hs_g ?hs) t \<and> re_hash e \<noteq> None"
      using assms(2) fresh s(5) unfolding loop_inv_def by auto
    ultimately have "loop_inv dcs entries g ?hs" unfolding loop_inv_def by (intro conjI)
    with step show ?thesis by blast
  qed
qed

lemma round_delivers:
  assumes "ready dcs (deps_of entries) (set (dict_keys entries))"
  shows "loop_inv dcs entries g hs \<Longrightarrow> set ts \<subseteq> set (hs_todeal hs) \<Longrightarrow> distinct ts \<Longrightarrow>
    \<exists>hs'. rfold (hash_step sg dcs) ts hs = Inr hs' \<and> loop_inv dcs entries g hs'"
proof (induction ts arbitrary: hs)
  case (Cons t ts)
  from step_delivers [OF assms Cons.prems(1)] Cons.prems(2) obtain hs1 where
    hs1: "hash_step sg dcs t hs = Inr hs1" "loop_inv dcs entries g hs1" by auto
  have "hs_todeal hs1 = (if t \<in> set (hs_dealt hs1) then removeAll t (hs_todeal hs) else hs_todeal hs)"
    using hash_step_inv [OF _ _ hs1(1)] Cons.prems(1,2) unfolding loop_inv_def by fastforce
  then have "set ts \<subseteq> set (hs_todeal hs1)" using Cons.prems(2,3) by auto
  from Cons.IH [OF hs1(2) this] Cons.prems(3) hs1(1) show ?case by simp
qed simp

lemma loop_delivers:
  assumes "ready dcs (deps_of entries) (set (dict_keys entries))"
  shows "loop_inv dcs entries g hs \<Longrightarrow> hash_loop n sg dcs hs = Some r \<Longrightarrow> \<exists>hs'. r = Inr hs' \<and> loop_inv dcs entries g hs'"
proof (induction n arbitrary: hs)
  case (Suc n)
  show ?case
  proof (cases "hs_todeal hs = []")
    case False
    have "distinct (hs_todeal hs)" using Suc.prems(1) hash_invD(3) unfolding loop_inv_def by fastforce
    from round_delivers [OF assms Suc.prems(1) order_refl this] obtain hs1 where
      hs1: "rfold (hash_step sg dcs) (hs_todeal hs) hs = Inr hs1" "loop_inv dcs entries g hs1" by blast
    with Suc.IH [OF hs1(2)] Suc.prems(2) False show ?thesis by simp
  qed (use Suc.prems in auto)
qed (auto split: if_splits)

lemma prepare_delivers:
  assumes "checked_queue sg env tds g = Inr q" "length (q_entries q) \<le> n"
    and "ready (pe_dataCaches env) (deps_of (q_entries q)) (set (dict_keys (q_entries q)))"
    and "inv (pe_dataCaches env) (deps_of (q_entries q)) {} (q_g q)" "\<exists>p \<in> set tds. td_taskentries (snd p) \<noteq> []"
  shows "\<exists>q'. prepare n sg env tds g = Some (Inr (Some q')) \<and> dict_keys (q_entries q') = dict_keys (q_entries q) \<and>
    inv (pe_dataCaches env) (deps_of (q_entries q)) (set (dict_keys (q_entries q))) (q_g q') \<and>
    (\<forall>t \<in> set (dict_keys (q_entries q)). \<exists>e. map_of (q_entries q') t = Some e \<and> re_hash e = hash_of (q_g q') t \<and> re_hash e \<noteq> None)"
proof -
  let ?start = "\<lparr>hs_dealt = [], hs_todeal = dict_keys (q_entries q), hs_entries = q_entries q, hs_g = q_g q\<rparr>"
  from hash_loop_queue [OF assms(1,2)] obtain r where r: "hash_loop n sg (pe_dataCaches env) ?start = Some r"
    "\<forall>hs. r = Inr hs \<longrightarrow> hash_inv sg (pe_dataCaches env) (q_entries q) (q_g q) hs \<and> hs_todeal hs = []" by blast
  have "dict_wf (q_entries q)" using graph_ok_closed [OF checked_queue_graph(1) [OF assms(1)]] by blast
  then have "loop_inv (pe_dataCaches env) (q_entries q) (q_g q) ?start"
    using hash_inv_start assms(4) by (simp add: loop_inv_def)
  from loop_delivers [OF assms(3) this r(1)] obtain hs where hs: "r = Inr hs" "loop_inv (pe_dataCaches env) (q_entries q) (q_g q) hs" by blast
  have all: "hs_todeal hs = []" using r(2) hs(1) by blast
  have i: "hash_inv sg (pe_dataCaches env) (q_entries q) (q_g q) hs" using hs(2) by (simp add: loop_inv_def)
  have dealt: "set (hs_dealt hs) = set (dict_keys (q_entries q))" using hash_invD(4) [OF i] all by simp
  have nonempty: "\<not> list_all (\<lambda>(mc, td). td_taskentries td = []) tds" using assms(5) by (auto simp: list_all_iff)
  show ?thesis
    using nonempty assms(1) r(1) hs hash_invD(1) [OF i] unfolding prepare_def loop_inv_def dealt by auto
qed

end

section \<open>What the caches have to know\<close>

definition sig_known :: "datacaches \<Rightarrow> string \<Rightarrow> bool" where
  "sig_known dcs tid \<longleftrightarrow>
     (case split_tid_mcfn tid of
        Inl _ \<Rightarrow> False
      | Inr (mc, _, task, fn) \<Rightarrow>
          (case map_of dcs mc of
             None \<Rightarrow> False
           | Some dc \<Rightarrow> has_key (dc_basetaskhash dc) tid \<and> has_key (dc_pkg_fn dc) fn \<and> has_key (dc_file_checksums dc) fn \<and>
               has_key (dc_task_deps dc) fn \<and> has_key (dc_stamp dc) fn)) \<and>
     (case clean_basepath tid of Inl _ \<Rightarrow> False | Inr _ \<Rightarrow> True)"

definition checksums_work :: "sigenv \<Rightarrow> bool" where
  "checksums_work se \<longleftrightarrow> (\<forall>fs pn ex. \<exists>a b. se_get_checksums se fs pn ex = Inr a \<and> se_get_file_checksums se fs pn ex = Inr b)"

definition sig_ready :: "sigenv \<Rightarrow> datacaches \<Rightarrow> (string \<Rightarrow> string list) \<Rightarrow> string set \<Rightarrow> bool" where
  "sig_ready se dcs D K \<longleftrightarrow> checksums_work se \<and> (\<forall>t \<in> K. sig_known dcs t)"

definition tid_pn :: "datacaches \<Rightarrow> string \<Rightarrow> string" where
  "tid_pn dcs tid = (case split_tid_mcfn tid of Inl _ \<Rightarrow> [] | Inr (mc, _, _, fn) \<Rightarrow>
     (case map_of dcs mc of None \<Rightarrow> [] | Some dc \<Rightarrow> or_empty (map_of (dc_pkg_fn dc) fn)))"

definition tid_base :: "datacaches \<Rightarrow> string \<Rightarrow> string" where
  "tid_base dcs tid = (case split_tid_mcfn tid of Inl _ \<Rightarrow> [] | Inr (mc, _, _, fn) \<Rightarrow>
     (case map_of dcs mc of None \<Rightarrow> [] | Some dc \<Rightarrow> or_empty (map_of (dc_basetaskhash dc) tid)))"

definition tid_mc :: "string \<Rightarrow> string" where
  "tid_mc tid = (case split_tid_mcfn tid of Inl _ \<Rightarrow> [] | Inr (mc, _, _, fn) \<Rightarrow> mc)"

text \<open>The dependencies whose hashes go into the hash of a task.\<close>

definition kept_dep :: "sigenv \<Rightarrow> sigstate \<Rightarrow> datacaches \<Rightarrow> string \<Rightarrow> string \<Rightarrow> bool" where
  "kept_dep se g dcs tid dep \<longleftrightarrow> (se_multiconfig se \<or> tid_mc tid = tid_mc dep) \<and> rundep_check se g (tid_pn dcs tid) (tid_pn dcs dep)"

lemma sig_knownE:
  assumes "sig_known dcs tid"
  obtains mc f task fn dc h pn fcs td st k where "split_tid_mcfn tid = Inr (mc, f, task, fn)" "map_of dcs mc = Some dc"
    "map_of (dc_basetaskhash dc) tid = Some h" "map_of (dc_pkg_fn dc) fn = Some pn" "map_of (dc_file_checksums dc) fn = Some fcs"
    "map_of (dc_task_deps dc) fn = Some td" "map_of (dc_stamp dc) fn = Some st" "clean_basepath tid = Inr k"
    "tid_pn dcs tid = pn" "tid_base dcs tid = h" "tid_mc tid = mc"
proof -
  from assms obtain mc f task fn dc where m: "split_tid_mcfn tid = Inr (mc, f, task, fn)" "map_of dcs mc = Some dc"
    unfolding sig_known_def by (auto split: sum.splits option.splits)
  with assms have "has_key (dc_basetaskhash dc) tid" "has_key (dc_pkg_fn dc) fn" "has_key (dc_file_checksums dc) fn"
    "has_key (dc_task_deps dc) fn" "has_key (dc_stamp dc) fn" "\<exists>k. clean_basepath tid = Inr k"
    unfolding sig_known_def by (auto split: sum.splits)
  then obtain h pn fcs td st k where r: "map_of (dc_basetaskhash dc) tid = Some h" "map_of (dc_pkg_fn dc) fn = Some pn" "map_of (dc_file_checksums dc) fn = Some fcs"
    "map_of (dc_task_deps dc) fn = Some td" "map_of (dc_stamp dc) fn = Some st" "clean_basepath tid = Inr k" unfolding has_key_def by blast
  show thesis by (rule that [OF m r]) (use m r in \<open>simp_all add: tid_pn_def tid_base_def tid_mc_def or_empty_def\<close>)
qed

lemma sorted_deps_ok:
  assumes "\<forall>d \<in> set ds. sig_known dcs d"
  shows "\<exists>ds'. sorted_deps ds = Inr ds' \<and> mset ds' = mset ds \<and> sorted (map (\<lambda>d. projr (clean_basepath d)) ds')"
proof -
  have "clean_basepath d = Inr (projr (clean_basepath d))" if "d \<in> set ds" for d
    using assms that by (metis sig_knownE sum.sel(2))
  then have "rmap (\<lambda>d. rbind (clean_basepath d) (\<lambda>k. Inr (k, d))) ds = Inr (map (\<lambda>d. (projr (clean_basepath d), d)) ds)"
    by (intro rmap_all_Inr) (metis rbind_simps(2))
  then have "sorted_deps ds = Inr (sort_key (\<lambda>d. projr (clean_basepath d)) ds)"
    by (simp add: sorted_deps_def sort_key_map comp_def)
  then show ?thesis by simp
qed

lemma sorted_deps_set: "sorted_deps ds = Inr ds' \<Longrightarrow> set ds' \<subseteq> set ds"
proof -
  have "rmap (\<lambda>d. rbind (clean_basepath d) (\<lambda>k. Inr (k, d))) xs = Inr ks \<Longrightarrow> map snd ks = xs" for xs ks
    by (induction xs arbitrary: ks) auto
  then show "sorted_deps ds = Inr ds' \<Longrightarrow> set ds' \<subseteq> set ds" unfolding sorted_deps_def by fastforce
qed

lemma add_rundeps_filter:
  assumes "\<forall>d \<in> set ds. sig_known dcs d \<and> has_key (ss_taskhash g) d" "tid_mc tid = mc" "tid_pn dcs tid = pn"
  shows "rfold (add_rundep se g dcs mc pn) ds acc = Inr (acc @ filter (kept_dep se g dcs tid) ds)"
  using assms(1)
proof (induction ds arbitrary: acc)
  case (Cons d ds)
  from Cons.prems have k: "sig_known dcs d" by simp
  have "add_rundep se g dcs mc pn d acc = Inr (if kept_dep se g dcs tid d then acc @ [d] else acc)"
    using sig_knownE [OF k] Cons.prems assms(2,3) by (auto simp: add_rundep_def kept_dep_def dict_lookup_Some elim!: sig_knownE)
  with Cons show ?case by simp
qed simp

section \<open>The generators fulfil the contract\<close>

text \<open>The \<open>noop\<close> generator hashes the name of the task and needs nothing.\<close>

interpretation noop: siggen_contract "noop_siggen se" "\<lambda>dcs D K. True" "\<lambda>dcs D H g. True" "\<lambda>g. map_of (ss_taskhash g)"
  by unfold_locales (auto simp: noop_siggen_def noop_get_taskhash_def noop_get_unihash_def Let_def)

text \<open>What the basic generators hold for a task they have hashed.\<close>

definition dep_hashes :: "sigstate \<Rightarrow> string list \<Rightarrow> string" where
  "dep_hashes g ds = concat (map (\<lambda>d. or_empty (map_of (ss_taskhash g) d)) ds)"

definition hash_record :: "sigenv \<Rightarrow> datacaches \<Rightarrow> (string \<Rightarrow> string list) \<Rightarrow> sigstate \<Rightarrow> string \<Rightarrow> bool" where
  "hash_record se dcs D g tid \<longleftrightarrow>
     (\<exists>ds css. sorted_deps (D tid) = Inr ds \<and> map_of (ss_runtaskdeps g) tid = Some (filter (kept_dep se g dcs tid) ds) \<and>
        map_of (ss_basehash g) tid = Some (tid_base dcs tid) \<and> map_of (ss_file_checksum_values g) tid = Some css \<and>
        map_of (ss_taskhash g) tid = Some (se_sha256 se (tid_base dcs tid @ dep_hashes g (filter (kept_dep se g dcs tid) ds) @
          checksum_text css @ taint_text (map_of (ss_taints g) tid))))"

definition sig_inv :: "sigenv \<Rightarrow> datacaches \<Rightarrow> (string \<Rightarrow> string list) \<Rightarrow> string set \<Rightarrow> sigstate \<Rightarrow> bool" where
  "sig_inv se dcs D H g \<longleftrightarrow> ss_unihash g = [] \<and> (\<forall>t \<in> H. set (D t) \<subseteq> H \<and> hash_record se dcs D g t)"

lemma taint_same [simp]:
  "ss_taskhash (nostamp_taint se tid g) = ss_taskhash g" "ss_unihash (nostamp_taint se tid g) = ss_unihash g"
  "ss_runtaskdeps (nostamp_taint se tid g) = ss_runtaskdeps g" "ss_basehash (nostamp_taint se tid g) = ss_basehash g"
  "ss_file_checksum_values (nostamp_taint se tid g) = ss_file_checksum_values g" "ss_taskwhitelist (nostamp_taint se tid g) = ss_taskwhitelist g"
  "ss_tidtopn (nostamp_taint se tid g) = ss_tidtopn g"
  "t \<noteq> tid \<Longrightarrow> map_of (ss_taints (nostamp_taint se tid g)) t = map_of (ss_taints g) t"
  "ss_taskhash (file_taint tid f g) = ss_taskhash g" "ss_unihash (file_taint tid f g) = ss_unihash g"
  "ss_runtaskdeps (file_taint tid f g) = ss_runtaskdeps g" "ss_basehash (file_taint tid f g) = ss_basehash g"
  "ss_file_checksum_values (file_taint tid f g) = ss_file_checksum_values g" "ss_taskwhitelist (file_taint tid f g) = ss_taskwhitelist g"
  "ss_tidtopn (file_taint tid f g) = ss_tidtopn g"
  "t \<noteq> tid \<Longrightarrow> map_of (ss_taints (file_taint tid f g)) t = map_of (ss_taints g) t"
  by (simp_all add: nostamp_taint_def file_taint_def)

lemma task_checksums_ok:
  assumes "checksums_work se" "map_of (dc_file_checksums dc) fn = Some fcs"
  shows "\<exists>css. task_checksums se g dc fn task pn = Inr css"
proof (cases "map_of fcs task")
  case None
  with assms(2) show ?thesis by (simp add: task_checksums_def dict_lookup_Some)
next
  case (Some fs)
  from assms(1) obtain a b where "se_get_checksums se fs pn (ss_localdirsexclude g) = Inr a"
    "se_get_file_checksums se fs pn (ss_localdirsexclude g) = Inr b" unfolding checksums_work_def by blast
  with Some assms(2) show ?thesis by (simp add: task_checksums_def dict_lookup_Some)
qed

text \<open>\<^verbatim>\<open>prep_taskhash\<close> succeeds on a known task whose dependencies have hashes, and enters only this task.\<close>

lemma prep_taskhash_ok:
  assumes "checksums_work se" "sig_known dcs tid" "\<forall>d \<in> set deps. sig_known dcs d \<and> has_key (ss_taskhash g) d"
  shows "\<exists>g' ds css. prep_taskhash se tid deps dcs g = Inr g' \<and> sorted_deps deps = Inr ds \<and>
    ss_taskhash g' = ss_taskhash g \<and> ss_unihash g' = ss_unihash g \<and> ss_taskwhitelist g' = ss_taskwhitelist g \<and>
    ss_runtaskdeps g' = dict_set tid (filter (kept_dep se g dcs tid) ds) (ss_runtaskdeps g) \<and>
    ss_basehash g' = dict_set tid (tid_base dcs tid) (ss_basehash g) \<and> ss_tidtopn g' = dict_set tid (tid_pn dcs tid) (ss_tidtopn g) \<and>
    ss_file_checksum_values g' = dict_set tid css (ss_file_checksum_values g) \<and>
    (\<forall>t. t \<noteq> tid \<longrightarrow> map_of (ss_taints g') t = map_of (ss_taints g) t)"
proof -
  from assms(2) obtain mc f task fn dc h pn fcs td st k where
    k: "split_tid_mcfn tid = Inr (mc, f, task, fn)" "map_of dcs mc = Some dc" "map_of (dc_basetaskhash dc) tid = Some h"
      "map_of (dc_pkg_fn dc) fn = Some pn" "map_of (dc_file_checksums dc) fn = Some fcs" "map_of (dc_task_deps dc) fn = Some td"
      "map_of (dc_stamp dc) fn = Some st" "tid_pn dcs tid = pn" "tid_base dcs tid = h" "tid_mc tid = mc" by (rule sig_knownE)
  from sorted_deps_ok [of deps dcs] assms(3) obtain ds where ds: "sorted_deps deps = Inr ds" "mset ds = mset deps" by blast
  then have "set ds = set deps" by (metis set_mset_mset)
  then have rd: "rfold (add_rundep se g dcs mc pn) ds [] = Inr (filter (kept_dep se g dcs tid) ds)"
    using add_rundeps_filter [of ds dcs g tid mc pn se "[]"] assms(3) k(8,10) by simp
  from task_checksums_ok [OF assms(1) k(5)] obtain css where css: "task_checksums se g dc fn task pn = Inr css" by blast
  let ?g1 = "g\<lparr>ss_basehash := dict_set tid h (ss_basehash g), ss_tidtopn := dict_set tid pn (ss_tidtopn g),
    ss_runtaskdeps := dict_set tid (filter (kept_dep se g dcs tid) ds) (ss_runtaskdeps g),
    ss_file_checksum_values := dict_set tid css (ss_file_checksum_values g)\<rparr>"
  let ?g2 = "if task_flag td ''nostamp'' task \<noteq> None then nostamp_taint se tid ?g1 else ?g1"
  have "prep_taskhash se tid deps dcs g = Inr (file_taint tid (read_taint ?g2 task st) ?g2)"
    unfolding prep_taskhash_def using k(1-7) ds(1) rd css by (simp add: dict_lookup_Some Let_def)
  then show ?thesis using ds(1) k(8,9) by (intro exI [of _ "file_taint tid (read_taint ?g2 task st) ?g2"] exI [of _ ds] exI [of _ css]) simp
qed

lemma add_dephashes_plain:
  assumes "ss_unihash g = []" "\<forall>d \<in> set ds. has_key (ss_taskhash g) d"
  shows "rfold (add_dephash noop_get_unihash) ds (data, g) = Inr (data @ dep_hashes g ds, g)"
  using assms(2)
proof (induction ds arbitrary: data)
  case (Cons d ds)
  then obtain h where "map_of (ss_taskhash g) d = Some h" by (auto simp: has_key_def)
  with assms(1) have "add_dephash noop_get_unihash d (data, g) = Inr (data @ h, g)"
    by (simp add: add_dephash_def noop_get_unihash_def dict_lookup_Some)
  with Cons \<open>map_of (ss_taskhash g) d = Some h\<close> show ?case by (simp add: dep_hashes_def or_empty_def)
qed (simp add: dep_hashes_def)

lemma hash_record_other:
  assumes "hash_record se dcs D g t" "t \<noteq> tid" "tid \<notin> set (D t)"
    and "\<And>x. x \<noteq> tid \<Longrightarrow> map_of (ss_taskhash g') x = map_of (ss_taskhash g) x \<and> map_of (ss_taints g') x = map_of (ss_taints g) x \<and>
      map_of (ss_runtaskdeps g') x = map_of (ss_runtaskdeps g) x \<and> map_of (ss_basehash g') x = map_of (ss_basehash g) x \<and>
      map_of (ss_file_checksum_values g') x = map_of (ss_file_checksum_values g) x"
    and "ss_taskwhitelist g' = ss_taskwhitelist g"
  shows "hash_record se dcs D g' t"
proof -
  have kept: "kept_dep se g' dcs = kept_dep se g dcs" using assms(5) by (simp add: kept_dep_def rundep_check_def fun_eq_iff)
  from assms(1) obtain ds css where h: "sorted_deps (D t) = Inr ds" "map_of (ss_runtaskdeps g) t = Some (filter (kept_dep se g dcs t) ds)"
      "map_of (ss_basehash g) t = Some (tid_base dcs t)" "map_of (ss_file_checksum_values g) t = Some css"
      "map_of (ss_taskhash g) t = Some (se_sha256 se (tid_base dcs t @ dep_hashes g (filter (kept_dep se g dcs t) ds) @
         checksum_text css @ taint_text (map_of (ss_taints g) t)))" unfolding hash_record_def by blast
  have "set ds \<subseteq> set (D t)" using h(1) by (rule sorted_deps_set)
  then have "d \<noteq> tid" if "d \<in> set ds" for d using assms(3) that by blast
  then have "map_of (ss_taskhash g') d = map_of (ss_taskhash g) d" if "d \<in> set ds" for d using assms(4) that by simp
  then have "dep_hashes g' (filter (kept_dep se g dcs t) ds) = dep_hashes g (filter (kept_dep se g dcs t) ds)"
    unfolding dep_hashes_def by (intro arg_cong [where f = concat] map_cong) auto
  with h assms(4) [OF assms(2)] show ?thesis unfolding hash_record_def kept by (intro exI [of _ ds] exI [of _ css]) simp
qed

lemma basic_delivers:
  assumes "sig_ready se dcs D K" "sig_inv se dcs D H g" "tid \<in> K" "tid \<notin> H" "H \<subseteq> K" "set (D tid) \<subseteq> H"
  shows "\<exists>g1 h g2. prep_taskhash se tid (D tid) dcs g = Inr g1 \<and> get_taskhash noop_get_unihash se tid (D tid) dcs g1 = Inr (h, g2) \<and>
    noop_get_unihash tid g2 = Inr (h, g2) \<and> sig_inv se dcs D (insert tid H) g2 \<and> map_of (ss_taskhash g2) = (map_of (ss_taskhash g))(tid \<mapsto> h)"
proof -
  have known: "\<forall>d \<in> set (D tid). sig_known dcs d \<and> has_key (ss_taskhash g) d"
    using assms unfolding sig_ready_def sig_inv_def hash_record_def has_key_def by fastforce
  have ready: "checksums_work se" "sig_known dcs tid" using assms(1,3) by (simp_all add: sig_ready_def)
  from prep_taskhash_ok [OF ready known] obtain g1 ds css where
    p: "prep_taskhash se tid (D tid) dcs g = Inr g1" "sorted_deps (D tid) = Inr ds" "ss_taskhash g1 = ss_taskhash g" "ss_unihash g1 = ss_unihash g"
      "ss_taskwhitelist g1 = ss_taskwhitelist g" "ss_runtaskdeps g1 = dict_set tid (filter (kept_dep se g dcs tid) ds) (ss_runtaskdeps g)"
      "ss_basehash g1 = dict_set tid (tid_base dcs tid) (ss_basehash g)" "ss_file_checksum_values g1 = dict_set tid css (ss_file_checksum_values g)"
      "\<forall>t. t \<noteq> tid \<longrightarrow> map_of (ss_taints g1) t = map_of (ss_taints g) t" by blast
  have uni: "ss_unihash g1 = []" using assms(2) p(4) by (simp add: sig_inv_def)
  have ds: "set ds \<subseteq> set (D tid)" by (rule sorted_deps_set [OF p(2)])
  let ?rd = "filter (kept_dep se g dcs tid) ds"
  let ?h = "se_sha256 se (tid_base dcs tid @ dep_hashes g1 ?rd @ checksum_text css @ taint_text (map_of (ss_taints g1) tid))"
  let ?g2 = "g1\<lparr>ss_taskhash := dict_set tid ?h (ss_taskhash g1)\<rparr>"
  have "\<forall>d \<in> set ?rd. has_key (ss_taskhash g1) d" using known ds p(3) by auto
  from add_dephashes_plain [OF uni this] have get: "get_taskhash noop_get_unihash se tid (D tid) dcs g1 = Inr (?h, ?g2)"
    unfolding get_taskhash_def p(6-8) by (simp add: dict_lookup_Some Let_def p(8))
  have fresh: "tid \<notin> set (D t)" if "t \<in> insert tid H" for t using assms(2,4,6) that unfolding sig_inv_def by auto
  have kept: "kept_dep se ?g2 dcs tid = kept_dep se g dcs tid" using p(5) by (simp add: kept_dep_def rundep_check_def fun_eq_iff)
  have "dep_hashes ?g2 ?rd = dep_hashes g1 ?rd"
    unfolding dep_hashes_def using ds fresh by (intro arg_cong [where f = concat] map_cong) auto
  then have self: "hash_record se dcs D ?g2 tid" unfolding hash_record_def kept using p(2) by (simp add: p(6-8))
  have "hash_record se dcs D ?g2 t" if "t \<in> H" for t
    using assms(2,4) that fresh p(3,5-9) by (intro hash_record_other [of se dcs D g t tid ?g2]) (auto simp: sig_inv_def)
  with self uni assms(2,6) have "sig_inv se dcs D (insert tid H) ?g2" unfolding sig_inv_def by auto
  moreover have "noop_get_unihash tid ?g2 = Inr (?h, ?g2)" by (simp add: noop_get_unihash_def dict_lookup_Some)
  ultimately show ?thesis using p(1,3) get by fastforce
qed

interpretation basic: siggen_contract "basic_siggen se" "sig_ready se" "sig_inv se" "\<lambda>g. map_of (ss_taskhash g)"
  by (rule siggen_contract.intro, drule (5) basic_delivers) (auto simp: basic_siggen_def)

interpretation basichash: siggen_contract "basichash_siggen se" "sig_ready se" "sig_inv se" "\<lambda>g. map_of (ss_taskhash g)"
  by (rule siggen_contract.intro, drule (5) basic_delivers) (auto simp: basichash_siggen_def basic_siggen_def)

text \<open>With hash equivalence the generator may ask the server for the hash of a dependency, which changes only its caches.\<close>

definition equiv_inv :: "datacaches \<Rightarrow> (string \<Rightarrow> string list) \<Rightarrow> string set \<Rightarrow> sigstate \<Rightarrow> bool" where
  "equiv_inv dcs D H g \<longleftrightarrow> (\<forall>t \<in> H. has_key (ss_taskhash g) t \<and> has_key (ss_tidtopn g) t)"

lemma uni_key_ok:
  assumes "sig_known dcs tid" "has_key (ss_tidtopn g) tid"
  shows "\<exists>key. uni_key tid g = Inr key"
proof -
  from assms(1) obtain mc f task fn where "split_tid_mcfn tid = Inr (mc, f, task, fn)" by (rule sig_knownE)
  with assms(2) show ?thesis by (auto simp: uni_key_def has_key_def dict_lookup_Some)
qed

lemma uni_get_unihash_ok:
  assumes "sig_known dcs tid" "has_key (ss_taskhash g) tid" "has_key (ss_tidtopn g) tid"
  shows "\<exists>u U V. uni_get_unihash se tid g = Inr (u, g\<lparr>ss_unihash := U, ss_unitaskhashes := V\<rparr>)"
proof -
  from assms(2) obtain h where h: "map_of (ss_taskhash g) tid = Some h" by (auto simp: has_key_def)
  obtain key where key: "uni_key tid g = Inr key" using uni_key_ok [OF assms(1,3)] by blast
  obtain c where c: "get_unihash_cached tid None g = Inr c"
    using key h assms(3) by (cases "map_of (ss_unitaskhashes g) key") (auto simp: get_unihash_cached_def dict_lookup_Some)
  have same: "\<exists>U' V'. g\<lparr>ss_unihash := U\<rparr> = g\<lparr>ss_unihash := U', ss_unitaskhashes := V'\<rparr>"
      "\<exists>U' V'. g\<lparr>ss_unitaskhashes := V, ss_unihash := U\<rparr> = g\<lparr>ss_unihash := U', ss_unitaskhashes := V'\<rparr>" for U V
    by (rule exI [of _ U], rule exI [of _ "ss_unitaskhashes g"], simp) (rule exI [of _ U], rule exI [of _ V], simp)
  show ?thesis
    unfolding uni_get_unihash_def using h key c by (cases c) (auto simp: dict_lookup_Some set_unihash_def Let_def intro: same)
qed

lemma add_dephashes_uni:
  assumes "\<forall>d \<in> set ds. sig_known dcs d \<and> has_key (ss_taskhash g) d \<and> has_key (ss_tidtopn g) d"
  shows "\<exists>data' U V. rfold (add_dephash (uni_get_unihash se)) ds (data, g) = Inr (data', g\<lparr>ss_unihash := U, ss_unitaskhashes := V\<rparr>)"
  using assms
proof (induction ds arbitrary: data g)
  case Nil
  then show ?case by (intro exI [of _ data] exI [of _ "ss_unihash g"] exI [of _ "ss_unitaskhashes g"]) simp
next
  case (Cons d ds)
  have "\<exists>x U V. add_dephash (uni_get_unihash se) d (data, g) = Inr (x, g\<lparr>ss_unihash := U, ss_unitaskhashes := V\<rparr>)"
  proof (cases "map_of (ss_unihash g) d")
    case None
    obtain u U V where "uni_get_unihash se d g = Inr (u, g\<lparr>ss_unihash := U, ss_unitaskhashes := V\<rparr>)"
      using uni_get_unihash_ok [of dcs d g se] Cons.prems by auto
    then have "add_dephash (uni_get_unihash se) d (data, g) = Inr (data @ u, g\<lparr>ss_unihash := U, ss_unitaskhashes := V\<rparr>)"
      using None by (simp add: add_dephash_def)
    then show ?thesis by blast
  next
    case (Some u)
    have "g = g\<lparr>ss_unihash := ss_unihash g, ss_unitaskhashes := ss_unitaskhashes g\<rparr>" by simp
    moreover have "\<exists>x. add_dephash (uni_get_unihash se) d (data, g) = Inr (x, g)"
      using Some Cons.prems by (cases u) (auto simp: add_dephash_def has_key_def dict_lookup_Some)
    ultimately show ?thesis by metis
  qed
  then obtain x U V where s: "add_dephash (uni_get_unihash se) d (data, g) = Inr (x, g\<lparr>ss_unihash := U, ss_unitaskhashes := V\<rparr>)" by blast
  from Cons.IH [of "g\<lparr>ss_unihash := U, ss_unitaskhashes := V\<rparr>" x] Cons.prems s show ?case by auto
qed

lemma equivhash_delivers:
  assumes "sig_ready se dcs D K" "equiv_inv dcs D H g" "tid \<in> K" "tid \<notin> H" "H \<subseteq> K" "set (D tid) \<subseteq> H"
  shows "\<exists>g1 h g2 u g3. prep_taskhash se tid (D tid) dcs g = Inr g1 \<and> get_taskhash (uni_get_unihash se) se tid (D tid) dcs g1 = Inr (h, g2) \<and>
    uni_get_unihash se tid g2 = Inr (u, g3) \<and> equiv_inv dcs D (insert tid H) g3 \<and> map_of (ss_taskhash g3) = (map_of (ss_taskhash g))(tid \<mapsto> h)"
proof -
  have known: "\<forall>d \<in> set (D tid). sig_known dcs d \<and> has_key (ss_taskhash g) d" "\<forall>d \<in> set (D tid). has_key (ss_tidtopn g) d"
    using assms unfolding sig_ready_def equiv_inv_def by auto
  have ready: "checksums_work se" "sig_known dcs tid" using assms(1,3) by (simp_all add: sig_ready_def)
  from prep_taskhash_ok [OF ready known(1)] obtain g1 ds css where
    p: "prep_taskhash se tid (D tid) dcs g = Inr g1" "sorted_deps (D tid) = Inr ds" "ss_taskhash g1 = ss_taskhash g"
      "ss_runtaskdeps g1 = dict_set tid (filter (kept_dep se g dcs tid) ds) (ss_runtaskdeps g)"
      "ss_basehash g1 = dict_set tid (tid_base dcs tid) (ss_basehash g)" "ss_file_checksum_values g1 = dict_set tid css (ss_file_checksum_values g)"
      "ss_tidtopn g1 = dict_set tid (tid_pn dcs tid) (ss_tidtopn g)" by blast
  let ?rd = "filter (kept_dep se g dcs tid) ds"
  have "\<forall>d \<in> set ?rd. sig_known dcs d \<and> has_key (ss_taskhash g1) d \<and> has_key (ss_tidtopn g1) d"
    using known sorted_deps_set [OF p(2)] p(3,7) by auto
  from add_dephashes_uni [OF this, of se "tid_base dcs tid"] obtain data U V where
    d: "rfold (add_dephash (uni_get_unihash se)) ?rd (tid_base dcs tid, g1) = Inr (data, g1\<lparr>ss_unihash := U, ss_unitaskhashes := V\<rparr>)" by blast
  let ?h = "se_sha256 se (data @ checksum_text css @ taint_text (map_of (ss_taints g1) tid))"
  let ?g2 = "g1\<lparr>ss_unihash := U, ss_unitaskhashes := V, ss_taskhash := dict_set tid ?h (ss_taskhash g1)\<rparr>"
  have get: "get_taskhash (uni_get_unihash se) se tid (D tid) dcs g1 = Inr (?h, ?g2)"
    unfolding get_taskhash_def p(4-6) using d by (simp add: dict_lookup_Some Let_def p(6))
  from uni_get_unihash_ok [OF ready(2), of ?g2 se] p(7) obtain u U' V' where
    u: "uni_get_unihash se tid ?g2 = Inr (u, ?g2\<lparr>ss_unihash := U', ss_unitaskhashes := V'\<rparr>)" by auto
  have "equiv_inv dcs D (insert tid H) (?g2\<lparr>ss_unihash := U', ss_unitaskhashes := V'\<rparr>)" using assms(2) p(3,7) by (simp add: equiv_inv_def)
  moreover have "map_of (ss_taskhash (?g2\<lparr>ss_unihash := U', ss_unitaskhashes := V'\<rparr>)) = (map_of (ss_taskhash g))(tid \<mapsto> ?h)" using p(3) by simp
  ultimately show ?thesis using p(1) get u by blast
qed

interpretation equivhash: siggen_contract "equivhash_siggen se" "sig_ready se" equiv_inv "\<lambda>g. map_of (ss_taskhash g)"
  by (rule siggen_contract.intro, drule (5) equivhash_delivers) (simp add: equivhash_siggen_def basichash_siggen_def basic_siggen_def)

section \<open>The hashes of the queue\<close>

text \<open>C8. The run queue and the \<open>basichash\<close> generator work together. Let the queue have passed its checks, let there be a task at all, let no unique hashes be stored yet, and let the caches know
  every task of the queue (its base hash, recipe, stamp and file checksums). Then \<^verbatim>\<open>prepare\<close> delivers the queue within as many rounds as there are tasks; in particular \<^verbatim>\<open>prep_taskhash\<close> never ends in
  the fatal error \<open>is not in taskhash, caller isn't calling in dependency order?\<close>. The hash of every task is the SHA-256 hash of its cached base hash, followed by the hashes of exactly those of its
  dependencies that the generator keeps, in the order of their cleaned paths, the checksums of its files and its taint.\<close>

theorem queue_hashes_correct:
  assumes "checked_queue (basichash_siggen se) env tds g = Inr q" and "length (q_entries q) \<le> n"
    and "sig_ready se (pe_dataCaches env) (deps_of (q_entries q)) (set (dict_keys (q_entries q)))"
    and "ss_unihash (q_g q) = []" and "\<exists>p \<in> set tds. td_taskentries (snd p) \<noteq> []"
  shows "\<exists>q'. prepare n (basichash_siggen se) env tds g = Some (Inr (Some q')) \<and> dict_keys (q_entries q') = dict_keys (q_entries q) \<and>
    (\<forall>t \<in> set (dict_keys (q_entries q)). \<exists>e ds css. map_of (q_entries q') t = Some e \<and>
       sorted_deps (deps_of (q_entries q) t) = Inr ds \<and> map_of (ss_file_checksum_values (q_g q')) t = Some css \<and>
       re_hash e = Some (se_sha256 se (tid_base (pe_dataCaches env) t @
         dep_hashes (q_g q') (filter (kept_dep se (q_g q') (pe_dataCaches env) t) ds) @
         checksum_text css @ taint_text (map_of (ss_taints (q_g q')) t))))"
proof -
  have "sig_inv se (pe_dataCaches env) (deps_of (q_entries q)) {} (q_g q)" using assms(4) by (simp add: sig_inv_def)
  from basichash.prepare_delivers [OF assms(1-3) this assms(5)] obtain q' where
    q': "prepare n (basichash_siggen se) env tds g = Some (Inr (Some q'))" "dict_keys (q_entries q') = dict_keys (q_entries q)"
      "sig_inv se (pe_dataCaches env) (deps_of (q_entries q)) (set (dict_keys (q_entries q))) (q_g q')"
      "\<forall>t \<in> set (dict_keys (q_entries q)). \<exists>e. map_of (q_entries q') t = Some e \<and> re_hash e = map_of (ss_taskhash (q_g q')) t" by blast
  have "\<exists>e ds css. map_of (q_entries q') t = Some e \<and> sorted_deps (deps_of (q_entries q) t) = Inr ds \<and>
      map_of (ss_file_checksum_values (q_g q')) t = Some css \<and>
      re_hash e = Some (se_sha256 se (tid_base (pe_dataCaches env) t @
         dep_hashes (q_g q') (filter (kept_dep se (q_g q') (pe_dataCaches env) t) ds) @
         checksum_text css @ taint_text (map_of (ss_taints (q_g q')) t)))" if t: "t \<in> set (dict_keys (q_entries q))" for t
  proof -
    have "hash_record se (pe_dataCaches env) (deps_of (q_entries q)) (q_g q') t" using q'(3) t unfolding sig_inv_def by blast
    then obtain ds css where "sorted_deps (deps_of (q_entries q) t) = Inr ds" "map_of (ss_file_checksum_values (q_g q')) t = Some css"
      "map_of (ss_taskhash (q_g q')) t = Some (se_sha256 se (tid_base (pe_dataCaches env) t @
         dep_hashes (q_g q') (filter (kept_dep se (q_g q') (pe_dataCaches env) t) ds) @
         checksum_text css @ taint_text (map_of (ss_taints (q_g q')) t)))" unfolding hash_record_def by blast
    with q'(4) t show ?thesis by fastforce
  qed
  with q'(1,2) show ?thesis by blast
qed

text \<open>A build of two recipes, with the identity for SHA-256: \<open>do_x\<close> of \<open>a\<close> depends on \<open>do_y\<close> of \<open>b\<close>.\<close>

definition sign_tds :: taskdatas where
  "sign_tds = [([], (TaskData True [] False)\<lparr>
     td_build_targets := [(''a'', [''/l/r/a.bb'']), (''b'', [''/l/r/b.bb''])],
     td_taskentries := [(''/l/r/a.bb:do_x'', TaskEntry), (''/l/r/b.bb:do_y'', TaskEntry)],
     td_depids := [(''/l/r/a.bb'', [''b'']), (''/l/r/b.bb'', [])], td_rdepids := [(''/l/r/a.bb'', []), (''/l/r/b.bb'', [])]\<rparr>)]"

definition sign_dcs :: datacaches where
  "sign_dcs = [([], CacheData\<lparr>
     dc_task_deps := [(''/l/r/a.bb'', \<lparr>tk_tasks = [], tk_parents = [], tk_flags = [(''deptask'', [(''do_x'', ''do_y'')])]\<rparr>),
       (''/l/r/b.bb'', \<lparr>tk_tasks = [], tk_parents = [], tk_flags = []\<rparr>)],
     dc_pkg_fn := [(''/l/r/a.bb'', ''a''), (''/l/r/b.bb'', ''b'')], dc_fn_provides := [(''/l/r/a.bb'', [''a'']), (''/l/r/b.bb'', [''b''])],
     dc_basetaskhash := [(''/l/r/a.bb:do_x'', ''A''), (''/l/r/b.bb:do_y'', ''B'')],
     dc_file_checksums := [(''/l/r/a.bb'', []), (''/l/r/b.bb'', [(''do_y'', Some ''f'')])],
     dc_stamp := [(''/l/r/a.bb'', ''sa''), (''/l/r/b.bb'', ''sb'')]\<rparr>)]"

definition sign_env :: prep_env where
  "sign_env = sample_env\<lparr>pe_dataCaches := sign_dcs, pe_targets := [([], ''a'', ''do_x'', ''/l/r/a.bb'')]\<rparr>"

definition sign_se :: sigenv where
  "sign_se = \<lparr>se_sha256 = (\<lambda>s. s), se_uuid4 = (\<lambda>n. ''u''), se_search = (\<lambda>p s. False), se_get_checksums = (\<lambda>fs pn ex. Inr []),
     se_get_file_checksums = (\<lambda>fs pn ex. Inr [(''f'', Some ''C'')]), se_multiconfig = False, se_get_unihash = (\<lambda>m h. None),
     se_report_equiv = (\<lambda>h m w. None)\<rparr>"

theorem queue_hashes_correct_witness:
  "\<exists>q'. prepare 2 (basichash_siggen sign_se) sign_env sign_tds SignatureGenerator = Some (Inr (Some q')) \<and>
     map_option re_hash (map_of (q_entries q') ''/l/r/a.bb:do_x'') = Some (Some ''ABC'')"
proof -
  have c: "case checked_queue (basichash_siggen sign_se) sign_env sign_tds SignatureGenerator of Inl _ \<Rightarrow> False
      | Inr q \<Rightarrow> dict_keys (q_entries q) = [''/l/r/a.bb:do_x'', ''/l/r/b.bb:do_y''] \<and> ss_unihash (q_g q) = []" by code_simp
  then obtain q where q: "checked_queue (basichash_siggen sign_se) sign_env sign_tds SignatureGenerator = Inr q"
    "dict_keys (q_entries q) = [''/l/r/a.bb:do_x'', ''/l/r/b.bb:do_y'']" "ss_unihash (q_g q) = []" by (auto split: sum.splits)
  have "length (dict_keys (q_entries q)) = 2" unfolding q(2) by simp
  then have len: "length (q_entries q) \<le> 2" by simp
  have known: "sig_known sign_dcs ''/l/r/a.bb:do_x'' \<and> sig_known sign_dcs ''/l/r/b.bb:do_y''" by code_simp
  have ready: "sig_ready sign_se (pe_dataCaches sign_env) (deps_of (q_entries q)) (set (dict_keys (q_entries q)))"
    unfolding q(2) using known by (simp add: sig_ready_def checksums_work_def sign_se_def sign_env_def)
  have "\<exists>p \<in> set sign_tds. td_taskentries (snd p) \<noteq> []" by (simp add: sign_tds_def)
  from queue_hashes_correct [OF q(1) len ready q(3) this] obtain q' where
    "prepare 2 (basichash_siggen sign_se) sign_env sign_tds SignatureGenerator = Some (Inr (Some q'))" by blast
  moreover have "case prepare 2 (basichash_siggen sign_se) sign_env sign_tds SignatureGenerator of Some (Inr (Some q')) \<Rightarrow>
      map_option re_hash (map_of (q_entries q') ''/l/r/a.bb:do_x'') = Some (Some ''ABC'') | _ \<Rightarrow> False" by code_simp
  ultimately show ?thesis by simp
qed

section \<open>Hash equivalence and forced tasks\<close>

lemma uni_key_cong: "ss_tidtopn g' = ss_tidtopn g \<Longrightarrow> uni_key tid g' = uni_key tid g"
  by (simp add: uni_key_def)

lemma cached_cong:
  "ss_tidtopn g' = ss_tidtopn g \<Longrightarrow> ss_taskhash g' = ss_taskhash g \<Longrightarrow> ss_unitaskhashes g' = ss_unitaskhashes g \<Longrightarrow>
   get_unihash_cached tid c g' = get_unihash_cached tid c g"
  unfolding get_unihash_cached_def uni_key_def by (simp only:)

text \<open>The unique hash of a task is settled by the first query: every later call of \<^verbatim>\<open>get_unihash\<close> returns the same hash, whatever the hash equivalence server would answer by then,
  and it is what the next task hashes are computed from. The first answer is the hash the server reports for the task hash, if it reports one, and the task hash otherwise.\<close>

theorem unihash_stable:
  assumes "uni_get_unihash se tid g = Inr (u, g')"
  shows "(\<exists>g''. uni_get_unihash se' tid g' = Inr (u, g'')) \<and>
    (map_of (ss_unitaskhashes g) = Map.empty \<and> ss_setscenetasks g = [] \<longrightarrow>
       map_of (ss_taskhash g) tid = Some u \<or> (\<exists>h. map_of (ss_taskhash g) tid = Some h \<and> se_get_unihash se (task_method tid g) h = Some (Some u)))"
proof -
  from assms obtain h where h: "map_of (ss_taskhash g) tid = Some h" by (auto simp: uni_get_unihash_def)
  show ?thesis
  proof (cases "ss_setscenetasks g \<noteq> [] \<and> tid \<notin> set (ss_setscenetasks g)")
    case True
    with assms h show ?thesis by (auto simp: uni_get_unihash_def dict_lookup_Some)
  next
    case no_setscene: False
    with assms h obtain c where c: "get_unihash_cached tid None g = Inr c" by (auto simp: uni_get_unihash_def dict_lookup_Some)
    show ?thesis
    proof (cases c)
      case (Some v)
      with c no_setscene assms h have e: "u = v" "g' = g\<lparr>ss_unihash := dict_set tid (Some v) (ss_unihash g)\<rparr>"
        by (auto simp: uni_get_unihash_def dict_lookup_Some)
      then have "get_unihash_cached tid None g' = Inr (Some v)" using c Some cached_cong [of g' g tid None] by simp
      then have "\<exists>g''. uni_get_unihash se' tid g' = Inr (u, g'')"
        using no_setscene h e by (auto simp: uni_get_unihash_def dict_lookup_Some)
      moreover have "map_of (ss_unitaskhashes g) \<noteq> Map.empty" using c Some by (auto simp: get_unihash_cached_def split: if_splits)
      ultimately show ?thesis by blast
    next
      case None
      with c no_setscene assms h obtain g1 where s: "set_unihash tid u g = Inr g1" "g' = g1\<lparr>ss_unihash := dict_set tid (Some u) (ss_unihash g1)\<rparr>"
        "u = (case se_get_unihash se (task_method tid g) h of Some (Some data) \<Rightarrow> if data \<noteq> [] then data else h | _ \<Rightarrow> h)"
        by (auto simp: uni_get_unihash_def dict_lookup_Some Let_def)
      from s(1) h obtain key where key: "uni_key tid g = Inr key"
        "g1 = g\<lparr>ss_unitaskhashes := dict_set key (h, u) (ss_unitaskhashes g), ss_unihash := dict_set tid (Some u) (ss_unihash g)\<rparr>"
        by (auto simp: set_unihash_def)
      have t: "has_key (ss_tidtopn g) tid" using key(1) by (auto simp: uni_key_def has_key_def)
      have "uni_key tid g' = Inr key" using key s(2) uni_key_cong [of g' g tid] by simp
      then have "get_unihash_cached tid None g' = Inr (Some u)"
        using t h s(2) key(2) by (simp add: get_unihash_cached_def dict_lookup_Some)
      then have "\<exists>g''. uni_get_unihash se' tid g' = Inr (u, g'')"
        using no_setscene h s(2) key(2) by (auto simp: uni_get_unihash_def dict_lookup_Some)
      with s(3) h show ?thesis by (auto split: option.splits if_splits)
    qed
  qed
qed

theorem unihash_stable_witness:
  "\<exists>g' g''. uni_get_unihash (sign_se\<lparr>se_get_unihash := (\<lambda>m h. Some (Some ''first''))\<rparr>) ''/l/r/a.bb:do_x''
      (SignatureGenerator\<lparr>ss_taskhash := [(''/l/r/a.bb:do_x'', ''h'')], ss_tidtopn := [(''/l/r/a.bb:do_x'', ''a'')]\<rparr>) = Inr (''first'', g') \<and>
    uni_get_unihash (sign_se\<lparr>se_get_unihash := (\<lambda>m h. Some (Some ''second''))\<rparr>) ''/l/r/a.bb:do_x'' g' = Inr (''first'', g'')"
proof -
  have "case uni_get_unihash (sign_se\<lparr>se_get_unihash := (\<lambda>m h. Some (Some ''first''))\<rparr>) ''/l/r/a.bb:do_x''
      (SignatureGenerator\<lparr>ss_taskhash := [(''/l/r/a.bb:do_x'', ''h'')], ss_tidtopn := [(''/l/r/a.bb:do_x'', ''a'')]\<rparr>) of
      Inl _ \<Rightarrow> False | Inr (u, _) \<Rightarrow> u = ''first''" by code_simp
  then obtain g' where "uni_get_unihash (sign_se\<lparr>se_get_unihash := (\<lambda>m h. Some (Some ''first''))\<rparr>) ''/l/r/a.bb:do_x''
      (SignatureGenerator\<lparr>ss_taskhash := [(''/l/r/a.bb:do_x'', ''h'')], ss_tidtopn := [(''/l/r/a.bb:do_x'', ''a'')]\<rparr>) = Inr (''first'', g')"
    by (auto split: sum.splits)
  with unihash_stable [OF this] show ?thesis by blast
qed

text \<open>Forcing a task changes its signature. After \<^verbatim>\<open>invalidate_task\<close> has written the taint file of a task, \<^verbatim>\<open>prep_taskhash\<close> and
  \<^verbatim>\<open>get_taskhash\<close> compute its hash from a text that ends with the random identifier drawn by \<^verbatim>\<open>invalidate_task\<close>, also for a \<^verbatim>\<open>nostamp\<close> task.\<close>

theorem invalidate_changes_hash:
  assumes "split_tid_mcfn tid = Inr (mc, f, task, fn)" and "map_of dcs mc = Some dc"
    and "sg_invalidate (basichash_siggen se) task dc fn g = Inr g1" and "sg_prep_taskhash (basichash_siggen se) tid deps dcs g1 = Inr g2"
    and "sg_get_taskhash (basichash_siggen se) tid deps dcs g2 = Inr (h, g3)"
    and "se_uuid4 se (ss_uuids g) \<noteq> []" and "\<not> startswith (se_uuid4 se (ss_uuids g)) ''nostamp:''"
  shows "\<exists>s. h = se_sha256 se (s @ se_uuid4 se (ss_uuids g)) \<and> map_of (ss_taskhash g3) tid = Some h"
proof -
  let ?u = "se_uuid4 se (ss_uuids g)"
  from assms(3) obtain st where st: "map_of (dc_stamp dc) fn = Some st" "map_of (ss_files g1) (st @ ''.'' @ task @ ''.taint'') = Some ?u"
    by (auto simp: basichash_siggen_def write_taint_def)
  have nf: "ss_files (nostamp_taint se tid k) = ss_files k" for k by (simp add: nostamp_taint_def)
  from assms(1,2,4) st obtain k where k: "g2 = file_taint tid (read_taint k task st) k" "ss_files k = ss_files g1"
    by (auto simp: basichash_siggen_def basic_siggen_def prep_taskhash_def Let_def nf dict_lookup_Some split: if_splits)
  have taint: "map_of (ss_taints g2) tid = Some ?u"
    unfolding k(1) using st(2) k(2) assms(6) by (simp add: read_taint_def file_taint_def or_empty_def)
  from assms(5) obtain basehash rundeps data g2' css where r: "rfold (add_dephash noop_get_unihash) rundeps (basehash, g2) = Inr (data, g2')"
      "h = se_sha256 se (data @ checksum_text css @ taint_text (map_of (ss_taints g2') tid))" "ss_taskhash g3 = dict_set tid h (ss_taskhash g2')"
    by (auto simp: basichash_siggen_def basic_siggen_def get_taskhash_def Let_def)
  have "ss_taints (snd (data, g2')) = ss_taints g2"
    by (rule rfold_invariant [OF r(1), where I = "\<lambda>p. ss_taints (snd p) = ss_taints g2"])
      (auto simp: add_dephash_def noop_get_unihash_def split: option.splits)
  with taint assms(7) have "taint_text (map_of (ss_taints g2') tid) = ?u" by (simp add: taint_text_def)
  with r(2,3) show ?thesis by (intro exI [of _ "data @ checksum_text css"]) simp
qed

theorem invalidate_changes_hash_witness:
  "\<exists>g1 g2 s h g3. sg_invalidate (basichash_siggen sign_se) ''do_y'' (snd (hd sign_dcs)) ''/l/r/b.bb'' SignatureGenerator = Inr g1 \<and>
     sg_prep_taskhash (basichash_siggen sign_se) ''/l/r/b.bb:do_y'' [] sign_dcs g1 = Inr g2 \<and>
     sg_get_taskhash (basichash_siggen sign_se) ''/l/r/b.bb:do_y'' [] sign_dcs g2 = Inr (h, g3) \<and> h = s @ ''u''"
proof -
  let ?sg = "basichash_siggen sign_se"
  have "case rbind (sg_invalidate ?sg ''do_y'' (snd (hd sign_dcs)) ''/l/r/b.bb'' SignatureGenerator) (\<lambda>g1.
      rbind (sg_prep_taskhash ?sg ''/l/r/b.bb:do_y'' [] sign_dcs g1) (sg_get_taskhash ?sg ''/l/r/b.bb:do_y'' [] sign_dcs)) of
      Inl _ \<Rightarrow> False | Inr _ \<Rightarrow> True" by code_simp
  then obtain g1 g2 h g3 where r: "sg_invalidate ?sg ''do_y'' (snd (hd sign_dcs)) ''/l/r/b.bb'' SignatureGenerator = Inr g1"
    "sg_prep_taskhash ?sg ''/l/r/b.bb:do_y'' [] sign_dcs g1 = Inr g2" "sg_get_taskhash ?sg ''/l/r/b.bb:do_y'' [] sign_dcs g2 = Inr (h, g3)"
    by (auto split: sum.splits)
  have s: "split_tid_mcfn ''/l/r/b.bb:do_y'' = Inr ([], ''/l/r/b.bb'', ''do_y'', ''/l/r/b.bb'')" by code_simp
  have m: "map_of sign_dcs [] = Some (snd (hd sign_dcs))" by (simp add: sign_dcs_def)
  from invalidate_changes_hash [OF s m r] obtain x where "h = x @ ''u''" by (auto simp: sign_se_def)
  with r show ?thesis by blast
qed

end
