(* ===== verification/BB_Sigdump.thy ===== *)
theory BB_Sigdump
  imports BB_Signing
begin

text \<open>
  The signature files of \<^verbatim>\<open>lib/bb/siggen.py\<close>: what \<^verbatim>\<open>dump_sigtask\<close> writes for a task, the functions that compute the hashes again from such a file,
  and the comparisons \<^verbatim>\<open>compare_sigfiles\<close> uses. Writing the file itself (temporary file, pickle, rename) is left out: the result is the file name and its
  content.
\<close>

section \<open>Signature data\<close>

text \<open>The items that are present only in the data of a run.\<close>

record sigrun =
  sr_runtaskdeps :: "string list"
  sr_file_checksum_values :: "(string \<times> string option) list"
  sr_runtaskhashes :: "(string, string) dict"
  sr_taskhash :: string
  sr_unihash :: string

record sigdata =
  sd_task :: string
  sd_basewhitelist :: "string list"
  sd_taskwhitelist :: "string option"
  sd_taskdeps :: "string list"
  sd_basehash :: string
  sd_gendeps :: "(string, string list) dict"
  sd_varvals :: "(string, string option) dict"
  sd_run :: "sigrun option"
  sd_taint :: "string option"

definition calc_basehash :: "(string \<Rightarrow> string) \<Rightarrow> sigdata \<Rightarrow> string result" where
  "calc_basehash sha sd =
     rbind (dict_lookup (sd_varvals sd) (sd_task sd)) (\<lambda>basedata.
     rbind (rfold (add_var_data (sd_varvals sd)) (sd_taskdeps sd) (or_empty basedata)) (\<lambda>data. Inr (sha data)))"

definition calc_taint :: "string option \<Rightarrow> string" where
  "calc_taint taint = (case taint of None \<Rightarrow> [] | Some t \<Rightarrow> if sublist ''nostamp:'' t then drop 8 t else t)"

definition calc_taskhash :: "(string \<Rightarrow> string) \<Rightarrow> sigdata \<Rightarrow> string result" where
  "calc_taskhash sha sd =
     (case sd_run sd of
        None \<Rightarrow> Inl (KeyError ''runtaskdeps'')
      | Some sr \<Rightarrow>
          rbind (rfold (\<lambda>dep data. rbind (dict_lookup (sr_runtaskhashes sr) dep) (\<lambda>h. Inr (data @ h))) (sr_runtaskdeps sr) (sd_basehash sd)) (\<lambda>data.
          Inr (sha (data @ checksum_text (sr_file_checksum_values sr) @ calc_taint (sd_taint sd)))))"

section \<open>Writing a signature file\<close>

text \<open>The parameter \<^verbatim>\<open>runtime\<close>: a truth value, or a string that may begin with \<open>customfile\<close>.\<close>

datatype runtime_arg = RtBool bool | RtStr string

fun rt_true :: "runtime_arg \<Rightarrow> bool" where
  "rt_true (RtBool b) = b"
| "rt_true (RtStr s) = truthy s"

definition sig_file ::
    "get_unihash_method \<Rightarrow> string \<Rightarrow> string \<Rightarrow> string \<Rightarrow> runtime_arg \<Rightarrow> sigstate \<Rightarrow> (string \<times> string \<times> sigstate) result" where
  "sig_file get_unihash tid task stampbase runtime g =
     (if (case runtime of RtBool _ \<Rightarrow> False | RtStr s \<Rightarrow> startswith s ''customfile'')
      then Inr (stampbase, case runtime of RtBool _ \<Rightarrow> [] | RtStr s \<Rightarrow> drop 11 s, g)
      else if rt_true runtime \<and> has_key (ss_taskhash g) tid
      then rbind (get_unihash tid g) (\<lambda>(u, g1). Inr (stampbase @ ''.'' @ task @ ''.sigdata.'' @ u, stampbase, g1))
      else rbind (dict_lookup (ss_basehash g) tid) (\<lambda>h. Inr (stampbase @ ''.'' @ task @ ''.sigbasedata.'' @ h, stampbase, g)))"

definition collect_var ::
    "sigstate \<Rightarrow> string \<Rightarrow> string \<Rightarrow> (string, string list) dict \<times> (string, string option) dict \<Rightarrow>
     ((string, string list) dict \<times> (string, string option) dict) result" where
  "collect_var g fn dep p =
     (case p of (gendeps, varvals) \<Rightarrow>
        if dep \<in> set (ss_basewhitelist g) then Inr (gendeps, varvals)
        else rbind (rbind (dict_lookup (ss_gendeps g) fn) (\<lambda>gd. dict_lookup gd dep)) (\<lambda>ds.
             rbind (rbind (dict_lookup (ss_lookupcache g) fn) (\<lambda>lc. dict_lookup lc dep)) (\<lambda>v.
             Inr (dict_set dep ds gendeps, dict_set dep v varvals))))"

definition add_runtaskhash ::
    "get_unihash_method \<Rightarrow> string \<Rightarrow> (string, string) dict \<times> sigstate \<Rightarrow> ((string, string) dict \<times> sigstate) result" where
  "add_runtaskhash get_unihash dep p =
     (case p of (hashes, g) \<Rightarrow> rbind (get_unihash dep g) (\<lambda>(u, g1). Inr (dict_set dep u hashes, g1)))"

definition run_part ::
    "get_unihash_method \<Rightarrow> string \<Rightarrow> runtime_arg \<Rightarrow> sigstate \<Rightarrow> (sigrun option \<times> sigstate) result" where
  "run_part get_unihash tid runtime g =
     (if rt_true runtime \<and> has_key (ss_taskhash g) tid
      then rbind (dict_lookup (ss_runtaskdeps g) tid) (\<lambda>runtaskdeps.
           rbind (dict_lookup (ss_file_checksum_values g) tid) (\<lambda>css.
           rbind (rfold (add_runtaskhash get_unihash) runtaskdeps ([], g)) (\<lambda>(hashes, g1).
           rbind (dict_lookup (ss_taskhash g1) tid) (\<lambda>h.
           rbind (get_unihash tid g1) (\<lambda>(u, g2).
           Inr (Some \<lparr>sr_runtaskdeps = runtaskdeps, sr_file_checksum_values = map (\<lambda>(f, cs). (basename f, cs)) css,
                  sr_runtaskhashes = hashes, sr_taskhash = h, sr_unihash = u\<rparr>, g2))))))
      else Inr (None, g))"

definition dump_taint :: "string \<Rightarrow> string \<Rightarrow> string \<Rightarrow> runtime_arg \<Rightarrow> sigstate \<Rightarrow> string option" where
  "dump_taint tid task referencestamp runtime g =
     (let taint = read_taint g task referencestamp;
          filed = (if opt_truthy taint then taint else None)
      in if rt_true runtime
         then (case map_of (ss_taints g) tid of
                 None \<Rightarrow> filed
               | Some t \<Rightarrow> if sublist ''nostamp:'' t then Some t else filed)
         else filed)"

text \<open>The file name, its content and the two mismatches that are logged: of the base hash and of the task hash.\<close>

record sigdump =
  du_file :: string
  du_data :: sigdata
  du_basehash_mismatch :: bool
  du_taskhash_mismatch :: bool

definition dump_sigtask ::
    "get_unihash_method \<Rightarrow> sigenv \<Rightarrow> string \<Rightarrow> string \<Rightarrow> string \<Rightarrow> runtime_arg \<Rightarrow> sigstate \<Rightarrow> (sigdump \<times> sigstate) result" where
  "dump_sigtask get_unihash se fn task stampbase runtime g =
     (let tid = fn @ '':'' @ task
      in rbind (sig_file get_unihash tid task stampbase runtime g) (\<lambda>(sigfile, referencestamp, g1).
         rbind (rbind (dict_lookup (ss_taskdeps g1) fn) (\<lambda>tds. dict_lookup tds task)) (\<lambda>taskdeps.
         rbind (dict_lookup (ss_basehash g1) tid) (\<lambda>basehash.
         rbind (rbind (dict_lookup (ss_lookupcache g1) fn) (\<lambda>lc. dict_lookup lc task)) (\<lambda>v.
         rbind (rfold (collect_var g1 fn) taskdeps ([], [(task, v)])) (\<lambda>(gendeps, varvals).
         rbind (run_part get_unihash tid runtime g1) (\<lambda>(run, g2).
         let data = \<lparr>sd_task = task, sd_basewhitelist = ss_basewhitelist g2, sd_taskwhitelist = ss_taskwhitelist g2, sd_taskdeps = taskdeps,
                     sd_basehash = basehash, sd_gendeps = gendeps, sd_varvals = varvals, sd_run = run,
                     sd_taint = dump_taint tid task referencestamp runtime g2\<rparr>
         in rbind (calc_basehash (se_sha256 se) data) (\<lambda>computed_basehash.
            if rt_true runtime \<and> has_key (ss_taskhash g2) tid
            then rbind (calc_taskhash (se_sha256 se) data) (\<lambda>computed_taskhash.
                 rbind (dict_lookup (ss_taskhash g2) tid) (\<lambda>taskhash.
                 Inr (\<lparr>du_file = (if computed_taskhash \<noteq> taskhash then str_replace taskhash computed_taskhash sigfile else sigfile), du_data = data,
                       du_basehash_mismatch = (computed_basehash \<noteq> basehash), du_taskhash_mismatch = (computed_taskhash \<noteq> taskhash)\<rparr>, g2)))
            else Inr (\<lparr>du_file = sigfile, du_data = data, du_basehash_mismatch = (computed_basehash \<noteq> basehash),
                       du_taskhash_mismatch = False\<rparr>, g2)))))))))"

text \<open>\<^verbatim>\<open>dump_sigfn\<close>: the dumps, and the tasks whose cached base hash differs from the one of the generator.\<close>

definition dump_sigfn_task ::
    "get_unihash_method \<Rightarrow> sigenv \<Rightarrow> datacaches \<Rightarrow> string \<Rightarrow> string \<Rightarrow> (string list \<times> sigdump list) \<times> sigstate \<Rightarrow>
     ((string list \<times> sigdump list) \<times> sigstate) result" where
  "dump_sigfn_task get_unihash se dataCaches fn task p =
     (case p of ((errors, dumps), g) \<Rightarrow>
        let tid = fn @ '':'' @ task
        in if \<not> has_key (ss_taskhash g) tid then Inr p
           else rbind (dict_lookup dataCaches (mc_from_tid tid)) (\<lambda>dc.
                rbind (dict_lookup (dc_basetaskhash dc) tid) (\<lambda>cached.
                rbind (dict_lookup (ss_basehash g) tid) (\<lambda>h.
                rbind (dict_lookup (dc_stamp dc) fn) (\<lambda>stamp.
                rbind (dump_sigtask get_unihash se fn task stamp (RtBool True) g) (\<lambda>(dump, g1).
                Inr ((if cached \<noteq> h then errors @ [tid] else errors, dumps @ [dump]), g1)))))))"

definition dump_sigfn ::
    "get_unihash_method \<Rightarrow> sigenv \<Rightarrow> string \<Rightarrow> datacaches \<Rightarrow> sigstate \<Rightarrow> ((string list \<times> sigdump list) \<times> sigstate) result" where
  "dump_sigfn get_unihash se fn dataCaches g =
     (case map_of (ss_taskdeps g) fn of
        None \<Rightarrow> Inr (([], []), g)
      | Some tds \<Rightarrow> rfold (dump_sigfn_task get_unihash se dataCaches fn) (dict_keys tds) (([], []), g))"

section \<open>Comparing signature files\<close>

definition dict_diff :: "(string, 'v) dict \<Rightarrow> (string, 'v) dict \<Rightarrow> string list \<Rightarrow> string list \<times> string list \<times> string list" where
  "dict_diff a b whitelist =
     (let common = filter (has_key b) (dict_keys a);
          changed = filter (\<lambda>i. map_of a i \<noteq> map_of b i \<and> i \<notin> set whitelist) common;
          added = filter (\<lambda>i. \<not> has_key a i) (dict_keys b);
          removed = filter (\<lambda>i. \<not> has_key b i) (dict_keys a)
      in (changed, added, removed))"

type_synonym checksum = "string \<times> string option"

text \<open>\<^verbatim>\<open>Counter(a)\<close> after \<^verbatim>\<open>subtract(b)\<close>: the counts may be negative.\<close>

definition counter_diff :: "checksum list \<Rightarrow> checksum list \<Rightarrow> checksum \<Rightarrow> int" where
  "counter_diff a b x = int (count_list a x) - int (count_list b x)"

fun surplus :: "checksum list \<Rightarrow> (checksum \<Rightarrow> int) \<Rightarrow> checksum list" where
  "surplus [] c = []"
| "surplus (x # xs) c = (if c x > 0 then x # surplus xs (c(x := c x - 1)) else surplus xs c)"

fun removed_loop ::
    "checksum list \<Rightarrow> (checksum \<Rightarrow> int) \<Rightarrow> checksum list \<Rightarrow> (string \<times> string option \<times> string option) list \<Rightarrow> checksum list \<Rightarrow>
     (string \<times> string option \<times> string option) list \<times> checksum list \<times> checksum list" where
  "removed_loop [] c added changed removed = (changed, added, removed)"
| "removed_loop (x # xs) c added changed removed =
     (if c x > 0
      then (case find (\<lambda>y. fst y = fst x) added of
              Some y \<Rightarrow> removed_loop xs (c(x := c x - 1)) (remove1 y added) (changed @ [(fst x, snd x, snd y)]) removed
            | None \<Rightarrow> removed_loop xs (c(x := c x - 1)) added changed (removed @ [x]))
      else removed_loop xs c added changed removed)"

definition file_checksums_split ::
    "checksum list \<Rightarrow> checksum list \<Rightarrow> (string \<times> string option \<times> string option) list \<times> checksum list \<times> checksum list" where
  "file_checksums_split a b = removed_loop a (counter_diff a b) (surplus b (counter_diff b a)) [] []"

definition file_checksums_diff ::
    "checksum list \<Rightarrow> checksum list \<Rightarrow> (string \<times> string option \<times> string option) list \<times> string list \<times> string list" where
  "file_checksums_diff a b =
     (case file_checksums_split a b of (changed, added, removed) \<Rightarrow> (changed, map fst added, map fst removed))"

section \<open>Checksum differences\<close>

definition old_side :: "(string \<times> string option \<times> string option) list \<Rightarrow> checksum multiset" where
  "old_side changed = mset (map (\<lambda>(f, a, b). (f, a)) changed)"

definition new_side :: "(string \<times> string option \<times> string option) list \<Rightarrow> checksum multiset" where
  "new_side changed = mset (map (\<lambda>(f, a, b). (f, b)) changed)"

lemma count_surplus:
  "(\<And>x. c x \<le> int (count_list xs x)) \<Longrightarrow> count (mset (surplus xs c)) x = nat (c x)"
proof (induction xs arbitrary: c)
  case Nil
  from Nil [of x] show ?case by simp
next
  case (Cons y ys)
  show ?case
  proof (cases "c y > 0")
    case True
    have "(c(y := c y - 1)) z \<le> int (count_list ys z)" for z using Cons.prems [of z] by (auto split: if_splits)
    then have "count (mset (surplus ys (c(y := c y - 1)))) x = nat ((c(y := c y - 1)) x)" by (rule Cons.IH)
    with True show ?thesis by (cases "x = y") simp_all
  next
    case False
    have "c z \<le> int (count_list ys z)" for z using Cons.prems [of z] False by (auto split: if_splits)
    from Cons.IH [OF this] False show ?thesis by simp
  qed
qed

lemma mset_surplus: "mset (surplus b (counter_diff b a)) = mset b - mset a"
proof (rule multiset_eqI)
  fix x
  have "count (mset (surplus b (counter_diff b a))) x = nat (counter_diff b a x)" by (rule count_surplus) (simp add: counter_diff_def)
  then show "count (mset (surplus b (counter_diff b a))) x = count (mset b - mset a) x" by (simp add: counter_diff_def count_mset nat_minus_as_int)
qed

lemma mset_take_out: "y \<in> set ys \<Longrightarrow> fst y = f \<Longrightarrow> mset (remove1 y ys) + (M + {#(f, snd y)#}) = mset ys + M"
  by (cases y) (simp add: insert_DiffM2 multi_member_last union_assoc [symmetric] add_mset_commute)

lemma removed_loop_msets:
  "removed_loop xs c added changed removed = (changed', added', removed') \<Longrightarrow>
    mset removed' + old_side changed' = mset removed + old_side changed + mset (surplus xs c) \<and>
    mset added' + new_side changed' = mset added + new_side changed \<and>
    (fst ` set removed \<inter> fst ` set added = {} \<longrightarrow> fst ` set removed' \<inter> fst ` set added' = {})"
proof (induction xs arbitrary: c added changed removed)
  case (Cons x xs)
  consider "c x \<le> 0" | "c x > 0" "find (\<lambda>y. fst y = fst x) added = None" |
    y where "c x > 0" "find (\<lambda>y. fst y = fst x) added = Some y" by force
  then show ?case
  proof cases
    case 1
    with Cons show ?thesis by simp
  next
    case 2
    then have "fst x \<notin> fst ` set added" by (auto simp: find_None_iff)
    moreover from 2 Cons.prems have "removed_loop xs (c(x := c x - 1)) added changed (removed @ [x]) = (changed', added', removed')" by simp
    note IH = Cons.IH [OF this]
    ultimately show ?thesis using 2(1) by (auto simp: fun_upd_def)
  next
    case (3 y)
    then have y: "y \<in> set added" "fst y = fst x" by (auto simp: find_Some_iff)
    from 3 Cons.prems have "removed_loop xs (c(x := c x - 1)) (remove1 y added) (changed @ [(fst x, snd x, snd y)]) removed = (changed', added', removed')" by simp
    note IH = Cons.IH [OF this]
    have old: "old_side (changed @ [(fst x, snd x, snd y)]) = old_side changed + {#x#}" by (simp add: old_side_def)
    have new: "new_side (changed @ [(fst x, snd x, snd y)]) = new_side changed + {#(fst x, snd y)#}" by (simp add: new_side_def)
    have "mset removed' + old_side changed' = mset removed + old_side changed + mset (surplus (x # xs) c)" using IH 3(1) unfolding old by (simp add: fun_upd_def)
    moreover have "mset added' + new_side changed' = mset added + new_side changed" using IH unfolding new mset_take_out [OF y] by blast
    moreover have "set (remove1 y added) \<subseteq> set added" by (rule set_remove1_subset)
    ultimately show ?thesis using IH by blast
  qed
qed simp

text \<open>\<^verbatim>\<open>file_checksums_diff\<close> explains the difference of two lists of checksums exactly, also when file names occur more than once: the old list is what both have in
  common, the removed entries and the old sides of the changed ones, the new list is the common part, the added entries and the new sides of the changed ones, and no
  file name is reported both as added and as removed.\<close>

theorem file_checksums_diff_exact:
  "\<exists>changed added removed. file_checksums_diff a b = (changed, map fst added, map fst removed) \<and>
     mset a = mset a \<inter># mset b + mset removed + old_side changed \<and> mset b = mset a \<inter># mset b + mset added + new_side changed \<and>
     set (map fst added) \<inter> set (map fst removed) = {}"
proof -
  obtain changed added removed where s: "file_checksums_split a b = (changed, added, removed)" by (metis prod_cases3)
  have m: "mset removed + old_side changed = mset a - mset b" "mset added + new_side changed = mset b - mset a" "fst ` set removed \<inter> fst ` set added = {}"
    using removed_loop_msets [OF s [unfolded file_checksums_split_def]] by (simp_all add: mset_surplus old_side_def new_side_def)
  have "mset a = mset a \<inter># mset b + (mset a - mset b)" "mset b = mset a \<inter># mset b + (mset b - mset a)" by (auto simp: multiset_eq_iff min_def)
  with m s show ?thesis
    unfolding file_checksums_diff_def by (intro exI [of _ changed] exI [of _ added] exI [of _ removed]) (auto simp: add.assoc)
qed

section \<open>Dumps reproduce the hashes\<close>

lemma set_basehash_ok:
  assumes "\<forall>t \<in> set ts. has_key (bh_basehash bh) (fn @ '':'' @ t)"
  shows "\<exists>errors' B. rfold (set_basehash ign fn bh) ts (errors, g) = Inr (errors', g\<lparr>ss_basehash := B\<rparr>) \<and>
    (\<forall>t \<in> set ts. map_of B (fn @ '':'' @ t) = map_of (bh_basehash bh) (fn @ '':'' @ t))"
  using assms
proof (induction ts arbitrary: errors g)
  case (Cons t ts)
  then obtain h where h: "map_of (bh_basehash bh) (fn @ '':'' @ t) = Some h" by (auto simp: has_key_def)
  let ?g = "g\<lparr>ss_basehash := dict_set (fn @ '':'' @ t) h (ss_basehash g)\<rparr>"
  from h obtain e where e: "set_basehash ign fn bh t (errors, g) = Inr (e, ?g)"
    by (auto simp: set_basehash_def dict_lookup_Some Let_def)
  from Cons.IH [of e ?g] Cons.prems obtain e' B where B: "rfold (set_basehash ign fn bh) ts (e, ?g) = Inr (e', ?g\<lparr>ss_basehash := B\<rparr>)"
    "\<forall>t \<in> set ts. map_of B (fn @ '':'' @ t) = map_of (bh_basehash bh) (fn @ '':'' @ t)" by auto
  have "map_of B (fn @ '':'' @ t) = Some h" if "t \<notin> set ts"
  proof -
    have "map_of (ss_basehash (snd (e', ?g\<lparr>ss_basehash := B\<rparr>))) (fn @ '':'' @ t) = Some h"
      by (rule rfold_invariant [OF B(1), where I = "\<lambda>p. map_of (ss_basehash (snd p)) (fn @ '':'' @ t) = Some h"])
        (use that in \<open>auto simp: set_basehash_def Let_def split: if_splits\<close>)
    then show ?thesis by simp
  qed
  with B h e show ?case by (cases "t \<in> set ts") auto
next
  case Nil
  show ?case by (rule exI [of _ errors], rule exI [of _ "ss_basehash g"]) simp
qed

text \<open>What a generator holds for the tasks of a file after parsing it.\<close>

definition parsed_task :: "sigenv \<Rightarrow> string \<Rightarrow> string \<Rightarrow> sigstate \<Rightarrow> bool" where
  "parsed_task se fn task g \<longleftrightarrow>
     (\<exists>tds vars gd lc v. map_of (ss_taskdeps g) fn = Some tds \<and> map_of tds task = Some vars \<and> map_of (ss_gendeps g) fn = Some gd \<and>
        map_of (ss_lookupcache g) fn = Some lc \<and> map_of lc task = Some v \<and> set vars \<inter> set (ss_basewhitelist g) = {} \<and>
        (\<forall>x \<in> set vars. has_key gd x \<and> has_key lc x) \<and>
        map_of (ss_basehash g) (fn @ '':'' @ task) = Some (se_sha256 se (or_empty v @ concat (map (\<lambda>x. x @ or_empty (the (map_of lc x))) vars))))"

lemma parsed_taskI:
  assumes "map_of (ss_taskdeps g) fn = Some tds" "map_of tds task = Some vars" "map_of (ss_gendeps g) fn = Some gd"
    "map_of (ss_lookupcache g) fn = Some lc" "map_of lc task = Some v" "set vars \<inter> set (ss_basewhitelist g) = {}"
    "\<forall>x \<in> set vars. has_key gd x \<and> has_key lc x"
    "map_of (ss_basehash g) (fn @ '':'' @ task) = Some (se_sha256 se (or_empty v @ concat (map (\<lambda>x. x @ or_empty (the (map_of lc x))) vars)))"
  shows "parsed_task se fn task g"
  unfolding parsed_task_def using assms by blast

lemma build_data_parsed:
  assumes "analysable bd (ss_basewhitelist g) U" "md_bbtasks d = Some tasks" "set tasks \<subseteq> U" "card U < n"
  shows "\<exists>tds errors g'. build_data n se bd fn d g = Some (Inr (tds, errors, g')) \<and> (\<forall>t \<in> set tasks. parsed_task se fn t g') \<and>
    ss_taints g' = ss_taints g \<and> ss_unihash g' = ss_unihash g"
proof -
  let ?wl = "ss_basewhitelist g" and ?sha = "se_sha256 se"
  from vardeps_exact [OF assms(1,3,4), of ?sha fn] obtain ds bh where r: "generate_dependencies n bd tasks ?wl = Some (Inr ds)" "depstate_ok bd ds"
    "generate_dependency_hash n ?sha tasks (vd_deps ds) (vd_values ds) ?wl fn = Some (Inr bh)" "hashes_ok ?sha bd ?wl fn (set tasks) bh"
    "dom (map_of (bh_gendeps bh)) = dom (map_of (vd_deps ds))"
    "\<forall>t \<in> set tasks. insert t ((var_edges bd ?wl)\<^sup>+ `` {t}) \<subseteq> dom (map_of (vd_deps ds))" by blast
  have "\<forall>t \<in> set tasks. has_key (bh_basehash bh) (fn @ '':'' @ t)" using r(4) by (auto simp: hashes_ok_def has_key_def)
  from set_basehash_ok [OF this, of "getvar ''BB_HASH_IGNORE_MISMATCH'' d = ''1''" "[]" g] obtain errors B where
    B: "rfold (set_basehash (getvar ''BB_HASH_IGNORE_MISMATCH'' d = ''1'') fn bh) tasks ([], g) = Inr (errors, g\<lparr>ss_basehash := B\<rparr>)"
      "\<forall>t \<in> set tasks. map_of B (fn @ '':'' @ t) = map_of (bh_basehash bh) (fn @ '':'' @ t)" by blast
  let ?g' = "g\<lparr>ss_basehash := B, ss_taskdeps := dict_set fn (bh_taskdeps bh) (ss_taskdeps g),
    ss_gendeps := dict_set fn (bh_gendeps bh) (ss_gendeps g), ss_lookupcache := dict_set fn (vd_values ds) (ss_lookupcache g)\<rparr>"
  have "build_data n se bd fn d g = Some (Inr (bh_taskdeps bh, errors, ?g'))"
    unfolding build_data_def using r(1,3) B(1) assms(2) by (simp add: Let_def)
  moreover have "parsed_task se fn t ?g'" if t: "t \<in> set tasks" for t
  proof -
    have val: "map_of (vd_values ds) x = Some (snd (projr (bd x)))" "has_key (bh_gendeps bh) x" if "x \<in> dom (map_of (vd_deps ds))" for x
      using r(2,5) that unfolding depstate_ok_def has_key_def by fastforce+
    have "finite ((var_edges bd ?wl)\<^sup>+ `` {t})"
      using var_reach_subset [OF assms(1), of t] assms(1,3) t unfolding analysable_def by (meson finite_subset subsetD)
    then have vars: "set (task_vars bd ?wl t) = (var_edges bd ?wl)\<^sup>+ `` {t}" by (simp add: task_vars_def)
    then have dom: "insert t (set (task_vars bd ?wl t)) \<subseteq> dom (map_of (vd_deps ds))" using r(6) t by auto
    have "b \<notin> set ?wl" if "(a, b) \<in> (var_edges bd ?wl)\<^sup>+" for a b using that by (induction rule: trancl_induct) (auto simp: var_edges_def)
    then have wl: "set (task_vars bd ?wl t) \<inter> set ?wl = {}" using vars by auto
    have "basehash_text bd t (task_vars bd ?wl t) = or_empty (snd (projr (bd t))) @
        concat (map (\<lambda>x. x @ or_empty (the (map_of (vd_values ds) x))) (task_vars bd ?wl t))"
      unfolding basehash_text_def using val(1) dom by (intro arg_cong2 [where f = append] refl arg_cong [where f = concat] map_cong) (auto simp: subset_iff)
    with t r(4) B(2) have hash: "map_of B (fn @ '':'' @ t) = Some (?sha (or_empty (snd (projr (bd t))) @
        concat (map (\<lambda>x. x @ or_empty (the (map_of (vd_values ds) x))) (task_vars bd ?wl t))))" by (simp add: hashes_ok_def)
    show ?thesis
    proof (rule parsed_taskI [of _ fn "bh_taskdeps bh" t "task_vars bd ?wl t" "bh_gendeps bh" "vd_values ds" "snd (projr (bd t))"])
      show "\<forall>x \<in> set (task_vars bd ?wl t). has_key (bh_gendeps bh) x \<and> has_key (vd_values ds) x"
        using dom val by (auto simp: has_key_def subset_iff)
    qed (use t r(4) hash wl dom val(1) in \<open>simp_all add: hashes_ok_def\<close>)
  qed
  ultimately show ?thesis by fastforce
qed

lemma collect_vars_ok:
  assumes "map_of (ss_gendeps g) fn = Some gd" "map_of (ss_lookupcache g) fn = Some lc"
  shows "\<forall>x \<in> set vars. has_key gd x \<and> has_key lc x \<and> x \<notin> set (ss_basewhitelist g) \<Longrightarrow>
    \<exists>gd' vv'. rfold (collect_var g fn) vars (gd0, vv) = Inr (gd', vv') \<and> (\<forall>x. map_of vv' x = (if x \<in> set vars then map_of lc x else map_of vv x))"
proof (induction vars arbitrary: gd0 vv)
  case (Cons x xs)
  then obtain ds v where "map_of gd x = Some ds" "map_of lc x = Some v" by (auto simp: has_key_def)
  then have "collect_var g fn x (gd0, vv) = Inr (dict_set x ds gd0, dict_set x v vv)"
    using assms Cons.prems by (simp add: collect_var_def dict_lookup_Some)
  moreover from Cons.IH [of "dict_set x ds gd0" "dict_set x v vv"] Cons.prems obtain gd' vv' where
    "rfold (collect_var g fn) xs (dict_set x ds gd0, dict_set x v vv) = Inr (gd', vv')"
    "\<forall>y. map_of vv' y = (if y \<in> set xs then map_of lc y else map_of (dict_set x v vv) y)" by auto
  ultimately show ?case using \<open>map_of lc x = Some v\<close> by auto
qed simp

lemma add_vars_lookup:
  "\<forall>x \<in> set xs. has_key vals x \<Longrightarrow> rfold (add_var_data vals) xs data = Inr (data @ concat (map (\<lambda>x. x @ or_empty (the (map_of vals x))) xs))"
  by (induction xs arbitrary: data) (auto simp: add_var_data_def has_key_def dict_lookup_Some)

lemma run_hashes_ok:
  "\<forall>d \<in> set ds. has_key (ss_taskhash g) d \<Longrightarrow> \<exists>hs. rfold (add_runtaskhash noop_get_unihash) ds (hs0, g) = Inr (hs, g) \<and>
     (\<forall>d. map_of hs d = (if d \<in> set ds then map_of (ss_taskhash g) d else map_of hs0 d))"
proof (induction ds arbitrary: hs0)
  case (Cons d ds)
  then obtain h where h: "map_of (ss_taskhash g) d = Some h" by (auto simp: has_key_def)
  then have "add_runtaskhash noop_get_unihash d (hs0, g) = Inr (dict_set d h hs0, g)"
    by (simp add: add_runtaskhash_def noop_get_unihash_def dict_lookup_Some)
  with Cons.IH [of "dict_set d h hs0"] Cons.prems h show ?case by auto
qed simp

lemma calc_deps_ok:
  "\<forall>d \<in> set ds. map_of hs d = map_of (ss_taskhash g) d \<and> has_key (ss_taskhash g) d \<Longrightarrow>
   rfold (\<lambda>dep data. rbind (dict_lookup hs dep) (\<lambda>h. Inr (data @ h))) ds data = Inr (data @ dep_hashes g ds)"
proof (induction ds arbitrary: data)
  case (Cons d ds)
  then obtain h where "map_of (ss_taskhash g) d = Some h" "map_of hs d = Some h" by (auto simp: has_key_def)
  with Cons show ?case by (simp add: dict_lookup_Some dep_hashes_def or_empty_def)
qed (simp add: dep_hashes_def)

lemma checksum_text_basename: "checksum_text (map (\<lambda>(f, cs). (basename f, cs)) css) = checksum_text css"
  unfolding checksum_text_def by (simp add: comp_def case_prod_unfold)

text \<open>A dump of a task that was parsed and hashed reports no mismatch, if the taint it reads is the one that went into the hash.\<close>

lemma dump_no_mismatch:
  assumes "parsed_task se fn task g" "tid = fn @ '':'' @ task" "map_of (ss_basehash g) tid = Some base" "map_of (ss_runtaskdeps g) tid = Some rd"
    "map_of (ss_file_checksum_values g) tid = Some css" "\<forall>d \<in> set rd. has_key (ss_taskhash g) d"
    "map_of (ss_taskhash g) tid = Some (se_sha256 se (base @ dep_hashes g rd @ checksum_text css @ taint_text (map_of (ss_taints g) tid)))"
    "calc_taint (dump_taint tid task st (RtBool True) g) = taint_text (map_of (ss_taints g) tid)"
  shows "\<exists>du. dump_sigtask noop_get_unihash se fn task st (RtBool True) g = Inr (du, g) \<and> \<not> du_basehash_mismatch du \<and> \<not> du_taskhash_mismatch du \<and>
    calc_taskhash (se_sha256 se) (du_data du) = Inr (the (map_of (ss_taskhash g) tid))"
proof -
  from assms(1) obtain tds vars gd lc v where pt: "map_of (ss_taskdeps g) fn = Some tds" "map_of tds task = Some vars" "map_of (ss_gendeps g) fn = Some gd"
    "map_of (ss_lookupcache g) fn = Some lc" "map_of lc task = Some v" "set vars \<inter> set (ss_basewhitelist g) = {}"
    "\<forall>x \<in> set vars. has_key gd x \<and> has_key lc x"
    "map_of (ss_basehash g) tid = Some (se_sha256 se (or_empty v @ concat (map (\<lambda>x. x @ or_empty (the (map_of lc x))) vars)))"
    unfolding parsed_task_def assms(2) by blast
  from collect_vars_ok [OF pt(3,4), of vars "[]" "[(task, v)]"] pt(6,7) obtain gd' vv where
    vv: "rfold (collect_var g fn) vars ([], [(task, v)]) = Inr (gd', vv)" "\<forall>x. map_of vv x = (if x \<in> set vars then map_of lc x else map_of [(task, v)] x)" by blast
  from run_hashes_ok [OF assms(6), of "[]"] obtain hs where
    hs: "rfold (add_runtaskhash noop_get_unihash) rd ([], g) = Inr (hs, g)" "\<forall>d \<in> set rd. map_of hs d = map_of (ss_taskhash g) d" by auto
  obtain h where h: "map_of (ss_taskhash g) tid = Some h" using assms(7) by blast
  let ?run = "\<lparr>sr_runtaskdeps = rd, sr_file_checksum_values = map (\<lambda>(f, cs). (basename f, cs)) css, sr_runtaskhashes = hs, sr_taskhash = h, sr_unihash = h\<rparr>"
  let ?data = "\<lparr>sd_task = task, sd_basewhitelist = ss_basewhitelist g, sd_taskwhitelist = ss_taskwhitelist g, sd_taskdeps = vars,
    sd_basehash = base, sd_gendeps = gd', sd_varvals = vv, sd_run = Some ?run, sd_taint = dump_taint tid task st (RtBool True) g\<rparr>"
  have uni: "noop_get_unihash tid g = Inr (h, g)" using h by (simp add: noop_get_unihash_def dict_lookup_Some)
  have run: "run_part noop_get_unihash tid (RtBool True) g = Inr (Some ?run, g)"
    unfolding run_part_def using h assms(4,5) hs(1) uni by (simp add: has_key_def dict_lookup_Some)
  have "map_of vv task = Some v" using vv(2) pt(5) by simp
  moreover have "\<forall>x \<in> set vars. has_key vv x" using vv(2) pt(7) by (simp add: has_key_def)
  moreover have "concat (map (\<lambda>x. x @ or_empty (the (map_of vv x))) vars) = concat (map (\<lambda>x. x @ or_empty (the (map_of lc x))) vars)"
    using vv(2) by (intro arg_cong [where f = concat] map_cong) simp_all
  ultimately have base: "calc_basehash (se_sha256 se) ?data = Inr base"
    using pt(8) assms(3) by (simp add: calc_basehash_def dict_lookup_Some add_vars_lookup)
  have calc: "calc_taskhash (se_sha256 se) ?data = Inr h"
    unfolding calc_taskhash_def using calc_deps_ok [of rd hs g base] hs(2) assms(6-8) h by (simp add: checksum_text_basename)
  have "dump_sigtask noop_get_unihash se fn task st (RtBool True) g =
      Inr (\<lparr>du_file = st @ ''.'' @ task @ ''.sigdata.'' @ h, du_data = ?data, du_basehash_mismatch = False, du_taskhash_mismatch = False\<rparr>, g)"
    unfolding dump_sigtask_def sig_file_def Let_def assms(2) [symmetric]
    using uni h pt(1,2,4,5) assms(3) vv(1) run base calc by (simp add: has_key_def dict_lookup_Some)
  with calc h show ?thesis by simp
qed

text \<open>What \<^verbatim>\<open>prep_taskhash\<close> leaves in the state when it returns.\<close>

definition prepped :: "sigstate \<Rightarrow> string \<Rightarrow> string \<Rightarrow> string \<Rightarrow> string list \<Rightarrow> checksum list \<Rightarrow> sigstate" where
  "prepped g tid base pn rd css = g\<lparr>ss_basehash := dict_set tid base (ss_basehash g), ss_tidtopn := dict_set tid pn (ss_tidtopn g),
     ss_runtaskdeps := dict_set tid rd (ss_runtaskdeps g), ss_file_checksum_values := dict_set tid css (ss_file_checksum_values g)\<rparr>"

lemma add_rundeps_hashed:
  "rfold (add_rundep se g dcs mc pn) ds acc = Inr rd \<Longrightarrow> set rd \<subseteq> set acc \<union> {d \<in> set ds. has_key (ss_taskhash g) d}"
proof (induction ds arbitrary: acc)
  case (Cons d ds)
  then obtain acc1 where a: "add_rundep se g dcs mc pn d acc = Inr acc1" "rfold (add_rundep se g dcs mc pn) ds acc1 = Inr rd" by auto
  then have "set acc1 \<subseteq> set acc \<union> {x \<in> {d}. has_key (ss_taskhash g) x}" by (auto simp: add_rundep_def split: if_splits)
  with Cons.IH [OF a(2)] show ?case by auto
qed simp

lemma prep_taskhashE:
  assumes "prep_taskhash se tid deps dcs g = Inr g'" "split_tid_mcfn tid = Inr (mc, f, task, fn)" "map_of dcs mc = Some dc"
  obtains base pn rd css st ns where "map_of (dc_basetaskhash dc) tid = Some base" "map_of (dc_stamp dc) fn = Some st"
    "set rd \<subseteq> {d \<in> set deps. has_key (ss_taskhash g) d}"
    "g' = file_taint tid (read_taint g task st) (if ns then nostamp_taint se tid (prepped g tid base pn rd css) else prepped g tid base pn rd css)"
proof -
  from assms obtain base pn ds rd css taskdep st where
    r: "map_of (dc_basetaskhash dc) tid = Some base" "map_of (dc_pkg_fn dc) fn = Some pn" "sorted_deps deps = Inr ds"
      "rfold (add_rundep se g dcs mc pn) ds [] = Inr rd" "task_checksums se g dc fn task pn = Inr css" "map_of (dc_task_deps dc) fn = Some taskdep"
      "map_of (dc_stamp dc) fn = Some st"
    and g': "g' = file_taint tid (read_taint (if task_flag taskdep ''nostamp'' task \<noteq> None then nostamp_taint se tid (prepped g tid base pn rd css)
        else prepped g tid base pn rd css) task st) (if task_flag taskdep ''nostamp'' task \<noteq> None
        then nostamp_taint se tid (prepped g tid base pn rd css) else prepped g tid base pn rd css)"
    unfolding prep_taskhash_def prepped_def Let_def by (auto simp: dict_lookup_Some)
  have "read_taint (nostamp_taint se tid (prepped g tid base pn rd css)) task st = read_taint g task st"
    "read_taint (prepped g tid base pn rd css) task st = read_taint g task st"
    by (simp_all add: read_taint_def nostamp_taint_def prepped_def)
  with g' have "g' = file_taint tid (read_taint g task st) (if task_flag taskdep ''nostamp'' task \<noteq> None
      then nostamp_taint se tid (prepped g tid base pn rd css) else prepped g tid base pn rd css)" by simp
  moreover have "set rd \<subseteq> {d \<in> set deps. has_key (ss_taskhash g) d}" using add_rundeps_hashed [OF r(4)] sorted_deps_set [OF r(3)] by auto
  ultimately show thesis using that r(1,7) by blast
qed

lemma taint_files [simp]: "ss_files (nostamp_taint se tid g) = ss_files g" "ss_files (file_taint tid t g) = ss_files g"
  "ss_taskdeps (nostamp_taint se tid g) = ss_taskdeps g" "ss_taskdeps (file_taint tid t g) = ss_taskdeps g"
  "ss_gendeps (nostamp_taint se tid g) = ss_gendeps g" "ss_gendeps (file_taint tid t g) = ss_gendeps g"
  "ss_lookupcache (nostamp_taint se tid g) = ss_lookupcache g" "ss_lookupcache (file_taint tid t g) = ss_lookupcache g"
  "ss_basewhitelist (nostamp_taint se tid g) = ss_basewhitelist g" "ss_basewhitelist (file_taint tid t g) = ss_basewhitelist g"
  by (simp_all add: nostamp_taint_def file_taint_def)

lemma prepped_simps [simp]: "ss_basehash (prepped g tid base pn rd css) = dict_set tid base (ss_basehash g)"
  "ss_runtaskdeps (prepped g tid base pn rd css) = dict_set tid rd (ss_runtaskdeps g)"
  "ss_file_checksum_values (prepped g tid base pn rd css) = dict_set tid css (ss_file_checksum_values g)"
  "ss_taskhash (prepped g tid base pn rd css) = ss_taskhash g" "ss_unihash (prepped g tid base pn rd css) = ss_unihash g"
  "ss_taints (prepped g tid base pn rd css) = ss_taints g" "ss_files (prepped g tid base pn rd css) = ss_files g"
  "ss_taskdeps (prepped g tid base pn rd css) = ss_taskdeps g" "ss_gendeps (prepped g tid base pn rd css) = ss_gendeps g"
  "ss_lookupcache (prepped g tid base pn rd css) = ss_lookupcache g" "ss_basewhitelist (prepped g tid base pn rd css) = ss_basewhitelist g"
  by (simp_all add: prepped_def)

text \<open>The taint of a task that was not tainted before: the one a dump finds again.\<close>

lemma dump_taint_agrees:
  assumes "map_of (ss_taints g) tid = None" "\<forall>t. read_taint g task st = Some t \<longrightarrow> \<not> sublist ''nostamp:'' t" "ss_files g' = ss_files g"
    "ss_taints g' = ss_taints (file_taint tid (read_taint g task st) (if ns then nostamp_taint se tid (prepped g tid base pn rd css) else prepped g tid base pn rd css))"
  shows "calc_taint (dump_taint tid task st (RtBool True) g') = taint_text (map_of (ss_taints g') tid)"
proof -
  have rt: "read_taint g' task st = read_taint g task st" using assms(3) by (simp add: read_taint_def)
  have ns: "sublist ''nostamp:'' (''nostamp:'' @ u)" for u by simp
  show ?thesis
  proof (cases "opt_truthy (read_taint g task st)")
    case True
    then obtain t where t: "read_taint g task st = Some t" "t \<noteq> []" by (auto simp: opt_truthy_iff)
    have no: "\<not> sublist ''nostamp:'' t" "\<not> startswith t ''nostamp:''" using assms(2) t(1) prefix_imp_sublist by blast+
    have m: "map_of (ss_taints g') tid = Some t" unfolding assms(4) using t by (simp add: file_taint_def or_empty_def)
    then have "dump_taint tid task st (RtBool True) g' = Some t" unfolding dump_taint_def Let_def rt using t no(1) by simp
    then show ?thesis using m no by (simp add: calc_taint_def taint_text_def)
  next
    case False
    then have d: "dump_taint tid task st (RtBool True) g' =
        (case map_of (ss_taints g') tid of None \<Rightarrow> None | Some t \<Rightarrow> if sublist ''nostamp:'' t then Some t else None)"
      unfolding dump_taint_def Let_def rt by simp
    have m: "map_of (ss_taints g') tid = (if ns then Some (''nostamp:'' @ se_uuid4 se (ss_uuids (prepped g tid base pn rd css))) else None)"
      unfolding assms(4) using False assms(1) by (simp add: file_taint_def nostamp_taint_def)
    show ?thesis unfolding d m using ns by (cases ns) (simp_all add: calc_taint_def taint_text_def)
  qed
qed

lemma parsed_task_cong:
  assumes "parsed_task se fn task g" "ss_taskdeps g' = ss_taskdeps g" "ss_gendeps g' = ss_gendeps g" "ss_lookupcache g' = ss_lookupcache g"
    "ss_basewhitelist g' = ss_basewhitelist g" "map_of (ss_basehash g') (fn @ '':'' @ task) = map_of (ss_basehash g) (fn @ '':'' @ task)"
  shows "parsed_task se fn task g'"
  using assms unfolding parsed_task_def by (simp only:)

text \<open>C17. A signature file reproduces the hashes it was written for. When a recipe was parsed (\<^verbatim>\<open>_build_data\<close>), its base hashes are the cached ones and a task that had no taint
  so far was hashed (\<^verbatim>\<open>prep_taskhash\<close>, \<^verbatim>\<open>get_taskhash\<close>), then \<^verbatim>\<open>dump_sigtask\<close> finds every item it needs and reports neither a mismatch of the base hash nor one of
  the task hash, and \<^verbatim>\<open>calc_taskhash\<close> of the written data is the hash of the task. The taint file must not contain the marker \<open>nostamp:\<close>, which \<^verbatim>\<open>get_taskhash\<close>
  looks for at the beginning and \<^verbatim>\<open>calc_taskhash\<close> anywhere.\<close>

theorem dump_reproduces_hashes:
  assumes "analysable bd (ss_basewhitelist g) U" and "md_bbtasks d = Some tasks" and "set tasks \<subseteq> U" and "card U < n" and "task \<in> set tasks"
    and "build_data n se bd fn d g = Some (Inr (tds, errors, g1))"
    and "tid = fn @ '':'' @ task" and "split_tid_mcfn tid = Inr (mc, f, task, fn)" and "map_of dcs mc = Some dc" and "map_of (dc_stamp dc) fn = Some st"
    and "map_of (dc_basetaskhash dc) tid = map_of (ss_basehash g1) tid" and "ss_unihash g = []" and "map_of (ss_taints g) tid = None"
    and "\<forall>t. read_taint g1 task st = Some t \<longrightarrow> \<not> sublist ''nostamp:'' t" and "tid \<notin> set deps"
    and "prep_taskhash se tid deps dcs g1 = Inr g2" and "get_taskhash noop_get_unihash se tid deps dcs g2 = Inr (h, g3)"
  shows "\<exists>du. dump_sigtask noop_get_unihash se fn task st (RtBool True) g3 = Inr (du, g3) \<and>
    \<not> du_basehash_mismatch du \<and> \<not> du_taskhash_mismatch du \<and> calc_taskhash (se_sha256 se) (du_data du) = Inr h"
proof -
  from build_data_parsed [OF assms(1-4), of se fn] assms(5,6) have parsed: "parsed_task se fn task g1" "ss_taints g1 = ss_taints g" "ss_unihash g1 = ss_unihash g" by auto
  from prep_taskhashE [OF assms(16,8,9)] obtain base pn rd css st' ns where p: "map_of (dc_basetaskhash dc) tid = Some base" "map_of (dc_stamp dc) fn = Some st'"
    "set rd \<subseteq> {d \<in> set deps. has_key (ss_taskhash g1) d}"
    "g2 = file_taint tid (read_taint g1 task st') (if ns then nostamp_taint se tid (prepped g1 tid base pn rd css) else prepped g1 tid base pn rd css)" .
  have st: "st' = st" using p(2) assms(10) by simp
  have f: "ss_taskhash g2 = ss_taskhash g1" "ss_unihash g2 = []" "map_of (ss_basehash g2) tid = Some base" "map_of (ss_runtaskdeps g2) tid = Some rd"
    "map_of (ss_file_checksum_values g2) tid = Some css" "ss_files g2 = ss_files g1"
    using parsed(3) assms(12) unfolding p(4) by (simp_all split: if_splits)
  have deps: "\<forall>d \<in> set rd. has_key (ss_taskhash g2) d" "tid \<notin> set rd" using p(3) f(1) assms(15) by auto
  from add_dephashes_plain [OF f(2) deps(1), of base] assms(17) f(3-5) have
    g3: "h = se_sha256 se (base @ dep_hashes g2 rd @ checksum_text css @ taint_text (map_of (ss_taints g2) tid))" "g3 = g2\<lparr>ss_taskhash := dict_set tid h (ss_taskhash g2)\<rparr>"
    by (auto simp: get_taskhash_def Let_def dict_lookup_Some)
  have "dep_hashes g3 rd = dep_hashes g2 rd" unfolding dep_hashes_def g3(2) using deps(2) by (intro arg_cong [where f = concat] map_cong) auto
  moreover have "parsed_task se fn task g3"
    by (rule parsed_task_cong [OF parsed(1)]) (use assms(11) p(1) assms(7) in \<open>simp_all add: g3(2) p(4)\<close>)
  moreover have "calc_taint (dump_taint tid task st (RtBool True) g3) = taint_text (map_of (ss_taints g3) tid)"
    by (rule dump_taint_agrees [of g1 tid task st g3 ns se base pn rd css]) (use assms(13,14) parsed(2) f(6) st in \<open>simp_all add: g3(2) p(4)\<close>)
  ultimately have "\<exists>du. dump_sigtask noop_get_unihash se fn task st (RtBool True) g3 = Inr (du, g3) \<and> \<not> du_basehash_mismatch du \<and>
      \<not> du_taskhash_mismatch du \<and> calc_taskhash (se_sha256 se) (du_data du) = Inr (the (map_of (ss_taskhash g3) tid))"
    using f(3-5) deps(1) g3(1) by (intro dump_no_mismatch [where base = base and rd = rd and css = css]) (simp_all add: g3(2) assms(7))
  then show ?thesis by (simp add: g3(2))
qed

text \<open>The sample task of the variable analysis, dumped after hashing.\<close>

definition dump_md :: metadata where
  "dump_md = \<lparr>md_var = (\<lambda>v. None), md_raw = (\<lambda>v. None), md_flag = (\<lambda>v f. None), md_bbtasks = Some [''do_x''], md_task_deps = None, md_depends = None\<rparr>"

definition dump_dcs :: datacaches where
  "dump_dcs = [([], CacheData\<lparr>dc_task_deps := [(''/l/r/a.bb'', \<lparr>tk_tasks = [], tk_parents = [], tk_flags = [(''nostamp'', [(''do_x'', ''1'')])]\<rparr>)],
     dc_pkg_fn := [(''/l/r/a.bb'', ''a'')], dc_basetaskhash := [(''/l/r/a.bb:do_x'', ''makeFfG'')],
     dc_file_checksums := [(''/l/r/a.bb'', [])], dc_stamp := [(''/l/r/a.bb'', ''sa'')]\<rparr>)]"

definition dump_g1 :: sigstate where
  "dump_g1 = (case build_data 4 sign_se sample_bd ''/l/r/a.bb'' dump_md (SignatureGenerator\<lparr>ss_basewhitelist := [''DATE'']\<rparr>) of
     Some (Inr (tds, errors, g1)) \<Rightarrow> g1 | _ \<Rightarrow> SignatureGenerator)"

theorem dump_reproduces_hashes_witness:
  "\<exists>g1 g2 g3 du. build_data 4 sign_se sample_bd ''/l/r/a.bb'' dump_md (SignatureGenerator\<lparr>ss_basewhitelist := [''DATE'']\<rparr>) = Some (Inr ([(''do_x'', [''F'', ''G''])], [], g1)) \<and>
     prep_taskhash sign_se ''/l/r/a.bb:do_x'' [] dump_dcs g1 = Inr g2 \<and>
     get_taskhash noop_get_unihash sign_se ''/l/r/a.bb:do_x'' [] dump_dcs g2 = Inr (''makeFfGu'', g3) \<and>
     dump_sigtask noop_get_unihash sign_se ''/l/r/a.bb'' ''do_x'' ''sa'' (RtBool True) g3 = Inr (du, g3) \<and> calc_taskhash (\<lambda>s. s) (du_data du) = Inr ''makeFfGu''"
proof -
  let ?g = "SignatureGenerator\<lparr>ss_basewhitelist := [''DATE'']\<rparr>" and ?tid = "''/l/r/a.bb:do_x''"
  have "case build_data 4 sign_se sample_bd ''/l/r/a.bb'' dump_md ?g of Some (Inr (tds, errors, g1)) \<Rightarrow> tds = [(''do_x'', [''F'', ''G''])] \<and> errors = [] | _ \<Rightarrow> False"
    by code_simp
  then have r1: "build_data 4 sign_se sample_bd ''/l/r/a.bb'' dump_md ?g = Some (Inr ([(''do_x'', [''F'', ''G''])], [], dump_g1))"
    unfolding dump_g1_def by (auto split: option.splits sum.splits)
  have r2: "map_of (ss_basehash dump_g1) ?tid = Some ''makeFfG'' \<and> ss_files dump_g1 = []" by code_simp
  have "case rbind (prep_taskhash sign_se ?tid [] dump_dcs dump_g1) (get_taskhash noop_get_unihash sign_se ?tid [] dump_dcs) of Inl _ \<Rightarrow> False
      | Inr (h, g3) \<Rightarrow> h = ''makeFfGu''" by code_simp
  then obtain g2 g3 where r: "prep_taskhash sign_se ?tid [] dump_dcs dump_g1 = Inr g2"
      "get_taskhash noop_get_unihash sign_se ?tid [] dump_dcs g2 = Inr (''makeFfGu'', g3)" by (auto split: sum.splits)
  have s: "split_tid_mcfn ?tid = Inr ([], ''/l/r/a.bb'', ''do_x'', ''/l/r/a.bb'')" by code_simp
  have a: "analysable sample_bd (ss_basewhitelist ?g) {''do_x'', ''F'', ''G''}" by (auto simp: analysable_def sample_bd_def)
  have "\<exists>du. dump_sigtask noop_get_unihash sign_se ''/l/r/a.bb'' ''do_x'' ''sa'' (RtBool True) g3 = Inr (du, g3) \<and> \<not> du_basehash_mismatch du \<and>
      \<not> du_taskhash_mismatch du \<and> calc_taskhash (se_sha256 sign_se) (du_data du) = Inr ''makeFfGu''"
    by (rule dump_reproduces_hashes [OF a, where d = dump_md and tasks = "[''do_x'']" and n = 4 and dc = "snd (hd dump_dcs)", OF _ _ _ _ r1 _ s _ _ _ _ _ _ _ r])
      (use r2 in \<open>simp_all add: dump_md_def dump_dcs_def SignatureGenerator_def read_taint_def\<close>)
  then show ?thesis using r1 r by (auto simp: sign_se_def)
qed

end
