(* ===== verification/BB_Cow.thy ===== *)
theory BB_Cow
  imports BB_Prelude
begin

text \<open>
  The copy-on-write dictionaries of \<^verbatim>\<open>lib/bb/COW.py\<close>, which \<^verbatim>\<open>data_smart.py\<close> uses for the history of the variables. A dictionary is a Python class; its items are class
  attributes, and a copy is a subclass, which inherits the items until it sets its own. An item with a mutable value is stored under the name
  of the key followed by \<^verbatim>\<open>__mutable__\<close>, and is copied into the class when it is read for writing.

  The store holds the classes, each with its method resolution order and its own attributes, and the mutable objects. The attribute names that every class finds
  in its metaclass are the parameter \<open>meta\<close>. The warnings about slow operations are left out.
\<close>

section \<open>The store\<close>

text \<open>
  A value is immutable, the empty tuple (one single object, the marker of a deleted item), a mutable object with an address, a copy-on-write class, or what the metaclass has
  under the name. The content of the mutable objects has the type \<open>'o\<close>.
\<close>

datatype cowval = Imm string | EmptyTuple | Obj nat | Cls nat | MetaAttr string

record cowclass =
  cc_mro :: "nat list"
  cc_attrs :: "(string, cowval) dict"
  cc_count :: nat

record 'o cowstate =
  cs_classes :: "(nat, cowclass) dict"
  cs_objs :: "(nat, 'o) dict"
  cs_next :: nat

definition MUTABLE :: string where
  "MUTABLE = ''__mutable__''"

definition is_mutable :: "cowval \<Rightarrow> bool" where
  "is_mutable v = (case v of Obj _ \<Rightarrow> True | Cls _ \<Rightarrow> True | _ \<Rightarrow> False)"

definition own_attrs :: "'o cowstate \<Rightarrow> nat \<Rightarrow> (string, cowval) dict" where
  "own_attrs st c = (case map_of (cs_classes st) c of None \<Rightarrow> [] | Some cc \<Rightarrow> cc_attrs cc)"

definition mro_of :: "'o cowstate \<Rightarrow> nat \<Rightarrow> nat list" where
  "mro_of st c = (case map_of (cs_classes st) c of None \<Rightarrow> [] | Some cc \<Rightarrow> cc_mro cc)"

text \<open>\<^verbatim>\<open>getattr(cls, key)\<close>: the first class of the resolution order that has the attribute, then the metaclass.\<close>

definition getattr_cls :: "(string \<Rightarrow> bool) \<Rightarrow> 'o cowstate \<Rightarrow> nat \<Rightarrow> string \<Rightarrow> cowval option" where
  "getattr_cls meta st c key =
     (case List.map_filter (\<lambda>i. map_of (own_attrs st i) key) (mro_of st c) of
        v # _ \<Rightarrow> Some v
      | [] \<Rightarrow> if meta key then Some (MetaAttr key) else None)"

definition setattr_cls :: "nat \<Rightarrow> string \<Rightarrow> cowval \<Rightarrow> 'o cowstate \<Rightarrow> 'o cowstate" where
  "setattr_cls c key v st =
     (case map_of (cs_classes st) c of
        None \<Rightarrow> st
      | Some cc \<Rightarrow> st\<lparr>cs_classes := dict_set c (cc\<lparr>cc_attrs := dict_set key v (cc_attrs cc)\<rparr>) (cs_classes st)\<rparr>)"

definition COWDictBase :: "'o cowstate" where
  "COWDictBase = \<lparr>cs_classes = [(0, \<lparr>cc_mro = [0], cc_attrs = [], cc_count = 0\<rparr>)], cs_objs = [], cs_next = 1\<rparr>"

section \<open>Operations of COWDictMeta\<close>

definition cow :: "nat \<Rightarrow> 'o cowstate \<Rightarrow> nat \<times> 'o cowstate" where
  "cow c st =
     (let n = cs_next st;
          count = (case map_of (cs_classes st) c of None \<Rightarrow> 0 | Some cc \<Rightarrow> cc_count cc)
      in (n, st\<lparr>cs_classes := dict_set n \<lparr>cc_mro = n # mro_of st c, cc_attrs = [], cc_count = count + 1\<rparr> (cs_classes st), cs_next := n + 1\<rparr>))"

definition setitem :: "nat \<Rightarrow> string \<Rightarrow> cowval \<Rightarrow> 'o cowstate \<Rightarrow> 'o cowstate" where
  "setitem c key v st = setattr_cls c (if is_mutable v then key @ MUTABLE else key) v st"

text \<open>\<^verbatim>\<open>value.copy()\<close>: a new object with the same content, or a new subclass.\<close>

definition copy_value :: "cowval \<Rightarrow> 'o cowstate \<Rightarrow> cowval \<times> 'o cowstate" where
  "copy_value v st =
     (case v of
        Obj a \<Rightarrow> (case map_of (cs_objs st) a of
                     None \<Rightarrow> (v, st)
                   | Some content \<Rightarrow> (Obj (cs_next st), st\<lparr>cs_objs := dict_set (cs_next st) content (cs_objs st), cs_next := cs_next st + 1\<rparr>))
      | Cls c \<Rightarrow> let (n, st') = cow c st in (Cls n, st')
      | _ \<Rightarrow> (v, st))"

text \<open>\<open>None\<close>: \<^verbatim>\<open>AttributeError\<close>.\<close>

definition getmutable :: "(string \<Rightarrow> bool) \<Rightarrow> nat \<Rightarrow> string \<Rightarrow> bool \<Rightarrow> 'o cowstate \<Rightarrow> (cowval \<times> 'o cowstate) option" where
  "getmutable meta c key readonly st =
     (let nkey = key @ MUTABLE
      in case map_of (own_attrs st c) nkey of
           Some v \<Rightarrow> Some (v, st)
         | None \<Rightarrow>
             (case getattr_cls meta st c nkey of
                None \<Rightarrow> None
              | Some value \<Rightarrow>
                  (if readonly then Some (value, st)
                   else let (v, st1) = copy_value value st in Some (v, setattr_cls c nkey v st1))))"

definition getitem_opt :: "(string \<Rightarrow> bool) \<Rightarrow> nat \<Rightarrow> string \<Rightarrow> bool \<Rightarrow> 'o cowstate \<Rightarrow> (cowval \<times> 'o cowstate) option" where
  "getitem_opt meta c key readonly st =
     (case (case getattr_cls meta st c key of Some v \<Rightarrow> Some (v, st) | None \<Rightarrow> getmutable meta c key readonly st) of
        None \<Rightarrow> None
      | Some (v, st') \<Rightarrow> if v = EmptyTuple then None else Some (v, st'))"

definition getitem ::
    "(string \<Rightarrow> bool) \<Rightarrow> nat \<Rightarrow> string \<Rightarrow> cowval option \<Rightarrow> bool \<Rightarrow> 'o cowstate \<Rightarrow> (cowval \<times> 'o cowstate) result" where
  "getitem meta c key dflt readonly st =
     (case getitem_opt meta c key readonly st of
        Some p \<Rightarrow> Inr p
      | None \<Rightarrow> (case dflt of Some d \<Rightarrow> Inr (d, st) | None \<Rightarrow> Inl (KeyError key)))"

definition getreadonly :: "(string \<Rightarrow> bool) \<Rightarrow> nat \<Rightarrow> string \<Rightarrow> cowval option \<Rightarrow> 'o cowstate \<Rightarrow> (cowval \<times> 'o cowstate) result" where
  "getreadonly meta c key dflt st = getitem meta c key dflt True st"

definition delitem :: "nat \<Rightarrow> string \<Rightarrow> 'o cowstate \<Rightarrow> 'o cowstate" where
  "delitem c key st = setitem c key EmptyTuple st"

definition revertitem :: "nat \<Rightarrow> string \<Rightarrow> 'o cowstate \<Rightarrow> 'o cowstate result" where
  "revertitem c key st =
     (let k = (if has_key (own_attrs st c) key then key else key @ MUTABLE)
      in case map_of (cs_classes st) c of
           None \<Rightarrow> Inl AttributeError
         | Some cc \<Rightarrow>
             (if has_key (cc_attrs cc) k
              then Inr (st\<lparr>cs_classes := dict_set c (cc\<lparr>cc_attrs := AList.delete k (cc_attrs cc)\<rparr>) (cs_classes st)\<rparr>)
              else Inl AttributeError))"

definition cow_has_key :: "(string \<Rightarrow> bool) \<Rightarrow> nat \<Rightarrow> string \<Rightarrow> 'o cowstate \<Rightarrow> bool" where
  "cow_has_key meta c key st =
     (case getreadonly meta c key (Some EmptyTuple) st of Inl _ \<Rightarrow> False | Inr (v, _) \<Rightarrow> v \<noteq> EmptyTuple)"

text \<open>\<^verbatim>\<open>iter\<close>: the names \<^verbatim>\<open>dir(cls)\<close> lists, in order, without those that begin with two underscores (all names of \<^verbatim>\<open>object\<close> do).\<close>

definition dir_cls :: "'o cowstate \<Rightarrow> nat \<Rightarrow> string list" where
  "dir_cls st c = sorted_list_of_set (\<Union>i \<in> set (mro_of st c). set (dict_keys (own_attrs st i)))"

definition iter_keys :: "'o cowstate \<Rightarrow> nat \<Rightarrow> string list" where
  "iter_keys st c =
     map (\<lambda>k. if endswith k MUTABLE then take (length k - length MUTABLE) k else k) (filter (\<lambda>k. \<not> startswith k ''__'') (dir_cls st c))"

fun iter_items :: "(string \<Rightarrow> bool) \<Rightarrow> nat \<Rightarrow> bool \<Rightarrow> string list \<Rightarrow> 'o cowstate \<Rightarrow> (string \<times> cowval) list \<times> 'o cowstate" where
  "iter_items meta c readonly [] st = ([], st)"
| "iter_items meta c readonly (key # ks) st =
     (case getitem meta c key None readonly st of
        Inl _ \<Rightarrow> iter_items meta c readonly ks st
      | Inr (v, st1) \<Rightarrow> (case iter_items meta c readonly ks st1 of (items, st2) \<Rightarrow> ((key, v) # items, st2)))"

definition cow_iteritems :: "(string \<Rightarrow> bool) \<Rightarrow> nat \<Rightarrow> bool \<Rightarrow> 'o cowstate \<Rightarrow> (string \<times> cowval) list \<times> 'o cowstate" where
  "cow_iteritems meta c readonly st = iter_items meta c readonly (iter_keys st c) st"

definition cow_itervalues :: "(string \<Rightarrow> bool) \<Rightarrow> nat \<Rightarrow> bool \<Rightarrow> 'o cowstate \<Rightarrow> cowval list \<times> 'o cowstate" where
  "cow_itervalues meta c readonly st = (case cow_iteritems meta c readonly st of (items, st') \<Rightarrow> (map snd items, st'))"

text \<open>The sets store a value under the text of its hash.\<close>

definition cow_set_add :: "(string \<Rightarrow> string) \<Rightarrow> nat \<Rightarrow> string \<Rightarrow> 'o cowstate \<Rightarrow> 'o cowstate" where
  "cow_set_add hash c value st = setitem c (hash value) (Imm value) st"

definition cow_set_remove :: "(string \<Rightarrow> string) \<Rightarrow> nat \<Rightarrow> string \<Rightarrow> 'o cowstate \<Rightarrow> 'o cowstate" where
  "cow_set_remove hash c value st = delitem c (hash value) st"

section \<open>Frame rules of the store\<close>

abbreviation attr :: "'o cowstate \<Rightarrow> nat \<Rightarrow> string \<Rightarrow> cowval option" where
  "attr st c k \<equiv> map_of (own_attrs st c) k"

abbreviation classes :: "'o cowstate \<Rightarrow> nat set" where
  "classes st \<equiv> dom (map_of (cs_classes st))"

lemma map_filter_cong: "(\<And>x. x \<in> set xs \<Longrightarrow> f x = g x) \<Longrightarrow> List.map_filter f xs = List.map_filter g xs"
  by (induction xs) (simp_all add: List.map_filter_simps split: option.splits)

lemma getattr_cong:
  "mro_of st' c = mro_of st c \<Longrightarrow> (\<And>i. i \<in> set (mro_of st c) \<Longrightarrow> attr st' i k = attr st i k) \<Longrightarrow> getattr_cls meta st' c k = getattr_cls meta st c k"
  unfolding getattr_cls_def using map_filter_cong [of "mro_of st c" "\<lambda>i. attr st' i k" "\<lambda>i. attr st i k"] by simp

lemma getattr_Some:
  assumes "getattr_cls meta st c k = Some v"
  shows "(\<exists>i \<in> set (mro_of st c). attr st i k = Some v) \<or> v = MetaAttr k"
proof (cases "List.map_filter (\<lambda>i. attr st i k) (mro_of st c)")
  case (Cons w ws)
  then have "w \<in> set (List.map_filter (\<lambda>i. attr st i k) (mro_of st c))" by simp
  then show ?thesis using assms Cons by (auto simp: getattr_cls_def List.map_filter_def)
qed (use assms in \<open>auto simp: getattr_cls_def split: if_splits\<close>)

lemma own_attr_class: "attr st c k = Some v \<Longrightarrow> c \<in> classes st"
  by (auto simp: own_attrs_def split: option.splits)

lemma setattr_simps [simp]:
  "mro_of (setattr_cls c k v st) i = mro_of st i" "cs_objs (setattr_cls c k v st) = cs_objs st" "cs_next (setattr_cls c k v st) = cs_next st"
  "attr (setattr_cls c k v st) i j = (if i = c \<and> j = k \<and> c \<in> classes st then Some v else attr st i j)"
  "classes (setattr_cls c k v st) = classes st"
  by (auto simp: setattr_cls_def mro_of_def own_attrs_def split: option.splits)

text \<open>What a reader of class \<open>p\<close> sees under a key: the value, with mutable objects replaced by their contents.\<close>

definition view :: "(string \<Rightarrow> bool) \<Rightarrow> 'o cowstate \<Rightarrow> nat \<Rightarrow> string \<Rightarrow> ('o + cowval) option" where
  "view meta st p key =
     (case getitem_opt meta p key True st of
        None \<Rightarrow> None
      | Some (Obj a, _) \<Rightarrow> map_option Inl (map_of (cs_objs st) a)
      | Some (v, _) \<Rightarrow> Some (Inr v))"

text \<open>
  Well-formed stores: addresses and classes are below the next free one, a class comes first in its resolution order, mutable objects are stored under mutable
  names only, and no two attributes share an object.
\<close>

definition cow_wf :: "'o cowstate \<Rightarrow> bool" where
  "cow_wf st \<longleftrightarrow> (\<forall>c \<in> classes st. c < cs_next st \<and> (\<exists>cs. mro_of st c = c # cs) \<and> set (mro_of st c) \<subseteq> classes st) \<and>
     (\<forall>a \<in> dom (map_of (cs_objs st)). a < cs_next st) \<and>
     (\<forall>c k a. attr st c k = Some (Obj a) \<longrightarrow> endswith k MUTABLE \<and> a \<in> dom (map_of (cs_objs st))) \<and>
     (\<forall>c k c' k' a. attr st c k = Some (Obj a) \<longrightarrow> attr st c' k' = Some (Obj a) \<longrightarrow> c' = c \<and> k' = k)"

lemma cow_wfD:
  assumes "cow_wf st"
  shows "c \<in> classes st \<Longrightarrow> c < cs_next st" "c \<in> classes st \<Longrightarrow> \<exists>cs. mro_of st c = c # cs" "c \<in> classes st \<Longrightarrow> set (mro_of st c) \<subseteq> classes st"
    "map_of (cs_objs st) a = Some x \<Longrightarrow> a < cs_next st" "attr st c k = Some (Obj a) \<Longrightarrow> endswith k MUTABLE"
    "attr st c k = Some (Obj a) \<Longrightarrow> a \<in> dom (map_of (cs_objs st))"
    "attr st c k = Some (Obj a) \<Longrightarrow> attr st c' k' = Some (Obj a) \<Longrightarrow> c' = c \<and> k' = k"
  using assms unfolding cow_wf_def by blast+

lemma cow_wfI:
  assumes "\<And>c. c \<in> classes st \<Longrightarrow> c < cs_next st" "\<And>c. c \<in> classes st \<Longrightarrow> \<exists>cs. mro_of st c = c # cs"
    "\<And>c. c \<in> classes st \<Longrightarrow> set (mro_of st c) \<subseteq> classes st" "\<And>a x. map_of (cs_objs st) a = Some x \<Longrightarrow> a < cs_next st"
    "\<And>c k a. attr st c k = Some (Obj a) \<Longrightarrow> endswith k MUTABLE" "\<And>c k a. attr st c k = Some (Obj a) \<Longrightarrow> a \<in> dom (map_of (cs_objs st))"
    "\<And>c k c' k' a. attr st c k = Some (Obj a) \<Longrightarrow> attr st c' k' = Some (Obj a) \<Longrightarrow> c' = c \<and> k' = k"
  shows "cow_wf st"
  using assms unfolding cow_wf_def by blast

text \<open>A reader depends on the attributes of its classes and on the objects these hold.\<close>

lemma view_cong:
  assumes "mro_of st' p = mro_of st p" "\<And>i k. i \<in> insert p (set (mro_of st p)) \<Longrightarrow> attr st' i k = attr st i k"
    and "\<And>i k a. i \<in> insert p (set (mro_of st p)) \<Longrightarrow> attr st i k = Some (Obj a) \<Longrightarrow> map_of (cs_objs st') a = map_of (cs_objs st) a"
  shows "view meta st' p key = view meta st p key"
proof -
  have g: "getattr_cls meta st' p k = getattr_cls meta st p k" for k by (rule getattr_cong) (use assms(1,2) in auto)
  have m: "map_option fst (getmutable meta p key True st') = map_option fst (getmutable meta p key True st)"
    unfolding getmutable_def Let_def using assms(2) [of p] g by (auto split: option.splits)
  have f: "map_option fst (getitem_opt meta p key True st') = map_option fst (getitem_opt meta p key True st)"
    unfolding getitem_opt_def g using m
    by (cases "getmutable meta p key True st"; cases "getmutable meta p key True st'") (auto split: option.splits)
  have o: "map_of (cs_objs st') a = map_of (cs_objs st) a" if "getitem_opt meta p key True st = Some (Obj a, s)" for a s
  proof -
    from that have "getattr_cls meta st p key = Some (Obj a) \<or> getmutable meta p key True st = Some (Obj a, s)"
      by (auto simp: getitem_opt_def split: option.splits if_splits)
    then have "\<exists>i \<in> insert p (set (mro_of st p)). \<exists>k. attr st i k = Some (Obj a)"
      by (auto simp: getmutable_def Let_def dest: getattr_Some split: option.splits)
    with assms(3) show ?thesis by blast
  qed
  show ?thesis
  proof (cases "getitem_opt meta p key True st")
    case None
    with f show ?thesis by (simp add: view_def)
  next
    case (Some q)
    obtain v s where q: "q = (v, s)" by (cases q)
    from f Some q obtain s' where "getitem_opt meta p key True st' = Some (v, s')" by auto
    with Some q o show ?thesis by (cases v) (simp_all add: view_def)
  qed
qed

section \<open>Operations as steps\<close>

text \<open>
  What a client can do with the class \<open>c\<close>: set an immutable value or delete a key, store a new mutable object, fetch a value for writing, change the mutable
  object it has fetched, revert a key, or copy the class. Keys do not end in the suffix of mutable names.
\<close>

definition alloc :: "'o \<Rightarrow> 'o cowstate \<Rightarrow> nat \<times> 'o cowstate" where
  "alloc x st = (cs_next st, st\<lparr>cs_objs := dict_set (cs_next st) x (cs_objs st), cs_next := cs_next st + 1\<rparr>)"

definition put_obj :: "nat \<Rightarrow> 'o \<Rightarrow> 'o cowstate \<Rightarrow> 'o cowstate" where
  "put_obj a x st = st\<lparr>cs_objs := dict_set a x (cs_objs st)\<rparr>"

inductive cow_step :: "(string \<Rightarrow> bool) \<Rightarrow> nat \<Rightarrow> 'o cowstate \<Rightarrow> 'o cowstate \<Rightarrow> bool" for meta :: "string \<Rightarrow> bool" and c :: nat where
  set_imm: "c \<in> classes st \<Longrightarrow> \<not> endswith key MUTABLE \<Longrightarrow> \<not> is_mutable v \<Longrightarrow> cow_step meta c st (setitem c key v st)"
| delete: "c \<in> classes st \<Longrightarrow> \<not> endswith key MUTABLE \<Longrightarrow> cow_step meta c st (delitem c key st)"
| store: "c \<in> classes st \<Longrightarrow> \<not> endswith key MUTABLE \<Longrightarrow> alloc x st = (a, st1) \<Longrightarrow> cow_step meta c st (setitem c key (Obj a) st1)"
| fetch: "c \<in> classes st \<Longrightarrow> \<not> endswith key MUTABLE \<Longrightarrow> getitem meta c key None False st = Inr (v, st') \<Longrightarrow> cow_step meta c st st'"
| change: "c \<in> classes st \<Longrightarrow> \<not> endswith key MUTABLE \<Longrightarrow> getitem meta c key None False st = Inr (Obj a, st1) \<Longrightarrow>
    cow_step meta c st (put_obj a x st1)"
| revert: "c \<in> classes st \<Longrightarrow> \<not> endswith key MUTABLE \<Longrightarrow> revertitem c key st = Inr st' \<Longrightarrow> cow_step meta c st st'"
| copy: "c \<in> classes st \<Longrightarrow> cow c st = (n, st') \<Longrightarrow> cow_step meta c st st'"

text \<open>What a step may change: attributes of \<open>c\<close> itself, objects only \<open>c\<close> holds, and new classes and objects.\<close>

definition step_frame :: "nat \<Rightarrow> 'o cowstate \<Rightarrow> 'o cowstate \<Rightarrow> bool" where
  "step_frame c st st' \<longleftrightarrow> classes st \<subseteq> classes st' \<and> (\<forall>i \<in> classes st. mro_of st' i = mro_of st i) \<and>
     (\<forall>i \<in> classes st - {c}. \<forall>k. attr st' i k = attr st i k) \<and>
     (\<forall>i \<in> classes st - {c}. \<forall>k a. attr st i k = Some (Obj a) \<longrightarrow> map_of (cs_objs st') a = map_of (cs_objs st) a)"

lemma step_frameD:
  assumes "step_frame c st st'"
  shows "classes st \<subseteq> classes st'" "i \<in> classes st \<Longrightarrow> mro_of st' i = mro_of st i" "i \<in> classes st \<Longrightarrow> i \<noteq> c \<Longrightarrow> attr st' i k = attr st i k"
    "i \<in> classes st \<Longrightarrow> i \<noteq> c \<Longrightarrow> attr st i k = Some (Obj a) \<Longrightarrow> map_of (cs_objs st') a = map_of (cs_objs st) a"
  using assms unfolding step_frame_def by blast+

lemma setattr_ok:
  assumes "cow_wf st" "\<And>a. v = Obj a \<Longrightarrow> endswith k MUTABLE \<and> a \<in> dom (map_of (cs_objs st)) \<and> (\<forall>i j. attr st i j \<noteq> Some (Obj a))"
  shows "cow_wf (setattr_cls c k v st)" "step_frame c st (setattr_cls c k v st)"
proof -
  note wf = cow_wfD [OF assms(1)]
  show "cow_wf (setattr_cls c k v st)"
  proof (rule cow_wfI)
    fix i j a
    assume "attr (setattr_cls c k v st) i j = Some (Obj a)"
    then show "endswith j MUTABLE" "a \<in> dom (map_of (cs_objs (setattr_cls c k v st)))"
      using wf(5,6) assms(2) by (auto split: if_splits)
    fix i' j'
    assume "attr (setattr_cls c k v st) i j = Some (Obj a)" "attr (setattr_cls c k v st) i' j' = Some (Obj a)"
    then show "i' = i \<and> j' = j" using wf(7) [of i j a i' j'] assms(2) [of a] by (auto split: if_splits)
  qed (use wf(1-4) in simp_all)
  show "step_frame c st (setattr_cls c k v st)" by (simp add: step_frame_def)
qed

lemma alloc_ok:
  assumes "cow_wf st" "alloc x st = (a, st')"
  shows "cow_wf st'" "step_frame c st st'" "map_of (cs_objs st') a = Some x" "attr st' i k \<noteq> Some (Obj a)" "classes st' = classes st"
    "getattr_cls meta st' i k = getattr_cls meta st i k"
proof -
  note wf = cow_wfD [OF assms(1)]
  have s: "a = cs_next st" "cs_classes st' = cs_classes st" "cs_objs st' = dict_set a x (cs_objs st)" "cs_next st' = cs_next st + 1"
    using assms(2) by (auto simp: alloc_def)
  have same: "own_attrs st' i = own_attrs st i" "mro_of st' i = mro_of st i" for i by (simp_all add: s(2) own_attrs_def mro_of_def)
  have fresh: "attr st i k \<noteq> Some (Obj a)" for i k using wf(6) [of i k a] wf(4) [of a] s(1) by fastforce
  show "cow_wf st'"
  proof (rule cow_wfI)
    show "attr st' c k = Some (Obj b) \<Longrightarrow> b \<in> dom (map_of (cs_objs st'))" for c k b using wf(6) [of c k b] by (simp add: same s)
    show "map_of (cs_objs st') b = Some y \<Longrightarrow> b < cs_next st'" for b y using wf(4) [of b y] s(1) by (auto simp: s(3,4) split: if_splits)
  qed (use wf(1,2,3,5,7) in \<open>auto simp: same s(2,4) less_Suc_eq\<close>)
  show "step_frame c st st'" using fresh by (auto simp: step_frame_def same s)
  show "map_of (cs_objs st') a = Some x" "classes st' = classes st" by (simp_all add: s)
  show "attr st' i k \<noteq> Some (Obj a)" using fresh by (simp add: same)
  show "getattr_cls meta st' i k = getattr_cls meta st i k" by (rule getattr_cong) (simp_all add: same)
qed

lemma cow_ok:
  assumes "cow_wf st" "cow c st = (n, st')"
  shows "cow_wf st'" "step_frame e st st'" "n \<notin> classes st" "n \<in> classes st'" "mro_of st' n = n # mro_of st c" "own_attrs st' n = []"
proof -
  note wf = cow_wfD [OF assms(1)]
  have n: "n = cs_next st" "n \<notin> classes st" using assms(2) wf(1) by (auto simp: cow_def Let_def)
  have s: "own_attrs st' i = (if i = n then [] else own_attrs st i)" "mro_of st' i = (if i = n then n # mro_of st c else mro_of st i)"
    "classes st' = insert n (classes st)" "cs_objs st' = cs_objs st" "cs_next st' = n + 1" for i
    using assms(2) by (auto simp: cow_def Let_def own_attrs_def mro_of_def)
  have none: "own_attrs st n = []" using n(2) by (auto simp: own_attrs_def split: option.splits)
  show "cow_wf st'"
  proof (rule cow_wfI)
    fix i
    assume "i \<in> classes st'"
    then consider "i = n" | "i \<in> classes st" "i \<noteq> n" using s(3) n(2) by auto
    moreover have "set (mro_of st c) \<subseteq> classes st" using wf(3) by (cases "c \<in> classes st") (auto simp: mro_of_def split: option.splits)
    ultimately show "set (mro_of st' i) \<subseteq> classes st'" using wf(3) s(2,3) by cases auto
  qed (use wf(1,2,4-7) n in \<open>auto simp: s none less_Suc_eq split: if_splits\<close>)
  show "step_frame e st st'" using n(2) none by (auto simp: step_frame_def s)
  show "n \<notin> classes st" "n \<in> classes st'" "mro_of st' n = n # mro_of st c" "own_attrs st' n = []" using n(2) by (simp_all add: s)
qed

lemma step_frame_refl: "step_frame c st st"
  by (simp add: step_frame_def)

lemma step_frame_trans:
  assumes "step_frame c st st1" "step_frame c st1 st2"
  shows "step_frame c st st2"
proof -
  note 1 = step_frameD [OF assms(1)] and 2 = step_frameD [OF assms(2)]
  have sub: "i \<in> classes st1" if "i \<in> classes st" for i using 1(1) that by blast
  show ?thesis
    unfolding step_frame_def
  proof (intro conjI ballI allI impI)
    show "classes st \<subseteq> classes st2" using 1(1) 2(1) by blast
    show "mro_of st2 i = mro_of st i" if "i \<in> classes st" for i using 1(2) 2(2) sub that by simp
    fix i k
    assume i: "i \<in> classes st - {c}"
    then show "attr st2 i k = attr st i k" using 1(3) 2(3) sub by simp
    show "map_of (cs_objs st2) a = map_of (cs_objs st) a" if "attr st i k = Some (Obj a)" for a
      using that i 1(3,4) [of i k] 2(4) [of i k a] sub by simp
  qed
qed

text \<open>\<^verbatim>\<open>value.copy()\<close> gives a mutable value that no attribute holds yet.\<close>

lemma copy_value_ok:
  assumes "cow_wf st" "copy_value v st = (v', st')" "\<And>a. v = Obj a \<Longrightarrow> a \<in> dom (map_of (cs_objs st))"
  shows "cow_wf st' \<and> step_frame c st st' \<and> classes st \<subseteq> classes st' \<and>
    (\<forall>b. v' = Obj b \<longrightarrow> b \<in> dom (map_of (cs_objs st')) \<and> (\<forall>i j. attr st' i j \<noteq> Some (Obj b)) \<and>
       (\<exists>a. v = Obj a \<and> map_of (cs_objs st') b = map_of (cs_objs st) a))"
proof (cases v)
  case (Obj a)
  with assms(3) obtain x where x: "map_of (cs_objs st) a = Some x" by blast
  then have "alloc x st = (cs_next st, st')" "v' = Obj (cs_next st)" using assms(2) Obj by (auto simp: copy_value_def alloc_def)
  with alloc_ok [OF assms(1) this(1)] x Obj show ?thesis by auto
next
  case (Cls d)
  then obtain n where "cow d st = (n, st')" "v' = Cls n" using assms(2) by (auto simp: copy_value_def split: prod.splits)
  with cow_ok(1,2) [OF assms(1) this(1)] show ?thesis using step_frameD(1) by blast
qed (use assms in \<open>auto simp: copy_value_def step_frame_refl\<close>)

lemma fetch_ok:
  assumes "cow_wf st" "c \<in> classes st" "\<not> endswith key MUTABLE" "getitem meta c key None False st = Inr (v, st')"
  shows "cow_wf st' \<and> step_frame c st st' \<and> (\<forall>a. v = Obj a \<longrightarrow> attr st' c (key @ MUTABLE) = Some (Obj a))"
proof -
  note wf = cow_wfD [OF assms(1)]
  from assms(4) consider "getattr_cls meta st c key = Some v" "st' = st" | "getmutable meta c key False st = Some (v, st')"
    by (auto simp: getitem_def getitem_opt_def split: option.splits if_splits)
  then show ?thesis
  proof cases
    case 1
    then have "v \<noteq> Obj a" for a using getattr_Some [OF 1(1)] wf(5) assms(3) by blast
    with 1(2) assms(1) show ?thesis by (simp add: step_frame_refl)
  next
    case 2
    show ?thesis
    proof (cases "attr st c (key @ MUTABLE)")
      case (Some w)
      with 2 assms(1) show ?thesis by (auto simp: getmutable_def step_frame_refl)
    next
      case None
      with 2 obtain w st1 where g: "getattr_cls meta st c (key @ MUTABLE) = Some w" "copy_value w st = (v, st1)"
        "st' = setattr_cls c (key @ MUTABLE) v st1" by (auto simp: getmutable_def Let_def split: option.splits prod.splits)
      have obj: "a \<in> dom (map_of (cs_objs st))" if "w = Obj a" for a using getattr_Some [OF g(1)] wf(6) that by blast
      have cv: "cow_wf st1 \<and> step_frame c st st1 \<and> classes st \<subseteq> classes st1 \<and>
        (\<forall>b. v = Obj b \<longrightarrow> b \<in> dom (map_of (cs_objs st1)) \<and> (\<forall>i j. attr st1 i j \<noteq> Some (Obj b)) \<and>
           (\<exists>a. w = Obj a \<and> map_of (cs_objs st1) b = map_of (cs_objs st) a))"
        by (rule copy_value_ok [OF assms(1) g(2)]) (rule obj)
      have c: "cow_wf st1" "step_frame c st st1" "classes st \<subseteq> classes st1" using cv by simp_all
      have c4: "b \<in> dom (map_of (cs_objs st1)) \<and> (\<forall>i j. attr st1 i j \<noteq> Some (Obj b))" if "v = Obj b" for b using cv that by simp
      have "cow_wf st'" "step_frame c st1 st'" unfolding g(3)
        by (rule setattr_ok [OF c(1)], use c4 in \<open>simp add: suffix_def\<close>)+
      moreover have "attr st' c (key @ MUTABLE) = Some v" unfolding g(3) using c(3) assms(2) by auto
      ultimately show ?thesis using step_frame_trans [OF c(2)] by blast
    qed
  qed
qed

lemma put_obj_ok:
  assumes "cow_wf st" "attr st c k = Some (Obj a)"
  shows "cow_wf (put_obj a x st)" "step_frame c st (put_obj a x st)"
proof -
  note wf = cow_wfD [OF assms(1)]
  have s: "own_attrs (put_obj a x st) i = own_attrs st i" "mro_of (put_obj a x st) i = mro_of st i" "cs_classes (put_obj a x st) = cs_classes st"
    "cs_next (put_obj a x st) = cs_next st" "map_of (cs_objs (put_obj a x st)) = (map_of (cs_objs st))(a \<mapsto> x)" for i
    by (simp_all add: put_obj_def own_attrs_def mro_of_def)
  have a: "a \<in> dom (map_of (cs_objs st))" by (rule wf(6) [OF assms(2)])
  show "cow_wf (put_obj a x st)"
    by (rule cow_wfI, unfold s) (use wf(1-5,7) a in \<open>auto split: if_splits dest: wf(6)\<close>)
  show "step_frame c st (put_obj a x st)" unfolding step_frame_def s using wf(7) [OF assms(2)] by auto
qed

lemma revert_ok:
  assumes "cow_wf st" "revertitem c key st = Inr st'"
  shows "cow_wf st'" "step_frame c st st'"
proof -
  note wf = cow_wfD [OF assms(1)]
  from assms(2) obtain k cc where s: "map_of (cs_classes st) c = Some cc"
      "st' = st\<lparr>cs_classes := dict_set c (cc\<lparr>cc_attrs := AList.delete k (cc_attrs cc)\<rparr>) (cs_classes st)\<rparr>"
    by (auto simp: revertitem_def Let_def split: option.splits if_splits)
  have f: "mro_of st' i = mro_of st i" "cs_objs st' = cs_objs st" "cs_next st' = cs_next st" "classes st' = classes st"
    "i \<noteq> c \<Longrightarrow> own_attrs st' i = own_attrs st i" for i using s by (auto simp: mro_of_def own_attrs_def)
  have sub: "attr st i j = Some w" if "attr st' i j = Some w" for i j w
    using that s by (cases "i = c") (auto simp: own_attrs_def delete_conv' split: if_splits)
  show "cow_wf st'"
    by (rule cow_wfI, unfold f) (fact wf(1), fact wf(2), fact wf(3), fact wf(4), erule wf(5) [OF sub], erule wf(6) [OF sub], erule (1) wf(7) [OF sub sub])
  show "step_frame c st st'" by (auto simp: step_frame_def f)
qed

lemma setitem_imm_ok:
  "cow_wf st \<Longrightarrow> \<not> is_mutable v \<Longrightarrow> cow_wf (setitem c key v st) \<and> step_frame c st (setitem c key v st)"
  unfolding setitem_def by (intro conjI setattr_ok) (auto simp: is_mutable_def)

lemma setitem_obj_ok:
  assumes "cow_wf st" "alloc x st = (a, st1)"
  shows "cow_wf (setitem c key (Obj a) st1) \<and> step_frame c st (setitem c key (Obj a) st1)"
proof -
  note al = alloc_ok [OF assms]
  have "cow_wf (setattr_cls c (key @ MUTABLE) (Obj a) st1)" "step_frame c st1 (setattr_cls c (key @ MUTABLE) (Obj a) st1)"
    by (rule setattr_ok [OF al(1)], use al(3,4) in \<open>auto simp: suffix_def\<close>)+
  with step_frame_trans [OF al(2)] show ?thesis by (simp add: setitem_def is_mutable_def)
qed

lemma cow_step_ok: "cow_step meta c st st' \<Longrightarrow> cow_wf st \<Longrightarrow> cow_wf st' \<and> step_frame c st st'"
proof (induction rule: cow_step.induct)
  case (change st key a st1 x)
  from fetch_ok [OF change.prems change.hyps] have f: "cow_wf st1" "step_frame c st st1" "attr st1 c (key @ MUTABLE) = Some (Obj a)" by blast+
  from put_obj_ok [OF f(1,3), of x] step_frame_trans [OF f(2)] show ?case by blast
next
  case (delete st key)
  then show ?case unfolding delitem_def by (intro setitem_imm_ok) (simp_all add: is_mutable_def)
next
  case (set_imm st key v)
  from setitem_imm_ok [OF set_imm.prems set_imm.hyps(3)] show ?case .
next
  case (store st key x a st1)
  from setitem_obj_ok [OF store.prems store.hyps(3)] show ?case .
next
  case (fetch st key v st')
  from fetch_ok [OF fetch.prems fetch.hyps] show ?case by blast
next
  case (revert st key st')
  from revert_ok [OF revert.prems revert.hyps(3)] show ?case by blast
next
  case (copy st n st')
  from cow_ok(1,2) [OF copy.prems copy.hyps(2)] show ?case by blast
qed

section \<open>Isolation\<close>

definition cow_run :: "(string \<Rightarrow> bool) \<Rightarrow> nat set \<Rightarrow> 'o cowstate \<Rightarrow> 'o cowstate \<Rightarrow> bool" where
  "cow_run meta P = (\<lambda>s s'. \<exists>c. c \<notin> P \<and> cow_step meta c s s')\<^sup>*\<^sup>*"

lemma base_wf: "cow_wf COWDictBase"
  by (rule cow_wfI) (auto simp: COWDictBase_def mro_of_def own_attrs_def split: if_splits)

lemma run_wf:
  assumes "cow_run meta P st st'" "cow_wf st"
  shows "cow_wf st'"
  using assms(1) unfolding cow_run_def
proof (induction rule: rtranclp_induct)
  case (step s s')
  then show ?case using cow_step_ok by blast
qed (rule assms(2))

text \<open>What a class and its ancestors hold stays as it is while other classes are worked on.\<close>

definition same_for :: "nat set \<Rightarrow> 'o cowstate \<Rightarrow> 'o cowstate \<Rightarrow> bool" where
  "same_for P st s \<longleftrightarrow> P \<subseteq> classes s \<and> (\<forall>i \<in> P. mro_of s i = mro_of st i \<and> (\<forall>k. attr s i k = attr st i k)) \<and>
     (\<forall>i \<in> P. \<forall>k a. attr st i k = Some (Obj a) \<longrightarrow> map_of (cs_objs s) a = map_of (cs_objs st) a)"

lemma same_for_step:
  assumes "same_for P st s" "cow_wf s" "cow_step meta c s s'" "c \<notin> P"
  shows "same_for P st s'"
proof -
  note f = step_frameD [OF conjunct2 [OF cow_step_ok [OF assms(3,2)]]]
  have s: "P \<subseteq> classes s" "\<And>i. i \<in> P \<Longrightarrow> mro_of s i = mro_of st i" "\<And>i k. i \<in> P \<Longrightarrow> attr s i k = attr st i k"
    "\<And>i k a. i \<in> P \<Longrightarrow> attr st i k = Some (Obj a) \<Longrightarrow> map_of (cs_objs s) a = map_of (cs_objs st) a"
    using assms(1) unfolding same_for_def by blast+
  have i: "i \<in> classes s" "i \<noteq> c" if "i \<in> P" for i using that s(1) assms(4) by blast+
  show ?thesis
    unfolding same_for_def
  proof (intro conjI ballI allI impI)
    show "P \<subseteq> classes s'" using s(1) f(1) by blast
  next
    fix j
    assume j: "j \<in> P"
    show "mro_of s' j = mro_of st j" using f(2) [OF i(1) [OF j]] s(2) [OF j] by simp
    show a: "attr s' j k = attr st j k" for k using f(3) [OF i [OF j]] s(3) [OF j] by simp
    show "map_of (cs_objs s') a = map_of (cs_objs st) a" if "attr st j k = Some (Obj a)" for k a
      using f(4) [OF i [OF j], of k a] s(3,4) [OF j] that by simp
  qed
qed

lemma same_for_run:
  assumes "cow_run meta P st s" "cow_wf st" "P \<subseteq> classes st"
  shows "same_for P st s"
  using assms(1) unfolding cow_run_def
proof (induction rule: rtranclp_induct)
  case base
  show ?case using assms(3) by (simp add: same_for_def)
next
  case (step s s')
  then have "cow_wf s" using run_wf [OF _ assms(2)] unfolding cow_run_def by blast
  with same_for_step step show ?case by blast
qed

text \<open>C34. A copy-on-write dictionary is protected from its copies. In every state reachable from \<^verbatim>\<open>COWDictBase\<close>, any sequence of operations that spares \<open>p\<close> and the dictionaries it was copied
  from, such as operations on its copies and on dictionaries apart, leaves every lookup in \<open>p\<close> as it is: setting, deleting, reverting, fetching for writing, changing the mutable objects fetched, and
  making further copies. Values are strings and mutable objects; dictionaries and sets of the module itself are not stored as values.\<close>

theorem cow_isolation:
  assumes "cow_run meta {} COWDictBase st" and "p \<in> classes st" and "cow_run meta (set (mro_of st p)) st st'"
  shows "view meta st' p key = view meta st p key"
proof -
  have wf: "cow_wf st" by (rule run_wf [OF assms(1) base_wf])
  note p = cow_wfD(2,3) [OF wf assms(2)]
  have "same_for (set (mro_of st p)) st st'" by (rule same_for_run [OF assms(3) wf p(2)])
  moreover have "insert p (set (mro_of st p)) = set (mro_of st p)" using p(1) by auto
  ultimately show ?thesis by (intro view_cong) (auto simp: same_for_def)
qed

text \<open>A dictionary with one list, and a copy of it that changes the list.\<close>

definition demo1 :: "nat list cowstate" where
  "demo1 = setitem 1 ''k'' (Obj 2) (snd (alloc [7] (snd (cow 0 COWDictBase))))"

definition demo2 :: "nat list cowstate" where
  "demo2 = snd (cow 1 demo1)"

definition demo3 :: "nat list cowstate" where
  "demo3 = (case getitem (\<lambda>k. False) 3 ''k'' None False demo2 of Inl _ \<Rightarrow> demo2 | Inr (v, st) \<Rightarrow> put_obj 4 [8] st)"

theorem cow_isolation_witness:
  "view (\<lambda>k. False) demo3 1 ''k'' = Some (Inl [7]) \<and> view (\<lambda>k. False) demo3 3 ''k'' = Some (Inl [8])"
proof -
  let ?m = "\<lambda>k :: string. False"
  have key: "\<not> endswith ''k'' MUTABLE" by code_simp
  have c: "map_of (cs_classes (snd (cow 0 COWDictBase) :: nat list cowstate)) 1 \<noteq> None \<and> map_of (cs_classes demo1) 1 \<noteq> None \<and>
      map_of (cs_classes demo2) 3 \<noteq> None" by code_simp
  have a: "alloc [7] (snd (cow 0 COWDictBase)) = (2, snd (alloc [7 :: nat] (snd (cow 0 COWDictBase))))" by code_simp
  have 1: "cow_step ?m 0 COWDictBase (snd (cow 0 COWDictBase :: _ \<times> nat list cowstate))"
    by (rule cow_step.copy [OF _ prod.collapse [symmetric]]) (simp add: COWDictBase_def)
  have 2: "cow_step ?m 1 (snd (cow 0 COWDictBase)) demo1"
    unfolding demo1_def by (rule cow_step.store [OF _ key a]) (use c in \<open>simp add: dom_def\<close>)
  have run: "cow_run ?m {} COWDictBase demo1"
    unfolding cow_run_def by (rule rtranclp.rtrancl_into_rtrancl [OF r_into_rtranclp]) (use 1 2 in blast)+
  have 3: "cow_step ?m 1 demo1 demo2" unfolding demo2_def by (rule cow_step.copy [OF _ prod.collapse [symmetric]]) (use c in \<open>simp add: dom_def\<close>)
  have run2: "cow_run ?m {} COWDictBase demo2" unfolding cow_run_def
    by (rule rtranclp.rtrancl_into_rtrancl [OF run [unfolded cow_run_def]]) (use 3 in blast)
  have "case getitem ?m 3 ''k'' None False demo2 of Inl _ \<Rightarrow> False | Inr (v, st) \<Rightarrow> v = Obj 4" by code_simp
  then obtain st where g: "getitem ?m 3 ''k'' None False demo2 = Inr (Obj 4, st)" by (auto split: sum.splits)
  have 4: "cow_step ?m 3 demo2 demo3"
    unfolding demo3_def g by (simp, rule cow_step.change [OF _ key g]) (use c in \<open>simp add: dom_def\<close>)
  have m: "mro_of demo2 1 = [1, 0]" by code_simp
  have "cow_run ?m (set (mro_of demo2 1)) demo2 demo3" unfolding cow_run_def m using 4 by (intro r_into_rtranclp exI [of _ 3]) simp
  moreover have "1 \<in> classes demo2" by code_simp
  ultimately have "view ?m demo3 1 ''k'' = view ?m demo2 1 ''k''" using cow_isolation [OF run2] by blast
  moreover have "view ?m demo2 1 ''k'' = Some (Inl [7]) \<and> view ?m demo3 3 ''k'' = Some (Inl [8])" by code_simp
  ultimately show ?thesis by simp
qed

text \<open>A mutable value never replaces an immutable one. When a key of a dictionary has an immutable value, or was deleted, and a mutable value is then assigned to it, lookups still
  return the immutable value, or raise \<^verbatim>\<open>KeyError\<close>: the two kinds are stored under different names and the immutable name is looked up first.\<close>

theorem cow_mutable_hidden:
  assumes "cow_wf st" and "c \<in> classes st" and "is_mutable v" and "\<not> is_mutable w"
  shows "getitem meta c key None readonly (setitem c key v (setitem c key w st)) =
    (if w = EmptyTuple then Inl (KeyError key) else Inr (w, setitem c key v (setitem c key w st)))"
proof -
  let ?st = "setitem c key v (setitem c key w st)"
  obtain cs where "mro_of ?st c = c # cs" using cow_wfD(2) [OF assms(1,2)] by (auto simp: setitem_def)
  moreover have "attr ?st c key = Some w" using assms(2-4) by (simp add: setitem_def MUTABLE_def)
  ultimately have "getattr_cls meta ?st c key = Some w" by (simp add: getattr_cls_def List.map_filter_simps)
  then show ?thesis by (simp add: getitem_def getitem_opt_def)
qed

theorem cow_mutable_hidden_witness:
  "getitem (\<lambda>k. False) 0 ''k'' None True (setitem 0 ''k'' (Cls 0) (delitem 0 ''k'' (COWDictBase :: nat cowstate))) = Inl (KeyError ''k'')"
  unfolding delitem_def
  using cow_mutable_hidden [OF base_wf, of 0 "Cls 0" EmptyTuple "\<lambda>k. False" "''k''" True, where 'a = nat]
  by (simp add: is_mutable_def COWDictBase_def)

end
