(* ===== verification/BB_History.thy ===== *)
theory BB_History
  imports BB_Cow
begin

text \<open>
  The history of the variables, class \<^verbatim>\<open>VariableHistory\<close> of \<^verbatim>\<open>lib/bb/data_smart.py\<close>: a copy-on-write dictionary from variables to lists of events, where an
  event is the dictionary of what is known about an operation on the variable (file, line, kind of operation, value). The stack frame of the caller, from which
  missing items are inferred, is a parameter. The text output (\<^verbatim>\<open>emit\<close>) is left out.
\<close>

section \<open>Operations\<close>

type_synonym loginfo = "(string, string) dict"

text \<open>The frame of the caller: its local variables \<^verbatim>\<open>value\<close> and \<^verbatim>\<open>var\<close>, and where it was called from.\<close>

record frame =
  fr_value :: "string option"
  fr_var :: "string option"
  fr_file :: string
  fr_line :: string
  fr_func :: string

definition infer_var :: "frame \<Rightarrow> loginfo \<Rightarrow> loginfo" where
  "infer_var fr li =
     (let li1 = (case fr_value fr of Some v \<Rightarrow> if has_key li ''detail'' then li else dict_set ''detail'' v li | None \<Rightarrow> li)
      in case fr_var fr of Some v \<Rightarrow> if has_key li1 ''variable'' then li1 else dict_set ''variable'' v li1 | None \<Rightarrow> li1)"

definition infer_place :: "frame \<Rightarrow> loginfo \<Rightarrow> loginfo" where
  "infer_place fr li =
     (let li1 = dict_set ''line'' (fr_line fr) (dict_set ''file'' (fr_file fr) li)
      in if has_key li1 (fr_func fr) then li1 else dict_set ''func'' (fr_func fr) li1)"

definition infer_caller_details :: "frame \<Rightarrow> bool \<Rightarrow> loginfo \<Rightarrow> loginfo" where
  "infer_caller_details fr varval li =
     (if opt_truthy (map_of li ''ignore'') then li
      else if li = [] then [(''ignore'', ''True'')]
      else let li1 = (if varval \<and> (\<not> has_key li ''variable'' \<or> \<not> has_key li ''detail'') then infer_var fr li else li)
           in if \<not> has_key li1 ''file'' then infer_place fr li1 else li1)"

text \<open>\<^verbatim>\<open>a == b\<close> on dictionaries.\<close>

definition dict_eq :: "loginfo \<Rightarrow> loginfo \<Rightarrow> bool" where
  "dict_eq a b \<longleftrightarrow> set (dict_keys a) = set (dict_keys b) \<and> (\<forall>k \<in> set (dict_keys a). map_of a k = map_of b k)"

type_synonym hist_state = "loginfo list cowstate"

definition VariableHistory :: "hist_state \<Rightarrow> nat \<times> hist_state" where
  "VariableHistory st = cow 0 st"

definition hist_copy :: "nat \<Rightarrow> hist_state \<Rightarrow> nat \<times> hist_state" where
  "hist_copy variables st = cow variables (snd (VariableHistory st))"

text \<open>\<^verbatim>\<open>self.variables[var] = []\<close> and \<^verbatim>\<open>self.variables[var]\<close>; a list is needed, anything else makes the caller fail or return.\<close>

definition set_list :: "nat \<Rightarrow> string \<Rightarrow> loginfo list \<Rightarrow> hist_state \<Rightarrow> hist_state" where
  "set_list c var xs st = (case alloc xs st of (a, st1) \<Rightarrow> setitem c var (Obj a) st1)"

definition contents :: "nat \<Rightarrow> hist_state \<Rightarrow> loginfo list" where
  "contents a st = (case map_of (cs_objs st) a of None \<Rightarrow> [] | Some xs \<Rightarrow> xs)"

definition fetch_list :: "(string \<Rightarrow> bool) \<Rightarrow> nat \<Rightarrow> string \<Rightarrow> hist_state \<Rightarrow> (nat \<times> hist_state) result" where
  "fetch_list meta c var st =
     rbind (getitem meta c var None False st) (\<lambda>(v, st1). case v of Obj a \<Rightarrow> Inr (a, st1) | _ \<Rightarrow> Inl TypeError)"

definition record_hist :: "(string \<Rightarrow> bool) \<Rightarrow> frame \<Rightarrow> bool \<Rightarrow> nat \<Rightarrow> loginfo \<Rightarrow> hist_state \<Rightarrow> hist_state result" where
  "record_hist meta fr tracking c loginfo st =
     (if \<not> tracking then Inr st
      else let li = infer_caller_details fr True loginfo
           in if opt_truthy (map_of li ''ignore'') then Inr st
              else let li1 = (if opt_truthy (map_of li ''op'') then li else dict_set ''op'' ''set'' li)
                   in case (map_of li1 ''variable'', map_of li1 ''file'') of
                        (Some var, Some file) \<Rightarrow>
                          (let st1 = (if cow_has_key meta c var st then st else set_list c var [] st)
                           in rbind (getitem meta c var None False st1) (\<lambda>(v, st2).
                              case v of
                                Obj _ \<Rightarrow>
                                  rbind (if has_key li1 ''nodups''
                                         then rbind (fetch_list meta c var st2) (\<lambda>(a, st3). Inr (list_ex (dict_eq li1) (contents a st3), st3))
                                         else Inr (False, st2)) (\<lambda>(dup, st3).
                                  if dup then Inr st3
                                  else rbind (fetch_list meta c var st3) (\<lambda>(a, st4). Inr (put_obj a (contents a st4 @ [li1]) st4)))
                              | _ \<Rightarrow> Inr st2))
                      | _ \<Rightarrow> Inl (ValueError ''record() missing variable or file.''))"

text \<open>The loop of \<^verbatim>\<open>rename_variable_hist\<close> walks over the live list of the old variable.\<close>

fun rename_loop :: "nat \<Rightarrow> (string \<Rightarrow> bool) \<Rightarrow> nat \<Rightarrow> nat \<Rightarrow> nat \<Rightarrow> string \<Rightarrow> hist_state \<Rightarrow> hist_state result option" where
  "rename_loop 0 meta c old i newvar st = (if i < length (contents old st) then None else Some (Inr st))"
| "rename_loop (Suc n) meta c old i newvar st =
     (if i < length (contents old st)
      then (let ev = contents old st ! i
            in case fetch_list meta c newvar st of
                 Inl e \<Rightarrow> Some (Inl e)
               | Inr (a, st1) \<Rightarrow> rename_loop n meta c old (i + 1) newvar (put_obj a (contents a st1 @ [ev]) st1))
      else Some (Inr st))"

definition rename_variable_hist :: "nat \<Rightarrow> (string \<Rightarrow> bool) \<Rightarrow> bool \<Rightarrow> nat \<Rightarrow> string \<Rightarrow> string \<Rightarrow> hist_state \<Rightarrow> hist_state result option" where
  "rename_variable_hist n meta tracking c oldvar newvar st =
     (if \<not> tracking \<or> \<not> cow_has_key meta c oldvar st then Some (Inr st)
      else let st1 = (if cow_has_key meta c newvar st then st else set_list c newvar [] st)
           in case fetch_list meta c oldvar st1 of
                Inl e \<Rightarrow> Some (Inl e)
              | Inr (a, st2) \<Rightarrow> rename_loop n meta c a 0 newvar st2)"

definition variable_hist :: "(string \<Rightarrow> bool) \<Rightarrow> nat \<Rightarrow> string \<Rightarrow> hist_state \<Rightarrow> (loginfo list \<times> hist_state) result" where
  "variable_hist meta c var st =
     (if cow_has_key meta c var st then rbind (fetch_list meta c var st) (\<lambda>(a, st1). Inr (contents a st1, st1)) else Inr ([], st))"

definition get_variable_files :: "(string \<Rightarrow> bool) \<Rightarrow> nat \<Rightarrow> string \<Rightarrow> hist_state \<Rightarrow> (string list \<times> hist_state) result" where
  "get_variable_files meta c var st =
     rbind (variable_hist meta c var st) (\<lambda>(evs, st1). rbind (rmap (\<lambda>ev. dict_lookup ev ''file'') evs) (\<lambda>files. Inr (files, st1)))"

fun lines_in :: "string \<Rightarrow> loginfo list \<Rightarrow> string list result" where
  "lines_in f [] = Inr []"
| "lines_in f (ev # evs) =
     rbind (dict_lookup ev ''file'') (\<lambda>file.
     if f = file then rbind (dict_lookup ev ''line'') (\<lambda>line. rbind (lines_in f evs) (\<lambda>ls. Inr (line # ls)))
     else lines_in f evs)"

definition get_variable_lines :: "(string \<Rightarrow> bool) \<Rightarrow> nat \<Rightarrow> string \<Rightarrow> string \<Rightarrow> hist_state \<Rightarrow> (string list \<times> hist_state) result" where
  "get_variable_lines meta c var f st = rbind (variable_hist meta c var st) (\<lambda>(evs, st1). rbind (lines_in f evs) (\<lambda>ls. Inr (ls, st1)))"

text \<open>The final value of the variable and the expansion of a value are parameters, the data store is not part of this theory.\<close>

definition item_step ::
    "(string \<Rightarrow> string result) \<Rightarrow> string list \<Rightarrow> loginfo \<Rightarrow> bool \<times> (string, string) dict \<Rightarrow> (bool \<times> (string, string) dict) result" where
  "item_step expand finalitems ev p =
     (case p of (isset, filemap) \<Rightarrow>
        if has_key ev ''flag'' then Inr p
        else rbind (dict_lookup ev ''op'') (\<lambda>op.
             if op = ''_remove'' then Inr p
             else if isset \<and> op = ''set?'' then Inr p
             else rbind (dict_lookup ev ''detail'') (\<lambda>detail.
                  rbind (expand detail) (\<lambda>x.
                  rbind (rfold (\<lambda>item fm. if item \<in> set finalitems \<and> \<not> has_key fm item
                                          then rbind (dict_lookup ev ''file'') (\<lambda>f. Inr (dict_set item f fm)) else Inr fm) (split_ws x) filemap) (\<lambda>fm.
                  Inr (True, fm))))))"

definition get_variable_items_files ::
    "(string \<Rightarrow> bool) \<Rightarrow> (string \<Rightarrow> string result) \<Rightarrow> string option \<Rightarrow> nat \<Rightarrow> string \<Rightarrow> hist_state \<Rightarrow> ((string, string) dict \<times> hist_state) result" where
  "get_variable_items_files meta expand final c var st =
     rbind (variable_hist meta c var st) (\<lambda>(evs, st1).
     rbind (rfold (item_step expand (split_ws (case final of None \<Rightarrow> [] | Some v \<Rightarrow> v))) evs (False, [])) (\<lambda>(isset, filemap). Inr (filemap, st1)))"

definition keep_event :: "string \<Rightarrow> string \<Rightarrow> loginfo \<Rightarrow> loginfo list \<Rightarrow> loginfo list result" where
  "keep_event f line ev kept =
     rbind (dict_lookup ev ''file'') (\<lambda>file.
     if file = f then Inr kept
     else rbind (dict_lookup ev ''line'') (\<lambda>l. Inr (if l = line then kept else kept @ [ev])))"

definition del_var_history :: "(string \<Rightarrow> bool) \<Rightarrow> nat \<Rightarrow> string \<Rightarrow> string option \<Rightarrow> string option \<Rightarrow> hist_state \<Rightarrow> hist_state result" where
  "del_var_history meta c var f line st =
     (if \<not> cow_has_key meta c var st then Inr st
      else if opt_truthy f \<and> opt_truthy line
      then rbind (fetch_list meta c var st) (\<lambda>(a, st1).
           rbind (rfold (keep_event (the f) (the line)) (contents a st1) []) (\<lambda>kept. Inr (set_list c var kept st1)))
      else Inr (set_list c var [] st))"

text \<open>Pickling: \<^verbatim>\<open>__getstate__\<close> and \<^verbatim>\<open>__setstate__\<close>; a list is pickled by content.\<close>

definition hist_getstate :: "(string \<Rightarrow> bool) \<Rightarrow> nat \<Rightarrow> hist_state \<Rightarrow> (string, loginfo list) dict \<times> hist_state" where
  "hist_getstate meta c st =
     (case cow_iteritems meta c False st of (items, st1) \<Rightarrow>
        (fold (\<lambda>(k, v) d. case v of Obj a \<Rightarrow> dict_set k (contents a st1) d | _ \<Rightarrow> d) items [], st1))"

definition hist_setstate :: "(string, loginfo list) dict \<Rightarrow> hist_state \<Rightarrow> nat \<times> hist_state" where
  "hist_setstate vars st = (case cow 0 st of (n, st1) \<Rightarrow> (n, fold (\<lambda>(k, xs). set_list n k xs) vars st1))"

section \<open>What a history holds\<close>

text \<open>The abstract history of a variable, and the variables it is kept for: not named like an attribute of the metaclass or a mutable name.\<close>

definition hist :: "(string \<Rightarrow> bool) \<Rightarrow> hist_state \<Rightarrow> nat \<Rightarrow> string \<Rightarrow> loginfo list" where
  "hist meta st c var = (case view meta st c var of Some (Inl xs) \<Rightarrow> xs | _ \<Rightarrow> [])"

definition ok_var :: "(string \<Rightarrow> bool) \<Rightarrow> string \<Rightarrow> bool" where
  "ok_var meta var \<longleftrightarrow> \<not> endswith var MUTABLE \<and> \<not> meta var \<and> \<not> meta (var @ MUTABLE)"

text \<open>Histories hold lists only.\<close>

definition hist_inv :: "hist_state \<Rightarrow> bool" where
  "hist_inv st \<longleftrightarrow> cow_wf st \<and> (\<forall>c k v. attr st c k = Some v \<longrightarrow> endswith k MUTABLE \<and> (\<exists>a. v = Obj a))"

lemma hist_invD:
  assumes "hist_inv st"
  shows "cow_wf st" "attr st c k = Some v \<Longrightarrow> endswith k MUTABLE" "attr st c k = Some v \<Longrightarrow> \<exists>a. v = Obj a"
  using assms unfolding hist_inv_def by blast+

lemma no_plain_slot:
  assumes "hist_inv st" "ok_var meta var"
  shows "getattr_cls meta st c var = None"
proof (cases "getattr_cls meta st c var")
  case (Some v)
  from getattr_Some [OF Some] hist_invD(2) [OF assms(1)] assms(2) have "v = MetaAttr var" by (auto simp: ok_var_def)
  moreover have "getattr_cls meta st c var \<noteq> Some (MetaAttr var)"
  proof
    assume g: "getattr_cls meta st c var = Some (MetaAttr var)"
    then have "List.map_filter (\<lambda>i. attr st i var) (mro_of st c) \<noteq> []" using assms(2) by (auto simp: getattr_cls_def ok_var_def split: list.splits)
    then obtain i where "attr st i var \<noteq> None" by (auto simp: List.map_filter_def filter_empty_conv)
    then show False using hist_invD(2) [OF assms(1)] assms(2) unfolding ok_var_def by blast
  qed
  ultimately show ?thesis using Some by simp
qed

lemma list_slot:
  assumes "hist_inv st" "ok_var meta var" "getattr_cls meta st c (var @ MUTABLE) = Some v"
  shows "\<exists>a i. v = Obj a \<and> i \<in> set (mro_of st c) \<and> attr st i (var @ MUTABLE) = Some (Obj a) \<and> a \<in> dom (map_of (cs_objs st))"
proof -
  have "v \<noteq> MetaAttr (var @ MUTABLE)"
  proof
    assume v: "v = MetaAttr (var @ MUTABLE)"
    then have "List.map_filter (\<lambda>i. attr st i (var @ MUTABLE)) (mro_of st c) \<noteq> []" using assms(2,3) by (auto simp: getattr_cls_def ok_var_def split: list.splits)
    then obtain w ws where w: "List.map_filter (\<lambda>i. attr st i (var @ MUTABLE)) (mro_of st c) = w # ws" by (meson list.exhaust)
    then have "w \<in> set (List.map_filter (\<lambda>i. attr st i (var @ MUTABLE)) (mro_of st c))" by simp
    then obtain i where "attr st i (var @ MUTABLE) = Some w" by (auto simp: List.map_filter_def)
    moreover have "w = v" using w assms(3) by (simp add: getattr_cls_def)
    ultimately show False using hist_invD(3) [OF assms(1)] v by blast
  qed
  with getattr_Some [OF assms(3)] obtain i where i: "i \<in> set (mro_of st c)" "attr st i (var @ MUTABLE) = Some v" by blast
  from hist_invD(3) [OF assms(1) i(2)] obtain a where "v = Obj a" by blast
  with i cow_wfD(6) [OF hist_invD(1) [OF assms(1)]] show ?thesis by blast
qed

lemma own_first:
  assumes "cow_wf st" "attr st c k = Some v"
  shows "getattr_cls meta st c k = Some v"
proof -
  obtain cs where "mro_of st c = c # cs" using cow_wfD(2) [OF assms(1) own_attr_class [OF assms(2)]] by blast
  with assms(2) show ?thesis by (simp add: getattr_cls_def List.map_filter_simps)
qed

lemma getmutable_readonly:
  assumes "cow_wf st"
  shows "getmutable meta c var True st = map_option (\<lambda>v. (v, st)) (getattr_cls meta st c (var @ MUTABLE))"
  using own_first [OF assms] by (cases "attr st c (var @ MUTABLE)") (auto simp: getmutable_def Let_def split: option.splits)

lemma hist_lookup:
  assumes "hist_inv st" "ok_var meta var"
  shows "cow_has_key meta c var st \<longleftrightarrow> getattr_cls meta st c (var @ MUTABLE) \<noteq> None"
    "hist meta st c var = (case getattr_cls meta st c (var @ MUTABLE) of Some (Obj a) \<Rightarrow> contents a st | _ \<Rightarrow> [])"
proof -
  note r = no_plain_slot [OF assms] getmutable_readonly [OF hist_invD(1) [OF assms(1)]]
  show "cow_has_key meta c var st \<longleftrightarrow> getattr_cls meta st c (var @ MUTABLE) \<noteq> None"
  proof (cases "getattr_cls meta st c (var @ MUTABLE)")
    case (Some v)
    with list_slot [OF assms Some] r show ?thesis by (auto simp: cow_has_key_def getreadonly_def getitem_def getitem_opt_def)
  qed (use r in \<open>simp add: cow_has_key_def getreadonly_def getitem_def getitem_opt_def\<close>)
  show "hist meta st c var = (case getattr_cls meta st c (var @ MUTABLE) of Some (Obj a) \<Rightarrow> contents a st | _ \<Rightarrow> [])"
  proof (cases "getattr_cls meta st c (var @ MUTABLE)")
    case (Some v)
    with list_slot [OF assms Some] r show ?thesis by (auto simp: hist_def view_def getitem_opt_def contents_def)
  qed (use r in \<open>simp add: hist_def view_def getitem_opt_def\<close>)
qed

lemma hist_own:
  assumes "hist_inv st" "ok_var meta var" "attr st c (var @ MUTABLE) = Some (Obj a)"
  shows "hist meta st c var = contents a st" "cow_has_key meta c var st"
  using hist_lookup [OF assms(1,2)] own_first [OF hist_invD(1) [OF assms(1)] assms(3)] by simp_all

text \<open>Working on the list a class owns changes the history of one variable only.\<close>

lemma put_list_ok:
  assumes "hist_inv st" "ok_var meta var" "attr st c (var @ MUTABLE) = Some (Obj a)"
  shows "hist_inv (put_obj a xs st)" "step_frame c st (put_obj a xs st)" "attr (put_obj a xs st) i k = attr st i k"
    "ok_var meta v \<Longrightarrow> hist meta (put_obj a xs st) c v = (if v = var then xs else hist meta st c v)"
    "ok_var meta v \<Longrightarrow> cow_has_key meta c v (put_obj a xs st) = cow_has_key meta c v st" "classes (put_obj a xs st) = classes st"
proof -
  let ?st = "put_obj a xs st"
  have s: "own_attrs ?st i = own_attrs st i" "mro_of ?st i = mro_of st i" for i by (simp_all add: put_obj_def own_attrs_def mro_of_def)
  have wf: "cow_wf ?st" "step_frame c st ?st" by (rule put_obj_ok [OF hist_invD(1) [OF assms(1)] assms(3)])+
  show inv: "hist_inv ?st" using wf(1) hist_invD(2,3) [OF assms(1)] unfolding hist_inv_def s by blast
  show "step_frame c st ?st" "attr ?st i k = attr st i k" "classes ?st = classes st" using wf(2) s by (simp_all add: put_obj_def)
  have g: "getattr_cls meta ?st c k = getattr_cls meta st c k" for k by (rule getattr_cong) (simp_all add: s)
  show "cow_has_key meta c v ?st = cow_has_key meta c v st" if "ok_var meta v" using hist_lookup(1) [OF inv that] hist_lookup(1) [OF assms(1) that] g by simp
  show "hist meta ?st c v = (if v = var then xs else hist meta st c v)" if v: "ok_var meta v"
  proof (cases "v = var")
    case True
    have "attr ?st c (var @ MUTABLE) = Some (Obj a)" using assms(3) s by simp
    from hist_own(1) [OF inv assms(2) this] True show ?thesis by (simp add: contents_def put_obj_def)
  next
    case False
    show ?thesis
    proof (cases "getattr_cls meta st c (v @ MUTABLE)")
      case (Some w)
      from list_slot [OF assms(1) v Some] obtain b i where b: "w = Obj b" "attr st i (v @ MUTABLE) = Some (Obj b)" by blast
      then have "b \<noteq> a" using cow_wfD(7) [OF hist_invD(1) [OF assms(1)] assms(3)] False by auto
      with Some b(1) False show ?thesis unfolding hist_lookup(2) [OF inv v] hist_lookup(2) [OF assms(1) v] g by (simp add: contents_def put_obj_def)
    qed (use False in \<open>simp add: hist_lookup(2) [OF inv v] hist_lookup(2) [OF assms(1) v] g\<close>)
  qed
qed

lemma set_list_ok:
  assumes "hist_inv st" "ok_var meta var" "c \<in> classes st"
  shows "hist_inv (set_list c var xs st)" "step_frame c st (set_list c var xs st)" "c \<in> classes (set_list c var xs st)"
    "ok_var meta v \<Longrightarrow> hist meta (set_list c var xs st) c v = (if v = var then xs else hist meta st c v)"
    "ok_var meta v \<Longrightarrow> cow_has_key meta c v (set_list c var xs st) \<longleftrightarrow> v = var \<or> cow_has_key meta c v st"
    "\<exists>a. attr (set_list c var xs st) c (var @ MUTABLE) = Some (Obj a)"
    "k \<noteq> var @ MUTABLE \<Longrightarrow> attr (set_list c var xs st) i k = attr st i k"
proof -
  obtain a st1 where al: "alloc xs st = (a, st1)" by (cases "alloc xs st")
  note wf = hist_invD(1) [OF assms(1)]
  note ok = alloc_ok [OF wf al]
  let ?st = "set_list c var xs st"
  have st: "?st = setattr_cls c (var @ MUTABLE) (Obj a) st1" unfolding set_list_def al by (simp add: setitem_def is_mutable_def)
  have same: "own_attrs st1 i = own_attrs st i" "mro_of st1 i = mro_of st i" for i using al by (auto simp: alloc_def own_attrs_def mro_of_def)
  have attr: "attr ?st i k = (if i = c \<and> k = var @ MUTABLE then Some (Obj a) else attr st i k)" for i k
    unfolding st using assms(3) ok(5) by (simp add: same)
  have "cow_wf ?st \<and> step_frame c st ?st" using setitem_obj_ok [OF wf al, of c var] unfolding set_list_def al by simp
  then show inv: "hist_inv ?st" and "step_frame c st ?st"
    using hist_invD(2,3) [OF assms(1)] by (auto simp: hist_inv_def attr suffix_def)
  show "c \<in> classes ?st" using assms(3) ok(5) unfolding st by simp
  have own: "attr ?st c (var @ MUTABLE) = Some (Obj a)" using attr by simp
  then show "\<exists>a. attr ?st c (var @ MUTABLE) = Some (Obj a)" by blast
  show "k \<noteq> var @ MUTABLE \<Longrightarrow> attr ?st i k = attr st i k" using attr by simp
  have g: "getattr_cls meta ?st c k = getattr_cls meta st c k" if "k \<noteq> var @ MUTABLE" for k
    by (rule getattr_cong) (use that attr in \<open>simp_all add: st same\<close>)
  show "cow_has_key meta c v ?st \<longleftrightarrow> v = var \<or> cow_has_key meta c v st" if "ok_var meta v"
    using hist_lookup(1) [OF inv that] hist_lookup(1) [OF assms(1) that] g [of "v @ MUTABLE"] hist_own(2) [OF inv assms(2) own] by (cases "v = var") auto
  have objs: "map_of (cs_objs ?st) = (map_of (cs_objs st))(a \<mapsto> xs)" unfolding st using al by (auto simp: alloc_def)
  show "hist meta ?st c v = (if v = var then xs else hist meta st c v)" if v: "ok_var meta v"
  proof (cases "v = var")
    case True
    then show ?thesis using hist_own(1) [OF inv assms(2) own] by (simp add: contents_def objs)
  next
    case False
    show ?thesis
    proof (cases "getattr_cls meta st c (v @ MUTABLE)")
      case (Some w)
      from list_slot [OF assms(1) v Some] obtain b i where b: "w = Obj b" "attr st i (v @ MUTABLE) = Some (Obj b)" by blast
      then have "b \<noteq> a" using ok(4) [of i "v @ MUTABLE"] same by auto
      with Some b(1) False show ?thesis
        unfolding hist_lookup(2) [OF inv v] hist_lookup(2) [OF assms(1) v] using g [of "v @ MUTABLE"] by (simp add: contents_def objs)
    qed (use False g [of "v @ MUTABLE"] in \<open>simp add: hist_lookup(2) [OF inv v] hist_lookup(2) [OF assms(1) v]\<close>)
  qed
qed

text \<open>Fetching a list copies an inherited one into the class; what the histories hold stays.\<close>

lemma fetch_list_ok:
  assumes "hist_inv st" "ok_var meta var" "c \<in> classes st" "cow_has_key meta c var st"
  shows "\<exists>a st'. getitem meta c var None False st = Inr (Obj a, st') \<and> fetch_list meta c var st = Inr (a, st') \<and> hist_inv st' \<and> step_frame c st st' \<and> c \<in> classes st' \<and>
    attr st' c (var @ MUTABLE) = Some (Obj a) \<and> contents a st' = hist meta st c var \<and>
    (\<forall>k. k \<noteq> var @ MUTABLE \<longrightarrow> attr st' c k = attr st c k) \<and>
    (\<forall>v. ok_var meta v \<longrightarrow> hist meta st' c v = hist meta st c v \<and> cow_has_key meta c v st' = cow_has_key meta c v st)"
proof -
  note wf = hist_invD(1) [OF assms(1)]
  have "getattr_cls meta st c (var @ MUTABLE) \<noteq> None" using hist_lookup(1) [OF assms(1,2)] assms(4) by simp
  then obtain w where w: "getattr_cls meta st c (var @ MUTABLE) = Some w" by blast
  from list_slot [OF assms(1,2) w] obtain b x where b: "w = Obj b" "map_of (cs_objs st) b = Some x" by blast
  have h: "hist meta st c var = x" using w b by (simp add: hist_lookup(2) [OF assms(1,2)] contents_def)
  show ?thesis
  proof (cases "attr st c (var @ MUTABLE)")
    case (Some u)
    then have "u = Obj b" using own_first [OF wf Some] w b(1) by simp
    then have "getitem meta c var None False st = Inr (Obj b, st)"
      using Some no_plain_slot [OF assms(1,2)] by (simp add: getitem_def getitem_opt_def getmutable_def)
    then show ?thesis using assms(1,3) Some \<open>u = Obj b\<close> h b(2) by (auto simp: fetch_list_def contents_def step_frame_refl)
  next
    case None
    let ?a = "cs_next st"
    have st: "set_list c var x st = setattr_cls c (var @ MUTABLE) (Obj ?a) (snd (alloc x st))" "fst (alloc x st) = ?a"
      by (simp_all add: set_list_def alloc_def setitem_def is_mutable_def)
    have cv: "copy_value (Obj b) st = (Obj ?a, snd (alloc x st))" using b(2) by (simp add: copy_value_def alloc_def)
    have g: "getitem meta c var None False st = Inr (Obj ?a, set_list c var x st)"
      using None w b(1) no_plain_slot [OF assms(1,2)] cv st(1) by (simp add: getitem_def getitem_opt_def getmutable_def Let_def)
    note ok = set_list_ok [OF assms(1-3), where xs = x]
    have own: "attr (set_list c var x st) c (var @ MUTABLE) = Some (Obj ?a)" using st(1) assms(3) alloc_ok(5) [OF wf, of x "fst (alloc x st)" "snd (alloc x st)"] by simp
    have "contents ?a (set_list c var x st) = x" using hist_own(1) [OF ok(1) assms(2) own] ok(4) [OF assms(2)] by simp
    moreover have "hist meta (set_list c var x st) c v = hist meta st c v \<and> cow_has_key meta c v (set_list c var x st) = cow_has_key meta c v st"
      if "ok_var meta v" for v using ok(4,5) [OF that] h assms(4) by auto
    ultimately show ?thesis using g ok(1-3,7) own h by (auto simp: fetch_list_def)
  qed
qed

lemma no_key_no_hist: "hist_inv st \<Longrightarrow> ok_var meta var \<Longrightarrow> \<not> cow_has_key meta c var st \<Longrightarrow> hist meta st c var = []"
  by (simp add: hist_lookup)

lemma frame_hist:
  assumes "step_frame c st st'" "cow_wf st" "p \<in> classes st" "c \<notin> set (mro_of st p)"
  shows "hist meta st' p v = hist meta st p v"
proof -
  note f = step_frameD [OF assms(1)] and p = cow_wfD(2,3) [OF assms(2,3)]
  have i: "i \<in> classes st" "i \<noteq> c" if "i \<in> insert p (set (mro_of st p))" for i using that p assms(3,4) by auto
  have "view meta st' p v = view meta st p v"
    by (rule view_cong) (rule f(2) [OF assms(3)], rule f(3) [OF i(1) i(2)], assumption+, rule f(4) [OF i(1) i(2)])
  then show ?thesis by (simp add: hist_def)
qed

text \<open>\<^verbatim>\<open>if var not in self.variables: self.variables[var] = []\<close>\<close>

lemma ensure_list:
  assumes "hist_inv st" "ok_var meta var" "c \<in> classes st" "st1 = (if cow_has_key meta c var st then st else set_list c var [] st)"
  shows "hist_inv st1" "step_frame c st st1" "c \<in> classes st1" "cow_has_key meta c var st1" "ok_var meta v \<Longrightarrow> hist meta st1 c v = hist meta st c v"
    "ok_var meta v \<Longrightarrow> cow_has_key meta c v st \<Longrightarrow> cow_has_key meta c v st1"
  using set_list_ok [OF assms(1-3), where xs = "[]"] no_key_no_hist [OF assms(1,2)] assms
  by (auto simp: step_frame_refl split: if_splits)

section \<open>Recording\<close>

definition log_entry :: "frame \<Rightarrow> loginfo \<Rightarrow> loginfo" where
  "log_entry fr loginfo =
     (let li = infer_caller_details fr True loginfo in if opt_truthy (map_of li ''op'') then li else dict_set ''op'' ''set'' li)"

definition is_dup :: "loginfo \<Rightarrow> loginfo list \<Rightarrow> bool" where
  "is_dup e evs \<longleftrightarrow> has_key e ''nodups'' \<and> list_ex (dict_eq e) evs"

lemma record_run:
  assumes "hist_inv st" "c \<in> classes st" "\<not> opt_truthy (map_of (infer_caller_details fr True loginfo) ''ignore'')"
    and "map_of (log_entry fr loginfo) ''variable'' = Some var" "map_of (log_entry fr loginfo) ''file'' = Some file" "ok_var meta var"
  shows "\<exists>st'. record_hist meta fr True c loginfo st = Inr st' \<and> hist_inv st' \<and> step_frame c st st' \<and>
    (\<forall>v. ok_var meta v \<longrightarrow> hist meta st' c v =
       (if v = var then hist meta st c var @ (if is_dup (log_entry fr loginfo) (hist meta st c var) then [] else [log_entry fr loginfo]) else hist meta st c v))"
proof -
  let ?e = "log_entry fr loginfo" and ?h = "hist meta st c"
  define st1 where "st1 = (if cow_has_key meta c var st then st else set_list c var [] st)"
  note e = ensure_list [OF assms(1,6,2) st1_def]
  from fetch_list_ok [OF e(1) assms(6) e(3,4)] obtain a st2 where
    f: "getitem meta c var None False st1 = Inr (Obj a, st2)" "hist_inv st2" "step_frame c st1 st2" "c \<in> classes st2"
      "\<forall>v. ok_var meta v \<longrightarrow> hist meta st2 c v = hist meta st1 c v \<and> cow_has_key meta c v st2 = cow_has_key meta c v st1" by blast
  have h2: "cow_has_key meta c var st2" "ok_var meta v \<Longrightarrow> hist meta st2 c v = ?h v" for v using f(5) e(4,5) assms(6) by auto
  from fetch_list_ok [OF f(2) assms(6) f(4) h2(1)] obtain a3 st3 where
    g: "fetch_list meta c var st2 = Inr (a3, st3)" "hist_inv st3" "step_frame c st2 st3" "c \<in> classes st3" "contents a3 st3 = hist meta st2 c var"
      "attr st3 c (var @ MUTABLE) = Some (Obj a3)"
      "\<forall>v. ok_var meta v \<longrightarrow> hist meta st3 c v = hist meta st2 c v \<and> cow_has_key meta c v st3 = cow_has_key meta c v st2" by blast
  have h3: "cow_has_key meta c var st3" "ok_var meta v \<Longrightarrow> hist meta st3 c v = ?h v" for v using g(7) h2 assms(6) by auto
  from fetch_list_ok [OF g(2) assms(6) g(4) h3(1)] obtain a4 st4 where
    k: "fetch_list meta c var st3 = Inr (a4, st4)" "hist_inv st4" "step_frame c st3 st4" "contents a4 st4 = hist meta st3 c var"
      "attr st4 c (var @ MUTABLE) = Some (Obj a4)" "\<forall>v. ok_var meta v \<longrightarrow> hist meta st4 c v = hist meta st3 c v" by blast
  note p3 = put_list_ok [OF g(2) assms(6) g(6), where xs = "?h var @ [?e]"] and p4 = put_list_ok [OF k(2) assms(6) k(5), where xs = "?h var @ [?e]"]
  note fr = step_frame_trans [OF step_frame_trans [OF e(2) f(3)] g(3)]
  have le: "?e = (if opt_truthy (map_of (infer_caller_details fr True loginfo) ''op'') then infer_caller_details fr True loginfo
      else dict_set ''op'' ''set'' (infer_caller_details fr True loginfo))" by (simp add: log_entry_def Let_def)
  have run: "record_hist meta fr True c loginfo st = Inr (if has_key ?e ''nodups'' then (if list_ex (dict_eq ?e) (?h var) then st3 else put_obj a4 (?h var @ [?e]) st4)
      else put_obj a3 (?h var @ [?e]) st3)"
    unfolding record_hist_def Let_def le [symmetric] using assms(3-6) f(1) g(1,5) k(1,4) h2(2) h3(2) by (auto simp: st1_def [symmetric])
  show ?thesis
  proof (cases "has_key ?e ''nodups''")
    case True
    show ?thesis
    proof (cases "list_ex (dict_eq ?e) (?h var)")
      case dup: True
      with True run g(2) fr h3(2) show ?thesis by (auto simp: is_dup_def)
    next
      case False
      with True run p4(1,4) step_frame_trans [OF step_frame_trans [OF fr k(3)] p4(2)] k(6) h3(2) show ?thesis by (auto simp: is_dup_def)
    qed
  next
    case False
    with run p3(1,4) step_frame_trans [OF fr p3(2)] h3(2) show ?thesis by (auto simp: is_dup_def)
  qed
qed

text \<open>Recording an event appends it to the history of its variable and to nothing else. For every well-formed store, a call of \<^verbatim>\<open>record\<close> on a history that is being tracked ends without an
  error, the completed event is appended to the list of the variable (unless \<^verbatim>\<open>nodups\<close> is given and the list has an equal event), the histories of all other variables stay, and so do
  all histories of every history object that does not inherit from this one, the one it was copied from included.\<close>

theorem record_exact:
  assumes "hist_inv st" and "c \<in> classes st" and "\<not> opt_truthy (map_of (infer_caller_details fr True loginfo) ''ignore'')"
    and "map_of (log_entry fr loginfo) ''variable'' = Some var" and "map_of (log_entry fr loginfo) ''file'' = Some file" and "ok_var meta var"
  shows "\<exists>st'. record_hist meta fr True c loginfo st = Inr st' \<and> hist_inv st' \<and>
    (\<forall>v. ok_var meta v \<longrightarrow> hist meta st' c v =
       (if v = var then hist meta st c var @ (if is_dup (log_entry fr loginfo) (hist meta st c var) then [] else [log_entry fr loginfo]) else hist meta st c v)) \<and>
    (\<forall>p v. p \<in> classes st \<and> c \<notin> set (mro_of st p) \<longrightarrow> hist meta st' p v = hist meta st p v)"
  using record_run [OF assms] frame_hist [OF _ hist_invD(1) [OF assms(1)]] by meson

text \<open>A history and a copy of it.\<close>

definition demo_frame :: frame where
  "demo_frame = \<lparr>fr_value = Some ''v'', fr_var = None, fr_file = ''conf'', fr_line = ''3'', fr_func = ''f''\<rparr>"

definition demo_hist :: hist_state where
  "demo_hist = set_list 1 ''V'' [[(''file'', ''a.conf''), (''line'', ''1'')], [(''file'', ''b.conf''), (''line'', ''2'')], [(''file'', ''a.conf''), (''line'', ''2'')]]
     (snd (VariableHistory COWDictBase))"

definition demo_both :: hist_state where
  "demo_both = snd (hist_copy 1 demo_hist)"

lemma base_hist_inv: "hist_inv COWDictBase"
  by (simp add: hist_inv_def base_wf) (simp add: COWDictBase_def own_attrs_def)

lemma cow_hist_inv:
  assumes "hist_inv st" "cow c st = (n, st')"
  shows "hist_inv st'" "n \<in> classes st'"
proof -
  note ok = cow_ok [OF hist_invD(1) [OF assms(1)] assms(2)]
  have "own_attrs st' i = (if i = n then [] else own_attrs st i)" for i using assms(2) by (auto simp: cow_def Let_def own_attrs_def)
  then show "hist_inv st'" "n \<in> classes st'" using ok(1,4) hist_invD(2,3) [OF assms(1)] by (auto simp: hist_inv_def)
qed

lemma demo_ok: "ok_var (\<lambda>k. False) ''V''" "hist_inv demo_hist" "hist_inv demo_both" "1 \<in> classes demo_hist" "4 \<in> classes demo_both"
proof -
  show v: "ok_var (\<lambda>k. False) ''V''" by code_simp
  have "cow 0 (COWDictBase :: hist_state) = (1, snd (VariableHistory COWDictBase))" by code_simp
  from cow_hist_inv [OF base_hist_inv this] have i: "hist_inv (snd (VariableHistory COWDictBase))" "1 \<in> classes (snd (VariableHistory COWDictBase))" .
  from set_list_ok(1,3) [OF i(1) v i(2)] show d: "hist_inv demo_hist" "1 \<in> classes demo_hist" unfolding demo_hist_def by blast+
  have "cow 0 demo_hist = (3, snd (VariableHistory demo_hist))" by code_simp
  from cow_hist_inv [OF d(1) this] have "hist_inv (snd (VariableHistory demo_hist))" by blast
  moreover have "cow 1 (snd (VariableHistory demo_hist)) = (4, demo_both)" by code_simp
  ultimately show "hist_inv demo_both" "4 \<in> classes demo_both" using cow_hist_inv by blast+
qed

theorem record_exact_witness:
  "\<exists>st'. record_hist (\<lambda>k. False) demo_frame True 4 [(''variable'', ''V'')] demo_both = Inr st' \<and>
     length (hist (\<lambda>k. False) st' 4 ''V'') = 4 \<and> length (hist (\<lambda>k. False) st' 1 ''V'') = 3"
proof -
  let ?m = "\<lambda>k :: string. False"
  let ?e = "log_entry demo_frame [(''variable'', ''V'')]"
  have 1: "\<not> opt_truthy (map_of (infer_caller_details demo_frame True [(''variable'', ''V'')]) ''ignore'')" by code_simp
  have 2: "map_of ?e ''variable'' = Some ''V''" by code_simp
  have 3: "map_of ?e ''file'' = Some ''conf''" by code_simp
  from record_exact [OF demo_ok(3,5) 1 2 3 demo_ok(1)] obtain st' where
    r: "record_hist ?m demo_frame True 4 [(''variable'', ''V'')] demo_both = Inr st'"
      "\<forall>v. ok_var ?m v \<longrightarrow> hist ?m st' 4 v = (if v = ''V'' then hist ?m demo_both 4 ''V'' @ (if is_dup ?e (hist ?m demo_both 4 ''V'') then [] else [?e]) else hist ?m demo_both 4 v)"
      "\<forall>p v. p \<in> classes demo_both \<and> 4 \<notin> set (mro_of demo_both p) \<longrightarrow> hist ?m st' p v = hist ?m demo_both p v" by blast
  have c: "length (hist ?m demo_both 4 ''V'') = 3 \<and> \<not> is_dup ?e (hist ?m demo_both 4 ''V'') \<and> length (hist ?m demo_both 1 ''V'') = 3" by code_simp
  have d: "1 \<in> classes demo_both" "4 \<notin> set (mro_of demo_both 1)" by code_simp+
  have "hist ?m st' 4 ''V'' = hist ?m demo_both 4 ''V'' @ [?e]" using r(2) demo_ok(1) c by simp
  moreover have "hist ?m st' 1 ''V'' = hist ?m demo_both 1 ''V''" using r(3) d by blast
  ultimately show ?thesis using r(1) c by simp
qed

section \<open>Renaming and deleting\<close>

lemma rename_loop_ok:
  assumes "oldvar \<noteq> newvar" "ok_var meta oldvar" "ok_var meta newvar"
  shows "hist_inv st \<Longrightarrow> c \<in> classes st \<Longrightarrow> attr st c (oldvar @ MUTABLE) = Some (Obj a) \<Longrightarrow> cow_has_key meta c newvar st \<Longrightarrow>
    length (hist meta st c oldvar) \<le> i + n \<Longrightarrow>
    \<exists>st'. rename_loop n meta c a i newvar st = Some (Inr st') \<and> hist_inv st' \<and> step_frame c st st' \<and>
      (\<forall>v. ok_var meta v \<longrightarrow> hist meta st' c v = (if v = newvar then hist meta st c newvar @ drop i (hist meta st c oldvar) else hist meta st c v))"
proof (induction n arbitrary: i st)
  case 0
  then show ?case using hist_own(1) [OF 0(1) assms(2) 0(3)] by (auto simp: step_frame_refl)
next
  case (Suc n)
  have old: "contents a st = hist meta st c oldvar" using hist_own(1) [OF Suc.prems(1) assms(2) Suc.prems(3)] by simp
  show ?case
  proof (cases "i < length (hist meta st c oldvar)")
    case False
    with old Suc.prems(1) show ?thesis by (auto simp: step_frame_refl)
  next
    case True
    let ?ev = "hist meta st c oldvar ! i"
    from fetch_list_ok [OF Suc.prems(1) assms(3) Suc.prems(2,4)] obtain b st1 where
      f: "fetch_list meta c newvar st = Inr (b, st1)" "hist_inv st1" "step_frame c st st1" "c \<in> classes st1" "attr st1 c (newvar @ MUTABLE) = Some (Obj b)"
        "contents b st1 = hist meta st c newvar" "\<forall>k. k \<noteq> newvar @ MUTABLE \<longrightarrow> attr st1 c k = attr st c k"
        "\<forall>v. ok_var meta v \<longrightarrow> hist meta st1 c v = hist meta st c v \<and> cow_has_key meta c v st1 = cow_has_key meta c v st" by blast
    note p = put_list_ok [OF f(2) assms(3) f(5), where xs = "hist meta st c newvar @ [?ev]"]
    let ?st2 = "put_obj b (hist meta st c newvar @ [?ev]) st1"
    have h: "hist meta ?st2 c v = (if v = newvar then hist meta st c newvar @ [?ev] else hist meta st c v)" if "ok_var meta v" for v
      using p(4) [OF that] f(8) that by simp
    have "attr ?st2 c (oldvar @ MUTABLE) = Some (Obj a)" using p(3) f(7) assms(1) Suc.prems(3) by simp
    moreover have "cow_has_key meta c newvar ?st2" "c \<in> classes ?st2" using p(5) [OF assms(3)] f(4,8) assms(3) Suc.prems(4) p(6) by simp_all
    moreover have "length (hist meta ?st2 c oldvar) \<le> Suc i + n" using h [OF assms(2)] assms(1) Suc.prems(5) by simp
    ultimately obtain st' where r: "rename_loop n meta c a (Suc i) newvar ?st2 = Some (Inr st')" "hist_inv st'" "step_frame c ?st2 st'"
      "\<forall>v. ok_var meta v \<longrightarrow> hist meta st' c v = (if v = newvar then hist meta ?st2 c newvar @ drop (Suc i) (hist meta ?st2 c oldvar) else hist meta ?st2 c v)"
      using Suc.IH [OF p(1)] by blast
    have "rename_loop (Suc n) meta c a i newvar st = Some (Inr st')" using True old f(1,6) r(1) by (simp add: Let_def)
    moreover have "hist meta st' c v = (if v = newvar then hist meta st c newvar @ drop i (hist meta st c oldvar) else hist meta st c v)" if "ok_var meta v" for v
      using r(4) that h assms True by (simp add: Cons_nth_drop_Suc)
    ultimately show ?thesis using r(2) step_frame_trans [OF step_frame_trans [OF f(3) p(2)] r(3)] by blast
  qed
qed

text \<open>Renaming moves the whole history along: for two different variables \<^verbatim>\<open>rename_variable_hist\<close> ends after one round per event of the old variable and appends these events,
  in order, to the history of the new one; all other histories of the object stay, and so do those of every object that does not inherit from it. A variable without
  history changes nothing.\<close>

theorem rename_exact:
  assumes "hist_inv st" and "c \<in> classes st" and "oldvar \<noteq> newvar" and "ok_var meta oldvar" and "ok_var meta newvar"
    and "length (hist meta st c oldvar) \<le> n"
  shows "\<exists>st'. rename_variable_hist n meta True c oldvar newvar st = Some (Inr st') \<and> hist_inv st' \<and>
    (\<forall>v. ok_var meta v \<longrightarrow> hist meta st' c v = (if v = newvar then hist meta st c newvar @ hist meta st c oldvar else hist meta st c v)) \<and>
    (\<forall>p v. p \<in> classes st \<and> c \<notin> set (mro_of st p) \<longrightarrow> hist meta st' p v = hist meta st p v)"
proof (cases "cow_has_key meta c oldvar st")
  case False
  with no_key_no_hist [OF assms(1,4)] assms(1) show ?thesis by (auto simp: rename_variable_hist_def)
next
  case True
  define st1 where "st1 = (if cow_has_key meta c newvar st then st else set_list c newvar [] st)"
  note e = ensure_list [OF assms(1,5,2) st1_def]
  from fetch_list_ok [OF e(1) assms(4) e(3) e(6) [OF assms(4) True]] obtain a st2 where
    f: "fetch_list meta c oldvar st1 = Inr (a, st2)" "hist_inv st2" "step_frame c st1 st2" "c \<in> classes st2" "attr st2 c (oldvar @ MUTABLE) = Some (Obj a)"
      "\<forall>v. ok_var meta v \<longrightarrow> hist meta st2 c v = hist meta st1 c v \<and> cow_has_key meta c v st2 = cow_has_key meta c v st1" by blast
  have h: "hist meta st2 c v = hist meta st c v" if "ok_var meta v" for v using f(6) e(5) that by simp
  have "cow_has_key meta c newvar st2" "length (hist meta st2 c oldvar) \<le> 0 + n" using f(6) e(4) assms(4-6) h by simp_all
  from rename_loop_ok [OF assms(3-5) f(2,4,5) this] obtain st' where
    r: "rename_loop n meta c a 0 newvar st2 = Some (Inr st')" "hist_inv st'" "step_frame c st2 st'"
      "\<forall>v. ok_var meta v \<longrightarrow> hist meta st' c v = (if v = newvar then hist meta st2 c newvar @ hist meta st2 c oldvar else hist meta st2 c v)" by auto
  have "rename_variable_hist n meta True c oldvar newvar st = Some (Inr st')"
    unfolding rename_variable_hist_def Let_def st1_def [symmetric] using True f(1) r(1) by simp
  moreover have "\<forall>v. ok_var meta v \<longrightarrow> hist meta st' c v = (if v = newvar then hist meta st c newvar @ hist meta st c oldvar else hist meta st c v)"
    using r(4) h assms(4,5) by simp
  moreover have "step_frame c st st'" by (rule step_frame_trans [OF step_frame_trans [OF e(2) f(3)] r(3)])
  ultimately show ?thesis using r(2) frame_hist [OF _ hist_invD(1) [OF assms(1)]] by meson
qed

theorem rename_exact_witness:
  "\<exists>st'. rename_variable_hist 3 (\<lambda>k. False) True 1 ''V'' ''W'' demo_hist = Some (Inr st') \<and> length (hist (\<lambda>k. False) st' 1 ''W'') = 3"
proof -
  let ?m = "\<lambda>k :: string. False"
  have w: "ok_var ?m ''W''" by code_simp
  have c: "length (hist ?m demo_hist 1 ''V'') = 3 \<and> hist ?m demo_hist 1 ''W'' = []" by code_simp
  then have "length (hist ?m demo_hist 1 ''V'') \<le> 3" by simp
  from rename_exact [OF demo_ok(2,4) _ demo_ok(1) w this] c w show ?thesis by auto
qed

text \<open>\<^verbatim>\<open>del_var_history\<close> with a file and a line deletes more than the events of that line: it keeps only the events that are in another file and on another line. Without file and line it
  deletes the whole history of the variable.\<close>

theorem del_var_history_exact:
  assumes "hist_inv st" and "c \<in> classes st" and "ok_var meta var" and "\<forall>ev \<in> set (hist meta st c var). has_key ev ''file'' \<and> has_key ev ''line''"
  shows "\<exists>st'. del_var_history meta c var f line st = Inr st' \<and> hist_inv st' \<and>
    (\<forall>v. ok_var meta v \<longrightarrow> hist meta st' c v =
       (if v \<noteq> var then hist meta st c v
        else if opt_truthy f \<and> opt_truthy line then filter (\<lambda>ev. map_of ev ''file'' \<noteq> f \<and> map_of ev ''line'' \<noteq> line) (hist meta st c var) else []))"
proof (cases "cow_has_key meta c var st")
  case False
  with no_key_no_hist [OF assms(1,3)] assms(1) show ?thesis by (auto simp: del_var_history_def)
next
  case True
  show ?thesis
  proof (cases "opt_truthy f \<and> opt_truthy line")
    case False
    with True set_list_ok(1,4) [OF assms(1,3,2), where xs = "[]"] show ?thesis by (auto simp: del_var_history_def)
  next
    case some: True
    then obtain f0 l0 where fl: "f = Some f0" "line = Some l0" by (auto simp: opt_truthy_iff)
    from fetch_list_ok [OF assms(1,3,2) True] obtain a st1 where
      k: "fetch_list meta c var st = Inr (a, st1)" "hist_inv st1" "c \<in> classes st1" "contents a st1 = hist meta st c var"
        "\<forall>v. ok_var meta v \<longrightarrow> hist meta st1 c v = hist meta st c v" by blast
    have "rfold (keep_event f0 l0) evs kept = Inr (kept @ filter (\<lambda>ev. map_of ev ''file'' \<noteq> f \<and> map_of ev ''line'' \<noteq> line) evs)"
      if "\<forall>ev \<in> set evs. has_key ev ''file'' \<and> has_key ev ''line''" for evs kept
      using that fl by (induction evs arbitrary: kept) (auto simp: keep_event_def has_key_def dict_lookup_def simp del: rbind_eq_Inr)
    from this [OF assms(4), of "[]"] have
      "rfold (keep_event f0 l0) (hist meta st c var) [] = Inr (filter (\<lambda>ev. map_of ev ''file'' \<noteq> f \<and> map_of ev ''line'' \<noteq> line) (hist meta st c var))" by simp
    then have "del_var_history meta c var f line st =
        Inr (set_list c var (filter (\<lambda>ev. map_of ev ''file'' \<noteq> f \<and> map_of ev ''line'' \<noteq> line) (hist meta st c var)) st1)"
      unfolding del_var_history_def using True some k(1,4) fl by simp
    with some set_list_ok(1,4) [OF k(2) assms(3) k(3)] k(5) show ?thesis by simp
  qed
qed

theorem del_var_history_exact_witness:
  "\<exists>st'. del_var_history (\<lambda>k. False) 1 ''V'' (Some ''a.conf'') (Some ''2'') demo_hist = Inr st' \<and> hist (\<lambda>k. False) st' 1 ''V'' = []"
proof -
  let ?m = "\<lambda>k :: string. False"
  have c: "(\<forall>ev \<in> set (hist ?m demo_hist 1 ''V''). has_key ev ''file'' \<and> has_key ev ''line'') \<and>
      filter (\<lambda>ev. map_of ev ''file'' \<noteq> Some ''a.conf'' \<and> map_of ev ''line'' \<noteq> Some ''2'') (hist ?m demo_hist 1 ''V'') = []" by code_simp
  from del_var_history_exact [OF demo_ok(2,4,1) conjunct1 [OF c], of "Some ''a.conf''" "Some ''2''"] c demo_ok(1) show ?thesis by auto
qed

end
