(* ===== verification/BB_DataStore.thy ===== *)
theory BB_DataStore
  imports BB_History
begin

text \<open>
  The data store, class \<^verbatim>\<open>DataSmart\<close> of \<^verbatim>\<open>lib/bb/data_smart.py\<close>: its state, how names and values are taken apart, the expansion of references and the
  lookup \<^verbatim>\<open>getVarFlag\<close> with overrides, appends, prepends, removes and the cache of expanded values. The methods that change a store are in \<open>BB_Data\<close>.

  What an inline Python expression does is a parameter: compiling it, the references its parser finds and its value. So is the number of nested lookups that fit
  into the recursion limit of the interpreter: a deeper lookup raises \<^verbatim>\<open>RecursionError\<close>.
\<close>

section \<open>State\<close>

text \<open>
  Values of flags: strings, numbers (and truth values), the lists of the flags \<^verbatim>\<open>_append\<close>, \<^verbatim>\<open>_prepend\<close> and \<^verbatim>\<open>_remove\<close>, and sets, which are mutable objects with an address.
\<close>

datatype dval = DStr string | DInt int | DOps "(dval \<times> string option) list" | DSet nat

record varparse =
  vp_varname :: "string option"
  vp_value :: "dval option"
  vp_references :: "string list"
  vp_execs :: "string list"
  vp_contains :: "(string, string list) dict"
  vp_removes :: "dval list option"

type_synonym flagdict = "(string, dval) dict"
type_synonym layer = "(string, flagdict) dict"

text \<open>
  \<open>ds_dict\<close> is the dictionary of the store itself, \<open>ds_data\<close> the dictionaries that are reached from it through the key \<^verbatim>\<open>_data\<close>; \<open>ds_sets\<close> has the contents of the sets.
  The attribute \<^verbatim>\<open>overridesset\<close> does not exist before the overrides are computed for the first time.
\<close>

record dsmart =
  ds_dict :: layer
  ds_data :: "layer list"
  ds_sets :: "(nat, string list) dict"
  ds_cache :: "(string, varparse) dict"
  ds_overridedata :: "(string, (string \<times> string) list) dict"
  ds_overrides :: "string list option"
  ds_overridesset :: "string list option"
  ds_overridevars :: "string list"
  ds_inoverride :: bool
  ds_tracking :: bool
  ds_varhistory :: nat
  ds_hist :: hist_state

text \<open>
  A method returns a value or raises an exception, both with the state it leaves; \<open>Loops\<close> is a loop that has not ended within the given number of rounds.
\<close>

datatype 'a dres = Ret 'a dsmart | Exc py_error dsmart | Loops

fun dbind :: "'a dres \<Rightarrow> ('a \<Rightarrow> dsmart \<Rightarrow> 'b dres) \<Rightarrow> 'b dres" where
  "dbind (Ret a st) f = f a st"
| "dbind (Exc e st) f = Exc e st"
| "dbind Loops f = Loops"

lemma dbind_Ret [simp]: "dbind m f = Ret b t \<longleftrightarrow> (\<exists>a st. m = Ret a st \<and> f a st = Ret b t)"
  by (cases m) simp_all

lemma dbind_assoc: "dbind (dbind m f) g = dbind m (\<lambda>a st. dbind (f a st) g)"
  by (cases m) simp_all

fun dlift :: "'a result \<Rightarrow> dsmart \<Rightarrow> 'a dres" where
  "dlift (Inl e) st = Exc e st"
| "dlift (Inr a) st = Ret a st"

lemma dlift_Ret [simp]: "dlift r st = Ret a t \<longleftrightarrow> r = Inr a \<and> t = st"
  by (cases r) auto

fun dfold :: "('a \<Rightarrow> 'b \<Rightarrow> dsmart \<Rightarrow> 'b dres) \<Rightarrow> 'a list \<Rightarrow> 'b \<Rightarrow> dsmart \<Rightarrow> 'b dres" where
  "dfold f [] b st = Ret b st"
| "dfold f (x # xs) b st = dbind (f x b st) (dfold f xs)"

text \<open>
  \<open>de_caller\<close>: where the method was called from; \<open>de_self\<close>: the same for calls that the data store makes itself; \<open>de_text\<close>: how values that are not strings are written to
  the history; \<open>de_rounds\<close>: the bound on loops; \<open>de_depth\<close>: how many lookups can be nested.
\<close>

record dsenv =
  de_meta :: "string \<Rightarrow> bool"
  de_caller :: frame
  de_self :: frame
  de_text :: "dval \<Rightarrow> string"
  de_compile :: "string \<Rightarrow> unit result"
  de_parse :: "string \<Rightarrow> (string list \<times> string list \<times> (string, string list) dict) result"
  de_eval :: "string \<Rightarrow> dsmart \<Rightarrow> string dres"
  de_rounds :: nat
  de_depth :: nat

definition DataSmart :: "hist_state \<Rightarrow> dsmart" where
  "DataSmart h =
     (let (vh, h1) = VariableHistory h
      in \<lparr>ds_dict = [], ds_data = [], ds_sets = [], ds_cache = [], ds_overridedata = [], ds_overrides = None, ds_overridesset = None,
          ds_overridevars = [''OVERRIDES'', ''FILE''], ds_inoverride = False, ds_tracking = False, ds_varhistory = vh, ds_hist = h1\<rparr>)"

definition enableTracking :: "dsmart \<Rightarrow> dsmart" where
  "enableTracking st = st\<lparr>ds_tracking := True\<rparr>"

definition disableTracking :: "dsmart \<Rightarrow> dsmart" where
  "disableTracking st = st\<lparr>ds_tracking := False\<rparr>"

section \<open>Names\<close>

text \<open>Flags with a meaning of their own, and the keywords at the end of a variable name.\<close>

definition content_flag :: string where "content_flag = ''_content''"
definition default_flag :: string where "default_flag = ''_defaultval''"
definition append_kw :: string where "append_kw = ''_append''"
definition prepend_kw :: string where "prepend_kw = ''_prepend''"
definition remove_kw :: string where "remove_kw = ''_remove''"

definition setvar_keyword :: "string list" where
  "setvar_keyword = [append_kw, prepend_kw, remove_kw]"

lemma flags_distinct [simp]:
  "content_flag \<noteq> default_flag" "content_flag \<noteq> append_kw" "content_flag \<noteq> prepend_kw" "content_flag \<noteq> remove_kw" "content_flag \<noteq> []"
  "default_flag \<noteq> content_flag" "append_kw \<noteq> content_flag" "prepend_kw \<noteq> content_flag" "remove_kw \<noteq> content_flag"
  "append_kw \<noteq> prepend_kw" "append_kw \<noteq> remove_kw" "prepend_kw \<noteq> append_kw" "prepend_kw \<noteq> remove_kw" "remove_kw \<noteq> append_kw" "remove_kw \<noteq> prepend_kw"
  "append_kw \<noteq> []" "prepend_kw \<noteq> []" "remove_kw \<noteq> []" "append_kw \<noteq> default_flag" "prepend_kw \<noteq> default_flag" "remove_kw \<noteq> default_flag"
  "default_flag \<noteq> append_kw" "default_flag \<noteq> prepend_kw" "default_flag \<noteq> remove_kw"
  by (simp_all add: content_flag_def default_flag_def append_kw_def prepend_kw_def remove_kw_def)

definition is_upper :: "char \<Rightarrow> bool" where
  "is_upper c = (let n = (of_char c :: nat) in 65 \<le> n \<and> n \<le> 90)"

definition newline :: char where
  "newline = CHR 0x0A"

text \<open>
  \<^verbatim>\<open>__setvar_regexp__\<close>: the shortest base that is followed by a keyword and, up to the end, by nothing or by an underscore and characters that are not capital letters. The end is also
  found in front of a final newline.
\<close>

definition keyword_rest :: "string \<Rightarrow> string option option" where
  "keyword_rest s =
     (case s of
        [] \<Rightarrow> Some None
      | c # cs \<Rightarrow> if c = CHR ''_'' \<and> list_all (\<lambda>x. \<not> is_upper x) cs then Some (Some cs)
                 else if s = [newline] then Some None else None)"

fun keyword_at :: "string list \<Rightarrow> string \<Rightarrow> (string \<times> string option) option" where
  "keyword_at [] s = None"
| "keyword_at (k # ks) s =
     (if startswith s k
      then (case keyword_rest (drop (length k) s) of Some add \<Rightarrow> Some (k, add) | None \<Rightarrow> keyword_at ks s)
      else keyword_at ks s)"

fun match_setvar_from :: "string \<Rightarrow> string \<Rightarrow> (string \<times> string \<times> string option) option" where
  "match_setvar_from base [] = None"
| "match_setvar_from base (c # cs) =
     (case keyword_at setvar_keyword (c # cs) of
        Some (k, add) \<Rightarrow> Some (base, k, add)
      | None \<Rightarrow> if c = newline then None else match_setvar_from (base @ [c]) cs)"

definition match_setvar :: "string \<Rightarrow> (string \<times> string \<times> string option) option" where
  "match_setvar var = match_setvar_from [] var"

text \<open>\<^verbatim>\<open>__override_regexp__.match\<close> and \<^verbatim>\<open>str.islower\<close>.\<close>

definition override_match :: "string \<Rightarrow> bool" where
  "override_match s = (case s of [] \<Rightarrow> False | c # _ \<Rightarrow> let n = (of_char c :: nat) in (97 \<le> n \<and> n \<le> 122) \<or> (48 \<le> n \<and> n \<le> 57))"

definition lower_char :: "char \<Rightarrow> bool" where
  "lower_char c = (let n = (of_char c :: nat) in (97 \<le> n \<and> n \<le> 122) \<or> n = 170 \<or> n = 181 \<or> n = 186 \<or> (223 \<le> n \<and> n \<le> 255 \<and> n \<noteq> 247))"

definition upper_char :: "char \<Rightarrow> bool" where
  "upper_char c = (let n = (of_char c :: nat) in (65 \<le> n \<and> n \<le> 90) \<or> (192 \<le> n \<and> n \<le> 222 \<and> n \<noteq> 215))"

definition islower :: "string \<Rightarrow> bool" where
  "islower s \<longleftrightarrow> list_ex lower_char s \<and> \<not> list_ex upper_char s"

text \<open>\<^verbatim>\<open>s[:s.rfind('_')]\<close>; without an underscore \<^verbatim>\<open>rfind\<close> is \<^verbatim>\<open>-1\<close>, which cuts off the last character.\<close>

definition before_last :: "string \<Rightarrow> string" where
  "before_last s = (case rsplit1 (CHR ''_'') s of [a, b] \<Rightarrow> a | _ \<Rightarrow> butlast s)"

text \<open>\<^verbatim>\<open>var[s.rfind('_')+1:]\<close>\<close>

definition after_last :: "string \<Rightarrow> string \<Rightarrow> string" where
  "after_last var s = (case rsplit1 (CHR ''_'') s of [a, b] \<Rightarrow> drop (length a + 1) var | _ \<Rightarrow> var)"

section \<open>References in strings\<close>

text \<open>\<^verbatim>\<open>__expand_var_regexp__\<close> and \<^verbatim>\<open>__expand_python_regexp__\<close> at the beginning of a string: the text between the braces and what follows them.\<close>

definition is_varchar :: "char \<Rightarrow> bool" where
  "is_varchar c \<longleftrightarrow> is_ascii_letter c \<or> is_digit c \<or> c \<in> set ''-_+./~''"

definition match_varref :: "string \<Rightarrow> (string \<times> string) option" where
  "match_varref s =
     (if startswith s ''${''
      then (let name = takeWhile is_varchar (drop 2 s); rest = dropWhile is_varchar (drop 2 s)
            in if name \<noteq> [] \<and> startswith rest ''}'' then Some (name, tl rest) else None)
      else None)"

definition match_pyref :: "string \<Rightarrow> (string \<times> string) option" where
  "match_pyref s =
     (if startswith s ''${@''
      then (case drop 3 s of
              [] \<Rightarrow> None
            | c # cs \<Rightarrow> (let code = c # takeWhile (\<lambda>x. x \<noteq> CHR ''}'') cs; rest = dropWhile (\<lambda>x. x \<noteq> CHR ''}'') cs
                        in if newline \<notin> set code \<and> rest \<noteq> [] then Some (code, tl rest) else None))
      else None)"

datatype piece = Lit char | Ref string

text \<open>The matches of a regular expression from left to right, and the characters between them.\<close>

function pieces :: "(string \<Rightarrow> (string \<times> string) option) \<Rightarrow> string \<Rightarrow> piece list" where
  "pieces m [] = []"
| "pieces m (c # cs) =
     (case m (c # cs) of
        Some (k, rest) \<Rightarrow> if length rest < length (c # cs) then Ref k # pieces m rest else Lit c # pieces m cs
      | None \<Rightarrow> Lit c # pieces m cs)"
  by pat_completeness auto
termination
  by (relation "measure (\<lambda>(_, s). length s)") auto

text \<open>
  \<^verbatim>\<open>regexp.sub(f, s)\<close>: the replacements are computed from left to right, a replacement that is not a string makes the call fail at its end. A replacement \<open>None\<close> is an exception that the
  caller swallows: the call ends without a result.
\<close>

type_synonym replacer = "string \<Rightarrow> varparse \<Rightarrow> dsmart \<Rightarrow> (dval option \<times> varparse) dres"

fun sub_all :: "replacer \<Rightarrow> piece list \<Rightarrow> string option \<Rightarrow> varparse \<Rightarrow> dsmart \<Rightarrow> (string option \<times> varparse) dres" where
  "sub_all f [] acc vp st = (case acc of None \<Rightarrow> Exc TypeError st | Some s \<Rightarrow> Ret (Some s, vp) st)"
| "sub_all f (Lit c # ps) acc vp st = sub_all f ps (map_option (\<lambda>s. s @ [c]) acc) vp st"
| "sub_all f (Ref k # ps) acc vp st =
     dbind (f k vp st) (\<lambda>(v, vp1) st1.
       case v of
         None \<Rightarrow> Ret (None, vp1) st1
       | Some (DStr t) \<Rightarrow> sub_all f ps (map_option (\<lambda>s. s @ t) acc) vp1 st1
       | Some _ \<Rightarrow> sub_all f ps None vp1 st1)"

section \<open>Expansion\<close>

record getopts =
  go_expand :: bool
  go_noweakdefault :: bool
  go_parsing :: bool
  go_retparser :: bool

definition expanded :: getopts where
  "expanded = \<lparr>go_expand = True, go_noweakdefault = False, go_parsing = False, go_retparser = False\<rparr>"

definition unexpanded :: getopts where
  "unexpanded = expanded\<lparr>go_expand := False\<rparr>"

definition with_parser :: getopts where
  "with_parser = unexpanded\<lparr>go_retparser := True\<rparr>"

text \<open>The lookup that the expansion calls for a variable and a flag.\<close>

type_synonym lookup = "string \<Rightarrow> string \<Rightarrow> getopts \<Rightarrow> dsmart \<Rightarrow> (dval option \<times> varparse option) dres"

definition fresh_parse :: "string option \<Rightarrow> dval option \<Rightarrow> varparse" where
  "fresh_parse varname v = \<lparr>vp_varname = varname, vp_value = v, vp_references = [], vp_execs = [], vp_contains = [], vp_removes = None\<rparr>"

definition var_sub :: "lookup \<Rightarrow> string option \<Rightarrow> replacer" where
  "var_sub get varname key vp st =
     (if opt_truthy varname \<and> truthy key \<and> varname = Some key
      then Exc (PyException (''variable '' @ key @ '' references itself!'')) st
      else dbind (get key content_flag expanded st) (\<lambda>(v, _) st1.
           let vp1 = vp\<lparr>vp_references := add_new key (vp_references vp)\<rparr>
           in Ret (case v of Some w \<Rightarrow> (Some w, vp1) | None \<Rightarrow> (Some (DStr (''${'' @ key @ ''}'')), vp1)) st1))"

definition eol_message :: string where
  "eol_message = ''EOL while scanning string literal''"

text \<open>The exception that \<^verbatim>\<open>expandWithRefs\<close> swallows.\<close>

fun swallow_eol :: "varparse \<Rightarrow> 'a dres \<Rightarrow> ('a \<Rightarrow> dsmart \<Rightarrow> (dval option \<times> varparse) dres) \<Rightarrow> (dval option \<times> varparse) dres" where
  "swallow_eol vp (Ret a st) f = f a st"
| "swallow_eol vp (Exc e st) f = (if e = SyntaxError eol_message then Ret (None, vp) st else Exc e st)"
| "swallow_eol vp Loops f = Loops"

definition merge_contains :: "(string, string list) dict \<Rightarrow> (string, string list) dict \<Rightarrow> (string, string list) dict" where
  "merge_contains new old = fold (\<lambda>(k, xs) d. dict_set k (fold add_new xs (dd_get d k)) d) new old"

definition python_sub :: "dsenv \<Rightarrow> lookup \<Rightarrow> string option \<Rightarrow> replacer" where
  "python_sub env get varname code vp st =
     swallow_eol vp (dlift (de_compile env (strip_ws code)) st) (\<lambda>_ st1.
     swallow_eol vp (dlift (de_parse env code) st1) (\<lambda>(refs, execs, contains) st2.
     swallow_eol vp (if opt_truthy varname then get (the varname) ''vardeps'' expanded st2 else Ret (None, None) st2) (\<lambda>_ st3.
     let vp1 = vp\<lparr>vp_references := fold add_new refs (vp_references vp), vp_execs := fold add_new execs (vp_execs vp),
                  vp_contains := merge_contains contains (vp_contains vp)\<rparr>
     in swallow_eol vp1 (de_eval env code st3) (\<lambda>v st4. Ret (Some (DStr v), vp1) st4))))"

definition wrap_error :: "string option \<Rightarrow> string \<Rightarrow> py_error \<Rightarrow> py_error" where
  "wrap_error varname s e =
     (case e of
        ExpansionError _ _ _ \<Rightarrow> e
      | SkipRecipe _ \<Rightarrow> e
      | FatalExit _ \<Rightarrow> e
      | _ \<Rightarrow> ExpansionError varname s e)"

fun wrapped :: "string option \<Rightarrow> string \<Rightarrow> 'a dres \<Rightarrow> 'a dres" where
  "wrapped varname s (Exc e st) = Exc (wrap_error varname s e) st"
| "wrapped varname s (Ret a st) = Ret a st"
| "wrapped varname s Loops = Loops"

definition expand_round :: "dsenv \<Rightarrow> lookup \<Rightarrow> string option \<Rightarrow> string \<Rightarrow> varparse \<Rightarrow> dsmart \<Rightarrow> (string \<times> varparse) dres" where
  "expand_round env get varname s vp st =
     dbind (wrapped varname s (sub_all (var_sub get varname) (pieces match_varref s) (Some []) vp st)) (\<lambda>(r1, vp1) st1.
     let s1 = (case r1 of Some t \<Rightarrow> t | None \<Rightarrow> s)
     in dbind (wrapped varname s1 (sub_all (python_sub env get varname) (pieces match_pyref s1) (Some []) vp1 st1)) (\<lambda>(r2, vp2) st2.
        Ret (case r2 of Some t \<Rightarrow> t | None \<Rightarrow> s1, vp2) st2))"

fun expand_loop :: "nat \<Rightarrow> dsenv \<Rightarrow> lookup \<Rightarrow> string option \<Rightarrow> string \<Rightarrow> varparse \<Rightarrow> dsmart \<Rightarrow> (string \<times> varparse) dres" where
  "expand_loop 0 env get varname s vp st = (if sublist ''${'' s then Loops else Ret (s, vp) st)"
| "expand_loop (Suc n) env get varname s vp st =
     (if \<not> sublist ''${'' s then Ret (s, vp) st
      else dbind (expand_round env get varname s vp st) (\<lambda>(s1, vp1) st1.
           if s1 = s then Ret (s1, vp1) st1 else expand_loop n env get varname s1 vp1 st1))"

definition expandWithRefs :: "dsenv \<Rightarrow> lookup \<Rightarrow> dval option \<Rightarrow> string option \<Rightarrow> dsmart \<Rightarrow> varparse dres" where
  "expandWithRefs env get v varname st =
     (case v of
        Some (DStr s) \<Rightarrow> dbind (expand_loop (de_rounds env) env get varname s (fresh_parse varname None) st) (\<lambda>(s1, vp) st1.
                         Ret (vp\<lparr>vp_value := Some (DStr s1)\<rparr>) st1)
      | _ \<Rightarrow> Ret (fresh_parse varname v) st)"

definition expand :: "dsenv \<Rightarrow> lookup \<Rightarrow> dval option \<Rightarrow> string option \<Rightarrow> dsmart \<Rightarrow> dval option dres" where
  "expand env get v varname st = dbind (expandWithRefs env get v varname st) (\<lambda>vp st1. Ret (vp_value vp) st1)"

section \<open>Lookup\<close>

fun find_layer :: "layer list \<Rightarrow> string \<Rightarrow> flagdict option" where
  "find_layer [] var = None"
| "find_layer (l # ls) var = (case map_of l var of Some fd \<Rightarrow> Some fd | None \<Rightarrow> find_layer ls var)"

definition findVar :: "string \<Rightarrow> dsmart \<Rightarrow> flagdict option \<times> (string \<times> string) list option" where
  "findVar var st = (find_layer (ds_dict st # ds_data st) var, map_of (ds_overridedata st) var)"

definition set_contents :: "nat \<Rightarrow> dsmart \<Rightarrow> string list" where
  "set_contents a st = (case map_of (ds_sets st) a of None \<Rightarrow> [] | Some xs \<Rightarrow> xs)"

definition new_set :: "string list \<Rightarrow> dsmart \<Rightarrow> nat \<times> dsmart" where
  "new_set xs st = (let a = Suc (fold max (dict_keys (ds_sets st)) 0) in (a, st\<lparr>ds_sets := (a, xs) # ds_sets st\<rparr>))"

fun dval_truthy :: "dsmart \<Rightarrow> dval option \<Rightarrow> bool" where
  "dval_truthy st None = False"
| "dval_truthy st (Some (DStr s)) = (s \<noteq> [])"
| "dval_truthy st (Some (DInt i)) = (i \<noteq> 0)"
| "dval_truthy st (Some (DOps xs)) = (xs \<noteq> [])"
| "dval_truthy st (Some (DSet a)) = (set_contents a st \<noteq> [])"

text \<open>\<^verbatim>\<open>copy.copy(v)\<close>\<close>

fun copy_dval :: "dval \<Rightarrow> dsmart \<Rightarrow> dval \<times> dsmart" where
  "copy_dval (DSet a) st = (let (b, st1) = new_set (set_contents a st) st in (DSet b, st1))"
| "copy_dval v st = (v, st)"

text \<open>\<^verbatim>\<open>(v or "").split(":") or []\<close>\<close>

definition split_overrides :: "dsmart \<Rightarrow> dval option \<Rightarrow> string list result" where
  "split_overrides st v =
     (if dval_truthy st v then (case v of Some (DStr s) \<Rightarrow> Inr (split_on (CHR '':'') s) | _ \<Rightarrow> Inl AttributeError) else Inr [[]])"

definition put_overrides :: "string list \<Rightarrow> dsmart \<Rightarrow> dsmart" where
  "put_overrides ov st = st\<lparr>ds_overrides := Some ov, ds_overridesset := Some (remdups ov)\<rparr>"

fun need_loop :: "nat \<Rightarrow> lookup \<Rightarrow> dsmart \<Rightarrow> unit dres" where
  "need_loop 0 get st = Exc (BBHandledException ''Overrides could not be expanded into a stable state after 5 iterations'') st"
| "need_loop (Suc n) get st =
     dbind (get ''OVERRIDES'' content_flag expanded (put_overrides [] (st\<lparr>ds_inoverride := True\<rparr>))) (\<lambda>(v, _) st1.
     dbind (dlift (split_overrides st1 v) st1) (\<lambda>ov st2.
     dbind (get ''OVERRIDES'' content_flag expanded ((put_overrides ov st2)\<lparr>ds_inoverride := False, ds_cache := []\<rparr>)) (\<lambda>(w, _) st3.
     dbind (dlift (split_overrides st3 w) st3) (\<lambda>newoverrides st4.
     if ds_overrides st4 = Some newoverrides then Ret () st4 else need_loop n get (put_overrides newoverrides st4)))))"

definition need_overrides :: "lookup \<Rightarrow> dsmart \<Rightarrow> unit dres" where
  "need_overrides get st =
     (if ds_overrides st \<noteq> None then Ret () st
      else if ds_inoverride st then Ret () st
      else need_loop 5 get st)"

text \<open>\<^verbatim>\<open>o in self.overridesset\<close>, or all its parts are.\<close>

definition is_active :: "string list \<Rightarrow> string \<Rightarrow> bool" where
  "is_active oset ov \<longleftrightarrow> ov \<in> set oset \<or> (CHR ''_'' \<in> set ov \<and> set (split_on (CHR ''_'') ov) \<subseteq> set oset)"

definition active_overrides :: "string list \<Rightarrow> (string \<times> string) list \<Rightarrow> (string, string) dict" where
  "active_overrides oset od = fold (\<lambda>(r, ov) active. if is_active oset ov then dict_set ov r active else active) od []"

text \<open>
  The loop that finds the active override with the highest priority. A round goes through the overrides in the order of their priority, lowest first; an active override that ends in
  the one at hand loses this ending, one that equals it is the best so far. The state is the remaining active overrides, the best so far and whether an ending was cut off.
\<close>

type_synonym match_state = "(string, string) dict \<times> string option \<times> bool"

definition match_step :: "string \<Rightarrow> string \<Rightarrow> match_state \<Rightarrow> match_state" where
  "match_step ov a ms =
     (case ms of (active, mtch, md) \<Rightarrow>
        (case map_of active a of
           None \<Rightarrow> ms
         | Some t \<Rightarrow>
             if endswith a (CHR ''_'' # ov)
             then (dict_set (str_replace (CHR ''_'' # ov) [] a) t (AList.delete a active), mtch, True)
             else if a = ov then (AList.delete a active, Some t, md)
             else ms))"

definition match_override :: "string \<Rightarrow> match_state \<Rightarrow> match_state" where
  "match_override ov ms = fold (match_step ov) (dict_keys (fst ms)) ms"

definition match_round :: "string list \<Rightarrow> (string, string) dict \<Rightarrow> string option \<Rightarrow> match_state" where
  "match_round ovs active mtch = fold match_override ovs (active, mtch, False)"

text \<open>The keys together; every ending that is cut off makes this smaller.\<close>

definition key_size :: "(string, string) dict \<Rightarrow> nat" where
  "key_size active = sum_list (map length (dict_keys active))"

text \<open>\<^verbatim>\<open>while mod\<close>; that the keys get shorter as long as the loop goes on is shown below.\<close>

function match_loop :: "string list \<Rightarrow> (string, string) dict \<Rightarrow> string option \<Rightarrow> string option" where
  "match_loop ovs active mtch =
     (case match_round ovs active mtch of
        (active1, mtch1, md) \<Rightarrow> if md then match_loop ovs active1 mtch1 else mtch1)"
  by pat_completeness auto

declare str_replace_ne.simps [simp del]

lemma str_replace_ne_shrinks: "length (str_replace_ne old [] s) \<le> length s \<and> (suffix old s \<and> old \<noteq> [] \<longrightarrow> length (str_replace_ne old [] s) < length s)"
proof (induction old "[] :: string" s rule: str_replace_ne.induct)
  case (1 old s)
  show ?case
  proof (cases "s = [] \<or> old = []")
    case True
    then show ?thesis by (subst str_replace_ne.simps) (auto simp: suffix_def)
  next
    case ne: False
    show ?thesis
    proof (cases "startswith s old")
      case True
      with ne 1(1) have "length (str_replace_ne old [] (drop (length old) s)) \<le> length s - length old" by simp
      moreover have "0 < length old" "length old \<le> length s" using ne True prefix_length_le by auto
      ultimately have "length (str_replace_ne old [] (drop (length old) s)) < length s" by linarith
      then show ?thesis using ne True by (subst (1 2) str_replace_ne.simps) simp
    next
      case False
      obtain c cs where s: "s = c # cs" using ne by (cases s) auto
      have "suffix old s \<Longrightarrow> suffix old cs" using False s by (auto simp: suffix_Cons)
      with ne False 1(2) s show ?thesis by (subst (1 2) str_replace_ne.simps) auto
    qed
  qed
qed

lemma str_replace_shrinks: "suffix (c # ov) a \<Longrightarrow> length (str_replace (c # ov) [] a) < length a"
  using str_replace_ne_shrinks [of "c # ov" a] by (simp add: str_replace_def)

lemma key_size_Cons: "key_size (p # d) = length (fst p) + key_size d"
  by (simp add: key_size_def)

lemma key_size_set: "key_size (dict_set k v d) \<le> key_size d + length k"
  by (induction d) (auto simp: key_size_def)

lemma key_size_delete_le: "key_size (AList.delete a d) \<le> key_size d"
  by (induction d) (auto simp: key_size_def)

lemma key_size_delete: "map_of d a = Some t \<Longrightarrow> key_size (AList.delete a d) + length a \<le> key_size d"
proof (induction d)
  case (Cons p d)
  then show ?case using key_size_delete_le [of a d] by (cases "fst p = a") (auto simp: key_size_Cons split: if_splits)
qed simp

definition match_shrinks :: "match_state \<Rightarrow> match_state \<Rightarrow> bool" where
  "match_shrinks ms ms' \<longleftrightarrow> key_size (fst ms') \<le> key_size (fst ms) \<and> (snd (snd ms') \<longrightarrow> snd (snd ms) \<or> key_size (fst ms') < key_size (fst ms))"

lemma match_shrinks_refl [simp]: "match_shrinks ms ms"
  by (simp add: match_shrinks_def)

lemma match_shrinks_trans: "match_shrinks a b \<Longrightarrow> match_shrinks b c \<Longrightarrow> match_shrinks a c"
  unfolding match_shrinks_def by linarith

lemma match_shrinks_fold: "(\<And>x ms. match_shrinks ms (f x ms)) \<Longrightarrow> match_shrinks ms (fold f xs ms)"
proof (induction xs arbitrary: ms)
  case (Cons x xs)
  have "match_shrinks ms (f x ms)" by (rule Cons.prems)
  moreover have "match_shrinks (f x ms) (fold f xs (f x ms))" by (rule Cons.IH [OF Cons.prems])
  ultimately show ?case by (simp add: match_shrinks_trans)
qed simp

lemma match_step_shrinks: "match_shrinks ms (match_step ov a ms)"
proof -
  obtain active mtch md where ms: "ms = (active, mtch, md)" by (cases ms)
  show ?thesis
  proof (cases "map_of active a")
    case (Some t)
    note del = key_size_delete [OF Some]
    have "suffix (CHR ''_'' # ov) a \<Longrightarrow>
        key_size (dict_set (str_replace (CHR ''_'' # ov) [] a) t (AList.delete a active)) < key_size active"
      using del str_replace_shrinks [of "CHR ''_''" ov a]
        key_size_set [of "str_replace (CHR ''_'' # ov) [] a" t "AList.delete a active"] by linarith
    then show ?thesis using Some del by (auto simp: ms match_step_def match_shrinks_def)
  qed (simp add: ms match_step_def)
qed

lemma match_override_shrinks: "match_shrinks ms (match_override ov ms)"
  unfolding match_override_def by (rule match_shrinks_fold) (rule match_step_shrinks)

lemma match_round_shrinks: "match_shrinks (active, mtch, False) (match_round ovs active mtch)"
  unfolding match_round_def by (rule match_shrinks_fold) (rule match_override_shrinks)

lemma match_round_dec: "match_round ovs active mtch = (active1, mtch1, True) \<Longrightarrow> key_size active1 < key_size active"
  using match_round_shrinks [of active mtch ovs] by (simp add: match_shrinks_def)

termination match_loop
  by (relation "measure (\<lambda>(_, active, _). key_size active)") (auto dest: match_round_dec [OF sym])

declare match_loop.simps [simp del]

section \<open>getVarFlag\<close>

text \<open>\<^verbatim>\<open>for (r, o) in xs\<close> over the value of a flag.\<close>

fun ops_of :: "dsmart \<Rightarrow> dval \<Rightarrow> (dval \<times> string option) list result" where
  "ops_of st (DOps xs) = Inr xs"
| "ops_of st (DInt _) = Inl TypeError"
| "ops_of st (DStr s) = (if s = [] then Inr [] else Inl (ValueError ''unpack''))"
| "ops_of st (DSet a) =
     rmap (\<lambda>w. case w of [c, d] \<Rightarrow> Inr (DStr [c], Some [d]) | _ \<Rightarrow> Inl (ValueError ''unpack'')) (set_contents a st)"

definition op_matches :: "string list option \<Rightarrow> string option \<Rightarrow> bool result" where
  "op_matches ovs ov =
     (if opt_truthy ov
      then (case ovs of None \<Rightarrow> Inl TypeError | Some os \<Rightarrow> Inr (set (split_on (CHR ''_'') (the ov)) \<subseteq> set os))
      else Inr True)"

fun py_add :: "dval \<Rightarrow> dval \<Rightarrow> dval result" where
  "py_add (DStr a) (DStr b) = Inr (DStr (a @ b))"
| "py_add (DInt a) (DInt b) = Inr (DInt (a + b))"
| "py_add (DOps a) (DOps b) = Inr (DOps (a @ b))"
| "py_add _ _ = Inl TypeError"

text \<open>The loops over \<^verbatim>\<open>_append\<close> and \<^verbatim>\<open>_prepend\<close>; \<open>comb\<close> is \<^verbatim>\<open>value + r\<close> or \<^verbatim>\<open>r + value\<close>.\<close>

definition apply_ops :: "(dval \<Rightarrow> dval \<Rightarrow> dval result) \<Rightarrow> string list option \<Rightarrow> (dval \<times> string option) list \<Rightarrow> dval \<Rightarrow> dval result" where
  "apply_ops comb ovs xs v = rfold (\<lambda>(r, ov) w. rbind (op_matches ovs ov) (\<lambda>m. if m then comb r w else Inr w)) xs v"

definition flag_ops :: "lookup \<Rightarrow> (dval \<Rightarrow> dval \<Rightarrow> dval result) \<Rightarrow> dval \<Rightarrow> dval option \<Rightarrow> dsmart \<Rightarrow> dval option dres" where
  "flag_ops get comb ops v st =
     (let w = (if dval_truthy st v then the v else DStr [])
      in dbind (need_overrides get st) (\<lambda>_ st1.
         dbind (dlift (rbind (ops_of st1 ops) (\<lambda>xs. apply_ops comb (ds_overrides st1) xs w)) st1) (\<lambda>w1 st2. Ret (Some w1) st2)))"

text \<open>The loop over \<^verbatim>\<open>_remove\<close>; only hashable values go into a set.\<close>

definition add_remove :: "dval \<Rightarrow> dval list \<Rightarrow> dval list result" where
  "add_remove r removes = (case r of DOps _ \<Rightarrow> Inl TypeError | DSet _ \<Rightarrow> Inl TypeError | _ \<Rightarrow> Inr (add_new r removes))"

definition collect_removes :: "lookup \<Rightarrow> dval \<Rightarrow> dval list \<Rightarrow> dsmart \<Rightarrow> dval list dres" where
  "collect_removes get ops removes st =
     dbind (need_overrides get st) (\<lambda>_ st1.
     dlift (rbind (ops_of st1 ops) (\<lambda>xs.
       rfold (\<lambda>(r, ov) rs. rbind (op_matches (ds_overrides st1) ov) (\<lambda>m. if m then add_remove r rs else Inr rs)) xs removes)) st1)"

text \<open>\<^verbatim>\<open>__whitespace_split__.split(s)\<close>: the words and the white space between them, every white space character alone.\<close>

fun ws_tokens :: "string \<Rightarrow> string \<Rightarrow> string list" where
  "ws_tokens w [] = [w]"
| "ws_tokens w (c # cs) = (if is_space c then w # [c] # ws_tokens [] cs else ws_tokens (w @ [c]) cs)"

definition expand_removes :: "dsenv \<Rightarrow> lookup \<Rightarrow> dval list \<Rightarrow> dsmart \<Rightarrow> (dval \<times> string list) list dres" where
  "expand_removes env get removes st =
     dfold (\<lambda>r acc st1. dbind (expand env get (Some r) None st1) (\<lambda>v st2.
       case v of Some (DStr s) \<Rightarrow> Ret (acc @ [(r, split_ws s)]) st2 | _ \<Rightarrow> Exc AttributeError st2)) removes [] st"

definition remove_tokens :: "(dval \<times> string list) list \<Rightarrow> string \<Rightarrow> dval list \<times> string" where
  "remove_tokens ers s =
     fold (\<lambda>v (rs, val). let hit = map fst (filter (\<lambda>er. v \<in> set (snd er)) ers)
                         in if hit \<noteq> [] then (fold add_new hit rs, val) else (rs, val @ v)) (ws_tokens [] s) ([], [])"

definition override_value ::
    "lookup \<Rightarrow> (string \<times> string) list \<Rightarrow> dsmart \<Rightarrow> (dval option \<times> dval list) dres" where
  "override_value get od st =
     dbind (need_overrides get st) (\<lambda>_ st1.
     dbind (if od = [] then Ret [] st1 else
            case ds_overridesset st1 of None \<Rightarrow> Exc AttributeError st1 | Some oset \<Rightarrow> Ret (active_overrides oset od) st1) (\<lambda>active st2.
     case ds_overrides st2 of
       None \<Rightarrow> Exc TypeError st2
     | Some ovs \<Rightarrow>
         (case match_loop ovs active None of
            Some m \<Rightarrow> if m = [] then Ret (None, []) st2
                      else dbind (get m content_flag with_parser st2) (\<lambda>(v, p) st3.
                           Ret (v, case p of None \<Rightarrow> [] | Some vp \<Rightarrow> (case vp_removes vp of None \<Rightarrow> [] | Some rs \<Rightarrow> rs)) st3)
          | None \<Rightarrow> Ret (None, []) st2)))"

definition local_value :: "string \<Rightarrow> getopts \<Rightarrow> flagdict option \<Rightarrow> dsmart \<Rightarrow> dval option \<times> dsmart" where
  "local_value flag opts lv st =
     (case lv of
        None \<Rightarrow> (None, st)
      | Some fd \<Rightarrow>
          (case map_of fd flag of
             Some v \<Rightarrow> (let (w, st1) = copy_dval v st in (Some w, st1))
           | None \<Rightarrow>
               if flag = content_flag \<and> \<not> go_noweakdefault opts
               then (case map_of fd default_flag of Some v \<Rightarrow> (let (w, st1) = copy_dval v st in (Some w, st1)) | None \<Rightarrow> (None, st))
               else (None, st)))"

definition cachename :: "string \<Rightarrow> string \<Rightarrow> string" where
  "cachename var flag = (if flag = content_flag then var else var @ ''['' @ flag @ '']'')"

definition local_ops :: "string \<Rightarrow> string \<Rightarrow> getopts \<Rightarrow> flagdict option \<Rightarrow> dval option" where
  "local_ops kw flag opts lv =
     (if flag = content_flag \<and> \<not> go_parsing opts then (case lv of None \<Rightarrow> None | Some fd \<Rightarrow> map_of fd kw) else None)"

text \<open>The part of the method that applies the removes to the expanded value.\<close>

definition apply_removes ::
    "dsenv \<Rightarrow> lookup \<Rightarrow> dval list \<Rightarrow> varparse \<Rightarrow> dsmart \<Rightarrow> varparse dres" where
  "apply_removes env get removes vp st =
     dbind (expand_removes env get removes st) (\<lambda>ers st1.
     case vp_value vp of
       Some (DStr s) \<Rightarrow> (let (rs, val) = remove_tokens ers s in Ret (vp\<lparr>vp_removes := Some rs, vp_value := Some (DStr val)\<rparr>) st1)
     | _ \<Rightarrow> Exc TypeError st1)"

definition getVarFlag_body :: "dsenv \<Rightarrow> lookup \<Rightarrow> lookup" where
  "getVarFlag_body env get var flag opts st =
     (if flag \<noteq> content_flag \<and> \<not> truthy flag then Ret (None, None) st
      else let name = cachename var flag
      in if go_expand opts \<and> has_key (ds_cache st) name
      then Ret (case map_of (ds_cache st) name of Some vp \<Rightarrow> (vp_value vp, None) | None \<Rightarrow> (None, None)) st
      else let (lv, od) = findVar var st
      in dbind (if flag = content_flag \<and> od \<noteq> None \<and> \<not> go_parsing opts then override_value get (the od) st else Ret (None, []) st) (\<lambda>(v0, removes) st1.
         let (v1, st2) = (if v0 = None then local_value flag opts lv st1 else (v0, st1))
         in dbind (case local_ops append_kw flag opts lv of None \<Rightarrow> Ret v1 st2 | Some ops \<Rightarrow> flag_ops get (\<lambda>r w. py_add w r) ops v1 st2) (\<lambda>v2 st3.
            dbind (case local_ops prepend_kw flag opts lv of None \<Rightarrow> Ret v2 st3 | Some ops \<Rightarrow> flag_ops get py_add ops v2 st3) (\<lambda>v3 st4.
            dbind (if go_expand opts \<or> go_retparser opts
                   then dbind (expandWithRefs env get v3 (Some name) st4) (\<lambda>vp st. Ret (Some vp) st) else Ret None st4) (\<lambda>parser st5.
            let v4 = (if go_expand opts then (case parser of Some vp \<Rightarrow> vp_value vp | None \<Rightarrow> v3) else v3)
            in dbind (case local_ops remove_kw flag opts lv of
                        Some ops \<Rightarrow> if dval_truthy st5 v4 then collect_removes get ops removes st5 else Ret removes st5
                      | None \<Rightarrow> Ret removes st5) (\<lambda>removes1 st6.
               dbind (case parser of
                        Some vp \<Rightarrow> if dval_truthy st6 v4 \<and> flag = content_flag \<and> \<not> go_parsing opts \<and> removes1 \<noteq> []
                                   then dbind (apply_removes env get removes1 vp st6) (\<lambda>vp1 st. Ret (Some vp1) st) else Ret parser st6
                      | None \<Rightarrow> Ret None st6) (\<lambda>parser1 st7.
               let v5 = (if go_expand opts then (case parser1 of Some vp \<Rightarrow> vp_value vp | None \<Rightarrow> v4) else v4);
                   st8 = (case parser1 of Some vp \<Rightarrow> st7\<lparr>ds_cache := dict_set name vp (ds_cache st7)\<rparr> | None \<Rightarrow> st7)
               in Ret (v5, if go_retparser opts then parser1 else None) st8)))))))"

fun getVarFlag_n :: "nat \<Rightarrow> dsenv \<Rightarrow> lookup" where
  "getVarFlag_n 0 env var flag opts st = Exc RecursionError st"
| "getVarFlag_n (Suc n) env var flag opts st = getVarFlag_body env (getVarFlag_n n env) var flag opts st"

definition getVarFlag :: "dsenv \<Rightarrow> lookup" where
  "getVarFlag env = getVarFlag_n (de_depth env) env"

definition getVar :: "dsenv \<Rightarrow> string \<Rightarrow> getopts \<Rightarrow> dsmart \<Rightarrow> dval option dres" where
  "getVar env var opts st = dbind (getVarFlag env var content_flag opts st) (\<lambda>(v, _) st1. Ret v st1)"

end
