(* ===== verification/BB_Data.thy ===== *)
theory BB_Data
  imports BB_DataStore
begin

text \<open>
  The methods of \<^verbatim>\<open>DataSmart\<close> in \<^verbatim>\<open>lib/bb/data_smart.py\<close> that change a data store, copies of stores and the iteration over the variables. A store and the copies made of it
  share the objects of the histories (\<open>ds_hist\<close>) and the sets (\<open>ds_sets\<close>); \<open>resume\<close> goes on with a store after its copy was used. The dictionaries a copy reads through are
  those of the moment of the copy. The history of included files is left out.
\<close>

section \<open>Recording, shadow copies\<close>

definition text_of :: "dsenv \<Rightarrow> dval \<Rightarrow> string" where
  "text_of env v = (case v of DStr s \<Rightarrow> s | _ \<Rightarrow> de_text env v)"

text \<open>\<^verbatim>\<open>self.varhistory.record(**loginfo)\<close> in a method with the local variables \<^verbatim>\<open>var\<close> and, in some, \<^verbatim>\<open>value\<close>.\<close>

definition method_frame :: "dsenv \<Rightarrow> string \<Rightarrow> dval option \<Rightarrow> frame" where
  "method_frame env var v = (de_caller env)\<lparr>fr_var := Some var, fr_value := map_option (text_of env) v\<rparr>"

definition record_op :: "dsenv \<Rightarrow> string \<Rightarrow> dval option \<Rightarrow> loginfo \<Rightarrow> dsmart \<Rightarrow> unit dres" where
  "record_op env var v loginfo st =
     (case record_hist (de_meta env) (method_frame env var v) (ds_tracking st) (ds_varhistory st) loginfo (ds_hist st) of
        Inl e \<Rightarrow> Exc e st
      | Inr h \<Rightarrow> Ret () (st\<lparr>ds_hist := h\<rparr>))"

text \<open>The environment of the calls that the store makes itself, and the loginfo \<^verbatim>\<open>ignore=True\<close>.\<close>

definition inner :: "dsenv \<Rightarrow> dsenv" where
  "inner env = env\<lparr>de_caller := de_self env\<rparr>"

definition ignored :: loginfo where
  "ignored = [(''ignore'', ''True'')]"

definition clear_cache :: "dsmart \<Rightarrow> dsmart" where
  "clear_cache st = st\<lparr>ds_cache := []\<rparr>"

definition initVar :: "string \<Rightarrow> dsmart \<Rightarrow> dsmart" where
  "initVar var st =
     (let st1 = clear_cache st in if has_key (ds_dict st1) var then st1 else st1\<lparr>ds_dict := dict_set var [] (ds_dict st1)\<rparr>)"

definition makeShadowCopy :: "string \<Rightarrow> dsmart \<Rightarrow> dsmart" where
  "makeShadowCopy var st =
     (if has_key (ds_dict st) var then st
      else case fst (findVar var st) of
             Some fd \<Rightarrow> if fd \<noteq> [] then st\<lparr>ds_dict := dict_set var fd (ds_dict st)\<rparr> else initVar var st
           | None \<Rightarrow> initVar var st)"

definition own_flags :: "string \<Rightarrow> dsmart \<Rightarrow> flagdict" where
  "own_flags var st = (case map_of (ds_dict st) var of None \<Rightarrow> [] | Some fd \<Rightarrow> fd)"

definition put_flags :: "string \<Rightarrow> flagdict \<Rightarrow> dsmart \<Rightarrow> dsmart" where
  "put_flags var fd st = st\<lparr>ds_dict := dict_set var fd (ds_dict st)\<rparr>"

definition put_flag :: "string \<Rightarrow> string \<Rightarrow> dval \<Rightarrow> dsmart \<Rightarrow> dsmart" where
  "put_flag var flag v st = put_flags var (dict_set flag v (own_flags var st)) st"

section \<open>Override data\<close>

text \<open>One registration: \<^verbatim>\<open>[var, override]\<close> is entered under the short name, once.\<close>

definition register :: "string \<Rightarrow> string \<Rightarrow> string \<Rightarrow> (string, (string \<times> string) list) dict \<Rightarrow> (string, (string \<times> string) list) dict" where
  "register shortvar var ov od =
     (let od1 = (if has_key od shortvar then od else dict_set shortvar [] od)
      in if (var, ov) \<in> set (dd_get od1 shortvar) then od1 else dict_set shortvar (dd_get od1 shortvar @ [(var, ov)]) od1)"

lemma before_last_shorter: "CHR ''_'' \<in> set s \<Longrightarrow> length (before_last s) < length s"
proof -
  assume "CHR ''_'' \<in> set s"
  then obtain a b where "s = a @ CHR ''_'' # b" "CHR ''_'' \<notin> set b" by (metis split_list_last)
  then show ?thesis by (simp add: before_last_def rsplit1_snoc)
qed

function update_overrides_loop ::
    "string \<Rightarrow> string \<Rightarrow> string \<Rightarrow> (string, (string \<times> string) list) dict \<Rightarrow> (string, (string \<times> string) list) dict" where
  "update_overrides_loop var shortvar ov od =
     (if truthy ov \<and> override_match ov
      then (let od1 = register shortvar var ov od
            in if CHR ''_'' \<in> set shortvar
               then (let ov1 = after_last var shortvar; short1 = before_last shortvar
                     in if short1 = [] then od1 else update_overrides_loop var short1 ov1 od1)
               else od1)
      else od)"
  by pat_completeness auto
termination
  by (relation "measure (\<lambda>(_, shortvar, _, _). length shortvar)") (auto simp: before_last_shorter)

declare update_overrides_loop.simps [simp del]

definition setvar_update_overrides :: "string \<Rightarrow> dsmart \<Rightarrow> dsmart" where
  "setvar_update_overrides var st =
     st\<lparr>ds_overridedata := update_overrides_loop var (before_last var) (after_last var var) (ds_overridedata st)\<rparr>"

definition refs_of :: "varparse \<Rightarrow> string list" where
  "refs_of vp = fold add_new (dict_keys (vp_contains vp)) (vp_references vp)"

definition internal_finalize :: "dsmart \<Rightarrow> dsmart" where
  "internal_finalize st = st\<lparr>ds_overrides := None\<rparr>"

definition next_refs :: "dsenv \<Rightarrow> string list \<Rightarrow> dsmart \<Rightarrow> string list dres" where
  "next_refs env new st =
     dfold (\<lambda>i acc st1. dbind (getVar env i expanded st1) (\<lambda>v st2.
       dbind (expandWithRefs env (getVarFlag env) v (Some i) st2) (\<lambda>vp st3. Ret (fold add_new (refs_of vp) acc) st3))) new [] st"

fun overridevars_loop :: "nat \<Rightarrow> dsenv \<Rightarrow> string list \<Rightarrow> dsmart \<Rightarrow> unit dres" where
  "overridevars_loop n env new st =
     (if set new \<subseteq> set (ds_overridevars st) then Ret () st
      else case n of
             0 \<Rightarrow> Loops
           | Suc m \<Rightarrow> dbind (next_refs env new (st\<lparr>ds_overridevars := fold add_new new (ds_overridevars st)\<rparr>)) (overridevars_loop m env))"

declare overridevars_loop.simps [simp del]

definition setvar_update_overridevars :: "dsenv \<Rightarrow> string \<Rightarrow> dval \<Rightarrow> dsmart \<Rightarrow> unit dres" where
  "setvar_update_overridevars env var v st =
     dbind (expandWithRefs env (getVarFlag env) (Some v) (Some var) st) (\<lambda>vp st1.
     dbind (overridevars_loop (de_rounds env) env (refs_of vp) st1) (\<lambda>_ st2. Ret () (internal_finalize st2)))"

section \<open>Flags\<close>

definition log_op :: "string \<Rightarrow> loginfo \<Rightarrow> loginfo" where
  "log_op opname loginfo = dict_set ''op'' opname loginfo"

definition default_op :: "loginfo \<Rightarrow> loginfo" where
  "default_op loginfo = (if has_key loginfo ''op'' then loginfo else log_op ''set'' loginfo)"

definition exportlist :: string where
  "exportlist = ''__exportlist''"

text \<open>The set under \<^verbatim>\<open>__exportlist\<close> is changed in place.\<close>

definition add_export :: "string \<Rightarrow> dsmart \<Rightarrow> unit dres" where
  "add_export var st =
     (let st1 = makeShadowCopy exportlist st;
          st2 = (if has_key (own_flags exportlist st1) content_flag then st1
                 else let (a, st') = new_set [] st1 in put_flag exportlist content_flag (DSet a) st')
      in case map_of (own_flags exportlist st2) content_flag of
           Some (DSet a) \<Rightarrow> Ret () (st2\<lparr>ds_sets := dict_set a (add_new var (set_contents a st2)) (ds_sets st2)\<rparr>)
         | _ \<Rightarrow> Exc AttributeError st2)"

definition setVarFlag :: "dsenv \<Rightarrow> string \<Rightarrow> string \<Rightarrow> dval \<Rightarrow> loginfo \<Rightarrow> dsmart \<Rightarrow> unit dres" where
  "setVarFlag env var flag v loginfo st =
     dbind (record_op env var (Some v) (dict_set ''flag'' flag (default_op loginfo)) (clear_cache st)) (\<lambda>_ st1.
     let st2 = put_flag var flag v (makeShadowCopy var st1);
         st3 = (if flag = default_flag \<and> CHR ''_'' \<in> set var then setvar_update_overrides var st2 else st2)
     in dbind (if flag = default_flag \<and> var \<in> set (ds_overridevars st3) then setvar_update_overridevars env var v st3 else Ret () st3) (\<lambda>_ st4.
        if flag = ''unexport'' \<or> flag = ''export'' then add_export var st4 else Ret () st4))"

definition delVarFlag :: "dsenv \<Rightarrow> string \<Rightarrow> string \<Rightarrow> loginfo \<Rightarrow> dsmart \<Rightarrow> unit dres" where
  "delVarFlag env var flag loginfo st =
     (let st1 = clear_cache st
      in case fst (findVar var st1) of
           None \<Rightarrow> Ret () st1
         | Some fd \<Rightarrow>
             if fd = [] then Ret () st1
             else let st2 = makeShadowCopy var st1
                  in if has_key (own_flags var st2) flag
                     then dbind (record_op env var None (dict_set ''flag'' flag (log_op ''delFlag'' (dict_set ''detail'' [] loginfo))) st2) (\<lambda>_ st3.
                          Ret () (put_flags var (AList.delete flag (own_flags var st3)) st3))
                     else Ret () st2)"

text \<open>\<^verbatim>\<open>self.getVarFlag(var, flag, False) or ""\<close>\<close>

definition flag_or_empty :: "dsenv \<Rightarrow> string \<Rightarrow> string \<Rightarrow> dsmart \<Rightarrow> dval dres" where
  "flag_or_empty env var flag st =
     dbind (getVarFlag env var flag unexpanded st) (\<lambda>(v, _) st1. Ret (if dval_truthy st1 v then the v else DStr []) st1)"

definition appendVarFlag :: "dsenv \<Rightarrow> string \<Rightarrow> string \<Rightarrow> dval \<Rightarrow> loginfo \<Rightarrow> dsmart \<Rightarrow> unit dres" where
  "appendVarFlag env var flag v loginfo st =
     dbind (record_op env var (Some v) (dict_set ''flag'' flag (log_op ''append'' loginfo)) st) (\<lambda>_ st1.
     dbind (flag_or_empty env var flag st1) (\<lambda>old st2.
     dbind (dlift (py_add old v) st2) (\<lambda>newvalue st3. setVarFlag (inner env) var flag newvalue ignored st3)))"

definition prependVarFlag :: "dsenv \<Rightarrow> string \<Rightarrow> string \<Rightarrow> dval \<Rightarrow> loginfo \<Rightarrow> dsmart \<Rightarrow> unit dres" where
  "prependVarFlag env var flag v loginfo st =
     dbind (record_op env var (Some v) (dict_set ''flag'' flag (log_op ''prepend'' loginfo)) st) (\<lambda>_ st1.
     dbind (flag_or_empty env var flag st1) (\<lambda>old st2.
     dbind (dlift (py_add v old) st2) (\<lambda>newvalue st3. setVarFlag (inner env) var flag newvalue ignored st3)))"

definition setVarFlags :: "dsenv \<Rightarrow> string \<Rightarrow> flagdict \<Rightarrow> loginfo \<Rightarrow> dsmart \<Rightarrow> unit dres" where
  "setVarFlags env var flags loginfo st =
     (let li = infer_caller_details (method_frame env var None) True loginfo
      in dbind (dfold (\<lambda>(i, v) li st1.
           if i = content_flag then Ret li st1
           else let li1 = dict_set ''detail'' (text_of env v) (dict_set ''flag'' i li)
                in dbind (record_op env var None li1 st1) (\<lambda>_ st2. Ret li1 (put_flag var i v st2)))
           flags li (makeShadowCopy var (clear_cache st))) (\<lambda>_ st2. Ret () st2))"

text \<open>\<open>exp\<close> are the flags to be expanded.\<close>

definition getVarFlags :: "dsenv \<Rightarrow> string \<Rightarrow> string list \<Rightarrow> bool \<Rightarrow> dsmart \<Rightarrow> (string, dval option) dict option dres" where
  "getVarFlags env var exp internalflags st =
     dbind (dfold (\<lambda>(i, v) flags st1.
        if startswith i ''_'' \<and> \<not> internalflags then Ret flags st1
        else if i \<in> set exp
        then dbind (expand env (getVarFlag env) (Some v) (Some (var @ ''['' @ i @ '']'')) st1) (\<lambda>w st2. Ret (dict_set i w flags) st2)
        else Ret (dict_set i (Some v) flags) st1)
        (case fst (findVar var st) of None \<Rightarrow> [] | Some fd \<Rightarrow> fd) [] st) (\<lambda>flags st1. Ret (if flags = [] then None else Some flags) st1)"

definition delVarFlags :: "dsenv \<Rightarrow> string \<Rightarrow> loginfo \<Rightarrow> dsmart \<Rightarrow> unit dres" where
  "delVarFlags env var loginfo st =
     dbind (record_op env var None (log_op ''delete flags'' loginfo) (makeShadowCopy var (clear_cache st))) (\<lambda>_ st1.
     Ret () (case map_of (own_flags var st1) content_flag of
               Some v \<Rightarrow> put_flags var [(content_flag, v)] st1
             | None \<Rightarrow> st1\<lparr>ds_dict := AList.delete var (ds_dict st1)\<rparr>))"

section \<open>Variables\<close>

function unregister_loop ::
    "string \<Rightarrow> string \<Rightarrow> string \<Rightarrow> (string, (string \<times> string) list) dict \<Rightarrow> (string, (string \<times> string) list) dict" where
  "unregister_loop var shortvar ov od =
     (if truthy ov \<and> islower ov
      then (let od1 = (if has_key od shortvar then dict_set shortvar (remove1 (var, ov) (dd_get od shortvar)) od else od)
            in if CHR ''_'' \<in> set shortvar
               then (let ov1 = after_last var shortvar; short1 = before_last shortvar
                     in if short1 = [] then od1 else unregister_loop var short1 ov1 od1)
               else od1)
      else od)"
  by pat_completeness auto
termination
  by (relation "measure (\<lambda>(_, shortvar, _, _). length shortvar)") (auto simp: before_last_shorter)

declare unregister_loop.simps [simp del]

definition delVar :: "dsenv \<Rightarrow> string \<Rightarrow> loginfo \<Rightarrow> dsmart \<Rightarrow> unit dres" where
  "delVar env var loginfo st =
     dbind (record_op env var None (log_op ''del'' (dict_set ''detail'' [] loginfo)) (clear_cache st)) (\<lambda>_ st1.
     let st2 = put_flags var [] st1;
         od = AList.delete var (ds_overridedata st2)
     in Ret () (st2\<lparr>ds_overridedata := (if CHR ''_'' \<in> set var then unregister_loop var (before_last var) (after_last var var) od else od)\<rparr>))"

text \<open>The branch of \<^verbatim>\<open>setVar\<close> for names with a keyword.\<close>

definition setVar_keyword ::
    "dsenv \<Rightarrow> string \<Rightarrow> string \<Rightarrow> string \<Rightarrow> string option \<Rightarrow> dval \<Rightarrow> loginfo \<Rightarrow> dsmart \<Rightarrow> unit dres" where
  "setVar_keyword env var base keyword ov v loginfo st =
     dbind (getVarFlag env base keyword unexpanded st) (\<lambda>(l, _) st1.
     dbind (if dval_truthy st1 l then (case l of Some (DOps xs) \<Rightarrow> Ret xs st1 | _ \<Rightarrow> Exc AttributeError st1) else Ret [] st1) (\<lambda>xs st2.
     dbind (setVarFlag (inner env) base keyword (DOps (xs @ [(v, ov)])) ignored st2) (\<lambda>_ st3.
     let li = log_op (if opt_truthy ov then keyword @ ''['' @ the ov @ '']'' else keyword) (dict_set ''variable'' base (dict_set ''detail'' (text_of env v) loginfo))
     in dbind (record_op env var (Some v) li st3) (\<lambda>_ st4.
        let st5 = (if CHR ''_'' \<in> set var then setvar_update_overrides base st4 else st4)
        in if base \<in> set (ds_overridevars st5) then setvar_update_overridevars env var v st5 else Ret () st5))))"

text \<open>What \<^verbatim>\<open>setVar\<close> removes when it is not called by the parser: the pending operations and the overriding variables that are active.\<close>

definition drop_ops :: "string \<Rightarrow> dsmart \<Rightarrow> dsmart" where
  "drop_ops var st =
     put_flags var (AList.delete remove_kw (AList.delete prepend_kw (AList.delete append_kw (own_flags var st)))) st"

definition drop_overriding :: "dsenv \<Rightarrow> string \<Rightarrow> dsmart \<Rightarrow> unit dres" where
  "drop_overriding env var st =
     (case map_of (ds_overridedata st) var of
        None \<Rightarrow> Ret () st
      | Some _ \<Rightarrow>
          dbind (need_overrides (getVarFlag env) st) (\<lambda>_ st1.
          dbind (dlift (dict_lookup (ds_overridedata st1) var) st1) (\<lambda>od st2.
          dbind (if od = [] then Ret [] st2
                 else case ds_overridesset st2 of
                        None \<Rightarrow> Exc AttributeError st2
                      | Some oset \<Rightarrow> Ret (map fst (filter (\<lambda>(r, ov). is_active oset ov) od)) st2) (\<lambda>active st3.
          dbind (dfold (\<lambda>a _ st4. delVar (inner env) a [] st4) active () st3) (\<lambda>_ st5.
          dbind (dlift (dict_lookup (ds_overridedata st5) var) st5) (\<lambda>_ st6.
          Ret () (st6\<lparr>ds_overridedata := AList.delete var (ds_overridedata st6)\<rparr>)))))))"

definition setVar :: "dsenv \<Rightarrow> string \<Rightarrow> dval \<Rightarrow> loginfo \<Rightarrow> dsmart \<Rightarrow> unit dres" where
  "setVar env var v loginfo st =
     (let st1 = clear_cache st; parsing = has_key loginfo ''parsing''; li = default_op loginfo
      in case match_setvar var of
           Some (base, keyword, ov) \<Rightarrow> setVar_keyword env var base keyword ov v li st1
         | None \<Rightarrow>
             let st2 = makeShadowCopy var st1
             in dbind (if parsing then Ret () st2 else drop_overriding env var (drop_ops var st2)) (\<lambda>_ st3.
                let st4 = (if CHR ''_'' \<in> set var then setvar_update_overrides var st3 else st3)
                in dbind (record_op env var (Some v) li (put_flag var content_flag v st4)) (\<lambda>_ st5.
                   if var \<in> set (ds_overridevars st5) then setvar_update_overridevars env var v st5 else Ret () st5)))"

definition parsed :: loginfo where
  "parsed = [(''ignore'', ''True''), (''parsing'', ''True'')]"

definition appendVar :: "dsenv \<Rightarrow> string \<Rightarrow> dval \<Rightarrow> loginfo \<Rightarrow> dsmart \<Rightarrow> unit dres" where
  "appendVar env var v loginfo st =
     dbind (record_op env var (Some v) (log_op ''append'' loginfo) st) (\<lambda>_ st1. setVar (inner env) (var @ append_kw) v parsed st1)"

definition prependVar :: "dsenv \<Rightarrow> string \<Rightarrow> dval \<Rightarrow> loginfo \<Rightarrow> dsmart \<Rightarrow> unit dres" where
  "prependVar env var v loginfo st =
     dbind (record_op env var (Some v) (log_op ''prepend'' loginfo) st) (\<lambda>_ st1. setVar (inner env) (var @ prepend_kw) v parsed st1)"

text \<open>
  \<^verbatim>\<open>renameVar\<close>; \<open>n\<close> bounds the nesting of the calls for the overriding variables. The list of overriding variables that is walked through is not changed by the calls.
  The history of the old name is moved with one round per event.
\<close>

definition rename_history :: "dsenv \<Rightarrow> string \<Rightarrow> string \<Rightarrow> dsmart \<Rightarrow> unit dres" where
  "rename_history env key newkey st =
     (let n = (case variable_hist (de_meta env) (ds_varhistory st) key (ds_hist st) of Inl _ \<Rightarrow> 0 | Inr (evs, _) \<Rightarrow> length evs)
      in case rename_variable_hist n (de_meta env) (ds_tracking st) (ds_varhistory st) key newkey (ds_hist st) of
           None \<Rightarrow> Loops
         | Some (Inl e) \<Rightarrow> Exc e st
         | Some (Inr h) \<Rightarrow> Ret () (st\<lparr>ds_hist := h\<rparr>))"

definition rename_content :: "dsenv \<Rightarrow> string \<Rightarrow> string \<Rightarrow> loginfo \<Rightarrow> dsmart \<Rightarrow> (bool \<times> loginfo) dres" where
  "rename_content env key newkey loginfo st =
     dbind (getVar env key (unexpanded\<lparr>go_parsing := True\<rparr>) st) (\<lambda>val st1.
     case val of
       None \<Rightarrow> Ret (True, loginfo) st1
     | Some v \<Rightarrow>
         dbind (rename_history env key newkey st1) (\<lambda>_ st2.
         let li = dict_set ''detail'' (text_of env v) (log_op (''rename from '' @ key) (dict_set ''variable'' newkey loginfo))
         in dbind (record_op env key None li st2) (\<lambda>_ st3.
            dbind (setVar (inner env) newkey v parsed st3) (\<lambda>_ st4. Ret (False, li) st4))))"

text \<open>
  \<^verbatim>\<open>dest.extend(src)\<close>. A list of operations has no other elements than pairs in this model: that a string or a set is appended is an error here already, in the code at the next lookup.
\<close>

fun py_extend :: "dval \<Rightarrow> dval \<Rightarrow> dval result" where
  "py_extend (DOps xs) (DOps ys) = Inr (DOps (xs @ ys))"
| "py_extend (DOps xs) _ = Inl TypeError"
| "py_extend _ _ = Inl AttributeError"

definition rename_op :: "dsenv \<Rightarrow> string \<Rightarrow> string \<Rightarrow> string \<Rightarrow> dsmart \<Rightarrow> unit dres" where
  "rename_op env key newkey i st =
     dbind (getVarFlag env key i unexpanded st) (\<lambda>(src, _) st1.
     case src of
       None \<Rightarrow> Ret () st1
     | Some sv \<Rightarrow>
         dbind (getVarFlag env newkey i unexpanded st1) (\<lambda>(dv, _) st2.
         dbind (dlift (py_extend (if dval_truthy st2 dv then the dv else DOps []) sv) st2) (\<lambda>dest st3.
         setVarFlag (inner env) newkey i dest ignored st3)))"

fun renameVar_n :: "nat \<Rightarrow> dsenv \<Rightarrow> string \<Rightarrow> string \<Rightarrow> loginfo \<Rightarrow> dsmart \<Rightarrow> unit dres" where
  "renameVar_n 0 env key newkey loginfo st = Exc RecursionError st"
| "renameVar_n (Suc n) env key newkey loginfo st =
     (if key = newkey then Ret () st
      else dbind (rename_content env key newkey loginfo st) (\<lambda>(isnone, li) st1.
           dbind (dfold (\<lambda>i _. rename_op env key newkey i) setvar_keyword () st1) (\<lambda>_ st2.
           dbind (case map_of (ds_overridedata st2) key of
                    None \<Rightarrow> Ret () st2
                  | Some od \<Rightarrow>
                      dfold (\<lambda>(v, ov) _ st3.
                        dbind (dlift (dict_lookup (ds_overridedata st3) newkey) st3) (\<lambda>od1 st4.
                        renameVar_n n (inner env) v (str_replace key newkey v) []
                          (st4\<lparr>ds_overridedata := dict_set newkey (od1 @ [(str_replace key newkey v, ov)]) (ds_overridedata st4)\<rparr>)))
                        od () (st2\<lparr>ds_overridedata := dict_set newkey [] (ds_overridedata st2)\<rparr>)) (\<lambda>_ st5.
           let st6 = (if CHR ''_'' \<in> set newkey \<and> isnone then setvar_update_overrides newkey st5 else st5);
               li1 = dict_set ''detail'' newkey (log_op ''rename (to)'' (dict_set ''variable'' key li))
           in dbind (record_op env key None li1 st6) (\<lambda>_ st7. delVar (inner env) key ignored st7)))))"

definition renameVar :: "dsenv \<Rightarrow> string \<Rightarrow> string \<Rightarrow> loginfo \<Rightarrow> dsmart \<Rightarrow> unit dres" where
  "renameVar env = renameVar_n (de_depth env) env"

section \<open>Copies and iteration\<close>

definition createCopy :: "dsmart \<Rightarrow> dsmart" where
  "createCopy st =
     (let data = DataSmart (ds_hist st);
          (vh, h) = hist_copy (ds_varhistory st) (ds_hist data)
      in data\<lparr>ds_data := ds_dict st # ds_data st, ds_sets := ds_sets st, ds_varhistory := vh, ds_hist := h, ds_tracking := ds_tracking st,
              ds_overridevars := ds_overridevars st, ds_overridedata := ds_overridedata st\<rparr>)"

definition resume :: "dsmart \<Rightarrow> dsmart \<Rightarrow> dsmart" where
  "resume st copy = st\<lparr>ds_sets := ds_sets copy, ds_hist := ds_hist copy\<rparr>"

definition localkeys :: "dsmart \<Rightarrow> string list" where
  "localkeys st = dict_keys (ds_dict st)"

text \<open>\<^verbatim>\<open>keylist\<close>: the variables \<open>deleted\<close> so far are those found empty in a dictionary nearer to the store.\<close>

definition key_step :: "string list \<Rightarrow> string \<times> flagdict \<Rightarrow> string list \<times> string list \<Rightarrow> string list \<times> string list" where
  "key_step overrides p acc =
     (case (p, acc) of ((key, fd), (deleted, klist)) \<Rightarrow>
        if key \<in> set deleted then acc
        else if key \<in> set overrides then acc
        else if fd = [] then (add_new key deleted, klist)
        else (deleted, add_new key klist))"

fun keylist :: "string list \<Rightarrow> layer list \<Rightarrow> string list \<Rightarrow> string list \<times> string list" where
  "keylist overrides [] deleted = (deleted, [])"
| "keylist overrides (d # ds) deleted =
     (let (deleted1, klist) = fold (key_step overrides) d (deleted, []);
          (deleted2, rest) = keylist overrides ds deleted1
      in (deleted2, fold add_new rest klist))"

definition overridden_vars :: "string list \<Rightarrow> (string, (string \<times> string) list) dict \<Rightarrow> string list" where
  "overridden_vars oset od = map fst (filter (\<lambda>(var, rs). list_ex (\<lambda>(r, ov). is_active oset ov) rs) od)"

definition iter_vars :: "dsenv \<Rightarrow> dsmart \<Rightarrow> string list dres" where
  "iter_vars env st =
     dbind (need_overrides (getVarFlag env) st) (\<lambda>_ st1.
     dbind (if list_all (\<lambda>(var, rs). rs = []) (ds_overridedata st1) then Ret [] st1
            else case ds_overridesset st1 of
                   None \<Rightarrow> Exc AttributeError st1
                 | Some oset \<Rightarrow> Ret (overridden_vars oset (ds_overridedata st1)) st1) (\<lambda>overrides st2.
     Ret (snd (keylist overrides (ds_dict st2 # ds_data st2) []) @ overrides) st2))"

definition len_vars :: "dsenv \<Rightarrow> dsmart \<Rightarrow> nat dres" where
  "len_vars env st = dbind (iter_vars env st) (\<lambda>ks st1. Ret (length (remdups ks)) st1)"

definition getitem_var :: "dsenv \<Rightarrow> string \<Rightarrow> dsmart \<Rightarrow> dval dres" where
  "getitem_var env item st =
     dbind (getVar env item unexpanded st) (\<lambda>v st1. case v of None \<Rightarrow> Exc (KeyError item) st1 | Some w \<Rightarrow> Ret w st1)"

text \<open>\<^verbatim>\<open>bb.data.expandKeys(d)\<close>: variables whose names contain references are renamed, in the order of their names.\<close>

definition keys_to_expand :: "dsenv \<Rightarrow> string list \<Rightarrow> dsmart \<Rightarrow> (string, string) dict dres" where
  "keys_to_expand env keys st =
     dfold (\<lambda>key todo st1.
       if \<not> sublist ''${'' key then Ret todo st1
       else dbind (expand env (getVarFlag env) (Some (DStr key)) None st1) (\<lambda>v st2.
            case v of
              Some (DStr ekey) \<Rightarrow> Ret (if ekey = key then todo else dict_set key ekey todo) st2
            | _ \<Rightarrow> Ret todo st2)) keys [] st"

definition expandKeys :: "dsenv \<Rightarrow> dsmart \<Rightarrow> unit dres" where
  "expandKeys env st =
     dbind (iter_vars env st) (\<lambda>keys st1.
     dbind (keys_to_expand env keys st1) (\<lambda>todo st2.
     dfold (\<lambda>key _ st3.
       dbind (dlift (dict_lookup todo key) st3) (\<lambda>ekey st4.
       dbind (getVar env ekey unexpanded st4) (\<lambda>newval st5.
       dbind (if newval = None then Ret None st5 else getVar env key unexpanded st5) (\<lambda>_ st6.
       renameVar env key ekey [] st6)))) (sort (dict_keys todo)) () st2))"

end
