(* ===== verification/BB_DataFrame.thy ===== *)
theory BB_DataFrame
  imports BB_Data
begin

text \<open>
  What the methods of the data store can change. The locale \<open>lookup_relation\<close> is about relations between the state before and after a call that include the elementary changes a lookup makes (the
  cache, the computed overrides, new sets); then they include every lookup. The locale \<open>finalize_relation\<close> adds what happens when a variable the overrides depend on is set, the locale \<open>update_relation\<close> the elementary changes of the other methods. They are
  interpreted on \<open>the variables are the same\<close> and on the invariants of a store.
\<close>

fun dkeeps :: "(dsmart \<Rightarrow> dsmart \<Rightarrow> bool) \<Rightarrow> dsmart \<Rightarrow> 'a dres \<Rightarrow> bool" where
  "dkeeps R st (Ret a t) = R st t"
| "dkeeps R st (Exc e t) = R st t"
| "dkeeps R st Loops = True"

section \<open>Lookups\<close>

locale lookup_relation =
  fixes ev :: "string \<Rightarrow> dsmart \<Rightarrow> string dres" and R :: "dsmart \<Rightarrow> dsmart \<Rightarrow> bool"
  assumes R_refl: "R st st"
    and R_trans: "R st t \<Longrightarrow> R t u \<Longrightarrow> R st u"
    and R_cache: "R st (st\<lparr>ds_cache := c\<rparr>)"
    and R_over: "R st (put_overrides ov (st\<lparr>ds_inoverride := b\<rparr>))"
    and R_new_set: "R st (snd (new_set xs st))"
    and R_eval: "dkeeps R st (ev code st)"
begin

lemma keeps_bind:
  "dkeeps R st m \<Longrightarrow> (\<And>a t. m = Ret a t \<Longrightarrow> dkeeps R t (f a t)) \<Longrightarrow> dkeeps R st (dbind m f)"
proof (cases m)
  case (Ret a t)
  assume "dkeeps R st m" "\<And>a t. m = Ret a t \<Longrightarrow> dkeeps R t (f a t)"
  with Ret have "R st t" "dkeeps R t (f a t)" by simp_all
  then show ?thesis using Ret by (cases "f a t") (auto intro: R_trans)
qed simp_all

lemma keeps_step: "R st t \<Longrightarrow> dkeeps R t m \<Longrightarrow> dkeeps R st m"
  by (cases m) (auto intro: R_trans)

lemma keeps_lift [simp]: "dkeeps R st (dlift r st)"
  using R_refl by (cases r) simp_all

lemma keeps_wrapped [simp]: "dkeeps R st (wrapped v s m) = dkeeps R st m"
  by (cases m) simp_all

lemma keeps_swallow:
  "dkeeps R st m \<Longrightarrow> (\<And>a t. dkeeps R t (f a t)) \<Longrightarrow> dkeeps R st (swallow_eol vp m f)"
  by (cases m) (auto intro: keeps_step)

lemma keeps_Ret: "dkeeps R st (Ret a st)"
  by (simp add: R_refl)

lemma keeps_Exc: "dkeeps R st (Exc e st)"
  by (simp add: R_refl)

lemma keeps_if: "dkeeps R st m1 \<Longrightarrow> dkeeps R st m2 \<Longrightarrow> dkeeps R st (if P then m1 else m2)"
  by simp

lemma keeps_option: "dkeeps R st m \<Longrightarrow> (\<And>x. dkeeps R st (f x)) \<Longrightarrow> dkeeps R st (case v of None \<Rightarrow> m | Some x \<Rightarrow> f x)"
  by (cases v) simp_all

lemma keeps_prod: "(\<And>a b. p = (a, b) \<Longrightarrow> dkeeps R st (f a b)) \<Longrightarrow> dkeeps R st (case p of (a, b) \<Rightarrow> f a b)"
  by (cases p) simp

lemma keeps_prod_app: "(\<And>a b. p = (a, b) \<Longrightarrow> dkeeps R st (f a b x)) \<Longrightarrow> dkeeps R st ((case p of (a, b) \<Rightarrow> f a b) x)"
  by (cases p) simp

lemma keeps_dval:
  "(\<And>s. dkeeps R st (f1 s)) \<Longrightarrow> (\<And>s. dkeeps R st (f2 s)) \<Longrightarrow> (\<And>s. dkeeps R st (f3 s)) \<Longrightarrow> (\<And>s. dkeeps R st (f4 s)) \<Longrightarrow>
    dkeeps R st (case_dval f1 f2 f3 f4 v)"
  by (cases v) simp_all

lemmas keeps_rules = keeps_bind keeps_Ret keeps_Exc keeps_if keeps_option keeps_prod keeps_prod_app keeps_dval keeps_lift

lemma keeps_fold: "(\<And>x b st. dkeeps R st (f x b st)) \<Longrightarrow> dkeeps R st (dfold f xs b st)"
  by (induction xs arbitrary: b st) (auto simp: R_refl intro: keeps_bind)

lemma R_put_overrides: "R st (put_overrides ov st)"
  using R_over [of st ov "ds_inoverride st"] by simp

definition keeps_all :: "lookup \<Rightarrow> bool" where
  "keeps_all get \<longleftrightarrow> (\<forall>var flag opts st. dkeeps R st (get var flag opts st))"

lemma keeps_get: "keeps_all get \<Longrightarrow> dkeeps R st (get var flag opts st)"
  by (simp add: keeps_all_def)

lemma keeps_sub_all: "(\<And>k vp st. dkeeps R st (f k vp st)) \<Longrightarrow> dkeeps R st (sub_all f ps acc vp st)"
proof (induction f ps acc vp st rule: sub_all.induct)
  case (3 f k ps acc vp st)
  show ?case unfolding sub_all.simps
  proof (rule keeps_bind [OF "3.prems"], clarify)
    fix v vp1 t
    assume "f k vp st = Ret (v, vp1) t"
    then show "dkeeps R t (case v of None \<Rightarrow> Ret (None, vp1) t | Some (DStr t') \<Rightarrow> sub_all f ps (map_option (\<lambda>s. s @ t') acc) vp1 t
        | Some _ \<Rightarrow> sub_all f ps None vp1 t)"
      using 3 R_refl by (auto split: option.splits dval.splits)
  qed
qed (auto simp: R_refl split: option.splits)

lemma keeps_var_sub: "keeps_all get \<Longrightarrow> dkeeps R st (var_sub get varname k vp st)"
  unfolding var_sub_def by (auto simp: R_refl Let_def intro!: keeps_bind keeps_get)

lemma keeps_python_sub: "de_eval env = ev \<Longrightarrow> keeps_all get \<Longrightarrow> dkeeps R st (python_sub env get varname k vp st)"
  unfolding python_sub_def Let_def
  by (intro keeps_swallow keeps_rules keeps_get) (simp_all add: keeps_get R_eval)

lemma keeps_expand_round: "de_eval env = ev \<Longrightarrow> keeps_all get \<Longrightarrow> dkeeps R st (expand_round env get varname s vp st)"
  unfolding expand_round_def Let_def
  by (auto intro!: keeps_bind keeps_sub_all keeps_var_sub keeps_python_sub simp: R_refl)

lemma keeps_expand_loop: "de_eval env = ev \<Longrightarrow> keeps_all get \<Longrightarrow> dkeeps R st (expand_loop n env get varname s vp st)"
  by (induction n arbitrary: s vp st) (auto simp: R_refl intro!: keeps_bind keeps_expand_round)

lemma keeps_expandWithRefs: "de_eval env = ev \<Longrightarrow> keeps_all get \<Longrightarrow> dkeeps R st (expandWithRefs env get v varname st)"
  unfolding expandWithRefs_def
  by (auto simp: R_refl intro!: keeps_bind keeps_expand_loop split: option.splits dval.splits)

lemma keeps_expand: "de_eval env = ev \<Longrightarrow> keeps_all get \<Longrightarrow> dkeeps R st (expand env get v varname st)"
  unfolding expand_def by (auto simp: R_refl intro!: keeps_bind keeps_expandWithRefs)

lemma keeps_need_loop: "keeps_all get \<Longrightarrow> dkeeps R st (need_loop n get st)"
proof (induction n arbitrary: st)
  case (Suc n)
  have step: "R st ((put_overrides ov st)\<lparr>ds_inoverride := b, ds_cache := c\<rparr>)" for st ov b c
    using R_trans [OF R_over [of st ov b] R_cache [of _ c]] by (cases st) (simp add: put_overrides_def)
  note get = keeps_get [OF Suc.prems] and again = keeps_step [OF R_put_overrides Suc.IH [OF Suc.prems]]
  show ?case unfolding need_loop.simps
    apply (rule keeps_step [OF R_over], rule keeps_bind, rule get, rule keeps_prod_app, rule keeps_bind, rule keeps_lift)
    apply (rule keeps_bind, rule keeps_step [OF step], rule get, rule keeps_prod_app, rule keeps_bind, rule keeps_lift)
    apply (rule keeps_if, rule keeps_Ret, rule again)
    done
qed (simp add: R_refl)

lemma keeps_need_overrides: "keeps_all get \<Longrightarrow> dkeeps R st (need_overrides get st)"
  unfolding need_overrides_def by (simp add: R_refl keeps_need_loop)

lemma R_copy_dval: "copy_dval v st = (w, t) \<Longrightarrow> R st t"
proof (cases v)
  case (DSet a)
  then show "copy_dval v st = (w, t) \<Longrightarrow> R st t"
    using R_new_set [of st "set_contents a st"] by (auto simp: case_prod_beta)
qed (simp_all add: R_refl)

lemma R_local_value: "local_value flag opts lv st = (w, t) \<Longrightarrow> R st t"
  unfolding local_value_def
  by (auto simp: R_refl case_prod_beta split: option.splits if_splits intro: R_copy_dval [OF surjective_pairing])

lemma keeps_local:
  "(\<And>v t. dkeeps R t (f v t)) \<Longrightarrow> dkeeps R st (case (if P then local_value flag opts lv st else (w, st)) of (v, t) \<Rightarrow> f v t)"
  by (auto split: prod.splits dest!: R_local_value intro: keeps_step)

lemma keeps_cache_opt: "dkeeps R st (Ret a (case p of None \<Rightarrow> st | Some vp \<Rightarrow> st\<lparr>ds_cache := g vp\<rparr>))"
  by (cases p) (simp_all add: R_refl R_cache)

lemma keeps_flag_ops: "keeps_all get \<Longrightarrow> dkeeps R st (flag_ops get comb ops v st)"
  unfolding flag_ops_def Let_def by (auto simp: R_refl intro!: keeps_bind keeps_need_overrides)

lemma keeps_collect_removes: "keeps_all get \<Longrightarrow> dkeeps R st (collect_removes get ops rs st)"
  unfolding collect_removes_def by (auto simp: R_refl intro!: keeps_bind keeps_need_overrides)

lemma keeps_apply_removes: "de_eval env = ev \<Longrightarrow> keeps_all get \<Longrightarrow> dkeeps R st (apply_removes env get rs vp st)"
  unfolding apply_removes_def expand_removes_def
  by (auto simp: R_refl case_prod_beta intro!: keeps_bind keeps_fold keeps_expand split: option.splits dval.splits)

lemma keeps_override_value: "keeps_all get \<Longrightarrow> dkeeps R st (override_value get od st)"
  unfolding override_value_def
  by (auto simp: R_refl intro!: keeps_bind keeps_need_overrides keeps_get split: option.splits)

lemma keeps_body: "de_eval env = ev \<Longrightarrow> keeps_all get \<Longrightarrow> dkeeps R st (getVarFlag_body env get var flag opts st)"
  unfolding getVarFlag_body_def Let_def
  apply (rule keeps_if, rule keeps_Ret, rule keeps_if, rule keeps_Ret, rule keeps_prod, rule keeps_bind)
   apply (intro keeps_rules keeps_override_value, assumption)
  apply (rule keeps_prod_app, rule keeps_local)
  apply (intro keeps_rules keeps_flag_ops keeps_expandWithRefs keeps_collect_removes keeps_apply_removes keeps_cache_opt)
  apply assumption+
  done

lemma keeps_getVarFlag_n: "de_eval env = ev \<Longrightarrow> keeps_all (getVarFlag_n n env)"
proof (induction n)
  case 0
  then show ?case by (simp add: keeps_all_def R_refl)
next
  case (Suc n)
  have "dkeeps R st (getVarFlag_n (Suc n) env var flag opts st)" for var flag opts st
    using keeps_body [OF Suc.prems Suc.IH [OF Suc.prems]] by simp
  then show ?case unfolding keeps_all_def by blast
qed

lemma keeps_getVarFlag: "de_eval env = ev \<Longrightarrow> dkeeps R st (getVarFlag env var flag opts st)"
  unfolding getVarFlag_def by (intro keeps_get keeps_getVarFlag_n)

lemma keeps_all_getVarFlag: "de_eval env = ev \<Longrightarrow> keeps_all (getVarFlag env)"
  unfolding getVarFlag_def by (rule keeps_getVarFlag_n)

lemma keeps_getVar: "de_eval env = ev \<Longrightarrow> dkeeps R st (getVar env var opts st)"
  unfolding getVar_def by (auto simp: R_refl intro!: keeps_bind keeps_getVarFlag)

end

section \<open>The variables the overrides depend on\<close>

locale finalize_relation = lookup_relation +
  assumes R_overridevars: "R st (st\<lparr>ds_overridevars := vs\<rparr>)"
    and R_finalize: "R st (internal_finalize st)"
begin

lemma keeps_getter: "de_eval env = ev \<Longrightarrow> dkeeps R st (need_overrides (getVarFlag env) st)"
  by (intro keeps_need_overrides keeps_all_getVarFlag)

lemma keeps_next_refs: "de_eval env = ev \<Longrightarrow> dkeeps R st (next_refs env new st)"
  unfolding next_refs_def by (intro keeps_fold keeps_rules keeps_getVar keeps_expandWithRefs keeps_all_getVarFlag)

lemma keeps_overridevars_loop: "de_eval env = ev \<Longrightarrow> dkeeps R st (overridevars_loop n env new st)"
proof (induction n arbitrary: new st)
  case 0
  then show ?case by (subst overridevars_loop.simps) (simp add: R_refl)
next
  case (Suc n)
  have "dkeeps R st (dbind (next_refs env new (st\<lparr>ds_overridevars := vs\<rparr>)) (overridevars_loop n env))" for vs
    by (rule keeps_step [OF R_overridevars], rule keeps_bind) (rule keeps_next_refs [OF Suc.prems], rule Suc.IH [OF Suc.prems])
  then show ?case by (subst overridevars_loop.simps) (simp add: R_refl)
qed

lemma keeps_update_overridevars: "de_eval env = ev \<Longrightarrow> dkeeps R st (setvar_update_overridevars env var v st)"
  unfolding setvar_update_overridevars_def
  by (intro keeps_bind keeps_expandWithRefs keeps_overridevars_loop keeps_all_getVarFlag) (simp_all add: R_finalize)

end

section \<open>Updates\<close>

locale update_relation = finalize_relation +
  assumes R_hist: "R st (st\<lparr>ds_hist := h\<rparr>)"
    and R_dict: "R st (st\<lparr>ds_dict := d\<rparr>)"
    and R_sets: "R st (st\<lparr>ds_sets := s\<rparr>)"
    and R_register: "R st (setvar_update_overrides var st)"
    and R_forget: "R st (st\<lparr>ds_overridedata := AList.delete var (ds_overridedata st)\<rparr>)"
    and R_unregister: "R st (st\<lparr>ds_overridedata := unregister_loop var a b (ds_overridedata st)\<rparr>)"
begin

lemma R_clear: "R st (clear_cache st)"
  unfolding clear_cache_def by (rule R_cache)

lemma R_put_flags: "R st (put_flags var fd st)"
  unfolding put_flags_def by (rule R_dict)

lemma R_put_flag: "R st (put_flag var flag v st)"
  unfolding put_flag_def by (rule R_put_flags)

lemma R_initVar: "R st (initVar var st)"
  unfolding initVar_def Let_def using R_clear R_dict by (auto intro: R_trans)

lemma R_shadow: "R st (makeShadowCopy var st)"
  unfolding makeShadowCopy_def by (auto simp: R_refl R_initVar R_dict split: option.splits)

lemma keeps_register:
  "dkeeps R (if P then setvar_update_overrides var st else st) m \<Longrightarrow> dkeeps R st m"
  by (rule keeps_step [rotated], assumption) (simp add: R_refl R_register)

lemma R_fresh_shadow: "R st (makeShadowCopy var (clear_cache st))"
  by (rule R_trans [OF R_clear R_shadow])

lemma keeps_record: "dkeeps R st (record_op env var v li st)"
  unfolding record_op_def by (auto simp: R_refl R_hist split: sum.splits)

lemma R_new_export:
  "R st (if P then st else case new_set [] st of (a, st') \<Rightarrow> put_flag exportlist content_flag (DSet a) st')"
  using R_trans [OF R_new_set [of st "[]"] R_put_flag] by (simp add: case_prod_beta R_refl)

lemma keeps_add_export: "dkeeps R st (add_export var st)"
  unfolding add_export_def Let_def
  apply (rule keeps_step [OF R_shadow [where var = exportlist]])
  apply (rule keeps_step [OF R_new_export [where P = "has_key (own_flags exportlist (makeShadowCopy exportlist st)) content_flag"]])
  apply (rule keeps_option, rule keeps_Exc, rule keeps_dval)
     apply (simp_all only: dkeeps.simps R_sets R_refl)
  done

lemma keeps_setVarFlag: "de_eval env = ev \<Longrightarrow> dkeeps R st (setVarFlag env var flag v li st)"
  unfolding setVarFlag_def Let_def
  apply (rule keeps_step [OF R_clear], rule keeps_bind, rule keeps_record)
  apply (rule keeps_step [OF R_trans [OF R_shadow [where var = var] R_put_flag [where var = var and flag = flag and v = v]]])
  apply (rule keeps_register [where P = "flag = default_flag \<and> CHR ''_'' \<in> set var" and var = var])
  apply (intro keeps_rules keeps_update_overridevars keeps_add_export, assumption)
  done

lemma keeps_delVarFlag: "dkeeps R st (delVarFlag env var flag li st)"
  unfolding delVarFlag_def Let_def
  apply (rule keeps_step [OF R_clear], rule keeps_option, rule keeps_Ret, rule keeps_if, rule keeps_Ret)
  apply (rule keeps_step [OF R_shadow [where var = var]], rule keeps_if, rule keeps_bind, rule keeps_record)
   apply (simp add: R_put_flags)
  apply (rule keeps_Ret)
  done

lemma keeps_flag_or_empty: "de_eval env = ev \<Longrightarrow> dkeeps R st (flag_or_empty env var flag st)"
  unfolding flag_or_empty_def by (intro keeps_rules keeps_getVarFlag)

lemma inner_eval [simp]: "de_eval (inner env) = de_eval env"
  by (simp add: inner_def)

lemma keeps_appendVarFlag: "de_eval env = ev \<Longrightarrow> dkeeps R st (appendVarFlag env var flag v li st)"
  unfolding appendVarFlag_def by (intro keeps_bind keeps_record keeps_flag_or_empty keeps_lift keeps_setVarFlag) simp_all

lemma keeps_prependVarFlag: "de_eval env = ev \<Longrightarrow> dkeeps R st (prependVarFlag env var flag v li st)"
  unfolding prependVarFlag_def by (intro keeps_bind keeps_record keeps_flag_or_empty keeps_lift keeps_setVarFlag) simp_all

lemma keeps_setVarFlags: "dkeeps R st (setVarFlags env var flags li st)"
proof -
  have one: "dkeeps R t (dbind (record_op env var None li t) (\<lambda>_ st2. Ret li' (put_flag var i v st2)))" for t li li' i v
    by (intro keeps_bind keeps_record) (simp add: R_put_flag)
  show ?thesis unfolding setVarFlags_def Let_def
    by (rule keeps_step [OF R_fresh_shadow [where var = var]], intro keeps_bind keeps_fold) (auto simp: R_refl intro: one)
qed

lemma keeps_delVarFlags: "dkeeps R st (delVarFlags env var li st)"
  unfolding delVarFlags_def
  by (rule keeps_step [OF R_fresh_shadow [where var = var]], intro keeps_bind keeps_record) (auto simp: R_put_flags R_dict split: option.splits)

lemma keeps_delVar: "dkeeps R st (delVar env var li st)"
  unfolding delVar_def Let_def
proof (rule keeps_step [OF R_clear], rule keeps_bind, rule keeps_record)
  fix a t
  let ?t = "put_flags var [] t"
  let ?u = "?t\<lparr>ds_overridedata := AList.delete var (ds_overridedata ?t)\<rparr>"
  have u: "R t ?u" by (rule R_trans [OF R_put_flags R_forget])
  then have "R t (?u\<lparr>ds_overridedata := unregister_loop var a b (ds_overridedata ?u)\<rparr>)" for a b
    by (rule R_trans [OF _ R_unregister])
  with u show "dkeeps R t (Ret () (?t\<lparr>ds_overridedata := if CHR ''_'' \<in> set var
       then unregister_loop var (before_last var) (after_last var var) (AList.delete var (ds_overridedata ?t)) else AList.delete var (ds_overridedata ?t)\<rparr>))"
    by simp
qed

lemma keeps_setVar_keyword: "de_eval env = ev \<Longrightarrow> dkeeps R st (setVar_keyword env var base kw ov v li st)"
  unfolding setVar_keyword_def Let_def
  apply (intro keeps_bind keeps_prod_app keeps_getVarFlag keeps_setVarFlag keeps_record, assumption)
    apply (intro keeps_rules)
   apply simp
  apply (rule keeps_register [where P = "CHR ''_'' \<in> set var" and var = base])
  apply (intro keeps_rules keeps_update_overridevars, assumption)
  done

lemma R_drop_ops: "R st (drop_ops var st)"
  unfolding drop_ops_def by (rule R_put_flags)

lemma keeps_drop_overriding: "de_eval env = ev \<Longrightarrow> dkeeps R st (drop_overriding env var st)"
  unfolding drop_overriding_def
  by (intro keeps_rules keeps_getter keeps_fold keeps_delVar) (auto simp: R_refl R_forget)

lemma keeps_setVar: "de_eval env = ev \<Longrightarrow> dkeeps R st (setVar env var v li st)"
  unfolding setVar_def Let_def
  apply (rule keeps_step [OF R_clear], rule keeps_option)
   apply (rule keeps_step [OF R_shadow [where var = var]], rule keeps_bind)
    apply (rule keeps_if, rule keeps_Ret, rule keeps_step [OF R_drop_ops [where var = var]], rule keeps_drop_overriding, assumption)
   apply (rule keeps_register [where P = "CHR ''_'' \<in> set var" and var = var])
   apply (rule keeps_step [OF R_put_flag [where var = var and flag = content_flag and v = v]], intro keeps_rules keeps_record keeps_update_overridevars, assumption)
  apply (intro keeps_prod keeps_setVar_keyword, assumption)
  done

lemma keeps_appendVar: "de_eval env = ev \<Longrightarrow> dkeeps R st (appendVar env var v li st)"
  unfolding appendVar_def by (intro keeps_bind keeps_record keeps_setVar) simp

lemma keeps_prependVar: "de_eval env = ev \<Longrightarrow> dkeeps R st (prependVar env var v li st)"
  unfolding prependVar_def by (intro keeps_bind keeps_record keeps_setVar) simp

lemma keeps_iter: "de_eval env = ev \<Longrightarrow> dkeeps R st (iter_vars env st)"
  unfolding iter_vars_def by (intro keeps_rules keeps_getter)

end

end
