(* ===== verification/BB_DataInv.thy ===== *)
theory BB_DataInv
  imports BB_DataFrame
begin

text \<open>
  Lookups leave the variables of a data store alone, and an invariant of the stores that are reached by any sequence of methods: the overriding variables are registered under the names they override,
  and the set of overrides belongs to the list of overrides. The iteration over a store yields exactly the variables that a lookup finds.
\<close>

section \<open>Lookups\<close>

definition same_vars :: "dsmart \<Rightarrow> dsmart \<Rightarrow> bool" where
  "same_vars st t \<longleftrightarrow> ds_dict t = ds_dict st \<and> ds_data t = ds_data st \<and> ds_overridedata t = ds_overridedata st \<and>
     ds_overridevars t = ds_overridevars st \<and> ds_tracking t = ds_tracking st \<and> ds_varhistory t = ds_varhistory st \<and> ds_hist t = ds_hist st \<and>
     map_of (ds_sets st) \<subseteq>\<^sub>m map_of (ds_sets t)"

definition eval_pure :: "(string \<Rightarrow> dsmart \<Rightarrow> string dres) \<Rightarrow> bool" where
  "eval_pure ev \<longleftrightarrow> (\<forall>code st. dkeeps same_vars st (ev code st))"

lemma same_vars_refl: "same_vars st st"
  by (simp add: same_vars_def)

lemma same_vars_trans: "same_vars st t \<Longrightarrow> same_vars t u \<Longrightarrow> same_vars st u"
  by (auto simp: same_vars_def intro: map_le_trans)

lemma fold_max_le: "(m :: nat) \<le> fold max xs m"
  by (induction xs arbitrary: m) (simp, metis fold_simps(2) max.boundedE)

lemma fold_max_mem: "(x :: nat) \<in> set xs \<Longrightarrow> x \<le> fold max xs m"
proof (induction xs arbitrary: m)
  case (Cons y ys)
  then show ?case using fold_max_le [of "max y m" ys] by auto
qed simp

lemma new_set_fresh: "map_of (ds_sets st) (fst (new_set xs st)) = None"
proof -
  let ?a = "fst (new_set xs st)"
  have "?a \<notin> set (dict_keys (ds_sets st))" using fold_max_mem [of ?a "dict_keys (ds_sets st)" 0] by (auto simp: new_set_def Let_def)
  then show ?thesis by (simp add: map_of_eq_None_iff)
qed

lemma new_set_same: "same_vars st (snd (new_set xs st))"
  using new_set_fresh [of st xs] by (auto simp: same_vars_def new_set_def Let_def map_le_def dom_def)

interpretation pure: lookup_relation ev "\<lambda>st t. eval_pure ev \<longrightarrow> same_vars st t" for ev
proof
  fix st code
  show "dkeeps (\<lambda>st t. eval_pure ev \<longrightarrow> same_vars st t) st (ev code st)"
  proof (cases "eval_pure ev")
    case True
    then have "dkeeps same_vars st (ev code st)" by (simp add: eval_pure_def)
    with True show ?thesis by (cases "ev code st") simp_all
  next
    case False
    then show ?thesis by (cases "ev code st") simp_all
  qed
qed (use same_vars_refl same_vars_trans new_set_same in \<open>auto simp: same_vars_def put_overrides_def\<close>)

text \<open>The relation says nothing any more once an inline Python expression, evaluated in a store with the same variables, has changed them.\<close>

definition changed_inline :: "(string \<Rightarrow> dsmart \<Rightarrow> string dres) \<Rightarrow> dsmart \<Rightarrow> bool" where
  "changed_inline ev st \<longleftrightarrow> (\<exists>code s. same_vars st s \<and> \<not> dkeeps same_vars s (ev code s))"

lemma changed_inline_back: "same_vars st t \<Longrightarrow> changed_inline ev t \<Longrightarrow> changed_inline ev st"
  unfolding changed_inline_def using same_vars_trans by blast

interpretation blame: lookup_relation ev "\<lambda>st t. same_vars st t \<or> changed_inline ev st" for ev
proof
  fix st code
  show "dkeeps (\<lambda>st t. same_vars st t \<or> changed_inline ev st) st (ev code st)"
  proof (cases "dkeeps same_vars st (ev code st)")
    case True
    then show ?thesis by (cases "ev code st") simp_all
  next
    case False
    then have "changed_inline ev st" unfolding changed_inline_def using same_vars_refl by blast
    then show ?thesis by (cases "ev code st") simp_all
  qed
next
  fix st t u
  assume "same_vars st t \<or> changed_inline ev st" "same_vars t u \<or> changed_inline ev t"
  then show "same_vars st u \<or> changed_inline ev st" using same_vars_trans changed_inline_back by blast
qed (use same_vars_refl new_set_same in \<open>auto simp: same_vars_def put_overrides_def\<close>)

section \<open>The invariant of a store\<close>

definition overriding_name :: "string \<Rightarrow> string \<Rightarrow> string \<Rightarrow> bool" where
  "overriding_name v r ov \<longleftrightarrow> r = v @ ''_'' @ ov \<or> (r = ov \<and> CHR ''_'' \<notin> set r \<and> v = butlast r)"

definition registered_ok :: "(string, (string \<times> string) list) dict \<Rightarrow> bool" where
  "registered_ok od \<longleftrightarrow> (\<forall>v. distinct (dd_get od v) \<and> (\<forall>(r, ov) \<in> set (dd_get od v). override_match ov \<and> overriding_name v r ov))"

definition synced :: "dsmart \<Rightarrow> bool" where
  "synced st \<longleftrightarrow> (\<forall>ovs. ds_overrides st = Some ovs \<longrightarrow> ds_overridesset st = Some (remdups ovs))"

definition store_inv :: "dsmart \<Rightarrow> bool" where
  "store_inv st \<longleftrightarrow> registered_ok (ds_overridedata st) \<and> synced st"

definition eval_inv :: "(string \<Rightarrow> dsmart \<Rightarrow> string dres) \<Rightarrow> bool" where
  "eval_inv ev \<longleftrightarrow> (\<forall>code st. dkeeps (\<lambda>st t. store_inv st \<longrightarrow> store_inv t) st (ev code st))"

lemma last_parts:
  assumes "CHR ''_'' \<in> set s"
  obtains a b where "s = a @ CHR ''_'' # b" "CHR ''_'' \<notin> set b" "before_last s = a" "\<And>var. after_last var s = drop (length a + 1) var"
proof -
  from assms obtain a b where "s = a @ CHR ''_'' # b" "CHR ''_'' \<notin> set b" by (metis split_list_last)
  then show thesis using that by (simp add: before_last_def after_last_def rsplit1_snoc)
qed

lemma no_last_parts: "CHR ''_'' \<notin> set s \<Longrightarrow> before_last s = butlast s \<and> after_last var s = var"
  by (simp add: before_last_def after_last_def rsplit1_none)

lemma first_parts: "overriding_name (before_last var) var (after_last var var)"
proof (cases "CHR ''_'' \<in> set var")
  case True
  then obtain a b where "var = a @ CHR ''_'' # b" "before_last var = a" "after_last var var = drop (length a + 1) var" by (metis last_parts)
  then show ?thesis by (simp add: overriding_name_def)
qed (simp add: no_last_parts overriding_name_def)

lemma next_parts:
  assumes "overriding_name s var ov" "CHR ''_'' \<in> set s"
  shows "overriding_name (before_last s) var (after_last var s)"
proof -
  from assms(2) obtain a b where ab: "s = a @ CHR ''_'' # b" "before_last s = a" "after_last var s = drop (length a + 1) var" by (metis last_parts)
  have "CHR ''_'' \<in> set (butlast var) \<Longrightarrow> CHR ''_'' \<in> set var" by (rule in_set_butlastD)
  with assms have "var = s @ ''_'' @ ov" by (auto simp: overriding_name_def)
  with ab show ?thesis by (simp add: overriding_name_def)
qed

lemma dd_get_register:
  "dd_get (register s var ov od) v = (if v = s \<and> (var, ov) \<notin> set (dd_get od s) then dd_get od s @ [(var, ov)] else dd_get od v)"
  by (auto simp: register_def Let_def dd_get_def has_key_def split: option.splits if_splits)

lemma registered_ok_register:
  "registered_ok od \<Longrightarrow> override_match ov \<Longrightarrow> overriding_name s var ov \<Longrightarrow> registered_ok (register s var ov od)"
  by (auto simp: registered_ok_def dd_get_register)

lemma registered_ok_update:
  "registered_ok od \<Longrightarrow> overriding_name s var ov \<Longrightarrow> registered_ok (update_overrides_loop var s ov od)"
proof (induction var s ov od rule: update_overrides_loop.induct)
  case (1 var s ov od)
  show ?case
  proof (cases "truthy ov \<and> override_match ov")
    case True
    then have ok: "registered_ok (register s var ov od)" using 1 registered_ok_register by blast
    show ?thesis
    proof (cases "CHR ''_'' \<in> set s \<and> before_last s \<noteq> []")
      case rec: True
      with 1(1) [OF True refl _ refl refl] ok next_parts [OF "1.prems"(2)]
      have "registered_ok (update_overrides_loop var (before_last s) (after_last var s) (register s var ov od))" by blast
      with True rec show ?thesis by (subst update_overrides_loop.simps) (simp add: Let_def)
    next
      case False
      with True ok show ?thesis by (subst update_overrides_loop.simps) (auto simp: Let_def)
    qed
  next
    case False
    with "1.prems" show ?thesis by (subst update_overrides_loop.simps) auto
  qed
qed

text \<open>Removing entries.\<close>

definition fewer :: "(string, (string \<times> string) list) dict \<Rightarrow> (string, (string \<times> string) list) dict \<Rightarrow> bool" where
  "fewer od od' \<longleftrightarrow> (\<forall>v. set (dd_get od' v) \<subseteq> set (dd_get od v) \<and> (distinct (dd_get od v) \<longrightarrow> distinct (dd_get od' v)))"

lemma registered_ok_fewer: "registered_ok od \<Longrightarrow> fewer od od' \<Longrightarrow> registered_ok od'"
  unfolding registered_ok_def fewer_def by blast

lemma fewer_trans: "fewer a b \<Longrightarrow> fewer b c \<Longrightarrow> fewer a c"
  unfolding fewer_def by blast

lemma fewer_delete: "fewer od (AList.delete var od)"
  by (auto simp: fewer_def dd_get_def delete_conv' split: option.splits if_splits)

lemma fewer_remove1: "fewer od (if P then dict_set s (remove1 x (dd_get od s)) od else od)"
  using set_remove1_subset [of x "dd_get od s"] by (auto simp: fewer_def)

lemma fewer_unregister: "fewer od (unregister_loop var s ov od)"
proof (induction var s ov od rule: unregister_loop.induct)
  case (1 var s ov od)
  let ?od1 = "if has_key od s then dict_set s (remove1 (var, ov) (dd_get od s)) od else od"
  have f: "fewer od ?od1" by (rule fewer_remove1)
  show ?case
  proof (cases "truthy ov \<and> islower ov \<and> CHR ''_'' \<in> set s \<and> before_last s \<noteq> []")
    case True
    then have "fewer ?od1 (unregister_loop var (before_last s) (after_last var s) ?od1)" using 1(1) [OF _ refl _ refl refl] by blast
    with True fewer_trans [OF f] show ?thesis by (subst unregister_loop.simps) (simp add: Let_def)
  next
    case False
    with f show ?thesis by (subst unregister_loop.simps) (auto simp: Let_def fewer_def)
  qed
qed

lemmas store_inv_rules = registered_ok_fewer [OF _ fewer_unregister] registered_ok_fewer [OF _ fewer_delete] registered_ok_update [OF _ first_parts]

interpretation inv: update_relation ev "\<lambda>st t. eval_inv ev \<longrightarrow> store_inv st \<longrightarrow> store_inv t" for ev
proof
  fix st code
  show "dkeeps (\<lambda>st t. eval_inv ev \<longrightarrow> store_inv st \<longrightarrow> store_inv t) st (ev code st)"
  proof (cases "eval_inv ev")
    case True
    then have "dkeeps (\<lambda>st t. store_inv st \<longrightarrow> store_inv t) st (ev code st)" by (simp add: eval_inv_def)
    with True show ?thesis by (cases "ev code st") simp_all
  next
    case False
    then show ?thesis by (cases "ev code st") simp_all
  qed
qed (use store_inv_rules in \<open>auto simp: store_inv_def synced_def put_overrides_def new_set_def Let_def setvar_update_overrides_def internal_finalize_def\<close>)

text \<open>One call of a method, whether it returns or raises. Renaming is not among them: it changes names textually, see \<open>renameVar\<close>.\<close>

definition ends :: "'a dres \<Rightarrow> dsmart \<Rightarrow> bool" where
  "ends m t \<longleftrightarrow> (\<exists>a. m = Ret a t) \<or> (\<exists>e. m = Exc e t)"

inductive ds_step :: "dsenv \<Rightarrow> dsmart \<Rightarrow> dsmart \<Rightarrow> bool" for env :: dsenv where
  step_get: "ends (getVarFlag env var flag opts st) t \<Longrightarrow> ds_step env st t"
| step_set: "ends (setVar env var v li st) t \<Longrightarrow> ds_step env st t"
| step_append: "ends (appendVar env var v li st) t \<Longrightarrow> ds_step env st t"
| step_prepend: "ends (prependVar env var v li st) t \<Longrightarrow> ds_step env st t"
| step_del: "ends (delVar env var li st) t \<Longrightarrow> ds_step env st t"
| step_setflag: "ends (setVarFlag env var flag v li st) t \<Longrightarrow> ds_step env st t"
| step_appendflag: "ends (appendVarFlag env var flag v li st) t \<Longrightarrow> ds_step env st t"
| step_prependflag: "ends (prependVarFlag env var flag v li st) t \<Longrightarrow> ds_step env st t"
| step_setflags: "ends (setVarFlags env var flags li st) t \<Longrightarrow> ds_step env st t"
| step_delflag: "ends (delVarFlag env var flag li st) t \<Longrightarrow> ds_step env st t"
| step_delflags: "ends (delVarFlags env var li st) t \<Longrightarrow> ds_step env st t"
| step_iter: "ends (iter_vars env st) t \<Longrightarrow> ds_step env st t"
| step_copy: "ds_step env st (createCopy st)"
| step_track: "ds_step env st (enableTracking st)"
| step_untrack: "ds_step env st (disableTracking st)"

inductive_cases ds_stepE: "ds_step env st t"

lemma keeps_ends: "dkeeps R st m \<Longrightarrow> ends m t \<Longrightarrow> R st t"
  by (auto simp: ends_def)

lemma ds_step_inv:
  assumes "ds_step env st t" "eval_inv (de_eval env)" "store_inv st"
  shows "store_inv t"
proof -
  let ?R = "\<lambda>st t. eval_inv (de_eval env) \<longrightarrow> store_inv st \<longrightarrow> store_inv t"
  have "?R st t" using assms(1)
  proof cases
    case step_copy
    then show ?thesis by (auto simp: createCopy_def DataSmart_def Let_def case_prod_beta store_inv_def synced_def)
  next
    case step_track
    then show ?thesis by (simp add: enableTracking_def store_inv_def synced_def)
  next
    case step_untrack
    then show ?thesis by (simp add: disableTracking_def store_inv_def synced_def)
  qed (erule keeps_ends [rotated], rule inv.keeps_getVarFlag inv.keeps_setVar inv.keeps_appendVar inv.keeps_prependVar inv.keeps_delVar inv.keeps_setVarFlag
      inv.keeps_appendVarFlag inv.keeps_prependVarFlag inv.keeps_setVarFlags inv.keeps_delVarFlag inv.keeps_delVarFlags inv.keeps_iter; rule refl)+
  with assms show ?thesis by blast
qed

text \<open>
  An inline Python expression gets the store as \<^verbatim>\<open>d\<close> and acts on it by calls of these methods, in which further expressions may be evaluated. \<open>n\<close> is the depth of this nesting; on the lowest
  level the expressions leave the store as it is.
\<close>

primrec calls_methods :: "nat \<Rightarrow> (string \<Rightarrow> dsmart \<Rightarrow> string dres) \<Rightarrow> bool" where
  "calls_methods 0 ev \<longleftrightarrow> (\<forall>code st. dkeeps (=) st (ev code st))"
| "calls_methods (Suc n) ev \<longleftrightarrow>
     (\<forall>code st. dkeeps (\<lambda>s t. \<exists>env. calls_methods n (de_eval env) \<and> ds_step env s t)\<^sup>*\<^sup>* st (ev code st))"

lemma dkeeps_mono: "dkeeps R st m \<Longrightarrow> (\<And>t. R st t \<Longrightarrow> S st t) \<Longrightarrow> dkeeps S st m"
  by (cases m) simp_all

lemma calls_methods_inv: "calls_methods n ev \<Longrightarrow> eval_inv ev"
proof (induction n arbitrary: ev)
  case 0
  show ?case unfolding eval_inv_def
  proof (intro allI)
    fix code st
    have "dkeeps (=) st (ev code st)" using 0 by simp
    then show "dkeeps (\<lambda>st t. store_inv st \<longrightarrow> store_inv t) st (ev code st)" by (rule dkeeps_mono) simp
  qed
next
  case (Suc n)
  have "store_inv t" if "(\<lambda>s t. \<exists>env. calls_methods n (de_eval env) \<and> ds_step env s t)\<^sup>*\<^sup>* st t" "store_inv st" for st t
    using that by (induction rule: rtranclp_induct) (use ds_step_inv Suc.IH in blast)+
  then show ?case using Suc.prems unfolding eval_inv_def calls_methods.simps by (blast intro: dkeeps_mono)
qed

lemma store_inv_initial: "store_inv (DataSmart h)"
  by (simp add: DataSmart_def case_prod_beta store_inv_def registered_ok_def synced_def Let_def)

section \<open>Iteration\<close>

lemma key_step_spec:
  assumes "dict_wf d"
  shows "fold (key_step ovs) d (D, K) =
    (D', K') \<Longrightarrow> set K' = set K \<union> {k. k \<notin> set D \<and> k \<notin> set ovs \<and> (\<exists>fd. map_of d k = Some fd \<and> fd \<noteq> [])} \<and>
     set D' = set D \<union> {k. k \<notin> set ovs \<and> map_of d k = Some []}"
  using assms
proof (induction d arbitrary: D K)
  case (Cons p d)
  obtain key fd where p: "p = (key, fd)" by (cases p)
  with Cons.prems(2) have key: "key \<notin> fst ` set d" "dict_wf d" by simp_all
  obtain D1 K1 where step: "key_step ovs p (D, K) = (D1, K1)" by (cases "key_step ovs p (D, K)")
  with Cons.prems(1) have "fold (key_step ovs) d (D1, K1) = (D', K')" by simp
  note IH = Cons.IH [OF this key(2)]
  from key have none: "map_of d key = None" by (simp add: map_of_eq_None_iff)
  show ?case using IH step none by (auto simp: key_step_def p split: if_splits)
qed auto

lemma keylist_spec:
  assumes "\<forall>d \<in> set ls. dict_wf d"
  shows "set (snd (keylist ovs ls D)) = {k. k \<notin> set D \<and> k \<notin> set ovs \<and> (\<exists>fd. find_layer ls k = Some fd \<and> fd \<noteq> [])}"
  using assms
proof (induction ls arbitrary: D)
  case (Cons d ls)
  obtain D1 K1 where step: "fold (key_step ovs) d (D, []) = (D1, K1)" by (cases "fold (key_step ovs) d (D, [])")
  from Cons.prems have wf: "dict_wf d" "\<forall>d \<in> set ls. dict_wf d" by simp_all
  note spec = key_step_spec [OF wf(1) step] and IH = Cons.IH [OF wf(2), of D1]
  have "set (snd (keylist ovs (d # ls) D)) = set K1 \<union> set (snd (keylist ovs ls D1))"
    using step by (simp add: Let_def case_prod_beta set_fold_add_new)
  then show ?case using spec IH by (auto split: option.splits)
qed simp

definition overridden :: "dsmart \<Rightarrow> string \<Rightarrow> bool" where
  "overridden st v \<longleftrightarrow> (\<exists>oset. ds_overridesset st = Some oset \<and> (\<exists>(r, ov) \<in> set (dd_get (ds_overridedata st) v). is_active oset ov))"

definition visible :: "dsmart \<Rightarrow> string \<Rightarrow> bool" where
  "visible st v \<longleftrightarrow> (\<exists>fd. fst (findVar v st) = Some fd \<and> fd \<noteq> [])"

lemma overridden_vars_spec: "dict_wf od \<Longrightarrow> set (overridden_vars oset od) = {v. \<exists>(r, ov) \<in> set (dd_get od v). is_active oset ov}"
  by (force simp: overridden_vars_def list_ex_iff dd_get_def split: option.splits dest: map_of_SomeD)

section \<open>Properties\<close>

text \<open>A store for the examples: \<open>A\<close> refers to \<open>B\<close>, and the override \<open>p\<close> replaces \<open>B\<close>.\<close>

definition sample_frame :: frame where
  "sample_frame = \<lparr>fr_value = None, fr_var = None, fr_file = ''a.conf'', fr_line = ''1'', fr_func = ''f''\<rparr>"

definition sample_env :: dsenv where
  "sample_env = \<lparr>de_meta = (\<lambda>_. False), de_caller = sample_frame, de_self = sample_frame, de_text = (\<lambda>_. []), de_compile = (\<lambda>_. Inr ()),
     de_parse = (\<lambda>_. Inr ([], [], [])), de_eval = (\<lambda>_ st. Ret [] st), de_rounds = 4, de_depth = 5\<rparr>"

definition set_str :: "string \<Rightarrow> string \<Rightarrow> dsmart \<Rightarrow> dsmart" where
  "set_str var v st = (case setVar sample_env var (DStr v) [] st of Ret _ t \<Rightarrow> t | _ \<Rightarrow> st)"

definition sample_store :: dsmart where
  "sample_store = set_str ''OVERRIDES'' ''q:p'' (set_str ''B_p'' ''z'' (set_str ''B'' ''y'' (set_str ''A'' ''x${B}'' (DataSmart COWDictBase))))"

lemma sample_eval_pure: "eval_pure (de_eval sample_env)"
  by (simp add: eval_pure_def sample_env_def same_vars_refl)

lemma sample_calls_methods: "calls_methods 0 (de_eval sample_env)"
  by (simp add: sample_env_def)

lemma set_str_reaches: "(ds_step sample_env)\<^sup>*\<^sup>* st t \<Longrightarrow> (ds_step sample_env)\<^sup>*\<^sup>* st (set_str var v t)"
proof -
  assume st: "(ds_step sample_env)\<^sup>*\<^sup>* st t"
  have "ds_step sample_env t (set_str var v t) \<or> set_str var v t = t"
    by (auto simp: set_str_def ends_def split: dres.splits intro!: step_set [of _ var "DStr v" "[]"])
  with st show ?thesis by (metis rtranclp.rtrancl_into_rtrancl)
qed



text \<open>C22. In every store that is reached from an empty one by lookups, \<^verbatim>\<open>setVar\<close>, \<^verbatim>\<open>appendVar\<close>, \<^verbatim>\<open>prependVar\<close>, \<^verbatim>\<open>delVar\<close>, the six methods on flags, iteration,
  copies and switching the tracking, returning or raising (not by \<^verbatim>\<open>renameVar\<close> and \<^verbatim>\<open>expandKeys\<close>, which rename textually), when inline Python expressions act on the store only by calls of
  these methods, nested to any depth: an overriding variable is registered under a name it extends by an underscore and its override, which begins with a small letter or a digit, or, when it has no underscore at all,
  under itself without its last character; nothing is registered twice, and the set of overrides belongs to the list of overrides whenever there is one.\<close>

theorem store_invariant:
  assumes "calls_methods n (de_eval env)" and "(ds_step env)\<^sup>*\<^sup>* (DataSmart h) st"
  shows "store_inv st"
  using assms(2)
proof (induction rule: rtranclp_induct)
  case base
  show ?case by (rule store_inv_initial)
next
  case (step t u)
  then show ?case using ds_step_inv [OF _ calls_methods_inv [OF assms(1)]] by blast
qed

theorem store_invariant_witness:
  "store_inv sample_store \<and> dd_get (ds_overridedata sample_store) ''B'' = [(''B_p'', ''p'')]"
proof
  have "(ds_step sample_env)\<^sup>*\<^sup>* (DataSmart COWDictBase) sample_store"
    unfolding sample_store_def by (intro set_str_reaches) simp
  then show "store_inv sample_store" by (rule store_invariant [OF sample_calls_methods])
  show "dd_get (ds_overridedata sample_store) ''B'' = [(''B_p'', ''p'')]" by code_simp
qed

text \<open>C38. The iteration over a store whose overrides are known raises nothing, changes nothing and yields exactly the variables that a lookup finds and that are not deleted, and the names with an active overriding
  variable.\<close>

theorem iter_vars_exact:
  assumes "\<forall>d \<in> set (ds_dict st # ds_data st). dict_wf d" and "dict_wf (ds_overridedata st)"
    and "ds_overrides st = Some ovs" and "synced st"
  shows "\<exists>ks. iter_vars env st = Ret ks st \<and> set ks = {v. visible st v \<or> overridden st v}"
proof -
  have oset: "ds_overridesset st = Some (remdups ovs)" using assms(3,4) by (simp add: synced_def)
  let ?O = "if list_all (\<lambda>(var, rs). rs = []) (ds_overridedata st) then [] else overridden_vars (remdups ovs) (ds_overridedata st)"
  have "dd_get (ds_overridedata st) v = []" if "list_all (\<lambda>(var, rs). rs = []) (ds_overridedata st)" for v
    using that by (auto simp: list_all_iff dd_get_def split: option.splits dest: map_of_SomeD)
  then have O: "set ?O = {v. overridden st v}"
    using overridden_vars_spec [OF assms(2), of "remdups ovs"] oset by (auto simp: overridden_def)
  have "iter_vars env st = Ret (snd (keylist ?O (ds_dict st # ds_data st) []) @ ?O) st"
    using assms(3) oset by (simp add: iter_vars_def need_overrides_def)
  moreover have "set (snd (keylist ?O (ds_dict st # ds_data st) []) @ ?O) = {v. visible st v \<or> overridden st v}"
    using keylist_spec [OF assms(1), of ?O "[]"] O by (auto simp: visible_def findVar_def)
  ultimately show ?thesis by blast
qed

text \<open>The sample after a first lookup, with a deleted variable.\<close>

definition sample_looked_up :: dsmart where
  "sample_looked_up = (case getVar sample_env ''B'' expanded sample_store of Ret _ t \<Rightarrow> (case delVar sample_env ''A'' [] t of Ret _ u \<Rightarrow> u | _ \<Rightarrow> t) | _ \<Rightarrow> sample_store)"

theorem iter_vars_exact_witness:
  "\<exists>ks. iter_vars sample_env sample_looked_up = Ret ks sample_looked_up \<and> ''B'' \<in> set ks \<and> ''A'' \<notin> set ks"
proof -
  have dicts: "list_all dict_wf (ds_dict sample_looked_up # ds_data sample_looked_up)" "dict_wf (ds_overridedata sample_looked_up)"
    by code_simp+
  have ovs: "ds_overrides sample_looked_up = Some [''q'', ''p'']" "ds_overridesset sample_looked_up = Some (remdups [''q'', ''p''])" by code_simp+
  then have syn: "synced sample_looked_up" by (simp add: synced_def)
  have "fst (findVar ''A'' sample_looked_up) = Some []" "dd_get (ds_overridedata sample_looked_up) ''A'' = []"
      "dd_get (ds_overridedata sample_looked_up) ''B'' = [(''B_p'', ''p'')]" "is_active (remdups [''q'', ''p'']) ''p''" by code_simp+
  then have "\<not> visible sample_looked_up ''A''" "\<not> overridden sample_looked_up ''A''" "overridden sample_looked_up ''B''"
    using ovs by (simp_all add: visible_def overridden_def)
  moreover obtain ks where "iter_vars sample_env sample_looked_up = Ret ks sample_looked_up"
      "set ks = {v. visible sample_looked_up v \<or> overridden sample_looked_up v}"
    using iter_vars_exact [OF dicts(1) [unfolded list_all_iff] dicts(2) ovs(1) syn, where env = sample_env] by blast
  ultimately show ?thesis by blast
qed

end
