(* ===== verification/BB_DataLaws.thy ===== *)
theory BB_DataLaws
  imports BB_DataInv
begin

text \<open>
  The laws of the data store: a variable that was set has the value it was set to, appending and prepending add to the value, the active override with the highest priority decides,
  removing takes exactly the listed words out of a value.
\<close>

section \<open>Lookups without expansion\<close>

text \<open>A lookup of a variable that nothing overrides reads its own flags.\<close>

definition plain_value :: "flagdict option \<Rightarrow> dval option" where
  "plain_value lv =
     (case lv of None \<Rightarrow> None
      | Some fd \<Rightarrow> (case map_of fd content_flag of Some v \<Rightarrow> Some v | None \<Rightarrow> map_of fd default_flag))"

definition no_set :: "dval option \<Rightarrow> bool" where
  "no_set v \<longleftrightarrow> (\<forall>a. v \<noteq> Some (DSet a))"

lemma copy_plain [simp]: "no_set (Some v) \<Longrightarrow> copy_dval v st = (v, st)"
  by (cases v) (simp_all add: no_set_def)

lemma local_value_plain: "no_set (plain_value lv) \<Longrightarrow> local_value content_flag unexpanded lv st = (plain_value lv, st)"
  by (auto simp: local_value_def plain_value_def unexpanded_def expanded_def split: option.splits)

definition ops_in :: "string \<Rightarrow> flagdict option \<Rightarrow> dval option" where
  "ops_in kw lv = (case lv of None \<Rightarrow> None | Some fd \<Rightarrow> map_of fd kw)"

lemma local_ops_content: "\<not> go_parsing opts \<Longrightarrow> local_ops kw content_flag opts lv = ops_in kw lv"
  by (simp add: local_ops_def ops_in_def)

lemma unexpanded_opts [simp]:
  "\<not> go_expand unexpanded" "\<not> go_retparser unexpanded" "\<not> go_parsing unexpanded" "\<not> go_noweakdefault unexpanded"
  by (simp_all add: unexpanded_def expanded_def)

text \<open>The pending operations applied in the order of the method.\<close>

definition pending :: "lookup \<Rightarrow> string \<Rightarrow> (dval \<Rightarrow> dval \<Rightarrow> dval result) \<Rightarrow> flagdict option \<Rightarrow> dval option \<Rightarrow> dsmart \<Rightarrow> dval option dres" where
  "pending get kw comb lv v st = (case ops_in kw lv of None \<Rightarrow> Ret v st | Some ops \<Rightarrow> flag_ops get comb ops v st)"

lemma body_plain:
  assumes "findVar var st = (lv, None)" "no_set (plain_value lv)" "ops_in remove_kw lv = None"
  shows "getVarFlag_body env get var content_flag unexpanded st =
    dbind (pending get append_kw (\<lambda>r w. py_add w r) lv (plain_value lv) st) (\<lambda>v st1.
    dbind (pending get prepend_kw py_add lv v st1) (\<lambda>w st2. Ret (w, None) st2))"
  using assms by (simp add: getVarFlag_body_def local_value_plain local_ops_content pending_def)

lemma getVar_body: "0 < de_depth env \<Longrightarrow> getVarFlag env var flag opts st = getVarFlag_body env (getVarFlag_n (de_depth env - 1) env) var flag opts st"
  by (cases "de_depth env") (simp_all add: getVarFlag_def)

section \<open>Setting\<close>

lemma map_of_register: "k \<noteq> s \<Longrightarrow> map_of (register s var ov od) k = map_of od k"
  by (simp add: register_def Let_def)

lemma map_of_update_overrides: "length s < length k \<Longrightarrow> map_of (update_overrides_loop var s ov od) k = map_of od k"
proof (induction var s ov od rule: update_overrides_loop.induct)
  case (1 var s ov od)
  then have reg: "map_of (register s var ov od) k = map_of od k" by (auto intro: map_of_register)
  show ?case
  proof (cases "(truthy ov \<and> override_match ov) \<and> CHR ''_'' \<in> set s \<and> before_last s \<noteq> []")
    case True
    then have "map_of (update_overrides_loop var (before_last s) (after_last var s) (register s var ov od)) k = map_of (register s var ov od) k"
      using 1 before_last_shorter [of s] by (intro 1(1)) auto
    with True reg show ?thesis by (subst update_overrides_loop.simps) (simp add: Let_def)
  next
    case False
    with reg show ?thesis by (subst update_overrides_loop.simps) (auto simp: Let_def)
  qed
qed

lemma before_last_length: "var \<noteq> [] \<Longrightarrow> length (before_last var) < length var"
  using before_last_shorter [of var] no_last_parts [of var] by (cases "CHR ''_'' \<in> set var") auto

lemma setvar_update_keeps: "var \<noteq> [] \<Longrightarrow> map_of (ds_overridedata (setvar_update_overrides var st)) var = map_of (ds_overridedata st) var"
  by (simp add: setvar_update_overrides_def map_of_update_overrides before_last_length)

text \<open>What is left of the flags and the override data of a variable when it gets its new value.\<close>

definition stripped :: "string \<Rightarrow> dsmart \<Rightarrow> bool" where
  "stripped var st \<longleftrightarrow> (\<forall>kw \<in> set setvar_keyword. map_of (own_flags var st) kw = None)"

lemma stripped_dict: "ds_dict t = ds_dict st \<Longrightarrow> stripped var t = stripped var st"
  by (simp add: stripped_def own_flags_def)

lemma drop_ops_stripped: "stripped var (drop_ops var st)"
  by (auto simp: stripped_def drop_ops_def put_flags_def own_flags_def setvar_keyword_def delete_conv')

lemma put_flag_stripped: "stripped var st \<Longrightarrow> stripped var (put_flag var content_flag v st)"
  by (auto simp: stripped_def put_flag_def put_flags_def own_flags_def setvar_keyword_def)

lemma record_op_Ret: "record_op env var v li st = Ret u t \<Longrightarrow> \<exists>h. t = st\<lparr>ds_hist := h\<rparr>"
  by (auto simp: record_op_def split: sum.splits)

lemma delVar_stripped: "delVar env a li st = Ret u t \<Longrightarrow> stripped var st \<Longrightarrow> stripped var t"
  by (auto simp: delVar_def Let_def clear_cache_def put_flags_def stripped_def own_flags_def dest!: record_op_Ret)

lemma delVars_stripped: "dfold (\<lambda>a _ st. delVar env a [] st) as () st = Ret u t \<Longrightarrow> stripped var st \<Longrightarrow> stripped var t"
  by (induction as arbitrary: st) (auto dest: delVar_stripped)

definition same_dicts :: "dsmart \<Rightarrow> dsmart \<Rightarrow> bool" where
  "same_dicts st t \<longleftrightarrow> ds_dict t = ds_dict st \<and> ds_data t = ds_data st \<and> ds_overridedata t = ds_overridedata st"

interpretation dicts: finalize_relation ev "\<lambda>st t. eval_pure ev \<longrightarrow> same_dicts st t" for ev
proof
  fix st code
  show "dkeeps (\<lambda>st t. eval_pure ev \<longrightarrow> same_dicts st t) st (ev code st)"
    using pure.R_eval [of ev st code] by (cases "ev code st") (auto simp: same_dicts_def same_vars_def)
qed (auto simp: same_dicts_def put_overrides_def new_set_def Let_def internal_finalize_def)

lemma update_overridevars_dicts:
  "eval_pure (de_eval env) \<Longrightarrow> setvar_update_overridevars env var v st = Ret u t \<Longrightarrow> same_dicts st t"
  using dicts.keeps_update_overridevars [of env, OF refl, of st var v] by simp

text \<open>Only the variables in \<open>A\<close> were changed.\<close>

definition only_in :: "string set \<Rightarrow> dsmart \<Rightarrow> dsmart \<Rightarrow> bool" where
  "only_in A st t \<longleftrightarrow> ds_data t = ds_data st \<and> (\<forall>k. k \<notin> A \<longrightarrow> map_of (ds_dict t) k = map_of (ds_dict st) k)"

lemma only_in_refl: "only_in A st st"
  by (simp add: only_in_def)

lemma only_in_trans: "only_in A st t \<Longrightarrow> only_in A t u \<Longrightarrow> only_in A st u"
  by (simp add: only_in_def)

lemma only_in_find: "only_in A st t \<Longrightarrow> k \<notin> A \<Longrightarrow> fst (findVar k t) = fst (findVar k st)"
  by (simp add: only_in_def findVar_def)

lemma same_dicts_only_in: "same_dicts st t \<Longrightarrow> only_in A st t"
  by (simp add: same_dicts_def only_in_def)

lemma shadow_only_in: "var \<in> A \<Longrightarrow> only_in A st (makeShadowCopy var st)"
  by (auto simp: makeShadowCopy_def initVar_def clear_cache_def Let_def only_in_def split: option.splits)

lemma delVar_only_in: "delVar env a li st = Ret u t \<Longrightarrow> a \<in> A \<Longrightarrow> only_in A st t"
  by (auto simp: delVar_def Let_def clear_cache_def put_flags_def only_in_def dest!: record_op_Ret)

lemma delVars_only_in: "dfold (\<lambda>a _ st. delVar env a [] st) as () st = Ret u t \<Longrightarrow> set as \<subseteq> A \<Longrightarrow> only_in A st t"
proof (induction as arbitrary: st)
  case (Cons a as)
  then obtain st1 where "delVar env a [] st = Ret () st1" "dfold (\<lambda>a _ st. delVar env a [] st) as () st1 = Ret u t" by auto
  with Cons show ?case using delVar_only_in [of env a "[]" st "()" st1 A] only_in_trans by (metis insert_subset list.simps(15))
qed (simp add: only_in_refl)

definition overriding_vars :: "string \<Rightarrow> dsmart \<Rightarrow> string set" where
  "overriding_vars var st = fst ` set (dd_get (ds_overridedata st) var)"

lemma delVars_overridevars: "dfold (\<lambda>a _ st. delVar env a [] st) as () st = Ret u t \<Longrightarrow> ds_overridevars t = ds_overridevars st"
proof (induction as arbitrary: st)
  case (Cons a as)
  then obtain st1 where "delVar env a [] st = Ret () st1" "dfold (\<lambda>a _ st. delVar env a [] st) as () st1 = Ret u t" by auto
  with Cons.IH [OF this(2)] show ?case by (auto simp: delVar_def Let_def clear_cache_def put_flags_def dest!: record_op_Ret)
qed simp

text \<open>When the overrides are known, nothing is expanded here, so no inline Python expression is evaluated.\<close>

lemma drop_overriding_spec:
  assumes known: "ds_overrides st \<noteq> None" and drop: "drop_overriding env var st = Ret u t" and "stripped var st"
  shows "stripped var t \<and> map_of (ds_overridedata t) var = None \<and> only_in (overriding_vars var st) st t \<and> ds_overridevars t = ds_overridevars st"
proof (cases "map_of (ds_overridedata st) var")
  case None
  with assms show ?thesis by (simp add: drop_overriding_def only_in_refl)
next
  case (Some od0)
  define sel where "sel od st1 = (if od = [] then Ret [] st1 else case ds_overridesset st1 of
      None \<Rightarrow> Exc AttributeError st1 | Some oset \<Rightarrow> Ret (map fst (filter (\<lambda>(r, ov). is_active oset ov) od)) st1)" for od :: "(string \<times> string) list" and st1
  have sel: "sel od st1 = Ret as st3 \<Longrightarrow> st3 = st1 \<and> set as \<subseteq> fst ` set od" for od st1 st3 as
    by (auto simp: sel_def split: if_splits option.splits)
  from drop Some obtain st1 od as st3 st2 where st1: "need_overrides (getVarFlag env) st = Ret () st1" and od: "map_of (ds_overridedata st1) var = Some od"
    and as: "sel od st1 = Ret as st3" and del3: "dfold (\<lambda>a _ st. delVar (inner env) a [] st) as () st3 = Ret () st2"
    and t: "t = st2\<lparr>ds_overridedata := AList.delete var (ds_overridedata st2)\<rparr>"
    unfolding drop_overriding_def by (auto simp: sel_def [symmetric])
  from sel [OF as] del3 have as: "set as \<subseteq> fst ` set od" and del: "dfold (\<lambda>a _ st. delVar (inner env) a [] st) as () st1 = Ret () st2" by simp_all
  have same: "st1 = st" using st1 known by (simp add: need_overrides_def)
  then have "stripped var st1" "set as \<subseteq> overriding_vars var st"
    using assms(3) stripped_dict [of st1 st] od as by (auto simp: overriding_vars_def dd_get_def)
  then have "stripped var st2" "only_in (overriding_vars var st) st st2"
    using delVars_stripped [OF del] delVars_only_in [OF del] same by blast+
  moreover have "ds_overridevars st2 = ds_overridevars st" using delVars_overridevars [OF del] same by simp
  ultimately show ?thesis unfolding t by (simp add: stripped_def own_flags_def only_in_def delete_conv')
qed

lemma setVar_plain_spec:
  assumes known: "ds_overrides st \<noteq> None" and "match_setvar var = None" and "\<not> has_key li ''parsing''" and set: "setVar env var v li st = Ret u t"
    and free: "var \<notin> set (ds_overridevars st)"
  shows "stripped var t \<and> map_of (own_flags var t) content_flag = Some v \<and> map_of (ds_overridedata t) var = None \<and>
    has_key (ds_dict t) var \<and> only_in (insert var (overriding_vars var st)) st t"
proof -
  let ?A = "insert var (overriding_vars var st)"
  let ?st1 = "drop_ops var (makeShadowCopy var (clear_cache st))"
  let ?reg = "\<lambda>s. if CHR ''_'' \<in> set var then setvar_update_overrides var s else s"
  from assms(2-4) obtain st2 st3 where st2: "drop_overriding env var ?st1 = Ret () st2"
      and st3: "record_op env var (Some v) (default_op li) (put_flag var content_flag v (?reg st2)) = Ret () st3"
      and t: "(if var \<in> set (ds_overridevars st3) then setvar_update_overridevars env var v st3 else Ret () st3) = Ret () t"
    by (auto simp: setVar_def Let_def)
  have od1: "ds_overridedata ?st1 = ds_overridedata st" "ds_overrides ?st1 = ds_overrides st" "ds_overridevars ?st1 = ds_overridevars st"
    by (simp_all add: drop_ops_def put_flags_def makeShadowCopy_def initVar_def clear_cache_def Let_def split: option.splits)
  have "only_in ?A st ?st1"
    using only_in_trans [OF _ shadow_only_in, of ?A st "clear_cache st" var]
    by (auto simp: drop_ops_def put_flags_def only_in_def clear_cache_def)
  moreover have spec: "stripped var st2" "map_of (ds_overridedata st2) var = None" "only_in (overriding_vars var st) ?st1 st2"
      "ds_overridevars st2 = ds_overridevars st"
    using drop_overriding_spec [OF _ st2 drop_ops_stripped] od1 known by (simp_all add: overriding_vars_def)
  ultimately have only2: "only_in ?A st st2" by (auto simp: only_in_def)
  have "CHR ''_'' \<in> set var \<Longrightarrow> var \<noteq> []" by auto
  then have reg: "ds_dict (?reg st2) = ds_dict st2" "ds_data (?reg st2) = ds_data st2" "map_of (ds_overridedata (?reg st2)) var = None"
    using spec(2) setvar_update_keeps [of var st2] by (auto simp: setvar_update_overrides_def)
  obtain h where h: "st3 = (put_flag var content_flag v (?reg st2))\<lparr>ds_hist := h\<rparr>" using record_op_Ret [OF st3] by blast
  have "ds_overridevars st3 = ds_overridevars st" using spec(4) h by (simp add: put_flag_def put_flags_def setvar_update_overrides_def)
  with t free have "t = st3" by simp
  then have dt: "ds_dict t = ds_dict st3" "ds_data t = ds_data st3" "ds_overridedata t = ds_overridedata st3" by simp_all
  have "stripped var (?reg st2)" using stripped_dict [OF reg(1)] spec(1) by simp
  then have "stripped var (put_flag var content_flag v (?reg st2))" by (rule put_flag_stripped)
  then have "stripped var t" using dt h by (simp add: stripped_def own_flags_def)
  then show ?thesis using dt h reg only2
    by (simp add: own_flags_def put_flag_def put_flags_def only_in_def has_key_def)
qed

text \<open>C19. Let the overrides be known and the variable not be one of those that \<^verbatim>\<open>OVERRIDES\<close> depends on, so that \<^verbatim>\<open>setVar\<close> expands nothing. When \<^verbatim>\<open>setVar\<close> with a name that has no
  keyword, not called by the parser, returns, a lookup without expansion returns exactly the new value (any value but a set), whatever appends, prepends, removes, defaults and overriding variables
  there were before; and of all other variables only those registered as overriding this one are changed.\<close>

theorem setVar_read_back:
  assumes "ds_overrides st \<noteq> None" and "match_setvar var = None" and "\<not> has_key li ''parsing''" and "setVar env var v li st = Ret u t"
    and "var \<notin> set (ds_overridevars st)" and "no_set (Some v)" and "0 < de_depth env"
  shows "getVar env var unexpanded t = Ret (Some v) t \<and>
    (\<forall>k. k \<noteq> var \<and> k \<notin> overriding_vars var st \<longrightarrow> fst (findVar k t) = fst (findVar k st))"
proof
  note spec = setVar_plain_spec [OF assms(1-5)]
  from spec obtain fd where fd: "map_of (ds_dict t) var = Some fd" by (auto simp: has_key_def)
  with spec have find: "findVar var t = (Some fd, None)" "map_of fd content_flag = Some v"
      "map_of fd append_kw = None" "map_of fd prepend_kw = None" "map_of fd remove_kw = None"
    by (auto simp: findVar_def own_flags_def stripped_def setvar_keyword_def)
  then have "getVarFlag_body env get var content_flag unexpanded t = Ret (Some v, None) t" for get
    using body_plain [of var t "Some fd" env get] assms(6) by (simp add: plain_value_def ops_in_def pending_def)
  then show "getVar env var unexpanded t = Ret (Some v) t" using getVar_body [OF assms(7)] by (simp add: getVar_def)
  show "\<forall>k. k \<noteq> var \<and> k \<notin> overriding_vars var st \<longrightarrow> fst (findVar k t) = fst (findVar k st)"
    using spec only_in_find by blast
qed

definition sample_reset :: dsmart where
  "sample_reset = set_str ''B'' ''new'' sample_looked_up"

theorem setVar_read_back_witness:
  "getVar sample_env ''B'' unexpanded sample_reset = Ret (Some (DStr ''new'')) sample_reset \<and>
   fst (findVar ''A'' sample_reset) = fst (findVar ''A'' sample_looked_up) \<and> overriding_vars ''B'' sample_looked_up = {''B_p''}"
proof -
  have "(case setVar sample_env ''B'' (DStr ''new'') [] sample_looked_up of Ret _ t \<Rightarrow> True | _ \<Rightarrow> False)" by code_simp
  then have set: "setVar sample_env ''B'' (DStr ''new'') [] sample_looked_up = Ret () sample_reset"
    by (auto simp: sample_reset_def set_str_def split: dres.splits)
  have over: "overriding_vars ''B'' sample_looked_up = {''B_p''}" by (simp add: overriding_vars_def) code_simp
  have "ds_overrides sample_looked_up = Some [''q'', ''p'']" "list_all (\<lambda>v. v \<noteq> ''B'') (ds_overridevars sample_looked_up)" by code_simp+
  then have known: "ds_overrides sample_looked_up \<noteq> None" "''B'' \<notin> set (ds_overridevars sample_looked_up)" by (auto simp: list_all_iff)
  have "match_setvar ''B'' = None" "0 < de_depth sample_env" "no_set (Some (DStr ''new''))" by (code_simp, code_simp, simp add: no_set_def)
  from setVar_read_back [OF known(1) this(1) _ set known(2) this(3,2)] over show ?thesis by simp
qed

section \<open>Appending and prepending\<close>

text \<open>The flags of the operations hold lists.\<close>

definition ops_ok :: "flagdict option \<Rightarrow> bool" where
  "ops_ok lv \<longleftrightarrow> (\<forall>kw \<in> {append_kw, prepend_kw}. ops_in kw lv \<noteq> None \<longrightarrow> (\<exists>xs. ops_in kw lv = Some (DOps xs)))"

definition op_list :: "string \<Rightarrow> flagdict option \<Rightarrow> (dval \<times> string option) list" where
  "op_list kw lv = (case ops_in kw lv of Some (DOps xs) \<Rightarrow> xs | _ \<Rightarrow> [])"

definition flags_or_empty :: "flagdict option \<Rightarrow> flagdict" where
  "flags_or_empty lv = (case lv of None \<Rightarrow> [] | Some fd \<Rightarrow> fd)"

lemma op_flag_value:
  assumes "kw \<in> {append_kw, prepend_kw}" "findVar base st = (lv, od)" "ops_ok lv" "0 < de_depth env"
  shows "getVarFlag env base kw unexpanded st = Ret (ops_in kw lv, None) st"
proof -
  have kw: "kw \<noteq> content_flag" "kw \<noteq> []" using assms(1) by (auto simp: append_kw_def prepend_kw_def content_flag_def)
  have "local_value kw unexpanded lv st = (ops_in kw lv, st)"
    using assms(1,3) kw by (auto simp: local_value_def ops_in_def ops_ok_def split: option.splits)
  then show ?thesis using kw assms(2) by (simp add: getVar_body [OF assms(4)] getVarFlag_body_def local_ops_def)
qed

lemma shadow_flags: "own_flags var (makeShadowCopy var st) = flags_or_empty (fst (findVar var st))"
  by (auto simp: makeShadowCopy_def own_flags_def flags_or_empty_def findVar_def has_key_def initVar_def clear_cache_def Let_def split: option.splits)

lemma shadow_overrides:
  "ds_overridedata (makeShadowCopy var st) = ds_overridedata st" "ds_overrides (makeShadowCopy var st) = ds_overrides st"
  "ds_overridevars (makeShadowCopy var st) = ds_overridevars st"
  by (auto simp: makeShadowCopy_def initVar_def clear_cache_def Let_def split: option.splits)

lemma findVar_hist [simp]: "findVar var (st\<lparr>ds_hist := h\<rparr>) = findVar var st"
  by (simp add: findVar_def)

lemma register_self: "map_of (ds_overridedata (setvar_update_overrides var st)) var = map_of (ds_overridedata st) var"
proof (cases "var = []")
  case True
  then show ?thesis by (simp add: setvar_update_overrides_def before_last_def after_last_def rsplit1_def) (subst update_overrides_loop.simps, simp)
qed (simp add: setvar_update_keeps)

lemma keyword_not_export: "kw \<in> {append_kw, prepend_kw} \<Longrightarrow> kw \<noteq> ''unexport'' \<and> kw \<noteq> ''export'' \<and> kw \<noteq> default_flag"
  by (auto simp: append_kw_def prepend_kw_def default_flag_def)

lemma setVarFlag_op_spec:
  assumes "kw \<in> {append_kw, prepend_kw}" "setVarFlag env base kw v li st = Ret u t"
  shows "findVar base t = (Some (dict_set kw v (flags_or_empty (fst (findVar base st)))), map_of (ds_overridedata st) base) \<and>
    ds_overrides t = ds_overrides st \<and> ds_overridevars t = ds_overridevars st"
proof -
  from assms keyword_not_export [OF assms(1)] obtain st1 where "record_op env base (Some v) (dict_set ''flag'' kw (default_op li)) (clear_cache st) = Ret () st1"
      and t: "t = put_flag base kw v (makeShadowCopy base st1)"
    by (auto simp: setVarFlag_def Let_def)
  then obtain h where h: "st1 = (clear_cache st)\<lparr>ds_hist := h\<rparr>" using record_op_Ret by blast
  have "findVar base st1 = findVar base st" by (simp add: h findVar_def clear_cache_def)
  moreover have "own_flags base (makeShadowCopy base st1) = flags_or_empty (fst (findVar base st1))" by (rule shadow_flags)
  ultimately show ?thesis
    by (simp add: t put_flag_def put_flags_def findVar_def shadow_overrides) (simp add: h clear_cache_def)
qed

lemma keyword_spec:
  assumes kw: "kw \<in> {append_kw, prepend_kw}" and "ops_ok (fst (findVar base st))" "0 < de_depth env" "base \<notin> set (ds_overridevars st)"
    and set: "setVar_keyword env var base kw None v li st = Ret u t"
  shows "findVar base t = (Some (dict_set kw (DOps (op_list kw (fst (findVar base st)) @ [(v, None)])) (flags_or_empty (fst (findVar base st)))),
      map_of (ds_overridedata st) base) \<and> ds_overrides t = ds_overrides st"
proof -
  let ?lv = "fst (findVar base st)"
  have get: "getVarFlag env base kw unexpanded st = Ret (ops_in kw ?lv, None) st"
    using op_flag_value [OF kw _ assms(2,3)] by (metis prod.collapse)
  have sel: "(if dval_truthy st (ops_in kw ?lv) then (case ops_in kw ?lv of Some (DOps xs) \<Rightarrow> Ret xs st | _ \<Rightarrow> Exc AttributeError st) else Ret [] st) =
      Ret (op_list kw ?lv) st"
    using assms(2) kw by (cases "ops_in kw ?lv") (auto simp: ops_ok_def op_list_def)
  let ?reg = "\<lambda>s. if CHR ''_'' \<in> set var then setvar_update_overrides base s else s"
  from set obtain st1 st2 li' where st1: "setVarFlag (inner env) base kw (DOps (op_list kw ?lv @ [(v, None)])) ignored st = Ret () st1"
      and rec: "record_op env var (Some v) li' st1 = Ret () st2"
      and t: "(if base \<in> set (ds_overridevars (?reg st2)) then setvar_update_overridevars env var v (?reg st2) else Ret () (?reg st2)) = Ret () t"
    unfolding setVar_keyword_def get Let_def dbind.simps case_prod_conv sel by (auto simp del: if_split)
  have st2: "\<exists>h. st2 = st1\<lparr>ds_hist := h\<rparr>" by (rule record_op_Ret [OF rec])
  have ovs: "ds_overridevars (?reg st2) = ds_overridevars st2" by (simp add: setvar_update_overrides_def)
  note spec = setVarFlag_op_spec [OF kw st1]
  from st2 spec assms(4) have "base \<notin> set (ds_overridevars st2)" by auto
  with t ovs have t: "t = ?reg st2" by simp
  have "findVar base t = findVar base st2" "ds_overrides t = ds_overrides st2"
    using register_self [of base st2] by (auto simp: t findVar_def setvar_update_overrides_def split: option.splits)
  with st2 spec show ?thesis by auto
qed

text \<open>The operations whose overrides are all in the list, and the value they make.\<close>

definition op_on :: "string list \<Rightarrow> string option \<Rightarrow> bool" where
  "op_on ovs ov \<longleftrightarrow> (opt_truthy ov \<longrightarrow> set (split_on (CHR ''_'') (the ov)) \<subseteq> set ovs)"

fun text_in :: "dval \<Rightarrow> string" where
  "text_in (DStr s) = s"
| "text_in _ = []"

definition op_texts :: "string list \<Rightarrow> string \<Rightarrow> flagdict option \<Rightarrow> string list" where
  "op_texts ovs kw lv = map (\<lambda>p. text_in (fst p)) (filter (\<lambda>p. op_on ovs (snd p)) (op_list kw lv))"

definition or_nothing :: "string option \<Rightarrow> string" where
  "or_nothing v = (case v of None \<Rightarrow> [] | Some s \<Rightarrow> s)"

definition spec_from :: "string list \<Rightarrow> flagdict option \<Rightarrow> string option \<Rightarrow> string option" where
  "spec_from ovs lv p =
     (let a = (if ops_in append_kw lv = None then p else Some (or_nothing p @ concat (op_texts ovs append_kw lv)))
      in if ops_in prepend_kw lv = None then a else Some (concat (rev (op_texts ovs prepend_kw lv)) @ or_nothing a))"

definition spec_value :: "string list \<Rightarrow> flagdict option \<Rightarrow> string option" where
  "spec_value ovs lv = spec_from ovs lv (map_option text_in (plain_value lv))"

definition is_text :: "dval \<Rightarrow> bool" where
  "is_text v \<longleftrightarrow> (\<exists>s. v = DStr s)"

definition all_text :: "flagdict option \<Rightarrow> bool" where
  "all_text lv \<longleftrightarrow> pred_option is_text (plain_value lv) \<and> ops_ok lv \<and> ops_in remove_kw lv = None \<and>
     (\<forall>kw \<in> {append_kw, prepend_kw}. \<forall>(r, ov) \<in> set (op_list kw lv). is_text r)"

lemma op_matches_on: "op_matches (Some ovs) ov = Inr (op_on ovs ov)"
  by (simp add: op_matches_def op_on_def)

lemma apply_appends:
  "\<forall>(r, ov) \<in> set xs. is_text r \<Longrightarrow> apply_ops (\<lambda>r w. py_add w r) (Some ovs) xs (DStr w) =
    Inr (DStr (w @ concat (map (\<lambda>p. text_in (fst p)) (filter (\<lambda>p. op_on ovs (snd p)) xs))))"
  by (induction xs arbitrary: w) (auto simp: apply_ops_def op_matches_on is_text_def)

lemma apply_prepends:
  "\<forall>(r, ov) \<in> set xs. is_text r \<Longrightarrow> apply_ops py_add (Some ovs) xs (DStr w) =
    Inr (DStr (concat (rev (map (\<lambda>p. text_in (fst p)) (filter (\<lambda>p. op_on ovs (snd p)) xs))) @ w))"
  by (induction xs arbitrary: w) (auto simp: apply_ops_def op_matches_on is_text_def)

lemma or_text: "pred_option is_text v \<Longrightarrow> (if dval_truthy st v then the v else DStr []) = DStr (or_nothing (map_option text_in v))"
  by (cases v) (auto simp: is_text_def or_nothing_def)

lemma pending_spec:
  assumes "kw \<in> {append_kw, prepend_kw}" "all_text lv" "ds_overrides st = Some ovs" "pred_option is_text v"
    and "\<And>xs w. \<forall>(r, ov) \<in> set xs. is_text r \<Longrightarrow> apply_ops comb (Some ovs) xs (DStr w) =
      Inr (DStr (f (map (\<lambda>p. text_in (fst p)) (filter (\<lambda>p. op_on ovs (snd p)) xs)) w))"
  shows "pending get kw comb lv v st =
    Ret (if ops_in kw lv = None then v else Some (DStr (f (op_texts ovs kw lv) (or_nothing (map_option text_in v))))) st"
proof (cases "ops_in kw lv")
  case (Some ops)
  with assms(1,2) obtain xs where xs: "ops = DOps xs" "\<forall>(r, ov) \<in> set xs. is_text r"
    by (fastforce simp: all_text_def ops_ok_def op_list_def split: option.splits)
  with Some show ?thesis using assms(5) [OF xs(2)] or_text [OF assms(4), of st] assms(3)
    by (simp add: pending_def flag_ops_def need_overrides_def op_texts_def op_list_def Let_def)
qed (simp add: pending_def)

lemma map_text: "pred_option is_text p \<Longrightarrow> map_option DStr (map_option text_in p) = p"
  by (cases p) (auto simp: is_text_def)

lemma pending_both:
  assumes "all_text lv" "ds_overrides st = Some ovs" and p: "pred_option is_text p"
  shows "dbind (pending get append_kw (\<lambda>r w. py_add w r) lv p st) (\<lambda>v st1. dbind (pending get prepend_kw py_add lv v st1) f) =
    f (map_option DStr (spec_from ovs lv (map_option text_in p))) st"
proof -
  let ?a = "if ops_in append_kw lv = None then p else Some (DStr (or_nothing (map_option text_in p) @ concat (op_texts ovs append_kw lv)))"
  have a: "pending get append_kw (\<lambda>r w. py_add w r) lv p st = Ret ?a st"
    using pending_spec [OF _ assms(1,2) p, of append_kw "\<lambda>r w. py_add w r" "\<lambda>ts w. w @ concat ts"] apply_appends by simp
  have ta: "pred_option is_text ?a" using p by (simp add: is_text_def)
  have b: "pending get prepend_kw py_add lv ?a st =
      Ret (if ops_in prepend_kw lv = None then ?a else Some (DStr (concat (rev (op_texts ovs prepend_kw lv)) @ or_nothing (map_option text_in ?a)))) st"
    using pending_spec [OF _ assms(1,2) ta, of prepend_kw py_add "\<lambda>ts w. concat (rev ts) @ w"] apply_prepends by simp
  show ?thesis unfolding a dbind.simps b using map_text [OF p] by (simp add: spec_from_def Let_def)
qed

lemma all_text_plain: "all_text lv \<Longrightarrow> pred_option is_text (plain_value lv)" "all_text lv \<Longrightarrow> no_set (plain_value lv)" "all_text lv \<Longrightarrow> ops_in remove_kw lv = None"
  by (cases "plain_value lv"; auto simp: all_text_def no_set_def is_text_def)+

lemma getVar_spec:
  assumes "findVar var st = (lv, None)" "all_text lv" "ds_overrides st = Some ovs" "0 < de_depth env"
  shows "getVar env var unexpanded st = Ret (map_option DStr (spec_value ovs lv)) st"
  unfolding getVar_def getVar_body [OF assms(4)] body_plain [OF assms(1) all_text_plain(2,3) [OF assms(2)]]
    pending_both [OF assms(2,3) all_text_plain(1) [OF assms(2)]]
  by (simp add: spec_value_def)

lemma new_ops:
  assumes "all_text lv" and lv': "lv' = Some (dict_set kw (DOps (op_list kw lv @ [(DStr v, None)])) (flags_or_empty lv))" and kw: "kw \<in> {append_kw, prepend_kw}"
  shows "all_text lv'" "plain_value lv' = plain_value lv" "op_list kw lv' = op_list kw lv @ [(DStr v, None)]" "ops_in kw lv' \<noteq> None"
    and "kw' \<noteq> kw \<Longrightarrow> ops_in kw' lv' = ops_in kw' lv \<and> op_list kw' lv' = op_list kw' lv"
proof -
  have other: "ops_in kw' lv' = (if kw' = kw then Some (DOps (op_list kw lv @ [(DStr v, None)])) else ops_in kw' lv)" for kw'
    by (cases lv) (auto simp: lv' ops_in_def flags_or_empty_def)
  then show "kw' \<noteq> kw \<Longrightarrow> ops_in kw' lv' = ops_in kw' lv \<and> op_list kw' lv' = op_list kw' lv" "ops_in kw lv' \<noteq> None"
      and list: "op_list kw lv' = op_list kw lv @ [(DStr v, None)]"
    by (simp_all add: op_list_def)
  show plain: "plain_value lv' = plain_value lv" using kw by (cases lv) (auto simp: lv' plain_value_def flags_or_empty_def split: option.splits)
  show "all_text lv'" using assms(1) other plain list kw unfolding all_text_def ops_ok_def by (auto simp: op_list_def is_text_def) blast+
qed

lemma new_texts:
  assumes "all_text lv" "lv' = Some (dict_set kw (DOps (op_list kw lv @ [(DStr v, None)])) (flags_or_empty lv))" "kw \<in> {append_kw, prepend_kw}"
  shows "op_texts ovs kw lv' = op_texts ovs kw lv @ [v]" "kw' \<noteq> kw \<Longrightarrow> op_texts ovs kw' lv' = op_texts ovs kw' lv"
  using new_ops(3) [OF assms] new_ops(5) [OF assms, of kw'] by (simp_all add: op_texts_def op_on_def)

lemma op_texts_None: "ops_in kw lv = None \<Longrightarrow> op_texts ovs kw lv = []"
  by (simp add: op_texts_def op_list_def)

lemma spec_value_append:
  assumes "all_text lv" "lv' = Some (dict_set append_kw (DOps (op_list append_kw lv @ [(DStr v, None)])) (flags_or_empty lv))"
  shows "spec_value ovs lv' = Some (or_nothing (spec_value ovs lv) @ v)"
  using new_ops [OF assms] new_ops(5) [OF assms, of prepend_kw] new_texts(1) [OF assms, of ovs] new_texts(2) [OF assms, of prepend_kw ovs]
  by (auto simp: spec_value_def spec_from_def Let_def or_nothing_def op_texts_None)

lemma spec_value_prepend:
  assumes "all_text lv" "lv' = Some (dict_set prepend_kw (DOps (op_list prepend_kw lv @ [(DStr v, None)])) (flags_or_empty lv))"
  shows "spec_value ovs lv' = Some (v @ or_nothing (spec_value ovs lv))"
  using new_ops [OF assms] new_ops(5) [OF assms, of append_kw] new_texts(1) [OF assms, of ovs] new_texts(2) [OF assms, of append_kw ovs]
  by (auto simp: spec_value_def spec_from_def Let_def or_nothing_def op_texts_None)

text \<open>What \<^verbatim>\<open>appendVar\<close> and \<^verbatim>\<open>prependVar\<close> have in common.\<close>

definition add_op :: "dsenv \<Rightarrow> string \<Rightarrow> string \<Rightarrow> string \<Rightarrow> string \<Rightarrow> loginfo \<Rightarrow> dsmart \<Rightarrow> unit dres" where
  "add_op env kw opname var v li st =
     dbind (record_op env var (Some (DStr v)) (log_op opname li) st) (\<lambda>_ st1. setVar (inner env) (var @ kw) (DStr v) parsed st1)"

lemma op_added:
  assumes "findVar var st = (lv, None)" "all_text lv" "ds_overrides st = Some ovs" "0 < de_depth env" "var \<notin> set (ds_overridevars st)"
    and kw: "kw \<in> {append_kw, prepend_kw}" and name: "match_setvar (var @ kw) = Some (var, kw, None)" and op: "add_op env kw opname var v li st = Ret u t"
  shows "getVar env var unexpanded t =
    Ret (map_option DStr (spec_value ovs (Some (dict_set kw (DOps (op_list kw lv @ [(DStr v, None)])) (flags_or_empty lv))))) t"
proof -
  let ?lv' = "Some (dict_set kw (DOps (op_list kw lv @ [(DStr v, None)])) (flags_or_empty lv))"
  from op obtain st1 where st1: "record_op env var (Some (DStr v)) (log_op opname li) st = Ret () st1"
      and set: "setVar_keyword (inner env) (var @ kw) var kw None (DStr v) (default_op parsed) (clear_cache st1) = Ret u t"
    using name by (auto simp: add_op_def setVar_def Let_def)
  from record_op_Ret [OF st1] obtain h where h: "clear_cache st1 = st\<lparr>ds_hist := h, ds_cache := []\<rparr>" by (auto simp: clear_cache_def)
  have "findVar var (clear_cache st1) = (lv, None)" "map_of (ds_overridedata (clear_cache st1)) var = None"
    using assms(1) by (auto simp: h findVar_def)
  moreover have "findVar var t = (Some (dict_set kw (DOps (op_list kw (fst (findVar var (clear_cache st1))) @ [(DStr v, None)]))
        (flags_or_empty (fst (findVar var (clear_cache st1))))), map_of (ds_overridedata (clear_cache st1)) var) \<and> ds_overrides t = ds_overrides (clear_cache st1)"
    by (rule keyword_spec [OF kw _ _ _ set]) (use assms calculation in \<open>auto simp: h all_text_def inner_def\<close>)
  ultimately have "findVar var t = (?lv', None)" "ds_overrides t = Some ovs" using assms(3) by (simp_all add: h)
  then show ?thesis using getVar_spec new_ops(1) [OF assms(2) refl kw] assms(4) by blast
qed

text \<open>C21. When the overrides are known and nothing overrides the variable, its value is its content (or its default), with the texts of the appends whose overrides are active behind it
  and those of the prepends in front of it, last prepend first.  \<^verbatim>\<open>appendVar\<close> adds its argument at the end of this value, \<^verbatim>\<open>prependVar\<close> at its beginning, whatever operations are pending.\<close>

theorem append_prepend_exact:
  assumes "findVar var st = (lv, None)" and "all_text lv" and "ds_overrides st = Some ovs" and "0 < de_depth env" and "var \<notin> set (ds_overridevars st)"
  shows "getVar env var unexpanded st = Ret (map_option DStr (spec_value ovs lv)) st \<and>
    (match_setvar (var @ append_kw) = Some (var, append_kw, None) \<and> appendVar env var (DStr v) li st = Ret u t \<longrightarrow>
      getVar env var unexpanded t = Ret (Some (DStr (or_nothing (spec_value ovs lv) @ v))) t) \<and>
    (match_setvar (var @ prepend_kw) = Some (var, prepend_kw, None) \<and> prependVar env var (DStr v) li st = Ret u t \<longrightarrow>
      getVar env var unexpanded t = Ret (Some (DStr (v @ or_nothing (spec_value ovs lv)))) t)"
proof (intro conjI impI)
  show "getVar env var unexpanded st = Ret (map_option DStr (spec_value ovs lv)) st" by (rule getVar_spec [OF assms(1-4)])
next
  assume a: "match_setvar (var @ append_kw) = Some (var, append_kw, None) \<and> appendVar env var (DStr v) li st = Ret u t"
  from a have "add_op env append_kw ''append'' var v li st = Ret u t" by (simp add: appendVar_def add_op_def)
  note after = op_added [OF assms _ _ this]
  with a spec_value_append [OF assms(2) refl, of ovs v] show "getVar env var unexpanded t = Ret (Some (DStr (or_nothing (spec_value ovs lv) @ v))) t" by simp
next
  assume a: "match_setvar (var @ prepend_kw) = Some (var, prepend_kw, None) \<and> prependVar env var (DStr v) li st = Ret u t"
  from a have "add_op env prepend_kw ''prepend'' var v li st = Ret u t" by (simp add: prependVar_def add_op_def)
  note after = op_added [OF assms _ _ this]
  with a spec_value_prepend [OF assms(2) refl, of ovs v] show "getVar env var unexpanded t = Ret (Some (DStr (v @ or_nothing (spec_value ovs lv)))) t" by simp
qed

definition sample_pending :: dsmart where
  "sample_pending = set_str ''C_append_q'' ''1'' (set_str ''C_prepend'' ''0'' (set_str ''C'' ''c'' sample_looked_up))"

definition sample_appended :: dsmart where
  "sample_appended = (case appendVar sample_env ''C'' (DStr ''2'') [] sample_pending of Ret _ t \<Rightarrow> t | _ \<Rightarrow> sample_pending)"

definition sample_flags :: flagdict where
  "sample_flags = [(content_flag, DStr ''c''), (prepend_kw, DOps [(DStr ''0'', None)]), (append_kw, DOps [(DStr ''1'', Some ''q'')])]"

lemma sample_flags_text: "all_text (Some sample_flags)"
  by (simp add: all_text_def sample_flags_def plain_value_def ops_ok_def ops_in_def op_list_def is_text_def)

theorem append_prepend_exact_witness:
  "getVar sample_env ''C'' unexpanded sample_pending = Ret (Some (DStr ''0c1'')) sample_pending \<and>
   getVar sample_env ''C'' unexpanded sample_appended = Ret (Some (DStr ''0c12'')) sample_appended"
proof -
  have "(case appendVar sample_env ''C'' (DStr ''2'') [] sample_pending of Ret _ t \<Rightarrow> True | _ \<Rightarrow> False)" by code_simp
  then have app: "appendVar sample_env ''C'' (DStr ''2'') [] sample_pending = Ret () sample_appended"
    by (auto simp: sample_appended_def split: dres.splits)
  have find: "findVar ''C'' sample_pending = (Some sample_flags, None)" by code_simp
  have facts: "ds_overrides sample_pending = Some [''q'', ''p'']" "0 < de_depth sample_env" "''C'' \<notin> set (ds_overridevars sample_pending)"
      "match_setvar (''C'' @ append_kw) = Some (''C'', append_kw, None)" by code_simp+
  have val: "spec_value [''q'', ''p''] (Some sample_flags) = Some ''0c1''" by code_simp
  note law = append_prepend_exact [OF find sample_flags_text facts(1-3), where v = "''2''" and li = "[]" and u = "()" and t = sample_appended]
  have "getVar sample_env ''C'' unexpanded sample_appended = Ret (Some (DStr (or_nothing (Some ''0c1'') @ ''2''))) sample_appended"
    unfolding val [symmetric] using law facts(4) app by blast
  then show ?thesis using law val by (simp add: or_nothing_def)
qed

end
