(* ===== verification/BB_Overrides.thy ===== *)
theory BB_Overrides
  imports BB_DataLaws
begin

text \<open>
  Overrides: among the registered overrides that are active the one that comes last in \<^verbatim>\<open>OVERRIDES\<close> decides, and the lookup of an overridden variable starts from the value of the
  overriding one.
\<close>

section \<open>The choice of the override\<close>

text \<open>The list without the later occurrences of an element.\<close>

fun first_occs :: "string list \<Rightarrow> string list" where
  "first_occs [] = []"
| "first_occs (x # xs) = x # removeAll x (first_occs xs)"

lemma set_first_occs [simp]: "set (first_occs xs) = set xs"
  by (induction xs) auto

definition no_us :: "(string, string) dict \<Rightarrow> bool" where
  "no_us active \<longleftrightarrow> (\<forall>a \<in> set (dict_keys active). CHR ''_'' \<notin> set a)"

lemma match_step_simple:
  "CHR ''_'' \<notin> set a \<Longrightarrow> match_step ov a ms =
    (case map_of (fst ms) a of Some t \<Rightarrow> if a = ov then (AList.delete a (fst ms), Some t, snd (snd ms)) else ms | None \<Rightarrow> ms)"
  by (auto simp: match_step_def suffix_def split: option.splits prod.splits)

lemma match_steps_other: "ov \<notin> set ks \<Longrightarrow> \<forall>a \<in> set ks. CHR ''_'' \<notin> set a \<Longrightarrow> fold (match_step ov) ks ms = ms"
  by (induction ks arbitrary: ms) (auto simp: match_step_simple split: option.splits)

lemma match_override_simple:
  assumes "dict_wf active" "no_us active"
  shows "match_override ov (active, m, md) =
    (case map_of active ov of Some t \<Rightarrow> (AList.delete ov active, Some t, md) | None \<Rightarrow> (active, m, md))"
proof (cases "map_of active ov")
  case None
  then have "ov \<notin> set (dict_keys active)" by (simp add: map_of_eq_None_iff)
  with None assms show ?thesis by (simp add: match_override_def match_steps_other no_us_def)
next
  case (Some t)
  then have "ov \<in> set (dict_keys active)" by (rule map_of_mem)
  then obtain xs ys where ks: "dict_keys active = xs @ ov # ys" by (metis split_list)
  with assms(1) have "ov \<notin> set xs" "ov \<notin> set ys" by auto
  moreover have "\<forall>a \<in> set (xs @ ov # ys). CHR ''_'' \<notin> set a" using assms(2) ks by (simp add: no_us_def)
  ultimately show ?thesis using Some ks by (simp add: match_override_def match_steps_other match_step_simple)
qed

definition last_active :: "string list \<Rightarrow> (string, string) dict \<Rightarrow> string option \<Rightarrow> string option" where
  "last_active ovs active m =
     (let cands = filter (has_key active) (first_occs ovs) in if cands = [] then m else map_of active (last cands))"

lemma last_active_None: "map_of active ov = None \<Longrightarrow> last_active (ov # ovs) active m = last_active ovs active m"
proof -
  assume "map_of active ov = None"
  then have nk: "\<not> has_key active ov" by (simp add: has_key_def)
  then have "filter (has_key active) (removeAll ov (first_occs ovs)) = filter (has_key active) (first_occs ovs)"
    by (auto simp: removeAll_filter_not_eq intro!: filter_cong)
  with nk show ?thesis by (simp add: last_active_def)
qed

lemma last_active_Some:
  assumes "map_of active ov = Some t"
  shows "last_active (ov # ovs) active m = last_active ovs (AList.delete ov active) (Some t)"
proof -
  let ?d = "AList.delete ov active" and ?f = "filter (has_key active) (removeAll ov (first_occs ovs))"
  have eq: "filter (has_key ?d) (first_occs ovs) = ?f"
    by (auto simp: removeAll_filter_not_eq has_key_def delete_conv' intro!: filter_cong split: if_splits)
  have "?f \<noteq> [] \<Longrightarrow> last ?f \<noteq> ov" using last_in_set [of ?f] by auto
  then have "?f \<noteq> [] \<Longrightarrow> map_of ?d (last ?f) = map_of active (last ?f)" by (simp add: delete_conv')
  moreover have "has_key active ov" using assms by (simp add: has_key_def)
  ultimately show ?thesis using assms by (simp add: last_active_def eq Let_def)
qed

lemma match_round_simple:
  assumes "dict_wf active" "no_us active"
  shows "\<exists>active'. match_round ovs active m = (active', last_active ovs active m, False)"
  using assms unfolding match_round_def
proof (induction ovs arbitrary: active m)
  case Nil
  then show ?case by (simp add: last_active_def)
next
  case (Cons ov ovs)
  show ?case
  proof (cases "map_of active ov")
    case None
    with Cons show ?thesis by (simp add: match_override_simple last_active_None)
  next
    case (Some t)
    have "dict_wf (AList.delete ov active)" "no_us (AList.delete ov active)"
      using Cons.prems by (simp_all add: no_us_def delete_keys distinct_removeAll del: set_map)
    with Cons.IH Some Cons.prems show ?thesis by (simp add: match_override_simple last_active_Some)
  qed
qed

lemma match_loop_simple: "dict_wf active \<Longrightarrow> no_us active \<Longrightarrow> match_loop ovs active m = last_active ovs active m"
  using match_round_simple [of active ovs m] by (subst match_loop.simps) auto

lemma active_overrides_snoc:
  "active_overrides oset (od @ [(r, ov)]) = (if is_active oset ov then dict_set ov r (active_overrides oset od) else active_overrides oset od)"
  by (simp add: active_overrides_def)

lemma active_overrides_keys:
  "dict_wf (active_overrides oset od) \<and> set (dict_keys (active_overrides oset od)) = {ov \<in> snd ` set od. is_active oset ov}"
proof (induction od rule: rev_induct)
  case Nil
  then show ?case by (simp add: active_overrides_def)
next
  case (snoc p od)
  obtain r ov where "p = (r, ov)" by (cases p)
  with snoc show ?case by (auto simp: active_overrides_snoc image_iff)
qed

lemma active_overrides_value:
  "distinct (map snd od) \<Longrightarrow> (r, ov) \<in> set od \<Longrightarrow> is_active oset ov \<Longrightarrow> map_of (active_overrides oset od) ov = Some r"
proof (induction od rule: rev_induct)
  case (snoc p od)
  obtain r' ov' where p: "p = (r', ov')" by (cases p)
  show ?case
  proof (cases "(r, ov) \<in> set od")
    case True
    with snoc.prems p have "ov \<noteq> ov'" by force
    with True snoc p show ?thesis by (simp add: active_overrides_snoc)
  qed (use snoc p in \<open>simp add: active_overrides_snoc\<close>)
qed simp

lemma is_active_simple: "CHR ''_'' \<notin> set ov \<Longrightarrow> is_active oset ov \<longleftrightarrow> ov \<in> set oset"
  by (simp add: is_active_def)

text \<open>The overrides that decide, lowest priority first.\<close>

definition deciding :: "string list \<Rightarrow> (string \<times> string) list \<Rightarrow> string list" where
  "deciding ovs od = filter (\<lambda>ov. ov \<in> snd ` set od) (first_occs ovs)"

lemma match_loop_deciding:
  assumes "distinct (map snd od)" "\<forall>(r, ov) \<in> set od. CHR ''_'' \<notin> set ov"
  shows "deciding ovs od = [] \<Longrightarrow> match_loop ovs (active_overrides (remdups ovs) od) None = None"
    and "deciding ovs od = ds @ [ov] \<Longrightarrow> (r, ov) \<in> set od \<Longrightarrow> match_loop ovs (active_overrides (remdups ovs) od) None = Some r"
proof -
  let ?act = "active_overrides (remdups ovs) od"
  note spec = active_overrides_keys [of "remdups ovs" od]
  have keys: "has_key ?act ov \<longleftrightarrow> ov \<in> snd ` set od \<and> ov \<in> set ovs" for ov
    using spec assms(2) is_active_simple [of ov "remdups ovs"] unfolding has_key_iff by (auto simp del: set_map)
  have dec: "filter (has_key ?act) (first_occs ovs) = deciding ovs od"
    unfolding deciding_def by (rule filter_cong) (simp_all add: keys)
  have "no_us ?act" using spec assms(2) by (auto simp: no_us_def simp del: set_map)
  with spec have loop: "match_loop ovs ?act None = (if deciding ovs od = [] then None else map_of ?act (last (deciding ovs od)))"
    using match_loop_simple [of ?act ovs None] dec by (simp add: last_active_def)
  show "deciding ovs od = [] \<Longrightarrow> match_loop ovs ?act None = None" using loop by simp
  assume d: "deciding ovs od = ds @ [ov]" and r: "(r, ov) \<in> set od"
  from d have "ov \<in> set (deciding ovs od)" by simp
  then have "is_active (remdups ovs) ov" by (auto simp: deciding_def is_active_def)
  then have "map_of ?act ov = Some r" by (rule active_overrides_value [OF assms(1) r])
  with loop d show "match_loop ovs ?act None = Some r" by simp
qed

section \<open>The value of an overridden variable\<close>

text \<open>A lookup with the parser, of a text without references.\<close>

lemma with_parser_opts [simp]: "\<not> go_expand with_parser" "go_retparser with_parser" "\<not> go_parsing with_parser" "\<not> go_noweakdefault with_parser"
  by (simp_all add: with_parser_def unexpanded_def expanded_def)

lemma expand_plain: "\<not> sublist ''${'' s \<Longrightarrow> expandWithRefs env get (Some (DStr s)) name st = Ret ((fresh_parse name None)\<lparr>vp_value := Some (DStr s)\<rparr>) st"
  by (cases "de_rounds env") (simp_all add: expandWithRefs_def)

lemma local_value_with_parser: "local_value content_flag with_parser lv st = local_value content_flag unexpanded lv st"
  by (auto simp: local_value_def split: option.splits)

lemma body_with_parser:
  assumes "findVar r st = (lv, None)" "all_text lv" "ds_overrides st = Some ovs" "spec_value ovs lv = Some w" "\<not> sublist ''${'' w"
  shows "\<exists>vp c. getVarFlag_body env get r content_flag with_parser st = Ret (Some (DStr w), Some vp) (st\<lparr>ds_cache := c\<rparr>) \<and> vp_removes vp = None"
proof -
  note lv = all_text_plain [OF assms(2)]
  have "getVarFlag_body env get r content_flag with_parser st =
      dbind (pending get append_kw (\<lambda>r w. py_add w r) lv (plain_value lv) st) (\<lambda>v st1. dbind (pending get prepend_kw py_add lv v st1) (\<lambda>v st2.
      dbind (expandWithRefs env get v (Some r) st2) (\<lambda>vp st3. Ret (v, Some vp) (st3\<lparr>ds_cache := dict_set r vp (ds_cache st3)\<rparr>))))"
    using assms(1) lv(2,3)
    by (simp add: getVarFlag_body_def local_value_plain local_value_with_parser local_ops_content pending_def cachename_def dbind_assoc)
  then show ?thesis using assms(4,5)
    by (simp add: pending_both [OF assms(2,3) lv(1)] spec_value_def [symmetric] expand_plain fresh_parse_def) blast
qed

lemma override_value_known:
  assumes "ds_overrides st = Some ovs" "ds_overridesset st = Some oset"
  shows "override_value get od st = (case match_loop ovs (active_overrides oset od) None of
      Some m \<Rightarrow> if m = [] then Ret (None, []) st else dbind (get m content_flag with_parser st) (\<lambda>(v, p) st3.
        Ret (v, case p of None \<Rightarrow> [] | Some vp \<Rightarrow> (case vp_removes vp of None \<Rightarrow> [] | Some rs \<Rightarrow> rs)) st3)
    | None \<Rightarrow> Ret (None, []) st)"
proof -
  have "(if od = [] then Ret [] st else case ds_overridesset st of None \<Rightarrow> Exc AttributeError st | Some oset \<Rightarrow> Ret (active_overrides oset od) st) =
      Ret (active_overrides oset od) st"
    using assms(2) by (simp add: active_overrides_def)
  then show ?thesis using assms(1) unfolding override_value_def by (simp add: need_overrides_def cong: option.case_cong)
qed

lemma body_overridden:
  assumes "findVar var st = (lv, Some od)" "all_text lv" "override_value get od st = Ret (v0, removes) st1" "ds_overrides st1 = Some ovs" "pred_option is_text v0"
  shows "getVarFlag_body env get var content_flag unexpanded st =
    Ret (map_option DStr (spec_from ovs lv (map_option text_in (if v0 = None then plain_value lv else v0))), None) st1"
proof -
  note lv = all_text_plain [OF assms(2)]
  let ?v = "if v0 = None then plain_value lv else v0"
  have eq: "getVarFlag_body env get var content_flag unexpanded st =
      dbind (pending get append_kw (\<lambda>r w. py_add w r) lv ?v st1) (\<lambda>v st1. dbind (pending get prepend_kw py_add lv v st1) (\<lambda>v st2. Ret (v, None) st2))"
    using assms(1,3) lv(2,3) by (cases v0) (simp_all add: getVarFlag_body_def local_value_plain local_ops_content pending_def)
  have "pred_option is_text ?v" using lv(1) assms(5) by simp
  then show ?thesis unfolding eq by (subst pending_both [OF assms(2,4)]) simp_all
qed

text \<open>C20. Let the overrides be known, let no override registered for the variable have an underscore or be registered twice, and let the lookup be one without expansion of a variable whose content and
  pending appends and prepends are texts, without pending removes. When none of the registered overrides is in \<^verbatim>\<open>OVERRIDES\<close>, it returns the variable's own value. Otherwise the override whose
  first place in \<^verbatim>\<open>OVERRIDES\<close> comes last decides: if its overriding variable is a text without references, removes and overriding variables of its own, the lookup starts from that value
  instead of the content of the variable itself, applies the pending operations of the variable to it and changes only the cache.\<close>

theorem override_priority:
  assumes "findVar var st = (lv, Some od)" and "distinct (map snd od)" and "\<forall>(r, ov) \<in> set od. CHR ''_'' \<notin> set ov"
    and "ds_overrides st = Some ovs" and "synced st" and "all_text lv" and "1 < de_depth env"
  shows "(deciding ovs od = [] \<longrightarrow> getVar env var unexpanded st = Ret (map_option DStr (spec_value ovs lv)) st) \<and>
    (\<forall>r ov ds lvr w. deciding ovs od = ds @ [ov] \<and> (r, ov) \<in> set od \<and> r \<noteq> [] \<and> findVar r st = (lvr, None) \<and> all_text lvr \<and>
       spec_value ovs lvr = Some w \<and> \<not> sublist ''${'' w \<longrightarrow>
       (\<exists>c. getVar env var unexpanded st = Ret (map_option DStr (spec_from ovs lv (Some w))) (st\<lparr>ds_cache := c\<rparr>)))"
proof (intro conjI impI allI)
  obtain n where n: "de_depth env = Suc (Suc n)" using assms(7) by (metis One_nat_def less_imp_Suc_add add_Suc)
  let ?get = "getVarFlag_n (Suc n) env"
  have oset: "ds_overridesset st = Some (remdups ovs)" using assms(4,5) by (simp add: synced_def)
  have depth: "0 < de_depth env" using assms(7) by simp
  note over = override_value_known [OF assms(4) oset, of ?get od]
  {
    assume "deciding ovs od = []"
    then have "override_value ?get od st = Ret (None, []) st" using over match_loop_deciding(1) [OF assms(2,3)] by simp
    then show "getVar env var unexpanded st = Ret (map_option DStr (spec_value ovs lv)) st"
      using body_overridden [OF assms(1,6) _ assms(4), of ?get None "[]" env] by (simp add: getVar_def getVar_body [OF depth] n spec_value_def)
  next
    fix r ov ds lvr w
    assume a: "deciding ovs od = ds @ [ov] \<and> (r, ov) \<in> set od \<and> r \<noteq> [] \<and> findVar r st = (lvr, None) \<and> all_text lvr \<and>
       spec_value ovs lvr = Some w \<and> \<not> sublist ''${'' w"
    then have loop: "match_loop ovs (active_overrides (remdups ovs) od) None = Some r" using match_loop_deciding(2) [OF assms(2,3)] by blast
    from a body_with_parser [of r st lvr ovs w env "getVarFlag_n n env"] assms(4) obtain vp c where
      "?get r content_flag with_parser st = Ret (Some (DStr w), Some vp) (st\<lparr>ds_cache := c\<rparr>)" "vp_removes vp = None" by auto
    then have "override_value ?get od st = Ret (Some (DStr w), []) (st\<lparr>ds_cache := c\<rparr>)" using over loop a by simp
    moreover have "ds_overrides (st\<lparr>ds_cache := c\<rparr>) = Some ovs" using assms(4) by simp
    ultimately have "getVarFlag_body env ?get var content_flag unexpanded st =
        Ret (map_option DStr (spec_from ovs lv (Some w)), None) (st\<lparr>ds_cache := c\<rparr>)"
      using body_overridden [OF assms(1,6), of ?get "Some (DStr w)"] by (simp add: is_text_def)
    then show "\<exists>c. getVar env var unexpanded st = Ret (map_option DStr (spec_from ovs lv (Some w))) (st\<lparr>ds_cache := c\<rparr>)"
      by (auto simp: getVar_def getVar_body [OF depth] n)
  }
qed

text \<open>Two overrides, both active; the one that is later in the list decides, and the append of the variable itself is added.\<close>

definition sample_two :: dsmart where
  "sample_two = set_str ''D_append'' ''!'' (set_str ''D_p'' ''dp'' (set_str ''D_q'' ''dq'' (set_str ''D'' ''d'' sample_looked_up)))"

theorem override_priority_witness:
  "\<exists>c. getVar sample_env ''D'' unexpanded sample_two = Ret (Some (DStr ''dp!'')) (sample_two\<lparr>ds_cache := c\<rparr>)"
proof -
  let ?lv = "Some [(content_flag, DStr ''d''), (append_kw, DOps [(DStr ''!'', None)])]" and ?lvr = "Some [(content_flag, DStr ''dp'')]"
  let ?od = "[(''D_q'', ''q''), (''D_p'', ''p'')]"
  have find: "findVar ''D'' sample_two = (?lv, Some ?od)" and findr: "findVar ''D_p'' sample_two = (?lvr, None)" by code_simp+
  have ovs: "ds_overrides sample_two = Some [''q'', ''p'']" "ds_overridesset sample_two = Some (remdups [''q'', ''p''])" by code_simp+
  then have syn: "synced sample_two" by (simp add: synced_def)
  have texts: "all_text ?lv" "all_text ?lvr"
    by (simp_all add: all_text_def plain_value_def ops_ok_def ops_in_def op_list_def is_text_def)
  have vals: "deciding [''q'', ''p''] ?od = [''q''] @ [''p'']" "spec_value [''q'', ''p''] ?lvr = Some ''dp''"
      "spec_from [''q'', ''p''] ?lv (Some ''dp'') = Some ''dp!''" "\<not> sublist ''${'' ''dp''" by code_simp+
  have "\<exists>c. getVar sample_env ''D'' unexpanded sample_two = Ret (map_option DStr (spec_from [''q'', ''p''] ?lv (Some ''dp''))) (sample_two\<lparr>ds_cache := c\<rparr>)"
    by (rule override_priority [OF find _ _ ovs(1) syn texts(1), THEN conjunct2, rule_format, of sample_env "[''q'']" "''p''" "''D_p''" ?lvr])
      (simp, fastforce, simp add: sample_env_def, intro conjI vals findr texts, simp_all)
  then show ?thesis by (simp add: vals)
qed

end
