(* ===== verification/BB_DataFlaws.thy ===== *)
theory BB_DataFlaws
  imports BB_Overrides
begin

text \<open>
  What removing does to a value, and the places where the data store does not do what its clients expect: values in the cache that belong to older overrides, registrations that outlive a deleted
  variable or belong to a prefix of a name, exports that reach the original of a copy, and overrides that are lost when they cannot be expanded.
\<close>

section \<open>Removing\<close>

lemma split_ws_from_space: "is_space c \<Longrightarrow> split_ws_from w (u @ c # v) = split_ws_from w u @ split_ws_from [] v"
  by (induction u arbitrary: w) simp_all

lemma split_ws_space: "is_space c \<Longrightarrow> split_ws (u @ c # v) = split_ws u @ split_ws v"
  by (simp add: split_ws_def split_ws_from_space)

lemma split_ws_word_opt: "\<forall>c \<in> set w. \<not> is_space c \<Longrightarrow> split_ws w = (if w = [] then [] else [w])"
  using split_ws_single [of w] by auto

text \<open>Dropping tokens that are words drops these words.\<close>

definition kept :: "(string \<Rightarrow> bool) \<Rightarrow> string list \<Rightarrow> string" where
  "kept P toks = concat (filter (\<lambda>v. \<not> P v) toks)"

lemma split_ws_kept:
  assumes "\<And>w. P w \<Longrightarrow> w \<noteq> [] \<and> (\<forall>c \<in> set w. \<not> is_space c)"
  shows "\<forall>c \<in> set w. \<not> is_space c \<Longrightarrow> split_ws (kept P (ws_tokens w s)) = filter (\<lambda>v. \<not> P v) (split_ws_from w s)"
proof (induction s arbitrary: w)
  case Nil
  with assms [of "[]"] show ?case by (auto simp: kept_def split_ws_word_opt)
next
  case (Cons c s)
  show ?case
  proof (cases "is_space c")
    case True
    then have "\<not> P [c]" "\<not> P []" using assms by force+
    then have "kept P (ws_tokens w (c # s)) = (if P w then [] else w) @ c # kept P (ws_tokens [] s)" using True by (simp add: kept_def)
    with True Cons.IH [of "[]"] Cons.prems \<open>\<not> P []\<close> show ?thesis by (auto simp: split_ws_space split_ws_word_opt)
  next
    case False
    with Cons show ?thesis by simp
  qed
qed

lemma spaces_kept:
  assumes "\<And>w. P w \<Longrightarrow> w \<noteq> [] \<and> (\<forall>c \<in> set w. \<not> is_space c)"
  shows "\<forall>c \<in> set w. \<not> is_space c \<Longrightarrow> filter is_space (kept P (ws_tokens w s)) = filter is_space s"
proof (induction s arbitrary: w)
  case Nil
  then show ?case by (auto simp: kept_def)
next
  case (Cons c s)
  show ?case
  proof (cases "is_space c")
    case True
    then have "\<not> P [c]" using assms by force
    then have "kept P (ws_tokens w (c # s)) = (if P w then [] else w) @ c # kept P (ws_tokens [] s)" using True by (simp add: kept_def)
    with True Cons.IH [of "[]"] Cons.prems show ?thesis by auto
  next
    case False
    with Cons show ?thesis by simp
  qed
qed

definition hits :: "(dval \<times> string list) list \<Rightarrow> string \<Rightarrow> dval list" where
  "hits ers v = map fst (filter (\<lambda>er. v \<in> set (snd er)) ers)"

lemma remove_fold:
  "fold (\<lambda>v (rs, val). let hit = map fst (filter (\<lambda>er. v \<in> set (snd er)) ers)
      in if hit \<noteq> [] then (fold add_new hit rs, val) else (rs, val @ v)) toks (rs, val) = (rs', val') \<Longrightarrow>
    val' = val @ kept (\<lambda>v. hits ers v \<noteq> []) toks \<and> set rs' = set rs \<union> (\<Union>v \<in> set toks. set (hits ers v))"
proof (induction toks arbitrary: rs val)
  case (Cons v toks)
  show ?case
  proof (cases "hits ers v = []")
    case True
    with Cons.IH [of rs "val @ v"] Cons.prems show ?thesis by (simp add: kept_def Let_def hits_def [symmetric])
  next
    case False
    with Cons.IH [of "fold add_new (hits ers v) rs" val] Cons.prems show ?thesis
      by (simp add: kept_def Let_def hits_def [symmetric] set_fold_add_new Un_assoc)
  qed
qed (simp add: kept_def)

lemma ws_tokens_words:
  assumes "\<forall>c \<in> set w. \<not> is_space c" "v \<noteq> []" "\<forall>c \<in> set v. \<not> is_space c"
  shows "v \<in> set (ws_tokens w s) \<longleftrightarrow> v \<in> set (split_ws_from w s)"
  using assms
proof (induction s arbitrary: w)
  case (Cons c s)
  then show ?case by (cases "is_space c") auto
qed auto

lemma expand_removes_plain:
  "\<forall>r \<in> set rs. \<not> sublist ''${'' r \<Longrightarrow> expand_removes env get (map DStr rs) st = Ret (map (\<lambda>r. (DStr r, split_ws r)) rs) st"
proof -
  have "\<forall>r \<in> set rs. \<not> sublist ''${'' r \<Longrightarrow> dfold (\<lambda>r acc st1. dbind (expand env get (Some r) None st1) (\<lambda>v st2.
       case v of Some (DStr s) \<Rightarrow> Ret (acc @ [(r, split_ws s)]) st2 | _ \<Rightarrow> Exc AttributeError st2)) (map DStr rs) acc st =
      Ret (acc @ map (\<lambda>r. (DStr r, split_ws r)) rs) st" for acc
    by (induction rs arbitrary: acc) (simp_all add: expand_def expand_plain)
  then show "\<forall>r \<in> set rs. \<not> sublist ''${'' r \<Longrightarrow> ?thesis" by (simp add: expand_removes_def)
qed

text \<open>C37. Applying removes that are texts without references to an expanded value: the words of the result are the words of the value that are not among the words of a remove, in
  their order, and all white space is kept; the removes that are reported for the value are exactly those with a word in it.\<close>

theorem removes_exact:
  assumes "\<forall>r \<in> set rs. \<not> sublist ''${'' r" and "vp_value vp = Some (DStr s)"
  shows "\<exists>vp' val. apply_removes env get (map DStr rs) vp st = Ret vp' st \<and> vp_value vp' = Some (DStr val) \<and>
    split_ws val = filter (\<lambda>w. \<forall>r \<in> set rs. w \<notin> set (split_ws r)) (split_ws s) \<and> filter is_space val = filter is_space s \<and>
    (\<exists>used. vp_removes vp' = Some used \<and> set used = {DStr r |r. r \<in> set rs \<and> set (split_ws r) \<inter> set (split_ws s) \<noteq> {}})"
proof -
  let ?ers = "map (\<lambda>r. (DStr r, split_ws r)) rs"
  let ?P = "\<lambda>v. hits ?ers v \<noteq> []"
  obtain used val where ut: "remove_tokens ?ers s = (used, val)" by (cases "remove_tokens ?ers s")
  have P: "hits ?ers v = [] \<longleftrightarrow> (\<forall>r \<in> set rs. v \<notin> set (split_ws r))" for v by (auto simp: hits_def filter_empty_conv)
  have words: "?P w \<Longrightarrow> w \<noteq> [] \<and> (\<forall>c \<in> set w. \<not> is_space c)" for w using split_ws_parts by (auto simp: P)
  from remove_fold [OF ut [unfolded remove_tokens_def]]
  have val: "val = kept ?P (ws_tokens [] s)" and used: "set used = (\<Union>v \<in> set (ws_tokens [] s). set (hits ?ers v))" by simp_all
  have "split_ws val = filter (\<lambda>w. \<forall>r \<in> set rs. w \<notin> set (split_ws r)) (split_ws s)"
    using split_ws_kept [of ?P "[]" s, OF words] by (simp add: val P split_ws_def [of s, symmetric])
  moreover have "filter is_space val = filter is_space s" using spaces_kept [of ?P "[]" s, OF words] val by simp
  moreover have "set used = {DStr r |r. r \<in> set rs \<and> set (split_ws r) \<inter> set (split_ws s) \<noteq> {}}"
  proof -
    have "v \<in> set (ws_tokens [] s) \<longleftrightarrow> v \<in> set (split_ws s)" if "r \<in> set rs" "v \<in> set (split_ws r)" for r v
      using ws_tokens_words [of "[]" v s] split_ws_parts [OF that(2)] by (simp add: split_ws_def)
    moreover have "set (hits ?ers v) = {DStr r |r. r \<in> set rs \<and> v \<in> set (split_ws r)}" for v by (auto simp: hits_def filter_map comp_def)
    ultimately show ?thesis unfolding used by blast
  qed
  moreover have "apply_removes env get (map DStr rs) vp st = Ret (vp\<lparr>vp_removes := Some used, vp_value := Some (DStr val)\<rparr>) st"
    using assms(2) by (simp add: apply_removes_def expand_removes_plain [OF assms(1)] ut)
  ultimately show ?thesis
    by (intro exI [of _ "vp\<lparr>vp_removes := Some used, vp_value := Some (DStr val)\<rparr>"] exI [of _ val]) simp
qed

theorem removes_exact_witness:
  "\<exists>vp' val. apply_removes sample_env (getVarFlag sample_env) (map DStr [''b  c'', ''d'']) (fresh_parse None (Some (DStr ''a b  c''))) sample_store = Ret vp' sample_store \<and>
    vp_value vp' = Some (DStr val) \<and> split_ws val = [''a''] \<and> vp_removes vp' \<noteq> None"
proof -
  have "\<forall>r \<in> set [''b  c'', ''d'']. \<not> sublist ''${'' r" by code_simp
  moreover have "vp_value (fresh_parse None (Some (DStr ''a b  c''))) = Some (DStr ''a b  c'')" by (simp add: fresh_parse_def)
  moreover have "filter (\<lambda>w. \<forall>r \<in> set [''b  c'', ''d'']. w \<notin> set (split_ws r)) (split_ws ''a b  c'') = [''a'']" by code_simp
  ultimately show ?thesis
    using removes_exact [of "[''b  c'', ''d'']" "fresh_parse None (Some (DStr ''a b  c''))" "''a b  c''" sample_env "getVarFlag sample_env" sample_store] by force
qed

section \<open>Registrations of deleted variables\<close>

text \<open>Deleting an overriding variable takes its registration back exactly when its override counts as lower case for \<^verbatim>\<open>str.islower\<close>. A registration needs only a first character that is
  a small letter or a digit: for an override such as \<^verbatim>\<open>64\<close> it outlives the deleted variable.\<close>

theorem delVar_unregisters:
  assumes "delVar env (v @ ''_'' @ ov) li st = Ret u t" and "CHR ''_'' \<notin> set ov" and "(v @ ''_'' @ ov, ov) \<in> set (dd_get (ds_overridedata st) v)"
    and "distinct (dd_get (ds_overridedata st) v)"
  shows "(v @ ''_'' @ ov, ov) \<in> set (dd_get (ds_overridedata t) v) \<longleftrightarrow> \<not> islower ov"
proof -
  let ?var = "v @ ''_'' @ ov" and ?od = "AList.delete (v @ ''_'' @ ov) (ds_overridedata st)"
  have parts: "before_last ?var = v" "after_last ?var ?var = ov"
    using assms(2) rsplit1_snoc [of "CHR ''_''" ov v] by (simp_all add: before_last_def after_last_def)
  from assms(1) have od: "ds_overridedata t = unregister_loop ?var v ov ?od"
    using parts by (auto simp: delVar_def Let_def clear_cache_def put_flags_def dest!: record_op_Ret)
  have v: "dd_get ?od v = dd_get (ds_overridedata st) v" by (simp add: dd_get_def delete_conv')
  show ?thesis
  proof (cases "islower ov")
    case False
    then have "ds_overridedata t = ?od" using od by (subst (asm) unregister_loop.simps) simp
    with False v assms(3) show ?thesis by simp
  next
    case True
    then have ne: "ov \<noteq> []" by (auto simp: islower_def)
    let ?od1 = "if has_key ?od v then dict_set v (remove1 (?var, ov) (dd_get ?od v)) ?od else ?od"
    have "fewer ?od1 (ds_overridedata t)"
      unfolding od using True ne fewer_unregister [of ?od1 ?var] by (subst unregister_loop.simps) (auto simp: Let_def fewer_def)
    moreover have "(?var, ov) \<notin> set (dd_get ?od1 v)"
      using assms(4) v by (auto simp: dd_get_def has_key_def)
    ultimately show ?thesis using True by (auto simp: fewer_def)
  qed
qed

definition sample_digits :: dsmart where
  "sample_digits = set_str ''E_64'' ''64'' (set_str ''E_p'' ''p'' (set_str ''E'' ''e'' (DataSmart COWDictBase)))"

definition sample_digits_deleted :: dsmart where
  "sample_digits_deleted = (case delVar sample_env ''E_64'' [] sample_digits of Ret _ t \<Rightarrow> t | _ \<Rightarrow> sample_digits)"

theorem delVar_unregisters_witness:
  "(''E_64'', ''64'') \<in> set (dd_get (ds_overridedata sample_digits_deleted) ''E'') \<and>
   (case getVar sample_env ''E'' expanded (set_str ''OVERRIDES'' ''p:64'' sample_digits_deleted) of Ret v _ \<Rightarrow> v = Some (DStr ''e'') | _ \<Rightarrow> False)"
proof
  have "(case delVar sample_env (''E'' @ ''_'' @ ''64'') [] sample_digits of Ret _ _ \<Rightarrow> True | _ \<Rightarrow> False)" by code_simp
  then have del: "delVar sample_env (''E'' @ ''_'' @ ''64'') [] sample_digits = Ret () sample_digits_deleted"
    by (auto simp: sample_digits_deleted_def split: dres.splits)
  have "CHR ''_'' \<notin> set ''64''" "(''E'' @ ''_'' @ ''64'', ''64'') \<in> set (dd_get (ds_overridedata sample_digits) ''E'')"
      "distinct (dd_get (ds_overridedata sample_digits) ''E'')" "\<not> islower ''64''" by code_simp+
  with delVar_unregisters [OF del this(1-3)] show "(''E_64'', ''64'') \<in> set (dd_get (ds_overridedata sample_digits_deleted) ''E'')" by simp
  show "(case getVar sample_env ''E'' expanded (set_str ''OVERRIDES'' ''p:64'' sample_digits_deleted) of Ret v _ \<Rightarrow> v = Some (DStr ''e'') | _ \<Rightarrow> False)" by code_simp
qed

section \<open>Registrations under a prefix\<close>

text \<open>An append, prepend or remove for a variable without underscore whose name begins with a small letter or a digit registers the variable as an overriding variable of its own name without
  the last character.\<close>

theorem keyword_registers_prefix:
  assumes "match_setvar var = Some (base, kw, ov)" and "CHR ''_'' \<notin> set base" and "override_match base"
    and "eval_pure (de_eval env)" and "CHR ''_'' \<in> set var" and "setVar env var v li st = Ret u t"
  shows "(base, base) \<in> set (dd_get (ds_overridedata t) (butlast base))"
proof -
  have ne: "base \<noteq> []" using assms(3) by (auto simp: override_match_def)
  have reg: "(base, base) \<in> set (dd_get (ds_overridedata (setvar_update_overrides base s)) (butlast base))" for s
  proof -
    have nb: "CHR ''_'' \<notin> set (butlast base)" using assms(2) by (meson in_set_butlastD)
    have "ds_overridedata (setvar_update_overrides base s) = register (butlast base) base base (ds_overridedata s)"
      using no_last_parts [OF assms(2)] assms(3) ne nb by (simp add: setvar_update_overrides_def update_overrides_loop.simps)
    then show ?thesis by (simp add: dd_get_register)
  qed
  from assms(1,5,6) obtain s where "(if base \<in> set (ds_overridevars (setvar_update_overrides base s))
      then setvar_update_overridevars env var v (setvar_update_overrides base s) else Ret () (setvar_update_overrides base s)) = Ret () t"
    by (auto simp: setVar_def setVar_keyword_def Let_def simp del: if_split)
  then have "same_dicts (setvar_update_overrides base s) t"
    using update_overridevars_dicts [OF assms(4)] by (auto simp: same_dicts_def split: if_splits)
  with reg [of s] show ?thesis by (simp add: same_dicts_def)
qed

definition sample_prefix :: dsmart where
  "sample_prefix = set_str ''foo_append'' ''2'' (set_str ''foo'' ''1'' (set_str ''fo'' ''0'' (DataSmart COWDictBase)))"

theorem keyword_registers_prefix_witness:
  "(''foo'', ''foo'') \<in> set (dd_get (ds_overridedata sample_prefix) ''fo'') \<and>
   (case getVar sample_env ''fo'' expanded (set_str ''OVERRIDES'' ''foo'' sample_prefix) of Ret v _ \<Rightarrow> v = Some (DStr ''12'') | _ \<Rightarrow> False)"
proof
  let ?st = "set_str ''foo'' ''1'' (set_str ''fo'' ''0'' (DataSmart COWDictBase))"
  have "(case setVar sample_env ''foo_append'' (DStr ''2'') [] ?st of Ret _ _ \<Rightarrow> True | _ \<Rightarrow> False)" by code_simp
  then have set: "setVar sample_env ''foo_append'' (DStr ''2'') [] ?st = Ret () sample_prefix"
    by (auto simp: sample_prefix_def set_str_def [of "''foo_append''"] split: dres.splits)
  have "match_setvar ''foo_append'' = Some (''foo'', append_kw, None)" "CHR ''_'' \<notin> set ''foo''" "override_match ''foo''" "CHR ''_'' \<in> set ''foo_append''" by code_simp+
  with keyword_registers_prefix [OF this(1-3) sample_eval_pure this(4) set]
  show "(''foo'', ''foo'') \<in> set (dd_get (ds_overridedata sample_prefix) ''fo'')" by simp
  show "(case getVar sample_env ''fo'' expanded (set_str ''OVERRIDES'' ''foo'' sample_prefix) of Ret v _ \<Rightarrow> v = Some (DStr ''12'') | _ \<Rightarrow> False)" by code_simp
qed

section \<open>Exports and copies\<close>

text \<open>The set of exported variables is shared with the original of a copy: when the original has such a set, setting the flag \<^verbatim>\<open>export\<close> of a variable in the copy adds the
  variable to the set of the original.\<close>

theorem export_reaches_original:
  assumes "fst (findVar exportlist st) = Some fd" and "map_of fd content_flag = Some (DSet a)" and "var \<noteq> exportlist"
    and "setVarFlag env var ''export'' v li (createCopy st) = Ret u t"
  shows "fst (findVar exportlist (resume st t)) = Some fd \<and> set_contents a (resume st t) = add_new var (set_contents a st)"
proof -
  let ?c = "createCopy st"
  have copy: "ds_dict ?c = []" "ds_data ?c = ds_dict st # ds_data st" "ds_sets ?c = ds_sets st"
    by (simp_all add: createCopy_def DataSmart_def Let_def case_prod_beta)
  have flag: "''export'' \<noteq> default_flag" by (simp add: default_flag_def)
  from assms(4) flag obtain st1 where rec: "record_op env var (Some v) (dict_set ''flag'' ''export'' (default_op li)) (clear_cache ?c) = Ret () st1"
      and exp: "add_export var (put_flag var ''export'' v (makeShadowCopy var st1)) = Ret () t"
    by (auto simp: setVarFlag_def Let_def)
  let ?s = "put_flag var ''export'' v (makeShadowCopy var st1)"
  obtain h where h: "st1 = (clear_cache ?c)\<lparr>ds_hist := h\<rparr>" using record_op_Ret [OF rec] by blast
  have shadow: "ds_data (makeShadowCopy w s) = ds_data s" "ds_sets (makeShadowCopy w s) = ds_sets s"
      "w' \<noteq> w \<Longrightarrow> map_of (ds_dict (makeShadowCopy w s)) w' = map_of (ds_dict s) w'" for w w' s
    by (auto simp: makeShadowCopy_def initVar_def clear_cache_def Let_def split: option.splits)
  have s: "map_of (ds_dict ?s) exportlist = None" "ds_data ?s = ds_dict st # ds_data st" "ds_sets ?s = ds_sets st"
    using assms(3) copy by (simp_all add: put_flag_def put_flags_def shadow h clear_cache_def)
  then have "own_flags exportlist (makeShadowCopy exportlist ?s) = fd"
    using shadow_flags [of exportlist ?s] assms(1) by (simp add: findVar_def flags_or_empty_def)
  then have "t = (makeShadowCopy exportlist ?s)\<lparr>ds_sets := dict_set a (add_new var (set_contents a (makeShadowCopy exportlist ?s))) (ds_sets (makeShadowCopy exportlist ?s))\<rparr>"
    using exp assms(2) by (simp add: add_export_def Let_def has_key_def)
  then show ?thesis using assms(1) s by (simp add: resume_def findVar_def set_contents_def shadow)
qed

definition sample_exporting :: dsmart where
  "sample_exporting = (case setVarFlag sample_env ''A'' ''export'' (DInt 1) [] sample_store of Ret _ t \<Rightarrow> t | _ \<Rightarrow> sample_store)"

definition sample_copy_export :: dsmart where
  "sample_copy_export = (case setVarFlag sample_env ''Z'' ''export'' (DInt 1) [] (createCopy sample_exporting) of Ret _ t \<Rightarrow> t | _ \<Rightarrow> sample_exporting)"

theorem export_reaches_original_witness:
  "set_contents 1 sample_exporting = [''A''] \<and> set_contents 1 (resume sample_exporting sample_copy_export) = [''A'', ''Z'']"
proof -
  have "(case setVarFlag sample_env ''Z'' ''export'' (DInt 1) [] (createCopy sample_exporting) of Ret _ _ \<Rightarrow> True | _ \<Rightarrow> False)" by code_simp
  then have set: "setVarFlag sample_env ''Z'' ''export'' (DInt 1) [] (createCopy sample_exporting) = Ret () sample_copy_export"
    by (auto simp: sample_copy_export_def split: dres.splits)
  have fd: "fst (findVar exportlist sample_exporting) = Some [(content_flag, DSet 1)]" "set_contents 1 sample_exporting = [''A'']" "''Z'' \<noteq> exportlist" by code_simp+
  have "map_of [(content_flag, DSet 1)] content_flag = Some (DSet 1)" by simp
  from export_reaches_original [OF fd(1) this fd(3) set] fd(2) show ?thesis by (simp add: add_new_def)
qed

section \<open>Stale values\<close>

text \<open>
  The overrides are known; \<open>A\<close> has an overriding variable for \<open>b\<close>. Then \<^verbatim>\<open>OVERRIDES\<close> is set to a text that refers to \<open>A\<close> and activates \<open>b\<close>.
\<close>

definition sample_before :: dsmart where
  "sample_before = (case getVar sample_env ''A'' expanded (set_str ''A_b'' ''new'' (set_str ''A'' ''old'' (DataSmart COWDictBase))) of Ret _ t \<Rightarrow> t | _ \<Rightarrow> DataSmart COWDictBase)"

definition sample_stale :: dsmart where
  "sample_stale = set_str ''OVERRIDES'' ''${A}:b'' sample_before"

definition value_in :: "string \<Rightarrow> dsmart \<Rightarrow> dval option" where
  "value_in var st = (case getVar sample_env var expanded st of Ret v _ \<Rightarrow> v | _ \<Rightarrow> None)"

text \<open>Setting \<^verbatim>\<open>OVERRIDES\<close> leaves values in the cache that were computed with the old overrides, because its references are looked up before the old overrides are dropped: the lookup of \<open>A\<close>
  returns the value without the override, also after the overrides were computed anew; with an empty cache it returns the value of the overriding variable.\<close>

theorem override_cache_stale:
  "value_in ''A'' sample_stale = Some (DStr ''old'') \<and> value_in ''OVERRIDES'' sample_stale = Some (DStr ''old:b'') \<and>
   value_in ''A'' (clear_cache sample_stale) = Some (DStr ''new'')"
  by (intro conjI) code_simp+

section \<open>Lost overrides\<close>

text \<open>When \<^verbatim>\<open>OVERRIDES\<close> cannot be expanded, the lookup that needed it raises, and the store is left with an empty list of overrides that counts as computed: the next lookup
  works without any override.\<close>

theorem overrides_lost:
  assumes "ds_overrides st = None" and "\<not> ds_inoverride st"
    and "get ''OVERRIDES'' content_flag expanded (put_overrides [] (st\<lparr>ds_inoverride := True\<rparr>)) = Exc e t" and "ds_overrides t = Some []"
  shows "need_overrides get st = Exc e t \<and> need_overrides get' t = Ret () t"
proof
  have "need_loop (Suc 4) get st = Exc e t" using assms(3) by (subst need_loop.simps) simp
  then show "need_overrides get st = Exc e t" using assms(1,2) by (simp add: need_overrides_def numeral_eq_Suc)
  show "need_overrides get' t = Ret () t" using assms(4) by (simp add: need_overrides_def)
qed

definition failing_env :: dsenv where
  "failing_env = sample_env\<lparr>de_eval := (\<lambda>_ st. Exc (KeyError ''X'') st)\<rparr>"

definition sample_failing :: dsmart where
  "sample_failing = (set_str ''A_b'' ''new'' (set_str ''A'' ''old'' (DataSmart COWDictBase)))\<lparr>ds_overrides := None\<rparr>"

definition sample_bad :: dsmart where
  "sample_bad = put_flags ''OVERRIDES'' [(content_flag, DStr ''b:${@X}'')] sample_failing"

definition sample_lost :: dsmart where
  "sample_lost = (case getVarFlag failing_env ''OVERRIDES'' content_flag expanded (put_overrides [] (sample_bad\<lparr>ds_inoverride := True\<rparr>)) of Exc _ t \<Rightarrow> t | _ \<Rightarrow> sample_bad)"

theorem overrides_lost_witness:
  "need_overrides (getVarFlag failing_env) sample_bad = Exc (ExpansionError (Some ''OVERRIDES'') ''b:${@X}'' (KeyError ''X'')) sample_lost \<and>
   need_overrides (getVarFlag failing_env) sample_lost = Ret () sample_lost"
proof -
  let ?m = "getVarFlag failing_env ''OVERRIDES'' content_flag expanded (put_overrides [] (sample_bad\<lparr>ds_inoverride := True\<rparr>))"
  have "(case ?m of Exc e t \<Rightarrow> e = ExpansionError (Some ''OVERRIDES'') ''b:${@X}'' (KeyError ''X'') | _ \<Rightarrow> False)" by code_simp
  then have m: "?m = Exc (ExpansionError (Some ''OVERRIDES'') ''b:${@X}'' (KeyError ''X'')) sample_lost"
    by (auto simp: sample_lost_def split: dres.splits)
  have "ds_overrides sample_bad = None" "\<not> ds_inoverride sample_bad" "ds_overrides sample_lost = Some []" by code_simp+
  from overrides_lost [where get = "getVarFlag failing_env", OF this(1,2) m this(3)] show ?thesis by blast
qed

end
