(* ===== verification/BB_PRTable.thy ===== *)
theory BB_PRTable
  imports BB_Prelude
begin

text \<open>
  The table of the PR service, class \<^verbatim>\<open>PRTable\<close> of \<^verbatim>\<open>lib/prserv/db.py\<close>, which numbers the builds of a recipe: a row has a version, an architecture, a checksum and the value
  handed out for them. The SQL statements are functions on the list of the rows, in the order of their insertion. One connection uses the table, so no statement meets a lock; values are
  numbers, so no column is ever \<^verbatim>\<open>NULL\<close>.
\<close>

section \<open>The statements\<close>

record prrow =
  pr_version :: string
  pr_pkgarch :: string
  pr_checksum :: string
  pr_value :: int

text \<open>\<open>pt_committed\<close>: the rows of the last commit.\<close>

record prtable =
  pt_rows :: "prrow list"
  pt_committed :: "prrow list"
  pt_nohist :: bool
  pt_dirty :: bool

definition PRTable :: "prrow list \<Rightarrow> bool \<Rightarrow> prtable" where
  "PRTable rows nohist = \<lparr>pt_rows = rows, pt_committed = rows, pt_nohist = nohist, pt_dirty = False\<rparr>"

definition in_group :: "string \<Rightarrow> string \<Rightarrow> prrow \<Rightarrow> bool" where
  "in_group version pkgarch r \<longleftrightarrow> pr_version r = version \<and> pr_pkgarch r = pkgarch"

definition is_row :: "string \<Rightarrow> string \<Rightarrow> string \<Rightarrow> prrow \<Rightarrow> bool" where
  "is_row version pkgarch checksum r \<longleftrightarrow> in_group version pkgarch r \<and> pr_checksum r = checksum"

text \<open>\<^verbatim>\<open>SELECT value ... WHERE version=? AND pkgarch=? AND checksum=?\<close> and its first row.\<close>

definition select_values :: "string \<Rightarrow> string \<Rightarrow> string \<Rightarrow> prrow list \<Rightarrow> int list" where
  "select_values version pkgarch checksum rows = map pr_value (filter (is_row version pkgarch checksum) rows)"

definition fetchone :: "'a list \<Rightarrow> 'a option" where
  "fetchone xs = (case xs of [] \<Rightarrow> None | x # _ \<Rightarrow> Some x)"

text \<open>\<^verbatim>\<open>max(value)\<close> of the rows with a version and an architecture, and \<^verbatim>\<open>ifnull(max(value)+1,0)\<close>.\<close>

definition group_values :: "string \<Rightarrow> string \<Rightarrow> prrow list \<Rightarrow> int list" where
  "group_values version pkgarch rows = map pr_value (filter (in_group version pkgarch) rows)"

definition max_value :: "string \<Rightarrow> string \<Rightarrow> prrow list \<Rightarrow> int option" where
  "max_value version pkgarch rows = (case group_values version pkgarch rows of [] \<Rightarrow> None | x # xs \<Rightarrow> Some (fold max xs x))"

definition next_value :: "string \<Rightarrow> string \<Rightarrow> prrow list \<Rightarrow> int" where
  "next_value version pkgarch rows = (case max_value version pkgarch rows of None \<Rightarrow> 0 | Some m \<Rightarrow> m + 1)"

text \<open>\<^verbatim>\<open>INSERT\<close> fails with an \<^verbatim>\<open>IntegrityError\<close> when the primary key exists, \<^verbatim>\<open>INSERT OR REPLACE\<close> deletes the old row first.\<close>

definition new_row :: "string \<Rightarrow> string \<Rightarrow> string \<Rightarrow> int \<Rightarrow> prrow" where
  "new_row version pkgarch checksum v = \<lparr>pr_version = version, pr_pkgarch = pkgarch, pr_checksum = checksum, pr_value = v\<rparr>"

definition insert_row :: "string \<Rightarrow> string \<Rightarrow> string \<Rightarrow> int \<Rightarrow> prrow list \<Rightarrow> prrow list option" where
  "insert_row version pkgarch checksum v rows =
     (if list_ex (is_row version pkgarch checksum) rows then None else Some (rows @ [new_row version pkgarch checksum v]))"

definition replace_row :: "string \<Rightarrow> string \<Rightarrow> string \<Rightarrow> int \<Rightarrow> prrow list \<Rightarrow> prrow list" where
  "replace_row version pkgarch checksum v rows =
     filter (\<lambda>r. \<not> is_row version pkgarch checksum r) rows @ [new_row version pkgarch checksum v]"

section \<open>The methods\<close>

definition sync :: "prtable \<Rightarrow> prtable" where
  "sync t = t\<lparr>pt_committed := pt_rows t\<rparr>"

definition sync_if_dirty :: "prtable \<Rightarrow> prtable" where
  "sync_if_dirty t = (if pt_dirty t then (sync t)\<lparr>pt_dirty := False\<rparr> else t)"

text \<open>The result \<open>None\<close> of the two methods is \<^verbatim>\<open>NotFoundError\<close>.\<close>

definition getValueHist :: "string \<Rightarrow> string \<Rightarrow> string \<Rightarrow> prtable \<Rightarrow> int option \<times> prtable" where
  "getValueHist version pkgarch checksum t =
     (case fetchone (select_values version pkgarch checksum (pt_rows t)) of
        Some v \<Rightarrow> (Some v, t)
      | None \<Rightarrow>
          (let rows = (case insert_row version pkgarch checksum (next_value version pkgarch (pt_rows t)) (pt_rows t) of
                         Some rs \<Rightarrow> rs | None \<Rightarrow> pt_rows t);
               t1 = t\<lparr>pt_rows := rows, pt_dirty := True\<rparr>
           in (fetchone (select_values version pkgarch checksum (pt_rows t1)), t1)))"

definition getValueNohist :: "string \<Rightarrow> string \<Rightarrow> string \<Rightarrow> prtable \<Rightarrow> int option \<times> prtable" where
  "getValueNohist version pkgarch checksum t =
     (case fetchone (filter (\<lambda>v. case max_value version pkgarch (pt_rows t) of None \<Rightarrow> False | Some m \<Rightarrow> m \<le> v)
                       (select_values version pkgarch checksum (pt_rows t))) of
        Some v \<Rightarrow> (Some v, t)
      | None \<Rightarrow>
          (let t1 = t\<lparr>pt_rows := replace_row version pkgarch checksum (next_value version pkgarch (pt_rows t)) (pt_rows t), pt_dirty := True\<rparr>
           in (fetchone (select_values version pkgarch checksum (pt_rows t1)), t1)))"

definition getValue :: "string \<Rightarrow> string \<Rightarrow> string \<Rightarrow> prtable \<Rightarrow> int option \<times> prtable" where
  "getValue version pkgarch checksum t =
     (if pt_nohist t then getValueNohist version pkgarch checksum t else getValueHist version pkgarch checksum t)"

definition importHist :: "string \<Rightarrow> string \<Rightarrow> string \<Rightarrow> int \<Rightarrow> prtable \<Rightarrow> int option \<times> prtable" where
  "importHist version pkgarch checksum v t =
     (case fetchone (select_values version pkgarch checksum (pt_rows t)) of
        Some w \<Rightarrow> (Some w, t)
      | None \<Rightarrow>
          (let rows = (case insert_row version pkgarch checksum v (pt_rows t) of Some rs \<Rightarrow> rs | None \<Rightarrow> pt_rows t);
               t1 = t\<lparr>pt_rows := rows, pt_dirty := True\<rparr>
           in (fetchone (select_values version pkgarch checksum (pt_rows t1)), t1)))"

definition raise_row :: "string \<Rightarrow> string \<Rightarrow> string \<Rightarrow> int \<Rightarrow> prrow \<Rightarrow> prrow" where
  "raise_row version pkgarch checksum v r = (if is_row version pkgarch checksum r \<and> pr_value r < v then r\<lparr>pr_value := v\<rparr> else r)"

definition importNohist :: "string \<Rightarrow> string \<Rightarrow> string \<Rightarrow> int \<Rightarrow> prtable \<Rightarrow> int option \<times> prtable" where
  "importNohist version pkgarch checksum v t =
     (let rows = (case insert_row version pkgarch checksum v (pt_rows t) of
                    Some rs \<Rightarrow> rs | None \<Rightarrow> map (raise_row version pkgarch checksum v) (pt_rows t));
          t1 = t\<lparr>pt_rows := rows, pt_dirty := True\<rparr>
      in (fetchone (filter (\<lambda>w. v \<le> w) (select_values version pkgarch checksum rows)), t1))"

definition importone :: "string \<Rightarrow> string \<Rightarrow> string \<Rightarrow> int \<Rightarrow> prtable \<Rightarrow> int option \<times> prtable" where
  "importone version pkgarch checksum v t =
     (if pt_nohist t then importNohist version pkgarch checksum v t else importHist version pkgarch checksum v t)"

text \<open>
  The rows of \<^verbatim>\<open>export\<close>; an empty argument selects everything, and rows with an empty version are left out. Without history only the rows with the largest value of their
  version and architecture are selected. The description of the columns is left out.
\<close>

definition export_rows :: "string \<Rightarrow> string \<Rightarrow> string \<Rightarrow> prtable \<Rightarrow> prrow list" where
  "export_rows version pkgarch checksum t =
     filter (\<lambda>r. (version = [] \<or> pr_version r = version) \<and> (pkgarch = [] \<or> pr_pkgarch r = pkgarch) \<and> (checksum = [] \<or> pr_checksum r = checksum) \<and>
                pr_version r \<noteq> [])
       (if pt_nohist t then filter (\<lambda>r. max_value (pr_version r) (pr_pkgarch r) (pt_rows t) = Some (pr_value r)) (pt_rows t) else pt_rows t)"

section \<open>Invariant\<close>

text \<open>The primary key is unique and no value is negative.\<close>

definition key_of :: "prrow \<Rightarrow> string \<times> string \<times> string" where
  "key_of r = (pr_version r, pr_pkgarch r, pr_checksum r)"

definition table_ok :: "prtable \<Rightarrow> bool" where
  "table_ok t \<longleftrightarrow> distinct (map key_of (pt_rows t)) \<and> (\<forall>r \<in> set (pt_rows t). 0 \<le> pr_value r)"

lemma is_row_key: "is_row v p c r \<longleftrightarrow> key_of r = (v, p, c)"
  by (auto simp: is_row_def in_group_def key_of_def)

lemma fold_max: "fold max xs (x :: int) = Max (insert x (set xs))"
  by (metis List.finite_set Max.set_eq_fold list.simps(15))

lemma max_value_None: "max_value v p rows = None \<longleftrightarrow> group_values v p rows = []"
  by (simp add: max_value_def split: list.splits)

lemma max_value_Some: "max_value v p rows = Some m \<longleftrightarrow> m \<in> set (group_values v p rows) \<and> (\<forall>x \<in> set (group_values v p rows). x \<le> m)"
proof (cases "group_values v p rows")
  case (Cons x xs)
  have "Max (set (x # xs)) = m \<longleftrightarrow> m \<in> set (x # xs) \<and> (\<forall>y \<in> set (x # xs). y \<le> m)"
    by (subst eq_commute, rule eq_Max_iff) simp_all
  then show ?thesis by (simp add: max_value_def Cons fold_max)
qed (simp add: max_value_def)

lemma next_value_greater: "x \<in> set (group_values v p rows) \<Longrightarrow> x < next_value v p rows"
  using max_value_None [of v p rows] max_value_Some [of v p rows]
  by (cases "max_value v p rows") (auto simp: next_value_def)

lemma next_value_nonneg: "\<forall>r \<in> set rows. 0 \<le> pr_value r \<Longrightarrow> 0 \<le> next_value v p rows"
  using max_value_Some [of v p rows] by (auto simp: next_value_def group_values_def split: option.splits)

lemma key_unique: "distinct (map key_of rows) \<Longrightarrow> r \<in> set rows \<Longrightarrow> key_of r = (v, p, c) \<Longrightarrow> filter (is_row v p c) rows = [r]"
proof (induction rows)
  case (Cons s rows)
  show ?case
  proof (cases "r = s")
    case True
    with Cons.prems have "\<forall>q \<in> set rows. \<not> is_row v p c q" by (force simp: is_row_key)
    with True Cons.prems show ?thesis by (simp add: is_row_key)
  next
    case False
    with Cons.prems have "key_of s \<noteq> (v, p, c)" by (metis imageI list.set_map list.simps(9) distinct.simps(2) set_ConsD)
    with False Cons show ?thesis by (simp add: is_row_key)
  qed
qed simp

lemma select_row: "distinct (map key_of rows) \<Longrightarrow> r \<in> set rows \<Longrightarrow> key_of r = (v, p, c) \<Longrightarrow> select_values v p c rows = [pr_value r]"
  by (simp add: select_values_def key_unique)

lemma select_none: "\<not> list_ex (is_row v p c) rows \<Longrightarrow> select_values v p c rows = []"
  by (simp add: select_values_def list_ex_iff filter_empty_conv)

lemma key_new [simp]: "key_of (new_row v p c x) = (v, p, c)" "pr_value (new_row v p c x) = x"
  by (simp_all add: key_of_def new_row_def)

lemma in_group_new [simp]: "in_group v' p' (new_row v p c x) \<longleftrightarrow> v' = v \<and> p' = p"
  by (auto simp: in_group_def new_row_def)

lemma group_append [simp]: "group_values v p (xs @ ys) = group_values v p xs @ group_values v p ys"
  by (simp add: group_values_def)

lemma distinct_insert: "distinct (map key_of rows) \<Longrightarrow> \<not> list_ex (is_row v p c) rows \<Longrightarrow> distinct (map key_of (rows @ [new_row v p c x]))"
  by (auto simp: list_ex_iff is_row_key)

lemma distinct_replace: "distinct (map key_of rows) \<Longrightarrow> distinct (map key_of (replace_row v p c x rows))"
  by (auto simp: replace_row_def is_row_key distinct_map_filter)

section \<open>Values with history\<close>

lemma getValueHist_spec:
  assumes "table_ok t"
  shows "(\<exists>r \<in> set (pt_rows t). key_of r = (v, p, c) \<and> getValueHist v p c t = (Some (pr_value r), t)) \<or>
    (\<not> list_ex (is_row v p c) (pt_rows t) \<and> getValueHist v p c t = (Some (next_value v p (pt_rows t)),
       t\<lparr>pt_rows := pt_rows t @ [new_row v p c (next_value v p (pt_rows t))], pt_dirty := True\<rparr>))"
proof (cases "list_ex (is_row v p c) (pt_rows t)")
  case True
  then obtain r where r: "r \<in> set (pt_rows t)" "key_of r = (v, p, c)" by (auto simp: list_ex_iff is_row_key)
  with assms have "select_values v p c (pt_rows t) = [pr_value r]" by (simp add: table_ok_def select_row)
  with r show ?thesis by (auto simp: getValueHist_def fetchone_def)
next
  case False
  let ?new = "new_row v p c (next_value v p (pt_rows t))"
  have "distinct (map key_of (pt_rows t @ [?new]))" by (rule distinct_insert [OF _ False]) (use assms in \<open>simp add: table_ok_def\<close>)
  then have "select_values v p c (pt_rows t @ [?new]) = [pr_value ?new]" by (rule select_row) simp_all
  with False show ?thesis by (simp add: getValueHist_def select_none fetchone_def insert_row_def)
qed

text \<open>A sequence of requests.\<close>

fun requests :: "(string \<times> string \<times> string) list \<Rightarrow> prtable \<Rightarrow> int option list \<times> prtable" where
  "requests [] t = ([], t)"
| "requests ((v, p, c) # qs) t =
     (let (x, t1) = getValue v p c t; (xs, t2) = requests qs t1 in (x # xs, t2))"

definition consecutive :: "prtable \<Rightarrow> bool" where
  "consecutive t \<longleftrightarrow> table_ok t \<and> \<not> pt_nohist t \<and> (\<forall>v p. group_values v p (pt_rows t) = map int [0..<length (group_values v p (pt_rows t))])"

lemma next_consecutive: "group_values v p rows = map int [0..<n] \<Longrightarrow> next_value v p rows = int n"
proof (cases n)
  case (Suc k)
  assume "group_values v p rows = map int [0..<n]"
  with Suc have "max_value v p rows = Some (int k)" by (subst max_value_Some) (auto simp: less_Suc_eq_le)
  with Suc show ?thesis by (simp add: next_value_def)
qed (simp add: next_value_def max_value_def)

lemma consecutive_add:
  assumes "consecutive t" "\<not> list_ex (is_row v p c) (pt_rows t)"
  shows "consecutive (t\<lparr>pt_rows := pt_rows t @ [new_row v p c (next_value v p (pt_rows t))], pt_dirty := True\<rparr>)"
proof -
  have "next_value v p (pt_rows t) = int (length (group_values v p (pt_rows t)))"
    using assms(1) next_consecutive by (simp add: consecutive_def)
  moreover have "group_values v' p' [new_row v p c x] = (if v' = v \<and> p' = p then [x] else [])" for v' p' x by (simp add: group_values_def)
  moreover have "0 \<le> next_value v p (pt_rows t)" using assms(1) by (intro next_value_nonneg) (simp add: consecutive_def table_ok_def)
  ultimately show ?thesis using assms distinct_insert [OF _ assms(2)] unfolding consecutive_def table_ok_def by auto
qed

lemma hist_step:
  assumes "consecutive t" "getValue v p c t = (x, t1)"
  shows "consecutive t1 \<and> set (pt_rows t) \<subseteq> set (pt_rows t1) \<and> (\<exists>r \<in> set (pt_rows t1). key_of r = (v, p, c) \<and> x = Some (pr_value r))"
proof -
  have "table_ok t" "getValueHist v p c t = (x, t1)" using assms by (simp_all add: consecutive_def getValue_def)
  with getValueHist_spec [of t v p c] assms(1) consecutive_add [OF assms(1), of v p c] show ?thesis by fastforce
qed

lemma hist_requests:
  "consecutive t \<Longrightarrow> requests qs t = (xs, t1) \<Longrightarrow> consecutive t1 \<and> set (pt_rows t) \<subseteq> set (pt_rows t1) \<and>
    list_all2 (\<lambda>q x. \<exists>r \<in> set (pt_rows t1). key_of r = q \<and> x = Some (pr_value r)) qs xs"
proof (induction qs arbitrary: t xs)
  case (Cons q qs)
  obtain v p c where q: "q = (v, p, c)" by (cases q)
  obtain x t2 where g: "getValue v p c t = (x, t2)" by (cases "getValue v p c t")
  obtain ys t3 where r: "requests qs t2 = (ys, t3)" by (cases "requests qs t2")
  from Cons.prems q g r have eq: "xs = x # ys" "t1 = t3" by simp_all
  from hist_step [OF Cons.prems(1) g] Cons.IH [of t2 ys] r eq q show ?case by auto
qed auto

text \<open>C36. With history, from an empty table: every request is answered with a number, the values handed out for a version and an architecture are 0, 1, 2 and so on without a gap, each answer is the value of
  the row of its request in the final table, and two requests of the same version and architecture have the same answer exactly when they have the same checksum.\<close>

theorem hist_values_consecutive:
  assumes "requests qs (PRTable [] False) = (xs, t)"
  shows "length xs = length qs \<and> (\<forall>v p. group_values v p (pt_rows t) = map int [0..<length (group_values v p (pt_rows t))]) \<and>
    (\<forall>i < length qs. \<exists>r \<in> set (pt_rows t). key_of r = qs ! i \<and> xs ! i = Some (pr_value r)) \<and>
    (\<forall>i < length qs. \<forall>j < length qs. fst (qs ! i) = fst (qs ! j) \<and> fst (snd (qs ! i)) = fst (snd (qs ! j)) \<longrightarrow>
       (xs ! i = xs ! j \<longleftrightarrow> qs ! i = qs ! j))"
proof -
  have "consecutive (PRTable [] False)" by (simp add: consecutive_def PRTable_def table_ok_def group_values_def)
  note spec = hist_requests [OF this assms]
  then have rows: "\<forall>i < length qs. \<exists>r \<in> set (pt_rows t). key_of r = qs ! i \<and> xs ! i = Some (pr_value r)" and "length xs = length qs"
    by (auto simp: list_all2_conv_all_nth)
  moreover have "qs ! i = qs ! j" if ij: "i < length qs" "j < length qs" "fst (qs ! i) = fst (qs ! j)" "fst (snd (qs ! i)) = fst (snd (qs ! j))" "xs ! i = xs ! j" for i j
  proof -
    from rows ij(1,2) obtain r s where rs: "r \<in> set (pt_rows t)" "key_of r = qs ! i" "xs ! i = Some (pr_value r)"
      "s \<in> set (pt_rows t)" "key_of s = qs ! j" "xs ! j = Some (pr_value s)" by metis
    let ?g = "filter (in_group (pr_version r) (pr_pkgarch r)) (pt_rows t)"
    have "group_values (pr_version r) (pr_pkgarch r) (pt_rows t) = map int [0..<length (group_values (pr_version r) (pr_pkgarch r) (pt_rows t))]"
      using spec by (simp add: consecutive_def)
    then have "distinct (map pr_value ?g)" by (metis group_values_def distinct_map distinct_upt inj_on_of_nat)
    moreover have "pr_version s = pr_version r" "pr_pkgarch s = pr_pkgarch r"
      using ij(3,4) unfolding rs(2,5) [symmetric] by (simp_all add: key_of_def)
    then have "r \<in> set ?g" "s \<in> set ?g" using rs(1,4) by (simp_all add: in_group_def)
    ultimately have "r = s" using rs(3,6) ij(5) by (auto simp: distinct_map inj_on_def)
    with rs show ?thesis by simp
  qed
  moreover have "xs ! i = xs ! j" if "i < length qs" "j < length qs" "qs ! i = qs ! j" for i j
    using rows that spec by (metis (no_types, lifting) consecutive_def inj_on_def distinct_map table_ok_def)
  ultimately show ?thesis using spec unfolding consecutive_def by blast
qed

definition sample_queries :: "(string \<times> string \<times> string) list" where
  "sample_queries = [(''1.0'', ''arm'', ''a''), (''1.0'', ''arm'', ''b''), (''1.0'', ''x86'', ''a''), (''1.0'', ''arm'', ''a'')]"

theorem hist_values_consecutive_witness:
  "requests sample_queries (PRTable [] False) =
     ([Some 0, Some 1, Some 0, Some 0], snd (requests sample_queries (PRTable [] False))) \<and>
   group_values ''1.0'' ''arm'' (pt_rows (snd (requests sample_queries (PRTable [] False)))) = map int [0..<2]"
proof -
  have xs: "fst (requests sample_queries (PRTable [] False)) = [Some 0, Some 1, Some 0, Some 0]" by code_simp
  have req: "requests sample_queries (PRTable [] False) = (fst (requests sample_queries (PRTable [] False)), snd (requests sample_queries (PRTable [] False)))" by simp
  have "length (group_values ''1.0'' ''arm'' (pt_rows (snd (requests sample_queries (PRTable [] False))))) = 2" by code_simp
  then show ?thesis using hist_values_consecutive [OF req] xs by (metis prod.collapse)
qed

section \<open>Values without history\<close>

text \<open>The largest value of a group, \<open>-1\<close> when it has no row.\<close>

definition top_value :: "string \<Rightarrow> string \<Rightarrow> prtable \<Rightarrow> int" where
  "top_value v p t = next_value v p (pt_rows t) - 1"

lemma max_of_group: "group_values v p rows = gs \<Longrightarrow> m \<in> set gs \<Longrightarrow> \<forall>x \<in> set gs. x \<le> m \<Longrightarrow> next_value v p rows = m + 1"
  using max_value_Some [of v p rows m] by (simp add: next_value_def)

lemma replace_top:
  assumes "x = next_value v p rows"
  shows "next_value v p (replace_row v p c x rows) = x + 1"
proof (rule max_of_group [OF refl])
  have g: "group_values v p (replace_row v p c x rows) = group_values v p (filter (\<lambda>r. \<not> is_row v p c r) rows) @ [x]"
    by (simp add: replace_row_def) (simp add: group_values_def)
  then show "x \<in> set (group_values v p (replace_row v p c x rows))" by simp
  have "set (group_values v p (filter (\<lambda>r. \<not> is_row v p c r) rows)) \<subseteq> set (group_values v p rows)" by (auto simp: group_values_def)
  then show "\<forall>y \<in> set (group_values v p (replace_row v p c x rows)). y \<le> x"
    using next_value_greater [of _ v p rows] assms g by fastforce
qed

lemma replace_other: "(v', p') \<noteq> (v, p) \<Longrightarrow> group_values v' p' (replace_row v p c x rows) = group_values v' p' rows"
proof -
  assume ne: "(v', p') \<noteq> (v, p)"
  then have "filter (\<lambda>r. in_group v' p' r \<and> \<not> is_row v p c r) rows = filter (in_group v' p') rows"
    by (intro filter_cong) (auto simp: in_group_def is_row_def)
  with ne show ?thesis by (auto simp: replace_row_def group_values_def conj_commute)
qed

lemma next_cong: "group_values v p rows = group_values v p rows' \<Longrightarrow> next_value v p rows = next_value v p rows'"
  by (simp add: next_value_def max_value_def)

lemma nohist_step:
  assumes "table_ok t" "pt_nohist t" "getValue v p c t = (x, t1)"
  shows "table_ok t1 \<and> pt_nohist t1 \<and> (\<forall>v' p'. top_value v' p' t \<le> top_value v' p' t1) \<and> x = Some (top_value v p t1) \<and> 0 \<le> top_value v p t1"
proof -
  let ?rows = "pt_rows t" and ?n = "next_value v p (pt_rows t)"
  let ?sel = "filter (\<lambda>w. case max_value v p ?rows of None \<Rightarrow> False | Some m \<Rightarrow> m \<le> w) (select_values v p c ?rows)"
  from assms(2,3) have g: "getValueNohist v p c t = (x, t1)" by (simp add: getValue_def)
  have ok: "distinct (map key_of ?rows)" "\<forall>r \<in> set ?rows. 0 \<le> pr_value r" using assms(1) by (simp_all add: table_ok_def)
  show ?thesis
  proof (cases ?sel)
    case (Cons w ws)
    then obtain m where m: "max_value v p ?rows = Some m" "m \<le> w" "w \<in> set (select_values v p c ?rows)"
      by (auto simp: filter_eq_Cons_iff split: option.splits)
    then have "w \<in> set (group_values v p ?rows)" by (auto simp: select_values_def group_values_def is_row_def)
    with m max_value_Some [of v p ?rows m] have "w = m" "0 \<le> w" using ok(2) by (force simp: group_values_def)+
    moreover from g Cons have "x = Some w" "t1 = t" by (simp_all add: getValueNohist_def fetchone_def)
    ultimately show ?thesis using m(1) assms(1,2) by (simp add: top_value_def next_value_def)
  next
    case Nil
    let ?rows1 = "replace_row v p c ?n ?rows"
    have d: "distinct (map key_of ?rows1)" by (rule distinct_replace [OF ok(1)])
    have "select_values v p c ?rows1 = [pr_value (new_row v p c ?n)]" by (rule select_row [OF d]) (simp_all add: replace_row_def)
    with g Nil have x: "x = Some ?n" and t1: "t1 = t\<lparr>pt_rows := ?rows1, pt_dirty := True\<rparr>" by (simp_all add: getValueNohist_def fetchone_def)
    have n: "0 \<le> ?n" by (rule next_value_nonneg [OF ok(2)])
    have "top_value v' p' t \<le> top_value v' p' t1" for v' p'
      using replace_top [OF refl, where v = v and p = p and rows = ?rows and c = c] next_cong [OF replace_other [of v' p' v p c ?n ?rows]] by (cases "(v', p') = (v, p)") (auto simp: top_value_def t1)
    moreover have "table_ok t1" using d ok(2) n by (auto simp: table_ok_def t1 replace_row_def)
    ultimately show ?thesis using x t1 n assms(2) replace_top [OF refl, where v = v and p = p and rows = ?rows and c = c] by (simp add: top_value_def)
  qed
qed

lemma nohist_requests:
  "table_ok t \<Longrightarrow> pt_nohist t \<Longrightarrow> requests qs t = (xs, t1) \<Longrightarrow>
    length xs = length qs \<and> (\<forall>j < length qs. \<exists>b. xs ! j = Some b \<and> 0 \<le> b \<and> top_value (fst (qs ! j)) (fst (snd (qs ! j))) t \<le> b) \<and>
    (\<forall>i j. i \<le> j \<and> j < length qs \<and> fst (qs ! i) = fst (qs ! j) \<and> fst (snd (qs ! i)) = fst (snd (qs ! j)) \<longrightarrow> the (xs ! i) \<le> the (xs ! j))"
proof (induction qs arbitrary: t xs)
  case (Cons q qs)
  obtain v p c where q: "q = (v, p, c)" by (cases q)
  obtain x t2 where g: "getValue v p c t = (x, t2)" by (cases "getValue v p c t")
  obtain ys t3 where r: "requests qs t2 = (ys, t3)" by (cases "requests qs t2")
  from Cons.prems q g r have eq: "xs = x # ys" "t1 = t3" by simp_all
  note step = nohist_step [OF Cons.prems(1,2) g]
  then have IH: "length ys = length qs"
      "\<And>j. j < length qs \<Longrightarrow> \<exists>b. ys ! j = Some b \<and> 0 \<le> b \<and> top_value (fst (qs ! j)) (fst (snd (qs ! j))) t2 \<le> b"
      "\<And>i j. i \<le> j \<Longrightarrow> j < length qs \<Longrightarrow> fst (qs ! i) = fst (qs ! j) \<Longrightarrow> fst (snd (qs ! i)) = fst (snd (qs ! j)) \<Longrightarrow> the (ys ! i) \<le> the (ys ! j)"
    using Cons.IH [of t2 ys] r eq by auto
  have "\<exists>b. xs ! j = Some b \<and> 0 \<le> b \<and> top_value (fst ((q # qs) ! j)) (fst (snd ((q # qs) ! j))) t \<le> b" if "j < length (q # qs)" for j
  proof (cases j)
    case 0
    then show ?thesis using step q eq by simp
  next
    case (Suc k)
    then show ?thesis using IH(2) [of k] that step eq by (auto intro: order_trans)
  qed
  moreover have "the (xs ! i) \<le> the (xs ! j)" if ij: "i \<le> j" "j < length (q # qs)" "fst ((q # qs) ! i) = fst ((q # qs) ! j)"
      "fst (snd ((q # qs) ! i)) = fst (snd ((q # qs) ! j))" for i j
  proof (cases j)
    case (Suc l)
    show ?thesis
    proof (cases i)
      case 0
      with ij Suc q have "fst (qs ! l) = v" "fst (snd (qs ! l)) = p" "l < length qs" by simp_all
      with IH(2) [of l] obtain b where "ys ! l = Some b" "top_value v p t2 \<le> b" by auto
      with 0 Suc eq step show ?thesis by simp
    next
      case (Suc k)
      with ij \<open>j = Suc l\<close> IH(3) [of k l] eq show ?thesis by simp
    qed
  qed (use ij in simp)
  ultimately show ?case using IH(1) eq by simp
qed simp

text \<open>C35. Without history, from any table with unique keys and no negative values: every request is answered with a number that is not negative, and of two requests for the same version and architecture
  the later one never gets a smaller value.\<close>

theorem nohist_never_decreases:
  assumes "table_ok t" and "pt_nohist t" and "requests qs t = (xs, t')"
  shows "length xs = length qs \<and> (\<forall>j < length qs. \<exists>b. xs ! j = Some b \<and> 0 \<le> b) \<and>
    (\<forall>i j. i \<le> j \<and> j < length qs \<and> fst (qs ! i) = fst (qs ! j) \<and> fst (snd (qs ! i)) = fst (snd (qs ! j)) \<longrightarrow> the (xs ! i) \<le> the (xs ! j))"
  using nohist_requests [OF assms] by blast

theorem nohist_never_decreases_witness:
  "fst (requests sample_queries (PRTable [] True)) = [Some 0, Some 1, Some 0, Some 2] \<and>
   the (fst (requests sample_queries (PRTable [] True)) ! 1) \<le> the (fst (requests sample_queries (PRTable [] True)) ! 3)"
proof -
  have xs: "fst (requests sample_queries (PRTable [] True)) = [Some 0, Some 1, Some 0, Some 2]" by code_simp
  have req: "requests sample_queries (PRTable [] True) = (fst (requests sample_queries (PRTable [] True)), snd (requests sample_queries (PRTable [] True)))" by simp
  have "table_ok (PRTable [] True)" "pt_nohist (PRTable [] True)" by (simp_all add: PRTable_def table_ok_def)
  from nohist_never_decreases [OF this req] have "the (fst (requests sample_queries (PRTable [] True)) ! 1) \<le> the (fst (requests sample_queries (PRTable [] True)) ! 3)"
    by (simp add: sample_queries_def)
  with xs show ?thesis by simp
qed

section \<open>Export and import\<close>

definition import_rows :: "prrow list \<Rightarrow> prtable \<Rightarrow> prtable" where
  "import_rows rows t = fold (\<lambda>r t. snd (importone (pr_version r) (pr_pkgarch r) (pr_checksum r) (pr_value r) t)) rows t"

lemma new_row_self: "new_row (pr_version r) (pr_pkgarch r) (pr_checksum r) (pr_value r) = r"
  by (simp add: new_row_def)

lemma import_fresh:
  assumes "\<forall>s \<in> set (pt_rows t). key_of s \<noteq> key_of r"
  shows "snd (importone (pr_version r) (pr_pkgarch r) (pr_checksum r) (pr_value r) t) = t\<lparr>pt_rows := pt_rows t @ [r], pt_dirty := True\<rparr>"
proof -
  have none: "\<not> list_ex (is_row (pr_version r) (pr_pkgarch r) (pr_checksum r)) (pt_rows t)"
    using assms by (auto simp: list_ex_iff is_row_key key_of_def)
  then show ?thesis
    by (simp add: importone_def importHist_def importNohist_def select_none fetchone_def insert_row_def new_row_self Let_def)
qed

lemma import_rows_spec:
  "distinct (map key_of (pt_rows t @ rows)) \<Longrightarrow> pt_rows (import_rows rows t) = pt_rows t @ rows \<and> pt_nohist (import_rows rows t) = pt_nohist t"
proof (induction rows arbitrary: t)
  case (Cons r rows)
  from Cons.prems have "key_of r \<notin> key_of ` set (pt_rows t)" by simp
  then have "\<forall>s \<in> set (pt_rows t). key_of s \<noteq> key_of r" by (metis imageI)
  from import_fresh [OF this] Cons.IH [of "t\<lparr>pt_rows := pt_rows t @ [r], pt_dirty := True\<rparr>"] Cons.prems
  show ?case by (simp add: import_rows_def)
qed (simp add: import_rows_def)

text \<open>C39. A table without empty versions that is exported and imported into an empty one: with history the rows are the same again; without history only the
  current rows are exported, and the largest value of every version and architecture is the same again.\<close>

theorem export_import_roundtrip:
  assumes "table_ok t" and "\<forall>r \<in> set (pt_rows t). pr_version r \<noteq> []"
  shows "(\<not> pt_nohist t \<longrightarrow> pt_rows (import_rows (export_rows [] [] [] t) (PRTable [] False)) = pt_rows t) \<and>
    (pt_nohist t \<longrightarrow> (\<forall>v p. top_value v p (import_rows (export_rows [] [] [] t) (PRTable [] True)) = top_value v p t))"
proof (intro conjI impI allI)
  let ?ex = "export_rows [] [] [] t"
  have d: "distinct (map key_of ?ex)" using assms(1) by (simp add: table_ok_def export_rows_def distinct_map_filter)
  have rows: "pt_rows (import_rows ?ex (PRTable [] b)) = ?ex" for b
    using import_rows_spec [of "PRTable [] b" ?ex] d by (simp add: PRTable_def)
  {
    assume "\<not> pt_nohist t"
    with assms(2) rows show "pt_rows (import_rows ?ex (PRTable [] False)) = pt_rows t" by (simp add: export_rows_def)
  next
    fix v p
    assume nh: "pt_nohist t"
    show "top_value v p (import_rows ?ex (PRTable [] True)) = top_value v p t"
    proof (cases "max_value v p (pt_rows t)")
      case None
      then have "group_values v p ?ex = []" using nh by (auto simp: max_value_None group_values_def export_rows_def filter_empty_conv)
      with None show ?thesis by (simp add: top_value_def rows next_value_def max_value_def)
    next
      case (Some m)
      then obtain r where r: "r \<in> set (pt_rows t)" "in_group v p r" "pr_value r = m"
        by (auto simp: max_value_Some group_values_def)
      with Some assms(2) nh have "r \<in> set ?ex" by (auto simp: export_rows_def in_group_def)
      with r have "m \<in> set (group_values v p ?ex)" by (auto simp: group_values_def)
      moreover have "set (group_values v p ?ex) \<subseteq> set (group_values v p (pt_rows t))" by (auto simp: group_values_def export_rows_def split: if_splits)
      ultimately have "max_value v p ?ex = Some m" using Some by (auto simp: max_value_Some)
      with Some show ?thesis by (simp add: top_value_def rows next_value_def)
    qed
  }
qed

definition sample_table :: prtable where
  "sample_table = snd (requests sample_queries (PRTable [] True))"

theorem export_import_roundtrip_witness:
  "top_value ''1.0'' ''arm'' (import_rows (export_rows [] [] [] sample_table) (PRTable [] True)) = 2 \<and> length (export_rows [] [] [] sample_table) = 2 \<and>
   length (pt_rows sample_table) = 3"
proof -
  have facts: "distinct (map key_of (pt_rows sample_table))" "list_all (\<lambda>r. 0 \<le> pr_value r) (pt_rows sample_table)"
      "list_all (\<lambda>r. pr_version r \<noteq> []) (pt_rows sample_table)" "pt_nohist sample_table" "top_value ''1.0'' ''arm'' sample_table = 2"
      "length (export_rows [] [] [] sample_table) = 2" "length (pt_rows sample_table) = 3" by code_simp+
  then have "table_ok sample_table" "\<forall>r \<in> set (pt_rows sample_table). pr_version r \<noteq> []" by (simp_all add: table_ok_def list_all_iff)
  from export_import_roundtrip [OF this] facts show ?thesis by simp
qed

end
