(* ===== verification/BB_Stamps.thy ===== *)
theory BB_Stamps
  imports BB_Active BB_Scheduler
begin

text \<open>
  Stamp files: their names and their creation (\<^verbatim>\<open>lib/bb/build.py\<close>), and \<^verbatim>\<open>RunQueue.check_stamp_task\<close> of \<^verbatim>\<open>lib/bb/runqueue.py\<close>, which
  decides from the time stamps whether a task has to run again. The file system is a dictionary from paths to modification
  times; directories are not modelled. Shell patterns follow \<^verbatim>\<open>fnmatch\<close> and \<^verbatim>\<open>glob\<close> of the Python library.
\<close>

section \<open>Shell patterns\<close>

datatype glob_token = GStar | GAny | GLit char | GClass bool "(char \<times> char) list"

text \<open>The ranges of a bracket expression; a range that is out of order is an error of the regular expression it is translated to.\<close>

fun class_items :: "string \<Rightarrow> (char \<times> char) list result" where
  "class_items [] = Inr []"
| "class_items [a] = Inr [(a, a)]"
| "class_items [a, b] = Inr [(a, a), (b, b)]"
| "class_items (a # b # c # cs) =
     (if b = CHR ''-''
      then (if a \<le> c then rbind (class_items cs) (\<lambda>r. Inr ((a, c) # r)) else Inl (ReError [a, b, c]))
      else rbind (class_items (b # c # cs)) (\<lambda>r. Inr ((a, a) # r)))"

text \<open>Where a bracket expression ends: a closing bracket in first place, or behind an exclamation mark, belongs to it.\<close>

definition class_split :: "string \<Rightarrow> (bool \<times> string \<times> string) option" where
  "class_split s =
     (let neg = (s \<noteq> [] \<and> hd s = CHR ''!'');
          s1 = (if neg then tl s else s);
          k = (if s1 \<noteq> [] \<and> hd s1 = CHR '']'' then 1 else 0);
          body = take k s1 @ takeWhile (\<lambda>c. c \<noteq> CHR '']'') (drop k s1)
      in case dropWhile (\<lambda>c. c \<noteq> CHR '']'') (drop k s1) of [] \<Rightarrow> None | _ # rest \<Rightarrow> Some (neg, body, rest))"

lemma class_split_shorter: "class_split s = Some (neg, body, rest) \<Longrightarrow> length rest < length s"
proof -
  assume a: "class_split s = Some (neg, body, rest)"
  define s1 where "s1 = (if s \<noteq> [] \<and> hd s = CHR ''!'' then tl s else s)"
  define k where "k = (if s1 \<noteq> [] \<and> hd s1 = CHR '']'' then 1 else 0 :: nat)"
  from a obtain c where "dropWhile (\<lambda>c. c \<noteq> CHR '']'') (drop k s1) = c # rest"
    unfolding class_split_def Let_def s1_def [symmetric] k_def [symmetric] by (auto split: list.splits)
  then have "length (c # rest) \<le> length (drop k s1)" by (metis length_dropWhile_le)
  moreover have "length s1 \<le> length s" unfolding s1_def by simp
  ultimately show ?thesis by simp
qed

function glob_tokens :: "string \<Rightarrow> glob_token list result" where
  "glob_tokens [] = Inr []"
| "glob_tokens (c # cs) =
     (if c = CHR ''*'' then rbind (glob_tokens cs) (\<lambda>r. Inr (GStar # r))
      else if c = CHR ''?'' then rbind (glob_tokens cs) (\<lambda>r. Inr (GAny # r))
      else if c = CHR ''['' then
        (case class_split cs of
           None \<Rightarrow> rbind (glob_tokens cs) (\<lambda>r. Inr (GLit c # r))
         | Some (neg, body, rest) \<Rightarrow>
             rbind (class_items body) (\<lambda>items. rbind (glob_tokens rest) (\<lambda>r. Inr (GClass neg items # r))))
      else rbind (glob_tokens cs) (\<lambda>r. Inr (GLit c # r)))"
  by pat_completeness auto
termination
  by (relation "measure length") (auto dest: class_split_shorter)

fun token_matches :: "glob_token \<Rightarrow> char \<Rightarrow> bool" where
  "token_matches GStar c = True"
| "token_matches GAny c = True"
| "token_matches (GLit a) c = (a = c)"
| "token_matches (GClass neg items) c = (list_ex (\<lambda>(a, b). a \<le> c \<and> c \<le> b) items \<noteq> neg)"

fun tokens_match :: "glob_token list \<Rightarrow> string \<Rightarrow> bool" where
  "tokens_match [] s = (s = [])"
| "tokens_match (GStar # ts) [] = tokens_match ts []"
| "tokens_match (GStar # ts) (c # s) = (tokens_match ts (c # s) \<or> tokens_match (GStar # ts) s)"
| "tokens_match (t # ts) [] = False"
| "tokens_match (t # ts) (c # s) = (token_matches t c \<and> tokens_match ts s)"

definition fnmatch :: "string \<Rightarrow> string \<Rightarrow> bool result" where
  "fnmatch name pat = rbind (glob_tokens pat) (\<lambda>ts. Inr (tokens_match ts name))"

text \<open>\<^verbatim>\<open>glob.glob\<close> matches the components of a path one by one; a leading dot is not matched by a pattern.\<close>

definition component_matches :: "string \<Rightarrow> string \<Rightarrow> bool result" where
  "component_matches pat name =
     (if startswith name ''.'' \<and> \<not> startswith pat ''.'' then Inr False else fnmatch name pat)"

fun components_match :: "string list \<Rightarrow> string list \<Rightarrow> bool result" where
  "components_match [] [] = Inr True"
| "components_match (p # ps) (n # ns) = rbind (component_matches p n) (\<lambda>b. rbind (components_match ps ns) (\<lambda>c. Inr (b \<and> c)))"
| "components_match _ _ = Inr False"

type_synonym files = "(string, int) dict"

definition glob :: "string \<Rightarrow> files \<Rightarrow> string list result" where
  "glob pat fs =
     rfold (\<lambda>path found. rbind (components_match (split_on (CHR ''/'') pat) (split_on (CHR ''/'') path)) (\<lambda>b.
              Inr (if b then found @ [path] else found))) (dict_keys fs) []"

section \<open>The setscene whitelist\<close>

definition get_setscene_enforce_whitelist ::
    "(string \<Rightarrow> string option) \<Rightarrow> (string \<times> string \<times> string \<times> string) list \<Rightarrow> string list option" where
  "get_setscene_enforce_whitelist getVar targets =
     (if getVar ''BB_SETSCENE_ENFORCE'' \<noteq> Some ''1'' then None
      else Some (concat (map (\<lambda>item.
             if startswith item ''%:'' then map (\<lambda>(mc, target, task, fn). target @ '':'' @ split_on (CHR '':'') item ! 1) targets
             else [item])
           (split_ws (case getVar ''BB_SETSCENE_ENFORCE_WHITELIST'' of Some s \<Rightarrow> s | None \<Rightarrow> [])))))"

fun any_fnmatch :: "string \<Rightarrow> string list \<Rightarrow> bool result" where
  "any_fnmatch item [] = Inr False"
| "any_fnmatch item (w # ws) = rbind (fnmatch item w) (\<lambda>b. if b then Inr True else any_fnmatch item ws)"

definition check_setscene_enforce_whitelist :: "string \<Rightarrow> string \<Rightarrow> string list option \<Rightarrow> bool result" where
  "check_setscene_enforce_whitelist pn taskname whitelist =
     (case whitelist of None \<Rightarrow> Inr True | Some ws \<Rightarrow> any_fnmatch (pn @ '':'' @ taskname) ws)"

section \<open>Names of stamp files\<close>

text \<open>\<open>stampf\<close> stands for the methods \<^verbatim>\<open>stampfile\<close> and \<^verbatim>\<open>stampcleanmask\<close> of the signature generator in use.\<close>

type_synonym stamp_method = "string \<Rightarrow> string \<Rightarrow> string \<Rightarrow> string \<Rightarrow> string"

definition taskflagname :: "string \<Rightarrow> string" where
  "taskflagname taskname =
     (if endswith taskname ''_setscene'' \<and> taskname \<noteq> ''do_setscene'' then str_replace ''_setscene'' [] taskname else taskname)"

definition extrainfo_of :: "(string, string option) dict \<Rightarrow> string \<Rightarrow> string" where
  "extrainfo_of infos flagname = (case map_of infos flagname of Some (Some s) \<Rightarrow> s | _ \<Rightarrow> [])"

text \<open>Without a file name the cache would be read as a data store.\<close>

definition stamp_internal :: "stamp_method \<Rightarrow> string \<Rightarrow> cachedata \<Rightarrow> string \<Rightarrow> bool \<Rightarrow> string option result" where
  "stamp_internal stampf taskname d file_name noextra =
     (if file_name = [] then Inl AttributeError
      else rbind (dict_lookup (dc_stamp d) file_name) (\<lambda>stamp.
           rbind (dict_lookup (dc_stamp_extrainfo d) file_name) (\<lambda>infos.
           let extrainfo = (if noextra then [] else extrainfo_of infos (taskflagname taskname))
           in Inr (if stamp = [] then None else Some (stampf stamp file_name taskname extrainfo)))))"

definition stamp_cleanmask_internal :: "stamp_method \<Rightarrow> string \<Rightarrow> cachedata \<Rightarrow> string \<Rightarrow> string list result" where
  "stamp_cleanmask_internal maskf taskname d file_name =
     (if file_name = [] then Inl AttributeError
      else rbind (dict_lookup (dc_stampclean d) file_name) (\<lambda>stamp.
           rbind (dict_lookup (dc_stamp_extrainfo d) file_name) (\<lambda>infos.
           let cleanmask = maskf stamp file_name taskname (extrainfo_of infos (taskflagname taskname))
           in Inr (if stamp = [] then []
                   else [cleanmask, str_replace (taskflagname taskname) (taskflagname taskname @ ''_setscene'') cleanmask]))))"

fun contains :: "string \<Rightarrow> string \<Rightarrow> bool" where
  "contains sub [] = (sub = [])"
| "contains sub (c # s) = (startswith (c # s) sub \<or> contains sub s)"

definition preserved_stamp :: "string \<Rightarrow> bool" where
  "preserved_stamp name = (contains ''sigdata'' name \<or> contains ''sigbasedata'' name \<or> endswith name ''.taint'')"

definition unlink_mask :: "string \<Rightarrow> files \<Rightarrow> files result" where
  "unlink_mask pat fs =
     rbind (glob pat fs) (\<lambda>names. Inr (fold (\<lambda>name fs. if preserved_stamp name then fs else dict_del name fs) names fs))"

text \<open>\<^verbatim>\<open>bb.utils.remove(path)\<close> without recursion.\<close>

definition remove_path :: "string \<Rightarrow> files \<Rightarrow> files result" where
  "remove_path path fs = (if path = [] then Inr fs else rbind (glob path fs) (\<lambda>names. Inr (fold dict_del names fs)))"

text \<open>\<^verbatim>\<open>make_stamp\<close> with a recipe cache; \<open>now\<close> is the clock of the file system.\<close>

definition make_stamp :: "stamp_method \<Rightarrow> stamp_method \<Rightarrow> int \<Rightarrow> string \<Rightarrow> cachedata \<Rightarrow> string \<Rightarrow> files \<Rightarrow> files result" where
  "make_stamp stampf maskf now task d file_name fs =
     rbind (stamp_cleanmask_internal maskf task d file_name) (\<lambda>cleanmask.
     rbind (rfold unlink_mask cleanmask fs) (\<lambda>fs1.
     rbind (stamp_internal stampf task d file_name False) (\<lambda>stamp.
     case stamp of
       None \<Rightarrow> Inr fs1
     | Some path \<Rightarrow> if path = [] then Inr fs1 else rbind (remove_path path fs1) (\<lambda>fs2. Inr (dict_set path now fs2)))))"

section \<open>Is the stamp of a task current?\<close>

record stamp_env =
  se_entries :: rtentries
  se_dataCaches :: datacaches
  se_stampf :: stamp_method
  se_stamppolicy :: string
  se_whitelist :: "(string, string list) dict"

text \<open>Any error of \<^verbatim>\<open>get_timestamp\<close>, also that of a missing name, is a missing file. A time of zero counts as missing in a condition.\<close>

definition get_timestamp :: "files \<Rightarrow> string option \<Rightarrow> int option" where
  "get_timestamp fs f = (case f of None \<Rightarrow> None | Some p \<Rightarrow> map_of fs p)"

definition time_set :: "int option \<Rightarrow> bool" where
  "time_set t \<longleftrightarrow> (case t of None \<Rightarrow> False | Some i \<Rightarrow> i \<noteq> 0)"

definition dep_stamps :: "stamp_env \<Rightarrow> files \<Rightarrow> string \<Rightarrow> (string \<times> int option \<times> int option) result" where
  "dep_stamps se fs dep =
     rbind (split_tid_mcfn dep) (\<lambda>(mc2, fn2, taskname2, taskfn2).
     rbind (dict_lookup (se_dataCaches se) mc2) (\<lambda>dc.
     rbind (stamp_internal (se_stampf se) taskname2 dc taskfn2 False) (\<lambda>stampfile2.
     rbind (stamp_internal (se_stampf se) (taskname2 @ ''_setscene'') dc taskfn2 False) (\<lambda>stampfile3.
     Inr (fn2, get_timestamp fs stampfile2, get_timestamp fs stampfile3)))))"

text \<open>What the time stamps alone say about one dependency; \<open>counts\<close>: the stamp policy looks at it.\<close>

datatype verdict = Ignored | Stale | Fresh

definition dep_verdict :: "int option \<Rightarrow> bool \<Rightarrow> int option \<Rightarrow> int option \<Rightarrow> verdict result" where
  "dep_verdict t1 counts t2 t3 =
     (if time_set t3 \<and> \<not> time_set t2 then Inr Ignored
      else if time_set t3 \<and> the t3 > the t2 then Inr Ignored
      else if counts
      then (if \<not> time_set t2 then Inr Stale
            else case t1 of None \<Rightarrow> Inl TypeError | Some i1 \<Rightarrow> Inr (if i1 < the t2 then Stale else Fresh))
      else Inr Ignored)"

text \<open>
  The loop over the dependencies. \<open>rc\<close> is the recursive call; once a dependency is not current, the other iterations do nothing.
\<close>

fun stamp_deps ::
    "(string \<Rightarrow> (string, bool) dict \<Rightarrow> (bool \<times> (string, bool) dict) result) \<Rightarrow> stamp_env \<Rightarrow> files \<Rightarrow> int option \<Rightarrow> (string \<Rightarrow> bool) \<Rightarrow> bool \<Rightarrow>
     string list \<Rightarrow> (string, bool) dict \<Rightarrow> (bool \<times> (string, bool) dict) result" where
  "stamp_deps rc se fs t1 counts recurse [] cache = Inr (True, cache)"
| "stamp_deps rc se fs t1 counts recurse (dep # deps) cache =
     rbind (dep_stamps se fs dep) (\<lambda>(fn2, t2, t3).
     rbind (dep_verdict t1 (counts fn2) t2 t3) (\<lambda>v.
     case v of
       Ignored \<Rightarrow> stamp_deps rc se fs t1 counts recurse deps cache
     | Stale \<Rightarrow> Inr (False, cache)
     | Fresh \<Rightarrow>
         if \<not> recurse then stamp_deps rc se fs t1 counts recurse deps cache
         else case map_of cache dep of
                Some b \<Rightarrow> if b then stamp_deps rc se fs t1 counts recurse deps cache else Inr (False, cache)
              | None \<Rightarrow> rbind (rc dep cache) (\<lambda>(b, cache1).
                  let cache2 = dict_set dep b cache1
                  in if b then stamp_deps rc se fs t1 counts recurse deps cache2 else Inr (False, cache2))))"

text \<open>
  \<^verbatim>\<open>check_stamp_task\<close>, with a bound on the depth of the recursion. A task without a stamp name makes \<^verbatim>\<open>os.access\<close> raise.
\<close>

fun check_stamp_task ::
    "nat \<Rightarrow> stamp_env \<Rightarrow> files \<Rightarrow> string \<Rightarrow> string option \<Rightarrow> bool \<Rightarrow> (string, bool) dict \<Rightarrow> (bool \<times> (string, bool) dict) result" where
  "check_stamp_task 0 se fs tid taskname0 recurse cache = Inl RecursionError"
| "check_stamp_task (Suc n) se fs tid taskname0 recurse cache =
     rbind (split_tid_mcfn tid) (\<lambda>(mc, fn, tn, taskfn).
     let taskname = (case taskname0 of None \<Rightarrow> tn | Some t \<Rightarrow> t) in
     rbind (if se_stamppolicy se = ''whitelist'' then dict_lookup (se_whitelist se) mc else Inr []) (\<lambda>stampwhitelist.
     rbind (dict_lookup (se_dataCaches se) mc) (\<lambda>dc.
     rbind (stamp_internal (se_stampf se) taskname dc taskfn False) (\<lambda>stampfile.
     case stampfile of
       None \<Rightarrow> Inl TypeError
     | Some path \<Rightarrow>
         if \<not> has_key fs path then Inr (False, cache)
         else rbind (dict_lookup (dc_task_deps dc) taskfn) (\<lambda>taskdep.
              if task_flag taskdep ''nostamp'' taskname \<noteq> None then Inr (False, cache)
              else if taskname \<noteq> ''do_setscene'' \<and> endswith taskname ''_setscene'' then Inr (True, cache)
              else rbind (dict_lookup (se_entries se) tid) (\<lambda>e.
                   rbind (stamp_deps (\<lambda>dep. check_stamp_task n se fs dep None True) se fs (get_timestamp fs stampfile)
                            (\<lambda>fn2. fn = fn2 \<or> se_stamppolicy se \<noteq> ''perfile'' \<and> fn2 \<notin> set stampwhitelist) recurse (re_depends e) cache)
                     (\<lambda>(iscurrent, cache1). Inr (iscurrent, if recurse then dict_set tid iscurrent cache1 else cache1))))))))"

declare check_stamp_task.simps [simp del]

section \<open>What a current stamp is\<close>

text \<open>The parts of a task that the check reads.\<close>

record stamp_info =
  si_mc :: string
  si_fn :: string
  si_name :: string
  si_taskfn :: string
  si_dc :: cachedata
  si_path :: string

definition stamp_ready :: "stamp_env \<Rightarrow> string \<Rightarrow> stamp_info \<Rightarrow> bool" where
  "stamp_ready se t i \<longleftrightarrow> split_tid_mcfn t = Inr (si_mc i, si_fn i, si_name i, si_taskfn i) \<and> si_taskfn i \<noteq> [] \<and>
     map_of (se_dataCaches se) (si_mc i) = Some (si_dc i) \<and>
     stamp_internal (se_stampf se) (si_name i) (si_dc i) (si_taskfn i) False = Inr (Some (si_path i)) \<and>
     has_key (dc_task_deps (si_dc i)) (si_taskfn i) \<and> (se_stamppolicy se = ''whitelist'' \<longrightarrow> has_key (se_whitelist se) (si_mc i))"

text \<open>Which files the stamp policy looks at for the dependencies of a task.\<close>

definition policy_counts :: "stamp_env \<Rightarrow> stamp_info \<Rightarrow> string \<Rightarrow> bool" where
  "policy_counts se i fn2 \<longleftrightarrow> si_fn i = fn2 \<or> se_stamppolicy se \<noteq> ''perfile'' \<and>
     \<not> (se_stamppolicy se = ''whitelist'' \<and> fn2 \<in> set (dd_get (se_whitelist se) (si_mc i)))"

definition is_nostamp :: "stamp_info \<Rightarrow> bool" where
  "is_nostamp i \<longleftrightarrow> (\<exists>td. map_of (dc_task_deps (si_dc i)) (si_taskfn i) = Some td \<and> task_flag td ''nostamp'' (si_name i) \<noteq> None)"

definition setscene_name :: "string \<Rightarrow> bool" where
  "setscene_name n \<longleftrightarrow> n \<noteq> ''do_setscene'' \<and> endswith n ''_setscene''"

text \<open>
  A stamp is current when it exists, the task keeps stamps, and every dependency is either covered by a newer setscene stamp or outside
  of the stamp policy, or has a current stamp that is not newer.
\<close>

inductive current :: "stamp_env \<Rightarrow> files \<Rightarrow> string \<Rightarrow> bool" for se fs where
  setscene: "stamp_ready se t i \<Longrightarrow> has_key fs (si_path i) \<Longrightarrow> \<not> is_nostamp i \<Longrightarrow> setscene_name (si_name i) \<Longrightarrow> current se fs t"
| deps: "stamp_ready se t i \<Longrightarrow> map_of fs (si_path i) = Some t1 \<Longrightarrow> \<not> is_nostamp i \<Longrightarrow>
     \<forall>dep \<in> set (deps_of (se_entries se) t). \<exists>fn2 t2 t3. dep_stamps se fs dep = Inr (fn2, t2, t3) \<and>
       (dep_verdict (Some t1) (policy_counts se i fn2) t2 t3 = Inr Ignored \<or>
        dep_verdict (Some t1) (policy_counts se i fn2) t2 t3 = Inr Fresh \<and> current se fs dep) \<Longrightarrow> current se fs t"

definition stamps_ok :: "stamp_env \<Rightarrow> bool" where
  "stamps_ok se \<longleftrightarrow> (\<forall>t \<in> set (dict_keys (se_entries se)). \<exists>i. stamp_ready se t i) \<and> deps_closed (se_entries se) \<and>
     acyclic (dep_edges (se_entries se))"

definition cache_coherent :: "stamp_env \<Rightarrow> files \<Rightarrow> (string, bool) dict \<Rightarrow> bool" where
  "cache_coherent se fs cache \<longleftrightarrow> (\<forall>t b. map_of cache t = Some b \<longrightarrow> b = current se fs t)"

lemma stamp_ready_unique: "stamp_ready se t i \<Longrightarrow> stamp_ready se t j \<Longrightarrow> i = j"
  unfolding stamp_ready_def by (intro stamp_info.equality) auto

lemma dep_stamps_ready:
  assumes "stamp_ready se dep i"
  shows "\<exists>t2 t3. dep_stamps se fs dep = Inr (si_fn i, t2, t3)"
proof -
  from assms have r: "split_tid_mcfn dep = Inr (si_mc i, si_fn i, si_name i, si_taskfn i)" "map_of (se_dataCaches se) (si_mc i) = Some (si_dc i)"
    "si_taskfn i \<noteq> []" and s: "stamp_internal (se_stampf se) (si_name i) (si_dc i) (si_taskfn i) False = Inr (Some (si_path i))"
    unfolding stamp_ready_def by auto
  from s r(3) obtain st infos where k: "map_of (dc_stamp (si_dc i)) (si_taskfn i) = Some st" "map_of (dc_stamp_extrainfo (si_dc i)) (si_taskfn i) = Some infos"
    unfolding stamp_internal_def by (auto split: if_splits)
  then have "\<exists>o3. stamp_internal (se_stampf se) (si_name i @ ''_setscene'') (si_dc i) (si_taskfn i) False = Inr o3"
    using r(3) by (simp add: stamp_internal_def Let_def)
  then show ?thesis unfolding dep_stamps_def using r(1,2) s by auto
qed

lemma dep_verdict_total: "\<exists>v. dep_verdict (Some t1) c t2 t3 = Inr v"
  unfolding dep_verdict_def by simp

text \<open>Reachable dependencies get fewer along a dependency.\<close>

definition below :: "rtentries \<Rightarrow> string \<Rightarrow> string set" where
  "below entries t = (dep_edges entries)\<^sup>* `` {t}"

lemma below_keys: "deps_closed entries \<Longrightarrow> t \<in> set (dict_keys entries) \<Longrightarrow> below entries t \<subseteq> set (dict_keys entries)"
proof
  fix u assume "deps_closed entries" "t \<in> set (dict_keys entries)" "u \<in> below entries t"
  then have "(t, u) \<in> (dep_edges entries)\<^sup>*" unfolding below_def by simp
  then show "u \<in> set (dict_keys entries)"
    by (induction rule: rtrancl_induct)
      (use \<open>deps_closed entries\<close> \<open>t \<in> set (dict_keys entries)\<close> in \<open>auto simp: dep_edges_def deps_closed_def\<close>)
qed

lemma below_less:
  assumes "acyclic (dep_edges entries)" "deps_closed entries" "t \<in> set (dict_keys entries)" "d \<in> set (deps_of entries t)"
  shows "card (below entries d) < card (below entries t)"
proof (rule psubset_card_mono)
  have e: "(t, d) \<in> dep_edges entries" using assms(3,4) by (simp add: dep_edges_def)
  then have "below entries d \<subseteq> below entries t" unfolding below_def by (auto intro: converse_rtrancl_into_rtrancl)
  moreover have "t \<in> below entries t" unfolding below_def by simp
  moreover have "t \<notin> below entries d"
    using assms(1) e unfolding below_def acyclic_def by (auto dest: rtrancl_into_trancl2)
  ultimately show "below entries d \<subset> below entries t" by blast
  show "finite (below entries t)" using below_keys [OF assms(2,3)] finite_subset by blast
qed

lemma card_below: "deps_closed entries \<Longrightarrow> t \<in> set (dict_keys entries) \<Longrightarrow> card (below entries t) \<le> length entries"
  using card_mono [OF _ below_keys] card_length [of "dict_keys entries"] by fastforce

section \<open>The cached check is exact\<close>

definition dep_fine :: "stamp_env \<Rightarrow> files \<Rightarrow> int \<Rightarrow> (string \<Rightarrow> bool) \<Rightarrow> string \<Rightarrow> bool" where
  "dep_fine se fs t1 counts dep \<longleftrightarrow> (\<exists>fn2 t2 t3. dep_stamps se fs dep = Inr (fn2, t2, t3) \<and>
     (dep_verdict (Some t1) (counts fn2) t2 t3 = Inr Ignored \<or> dep_verdict (Some t1) (counts fn2) t2 t3 = Inr Fresh \<and> current se fs dep))"

lemma cache_coherent_set: "cache_coherent se fs cache \<Longrightarrow> cache_coherent se fs (dict_set t (current se fs t) cache)"
  unfolding cache_coherent_def by simp

lemma stamp_deps_exact:
  assumes "cache_coherent se fs cache" "\<forall>dep \<in> set deps. \<exists>i. stamp_ready se dep i"
    and "\<And>dep cache. dep \<in> set deps \<Longrightarrow> cache_coherent se fs cache \<Longrightarrow>
      \<exists>cache'. rc dep cache = Inr (current se fs dep, cache') \<and> cache_coherent se fs cache'"
  shows "\<exists>cache'. stamp_deps rc se fs (Some t1) counts True deps cache = Inr (\<forall>dep \<in> set deps. dep_fine se fs t1 counts dep, cache') \<and>
    cache_coherent se fs cache'"
  using assms
proof (induction deps arbitrary: cache)
  case (Cons dep deps)
  obtain fn2 t2 t3 where s: "dep_stamps se fs dep = Inr (fn2, t2, t3)" using dep_stamps_ready Cons.prems(2) by (meson list.set_intros(1))
  obtain v where v: "dep_verdict (Some t1) (counts fn2) t2 t3 = Inr v" using dep_verdict_total by blast
  have fine: "dep_fine se fs t1 counts dep \<longleftrightarrow> v = Ignored \<or> v = Fresh \<and> current se fs dep" using s v unfolding dep_fine_def by auto
  have IH: "\<exists>cache'. stamp_deps rc se fs (Some t1) counts True deps c = Inr (\<forall>dep \<in> set deps. dep_fine se fs t1 counts dep, cache') \<and>
      cache_coherent se fs cache'" if "cache_coherent se fs c" for c
    by (rule Cons.IH [OF that]) (use Cons.prems in auto)
  show ?case
  proof (cases v)
    case Ignored
    with IH [OF Cons.prems(1)] s v fine show ?thesis by auto
  next
    case Stale
    with Cons.prems(1) s v fine show ?thesis by auto
  next
    case Fresh
    show ?thesis
    proof (cases "map_of cache dep")
      case (Some b)
      then have "b = current se fs dep" using Cons.prems(1) unfolding cache_coherent_def by blast
      then show ?thesis using IH [OF Cons.prems(1)] Cons.prems(1) s v fine Fresh Some by auto
    next
      case None
      from Cons.prems(3) [OF _ Cons.prems(1)] obtain c1 where c1: "rc dep cache = Inr (current se fs dep, c1)" "cache_coherent se fs c1"
        by (metis list.set_intros(1))
      have c2: "cache_coherent se fs (dict_set dep (current se fs dep) c1)" by (rule cache_coherent_set [OF c1(2)])
      show ?thesis using IH [OF c2] c1(1) c2 s v fine Fresh None by (auto simp: Let_def)
    qed
  qed
qed simp

lemma current_iff:
  assumes "stamp_ready se t i"
  shows "current se fs t \<longleftrightarrow> has_key fs (si_path i) \<and> \<not> is_nostamp i \<and>
    (setscene_name (si_name i) \<or>
     (\<forall>dep \<in> set (deps_of (se_entries se) t). dep_fine se fs (the (map_of fs (si_path i))) (policy_counts se i) dep))"
proof
  assume "current se fs t"
  then show "has_key fs (si_path i) \<and> \<not> is_nostamp i \<and> (setscene_name (si_name i) \<or>
     (\<forall>dep \<in> set (deps_of (se_entries se) t). dep_fine se fs (the (map_of fs (si_path i))) (policy_counts se i) dep))"
    by (cases rule: current.cases) (auto simp: has_key_def dep_fine_def dest!: stamp_ready_unique [OF assms])
next
  assume a: "has_key fs (si_path i) \<and> \<not> is_nostamp i \<and> (setscene_name (si_name i) \<or>
     (\<forall>dep \<in> set (deps_of (se_entries se) t). dep_fine se fs (the (map_of fs (si_path i))) (policy_counts se i) dep))"
  then obtain t1 where t1: "map_of fs (si_path i) = Some t1" by (auto simp: has_key_def)
  show "current se fs t"
  proof (cases "setscene_name (si_name i)")
    case True
    with a show ?thesis using current.setscene [OF assms] by blast
  next
    case False
    with a t1 show ?thesis unfolding dep_fine_def by (intro current.deps [OF assms t1]) auto
  qed
qed

lemma check_stamp_task_exact:
  assumes "stamps_ok se"
  shows "t \<in> set (dict_keys (se_entries se)) \<Longrightarrow> card (below (se_entries se) t) \<le> n \<Longrightarrow> cache_coherent se fs cache \<Longrightarrow>
    \<exists>cache'. check_stamp_task (Suc n) se fs t None True cache = Inr (current se fs t, cache') \<and> cache_coherent se fs cache'"
proof (induction n arbitrary: t cache)
  case 0
  then have "t \<in> below (se_entries se) t" "finite (below (se_entries se) t)"
    using assms below_keys [of "se_entries se" t] finite_subset unfolding below_def stamps_ok_def by auto
  with 0(2) show ?case by auto
next
  case (Suc n)
  let ?E = "se_entries se"
  obtain i where i: "stamp_ready se t i" using assms Suc.prems(1) unfolding stamps_ok_def by blast
  have closed: "deps_closed ?E" "acyclic (dep_edges ?E)" using assms unfolding stamps_ok_def by auto
  obtain e where e: "map_of ?E t = Some e" using Suc.prems(1) has_key_iff [of ?E t] unfolding has_key_def by blast
  have d: "deps_of ?E t = re_depends e" using e by (simp add: deps_of_def)
  obtain td where td: "map_of (dc_task_deps (si_dc i)) (si_taskfn i) = Some td" using i unfolding stamp_ready_def has_key_def by auto
  obtain wl where wl: "(if se_stamppolicy se = ''whitelist'' then dict_lookup (se_whitelist se) (si_mc i) else Inr []) = Inr wl"
      "(\<lambda>fn2. si_fn i = fn2 \<or> se_stamppolicy se \<noteq> ''perfile'' \<and> fn2 \<notin> set wl) = policy_counts se i"
    using i unfolding stamp_ready_def has_key_def policy_counts_def by (cases "se_stamppolicy se = ''whitelist''") (auto simp: dd_get_def)
  have sub: "set (re_depends e) \<subseteq> set (dict_keys ?E)" using closed(1) Suc.prems(1) unfolding deps_closed_def d [symmetric] by (rule bspec)
  note r = i [unfolded stamp_ready_def]
  have dc: "dict_lookup (se_dataCaches se) (si_mc i) = Inr (si_dc i)" using r by (simp add: dict_lookup_Some)
  show ?case
  proof (cases "map_of fs (si_path i)")
    case None
    then have "check_stamp_task (Suc (Suc n)) se fs t None True cache = Inr (False, cache)"
      unfolding check_stamp_task.simps(2) [where n = "Suc n"] using r wl(1) by (simp add: has_key_def)
    with None Suc.prems(3) show ?thesis unfolding current_iff [OF i] by (simp add: has_key_def)
  next
    case (Some t1)
    show ?thesis
    proof (cases "is_nostamp i \<or> setscene_name (si_name i)")
      case True
      then have "check_stamp_task (Suc (Suc n)) se fs t None True cache = Inr (\<not> is_nostamp i, cache)"
        unfolding check_stamp_task.simps(2) [where n = "Suc n"] is_nostamp_def setscene_name_def using r wl(1) td Some by (auto simp: has_key_def)
      with True Some Suc.prems(3) show ?thesis unfolding current_iff [OF i] by (auto simp: has_key_def)
    next
      case False
      let ?deps = "stamp_deps (\<lambda>dep. check_stamp_task (Suc n) se fs dep None True) se fs (Some t1) (policy_counts se i) True (re_depends e) cache"
      have "\<exists>cache'. ?deps = Inr (\<forall>dep \<in> set (re_depends e). dep_fine se fs t1 (policy_counts se i) dep, cache') \<and> cache_coherent se fs cache'"
      proof (rule stamp_deps_exact [OF Suc.prems(3)])
        show "\<forall>dep \<in> set (re_depends e). \<exists>i. stamp_ready se dep i"
          using assms sub unfolding stamps_ok_def by (meson subsetD)
        fix dep cache assume a: "dep \<in> set (re_depends e)" "cache_coherent se fs cache"
        have "card (below ?E dep) < card (below ?E t)" by (rule below_less [OF closed(2,1) Suc.prems(1)]) (use a d in simp)
        with Suc.prems(2) have "card (below ?E dep) \<le> n" by simp
        moreover have "dep \<in> set (dict_keys ?E)" using sub a(1) by (rule subsetD)
        ultimately show "\<exists>cache'. check_stamp_task (Suc n) se fs dep None True cache = Inr (current se fs dep, cache') \<and> cache_coherent se fs cache'"
          using Suc.IH a(2) by blast
      qed
      then obtain c where c: "?deps = Inr (\<forall>dep \<in> set (re_depends e). dep_fine se fs t1 (policy_counts se i) dep, c)" "cache_coherent se fs c" by blast
      have cur: "current se fs t \<longleftrightarrow> (\<forall>dep \<in> set (re_depends e). dep_fine se fs t1 (policy_counts se i) dep)"
        using False Some unfolding current_iff [OF i] d by (simp add: has_key_def)
      have "check_stamp_task (Suc (Suc n)) se fs t None True cache =
          rbind ?deps (\<lambda>(iscurrent, cache1). Inr (iscurrent, dict_set t iscurrent cache1))"
        unfolding check_stamp_task.simps(2) [where n = "Suc n"] using r wl Some False td
        by (simp add: has_key_def is_nostamp_def setscene_name_def get_timestamp_def dict_lookup_Some [OF e] dict_lookup_Some [OF td] dc) blast
      with c cur show ?thesis using cache_coherent_set [OF c(2), of t] by simp
    qed
  qed
qed

text \<open>C13. On a run queue without circular dependencies whose tasks have recipes and stamp names, the cached, recursive check of a stamp returns without exhausting
  a recursion depth of the number of tasks plus one, its answer is exactly whether the stamp is current, whatever a coherent cache already holds, and the cache it leaves is coherent again.\<close>

theorem check_stamp_exact:
  assumes "stamps_ok se" and "t \<in> set (dict_keys (se_entries se))" and "cache_coherent se fs cache"
  shows "\<exists>cache'. check_stamp_task (Suc (length (se_entries se))) se fs t None True cache = Inr (current se fs t, cache') \<and>
    cache_coherent se fs cache'"
  by (rule check_stamp_task_exact [OF assms(1,2) card_below assms(3)]) (use assms in \<open>auto simp: stamps_ok_def\<close>)

definition stamp_sample :: stamp_env where
  "stamp_sample =
     \<lparr>se_entries = [(''a:do_x'', RunTaskEntry\<lparr>re_depends := [''a:do_y'']\<rparr>), (''a:do_y'', RunTaskEntry\<lparr>re_revdeps := [''a:do_x'']\<rparr>)],
      se_dataCaches = [([], CacheData\<lparr>dc_stamp := [(''a'', ''s'')], dc_stamp_extrainfo := [(''a'', [])],
        dc_task_deps := [(''a'', \<lparr>tk_tasks = [], tk_parents = [], tk_flags = []\<rparr>)]\<rparr>)],
      se_stampf = (\<lambda>stamp fn task extra. stamp @ ''.'' @ task), se_stamppolicy = ''perfile'', se_whitelist = []\<rparr>"

definition sample_info :: "string \<Rightarrow> stamp_info" where
  "sample_info n = \<lparr>si_mc = [], si_fn = ''a'', si_name = n, si_taskfn = ''a'', si_dc = snd (hd (se_dataCaches stamp_sample)), si_path = ''s.'' @ n\<rparr>"

lemma stamp_sample_ok: "stamps_ok stamp_sample"
proof -
  have k: "dict_keys (se_entries stamp_sample) = [''a:do_x'', ''a:do_y'']" by (simp add: stamp_sample_def)
  have e: "dep_edges (se_entries stamp_sample) = {(''a:do_x'', ''a:do_y'')}"
    unfolding dep_edges_def k by (auto simp: stamp_sample_def deps_of_def RunTaskEntry_def)
  have x: "stamp_ready stamp_sample ''a:do_x'' (sample_info ''do_x'')" unfolding stamp_ready_def sample_info_def by code_simp
  have y: "stamp_ready stamp_sample ''a:do_y'' (sample_info ''do_y'')" unfolding stamp_ready_def sample_info_def by code_simp
  have "deps_closed (se_entries stamp_sample)" unfolding deps_closed_def by code_simp
  moreover have "acyclic (dep_edges (se_entries stamp_sample))" unfolding e by (simp add: acyclic_def trancl_insert)
  ultimately show ?thesis unfolding stamps_ok_def k using x y by auto
qed

theorem check_stamp_exact_witness:
  "current stamp_sample [(''s.do_x'', 7), (''s.do_y'', 5)] ''a:do_x'' \<and> \<not> current stamp_sample [(''s.do_x'', 7), (''s.do_y'', 9)] ''a:do_x''"
proof -
  have k: "''a:do_x'' \<in> set (dict_keys (se_entries stamp_sample))" by (simp add: stamp_sample_def)
  have c: "cache_coherent stamp_sample fs []" for fs by (simp add: cache_coherent_def)
  note ex = check_stamp_exact [OF stamp_sample_ok k c]
  have "case check_stamp_task (Suc (length (se_entries stamp_sample))) stamp_sample [(''s.do_x'', 7), (''s.do_y'', 5)] ''a:do_x'' None True [] of
      Inr (b, _) \<Rightarrow> b | _ \<Rightarrow> False" by code_simp
  moreover have "case check_stamp_task (Suc (length (se_entries stamp_sample))) stamp_sample [(''s.do_x'', 7), (''s.do_y'', 9)] ''a:do_x'' None True [] of
      Inr (b, _) \<Rightarrow> \<not> b | _ \<Rightarrow> False" by code_simp
  ultimately show ?thesis using ex [of "[(''s.do_x'', 7), (''s.do_y'', 5)]"] ex [of "[(''s.do_x'', 7), (''s.do_y'', 9)]"] by auto
qed

end
