(* ===== verification/BB_Scene.thy ===== *)
theory BB_Scene
  imports BB_Stamps
begin

text \<open>
  The state of \<^verbatim>\<open>RunQueueExecute\<close> of \<^verbatim>\<open>lib/bb/runqueue.py\<close> and the methods that move tasks through it. The object has two halves: the queue of tasks, and in front of it the
  queue of setscene tasks, which fetch the result of a task from a cache. A method that touches one half only is a function on that half. Python sets are lists without order significance.

  Events are left out. What comes from outside during a call (the clock, the answer of the hash check function, messages of the workers) is collected in the record \<open>world\<close>.
\<close>

section \<open>State\<close>

datatype rqstate =
    runQueuePrepare | runQueueSceneInit | runQueueRunning | runQueueFailed | runQueueCleanUp | runQueueComplete

record sqdata =
  sq_deps :: "(string, string list) dict"
  sq_revdeps :: "(string, string list) dict"
  sq_harddeps :: "(string, string list) dict"
  sq_stamps :: "(string, string option) dict"
  sq_unskippable :: "string list"
  sq_outrightfail :: "string list"
  sq_covered_tasks :: "(string, string list) dict"
  sq_noexec :: "string list"
  sq_stamppresent :: "string list"
  sq_valid :: "string list"
  sq_hashes :: "(string, string) dict"
  sq_multiconfigs :: "string list"

definition SQData :: sqdata where
  "SQData = \<lparr>sq_deps = [], sq_revdeps = [], sq_harddeps = [], sq_stamps = [], sq_unskippable = [], sq_outrightfail = [],
     sq_covered_tasks = [], sq_noexec = [], sq_stamppresent = [], sq_valid = [], sq_hashes = [], sq_multiconfigs = []\<rparr>"

text \<open>The setscene half: \<open>sn_done\<close> is \<^verbatim>\<open>tasks_scenequeue_done\<close>, \<open>sn_need_update\<close> is \<^verbatim>\<open>holdoff_need_update\<close>.\<close>

record scene =
  sn_data :: sqdata
  sn_buildable :: "string list"
  sn_running :: "string list"
  sn_live :: "string list"
  sn_deferred :: "(string, string) dict"
  sn_stats :: rqstats
  sn_covered :: "string list"
  sn_notcovered :: "string list"
  sn_notneeded :: "string list"
  sn_done :: "string list"
  sn_cantskip :: "string list"
  sn_need_update :: bool

text \<open>An entry of \<^verbatim>\<open>taskdepdata\<close> and a \<^verbatim>\<open>runtask\<close> message to a worker.\<close>

record depdata =
  dd_pn :: string
  dd_taskname :: string
  dd_fn :: string
  dd_deps :: "string list"
  dd_provides :: "string list"
  dd_hash :: "string option"
  dd_unihash :: "string option"

record runtask =
  rt_fakeroot :: bool
  rt_mc :: string
  rt_taskfn :: string
  rt_task :: string
  rt_taskname :: string
  rt_hash :: "string option"
  rt_unihash :: "string option"
  rt_setscene :: bool
  rt_depdata :: "(string, depdata) dict"
  rt_quieterrors :: bool

text \<open>
  The half of the tasks, with what the object shares with the run queue: the entries, the state of the signature generator, the stamp files, the state of the run queue, its fakeroot workers
  and what was written to the workers. \<open>rx_covered\<close> and \<open>rx_notcovered\<close> are \<^verbatim>\<open>tasks_covered\<close> and \<^verbatim>\<open>tasks_notcovered\<close>.
\<close>

record 'g rqexe =
  rx_entries :: rtentries
  rx_buildable :: "string list"
  rx_running :: "string list"
  rx_complete :: "string list"
  rx_tasksrun :: "string list"
  rx_failed :: "string list"
  rx_stats :: rqstats
  rx_sched :: sched
  rx_build_stamps :: "(string, string option) dict"
  rx_build_stamps2 :: "string option list"
  rx_holdoff :: "string list"
  rx_covered :: "string list"
  rx_notcovered :: "string list"
  rx_sqdone :: bool
  rx_state :: rqstate
  rx_stampcache :: "(string, bool) dict"
  rx_files :: files
  rx_fakeworkers :: "string list"
  rx_sent :: "runtask list"
  rx_updated :: "(string \<times> string) list"
  rx_pending :: "string list"
  rx_g :: 'g

record 'g xstate =
  x_scene :: scene
  x_rq :: "'g rqexe"

text \<open>What does not change during the execution, and what the outside answers.\<close>

record 'g xsiggen = "'g siggen" +
  sg_stampfile :: "'g \<Rightarrow> stamp_method"
  sg_stampcleanmask :: "'g \<Rightarrow> stamp_method"
  sg_set_unihash :: "string \<Rightarrow> string \<Rightarrow> 'g \<Rightarrow> 'g"
  sg_report_unihash_equiv :: "string \<Rightarrow> string \<Rightarrow> string option \<Rightarrow> string \<Rightarrow> 'g \<Rightarrow> 'g result"

record 'g rqenv =
  rv_dataCaches :: datacaches
  rv_taskData :: taskdatas
  rv_setscene_tids :: "string list"
  rv_target_tids :: "string list"
  rv_stamppolicy :: string
  rv_stampfnwhitelist :: "(string, string list) dict"
  rv_setscenewhitelist :: "string list option"
  rv_setscene_enforce :: bool
  rv_number_tasks :: int
  rv_number_threads :: "string \<Rightarrow> string option"
  rv_hashvalidate :: bool
  rv_depvalidate :: bool
  rv_force :: bool
  rv_skipsetscene :: bool
  rv_setsceneonly :: bool
  rv_dry_run :: bool
  rv_siggen :: "'g xsiggen"

datatype message = Exitcode string int | UniHashUpdate string string | OtherEvent | WorkerDied

record sq_hashdata =
  sh_hash :: "(string, string option) dict"
  sh_hashfn :: "(string, string) dict"
  sh_unihash :: "(string, string option) dict"

record world =
  w_now :: int
  w_hashvalidate :: "sq_hashdata \<Rightarrow> nat \<Rightarrow> string list result"
  w_depvalidate :: "string \<Rightarrow> (string, string \<times> string \<times> string) dict \<Rightarrow> string list \<Rightarrow> bool result"
  w_fakeworker :: "string \<Rightarrow> bool"
  w_first :: "message list"
  w_waiting :: "message list"
  w_finishing :: "message list"

section \<open>Sets\<close>

abbreviation union_new :: "'a list \<Rightarrow> 'a list \<Rightarrow> 'a list" where
  "union_new xs ys \<equiv> fold add_new ys xs"

definition set_minus :: "'a list \<Rightarrow> 'a list \<Rightarrow> 'a list" where
  "set_minus xs ys = filter (\<lambda>x. x \<notin> set ys) xs"

definition set_meet :: "'a list \<Rightarrow> 'a list \<Rightarrow> 'a list" where
  "set_meet xs ys = filter (\<lambda>x. x \<in> set ys) xs"

lemma set_set_minus [simp]: "set (set_minus xs ys) = set xs - set ys"
  by (auto simp: set_minus_def)

lemma set_set_meet [simp]: "set (set_meet xs ys) = set xs \<inter> set ys"
  by (auto simp: set_meet_def)

text \<open>\<^verbatim>\<open>s.remove(x)\<close> of a set.\<close>

definition set_remove :: "string \<Rightarrow> string list \<Rightarrow> string list result" where
  "set_remove x xs = (if x \<in> set xs then Inr (removeAll x xs) else Inl (KeyError x))"

section \<open>Tasks\<close>

definition can_start_task :: "'g rqenv \<Rightarrow> 'g xstate \<Rightarrow> bool" where
  "can_start_task env st \<longleftrightarrow> st_active (rx_stats (x_rq st)) + st_active (sn_stats (x_scene st)) < rv_number_tasks env"

definition setbuildable :: "string \<Rightarrow> 'g rqexe \<Rightarrow> 'g rqexe" where
  "setbuildable task rx = rx\<lparr>rx_buildable := add_new task (rx_buildable rx), rx_sched := newbuildable task (rx_sched rx)\<rparr>"

definition release_revdep :: "string \<Rightarrow> 'g rqexe \<Rightarrow> 'g rqexe result" where
  "release_revdep revdep rx =
     (if revdep \<in> set (rx_running rx) \<or> revdep \<in> set (rx_buildable rx) then Inr rx
      else rbind (dict_lookup (rx_entries rx) revdep) (\<lambda>e.
           Inr (if list_all (\<lambda>dep. dep \<in> set (rx_complete rx)) (re_depends e) then setbuildable revdep rx else rx)))"

definition task_completeoutright :: "string \<Rightarrow> 'g rqexe \<Rightarrow> 'g rqexe result" where
  "task_completeoutright task rx =
     (let rx1 = rx\<lparr>rx_complete := add_new task (rx_complete rx)\<rparr>
      in rbind (dict_lookup (rx_entries rx1) task) (\<lambda>e. rfold release_revdep (re_revdeps e) rx1))"

definition task_complete :: "string \<Rightarrow> 'g rqexe \<Rightarrow> 'g rqexe result" where
  "task_complete task rx =
     rbind (task_completeoutright task (rx\<lparr>rx_stats := taskCompleted (rx_stats rx)\<rparr>)) (\<lambda>rx1.
     Inr (rx1\<lparr>rx_tasksrun := add_new task (rx_tasksrun rx1)\<rparr>))"

definition task_fail :: "'g rqenv \<Rightarrow> string \<Rightarrow> 'g rqexe \<Rightarrow> 'g rqexe result" where
  "task_fail env task rx =
     (let rx1 = rx\<lparr>rx_stats := taskFailed (rx_stats rx), rx_failed := rx_failed rx @ [task]\<rparr>
      in rbind (dict_lookup (rv_taskData env) []) (\<lambda>td.
         Inr (if td_abort td then rx1\<lparr>rx_state := runQueueCleanUp\<rparr> else rx1)))"

definition task_skip :: "string \<Rightarrow> 'g rqexe \<Rightarrow> 'g rqexe result" where
  "task_skip task rx =
     rbind (task_completeoutright task (setbuildable task (rx\<lparr>rx_running := add_new task (rx_running rx)\<rparr>))) (\<lambda>rx1.
     Inr (rx1\<lparr>rx_stats := taskCompleted (taskSkipped (rx_stats rx1))\<rparr>))"

section \<open>Setscene tasks\<close>

text \<open>
  The loop of \<^verbatim>\<open>scenequeue_updatecounters\<close> that walks down to the tasks below a setscene task. At least every second round that is followed by another one
  puts a new task into the set of finished ones, which bounds the rounds.
\<close>

definition chain_dep :: "string list \<Rightarrow> rtentries \<Rightarrow> string \<Rightarrow> string list \<times> string list \<Rightarrow> (string list \<times> string list) result" where
  "chain_dep setscene entries dep p =
     (case p of (finished, new) \<Rightarrow>
        if dep \<in> set setscene \<or> dep \<in> set finished then Inr p
        else rbind (dict_lookup entries dep) (\<lambda>e.
             Inr (finished, if set (re_revdeps e) \<subseteq> set finished then add_new dep new else new)))"

definition chain_task :: "string list \<Rightarrow> rtentries \<Rightarrow> string \<Rightarrow> string list \<times> string list \<Rightarrow> (string list \<times> string list) result" where
  "chain_task setscene entries t p =
     rbind (dict_lookup entries t) (\<lambda>e. rfold (chain_dep setscene entries) (re_depends e) (add_new t (fst p), snd p))"

fun chain_loop :: "nat \<Rightarrow> string list \<Rightarrow> rtentries \<Rightarrow> string list \<Rightarrow> string list \<Rightarrow> string list result" where
  "chain_loop 0 setscene entries todo finished = (if todo = [] then Inr finished else Inl RuntimeError)"
| "chain_loop (Suc n) setscene entries todo finished =
     (if todo = [] then Inr finished
      else rbind (rfold (chain_task setscene entries) (sort todo) (finished, [])) (\<lambda>(finished', new).
           chain_loop n setscene entries new finished'))"

definition chain_bound :: "rtentries \<Rightarrow> nat" where
  "chain_bound entries = 2 * length entries + 3"

text \<open>
  \<^verbatim>\<open>sq_task_failoutright\<close> and \<^verbatim>\<open>scenequeue_updatecounters\<close> call each other; \<open>sq_mark_failed\<close> is the first one up to that call. Every call decides a task that was open, which bounds the depth.
\<close>

definition sq_mark_failed :: "string \<Rightarrow> scene \<Rightarrow> scene" where
  "sq_mark_failed task sn =
     sn\<lparr>sn_running := add_new task (sn_running sn), sn_buildable := add_new task (sn_buildable sn),
        sn_stats := taskCompleted (taskSkipped (sn_stats sn)), sn_notcovered := add_new task (sn_notcovered sn)\<rparr>"

definition sq_decided :: "scene \<Rightarrow> string \<Rightarrow> bool" where
  "sq_decided sn t \<longleftrightarrow> t \<in> set (sn_covered sn) \<or> t \<in> set (sn_notcovered sn)"

definition release_scene :: "string \<Rightarrow> scene \<Rightarrow> scene result" where
  "release_scene dep sn =
     rbind (dict_lookup (sq_revdeps (sn_data sn)) dep) (\<lambda>revdeps.
     Inr (if list_all (sq_decided sn) revdeps then sn\<lparr>sn_buildable := add_new dep (sn_buildable sn)\<rparr> else sn))"

definition hard_dependency :: "scene \<Rightarrow> string \<Rightarrow> string \<Rightarrow> bool" where
  "hard_dependency sn task dep \<longleftrightarrow>
     (case map_of (sq_harddeps (sn_data sn)) task of None \<Rightarrow> False | Some ds \<Rightarrow> dep \<in> set ds)"

fun scenequeue_updatecounters ::
    "nat \<Rightarrow> string list \<Rightarrow> rtentries \<Rightarrow> string \<Rightarrow> bool \<Rightarrow> scene \<Rightarrow> scene result" where
  "scenequeue_updatecounters 0 setscene entries task fail sn = Inl RecursionError"
| "scenequeue_updatecounters (Suc n) setscene entries task fail sn =
     rbind (dict_lookup (sq_deps (sn_data sn)) task) (\<lambda>deps.
     rbind (rfold (\<lambda>dep sn.
              if fail \<and> hard_dependency sn task dep
              then (if sq_decided sn dep then Inr sn
                    else scenequeue_updatecounters n setscene entries dep True (sq_mark_failed dep sn))
              else release_scene dep sn) (sort deps) sn) (\<lambda>sn1.
     rbind (chain_loop (chain_bound entries) setscene entries [task] (sn_done sn1)) (\<lambda>finished.
     Inr (sn1\<lparr>sn_done := finished, sn_need_update := True\<rparr>))))"

definition updatecounters :: "'g rqenv \<Rightarrow> rtentries \<Rightarrow> string \<Rightarrow> bool \<Rightarrow> scene \<Rightarrow> scene result" where
  "updatecounters env entries task fail sn =
     scenequeue_updatecounters (length (sq_deps (sn_data sn)) + 2) (rv_setscene_tids env) entries task fail sn"

definition sq_task_completeoutright :: "'g rqenv \<Rightarrow> rtentries \<Rightarrow> string \<Rightarrow> scene \<Rightarrow> scene result" where
  "sq_task_completeoutright env entries task sn =
     updatecounters env entries task False (sn\<lparr>sn_covered := add_new task (sn_covered sn)\<rparr>)"

definition sq_task_complete :: "'g rqenv \<Rightarrow> rtentries \<Rightarrow> string \<Rightarrow> scene \<Rightarrow> scene result" where
  "sq_task_complete env entries task sn =
     sq_task_completeoutright env entries task (sn\<lparr>sn_stats := taskCompleted (sn_stats sn)\<rparr>)"

definition sq_task_failoutright :: "'g rqenv \<Rightarrow> rtentries \<Rightarrow> string \<Rightarrow> scene \<Rightarrow> scene result" where
  "sq_task_failoutright env entries task sn = updatecounters env entries task True (sq_mark_failed task sn)"

definition sq_task_skip :: "'g rqenv \<Rightarrow> rtentries \<Rightarrow> string \<Rightarrow> scene \<Rightarrow> scene result" where
  "sq_task_skip env entries task sn =
     rbind (sq_task_completeoutright env entries task
              (sn\<lparr>sn_running := add_new task (sn_running sn), sn_buildable := add_new task (sn_buildable sn)\<rparr>)) (\<lambda>sn1.
     Inr (sn1\<lparr>sn_stats := taskCompleted (taskSkipped (sn_stats sn1))\<rparr>))"

text \<open>\<^verbatim>\<open>s.split(sub)[0]\<close>\<close>

fun before_sub :: "string \<Rightarrow> string \<Rightarrow> string" where
  "before_sub sub [] = []"
| "before_sub sub (c # s) = (if startswith (c # s) sub then [] else c # before_sub sub s)"

definition sq_check_taskfail :: "'g rqenv \<Rightarrow> string \<Rightarrow> 'g rqexe \<Rightarrow> 'g rqexe result" where
  "sq_check_taskfail env task rx =
     (if rv_setscenewhitelist env = None then Inr rx
      else rbind (split_tid_mcfn (before_sub ''_setscene'' task)) (\<lambda>(mc, fn, taskname, taskfn).
           rbind (dict_lookup (rv_dataCaches env) mc) (\<lambda>dc.
           rbind (dict_lookup (dc_pkg_fn dc) taskfn) (\<lambda>pn.
           rbind (check_setscene_enforce_whitelist pn taskname (rv_setscenewhitelist env)) (\<lambda>ok.
           Inr (if ok then rx else rx\<lparr>rx_state := runQueueCleanUp\<rparr>))))))"

definition sq_task_fail :: "'g rqenv \<Rightarrow> string \<Rightarrow> 'g xstate \<Rightarrow> 'g xstate result" where
  "sq_task_fail env task st =
     (let sn = x_scene st
      in rbind (updatecounters env (rx_entries (x_rq st)) task True
                  (sn\<lparr>sn_stats := taskFailed (sn_stats sn), sn_notcovered := add_new task (sn_notcovered sn)\<rparr>)) (\<lambda>sn1.
         rbind (sq_check_taskfail env task (x_rq st)) (\<lambda>rx.
         Inr (st\<lparr>x_scene := sn1, x_rq := rx\<rparr>))))"

section \<open>Messages of the workers\<close>

definition forget_stamp :: "string \<Rightarrow> 'g rqexe \<Rightarrow> 'g rqexe result" where
  "forget_stamp task rx =
     (case map_of (rx_build_stamps rx) task of
        None \<Rightarrow> Inr rx
      | Some stamp \<Rightarrow>
          if stamp \<in> set (rx_build_stamps2 rx)
          then Inr (rx\<lparr>rx_build_stamps2 := remove1 stamp (rx_build_stamps2 rx), rx_build_stamps := dict_del task (rx_build_stamps rx)\<rparr>)
          else Inl (ValueError task))"

definition runqueue_process_waitpid :: "'g rqenv \<Rightarrow> string \<Rightarrow> int \<Rightarrow> 'g xstate \<Rightarrow> 'g xstate result" where
  "runqueue_process_waitpid env task status st =
     rbind (forget_stamp task (x_rq st)) (\<lambda>rx0.
     let st0 = st\<lparr>x_rq := rx0\<rparr>
     in if task \<in> set (sn_live (x_scene st0))
        then rbind (if status \<noteq> 0 then sq_task_fail env task st0
                    else rbind (sq_task_complete env (rx_entries rx0) task (x_scene st0)) (\<lambda>sn. Inr (st0\<lparr>x_scene := sn\<rparr>))) (\<lambda>st1.
             Inr (st1\<lparr>x_scene := (x_scene st1)\<lparr>sn_live := removeAll task (sn_live (x_scene st1))\<rparr>\<rparr>))
        else rbind (if status \<noteq> 0 then task_fail env task rx0 else task_complete task rx0) (\<lambda>rx. Inr (st0\<lparr>x_rq := rx\<rparr>)))"

definition finish_now :: "'g xstate \<Rightarrow> 'g xstate" where
  "finish_now st =
     (let rx = x_rq st in st\<lparr>x_rq := rx\<lparr>rx_state := (if rx_failed rx \<noteq> [] then runQueueFailed else runQueueComplete)\<rparr>\<rparr>)"

definition worker_message :: "'g rqenv \<Rightarrow> message \<Rightarrow> 'g xstate \<Rightarrow> 'g xstate result" where
  "worker_message env m st =
     (case m of
        Exitcode task status \<Rightarrow> runqueue_process_waitpid env task status st
      | UniHashUpdate taskid unihash \<Rightarrow> Inr (st\<lparr>x_rq := (x_rq st)\<lparr>rx_updated := rx_updated (x_rq st) @ [(taskid, unihash)]\<rparr>\<rparr>)
      | OtherEvent \<Rightarrow> Inr st
      | WorkerDied \<Rightarrow> Inr (finish_now st))"

definition read_workers :: "'g rqenv \<Rightarrow> message list \<Rightarrow> 'g xstate \<Rightarrow> 'g xstate result" where
  "read_workers env ms st = rfold (worker_message env) ms st"

end
