(* ===== verification/BB_SceneInit.thy ===== *)
theory BB_SceneInit
  imports BB_Scene
begin

text \<open>
  The construction of \<^verbatim>\<open>RunQueueExecute\<close> of \<^verbatim>\<open>lib/bb/runqueue.py\<close>: \<^verbatim>\<open>build_scenequeue_data\<close> collapses the dependency graph to the setscene tasks,
  \<^verbatim>\<open>update_scenequeue_data\<close> looks for stamps and valid cache entries, and the constructor sets up the object.
\<close>

section \<open>Stamps and hashes\<close>

definition stamp_env_of :: "'g rqenv \<Rightarrow> 'g rqexe \<Rightarrow> stamp_env" where
  "stamp_env_of env rx =
     \<lparr>se_entries = rx_entries rx, se_dataCaches = rv_dataCaches env, se_stampf = sg_stampfile (rv_siggen env) (rx_g rx),
      se_stamppolicy = rv_stamppolicy env, se_whitelist = rv_stampfnwhitelist env\<rparr>"

definition stamp_current :: "'g rqenv \<Rightarrow> string \<Rightarrow> string \<Rightarrow> bool \<Rightarrow> 'g rqexe \<Rightarrow> (bool \<times> 'g rqexe) result" where
  "stamp_current env tid taskname recurse rx =
     rbind (check_stamp_task (Suc (length (rx_entries rx))) (stamp_env_of env rx) (rx_files rx) tid (Some taskname) recurse (rx_stampcache rx))
       (\<lambda>(b, cache). Inr (b, rx\<lparr>rx_stampcache := cache\<rparr>))"

definition write_stamp :: "'g rqenv \<Rightarrow> world \<Rightarrow> string \<Rightarrow> cachedata \<Rightarrow> string \<Rightarrow> 'g rqexe \<Rightarrow> 'g rqexe result" where
  "write_stamp env w taskname dc taskfn rx =
     rbind (make_stamp (sg_stampfile (rv_siggen env) (rx_g rx)) (sg_stampcleanmask (rv_siggen env) (rx_g rx)) (w_now w) taskname dc taskfn (rx_files rx))
       (\<lambda>fs. Inr (rx\<lparr>rx_files := fs\<rparr>))"

definition hash_entry :: "'g rqenv \<Rightarrow> rtentries \<Rightarrow> string \<Rightarrow> sq_hashdata \<Rightarrow> sq_hashdata result" where
  "hash_entry env entries tid sd =
     rbind (split_tid_mcfn tid) (\<lambda>(mc, fn, taskname, taskfn).
     rbind (dict_lookup entries tid) (\<lambda>e.
     rbind (dict_lookup (rv_dataCaches env) mc) (\<lambda>dc.
     rbind (dict_lookup (dc_hashfn dc) taskfn) (\<lambda>hashfn.
     Inr (sd\<lparr>sh_hash := dict_set tid (re_hash e) (sh_hash sd), sh_hashfn := dict_set tid hashfn (sh_hashfn sd),
             sh_unihash := dict_set tid (re_unihash e) (sh_unihash sd)\<rparr>)))))"

definition validate_hashes :: "'g rqenv \<Rightarrow> world \<Rightarrow> rtentries \<Rightarrow> string list \<Rightarrow> nat \<Rightarrow> string list result" where
  "validate_hashes env w entries tocheck currentcount =
     (if \<not> rv_hashvalidate env then Inr []
      else rbind (rfold (hash_entry env entries) tocheck \<lparr>sh_hash = [], sh_hashfn = [], sh_unihash = []\<rparr>) (\<lambda>sd.
           w_hashvalidate w sd currentcount))"

section \<open>Stamps and valid cache entries of setscene tasks\<close>

definition skip_scene :: "'g rqenv \<Rightarrow> string \<Rightarrow> 'g xstate \<Rightarrow> 'g xstate result" where
  "skip_scene env tid st =
     rbind (sq_task_skip env (rx_entries (x_rq st)) tid (x_scene st)) (\<lambda>sn. Inr (st\<lparr>x_scene := sn\<rparr>))"

definition on_sqdata :: "(sqdata \<Rightarrow> sqdata) \<Rightarrow> 'g xstate \<Rightarrow> 'g xstate" where
  "on_sqdata f st = st\<lparr>x_scene := (x_scene st)\<lparr>sn_data := f (sn_data (x_scene st))\<rparr>\<rparr>"

definition note_present :: "'g rqenv \<Rightarrow> string \<Rightarrow> 'g xstate \<Rightarrow> 'g xstate result" where
  "note_present env tid st = skip_scene env tid (on_sqdata (\<lambda>d. d\<lparr>sq_stamppresent := add_new tid (sq_stamppresent d)\<rparr>) st)"

definition refresh_tid :: "'g rqenv \<Rightarrow> world \<Rightarrow> string \<Rightarrow> 'g xstate \<times> string list \<Rightarrow> ('g xstate \<times> string list) result" where
  "refresh_tid env w tid p =
     (let st = on_sqdata (\<lambda>d. d\<lparr>sq_stamppresent := removeAll tid (sq_stamppresent d), sq_valid := removeAll tid (sq_valid d)\<rparr>) (fst p)
      in rbind (split_tid_mcfn tid) (\<lambda>(mc, fn, taskname, taskfn).
         rbind (dict_lookup (rv_dataCaches env) mc) (\<lambda>dc.
         rbind (dict_lookup (dc_task_deps dc) taskfn) (\<lambda>taskdep.
         if task_flag taskdep ''noexec'' taskname \<noteq> None
         then rbind (skip_scene env tid (on_sqdata (\<lambda>d. d\<lparr>sq_noexec := add_new tid (sq_noexec d)\<rparr>) st)) (\<lambda>st1.
              rbind (write_stamp env w (taskname @ ''_setscene'') dc taskfn (x_rq st1)) (\<lambda>rx.
              Inr (st1\<lparr>x_rq := rx\<rparr>, snd p)))
         else rbind (stamp_current env tid (taskname @ ''_setscene'') False (x_rq st)) (\<lambda>(b, rx).
              if b then rbind (note_present env tid (st\<lparr>x_rq := rx\<rparr>)) (\<lambda>st1. Inr (st1, snd p))
              else rbind (stamp_current env tid taskname True rx) (\<lambda>(b', rx').
                   if b' then rbind (note_present env tid (st\<lparr>x_rq := rx'\<rparr>)) (\<lambda>st1. Inr (st1, snd p))
                   else Inr (st\<lparr>x_rq := rx'\<rparr>, add_new tid (snd p))))))))"

text \<open>Tasks that cannot come from the cache; one with the hash of an earlier one is deferred until that one has run.\<close>

definition defer_tid :: "'g rqenv \<Rightarrow> string \<Rightarrow> string \<Rightarrow> 'g xstate \<Rightarrow> 'g xstate result" where
  "defer_tid env mc tid st =
     (let sn = x_scene st; d = sn_data sn
      in if mc_from_tid tid \<noteq> mc \<or> tid \<in> set (sq_stamppresent d) \<or> tid \<in> set (sq_valid d) \<or> tid \<in> set (sq_noexec d) \<or>
            tid \<in> set (sn_notcovered sn) \<or> tid \<in> set (sn_covered sn)
         then Inr st
         else let d1 = d\<lparr>sq_outrightfail := add_new tid (sq_outrightfail d)\<rparr>
              in rbind (pending_hash_index tid (rv_dataCaches env) (rx_entries (x_rq st))) (\<lambda>h.
                 Inr (case map_of (sq_hashes d1) h of
                        None \<Rightarrow> st\<lparr>x_scene := sn\<lparr>sn_data := d1\<lparr>sq_hashes := dict_set h tid (sq_hashes d1)\<rparr>\<rparr>\<rparr>
                      | Some other \<Rightarrow> st\<lparr>x_scene := sn\<lparr>sn_data := d1, sn_deferred := dict_set tid other (sn_deferred sn)\<rparr>\<rparr>)))"

definition defer_invalid :: "'g rqenv \<Rightarrow> string list \<Rightarrow> 'g xstate \<Rightarrow> 'g xstate result" where
  "defer_invalid env valid st =
     (let sn = x_scene st;
          d = sn_data sn;
          st1 = st\<lparr>x_scene := sn\<lparr>sn_data := d\<lparr>sq_valid := union_new (sq_valid d) valid, sq_hashes := []\<rparr>, sn_deferred := []\<rparr>\<rparr>
      in rfold (\<lambda>mc. rfold (defer_tid env mc) (sort (dict_keys (sq_revdeps d)))) (sort (sq_multiconfigs d)) st1)"

definition update_scenequeue_data :: "'g rqenv \<Rightarrow> world \<Rightarrow> string list \<Rightarrow> 'g xstate \<Rightarrow> 'g xstate result" where
  "update_scenequeue_data env w tids st =
     rbind (rfold (refresh_tid env w) (sort tids) (st, [])) (\<lambda>(st1, tocheck).
     rbind (validate_hashes env w (rx_entries (x_rq st1)) tocheck (length (sq_stamppresent (sn_data (x_scene st1))))) (\<lambda>valid.
     defer_invalid env valid st1))"

section \<open>The graph of setscene tasks\<close>

text \<open>\<^verbatim>\<open>d[k].add(v)\<close>, \<^verbatim>\<open>d[k] |= vs\<close> and \<^verbatim>\<open>if v in d[k]: d[k].remove(v)\<close> of dictionaries of sets.\<close>

definition upd_set :: "string \<Rightarrow> (string list \<Rightarrow> string list) \<Rightarrow> (string, string list) dict \<Rightarrow> (string, string list) dict result" where
  "upd_set k f d = rbind (dict_lookup d k) (\<lambda>s. Inr (dict_set k (f s) d))"

text \<open>The local dictionaries \<^verbatim>\<open>sq_revdeps\<close>, \<^verbatim>\<open>sq_revdeps_squash\<close> and \<^verbatim>\<open>sq_collated_deps\<close>.\<close>

record squash =
  qs_rev :: "(string, string list) dict"
  qs_squash :: "(string, string list) dict"
  qs_coll :: "(string, string list) dict"

type_synonym endpoints = "(string, string list) dict"

definition start_endpoints :: "string list \<Rightarrow> rtentries \<Rightarrow> squash \<times> endpoints" where
  "start_endpoints setscene entries =
     (\<lparr>qs_rev = map (\<lambda>(tid, e). (tid, re_revdeps e)) entries, qs_squash = map (\<lambda>(tid, e). (tid, [])) entries, qs_coll = []\<rparr>,
      map (\<lambda>(tid, e). (tid, [])) (filter (\<lambda>(tid, e). re_revdeps e = [] \<and> tid \<notin> set setscene) entries))"

definition setscene_endpoint :: "string \<Rightarrow> string \<Rightarrow> squash \<times> endpoints \<Rightarrow> (squash \<times> endpoints) result" where
  "setscene_endpoint tid dep p =
     (case p of (qs, endpoints) \<Rightarrow>
        rbind (upd_set dep (removeAll tid) (qs_rev qs)) (\<lambda>rv.
        Inr (qs\<lparr>qs_rev := rv\<rparr>, dict_set dep (add_new tid (dd_get endpoints dep)) endpoints)))"

definition setscene_endpoints :: "rtentries \<Rightarrow> string \<Rightarrow> squash \<times> endpoints \<Rightarrow> (squash \<times> endpoints) result" where
  "setscene_endpoints entries tid p =
     (case p of (qs, endpoints) \<Rightarrow>
        rbind (dict_lookup entries tid) (\<lambda>e.
        rfold (setscene_endpoint tid) (re_depends e) (qs\<lparr>qs_coll := dict_set tid [] (qs_coll qs)\<rparr>, endpoints)))"

definition pass_endpoint ::
    "string list \<Rightarrow> string \<Rightarrow> string list \<Rightarrow> string list \<Rightarrow> string \<Rightarrow> squash \<times> endpoints \<Rightarrow> (squash \<times> endpoints) result" where
  "pass_endpoint setscene point task tasks dep p =
     (case p of (qs, newendpoints) \<Rightarrow>
        rbind (upd_set dep (removeAll point) (qs_rev qs)) (\<lambda>rv.
        rbind (if tasks = [] then Inr (qs_squash qs) else upd_set dep (\<lambda>s. union_new s tasks) (qs_squash qs)) (\<lambda>sq.
        Inr (qs\<lparr>qs_rev := rv, qs_squash := sq\<rparr>,
             if dd_get rv dep = [] \<and> dep \<notin> set setscene then dict_set dep task newendpoints else newendpoints))))"

definition process_endpoint ::
    "string list \<Rightarrow> rtentries \<Rightarrow> string \<times> string list \<Rightarrow> squash \<times> endpoints \<Rightarrow> (squash \<times> endpoints) result" where
  "process_endpoint setscene entries q p =
     (case (q, p) of ((point, task), (qs, newendpoints)) \<Rightarrow>
        rbind (dict_lookup (qs_squash qs) point) (\<lambda>known.
        let tasks = union_new (union_new [] task) known
        in if point \<in> set setscene
           then Inr (qs\<lparr>qs_squash := dict_set point tasks (qs_squash qs)\<rparr>, newendpoints)
           else rbind (rfold (\<lambda>t. upd_set t (add_new point)) tasks (qs_coll qs)) (\<lambda>coll.
                rbind (dict_lookup entries point) (\<lambda>e.
                rfold (pass_endpoint setscene point task tasks) (re_depends e)
                  (qs\<lparr>qs_coll := coll, qs_squash := dict_set point [] (qs_squash qs)\<rparr>, newendpoints)))))"

text \<open>Every level of the recursion follows a dependency, so the depth is bounded by the number of tasks.\<close>

fun process_endpoints :: "nat \<Rightarrow> string list \<Rightarrow> rtentries \<Rightarrow> endpoints \<Rightarrow> squash \<Rightarrow> squash result" where
  "process_endpoints 0 setscene entries endpoints qs = Inl RecursionError"
| "process_endpoints (Suc n) setscene entries endpoints qs =
     rbind (rfold (process_endpoint setscene entries) endpoints (qs, [])) (\<lambda>(qs1, newendpoints).
     if newendpoints = [] then Inr qs1 else process_endpoints n setscene entries newendpoints qs1)"

text \<open>Tasks the build needs directly, up to and including setscene tasks; every repeated round adds one.\<close>

definition unskip_tid :: "string list \<Rightarrow> string \<Rightarrow> string list \<times> 'g rqexe \<Rightarrow> (string list \<times> 'g rqexe) result" where
  "unskip_tid setscene tid p =
     (case p of (unskippable, rx) \<Rightarrow>
        if tid \<in> set setscene then Inr p
        else rbind (dict_lookup (rx_entries rx) tid) (\<lambda>e.
             Inr (union_new unskippable (re_depends e), if re_depends e = [] then setbuildable tid rx else rx)))"

fun unskip_loop :: "nat \<Rightarrow> string list \<Rightarrow> string list \<times> 'g rqexe \<Rightarrow> (string list \<times> 'g rqexe) result" where
  "unskip_loop 0 setscene p = Inl RuntimeError"
| "unskip_loop (Suc n) setscene p =
     rbind (rfold (unskip_tid setscene) (rev (sort (fst p))) p) (\<lambda>p1.
     if set (fst p1) \<noteq> set (fst p) then unskip_loop n setscene p1 else Inr p1)"

definition check_squash :: "string list \<Rightarrow> string \<Rightarrow> (string, string list) dict \<Rightarrow> (string, string list) dict result" where
  "check_squash setscene tid sq =
     (if tid \<in> set setscene then Inr sq
      else rbind (dict_lookup sq tid) (\<lambda>s. if s \<noteq> [] then Inl (FatalExit ''RunQueue'') else Inr (dict_del tid sq)))"

text \<open>Dependencies between setscene tasks that recipes ask for.\<close>

definition hard_dep ::
    "taskdata \<Rightarrow> rtentries \<Rightarrow> string \<Rightarrow> string \<times> string \<Rightarrow> (string, string list) dict \<times> (string, string list) dict \<Rightarrow>
     ((string, string list) dict \<times> (string, string list) dict) result" where
  "hard_dep td entries tid q p =
     (case (q, p) of ((depname, idependtask), (harddeps, sq)) \<Rightarrow>
        case map_of (td_build_targets td) depname of
          None \<Rightarrow> Inr p
        | Some fns \<Rightarrow>
            rbind (first_of fns) (\<lambda>depfn.
            let deptid = depfn @ '':'' @ str_replace ''_setscene'' [] idependtask
            in if \<not> has_key entries deptid then Inl (FatalExit ''RunQueue'')
               else rbind (upd_set tid (add_new deptid) sq) (\<lambda>sq1.
                    Inr (dict_set deptid (add_new tid (dd_get harddeps deptid)) harddeps, dict_set deptid [] sq1))))"

definition resolve_tid ::
    "'g rqenv \<Rightarrow> stamp_method \<Rightarrow> rtentries \<Rightarrow> string \<Rightarrow> sqdata \<times> (string, string list) dict \<Rightarrow> (sqdata \<times> (string, string list) dict) result" where
  "resolve_tid env stampf entries tid p =
     (case p of (d, sq) \<Rightarrow>
        rbind (split_tid_mcfn tid) (\<lambda>(mc, fn, taskname, taskfn).
        rbind (dict_lookup (rv_taskData env) mc) (\<lambda>td.
        rbind (dict_lookup (td_taskentries td) (tid @ ''_setscene'')) (\<lambda>te.
        rbind (dict_lookup (rv_dataCaches env) mc) (\<lambda>dc.
        rbind (stamp_internal stampf (taskname @ ''_setscene'') dc taskfn True) (\<lambda>stamp.
        rbind (rfold (hard_dep td entries tid) (te_idepends te) (sq_harddeps d, sq)) (\<lambda>(harddeps, sq1).
        Inr (d\<lparr>sq_stamps := dict_set tid stamp (sq_stamps d), sq_harddeps := harddeps\<rparr>, sq1))))))))"

definition add_hard_revdeps :: "(string, string list) dict \<Rightarrow> (string, string list) dict \<Rightarrow> (string, string list) dict result" where
  "add_hard_revdeps harddeps sq = rfold (\<lambda>(task, deps). rfold (\<lambda>dep. upd_set dep (add_new task)) deps) harddeps sq"

definition reverse_map :: "(string, string list) dict \<Rightarrow> (string, string list) dict result" where
  "reverse_map sq = rfold (\<lambda>(tid, deps). rfold (\<lambda>dep. upd_set dep (add_new tid)) deps) sq (map (\<lambda>(tid, deps). (tid, [])) sq)"

text \<open>The collapsed graph: reverse dependencies between setscene tasks and the tasks they cover.\<close>

definition squash_graph :: "string list \<Rightarrow> rtentries \<Rightarrow> squash result" where
  "squash_graph setscene entries =
     rbind (rfold (setscene_endpoints entries) setscene (start_endpoints setscene entries)) (\<lambda>(qs, endpoints).
     process_endpoints (length entries + 2) setscene entries endpoints qs)"

definition build_scenequeue_data :: "'g rqenv \<Rightarrow> world \<Rightarrow> 'g xstate \<Rightarrow> 'g xstate result" where
  "build_scenequeue_data env w st =
     (let entries = rx_entries (x_rq st); setscene = rv_setscene_tids env; sn = x_scene st; d = sn_data sn
      in rbind (squash_graph setscene entries) (\<lambda>qs.
         rbind (unskip_loop (length entries + 2) setscene
                  (union_new (union_new (sq_unskippable d) (map fst (filter (\<lambda>(tid, e). re_revdeps e = []) entries))) (sn_cantskip sn), x_rq st))
           (\<lambda>(unskippable, rx).
         rbind (rfold (check_squash setscene) (dict_keys entries) (qs_squash qs)) (\<lambda>sq.
         rbind (rfold (resolve_tid env (sg_stampfile (rv_siggen env) (rx_g rx)) entries) setscene (d\<lparr>sq_unskippable := unskippable\<rparr>, sq)) (\<lambda>(d1, sq1).
         rbind (add_hard_revdeps (sq_harddeps d1) sq1) (\<lambda>sq2.
         rbind (reverse_map sq2) (\<lambda>deps.
         let d2 = d1\<lparr>sq_revdeps := sq2, sq_covered_tasks := qs_coll qs, sq_deps := deps,
                     sq_multiconfigs := union_new [] (map mc_from_tid (dict_keys sq2)), sq_noexec := [], sq_stamppresent := [], sq_valid := []\<rparr>;
             sn1 = sn\<lparr>sn_data := d2, sn_done := union_new (sn_done sn) (set_minus unskippable setscene),
                      sn_buildable := union_new (sn_buildable sn) (map fst (filter (\<lambda>(tid, r). r = []) sq2))\<rparr>
         in update_scenequeue_data env w (dict_keys sq2) (st\<lparr>x_scene := sn1, x_rq := rx\<rparr>))))))))"

section \<open>The constructor\<close>

text \<open>The schedulers of the module by their names; schedulers that users import are not modelled.\<close>

definition make_scheduler :: "string \<Rightarrow> stamp_method \<Rightarrow> datacaches \<Rightarrow> rtentries \<Rightarrow> sched result" where
  "make_scheduler name stampf caches entries =
     (if name = ''basic'' then RunQueueScheduler stampf caches [] entries
      else if name = ''speed'' then RunQueueSchedulerSpeed stampf caches [] entries
      else if name = ''completion'' then RunQueueSchedulerCompletion stampf caches [] entries
      else Inl (BBHandledException name))"

definition initial_scene :: "'g rqenv \<Rightarrow> rtentries \<Rightarrow> scene" where
  "initial_scene env entries =
     \<lparr>sn_data = SQData, sn_buildable = [], sn_running = [], sn_live = [], sn_deferred = [],
      sn_stats = RunQueueStats (int (length (rv_setscene_tids env))), sn_covered = [], sn_notcovered = [], sn_notneeded = [], sn_done = [],
      sn_cantskip = filter (has_key entries) (set_minus (remdups (rv_target_tids env)) (rv_setscene_tids env)), sn_need_update = True\<rparr>"

definition initial_rq :: "rtentries \<Rightarrow> 'g \<Rightarrow> files \<Rightarrow> sched \<Rightarrow> 'g rqexe" where
  "initial_rq entries g fs sc =
     \<lparr>rx_entries = entries, rx_buildable = [], rx_running = [], rx_complete = [], rx_tasksrun = [], rx_failed = [],
      rx_stats = RunQueueStats (int (length entries)), rx_sched = sc, rx_build_stamps = [], rx_build_stamps2 = [], rx_holdoff = [],
      rx_covered = [], rx_notcovered = [], rx_sqdone = False, rx_state = runQueueSceneInit, rx_stampcache = [], rx_files = fs,
      rx_fakeworkers = [], rx_sent = [], rx_updated = [], rx_pending = [], rx_g = g\<rparr>"

definition RunQueueExecute :: "'g rqenv \<Rightarrow> world \<Rightarrow> string \<Rightarrow> rtentries \<Rightarrow> 'g \<Rightarrow> files \<Rightarrow> 'g xstate result" where
  "RunQueueExecute env w scheduler entries g fs =
     (if rv_number_tasks env \<le> 0 then Inl (BBHandledException ''BB_NUMBER_THREADS'')
      else rbind (make_scheduler scheduler (sg_stampfile (rv_siggen env) g) (rv_dataCaches env) entries) (\<lambda>sc.
           build_scenequeue_data env w \<lparr>x_scene = initial_scene env entries, x_rq = initial_rq entries g fs sc\<rparr>))"

text \<open>The stage \<^verbatim>\<open>runQueueSceneInit\<close> of \<^verbatim>\<open>_execute_runqueue\<close>: without setscene tasks everything has to run.\<close>

definition must_run :: "string \<times> runtaskentry \<Rightarrow> 'g rqexe \<Rightarrow> 'g rqexe" where
  "must_run q rx =
     (let rx1 = (if re_depends (snd q) = [] then setbuildable (fst q) rx else rx)
      in rx1\<lparr>rx_notcovered := add_new (fst q) (rx_notcovered rx1)\<rparr>)"

definition no_setscene :: "'g xstate \<Rightarrow> 'g xstate" where
  "no_setscene st = st\<lparr>x_rq := (fold must_run (rx_entries (x_rq st)) (x_rq st))\<lparr>rx_sqdone := True\<rparr>\<rparr>"

definition scene_init :: "'g rqenv \<Rightarrow> world \<Rightarrow> string \<Rightarrow> rtentries \<Rightarrow> 'g \<Rightarrow> files \<Rightarrow> 'g xstate result" where
  "scene_init env w scheduler entries g fs =
     rbind (RunQueueExecute env w scheduler entries g fs) (\<lambda>st.
     let st1 = (if rv_setscene_tids env = [] then no_setscene st else st)
     in Inr (st1\<lparr>x_rq := (x_rq st1)\<lparr>rx_state := runQueueRunning\<rparr>\<rparr>))"

end
