(* ===== verification/BB_Execute.thy ===== *)
theory BB_Execute
  imports BB_SceneInit
begin

text \<open>
  The execution of a run queue: \<^verbatim>\<open>RunQueueExecute.execute\<close> of \<^verbatim>\<open>lib/bb/runqueue.py\<close> with the methods it calls, and the part of \<^verbatim>\<open>RunQueue._execute_runqueue\<close>
  that calls it until the queue is done. One call of \<open>execute\<close> starts at most one setscene task and one task.
\<close>

section \<open>What a worker is told about the dependencies\<close>

definition filtermcdeps :: "string \<Rightarrow> string list \<Rightarrow> string list" where
  "filtermcdeps mc deps = filter (\<lambda>dep. mc_from_tid dep = mc) deps"

definition depdata_step ::
    "'g rqenv \<Rightarrow> rtentries \<Rightarrow> (string \<Rightarrow> string \<Rightarrow> string list result) \<Rightarrow> string \<Rightarrow> (string, depdata) dict \<times> string list \<Rightarrow>
     ((string, depdata) dict \<times> string list) result" where
  "depdata_step env entries getdeps revdep p =
     (case p of (taskdepdata, additional) \<Rightarrow>
        rbind (split_tid_mcfn revdep) (\<lambda>(mc, fn, taskname, taskfn).
        rbind (dict_lookup (rv_dataCaches env) mc) (\<lambda>dc.
        rbind (dict_lookup (dc_pkg_fn dc) taskfn) (\<lambda>pn.
        rbind (getdeps mc revdep) (\<lambda>deps.
        rbind (dict_lookup (dc_fn_provides dc) taskfn) (\<lambda>provides.
        rbind (dict_lookup entries revdep) (\<lambda>e.
        let data = dict_set revdep \<lparr>dd_pn = pn, dd_taskname = taskname, dd_fn = fn, dd_deps = deps, dd_provides = provides,
                                    dd_hash = re_hash e, dd_unihash = re_unihash e\<rparr> taskdepdata
        in Inr (data, additional @ filter (\<lambda>d. \<not> has_key data d) deps))))))))"

text \<open>Every round but the last two enters a new task, which bounds the rounds.\<close>

fun depdata_loop ::
    "nat \<Rightarrow> 'g rqenv \<Rightarrow> rtentries \<Rightarrow> (string \<Rightarrow> string \<Rightarrow> string list result) \<Rightarrow> string list \<Rightarrow> (string, depdata) dict \<Rightarrow> (string, depdata) dict result" where
  "depdata_loop 0 env entries getdeps todo data = (if todo = [] then Inr data else Inl RuntimeError)"
| "depdata_loop (Suc n) env entries getdeps todo data =
     (if todo = [] then Inr data
      else rbind (rfold (depdata_step env entries getdeps) todo (data, [])) (\<lambda>(data', additional).
           depdata_loop n env entries getdeps additional data'))"

definition build_taskdepdata :: "'g rqenv \<Rightarrow> rtentries \<Rightarrow> string \<Rightarrow> (string, depdata) dict result" where
  "build_taskdepdata env entries task =
     rbind (dict_lookup entries task) (\<lambda>e.
     depdata_loop (length entries + 2) env entries
       (\<lambda>mc revdep. rbind (dict_lookup entries revdep) (\<lambda>e. Inr (filtermcdeps mc (re_depends e))))
       (filtermcdeps (mc_from_tid task) (add_new task (re_depends e))) [])"

definition setscene_dep :: "taskdata \<Rightarrow> string \<times> string \<Rightarrow> string list \<Rightarrow> string list result" where
  "setscene_dep td q deps =
     (case map_of (td_build_targets td) (fst q) of
        None \<Rightarrow> Inr deps
      | Some fns \<Rightarrow> rbind (first_of fns) (\<lambda>depfn. Inr (add_new (depfn @ '':'' @ str_replace ''_setscene'' [] (snd q)) deps)))"

definition getsetscenedeps :: "'g rqenv \<Rightarrow> string \<Rightarrow> string list result" where
  "getsetscenedeps env tid =
     rbind (split_tid_mcfn tid) (\<lambda>(mc, fn, taskname, _).
     rbind (dict_lookup (rv_taskData env) mc) (\<lambda>td.
     rbind (dict_lookup (td_taskentries td) (tid @ ''_setscene'')) (\<lambda>te.
     rfold (setscene_dep td) (te_idepends te) [])))"

definition sq_build_taskdepdata :: "'g rqenv \<Rightarrow> rtentries \<Rightarrow> string \<Rightarrow> (string, depdata) dict result" where
  "sq_build_taskdepdata env entries task =
     rbind (getsetscenedeps env task) (\<lambda>deps.
     depdata_loop (length entries + 2) env entries (\<lambda>mc. getsetscenedeps env) (add_new task deps) [])"

section \<open>Tasks that have to wait for the setscene queue\<close>

definition add_covered_tasks :: "sqdata \<Rightarrow> string \<Rightarrow> string list \<Rightarrow> string list result" where
  "add_covered_tasks d tid acc = rbind (dict_lookup (sq_covered_tasks d) tid) (\<lambda>ts. Inr (union_new acc ts))"

definition release_task :: "string \<Rightarrow> 'g rqexe \<Rightarrow> 'g rqexe result" where
  "release_task tid rx =
     rbind (dict_lookup (rx_entries rx) tid) (\<lambda>e.
     Inr (if set (re_depends e) \<subseteq> set (rx_complete rx) then setbuildable tid rx else rx))"

definition holdoff_covered :: "sqdata \<Rightarrow> 'g rqexe \<Rightarrow> string \<Rightarrow> string list \<Rightarrow> string list result" where
  "holdoff_covered d rx tid acc =
     rbind (dict_lookup (sq_covered_tasks d) tid) (\<lambda>ts. Inr (union_new acc (set_minus ts (rx_complete rx))))"

definition update_holdofftasks :: "'g rqenv \<Rightarrow> 'g xstate \<Rightarrow> 'g xstate result" where
  "update_holdofftasks env st =
     (let sn = x_scene st; rx = x_rq st; d = sn_data sn; setscene = rv_setscene_tids env
      in if \<not> sn_need_update sn then Inr st
         else rbind (rfold (add_covered_tasks d) (sn_notcovered sn) (union_new (sn_notcovered sn) (sn_cantskip sn))) (\<lambda>nc.
              let notcovered = set_meet (union_new nc (set_minus (sq_unskippable d) setscene)) (sn_done sn)
              in rbind (rfold (add_covered_tasks d) (sn_covered sn) (sn_covered sn)) (\<lambda>cv.
                 let covered = set_meet (set_minus cv notcovered) (sn_done sn)
                 in rbind (rfold release_task (union_new notcovered covered) rx) (\<lambda>rx1.
                    let undecided = filter (\<lambda>tid. \<not> sq_decided sn tid) setscene
                    in rbind (rfold (holdoff_covered d rx1) undecided undecided) (\<lambda>holdoff.
                       Inr (st\<lparr>x_scene := sn\<lparr>sn_need_update := False\<rparr>,
                               x_rq := rx1\<lparr>rx_covered := covered, rx_notcovered := notcovered, rx_holdoff := holdoff\<rparr>\<rparr>))))))"

section \<open>Changed hashes\<close>

definition migrate_hash :: "'g rqenv \<Rightarrow> string \<times> string \<Rightarrow> 'g rqexe \<times> string list \<Rightarrow> ('g rqexe \<times> string list) result" where
  "migrate_hash env q p =
     (case (q, p) of ((tid, unihash), (rx, toprocess)) \<Rightarrow>
        if tid \<in> set (rx_running rx) \<and> tid \<notin> set (rx_complete rx) then Inr p
        else let rx1 = rx\<lparr>rx_updated := remove1 q (rx_updated rx)\<rparr>
             in rbind (dict_lookup (rx_entries rx1) tid) (\<lambda>e.
                if Some unihash = re_unihash e then Inr (rx1, toprocess)
                else Inr (rx1\<lparr>rx_entries := dict_set tid (e\<lparr>re_unihash := Some unihash\<rparr>) (rx_entries rx1),
                              rx_g := sg_set_unihash (rv_siggen env) tid unihash (rx_g rx1)\<rparr>, add_new tid toprocess)))"

definition add_revdeps :: "rtentries \<Rightarrow> string \<Rightarrow> string list \<Rightarrow> string list result" where
  "add_revdeps entries tid acc = rbind (dict_lookup entries tid) (\<lambda>e. Inr (union_new acc (re_revdeps e)))"

fun migrate_closure :: "nat \<Rightarrow> rtentries \<Rightarrow> string list \<Rightarrow> string list \<Rightarrow> string list result" where
  "migrate_closure 0 entries todo affected = (if todo = [] then Inr affected else Inl RuntimeError)"
| "migrate_closure (Suc n) entries todo affected =
     (if todo = [] then Inr affected
      else let affected1 = union_new affected todo
           in rbind (rfold (add_revdeps entries) todo []) (\<lambda>new. migrate_closure n entries (set_minus new affected1) affected1))"

record 'g migration =
  mg_rx :: "'g rqexe"
  mg_total :: "string list"
  mg_next :: "string list"
  mg_changed :: "string list"

text \<open>
  One task of the inner loop. The condition on the number of dependencies is on the last task of an earlier loop (\<open>p\<close>), not on the one at hand.
\<close>

definition rehash_tid :: "'g rqenv \<Rightarrow> scene \<Rightarrow> string \<Rightarrow> string \<Rightarrow> 'g migration \<Rightarrow> 'g migration result" where
  "rehash_tid env sn p tid m =
     (let rx = mg_rx m; sg = rv_siggen env
      in rbind (dict_lookup (rx_entries rx) p) (\<lambda>ep.
         rbind (dict_lookup (rx_entries rx) tid) (\<lambda>e.
         if re_depends ep \<noteq> [] \<and> set (re_depends e) \<inter> set (mg_total m) \<noteq> {} then Inr m
         else rbind (sg_get_taskhash sg tid (re_depends e) (rv_dataCaches env) (rx_g rx)) (\<lambda>(newhash, g1).
              rbind (sg_get_unihash sg tid g1) (\<lambda>(newuni, g2).
              rbind (if Some newuni \<noteq> re_unihash e \<and> (tid \<in> set (sn_covered sn) \<or> tid \<in> set (sn_live sn))
                     then sg_report_unihash_equiv sg tid newhash (re_unihash e) newuni g2 else Inr g2) (\<lambda>g3.
              rbind (set_remove tid (mg_total m)) (\<lambda>affected.
              let remapped = (Some newuni = re_unihash e \<or> tid \<in> set (sn_covered sn) \<or> tid \<in> set (sn_live sn))
              in Inr (m\<lparr>mg_rx := rx\<lparr>rx_g := g3,
                                     rx_entries := (if remapped then rx_entries rx
                                                    else dict_set tid (e\<lparr>re_hash := Some newhash, re_unihash := Some newuni\<rparr>) (rx_entries rx))\<rparr>,
                        mg_changed := (if remapped then mg_changed m else add_new tid (mg_changed m)),
                        mg_total := affected, mg_next := set_meet (union_new (mg_next m) (re_revdeps e)) affected\<rparr>))))))))"

fun rehash_loop :: "nat \<Rightarrow> 'g rqenv \<Rightarrow> scene \<Rightarrow> string \<Rightarrow> 'g migration \<Rightarrow> 'g migration result" where
  "rehash_loop 0 env sn p m = (if mg_next m = [] then Inr m else Inl RuntimeError)"
| "rehash_loop (Suc n) env sn p m =
     (if mg_next m = [] then Inr m
      else rbind (rfold (rehash_tid env sn p) (mg_next m) (m\<lparr>mg_next := []\<rparr>)) (rehash_loop n env sn p))"

definition rehash :: "'g rqenv \<Rightarrow> scene \<Rightarrow> string list \<Rightarrow> 'g rqexe \<Rightarrow> ('g rqexe \<times> string list) result" where
  "rehash env sn affected rx =
     (let entries = rx_entries rx;
          start = filter (\<lambda>p. deps_of entries p = [] \<or> set (deps_of entries p) \<inter> set affected = {}) affected
      in if affected = [] then Inr (rx, [])
         else rbind (rehash_loop (length entries + 1) env sn (last affected)
                       \<lparr>mg_rx = rx, mg_total = affected, mg_next = start, mg_changed = []\<rparr>) (\<lambda>m. Inr (mg_rx m, mg_changed m)))"

text \<open>A setscene task whose hash changed goes back to the start, unless it or a task it covers is already running.\<close>

record 'g migration_pass =
  pn_st :: "'g xstate"
  pn_updates :: "(string \<times> bool) list"
  pn_changed :: bool
  pn_abort :: bool

fun reopen_covered :: "string \<Rightarrow> string list \<Rightarrow> 'g xstate \<Rightarrow> bool \<times> 'g xstate" where
  "reopen_covered tid [] st = (False, st)"
| "reopen_covered tid (dep # deps) st =
     (let rx = x_rq st; sn = x_scene st
      in if dep \<in> set (rx_complete rx) \<and> dep \<notin> set (rx_tasksrun rx)
         then (True, st\<lparr>x_rq := rx\<lparr>rx_failed := rx_failed rx @ [tid], rx_state := runQueueCleanUp\<rparr>\<rparr>)
         else reopen_covered tid deps
                (if dep \<notin> set (rx_complete rx) \<and> dep \<notin> set (sq_unskippable (sn_data sn))
                 then st\<lparr>x_scene := sn\<lparr>sn_done := removeAll dep (sn_done sn)\<rparr>\<rparr> else st))"

definition hard_failed :: "scene \<Rightarrow> string \<Rightarrow> bool" where
  "hard_failed sn tid \<longleftrightarrow> list_ex (\<lambda>(t, deps). tid \<in> set deps \<and> t \<in> set (sn_notcovered sn)) (sq_harddeps (sn_data sn))"

definition reset_scene :: "string \<Rightarrow> string list \<Rightarrow> string option \<Rightarrow> scene \<Rightarrow> scene" where
  "reset_scene tid revdeps stamp sn =
     (let d = sn_data sn;
          b1 = removeAll tid (sn_buildable sn);
          b2 = (if \<not> hard_failed sn tid \<and> list_all (sq_decided sn) revdeps then add_new tid b1 else b1);
          b3 = (if revdeps = [] then add_new tid b2 else b2)
      in sn\<lparr>sn_buildable := b3, sn_running := removeAll tid (sn_running sn), sn_notcovered := removeAll tid (sn_notcovered sn),
            sn_covered := removeAll tid (sn_covered sn), sn_notneeded := removeAll tid (sn_notneeded sn),
            sn_data := d\<lparr>sq_outrightfail := removeAll tid (sq_outrightfail d), sq_stamps := dict_set tid stamp (sq_stamps d)\<rparr>\<rparr>)"

definition migrate_tid :: "'g rqenv \<Rightarrow> string \<Rightarrow> 'g migration_pass \<Rightarrow> 'g migration_pass result" where
  "migrate_tid env tid m =
     (let st = pn_st m; rx = x_rq st; sn = x_scene st; d = sn_data sn; drop_pending = rx\<lparr>rx_pending := removeAll tid (rx_pending rx)\<rparr>
      in if pn_abort m then Inr m
         else if tid \<in> set (rx_running rx) \<or> tid \<in> set (sn_live sn) then Inr (m\<lparr>pn_st := st\<lparr>x_rq := drop_pending\<rparr>\<rparr>)
         else rbind (dict_lookup (sq_covered_tasks d) tid) (\<lambda>deps.
              if list_ex (\<lambda>dep. dep \<in> set (rx_running rx) \<and> dep \<notin> set (rx_complete rx)) deps then Inr m
              else case reopen_covered tid deps (st\<lparr>x_rq := drop_pending, x_scene := sn\<lparr>sn_done := removeAll tid (sn_done sn)\<rparr>\<rparr>) of
                     (True, st1) \<Rightarrow> Inr (m\<lparr>pn_st := st1, pn_changed := True, pn_abort := True\<rparr>)
                   | (False, st1) \<Rightarrow>
                       rbind (dict_lookup (sq_revdeps d) tid) (\<lambda>revdeps.
                       rbind (split_tid_mcfn tid) (\<lambda>(mc, fn, taskname, taskfn).
                       rbind (dict_lookup (rv_dataCaches env) mc) (\<lambda>dc.
                       rbind (stamp_internal (sg_stampfile (rv_siggen env) (rx_g rx)) (taskname @ ''_setscene'') dc taskfn True) (\<lambda>stamp.
                       let rx1 = x_rq st1; sn1 = x_scene st1
                       in Inr (m\<lparr>pn_st := st1\<lparr>x_scene := reset_scene tid revdeps stamp sn1,
                                    x_rq := rx1\<lparr>rx_stampcache := dict_del tid (rx_stampcache rx1),
                                                rx_build_stamps := dict_del tid (rx_build_stamps rx1)\<rparr>\<rparr>,
                                  pn_updates := pn_updates m @ [(tid, hard_failed sn1 tid)], pn_changed := True\<rparr>)))))))"

definition migrate_hashes :: "'g rqenv \<Rightarrow> 'g xstate \<Rightarrow> ('g rqexe \<times> string list) result" where
  "migrate_hashes env st =
     rbind (rfold (migrate_hash env) (rx_updated (x_rq st)) (x_rq st, [])) (\<lambda>(rx1, toprocess).
     rbind (rfold (add_revdeps (rx_entries rx1)) toprocess []) (\<lambda>next0.
     rbind (migrate_closure (length (rx_entries rx1) + 1) (rx_entries rx1) next0 []) (\<lambda>affected.
     rehash env (x_scene st) affected rx1)))"

definition conclude_migrations :: "'g rqenv \<Rightarrow> world \<Rightarrow> 'g migration_pass \<Rightarrow> 'g xstate result" where
  "conclude_migrations env w m =
     (if pn_abort m then Inr (pn_st m)
      else rbind (if pn_updates m = [] then Inr (pn_st m)
                  else update_scenequeue_data env w (map fst (pn_updates m))
                         ((pn_st m)\<lparr>x_rq := (x_rq (pn_st m))\<lparr>rx_sqdone := False\<rparr>\<rparr>)) (\<lambda>st1.
           rbind (rfold (\<lambda>(tid, hard) sn. if hard then sq_task_failoutright env (rx_entries (x_rq st1)) tid sn else Inr sn)
                    (pn_updates m) (x_scene st1)) (\<lambda>sn.
           Inr (st1\<lparr>x_scene := (if pn_changed m then sn\<lparr>sn_need_update := True\<rparr> else sn)\<rparr>))))"

definition process_possible_migrations :: "'g rqenv \<Rightarrow> world \<Rightarrow> 'g xstate \<Rightarrow> 'g xstate result" where
  "process_possible_migrations env w st =
     rbind (migrate_hashes env st) (\<lambda>(rx1, changed).
     let rx2 = rx1\<lparr>rx_pending := union_new (rx_pending rx1) (set_meet changed (rv_setscene_tids env))\<rparr>
     in rbind (rfold (migrate_tid env) (rx_pending rx2)
                 \<lparr>pn_st = st\<lparr>x_rq := rx2\<rparr>, pn_updates = [], pn_changed = (changed \<noteq> []), pn_abort = False\<rparr>) (conclude_migrations env w))"

section \<open>Choosing a setscene task\<close>

definition depdata_of :: "'g rqenv \<Rightarrow> string \<Rightarrow> (string, string \<times> string \<times> string) dict \<Rightarrow> (string, string \<times> string \<times> string) dict result" where
  "depdata_of env dep data =
     rbind (split_tid_mcfn dep) (\<lambda>(mc, fn, taskname, taskfn).
     rbind (dict_lookup (rv_dataCaches env) mc) (\<lambda>dc.
     rbind (dict_lookup (dc_pkg_fn dc) taskfn) (\<lambda>pn. Inr (dict_set dep (pn, taskname, fn) data))))"

definition check_dependencies :: "'g rqenv \<Rightarrow> world \<Rightarrow> scene \<Rightarrow> string \<Rightarrow> string list \<Rightarrow> bool result" where
  "check_dependencies env w sn task taskdeps =
     (if \<not> rv_depvalidate env then Inr False
      else rbind (rfold (depdata_of env) (add_new task taskdeps) []) (\<lambda>taskdata. w_depvalidate w task taskdata (sn_notneeded sn)))"

datatype scene_pick = NoScene | StartScene string | Returned

definition fail_scene :: "'g rqenv \<Rightarrow> string \<Rightarrow> 'g xstate \<Rightarrow> 'g xstate result" where
  "fail_scene env task st =
     rbind (sq_task_failoutright env (rx_entries (x_rq st)) task (x_scene st)) (\<lambda>sn. Inr (st\<lparr>x_scene := sn\<rparr>))"

text \<open>Is the task skipped because everything that needs it is already there?\<close>

definition scene_not_needed :: "'g rqenv \<Rightarrow> world \<Rightarrow> scene \<Rightarrow> string \<Rightarrow> bool result" where
  "scene_not_needed env w sn task =
     (if task \<in> set (sq_unskippable (sn_data sn)) then Inr False
      else rbind (dict_lookup (sq_revdeps (sn_data sn)) task) (\<lambda>revdeps.
           if revdeps = [] \<or> \<not> set revdeps \<subseteq> set (sn_covered sn) then Inr False
           else rbind (check_dependencies env w sn task revdeps) (\<lambda>valid. Inr (valid \<and> task \<notin> set (rv_target_tids env)))))"

text \<open>
  A candidate that is buildable, not started and whose stamp is not in use; \<open>None\<close> goes on with the next one. The loop of the source over the covered tasks only
  continues itself, so it does nothing but read the table.
\<close>

definition deferred_scene :: "'g rqenv \<Rightarrow> world \<Rightarrow> string \<Rightarrow> 'g xstate \<Rightarrow> (scene_pick option \<times> 'g xstate) result" where
  "deferred_scene env w task st =
     (let sn = x_scene st; d = sn_data sn
      in if task \<in> set (sq_outrightfail d) then rbind (fail_scene env task st) (\<lambda>st1. Inr (Some Returned, st1))
         else Inr (Some (StartScene task), st))"

definition consider_scene :: "'g rqenv \<Rightarrow> world \<Rightarrow> string \<Rightarrow> 'g xstate \<Rightarrow> (scene_pick option \<times> 'g xstate) result" where
  "consider_scene env w task st =
     rbind (scene_not_needed env w (x_scene st) task) (\<lambda>skip.
     if skip
     then rbind (skip_scene env task st) (\<lambda>st1.
          Inr (Some Returned, st1\<lparr>x_scene := (x_scene st1)\<lparr>sn_notneeded := add_new task (sn_notneeded (x_scene st1)),
                                     sn_deferred := dict_del task (sn_deferred (x_scene st1))\<rparr>\<rparr>))
     else rbind (dict_lookup (sq_covered_tasks (sn_data (x_scene st))) task) (\<lambda>_.
          case map_of (sn_deferred (x_scene st)) task of
            None \<Rightarrow> deferred_scene env w task st
          | Some other \<Rightarrow>
              if other \<notin> set (rx_complete (x_rq st)) then Inr (None, st)
              else let st1 = st\<lparr>x_scene := (x_scene st)\<lparr>sn_deferred := dict_del task (sn_deferred (x_scene st))\<rparr>\<rparr>
                   in rbind (validate_hashes env w (rx_entries (x_rq st1)) [task] 0) (\<lambda>valid.
                      if valid = [] then rbind (fail_scene env task st1) (\<lambda>st2. Inr (Some Returned, st2))
                      else rbind (set_remove task (sq_outrightfail (sn_data (x_scene st1)))) (\<lambda>ofail.
                           deferred_scene env w task (on_sqdata (\<lambda>d. d\<lparr>sq_outrightfail := ofail\<rparr>) st1)))))"

definition scene_startable :: "string \<Rightarrow> 'g xstate \<Rightarrow> bool result" where
  "scene_startable task st =
     (let sn = x_scene st
      in if task \<notin> set (sn_buildable sn) \<or> task \<in> set (sn_running sn) then Inr False
         else rbind (dict_lookup (sq_stamps (sn_data sn)) task) (\<lambda>stamp. Inr (stamp \<notin> set (map snd (rx_build_stamps (x_rq st))))))"

fun pick_setscene :: "'g rqenv \<Rightarrow> world \<Rightarrow> string list \<Rightarrow> 'g xstate \<Rightarrow> (scene_pick \<times> 'g xstate) result" where
  "pick_setscene env w [] st = Inr (NoScene, st)"
| "pick_setscene env w (task # tasks) st =
     rbind (scene_startable task st) (\<lambda>b.
     if \<not> b then pick_setscene env w tasks st
     else rbind (consider_scene env w task st) (\<lambda>(r, st1).
          case r of None \<Rightarrow> pick_setscene env w tasks st1 | Some p \<Rightarrow> Inr (p, st1)))"

section \<open>Starting tasks\<close>

text \<open>The message goes to the fakeroot worker of the multiconfig when the task asks for it.\<close>

definition needs_fakeroot :: "taskdeps \<Rightarrow> string \<Rightarrow> bool" where
  "needs_fakeroot taskdep taskname \<longleftrightarrow> task_flag taskdep ''fakeroot'' taskname \<noteq> None"

definition note_start :: "string \<Rightarrow> string option \<Rightarrow> 'g rqexe \<Rightarrow> 'g rqexe" where
  "note_start task stamp rx =
     rx\<lparr>rx_build_stamps := dict_set task stamp (rx_build_stamps rx), rx_build_stamps2 := rx_build_stamps2 rx @ [stamp]\<rparr>"

definition send_task :: "bool \<Rightarrow> string \<Rightarrow> string \<Rightarrow> string \<Rightarrow> string \<Rightarrow> bool \<Rightarrow> (string, depdata) dict \<Rightarrow> bool \<Rightarrow> runtaskentry \<Rightarrow> 'g rqexe \<Rightarrow> 'g rqexe" where
  "send_task fake mc taskfn task taskname setscene data quiet e rx =
     rx\<lparr>rx_fakeworkers := (if fake then add_new mc (rx_fakeworkers rx) else rx_fakeworkers rx),
        rx_sent := rx_sent rx @ [\<lparr>rt_fakeroot = fake, rt_mc = mc, rt_taskfn = taskfn, rt_task = task, rt_taskname = taskname, rt_hash = re_hash e,
          rt_unihash = re_unihash e, rt_setscene = setscene, rt_depdata = data, rt_quieterrors = quiet\<rparr>]\<rparr>"

definition start_setscene :: "'g rqenv \<Rightarrow> world \<Rightarrow> string \<Rightarrow> string \<Rightarrow> string \<Rightarrow> string \<Rightarrow> 'g xstate \<Rightarrow> 'g xstate result" where
  "start_setscene env w task mc taskname taskfn st =
     (let rx = x_rq st; sn = x_scene st
      in rbind (sq_build_taskdepdata env (rx_entries rx) task) (\<lambda>data.
         rbind (dict_lookup (rv_dataCaches env) mc) (\<lambda>dc.
         rbind (dict_lookup (dc_task_deps dc) taskfn) (\<lambda>taskdep.
         rbind (dict_lookup (rx_entries rx) task) (\<lambda>e.
         let fake = (needs_fakeroot taskdep taskname \<and> \<not> rv_dry_run env)
         in if fake \<and> mc \<notin> set (rx_fakeworkers rx) \<and> \<not> w_fakeworker w mc then Inl (PyException ''OSError'')
            else rbind (stamp_internal (sg_stampfile (rv_siggen env) (rx_g rx)) taskname dc taskfn True) (\<lambda>stamp.
                 Inr (st\<lparr>x_rq := note_start task stamp (send_task fake mc taskfn task taskname True data False e rx),
                         x_scene := sn\<lparr>sn_running := add_new task (sn_running sn), sn_live := add_new task (sn_live sn),
                                       sn_stats := taskActive (sn_stats sn)\<rparr>\<rparr>)))))))"

text \<open>The result says whether the call of \<open>execute\<close> returns at this point.\<close>

definition run_setscene :: "'g rqenv \<Rightarrow> world \<Rightarrow> string \<Rightarrow> 'g xstate \<Rightarrow> (bool \<times> 'g xstate) result" where
  "run_setscene env w task st =
     rbind (split_tid_mcfn task) (\<lambda>(mc, fn, taskname0, taskfn).
     let taskname = taskname0 @ ''_setscene'' in
     rbind (taskname_from_tid task) (\<lambda>tn.
     rbind (stamp_current env task tn True (x_rq st)) (\<lambda>(b1, rx1).
     let st1 = st\<lparr>x_rq := rx1\<rparr>
     in if b1 then rbind (fail_scene env task st1) (\<lambda>st2. Inr (True, st2))
        else if rv_force env \<and> task \<in> set (rv_target_tids env) then rbind (fail_scene env task st1) (\<lambda>st2. Inr (True, st2))
        else rbind (stamp_current env task taskname False rx1) (\<lambda>(b2, rx2).
             let st2 = st1\<lparr>x_rq := rx2\<rparr>
             in if b2 then rbind (skip_scene env task st2) (\<lambda>st3. Inr (True, st3))
                else if rv_skipsetscene env then rbind (fail_scene env task st2) (\<lambda>st3. Inr (True, st3))
                else rbind (start_setscene env w task mc taskname taskfn st2) (\<lambda>st3. Inr (can_start_task env st3, st3))))))"

definition check_setscenewhitelist :: "'g rqenv \<Rightarrow> string \<Rightarrow> 'g rqexe \<Rightarrow> (bool \<times> 'g rqexe) result" where
  "check_setscenewhitelist env tid rx =
     rbind (split_tid_mcfn tid) (\<lambda>(mc, fn, taskname, taskfn).
     if tid \<in> set (rx_covered rx) then Inr (False, rx)
     else rbind (stamp_current env tid taskname False rx) (\<lambda>(b, rx1).
          if b then Inr (False, rx1)
          else rbind (dict_lookup (rv_dataCaches env) mc) (\<lambda>dc.
               rbind (dict_lookup (dc_task_deps dc) taskfn) (\<lambda>taskdep.
               if task_flag taskdep ''noexec'' taskname \<noteq> None then Inr (False, rx1)
               else rbind (dict_lookup (dc_pkg_fn dc) taskfn) (\<lambda>pn.
                    rbind (check_setscene_enforce_whitelist pn taskname (rv_setscenewhitelist env)) (\<lambda>ok.
                    Inr (\<not> ok, rx1)))))))"

definition start_task :: "'g rqenv \<Rightarrow> world \<Rightarrow> string \<Rightarrow> string \<Rightarrow> string \<Rightarrow> string \<Rightarrow> cachedata \<Rightarrow> taskdeps \<Rightarrow> 'g xstate \<Rightarrow> (bool \<times> 'g xstate) result" where
  "start_task env w task mc taskname taskfn dc taskdep st =
     (let rx = x_rq st
      in rbind (build_taskdepdata env (rx_entries rx) task) (\<lambda>data.
         rbind (dict_lookup (rx_entries rx) task) (\<lambda>e.
         let fake = (needs_fakeroot taskdep taskname \<and> \<not> (rv_dry_run env \<or> rv_setscene_enforce env))
         in if fake \<and> mc \<notin> set (rx_fakeworkers rx) \<and> \<not> w_fakeworker w mc
            then Inr (True, st\<lparr>x_rq := rx\<lparr>rx_state := runQueueFailed, rx_stats := taskFailed (rx_stats rx)\<rparr>\<rparr>)
            else rbind (stamp_internal (sg_stampfile (rv_siggen env) (rx_g rx)) taskname dc taskfn True) (\<lambda>stamp.
                 let rx1 = note_start task stamp (send_task fake mc taskfn task taskname False data (rv_setscene_enforce env) e rx);
                     st1 = st\<lparr>x_rq := rx1\<lparr>rx_running := add_new task (rx_running rx1), rx_stats := taskActive (rx_stats rx1)\<rparr>\<rparr>
                 in Inr (can_start_task env st1, st1)))))"

definition run_noexec :: "'g rqenv \<Rightarrow> world \<Rightarrow> string \<Rightarrow> string \<Rightarrow> cachedata \<Rightarrow> string \<Rightarrow> 'g rqexe \<Rightarrow> 'g rqexe result" where
  "run_noexec env w task taskname dc taskfn rx =
     (let rx1 = rx\<lparr>rx_running := add_new task (rx_running rx), rx_stats := taskActive (rx_stats rx)\<rparr>
      in rbind (if rv_dry_run env \<or> rv_setscene_enforce env then Inr rx1 else write_stamp env w taskname dc taskfn rx1) (task_complete task))"

definition run_task :: "'g rqenv \<Rightarrow> world \<Rightarrow> string \<Rightarrow> 'g xstate \<Rightarrow> (bool \<times> 'g xstate) result" where
  "run_task env w task st =
     rbind (split_tid_mcfn task) (\<lambda>(mc, fn, taskname, taskfn).
     rbind (if rv_setscenewhitelist env = None then Inr (False, x_rq st) else check_setscenewhitelist env task (x_rq st)) (\<lambda>(bad, rx0).
     let on = (\<lambda>r. rbind r (\<lambda>rx. Inr (True, st\<lparr>x_rq := rx\<rparr>)))
     in if bad then on (task_fail env task rx0)
        else if task \<in> set (rx_covered rx0) then on (task_skip task rx0)
        else rbind (stamp_current env task taskname False rx0) (\<lambda>(b, rx1).
             if b then on (rbind (task_skip task rx1) (\<lambda>rx2. Inr (rx2\<lparr>rx_tasksrun := add_new task (rx_tasksrun rx2)\<rparr>)))
             else rbind (dict_lookup (rv_dataCaches env) mc) (\<lambda>dc.
                  rbind (dict_lookup (dc_task_deps dc) taskfn) (\<lambda>taskdep.
                  if task_flag taskdep ''noexec'' taskname \<noteq> None then on (run_noexec env w task taskname dc taskfn rx1)
                  else start_task env w task mc taskname taskfn dc taskdep (st\<lparr>x_rq := rx1\<rparr>))))))"

section \<open>The end of the queues\<close>

definition summarise_scenequeue_errors :: "'g rqenv \<Rightarrow> 'g xstate \<Rightarrow> bool" where
  "summarise_scenequeue_errors env st =
     (let sn = x_scene st; rx = x_rq st
      in sn_deferred sn \<noteq> [] \<or> rx_updated rx \<noteq> [] \<or> rx_holdoff rx \<noteq> [] \<or>
         list_ex (\<lambda>tid. \<not> sq_decided sn tid \<or> tid \<notin> set (sn_buildable sn) \<or> tid \<notin> set (sn_running sn)) (rv_setscene_tids env) \<or>
         list_ex (\<lambda>(x, e). x \<notin> set (rx_covered rx) \<and> x \<notin> set (rx_notcovered rx) \<or> x \<notin> set (sn_done sn) \<or>
                           re_depends e = [] \<and> x \<notin> set (rx_buildable rx)) (rx_entries rx))"

definition sanity_errors :: "'g xstate \<Rightarrow> bool" where
  "sanity_errors st =
     (let rx = x_rq st
      in list_ex (\<lambda>task. task \<notin> set (rx_buildable rx) \<or> task \<notin> set (rx_running rx) \<or> task \<notin> set (rx_complete rx)) (dict_keys (rx_entries rx)))"

definition set_state :: "rqstate \<Rightarrow> 'g xstate \<Rightarrow> 'g xstate" where
  "set_state s st = st\<lparr>x_rq := (x_rq st)\<lparr>rx_state := s\<rparr>\<rparr>"

text \<open>The return values of \<open>execute\<close> and \<open>finish\<close>; \<^verbatim>\<open>active_fds\<close> is the list of the workers whose pipes are to be watched.\<close>

datatype retval = RTrue | RFalse | RFds "(bool \<times> string) list"

definition active_fds :: "'g rqenv \<Rightarrow> 'g xstate \<Rightarrow> retval" where
  "active_fds env st = RFds (map (Pair False) (dict_keys (rv_dataCaches env)) @ map (Pair True) (rx_fakeworkers (x_rq st)))"

definition scene_finished :: "'g xstate \<Rightarrow> bool" where
  "scene_finished st \<longleftrightarrow> sn_live (x_scene st) = [] \<and> \<not> rx_sqdone (x_rq st) \<and> sn_deferred (x_scene st) = [] \<and>
     rx_updated (x_rq st) = [] \<and> rx_holdoff (x_rq st) = []"

definition end_scene :: "'g rqenv \<Rightarrow> 'g xstate \<Rightarrow> bool \<times> 'g xstate" where
  "end_scene env st =
     (if \<not> scene_finished st then (False, st)
      else if summarise_scenequeue_errors env st then (True, set_state runQueueFailed st)
      else if rv_setsceneonly env then (True, set_state runQueueComplete st)
      else let st1 = st\<lparr>x_rq := (x_rq st)\<lparr>rx_sqdone := True\<rparr>\<rparr>
           in if st_total (rx_stats (x_rq st1)) = 0 then (True, set_state runQueueComplete st1) else (False, st1))"

definition sched_view :: "'g rqenv \<Rightarrow> 'g xstate \<Rightarrow> rq_view" where
  "sched_view env st =
     (let rx = x_rq st
      in \<lparr>rq_running = rx_running rx, rq_complete = rx_complete rx, rq_holdoff = rx_holdoff rx, rq_covered = rx_covered rx,
          rq_notcovered = rx_notcovered rx, rq_build_stamps = rx_build_stamps rx, rq_number_threads = rv_number_threads env,
          rq_can_start = can_start_task env st\<rparr>)"

definition next_task :: "'g rqenv \<Rightarrow> 'g xstate \<Rightarrow> (string option \<times> 'g xstate) result" where
  "next_task env st =
     (if rv_setsceneonly env then Inr (None, st)
      else rbind (sched_next (rx_entries (x_rq st)) (sched_view env st) (rx_sched (x_rq st))) (\<lambda>(t, sc).
           Inr (t, st\<lparr>x_rq := (x_rq st)\<lparr>rx_sched := sc\<rparr>\<rparr>)))"

text \<open>\<^verbatim>\<open>pop\<close> gives the value of the first entry, which is the task the deferred one waits for.\<close>

definition no_more_tasks :: "'g rqenv \<Rightarrow> world \<Rightarrow> 'g xstate \<Rightarrow> (retval \<times> 'g xstate) result" where
  "no_more_tasks env w st =
     (if st_active (rx_stats (x_rq st)) > 0 \<or> st_active (sn_stats (x_scene st)) > 0
      then rbind (read_workers env (w_waiting w) st) (\<lambda>st1. Inr (active_fds env st1, st1))
      else case sn_deferred (x_scene st) of
             (key, tid) # rest \<Rightarrow>
               rbind (fail_scene env tid (st\<lparr>x_scene := (x_scene st)\<lparr>sn_deferred := rest\<rparr>\<rparr>)) (\<lambda>st1. Inr (RTrue, st1))
           | [] \<Rightarrow>
               if rx_failed (x_rq st) \<noteq> [] then Inr (RTrue, set_state runQueueFailed st)
               else if summarise_scenequeue_errors env st \<or> sanity_errors st then Inr (RTrue, set_state runQueueFailed st)
               else Inr (RTrue, set_state runQueueComplete st))"

definition execute_tasks :: "'g rqenv \<Rightarrow> world \<Rightarrow> 'g xstate \<Rightarrow> (retval \<times> 'g xstate) result" where
  "execute_tasks env w st =
     rbind (update_holdofftasks env st) (\<lambda>st1.
     case end_scene env st1 of
       (True, st2) \<Rightarrow> Inr (RTrue, st2)
     | (False, st2) \<Rightarrow>
         rbind (next_task env st2) (\<lambda>(task, st3).
         case task of
           None \<Rightarrow> no_more_tasks env w st3
         | Some t \<Rightarrow> rbind (run_task env w t st3) (\<lambda>(returned, st4). if returned then Inr (RTrue, st4) else no_more_tasks env w st4)))"

definition execute_scene :: "'g rqenv \<Rightarrow> world \<Rightarrow> 'g xstate \<Rightarrow> (scene_pick \<times> 'g xstate) result" where
  "execute_scene env w st =
     (if \<not> rx_sqdone (x_rq st) \<and> can_start_task env st then pick_setscene env w (sort (rv_setscene_tids env)) st else Inr (NoScene, st))"

definition execute :: "'g rqenv \<Rightarrow> world \<Rightarrow> 'g xstate \<Rightarrow> (retval \<times> 'g xstate) result" where
  "execute env w st =
     rbind (read_workers env (w_first w) st) (\<lambda>st1.
     rbind (if rx_updated (x_rq st1) \<noteq> [] \<or> rx_pending (x_rq st1) \<noteq> [] then process_possible_migrations env w st1 else Inr st1) (\<lambda>st2.
     rbind (execute_scene env w st2) (\<lambda>(p, st3).
     case p of
       Returned \<Rightarrow> Inr (RTrue, st3)
     | NoScene \<Rightarrow> execute_tasks env w st3
     | StartScene task \<Rightarrow>
         rbind (run_setscene env w task st3) (\<lambda>(returned, st4). if returned then Inr (RTrue, st4) else execute_tasks env w st4))))"

definition finish :: "'g rqenv \<Rightarrow> world \<Rightarrow> 'g xstate \<Rightarrow> (retval \<times> 'g xstate) result" where
  "finish env w st =
     (let st1 = set_state runQueueCleanUp st
      in if st_active (rx_stats (x_rq st1)) + st_active (sn_stats (x_scene st1)) > 0
         then rbind (read_workers env (w_finishing w) st1) (\<lambda>st2. Inr (active_fds env st2, st2))
         else Inr (RTrue, set_state (if rx_failed (x_rq st1) \<noteq> [] then runQueueFailed else runQueueComplete) st1))"

text \<open>
  \<^verbatim>\<open>_execute_runqueue\<close> once the object exists: \<open>Inl\<close> of the inner result is the exception \<^verbatim>\<open>TaskFailure\<close> with the tasks that failed.
\<close>

definition run_stages :: "'g rqenv \<Rightarrow> world \<Rightarrow> 'g xstate \<Rightarrow> (retval \<times> 'g xstate) result" where
  "run_stages env w st =
     rbind (if rx_state (x_rq st) = runQueueRunning then execute env w st else Inr (RTrue, st)) (\<lambda>(r1, st1).
     if rx_state (x_rq st1) = runQueueCleanUp then finish env w st1 else Inr (r1, st1))"

definition execute_runqueue :: "'g rqenv \<Rightarrow> world \<Rightarrow> 'g xstate \<Rightarrow> ((string list + retval) \<times> 'g xstate) result" where
  "execute_runqueue env w st =
     rbind (run_stages env w st) (\<lambda>(r, st1).
     Inr (case rx_state (x_rq st1) of
            runQueueFailed \<Rightarrow> Inl (rx_failed (x_rq st1))
          | runQueueComplete \<Rightarrow> Inr RFalse
          | _ \<Rightarrow> Inr r, st1))"

definition finish_runqueue :: "'g rqenv \<Rightarrow> world \<Rightarrow> bool \<Rightarrow> 'g xstate \<Rightarrow> 'g xstate result" where
  "finish_runqueue env w now st = (if now then Inr (finish_now st) else rbind (finish env w st) (\<lambda>(r, st1). Inr st1))"

end
