(* ===== verification/BB_ExecSample.thy ===== *)
theory BB_ExecSample
  imports BB_Execute
begin

text \<open>
  A small build on which the theorems about the execution are tried: a recipe with two tasks, of which the second needs the first, and the first has a setscene task.
\<close>

definition mini_siggen :: "unit xsiggen" where
  "mini_siggen = \<lparr>sg_invalidate = (\<lambda>_ _ _ g. Inr g), sg_tasks_resolved = (\<lambda>_ _ _ g. Inr g), sg_set_setscene_tasks = (\<lambda>_ g. g),
    sg_prep_taskhash = (\<lambda>_ _ _ g. Inr g), sg_get_taskhash = (\<lambda>t _ _ g. Inr (t, g)), sg_get_unihash = (\<lambda>t g. Inr (t, g)),
    sg_stampfile = (\<lambda>_ stamp fn task extra. stamp @ ''.'' @ task), sg_stampcleanmask = (\<lambda>_ stamp fn task extra. stamp @ ''.'' @ task @ ''*''),
    sg_set_unihash = (\<lambda>_ _ g. g), sg_report_unihash_equiv = (\<lambda>_ _ _ _ g. Inr g)\<rparr>"

definition mini_cache :: cachedata where
  "mini_cache = CacheData\<lparr>dc_stamp := [(''a'', ''s'')], dc_stampclean := [(''a'', ''s'')], dc_stamp_extrainfo := [(''a'', [])],
     dc_task_deps := [(''a'', \<lparr>tk_tasks = [], tk_parents = [], tk_flags = []\<rparr>)], dc_pkg_fn := [(''a'', ''a'')], dc_fn_provides := [(''a'', [''a''])],
     dc_hashfn := [(''a'', ''h'')]\<rparr>"

definition mini_entries :: rtentries where
  "mini_entries = [(''a:do_x'', RunTaskEntry\<lparr>re_depends := [''a:do_y''], re_hash := Some ''1'', re_unihash := Some ''1''\<rparr>),
     (''a:do_y'', RunTaskEntry\<lparr>re_revdeps := [''a:do_x''], re_hash := Some ''2'', re_unihash := Some ''2''\<rparr>)]"

definition mini_taskdata :: taskdata where
  "mini_taskdata = (TaskData True [] False)\<lparr>td_taskentries := [(''a:do_y_setscene'', TaskEntry)]\<rparr>"

definition mini_env :: "string list \<Rightarrow> unit rqenv" where
  "mini_env setscene = \<lparr>rv_dataCaches = [([], mini_cache)], rv_taskData = [([], mini_taskdata)], rv_setscene_tids = setscene, rv_target_tids = [''a:do_x''],
     rv_stamppolicy = ''perfile'', rv_stampfnwhitelist = [], rv_setscenewhitelist = None, rv_setscene_enforce = False, rv_number_tasks = 2, rv_number_threads = (\<lambda>_. None),
     rv_hashvalidate = True, rv_depvalidate = False, rv_force = False, rv_skipsetscene = False, rv_setsceneonly = False, rv_dry_run = False, rv_siggen = mini_siggen\<rparr>"

definition mini_world :: world where
  "mini_world = \<lparr>w_now = 3, w_hashvalidate = (\<lambda>sd _. Inr (map fst (sh_hash sd))), w_depvalidate = (\<lambda>_ _ _. Inr False), w_fakeworker = (\<lambda>_. True),
     w_first = [], w_waiting = [], w_finishing = []\<rparr>"

text \<open>The states of the build with the given setscene tasks, after the start and after each call.\<close>

definition mini_start :: "string list \<Rightarrow> unit xstate result" where
  "mini_start setscene = scene_init (mini_env setscene) mini_world ''speed'' mini_entries () []"

definition mini_execute :: "string list \<Rightarrow> unit xstate result \<Rightarrow> unit xstate result" where
  "mini_execute setscene r = rbind r (\<lambda>st. rbind (execute (mini_env setscene) mini_world st) (\<lambda>(_, st'). Inr st'))"

definition mini_exit :: "string list \<Rightarrow> string \<Rightarrow> int \<Rightarrow> unit xstate result \<Rightarrow> unit xstate result" where
  "mini_exit setscene task status r = rbind r (worker_message (mini_env setscene) (Exitcode task status))"

text \<open>The setscene task is started and succeeds, its task is skipped and the other one is started.\<close>

definition mini_setscene :: "string list" where
  "mini_setscene = [''a:do_y'']"

definition mini_fetching :: "unit xstate result" where
  "mini_fetching = mini_execute mini_setscene (mini_start mini_setscene)"

definition mini_fetched :: "unit xstate result" where
  "mini_fetched = mini_exit mini_setscene ''a:do_y'' 0 mini_fetching"

definition mini_skipped :: "unit xstate result" where
  "mini_skipped = mini_execute mini_setscene mini_fetched"

definition mini_working :: "unit xstate result" where
  "mini_working = mini_execute mini_setscene mini_skipped"

text \<open>The other task succeeds and the build ends.\<close>

definition mini_worked :: "unit xstate result" where
  "mini_worked = mini_exit mini_setscene ''a:do_x'' 0 mini_working"

definition mini_complete :: "unit xstate result" where
  "mini_complete = mini_execute mini_setscene mini_worked"

lemma mini_graph: "graph_ok mini_entries"
  by code_simp

definition holds_of :: "('s \<Rightarrow> bool) \<Rightarrow> 's result \<Rightarrow> bool" where
  "holds_of P r = (case r of Inl _ \<Rightarrow> False | Inr st \<Rightarrow> P st)"

lemma holds_of_Inr: "holds_of P r \<longleftrightarrow> (\<exists>st. r = Inr st \<and> P st)"
  by (cases r) (simp_all add: holds_of_def)

definition mini_is_running :: "unit xstate \<Rightarrow> bool" where
  "mini_is_running st \<longleftrightarrow> rx_state (x_rq st) = runQueueRunning"

lemma mini_states:
  "holds_of mini_is_running (mini_start mini_setscene)"
  "holds_of (\<lambda>st. ''a:do_y'' \<in> set (sn_live (x_scene st))) mini_fetching"
  "holds_of mini_is_running mini_fetched" "holds_of mini_is_running mini_skipped"
  "holds_of (\<lambda>st. ''a:do_x'' \<in> set (rx_running (x_rq st))) mini_working"
  by code_simp+

end
