(* ===== verification/BB_ExecOrder.thy ===== *)
theory BB_ExecOrder
  imports BB_ExecSample
begin

text \<open>
  What the methods of \<open>BB_Execute\<close> change, the steps of an execution, and the order in which tasks start: a task runs only when everything it depends on has completed.
\<close>

section \<open>Changes of the single methods\<close>

definition deps_met :: "rtentries \<Rightarrow> string list \<Rightarrow> string \<Rightarrow> bool" where
  "deps_met entries complete t \<longleftrightarrow> set (deps_of entries t) \<subseteq> set complete"

lemma deps_met_add [simp]: "deps_met entries complete t \<Longrightarrow> deps_met entries (add_new u complete) t"
  by (auto simp: deps_met_def)

text \<open>Making tasks buildable, all of whose dependencies are complete.\<close>

definition releases :: "'g rqexe \<Rightarrow> 'g rqexe \<Rightarrow> bool" where
  "releases rx rx' \<longleftrightarrow> (\<exists>ts. rx' = fold setbuildable ts rx \<and> (\<forall>t \<in> set ts. deps_met (rx_entries rx) (rx_complete rx) t))"

lemma fold_setbuildable:
  "fold setbuildable ts rx = rx\<lparr>rx_buildable := union_new (rx_buildable rx) ts,
     rx_sched := (rx_sched rx)\<lparr>sc_buildable := union_new (sc_buildable (rx_sched rx)) ts\<rparr>\<rparr>"
  by (induction ts arbitrary: rx) (simp_all add: setbuildable_def newbuildable_def)

lemma releases_refl [simp]: "releases rx rx"
  unfolding releases_def by (intro exI [of _ "[]"]) simp

lemma releases_trans: "releases rx rx' \<Longrightarrow> releases rx' rx'' \<Longrightarrow> releases rx rx''"
proof -
  assume "releases rx rx'" "releases rx' rx''"
  then obtain ts us where t: "rx' = fold setbuildable ts rx" "\<forall>t \<in> set ts. deps_met (rx_entries rx) (rx_complete rx) t"
    and u: "rx'' = fold setbuildable us rx'" "\<forall>t \<in> set us. deps_met (rx_entries rx') (rx_complete rx') t"
    unfolding releases_def by blast
  have "rx'' = fold setbuildable (ts @ us) rx" using t(1) u(1) by simp
  moreover have "\<forall>t \<in> set (ts @ us). deps_met (rx_entries rx) (rx_complete rx) t"
    using t u unfolding fold_setbuildable by auto
  ultimately show ?thesis unfolding releases_def by blast
qed

lemma releases_one: "deps_met (rx_entries rx) (rx_complete rx) t \<Longrightarrow> releases rx (setbuildable t rx)"
  unfolding releases_def by (intro exI [of _ "[t]"]) simp

lemma releases_rfold: "rfold f ts rx = Inr rx' \<Longrightarrow> (\<And>t r r'. f t r = Inr r' \<Longrightarrow> releases r r') \<Longrightarrow> releases rx rx'"
  by (rule rfold_invariant [where I = "releases rx"]) (auto intro: releases_trans)

lemma release_revdep_releases:
  assumes "release_revdep t rx = Inr rx'"
  shows "releases rx rx'"
proof (cases "rx' = rx")
  case False
  with assms obtain e where "map_of (rx_entries rx) t = Some e" "\<forall>d \<in> set (re_depends e). d \<in> set (rx_complete rx)" "rx' = setbuildable t rx"
    by (auto simp: release_revdep_def list_all_iff split: if_splits)
  then show ?thesis by (simp add: releases_one deps_of_def deps_met_def subset_iff)
qed simp

lemma release_task_releases:
  assumes "release_task t rx = Inr rx'"
  shows "releases rx rx'"
proof (cases "rx' = rx")
  case False
  with assms obtain e where "map_of (rx_entries rx) t = Some e" "set (re_depends e) \<subseteq> set (rx_complete rx)" "rx' = setbuildable t rx"
    by (auto simp: release_task_def split: if_splits)
  then show ?thesis by (simp add: deps_of_def deps_met_def releases_one)
qed simp

lemma completeoutright_releases:
  "task_completeoutright t rx = Inr rx' \<Longrightarrow> releases (rx\<lparr>rx_complete := add_new t (rx_complete rx)\<rparr>) rx'"
  by (auto simp: task_completeoutright_def Let_def intro: releases_rfold release_revdep_releases)

text \<open>The fields a release leaves alone.\<close>

lemma releases_fields:
  assumes "releases rx rx'"
  shows "rx_entries rx' = rx_entries rx" "rx_running rx' = rx_running rx" "rx_complete rx' = rx_complete rx" "rx_failed rx' = rx_failed rx"
    "rx_stats rx' = rx_stats rx" "rx_state rx' = rx_state rx" "rx_updated rx' = rx_updated rx" "rx_pending rx' = rx_pending rx"
    "rx_build_stamps rx' = rx_build_stamps rx" "rx_build_stamps2 rx' = rx_build_stamps2 rx" "rx_sqdone rx' = rx_sqdone rx"
    "rx_covered rx' = rx_covered rx" "rx_notcovered rx' = rx_notcovered rx" "rx_holdoff rx' = rx_holdoff rx" "rx_sent rx' = rx_sent rx"
    "rx_tasksrun rx' = rx_tasksrun rx" "rx_g rx' = rx_g rx" "rx_fakeworkers rx' = rx_fakeworkers rx" "rx_files rx' = rx_files rx"
    "rx_stampcache rx' = rx_stampcache rx"
  using assms unfolding releases_def fold_setbuildable by auto

lemma stamp_current_rx: "stamp_current env t n r rx = Inr (b, rx') \<Longrightarrow> \<exists>c. rx' = rx\<lparr>rx_stampcache := c\<rparr>"
  by (auto simp: stamp_current_def)

lemma write_stamp_rx: "write_stamp env w n dc fn rx = Inr rx' \<Longrightarrow> \<exists>fs. rx' = rx\<lparr>rx_files := fs\<rparr>"
  by (auto simp: write_stamp_def)

lemma forget_stamp_rx:
  assumes "forget_stamp t rx = Inr rx'"
  shows "\<exists>a b. rx' = rx\<lparr>rx_build_stamps2 := a, rx_build_stamps := b\<rparr>"
proof (cases "rx' = rx")
  case True
  then have "rx' = rx\<lparr>rx_build_stamps2 := rx_build_stamps2 rx, rx_build_stamps := rx_build_stamps rx\<rparr>" by simp
  then show ?thesis by blast
next
  case False
  with assms show ?thesis by (auto simp: forget_stamp_def split: option.splits if_splits)
qed

lemma check_taskfail_rx: "sq_check_taskfail env t rx = Inr rx' \<Longrightarrow> rx' = rx \<or> rx' = rx\<lparr>rx_state := runQueueCleanUp\<rparr>"
  by (auto simp: sq_check_taskfail_def split: if_splits prod.splits)

lemma task_fail_rx:
  assumes "task_fail env t rx = Inr rx'"
  shows "\<exists>s. rx' = rx\<lparr>rx_stats := taskFailed (rx_stats rx), rx_failed := rx_failed rx @ [t], rx_state := s\<rparr> \<and> (s = rx_state rx \<or> s = runQueueCleanUp)"
proof -
  obtain td where td: "map_of (rv_taskData env) [] = Some td" using assms by (auto simp: task_fail_def Let_def)
  show ?thesis
  proof (cases "td_abort td")
    case True
    then show ?thesis using assms td by (auto simp: task_fail_def Let_def)
  next
    case False
    then have "rx' = rx\<lparr>rx_stats := taskFailed (rx_stats rx), rx_failed := rx_failed rx @ [t], rx_state := rx_state rx\<rparr>"
      using assms td by (auto simp: task_fail_def Let_def)
    then show ?thesis by blast
  qed
qed

lemma note_send_rx:
  "\<exists>fw sent. note_start t stamp (send_task fake mc fn u n ss data quiet e rx) =
     rx\<lparr>rx_build_stamps := dict_set t stamp (rx_build_stamps rx), rx_build_stamps2 := rx_build_stamps2 rx @ [stamp], rx_fakeworkers := fw, rx_sent := sent\<rparr>"
  by (intro exI [of _ "rx_fakeworkers (send_task fake mc fn u n ss data quiet e rx)"] exI [of _ "rx_sent (send_task fake mc fn u n ss data quiet e rx)"])
    (simp add: note_start_def send_task_def)

lemma start_task_rx:
  assumes "start_task env w t mc n fn dc td st = Inr (b, st')"
  shows "x_scene st' = x_scene st \<and>
    (\<not> w_fakeworker w mc \<and> x_rq st' = (x_rq st)\<lparr>rx_state := runQueueFailed, rx_stats := taskFailed (rx_stats (x_rq st))\<rparr> \<and> b \<or>
     (\<exists>stamp fw sent. x_rq st' = (x_rq st)\<lparr>rx_build_stamps := dict_set t stamp (rx_build_stamps (x_rq st)),
        rx_build_stamps2 := rx_build_stamps2 (x_rq st) @ [stamp], rx_fakeworkers := fw, rx_sent := sent,
        rx_running := add_new t (rx_running (x_rq st)), rx_stats := taskActive (rx_stats (x_rq st))\<rparr> \<and> b = can_start_task env st'))"
proof -
  let ?fake = "needs_fakeroot td n \<and> \<not> (rv_dry_run env \<or> rv_setscene_enforce env)"
  show ?thesis
  proof (cases "?fake \<and> mc \<notin> set (rx_fakeworkers (x_rq st)) \<and> \<not> w_fakeworker w mc")
    case True
    then show ?thesis using assms unfolding start_task_def Let_def by auto
  next
    case False
    then obtain data e stamp where "(b, st') = (let rx1 = note_start t stamp (send_task ?fake mc fn t n False data (rv_setscene_enforce env) e (x_rq st));
        st1 = st\<lparr>x_rq := rx1\<lparr>rx_running := add_new t (rx_running rx1), rx_stats := taskActive (rx_stats rx1)\<rparr>\<rparr> in (can_start_task env st1, st1))"
      using assms unfolding start_task_def Let_def if_not_P [OF False] rbind_eq_Inr by blast
    then have "b = can_start_task env st'" and eq: "st' = st\<lparr>x_rq := (note_start t stamp (send_task ?fake mc fn t n False data (rv_setscene_enforce env) e (x_rq st)))
        \<lparr>rx_running := add_new t (rx_running (x_rq st)), rx_stats := taskActive (rx_stats (x_rq st))\<rparr>\<rparr>"
      by (simp_all add: Let_def note_start_def send_task_def)
    moreover obtain fw sent where "note_start t stamp (send_task ?fake mc fn t n False data (rv_setscene_enforce env) e (x_rq st)) =
        (x_rq st)\<lparr>rx_build_stamps := dict_set t stamp (rx_build_stamps (x_rq st)), rx_build_stamps2 := rx_build_stamps2 (x_rq st) @ [stamp],
          rx_fakeworkers := fw, rx_sent := sent\<rparr>" using note_send_rx by blast
    ultimately have "x_rq st' = (x_rq st)\<lparr>rx_build_stamps := dict_set t stamp (rx_build_stamps (x_rq st)),
        rx_build_stamps2 := rx_build_stamps2 (x_rq st) @ [stamp], rx_fakeworkers := fw, rx_sent := sent,
        rx_running := add_new t (rx_running (x_rq st)), rx_stats := taskActive (rx_stats (x_rq st))\<rparr>" "x_scene st' = x_scene st" by simp_all
    with \<open>b = can_start_task env st'\<close> show ?thesis by blast
  qed
qed

lemma whitelist_rx:
  assumes "check_setscenewhitelist env t rx = Inr (b, rx')"
  shows "\<exists>c. rx' = rx\<lparr>rx_stampcache := c\<rparr>"
proof (cases "rx' = rx")
  case True
  then have "rx' = rx\<lparr>rx_stampcache := rx_stampcache rx\<rparr>" by simp
  then show ?thesis by blast
next
  case False
  with assms obtain n b1 where "stamp_current env t n False rx = Inr (b1, rx')"
    by (auto simp: check_setscenewhitelist_def split: if_splits prod.splits)
  then show ?thesis by (rule stamp_current_rx)
qed

lemma rfold_same: "rfold f xs a = Inr a' \<Longrightarrow> (\<And>x a a'. f x a = Inr a' \<Longrightarrow> g a' = g a) \<Longrightarrow> g a' = g a"
  by (rule rfold_invariant [where I = "\<lambda>b. g b = g a"]) auto

section \<open>The choice of the scheduler\<close>

lemma better_task_from:
  "rfold (better_task rq sc counts) ts best = Inr best' \<Longrightarrow> best' = best \<or> (\<exists>t p. best' = Some (t, p) \<and> t \<in> set ts)"
proof (induction ts arbitrary: best)
  case (Cons t ts)
  then obtain b where b: "better_task rq sc counts t best = Inr b" "rfold (better_task rq sc counts) ts b = Inr best'" by auto
  from b(1) have "b = best \<or> (\<exists>p. b = Some (t, p))"
    unfolding better_task_def by (cases "b = best") (auto split: if_splits option.splits)
  with Cons.IH [OF b(2)] show ?case by auto
qed simp

lemma ensure_rev_prio_map_buildable: "ensure_rev_prio_map entries sc = Inr sc' \<Longrightarrow> sc_buildable sc' = sc_buildable sc"
  by (auto simp: ensure_rev_prio_map_def split: if_splits)

lemma choose_task_from:
  "choose_task entries rq counts ts sc = Inr (r, sc') \<Longrightarrow> sc_buildable sc' = sc_buildable sc \<and> (\<forall>t. r = Some t \<longrightarrow> t \<in> set ts)"
  unfolding choose_task_def by (auto dest!: ensure_rev_prio_map_buildable better_task_from)

lemma next_buildable_task_from:
  assumes "next_buildable_task entries rq sc = Inr (r, sc')"
  shows "sc_buildable sc' = filter (\<lambda>t. t \<notin> set (rq_running rq)) (sc_buildable sc)"
    and "r = Some t \<Longrightarrow> t \<in> set (candidates rq (sc_buildable sc'))"
proof -
  let ?b = "filter (\<lambda>t. t \<notin> set (rq_running rq)) (sc_buildable sc)"
  have "sc_buildable sc' = ?b \<and> (\<forall>t. r = Some t \<longrightarrow> t \<in> set (candidates rq ?b))"
  proof (cases "candidates rq ?b" rule: remdups_adj.cases)
    case 1
    with assms show ?thesis unfolding next_buildable_task_def by (auto simp: Let_def)
  next
    case (2 tid)
    with assms show ?thesis unfolding next_buildable_task_def by (auto simp: Let_def split: if_splits dest!: choose_task_from)
  next
    case (3 t1 t2 ts)
    with assms show ?thesis unfolding next_buildable_task_def by (auto simp: Let_def dest!: choose_task_from)
  qed
  then show "sc_buildable sc' = ?b" "r = Some t \<Longrightarrow> t \<in> set (candidates rq (sc_buildable sc'))" by auto
qed

text \<open>A task the scheduler gives out is buildable, not started, not held off and decided by the setscene queue.\<close>

lemma next_task_from:
  assumes "next_task env st = Inr (r, st')"
  shows "\<exists>sc. x_rq st' = (x_rq st)\<lparr>rx_sched := sc\<rparr> \<and> set (sc_buildable sc) \<subseteq> set (sc_buildable (rx_sched (x_rq st)))"
    and "x_scene st' = x_scene st"
    and "r = Some t \<Longrightarrow> t \<in> set (sc_buildable (rx_sched (x_rq st))) \<and> t \<notin> set (rx_running (x_rq st)) \<and> can_start_task env st \<and>
      t \<notin> set (rx_holdoff (x_rq st)) \<and> t \<in> set (rx_covered (x_rq st)) \<union> set (rx_notcovered (x_rq st))"
proof -
  let ?rx = "x_rq st"
  have "(\<exists>sc. st' = st\<lparr>x_rq := ?rx\<lparr>rx_sched := sc\<rparr>\<rparr> \<and> set (sc_buildable sc) \<subseteq> set (sc_buildable (rx_sched ?rx))) \<and>
    (\<forall>t. r = Some t \<longrightarrow> t \<in> set (sc_buildable (rx_sched ?rx)) \<and> t \<notin> set (rx_running ?rx) \<and> can_start_task env st \<and>
      t \<notin> set (rx_holdoff ?rx) \<and> t \<in> set (rx_covered ?rx) \<union> set (rx_notcovered ?rx))"
  proof (cases "rv_setsceneonly env")
    case True
    then have "r = None" "st' = st" using assms by (auto simp: next_task_def)
    moreover have "st = st\<lparr>x_rq := ?rx\<lparr>rx_sched := rx_sched ?rx\<rparr>\<rparr>" by simp
    ultimately show ?thesis by blast
  next
    case False
    with assms obtain sc where sc: "sched_next (rx_entries ?rx) (sched_view env st) (rx_sched ?rx) = Inr (r, sc)" "st' = st\<lparr>x_rq := ?rx\<lparr>rx_sched := sc\<rparr>\<rparr>"
      by (auto simp: next_task_def)
    show ?thesis
    proof (cases "can_start_task env st")
      case True
      then have n: "next_buildable_task (rx_entries ?rx) (sched_view env st) (rx_sched ?rx) = Inr (r, sc)"
        using sc(1) by (simp add: sched_next_def sched_view_def Let_def)
      show ?thesis using next_buildable_task_from [OF n] sc(2) True by (auto simp: candidates_def sched_view_def Let_def)
    next
      case nc: False
      then have "r = None" "sc = rx_sched ?rx" using sc(1) by (auto simp: sched_next_def sched_view_def Let_def)
      then have "st' = st\<lparr>x_rq := ?rx\<lparr>rx_sched := rx_sched ?rx\<rparr>\<rparr>" "r = None" using sc(2) by simp_all
      then show ?thesis by blast
    qed
  qed
  then show "\<exists>sc. x_rq st' = (x_rq st)\<lparr>rx_sched := sc\<rparr> \<and> set (sc_buildable sc) \<subseteq> set (sc_buildable (rx_sched (x_rq st)))"
    "x_scene st' = x_scene st"
    "r = Some t \<Longrightarrow> t \<in> set (sc_buildable (rx_sched (x_rq st))) \<and> t \<notin> set (rx_running (x_rq st)) \<and> can_start_task env st \<and>
      t \<notin> set (rx_holdoff (x_rq st)) \<and> t \<in> set (rx_covered (x_rq st)) \<union> set (rx_notcovered (x_rq st))"
    by auto
qed

section \<open>The order of tasks\<close>

text \<open>What the order of tasks depends on, and the invariant: a task that is buildable, running or known to the scheduler has no open dependency.\<close>

definition order_core :: "'g rqexe \<Rightarrow> (string \<Rightarrow> string list) \<times> string list \<times> int \<times> string list \<times> string list \<times> string list \<times> string list" where
  "order_core rx = (deps_of (rx_entries rx), dict_keys (rx_entries rx), st_total (rx_stats rx), rx_buildable rx, rx_running rx, rx_complete rx, sc_buildable (rx_sched rx))"

definition order_inv :: "'g rqexe \<Rightarrow> bool" where
  "order_inv rx \<longleftrightarrow> (\<forall>t \<in> set (rx_buildable rx). deps_met (rx_entries rx) (rx_complete rx) t) \<and>
     (\<forall>t \<in> set (rx_running rx). deps_met (rx_entries rx) (rx_complete rx) t) \<and>
     (\<forall>t \<in> set (sc_buildable (rx_sched rx)). deps_met (rx_entries rx) (rx_complete rx) t)"

lemma order_inv_core: "order_core rx' = order_core rx \<Longrightarrow> order_inv rx \<Longrightarrow> order_inv rx'"
  by (simp add: order_core_def order_inv_def deps_met_def)

lemma order_inv_releases: "releases rx rx' \<Longrightarrow> order_inv rx \<Longrightarrow> order_inv rx'"
  unfolding releases_def fold_setbuildable order_inv_def by (auto simp: set_fold_add_new)

lemma order_inv_completeoutright: "task_completeoutright t rx = Inr rx' \<Longrightarrow> order_inv rx \<Longrightarrow> order_inv rx'"
  by (rule order_inv_releases [OF completeoutright_releases]) (auto simp: order_inv_def)

lemma order_inv_complete: "task_complete t rx = Inr rx' \<Longrightarrow> order_inv rx \<Longrightarrow> order_inv rx'"
proof -
  assume a: "task_complete t rx = Inr rx'" "order_inv rx"
  then obtain rx1 where r: "task_completeoutright t (rx\<lparr>rx_stats := taskCompleted (rx_stats rx)\<rparr>) = Inr rx1"
      "rx' = rx1\<lparr>rx_tasksrun := add_new t (rx_tasksrun rx1)\<rparr>" by (auto simp: task_complete_def)
  have "order_inv rx1" by (rule order_inv_completeoutright [OF r(1)]) (use a(2) in \<open>simp add: order_inv_def\<close>)
  then show ?thesis unfolding r(2) by (simp add: order_inv_def)
qed

lemma order_inv_fail: "task_fail env t rx = Inr rx' \<Longrightarrow> order_inv rx \<Longrightarrow> order_inv rx'"
  by (drule task_fail_rx) (auto simp: order_inv_def)

lemma order_inv_skip:
  assumes "task_skip t rx = Inr rx'" "order_inv rx" "deps_met (rx_entries rx) (rx_complete rx) t"
  shows "order_inv rx'"
proof -
  let ?rx = "setbuildable t (rx\<lparr>rx_running := add_new t (rx_running rx)\<rparr>)"
  obtain rx1 where r: "task_completeoutright t ?rx = Inr rx1" "rx' = rx1\<lparr>rx_stats := taskCompleted (taskSkipped (rx_stats rx1))\<rparr>"
    using assms(1) by (auto simp: task_skip_def)
  have "order_inv ?rx" using assms(2,3) by (auto simp: order_inv_def setbuildable_def newbuildable_def)
  from order_inv_completeoutright [OF r(1) this] show ?thesis unfolding r(2) by (simp add: order_inv_def)
qed

lemma order_inv_noexec:
  assumes "run_noexec env w t n dc fn rx = Inr rx'" "order_inv rx" "deps_met (rx_entries rx) (rx_complete rx) t"
  shows "order_inv rx'"
proof -
  let ?rx = "rx\<lparr>rx_running := add_new t (rx_running rx), rx_stats := taskActive (rx_stats rx)\<rparr>"
  obtain rx1 where r: "(if rv_dry_run env \<or> rv_setscene_enforce env then Inr ?rx else write_stamp env w n dc fn ?rx) = Inr rx1" "task_complete t rx1 = Inr rx'"
    using assms(1) by (auto simp: run_noexec_def Let_def)
  have "order_core rx1 = order_core ?rx" using r(1) by (auto split: if_splits dest!: write_stamp_rx simp: order_core_def)
  moreover have "order_inv ?rx" using assms(2,3) by (auto simp: order_inv_def)
  ultimately show ?thesis using order_inv_complete [OF r(2)] order_inv_core by blast
qed

lemma order_inv_start:
  assumes "start_task env w t mc n fn dc td st = Inr (b, st')" "order_inv (x_rq st)" "deps_met (rx_entries (x_rq st)) (rx_complete (x_rq st)) t"
  shows "order_inv (x_rq st')"
  using start_task_rx [OF assms(1)] assms(2,3) by (auto simp: order_inv_def)

text \<open>The ways in which a chosen task goes on.\<close>

lemma run_task_cases:
  assumes "run_task env w t st = Inr (b, st')"
  obtains (rejected) c where "rv_setscenewhitelist env \<noteq> None" "task_fail env t ((x_rq st)\<lparr>rx_stampcache := c\<rparr>) = Inr (x_rq st')" "x_scene st' = x_scene st" b
  | (skipped) c rx x where "task_skip t ((x_rq st)\<lparr>rx_stampcache := c\<rparr>) = Inr rx" "x_rq st' = rx\<lparr>rx_tasksrun := x\<rparr>" "x_scene st' = x_scene st" b
  | (noexec) c n dc fn where "run_noexec env w t n dc fn ((x_rq st)\<lparr>rx_stampcache := c\<rparr>) = Inr (x_rq st')" "x_scene st' = x_scene st" b
  | (started) c mc n fn dc td where "start_task env w t mc n fn dc td (st\<lparr>x_rq := (x_rq st)\<lparr>rx_stampcache := c\<rparr>\<rparr>) = Inr (b, st')"
proof -
  obtain mc fn n taskfn where sp: "split_tid_mcfn t = Inr (mc, fn, n, taskfn)" using assms by (auto simp: run_task_def)
  obtain bad rx0 where w: "(if rv_setscenewhitelist env = None then Inr (False, x_rq st) else check_setscenewhitelist env t (x_rq st)) = Inr (bad, rx0)"
    using assms sp by (auto simp: run_task_def)
  have "\<exists>c. rx0 = (x_rq st)\<lparr>rx_stampcache := c\<rparr>"
  proof (cases "rv_setscenewhitelist env = None")
    case True
    then have "rx0 = (x_rq st)\<lparr>rx_stampcache := rx_stampcache (x_rq st)\<rparr>" using w by simp
    then show ?thesis by blast
  qed (use w whitelist_rx in auto)
  then obtain c0 where c0: "rx0 = (x_rq st)\<lparr>rx_stampcache := c0\<rparr>" by blast
  have wl: "bad \<Longrightarrow> rv_setscenewhitelist env \<noteq> None" using w by (auto split: if_splits)
  note e = assms [unfolded run_task_def sp w rbind_simps prod.case Let_def]
  show thesis
  proof (cases "bad \<or> t \<in> set (rx_covered rx0)")
    case True
    show thesis
    proof (cases bad)
      case b: True
      obtain rx where "task_fail env t rx0 = Inr rx" "st' = st\<lparr>x_rq := rx\<rparr>" b using e b by auto
      then show thesis using wl b unfolding c0 by (intro rejected) auto
    next
      case b: False
      obtain rx where s: "task_skip t rx0 = Inr rx" "st' = st\<lparr>x_rq := rx\<rparr>" b using e b True by auto
      have "rx = rx\<lparr>rx_tasksrun := rx_tasksrun rx\<rparr>" by simp
      with s show thesis unfolding c0 by (intro skipped [where x = "rx_tasksrun rx"]) auto
    qed
  next
    case False
    then obtain b1 rx1 where s: "stamp_current env t n False rx0 = Inr (b1, rx1)" using e by auto
    obtain c1 where c1: "rx1 = (x_rq st)\<lparr>rx_stampcache := c1\<rparr>" using stamp_current_rx [OF s] unfolding c0 by auto
    show thesis
    proof (cases b1)
      case True
      then obtain rx where "task_skip t rx1 = Inr rx" "st' = st\<lparr>x_rq := rx\<lparr>rx_tasksrun := add_new t (rx_tasksrun rx)\<rparr>\<rparr>" b using e False s by auto
      then show thesis unfolding c1 by (intro skipped) auto
    next
      case nb: False
      then obtain dc td where l: "map_of (rv_dataCaches env) mc = Some dc" "map_of (dc_task_deps dc) taskfn = Some td" using e False s by auto
      show thesis
      proof (cases "task_flag td ''noexec'' n \<noteq> None")
        case True
        then obtain rx where "run_noexec env w t n dc taskfn rx1 = Inr rx" "st' = st\<lparr>x_rq := rx\<rparr>" b using e False s nb l by auto
        then show thesis unfolding c1 by (intro noexec) auto
      next
        case nn: False
        then have "start_task env w t mc n taskfn dc td (st\<lparr>x_rq := rx1\<rparr>) = Inr (b, st')" using e False s nb l by auto
        then show thesis unfolding c1 by (rule started)
      qed
    qed
  qed
qed

lemma order_inv_run_task:
  assumes "run_task env w t st = Inr (b, st')" "order_inv (x_rq st)" "deps_met (rx_entries (x_rq st)) (rx_complete (x_rq st)) t"
  shows "order_inv (x_rq st')"
proof -
  have i: "order_inv ((x_rq st)\<lparr>rx_stampcache := c\<rparr>)" for c using assms(2) by (simp add: order_inv_def)
  show ?thesis using assms(1)
  proof (cases rule: run_task_cases)
    case (rejected c)
    then show ?thesis using order_inv_fail i by blast
  next
    case (skipped c rx x)
    have "order_inv rx" by (rule order_inv_skip [OF skipped(1) i]) (use assms(3) in simp)
    then show ?thesis unfolding skipped(2) by (simp add: order_inv_def)
  next
    case (noexec c n dc fn)
    show ?thesis by (rule order_inv_noexec [OF noexec(1) i]) (use assms(3) in simp)
  next
    case (started c mc n fn dc td)
    show ?thesis by (rule order_inv_start [OF started]) (use i assms(3) in auto)
  qed
qed

section \<open>The setscene half leaves the tasks alone\<close>

lemma scene_ops_rq:
  "skip_scene env t st = Inr st' \<Longrightarrow> x_rq st' = x_rq st"
  "fail_scene env t st = Inr st' \<Longrightarrow> x_rq st' = x_rq st"
  "note_present env t st = Inr st' \<Longrightarrow> x_rq st' = x_rq st"
  "x_rq (on_sqdata f st) = x_rq st"
  by (auto simp: skip_scene_def fail_scene_def note_present_def on_sqdata_def)

lemma consider_scene_rq: "consider_scene env w t st = Inr (r, st') \<Longrightarrow> x_rq st' = x_rq st"
  unfolding consider_scene_def deferred_scene_def Let_def
  by (auto split: if_splits option.splits simp: scene_ops_rq(4) dest!: scene_ops_rq(1,2))

text \<open>A candidate that is not dealt with on the spot leaves the queues as they are.\<close>

lemma consider_scene_frame:
  assumes "consider_scene env w t st = Inr (r, st')" "r \<noteq> Some Returned"
  shows "r = None \<and> st' = st \<or> r = Some (StartScene t) \<and>
    (\<exists>ofail dfr. x_scene st' = (x_scene st)\<lparr>sn_data := (sn_data (x_scene st))\<lparr>sq_outrightfail := ofail\<rparr>, sn_deferred := dfr\<rparr> \<and> (dfr = sn_deferred (x_scene st) \<or> dfr = dict_del t (sn_deferred (x_scene st))))"
proof -
  obtain skip where s: "scene_not_needed env w (x_scene st) t = Inr skip" using assms(1) by (auto simp: consider_scene_def)
  have ns: "\<not> skip" using assms s by (auto simp: consider_scene_def)
  note e = assms(1) [unfolded consider_scene_def s rbind_simps if_not_P [OF ns]]
  show ?thesis
  proof (cases "map_of (sn_deferred (x_scene st)) t")
    case None
    then have "deferred_scene env w t st = Inr (r, st')" using e by auto
    then have "r = Some (StartScene t)" "st' = st" using assms(2) by (auto simp: deferred_scene_def Let_def split: if_splits)
    moreover have "x_scene st = (x_scene st)\<lparr>sn_data := (sn_data (x_scene st))\<lparr>sq_outrightfail := sq_outrightfail (sn_data (x_scene st))\<rparr>, sn_deferred := sn_deferred (x_scene st)\<rparr>" by simp
    ultimately show ?thesis by blast
  next
    case (Some u)
    show ?thesis
    proof (cases "u \<in> set (rx_complete (x_rq st))")
      case False
      then show ?thesis using e Some by auto
    next
      case True
      let ?st = "st\<lparr>x_scene := (x_scene st)\<lparr>sn_deferred := dict_del t (sn_deferred (x_scene st))\<rparr>\<rparr>"
      obtain valid ofail where v: "validate_hashes env w (rx_entries (x_rq ?st)) [t] 0 = Inr valid" "valid \<noteq> []"
          "deferred_scene env w t (on_sqdata (\<lambda>d. d\<lparr>sq_outrightfail := ofail\<rparr>) ?st) = Inr (r, st')"
        using e Some True assms(2) by (auto simp: Let_def split: if_splits)
      then have "r = Some (StartScene t)" "st' = on_sqdata (\<lambda>d. d\<lparr>sq_outrightfail := ofail\<rparr>) ?st"
        using assms(2) by (auto simp: deferred_scene_def Let_def split: if_splits)
      then have "x_scene st' = (x_scene st)\<lparr>sn_data := (sn_data (x_scene st))\<lparr>sq_outrightfail := ofail\<rparr>, sn_deferred := dict_del t (sn_deferred (x_scene st))\<rparr>"
        by (simp add: on_sqdata_def)
      with \<open>r = Some (StartScene t)\<close> show ?thesis by blast
    qed
  qed
qed

lemma consider_scene_still:
  assumes "consider_scene env w t st = Inr (r, st')" "r \<noteq> Some Returned"
  shows "rx_sqdone (x_rq st') = rx_sqdone (x_rq st)" "can_start_task env st' = can_start_task env st" "scene_startable t st' = scene_startable t st"
    "r = Some (StartScene u) \<Longrightarrow> u = t"
  using consider_scene_frame [OF assms] consider_scene_rq [OF assms(1)] by (auto simp: can_start_task_def scene_startable_def Let_def)

lemma pick_setscene_rq: "pick_setscene env w ts st = Inr (p, st') \<Longrightarrow> x_rq st' = x_rq st"
proof (induction ts arbitrary: st)
  case (Cons t ts)
  then obtain b where b: "scene_startable t st = Inr b" by auto
  show ?case
  proof (cases b)
    case False
    with b Cons show ?thesis by auto
  next
    case True
    with b Cons.prems obtain r st1 where r: "consider_scene env w t st = Inr (r, st1)"
        "(case r of None \<Rightarrow> pick_setscene env w ts st1 | Some p \<Rightarrow> Inr (p, st1)) = Inr (p, st')" by auto
    then show ?thesis using consider_scene_rq [OF r(1)] Cons.IH by (cases r) auto
  qed
qed simp

lemma start_setscene_rx:
  assumes "start_setscene env w t mc n fn st = Inr st'"
  shows "\<exists>stamp fw sent. x_rq st' = (x_rq st)\<lparr>rx_build_stamps := dict_set t stamp (rx_build_stamps (x_rq st)),
      rx_build_stamps2 := rx_build_stamps2 (x_rq st) @ [stamp], rx_fakeworkers := fw, rx_sent := sent\<rparr>"
    and "x_scene st' = (x_scene st)\<lparr>sn_running := add_new t (sn_running (x_scene st)), sn_live := add_new t (sn_live (x_scene st)),
      sn_stats := taskActive (sn_stats (x_scene st))\<rparr>"
proof -
  obtain stamp fake data e where eq: "st' = st\<lparr>x_rq := note_start t stamp (send_task fake mc fn t n True data False e (x_rq st)),
      x_scene := (x_scene st)\<lparr>sn_running := add_new t (sn_running (x_scene st)), sn_live := add_new t (sn_live (x_scene st)),
        sn_stats := taskActive (sn_stats (x_scene st))\<rparr>\<rparr>"
    using assms unfolding start_setscene_def Let_def by (auto split: if_splits)
  show "\<exists>stamp fw sent. x_rq st' = (x_rq st)\<lparr>rx_build_stamps := dict_set t stamp (rx_build_stamps (x_rq st)),
      rx_build_stamps2 := rx_build_stamps2 (x_rq st) @ [stamp], rx_fakeworkers := fw, rx_sent := sent\<rparr>"
    using note_send_rx [of t stamp fake mc fn t n True data False e "x_rq st"] unfolding eq by auto
  show "x_scene st' = (x_scene st)\<lparr>sn_running := add_new t (sn_running (x_scene st)), sn_live := add_new t (sn_live (x_scene st)),
      sn_stats := taskActive (sn_stats (x_scene st))\<rparr>" unfolding eq by simp
qed

text \<open>The four ways in which a chosen setscene task ends the call or is started.\<close>

lemma run_setscene_cases:
  assumes "run_setscene env w t st = Inr (b, st')"
  obtains (failed) c where "fail_scene env t (st\<lparr>x_rq := (x_rq st)\<lparr>rx_stampcache := c\<rparr>\<rparr>) = Inr st'" b
  | (skipped) c where "skip_scene env t (st\<lparr>x_rq := (x_rq st)\<lparr>rx_stampcache := c\<rparr>\<rparr>) = Inr st'" b
  | (started) c mc n fn where "start_setscene env w t mc n fn (st\<lparr>x_rq := (x_rq st)\<lparr>rx_stampcache := c\<rparr>\<rparr>) = Inr st'" "b = can_start_task env st'"
proof -
  obtain mc fn n0 taskfn where sp: "split_tid_mcfn t = Inr (mc, fn, n0, taskfn)" using assms by (auto simp: run_setscene_def)
  obtain tn where tn: "taskname_from_tid t = Inr tn" using assms sp by (auto simp: run_setscene_def Let_def)
  obtain b1 rx1 where s1: "stamp_current env t tn True (x_rq st) = Inr (b1, rx1)" using assms sp tn by (auto simp: run_setscene_def Let_def)
  obtain c1 where c1: "rx1 = (x_rq st)\<lparr>rx_stampcache := c1\<rparr>" using stamp_current_rx [OF s1] by blast
  note e = assms [unfolded run_setscene_def sp tn s1 rbind_simps prod.case Let_def]
  show thesis
  proof (cases "b1 \<or> rv_force env \<and> t \<in> set (rv_target_tids env)")
    case True
    then show thesis using e failed [of c1] unfolding c1 by (auto split: if_splits)
  next
    case False
    then obtain b2 rx2 where s2: "stamp_current env t (n0 @ ''_setscene'') False rx1 = Inr (b2, rx2)" using e by (auto split: if_splits)
    obtain c2 where c2: "rx2 = (x_rq st)\<lparr>rx_stampcache := c2\<rparr>" using stamp_current_rx [OF s2] unfolding c1 by auto
    show thesis using e False s2 failed [of c2] skipped [of c2] started [of mc _ taskfn c2] unfolding c2 c1 by (auto split: if_splits)
  qed
qed

lemma run_setscene_core:
  assumes "run_setscene env w t st = Inr (b, st')"
  shows "order_core (x_rq st') = order_core (x_rq st)"
  using assms
proof (cases rule: run_setscene_cases)
  case (started c mc n fn)
  then show ?thesis using start_setscene_rx(1) [OF started(1)] by (auto simp: order_core_def)
qed (auto dest!: scene_ops_rq(1,2) simp: order_core_def)

section \<open>Changed hashes leave the order alone\<close>

lemma deps_of_rehash:
  assumes "map_of entries t = Some e"
  shows "re_depends e' = re_depends e \<Longrightarrow> deps_of (dict_set t e' entries) = deps_of entries" "dict_keys (dict_set t e' entries) = dict_keys entries"
  using assms map_of_SomeD [OF assms] by (auto simp: deps_of_def dict_keys_set image_iff intro!: ext bexI)

lemma migrate_hash_core: "migrate_hash env q (rx, tp) = Inr (rx', tp') \<Longrightarrow> order_core rx' = order_core rx"
  by (cases q) (auto simp: migrate_hash_def Let_def order_core_def deps_of_rehash split: if_splits)

lemma rehash_tid_core:
  assumes "rehash_tid env sn p t m = Inr m'"
  shows "order_core (mg_rx m') = order_core (mg_rx m)"
proof -
  obtain ep e where e: "dict_lookup (rx_entries (mg_rx m)) p = Inr ep" "dict_lookup (rx_entries (mg_rx m)) t = Inr e"
    using assms unfolding rehash_tid_def Let_def by auto
  note d = deps_of_rehash [OF e(2) [unfolded dict_lookup_Inr]]
  show ?thesis
  proof (cases "re_depends ep \<noteq> [] \<and> set (re_depends e) \<inter> set (mg_total m) \<noteq> {}")
    case True
    then show ?thesis using assms e unfolding rehash_tid_def Let_def e rbind_simps by simp
  next
    case False
    show ?thesis using assms unfolding rehash_tid_def Let_def e rbind_simps if_not_P [OF False] by (auto simp: order_core_def d)
  qed
qed

lemma rehash_loop_core: "rehash_loop n env sn p m = Inr m' \<Longrightarrow> order_core (mg_rx m') = order_core (mg_rx m)"
proof (induction n arbitrary: m)
  case (Suc n)
  show ?case
  proof (cases "mg_next m = []")
    case False
    with Suc.prems obtain m1 where "rfold (rehash_tid env sn p) (mg_next m) (m\<lparr>mg_next := []\<rparr>) = Inr m1" "rehash_loop n env sn p m1 = Inr m'" by auto
    then show ?thesis using Suc.IH rfold_same [of "rehash_tid env sn p" _ _ m1 "\<lambda>m. order_core (mg_rx m)"] rehash_tid_core by fastforce
  qed (use Suc.prems in simp)
qed (auto split: if_splits)

lemma rehash_core: "rehash env sn ts rx = Inr (rx', ch) \<Longrightarrow> order_core rx' = order_core rx"
  unfolding rehash_def Let_def by (auto simp del: rehash_loop.simps split: if_splits dest!: rehash_loop_core)

lemma reopen_covered_core: "reopen_covered t deps st = (b, st') \<Longrightarrow> order_core (x_rq st') = order_core (x_rq st)"
proof (induction deps arbitrary: st)
  case (Cons d deps)
  from Cons.prems show ?case by (auto simp: Let_def order_core_def split: if_splits dest!: Cons.IH)
qed simp

lemma migrate_tid_core: "migrate_tid env t m = Inr m' \<Longrightarrow> order_core (x_rq (pn_st m')) = order_core (x_rq (pn_st m))"
  unfolding migrate_tid_def Let_def
  by (auto split: if_splits prod.splits bool.splits dest!: reopen_covered_core simp: order_core_def)

text \<open>The graph in the data of the setscene queue, and: a refreshed task is skipped or checked further.\<close>

definition sq_graph :: "sqdata \<Rightarrow> (string, string list) dict \<times> (string, string list) dict \<times> (string, string list) dict \<times> (string, string list) dict" where
  "sq_graph d = (sq_deps d, sq_revdeps d, sq_harddeps d, sq_covered_tasks d)"

lemma refresh_tid_cases:
  assumes "refresh_tid env w t p = Inr p'"
  obtains (skip) f st c fs where "\<And>d. sq_graph (f d) = sq_graph d"
      "skip_scene env t (on_sqdata f (fst p)\<lparr>x_rq := (x_rq (fst p))\<lparr>rx_stampcache := c\<rparr>\<rparr>) = Inr st"
      "fst p' = st\<lparr>x_rq := (x_rq (fst p))\<lparr>rx_stampcache := c, rx_files := fs\<rparr>\<rparr>" "snd p' = snd p"
  | (check) f c where "\<And>d. sq_graph (f d) = sq_graph d"
      "fst p' = (on_sqdata f (fst p))\<lparr>x_rq := (x_rq (fst p))\<lparr>rx_stampcache := c\<rparr>\<rparr>" "snd p' = add_new t (snd p)"
proof -
  let ?f = "\<lambda>d. d\<lparr>sq_stamppresent := removeAll t (sq_stamppresent d), sq_valid := removeAll t (sq_valid d)\<rparr>"
  let ?st = "on_sqdata ?f (fst p)"
  obtain mc fn n taskfn dc td where l: "split_tid_mcfn t = Inr (mc, fn, n, taskfn)" "dict_lookup (rv_dataCaches env) mc = Inr dc" "dict_lookup (dc_task_deps dc) taskfn = Inr td"
    using assms unfolding refresh_tid_def Let_def by auto
  note e = assms [unfolded refresh_tid_def Let_def l rbind_simps prod.case]
  have comp: "on_sqdata g (on_sqdata f st) = on_sqdata (g \<circ> f) st" for g f and st :: "'a xstate" by (simp add: on_sqdata_def)
  show thesis
  proof (cases "task_flag td ''noexec'' n \<noteq> None")
    case True
    let ?g = "\<lambda>d. d\<lparr>sq_noexec := add_new t (sq_noexec d)\<rparr>"
    obtain st1 rx1 where s: "skip_scene env t (on_sqdata ?g ?st) = Inr st1" "write_stamp env w (n @ ''_setscene'') dc taskfn (x_rq st1) = Inr rx1"
        "p' = (st1\<lparr>x_rq := rx1\<rparr>, snd p)" using e True by auto
    have rq: "x_rq st1 = x_rq (fst p)" using scene_ops_rq(1) [OF s(1)] by (simp add: scene_ops_rq(4))
    have eq: "on_sqdata ?g ?st = on_sqdata (?g \<circ> ?f) (fst p)\<lparr>x_rq := (x_rq (fst p))\<lparr>rx_stampcache := rx_stampcache (x_rq (fst p))\<rparr>\<rparr>"
      unfolding comp by (simp add: on_sqdata_def)
    obtain fs where fs: "rx1 = (x_rq (fst p))\<lparr>rx_files := fs\<rparr>" using write_stamp_rx [OF s(2)] unfolding rq by blast
    show thesis by (rule skip [OF _ s(1) [unfolded eq]]) (simp_all add: s(3) fs sq_graph_def)
  next
    case False
    obtain b rx where s: "stamp_current env t (n @ ''_setscene'') False (x_rq ?st) = Inr (b, rx)" using e False by auto
    obtain c where c: "rx = (x_rq (fst p))\<lparr>rx_stampcache := c\<rparr>" using stamp_current_rx [OF s] by (auto simp: scene_ops_rq(4))
    have present: thesis if "rbind (note_present env t (?st\<lparr>x_rq := (x_rq (fst p))\<lparr>rx_stampcache := c\<rparr>\<rparr>)) (\<lambda>st1. Inr (st1, snd p)) = Inr p'" for c
    proof -
      let ?g = "\<lambda>d. d\<lparr>sq_stamppresent := add_new t (sq_stamppresent d)\<rparr>"
      from that obtain st1 where n: "note_present env t (?st\<lparr>x_rq := (x_rq (fst p))\<lparr>rx_stampcache := c\<rparr>\<rparr>) = Inr st1" "p' = (st1, snd p)" by auto
      have eq: "on_sqdata ?g (?st\<lparr>x_rq := (x_rq (fst p))\<lparr>rx_stampcache := c\<rparr>\<rparr>) = on_sqdata (?g \<circ> ?f) (fst p)\<lparr>x_rq := (x_rq (fst p))\<lparr>rx_stampcache := c\<rparr>\<rparr>"
        by (simp add: on_sqdata_def)
      have "skip_scene env t (on_sqdata (?g \<circ> ?f) (fst p)\<lparr>x_rq := (x_rq (fst p))\<lparr>rx_stampcache := c\<rparr>\<rparr>) = Inr st1"
        using n(1) unfolding note_present_def eq .
      then have sk: "skip_scene env t (on_sqdata (?g \<circ> ?f) (fst p)\<lparr>x_rq := (x_rq (fst p))\<lparr>rx_stampcache := c\<rparr>\<rparr>) = Inr st1" .
      have eq': "fst p' = st1\<lparr>x_rq := (x_rq (fst p))\<lparr>rx_stampcache := c, rx_files := rx_files (x_rq (fst p))\<rparr>\<rparr>"
        using n(2) scene_ops_rq(1) [OF sk] by simp
      show thesis by (rule skip [OF _ sk eq']) (simp_all add: n(2) sq_graph_def)
    qed
    show thesis
    proof (cases b)
      case True
      then show thesis using e False s present unfolding c by (simp del: rbind_eq_Inr)
    next
      case nb: False
      then obtain b' rx' where s': "stamp_current env t n True rx = Inr (b', rx')" using e False s by auto
      obtain c' where c': "rx' = (x_rq (fst p))\<lparr>rx_stampcache := c'\<rparr>" using stamp_current_rx [OF s'] unfolding c by auto
      show thesis
      proof (cases b')
        case True
        then show thesis using e False s nb s' present unfolding c' by (simp del: rbind_eq_Inr)
      next
        case False
        then show thesis using e \<open>\<not> task_flag td ''noexec'' n \<noteq> None\<close> s nb s' unfolding c'
          by (intro check [of ?f c']) (auto simp del: rbind_eq_Inr simp: sq_graph_def)
      qed
    qed
  qed
qed

text \<open>Changes of the stamp cache and the stamp files only.\<close>

definition stamps_only :: "'g rqexe \<Rightarrow> 'g rqexe \<Rightarrow> bool" where
  "stamps_only rx rx' \<longleftrightarrow> (\<exists>c fs. rx' = rx\<lparr>rx_stampcache := c, rx_files := fs\<rparr>)"

lemma stamps_only_refl [simp]: "stamps_only rx rx"
proof -
  have "rx = rx\<lparr>rx_stampcache := rx_stampcache rx, rx_files := rx_files rx\<rparr>" by simp
  then show ?thesis unfolding stamps_only_def by blast
qed

lemma stamps_only_trans: "stamps_only rx rx' \<Longrightarrow> stamps_only rx' rx'' \<Longrightarrow> stamps_only rx rx''"
  unfolding stamps_only_def by (elim exE) (simp, blast)

lemma stamps_only_cache: "stamps_only rx (rx\<lparr>rx_stampcache := c\<rparr>)"
proof -
  have "rx\<lparr>rx_stampcache := c\<rparr> = rx\<lparr>rx_stampcache := c, rx_files := rx_files rx\<rparr>" by simp
  then show ?thesis unfolding stamps_only_def by blast
qed

lemma stamps_only_core: "stamps_only rx rx' \<Longrightarrow> order_core rx' = order_core rx"
  by (auto simp: stamps_only_def order_core_def)

lemma refresh_tid_rx:
  assumes "refresh_tid env w t p = Inr p'"
  shows "stamps_only (x_rq (fst p)) (x_rq (fst p'))"
  using assms
proof (cases rule: refresh_tid_cases)
  case (skip f st c fs)
  then show ?thesis by (auto simp: stamps_only_def)
next
  case (check f c)
  then show ?thesis by (simp add: stamps_only_cache)
qed

lemma defer_tid_rq: "defer_tid env mc t st = Inr st' \<Longrightarrow> x_rq st' = x_rq st"
  unfolding defer_tid_def Let_def by (auto split: if_splits option.splits)

lemma defer_invalid_rq:
  assumes "defer_invalid env valid st = Inr st'"
  shows "x_rq st' = x_rq st"
proof -
  let ?sn = "x_scene st"
  let ?st = "st\<lparr>x_scene := ?sn\<lparr>sn_data := (sn_data ?sn)\<lparr>sq_valid := union_new (sq_valid (sn_data ?sn)) valid, sq_hashes := []\<rparr>, sn_deferred := []\<rparr>\<rparr>"
  have "rfold (\<lambda>mc. rfold (defer_tid env mc) (sort (dict_keys (sq_revdeps (sn_data ?sn))))) (sort (sq_multiconfigs (sn_data ?sn))) ?st = Inr st'"
    using assms unfolding defer_invalid_def Let_def .
  then have "x_rq st' = x_rq ?st"
    by (rule rfold_same [where g = x_rq]) (rule rfold_same [where g = x_rq], assumption, rule defer_tid_rq)
  then show ?thesis by simp
qed

lemma update_scenequeue_data_rx:
  assumes "update_scenequeue_data env w ts st = Inr st'"
  shows "stamps_only (x_rq st) (x_rq st')"
proof -
  obtain p where p: "rfold (refresh_tid env w) (sort ts) (st, []) = Inr p" using assms by (auto simp: update_scenequeue_data_def)
  have "stamps_only (x_rq st) (x_rq (fst p))"
    by (rule rfold_invariant [OF p, where I = "\<lambda>p. stamps_only (x_rq st) (x_rq (fst p))"]) (auto dest: refresh_tid_rx intro: stamps_only_trans)
  moreover obtain valid where "defer_invalid env valid (fst p) = Inr st'" using assms p by (cases p) (auto simp: update_scenequeue_data_def)
  ultimately show ?thesis using defer_invalid_rq by metis
qed

lemmas update_scenequeue_data_core = stamps_only_core [OF update_scenequeue_data_rx]

lemma conclude_migrations_core:
  assumes "conclude_migrations env w m = Inr st'"
  shows "order_core (x_rq st') = order_core (x_rq (pn_st m))"
proof (cases "pn_abort m")
  case False
  let ?st = "(pn_st m)\<lparr>x_rq := (x_rq (pn_st m))\<lparr>rx_sqdone := False\<rparr>\<rparr>"
  obtain st1 where st1: "(if pn_updates m = [] then Inr (pn_st m) else update_scenequeue_data env w (map fst (pn_updates m)) ?st) = Inr st1"
      "x_rq st' = x_rq st1"
    using assms False unfolding conclude_migrations_def by auto
  have "order_core (x_rq ?st) = order_core (x_rq (pn_st m))" by (simp add: order_core_def)
  with st1 show ?thesis by (auto split: if_splits dest!: update_scenequeue_data_core)
qed (use assms in \<open>simp add: conclude_migrations_def\<close>)

lemma migrate_hashes_core:
  assumes "migrate_hashes env st = Inr (rx, ch)"
  shows "order_core rx = order_core (x_rq st)"
proof -
  obtain rx1 tp where r1: "rfold (migrate_hash env) (rx_updated (x_rq st)) (x_rq st, []) = Inr (rx1, tp)"
    using assms by (auto simp: migrate_hashes_def)
  obtain ts where r2: "rehash env (x_scene st) ts rx1 = Inr (rx, ch)" using assms r1 by (auto simp: migrate_hashes_def)
  have "order_core (fst (rx1, tp)) = order_core (fst (x_rq st, [] :: string list))"
    by (rule rfold_same [OF r1, of "\<lambda>p. order_core (fst p)"]) (auto dest: migrate_hash_core)
  then show ?thesis using rehash_core [OF r2] by simp
qed

lemma migrations_core:
  assumes "process_possible_migrations env w st = Inr st'"
  shows "order_core (x_rq st') = order_core (x_rq st)"
proof -
  obtain rx1 ch where r: "migrate_hashes env st = Inr (rx1, ch)" using assms by (auto simp: process_possible_migrations_def)
  let ?rx = "rx1\<lparr>rx_pending := union_new (rx_pending rx1) (set_meet ch (rv_setscene_tids env))\<rparr>"
  let ?m = "\<lparr>pn_st = st\<lparr>x_rq := ?rx\<rparr>, pn_updates = [], pn_changed = (ch \<noteq> []), pn_abort = False\<rparr>"
  obtain m where m: "rfold (migrate_tid env) (rx_pending ?rx) ?m = Inr m" "conclude_migrations env w m = Inr st'"
    using assms r by (auto simp: process_possible_migrations_def Let_def)
  have "order_core (x_rq (pn_st m)) = order_core (x_rq (pn_st ?m))"
    by (rule rfold_same [OF m(1), of "\<lambda>m. order_core (x_rq (pn_st m))"]) (rule migrate_tid_core)
  moreover have "order_core (x_rq (pn_st ?m)) = order_core rx1" by (simp add: order_core_def)
  ultimately show ?thesis using conclude_migrations_core [OF m(2)] migrate_hashes_core [OF r] by simp
qed

section \<open>Messages\<close>

text \<open>The scene after the exit of a setscene task was noted and before its dependencies are looked at.\<close>

definition scene_noted :: "string \<Rightarrow> bool \<Rightarrow> scene \<Rightarrow> scene" where
  "scene_noted t ok sn = (if ok then sn\<lparr>sn_stats := taskCompleted (sn_stats sn), sn_covered := add_new t (sn_covered sn)\<rparr>
     else sn\<lparr>sn_stats := taskFailed (sn_stats sn), sn_notcovered := add_new t (sn_notcovered sn)\<rparr>)"

lemma process_waitpid_cases:
  assumes "runqueue_process_waitpid env t status st = Inr st'"
  obtains (scene) a b s sn where "t \<in> set (sn_live (x_scene st))" "x_rq st' = (x_rq st)\<lparr>rx_build_stamps2 := a, rx_build_stamps := b, rx_state := s\<rparr>"
      "s = rx_state (x_rq st) \<or> s = runQueueCleanUp"
      "updatecounters env (rx_entries (x_rq st)) t (status \<noteq> 0) (scene_noted t (status = 0) (x_scene st)) = Inr sn"
      "x_scene st' = sn\<lparr>sn_live := removeAll t (sn_live sn)\<rparr>"
  | (fail) a b where "t \<notin> set (sn_live (x_scene st))" "x_scene st' = x_scene st" "status \<noteq> 0"
      "task_fail env t ((x_rq st)\<lparr>rx_build_stamps2 := a, rx_build_stamps := b\<rparr>) = Inr (x_rq st')"
  | (complete) a b where "t \<notin> set (sn_live (x_scene st))" "x_scene st' = x_scene st" "status = 0"
      "task_complete t ((x_rq st)\<lparr>rx_build_stamps2 := a, rx_build_stamps := b\<rparr>) = Inr (x_rq st')"
proof -
  obtain rx0 where f: "forget_stamp t (x_rq st) = Inr rx0" using assms by (auto simp: runqueue_process_waitpid_def)
  obtain a b where rx0: "rx0 = (x_rq st)\<lparr>rx_build_stamps2 := a, rx_build_stamps := b\<rparr>" using forget_stamp_rx [OF f] by blast
  note e = assms [unfolded runqueue_process_waitpid_def f rbind_simps Let_def]
  show thesis
  proof (cases "t \<in> set (sn_live (x_scene st))")
    case False
    show thesis
    proof (cases "status = 0")
      case True
      show thesis by (rule complete [where a = a and b = b]) (use e False True rx0 in auto)
    next
      case nz: False
      show thesis by (rule fail [where a = a and b = b]) (use e False nz rx0 in auto)
    qed
  next
    case True
    show thesis
    proof (cases "status = 0")
      case z: True
      obtain sn where "updatecounters env (rx_entries rx0) t False (scene_noted t True (x_scene st)) = Inr sn"
          "st' = st\<lparr>x_rq := rx0, x_scene := sn\<lparr>sn_live := removeAll t (sn_live sn)\<rparr>\<rparr>"
        using e True z by (auto simp: sq_task_complete_def sq_task_completeoutright_def scene_noted_def)
      then show thesis using z rx0 by (intro scene [where a = a and b = b and s = "rx_state (x_rq st)" and sn = sn] True) auto
    next
      case nz: False
      obtain sn rx where s: "updatecounters env (rx_entries rx0) t True (scene_noted t False (x_scene st)) = Inr sn" "sq_check_taskfail env t rx0 = Inr rx"
          "st' = st\<lparr>x_scene := sn\<lparr>sn_live := removeAll t (sn_live sn)\<rparr>, x_rq := rx\<rparr>"
        using e True nz by (auto simp: sq_task_fail_def scene_noted_def Let_def)
      show thesis using check_taskfail_rx [OF s(2)]
      proof
        assume "rx = rx0"
        then show thesis using s nz rx0 by (intro scene [where a = a and b = b and s = "rx_state (x_rq st)" and sn = sn] True) auto
      next
        assume "rx = rx0\<lparr>rx_state := runQueueCleanUp\<rparr>"
        then show thesis using s nz rx0 by (intro scene [where a = a and b = b and s = runQueueCleanUp and sn = sn] True) auto
      qed
    qed
  qed
qed

lemma order_inv_message:
  assumes "worker_message env m st = Inr st'" "order_inv (x_rq st)"
  shows "order_inv (x_rq st')"
proof (cases m)
  case (Exitcode t s)
  have p: "runqueue_process_waitpid env t s st = Inr st'" using assms(1) Exitcode by (simp add: worker_message_def)
  have i: "order_inv ((x_rq st)\<lparr>rx_build_stamps2 := a, rx_build_stamps := b\<rparr>)" for a b using assms(2) by (simp add: order_inv_def)
  show ?thesis using p
  proof (cases rule: process_waitpid_cases)
    case (scene a b s' sn)
    then show ?thesis using assms(2) by (simp add: order_inv_def)
  next
    case (fail a b)
    then show ?thesis using order_inv_fail i by blast
  next
    case (complete a b)
    then show ?thesis using order_inv_complete i by blast
  qed
qed (use assms in \<open>auto simp: worker_message_def finish_now_def Let_def order_inv_def\<close>)

section \<open>Calls of execute\<close>

lemma update_holdofftasks_cases:
  assumes "update_holdofftasks env st = Inr st'"
  obtains (unchanged) "\<not> sn_need_update (x_scene st)" "st' = st"
  | (updated) rx c n h where "sn_need_update (x_scene st)" "releases (x_rq st) rx" "x_scene st' = (x_scene st)\<lparr>sn_need_update := False\<rparr>"
      "x_rq st' = rx\<lparr>rx_covered := c, rx_notcovered := n, rx_holdoff := h\<rparr>"
      "{t \<in> set (rv_setscene_tids env). \<not> sq_decided (x_scene st) t} \<subseteq> set h"
proof (cases "sn_need_update (x_scene st)")
  case False
  then have "st' = st" using assms unfolding update_holdofftasks_def Let_def by simp
  with False show thesis by (rule unchanged)
next
  case True
  let ?u = "filter (\<lambda>tid. \<not> sq_decided (x_scene st) tid) (rv_setscene_tids env)"
  obtain ts c n rx h where u: "rfold release_task ts (x_rq st) = Inr rx" "rfold (holdoff_covered (sn_data (x_scene st)) rx) ?u ?u = Inr h"
      "st' = st\<lparr>x_scene := (x_scene st)\<lparr>sn_need_update := False\<rparr>, x_rq := rx\<lparr>rx_covered := c, rx_notcovered := n, rx_holdoff := h\<rparr>\<rparr>"
    using assms True unfolding update_holdofftasks_def Let_def by auto
  have "set ?u \<subseteq> set h"
    by (rule rfold_invariant [OF u(2), where I = "\<lambda>h. set ?u \<subseteq> set h"]) (auto simp: holdoff_covered_def set_fold_add_new)
  then show thesis using u True by (intro updated [where rx = rx and c = c and n = n and h = h] releases_rfold [OF u(1) release_task_releases]) auto
qed

lemma end_scene_cases:
  assumes "end_scene env st = (b, st')"
  obtains (pending) "\<not> b" "st' = st" "\<not> scene_finished st"
  | (failed) b "st' = set_state runQueueFailed st" "scene_finished st" "summarise_scenequeue_errors env st"
  | (only) b "st' = set_state runQueueComplete st" "rv_setsceneonly env"
  | (empty) b "st' = set_state runQueueComplete (st\<lparr>x_rq := (x_rq st)\<lparr>rx_sqdone := True\<rparr>\<rparr>)" "st_total (rx_stats (x_rq st)) = 0" "\<not> summarise_scenequeue_errors env st"
  | (continued) "\<not> b" "st' = st\<lparr>x_rq := (x_rq st)\<lparr>rx_sqdone := True\<rparr>\<rparr>" "scene_finished st" "\<not> summarise_scenequeue_errors env st" "\<not> rv_setsceneonly env"
proof (cases "scene_finished st")
  case False
  then show thesis using assms pending by (simp add: end_scene_def)
next
  case True
  show thesis
  proof (cases "summarise_scenequeue_errors env st")
    case e: True
    then show thesis using assms failed True by (simp add: end_scene_def)
  next
    case e: False
    show thesis
    proof (cases "rv_setsceneonly env")
      case s: True
      then show thesis using assms only True e by (simp add: end_scene_def)
    next
      case s: False
      show thesis
      proof (cases "st_total (rx_stats (x_rq st)) = 0")
        case t: True
        then show thesis using assms empty True e s by (simp add: end_scene_def Let_def)
      next
        case t: False
        then show thesis using assms continued True e s by (simp add: end_scene_def Let_def)
      qed
    qed
  qed
qed

lemma end_scene_core: "end_scene env st = (b, st') \<Longrightarrow> x_scene st' = x_scene st \<and> order_core (x_rq st') = order_core (x_rq st)"
  by (erule end_scene_cases) (auto simp: set_state_def order_core_def)

text \<open>The end of a call: nothing, messages, a failed setscene task or a final state.\<close>

lemma no_more_tasks_cases:
  assumes "no_more_tasks env w st = Inr (r, st')"
  obtains (wait) "read_workers env (w_waiting w) st = Inr st'" "st_active (rx_stats (x_rq st)) > 0 \<or> st_active (sn_stats (x_scene st)) > 0"
  | (deferred) key t rest where "sn_deferred (x_scene st) = (key, t) # rest"
      "fail_scene env t (st\<lparr>x_scene := (x_scene st)\<lparr>sn_deferred := rest\<rparr>\<rparr>) = Inr st'"
  | (failed) "st' = set_state runQueueFailed st"
  | (complete) "st' = set_state runQueueComplete st" "rx_failed (x_rq st) = []" "\<not> summarise_scenequeue_errors env st" "\<not> sanity_errors st"
      "\<not> (st_active (rx_stats (x_rq st)) > 0 \<or> st_active (sn_stats (x_scene st)) > 0)"
  using assms unfolding no_more_tasks_def by (auto split: if_splits list.splits)

text \<open>
  The parts of a call in their order: messages, changed hashes, a setscene task, the set of tasks that have to wait, the end of the setscene queue, a task and the end of the call.
\<close>

lemma execute_tasks_cases:
  assumes "execute_tasks env w st = Inr (r, st')"
  obtains (scene_end) st1 where "update_holdofftasks env st = Inr st1" "end_scene env st1 = (True, st')"
  | (idle) st1 st2 st3 where "update_holdofftasks env st = Inr st1" "end_scene env st1 = (False, st2)" "next_task env st2 = Inr (None, st3)"
      "no_more_tasks env w st3 = Inr (r, st')"
  | (task) st1 st2 st3 t b st4 where "update_holdofftasks env st = Inr st1" "end_scene env st1 = (False, st2)" "next_task env st2 = Inr (Some t, st3)"
      "run_task env w t st3 = Inr (b, st4)" "if b then st' = st4 else no_more_tasks env w st4 = Inr (r, st')"
proof -
  obtain st1 where u: "update_holdofftasks env st = Inr st1" using assms by (auto simp: execute_tasks_def)
  obtain b2 st2 where e: "end_scene env st1 = (b2, st2)" by (cases "end_scene env st1")
  note a = assms [unfolded execute_tasks_def u e rbind_simps prod.case]
  show thesis
  proof (cases b2)
    case True
    then show thesis using a u e by (intro scene_end) auto
  next
    case False
    then obtain t st3 where n: "next_task env st2 = Inr (t, st3)" using a by auto
    show thesis
    proof (cases t)
      case None
      then show thesis using a u e n False by (intro idle) auto
    next
      case (Some t')
      then obtain b st4 where "run_task env w t' st3 = Inr (b, st4)" using a n False by auto
      then show thesis using a u e n False Some by (intro task) (auto split: if_splits)
    qed
  qed
qed

lemma execute_scene_cases:
  assumes "execute_scene env w st = Inr (p, st')"
  obtains (none) "p = NoScene" "st' = st"
  | (pick) "\<not> rx_sqdone (x_rq st)" "can_start_task env st" "pick_setscene env w (sort (rv_setscene_tids env)) st = Inr (p, st')"
  using assms unfolding execute_scene_def by (auto split: if_splits)

lemma execute_cases:
  assumes "execute env w st = Inr (r, st')"
  obtains (scene) st1 st2 where "read_workers env (w_first w) st = Inr st1"
      "st2 = st1 \<and> rx_updated (x_rq st1) = [] \<and> rx_pending (x_rq st1) = [] \<or> process_possible_migrations env w st1 = Inr st2 \<and> \<not> (rx_updated (x_rq st1) = [] \<and> rx_pending (x_rq st1) = [])"
      "execute_scene env w st2 = Inr (Returned, st')"
  | (start) st1 st2 t st3 where "read_workers env (w_first w) st = Inr st1"
      "st2 = st1 \<and> rx_updated (x_rq st1) = [] \<and> rx_pending (x_rq st1) = [] \<or> process_possible_migrations env w st1 = Inr st2 \<and> \<not> (rx_updated (x_rq st1) = [] \<and> rx_pending (x_rq st1) = [])"
      "execute_scene env w st2 = Inr (StartScene t, st3)" "run_setscene env w t st3 = Inr (True, st')"
  | (tasks) st1 st2 st3 st4 where "read_workers env (w_first w) st = Inr st1"
      "st2 = st1 \<and> rx_updated (x_rq st1) = [] \<and> rx_pending (x_rq st1) = [] \<or> process_possible_migrations env w st1 = Inr st2 \<and> \<not> (rx_updated (x_rq st1) = [] \<and> rx_pending (x_rq st1) = [])"
      "execute_scene env w st2 = Inr (NoScene, st3) \<and> st4 = st3 \<or> (\<exists>t. execute_scene env w st2 = Inr (StartScene t, st3) \<and> run_setscene env w t st3 = Inr (False, st4))"
      "execute_tasks env w st4 = Inr (r, st')"
proof -
  obtain st1 where f: "read_workers env (w_first w) st = Inr st1" using assms by (auto simp: execute_def)
  obtain st2 where m: "(if rx_updated (x_rq st1) \<noteq> [] \<or> rx_pending (x_rq st1) \<noteq> [] then process_possible_migrations env w st1 else Inr st1) = Inr st2"
    using assms f by (auto simp: execute_def)
  then have m2: "st2 = st1 \<and> rx_updated (x_rq st1) = [] \<and> rx_pending (x_rq st1) = [] \<or> process_possible_migrations env w st1 = Inr st2 \<and> \<not> (rx_updated (x_rq st1) = [] \<and> rx_pending (x_rq st1) = [])"
    by (auto split: if_splits)
  obtain p st3 where p: "execute_scene env w st2 = Inr (p, st3)" using assms f m by (auto simp: execute_def)
  note a = assms [unfolded execute_def f m p rbind_simps prod.case]
  show thesis
  proof (cases p)
    case Returned
    then show thesis using a p by (intro scene [OF f m2]) auto
  next
    case NoScene
    then show thesis using a p by (intro tasks [OF f m2]) auto
  next
    case (StartScene t)
    then obtain b st4 where s: "run_setscene env w t st3 = Inr (b, st4)" using a by auto
    show thesis
    proof (cases b)
      case True
      then show thesis using a p s StartScene by (intro start [OF f m2]) auto
    next
      case False
      then show thesis using a p s StartScene by (intro tasks [OF f m2]) auto
    qed
  qed
qed

section \<open>Steps and reachable states\<close>

text \<open>
  A contract for invariants: a property of states that holds after every elementary change holds after every call. \<open>M\<close> says which messages
  may arrive, \<open>W\<close> restricts the outside world.
\<close>

definition silent :: "world \<Rightarrow> bool" where
  "silent w \<longleftrightarrow> w_first w = [] \<and> w_waiting w = [] \<and> w_finishing w = []"

inductive xstep :: "'g rqenv \<Rightarrow> (message \<Rightarrow> 'g xstate \<Rightarrow> bool) \<Rightarrow> (world \<Rightarrow> bool) \<Rightarrow> 'g xstate \<Rightarrow> 'g xstate \<Rightarrow> bool" for env M W where
  message: "M m st \<Longrightarrow> worker_message env m st = Inr st' \<Longrightarrow> xstep env M W st st'"
| execute: "W w \<Longrightarrow> silent w \<Longrightarrow> execute env w st = Inr (r, st') \<Longrightarrow> xstep env M W st st'"
| finish: "W w \<Longrightarrow> silent w \<Longrightarrow> finish env w st = Inr (r, st') \<Longrightarrow> xstep env M W st st'"
| finish_now: "xstep env M W st (finish_now st)"
| files: "xstep env M W st (st\<lparr>x_rq := (x_rq st)\<lparr>rx_files := fs\<rparr>\<rparr>)"

inductive reach :: "'g rqenv \<Rightarrow> (message \<Rightarrow> 'g xstate \<Rightarrow> bool) \<Rightarrow> (world \<Rightarrow> bool) \<Rightarrow> rtentries \<Rightarrow> 'g xstate \<Rightarrow> bool" for env M W entries where
  init: "W w \<Longrightarrow> scene_init env w scheduler entries g fs = Inr st \<Longrightarrow> reach env M W entries st"
| step: "reach env M W entries st \<Longrightarrow> xstep env M W st st' \<Longrightarrow> reach env M W entries st'"

text \<open>Workers report the exit only of tasks that were given to them and have not been reported.\<close>

fun honest :: "message \<Rightarrow> 'g xstate \<Rightarrow> bool" where
  "honest (Exitcode t s) st \<longleftrightarrow> t \<in> set (sn_live (x_scene st)) \<or>
     t \<in> set (rx_running (x_rq st)) \<and> t \<notin> set (rx_complete (x_rq st)) \<and> t \<notin> set (rx_failed (x_rq st))"
| "honest m st \<longleftrightarrow> True"

section \<open>Messages that arrive during a call\<close>

text \<open>
  The source reads the pipes of the workers inside \<open>execute\<close> and \<open>finish\<close>; such a call is the same as the steps above in a row: the messages of the first reading,
  the call without messages, whatever state the first ones have set, and the messages of the reading at its end.
\<close>

definition hushed :: "world \<Rightarrow> world" where
  "hushed w = w\<lparr>w_first := [], w_waiting := [], w_finishing := []\<rparr>"

lemma hushed_simps [simp]:
  "w_now (hushed w) = w_now w" "w_hashvalidate (hushed w) = w_hashvalidate w" "w_depvalidate (hushed w) = w_depvalidate w"
  "w_fakeworker (hushed w) = w_fakeworker w" "w_first (hushed w) = []" "w_waiting (hushed w) = []" "w_finishing (hushed w) = []" "silent (hushed w)"
  by (simp_all add: hushed_def silent_def)

lemma write_stamp_hushed [simp]: "write_stamp env (hushed w) = write_stamp env w"
  by (intro ext) (unfold write_stamp_def hushed_simps, rule refl)

lemma validate_hashes_hushed [simp]: "validate_hashes env (hushed w) = validate_hashes env w"
  by (intro ext) (unfold validate_hashes_def hushed_simps, rule refl)

lemma refresh_tid_hushed [simp]: "refresh_tid env (hushed w) = refresh_tid env w"
  by (intro ext) (unfold refresh_tid_def write_stamp_hushed, rule refl)

lemma update_scenequeue_data_hushed [simp]: "update_scenequeue_data env (hushed w) = update_scenequeue_data env w"
  by (intro ext) (unfold update_scenequeue_data_def refresh_tid_hushed validate_hashes_hushed, rule refl)

lemma conclude_migrations_hushed [simp]: "conclude_migrations env (hushed w) = conclude_migrations env w"
  by (intro ext) (unfold conclude_migrations_def update_scenequeue_data_hushed, rule refl)

lemma migrations_hushed [simp]: "process_possible_migrations env (hushed w) = process_possible_migrations env w"
  by (intro ext) (unfold process_possible_migrations_def conclude_migrations_hushed, rule refl)

lemma check_dependencies_hushed [simp]: "check_dependencies env (hushed w) = check_dependencies env w"
  by (intro ext) (unfold check_dependencies_def hushed_simps, rule refl)

lemma scene_not_needed_hushed [simp]: "scene_not_needed env (hushed w) = scene_not_needed env w"
  by (intro ext) (unfold scene_not_needed_def check_dependencies_hushed, rule refl)

lemma deferred_scene_hushed [simp]: "deferred_scene env (hushed w) = deferred_scene env w"
  by (intro ext) (simp add: deferred_scene_def)

lemma consider_scene_hushed [simp]: "consider_scene env (hushed w) = consider_scene env w"
  by (intro ext) (unfold consider_scene_def scene_not_needed_hushed validate_hashes_hushed deferred_scene_hushed, rule refl)

lemma pick_setscene_hushed [simp]: "pick_setscene env (hushed w) tasks st = pick_setscene env w tasks st"
  by (induction tasks arbitrary: st) (simp_all cong: option.case_cong if_cong)

lemma execute_scene_hushed [simp]: "execute_scene env (hushed w) = execute_scene env w"
  by (intro ext) (unfold execute_scene_def pick_setscene_hushed, rule refl)

lemma start_setscene_hushed [simp]: "start_setscene env (hushed w) = start_setscene env w"
  by (intro ext) (unfold start_setscene_def hushed_simps, rule refl)

lemma run_setscene_hushed [simp]: "run_setscene env (hushed w) = run_setscene env w"
  by (intro ext) (unfold run_setscene_def start_setscene_hushed, rule refl)

lemma start_task_hushed [simp]: "start_task env (hushed w) = start_task env w"
  by (intro ext) (unfold start_task_def hushed_simps, rule refl)

lemma run_noexec_hushed [simp]: "run_noexec env (hushed w) = run_noexec env w"
  by (intro ext) (unfold run_noexec_def write_stamp_hushed, rule refl)

lemma run_task_hushed [simp]: "run_task env (hushed w) = run_task env w"
  by (intro ext) (unfold run_task_def start_task_hushed run_noexec_hushed, rule refl)

lemma rbind_elim: "rbind x f = Inr r \<Longrightarrow> (\<And>a. x = Inr a \<Longrightarrow> f a = Inr r \<Longrightarrow> P) \<Longrightarrow> P"
  by (cases x) simp_all

lemma no_more_tasks_split:
  assumes "no_more_tasks env w st = Inr (r, st')"
  shows "\<exists>r2 st2. no_more_tasks env (hushed w) st = Inr (r2, st2) \<and> (st' = st2 \<or> read_workers env (w_waiting w) st2 = Inr st')"
proof (cases "st_active (rx_stats (x_rq st)) > 0 \<or> st_active (sn_stats (x_scene st)) > 0")
  case True
  then show ?thesis using assms by (auto simp: no_more_tasks_def read_workers_def)
next
  case False
  then have "no_more_tasks env (hushed w) st = no_more_tasks env w st" by (simp only: no_more_tasks_def if_False)
  then show ?thesis using assms by auto
qed

lemma execute_tasks_split:
  assumes "execute_tasks env w st = Inr (r, st')"
  shows "\<exists>r2 st2. execute_tasks env (hushed w) st = Inr (r2, st2) \<and> (st' = st2 \<or> read_workers env (w_waiting w) st2 = Inr st')"
proof -
  obtain st1 where 1: "update_holdofftasks env st = Inr st1" using assms unfolding execute_tasks_def by (elim rbind_elim)
  obtain b st2 where 2: "end_scene env st1 = (b, st2)" by fastforce
  show ?thesis
  proof (cases b)
    case True
    with assms 1 2 show ?thesis unfolding execute_tasks_def 1 rbind_simps 2 by auto
  next
    case False
    then have b: "b = False" by simp
    with assms obtain t st3 where 3: "next_task env st2 = Inr (t, st3)" unfolding execute_tasks_def 1 rbind_simps 2 by auto
    show ?thesis
    proof (cases t)
      case None
      with assms have "no_more_tasks env w st3 = Inr (r, st')" unfolding execute_tasks_def 1 rbind_simps 2 prod.case b bool.case 3 by simp
      from no_more_tasks_split [OF this] show ?thesis unfolding execute_tasks_def 1 rbind_simps 2 prod.case b bool.case 3 None option.case by simp
    next
      case (Some task)
      with assms obtain ret st4 where 4: "run_task env w task st3 = Inr (ret, st4)"
        "(if ret then Inr (RTrue, st4) else no_more_tasks env w st4) = Inr (r, st')"
        unfolding execute_tasks_def 1 rbind_simps 2 prod.case b bool.case 3 by (cases "run_task env w task st3") auto
      have "execute_tasks env (hushed w) st = (if ret then Inr (RTrue, st4) else no_more_tasks env (hushed w) st4)"
        unfolding execute_tasks_def 1 rbind_simps 2 prod.case b bool.case 3 Some option.case run_task_hushed 4(1) ..
      with 4(2) no_more_tasks_split [of env w st4 r st'] show ?thesis by (cases ret) simp_all
    qed
  qed
qed

lemma execute_split:
  assumes "execute env w st = Inr (r, st')"
  obtains st1 r2 st2 where "read_workers env (w_first w) st = Inr st1" "execute env (hushed w) st1 = Inr (r2, st2)"
    "st' = st2 \<or> read_workers env (w_waiting w) st2 = Inr st'"
proof -
  obtain st1 where 1: "read_workers env (w_first w) st = Inr st1" using assms unfolding execute_def by (elim rbind_elim)
  obtain st2 where 2: "(if rx_updated (x_rq st1) \<noteq> [] \<or> rx_pending (x_rq st1) \<noteq> [] then process_possible_migrations env w st1 else Inr st1) = Inr st2"
    using assms unfolding execute_def 1 rbind_simps by (elim rbind_elim)
  obtain p st3 where 3: "execute_scene env w st2 = Inr (p, st3)" using assms unfolding execute_def 1 rbind_simps 2 by (elim rbind_elim) auto
  have quiet: "read_workers env (w_first (hushed w)) st1 = Inr st1" by (simp add: read_workers_def)
  note hush = execute_def quiet migrations_hushed rbind_simps 2 execute_scene_hushed 3 prod.case
  have e: "(case p of Returned \<Rightarrow> Inr (RTrue, st3) | NoScene \<Rightarrow> execute_tasks env w st3
     | StartScene task \<Rightarrow> rbind (run_setscene env w task st3) (\<lambda>(returned, st4). if returned then Inr (RTrue, st4) else execute_tasks env w st4)) = Inr (r, st')"
    using assms unfolding execute_def 1 rbind_simps 2 3 prod.case .
  have "\<exists>r2 st2. execute env (hushed w) st1 = Inr (r2, st2) \<and> (st' = st2 \<or> read_workers env (w_waiting w) st2 = Inr st')"
  proof (cases p)
    case NoScene
    with e have "execute_tasks env w st3 = Inr (r, st')" by simp
    from execute_tasks_split [OF this] show ?thesis unfolding hush NoScene scene_pick.case .
  next
    case (StartScene task)
    with e obtain ret st4 where 4: "run_setscene env w task st3 = Inr (ret, st4)"
      "(if ret then Inr (RTrue, st4) else execute_tasks env w st4) = Inr (r, st')" by (cases "run_setscene env w task st3") auto
    show ?thesis unfolding hush StartScene scene_pick.case run_setscene_hushed 4(1)
      using 4(2) execute_tasks_split [of env w st4 r st'] by (cases ret) simp_all
  next
    case Returned
    with e show ?thesis unfolding hush Returned scene_pick.case by auto
  qed
  with 1 that show thesis by blast
qed

lemma finish_split:
  assumes "finish env w st = Inr (r, st')"
  obtains r2 st2 where "finish env (hushed w) st = Inr (r2, st2)" "st' = st2 \<or> read_workers env (w_finishing w) st2 = Inr st'"
  using assms by (cases "st_active (rx_stats (x_rq st)) + st_active (sn_stats (x_scene st)) > 0") (auto simp: finish_def set_state_def read_workers_def Let_def)

text \<open>So every call of \<^verbatim>\<open>_execute_runqueue\<close> goes from reachable states to reachable states.\<close>

lemma read_workers_reach:
  "read_workers env ms st = Inr st' \<Longrightarrow> reach env (\<lambda>m st. True) W entries st \<Longrightarrow> reach env (\<lambda>m st. True) W entries st'"
  unfolding read_workers_def
proof (induction ms arbitrary: st)
  case (Cons m ms)
  then obtain st1 where "worker_message env m st = Inr st1" "rfold (worker_message env) ms st1 = Inr st'" by auto
  with Cons reach.step [OF Cons.prems(2) xstep.message [where M = "\<lambda>m st. True" and m = m]] show ?case by blast
qed simp

lemma run_stages_reach:
  assumes "run_stages env w st = Inr (r, st')" "reach env (\<lambda>m st. True) W entries st" "W (hushed w)"
  shows "reach env (\<lambda>m st. True) W entries st'"
proof -
  let ?R = "reach env (\<lambda>m st. True) W entries"
  have exec: "?R st2" if e: "execute env w st1 = Inr (r1, st2)" "?R st1" for st1 r1 st2
  proof -
    obtain a r2 b where s: "read_workers env (w_first w) st1 = Inr a" "execute env (hushed w) a = Inr (r2, b)" "st2 = b \<or> read_workers env (w_waiting w) b = Inr st2"
      using execute_split [OF e(1)] by blast
    have "?R b" by (rule reach.step [OF read_workers_reach [OF s(1) e(2)]]) (rule xstep.execute [where W = W, OF assms(3) _ s(2)], simp)
    with s(3) read_workers_reach show ?thesis by blast
  qed
  have fin: "?R st2" if e: "finish env w st1 = Inr (r1, st2)" "?R st1" for st1 r1 st2
  proof -
    obtain r2 b where s: "finish env (hushed w) st1 = Inr (r2, b)" "st2 = b \<or> read_workers env (w_finishing w) b = Inr st2"
      using finish_split [OF e(1)] by blast
    have "?R b" by (rule reach.step [OF e(2)]) (rule xstep.finish [where W = W, OF assms(3) _ s(1)], simp)
    with s(2) read_workers_reach show ?thesis by blast
  qed
  obtain r1 st1 where 1: "(if rx_state (x_rq st) = runQueueRunning then execute env w st else Inr (RTrue, st)) = Inr (r1, st1)"
    "(if rx_state (x_rq st1) = runQueueCleanUp then finish env w st1 else Inr (r1, st1)) = Inr (r, st')"
    using assms(1) unfolding run_stages_def by (elim rbind_elim) auto
  have "?R st1" using 1(1) exec [OF _ assms(2)] assms(2) by (auto split: if_splits)
  then show ?thesis using 1(2) fin by (auto split: if_splits)
qed

locale exec_invariant =
  fixes I :: "'g rqenv \<Rightarrow> 'g xstate \<Rightarrow> bool" and M :: "'g rqenv \<Rightarrow> message \<Rightarrow> 'g xstate \<Rightarrow> bool" and W :: "'g rqenv \<Rightarrow> world \<Rightarrow> bool"
  assumes I_message: "I env st \<Longrightarrow> M env m st \<Longrightarrow> worker_message env m st = Inr st' \<Longrightarrow> I env st'"
    and I_migrate: "I env st \<Longrightarrow> W env w \<Longrightarrow> process_possible_migrations env w st = Inr st' \<Longrightarrow> \<not> (rx_updated (x_rq st) = [] \<and> rx_pending (x_rq st) = []) \<Longrightarrow> I env st'"
    and I_consider: "I env st \<Longrightarrow> W env w \<Longrightarrow> \<not> rx_sqdone (x_rq st) \<Longrightarrow> can_start_task env st \<Longrightarrow> t \<in> set (rv_setscene_tids env) \<Longrightarrow>
      scene_startable t st = Inr True \<Longrightarrow> consider_scene env w t st = Inr (r, st') \<Longrightarrow>
      I env st' \<and> (r \<noteq> Some Returned \<longrightarrow> \<not> rx_sqdone (x_rq st') \<and> can_start_task env st' \<and> scene_startable t st' = Inr True) \<and> (\<forall>u. r = Some (StartScene u) \<longrightarrow> u = t)"
    and I_setscene: "I env st \<Longrightarrow> W env w \<Longrightarrow> \<not> rx_sqdone (x_rq st) \<Longrightarrow> can_start_task env st \<Longrightarrow> t \<in> set (rv_setscene_tids env) \<Longrightarrow> scene_startable t st = Inr True \<Longrightarrow>
      run_setscene env w t st = Inr (b, st') \<Longrightarrow> I env st'"
    and I_holdoff: "I env st \<Longrightarrow> update_holdofftasks env st = Inr st' \<Longrightarrow> I env st'"
    and I_end: "I env st \<Longrightarrow> \<not> sn_need_update (x_scene st) \<Longrightarrow> end_scene env st = (b, st') \<Longrightarrow> I env st'"
    and I_next: "I env st \<Longrightarrow> next_task env st = Inr (nt, st') \<Longrightarrow> I env st'"
    and I_task: "I env st \<Longrightarrow> W env w \<Longrightarrow> \<not> sn_need_update (x_scene st) \<Longrightarrow> t \<notin> set (rx_running (x_rq st)) \<Longrightarrow> can_start_task env st \<Longrightarrow>
      deps_met (rx_entries (x_rq st)) (rx_complete (x_rq st)) t \<Longrightarrow> t \<notin> set (rx_holdoff (x_rq st)) \<Longrightarrow>
      t \<in> set (rx_covered (x_rq st)) \<union> set (rx_notcovered (x_rq st)) \<Longrightarrow> run_task env w t st = Inr (b, st') \<Longrightarrow> I env st'"
    and I_deferred: "I env st \<Longrightarrow> sn_deferred (x_scene st) = (key, t) # rest \<Longrightarrow>
      fail_scene env t (st\<lparr>x_scene := (x_scene st)\<lparr>sn_deferred := rest\<rparr>\<rparr>) = Inr st' \<Longrightarrow> I env st'"
    and I_state: "I env st \<Longrightarrow> I env (set_state s st)"
    and I_files: "I env st \<Longrightarrow> I env (st\<lparr>x_rq := (x_rq st)\<lparr>rx_files := fs\<rparr>\<rparr>)"
    and I_order: "I env st \<Longrightarrow> order_inv (x_rq st)"
begin

lemma pick_keeps:
  assumes "pick_setscene env w ts st = Inr (p, st')" "I env st" "W env w" "\<not> rx_sqdone (x_rq st)" "can_start_task env st" "set ts \<subseteq> set (rv_setscene_tids env)"
  shows "I env st' \<and> (\<forall>t. p = StartScene t \<longrightarrow> \<not> rx_sqdone (x_rq st') \<and> can_start_task env st' \<and> t \<in> set (rv_setscene_tids env) \<and> scene_startable t st' = Inr True)"
  using assms
proof (induction ts arbitrary: st)
  case (Cons t ts)
  then obtain b where b: "scene_startable t st = Inr b" by auto
  show ?case
  proof (cases b)
    case False
    with b Cons show ?thesis by auto
  next
    case True
    with b Cons.prems obtain r st1 where r: "consider_scene env w t st = Inr (r, st1)"
        "(case r of None \<Rightarrow> pick_setscene env w ts st1 | Some p \<Rightarrow> Inr (p, st1)) = Inr (p, st')" by auto
    have s: "I env st1" "r \<noteq> Some Returned \<Longrightarrow> \<not> rx_sqdone (x_rq st1) \<and> can_start_task env st1 \<and> scene_startable t st1 = Inr True"
        "\<And>u. r = Some (StartScene u) \<Longrightarrow> u = t"
      using I_consider [OF Cons.prems(2-5) _ _ r(1)] b True Cons.prems(6) by auto
    show ?thesis
    proof (cases r)
      case None
      then have "pick_setscene env w ts st1 = Inr (p, st')" "\<not> rx_sqdone (x_rq st1)" "can_start_task env st1" using r(2) s(2) by simp_all
      then show ?thesis using Cons.IH [of st1] s(1) Cons.prems(3,6) by simp
    next
      case (Some q)
      then show ?thesis using r(2) s Cons.prems(6) by (cases q) auto
    qed
  qed
qed simp

lemma no_more_keeps:
  assumes "no_more_tasks env w st = Inr (r, st')" "I env st" "silent w"
  shows "I env st'"
  using assms(1)
proof (cases rule: no_more_tasks_cases)
  case wait
  then show ?thesis using assms(2,3) by (simp add: read_workers_def silent_def)
next
  case (deferred key t rest)
  then show ?thesis using I_deferred assms(2) by blast
qed (use I_state assms(2) in auto)

lemma tasks_keeps:
  assumes "execute_tasks env w st = Inr (r, st')" "I env st" "W env w" "silent w"
  shows "I env st'"
  using assms(1)
proof (cases rule: execute_tasks_cases)
  case (scene_end st1)
  have "\<not> sn_need_update (x_scene st1)" using scene_end(1) by (cases rule: update_holdofftasks_cases) auto
  with scene_end show ?thesis using I_holdoff I_end assms(2) by blast
next
  case (idle st1 st2 st3)
  have "\<not> sn_need_update (x_scene st1)" using idle(1) by (cases rule: update_holdofftasks_cases) auto
  with idle show ?thesis using I_holdoff I_end I_next no_more_keeps assms(2,4) by blast
next
  case (task st1 st2 st3 t b st4)
  have n1: "\<not> sn_need_update (x_scene st1)" using task(1) by (cases rule: update_holdofftasks_cases) auto
  have i2: "I env st2" using task(1,2) n1 I_holdoff I_end assms(2) by blast
  have n2: "\<not> sn_need_update (x_scene st2)" using n1 end_scene_core [OF task(2)] by simp
  note f = next_task_from [OF task(3)]
  have i3: "I env st3" using I_next i2 task(3) by blast
  have "I env st4"
  proof (rule I_task [OF i3 assms(3) _ _ _ _ _ _ task(4)])
    have "deps_met (rx_entries (x_rq st2)) (rx_complete (x_rq st2)) t" using f(3) [OF refl] I_order [OF i2] by (auto simp: order_inv_def)
    then show "deps_met (rx_entries (x_rq st3)) (rx_complete (x_rq st3)) t" using f(1) by auto
    show "\<not> sn_need_update (x_scene st3)" using f(2) n2 by simp
    show "can_start_task env st3" using f(3) [OF refl] f(1,2) by (auto simp: can_start_task_def)
  qed (use f(1) f(3) [OF refl] in auto)
  then show ?thesis using task(5) no_more_keeps assms(4) by (auto split: if_splits)
qed

lemma scene_keeps:
  assumes "execute_scene env w st = Inr (p, st')" "I env st" "W env w"
  shows "I env st' \<and> (\<forall>t. p = StartScene t \<longrightarrow> \<not> rx_sqdone (x_rq st') \<and> can_start_task env st' \<and> t \<in> set (rv_setscene_tids env) \<and> scene_startable t st' = Inr True)"
  using assms(1)
proof (cases rule: execute_scene_cases)
  case pick
  then show ?thesis by (intro pick_keeps [OF _ assms(2,3)]) auto
qed (use assms(2) in simp)

lemma execute_keeps:
  assumes "execute env w st = Inr (r, st')" "I env st" "W env w" "silent w"
  shows "I env st'"
proof -
  have st2: "I env st2" if "read_workers env (w_first w) st = Inr st1"
    "st2 = st1 \<and> rx_updated (x_rq st1) = [] \<and> rx_pending (x_rq st1) = [] \<or> process_possible_migrations env w st1 = Inr st2 \<and> \<not> (rx_updated (x_rq st1) = [] \<and> rx_pending (x_rq st1) = [])" for st1 st2
    using that assms I_migrate by (auto simp: read_workers_def silent_def)
  show ?thesis using assms(1)
  proof (cases rule: execute_cases)
    case (scene st1 st2)
    then show ?thesis using scene_keeps [OF _ st2 assms(3)] by blast
  next
    case (start st1 st2 t st3)
    then show ?thesis using scene_keeps [OF start(3) st2 assms(3)] I_setscene [OF _ assms(3)] by blast
  next
    case (tasks st1 st2 st3 st4)
    have "I env st4" using tasks(3)
    proof
      assume "execute_scene env w st2 = Inr (NoScene, st3) \<and> st4 = st3"
      then show ?thesis using scene_keeps [OF _ st2 [OF tasks(1,2)] assms(3)] by blast
    next
      assume "\<exists>t. execute_scene env w st2 = Inr (StartScene t, st3) \<and> run_setscene env w t st3 = Inr (False, st4)"
      then obtain t where t: "execute_scene env w st2 = Inr (StartScene t, st3)" "run_setscene env w t st3 = Inr (False, st4)" by blast
      from scene_keeps [OF t(1) st2 [OF tasks(1,2)] assms(3)] show ?thesis using I_setscene [OF _ assms(3) _ _ _ _ t(2)] by blast
    qed
    then show ?thesis using tasks_keeps [OF tasks(4) _ assms(3,4)] by blast
  qed
qed

lemma finish_keeps:
  assumes "finish env w st = Inr (r, st')" "I env st" "silent w"
  shows "I env st'"
  using assms unfolding finish_def Let_def by (auto simp: silent_def read_workers_def intro: I_state split: if_splits)

lemma step_keeps:
  assumes "xstep env (M env) (W env) st st'" "I env st"
  shows "I env st'"
  using assms(1)
proof (cases rule: xstep.cases)
  case (message m)
  then show ?thesis using I_message assms(2) by blast
next
  case (execute w r)
  then show ?thesis using execute_keeps assms(2) by blast
next
  case (finish w r)
  then show ?thesis using finish_keeps assms(2) by blast
next
  case finish_now
  then have "st' = set_state (if rx_failed (x_rq st) \<noteq> [] then runQueueFailed else runQueueComplete) st" by (simp add: finish_now_def set_state_def Let_def)
  then show ?thesis using I_state assms(2) by simp
next
  case (files fs)
  then show ?thesis using I_files assms(2) by blast
qed

lemma reach_keeps:
  assumes "reach env (M env) (W env) entries st" "\<And>w scheduler g fs st. W env w \<Longrightarrow> scene_init env w scheduler entries g fs = Inr st \<Longrightarrow> I env st"
  shows "I env st"
  using assms(1)
proof (induction rule: reach.induct)
  case (step st st')
  then show ?case using step_keeps by blast
qed (use assms(2) in blast)

end

section \<open>No task starts before its dependencies\<close>

definition order_ok :: "rtentries \<Rightarrow> 'g xstate \<Rightarrow> bool" where
  "order_ok entries st \<longleftrightarrow> deps_of (rx_entries (x_rq st)) = deps_of entries \<and> dict_keys (rx_entries (x_rq st)) = dict_keys entries \<and>
     st_total (rx_stats (x_rq st)) = int (length entries) \<and> set (rx_running (x_rq st)) \<subseteq> set (dict_keys entries) \<and> order_inv (x_rq st) \<and> set (rx_complete (x_rq st)) \<subseteq> set (rx_running (x_rq st))"

lemma order_ok_core: "order_core (x_rq st') = order_core (x_rq st) \<Longrightarrow> order_ok entries st \<Longrightarrow> order_ok entries st'"
  using order_inv_core [of "x_rq st'" "x_rq st"] unfolding order_ok_def order_core_def by simp

lemma active_simps [simp]:
  "st_active (taskCompleted s) = st_active s - 1" "st_active (taskFailed s) = st_active s - 1"
  "st_active (taskSkipped s) = st_active s + 1" "st_active (taskActive s) = st_active s + 1"
  "st_total (taskCompleted s) = st_total s" "st_total (taskFailed s) = st_total s" "st_total (taskSkipped s) = st_total s" "st_total (taskActive s) = st_total s"
  by (simp_all add: taskCompleted_def taskFailed_def taskSkipped_def taskActive_def)

lemma completeoutright_fields:
  assumes "task_completeoutright t rx = Inr rx'"
  shows "rx_complete rx' = add_new t (rx_complete rx)" "rx_running rx' = rx_running rx" "rx_failed rx' = rx_failed rx" "rx_stats rx' = rx_stats rx"
    "rx_entries rx' = rx_entries rx" "rx_state rx' = rx_state rx"
    "rx_updated rx' = rx_updated rx" "rx_pending rx' = rx_pending rx" "rx_holdoff rx' = rx_holdoff rx" "rx_sqdone rx' = rx_sqdone rx"
  using releases_fields [OF completeoutright_releases [OF assms]] by simp_all

lemma complete_fields:
  assumes "task_complete t rx = Inr rx'"
  shows "rx_complete rx' = add_new t (rx_complete rx)" "rx_running rx' = rx_running rx" "rx_failed rx' = rx_failed rx" "rx_stats rx' = taskCompleted (rx_stats rx)"
    "rx_entries rx' = rx_entries rx" "rx_state rx' = rx_state rx"
    "rx_updated rx' = rx_updated rx" "rx_pending rx' = rx_pending rx" "rx_holdoff rx' = rx_holdoff rx" "rx_sqdone rx' = rx_sqdone rx"
proof -
  obtain rx1 where "task_completeoutright t (rx\<lparr>rx_stats := taskCompleted (rx_stats rx)\<rparr>) = Inr rx1" "rx' = rx1\<lparr>rx_tasksrun := add_new t (rx_tasksrun rx1)\<rparr>"
    using assms by (auto simp: task_complete_def)
  with completeoutright_fields [OF this(1)]
  show "rx_complete rx' = add_new t (rx_complete rx)" "rx_running rx' = rx_running rx" "rx_failed rx' = rx_failed rx" "rx_stats rx' = taskCompleted (rx_stats rx)"
    "rx_entries rx' = rx_entries rx" "rx_state rx' = rx_state rx"
    "rx_updated rx' = rx_updated rx" "rx_pending rx' = rx_pending rx" "rx_holdoff rx' = rx_holdoff rx" "rx_sqdone rx' = rx_sqdone rx" by simp_all
qed

lemma skip_fields:
  assumes "task_skip t rx = Inr rx'"
  shows "rx_complete rx' = add_new t (rx_complete rx)" "rx_running rx' = add_new t (rx_running rx)" "rx_failed rx' = rx_failed rx"
    "rx_stats rx' = taskCompleted (taskSkipped (rx_stats rx))" "rx_entries rx' = rx_entries rx" "rx_state rx' = rx_state rx"
    "rx_updated rx' = rx_updated rx" "rx_pending rx' = rx_pending rx" "rx_holdoff rx' = rx_holdoff rx" "rx_sqdone rx' = rx_sqdone rx"
proof -
  obtain rx1 where "task_completeoutright t (setbuildable t (rx\<lparr>rx_running := add_new t (rx_running rx)\<rparr>)) = Inr rx1"
      "rx' = rx1\<lparr>rx_stats := taskCompleted (taskSkipped (rx_stats rx1))\<rparr>" using assms by (auto simp: task_skip_def)
  with completeoutright_fields [OF this(1)]
  show "rx_complete rx' = add_new t (rx_complete rx)" "rx_running rx' = add_new t (rx_running rx)" "rx_failed rx' = rx_failed rx"
    "rx_stats rx' = taskCompleted (taskSkipped (rx_stats rx))" "rx_entries rx' = rx_entries rx" "rx_state rx' = rx_state rx"
    "rx_updated rx' = rx_updated rx" "rx_pending rx' = rx_pending rx" "rx_holdoff rx' = rx_holdoff rx" "rx_sqdone rx' = rx_sqdone rx" by (simp_all add: setbuildable_def)
qed

lemma noexec_fields:
  assumes "run_noexec env w t n dc fn rx = Inr rx'"
  shows "rx_complete rx' = add_new t (rx_complete rx)" "rx_running rx' = add_new t (rx_running rx)" "rx_failed rx' = rx_failed rx"
    "rx_stats rx' = taskCompleted (taskActive (rx_stats rx))" "rx_entries rx' = rx_entries rx" "rx_state rx' = rx_state rx"
    "rx_updated rx' = rx_updated rx" "rx_pending rx' = rx_pending rx" "rx_holdoff rx' = rx_holdoff rx" "rx_sqdone rx' = rx_sqdone rx"
proof -
  let ?rx = "rx\<lparr>rx_running := add_new t (rx_running rx), rx_stats := taskActive (rx_stats rx)\<rparr>"
  obtain rx1 where r: "(if rv_dry_run env \<or> rv_setscene_enforce env then Inr ?rx else write_stamp env w n dc fn ?rx) = Inr rx1" "task_complete t rx1 = Inr rx'"
    using assms by (auto simp: run_noexec_def Let_def)
  have "\<exists>fs. rx1 = ?rx\<lparr>rx_files := fs\<rparr>"
  proof (cases "rv_dry_run env \<or> rv_setscene_enforce env")
    case True
    then have "rx1 = ?rx\<lparr>rx_files := rx_files ?rx\<rparr>" using r(1) by simp
    then show ?thesis by blast
  next
    case False
    then show ?thesis using r(1) write_stamp_rx [of env w n dc fn ?rx rx1] by simp
  qed
  then obtain fs where "rx1 = ?rx\<lparr>rx_files := fs\<rparr>" by blast
  with complete_fields [OF r(2)]
  show "rx_complete rx' = add_new t (rx_complete rx)" "rx_running rx' = add_new t (rx_running rx)" "rx_failed rx' = rx_failed rx"
    "rx_stats rx' = taskCompleted (taskActive (rx_stats rx))" "rx_entries rx' = rx_entries rx" "rx_state rx' = rx_state rx"
    "rx_updated rx' = rx_updated rx" "rx_pending rx' = rx_pending rx" "rx_holdoff rx' = rx_holdoff rx" "rx_sqdone rx' = rx_sqdone rx" by simp_all
qed

lemma order_ok_message:
  assumes "worker_message env m st = Inr st'" "honest m st" "order_ok entries st"
  shows "order_ok entries st'"
proof -
  have o: "order_inv (x_rq st')" using order_inv_message assms(1,3) unfolding order_ok_def by blast
  have "rx_entries (x_rq st') = rx_entries (x_rq st) \<and> st_total (rx_stats (x_rq st')) = st_total (rx_stats (x_rq st)) \<and> rx_running (x_rq st') = rx_running (x_rq st) \<and> set (rx_complete (x_rq st')) \<subseteq> set (rx_running (x_rq st'))"
  proof (cases m)
    case (Exitcode t s)
    have "runqueue_process_waitpid env t s st = Inr st'" using assms(1) Exitcode by (simp add: worker_message_def)
    then show ?thesis
    proof (cases rule: process_waitpid_cases)
      case (fail a b)
      then show ?thesis using task_fail_rx [OF fail(4)] assms(3) by (auto simp: order_ok_def)
    next
      case (complete a b)
      then show ?thesis using complete_fields [OF complete(4)] assms(2,3) Exitcode by (auto simp: order_ok_def)
    qed (use assms(3) in \<open>auto simp: order_ok_def\<close>)
  qed (use assms in \<open>auto simp: worker_message_def finish_now_def Let_def order_ok_def\<close>)
  with o assms(3) show ?thesis by (auto simp: order_ok_def)
qed

text \<open>Tasks that start are tasks of the queue.\<close>

lemma task_keys:
  "task_skip t rx = Inr rx' \<Longrightarrow> t \<in> set (dict_keys (rx_entries rx))"
  "run_noexec env w t n dc fn rx = Inr rx' \<Longrightarrow> t \<in> set (dict_keys (rx_entries rx))"
  "start_task env w t mc n fn dc td st = Inr (b, st') \<Longrightarrow> t \<in> set (dict_keys (rx_entries (x_rq st)))"
proof -
  have outright: "task_completeoutright t rx = Inr rx' \<Longrightarrow> t \<in> set (dict_keys (rx_entries rx))" for rx rx' :: "'g rqexe"
    by (auto simp: task_completeoutright_def Let_def dest: map_of_SomeD intro: rev_image_eqI)
  show "task_skip t rx = Inr rx' \<Longrightarrow> t \<in> set (dict_keys (rx_entries rx))"
    by (auto simp: task_skip_def setbuildable_def simp del: set_map dest!: outright)
  show "run_noexec env w t n dc fn rx = Inr rx' \<Longrightarrow> t \<in> set (dict_keys (rx_entries rx))"
    by (auto simp: run_noexec_def task_complete_def Let_def simp del: set_map dest!: outright write_stamp_rx split: if_splits)
  show "start_task env w t mc n fn dc td st = Inr (b, st') \<Longrightarrow> t \<in> set (dict_keys (rx_entries (x_rq st)))"
    by (auto simp: start_task_def Let_def dest: map_of_SomeD intro: rev_image_eqI)
qed

lemma order_ok_task:
  assumes "run_task env w t st = Inr (b, st')" "order_ok entries st" "deps_met (rx_entries (x_rq st)) (rx_complete (x_rq st)) t"
  shows "order_ok entries st'"
proof -
  have "rx_entries (x_rq st') = rx_entries (x_rq st) \<and> st_total (rx_stats (x_rq st')) = st_total (rx_stats (x_rq st)) \<and> set (rx_complete (x_rq st')) \<subseteq> set (rx_running (x_rq st')) \<and>
      set (rx_running (x_rq st')) \<subseteq> set (dict_keys entries)" using assms(1)
  proof (cases rule: run_task_cases)
    case (rejected c)
    then show ?thesis using task_fail_rx [OF rejected(2)] assms(2) by (auto simp: order_ok_def)
  next
    case (skipped c rx x)
    then show ?thesis using skip_fields [OF skipped(1)] task_keys(1) [OF skipped(1)] assms(2) by (auto simp: order_ok_def simp del: set_map)
  next
    case (noexec c n dc fn)
    then show ?thesis using noexec_fields [OF noexec(1)] task_keys(2) [OF noexec(1)] assms(2) by (auto simp: order_ok_def simp del: set_map)
  next
    case (started c mc n fn dc td)
    then show ?thesis using start_task_rx [OF started] task_keys(3) [OF started] assms(2) by (auto simp: order_ok_def simp del: set_map)
  qed
  then show ?thesis using order_inv_run_task [OF assms(1) _ assms(3)] assms(2) unfolding order_ok_def by simp
qed

interpretation order: exec_invariant "\<lambda>env. order_ok entries" "\<lambda>env. honest" "\<lambda>env w. True" for entries
proof (unfold_locales, goal_cases)
  case (1 env st m st')
  then show ?case by (auto intro: order_ok_message)
next
  case (2 env st w st')
  then show ?case using order_ok_core migrations_core by blast
next
  case (3 env st w t r st')
  then show ?case using consider_scene_rq [OF 3(7)] consider_scene_still [OF 3(7)] by (auto simp: order_ok_def)
next
  case (4 env st w t b st')
  then show ?case using order_ok_core run_setscene_core by blast
next
  case (5 env st st')
  from 5(2) show ?case
  proof (cases rule: update_holdofftasks_cases)
    case (updated rx c n h)
    then show ?thesis using 5(1) order_inv_releases [OF updated(2)] releases_fields [OF updated(2)] by (simp add: order_ok_def order_inv_def)
  qed (use 5 in simp)
next
  case (6 env st b st')
  then show ?case using order_ok_core end_scene_core by blast
next
  case (7 env st nt st')
  then show ?case using next_task_from(1) [OF 7(2)] by (auto simp: order_ok_def order_inv_def)
next
  case (8 env st w t b st')
  then show ?case using order_ok_task by blast
next
  case (9 env st key t rest st')
  then show ?case using scene_ops_rq(2) [OF 9(3)] by (simp add: order_ok_def)
qed (auto simp: order_ok_def set_state_def order_inv_def)

section \<open>The start of the execution\<close>

lemma make_scheduler_buildable: "make_scheduler name stampf caches entries = Inr sc \<Longrightarrow> sc_buildable sc = []"
  unfolding make_scheduler_def RunQueueSchedulerSpeed_def RunQueueSchedulerCompletion_def RunQueueScheduler_def by (auto split: if_splits)

lemma unskip_tid_releases: "unskip_tid setscene t p = Inr p' \<Longrightarrow> releases (snd p) (snd p')"
  unfolding unskip_tid_def by (auto split: if_splits prod.splits intro!: releases_one simp: deps_met_def deps_of_def)

lemma unskip_loop_releases: "unskip_loop n setscene p = Inr p' \<Longrightarrow> releases (snd p) (snd p')"
proof (induction n arbitrary: p)
  case (Suc n)
  then obtain p1 where p1: "rfold (unskip_tid setscene) (rev (sort (fst p))) p = Inr p1"
      "(if set (fst p1) \<noteq> set (fst p) then unskip_loop n setscene p1 else Inr p1) = Inr p'" by auto
  have "releases (snd p) (snd p1)"
    by (rule rfold_invariant [OF p1(1), where I = "\<lambda>q. releases (snd p) (snd q)"]) (auto dest: unskip_tid_releases intro: releases_trans)
  then show ?case using p1(2) Suc.IH [of p1] by (auto split: if_splits intro: releases_trans)
qed simp

lemma build_scenequeue_data_rx:
  assumes "build_scenequeue_data env w st = Inr st'"
  shows "\<exists>rx. releases (x_rq st) rx \<and> stamps_only rx (x_rq st')"
proof -
  obtain n p u rx sn ks where "unskip_loop n (rv_setscene_tids env) (p, x_rq st) = Inr (u, rx)"
      "update_scenequeue_data env w ks (st\<lparr>x_scene := sn, x_rq := rx\<rparr>) = Inr st'"
    using assms unfolding build_scenequeue_data_def Let_def by (auto simp: Let_def simp del: unskip_loop.simps)
  then show ?thesis using unskip_loop_releases [of n "rv_setscene_tids env" "(p, x_rq st)" "(u, rx)"] update_scenequeue_data_rx [of env w ks "st\<lparr>x_scene := sn, x_rq := rx\<rparr>" st'] by auto
qed

lemma must_run_order:
  assumes "map_of (rx_entries rx) (fst q) = Some (snd q)" "order_inv rx"
  shows "order_inv (must_run q rx)" "rx_entries (must_run q rx) = rx_entries rx" "rx_complete (must_run q rx) = rx_complete rx"
proof -
  let ?rx = "if re_depends (snd q) = [] then setbuildable (fst q) rx else rx"
  have "releases rx ?rx" using assms(1) by (auto intro!: releases_one simp: deps_met_def deps_of_def)
  then have "order_inv ?rx" using assms(2) by (rule order_inv_releases)
  then show "order_inv (must_run q rx)" unfolding must_run_def Let_def by (simp add: order_inv_def)
  show "rx_entries (must_run q rx) = rx_entries rx" "rx_complete (must_run q rx) = rx_complete rx" by (simp_all add: must_run_def Let_def setbuildable_def)
qed

lemma must_run_all:
  assumes "\<forall>q \<in> set es. map_of (rx_entries rx) (fst q) = Some (snd q)" "order_inv rx"
  shows "order_inv (fold must_run es rx)" "rx_entries (fold must_run es rx) = rx_entries rx" "rx_complete (fold must_run es rx) = rx_complete rx"
proof -
  have "order_inv (fold must_run es rx) \<and> rx_entries (fold must_run es rx) = rx_entries rx \<and> rx_complete (fold must_run es rx) = rx_complete rx"
    using assms
  proof (induction es arbitrary: rx)
    case (Cons q es)
    have m: "order_inv (must_run q rx)" "rx_entries (must_run q rx) = rx_entries rx" "rx_complete (must_run q rx) = rx_complete rx"
      using must_run_order [of rx q] Cons.prems by auto
    then show ?case using Cons.IH [of "must_run q rx"] Cons.prems(1) by simp
  qed simp
  then show "order_inv (fold must_run es rx)" "rx_entries (fold must_run es rx) = rx_entries rx" "rx_complete (fold must_run es rx) = rx_complete rx" by auto
qed

lemma must_run_counts:
  "rx_running (fold must_run es rx) = rx_running rx" "rx_complete (fold must_run es rx) = rx_complete rx" "rx_failed (fold must_run es rx) = rx_failed rx"
  "rx_stats (fold must_run es rx) = rx_stats rx" "rx_updated (fold must_run es rx) = rx_updated rx" "rx_pending (fold must_run es rx) = rx_pending rx"
  by (induction es arbitrary: rx) (simp_all add: must_run_def setbuildable_def Let_def)

lemma scene_init_order:
  assumes "scene_init env w scheduler entries g fs = Inr st" "graph_ok entries"
  shows "order_ok entries st"
proof -
  obtain st0 where r: "RunQueueExecute env w scheduler entries g fs = Inr st0"
    and st: "st = (let st1 = (if rv_setscene_tids env = [] then no_setscene st0 else st0) in st1\<lparr>x_rq := (x_rq st1)\<lparr>rx_state := runQueueRunning\<rparr>\<rparr>)"
    using assms(1) by (auto simp: scene_init_def Let_def)
  obtain sc where sc: "make_scheduler scheduler (sg_stampfile (rv_siggen env) g) (rv_dataCaches env) entries = Inr sc"
      "build_scenequeue_data env w \<lparr>x_scene = initial_scene env entries, x_rq = initial_rq entries g fs sc\<rparr> = Inr st0"
    using r by (auto simp: RunQueueExecute_def split: if_splits)
  have b: "sc_buildable sc = []" by (rule make_scheduler_buildable [OF sc(1)])
  obtain rx where rx: "releases (initial_rq entries g fs sc) rx" "stamps_only rx (x_rq st0)"
    using build_scenequeue_data_rx [OF sc(2)] by auto
  note core = stamps_only_core [OF rx(2)]
  have "order_inv (initial_rq entries g fs sc)" by (simp add: order_inv_def initial_rq_def b)
  then have "order_inv (x_rq st0)" using order_inv_releases [OF rx(1)] order_inv_core core by blast
  moreover have f: "rx_entries (x_rq st0) = entries" "rx_complete (x_rq st0) = []" "rx_running (x_rq st0) = []" "st_total (rx_stats (x_rq st0)) = int (length entries)"
    using rx(2) releases_fields [OF rx(1)] by (auto simp: stamps_only_def initial_rq_def RunQueueStats_def)
  ultimately show ?thesis
  proof (cases "rv_setscene_tids env = []")
    case True
    have "\<forall>q \<in> set (rx_entries (x_rq st0)). map_of (rx_entries (x_rq st0)) (fst q) = Some (snd q)" using assms(2) f(1) unfolding graph_ok_def by auto
    note m = must_run_all [OF this \<open>order_inv (x_rq st0)\<close>]
    have "order_inv (x_rq st)" unfolding st using m(1) True by (simp add: no_setscene_def order_inv_def)
    moreover have "rx_entries (x_rq st) = entries" "rx_complete (x_rq st) = []" "rx_running (x_rq st) = []" "st_total (rx_stats (x_rq st)) = int (length entries)"
      unfolding st using m(2,3) f True by (simp_all add: no_setscene_def must_run_counts)
    ultimately show ?thesis by (simp add: order_ok_def)
  qed (simp add: st order_ok_def order_inv_def)
qed

text \<open>C2. In every state that the execution of a well-formed queue reaches with workers that report only tasks they were given, whatever files appear, hashes change, tasks fail
  or the user interrupts: when a task has been started, every task it depends on directly or indirectly has completed.\<close>

theorem task_order:
  assumes "graph_ok entries" and "reach env honest (\<lambda>w. True) entries st" and "t \<in> set (rx_running (x_rq st))" and "(t, d) \<in> (dep_edges entries)\<^sup>+"
  shows "d \<in> set (rx_complete (x_rq st))"
proof -
  have ok: "order_ok entries st" by (rule order.reach_keeps [OF assms(2)]) (rule scene_init_order [OF _ assms(1)])
  have next_dep: "d \<in> set (rx_complete (x_rq st))" if "t \<in> set (rx_running (x_rq st))" "(t, d) \<in> dep_edges entries" for t d
  proof -
    have "deps_met (rx_entries (x_rq st)) (rx_complete (x_rq st)) t" using ok that(1) unfolding order_ok_def order_inv_def by blast
    moreover have "deps_of (rx_entries (x_rq st)) = deps_of entries" using ok by (simp add: order_ok_def)
    ultimately show ?thesis using that(2) by (auto simp: deps_met_def dep_edges_def)
  qed
  from assms(4) show ?thesis
  proof (induction rule: trancl_induct)
    case (base d)
    then show ?case using next_dep assms(3) by blast
  next
    case (step d d')
    then have "d \<in> set (rx_running (x_rq st))" using ok by (auto simp: order_ok_def)
    then show ?case by (rule next_dep) (rule step.hyps(2))
  qed
qed

lemma holds_of_both: "holds_of P r \<Longrightarrow> holds_of Q r \<Longrightarrow> \<exists>st. r = Inr st \<and> P st \<and> Q st"
  by (cases r) (simp_all add: holds_of_def)

text \<open>The calls of the small build as steps.\<close>

lemma mini_silent: "silent mini_world"
  by (simp add: silent_def mini_world_def)

lemma mini_reach_start:
  assumes "W mini_world" "holds_of P (mini_start setscene)"
  shows "holds_of (reach (mini_env setscene) M W mini_entries) (mini_start setscene)"
  using assms(2) reach.init [where W = W and w = mini_world, OF assms(1)] unfolding mini_start_def by (auto simp: holds_of_Inr)

lemma mini_reach_execute:
  assumes "W mini_world" "holds_of (reach (mini_env setscene) M W mini_entries) r" "holds_of mini_is_running r" "holds_of P (mini_execute setscene r)"
  shows "holds_of (reach (mini_env setscene) M W mini_entries) (mini_execute setscene r)"
proof -
  obtain st where st: "r = Inr st" "reach (mini_env setscene) M W mini_entries st" "rx_state (x_rq st) = runQueueRunning"
    using assms(2,3) by (auto simp: holds_of_Inr mini_is_running_def)
  obtain x st' where "execute (mini_env setscene) mini_world st = Inr (x, st')" using assms(4) st(1) by (auto simp: holds_of_Inr mini_execute_def)
  then show ?thesis using reach.step [OF st(2) xstep.execute [where w = mini_world]] assms(1) mini_silent st by (auto simp: mini_execute_def holds_of_Inr)
qed

lemma mini_reach_exit:
  assumes "holds_of (reach (mini_env setscene) M W mini_entries) r" "holds_of (M (Exitcode t s)) r" "holds_of P (mini_exit setscene t s r)"
  shows "holds_of (reach (mini_env setscene) M W mini_entries) (mini_exit setscene t s r)"
proof -
  obtain st where st: "r = Inr st" "reach (mini_env setscene) M W mini_entries st" "M (Exitcode t s) st"
    using holds_of_both [OF assms(1,2)] by blast
  obtain st' where "worker_message (mini_env setscene) (Exitcode t s) st = Inr st'" using assms(3) st(1) by (auto simp: holds_of_Inr mini_exit_def)
  then show ?thesis using reach.step [OF st(2) xstep.message [where M = M, OF st(3)]] st(1) by (auto simp: mini_exit_def holds_of_Inr)
qed

lemma mini_reach:
  assumes "W mini_world" and "holds_of (M (Exitcode ''a:do_y'' 0)) mini_fetching"
  shows "holds_of (reach (mini_env mini_setscene) M W mini_entries) mini_fetching"
    and "holds_of (reach (mini_env mini_setscene) M W mini_entries) mini_working"
proof -
  let ?reach = "reach (mini_env mini_setscene) M W mini_entries"
  show fetching: "holds_of ?reach mini_fetching" unfolding mini_fetching_def
    by (rule mini_reach_execute [where W = W, OF assms(1) mini_reach_start [where W = W, OF assms(1) mini_states(1)] mini_states(1) mini_states(2) [unfolded mini_fetching_def]])
  have "holds_of ?reach mini_fetched" unfolding mini_fetched_def
    by (rule mini_reach_exit [where M = M, OF fetching assms(2) mini_states(3) [unfolded mini_fetched_def]])
  then have "holds_of ?reach mini_skipped" unfolding mini_skipped_def
    by (rule mini_reach_execute [where W = W, OF assms(1) _ mini_states(3) mini_states(4) [unfolded mini_skipped_def]])
  then show "holds_of ?reach mini_working" unfolding mini_working_def
    by (rule mini_reach_execute [where W = W, OF assms(1) _ mini_states(4) mini_states(5) [unfolded mini_working_def]])
qed

theorem task_order_witness:
  "holds_of (\<lambda>st. ''a:do_x'' \<in> set (rx_running (x_rq st)) \<and> ''a:do_y'' \<in> set (rx_complete (x_rq st))) mini_working"
proof -
  have honest: "holds_of (honest (Exitcode ''a:do_y'' 0)) mini_fetching" by code_simp
  obtain st where st: "mini_working = Inr st" "reach (mini_env mini_setscene) honest (\<lambda>w. True) mini_entries st" "''a:do_x'' \<in> set (rx_running (x_rq st))"
    using holds_of_both [OF mini_reach(2) [where W = "\<lambda>w. True" and M = honest, OF TrueI honest] mini_states(5)] by blast
  have "(''a:do_x'', ''a:do_y'') \<in> dep_edges mini_entries" by (simp add: dep_edges_def mini_entries_def deps_of_def)
  then have "''a:do_y'' \<in> set (rx_complete (x_rq st))" by (intro task_order [OF mini_graph st(2,3)] r_into_trancl)
  then show ?thesis using st unfolding holds_of_Inr by blast
qed

end
