(* ===== verification/BB_ExecCount.thy ===== *)
theory BB_ExecCount
  imports BB_ExecOrder
begin

text \<open>
  Accounting: the counters of active tasks count the tasks that were started and not reported, and there are never more of them than \<^verbatim>\<open>BB_NUMBER_THREADS\<close> allows.
\<close>

section \<open>What the setscene methods change\<close>

definition sq_evolves :: "scene \<Rightarrow> scene \<Rightarrow> bool" where
  "sq_evolves sn sn' \<longleftrightarrow> sn_data sn' = sn_data sn \<and> sn_live sn' = sn_live sn \<and> sn_deferred sn' = sn_deferred sn \<and> sn_covered sn' = sn_covered sn \<and>
     sn_cantskip sn' = sn_cantskip sn \<and> sn_notneeded sn' = sn_notneeded sn \<and> st_active (sn_stats sn') = st_active (sn_stats sn) \<and>
     set (sn_running sn) \<subseteq> set (sn_running sn') \<and> set (sn_notcovered sn) \<subseteq> set (sn_notcovered sn') \<and> set (sn_buildable sn) \<subseteq> set (sn_buildable sn')"

lemma sq_evolves_refl [simp]: "sq_evolves sn sn"
  by (simp add: sq_evolves_def)

lemma sq_evolves_trans: "sq_evolves sn sn' \<Longrightarrow> sq_evolves sn' sn'' \<Longrightarrow> sq_evolves sn sn''"
  unfolding sq_evolves_def by (elim conjE, intro conjI) (blast | simp)+

lemma mark_failed_evolves: "sq_evolves sn (sq_mark_failed t sn)"
  by (auto simp: sq_evolves_def sq_mark_failed_def)

lemma release_scene_evolves: "release_scene d sn = Inr sn' \<Longrightarrow> sq_evolves sn sn'"
  by (auto simp: release_scene_def sq_evolves_def)

lemma updatecounters_evolves: "scenequeue_updatecounters n S E t f sn = Inr sn' \<Longrightarrow> sq_evolves sn sn'"
proof (induction n arbitrary: t f sn sn')
  case (Suc n)
  let ?body = "\<lambda>dep sn. if f \<and> hard_dependency sn t dep
      then (if sq_decided sn dep then Inr sn else scenequeue_updatecounters n S E dep True (sq_mark_failed dep sn)) else release_scene dep sn"
  obtain deps sn1 fin where r: "rfold ?body (sort deps) sn = Inr sn1" "sn' = sn1\<lparr>sn_done := fin, sn_need_update := True\<rparr>"
    using Suc.prems by auto
  have "sq_evolves sn sn1"
  proof (rule rfold_invariant [OF r(1), where I = "sq_evolves sn"])
    fix d a a' assume a: "sq_evolves sn a" "?body d a = Inr a'"
    have "sq_evolves a a'"
    proof (cases "f \<and> hard_dependency a t d \<and> \<not> sq_decided a d")
      case True
      then have "scenequeue_updatecounters n S E d True (sq_mark_failed d a) = Inr a'" using a(2) by simp
      then show ?thesis using Suc.IH mark_failed_evolves sq_evolves_trans by blast
    next
      case False
      then have "a' = a \<or> release_scene d a = Inr a'" using a(2) by (auto split: if_splits)
      then show ?thesis using release_scene_evolves by auto
    qed
    with a(1) show "sq_evolves sn a'" by (rule sq_evolves_trans)
  qed simp
  then show ?case unfolding r(2) by (simp add: sq_evolves_def)
qed simp

declare scenequeue_updatecounters.simps [simp del]

lemma scene_ops_evolve:
  "updatecounters env E t f sn = Inr sn' \<Longrightarrow> sq_evolves sn sn'"
  "sq_task_failoutright env E t sn = Inr sn' \<Longrightarrow> sq_evolves sn sn'"
  unfolding updatecounters_def sq_task_failoutright_def
  by (rule updatecounters_evolves, assumption) (rule sq_evolves_trans [OF mark_failed_evolves updatecounters_evolves])

text \<open>A skipped task: it is covered and the rest evolves.\<close>

lemma skip_evolves:
  assumes "sq_task_skip env E t sn = Inr sn'"
  shows "\<exists>sn1. sq_evolves (sn\<lparr>sn_running := add_new t (sn_running sn), sn_buildable := add_new t (sn_buildable sn), sn_covered := add_new t (sn_covered sn)\<rparr>) sn1 \<and>
    sn' = sn1\<lparr>sn_stats := taskCompleted (taskSkipped (sn_stats sn1))\<rparr>"
  using assms by (auto simp: sq_task_skip_def sq_task_completeoutright_def dest!: scene_ops_evolve(1))

section \<open>The counters\<close>

definition inflight :: "'g rqexe \<Rightarrow> string set" where
  "inflight rx = set (rx_running rx) - set (rx_complete rx) - set (rx_failed rx)"

definition scene_count :: "scene \<Rightarrow> bool" where
  "scene_count sn \<longleftrightarrow> st_active (sn_stats sn) = int (card (set (sn_live sn))) \<and> set (sn_live sn) \<subseteq> set (sn_running sn)"

definition rq_count :: "'g rqexe \<Rightarrow> bool" where
  "rq_count rx \<longleftrightarrow> st_active (rx_stats rx) = int (card (inflight rx)) \<and> set (rx_complete rx) \<subseteq> set (rx_running rx) \<and>
     set (rx_failed rx) \<subseteq> set (rx_running rx) \<and> rx_updated rx = [] \<and> rx_pending rx = []"

definition count_ok :: "'g rqenv \<Rightarrow> 'g xstate \<Rightarrow> bool" where
  "count_ok env st \<longleftrightarrow> scene_count (x_scene st) \<and> rq_count (x_rq st) \<and>
     st_active (rx_stats (x_rq st)) + st_active (sn_stats (x_scene st)) \<le> rv_number_tasks env"

lemma inflight_finite [simp]: "finite (inflight rx)"
  by (simp add: inflight_def)

lemma scene_count_evolves: "sq_evolves sn sn' \<Longrightarrow> scene_count sn \<Longrightarrow> scene_count sn'"
  unfolding sq_evolves_def scene_count_def by (auto dest: subsetD)

lemma scene_count_skip:
  assumes "sq_task_skip env E t sn = Inr sn'" "scene_count sn"
  shows "scene_count sn'" "st_active (sn_stats sn') = st_active (sn_stats sn)"
proof -
  obtain sn1 where s: "sq_evolves (sn\<lparr>sn_running := add_new t (sn_running sn), sn_buildable := add_new t (sn_buildable sn), sn_covered := add_new t (sn_covered sn)\<rparr>) sn1"
      "sn' = sn1\<lparr>sn_stats := taskCompleted (taskSkipped (sn_stats sn1))\<rparr>" using skip_evolves [OF assms(1)] by blast
  have "scene_count sn1" by (rule scene_count_evolves [OF s(1)]) (use assms(2) in \<open>auto simp: scene_count_def\<close>)
  with s show "scene_count sn'" "st_active (sn_stats sn') = st_active (sn_stats sn)" by (auto simp: scene_count_def sq_evolves_def)
qed

lemma count_ok_scene:
  assumes "count_ok env st" "scene_count sn" "st_active (sn_stats sn) = st_active (sn_stats (x_scene st))"
  shows "count_ok env (st\<lparr>x_scene := sn\<rparr>)"
  using assms by (simp add: count_ok_def)

lemma count_ok_skip: "skip_scene env t st = Inr st' \<Longrightarrow> count_ok env st \<Longrightarrow> count_ok env st'"
  unfolding skip_scene_def using scene_count_skip by (fastforce simp: count_ok_def)

lemma count_ok_fail: "fail_scene env t st = Inr st' \<Longrightarrow> count_ok env st \<Longrightarrow> count_ok env st'"
  unfolding fail_scene_def using scene_ops_evolve(2) scene_count_evolves by (fastforce simp: count_ok_def sq_evolves_def)

lemma rq_count_fields:
  "rx_running rx' = rx_running rx \<Longrightarrow> rx_complete rx' = rx_complete rx \<Longrightarrow> rx_failed rx' = rx_failed rx \<Longrightarrow> st_active (rx_stats rx') = st_active (rx_stats rx) \<Longrightarrow>
   rx_updated rx' = rx_updated rx \<Longrightarrow> rx_pending rx' = rx_pending rx \<Longrightarrow> rq_count rx \<Longrightarrow> rq_count rx'"
  by (simp add: rq_count_def inflight_def)

text \<open>A task that is over leaves the tasks in flight, a task that starts or fails joins or leaves them.\<close>

lemma rq_count_over:
  fixes rx rx' :: "'g rqexe"
  assumes "rq_count rx" "t \<in> inflight rx" "rx_running rx' = rx_running rx" "rx_updated rx' = rx_updated rx" "rx_pending rx' = rx_pending rx"
    "set (rx_complete rx') \<union> set (rx_failed rx') = insert t (set (rx_complete rx) \<union> set (rx_failed rx))"
    "st_active (rx_stats rx') = st_active (rx_stats rx) - 1"
  shows "rq_count rx'"
proof -
  have inf: "inflight r = set (rx_running r) - (set (rx_complete r) \<union> set (rx_failed r))" for r :: "'g rqexe" by (auto simp: inflight_def)
  have i: "inflight rx' = inflight rx - {t}" unfolding inf assms(3,6) by auto
  have "int (card (inflight rx')) = int (card (inflight rx)) - 1"
    unfolding i using card.remove [OF inflight_finite assms(2)] by simp
  moreover have "set (rx_complete rx') \<subseteq> set (rx_running rx')" "set (rx_failed rx') \<subseteq> set (rx_running rx')"
    using assms(1,2,6) unfolding rq_count_def inf assms(3) by auto
  ultimately show ?thesis using assms unfolding rq_count_def by simp
qed

lemma rq_count_start:
  fixes rx rx' :: "'g rqexe"
  assumes "rq_count rx" "t \<notin> set (rx_running rx)" "rx_running rx' = add_new t (rx_running rx)" "rx_complete rx' = rx_complete rx" "rx_failed rx' = rx_failed rx"
    "rx_updated rx' = rx_updated rx" "rx_pending rx' = rx_pending rx" "st_active (rx_stats rx') = st_active (rx_stats rx) + 1"
  shows "rq_count rx'"
proof -
  have "inflight rx' = insert t (inflight rx)" "t \<notin> inflight rx" using assms(1-5) unfolding inflight_def rq_count_def by auto
  then show ?thesis using assms unfolding rq_count_def by auto
qed

lemma rq_count_skip:
  fixes rx rx' :: "'g rqexe"
  assumes "rq_count rx" "t \<notin> set (rx_running rx)" "rx_running rx' = add_new t (rx_running rx)" "rx_complete rx' = add_new t (rx_complete rx)" "rx_failed rx' = rx_failed rx"
    "rx_updated rx' = rx_updated rx" "rx_pending rx' = rx_pending rx" "st_active (rx_stats rx') = st_active (rx_stats rx)"
  shows "rq_count rx'"
proof -
  have "inflight rx' = inflight rx" using assms(1-5) unfolding inflight_def rq_count_def by auto
  then show ?thesis using assms unfolding rq_count_def by auto
qed

section \<open>Every step keeps the counters\<close>

text \<open>Honest workers of a build without a hash equivalence server.\<close>

fun plain_message :: "message \<Rightarrow> 'g xstate \<Rightarrow> bool" where
  "plain_message (UniHashUpdate t u) st \<longleftrightarrow> False"
| "plain_message m st \<longleftrightarrow> honest m st"

definition forks :: "world \<Rightarrow> bool" where
  "forks w \<longleftrightarrow> (\<forall>mc. w_fakeworker w mc)"

lemma count_ok_message:
  assumes "worker_message env m st = Inr st'" "plain_message m st" "count_ok env st"
  shows "count_ok env st'"
proof (cases m)
  case (Exitcode t s)
  have "runqueue_process_waitpid env t s st = Inr st'" using assms(1) Exitcode by (simp add: worker_message_def)
  then show ?thesis
  proof (cases rule: process_waitpid_cases)
    case (scene a b s' sn)
    let ?sn0 = "scene_noted t (s = 0) (x_scene st)"
    note ev = scene_ops_evolve(1) [OF scene(4)]
    have live: "sn_live sn = sn_live (x_scene st)" "st_active (sn_stats sn) = st_active (sn_stats (x_scene st)) - 1" "set (sn_running (x_scene st)) \<subseteq> set (sn_running sn)"
      using ev by (auto simp: sq_evolves_def scene_noted_def split: if_splits)
    have "card (set (sn_live (x_scene st))) = Suc (card (set (sn_live (x_scene st)) - {t}))" by (rule card.remove [OF finite_set scene(1)])
    then have "scene_count (x_scene st')" using assms(3) live unfolding scene(5) count_ok_def scene_count_def by auto
    moreover have "rq_count (x_rq st')" using assms(3) unfolding scene(2) count_ok_def by (auto intro: rq_count_fields)
    ultimately show ?thesis using assms(3) live unfolding count_ok_def scene(2,5) by simp
  next
    case (fail a b)
    then have t: "t \<in> inflight (x_rq st)" using assms(2) Exitcode by (auto simp: inflight_def)
    have "rq_count (x_rq st')"
      by (rule rq_count_over [OF _ t]) (use assms(3) task_fail_rx [OF fail(4)] in \<open>auto simp: count_ok_def\<close>)
    then show ?thesis using assms(3) task_fail_rx [OF fail(4)] fail(2) by (auto simp: count_ok_def)
  next
    case (complete a b)
    then have t: "t \<in> inflight (x_rq st)" using assms(2) Exitcode by (auto simp: inflight_def)
    note f = complete_fields [OF complete(4)]
    have "rq_count (x_rq st')" by (rule rq_count_over [OF _ t]) (use assms(3) f in \<open>auto simp: count_ok_def\<close>)
    then show ?thesis using assms(3) f complete(2) by (auto simp: count_ok_def)
  qed
qed (use assms in \<open>auto simp: worker_message_def finish_now_def Let_def count_ok_def intro: rq_count_fields\<close>)

lemma count_ok_setscene:
  assumes "run_setscene env w t st = Inr (b, st')" "count_ok env st" "can_start_task env st" "scene_startable t st = Inr True"
  shows "count_ok env st'"
proof -
  have i: "count_ok env (st\<lparr>x_rq := (x_rq st)\<lparr>rx_stampcache := c\<rparr>\<rparr>)" for c using assms(2) by (auto simp: count_ok_def intro: rq_count_fields)
  show ?thesis using assms(1)
  proof (cases rule: run_setscene_cases)
    case (failed c)
    then show ?thesis using count_ok_fail i by blast
  next
    case (skipped c)
    then show ?thesis using count_ok_skip i by blast
  next
    case (started c mc n fn)
    note x = start_setscene_rx [OF started(1)]
    have new: "t \<notin> set (sn_running (x_scene st))" using assms(4) by (auto simp: scene_startable_def Let_def split: if_splits)
    then have "t \<notin> set (sn_live (x_scene st))" using assms(2) by (auto simp: count_ok_def scene_count_def)
    then have "scene_count (x_scene st')" using assms(2) unfolding x(2) by (auto simp: count_ok_def scene_count_def)
    moreover have "rq_count (x_rq st')" using x(1) assms(2) by (auto simp: count_ok_def intro: rq_count_fields)
    moreover have "st_active (rx_stats (x_rq st')) + st_active (sn_stats (x_scene st')) \<le> rv_number_tasks env"
      using x assms(3) by (auto simp: can_start_task_def)
    ultimately show ?thesis by (simp add: count_ok_def)
  qed
qed

lemma count_ok_task:
  assumes "run_task env w t st = Inr (b, st')" "count_ok env st" "can_start_task env st" "t \<notin> set (rx_running (x_rq st))"
    and "rv_setscenewhitelist env = None" "forks w"
  shows "count_ok env st'"
  using assms(1)
proof (cases rule: run_task_cases)
  case (rejected c)
  then show ?thesis using assms(5) by simp
next
  case (skipped c rx x)
  note f = skip_fields [OF skipped(1)]
  have "rq_count (x_rq st')" by (rule rq_count_skip [OF _ assms(4)]) (use assms(2) f skipped(2) in \<open>auto simp: count_ok_def\<close>)
  then show ?thesis using assms(2) f skipped by (auto simp: count_ok_def)
next
  case (noexec c n dc fn)
  note f = noexec_fields [OF noexec(1)]
  have "rq_count (x_rq st')" by (rule rq_count_skip [OF _ assms(4)]) (use assms(2) f in \<open>auto simp: count_ok_def\<close>)
  then show ?thesis using assms(2) f noexec by (auto simp: count_ok_def)
next
  case (started c mc n fn dc td)
  obtain stamp fw sent where x: "x_scene st' = x_scene st" "x_rq st' = (x_rq st)\<lparr>rx_stampcache := c,
      rx_build_stamps := dict_set t stamp (rx_build_stamps (x_rq st)), rx_build_stamps2 := rx_build_stamps2 (x_rq st) @ [stamp], rx_fakeworkers := fw,
      rx_sent := sent, rx_running := add_new t (rx_running (x_rq st)), rx_stats := taskActive (rx_stats (x_rq st))\<rparr>"
    using start_task_rx [OF started] assms(6) by (auto simp: forks_def)
  have "rq_count (x_rq st')" by (rule rq_count_start [OF _ assms(4)]) (use assms(2) x in \<open>auto simp: count_ok_def\<close>)
  then show ?thesis using assms(2,3) x by (auto simp: count_ok_def can_start_task_def)
qed

definition counted :: "'g rqenv \<Rightarrow> 'g xstate \<Rightarrow> bool" where
  "counted env st \<longleftrightarrow> order_inv (x_rq st) \<and> (rv_setscenewhitelist env = None \<longrightarrow> count_ok env st)"

lemma count_ok_deferred: "count_ok env st \<Longrightarrow> count_ok env (st\<lparr>x_scene := (x_scene st)\<lparr>sn_deferred := dfr\<rparr>\<rparr>)"
  by (simp add: count_ok_def scene_count_def)

lemma count_ok_sqdata: "count_ok env st \<Longrightarrow> count_ok env (on_sqdata f st)"
  by (simp add: count_ok_def scene_count_def on_sqdata_def)

lemma count_ok_rx:
  fixes st st' :: "'g xstate"
  assumes "count_ok env st" "sn_live (x_scene st') = sn_live (x_scene st)" "sn_running (x_scene st') = sn_running (x_scene st)"
    "sn_stats (x_scene st') = sn_stats (x_scene st)" "rx_running (x_rq st') = rx_running (x_rq st)" "rx_complete (x_rq st') = rx_complete (x_rq st)"
    "rx_failed (x_rq st') = rx_failed (x_rq st)" "rx_stats (x_rq st') = rx_stats (x_rq st)"
    "rx_updated (x_rq st') = rx_updated (x_rq st)" "rx_pending (x_rq st') = rx_pending (x_rq st)"
  shows "count_ok env st'"
  using assms by (simp add: count_ok_def scene_count_def rq_count_def inflight_def)

text \<open>A candidate that is dealt with on the spot is skipped or failed.\<close>

lemma consider_returned_cases:
  assumes "consider_scene env w t st = Inr (Some Returned, st')"
  obtains (skipped) st1 where "skip_scene env t st = Inr st1"
      "st' = st1\<lparr>x_scene := (x_scene st1)\<lparr>sn_notneeded := add_new t (sn_notneeded (x_scene st1)), sn_deferred := dict_del t (sn_deferred (x_scene st1))\<rparr>\<rparr>"
  | (failed) f dfr where "fail_scene env t (on_sqdata f (st\<lparr>x_scene := (x_scene st)\<lparr>sn_deferred := dfr\<rparr>\<rparr>)) = Inr st'"
      "dfr = sn_deferred (x_scene st) \<or> dfr = dict_del t (sn_deferred (x_scene st))"
proof -
  obtain skip where s: "scene_not_needed env w (x_scene st) t = Inr skip" using assms by (auto simp: consider_scene_def)
  note e = assms [unfolded consider_scene_def s rbind_simps]
  have d: "deferred_scene env w t st1 = Inr (Some Returned, st') \<Longrightarrow> fail_scene env t st1 = Inr st'" for st1
    by (auto simp: deferred_scene_def Let_def split: if_splits)
  let ?st = "st\<lparr>x_scene := (x_scene st)\<lparr>sn_deferred := dict_del t (sn_deferred (x_scene st))\<rparr>\<rparr>"
  have id: "on_sqdata (\<lambda>d. d) st1 = st1" for st1 :: "'a xstate" by (simp add: on_sqdata_def)
  have same: "st = st\<lparr>x_scene := (x_scene st)\<lparr>sn_deferred := sn_deferred (x_scene st)\<rparr>\<rparr>" by simp
  show thesis
  proof (cases skip)
    case True
    then show thesis using e skipped by auto
  next
    case ns: False
    show thesis
    proof (cases "map_of (sn_deferred (x_scene st)) t")
      case None
      then have "fail_scene env t st = Inr st'" using e ns d [of st] by auto
      then show thesis using failed [of "\<lambda>d. d" "sn_deferred (x_scene st)"] unfolding id by simp
    next
      case (Some u)
      then have "u \<in> set (rx_complete (x_rq st))" using e ns by (auto split: if_splits)
      with Some e ns obtain valid where v: "validate_hashes env w (rx_entries (x_rq ?st)) [t] 0 = Inr valid" by (auto simp: Let_def)
      show thesis
      proof (cases "valid = []")
        case True
        then have "fail_scene env t ?st = Inr st'" using e v ns Some \<open>u \<in> _\<close> by (auto simp: Let_def)
        then show thesis using failed [of "\<lambda>d. d" "dict_del t (sn_deferred (x_scene st))"] unfolding id by simp
      next
        case False
        then obtain f where "deferred_scene env w t (on_sqdata f ?st) = Inr (Some Returned, st')" using e v ns Some \<open>u \<in> _\<close> by (auto simp: Let_def)
        then show thesis using failed [OF d] by blast
      qed
    qed
  qed
qed

lemma count_ok_consider:
  assumes "consider_scene env w t st = Inr (r, st')" "count_ok env st"
  shows "count_ok env st'"
proof (cases "r = Some Returned")
  case True
  then have "consider_scene env w t st = Inr (Some Returned, st')" using assms(1) by simp
  then show ?thesis
  proof (cases rule: consider_returned_cases)
    case (skipped st1)
    then show ?thesis using count_ok_skip [of env t st st1] assms(2) by (simp add: count_ok_def scene_count_def)
  next
    case (failed f dfr)
    then show ?thesis using count_ok_fail count_ok_sqdata count_ok_deferred assms(2) by blast
  qed
next
  case False
  have "st' = st \<or> sn_live (x_scene st') = sn_live (x_scene st) \<and> sn_running (x_scene st') = sn_running (x_scene st) \<and> sn_stats (x_scene st') = sn_stats (x_scene st)"
    using consider_scene_frame [OF assms(1) False] by auto
  then show ?thesis using consider_scene_rq [OF assms(1)] by (auto intro: assms(2) count_ok_rx [OF assms(2)])
qed

interpretation count: exec_invariant counted "\<lambda>env. plain_message" "\<lambda>env. forks"
proof (unfold_locales, goal_cases)
  case (1 env st m st')
  then show ?case using order_inv_message count_ok_message unfolding counted_def by blast
next
  case (2 env st w st')
  then show ?case using order_inv_core migrations_core unfolding counted_def count_ok_def rq_count_def by blast
next
  case (3 env st w t r st')
  then show ?case using consider_scene_rq [OF 3(7)] consider_scene_still [OF 3(7)] count_ok_consider [OF 3(7)] by (auto simp: counted_def)
next
  case (4 env st w t b st')
  then show ?case using order_inv_core run_setscene_core count_ok_setscene unfolding counted_def by blast
next
  case (5 env st st')
  from 5(2) show ?case
  proof (cases rule: update_holdofftasks_cases)
    case (updated rx c n h)
    have "count_ok env st \<Longrightarrow> count_ok env st'"
      by (erule count_ok_rx) (simp_all add: updated(3,4) releases_fields [OF updated(2)])
    moreover have "order_inv (x_rq st')" using 5(1) order_inv_releases [OF updated(2)] updated(4) by (simp add: counted_def order_inv_def)
    ultimately show ?thesis using 5(1) by (simp add: counted_def)
  qed (use 5 in simp)
next
  case (6 env st b st')
  from 6(3) show ?case
    by (cases rule: end_scene_cases) (use 6(1) in \<open>auto simp: counted_def set_state_def order_inv_def intro: count_ok_rx\<close>)
next
  case (7 env st nt st')
  then show ?case using next_task_from(1,2) [OF 7(2)] by (auto simp: counted_def order_inv_def intro!: count_ok_rx [of env st st'])
next
  case (8 env st w t b st')
  then show ?case using count_ok_task order_inv_run_task unfolding counted_def by blast
next
  case (9 env st key t rest st')
  then show ?case using scene_ops_rq(2) [OF 9(3)] count_ok_fail [OF 9(3)] count_ok_deferred by (auto simp: counted_def)
qed (auto simp: counted_def set_state_def order_inv_def intro: count_ok_rx)

section \<open>The start of the counters\<close>

lemma count_ok_refresh:
  assumes "refresh_tid env w t p = Inr p'" "count_ok env (fst p)"
  shows "count_ok env (fst p')"
  using assms(1)
proof (cases rule: refresh_tid_cases)
  case (skip f st c fs)
  have "count_ok env (on_sqdata f (fst p)\<lparr>x_rq := (x_rq (fst p))\<lparr>rx_stampcache := c\<rparr>\<rparr>)"
    by (rule count_ok_rx [OF assms(2)]) (simp_all add: on_sqdata_def)
  then have st: "count_ok env st" by (rule count_ok_skip [OF skip(2)])
  have "x_rq st = (x_rq (fst p))\<lparr>rx_stampcache := c\<rparr>" using scene_ops_rq(1) [OF skip(2)] by simp
  then show ?thesis unfolding skip(3) by (intro count_ok_rx [OF st]) simp_all
next
  case (check f c)
  show ?thesis unfolding check(2) by (rule count_ok_rx [OF assms(2)]) (simp_all add: on_sqdata_def)
qed

lemma defer_tid_fields:
  assumes "defer_tid env mc t st = Inr st'"
  shows "sn_live (x_scene st') = sn_live (x_scene st)" "sn_running (x_scene st') = sn_running (x_scene st)" "sn_stats (x_scene st') = sn_stats (x_scene st)"
  using assms unfolding defer_tid_def Let_def by (auto split: if_splits option.splits)

lemma count_ok_defer: "defer_tid env mc t st = Inr st' \<Longrightarrow> count_ok env st \<Longrightarrow> count_ok env st'"
  by (rule count_ok_rx) (simp_all add: defer_tid_fields defer_tid_rq)

lemma count_ok_update:
  assumes "update_scenequeue_data env w ts st = Inr st'" "count_ok env st"
  shows "count_ok env st'"
proof -
  obtain p valid where p: "rfold (refresh_tid env w) (sort ts) (st, []) = Inr p" "defer_invalid env valid (fst p) = Inr st'"
    using assms(1) by (auto simp: update_scenequeue_data_def)
  have st: "count_ok env (fst p)"
    by (rule rfold_invariant [OF p(1), where I = "\<lambda>p. count_ok env (fst p)"]) (use assms(2) count_ok_refresh in auto)
  let ?sn = "x_scene (fst p)"
  let ?st = "(fst p)\<lparr>x_scene := ?sn\<lparr>sn_data := (sn_data ?sn)\<lparr>sq_valid := union_new (sq_valid (sn_data ?sn)) valid, sq_hashes := []\<rparr>, sn_deferred := []\<rparr>\<rparr>"
  have c: "count_ok env ?st" using st by (simp add: count_ok_def scene_count_def)
  have "rfold (\<lambda>mc. rfold (defer_tid env mc) (sort (dict_keys (sq_revdeps (sn_data ?sn))))) (sort (sq_multiconfigs (sn_data ?sn))) ?st = Inr st'"
    using p(2) unfolding defer_invalid_def Let_def .
  then show ?thesis
  proof (rule rfold_invariant [where I = "count_ok env"])
    fix mc st1 st2 assume a: "rfold (defer_tid env mc) (sort (dict_keys (sq_revdeps (sn_data ?sn)))) st1 = Inr st2" "count_ok env st1"
    show "count_ok env st2" by (rule rfold_invariant [OF a(1), where I = "count_ok env"]) (use a(2) count_ok_defer in auto)
  qed (rule c)
qed

lemma scene_init_counted:
  assumes "scene_init env w scheduler entries g fs = Inr st" "graph_ok entries"
  shows "counted env st"
proof -
  obtain st0 where r: "RunQueueExecute env w scheduler entries g fs = Inr st0"
    and st: "st = (let st1 = (if rv_setscene_tids env = [] then no_setscene st0 else st0) in st1\<lparr>x_rq := (x_rq st1)\<lparr>rx_state := runQueueRunning\<rparr>\<rparr>)"
    using assms(1) by (auto simp: scene_init_def Let_def)
  obtain sc where sc: "build_scenequeue_data env w \<lparr>x_scene = initial_scene env entries, x_rq = initial_rq entries g fs sc\<rparr> = Inr st0" "rv_number_tasks env > 0"
    using r by (auto simp: RunQueueExecute_def split: if_splits)
  let ?st = "\<lparr>x_scene = initial_scene env entries, x_rq = initial_rq entries g fs sc\<rparr>"
  obtain n p u rx d dn b ks where u: "unskip_loop n (rv_setscene_tids env) (p, x_rq ?st) = Inr (u, rx)"
      "update_scenequeue_data env w ks (?st\<lparr>x_scene := (x_scene ?st)\<lparr>sn_data := d, sn_done := dn, sn_buildable := b\<rparr>, x_rq := rx\<rparr>) = Inr st0"
    using sc(1) unfolding build_scenequeue_data_def Let_def by (auto simp: Let_def simp del: unskip_loop.simps)
  have rel: "releases (x_rq ?st) rx" using unskip_loop_releases [OF u(1)] by simp
  have "count_ok env (?st\<lparr>x_scene := (x_scene ?st)\<lparr>sn_data := d, sn_done := dn, sn_buildable := b\<rparr>, x_rq := rx\<rparr>)"
    using sc(2) releases_fields [OF rel]
    by (simp add: count_ok_def scene_count_def rq_count_def inflight_def initial_scene_def initial_rq_def RunQueueStats_def)
  then have "count_ok env st0" by (rule count_ok_update [OF u(2)])
  then have "count_ok env st" by (rule count_ok_rx) (simp_all add: st no_setscene_def must_run_counts Let_def)
  then show ?thesis using scene_init_order [OF assms] by (simp add: counted_def order_ok_def)
qed

text \<open>C5. Let a well-formed queue be executed while the workers report only tasks they were given and no changed hashes, no setscene whitelist is enforced, and workers for fakeroot tasks can
  be started. In every state the execution reaches, the two counters of active tasks count exactly the tasks and setscene tasks that were started and have not been reported, and at most
  \<^verbatim>\<open>BB_NUMBER_THREADS\<close> of them are in progress together.\<close>

theorem active_bounded:
  assumes "graph_ok entries" and "rv_setscenewhitelist env = None" and "reach env plain_message forks entries st"
  shows "st_active (rx_stats (x_rq st)) = int (card (inflight (x_rq st))) \<and> st_active (sn_stats (x_scene st)) = int (card (set (sn_live (x_scene st)))) \<and>
    int (card (inflight (x_rq st)) + card (set (sn_live (x_scene st)))) \<le> rv_number_tasks env"
proof -
  have "counted env st" by (rule count.reach_keeps [OF assms(3)]) (rule scene_init_counted [OF _ assms(1)])
  then show ?thesis using assms(2) by (simp add: counted_def count_ok_def scene_count_def rq_count_def)
qed

theorem active_bounded_witness:
  "holds_of (\<lambda>st. st_active (sn_stats (x_scene st)) = int (card (set (sn_live (x_scene st)))) \<and> sn_live (x_scene st) = [''a:do_y''] \<and>
     int (card (inflight (x_rq st)) + card (set (sn_live (x_scene st)))) \<le> 2) mini_fetching"
proof -
  have "holds_of (\<lambda>st. sn_live (x_scene st) = [''a:do_y'']) mini_fetching" by code_simp
  moreover have "holds_of (reach (mini_env mini_setscene) plain_message forks mini_entries) mini_fetching"
    by (rule mini_reach(1)) (simp add: forks_def mini_world_def, code_simp)
  ultimately obtain st where st: "mini_fetching = Inr st" "sn_live (x_scene st) = [''a:do_y'']" "reach (mini_env mini_setscene) plain_message forks mini_entries st"
    by (auto dest: holds_of_both)
  have "rv_setscenewhitelist (mini_env mini_setscene) = None" "rv_number_tasks (mini_env mini_setscene) = 2" by (simp_all add: mini_env_def)
  then show ?thesis using active_bounded [OF mini_graph _ st(3)] st(1,2) unfolding holds_of_Inr by auto
qed

end
