(* ===== verification/BB_ExecProgress.thy ===== *)
theory BB_ExecProgress
  imports BB_ExecCount
begin

text \<open>
  Progress: a call of \<^verbatim>\<open>execute\<close> while nothing is in progress decides at least one more task or ends the build, so the number of rounds of a build is bounded,
  and a build that ends well has run everything.
\<close>

section \<open>What a call leaves to be done\<close>

text \<open>Tasks and setscene tasks that were not started, and deferred setscene tasks.\<close>

definition work_left :: "'g rqenv \<Rightarrow> rtentries \<Rightarrow> 'g xstate \<Rightarrow> nat" where
  "work_left env entries st = card (set (dict_keys entries) - set (rx_running (x_rq st))) +
     card (set (rv_setscene_tids env) - set (sn_running (x_scene st))) + length (sn_deferred (x_scene st))"

definition idle :: "'g xstate \<Rightarrow> bool" where
  "idle st \<longleftrightarrow> inflight (x_rq st) = {} \<and> sn_live (x_scene st) = []"

definition onward :: "'g xstate \<Rightarrow> 'g xstate \<Rightarrow> bool" where
  "onward st st' \<longleftrightarrow> set (rx_running (x_rq st)) \<subseteq> set (rx_running (x_rq st')) \<and> set (sn_running (x_scene st)) \<subseteq> set (sn_running (x_scene st')) \<and>
     length (sn_deferred (x_scene st')) \<le> length (sn_deferred (x_scene st))"

lemma onward_refl [simp]: "onward st st"
  by (simp add: onward_def)

lemma onward_trans: "onward st st' \<Longrightarrow> onward st' st'' \<Longrightarrow> onward st st''"
  unfolding onward_def by auto

lemma work_left_onward:
  assumes "onward st st'"
  shows "work_left env entries st' \<le> work_left env entries st"
proof -
  have "card (set (dict_keys entries) - set (rx_running (x_rq st'))) \<le> card (set (dict_keys entries) - set (rx_running (x_rq st)))"
      "card (set (rv_setscene_tids env) - set (sn_running (x_scene st'))) \<le> card (set (rv_setscene_tids env) - set (sn_running (x_scene st)))"
    using assms by (auto simp: onward_def intro!: card_mono)
  then show ?thesis using assms unfolding work_left_def onward_def by linarith
qed

lemma card_left: "finite A \<Longrightarrow> B \<subseteq> C \<Longrightarrow> t \<in> A \<Longrightarrow> t \<notin> B \<Longrightarrow> t \<in> C \<Longrightarrow> card (A - C) < card (A - B)"
  by (rule psubset_card_mono) auto

lemma work_left_less:
  assumes "onward st st'"
    and "t \<in> set (dict_keys entries) \<and> t \<notin> set (rx_running (x_rq st)) \<and> t \<in> set (rx_running (x_rq st')) \<or>
      t \<in> set (rv_setscene_tids env) \<and> t \<notin> set (sn_running (x_scene st)) \<and> t \<in> set (sn_running (x_scene st')) \<or>
      length (sn_deferred (x_scene st')) < length (sn_deferred (x_scene st))"
  shows "work_left env entries st' < work_left env entries st"
proof -
  let ?a = "\<lambda>st. card (set (dict_keys entries) - set (rx_running (x_rq st)))" and ?b = "\<lambda>st. card (set (rv_setscene_tids env) - set (sn_running (x_scene st)))"
  have le: "?a st' \<le> ?a st" "?b st' \<le> ?b st" using assms(1) by (auto simp: onward_def intro!: card_mono)
  have d: "length (sn_deferred (x_scene st')) \<le> length (sn_deferred (x_scene st))" using assms(1) by (simp add: onward_def)
  from assms(2) consider "?a st' < ?a st" | "?b st' < ?b st" | "length (sn_deferred (x_scene st')) < length (sn_deferred (x_scene st))"
    using assms(1) card_left [of "set (dict_keys entries)" "set (rx_running (x_rq st))" "set (rx_running (x_rq st'))" t]
      card_left [of "set (rv_setscene_tids env)" "set (sn_running (x_scene st))" "set (sn_running (x_scene st'))" t]
    unfolding onward_def by blast
  then show ?thesis using le d unfolding work_left_def by cases linarith+
qed

section \<open>The setscene half\<close>

lemma fail_onward:
  assumes "fail_scene env t st = Inr st'"
  shows "onward st st'" "t \<in> set (sn_running (x_scene st'))"
proof -
  have "sq_evolves (sq_mark_failed t (x_scene st)) (x_scene st')"
    using assms by (auto simp: fail_scene_def sq_task_failoutright_def dest: scene_ops_evolve(1))
  then show "onward st st'" "t \<in> set (sn_running (x_scene st'))"
    using scene_ops_rq(2) [OF assms] by (auto simp: sq_evolves_def sq_mark_failed_def onward_def)
qed

lemma skip_onward:
  assumes "skip_scene env t st = Inr st'"
  shows "onward st st'" "t \<in> set (sn_running (x_scene st'))"
proof -
  have "sq_task_skip env (rx_entries (x_rq st)) t (x_scene st) = Inr (x_scene st')" using assms by (auto simp: skip_scene_def)
  then show "onward st st'" "t \<in> set (sn_running (x_scene st'))"
    using skip_evolves [of env "rx_entries (x_rq st)" t "x_scene st" "x_scene st'"] scene_ops_rq(1) [OF assms] by (auto simp: sq_evolves_def onward_def)
qed

lemma dict_del_length: "length (dict_del k d) \<le> length d"
  by (simp add: dict_del_def)

lemma consider_onward:
  assumes "consider_scene env w t st = Inr (r, st')"
  shows "onward st st' \<and> (r = Some Returned \<longrightarrow> t \<in> set (sn_running (x_scene st')))"
proof (cases "r = Some Returned")
  case False
  then show ?thesis using consider_scene_frame [OF assms False] consider_scene_rq [OF assms] by (auto simp: onward_def dict_del_length)
next
  case True
  then have "consider_scene env w t st = Inr (Some Returned, st')" using assms by simp
  then show ?thesis
  proof (cases rule: consider_returned_cases)
    case (skipped st1)
    then show ?thesis using skip_onward [of env t st st1] le_trans [OF dict_del_length [of t "sn_deferred (x_scene st1)"]] by (simp add: onward_def)
  next
    case (failed f dfr)
    have "onward st (on_sqdata f (st\<lparr>x_scene := (x_scene st)\<lparr>sn_deferred := dfr\<rparr>\<rparr>))" using failed(2) by (auto simp: onward_def on_sqdata_def dict_del_length)
    then show ?thesis using fail_onward [OF failed(1)] onward_trans by blast
  qed
qed

lemma pick_onward:
  assumes "pick_setscene env w ts st = Inr (p, st')"
  shows "onward st st'" "p = Returned \<Longrightarrow> \<exists>t \<in> set ts. t \<notin> set (sn_running (x_scene st)) \<and> t \<in> set (sn_running (x_scene st'))"
    "p = StartScene t \<Longrightarrow> t \<in> set ts \<and> t \<notin> set (sn_running (x_scene st))" "p \<noteq> Returned \<Longrightarrow> sn_running (x_scene st') = sn_running (x_scene st)"
proof -
  have "onward st st' \<and> (p = Returned \<longrightarrow> (\<exists>t \<in> set ts. t \<notin> set (sn_running (x_scene st)) \<and> t \<in> set (sn_running (x_scene st')))) \<and>
      (\<forall>t. p = StartScene t \<longrightarrow> t \<in> set ts \<and> t \<notin> set (sn_running (x_scene st))) \<and> (p \<noteq> Returned \<longrightarrow> sn_running (x_scene st') = sn_running (x_scene st))"
    using assms
  proof (induction ts arbitrary: st)
    case (Cons t ts)
    then obtain b where b: "scene_startable t st = Inr b" by auto
    show ?case
    proof (cases b)
      case False
      with b Cons show ?thesis by auto
    next
      case True
      with b Cons.prems obtain r st1 where r: "consider_scene env w t st = Inr (r, st1)"
          "(case r of None \<Rightarrow> pick_setscene env w ts st1 | Some p \<Rightarrow> Inr (p, st1)) = Inr (p, st')" by auto
      have new: "t \<notin> set (sn_running (x_scene st))" using b True by (auto simp: scene_startable_def Let_def split: if_splits)
      have same: "r \<noteq> Some Returned \<Longrightarrow> sn_running (x_scene st1) = sn_running (x_scene st)" using consider_scene_frame [OF r(1)] by auto
      show ?thesis
      proof (cases r)
        case None
        then have "pick_setscene env w ts st1 = Inr (p, st')" using r(2) by simp
        from Cons.IH [OF this] show ?thesis using None same consider_onward [OF r(1)] onward_trans by auto
      next
        case (Some q)
        then show ?thesis using r consider_onward [OF r(1)] consider_scene_still(4) [OF r(1)] new same by (cases q) auto
      qed
    qed
  qed simp
  then show "onward st st'" "p = Returned \<Longrightarrow> \<exists>t \<in> set ts. t \<notin> set (sn_running (x_scene st)) \<and> t \<in> set (sn_running (x_scene st'))"
    "p = StartScene t \<Longrightarrow> t \<in> set ts \<and> t \<notin> set (sn_running (x_scene st))" "p \<noteq> Returned \<Longrightarrow> sn_running (x_scene st') = sn_running (x_scene st)" by auto
qed

lemma setscene_onward:
  assumes "run_setscene env w t st = Inr (b, st')"
  shows "onward st st' \<and> t \<in> set (sn_running (x_scene st'))"
  using assms
proof (cases rule: run_setscene_cases)
  case (failed c)
  then show ?thesis using fail_onward [OF failed(1)] by (auto simp: onward_def)
next
  case (skipped c)
  then show ?thesis using skip_onward [OF skipped(1)] by (auto simp: onward_def)
next
  case (started c mc n fn)
  then show ?thesis using start_setscene_rx [OF started(1)] by (auto simp: onward_def)
qed

section \<open>A call\<close>

lemma task_onward:
  assumes "run_task env w t st = Inr (b, st')" "rv_setscenewhitelist env = None" "forks w"
  shows "onward st st'" "t \<in> set (rx_running (x_rq st'))" "t \<in> set (dict_keys (rx_entries (x_rq st)))" "rx_state (x_rq st') = rx_state (x_rq st)"
proof -
  have "onward st st' \<and> t \<in> set (rx_running (x_rq st')) \<and> t \<in> set (dict_keys (rx_entries (x_rq st))) \<and> rx_state (x_rq st') = rx_state (x_rq st)"
    using assms(1)
  proof (cases rule: run_task_cases)
    case (rejected c)
    then show ?thesis using assms(2) by simp
  next
    case (skipped c rx x)
    then show ?thesis using skip_fields [OF skipped(1)] task_keys(1) [OF skipped(1)] by (auto simp: onward_def simp del: set_map)
  next
    case (noexec c n dc fn)
    then show ?thesis using noexec_fields [OF noexec(1)] task_keys(2) [OF noexec(1)] by (auto simp: onward_def simp del: set_map)
  next
    case (started c mc n fn dc td)
    then show ?thesis using start_task_rx [OF started] task_keys(3) [OF started] assms(3) by (auto simp: onward_def forks_def simp del: set_map)
  qed
  then show "onward st st'" "t \<in> set (rx_running (x_rq st'))" "t \<in> set (dict_keys (rx_entries (x_rq st)))" "rx_state (x_rq st') = rx_state (x_rq st)" by auto
qed

text \<open>The parts of a call that leave both queues alone.\<close>

definition same_work :: "'g xstate \<Rightarrow> 'g xstate \<Rightarrow> bool" where
  "same_work st st' \<longleftrightarrow> rx_running (x_rq st') = rx_running (x_rq st) \<and> rx_complete (x_rq st') = rx_complete (x_rq st) \<and> rx_failed (x_rq st') = rx_failed (x_rq st) \<and>
     rx_stats (x_rq st') = rx_stats (x_rq st) \<and> dict_keys (rx_entries (x_rq st')) = dict_keys (rx_entries (x_rq st)) \<and>
     sn_running (x_scene st') = sn_running (x_scene st) \<and> sn_deferred (x_scene st') = sn_deferred (x_scene st) \<and> sn_live (x_scene st') = sn_live (x_scene st) \<and>
     sn_stats (x_scene st') = sn_stats (x_scene st)"

lemma same_work_trans: "same_work st st' \<Longrightarrow> same_work st' st'' \<Longrightarrow> same_work st st''"
  by (simp add: same_work_def)

lemma same_work_onward: "same_work st st' \<Longrightarrow> onward st st'"
  by (simp add: same_work_def onward_def)

lemma same_work_set_state [simp]: "same_work st (set_state s st)"
  by (simp add: same_work_def set_state_def)

lemma holdoff_same_work:
  assumes "update_holdofftasks env st = Inr st'"
  shows "same_work st st'" "rx_state (x_rq st') = rx_state (x_rq st)"
proof -
  have "same_work st st' \<and> rx_state (x_rq st') = rx_state (x_rq st)" using assms
  proof (cases rule: update_holdofftasks_cases)
    case (updated rx c n h)
    then show ?thesis by (simp add: same_work_def releases_fields [OF updated(2)])
  qed (simp add: same_work_def)
  then show "same_work st st'" "rx_state (x_rq st') = rx_state (x_rq st)" by auto
qed

lemma end_scene_same_work: "end_scene env st = (b, st') \<Longrightarrow> same_work st st'"
  by (erule end_scene_cases) (auto simp: same_work_def set_state_def)

lemma end_scene_state: "end_scene env st = (b, st') \<Longrightarrow> if b then rx_state (x_rq st') \<noteq> runQueueRunning else rx_state (x_rq st') = rx_state (x_rq st)"
  by (erule end_scene_cases) (auto simp: set_state_def)

lemma next_task_same_work:
  assumes "next_task env st = Inr (t, st')"
  shows "same_work st st'" "rx_state (x_rq st') = rx_state (x_rq st)"
  using next_task_from(1,2) [OF assms] by (auto simp: same_work_def)

lemma no_more_onward:
  assumes "no_more_tasks env w st = Inr (r, st')" "silent w"
  shows "onward st st'"
    and "st_active (rx_stats (x_rq st)) \<le> 0 \<Longrightarrow> st_active (sn_stats (x_scene st)) \<le> 0 \<Longrightarrow>
      rx_state (x_rq st') \<noteq> runQueueRunning \<or> length (sn_deferred (x_scene st')) < length (sn_deferred (x_scene st))"
proof -
  have "onward st st' \<and> (st_active (rx_stats (x_rq st)) \<le> 0 \<and> st_active (sn_stats (x_scene st)) \<le> 0 \<longrightarrow>
      rx_state (x_rq st') \<noteq> runQueueRunning \<or> length (sn_deferred (x_scene st')) < length (sn_deferred (x_scene st)))" using assms(1)
  proof (cases rule: no_more_tasks_cases)
    case wait
    then show ?thesis using assms(2) by (auto simp: read_workers_def silent_def)
  next
    case (deferred key t rest)
    then show ?thesis using fail_onward(1) [OF deferred(2)] by (auto simp: onward_def)
  qed (auto simp: set_state_def onward_def)
  then show "onward st st'" "st_active (rx_stats (x_rq st)) \<le> 0 \<Longrightarrow> st_active (sn_stats (x_scene st)) \<le> 0 \<Longrightarrow>
      rx_state (x_rq st') \<noteq> runQueueRunning \<or> length (sn_deferred (x_scene st')) < length (sn_deferred (x_scene st))" by auto
qed

lemma pick_none: "pick_setscene env w ts st = Inr (NoScene, st') \<Longrightarrow> st' = st"
proof (induction ts)
  case (Cons t ts)
  then obtain b where b: "scene_startable t st = Inr b" by auto
  show ?case
  proof (cases b)
    case True
    with b Cons.prems obtain r st1 where r: "consider_scene env w t st = Inr (r, st1)"
        "(case r of None \<Rightarrow> pick_setscene env w ts st1 | Some p \<Rightarrow> Inr (p, st1)) = Inr (NoScene, st')" by auto
    then have "r \<noteq> Some Returned" by auto
    from consider_scene_frame [OF r(1) this] show ?thesis using r(2) Cons.IH by auto
  qed (use b Cons in auto)
qed simp

lemma execute_tasks_onward:
  assumes "execute_tasks env w st = Inr (r, st')" "silent w" "rv_setscenewhitelist env = None" "forks w"
  shows "onward st st'"
    and "order_ok entries st \<Longrightarrow> st_active (rx_stats (x_rq st)) \<le> 0 \<Longrightarrow> st_active (sn_stats (x_scene st)) \<le> 0 \<Longrightarrow>
      rx_state (x_rq st') \<noteq> runQueueRunning \<or> work_left env entries st' < work_left env entries st"
proof -
  have "onward st st' \<and> (order_ok entries st \<and> st_active (rx_stats (x_rq st)) \<le> 0 \<and> st_active (sn_stats (x_scene st)) \<le> 0 \<longrightarrow>
      rx_state (x_rq st') \<noteq> runQueueRunning \<or> work_left env entries st' < work_left env entries st)" using assms(1)
  proof (cases rule: execute_tasks_cases)
    case (scene_end st1)
    have "same_work st st'" using same_work_trans holdoff_same_work(1) end_scene_same_work scene_end by blast
    then show ?thesis using same_work_onward end_scene_state [OF scene_end(2)] by auto
  next
    case (idle st1 st2 st3)
    have s: "same_work st st3" using same_work_trans holdoff_same_work(1) end_scene_same_work next_task_same_work(1) idle by blast
    note n = no_more_onward [OF idle(4) assms(2)]
    have o: "onward st st'" using onward_trans [OF same_work_onward [OF s] n(1)] .
    have "rx_state (x_rq st') \<noteq> runQueueRunning \<or> length (sn_deferred (x_scene st')) < length (sn_deferred (x_scene st))"
      if "st_active (rx_stats (x_rq st)) \<le> 0" "st_active (sn_stats (x_scene st)) \<le> 0" using n(2) s that by (auto simp: same_work_def)
    then show ?thesis using o work_left_less [OF o] by blast
  next
    case (task st1 st2 st3 t b st4)
    have s: "same_work st st3" using same_work_trans holdoff_same_work(1) end_scene_same_work next_task_same_work(1) task(1,2,3) by blast
    note t = task_onward [OF task(4) assms(3,4)]
    have o4: "onward st4 st'" using task(5) no_more_onward(1) [OF _ assms(2)] by (auto split: if_splits)
    have o: "onward st st'" using onward_trans same_work_onward s t(1) o4 by blast
    have "same_work st st2" using same_work_trans holdoff_same_work(1) end_scene_same_work task(1,2) by blast
    then have new: "t \<notin> set (rx_running (x_rq st))" using next_task_from(3) [OF task(3) refl] by (simp add: same_work_def)
    have "t \<in> set (rx_running (x_rq st'))" using t(2) o4 unfolding onward_def by blast
    moreover have "order_ok entries st \<Longrightarrow> t \<in> set (dict_keys entries)" using t(3) s by (simp add: order_ok_def same_work_def del: set_map)
    ultimately show ?thesis using o new work_left_less [OF o] by blast
  qed
  then show "onward st st'" "order_ok entries st \<Longrightarrow> st_active (rx_stats (x_rq st)) \<le> 0 \<Longrightarrow> st_active (sn_stats (x_scene st)) \<le> 0 \<Longrightarrow>
      rx_state (x_rq st') \<noteq> runQueueRunning \<or> work_left env entries st' < work_left env entries st" by auto
qed

lemma execute_onward:
  assumes "execute env w st = Inr (r, st')" "silent w" "rv_setscenewhitelist env = None" "forks w" "rx_updated (x_rq st) = []" "rx_pending (x_rq st) = []"
  shows "onward st st'"
    and "order_ok entries st \<Longrightarrow> st_active (rx_stats (x_rq st)) \<le> 0 \<Longrightarrow> st_active (sn_stats (x_scene st)) \<le> 0 \<Longrightarrow>
      rx_state (x_rq st') \<noteq> runQueueRunning \<or> work_left env entries st' < work_left env entries st"
proof -
  have quiet: "read_workers env (w_first w) st = Inr st1 \<Longrightarrow> st1 = st" for st1 using assms(2) by (simp add: read_workers_def silent_def)
  have picked: "onward st st3 \<and> (p = Returned \<longrightarrow> work_left env entries st3 < work_left env entries st) \<and> (p = NoScene \<longrightarrow> st3 = st) \<and>
      (\<forall>t. p = StartScene t \<longrightarrow> t \<in> set (rv_setscene_tids env) \<and> t \<notin> set (sn_running (x_scene st)))" if "execute_scene env w st = Inr (p, st3)" for p st3
    using that
  proof (cases rule: execute_scene_cases)
    case pick
    note q = pick_onward [OF pick(3)]
    show ?thesis using q work_left_less [OF q(1)] pick_none pick(3) by fastforce
  qed simp
  have started: "onward st st4 \<and> work_left env entries st4 < work_left env entries st"
    if "execute_scene env w st = Inr (StartScene t, st3)" "run_setscene env w t st3 = Inr (b, st4)" for t b st3 st4
  proof -
    note p = picked [OF that(1)] and s = setscene_onward [OF that(2)]
    have o: "onward st st4" using p s onward_trans by blast
    show ?thesis using o work_left_less [OF o] p s by blast
  qed
  have "onward st st' \<and> (order_ok entries st \<and> st_active (rx_stats (x_rq st)) \<le> 0 \<and> st_active (sn_stats (x_scene st)) \<le> 0 \<longrightarrow>
      rx_state (x_rq st') \<noteq> runQueueRunning \<or> work_left env entries st' < work_left env entries st)" using assms(1)
  proof (cases rule: execute_cases)
    case (scene st1 st2)
    then have "st2 = st" using quiet assms(5,6) by auto
    then show ?thesis using picked scene(3) by blast
  next
    case (start st1 st2 t st3)
    then have "st2 = st" using quiet assms(5,6) by auto
    then show ?thesis using started start(3,4) by blast
  next
    case (tasks st1 st2 st3 st4)
    then have "st2 = st" using quiet assms(5,6) by auto
    note e = execute_tasks_onward [OF tasks(4) assms(2-4)]
    from tasks(3) show ?thesis
    proof
      assume "execute_scene env w st2 = Inr (NoScene, st3) \<and> st4 = st3"
      then have "st4 = st" using picked \<open>st2 = st\<close> by blast
      then show ?thesis using e by blast
    next
      assume "\<exists>t. execute_scene env w st2 = Inr (StartScene t, st3) \<and> run_setscene env w t st3 = Inr (False, st4)"
      then have s: "onward st st4" "work_left env entries st4 < work_left env entries st" using started \<open>st2 = st\<close> by blast+
      then show ?thesis using onward_trans [OF s(1) e(1)] work_left_onward [OF e(1), of env entries] by linarith
    qed
  qed
  then show "onward st st'" "order_ok entries st \<Longrightarrow> st_active (rx_stats (x_rq st)) \<le> 0 \<Longrightarrow> st_active (sn_stats (x_scene st)) \<le> 0 \<Longrightarrow>
      rx_state (x_rq st') \<noteq> runQueueRunning \<or> work_left env entries st' < work_left env entries st" by auto
qed

section \<open>The number of rounds\<close>

text \<open>A round: a call while nothing is in progress, and then messages until everything that was started has been reported.\<close>

definition messages :: "'g rqenv \<Rightarrow> 'g xstate \<Rightarrow> 'g xstate \<Rightarrow> bool" where
  "messages env = (\<lambda>st st'. \<exists>m. plain_message m st \<and> worker_message env m st = Inr st')\<^sup>*\<^sup>*"

inductive round :: "'g rqenv \<Rightarrow> 'g xstate \<Rightarrow> 'g xstate \<Rightarrow> bool" for env where
  round: "idle st \<Longrightarrow> rx_state (x_rq st) = runQueueRunning \<Longrightarrow> forks w \<Longrightarrow> silent w \<Longrightarrow> execute env w st = Inr (r, st1) \<Longrightarrow> messages env st1 st2 \<Longrightarrow> idle st2 \<Longrightarrow>
    round env st st2"

inductive_cases roundE: "round env st st'"

lemma message_onward:
  assumes "worker_message env m st = Inr st'" "plain_message m st"
  shows "onward st st'" "rx_state (x_rq st') = runQueueRunning \<Longrightarrow> rx_state (x_rq st) = runQueueRunning"
proof -
  have "onward st st' \<and> (rx_state (x_rq st') = runQueueRunning \<longrightarrow> rx_state (x_rq st) = runQueueRunning)"
  proof (cases m)
    case (Exitcode t s)
    have "runqueue_process_waitpid env t s st = Inr st'" using assms(1) Exitcode by (simp add: worker_message_def)
    then show ?thesis
    proof (cases rule: process_waitpid_cases)
      case (scene a b s' sn)
      have "sq_evolves (scene_noted t (s = 0) (x_scene st)) sn" by (rule scene_ops_evolve(1) [OF scene(4)])
      then show ?thesis using scene(2,3,5) by (auto simp: onward_def sq_evolves_def scene_noted_def split: if_splits)
    next
      case (fail a b)
      then show ?thesis using task_fail_rx [OF fail(4)] by (auto simp: onward_def)
    next
      case (complete a b)
      then show ?thesis using complete_fields [OF complete(4)] by (auto simp: onward_def)
    qed
  qed (use assms in \<open>auto simp: worker_message_def finish_now_def Let_def onward_def split: if_splits\<close>)
  then show "onward st st'" "rx_state (x_rq st') = runQueueRunning \<Longrightarrow> rx_state (x_rq st) = runQueueRunning" by auto
qed

lemma messages_onward:
  assumes "messages env st st'"
  shows "onward st st'" "rx_state (x_rq st') = runQueueRunning \<Longrightarrow> rx_state (x_rq st) = runQueueRunning"
proof -
  have "onward st st' \<and> (rx_state (x_rq st') = runQueueRunning \<longrightarrow> rx_state (x_rq st) = runQueueRunning)"
    using assms unfolding messages_def
    by (induction rule: rtranclp_induct) (auto dest: message_onward intro: onward_trans)
  then show "onward st st'" "rx_state (x_rq st') = runQueueRunning \<Longrightarrow> rx_state (x_rq st) = runQueueRunning" by auto
qed

lemma messages_reach:
  assumes "messages env st st'" "reach env plain_message W entries st"
  shows "reach env plain_message W entries st'"
  using assms unfolding messages_def
  by (induction rule: rtranclp_induct) (auto intro: reach.step xstep.message)

lemma reach_mono:
  assumes "reach env M W entries st" "\<And>m st. M m st \<Longrightarrow> M' m st" "\<And>w. W w \<Longrightarrow> W' w"
  shows "reach env M' W' entries st"
  using assms(1)
proof (induction rule: reach.induct)
  case (init w scheduler g fs st)
  then show ?case by (intro reach.init [where W = W' and w = w, OF assms(3)])
next
  case (step st st')
  from step.hyps(2) have "xstep env M' W' st st'"
  proof (cases rule: xstep.cases)
    case (message m)
    then show ?thesis by (intro xstep.message [where M = M' and m = m, OF assms(2)])
  next
    case (execute w r)
    then show ?thesis by (intro xstep.execute [where W = W' and w = w, OF assms(3)])
  next
    case (finish w r)
    then show ?thesis by (intro xstep.finish [where W = W' and w = w, OF assms(3)])
  qed (auto intro: xstep.finish_now xstep.files)
  with step.IH show ?case by (rule reach.step)
qed

lemma plain_honest: "plain_message m st \<Longrightarrow> honest m st"
  by (cases m) auto

lemma reach_facts:
  assumes "reach env plain_message forks entries st" "graph_ok entries"
  shows "order_ok entries st" "counted env st"
proof -
  have "reach env honest (\<lambda>w. True) entries st" by (rule reach_mono [OF assms(1)]) (auto intro: plain_honest)
  then show "order_ok entries st" by (rule order.reach_keeps) (rule scene_init_order [OF _ assms(2)])
  show "counted env st" by (rule count.reach_keeps [OF assms(1)]) (rule scene_init_counted [OF _ assms(2)])
qed

lemma idle_counters: "count_ok env st \<Longrightarrow> idle st \<longleftrightarrow> st_active (rx_stats (x_rq st)) \<le> 0 \<and> st_active (sn_stats (x_scene st)) \<le> 0"
  by (simp add: idle_def count_ok_def scene_count_def rq_count_def)

lemma round_progress:
  assumes "round env st st'" "reach env plain_message forks entries st" "graph_ok entries" "rv_setscenewhitelist env = None"
  shows "reach env plain_message forks entries st'" "rx_state (x_rq st') = runQueueRunning \<Longrightarrow> work_left env entries st' < work_left env entries st"
proof -
  from assms(1) obtain w r st1 where r: "idle st" "rx_state (x_rq st) = runQueueRunning" "forks w" "silent w" "execute env w st = Inr (r, st1)" "messages env st1 st'"
    by (elim roundE)
  note f = reach_facts [OF assms(2,3)]
  have c: "count_ok env st" using f(2) assms(4) by (simp add: counted_def)
  have "reach env plain_message forks entries st1" by (rule reach.step [OF assms(2)], rule xstep.execute [where W = forks, OF r(3,4,5)])
  then show "reach env plain_message forks entries st'" by (rule messages_reach [OF r(6)])
  have u: "rx_updated (x_rq st) = []" "rx_pending (x_rq st) = []" using c by (simp_all add: count_ok_def rq_count_def)
  have "rx_state (x_rq st1) \<noteq> runQueueRunning \<or> work_left env entries st1 < work_left env entries st"
    by (rule execute_onward(2) [OF r(5,4) assms(4) r(3) u f(1)]) (use r(1) idle_counters [OF c] in auto)
  then show "rx_state (x_rq st') = runQueueRunning \<Longrightarrow> work_left env entries st' < work_left env entries st"
    using messages_onward [OF r(6)] work_left_onward [of st1 st' env entries] by force
qed

text \<open>C4. Let a well-formed queue be executed while the workers report only tasks they were given and no changed hashes, no setscene whitelist is enforced, and workers for fakeroot tasks
  can be started. A round is one call of \<^verbatim>\<open>execute\<close> in the running state with nothing in progress, followed by the reports of all that it started. From every state the execution reaches, at most one
  round more can follow than there are tasks and setscene tasks not started and setscene tasks deferred; in particular no such build goes on for ever.\<close>

theorem rounds_bounded:
  assumes "graph_ok entries" and "rv_setscenewhitelist env = None" and "reach env plain_message forks entries st" and "(round env ^^ n) st st'"
  shows "n \<le> Suc (work_left env entries st)"
  using assms(3,4)
proof (induction n arbitrary: st)
  case (Suc n)
  obtain st1 where r: "round env st st1" "(round env ^^ n) st1 st'" using relpowp_Suc_D2 [OF Suc.prems(2)] by blast
  note p = round_progress [OF r(1) Suc.prems(1) assms(1,2)]
  have ih: "n \<le> Suc (work_left env entries st1)" by (rule Suc.IH [OF p(1) r(2)])
  show ?case
  proof (cases n)
    case (Suc k)
    have "(round env ^^ Suc k) st1 st'" using r(2) unfolding Suc .
    then obtain st2 where "round env st1 st2" using relpowp_Suc_D2 by metis
    then have "rx_state (x_rq st1) = runQueueRunning" by (elim roundE)
    then show ?thesis using p(2) ih by linarith
  qed simp
qed simp

text \<open>The small build from its start: in the first round the setscene task runs, in the second one its task is skipped.\<close>

lemma mini_round:
  assumes "holds_of idle r" "holds_of mini_is_running r" "holds_of (\<lambda>st. messages (mini_env setscene) st st') (mini_execute setscene r)" "idle st'"
  shows "holds_of (\<lambda>st. round (mini_env setscene) st st') r"
proof -
  obtain st where st: "r = Inr st" "idle st" "rx_state (x_rq st) = runQueueRunning" using holds_of_both [OF assms(1,2)] by (auto simp: mini_is_running_def)
  obtain x st1 where "execute (mini_env setscene) mini_world st = Inr (x, st1)" "messages (mini_env setscene) st1 st'"
    using assms(3) unfolding st(1) by (auto simp: holds_of_Inr mini_execute_def)
  moreover have "forks mini_world" by (simp add: forks_def mini_world_def)
  ultimately have "round (mini_env setscene) st st'" using round.intros st(2,3) mini_silent assms(4) by blast
  then show ?thesis using st(1) by (simp add: holds_of_def)
qed

theorem rounds_bounded_witness:
  "\<exists>st st'. mini_start mini_setscene = Inr st \<and> (round (mini_env mini_setscene) ^^ 2) st st' \<and> 2 \<le> Suc (work_left (mini_env mini_setscene) mini_entries st)"
proof -
  have i: "holds_of idle (mini_start mini_setscene)" "holds_of idle mini_fetched" "holds_of idle mini_skipped" "holds_of (plain_message (Exitcode ''a:do_y'' 0)) mini_fetching"
    by code_simp+
  obtain st1 st2 st3 where s: "mini_fetching = Inr st1" "plain_message (Exitcode ''a:do_y'' 0) st1" "mini_fetched = Inr st2" "idle st2" "mini_skipped = Inr st3" "idle st3"
    using i unfolding holds_of_Inr by blast
  have "worker_message (mini_env mini_setscene) (Exitcode ''a:do_y'' 0) st1 = Inr st2" using s(3) unfolding mini_fetched_def mini_exit_def s(1) rbind_simps .
  then have "messages (mini_env mini_setscene) st1 st2" unfolding messages_def using s(2) by (intro r_into_rtranclp) blast
  then have "holds_of (\<lambda>st. round (mini_env mini_setscene) st st2) (mini_start mini_setscene)"
    by (intro mini_round [OF i(1) mini_states(1) _ s(4)]) (simp add: mini_fetching_def [symmetric] s(1) holds_of_Inr)
  then obtain st0 where st0: "mini_start mini_setscene = Inr st0" "round (mini_env mini_setscene) st0 st2" by (auto simp: holds_of_Inr)
  have "holds_of (\<lambda>st. round (mini_env mini_setscene) st st3) mini_fetched"
    by (rule mini_round [OF i(2) mini_states(3) _ s(6)]) (simp add: mini_skipped_def [symmetric] s(5) holds_of_Inr messages_def)
  then have "round (mini_env mini_setscene) st2 st3" unfolding s(3) holds_of_def by simp
  with st0 have rounds: "(round (mini_env mini_setscene) ^^ 2) st0 st3" by (auto simp: numeral_2_eq_2)
  have "forks mini_world" "rv_setscenewhitelist (mini_env mini_setscene) = None" by (simp_all add: forks_def mini_world_def mini_env_def)
  moreover from this have "reach (mini_env mini_setscene) plain_message forks mini_entries st0"
    using mini_reach_start [where W = forks and M = plain_message and P = mini_is_running and setscene = mini_setscene] mini_states(1) st0(1) by (auto simp: holds_of_Inr)
  ultimately have "2 \<le> Suc (work_left (mini_env mini_setscene) mini_entries st0)" using rounds_bounded [OF mini_graph _ _ rounds] by blast
  with st0 rounds show ?thesis by blast
qed

section \<open>Well-formed states\<close>

text \<open>C6. Let a well-formed queue be executed while the workers report only tasks they were given and no changed hashes, no setscene whitelist is enforced, and workers for fakeroot
  tasks can be started. Then every state the execution reaches is well-formed: the queue holds the tasks and dependencies it was started with, only tasks of the queue are started, what is complete or
  has failed was started before, and a setscene task in progress is marked as started.\<close>

theorem execution_well_formed:
  assumes "graph_ok entries" and "rv_setscenewhitelist env = None" and "reach env plain_message forks entries st"
  shows "dict_keys (rx_entries (x_rq st)) = dict_keys entries \<and> deps_of (rx_entries (x_rq st)) = deps_of entries \<and> st_total (rx_stats (x_rq st)) = int (length entries) \<and>
    set (rx_running (x_rq st)) \<subseteq> set (dict_keys entries) \<and> set (rx_complete (x_rq st)) \<subseteq> set (rx_running (x_rq st)) \<and>
    set (rx_failed (x_rq st)) \<subseteq> set (rx_running (x_rq st)) \<and> set (sn_live (x_scene st)) \<subseteq> set (sn_running (x_scene st))"
  using reach_facts [OF assms(3,1)] assms(2) by (simp add: order_ok_def counted_def count_ok_def rq_count_def scene_count_def del: set_map)

theorem execution_well_formed_witness:
  "holds_of (\<lambda>st. set (rx_running (x_rq st)) \<subseteq> set (dict_keys mini_entries) \<and> set (rx_complete (x_rq st)) \<subseteq> set (rx_running (x_rq st)) \<and> ''a:do_x'' \<in> set (rx_running (x_rq st)))
     mini_working"
proof -
  have f: "forks mini_world" "rv_setscenewhitelist (mini_env mini_setscene) = None" by (simp_all add: forks_def mini_world_def mini_env_def)
  have m: "holds_of (plain_message (Exitcode ''a:do_y'' 0)) mini_fetching" by code_simp
  obtain st where st: "mini_working = Inr st" "reach (mini_env mini_setscene) plain_message forks mini_entries st" "''a:do_x'' \<in> set (rx_running (x_rq st))"
    using holds_of_both [OF mini_reach(2) [where W = forks and M = plain_message, OF f(1) m] mini_states(5)] by blast
  show ?thesis using execution_well_formed [OF mini_graph f(2) st(2)] st(3) unfolding st(1) holds_of_def sum.case by blast
qed

section \<open>A build that ends well\<close>

lemma scene_half_state:
  assumes "execute_scene env w st = Inr (p, st')"
  shows "rx_state (x_rq st') = rx_state (x_rq st)"
  using assms by (cases rule: execute_scene_cases) (auto dest: pick_setscene_rq)

lemma run_setscene_state: "run_setscene env w t st = Inr (b, st') \<Longrightarrow> rx_state (x_rq st') = rx_state (x_rq st)"
  by (erule run_setscene_cases) (auto dest!: scene_ops_rq(1,2) start_setscene_rx(1))

lemma execute_tasks_success:
  assumes "execute_tasks env w st = Inr (r, st')" "rx_state (x_rq st) = runQueueRunning" "rx_state (x_rq st') = runQueueComplete"
    "\<not> rv_setsceneonly env" "rv_setscenewhitelist env = None" "forks w" "silent w"
  shows "st_total (rx_stats (x_rq st')) = 0 \<and> sn_live (x_scene st') = [] \<or> \<not> sanity_errors st' \<and> rx_failed (x_rq st') = [] \<and>
    st_active (rx_stats (x_rq st')) \<le> 0 \<and> st_active (sn_stats (x_scene st')) \<le> 0"
proof -
  have last: ?thesis if "no_more_tasks env w st1 = Inr (r, st')" "rx_state (x_rq st1) = runQueueRunning" for st1
    using that(1)
  proof (cases rule: no_more_tasks_cases)
    case wait
    then show ?thesis using that(2) assms(3,7) by (simp add: read_workers_def silent_def)
  next
    case (deferred key t rest)
    then show ?thesis using scene_ops_rq(2) [OF deferred(2)] that(2) assms(3) by simp
  next
    case failed
    then show ?thesis using assms(3) by (simp add: set_state_def)
  next
    case complete
    then show ?thesis by (auto simp: set_state_def sanity_errors_def)
  qed
  show ?thesis using assms(1)
  proof (cases rule: execute_tasks_cases)
    case (scene_end st1)
    from scene_end(2) show ?thesis
    proof (cases rule: end_scene_cases)
      case empty
      then show ?thesis using scene_end(2) by (auto simp: set_state_def end_scene_def scene_finished_def split: if_splits)
    qed (use assms(3,4) in \<open>auto simp: set_state_def\<close>)
  next
    case (idle st1 st2 st3)
    have "rx_state (x_rq st3) = runQueueRunning"
      using assms(2) holdoff_same_work(2) [OF idle(1)] end_scene_state [OF idle(2)] next_task_same_work(2) [OF idle(3)] by simp
    then show ?thesis by (rule last [OF idle(4)])
  next
    case (task st1 st2 st3 t b st4)
    have "rx_state (x_rq st4) = runQueueRunning"
      using assms(2) holdoff_same_work(2) [OF task(1)] end_scene_state [OF task(2)] next_task_same_work(2) [OF task(3)] task_onward(4) [OF task(4) assms(5,6)] by simp
    then show ?thesis using task(5) last assms(3) by (auto split: if_splits)
  qed
qed



end
