(* ===== verification/BB_ExecEnforced.thy ===== *)
theory BB_ExecEnforced
  imports BB_ExecOrder
begin

text \<open>
  A build that enforces a setscene whitelist and goes on after failures: a task that the whitelist rejects is failed but not marked as started, so the scheduler gives it out again
  and the build never ends.
\<close>

section \<open>The scheduler repeats its choice\<close>

lemma count_running_again:
  assumes "rfold (count_running rq) ts (l, c) = Inr (l', c')"
  shows "map_of l \<subseteq>\<^sub>m map_of l' \<and> (\<forall>l''. map_of l' \<subseteq>\<^sub>m map_of l'' \<longrightarrow> rfold (count_running rq) ts (l'', c) = Inr (l'', c'))"
  using assms
proof (induction ts arbitrary: l c)
  case (Cons t ts)
  then obtain l1 c1 where s: "count_running rq t (l, c) = Inr (l1, c1)" "rfold (count_running rq) ts (l1, c1) = Inr (l', c')" by auto
  obtain n where n: "taskname_from_tid t = Inr n" using s(1) by (auto simp: count_running_def)
  have l1: "l1 = (if has_key l n then l else dict_set n (rq_number_threads rq n) l)"
    using s(1) n by (auto simp: count_running_def Let_def split: if_splits)
  have le: "map_of l \<subseteq>\<^sub>m map_of l1" unfolding l1 by (auto simp: map_le_def has_key_def dom_def)
  have key: "\<exists>x. map_of l1 n = Some x" unfolding l1 by (auto simp: has_key_def)
  note ih = Cons.IH [OF s(2)]
  have "rfold (count_running rq) (t # ts) (l'', c) = Inr (l'', c')" if l'': "map_of l' \<subseteq>\<^sub>m map_of l''" for l''
  proof -
    have "map_of l1 \<subseteq>\<^sub>m map_of l''" using ih l'' map_le_trans by blast
    with key have same: "map_of l'' n = map_of l1 n" by (auto simp: map_le_def dom_def)
    then have "count_running rq t (l'', c) = Inr (l'', c1)"
      using s(1) n key unfolding l1 by (auto simp: count_running_def Let_def has_key_def split: if_splits)
    then show ?thesis using ih l'' by simp
  qed
  then show ?case using le ih map_le_trans by blast
qed simp

lemma ensure_again: "ensure_rev_prio_map entries sc = Inr sc' \<Longrightarrow> ensure_rev_prio_map entries sc' = Inr sc'"
  by (auto simp: ensure_rev_prio_map_def split: if_splits)

lemma ensure_fields:
  "ensure_rev_prio_map entries sc = Inr sc' \<Longrightarrow> sc_buildable sc' = sc_buildable sc \<and> sc_skip_maxthread sc' = sc_skip_maxthread sc \<and> sc_stamps sc' = sc_stamps sc"
  by (auto simp: ensure_rev_prio_map_def split: if_splits)

lemma choose_again:
  assumes "choose_task entries rq counts ts sc = Inr (r, sc')"
  shows "choose_task entries rq counts ts sc' = Inr (r, sc')" "sc_buildable sc' = sc_buildable sc" "sc_skip_maxthread sc' = sc_skip_maxthread sc" "sc_stamps sc' = sc_stamps sc"
  using assms ensure_again ensure_fields unfolding choose_task_def by auto

lemma next_buildable_task_again:
  assumes "next_buildable_task entries rq sc = Inr (r, sc')"
  shows "next_buildable_task entries rq sc' = Inr (r, sc')"
proof -
  let ?sc1 = "sc\<lparr>sc_buildable := filter (\<lambda>t. t \<notin> set (rq_running rq)) (sc_buildable sc)\<rparr>"
  let ?b = "candidates rq (sc_buildable ?sc1)"
  show ?thesis
  proof (cases "?b = []")
    case True
    then show ?thesis using assms by (auto simp: next_buildable_task_def Let_def)
  next
    case False
    then obtain limits counts where c: "rfold (count_running rq) (filter (\<lambda>t. t \<notin> set (rq_complete rq)) (rq_running rq)) (sc_skip_maxthread ?sc1, []) = Inr (limits, counts)"
      using assms by (auto simp: next_buildable_task_def Let_def)
    let ?sc2 = "?sc1\<lparr>sc_skip_maxthread := limits\<rparr>"
    define pick where "pick = (\<lambda>sc2. case ?b of
                [tid] \<Rightarrow>
                  rbind (taskname_from_tid tid) (\<lambda>taskname.
                  rbind (over_limit limits counts taskname) (\<lambda>over.
                  if over then Inr (None, sc2)
                  else rbind (dict_lookup (sc_stamps sc2) tid) (\<lambda>stamp.
                       if stamp \<notin> set (map snd (rq_build_stamps rq)) then Inr (Some tid, sc2)
                       else choose_task entries rq counts [] sc2)))
              | _ \<Rightarrow> choose_task entries rq counts ?b sc2)"
    have p: "pick ?sc2 = Inr (r, sc')"
      using assms unfolding next_buildable_task_def Let_def if_not_P [OF False] c rbind_simps prod.case pick_def .
    have f: "sc_buildable sc' = sc_buildable ?sc2 \<and> sc_skip_maxthread sc' = limits \<and> pick sc' = Inr (r, sc')"
    proof (cases "?b" rule: remdups_adj.cases)
      case 1
      with False show ?thesis by simp
    next
      case (2 tid)
      have pk: "pick sc2 = rbind (taskname_from_tid tid) (\<lambda>taskname. rbind (over_limit limits counts taskname) (\<lambda>over. if over then Inr (None, sc2)
          else rbind (dict_lookup (sc_stamps sc2) tid) (\<lambda>stamp.
               if stamp \<notin> set (map snd (rq_build_stamps rq)) then Inr (Some tid, sc2) else choose_task entries rq counts [] sc2)))" for sc2
        unfolding pick_def 2 by simp
      obtain taskname over where o: "taskname_from_tid tid = Inr taskname" "over_limit limits counts taskname = Inr over" using p unfolding pk by auto
      show ?thesis
      proof (cases over)
        case True
        then show ?thesis using p unfolding pk o rbind_simps by auto
      next
        case no: False
        then obtain stamp where st: "dict_lookup (sc_stamps ?sc2) tid = Inr stamp" using p unfolding pk o rbind_simps by auto
        show ?thesis
        proof (cases "stamp \<in> set (map snd (rq_build_stamps rq))")
          case False
          then have "sc' = ?sc2" using p no unfolding pk o st rbind_simps by simp
          then show ?thesis using p by simp
        next
          case True
          then have ch: "choose_task entries rq counts [] ?sc2 = Inr (r, sc')" using p no unfolding pk o st rbind_simps by simp
          note a = choose_again [OF ch]
          have st': "dict_lookup (sc_stamps sc') tid = Inr stamp" using st a(4) by simp
          have "pick sc' = Inr (r, sc')" unfolding pk o st' rbind_simps using a(1) no True by simp
          then show ?thesis using a(2,3) by simp
        qed
      qed
    next
      case (3 t1 t2 ts)
      have pk: "pick sc2 = choose_task entries rq counts ?b sc2" for sc2 unfolding pick_def 3 by simp
      show ?thesis using choose_again [OF p [unfolded pk]] unfolding pk by simp
    qed
    have id: "sc'\<lparr>sc_buildable := filter (\<lambda>t. t \<notin> set (rq_running rq)) (sc_buildable sc')\<rparr> = sc'" "sc'\<lparr>sc_skip_maxthread := limits\<rparr> = sc'" using f by auto
    have b: "candidates rq (sc_buildable sc') = ?b" using f by simp
    have c': "rfold (count_running rq) (filter (\<lambda>t. t \<notin> set (rq_complete rq)) (rq_running rq)) (sc_skip_maxthread sc', []) = Inr (limits, counts)"
      using count_running_again [OF c] f by simp
    show ?thesis
      unfolding next_buildable_task_def Let_def id b if_not_P [OF False] c' rbind_simps prod.case using f unfolding pick_def by blast
  qed
qed

section \<open>The check does not change\<close>

lemma stamp_deps_flat: "stamp_deps rc se fs t1 counts False ds cache = Inr (b, cache') \<Longrightarrow> cache' = cache"
  by (induction ds) (auto split: verdict.splits, metis verdict.exhaust)

lemma check_stamp_flat:
  assumes "check_stamp_task n se fs t name False cache = Inr (b, cache')"
  shows "cache' = cache"
proof (cases n)
  case 0
  then show ?thesis using assms by (simp add: check_stamp_task.simps(1))
next
  case (Suc m)
  show ?thesis using assms unfolding Suc check_stamp_task.simps(2) Let_def
    by (auto elim!: rbind_elim simp del: rbind_eq_Inr split: option.splits if_splits dest!: stamp_deps_flat)
qed

lemma stamp_current_flat: "stamp_current env t n False rx = Inr (b, rx') \<Longrightarrow> rx' = rx"
  by (auto simp: stamp_current_def dest: check_stamp_flat)

text \<open>What the check of the whitelist reads.\<close>

definition check_core :: "'g rqexe \<Rightarrow> string list \<times> rtentries \<times> 'g \<times> files \<times> (string, bool) dict" where
  "check_core rx = (rx_covered rx, rx_entries rx, rx_g rx, rx_files rx, rx_stampcache rx)"

lemma stamp_current_core:
  assumes "stamp_current env t n False rx = Inr (b, rx)" "check_core rx' = check_core rx"
  shows "stamp_current env t n False rx' = Inr (b, rx')"
proof -
  obtain c where c: "check_stamp_task (Suc (length (rx_entries rx))) (stamp_env_of env rx) (rx_files rx) t (Some n) False (rx_stampcache rx) = Inr (b, c)"
    using assms(1) by (auto simp: stamp_current_def)
  have "stamp_env_of env rx' = stamp_env_of env rx" using assms(2) by (simp add: stamp_env_of_def check_core_def)
  then have c': "check_stamp_task (Suc (length (rx_entries rx'))) (stamp_env_of env rx') (rx_files rx') t (Some n) False (rx_stampcache rx') = Inr (b, rx_stampcache rx')"
    using c check_stamp_flat [OF c] assms(2) by (simp add: check_core_def)
  show ?thesis unfolding stamp_current_def c' rbind_simps prod.case by simp
qed

lemma whitelist_again:
  assumes "check_setscenewhitelist env t rx = Inr (True, rx1)" "check_core rx' = check_core rx"
  shows "check_setscenewhitelist env t rx' = Inr (True, rx')"
proof -
  obtain mc fn n taskfn where sp: "split_tid_mcfn t = Inr (mc, fn, n, taskfn)" using assms(1) by (auto simp: check_setscenewhitelist_def)
  have nc: "t \<notin> set (rx_covered rx)" using assms(1) sp by (auto simp: check_setscenewhitelist_def)
  then obtain b rx2 where s: "stamp_current env t n False rx = Inr (b, rx2)" using assms(1) sp by (auto simp: check_setscenewhitelist_def)
  have "rx2 = rx" by (rule stamp_current_flat [OF s])
  note s' = stamp_current_core [OF s [unfolded this] assms(2)]
  have nc': "t \<notin> set (rx_covered rx')" using nc assms(2) by (simp add: check_core_def)
  note e = assms(1) [unfolded check_setscenewhitelist_def sp rbind_simps prod.case if_not_P [OF nc] s]
  show ?thesis
    unfolding check_setscenewhitelist_def sp rbind_simps prod.case if_not_P [OF nc'] s' using e by (auto split: if_splits)
qed

section \<open>The build never ends\<close>

text \<open>The scheduler gives out a task that the whitelist rejects, and nothing else is to do.\<close>

definition rejected_choice :: "'g rqenv \<Rightarrow> string \<Rightarrow> 'g xstate \<Rightarrow> bool" where
  "rejected_choice env t st \<longleftrightarrow> rx_state (x_rq st) = runQueueRunning \<and> rx_sqdone (x_rq st) \<and> \<not> sn_need_update (x_scene st) \<and>
     rx_updated (x_rq st) = [] \<and> rx_pending (x_rq st) = [] \<and> (\<exists>st1. next_task env st = Inr (Some t, st1)) \<and>
     (\<exists>rx1. check_setscenewhitelist env t (x_rq st) = Inr (True, rx1))"

lemma rejected_again:
  assumes "rejected_choice env t st" "silent w" "rv_setscenewhitelist env \<noteq> None" "map_of (rv_taskData env) [] = Some td" "\<not> td_abort td"
  shows "\<exists>st'. execute env w st = Inr (RTrue, st') \<and> rejected_choice env t st' \<and> rx_failed (x_rq st') = rx_failed (x_rq st) @ [t] \<and>
    rx_running (x_rq st') = rx_running (x_rq st) \<and> rx_complete (x_rq st') = rx_complete (x_rq st) \<and> st_active (rx_stats (x_rq st')) = st_active (rx_stats (x_rq st)) - 1"
proof -
  let ?rx = "x_rq st"
  have r: "rx_state ?rx = runQueueRunning" "rx_sqdone ?rx" "\<not> sn_need_update (x_scene st)" "rx_updated ?rx = []" "rx_pending ?rx = []"
    using assms(1) by (simp_all add: rejected_choice_def)
  obtain st1 where nt: "next_task env st = Inr (Some t, st1)" using assms(1) by (auto simp: rejected_choice_def)
  have ns: "\<not> rv_setsceneonly env" using nt by (auto simp: next_task_def)
  obtain sc where sc: "sched_next (rx_entries ?rx) (sched_view env st) (rx_sched ?rx) = Inr (Some t, sc)" "st1 = st\<lparr>x_rq := ?rx\<lparr>rx_sched := sc\<rparr>\<rparr>"
    using nt ns by (auto simp: next_task_def)
  have can: "can_start_task env st" by (rule ccontr) (use sc(1) in \<open>simp add: sched_next_def sched_view_def Let_def\<close>)
  have nb: "next_buildable_task (rx_entries ?rx) (sched_view env st) (rx_sched ?rx) = Inr (Some t, sc)"
    using sc(1) can by (simp add: sched_next_def sched_view_def Let_def)
  let ?rx1 = "?rx\<lparr>rx_sched := sc\<rparr>"
  let ?rx' = "?rx1\<lparr>rx_stats := taskFailed (rx_stats ?rx), rx_failed := rx_failed ?rx @ [t]\<rparr>"
  let ?st' = "st\<lparr>x_rq := ?rx'\<rparr>"
  obtain rx0 where chk: "check_setscenewhitelist env t ?rx = Inr (True, rx0)" using assms(1) by (auto simp: rejected_choice_def)
  have chk1: "check_setscenewhitelist env t ?rx1 = Inr (True, ?rx1)" "check_setscenewhitelist env t ?rx' = Inr (True, ?rx')"
    by (rule whitelist_again [OF chk], simp add: check_core_def)+
  obtain mc fn n taskfn where sp: "split_tid_mcfn t = Inr (mc, fn, n, taskfn)" using chk by (auto simp: check_setscenewhitelist_def)
  have chk': "check_setscenewhitelist env t (x_rq st1) = Inr (True, x_rq st1)" using chk1(1) unfolding sc(2) by simp
  have tf: "task_fail env t (x_rq st1) = Inr ?rx'" unfolding sc(2) using assms(4,5) by (simp add: task_fail_def Let_def)
  have run: "run_task env w t st1 = Inr (True, ?st')"
    unfolding run_task_def sp rbind_simps prod.case if_not_P [OF assms(3)] chk' Let_def if_P [OF TrueI] tf by (simp add: sc(2))
  have e: "end_scene env st = (False, st)" using r(2) by (simp add: end_scene_def scene_finished_def)
  have u: "update_holdofftasks env st = Inr st" using r(3) by (simp add: update_holdofftasks_def Let_def)
  have "execute_tasks env w st = Inr (RTrue, ?st')"
    unfolding execute_tasks_def u e nt run rbind_simps prod.case bool.case option.case by simp
  then have ex: "execute env w st = Inr (RTrue, ?st')"
    using assms(2) r by (simp add: execute_def read_workers_def silent_def execute_scene_def)
  have can': "can_start_task env ?st'" using can by (simp add: can_start_task_def taskFailed_def)
  have "sched_view env ?st' = sched_view env st" using can can' by (simp add: sched_view_def Let_def)
  then have "sched_next (rx_entries ?rx') (sched_view env ?st') (rx_sched ?rx') = Inr (Some t, sc)"
    using next_buildable_task_again [OF nb] can by (simp add: sched_next_def sched_view_def Let_def)
  then have "next_task env ?st' = Inr (Some t, ?st'\<lparr>x_rq := ?rx'\<lparr>rx_sched := sc\<rparr>\<rparr>)" using ns by (simp add: next_task_def)
  then have "rejected_choice env t ?st'" using r chk1(2) unfolding rejected_choice_def by auto
  with ex show ?thesis by (intro exI [of _ ?st']) (simp add: taskFailed_def)
qed

text \<open>C32. When a setscene whitelist is enforced and the build goes on after failures, a task that the whitelist rejects is failed but not marked as started: once the scheduler gives it out,
  any number of calls of \<^verbatim>\<open>execute\<close> fail it once each, the queue stays in the running state, and the counter of active tasks falls below zero. The build never ends.\<close>

theorem whitelist_never_ends:
  assumes "rejected_choice env t st" and "rv_setscenewhitelist env \<noteq> None" and "map_of (rv_taskData env) [] = Some td" and "\<not> td_abort td" and "silent w"
  shows "\<exists>st'. ((\<lambda>st st'. execute env w st = Inr (RTrue, st')) ^^ n) st st' \<and> rx_state (x_rq st') = runQueueRunning \<and>
    rx_failed (x_rq st') = rx_failed (x_rq st) @ replicate n t \<and> rx_running (x_rq st') = rx_running (x_rq st) \<and>
    rx_complete (x_rq st') = rx_complete (x_rq st) \<and> st_active (rx_stats (x_rq st')) = st_active (rx_stats (x_rq st)) - int n"
proof -
  have "\<exists>st'. ((\<lambda>st st'. execute env w st = Inr (RTrue, st')) ^^ n) st st' \<and> rejected_choice env t st' \<and>
    rx_failed (x_rq st') = rx_failed (x_rq st) @ replicate n t \<and> rx_running (x_rq st') = rx_running (x_rq st) \<and>
    rx_complete (x_rq st') = rx_complete (x_rq st) \<and> st_active (rx_stats (x_rq st')) = st_active (rx_stats (x_rq st)) - int n"
  proof (induction n)
    case 0
    then show ?case using assms(1) by (intro exI [of _ st]) simp
  next
    case (Suc n)
    then obtain st' where st': "((\<lambda>st st'. execute env w st = Inr (RTrue, st')) ^^ n) st st'" "rejected_choice env t st'"
      "rx_failed (x_rq st') = rx_failed (x_rq st) @ replicate n t" "rx_running (x_rq st') = rx_running (x_rq st)"
      "rx_complete (x_rq st') = rx_complete (x_rq st)" "st_active (rx_stats (x_rq st')) = st_active (rx_stats (x_rq st)) - int n" by blast
    obtain st'' where s: "execute env w st' = Inr (RTrue, st'')" "rejected_choice env t st''" "rx_failed (x_rq st'') = rx_failed (x_rq st') @ [t]"
      "rx_running (x_rq st'') = rx_running (x_rq st')" "rx_complete (x_rq st'') = rx_complete (x_rq st')"
      "st_active (rx_stats (x_rq st'')) = st_active (rx_stats (x_rq st')) - 1" using rejected_again [OF st'(2) assms(5,2-4)] by blast
    show ?case by (rule exI [of _ st'']) (use st' s relpowp_Suc_I [OF st'(1) s(1)] in \<open>auto simp: replicate_append_same\<close>)
  qed
  then show ?thesis by (auto simp: rejected_choice_def)
qed

text \<open>The small build without setscene tasks, with a whitelist that names another recipe, after its first call.\<close>

definition mini_enforced_env :: "unit rqenv" where
  "mini_enforced_env = (mini_env [])\<lparr>rv_setscenewhitelist := Some [''b:*''], rv_taskData := [([], mini_taskdata\<lparr>td_abort := False\<rparr>)]\<rparr>"

definition mini_enforced :: "unit xstate result" where
  "mini_enforced = rbind (scene_init mini_enforced_env mini_world ''speed'' mini_entries () []) (\<lambda>st.
     rbind (execute mini_enforced_env mini_world st) (\<lambda>(_, st'). Inr st'))"

definition mini_is_rejected :: "unit xstate \<Rightarrow> bool" where
  "mini_is_rejected st \<longleftrightarrow> rx_state (x_rq st) = runQueueRunning \<and> rx_sqdone (x_rq st) \<and> \<not> sn_need_update (x_scene st) \<and> rx_updated (x_rq st) = [] \<and> rx_pending (x_rq st) = [] \<and>
     (case next_task mini_enforced_env st of Inr (Some t, _) \<Rightarrow> t = ''a:do_y'' | _ \<Rightarrow> False) \<and>
     (case check_setscenewhitelist mini_enforced_env ''a:do_y'' (x_rq st) of Inr (b, _) \<Rightarrow> b | _ \<Rightarrow> False)"

theorem whitelist_never_ends_witness:
  "holds_of (\<lambda>st. \<exists>st'. ((\<lambda>st st'. execute mini_enforced_env mini_world st = Inr (RTrue, st')) ^^ 100) st st' \<and> rx_state (x_rq st') = runQueueRunning \<and>
     rx_failed (x_rq st') = rx_failed (x_rq st) @ replicate 100 ''a:do_y'') mini_enforced"
proof -
  have "holds_of mini_is_rejected mini_enforced" by code_simp
  then obtain st where st: "mini_enforced = Inr st" "mini_is_rejected st" unfolding holds_of_Inr by blast
  have "rejected_choice mini_enforced_env ''a:do_y'' st"
    using st(2) unfolding mini_is_rejected_def rejected_choice_def by (auto split: sum.splits prod.splits option.splits)
  moreover have "rv_setscenewhitelist mini_enforced_env \<noteq> None" "map_of (rv_taskData mini_enforced_env) [] = Some (mini_taskdata\<lparr>td_abort := False\<rparr>)"
    by (simp_all add: mini_enforced_env_def)
  moreover have "\<not> td_abort (mini_taskdata\<lparr>td_abort := False\<rparr>)" by simp
  ultimately obtain st' where "((\<lambda>st st'. execute mini_enforced_env mini_world st = Inr (RTrue, st')) ^^ 100) st st'" "rx_state (x_rq st') = runQueueRunning"
      "rx_failed (x_rq st') = rx_failed (x_rq st) @ replicate 100 ''a:do_y''"
    using whitelist_never_ends [OF _ _ _ _ mini_silent, where n = 100] by blast
  then show ?thesis unfolding st(1) holds_of_def sum.case by blast
qed

end
