(* ===== verification/Spec2Isabelle.thy ===== *)
theory Spec2Isabelle
  imports BB_World BB_Unresolved BB_Scheduler BB_Sigdump BB_DataFlaws BB_PRTable BB_ExecProgress BB_ExecEnforced
begin

text \<open>
  A verification library for BitBake, the build engine of this repository. All paths below are relative to
  \<^verbatim>\<open>src/sources/core/bitbake/lib/bb\<close>. BitBake parses recipes into a data store, keeps an index over all recipes, chooses for every
  name that is asked for a recipe that provides it, follows the dependencies until nothing is open, turns the result into
  a queue of tasks, signs every task with a hash and hands the tasks to workers in the order a scheduler chooses. The development follows this
  path from the strings in a recipe to the end of the last task.

  \<^bold>\<open>Conventions.\<close> Definitions carry the names of the methods they translate. A class is a record and a method
  is a function on it; an exception is a value: \<open>Inl\<close> of the result type where the state is lost with the exception, \<open>Raise\<close> of the type
  \<open>outcome\<close> where a caller catches it and goes on with the state. Dictionaries are association lists in insertion order. Python sets are lists without
  duplicates; where the iteration order of a set can influence the result, the theorems hold for every order of the list. Log messages are left out.
  Inline Python expressions, regular expressions that users supply, hash functions, the file system, random identifiers, the hash equivalence server and
  the stack frame of a caller are parameters of the definitions that use them.

  \<^bold>\<open>Parts.\<close>

  \<^item> \<open>BB_Prelude\<close>, \<open>BB_Outcome\<close>: exceptions, results, Python strings, dictionaries and sets; stateful methods that may raise. The
    locale \<open>graded_evolution\<close> is the common contract of loops that change a state step by step.
  \<^item> \<open>BB_Version\<close> (\<^verbatim>\<open>utils.py\<close>: \<^verbatim>\<open>explode_version\<close>, \<^verbatim>\<open>vercmp_part\<close>, \<^verbatim>\<open>vercmp\<close>, \<^verbatim>\<open>vercmp_string\<close>): the locale \<open>comparison\<close> holds what
    a three-way comparison has to satisfy; it is interpreted on token lists, epochs, pairs and whole versions, so the comparison of versions is a total preorder.
  \<^item> \<open>BB_Deps\<close> (\<^verbatim>\<open>utils.py\<close>: \<^verbatim>\<open>explode_deps\<close>, \<^verbatim>\<open>explode_dep_versions2\<close>, \<^verbatim>\<open>join_deps\<close>): parsing and printing of dependency strings.
  \<^item> \<open>BB_Cache\<close> (\<^verbatim>\<open>cache.py\<close>: \<^verbatim>\<open>CoreRecipeInfo\<close>, \<^verbatim>\<open>CacheData\<close>, virtual file names): the indexes mirror the recipes that were entered.
  \<^item> \<open>BB_Providers\<close>, \<open>BB_World\<close> (\<^verbatim>\<open>providers.py\<close>): preferred and latest versions, the filters for build and run time, regular
    expressions for dynamic packages, the world target.
  \<^item> \<open>BB_TaskData\<close> (\<^verbatim>\<open>taskdata.py\<close>: the class \<^verbatim>\<open>TaskData\<close>), with its theory in \<open>BB_Failure\<close> (the failure of a recipe propagates exactly to
    the least set of recipes that cannot be built without it; locale \<open>failing\<close>), \<open>BB_Resolve\<close> (the invariant of the database and every method that keeps it) and
    \<open>BB_Unresolved\<close> (the loop over open targets ends with nothing open).
  \<^item> \<open>BB_Tid\<close>, \<open>BB_Weights\<close>, \<open>BB_Scheduler\<close> (\<^verbatim>\<open>runqueue.py\<close>): task identifiers, statistics, task weights with the search for
    dependency loops, and the three schedulers; the locale \<open>priority_order\<close> is what a priority map owes to the choice of the next task.
  \<^item> \<open>BB_Prepare\<close> (\<^verbatim>\<open>runqueue.py\<close>: \<^verbatim>\<open>RunQueueData.prepare\<close>), with its theory in \<open>BB_Recursive\<close> (step A, the dependencies), \<open>BB_Active\<close>
    (steps B to D, marking, pruning and reverse dependencies), \<open>BB_Hashes\<close> (the hash loop) and \<open>BB_Queue\<close> (the method as a whole).
  \<^item> \<open>BB_Stamps\<close> (\<^verbatim>\<open>runqueue.py\<close>: \<^verbatim>\<open>check_stamp_task\<close>; \<^verbatim>\<open>build.py\<close>: \<^verbatim>\<open>stamp_internal\<close>, \<^verbatim>\<open>make_stamp\<close>): stamp files, shell patterns and the question
    whether a task has to run; the inductive predicate \<open>current\<close> says what the cached, recursive check is meant to compute.
  \<^item> \<open>BB_Scene\<close>, \<open>BB_SceneInit\<close>, \<open>BB_Execute\<close> (\<^verbatim>\<open>runqueue.py\<close>: \<^verbatim>\<open>RunQueueExecute\<close>, \<^verbatim>\<open>build_scenequeue_data\<close>, \<^verbatim>\<open>update_scenequeue_data\<close>,
    \<^verbatim>\<open>_execute_runqueue\<close>): the execution of a queue. The first has the state, a record with one half for tasks and one for setscene tasks, and the methods that move tasks through it, the second the
    construction, the third \<^verbatim>\<open>execute\<close> and \<^verbatim>\<open>finish\<close>. A call is a function of the state and of a record \<open>world\<close> with everything that comes from outside during the call.
  \<^item> \<open>BB_ExecOrder\<close> has the steps of an execution as an inductive relation (messages of workers, calls of \<^verbatim>\<open>execute\<close> and \<^verbatim>\<open>finish\<close>, interrupts, changes of the file system) and the states it
    reaches; a call that reads messages in between is such steps in a row (\<open>execute_split\<close>). The locale \<open>exec_invariant\<close> reduces an invariant of these states to the parts of a call; it is interpreted for the order of tasks and, in \<open>BB_ExecCount\<close>, for the counters of active
    tasks. \<open>BB_ExecProgress\<close> has termination and the meaning of success, \<open>BB_ExecEnforced\<close> the enforced whitelist, \<open>BB_ExecSample\<close> a small build on which the theorems are tried.
  \<^item> \<open>BB_Vardeps\<close> (\<^verbatim>\<open>data.py\<close>: \<^verbatim>\<open>generate_dependencies\<close>, \<^verbatim>\<open>generate_dependency_hash\<close>), \<open>BB_Siggen\<close> (\<^verbatim>\<open>siggen.py\<close>: the
    generators), \<open>BB_Signing\<close> (generator and run queue together) and \<open>BB_Sigdump\<close> (signature files and their comparison). The locale \<open>siggen_contract\<close> is the
    interface between the run queue and a generator; it is interpreted on the generators \<open>noop\<close>, \<open>basic\<close>, \<open>basichash\<close> and the hash equivalence mix-in.
  \<^item> \<open>BB_Cow\<close> (\<^verbatim>\<open>COW.py\<close>) and \<open>BB_History\<close> (\<^verbatim>\<open>data_smart.py\<close>: \<^verbatim>\<open>VariableHistory\<close>, \<^verbatim>\<open>infer_caller_details\<close>): copy-on-write dictionaries as an explicit store of
    classes and objects with addresses, and the histories kept in them.
  \<^item> \<open>BB_DataStore\<close>, \<open>BB_Data\<close> (\<^verbatim>\<open>data_smart.py\<close>: \<^verbatim>\<open>VariableParse\<close>, \<^verbatim>\<open>DataSmart\<close>; \<^verbatim>\<open>data.py\<close>: \<^verbatim>\<open>expandKeys\<close>): the data store. The first has the state, the expansion of
    references and the lookup, the second the methods that change a store. Their theory is in \<open>BB_DataFrame\<close> (the locales \<open>lookup_relation\<close>, \<open>finalize_relation\<close> and
    \<open>update_relation\<close>: a relation between states that includes the elementary changes includes the methods), \<open>BB_DataInv\<close> (lookups change no variable, the
    invariant of a store, iteration), \<open>BB_DataLaws\<close> (setting, appending, prepending), \<open>BB_Overrides\<close> (which override decides) and \<open>BB_DataFlaws\<close> (removing, and where the store departs from what its
    clients expect).

  \<^item> \<open>BB_PRTable\<close> (\<^verbatim>\<open>../prserv/db.py\<close>: \<^verbatim>\<open>PRTable\<close>): the numbers of the PR service, its SQL statements as functions on the rows.

  \<^bold>\<open>What is shown.\<close> Every run queue that \<^verbatim>\<open>prepare\<close> delivers is closed, mirrored and free of circular dependencies, and without \<^verbatim>\<open>--runall\<close> and \<^verbatim>\<open>--runonly\<close> it holds exactly
  the tasks that the targets need; \<^verbatim>\<open>--runall\<close> fails on tasks whose dependencies were pruned; the
  recursive dependencies are complete; the weights satisfy their recurrence; hashes are computed after those of the dependencies and depend on exactly the reachable variables,
  the hashes of the dependencies, file checksums and taints; a signature file reproduces both hashes. The speed scheduler starts a heaviest startable task and the completion scheduler regroups the same
  order. The resolution of targets ends, and a failure reaches exactly the recipes that depend on it without an alternative. Operations on a copy of a
  copy-on-write dictionary are invisible in the original. In the data store a variable reads back as it was set, appends and prepends add to its value, the last active override decides, and
  a lookup changes nothing but the cache and the computed overrides, unless an inline Python expression does. The PR service hands out consecutive numbers with history and never a smaller one without. In the execution a task starts only after everything it depends on, at most \<^verbatim>\<open>BB_NUMBER_THREADS\<close>
  tasks are in progress, the number of rounds is bounded by the tasks that are left, and a build that is declared complete has run everything. The order holds for every execution, the other three as long as no hash
  changes during the build, no setscene whitelist is enforced and workers for fakeroot tasks can be started; with a whitelist and without abort the build may never end. Where the code departs from its comments or loses data, a theorem says on which inputs.

  \<^bold>\<open>Bounds.\<close> Recursion that is not structural has an explicit bound, and a theorem that the bound suffices. The marking of tasks is bounded by the number of
  entries of the queue plus one, since a chain of unmarked tasks has no repetition. The hash loop needs at most as many rounds as there are tasks, because in an acyclic graph every round
  deals with one. \<^verbatim>\<open>add_unresolved\<close> needs at most twice as many passes as there are names in the dependencies, targets and files, plus one. The failure
  propagation is bounded by the number of targets and files that have not failed. The loop over recursive tasks is bounded by the number of dependencies that can still be added. The
  work lists of the variable dependencies are bounded by the number of variables, the renaming of a history by its length. The check of stamps
  needs at most one level more than there are tasks. Five loops of the execution have bounds without a theorem that they suffice, and run into an exception of the model beyond them: the walk to the tasks below a setscene task (two rounds for
  every task, since at least every second round finishes a new one), the failure of hard dependencies (every level decides a setscene task), the collapse of the graph and the search for tasks that cannot be skipped
  (the number of tasks and two), and the loops after changed hashes (the number of tasks and one). The theorems about the execution speak of calls that return; that a build ends is stated for the rounds whose calls return. In the data store
  the depth of nested lookups is bounded by a parameter, beyond which the model raises \<^verbatim>\<open>RecursionError\<close> as the interpreter does; the loop that strips overrides is a
  total function, because the names get shorter; the loop of \<^verbatim>\<open>expandWithRefs\<close>, which need not end, has a bound on its rounds and the result \<open>Loops\<close> beyond it, and no theorem rests on that result.

  \<^bold>\<open>Simplifications.\<close> A copy of a data store holds the dictionaries its original has at that moment, while in the source later changes of the original show through. The integers of the PR
  table are unbounded. The messages about new hashes that go to the workers are not recorded in the state. The steps of the copy-on-write store never store one of its own dictionaries or sets as a
  value, and the steps of the data store do not include \<^verbatim>\<open>renameVar\<close>, which is defined but does not keep the naming of overriding variables.

  \<^bold>\<open>Not modelled.\<close> The worker processes themselves and the framing of their messages, the command server, fetchers and user interfaces are process control, network and terminal output.
  The parser of recipe files interprets regular expressions and runs embedded Python; the metadata it produces is the
  interface \<open>metadata\<close> that the recipe cache reads. The hash of a data store (\<^verbatim>\<open>get_hash\<close>) is left out, because the values it collects are arbitrary Python objects. The on-disk cache, the network part of the SQLite services, Toaster, the image tools, the vendored
  libraries and the GNU Radio flow graphs of the board support are outside of the build engine's core.
\<close>

end
